(* ===== verification/Wl_Prelude.thy ===== *)
theory Wl_Prelude
  imports Main "HOL-Library.Word" "HOL-Library.Monad_Syntax"
begin

text \<open>
  Shared vocabulary of the development.

  Memory the code reaches through a pointer or an iterator is a list, a pointer into it is an
  index. C++ gives no meaning to a read or a write outside the object, so every access that the
  code does not guard itself goes through \<^const>\<open>Option.bind\<close> and the operations
  \<open>rd\<close>, \<open>wr\<close>, \<open>rd_bytes\<close> and \<open>memcpy\<close> below: \<^const>\<open>None\<close> is undefined
  behaviour, never an error code of the program.
\<close>

unbundle bit_operations_syntax

type_synonym u8 = "8 word"
type_synonym u16 = "16 word"
type_synonym u32 = "32 word"
type_synonym bytes = "u8 list"

text \<open>
  The node ids of the radios of iSense, Contiki, TinyOS, TriSOS and iOS are \<^verbatim>\<open>uint16_t\<close>,
  their message ids and sizes \<^verbatim>\<open>uint8_t\<close>; these are the template parameters the routing
  components are instantiated with here.
\<close>

type_synonym node_id = u16

named_theorems mem_simps \<open>equations of the memory accesses\<close>

section \<open>Memory accesses\<close>

definition rd :: "'a list \<Rightarrow> nat \<Rightarrow> 'a option" where
  "rd m i = (if i < length m then Some (m ! i) else None)"

definition wr :: "'a list \<Rightarrow> nat \<Rightarrow> 'a \<Rightarrow> 'a list option" where
  "wr m i v = (if i < length m then Some (m[i := v]) else None)"

definition rd_bytes :: "'a list \<Rightarrow> nat \<Rightarrow> nat \<Rightarrow> 'a list option" where
  "rd_bytes m i n = (if i + n \<le> length m then Some (take n (drop i m)) else None)"

text \<open>\<open>memcpy m i vs\<close> copies the elements \<open>vs\<close> to index \<open>i\<close> of \<open>m\<close>.\<close>

definition memcpy :: "'a list \<Rightarrow> nat \<Rightarrow> 'a list \<Rightarrow> 'a list option" where
  "memcpy m i vs =
     (if i + length vs \<le> length m then Some (take i m @ vs @ drop (i + length vs) m) else None)"

lemma rd_Some [mem_simps]: "rd m i = Some v \<longleftrightarrow> i < length m \<and> m ! i = v"
  by (auto simp: rd_def)

lemma rd_None: "rd m i = None \<longleftrightarrow> length m \<le> i"
  by (auto simp: rd_def)

lemma wr_Some [mem_simps]: "wr m i v = Some m' \<longleftrightarrow> i < length m \<and> m' = m[i := v]"
  by (auto simp: wr_def)

lemma wr_None: "wr m i v = None \<longleftrightarrow> length m \<le> i"
  by (auto simp: wr_def)

lemma rd_in [simp]: "i < length m \<Longrightarrow> rd m i = Some (m ! i)"
  by (simp add: rd_def)

lemma wr_in [simp]: "i < length m \<Longrightarrow> wr m i v = Some (m[i := v])"
  by (simp add: wr_def)

lemma wr_length: "wr m i v = Some m' \<Longrightarrow> length m' = length m"
  by (auto simp: mem_simps)

lemma rd_bytes_Some [mem_simps]:
  "rd_bytes m i n = Some vs \<longleftrightarrow> i + n \<le> length m \<and> vs = take n (drop i m)"
  by (auto simp: rd_bytes_def)

lemma memcpy_Some [mem_simps]:
  "memcpy m i vs = Some m' \<longleftrightarrow>
     i + length vs \<le> length m \<and> m' = take i m @ vs @ drop (i + length vs) m"
  by (auto simp: memcpy_def)

lemma memcpy_length: "memcpy m i vs = Some m' \<Longrightarrow> length m' = length m"
  by (auto simp: mem_simps)

lemma memcpy_nth_outside:
  assumes "memcpy m i vs = Some m'" and "j < i \<or> i + length vs \<le> j" and "j < length m"
  shows "m' ! j = m ! j"
  using assms by (auto simp: mem_simps nth_append min_def)

lemma rd_bytes_memcpy:
  assumes "memcpy m i vs = Some m'"
  shows "rd_bytes m' i (length vs) = Some vs"
  using assms by (auto simp: mem_simps)

lemma memcpy_singleton: "memcpy m i [v] = wr m i v"
  by (auto simp: memcpy_def wr_def upd_conv_take_nth_drop)

lemma memcpy_Nil: "i \<le> length m \<Longrightarrow> memcpy m i [] = Some m"
  by (simp add: memcpy_def)

text \<open>Storing the elements of a list one after the other is \<open>memcpy\<close>.\<close>

lemma memcpy_Cons:
  "memcpy m i (v # vs) = Option.bind (wr m i v) (\<lambda>m'. memcpy m' (Suc i) vs)"
proof (cases "i + length (v # vs) \<le> length m")
  case True
  then have i: "i < length m" by simp
  have "take (Suc i) (m[i := v]) = take i m @ [v]"
    using i by (simp add: take_Suc_conv_app_nth)
  then show ?thesis
    using True i by (simp add: memcpy_def)
next
  case False
  then show ?thesis by (auto simp: memcpy_def wr_def)
qed

lemma memcpy_snoc:
  "memcpy m i (vs @ [v]) = Option.bind (memcpy m i vs) (\<lambda>m'. wr m' (i + length vs) v)"
proof (induction vs arbitrary: m i)
  case Nil
  then show ?case
    by (auto simp: memcpy_singleton memcpy_def[of m i "[]"] wr_None wr_def)
next
  case (Cons x xs)
  show ?case
    by (cases "wr m i x") (simp_all add: memcpy_Cons Cons.IH)
qed

text \<open>The same copy made from the last element down, as the little endian loops do it.\<close>

lemma memcpy_snoc_first:
  "memcpy m i (vs @ [v]) = Option.bind (wr m (i + length vs) v) (\<lambda>m'. memcpy m' i vs)"
  by (auto simp: memcpy_def wr_def drop_update_swap upd_conv_take_nth_drop)

section \<open>Lists and options\<close>

lemma take_Suc_nth: "i < length xs \<Longrightarrow> take (Suc i) xs = take i xs @ [xs ! i]"
  by (rule take_Suc_conv_app_nth)

lemma bind_eq_Some_iff [mem_simps]:
  "Option.bind x f = Some y \<longleftrightarrow> (\<exists>z. x = Some z \<and> f z = Some y)"
  by (cases x) auto

lemma bind_eq_None_iff:
  "Option.bind x f = None \<longleftrightarrow> x = None \<or> (\<exists>z. x = Some z \<and> f z = None)"
  by (cases x) auto

section \<open>Bytes\<close>

lemma byte_bits:
  "x = y \<longleftrightarrow> (\<forall>i \<in> {0, 1, 2, 3, 4, 5, 6, 7}. bit x i = bit y i)" for x y :: u8
proof
  assume *: "\<forall>i \<in> {0, 1, 2, 3, 4, 5, 6, 7}. bit x i = bit y i"
  show "x = y"
  proof (rule bit_word_eqI)
    fix i assume "i < LENGTH(8)"
    then have "i = 0 \<or> i = 1 \<or> i = 2 \<or> i = 3 \<or> i = 4 \<or> i = 5 \<or> i = 6 \<or> i = 7" by auto
    then show "bit x i = bit y i" using * by auto
  qed
qed simp

section \<open>What a component asks of the operating system\<close>

text \<open>
  The radio, the timer and the registered receivers of a component are outside the component.
  A handler returns, beside its new state, the calls it makes to them, in program order.
\<close>

datatype os_call =
    Enable_radio
  | Reg_recv_callback
  | Set_timer nat
  | Radio_send node_id bytes
  | Notify_receivers node_id nat bytes
  | Unreg_recv_callback
  | Disable_radio

text \<open>The return codes of the operating system model that the components use.\<close>

datatype os_code = SUCCESS | ERR_UNSPEC | ERR_NOMEM | ERR_BUSY | ERR_NOTIMPL | ERR_NETDOWN
  | ERR_HOSTUNREACH

text \<open>The constants of the radio and of the operating system a component is instantiated with.\<close>

datatype endianness = WISELIB_LITTLE_ENDIAN | WISELIB_BIG_ENDIAN

record os_model =
  os_endianness :: endianness
  NULL_NODE_ID :: node_id
  BROADCAST_ADDRESS :: node_id
  MAX_MESSAGE_LENGTH :: nat

text \<open>The instance the examples use: the values of the iSense radio.\<close>

definition demo_os :: os_model where
  "demo_os = \<lparr>os_endianness = WISELIB_LITTLE_ENDIAN, NULL_NODE_ID = 0, BROADCAST_ADDRESS = 0xffff,
     MAX_MESSAGE_LENGTH = 116\<rparr>"

text \<open>The value that an assignment to a signed variable of 8 bits (\<^verbatim>\<open>signed char\<close>, \<^verbatim>\<open>int8_t\<close>)
  leaves.\<close>

definition schar :: "int \<Rightarrow> int" where
  "schar i = sint (word_of_int i :: 8 word)"

lemma schar_id [simp]: "- 128 \<le> i \<Longrightarrow> i < 128 \<Longrightarrow> schar i = i"
  unfolding schar_def by transfer (simp add: signed_take_bit_int_eq_self)

lemma schar_wrap: "128 \<le> i \<Longrightarrow> i < 256 \<Longrightarrow> schar i = i - 256"
proof -
  assume i: "128 \<le> i" "i < 256"
  have "(word_of_int (i - 256) :: 8 word) = word_of_int i - word_of_int 256" by (rule wi_hom_sub [symmetric])
  also have "\<dots> = word_of_int i" by simp
  finally show ?thesis using i schar_id [of "i - 256"] unfolding schar_def by (simp only:)
qed

end
