(* ===== verification/Vector_Static.thy ===== *)
theory Vector_Static
  imports Wl_Prelude
begin

text \<open>
  \<^verbatim>\<open>util/pstl/vector_static.h\<close>: a vector in a fixed array. The array is \<open>vec\<close>
  (\<^verbatim>\<open>VECTOR_SIZE\<close> is its length; the trailing underscore of the members is dropped), \<open>start_\<close> always points to its first element and is
  left out, \<open>finish\<close> is the index \<^verbatim>\<open>finish - start_\<close>. Iterators are indices into
  the array. Operations that dereference an iterator without checking it return an option,
  \<^const>\<open>None\<close> being an access outside the array. The abstract value is the list
  \<open>elems\<close>, the lemmas say what each operation does to it.
\<close>

record 'a vector_static =
  vec :: "'a list"
  finish :: nat

definition vs_inv :: "('a, 'b) vector_static_scheme \<Rightarrow> bool" where
  "vs_inv v \<longleftrightarrow> finish v \<le> length (vec v)"

definition elems :: "('a, 'b) vector_static_scheme \<Rightarrow> 'a list" where
  "elems v = take (finish v) (vec v)"

section \<open>Construction, capacity, access\<close>

text \<open>The default constructor: the array itself keeps whatever its elements hold.\<close>

definition vs_new :: "'a list \<Rightarrow> 'a vector_static" where
  "vs_new storage = \<lparr>vec = storage, finish = 0\<rparr>"

definition vs_copy :: "('a, 'b) vector_static_scheme \<Rightarrow> ('a, 'c) vector_static_scheme \<Rightarrow> ('a, 'b) vector_static_scheme" where
  "vs_copy this other = this\<lparr>vec := vec other, finish := finish other\<rparr>"

definition vs_begin :: "('a, 'b) vector_static_scheme \<Rightarrow> nat" where
  "vs_begin v = 0"

definition vs_end :: "('a, 'b) vector_static_scheme \<Rightarrow> nat" where
  "vs_end v = finish v"

definition vs_size :: "('a, 'b) vector_static_scheme \<Rightarrow> nat" where
  "vs_size v = finish v"

definition vs_max_size :: "('a, 'b) vector_static_scheme \<Rightarrow> nat" where
  "vs_max_size v = length (vec v)"

definition vs_empty :: "('a, 'b) vector_static_scheme \<Rightarrow> bool" where
  "vs_empty v \<longleftrightarrow> vs_size v = 0"

definition vs_at :: "('a, 'b) vector_static_scheme \<Rightarrow> nat \<Rightarrow> 'a option" where
  "vs_at v n = rd (vec v) n"

definition vs_set_at :: "('a, 'b) vector_static_scheme \<Rightarrow> nat \<Rightarrow> 'a \<Rightarrow> ('a, 'b) vector_static_scheme option" where
  "vs_set_at v n x = do { m \<leftarrow> wr (vec v) n x; Some (v\<lparr>vec := m\<rparr>) }"

definition vs_front :: "('a, 'b) vector_static_scheme \<Rightarrow> 'a option" where
  "vs_front v = rd (vec v) (vs_begin v)"

definition vs_back :: "('a, 'b) vector_static_scheme \<Rightarrow> 'a option" where
  "vs_back v = (if vs_end v = 0 then None else rd (vec v) (vs_end v - 1))"

section \<open>Modifiers\<close>

definition vs_clear :: "('a, 'b) vector_static_scheme \<Rightarrow> ('a, 'b) vector_static_scheme" where
  "vs_clear v = v\<lparr>finish := 0\<rparr>"

definition vs_push_back :: "('a, 'b) vector_static_scheme \<Rightarrow> 'a \<Rightarrow> ('a, 'b) vector_static_scheme" where
  "vs_push_back v x =
     (if finish v \<noteq> length (vec v)
      then v\<lparr>vec := (vec v)[finish v := x], finish := finish v + 1\<rparr>
      else v)"

definition vs_pop_back :: "('a, 'b) vector_static_scheme \<Rightarrow> ('a, 'b) vector_static_scheme" where
  "vs_pop_back v = (if finish v \<noteq> 0 then v\<lparr>finish := finish v - 1\<rparr> else v)"

fun vs_push_all :: "('a, 'b) vector_static_scheme \<Rightarrow> 'a list \<Rightarrow> ('a, 'b) vector_static_scheme" where
  "vs_push_all v [] = v"
| "vs_push_all v (x # xs) = vs_push_all (vs_push_back v x) xs"

text \<open>\<open>assign\<close> from a range, the range given as the elements it holds.\<close>

definition vs_assign_range :: "('a, 'b) vector_static_scheme \<Rightarrow> 'a list \<Rightarrow> ('a, 'b) vector_static_scheme" where
  "vs_assign_range v xs = vs_push_all (vs_clear v) xs"

definition vs_assign :: "('a, 'b) vector_static_scheme \<Rightarrow> nat \<Rightarrow> 'a \<Rightarrow> ('a, 'b) vector_static_scheme" where
  "vs_assign v n u = vs_push_all (vs_clear v) (replicate n u)"

text \<open>\<open>insert(position, x)\<close>: a full vector is left alone and \<open>end()\<close> returned.\<close>

function vs_shift :: "'a list \<Rightarrow> nat \<Rightarrow> nat \<Rightarrow> 'a \<Rightarrow> ('a list \<times> 'a) option" where
  "vs_shift m it fin cur =
     (if it \<noteq> fin
      then do { temp \<leftarrow> rd m it;
                m' \<leftarrow> wr m it cur;
                vs_shift m' (Suc it) fin temp }
      else Some (m, cur))"
  by pat_completeness auto
termination
  by (relation "measure (\<lambda>(m, it, fin, cur). length m - it)") (auto simp: mem_simps)

declare vs_shift.simps [simp del]

definition vs_insert ::
  "('a, 'b) vector_static_scheme \<Rightarrow> nat \<Rightarrow> 'a \<Rightarrow> (('a, 'b) vector_static_scheme \<times> nat) option" where
  "vs_insert v position x =
     (if vs_size v = vs_max_size v then Some (v, finish v)
      else do { (m, cur) \<leftarrow> vs_shift (vec v) position (vs_end v) x;
                Some (vs_push_back (v\<lparr>vec := m\<rparr>) cur, position) })"

text \<open>\<open>erase(position)\<close> moves every later element down, reading one element beyond each.\<close>

function vs_close_gap :: "'a list \<Rightarrow> nat \<Rightarrow> nat \<Rightarrow> 'a list option" where
  "vs_close_gap m cur fin =
     (if cur \<noteq> fin
      then do { x \<leftarrow> rd m (Suc cur);
                m' \<leftarrow> wr m cur x;
                vs_close_gap m' (Suc cur) fin }
      else Some m)"
  by pat_completeness auto
termination
  by (relation "measure (\<lambda>(m, cur, fin). length m - cur)") (auto simp: mem_simps)

declare vs_close_gap.simps [simp del]

definition vs_erase ::
  "('a, 'b) vector_static_scheme \<Rightarrow> nat \<Rightarrow> (('a, 'b) vector_static_scheme \<times> nat) option" where
  "vs_erase v position =
     (if position = vs_end v then Some (v, vs_end v)
      else do { m \<leftarrow> vs_close_gap (vec v) position (vs_end v);
                Some (vs_pop_back (v\<lparr>vec := m\<rparr>), position) })"

text \<open>\<open>erase(first, last)\<close> moves the elements from \<open>last\<close> on down to \<open>first\<close>.\<close>

function vs_move_down :: "'a list \<Rightarrow> nat \<Rightarrow> nat \<Rightarrow> nat \<Rightarrow> ('a list \<times> nat) option" where
  "vs_move_down m first lst fin =
     (if lst \<noteq> fin
      then do { x \<leftarrow> rd m lst;
                m' \<leftarrow> wr m first x;
                vs_move_down m' (Suc first) (Suc lst) fin }
      else Some (m, first))"
  by pat_completeness auto
termination
  by (relation "measure (\<lambda>(m, first, lst, fin). length m - lst)") (auto simp: mem_simps)

declare vs_move_down.simps [simp del]

definition vs_erase_range ::
  "('a, 'b) vector_static_scheme \<Rightarrow> nat \<Rightarrow> nat \<Rightarrow> (('a, 'b) vector_static_scheme \<times> nat) option" where
  "vs_erase_range v first lst =
     (if first = vs_end v \<or> first = lst then Some (v, first)
      else do { (m, f) \<leftarrow> vs_move_down (vec v) first lst (vs_end v);
                Some (v\<lparr>vec := m, finish := f\<rparr>, first) })"

definition vs_swap ::
  "'a vector_static \<Rightarrow> 'a vector_static \<Rightarrow> 'a vector_static \<times> 'a vector_static" where
  "vs_swap this other =
     (let tmp = this; this1 = vs_copy this other; other1 = vs_copy other tmp in (this1, other1))"

function vs_find_from :: "('a, 'b) vector_static_scheme \<Rightarrow> 'a \<Rightarrow> nat \<Rightarrow> nat" where
  "vs_find_from v x it =
     (if it < vs_end v then (if vec v ! it = x then it else vs_find_from v x (Suc it))
      else vs_end v)"
  by pat_completeness auto
termination
  by (relation "measure (\<lambda>(v, x, it). vs_end v - it)") auto

declare vs_find_from.simps [simp del]

definition vs_find :: "('a, 'b) vector_static_scheme \<Rightarrow> 'a \<Rightarrow> nat" where
  "vs_find v x = vs_find_from v x (vs_begin v)"

section \<open>What the operations do to the elements\<close>

lemma length_elems: "vs_inv v \<Longrightarrow> length (elems v) = vs_size v"
  by (simp add: elems_def vs_inv_def vs_size_def)

lemma elems_nth: "vs_inv v \<Longrightarrow> i < vs_size v \<Longrightarrow> elems v ! i = vec v ! i"
  by (simp add: elems_def vs_size_def)

lemma vs_new_elems: "elems (vs_new st) = []" "vs_inv (vs_new st)"
  by (simp_all add: vs_new_def elems_def vs_inv_def)

lemma vs_clear_elems: "elems (vs_clear v) = []" "vs_inv (vs_clear v)"
  by (simp_all add: vs_clear_def elems_def vs_inv_def)

lemma vs_copy_elems:
  "elems (vs_copy v w) = elems w" "vs_inv w \<Longrightarrow> vs_inv (vs_copy v w)"
  by (simp_all add: vs_copy_def elems_def vs_inv_def)

lemma vs_swap_elems:
  "vs_swap v w = (v', w') \<Longrightarrow> elems v' = elems w \<and> elems w' = elems v"
  by (auto simp: vs_swap_def vs_copy_elems Let_def)

lemma vs_push_back_inv: "vs_inv v \<Longrightarrow> vs_inv (vs_push_back v x)"
  by (auto simp: vs_inv_def vs_push_back_def)

lemma vs_push_back_max_size [simp]: "vs_max_size (vs_push_back v x) = vs_max_size v"
  by (simp add: vs_push_back_def vs_max_size_def)

lemma vs_push_back_elems:
  "vs_inv v \<Longrightarrow>
     elems (vs_push_back v x) = (if vs_size v < vs_max_size v then elems v @ [x] else elems v)"
  by (auto simp: vs_inv_def vs_push_back_def elems_def vs_size_def vs_max_size_def take_Suc_nth)

lemma vs_pop_back_inv: "vs_inv v \<Longrightarrow> vs_inv (vs_pop_back v)"
  by (auto simp: vs_inv_def vs_pop_back_def)

lemma vs_pop_back_max_size [simp]: "vs_max_size (vs_pop_back v) = vs_max_size v"
  by (simp add: vs_pop_back_def vs_max_size_def)

lemma vs_pop_back_elems: "vs_inv v \<Longrightarrow> elems (vs_pop_back v) = butlast (elems v)"
  by (auto simp: vs_inv_def vs_pop_back_def elems_def butlast_take)

lemma vs_push_all_inv: "vs_inv v \<Longrightarrow> vs_inv (vs_push_all v xs)"
  by (induction xs arbitrary: v) (auto simp: vs_push_back_inv)

lemma vs_push_all_max_size [simp]: "vs_max_size (vs_push_all v xs) = vs_max_size v"
  by (induction xs arbitrary: v) auto

lemma vs_push_all_elems:
  "vs_inv v \<Longrightarrow>
     elems (vs_push_all v xs) = elems v @ take (vs_max_size v - vs_size v) xs"
proof (induction xs arbitrary: v)
  case Nil
  then show ?case by simp
next
  case (Cons x xs)
  have i: "vs_inv (vs_push_back v x)" using Cons.prems by (rule vs_push_back_inv)
  have sz: "vs_size (vs_push_back v x) = (if vs_size v < vs_max_size v then Suc (vs_size v) else vs_size v)"
    using length_elems [OF i] length_elems [OF Cons.prems] Cons.prems
    by (simp add: vs_push_back_elems split: if_splits)
  show ?case
    using Cons i sz by (auto simp: vs_push_back_elems take_Cons' Suc_diff_Suc)
qed

lemma vs_assign_range_elems:
  "elems (vs_assign_range v xs) = take (vs_max_size v) xs" "vs_inv (vs_assign_range v xs)"
proof -
  have "vs_max_size (vs_clear v) = vs_max_size v" "vs_size (vs_clear v) = 0"
    by (simp_all add: vs_clear_def vs_max_size_def vs_size_def)
  then show "elems (vs_assign_range v xs) = take (vs_max_size v) xs"
    by (simp add: vs_assign_range_def vs_push_all_elems vs_clear_elems)
  show "vs_inv (vs_assign_range v xs)"
    by (simp add: vs_assign_range_def vs_push_all_inv vs_clear_elems)
qed

lemma vs_assign_elems:
  "elems (vs_assign v n u) = replicate (min n (vs_max_size v)) u" "vs_inv (vs_assign v n u)"
  using vs_assign_range_elems [of v "replicate n u"]
  by (simp_all add: vs_assign_def vs_assign_range_def min.commute)

text \<open>Inserting shifts the elements behind the position up by one.\<close>

lemma vs_shift_Some:
  "it \<le> fin \<Longrightarrow> fin \<le> length m \<Longrightarrow>
     vs_shift m it fin x = Some (take it m @ butlast (x # take (fin - it) (drop it m)) @ drop fin m,
       last (x # take (fin - it) (drop it m)))"
proof (induction m it fin x rule: vs_shift.induct)
  case (1 m it fin cur)
  show ?case
  proof (cases "it = fin")
    case True
    then show ?thesis using 1(3) by (simp add: vs_shift.simps [of m fin fin])
  next
    case False
    then have it: "it < fin" "it < length m" using 1 by auto
    let ?m = "m[it := cur]"
    have d: "take (fin - it) (drop it m) = m ! it # take (fin - Suc it) (drop (Suc it) m)"
      using it by (simp add: Cons_nth_drop_Suc [symmetric] Suc_diff_Suc [symmetric])
    have IH: "vs_shift ?m (Suc it) fin (m ! it) =
        Some (take (Suc it) ?m @ butlast (m ! it # take (fin - Suc it) (drop (Suc it) ?m)) @ drop fin ?m,
          last (m ! it # take (fin - Suc it) (drop (Suc it) ?m)))"
      using 1 it by auto
    have t: "take (Suc it) ?m = take it m @ [cur]" using it by (simp add: take_Suc_nth)
    show ?thesis
      unfolding vs_shift.simps [of m it fin] d using it IH t by auto
  qed
qed

lemma vs_insert_elems:
  assumes "vs_inv v" and "p \<le> vs_size v" and "vs_size v < vs_max_size v"
  obtains v' where "vs_insert v p x = Some (v', p)" and "vs_inv v'"
    and "elems v' = take p (elems v) @ x # drop p (elems v)"
    and "vs_max_size v' = vs_max_size v"
proof -
  let ?f = "finish v" and ?m = "vec v"
  let ?seg = "x # take (?f - p) (drop p ?m)"
  let ?m' = "take p ?m @ butlast ?seg @ drop ?f ?m"
  have le: "p \<le> ?f" "?f < length ?m" using assms by (auto simp: vs_size_def vs_max_size_def)
  have seg: "length (butlast ?seg) = ?f - p" using le by (auto simp: Suc_diff_Suc)
  let ?w = "v\<lparr>vec := ?m'\<rparr>"
  have sh: "vs_shift ?m p ?f x = Some (?m', last ?seg)"
    by (rule vs_shift_Some) (use le in auto)
  have len: "length ?m' = length ?m" using le seg by (auto simp: min_def simp del: length_butlast)
  have w: "vs_inv ?w" "vs_max_size ?w = vs_max_size v" "vs_size ?w = vs_size v"
    using len le by (simp_all add: vs_inv_def vs_max_size_def vs_size_def)
  have el: "elems ?w = take p ?m @ butlast ?seg"
    using le seg by (auto simp: elems_def min_def simp del: length_butlast)
  have "elems (vs_push_back ?w (last ?seg)) = take p ?m @ butlast ?seg @ [last ?seg]"
    using w assms(3) el by (simp add: vs_push_back_elems)
  also have "\<dots> = take p ?m @ ?seg" by (simp only: append_butlast_last_id list.distinct not_False_eq_True)
  finally have e: "elems (vs_push_back ?w (last ?seg)) = take p ?m @ ?seg" .
  have r: "vs_insert v p x = Some (vs_push_back ?w (last ?seg), p)"
    using assms(3) sh by (simp add: vs_insert_def vs_end_def del: butlast.simps last.simps)
  have "take p ?m @ ?seg = take p (elems v) @ x # drop p (elems v)"
    using le by (simp add: elems_def min_def drop_take)
  with e have e': "elems (vs_push_back ?w (last ?seg)) = take p (elems v) @ x # drop p (elems v)"
    by (simp only:)
  have s: "vs_max_size (vs_push_back ?w (last ?seg)) = vs_max_size v"
    using w(2) by (simp only: vs_push_back_max_size)
  show ?thesis
    by (rule that [OF r vs_push_back_inv [OF w(1)] e' s])
qed

lemma vs_insert_full:
  "vs_size v = vs_max_size v \<Longrightarrow> vs_insert v p x = Some (v, vs_end v)"
  by (simp add: vs_insert_def vs_end_def)

text \<open>
  \<open>erase\<close> reads one element behind the last one, so it is only defined while the array has
  room behind the vector.
\<close>

lemma vs_close_gap_Some:
  "cur \<le> fin \<Longrightarrow> fin < length m \<Longrightarrow>
     vs_close_gap m cur fin = Some (take cur m @ take (fin - cur) (drop (Suc cur) m) @ drop fin m)"
proof (induction m cur fin rule: vs_close_gap.induct)
  case (1 m cur fin)
  show ?case
  proof (cases "cur = fin")
    case True
    then show ?thesis by (simp add: vs_close_gap.simps [of m fin fin])
  next
    case False
    then have c: "cur < fin" "Suc cur < length m" using 1 by auto
    let ?m = "m[cur := m ! Suc cur]"
    have d: "take (fin - cur) (drop (Suc cur) m) = m ! Suc cur # take (fin - Suc cur) (drop (Suc (Suc cur)) m)"
      using c by (simp add: Cons_nth_drop_Suc [symmetric] Suc_diff_Suc [symmetric])
    have "vs_close_gap ?m (Suc cur) fin =
        Some (take (Suc cur) ?m @ take (fin - Suc cur) (drop (Suc (Suc cur)) ?m) @ drop fin ?m)"
      using 1 c by auto
    moreover have "take (Suc cur) ?m = take cur m @ [m ! Suc cur]" using c by (simp add: take_Suc_nth)
    ultimately show ?thesis
      unfolding vs_close_gap.simps [of m cur fin] d using c by auto
  qed
qed

lemma vs_close_gap_None:
  "cur < fin \<Longrightarrow> length m \<le> fin \<Longrightarrow> vs_close_gap m cur fin = None"
proof (induction m cur fin rule: vs_close_gap.induct)
  case (1 m cur fin)
  show ?case
  proof (cases "Suc cur < length m")
    case True
    then show ?thesis
      unfolding vs_close_gap.simps [of m cur fin] using 1 by auto
  next
    case False
    then show ?thesis
      unfolding vs_close_gap.simps [of m cur fin] using 1 by (auto simp: rd_def)
  qed
qed

lemma vs_erase_elems:
  assumes "vs_inv v" and "p < vs_size v" and "vs_size v < vs_max_size v"
  obtains v' where "vs_erase v p = Some (v', p)" and "vs_inv v'"
    and "elems v' = take p (elems v) @ drop (Suc p) (elems v)"
    and "vs_max_size v' = vs_max_size v"
proof -
  let ?f = "finish v" and ?m = "vec v"
  let ?m' = "take p ?m @ take (?f - p) (drop (Suc p) ?m) @ drop ?f ?m"
  let ?w = "v\<lparr>vec := ?m'\<rparr>"
  have le: "p < ?f" "?f < length ?m" using assms by (auto simp: vs_size_def vs_max_size_def)
  have len: "length ?m' = length ?m" using le by (auto simp: min_def)
  have r: "vs_erase v p = Some (vs_pop_back ?w, p)"
    using le vs_close_gap_Some [of p ?f ?m] by (simp add: vs_erase_def vs_end_def)
  have w: "vs_inv ?w" "vs_max_size ?w = vs_max_size v"
    using len le by (simp_all add: vs_inv_def vs_max_size_def)
  have "elems (vs_pop_back ?w) = take (?f - 1) ?m'"
    using le len by (simp add: vs_pop_back_def elems_def)
  also have "\<dots> = take p ?m @ take (?f - 1 - p) (take (?f - p) (drop (Suc p) ?m))"
    using le by simp
  also have "\<dots> = take p (elems v) @ drop (Suc p) (elems v)"
    using le by (auto simp: elems_def min_def drop_take)
  finally have e: "elems (vs_pop_back ?w) = take p (elems v) @ drop (Suc p) (elems v)" .
  have s: "vs_max_size (vs_pop_back ?w) = vs_max_size v"
    using w(2) by (simp only: vs_pop_back_max_size)
  show ?thesis
    by (rule that [OF r vs_pop_back_inv [OF w(1)] e s])
qed

lemma vs_erase_end: "vs_erase v (vs_end v) = Some (v, vs_end v)"
  by (simp add: vs_erase_def)

lemma vs_erase_full_undefined:
  "p < vs_size v \<Longrightarrow> vs_size v = vs_max_size v \<Longrightarrow> vs_erase v p = None"
  by (simp add: vs_erase_def vs_end_def vs_size_def vs_max_size_def vs_close_gap_None)

text \<open>\<open>find\<close> returns the first position of the value, \<open>end()\<close> when there is none.\<close>

lemma vs_find_from_takeWhile:
  "vs_inv v \<Longrightarrow> it \<le> vs_end v \<Longrightarrow>
     vs_find_from v x it = it + length (takeWhile (\<lambda>y. y \<noteq> x) (drop it (elems v)))"
proof (induction v x it rule: vs_find_from.induct)
  case (1 v x it)
  show ?case
  proof (cases "it < vs_end v")
    case True
    then have "drop it (elems v) = vec v ! it # drop (Suc it) (elems v)"
      using 1(2) length_elems [of v] elems_nth [of v it]
      by (simp add: Cons_nth_drop_Suc [symmetric] vs_end_def vs_size_def)
    then show ?thesis
      using 1 True by (auto simp: vs_find_from.simps [of v x it])
  next
    case False
    then have "vs_find_from v x it = vs_end v" by (subst vs_find_from.simps) simp
    then show ?thesis
      using False 1(2,3) length_elems [of v] by (simp add: vs_end_def vs_size_def)
  qed
qed

lemma vs_find_takeWhile:
  "vs_inv v \<Longrightarrow> vs_find v x = length (takeWhile (\<lambda>y. y \<noteq> x) (elems v))"
  by (simp add: vs_find_def vs_find_from_takeWhile vs_begin_def)

lemma vs_find_end_iff:
  assumes "vs_inv v"
  shows "vs_find v x = vs_end v \<longleftrightarrow> x \<notin> set (elems v)"
proof -
  have l: "vs_end v = length (elems v)"
    using length_elems [OF assms] by (simp add: vs_size_def vs_end_def)
  have "length (takeWhile P xs) = length xs \<longleftrightarrow> takeWhile P xs = xs" for P and xs :: "'a list"
    by (metis takeWhile_eq_take take_all_iff order_refl)
  then show ?thesis
    using assms l by (auto simp: vs_find_takeWhile takeWhile_eq_all_conv)
qed

section \<open>Loops over the elements\<close>

text \<open>Storing back the elements a loop over a vector has changed.\<close>

definition vs_store :: "'a vector_static \<Rightarrow> 'a list \<Rightarrow> 'a vector_static" where
  "vs_store v xs = v\<lparr>vec := xs @ drop (finish v) (vec v)\<rparr>"

lemma vs_store_elems:
  assumes "vs_inv v" and "length xs = length (elems v)"
  shows "elems (vs_store v xs) = xs" "vs_inv (vs_store v xs)" "vs_size (vs_store v xs) = vs_size v"
    "vs_max_size (vs_store v xs) = vs_max_size v"
  using assms by (auto simp: elems_def vs_store_def vs_inv_def vs_size_def vs_max_size_def)

end
