(* ===== verification/Radio_Base.thy ===== *)
theory Radio_Base
  imports Vector_Static
begin

text \<open>
  \<^verbatim>\<open>util/base_classes/radio_base.h\<close>: registration of receive callbacks. A delegate is
  an option, \<^const>\<open>None\<close> the default constructed one. Delegates have no
  \<^verbatim>\<open>operator==\<close>; comparing one with the default constructed delegate converts both to
  \<^verbatim>\<open>bool\<close> and so tests whether it is empty.
\<close>

type_synonym 'c callbacks = "'c option vector_static"

function reg_loop :: "'c callbacks \<Rightarrow> 'c \<Rightarrow> nat \<Rightarrow> ('c callbacks \<times> int) option" where
  "reg_loop cb d i =
     (if i < vs_size cb
      then do { c \<leftarrow> vs_at cb i;
                if c = None then do { cb' \<leftarrow> vs_set_at cb i (Some d); Some (cb', int i) }
                else reg_loop cb d (Suc i) }
      else Some (cb, -1))"
  by pat_completeness auto
termination
  by (relation "measure (\<lambda>(cb, d, i). vs_size cb - i)") auto

declare reg_loop.simps [simp del]

text \<open>\<open>n\<close> is \<^verbatim>\<open>MAX_RECEIVERS\<close>; the result is the index, or \<open>-1\<close>.\<close>

definition reg_recv_callback :: "nat \<Rightarrow> 'c callbacks \<Rightarrow> 'c \<Rightarrow> ('c callbacks \<times> int) option" where
  "reg_recv_callback n cb d =
     (let cb' = (if vs_empty cb then vs_assign cb n None else cb) in reg_loop cb' d 0)"

definition unreg_recv_callback :: "'c callbacks \<Rightarrow> nat \<Rightarrow> 'c callbacks option" where
  "unreg_recv_callback cb idx = vs_set_at cb idx None"

text \<open>The delegates \<^verbatim>\<open>notify_receivers\<close> calls, in order.\<close>

function notify_loop :: "'c callbacks \<Rightarrow> nat \<Rightarrow> 'c list" where
  "notify_loop cb it =
     (if it < vs_end cb
      then (case vec cb ! it of Some d \<Rightarrow> d # notify_loop cb (Suc it) | None \<Rightarrow> notify_loop cb (Suc it))
      else [])"
  by pat_completeness auto
termination
  by (relation "measure (\<lambda>(cb, it). vs_end cb - it)") auto

declare notify_loop.simps [simp del]

definition notify_receivers :: "'c callbacks \<Rightarrow> 'c list" where
  "notify_receivers cb = notify_loop cb (vs_begin cb)"

lemma notify_loop_elems:
  "vs_inv cb \<Longrightarrow> it \<le> vs_end cb \<Longrightarrow> notify_loop cb it = List.map_filter id (drop it (elems cb))"
proof (induction cb it rule: notify_loop.induct)
  case (1 cb it)
  show ?case
  proof (cases "it < vs_end cb")
    case True
    then have "drop it (elems cb) = vec cb ! it # drop (Suc it) (elems cb)"
      using 1(3) length_elems [of cb] elems_nth [of cb it]
      by (simp add: Cons_nth_drop_Suc [symmetric] vs_end_def vs_size_def)
    then show ?thesis
      using 1 True by (auto simp: notify_loop.simps [of cb it] map_filter_simps split: option.splits)
  next
    case False
    then have "notify_loop cb it = []" by (subst notify_loop.simps) simp
    then show ?thesis
      using False 1(3,4) length_elems [of cb] by (simp add: vs_end_def vs_size_def map_filter_simps)
  qed
qed

lemma notify_receivers_elems: "vs_inv cb \<Longrightarrow> notify_receivers cb = List.map_filter id (elems cb)"
  by (simp add: notify_receivers_def notify_loop_elems vs_begin_def)

lemma reg_loop_spec:
  "vs_inv cb \<Longrightarrow> i \<le> vs_size cb \<Longrightarrow> (\<forall>j < i. elems cb ! j \<noteq> None) \<Longrightarrow>
     (if None \<in> set (elems cb)
      then \<exists>cb' k. reg_loop cb d i = Some (cb', int k) \<and> k < vs_size cb \<and> elems cb ! k = None
        \<and> (\<forall>j < k. elems cb ! j \<noteq> None) \<and> elems cb' = (elems cb)[k := Some d] \<and> vs_inv cb'
      else reg_loop cb d i = Some (cb, -1))"
proof (induction cb d i rule: reg_loop.induct)
  case (1 cb d i)
  have len: "length (elems cb) = vs_size cb" using 1(2) by (rule length_elems)
  show ?case
  proof (cases "i < vs_size cb")
    case True
    then have i: "i < length (vec cb)" "vec cb ! i = elems cb ! i"
      using 1(2) elems_nth [of cb i] by (auto simp: vs_inv_def vs_size_def)
    show ?thesis
    proof (cases "elems cb ! i")
      case None
      then have "None \<in> set (elems cb)" using True len by (metis nth_mem)
      moreover have "reg_loop cb d i = Some (cb\<lparr>vec := (vec cb)[i := Some d]\<rparr>, int i)"
        using True None i by (subst reg_loop.simps) (simp add: vs_at_def vs_set_at_def)
      ultimately show ?thesis
        using True None 1(2,4) by (auto simp: elems_def take_update_swap vs_inv_def)
    next
      case (Some x)
      then have "reg_loop cb d i = reg_loop cb d (Suc i)"
        using True i by (subst reg_loop.simps) (simp add: vs_at_def)
      moreover have "\<forall>j < Suc i. elems cb ! j \<noteq> None" using Some 1(4) by (auto simp: less_Suc_eq)
      ultimately show ?thesis
        using 1(1) [of "elems cb ! i"] 1(2) True i Some by (simp add: vs_at_def del: not_None_eq)
    qed
  next
    case False
    then have "None \<notin> set (elems cb)" using 1(3,4) len by (metis in_set_conv_nth le_antisym not_less)
    moreover have "reg_loop cb d i = Some (cb, -1)" using False by (subst reg_loop.simps) simp
    ultimately show ?thesis by simp
  qed
qed

text \<open>
  Abstractly the receivers are a list with holes: a registration fills the first hole, and a full
  list refuses it with \<open>-1\<close>.
\<close>

lemma reg_recv_callback_spec:
  assumes "vs_inv cb" and "0 < n" and "n \<le> vs_max_size cb"
  defines "es \<equiv> (if elems cb = [] then replicate n None else elems cb)"
  shows "if None \<in> set es
    then \<exists>cb' k. reg_recv_callback n cb d = Some (cb', int k) \<and> k < length es \<and> es ! k = None
      \<and> (\<forall>j < k. es ! j \<noteq> None) \<and> elems cb' = es[k := Some d] \<and> vs_inv cb'
    else reg_recv_callback n cb d = Some (cb, -1)"
proof (cases "elems cb = []")
  case True
  then have e: "vs_empty cb" using length_elems [OF assms(1)] by (simp add: vs_empty_def)
  let ?cb = "vs_assign cb n None"
  have "elems ?cb = es" using assms(3) True by (simp add: vs_assign_elems es_def min_absorb1)
  then show ?thesis
    using reg_loop_spec [OF vs_assign_elems(2), of 0 cb n None d] e length_elems [OF vs_assign_elems(2), of cb n None]
      assms(2) True
    by (simp add: reg_recv_callback_def es_def del: not_None_eq split: if_splits)
next
  case False
  then have "\<not> vs_empty cb" "elems cb = es"
    using length_elems [OF assms(1)] by (auto simp: vs_empty_def es_def simp flip: length_greater_0_conv)
  then show ?thesis
    using reg_loop_spec [OF assms(1), of 0 d] length_elems [OF assms(1)]
    by (simp add: reg_recv_callback_def del: not_None_eq split: if_splits)
qed

lemma unreg_recv_callback_spec:
  assumes "vs_inv cb" and "idx < vs_size cb"
  obtains cb' where "unreg_recv_callback cb idx = Some cb'" and "vs_inv cb'"
    and "elems cb' = (elems cb)[idx := None]"
  using assms by (auto simp: unreg_recv_callback_def vs_set_at_def vs_inv_def vs_size_def elems_def
      take_update_swap)

end
