(* ===== verification/Wl_Pair.thy ===== *)
theory Wl_Pair
  imports Wl_Prelude
begin

text \<open>
  \<^verbatim>\<open>util/pstl/pair.h\<close>: the pair that the maps and routing tables store. Its
  \<^verbatim>\<open>operator<\<close> and \<^verbatim>\<open>operator==\<close> are those of the code; the instantiation of
  \<open>linorder\<close> shows that the comparison is a linear order whenever the components are
  linearly ordered, so the containers and sorting routines may be used with it.
\<close>

datatype ('a, 'b) pair = Mk_pair (pfirst: 'a) (psecond: 'b)

definition pair_less ::
  "('a \<Rightarrow> 'a \<Rightarrow> bool) \<Rightarrow> ('b \<Rightarrow> 'b \<Rightarrow> bool) \<Rightarrow> ('a, 'b) pair \<Rightarrow> ('a, 'b) pair \<Rightarrow> bool" where
  "pair_less lt1 lt2 p1 p2 \<longleftrightarrow>
     lt1 (pfirst p1) (pfirst p2) \<or>
     (\<not> lt1 (pfirst p2) (pfirst p1) \<and> lt2 (psecond p1) (psecond p2))"

definition pair_equal :: "('a, 'b) pair \<Rightarrow> ('a, 'b) pair \<Rightarrow> bool" where
  "pair_equal p1 p2 \<longleftrightarrow> pfirst p1 = pfirst p2 \<and> psecond p1 = psecond p2"

lemma pair_equal_iff: "pair_equal p q \<longleftrightarrow> p = q"
  by (cases p; cases q) (auto simp: pair_equal_def)

instantiation pair :: (linorder, linorder) linorder
begin

definition less_pair :: "('a, 'b) pair \<Rightarrow> ('a, 'b) pair \<Rightarrow> bool" where
  "less_pair = pair_less (<) (<)"

definition less_eq_pair :: "('a, 'b) pair \<Rightarrow> ('a, 'b) pair \<Rightarrow> bool" where
  "less_eq_pair p q \<longleftrightarrow> \<not> pair_less (<) (<) q p"

instance
proof
  fix x y z :: "('a, 'b) pair"
  show "x < y \<longleftrightarrow> x \<le> y \<and> \<not> y \<le> x"
    by (cases x; cases y) (auto simp: less_pair_def less_eq_pair_def pair_less_def)
  show "x \<le> x"
    by (cases x) (auto simp: less_eq_pair_def pair_less_def)
  show "x \<le> z" if "x \<le> y" "y \<le> z"
    using that by (cases x; cases y; cases z) (auto simp: less_eq_pair_def pair_less_def)
  show "x = y" if "x \<le> y" "y \<le> x"
    using that by (cases x; cases y) (auto simp: less_eq_pair_def pair_less_def)
  show "x \<le> y \<or> y \<le> x"
    by (cases x; cases y) (auto simp: less_eq_pair_def pair_less_def)
qed

end

text \<open>The association a list of pairs represents: the first pair with the key counts.\<close>

fun assoc :: "('k, 'v) pair list \<Rightarrow> 'k \<Rightarrow> 'v option" where
  "assoc [] k = None"
| "assoc (p # ps) k = (if pfirst p = k then Some (psecond p) else assoc ps k)"

lemma assoc_None: "assoc ps k = None \<longleftrightarrow> k \<notin> pfirst ` set ps"
  by (induction ps) auto

lemma assoc_append: "assoc (ps @ qs) k = (case assoc ps k of None \<Rightarrow> assoc qs k | Some v \<Rightarrow> Some v)"
  by (induction ps) auto

lemma assoc_Some_in: "assoc ps k = Some v \<Longrightarrow> Mk_pair k v \<in> set ps"
  by (induction ps) (auto split: if_splits)

lemma assoc_distinct:
  "distinct (map pfirst ps) \<Longrightarrow> Mk_pair k v \<in> set ps \<Longrightarrow> assoc ps k = Some v"
  by (induction ps) (auto simp: image_iff)

lemma assoc_update:
  "distinct (map pfirst ps) \<Longrightarrow> i < length ps \<Longrightarrow> pfirst (ps ! i) = k \<Longrightarrow>
     assoc (ps[i := Mk_pair k v]) k' = (if k' = k then Some v else assoc ps k')"
proof (induction ps arbitrary: i)
  case Nil
  then show ?case by simp
next
  case (Cons p ps)
  show ?case
  proof (cases i)
    case 0
    then show ?thesis using Cons.prems by auto
  next
    case (Suc j)
    then have "pfirst p \<noteq> k" using Cons.prems by auto
    then show ?thesis using Cons Suc by auto
  qed
qed

end
