(* ===== verification/Routing_Table.thy ===== *)
theory Routing_Table
  imports Vector_Static Wl_Pair
begin

text \<open>
  \<^verbatim>\<open>internal_interface/routing_table\<close>: the tables a routing algorithm can be instantiated
  with. \<open>array_table\<close> is \<^verbatim>\<open>StaticArrayRoutingTable\<close>, a \<open>vector_static\<close> of
  pairs with a dummy value that \<^verbatim>\<open>operator[]\<close> hands out when the array is full;
  \<open>stl_table\<close> is \<^verbatim>\<open>StlMapRoutingTable\<close>, a \<^verbatim>\<open>std::map\<close>, kept as
  the list of its pairs in key order. The template parameter \<^verbatim>\<open>RoutingTable_P\<close> of the
  algorithms is a record of operations, \<open>table_ops\<close>, and the locale \<open>routing_table\<close> is
  what an algorithm may rely on.
\<close>

section \<open>The interface\<close>

record ('t, 'v) table_ops =
  t_clear :: "'t \<Rightarrow> 't"
  t_find :: "'t \<Rightarrow> node_id \<Rightarrow> 'v option"
  t_assign :: "'t \<Rightarrow> node_id \<Rightarrow> 'v \<Rightarrow> 't"
  t_entries :: "'t \<Rightarrow> (node_id, 'v) pair list"

text \<open>
  \<open>t_find\<close> is \<^verbatim>\<open>find(k)\<close> followed by a read through the iterator (\<^const>\<open>None\<close>:
  the iterator is \<^verbatim>\<open>end()\<close>), \<open>t_assign\<close> is \<^verbatim>\<open>table[k] = v\<close>, and
  \<open>t_entries\<close> is what an iteration from \<^verbatim>\<open>begin()\<close> to \<^verbatim>\<open>end()\<close> visits.
  A new key may be dropped, but only when the table has no room for it.
\<close>

locale routing_table =
  fixes T :: "('t, 'v) table_ops"
    and inv :: "'t \<Rightarrow> bool"
    and room :: "'t \<Rightarrow> bool"
  assumes inv_clear: "inv t \<Longrightarrow> inv (t_clear T t)"
    and inv_assign: "inv t \<Longrightarrow> inv (t_assign T t k v)"
    and find_clear: "inv t \<Longrightarrow> t_find T (t_clear T t) k = None"
    and find_assign: "inv t \<Longrightarrow> t_find T (t_assign T t k v) =
      (if t_find T t k = None \<and> \<not> room t then t_find T t else (t_find T t)(k \<mapsto> v))"
    and entries_find: "inv t \<Longrightarrow> assoc (t_entries T t) = t_find T t"
    and entries_distinct: "inv t \<Longrightarrow> distinct (map pfirst (t_entries T t))"
begin

lemma find_assign_known: "inv t \<Longrightarrow> t_find T t k \<noteq> None \<Longrightarrow> t_find T (t_assign T t k v) k = Some v"
  by (simp add: find_assign)

lemma find_assign_other: "inv t \<Longrightarrow> k' \<noteq> k \<Longrightarrow> t_find T (t_assign T t k v) k' = t_find T t k'"
  by (simp add: find_assign)

lemma find_assign_cases:
  "inv t \<Longrightarrow> t_find T (t_assign T t k v) k' = Some w \<Longrightarrow>
     k' = k \<and> w = v \<or> t_find T t k' = Some w"
  by (auto simp: find_assign split: if_splits)

lemma find_assign_dom: "inv t \<Longrightarrow> t_find T t k' \<noteq> None \<Longrightarrow> t_find T (t_assign T t k v) k' \<noteq> None"
  by (auto simp: find_assign)

end

section \<open>StaticArrayRoutingTable\<close>

record 'v array_table = "(node_id, 'v) pair vector_static" +
  dummy :: 'v

text \<open>What a reference returned by \<^verbatim>\<open>operator[]\<close> refers to.\<close>

datatype slot = Slot nat | Dummy

function rt_find_from :: "'v array_table \<Rightarrow> node_id \<Rightarrow> nat \<Rightarrow> nat" where
  "rt_find_from t k it =
     (if it < vs_end t
      then (if pfirst (vec t ! it) = k then it else rt_find_from t k (Suc it))
      else vs_end t)"
  by pat_completeness auto
termination
  by (relation "measure (\<lambda>(t, k, it). vs_end t - it)") auto

declare rt_find_from.simps [simp del]

definition rt_find :: "'v array_table \<Rightarrow> node_id \<Rightarrow> nat" where
  "rt_find t k = rt_find_from t k (vs_begin t)"

text \<open>\<open>dflt\<close> is the default constructed \<^verbatim>\<open>Value_P\<close>.\<close>

definition rt_subscript :: "'v \<Rightarrow> 'v array_table \<Rightarrow> node_id \<Rightarrow> 'v array_table \<times> slot" where
  "rt_subscript dflt t k =
     (let it = rt_find t k
      in if it \<noteq> vs_end t then (t, Slot it)
         else let t' = vs_push_back t (Mk_pair k dflt);
                  it' = rt_find t' k
              in if it' \<noteq> vs_end t' then (t', Slot it') else (t', Dummy))"

fun rt_store :: "'v array_table \<Rightarrow> slot \<Rightarrow> 'v \<Rightarrow> 'v array_table" where
  "rt_store t (Slot i) v = t\<lparr>vec := (vec t)[i := Mk_pair (pfirst (vec t ! i)) v]\<rparr>"
| "rt_store t Dummy v = t\<lparr>dummy := v\<rparr>"

definition rt_assign :: "'v \<Rightarrow> 'v array_table \<Rightarrow> node_id \<Rightarrow> 'v \<Rightarrow> 'v array_table" where
  "rt_assign dflt t k v = (let (t', s) = rt_subscript dflt t k in rt_store t' s v)"

definition rt_lookup :: "'v array_table \<Rightarrow> node_id \<Rightarrow> 'v option" where
  "rt_lookup t k = (let it = rt_find t k in if it \<noteq> vs_end t then Some (psecond (vec t ! it)) else None)"

text \<open>
  \<^verbatim>\<open>insert\<close> returns the iterator and a flag; the flag of the default constructed pair
  is \<^const>\<open>False\<close> and is not set when an element is inserted.
\<close>

definition rt_insert ::
  "'v array_table \<Rightarrow> (node_id, 'v) pair \<Rightarrow> ('v array_table \<times> nat \<times> bool) option" where
  "rt_insert t x =
     (let it = rt_find t (pfirst x)
      in if it \<noteq> vs_end t then Some (t, it, False)
         else do { (t', it') \<leftarrow> vs_insert t (vs_end t) x; Some (t', it', False) })"

definition rt_inv :: "'v array_table \<Rightarrow> bool" where
  "rt_inv t \<longleftrightarrow> vs_inv t \<and> distinct (map pfirst (elems t))"

definition rt_room :: "'v array_table \<Rightarrow> bool" where
  "rt_room t \<longleftrightarrow> vs_size t < vs_max_size t"

definition array_table_ops :: "'v \<Rightarrow> ('v array_table, 'v) table_ops" where
  "array_table_ops dflt =
     \<lparr>t_clear = vs_clear, t_find = rt_lookup, t_assign = rt_assign dflt, t_entries = elems\<rparr>"

section \<open>StlMapRoutingTable\<close>

type_synonym 'v stl_table = "(node_id, 'v) pair list"

fun stl_assign :: "'v stl_table \<Rightarrow> node_id \<Rightarrow> 'v \<Rightarrow> 'v stl_table" where
  "stl_assign [] k v = [Mk_pair k v]"
| "stl_assign (p # ps) k v =
     (if k < pfirst p then Mk_pair k v # p # ps
      else if k = pfirst p then Mk_pair k v # ps
      else p # stl_assign ps k v)"

definition stl_inv :: "'v stl_table \<Rightarrow> bool" where
  "stl_inv ps \<longleftrightarrow> sorted_wrt (<) (map pfirst ps)"

definition stl_table_ops :: "('v stl_table, 'v) table_ops" where
  "stl_table_ops = \<lparr>t_clear = (\<lambda>_. []), t_find = assoc, t_assign = stl_assign, t_entries = (\<lambda>t. t)\<rparr>"

section \<open>StaticArrayRoutingTable meets the contract\<close>

lemma rt_find_from_takeWhile:
  "vs_inv t \<Longrightarrow> it \<le> vs_end t \<Longrightarrow>
     rt_find_from t k it = it + length (takeWhile (\<lambda>p. pfirst p \<noteq> k) (drop it (elems t)))"
proof (induction t k it rule: rt_find_from.induct)
  case (1 t k it)
  show ?case
  proof (cases "it < vs_end t")
    case True
    then have "drop it (elems t) = vec t ! it # drop (Suc it) (elems t)"
      using 1(2) length_elems [of t] elems_nth [of t it]
      by (simp add: Cons_nth_drop_Suc [symmetric] vs_end_def vs_size_def)
    then show ?thesis
      using 1 True by (auto simp: rt_find_from.simps [of t k it])
  next
    case False
    then have "rt_find_from t k it = vs_end t" by (subst rt_find_from.simps) simp
    then show ?thesis
      using False 1(2,3) length_elems [of t] by (simp add: vs_end_def vs_size_def)
  qed
qed

lemma rt_find_takeWhile:
  "vs_inv t \<Longrightarrow> rt_find t k = length (takeWhile (\<lambda>p. pfirst p \<noteq> k) (elems t))"
  by (simp add: rt_find_def vs_begin_def rt_find_from_takeWhile)

lemma length_takeWhile_all: "length (takeWhile P xs) = length xs \<longleftrightarrow> (\<forall>x \<in> set xs. P x)"
  by (metis takeWhile_eq_all_conv takeWhile_eq_take take_all_iff order_refl)

lemma rt_find_end_iff: "vs_inv t \<Longrightarrow> rt_find t k = vs_end t \<longleftrightarrow> k \<notin> pfirst ` set (elems t)"
  using length_elems [of t] length_takeWhile_all [of "\<lambda>p. pfirst p \<noteq> k" "elems t"]
  by (auto simp: rt_find_takeWhile vs_end_def vs_size_def)

lemma rt_find_hit:
  assumes "vs_inv t" and "rt_find t k \<noteq> vs_end t"
  shows "rt_find t k < length (elems t)" and "pfirst (elems t ! rt_find t k) = k"
    and "vec t ! rt_find t k = elems t ! rt_find t k"
proof -
  have l: "vs_end t = length (elems t)"
    using length_elems [OF assms(1)] by (simp add: vs_end_def vs_size_def)
  have "length (takeWhile (\<lambda>p. pfirst p \<noteq> k) (elems t)) \<le> length (elems t)"
    by (rule length_takeWhile_le)
  then show a: "rt_find t k < length (elems t)"
    using assms l rt_find_takeWhile [OF assms(1), of k] by simp
  then show "pfirst (elems t ! rt_find t k) = k"
    using nth_length_takeWhile [of "\<lambda>p. pfirst p \<noteq> k" "elems t"] rt_find_takeWhile [OF assms(1), of k]
    by simp
  show "vec t ! rt_find t k = elems t ! rt_find t k"
    using a l elems_nth [OF assms(1)] by (simp add: vs_end_def vs_size_def)
qed

lemma assoc_takeWhile:
  "assoc ps k = (let i = length (takeWhile (\<lambda>p. pfirst p \<noteq> k) ps)
     in if i < length ps then Some (psecond (ps ! i)) else None)"
  by (induction ps) (auto simp: Let_def)

lemma rt_lookup_assoc: "vs_inv t \<Longrightarrow> rt_lookup t k = assoc (elems t) k"
proof -
  assume i: "vs_inv t"
  have l: "vs_end t = length (elems t)"
    using length_elems [OF i] by (simp add: vs_end_def vs_size_def)
  show ?thesis
    unfolding assoc_takeWhile rt_find_takeWhile [OF i, symmetric] rt_lookup_def Let_def
    using rt_find_hit [OF i, of k] l by (cases "rt_find t k = vs_end t") auto
qed

lemma rt_assign_known:
  assumes "rt_inv t" and "k \<in> pfirst ` set (elems t)"
  shows "elems (rt_assign d t k v) = (elems t)[rt_find t k := Mk_pair k v]"
    and "vs_inv (rt_assign d t k v)" and "rt_find t k < length (elems t)"
    and "pfirst (elems t ! rt_find t k) = k"
proof -
  have i: "vs_inv t" using assms(1) by (simp add: rt_inv_def)
  have f: "rt_find t k \<noteq> vs_end t" using assms(2) rt_find_end_iff [OF i] by simp
  note h = rt_find_hit [OF i f]
  show "rt_find t k < length (elems t)" "pfirst (elems t ! rt_find t k) = k" by (rule h)+
  have a: "rt_assign d t k v = t\<lparr>vec := (vec t)[rt_find t k := Mk_pair k v]\<rparr>"
    using f h by (simp add: rt_assign_def rt_subscript_def Let_def)
  show "elems (rt_assign d t k v) = (elems t)[rt_find t k := Mk_pair k v]"
    using a h(1) by (simp add: elems_def take_update_swap)
  show "vs_inv (rt_assign d t k v)" using a i by (simp add: vs_inv_def)
qed

lemma rt_assign_new:
  assumes "rt_inv t" and "k \<notin> pfirst ` set (elems t)"
  shows "elems (rt_assign d t k v) = (if rt_room t then elems t @ [Mk_pair k v] else elems t)"
    and "vs_inv (rt_assign d t k v)"
proof -
  have i: "vs_inv t" using assms(1) by (simp add: rt_inv_def)
  have f: "rt_find t k = vs_end t" using assms(2) rt_find_end_iff [OF i] by simp
  let ?t = "vs_push_back t (Mk_pair k d)"
  have i': "vs_inv ?t" by (rule vs_push_back_inv [OF i])
  have e': "elems ?t = (if rt_room t then elems t @ [Mk_pair k d] else elems t)"
    using i by (simp add: vs_push_back_elems rt_room_def)
  have "elems (rt_assign d t k v) = (if rt_room t then elems t @ [Mk_pair k v] else elems t)
      \<and> vs_inv (rt_assign d t k v)"
  proof (cases "rt_room t")
    case True
    then have hit: "rt_find ?t k \<noteq> vs_end ?t" using rt_find_end_iff [OF i'] e' by simp
    note h = rt_find_hit [OF i' hit]
    have at: "rt_find ?t k = length (elems t)"
    proof (rule ccontr)
      assume "rt_find ?t k \<noteq> length (elems t)"
      then have n: "rt_find ?t k < length (elems t)" using h(1) e' True by simp
      then have "elems t ! rt_find ?t k \<in> set (elems t)" by simp
      moreover have "pfirst (elems t ! rt_find ?t k) = k" using n h(2) e' True by (simp add: nth_append)
      ultimately show False using assms(2) by (metis imageI)
    qed
    have a: "rt_assign d t k v = ?t\<lparr>vec := (vec ?t)[length (elems t) := Mk_pair k v]\<rparr>"
      using f hit h at by (simp add: rt_assign_def rt_subscript_def Let_def)
    have "elems (rt_assign d t k v) = (elems ?t)[length (elems t) := Mk_pair k v]"
      unfolding a by (simp add: elems_def take_update_swap)
    then show ?thesis using True e' i' a by (simp add: vs_inv_def)
  next
    case False
    then have miss: "rt_find ?t k = vs_end ?t" using rt_find_end_iff [OF i'] e' assms(2) by simp
    then have a: "rt_assign d t k v = ?t\<lparr>dummy := v\<rparr>"
      using f by (simp add: rt_assign_def rt_subscript_def Let_def)
    have "elems (rt_assign d t k v) = elems ?t" unfolding a by (simp add: elems_def)
    moreover have "vs_inv (rt_assign d t k v)" using i' unfolding a by (simp add: vs_inv_def)
    ultimately show ?thesis using False e' by simp
  qed
  then show "elems (rt_assign d t k v) = (if rt_room t then elems t @ [Mk_pair k v] else elems t)"
    and "vs_inv (rt_assign d t k v)" by blast+
qed

lemma map_update_same: "i < length xs \<Longrightarrow> f (xs ! i) = f y \<Longrightarrow> map f (xs[i := y]) = map f xs"
  by (rule nth_equalityI) (auto simp: nth_list_update)

lemma rt_assign_inv: "rt_inv t \<Longrightarrow> rt_inv (rt_assign d t k v)"
proof (cases "k \<in> pfirst ` set (elems t)")
  case True
  assume i: "rt_inv t"
  note a = rt_assign_known [OF i True]
  show ?thesis
    using i a by (simp add: rt_inv_def map_update_same)
next
  case False
  assume i: "rt_inv t"
  note a = rt_assign_new [OF i False]
  show ?thesis
    using i a False by (auto simp: rt_inv_def)
qed

lemma rt_assign_lookup:
  assumes "rt_inv t"
  shows "rt_lookup (rt_assign d t k v) =
    (if rt_lookup t k = None \<and> \<not> rt_room t then rt_lookup t else (rt_lookup t)(k \<mapsto> v))"
proof -
  have i: "vs_inv t" and dist: "distinct (map pfirst (elems t))"
    using assms by (auto simp: rt_inv_def)
  have i': "vs_inv (rt_assign d t k v)"
    using rt_assign_inv [OF assms] by (simp add: rt_inv_def)
  show ?thesis
  proof (cases "k \<in> pfirst ` set (elems t)")
    case True
    note a = rt_assign_known [OF assms True]
    have n: "assoc (elems t) k \<noteq> None" using True by (simp add: assoc_None)
    show ?thesis
      using a n dist by (auto simp: fun_eq_iff rt_lookup_assoc i i' assoc_update)
  next
    case False
    note a = rt_assign_new [OF assms False]
    have n: "assoc (elems t) k = None" using False by (simp add: assoc_None)
    show ?thesis
      using a n by (auto simp: fun_eq_iff rt_lookup_assoc i i' assoc_append split: option.split)
  qed
qed

interpretation sa: routing_table "array_table_ops d" rt_inv rt_room for d
proof
  show "rt_inv (t_clear (array_table_ops d) t)" for t
    by (simp add: array_table_ops_def rt_inv_def vs_clear_elems)
  show "t_find (array_table_ops d) (t_clear (array_table_ops d) t) k = None" for t k
    by (simp add: array_table_ops_def rt_lookup_assoc vs_clear_elems)
  show "assoc (t_entries (array_table_ops d) t) = t_find (array_table_ops d) t"
    if "rt_inv t" for t
    using that by (auto simp: array_table_ops_def rt_lookup_assoc rt_inv_def)
qed (simp_all add: array_table_ops_def rt_assign_inv rt_assign_lookup, simp add: rt_inv_def)

section \<open>StlMapRoutingTable meets the contract\<close>

lemma stl_assign_keys: "pfirst ` set (stl_assign ps k v) = insert k (pfirst ` set ps)"
  by (induction ps k v rule: stl_assign.induct) auto

lemma stl_assign_inv: "stl_inv ps \<Longrightarrow> stl_inv (stl_assign ps k v)"
proof (induction ps k v rule: stl_assign.induct)
  case (2 p ps k v)
  have "x \<in> pfirst ` set (stl_assign ps k v) \<Longrightarrow> x = k \<or> x \<in> pfirst ` set ps" for x
    by (simp add: stl_assign_keys)
  then show ?case
    using 2 by (fastforce simp: stl_inv_def)
qed (simp add: stl_inv_def)

lemma stl_assign_assoc: "stl_inv ps \<Longrightarrow> assoc (stl_assign ps k v) = (assoc ps)(k \<mapsto> v)"
  by (induction ps k v rule: stl_assign.induct) (auto simp: stl_inv_def fun_eq_iff)

interpretation sm: routing_table stl_table_ops stl_inv "\<lambda>_. True"
  by unfold_locales
    (simp_all add: stl_table_ops_def stl_assign_inv stl_assign_assoc, simp_all add: stl_inv_def strict_sorted_iff)

end
