(* ===== verification/Serialization.thy ===== *)
theory Serialization
  imports Wl_Pair
begin

text \<open>
  \<^verbatim>\<open>util/serialization\<close>: values written to and read from a byte buffer, always in network
  byte order, whatever the byte order of the host. A value of an unsigned integer type is an
  \<open>'a word\<close>; its object representation in the memory of the host (what
  \<^verbatim>\<open>((BlockData*)&value)[i]\<close> reads) is \<open>host_image\<close>. The generic template is modelled with its
  loop, the specialisations for \<^verbatim>\<open>uint16_t\<close>, \<^verbatim>\<open>int16_t\<close>, \<^verbatim>\<open>bool\<close> and \<^verbatim>\<open>pair\<close>
  with their own statements. The locale \<open>serializer\<close> is the contract all of them meet.
\<close>

section \<open>Object representation of an integer\<close>

definition size_of :: "'a::len itself \<Rightarrow> nat" where
  "size_of t = LENGTH('a) div 8"

primrec le_image :: "nat \<Rightarrow> 'a::len word \<Rightarrow> bytes" where
  "le_image 0 w = []"
| "le_image (Suc n) w = ucast w # le_image n (drop_bit 8 w)"

primrec of_le_image :: "bytes \<Rightarrow> 'a::len word" where
  "of_le_image [] = 0"
| "of_le_image (b # bs) = ucast b OR push_bit 8 (of_le_image bs)"

definition host_image :: "endianness \<Rightarrow> 'a::len word \<Rightarrow> bytes" where
  "host_image e w =
     (case e of WISELIB_LITTLE_ENDIAN \<Rightarrow> le_image (size_of TYPE('a)) w
      | WISELIB_BIG_ENDIAN \<Rightarrow> rev (le_image (size_of TYPE('a)) w))"

definition of_host_image :: "endianness \<Rightarrow> bytes \<Rightarrow> 'a::len word" where
  "of_host_image e bs =
     (case e of WISELIB_LITTLE_ENDIAN \<Rightarrow> of_le_image bs
      | WISELIB_BIG_ENDIAN \<Rightarrow> of_le_image (rev bs))"

lemma length_le_image [simp]: "length (le_image n w) = n"
  by (induction n arbitrary: w) auto

lemma length_host_image [simp]: "length (host_image e (w :: 'a::len word)) = size_of TYPE('a)"
  by (simp add: host_image_def split: endianness.split)

lemma ucast_byte_bit:
  "bit (ucast b :: 'a::len word) i \<longleftrightarrow> i < LENGTH('a) \<and> i < 8 \<and> bit (b :: u8) i"
  by (auto simp: bit_simps dest: bit_imp_le_length)

lemma of_le_image_le_image:
  "of_le_image (le_image n w) = (take_bit (8 * n) w :: 'a::len word)"
proof (induction n arbitrary: w)
  case 0
  then show ?case by simp
next
  case (Suc n)
  show ?case
  proof (rule bit_word_eqI)
    fix i
    assume "i < LENGTH('a)"
    then show "bit (of_le_image (le_image (Suc n) w) :: 'a word) i = bit (take_bit (8 * Suc n) w) i"
      by (cases "i < 8") (auto simp: Suc.IH bit_simps ucast_byte_bit)
  qed
qed

lemma le_image_of_le_image:
  "8 * length bs \<le> LENGTH('a) \<Longrightarrow> le_image (length bs) (of_le_image bs :: 'a::len word) = bs"
proof (induction bs)
  case Nil
  then show ?case by simp
next
  case (Cons b bs)
  let ?w = "of_le_image bs :: 'a word"
  have top: "\<not> bit ?w i" if "8 * length bs \<le> i" for i
  proof -
    have "take_bit (8 * length bs) ?w = ?w"
      using Cons of_le_image_le_image[of "length bs" ?w] by simp
    then show ?thesis using that by (metis bit_take_bit_iff not_le)
  qed
  have low: "(ucast (ucast b OR push_bit 8 ?w) :: u8) = b"
    using Cons.prems by (intro bit_word_eqI) (auto simp: bit_simps ucast_byte_bit)
  have high: "drop_bit 8 (ucast b OR push_bit 8 ?w) = ?w"
  proof (rule bit_word_eqI)
    fix i
    assume i: "i < LENGTH('a)"
    have "\<not> bit ?w i" if "\<not> 8 + i < LENGTH('a)"
      using top[of i] that Cons.prems by auto
    then show "bit (drop_bit 8 (ucast b OR push_bit 8 ?w)) i = bit ?w i"
      using i by (auto simp: bit_simps ucast_byte_bit dest: bit_imp_le_length)
  qed
  show ?case using Cons low high by simp
qed

lemma of_host_image_host_image:
  "8 dvd LENGTH('a) \<Longrightarrow> of_host_image e (host_image e (w :: 'a::len word)) = w"
  by (simp add: of_host_image_def host_image_def size_of_def of_le_image_le_image
      take_bit_word_eq_self split: endianness.split)

section \<open>The generic template (serialization.h)\<close>

text \<open>
  Little endian host: the loop stores image byte \<open>i\<close> at \<open>sizeof(Type) - 1 - i\<close>; big endian
  host: at \<open>i\<close>.
\<close>

definition target_index :: "endianness \<Rightarrow> nat \<Rightarrow> nat \<Rightarrow> nat" where
  "target_index e n i =
     (case e of WISELIB_LITTLE_ENDIAN \<Rightarrow> n - 1 - i | WISELIB_BIG_ENDIAN \<Rightarrow> i)"

function write_loop :: "endianness \<Rightarrow> bytes \<Rightarrow> nat \<Rightarrow> bytes \<Rightarrow> nat \<Rightarrow> bytes option" where
  "write_loop e buf target img i =
     (if i < length img
      then do { buf' \<leftarrow> wr buf (target + target_index e (length img) i) (img ! i);
                write_loop e buf' target img (Suc i) }
      else Some buf)"
  by pat_completeness auto
termination
  by (relation "measure (\<lambda>(e, buf, target, img, i). length img - i)") auto

definition write_generic ::
  "endianness \<Rightarrow> bytes \<Rightarrow> nat \<Rightarrow> 'a::len word \<Rightarrow> (bytes \<times> nat) option" where
  "write_generic e buf target value =
     do { buf' \<leftarrow> write_loop e buf target (host_image e value) 0;
          Some (buf', size_of TYPE('a)) }"

function read_loop :: "endianness \<Rightarrow> bytes \<Rightarrow> nat \<Rightarrow> nat \<Rightarrow> nat \<Rightarrow> bytes \<Rightarrow> bytes option" where
  "read_loop e buf target n i img =
     (if i < n
      then do { b \<leftarrow> rd buf (target + target_index e n i);
                read_loop e buf target n (Suc i) (img @ [b]) }
      else Some img)"
  by pat_completeness auto
termination
  by (relation "measure (\<lambda>(e, buf, target, n, i, img). n - i)") auto

definition read_generic :: "endianness \<Rightarrow> bytes \<Rightarrow> nat \<Rightarrow> 'a::len word option" where
  "read_generic e buf target =
     do { img \<leftarrow> read_loop e buf target (size_of TYPE('a)) 0 [];
          Some (of_host_image e img) }"

declare write_loop.simps [simp del] read_loop.simps [simp del]

text \<open>Both loops move the image in wire order: most significant byte first on either host.\<close>

definition wire_order :: "endianness \<Rightarrow> 'b list \<Rightarrow> 'b list" where
  "wire_order e img =
     (case e of WISELIB_LITTLE_ENDIAN \<Rightarrow> rev img | WISELIB_BIG_ENDIAN \<Rightarrow> img)"

lemma length_wire_order [simp]: "length (wire_order e xs) = length xs"
  by (simp add: wire_order_def split: endianness.split)

lemma wire_order_wire_order [simp]: "wire_order e (wire_order e xs) = xs"
  by (simp add: wire_order_def split: endianness.split)

lemma wire_order_host_image: "wire_order e (host_image e w) = wire_order e' (host_image e' w)"
  by (simp add: wire_order_def host_image_def split: endianness.split)

lemma write_loop_little:
  "i < length img \<Longrightarrow>
     write_loop WISELIB_LITTLE_ENDIAN buf target img i = memcpy buf target (rev (drop i img))"
proof (induction WISELIB_LITTLE_ENDIAN buf target img i rule: write_loop.induct)
  case (1 buf target img i)
  have d: "rev (drop i img) = rev (drop (Suc i) img) @ [img ! i]"
    using 1(2) by (simp add: Cons_nth_drop_Suc [symmetric])
  have pos: "target + target_index WISELIB_LITTLE_ENDIAN (length img) i
      = target + length (rev (drop (Suc i) img))"
    using 1(2) by (simp add: target_index_def)
  have nil: "memcpy m target [] = Some m"
    if "wr buf (target + length (rev (drop (Suc i) img))) (img ! i) = Some m" for m
    using that by (intro memcpy_Nil) (auto simp: mem_simps)
  have rest: "write_loop WISELIB_LITTLE_ENDIAN m target img (Suc i)
      = memcpy m target (rev (drop (Suc i) img))"
    if "wr buf (target + length (rev (drop (Suc i) img))) (img ! i) = Some m" for m
  proof (cases "Suc i < length img")
    case True
    then show ?thesis using 1(1) 1(2) that pos by auto
  next
    case False
    then show ?thesis using nil [OF that] by (simp add: write_loop.simps)
  qed
  show ?case
    unfolding write_loop.simps [of _ buf target img i] d memcpy_snoc_first pos
    using 1(2) by (auto simp del: length_rev intro!: Option.bind_cong rest)
qed


lemma write_loop_big:
  "i < length img \<Longrightarrow>
     write_loop WISELIB_BIG_ENDIAN buf target img i = memcpy buf (target + i) (drop i img)"
proof (induction WISELIB_BIG_ENDIAN buf target img i rule: write_loop.induct)
  case (1 buf target img i)
  have d: "drop i img = img ! i # drop (Suc i) img"
    using 1(2) by (simp add: Cons_nth_drop_Suc)
  have rest: "write_loop WISELIB_BIG_ENDIAN m target img (Suc i)
      = memcpy m (Suc (target + i)) (drop (Suc i) img)"
    if m: "wr buf (target + i) (img ! i) = Some m" for m
  proof (cases "Suc i < length img")
    case True
    then show ?thesis using 1(1) 1(2) m by (auto simp: target_index_def)
  next
    case False
    have "memcpy m (Suc (target + i)) [] = Some m"
      using m by (intro memcpy_Nil) (auto simp: mem_simps)
    then show ?thesis using False by (simp add: write_loop.simps)
  qed
  show ?case
    unfolding write_loop.simps [of _ buf target img i] d memcpy_Cons
    using 1(2) by (auto simp: target_index_def intro!: Option.bind_cong rest)
qed

lemma write_loop_memcpy:
  "img \<noteq> [] \<Longrightarrow> write_loop e buf target img 0 = memcpy buf target (wire_order e img)"
  by (cases e) (simp_all add: write_loop_little write_loop_big wire_order_def)

lemma read_loop_little:
  "i < n \<Longrightarrow> read_loop WISELIB_LITTLE_ENDIAN buf target n i img =
     map_option (\<lambda>bs. img @ rev bs) (rd_bytes buf target (n - i))"
proof (induction WISELIB_LITTLE_ENDIAN buf target n i img rule: read_loop.induct)
  case (1 buf target n i img)
  have t: "take (n - i) (drop target buf)
      = take (n - Suc i) (drop target buf) @ [buf ! (target + (n - Suc i))]"
    if "target + (n - Suc i) < length buf"
    using that 1(2) take_Suc_nth[of "n - Suc i" "drop target buf"] by (simp add: Suc_diff_Suc)
  show ?case
  proof (cases "Suc i < n")
    case True
    then show ?thesis
      using 1 t unfolding read_loop.simps [of _ buf target n i img]
      by (auto simp: target_index_def rd_def rd_bytes_def)
  next
    case False
    then have "n = Suc i" using 1(2) by simp
    then show ?thesis
      using t unfolding read_loop.simps [of _ buf target n i img]
      by (auto simp: target_index_def rd_def rd_bytes_def read_loop.simps [of _ buf target "Suc i" "Suc i"])
  qed
qed

lemma read_loop_big:
  "i < n \<Longrightarrow> read_loop WISELIB_BIG_ENDIAN buf target n i img =
     map_option (\<lambda>bs. img @ bs) (rd_bytes buf (target + i) (n - i))"
proof (induction WISELIB_BIG_ENDIAN buf target n i img rule: read_loop.induct)
  case (1 buf target n i img)
  have t: "take (n - i) (drop (target + i) buf)
      = buf ! (target + i) # take (n - Suc i) (drop (Suc (target + i)) buf)"
    if "target + i < length buf"
    using that 1(2) by (simp add: Cons_nth_drop_Suc [symmetric] Suc_diff_Suc [symmetric])
  show ?case
  proof (cases "Suc i < n")
    case True
    then show ?thesis
      using 1 t unfolding read_loop.simps [of _ buf target n i img]
      by (auto simp: target_index_def rd_def rd_bytes_def)
  next
    case False
    then have "n = Suc i" using 1(2) by simp
    then show ?thesis
      using t unfolding read_loop.simps [of _ buf target n i img]
      by (auto simp: target_index_def rd_def rd_bytes_def read_loop.simps [of _ buf target "Suc i" "Suc i"])
  qed
qed

lemma read_loop_rd_bytes:
  "0 < n \<Longrightarrow> read_loop e buf target n 0 [] =
     map_option (wire_order e) (rd_bytes buf target n)"
  by (cases e; cases "rd_bytes buf target n")
    (simp_all add: read_loop_little read_loop_big wire_order_def)

section \<open>The contract of a serializer\<close>

text \<open>
  \<open>sz\<close> bytes from the target on are written, nothing else; reading them back gives the
  value; the write is defined exactly when these bytes lie in the buffer.
\<close>

locale serializer =
  fixes sz :: nat
    and reads :: "bytes \<Rightarrow> nat \<Rightarrow> 'v option"
    and writes :: "bytes \<Rightarrow> nat \<Rightarrow> 'v \<Rightarrow> (bytes \<times> nat) option"
    and enc :: "'v \<Rightarrow> bytes"
    and dec :: "bytes \<Rightarrow> 'v"
  assumes enc_length: "length (enc v) = sz"
    and dec_enc: "dec (enc v) = v"
    and writes_eq: "writes buf target v = map_option (\<lambda>b. (b, sz)) (memcpy buf target (enc v))"
    and reads_eq: "reads buf target = map_option dec (rd_bytes buf target sz)"
begin

lemma writes_defined: "writes buf target v \<noteq> None \<longleftrightarrow> target + sz \<le> length buf"
  by (simp add: writes_eq memcpy_def enc_length)

lemma writes_length: "writes buf target v = Some (buf', n) \<Longrightarrow> length buf' = length buf \<and> n = sz"
  by (auto simp: writes_eq dest: memcpy_length)

lemma reads_writes: "writes buf target v = Some (buf', n) \<Longrightarrow> reads buf' target = Some v"
  using rd_bytes_memcpy [of buf target "enc v"]
  by (auto simp: writes_eq reads_eq enc_length dec_enc)

lemma writes_frame:
  assumes "writes buf target v = Some (buf', n)" and "j < target \<or> target + sz \<le> j"
    and "j < length buf"
  shows "buf' ! j = buf ! j"
  using assms memcpy_nth_outside [of buf target "enc v" buf' j]
  by (auto simp: writes_eq enc_length)

lemma writes_take_drop:
  assumes "writes buf target v = Some (buf', n)"
  shows "take target buf' = take target buf"
    and "drop (target + sz) buf' = drop (target + sz) buf"
  using assms by (auto simp: writes_eq enc_length mem_simps)

end

section \<open>The specialisations (simple_types.h)\<close>

definition read_bool :: "endianness \<Rightarrow> bytes \<Rightarrow> nat \<Rightarrow> bool option" where
  "read_bool e buf target = do { b \<leftarrow> rd buf target; Some (if b = 0 then False else True) }"

definition write_bool :: "endianness \<Rightarrow> bytes \<Rightarrow> nat \<Rightarrow> bool \<Rightarrow> (bytes \<times> nat) option" where
  "write_bool e buf target value =
     do { buf' \<leftarrow> wr buf target (if \<not> value then 0 else 1); Some (buf', 1) }"

definition read_u16 :: "endianness \<Rightarrow> bytes \<Rightarrow> nat \<Rightarrow> u16 option" where
  "read_u16 e buf target =
     do { b0 \<leftarrow> rd buf target;
          b1 \<leftarrow> rd buf (target + 1);
          Some (of_host_image e
            (case e of WISELIB_LITTLE_ENDIAN \<Rightarrow> [b1, b0] | WISELIB_BIG_ENDIAN \<Rightarrow> [b0, b1])) }"

definition write_u16 :: "endianness \<Rightarrow> bytes \<Rightarrow> nat \<Rightarrow> u16 \<Rightarrow> (bytes \<times> nat) option" where
  "write_u16 e buf target value =
     do { buf' \<leftarrow> wr buf target (ucast (drop_bit 8 value AND 0xff));
          buf'' \<leftarrow> wr buf' (target + 1) (ucast (value AND 0xff));
          Some (buf'', size_of TYPE(16)) }"

text \<open>
  \<^verbatim>\<open>int16_t\<close>: the shift is arithmetic, as the value is promoted to a signed
  \<^verbatim>\<open>int\<close> first.
\<close>

definition write_i16 :: "endianness \<Rightarrow> bytes \<Rightarrow> nat \<Rightarrow> u16 \<Rightarrow> (bytes \<times> nat) option" where
  "write_i16 e buf target value =
     do { let v = (scast value :: 32 word);
          buf' \<leftarrow> wr buf target (ucast (signed_drop_bit 8 v AND 0xff));
          buf'' \<leftarrow> wr buf' (target + 1) (ucast (v AND 0xff));
          Some (buf'', size_of TYPE(16)) }"

definition read_i16 :: "endianness \<Rightarrow> bytes \<Rightarrow> nat \<Rightarrow> u16 option" where
  "read_i16 e buf target =
     do { b0 \<leftarrow> rd buf target;
          b1 \<leftarrow> rd buf (target + 1);
          Some (of_host_image e
            (case e of WISELIB_LITTLE_ENDIAN \<Rightarrow> [b1, b0] | WISELIB_BIG_ENDIAN \<Rightarrow> [b0, b1])) }"

text \<open>One byte values (\<^verbatim>\<open>uint8_t\<close>) use the generic template.\<close>

definition read_u8 :: "endianness \<Rightarrow> bytes \<Rightarrow> nat \<Rightarrow> u8 option" where
  "read_u8 e buf target = read_generic e buf target"

definition write_u8 :: "endianness \<Rightarrow> bytes \<Rightarrow> nat \<Rightarrow> u8 \<Rightarrow> (bytes \<times> nat) option" where
  "write_u8 e buf target value = write_generic e buf target value"

section \<open>Pairs (pstl_pair.h)\<close>

definition read_pair ::
  "nat \<Rightarrow> (bytes \<Rightarrow> nat \<Rightarrow> 'a option) \<Rightarrow> (bytes \<Rightarrow> nat \<Rightarrow> 'b option) \<Rightarrow>
     bytes \<Rightarrow> nat \<Rightarrow> ('a, 'b) pair option" where
  "read_pair sizeof_a read_a read_b buf target =
     do { a \<leftarrow> read_a buf target;
          b \<leftarrow> read_b buf (target + sizeof_a);
          Some (Mk_pair a b) }"

definition write_pair ::
  "(bytes \<Rightarrow> nat \<Rightarrow> 'a \<Rightarrow> (bytes \<times> nat) option) \<Rightarrow> (bytes \<Rightarrow> nat \<Rightarrow> 'b \<Rightarrow> (bytes \<times> nat) option) \<Rightarrow>
     bytes \<Rightarrow> nat \<Rightarrow> ('a, 'b) pair \<Rightarrow> (bytes \<times> nat) option" where
  "write_pair write_a write_b buf target value =
     do { (buf', bytes_a) \<leftarrow> write_a buf target (pfirst value);
          (buf'', bytes_b) \<leftarrow> write_b buf' (target + bytes_a) (psecond value);
          Some (buf'', bytes_a + bytes_b) }"

section \<open>The specialisations meet the contract\<close>

text \<open>The wire image: most significant byte first.\<close>

definition wire_image :: "'a::len word \<Rightarrow> bytes" where
  "wire_image w = rev (le_image (size_of TYPE('a)) w)"

lemma length_wire_image [simp]: "length (wire_image (w :: 'a::len word)) = size_of TYPE('a)"
  by (simp add: wire_image_def)

lemma wire_order_host_image_eq: "wire_order e (host_image e w) = wire_image w"
  by (simp add: wire_order_def host_image_def wire_image_def split: endianness.split)

lemma of_host_image_wire_order: "of_host_image e (wire_order e bs) = of_le_image (rev bs)"
  by (simp add: wire_order_def of_host_image_def split: endianness.split)

lemma write_generic_memcpy:
  assumes "8 \<le> LENGTH('a::len)"
  shows "write_generic e buf target (v :: 'a word) =
     map_option (\<lambda>b. (b, size_of TYPE('a))) (memcpy buf target (wire_image v))"
proof -
  have "0 < size_of TYPE('a)" using assms by (simp add: size_of_def div_greater_zero_iff)
  then have "host_image e v \<noteq> []" by (metis length_host_image length_greater_0_conv)
  then show ?thesis
    by (cases "memcpy buf target (wire_image v)")
      (simp_all add: write_generic_def write_loop_memcpy wire_order_host_image_eq)
qed

lemma read_generic_rd_bytes:
  assumes "8 \<le> LENGTH('a::len)"
  shows "(read_generic e buf target :: 'a word option) =
     map_option (\<lambda>bs. of_le_image (rev bs)) (rd_bytes buf target (size_of TYPE('a)))"
proof -
  have "0 < size_of TYPE('a)" using assms by (simp add: size_of_def div_greater_zero_iff)
  then show ?thesis
    by (cases "rd_bytes buf target (size_of TYPE('a))")
      (simp_all add: read_generic_def read_loop_rd_bytes of_host_image_wire_order)
qed

lemma generic_serializer:
  assumes "8 dvd LENGTH('a::len)"
  shows "serializer (size_of TYPE('a)) (read_generic e) (write_generic e)
    (wire_image :: 'a word \<Rightarrow> bytes) (\<lambda>bs. of_le_image (rev bs))"
proof
  have len: "8 \<le> LENGTH('a)" using assms by (simp add: dvd_imp_le)
  show "length (wire_image v) = size_of TYPE('a)" for v :: "'a word" by simp
  show "of_le_image (rev (wire_image v)) = v" for v :: "'a word"
    using assms by (simp add: wire_image_def of_le_image_le_image size_of_def take_bit_word_eq_self)
  show "write_generic e buf target v =
      map_option (\<lambda>b. (b, size_of TYPE('a))) (memcpy buf target (wire_image v))" for buf target and v :: "'a word"
    by (rule write_generic_memcpy [OF len])
  show "(read_generic e buf target :: 'a word option) =
      map_option (\<lambda>bs. of_le_image (rev bs)) (rd_bytes buf target (size_of TYPE('a)))" for buf target
    by (rule read_generic_rd_bytes [OF len])
qed

interpretation ser_u8: serializer "size_of TYPE(8)" "read_u8 e" "write_u8 e"
  "wire_image" "\<lambda>bs. of_le_image (rev bs)" for e
  using generic_serializer [where 'a = 8, of e]
  unfolding read_u8_def [abs_def] write_u8_def [abs_def] by simp

lemma two_bytes: "take 2 (drop i bs) = [bs ! i, bs ! Suc i]" if "Suc i < length bs"
proof -
  have "take (Suc (Suc 0)) (drop i bs) = [bs ! i, bs ! Suc i]"
    using that by (simp add: take_Suc_nth)
  then show ?thesis by (simp add: numeral_2_eq_2)
qed

lemma wire_image_u16: "wire_image (v :: u16) = [ucast (drop_bit 8 v), ucast v]"
  by (simp add: wire_image_def size_of_def numeral_2_eq_2)

lemma wire_image_u8: "wire_image (v :: u8) = [v]"
  by (simp add: wire_image_def size_of_def)

lemma mask_8: "(0xff :: 'a::len word) = mask 8"
  by (simp add: mask_eq_exp_minus_1)

lemma u16_bytes:
  "(ucast (drop_bit 8 (v::u16) AND 0xff) :: u8) = ucast (drop_bit 8 v)"
  "(ucast ((v::u16) AND 0xff) :: u8) = ucast v"
  unfolding mask_8 by (rule bit_word_eqI; auto simp: bit_simps)+

lemma i16_bytes:
  "(ucast (signed_drop_bit 8 (scast (v::u16) :: 32 word) AND 0xff) :: u8) = ucast (drop_bit 8 v)"
  "(ucast ((scast (v::u16) :: 32 word) AND 0xff) :: u8) = ucast v"
  unfolding mask_8 by (rule bit_word_eqI; auto simp: bit_simps)+

lemma memcpy_two: "memcpy m i [x, y] = Option.bind (wr m i x) (\<lambda>m'. wr m' (Suc i) y)"
  by (subst memcpy_Cons) (simp only: memcpy_singleton)

lemma write_u16_memcpy:
  "write_u16 e buf target v = map_option (\<lambda>b. (b, size_of TYPE(16))) (memcpy buf target (wire_image v))"
  by (auto simp: write_u16_def wire_image_u16 memcpy_two u16_bytes wr_def)

lemma write_i16_memcpy:
  "write_i16 e buf target v = map_option (\<lambda>b. (b, size_of TYPE(16))) (memcpy buf target (wire_image v))"
  by (auto simp: write_i16_def wire_image_u16 memcpy_two i16_bytes wr_def)

lemma read_u16_rd_bytes:
  "read_u16 e buf target = map_option (\<lambda>bs. of_le_image (rev bs)) (rd_bytes buf target 2)"
  by (auto simp: read_u16_def rd_def rd_bytes_def two_bytes of_host_image_def split: endianness.split)

lemma read_i16_rd_bytes:
  "read_i16 e buf target = map_option (\<lambda>bs. of_le_image (rev bs)) (rd_bytes buf target 2)"
  unfolding read_i16_def by (rule read_u16_rd_bytes [unfolded read_u16_def])

lemma size_of_16: "size_of TYPE(16) = 2"
  by (simp add: size_of_def)

interpretation ser_u16: serializer "size_of TYPE(16)" "read_u16 e" "write_u16 e"
  "wire_image" "\<lambda>bs. of_le_image (rev bs)" for e
  using serializer.enc_length [OF generic_serializer [where 'a = 16, of e]]
    serializer.dec_enc [OF generic_serializer [where 'a = 16, of e]]
  by unfold_locales (simp_all add: write_u16_memcpy read_u16_rd_bytes size_of_16)

interpretation ser_i16: serializer "size_of TYPE(16)" "read_i16 e" "write_i16 e"
  "wire_image" "\<lambda>bs. of_le_image (rev bs)" for e
  using ser_u16.enc_length ser_u16.dec_enc
  by unfold_locales (simp_all add: write_i16_memcpy read_i16_rd_bytes size_of_16)

interpretation ser_bool: serializer 1 "read_bool e" "write_bool e"
  "\<lambda>v. [if v then 1 else 0]" "\<lambda>bs. hd bs \<noteq> 0" for e
  by unfold_locales
    (auto simp: write_bool_def read_bool_def memcpy_singleton wr_def rd_def rd_bytes_def
      take_Suc hd_drop_conv_nth)

text \<open>A pair of serializers is a serializer: the fields follow each other without a gap.\<close>

lemma pair_serializer:
  assumes "serializer sz1 r1 w1 enc1 dec1" and "serializer sz2 r2 w2 enc2 dec2"
  shows "serializer (sz1 + sz2) (read_pair sz1 r1 r2) (write_pair w1 w2)
    (\<lambda>p. enc1 (pfirst p) @ enc2 (psecond p)) (\<lambda>bs. Mk_pair (dec1 (take sz1 bs)) (dec2 (drop sz1 bs)))"
proof -
  note l1 = serializer.enc_length [OF assms(1)] and l2 = serializer.enc_length [OF assms(2)]
  note w1 = serializer.writes_eq [OF assms(1)] and w2 = serializer.writes_eq [OF assms(2)]
  note r1 = serializer.reads_eq [OF assms(1)] and r2 = serializer.reads_eq [OF assms(2)]
  show ?thesis
  proof
    show "length (enc1 (pfirst v) @ enc2 (psecond v)) = sz1 + sz2" for v
      by (simp add: l1 l2)
    show "Mk_pair (dec1 (take sz1 (enc1 (pfirst v) @ enc2 (psecond v))))
        (dec2 (drop sz1 (enc1 (pfirst v) @ enc2 (psecond v)))) = v" for v
      by (simp add: l1 serializer.dec_enc [OF assms(1)] serializer.dec_enc [OF assms(2)])
    show "write_pair w1 w2 buf target v = map_option (\<lambda>b. (b, sz1 + sz2))
        (memcpy buf target (enc1 (pfirst v) @ enc2 (psecond v)))" for buf target v
      by (auto simp: write_pair_def w1 w2 memcpy_def l1 l2 ac_simps)
    show "read_pair sz1 r1 r2 buf target =
        map_option (\<lambda>bs. Mk_pair (dec1 (take sz1 bs)) (dec2 (drop sz1 bs)))
          (rd_bytes buf target (sz1 + sz2))" for buf target
      by (auto simp: read_pair_def r1 r2 rd_bytes_def drop_take min_def add.commute)
  qed
qed

text \<open>A record of two bytes, a byte and a flag, as the messages are composed of.\<close>

lemma record_serializer:
  "serializer 4 (read_pair 2 (read_u16 e) (read_pair 1 (read_u8 e) (read_bool e)))
     (write_pair (write_u16 e) (write_pair (write_u8 e) (write_bool e)))
     (\<lambda>p. wire_image (pfirst p) @ wire_image (pfirst (psecond p)) @ [if psecond (psecond p) then 1 else 0])
     (\<lambda>bs. Mk_pair (of_le_image (rev (take 2 bs))) (Mk_pair (of_le_image (rev (take 1 (drop 2 bs)))) (hd (drop 1 (drop 2 bs)) \<noteq> 0)))"
  using pair_serializer [OF ser_u16.serializer_axioms [of e] pair_serializer [OF ser_u8.serializer_axioms [of e]
    ser_bool.serializer_axioms [of e]]]
  by (simp add: size_of_def)

section \<open>Properties\<close>

text \<open>A record of a \<open>uint16_t\<close>, a \<open>uint8_t\<close> and a \<open>bool\<close> that one host has written is read
  back as the same value by every host, whatever the byte orders of the two; the write changes these
  four bytes only, and it is defined whenever they lie in the buffer.\<close>

theorem serialization_roundtrip:
  assumes "target + 4 \<le> length buf"
  shows "\<exists>buf'. write_pair (write_u16 e) (write_pair (write_u8 e) (write_bool e)) buf target p = Some (buf', 4) \<and>
    read_pair 2 (read_u16 e') (read_pair 1 (read_u8 e') (read_bool e')) buf' target = Some p \<and>
    length buf' = length buf \<and> (\<forall>j < length buf. j < target \<or> target + 4 \<le> j \<longrightarrow> buf' ! j = buf ! j)"
proof -
  note w = record_serializer [of e] and r = record_serializer [of e']
  have same: "write_pair (write_u16 e) (write_pair (write_u8 e) (write_bool e)) buf target p =
      write_pair (write_u16 e') (write_pair (write_u8 e') (write_bool e')) buf target p"
    by (rule trans [OF serializer.writes_eq [OF w] serializer.writes_eq [OF r, symmetric]])
  obtain buf' n where "write_pair (write_u16 e) (write_pair (write_u8 e) (write_bool e)) buf target p = Some (buf', n)"
    using serializer.writes_defined [OF w, of buf target p] assms by auto
  moreover from this have "n = 4" using serializer.writes_length [OF w] by blast
  ultimately have b: "write_pair (write_u16 e) (write_pair (write_u8 e) (write_bool e)) buf target p = Some (buf', 4)"
      "write_pair (write_u16 e') (write_pair (write_u8 e') (write_bool e')) buf target p = Some (buf', 4)"
    using same by simp_all
  then show ?thesis
    using serializer.reads_writes [OF r b(2)] serializer.writes_length [OF w b(1)]
      serializer.writes_frame [OF w b(1)] by blast
qed

theorem serialization_roundtrip_witness:
  "\<exists>buf'. write_pair (write_u16 WISELIB_LITTLE_ENDIAN) (write_pair (write_u8 WISELIB_LITTLE_ENDIAN)
      (write_bool WISELIB_LITTLE_ENDIAN)) [0, 0, 0, 0, 9] 0 (Mk_pair 0x1234 (Mk_pair 5 True)) = Some (buf', 4) \<and>
    read_pair 2 (read_u16 WISELIB_BIG_ENDIAN) (read_pair 1 (read_u8 WISELIB_BIG_ENDIAN) (read_bool WISELIB_BIG_ENDIAN))
      buf' 0 = Some (Mk_pair 0x1234 (Mk_pair 5 True)) \<and> buf' ! 4 = 9"
  using serialization_roundtrip [of 0 "[0, 0, 0, 0, 9]" WISELIB_LITTLE_ENDIAN "Mk_pair 0x1234 (Mk_pair 5 True)"
    WISELIB_BIG_ENDIAN] by force

end
