(* ===== verification/Message_Buffer.thy ===== *)
theory Message_Buffer
  imports Serialization
begin

text \<open>
  What the message classes of the routing algorithms share: fields of one and two bytes at fixed
  positions of a byte buffer, accessed through \<^verbatim>\<open>read\<close> and \<^verbatim>\<open>write\<close> of the
  serialization, and the call that hands a message object to the radio. The equations
  \<open>put_simps\<close> reduce every accessor to list updates, independent of the host's byte order.
\<close>

definition put8 :: "endianness \<Rightarrow> bytes \<Rightarrow> nat \<Rightarrow> u8 \<Rightarrow> bytes option" where
  "put8 e b pos v = map_option fst (write_u8 e b pos v)"

definition put16 :: "endianness \<Rightarrow> bytes \<Rightarrow> nat \<Rightarrow> u16 \<Rightarrow> bytes option" where
  "put16 e b pos v = map_option fst (write_u16 e b pos v)"

text \<open>
  \<^verbatim>\<open>radio().send(dest, message.buffer_size(), (uint8_t*)&message)\<close>: the first
  \<open>n\<close> bytes of the object, the size passed as a \<^verbatim>\<open>uint8_t\<close>.
\<close>

definition radio_send :: "node_id \<Rightarrow> nat \<Rightarrow> bytes \<Rightarrow> os_call option" where
  "radio_send dest n b = do { bs \<leftarrow> rd_bytes b 0 (n mod 256); Some (Radio_send dest bs) }"

definition hi8 :: "u16 \<Rightarrow> u8" where "hi8 v = ucast (drop_bit 8 v)"

definition lo8 :: "u16 \<Rightarrow> u8" where "lo8 v = ucast v"

definition mk16 :: "u8 \<Rightarrow> u8 \<Rightarrow> u16" where "mk16 h l = push_bit 8 (ucast h) OR ucast l"

named_theorems put_simps \<open>accessors as list updates\<close>

lemma mk16_hi_lo [simp]: "mk16 (hi8 v) (lo8 v) = v"
  by (rule bit_word_eqI) (auto simp: mk16_def hi8_def lo8_def bit_simps)

lemma hi8_mk16 [simp]: "hi8 (mk16 h l) = h"
  by (rule bit_word_eqI) (auto simp: mk16_def hi8_def bit_simps dest: bit_imp_le_length)

lemma lo8_mk16 [simp]: "lo8 (mk16 h l) = l"
  by (rule bit_word_eqI) (auto simp: mk16_def lo8_def bit_simps)

lemma read_u8_eq [put_simps]: "read_u8 e b pos = rd b pos"
proof -
  have "take (Suc 0) (drop pos b) = [b ! pos]" if "pos < length b"
    using that by (simp add: take_Suc_nth)
  then show ?thesis
    by (auto simp: ser_u8.reads_eq size_of_def rd_bytes_def rd_def)
qed

lemma put8_eq [put_simps]: "put8 e b pos v = wr b pos v"
  by (auto simp: put8_def ser_u8.writes_eq wire_image_u8 memcpy_singleton option.map_comp comp_def
      option.map_ident)

lemma of_le_image_two: "of_le_image [l, h] = mk16 h l"
  by (simp add: mk16_def or.commute)

lemma read_u16_eq [put_simps]:
  "read_u16 e b pos = (if Suc pos < length b then Some (mk16 (b ! pos) (b ! Suc pos)) else None)"
  by (auto simp: read_u16_rd_bytes rd_bytes_def two_bytes of_le_image_two [unfolded of_le_image.simps]
      simp flip: of_le_image_two)

lemma put16_eq [put_simps]:
  "put16 e b pos v =
     (if Suc pos < length b then Some (b[pos := hi8 v, Suc pos := lo8 v]) else None)"
  by (auto simp: put16_def write_u16_def u16_bytes hi8_def lo8_def wr_def)

lemma put8_length: "put8 e b pos v = Some b' \<Longrightarrow> length b' = length b"
  by (auto simp: put_simps mem_simps)

lemma put16_length: "put16 e b pos v = Some b' \<Longrightarrow> length b' = length b"
  by (auto simp: put_simps split: if_splits)

lemma radio_send_eq:
  "n < 256 \<Longrightarrow> n \<le> length b \<Longrightarrow> radio_send dest n b = Some (Radio_send dest (take n b))"
  by (simp add: radio_send_def rd_bytes_def)

end
