(* ===== verification/Tree_Messages.thy ===== *)
theory Tree_Messages
  imports Message_Buffer
begin

text \<open>
  \<^verbatim>\<open>algorithms/routing/tree/tree_broadcast_message.h\<close> and
  \<^verbatim>\<open>tree_routing_message.h\<close>: the two messages of tree routing. A message object is its
  byte buffer; a constructor writes into the memory \<open>junk\<close> the object is created in. The
  lemmas give the layout on the wire and that every accessor reads what was set.
\<close>

section \<open>TreeBroadcastMessage\<close>

abbreviation (input) "tbm_MSG_ID_POS \<equiv> 0 :: nat"
abbreviation (input) "tbm_HOPS_POS \<equiv> 1 :: nat"
abbreviation (input) "tbm_GATEID_POS \<equiv> 2 :: nat"
abbreviation (input) "tbm_MSG_END \<equiv> 4 :: nat"

definition tbm_msg_id :: "endianness \<Rightarrow> bytes \<Rightarrow> u8 option" where
  "tbm_msg_id e b = read_u8 e b tbm_MSG_ID_POS"

definition tbm_set_msg_id :: "endianness \<Rightarrow> bytes \<Rightarrow> u8 \<Rightarrow> bytes option" where
  "tbm_set_msg_id e b v = put8 e b tbm_MSG_ID_POS v"

definition tbm_hops :: "endianness \<Rightarrow> bytes \<Rightarrow> u8 option" where
  "tbm_hops e b = read_u8 e b tbm_HOPS_POS"

definition tbm_set_hops :: "endianness \<Rightarrow> bytes \<Rightarrow> u8 \<Rightarrow> bytes option" where
  "tbm_set_hops e b v = put8 e b tbm_HOPS_POS v"

definition tbm_gate_id :: "endianness \<Rightarrow> bytes \<Rightarrow> u16 option" where
  "tbm_gate_id e b = read_u16 e b tbm_GATEID_POS"

definition tbm_set_gate_id :: "endianness \<Rightarrow> bytes \<Rightarrow> u16 \<Rightarrow> bytes option" where
  "tbm_set_gate_id e b v = put16 e b tbm_GATEID_POS v"

definition tbm_buffer_size :: nat where
  "tbm_buffer_size = tbm_MSG_END"

definition tbm_default :: "os_model \<Rightarrow> bytes \<Rightarrow> bytes option" where
  "tbm_default os junk =
     do { b \<leftarrow> tbm_set_msg_id (os_endianness os) junk 0;
          b \<leftarrow> tbm_set_hops (os_endianness os) b 0;
          tbm_set_gate_id (os_endianness os) b (NULL_NODE_ID os) }"

definition tbm_new :: "os_model \<Rightarrow> bytes \<Rightarrow> u8 \<Rightarrow> u8 \<Rightarrow> u16 \<Rightarrow> bytes option" where
  "tbm_new os junk msg h gid =
     do { b \<leftarrow> tbm_set_msg_id (os_endianness os) junk msg;
          b \<leftarrow> tbm_set_hops (os_endianness os) b h;
          tbm_set_gate_id (os_endianness os) b gid }"

section \<open>TreeRoutingMessage\<close>

abbreviation (input) "trm_MSG_ID_POS \<equiv> 0 :: nat"
abbreviation (input) "trm_SOURCE_POS \<equiv> 1 :: nat"
abbreviation (input) "trm_PAYLOAD_POS \<equiv> 3 :: nat"

definition trm_msg_id :: "endianness \<Rightarrow> bytes \<Rightarrow> u8 option" where
  "trm_msg_id e b = read_u8 e b trm_MSG_ID_POS"

definition trm_set_msg_id :: "endianness \<Rightarrow> bytes \<Rightarrow> u8 \<Rightarrow> bytes option" where
  "trm_set_msg_id e b v = put8 e b trm_MSG_ID_POS v"

definition trm_payload_size :: "endianness \<Rightarrow> bytes \<Rightarrow> u8 option" where
  "trm_payload_size e b = read_u8 e b trm_PAYLOAD_POS"

definition trm_set_payload_size :: "endianness \<Rightarrow> bytes \<Rightarrow> u8 \<Rightarrow> bytes option" where
  "trm_set_payload_size e b v = put8 e b trm_PAYLOAD_POS v"

definition trm_source :: "endianness \<Rightarrow> bytes \<Rightarrow> u16 option" where
  "trm_source e b = read_u16 e b trm_SOURCE_POS"

definition trm_set_source :: "endianness \<Rightarrow> bytes \<Rightarrow> u16 \<Rightarrow> bytes option" where
  "trm_set_source e b v = put16 e b trm_SOURCE_POS v"

text \<open>\<open>data\<close> is the memory the argument pointer refers to.\<close>

definition trm_set_payload :: "endianness \<Rightarrow> bytes \<Rightarrow> u8 \<Rightarrow> bytes \<Rightarrow> bytes option" where
  "trm_set_payload e b len data =
     do { b \<leftarrow> put8 e b trm_PAYLOAD_POS len;
          if len = 0 then Some b
          else do { vs \<leftarrow> rd_bytes data 0 (unat len); memcpy b (trm_PAYLOAD_POS + 1) vs } }"

text \<open>\<^verbatim>\<open>payload()\<close> is a pointer into the buffer: the memory from there on.\<close>

definition trm_payload :: "bytes \<Rightarrow> bytes" where
  "trm_payload b = drop (trm_PAYLOAD_POS + 1) b"

definition trm_buffer_size :: "endianness \<Rightarrow> bytes \<Rightarrow> nat option" where
  "trm_buffer_size e b = do { n \<leftarrow> trm_payload_size e b; Some (trm_PAYLOAD_POS + 1 + unat n) }"

definition trm_default :: "os_model \<Rightarrow> bytes \<Rightarrow> bytes option" where
  "trm_default os junk =
     do { b \<leftarrow> trm_set_msg_id (os_endianness os) junk 0;
          b \<leftarrow> trm_set_payload_size (os_endianness os) b 0;
          trm_set_source (os_endianness os) b (NULL_NODE_ID os) }"

definition trm_new :: "os_model \<Rightarrow> bytes \<Rightarrow> u8 \<Rightarrow> u16 \<Rightarrow> bytes option" where
  "trm_new os junk mid src =
     do { b \<leftarrow> trm_set_msg_id (os_endianness os) junk mid;
          b \<leftarrow> trm_set_payload_size (os_endianness os) b 0;
          trm_set_source (os_endianness os) b src }"

section \<open>Layout\<close>

lemmas tbm_defs = tbm_msg_id_def tbm_set_msg_id_def tbm_hops_def tbm_set_hops_def tbm_gate_id_def
  tbm_set_gate_id_def tbm_buffer_size_def

lemmas trm_defs = trm_msg_id_def trm_set_msg_id_def trm_payload_size_def trm_set_payload_size_def
  trm_source_def trm_set_source_def trm_payload_def trm_buffer_size_def

lemma length_4_list: "length b = 4 \<Longrightarrow> \<exists>b0 b1 b2 b3. b = [b0, b1, b2, b3]"
  by (auto simp: numeral_eq_Suc length_Suc_conv)

lemma tbm_new_layout:
  assumes "length junk = tbm_MSG_END"
  shows "tbm_new os junk msg h gid = Some [msg, h, hi8 gid, lo8 gid]"
  using length_4_list [OF assms] by (auto simp: tbm_new_def tbm_defs put_simps)

lemma tbm_accessors:
  "tbm_msg_id e [m, h, x, y] = Some m" "tbm_hops e [m, h, x, y] = Some h"
  "tbm_gate_id e [m, h, x, y] = Some (mk16 x y)"
  by (simp_all add: tbm_defs put_simps)

lemma trm_new_layout:
  assumes "4 \<le> length junk"
  shows "trm_new os junk mid src = Some ([mid, hi8 src, lo8 src, 0] @ drop 4 junk)"
proof -
  obtain b0 b1 b2 b3 where "take 4 junk = [b0, b1, b2, b3]"
    using length_4_list [of "take 4 junk"] assms by auto
  then obtain js where "junk = [b0, b1, b2, b3] @ js" by (metis append_take_drop_id)
  then show ?thesis by (simp add: trm_new_def trm_defs put_simps)
qed

lemma drop_4_Cons: "drop (4 + n) (a # b # c # d # js) = drop n js"
  by (simp add: numeral_eq_Suc)

lemma trm_set_payload_layout:
  assumes "4 + unat len \<le> 4 + length js" and "unat len \<le> length data"
  shows "trm_set_payload e ([m, x, y, z] @ js) len data =
    Some ([m, x, y, len] @ take (unat len) data @ drop (unat len) js)"
  using assms by (auto simp: trm_set_payload_def put_simps rd_bytes_def memcpy_def drop_4_Cons)

lemma trm_set_payload_overflow:
  assumes "length js < unat len"
  shows "trm_set_payload e ([m, x, y, z] @ js) len data = None"
proof -
  have "len \<noteq> 0" using assms by auto
  then show ?thesis
    using assms by (auto simp: trm_set_payload_def put_simps rd_bytes_def memcpy_def bind_eq_None_iff)
qed

end
