(* ===== verification/Tree_Routing.thy ===== *)
theory Tree_Routing
  imports Tree_Messages
begin

text \<open>
  \<^verbatim>\<open>algorithms/routing/tree/tree_routing.h\<close>: one node of tree routing. The state record has
  the members of the class; the radio's own id, the memory of a message object and the operating
  system model are parameters of the handlers. A handler returns the new state and the calls it
  made, in order; \<^const>\<open>None\<close> is a memory access outside a packet or a message object.
\<close>

datatype tree_state = TrGateway | TrConnected | TrUnconnected

record tree_node =
  state :: tree_state
  work_period :: nat
  parent :: node_id
  hops :: u8

abbreviation (input) "TrMsgIdBroadcast \<equiv> 100 :: u8"
abbreviation (input) "TrMsgIdRouting \<equiv> 101 :: u8"

definition tree_new :: "os_model \<Rightarrow> tree_node" where
  "tree_new os = \<lparr>state = TrUnconnected, work_period = 5000, parent = NULL_NODE_ID os, hops = 0\<rparr>"

definition tree_set_sink :: "bool \<Rightarrow> tree_node \<Rightarrow> tree_node" where
  "tree_set_sink sink n = (if sink then n\<lparr>state := TrGateway\<rparr> else n\<lparr>state := TrUnconnected\<rparr>)"

definition tree_enable_radio :: "os_model \<Rightarrow> node_id \<Rightarrow> tree_node \<Rightarrow> tree_node \<times> os_call list \<times> os_code" where
  "tree_enable_radio os self n =
     (let n' = (if state n = TrGateway then n\<lparr>parent := self, hops := 0\<rparr>
                else n\<lparr>parent := NULL_NODE_ID os, hops := 0xff\<rparr>)
      in (n', [Enable_radio, Reg_recv_callback, Set_timer (work_period n)], SUCCESS))"

definition tree_init :: "os_model \<Rightarrow> node_id \<Rightarrow> tree_node \<Rightarrow> tree_node \<times> os_call list \<times> os_code" where
  "tree_init os self n =
     (let n' = (if state n = TrConnected
                then n\<lparr>state := TrUnconnected, parent := NULL_NODE_ID os, hops := 0\<rparr> else n);
          (n'', calls, _) = tree_enable_radio os self n'
      in (n'', calls, SUCCESS))"

definition tree_disable_radio :: "tree_node \<Rightarrow> tree_node \<times> os_call list \<times> os_code" where
  "tree_disable_radio n = (n, [], ERR_NOTIMPL)"

definition tree_destroy :: "tree_node \<Rightarrow> tree_node \<times> os_call list \<times> os_code" where
  "tree_destroy n = tree_disable_radio n"

text \<open>The receiver argument is not used: everything goes to the gateway.\<close>

definition tree_send ::
  "os_model \<Rightarrow> node_id \<Rightarrow> bytes \<Rightarrow> tree_node \<Rightarrow> node_id \<Rightarrow> u8 \<Rightarrow> bytes \<Rightarrow>
     (tree_node \<times> os_call list \<times> os_code) option" where
  "tree_send os self junk n receiver len data =
     (if parent n \<noteq> NULL_NODE_ID os
      then do { message \<leftarrow> trm_new os junk TrMsgIdRouting self;
                message \<leftarrow> trm_set_payload (os_endianness os) message len data;
                sz \<leftarrow> trm_buffer_size (os_endianness os) message;
                call \<leftarrow> radio_send (parent n) sz message;
                Some (n, [call], SUCCESS) }
      else Some (n, [], ERR_NETDOWN))"

definition tree_timer_elapsed ::
  "os_model \<Rightarrow> bytes \<Rightarrow> tree_node \<Rightarrow> (tree_node \<times> os_call list) option" where
  "tree_timer_elapsed os junk n =
     do { calls \<leftarrow> (case state n of
              TrUnconnected \<Rightarrow> Some []
            | _ \<Rightarrow> do { message \<leftarrow> tbm_new os junk TrMsgIdBroadcast (hops n) (parent n);
                        call \<leftarrow> radio_send (BROADCAST_ADDRESS os) tbm_buffer_size message;
                        Some [call] });
          Some (n, calls @ [Set_timer (work_period n)]) }"

definition tree_receive ::
  "os_model \<Rightarrow> node_id \<Rightarrow> tree_node \<Rightarrow> node_id \<Rightarrow> nat \<Rightarrow> bytes \<Rightarrow>
     (tree_node \<times> os_call list) option" where
  "tree_receive os self n from len data =
     (if from = self then Some (n, [])
      else do { msg_id \<leftarrow> read_u8 (os_endianness os) data 0;
        if msg_id = TrMsgIdBroadcast
        then do { h \<leftarrow> tbm_hops (os_endianness os) data;
                  if unat h + 1 < unat (hops n)
                  then Some (n\<lparr>hops := h + 1, parent := from, state := TrConnected\<rparr>, [])
                  else Some (n, []) }
        else if msg_id = TrMsgIdRouting
        then if state n = TrGateway
             then do { src \<leftarrow> trm_source (os_endianness os) data;
                       sz \<leftarrow> trm_payload_size (os_endianness os) data;
                       Some (n, [Notify_receivers src (unat sz) (trm_payload data)]) }
             else if parent n \<noteq> NULL_NODE_ID os
             then do { call \<leftarrow> radio_send (parent n) len data; Some (n, [call]) }
             else Some (n, [])
        else Some (n, []) })"

section \<open>One node\<close>

text \<open>
  The states \<^verbatim>\<open>init\<close> and the handlers produce: a gateway is its own parent at distance
  0, a connected node has a parent and a distance between 1 and 254, an unconnected node neither.
\<close>

definition tree_inv :: "os_model \<Rightarrow> node_id \<Rightarrow> tree_node \<Rightarrow> bool" where
  "tree_inv os self n \<longleftrightarrow>
     (case state n of
        TrGateway \<Rightarrow> parent n = self \<and> hops n = 0
      | TrConnected \<Rightarrow> parent n \<noteq> self \<and> parent n \<noteq> NULL_NODE_ID os \<and> 0 < unat (hops n) \<and> unat (hops n) < 255
      | TrUnconnected \<Rightarrow> parent n = NULL_NODE_ID os \<and> hops n = 255)"

lemma tree_init_inv:
  assumes "tree_init os self n = (n', calls, r)"
  shows "tree_inv os self n'" and "state n' = TrGateway \<longleftrightarrow> state n = TrGateway" and "r = SUCCESS"
    and "state n' \<noteq> TrConnected"
  using assms by (cases "state n"; auto simp: tree_init_def tree_enable_radio_def tree_inv_def Let_def)+

lemma tree_timer_elapsed_eq:
  assumes "length junk = 4"
  shows "tree_timer_elapsed os junk n = Some (n,
    (if state n = TrUnconnected then []
     else [Radio_send (BROADCAST_ADDRESS os) [TrMsgIdBroadcast, hops n, hi8 (parent n), lo8 (parent n)]])
     @ [Set_timer (work_period n)])"
  using assms by (simp add: tree_timer_elapsed_def tbm_new_layout tbm_buffer_size_def radio_send_eq
      split: tree_state.split)

lemma tree_receive_broadcast:
  assumes "from \<noteq> self"
  shows "tree_receive os self n from len (TrMsgIdBroadcast # h # rest) =
    Some (if unat h + 1 < unat (hops n)
          then n\<lparr>hops := h + 1, parent := from, state := TrConnected\<rparr> else n, [])"
  using assms by (simp add: tree_receive_def tbm_hops_def put_simps)

lemma unat_Suc_bound: "unat (h :: u8) < 255 \<Longrightarrow> unat (h + 1) = Suc (unat h)"
  by (simp add: unat_word_ariths)

lemma unat_u8_less: "unat (k :: u8) < 256"
  using unsigned_less [of k, where 'a = nat] by simp

lemma unat_Suc_less: "unat (h :: u8) + 1 < unat (k :: u8) \<Longrightarrow> unat (h + 1) = Suc (unat h)"
  using unat_u8_less [of k] by (intro unat_Suc_bound) simp

text \<open>A packet never raises a node's distance, and only a smaller one changes its parent.\<close>

lemma tree_receive_step:
  assumes "tree_receive os self n from len data = Some (n', calls)"
  shows "n' = n \<or> (from \<noteq> self \<and> (\<exists>h. rd data 0 = Some TrMsgIdBroadcast \<and> rd data 1 = Some h
    \<and> unat h + 1 < unat (hops n) \<and> n' = n\<lparr>hops := h + 1, parent := from, state := TrConnected\<rparr>))"
  using assms
  by (auto simp: tree_receive_def tbm_hops_def put_simps mem_simps split: if_splits)

lemma tree_receive_inv:
  assumes "tree_inv os self n" and "tree_receive os self n from len data = Some (n', calls)"
    and "from \<noteq> NULL_NODE_ID os"
  shows "tree_inv os self n'" and "state n' = TrGateway \<longleftrightarrow> state n = TrGateway"
    and "unat (hops n') \<le> unat (hops n)"
proof -
  show "tree_inv os self n'"
    using assms tree_receive_step [OF assms(2)] unat_u8_less [of "hops n"]
    by (auto simp: tree_inv_def unat_Suc_less unat_Suc_bound split: tree_state.splits)
  show "state n' = TrGateway \<longleftrightarrow> state n = TrGateway"
    using assms tree_receive_step [OF assms(2)]
    by (auto simp: tree_inv_def split: tree_state.splits)
  show "unat (hops n') \<le> unat (hops n)"
    using tree_receive_step [OF assms(2)] by (auto simp: unat_Suc_less)
qed

end
