(* ===== verification/Tree_Network.thy ===== *)
theory Tree_Network
  imports Tree_Routing
begin

text \<open>
  A network of nodes that run tree routing. Every packet a node hands to its radio stays in the
  air for ever and may be delivered to any addressed node, any number of times and in any order,
  or never: the radio may lose, duplicate, delay and reorder. The invariant gives what the tree
  is for: from every connected node the parents lead to a gateway, without a cycle, and a packet
  sent to the gateway arrives there unchanged.
\<close>

record tree_net =
  tnodes :: "node_id \<Rightarrow> tree_node"
  tair :: "(node_id \<times> node_id \<times> bytes) list"

definition radio_packets :: "node_id \<Rightarrow> os_call list \<Rightarrow> (node_id \<times> node_id \<times> bytes) list" where
  "radio_packets self calls =
     concat (map (\<lambda>c. case c of Radio_send d m \<Rightarrow> [(self, d, m)] | _ \<Rightarrow> []) calls)"

lemma radio_packets_in:
  "(s, d, m) \<in> set (radio_packets self calls) \<longleftrightarrow> s = self \<and> Radio_send d m \<in> set calls"
  by (auto simp: radio_packets_def split: os_call.splits)

text \<open>Every node is constructed, told whether it is a gateway, and started.\<close>

definition tree_boot :: "os_model \<Rightarrow> (node_id \<Rightarrow> bool) \<Rightarrow> node_id \<Rightarrow> tree_node" where
  "tree_boot os sink i = fst (tree_init os i (tree_set_sink (sink i) (tree_new os)))"

definition tree_start :: "os_model \<Rightarrow> (node_id \<Rightarrow> bool) \<Rightarrow> tree_net" where
  "tree_start os sink = \<lparr>tnodes = tree_boot os sink, tair = []\<rparr>"

definition tree_update :: "tree_net \<Rightarrow> node_id \<Rightarrow> tree_node \<Rightarrow> os_call list \<Rightarrow> tree_net" where
  "tree_update w i n calls =
     w\<lparr>tnodes := (tnodes w)(i := n), tair := tair w @ radio_packets i calls\<rparr>"

inductive tree_step :: "os_model \<Rightarrow> tree_net \<Rightarrow> tree_net \<Rightarrow> bool" for os where
  Timer: "i \<noteq> NULL_NODE_ID os \<Longrightarrow> length junk = 4 \<Longrightarrow>
    tree_timer_elapsed os junk (tnodes w i) = Some (n, calls) \<Longrightarrow>
    tree_step os w (tree_update w i n calls)"
| Send: "i \<noteq> NULL_NODE_ID os \<Longrightarrow>
    tree_send os i junk (tnodes w i) dest len data = Some (n, calls, r) \<Longrightarrow>
    tree_step os w (tree_update w i n calls)"
| Deliver: "i \<noteq> NULL_NODE_ID os \<Longrightarrow> (from, d, m) \<in> set (tair w) \<Longrightarrow> d = i \<or> d = BROADCAST_ADDRESS os \<Longrightarrow>
    tree_receive os i (tnodes w i) from (length m) m = Some (n, calls) \<Longrightarrow>
    tree_step os w (tree_update w i n calls)"

inductive_cases tree_stepE: "tree_step os w w'"

inductive tree_reachable :: "os_model \<Rightarrow> (node_id \<Rightarrow> bool) \<Rightarrow> tree_net \<Rightarrow> bool" for os sink where
  Start: "tree_reachable os sink (tree_start os sink)"
| Step: "tree_reachable os sink w \<Longrightarrow> tree_step os w w' \<Longrightarrow> tree_reachable os sink w'"

section \<open>The invariant\<close>

definition tree_packet_ok :: "os_model \<Rightarrow> tree_net \<Rightarrow> node_id \<times> node_id \<times> bytes \<Rightarrow> bool" where
  "tree_packet_ok os w = (\<lambda>(s, d, m). s \<noteq> NULL_NODE_ID os \<and>
     (rd m 0 = Some TrMsgIdBroadcast \<longrightarrow>
        (\<exists>h. rd m 1 = Some h \<and> unat (hops (tnodes w s)) \<le> unat h)))"

definition tree_parent_ok :: "tree_net \<Rightarrow> node_id \<Rightarrow> bool" where
  "tree_parent_ok w i \<longleftrightarrow> state (tnodes w i) = TrConnected \<longrightarrow>
     unat (hops (tnodes w (parent (tnodes w i)))) < unat (hops (tnodes w i))"

definition tree_net_inv :: "os_model \<Rightarrow> (node_id \<Rightarrow> bool) \<Rightarrow> tree_net \<Rightarrow> bool" where
  "tree_net_inv os sink w \<longleftrightarrow>
     (\<forall>i. tree_inv os i (tnodes w i)) \<and>
     (\<forall>i. state (tnodes w i) = TrGateway \<longleftrightarrow> sink i) \<and>
     (\<forall>i. tree_parent_ok w i) \<and> (\<forall>p \<in> set (tair w). tree_packet_ok os w p)"

lemma tree_start_inv: "tree_net_inv os sink (tree_start os sink)"
proof -
  have boot: "tree_inv os i (tree_boot os sink i)"
      "state (tree_boot os sink i) = TrGateway \<longleftrightarrow> sink i"
      "state (tree_boot os sink i) \<noteq> TrConnected" for i
    by (simp_all add: tree_boot_def tree_init_def tree_enable_radio_def tree_set_sink_def
        tree_new_def tree_inv_def Let_def)
  then show ?thesis
    by (simp add: tree_net_inv_def tree_start_def tree_parent_ok_def)
qed

text \<open>
  A step that leaves every node alone and adds a harmless packet, or lowers the distance of one
  node to one more than its new parent's, keeps the invariant.
\<close>

lemma tree_packets_inv:
  assumes "tree_net_inv os sink w" and "tnodes w i = n" and "i \<noteq> NULL_NODE_ID os"
    and "\<And>d m. Radio_send d m \<in> set calls \<Longrightarrow> rd m 0 = Some TrMsgIdBroadcast \<Longrightarrow> rd m 1 = Some (hops n)"
  shows "tree_net_inv os sink (tree_update w i n calls)"
proof -
  have same: "tnodes (tree_update w i n calls) = tnodes w"
    using assms(2) by (auto simp: tree_update_def)
  have air: "tair (tree_update w i n calls) = tair w @ radio_packets i calls"
    by (simp add: tree_update_def)
  have "tree_packet_ok os (tree_update w i n calls) p"
    if "p \<in> set (tair (tree_update w i n calls))" for p
  proof (cases p)
    case (fields s d m)
    have "(s, d, m) \<in> set (tair w) \<or> s = i \<and> Radio_send d m \<in> set calls"
      using that by (auto simp: fields air radio_packets_in)
    then show ?thesis
      using assms by (auto simp: fields tree_net_inv_def tree_packet_ok_def same)
  qed
  then show ?thesis
    using assms(1) by (simp add: tree_net_inv_def tree_parent_ok_def same)
qed

lemma tree_connect_inv:
  assumes inv: "tree_net_inv os sink w" and old: "tnodes w i = n"
    and n': "n' = n\<lparr>hops := h + 1, parent := from, state := TrConnected\<rparr>"
    and less: "unat h + 1 < unat (hops n)" and src: "from \<noteq> i" "from \<noteq> NULL_NODE_ID os"
    and h: "unat (hops (tnodes w from)) \<le> unat h"
  shows "tree_net_inv os sink (tree_update w i n' [])"
proof -
  let ?w = "tree_update w i n' []"
  have nodes: "tnodes (tree_update w i x []) = (tnodes w)(i := x)"
    and air: "tair (tree_update w i x []) = tair w" for x
    by (simp_all add: tree_update_def radio_packets_def)
  have small: "unat (h + 1) = Suc (unat h)" using less by (simp add: unat_Suc_less)
  have ni: "tree_inv os i n" using inv old by (auto simp: tree_net_inv_def)
  then have ni': "tree_inv os i n'"
    using less src small unat_u8_less [of "hops n"]
    by (auto simp: n' tree_inv_def split: tree_state.splits)
  have lower: "unat (hops (tnodes ?w j)) \<le> unat (hops (tnodes w j))" for j
    using less small by (auto simp: nodes n' old)
  have gate: "state n \<noteq> TrGateway"
    using ni less by (auto simp: tree_inv_def)
  have "tree_parent_ok ?w j" for j
  proof (cases "j = i")
    case True
    then show ?thesis
      using small h src by (simp add: tree_parent_ok_def nodes n')
  next
    case False
    then show ?thesis
      using inv lower [of "parent (tnodes w j)"]
      by (force simp: tree_net_inv_def tree_parent_ok_def nodes)
  qed
  moreover have "tree_packet_ok os ?w p" if "p \<in> set (tair w)" for p
    using inv that lower
    by (fastforce simp: tree_net_inv_def tree_packet_ok_def split: prod.splits dest: bspec intro: order_trans)
  moreover have "\<forall>j. state (tnodes ?w j) = TrGateway \<longleftrightarrow> sink j"
    using inv gate old by (auto simp: tree_net_inv_def nodes n')
  ultimately show ?thesis
    using inv ni' by (simp add: tree_net_inv_def air nodes)
qed

lemma tree_timer_packet:
  assumes "length junk = 4" and "tree_timer_elapsed os junk n = Some (n', calls)"
  shows "n' = n \<and> (\<forall>d m. Radio_send d m \<in> set calls \<longrightarrow> rd m 1 = Some (hops n))"
  using assms(2) by (auto simp: tree_timer_elapsed_eq [OF assms(1)] rd_def split: if_splits)

lemma trm_new_min: "trm_new os junk mid src = Some b \<Longrightarrow> 4 \<le> length junk"
  by (auto simp: trm_new_def trm_defs put_simps mem_simps split: if_splits)

lemma tree_send_packet:
  assumes "tree_send os self junk n dest len data = Some (n', calls, r)"
  shows "n' = n \<and> (\<forall>d m. Radio_send d m \<in> set calls \<longrightarrow> rd m 0 \<noteq> Some TrMsgIdBroadcast)"
proof (cases "parent n = NULL_NODE_ID os")
  case True
  then show ?thesis using assms by (auto simp: tree_send_def)
next
  case False
  then obtain b b' sz call where b: "trm_new os junk TrMsgIdRouting self = Some b"
    and b': "trm_set_payload (os_endianness os) b len data = Some b'"
    and call: "radio_send (parent n) sz b' = Some call" and res: "n' = n" "calls = [call]"
    using assms by (auto simp: tree_send_def mem_simps)
  obtain js where js: "b = [TrMsgIdRouting, hi8 self, lo8 self, 0] @ js"
    using trm_new_layout [OF trm_new_min [OF b]] b by auto
  have "b' ! 0 = TrMsgIdRouting \<and> b' \<noteq> []"
    using b' by (auto simp: trm_set_payload_def js put_simps mem_simps split: if_splits)
  then show ?thesis
    using call by (auto simp: res radio_send_def mem_simps)
qed

lemma tree_receive_packet:
  assumes "tree_receive os self n from len data = Some (n', calls)"
    and "Radio_send d m \<in> set calls"
  shows "rd m 0 \<noteq> Some TrMsgIdBroadcast" and "state n \<noteq> TrGateway" and "parent n \<noteq> NULL_NODE_ID os"
  using assms
  by (auto simp: tree_receive_def put_simps mem_simps radio_send_def split: if_splits)

lemma tree_step_inv:
  assumes "tree_step os w w'" and "tree_net_inv os sink w"
  shows "tree_net_inv os sink w'"
  using assms(1)
proof (cases rule: tree_step.cases)
  case (Timer i junk n calls)
  note packet = tree_timer_packet [OF Timer(3,4)]
  show ?thesis unfolding Timer(1)
    by (rule tree_packets_inv) (use Timer packet assms(2) in auto)
next
  case (Send i junk dest len data n calls r)
  note packet = tree_send_packet [OF Send(3)]
  show ?thesis unfolding Send(1)
    by (rule tree_packets_inv) (use Send packet assms(2) in auto)
next
  case (Deliver i src d m n calls)
  have air: "tree_packet_ok os w (src, d, m)"
    using Deliver(3) assms(2) by (auto simp: tree_net_inv_def)
  show ?thesis
  proof (cases "n = tnodes w i")
    case True
    show ?thesis unfolding Deliver(1)
      by (rule tree_packets_inv)
        (use Deliver(2) True assms(2) tree_receive_packet [OF Deliver(5)] in auto)
  next
    case False
    then obtain h where h: "rd m 0 = Some TrMsgIdBroadcast" "rd m 1 = Some h" "src \<noteq> i"
        "unat h + 1 < unat (hops (tnodes w i))"
        "n = (tnodes w i)\<lparr>hops := h + 1, parent := src, state := TrConnected\<rparr>"
      using tree_receive_step [OF Deliver(5)] by auto
    have "calls = []"
      using Deliver(5) h by (auto simp: tree_receive_def put_simps mem_simps tbm_hops_def split: if_splits)
    then show ?thesis unfolding Deliver(1)
      using tree_connect_inv [OF assms(2) refl h(5,4,3)] air h by (auto simp: tree_packet_ok_def)
  qed
qed

lemma tree_reachable_inv: "tree_reachable os sink w \<Longrightarrow> tree_net_inv os sink w"
  by (induction rule: tree_reachable.induct) (auto intro: tree_start_inv tree_step_inv)

text \<open>What the invariant says of one connected node.\<close>

lemma tree_net_inv_parent:
  assumes "tree_net_inv os sink w" and "state (tnodes w i) = TrConnected"
  shows "unat (hops (tnodes w (parent (tnodes w i)))) < unat (hops (tnodes w i))"
    and "state (tnodes w (parent (tnodes w i))) \<noteq> TrUnconnected"
    and "parent (tnodes w i) \<noteq> i" and "parent (tnodes w i) \<noteq> NULL_NODE_ID os"
proof -
  let ?n = "tnodes w i" and ?p = "tnodes w (parent (tnodes w i))"
  have i: "tree_inv os i ?n" and p: "tree_inv os (parent ?n) ?p" and ok: "tree_parent_ok w i"
    using assms(1) by (simp_all add: tree_net_inv_def)
  show less: "unat (hops ?p) < unat (hops ?n)"
    using ok assms(2) by (simp add: tree_parent_ok_def)
  show "state ?p \<noteq> TrUnconnected"
    using less i p assms(2) by (auto simp: tree_inv_def)
  show "parent ?n \<noteq> i" "parent ?n \<noteq> NULL_NODE_ID os"
    using i assms(2) by (auto simp: tree_inv_def)
qed

section \<open>The way to the gateway\<close>

text \<open>Following the parents from a node, at most \<open>k\<close> of them.\<close>

fun tree_path :: "(node_id \<Rightarrow> tree_node) \<Rightarrow> nat \<Rightarrow> node_id \<Rightarrow> node_id list option" where
  "tree_path nds 0 i = None"
| "tree_path nds (Suc k) i =
     (case state (nds i) of
        TrGateway \<Rightarrow> Some [i]
      | TrConnected \<Rightarrow> map_option (Cons i) (tree_path nds k (parent (nds i)))
      | TrUnconnected \<Rightarrow> None)"

lemma tree_path_descends:
  assumes "tree_net_inv os sink w" and "state (tnodes w i) \<noteq> TrUnconnected"
    and "unat (hops (tnodes w i)) < k"
  shows "\<exists>p. tree_path (tnodes w) k i = Some p \<and> p \<noteq> [] \<and> hd p = i \<and> sink (last p)
    \<and> length p \<le> Suc (unat (hops (tnodes w i))) \<and> sorted_wrt (>) (map (\<lambda>j. unat (hops (tnodes w j))) p)"
  using assms(2,3)
proof (induction k arbitrary: i)
  case (Suc k)
  show ?case
  proof (cases "state (tnodes w i)")
    case TrGateway
    then have "sink i" using assms(1) by (simp add: tree_net_inv_def)
    then show ?thesis using TrGateway by simp
  next
    case TrConnected
    note parent = tree_net_inv_parent [OF assms(1) TrConnected]
    let ?j = "parent (tnodes w i)"
    have k: "unat (hops (tnodes w ?j)) < k" using parent(1) Suc.prems(2) by simp
    obtain p where p: "tree_path (tnodes w) k ?j = Some p" "p \<noteq> []" "hd p = ?j" "sink (last p)"
        "length p \<le> Suc (unat (hops (tnodes w ?j)))"
        "sorted_wrt (>) (map (\<lambda>j. unat (hops (tnodes w j))) p)"
      using Suc.IH [OF parent(2) k] by blast
    then obtain q where q: "p = ?j # q" by (cases p) auto
    show ?thesis using p TrConnected parent(1) by (auto simp: q)
  qed (use Suc.prems in simp)
qed simp

lemma sorted_wrt_greater_distinct:
  "sorted_wrt (>) (map f xs) \<Longrightarrow> distinct xs" for f :: "'a \<Rightarrow> nat"
  by (induction xs) auto

text \<open>
  One packet carried by the nodes, each handing it to the next as its handler says, until some
  node gives it to its receivers: the node, and what the receivers get.
\<close>

fun tree_convey :: "os_model \<Rightarrow> (node_id \<Rightarrow> tree_node) \<Rightarrow> nat \<Rightarrow> node_id \<Rightarrow> node_id \<Rightarrow> bytes \<Rightarrow>
    (node_id \<times> node_id \<times> nat \<times> bytes) option" where
  "tree_convey os nds 0 i from m = None"
| "tree_convey os nds (Suc k) i from m =
     (case tree_receive os i (nds i) from (length m) m of
        Some (_, [Notify_receivers src n p]) \<Rightarrow> Some (i, src, n, p)
      | Some (_, [Radio_send d m']) \<Rightarrow> tree_convey os nds k d i m'
      | _ \<Rightarrow> None)"

lemma tree_receive_routing:
  assumes "from \<noteq> self" and "m = [TrMsgIdRouting, hi8 src, lo8 src, len] @ pl" and "length pl = unat len"
    and "length m < 256" and "state n \<noteq> TrUnconnected" and "parent n \<noteq> NULL_NODE_ID os"
  shows "tree_receive os self n from (length m) m = Some (n,
    if state n = TrGateway then [Notify_receivers src (unat len) pl] else [Radio_send (parent n) m])"
  using assms by (auto simp: tree_receive_def trm_defs put_simps radio_send_eq)

lemma tree_convey_arrives:
  assumes inv: "tree_net_inv os sink w"
    and m: "m = [TrMsgIdRouting, hi8 src, lo8 src, len] @ pl" "length pl = unat len" "length m < 256"
    and "state (tnodes w i) \<noteq> TrUnconnected" and "from \<noteq> i" and "unat (hops (tnodes w i)) < k"
    and null: "\<not> sink (NULL_NODE_ID os)"
  shows "\<exists>g. tree_convey os (tnodes w) k i from m = Some (g, src, unat len, pl) \<and> sink g"
  using assms(5,6,7)
proof (induction k arbitrary: i "from")
  case (Suc k)
  let ?n = "tnodes w i"
  show ?case
  proof (cases "state ?n")
    case TrGateway
    then have "sink i" and "parent ?n \<noteq> NULL_NODE_ID os"
      using inv null by (auto simp: tree_net_inv_def tree_inv_def split: tree_state.splits)
    then show ?thesis
      using tree_receive_routing [OF Suc.prems(2) m, of ?n os] TrGateway by simp
  next
    case TrConnected
    note parent = tree_net_inv_parent [OF inv TrConnected]
    have "unat (hops (tnodes w (parent ?n))) < k" using parent(1) Suc.prems(3) by simp
    with Suc.IH [OF parent(2) parent(3) [symmetric]] show ?thesis
      using tree_receive_routing [OF Suc.prems(2) m, of ?n os] TrConnected parent(4) by simp
  qed (use Suc.prems in simp)
qed simp

lemma tree_send_eq:
  assumes "parent n \<noteq> NULL_NODE_ID os" and "4 + unat len \<le> length junk" and "unat len \<le> length data"
    and "4 + unat len < 256"
  shows "tree_send os self junk n dest len data = Some (n,
    [Radio_send (parent n) ([TrMsgIdRouting, hi8 self, lo8 self, len] @ take (unat len) data)], SUCCESS)"
proof -
  have "take (4 + unat len) (a # b # c # d # take (unat len) data @ js) =
      a # b # c # d # take (unat len) data" for a b c d :: u8 and js
    using assms(3) by (simp add: numeral_eq_Suc)
  moreover have "4 \<le> length junk" "4 + unat len \<le> 4 + length (drop 4 junk)" using assms(2) by auto
  ultimately show ?thesis
    using assms
    by (simp add: tree_send_def trm_new_layout trm_set_payload_layout
        [of len _ data _ TrMsgIdRouting "hi8 self" "lo8 self", simplified]
        trm_defs put_simps radio_send_eq)
qed

section \<open>Properties\<close>

text \<open>C1: In every state a network of tree routing nodes can reach, whatever packets are lost,
  duplicated, delayed or reordered, the parents of a connected node lead to a gateway without
  a cycle, in at most as many steps as the node's hop distance says.\<close>

theorem tree_loop_free:
  assumes "tree_reachable os sink w" and "state (tnodes w i) \<noteq> TrUnconnected"
  shows "\<exists>p. tree_path (tnodes w) (Suc (unat (hops (tnodes w i)))) i = Some p \<and> distinct p \<and> hd p = i
    \<and> sink (last p) \<and> length p \<le> Suc (unat (hops (tnodes w i)))"
  using tree_path_descends [OF tree_reachable_inv [OF assms(1)] assms(2) lessI]
  by (blast intro: sorted_wrt_greater_distinct)

text \<open>The example network: node 1 is the gateway, node 2 hears it, node 3 hears node 2.\<close>

abbreviation "demo_sink \<equiv> (\<lambda>i :: node_id. i = 1)"

definition demo_net :: "tree_net" where
  "demo_net = \<lparr>tnodes = (tree_boot demo_os demo_sink)
       (2 := \<lparr>state = TrConnected, work_period = 5000, parent = 1, hops = 1\<rparr>,
        3 := \<lparr>state = TrConnected, work_period = 5000, parent = 2, hops = 2\<rparr>),
     tair = [(1, 0xffff, [100, 0, 0, 1]), (2, 0xffff, [100, 1, 0, 1]), (3, 0xffff, [100, 2, 0, 2])]\<rparr>"

lemma demo_boot:
  "tree_boot demo_os demo_sink i = \<lparr>state = (if i = 1 then TrGateway else TrUnconnected),
     work_period = 5000, parent = (if i = 1 then 1 else 0), hops = (if i = 1 then 0 else 255)\<rparr>"
  by (simp add: tree_boot_def tree_init_def tree_enable_radio_def tree_set_sink_def tree_new_def demo_os_def)

lemma demo_timer:
  assumes "i \<noteq> 0" and "state (tnodes w i) \<noteq> TrUnconnected"
  shows "tree_step demo_os w (w\<lparr>tair := tair w @ [(i, 0xffff, [100, hops (tnodes w i),
    hi8 (parent (tnodes w i)), lo8 (parent (tnodes w i))])]\<rparr>)"
proof -
  have "tree_step demo_os w (tree_update w i (tnodes w i)
      ((if state (tnodes w i) = TrUnconnected then []
        else [Radio_send (BROADCAST_ADDRESS demo_os) [100, hops (tnodes w i),
          hi8 (parent (tnodes w i)), lo8 (parent (tnodes w i))]]) @ [Set_timer (work_period (tnodes w i))]))"
    by (rule tree_step.Timer [where junk = "[0, 0, 0, 0]"])
      (use assms in \<open>simp_all add: tree_timer_elapsed_eq demo_os_def\<close>)
  then show ?thesis using assms(2)
    by (simp add: tree_update_def radio_packets_def demo_os_def)
qed

lemma demo_deliver:
  assumes "i \<noteq> 0" "i \<noteq> src" "(src, 0xffff, TrMsgIdBroadcast # h # rest) \<in> set (tair w)"
    and "unat h + 1 < unat (hops (tnodes w i))"
  shows "tree_step demo_os w (w\<lparr>tnodes := (tnodes w)
    (i := (tnodes w i)\<lparr>hops := h + 1, parent := src, state := TrConnected\<rparr>)\<rparr>)"
proof -
  have "tree_step demo_os w (tree_update w i
      ((tnodes w i)\<lparr>hops := h + 1, parent := src, state := TrConnected\<rparr>) [])"
    by (rule tree_step.Deliver) (use assms in \<open>auto simp: tree_receive_broadcast demo_os_def\<close>)
  then show ?thesis by (simp add: tree_update_def radio_packets_def)
qed

lemma demo_net_reachable: "tree_reachable demo_os demo_sink demo_net"
proof -
  have "tree_reachable demo_os demo_sink (tree_start demo_os demo_sink)" by (rule tree_reachable.Start)
  note tree_reachable.Step [OF this demo_timer [of 1]]
  note tree_reachable.Step [OF this demo_deliver [of 2 1 0]]
  note tree_reachable.Step [OF this demo_timer [of 2]]
  note tree_reachable.Step [OF this demo_deliver [of 3 2 1]]
  note tree_reachable.Step [OF this demo_timer [of 3]]
  from this show ?thesis
    by (simp add: tree_start_def demo_boot demo_net_def hi8_def lo8_def fun_upd_def)
qed

theorem tree_loop_free_witness:
  "tree_path (tnodes demo_net) 3 3 = Some [3, 2, 1] \<and>
   (\<exists>p. tree_path (tnodes demo_net) (Suc (unat (hops (tnodes demo_net 3)))) 3 = Some p \<and> distinct p)"
  using tree_loop_free [OF demo_net_reachable, of 3]
  by (auto simp: demo_net_def demo_boot numeral_3_eq_3)

text \<open>C3: In every reachable state, a payload that a connected node gives to \<open>send\<close> (whatever
  receiver it names) goes to its parent, is handed on from parent to parent, and the receivers of a
  gateway get it unchanged, with the sender's id as its source.\<close>

theorem tree_send_arrives:
  assumes "tree_reachable os sink w" and "state (tnodes w i) = TrConnected"
    and "\<not> sink (NULL_NODE_ID os)"
    and "4 + unat len \<le> length junk" and "unat len \<le> length data" and "4 + unat len < 256"
  shows "\<exists>d m g. tree_send os i junk (tnodes w i) dest len data = Some (tnodes w i, [Radio_send d m], SUCCESS)
    \<and> tree_convey os (tnodes w) (unat (hops (tnodes w i))) d i m
        = Some (g, i, unat len, take (unat len) data) \<and> sink g"
proof -
  note inv = tree_reachable_inv [OF assms(1)]
  note parent = tree_net_inv_parent [OF inv assms(2)]
  show ?thesis
    using tree_send_eq [OF parent(4) assms(4,5,6)]
      tree_convey_arrives [OF inv refl _ _ parent(2) parent(3) [symmetric] parent(1) assms(3),
        where src = i and len = len and pl = "take (unat len) data"] assms(5,6)
    by auto
qed

theorem tree_send_arrives_witness:
  "\<exists>d m g. tree_send demo_os 3 (replicate 116 0) (tnodes demo_net 3) 7 2 [42, 43] =
      Some (tnodes demo_net 3, [Radio_send d m], SUCCESS)
    \<and> tree_convey demo_os (tnodes demo_net) 2 d 3 m = Some (g, 3, 2, [42, 43]) \<and> g = 1"
  using tree_send_arrives [OF demo_net_reachable, where i = 3 and len = 2 and data = "[42, 43]"
      and junk = "replicate 116 0" and dest = 7]
  by (simp add: demo_net_def demo_os_def)

text \<open>C4: The maximal payload length the class announces,
  \<^verbatim>\<open>Radio::MAX_MESSAGE_LENGTH - PAYLOAD_POS\<close>, is one too long: \<open>send\<close> of a connected
  node fills its message of \<^verbatim>\<open>Radio::MAX_MESSAGE_LENGTH\<close> bytes with every shorter
  payload, and writes past its end with one of that length.\<close>

theorem tree_send_max_payload:
  assumes "parent n \<noteq> NULL_NODE_ID os" and "4 \<le> MAX_MESSAGE_LENGTH os" and "MAX_MESSAGE_LENGTH os < 256"
    and "length junk = MAX_MESSAGE_LENGTH os" and "unat len \<le> length data"
  shows "(unat len < MAX_MESSAGE_LENGTH os - trm_PAYLOAD_POS \<longrightarrow>
      (\<exists>m. tree_send os self junk n dest len data = Some (n, [Radio_send (parent n) m], SUCCESS)
        \<and> length m = 4 + unat len))
    \<and> (unat len = MAX_MESSAGE_LENGTH os - trm_PAYLOAD_POS \<longrightarrow>
      tree_send os self junk n dest len data = None)"
proof (intro conjI impI)
  assume "unat len < MAX_MESSAGE_LENGTH os - trm_PAYLOAD_POS"
  then show "\<exists>m. tree_send os self junk n dest len data = Some (n, [Radio_send (parent n) m], SUCCESS)
      \<and> length m = 4 + unat len"
    using tree_send_eq [OF assms(1), of len junk data self dest] assms by auto
next
  assume full: "unat len = MAX_MESSAGE_LENGTH os - trm_PAYLOAD_POS"
  have "trm_set_payload e ([m, x, y, z] @ drop 4 junk) len data = None" for e m x y z
    by (rule trm_set_payload_overflow) (use assms full in simp)
  then show "tree_send os self junk n dest len data = None"
    using assms trm_new_layout [of junk os TrMsgIdRouting self] by (simp add: tree_send_def)
qed

theorem tree_send_max_payload_witness:
  "tree_send demo_os 2 (replicate 116 0) (tnodes demo_net 2) 1 113 (replicate 200 7) = None
   \<and> (\<exists>m. tree_send demo_os 2 (replicate 116 0) (tnodes demo_net 2) 1 112 (replicate 200 7)
        = Some (tnodes demo_net 2, [Radio_send 1 m], SUCCESS) \<and> length m = 116)"
  using tree_send_max_payload [where n = "tnodes demo_net 2" and os = demo_os and self = 2 and dest = 1
      and junk = "replicate 116 0" and len = 112 and data = "replicate 200 7"]
    tree_send_max_payload [where n = "tnodes demo_net 2" and os = demo_os and self = 2 and dest = 1
      and junk = "replicate 116 0" and len = 113 and data = "replicate 200 7"]
  by (simp add: demo_net_def demo_os_def)

text \<open>Starting a connected node again is not safe: in a network where node 2 is the parent
  of node 3, \<open>init\<close> on node 2 followed by a delayed broadcast of node 3 makes the two nodes
  each other's parent, and no gateway is reached from them.\<close>

theorem tree_reinit_cycle:
  "\<exists>w w'. tree_reachable demo_os demo_sink w \<and>
     tree_step demo_os (w\<lparr>tnodes := (tnodes w)(2 := fst (tree_init demo_os 2 (tnodes w 2)))\<rparr>) w' \<and>
     parent (tnodes w' 2) = 3 \<and> parent (tnodes w' 3) = 2 \<and> tree_path (tnodes w') k 2 = None
     \<and> tree_path (tnodes w') k 3 = None"
proof -
  let ?w = "demo_net\<lparr>tnodes := (tnodes demo_net)(2 := fst (tree_init demo_os 2 (tnodes demo_net 2)))\<rparr>"
  let ?w' = "?w\<lparr>tnodes := (tnodes ?w)(2 := (tnodes ?w 2)\<lparr>hops := 3, parent := 3, state := TrConnected\<rparr>)\<rparr>"
  have step: "tree_step demo_os ?w ?w'"
    using demo_deliver [of 2 3 2 "[0, 2]" ?w]
    by (simp add: demo_net_def tree_init_def tree_enable_radio_def demo_os_def)
  have cycle: "parent (tnodes ?w' 2) = 3" "parent (tnodes ?w' 3) = 2"
      "state (tnodes ?w' 2) = TrConnected" "state (tnodes ?w' 3) = TrConnected"
    by (simp_all add: demo_net_def)
  then have "tree_path (tnodes ?w') k 2 = None \<and> tree_path (tnodes ?w') k 3 = None"
    by (induction k) (simp_all del: fun_upd_apply)
  then show ?thesis using demo_net_reachable step cycle by blast
qed

end
