(* ===== verification/Tree_Convergence.thy ===== *)
theory Tree_Convergence
  imports Tree_Network
begin

text \<open>
  Tree routing as an endless execution of the network: if the links of a graph \<open>E\<close> work again and
  again, every node within 254 links of a gateway ends up connected, for ever, over at most as many
  hops as the shortest way in \<open>E\<close> has links. Nothing is assumed of other links, of the
  order of the steps or of how often they happen.
\<close>

section \<open>Executions\<close>

text \<open>At every instant one node does something, or nothing happens.\<close>

definition tree_execution :: "os_model \<Rightarrow> (node_id \<Rightarrow> bool) \<Rightarrow> (nat \<Rightarrow> tree_net) \<Rightarrow> bool" where
  "tree_execution os sink run \<longleftrightarrow> run 0 = tree_start os sink \<and>
     (\<forall>t. tree_step os (run t) (run (Suc t)) \<or> run (Suc t) = run t)"

definition tree_timer_at :: "os_model \<Rightarrow> (nat \<Rightarrow> tree_net) \<Rightarrow> node_id \<Rightarrow> nat \<Rightarrow> os_call list \<Rightarrow> bool" where
  "tree_timer_at os run a t calls \<longleftrightarrow> (\<exists>junk n. length junk = 4 \<and>
     tree_timer_elapsed os junk (tnodes (run t) a) = Some (n, calls) \<and> run (Suc t) = tree_update (run t) a n calls)"

definition tree_receive_at :: "os_model \<Rightarrow> (nat \<Rightarrow> tree_net) \<Rightarrow> node_id \<Rightarrow> nat \<Rightarrow> node_id \<Rightarrow> bytes \<Rightarrow> bool" where
  "tree_receive_at os run b t src m \<longleftrightarrow> (\<exists>n calls.
     tree_receive os b (tnodes (run t) b) src (length m) m = Some (n, calls) \<and> run (Suc t) = tree_update (run t) b n calls)"

text \<open>A link works again and again: after every instant there is a later timer of the one node of
  which the other node receives what it sent, if anything.\<close>

definition tree_fair :: "os_model \<Rightarrow> (node_id \<times> node_id) set \<Rightarrow> (nat \<Rightarrow> tree_net) \<Rightarrow> bool" where
  "tree_fair os E run \<longleftrightarrow> (\<forall>(a, b) \<in> E. \<forall>t. \<exists>t1 \<ge> t. \<exists>calls. tree_timer_at os run a t1 calls \<and>
     (\<forall>d m. Radio_send d m \<in> set calls \<longrightarrow> (\<exists>t2 > t1. tree_receive_at os run b t2 a m)))"

lemma tree_execution_step:
  "tree_execution os sink run \<Longrightarrow> tree_step os (run t) (run (Suc t)) \<or> run (Suc t) = run t"
  by (simp add: tree_execution_def)

lemma tree_execution_inv: "tree_execution os sink run \<Longrightarrow> tree_net_inv os sink (run t)"
proof (induction t)
  case (Suc t)
  then show ?case
    using tree_execution_step [OF Suc.prems, of t] tree_step_inv [of os "run t" "run (Suc t)" sink] by auto
qed (simp add: tree_execution_def tree_start_inv)

lemma tree_step_hops:
  assumes "tree_step os w w'" and "tree_net_inv os sink w"
  shows "unat (hops (tnodes w' i)) \<le> unat (hops (tnodes w i))"
  using assms(1)
proof (cases rule: tree_step.cases)
  case (Timer j junk n calls)
  then show ?thesis using tree_timer_packet [OF Timer(3,4)] by (simp add: tree_update_def)
next
  case (Send j junk dest len data n calls r)
  then show ?thesis using tree_send_packet [OF Send(3)] by (simp add: tree_update_def)
next
  case (Deliver j src d m n calls)
  have "tree_inv os j (tnodes w j)" and "src \<noteq> NULL_NODE_ID os"
    using assms(2) Deliver(3) by (auto simp: tree_net_inv_def tree_packet_ok_def)
  then show ?thesis using tree_receive_inv(3) [OF _ Deliver(5)] Deliver(1) by (simp add: tree_update_def)
qed

lemma tree_execution_hops:
  assumes "tree_execution os sink run" and "t \<le> t'"
  shows "unat (hops (tnodes (run t') i)) \<le> unat (hops (tnodes (run t) i))"
  using assms(2)
proof (induction t' rule: dec_induct)
  case (step n)
  have "unat (hops (tnodes (run (Suc n)) i)) \<le> unat (hops (tnodes (run n) i))"
    using tree_execution_step [OF assms(1), of n] tree_step_hops [OF _ tree_execution_inv [OF assms(1)], of n _ i] by auto
  then show ?case using step.IH by simp
qed simp

lemma tree_net_inv_hops:
  assumes "tree_net_inv os sink w"
  shows "state (tnodes w i) \<noteq> TrUnconnected \<longleftrightarrow> unat (hops (tnodes w i)) < 255"
    and "sink i \<Longrightarrow> hops (tnodes w i) = 0"
proof -
  have "tree_inv os i (tnodes w i)" and "state (tnodes w i) = TrGateway \<longleftrightarrow> sink i"
    using assms by (simp_all add: tree_net_inv_def)
  then show "state (tnodes w i) \<noteq> TrUnconnected \<longleftrightarrow> unat (hops (tnodes w i)) < 255"
    and "sink i \<Longrightarrow> hops (tnodes w i) = 0"
    by (cases "state (tnodes w i)"; simp add: tree_inv_def)+
qed

lemma tree_fairD:
  assumes "tree_fair os E run" and "(a, b) \<in> E"
  shows "\<exists>t1 \<ge> t. \<exists>calls. tree_timer_at os run a t1 calls \<and>
     (\<forall>d m. Radio_send d m \<in> set calls \<longrightarrow> (\<exists>t2 > t1. tree_receive_at os run b t2 a m))"
  using bspec [OF assms(1) [unfolded tree_fair_def] assms(2)] by simp

text \<open>One working link.\<close>

lemma tree_link_works:
  assumes run: "tree_execution os sink run" and timer: "tree_timer_at os run a t1 calls"
    and heard: "\<forall>d m. Radio_send d m \<in> set calls \<longrightarrow> (\<exists>t2 > t1. tree_receive_at os run b t2 a m)"
    and a: "unat (hops (tnodes (run t1) a)) < 255"
  shows "\<exists>T. \<forall>t \<ge> T. unat (hops (tnodes (run t) b)) \<le> Suc (unat (hops (tnodes (run t1) a)))"
proof (cases "a = b")
  case True
  then show ?thesis using tree_execution_hops [OF run, of t1 _ b] by (meson le_SucI)
next
  case False
  let ?h = "hops (tnodes (run t1) a)"
  let ?m = "[TrMsgIdBroadcast, ?h, hi8 (parent (tnodes (run t1) a)), lo8 (parent (tnodes (run t1) a))]"
  have "state (tnodes (run t1) a) \<noteq> TrUnconnected"
    using tree_net_inv_hops(1) [OF tree_execution_inv [OF run]] a by simp
  then have "Radio_send (BROADCAST_ADDRESS os) ?m \<in> set calls"
    using timer by (auto simp: tree_timer_at_def tree_timer_elapsed_eq)
  then obtain t2 where "tree_receive_at os run b t2 a ?m" using heard by blast
  then obtain n cs where n: "tree_receive os b (tnodes (run t2) b) a (length ?m) ?m = Some (n, cs)"
      "run (Suc t2) = tree_update (run t2) b n cs" by (auto simp: tree_receive_at_def)
  have "unat (hops n) \<le> Suc (unat ?h)"
    using n(1) unat_Suc_less [of ?h "hops (tnodes (run t2) b)"]
    by (auto simp: tree_receive_broadcast [OF False] split: if_splits)
  then have "unat (hops (tnodes (run (Suc t2)) b)) \<le> Suc (unat ?h)" by (simp add: n(2) tree_update_def)
  then show ?thesis using tree_execution_hops [OF run, of "Suc t2" _ b] order_trans by blast
qed

lemma tree_fair_hops:
  assumes run: "tree_execution os sink run" and fair: "tree_fair os E run" and "sink g"
  shows "(g, i) \<in> E ^^ k \<Longrightarrow> k < 255 \<Longrightarrow> \<exists>T. \<forall>t \<ge> T. unat (hops (tnodes (run t) i)) \<le> k"
proof (induction k arbitrary: i)
  case 0
  then show ?case using tree_net_inv_hops(2) [OF tree_execution_inv [OF run]] \<open>sink g\<close> by simp
next
  case (Suc k)
  obtain j where j: "(g, j) \<in> E ^^ k" "(j, i) \<in> E" using Suc.prems(1) by auto
  obtain T where T: "\<forall>t \<ge> T. unat (hops (tnodes (run t) j)) \<le> k" using Suc.IH [OF j(1)] Suc.prems(2) by auto
  obtain t1 calls where t1: "t1 \<ge> T" "tree_timer_at os run j t1 calls"
      "\<forall>d m. Radio_send d m \<in> set calls \<longrightarrow> (\<exists>t2 > t1. tree_receive_at os run i t2 j m)"
    using tree_fairD [OF fair j(2), of T] by (elim exE conjE)
  have h: "unat (hops (tnodes (run t1) j)) \<le> k" using T t1(1) by blast
  obtain T' where "\<forall>t \<ge> T'. unat (hops (tnodes (run t) i)) \<le> Suc (unat (hops (tnodes (run t1) j)))"
    using tree_link_works [OF run t1(2), of i, OF t1(3)] h Suc.prems(2) by auto
  then have "\<forall>t \<ge> T'. unat (hops (tnodes (run t) i)) \<le> Suc k" using h by fastforce
  then show ?case by blast
qed

section \<open>Convergence\<close>

text \<open>C2: In every execution in which the links of a graph work again and again, a node that is
  \<open>k < 255\<close> links from a gateway is from some instant on for ever connected, at a hop distance of
  at most \<open>k\<close>, and its parents lead to a gateway in at most \<open>k\<close> steps.\<close>

theorem tree_converges:
  assumes "tree_execution os sink run" and "tree_fair os E run"
    and "sink g" and "(g, i) \<in> E ^^ k" and "k < 255"
  shows "\<exists>T. \<forall>t \<ge> T. state (tnodes (run t) i) \<noteq> TrUnconnected \<and> unat (hops (tnodes (run t) i)) \<le> k \<and>
    (\<exists>p. tree_path (tnodes (run t)) (Suc k) i = Some p \<and> sink (last p) \<and> length p \<le> Suc k)"
proof -
  obtain T where T: "\<forall>t \<ge> T. unat (hops (tnodes (run t) i)) \<le> k"
    using tree_fair_hops [OF assms] by blast
  have "state (tnodes (run t) i) \<noteq> TrUnconnected \<and> unat (hops (tnodes (run t) i)) \<le> k \<and>
      (\<exists>p. tree_path (tnodes (run t)) (Suc k) i = Some p \<and> sink (last p) \<and> length p \<le> Suc k)" if "t \<ge> T" for t
  proof -
    note inv = tree_execution_inv [OF assms(1), of t]
    have h: "unat (hops (tnodes (run t) i)) \<le> k" using T that by blast
    then have s: "state (tnodes (run t) i) \<noteq> TrUnconnected"
      using tree_net_inv_hops(1) [OF inv] assms(5) by simp
    show ?thesis using tree_path_descends [OF inv s, of "Suc k"] h s by fastforce
  qed
  then show ?thesis by blast
qed

text \<open>An execution: the timer of the gateway 1 and the delivery of its broadcast to node 2, in turn.\<close>

definition demo_execution :: "nat \<Rightarrow> tree_net" where
  "demo_execution t = \<lparr>tnodes = (if t < 2 then tree_boot demo_os demo_sink
       else (tree_boot demo_os demo_sink)(2 := \<lparr>state = TrConnected, work_period = 5000, parent = 1, hops = 1\<rparr>)),
     tair = replicate (Suc t div 2) (1, 0xffff, [100, 0, 0, 1])\<rparr>"

lemma demo_execution_timer:
  assumes "even t"
  shows "tree_timer_at demo_os demo_execution 1 t [Radio_send 0xffff [100, 0, 0, 1], Set_timer 5000]"
proof -
  obtain k where k: "t = 2 * k" using assms by (elim evenE)
  have "tnodes (demo_execution t) 1 = \<lparr>state = TrGateway, work_period = 5000, parent = 1, hops = 0\<rparr>"
    by (simp add: demo_execution_def demo_boot)
  moreover have "demo_execution (Suc t) = tree_update (demo_execution t) 1 (tnodes (demo_execution t) 1)
      [Radio_send 0xffff [100, 0, 0, 1], Set_timer 5000]"
    by (cases k) (auto simp: k demo_execution_def tree_update_def radio_packets_def replicate_append_same)
  ultimately show ?thesis
    by (auto simp: tree_timer_at_def tree_timer_elapsed_eq demo_os_def hi8_def lo8_def
        intro!: exI [of _ "[0, 0, 0, 0] :: bytes"])
qed

lemma demo_execution_receive:
  assumes "odd t"
  shows "tree_receive_at demo_os demo_execution 2 t 1 [100, 0, 0, 1]"
proof -
  obtain k where k: "t = Suc (2 * k)" using assms by (metis oddE Suc_eq_plus1)
  show ?thesis
    by (cases k) (auto simp: k tree_receive_at_def tree_receive_broadcast demo_execution_def demo_boot
        tree_update_def radio_packets_def)
qed

lemma demo_execution_execution: "tree_execution demo_os demo_sink demo_execution"
proof -
  have "tree_step demo_os (demo_execution t) (demo_execution (Suc t))" for t
  proof (cases "even t")
    case True
    then show ?thesis using demo_execution_timer [OF True]
      by (auto simp: tree_timer_at_def demo_os_def intro!: tree_step.Timer)
  next
    case False
    then have "(1, 0xffff, [100, 0, 0, 1]) \<in> set (tair (demo_execution t))"
      by (cases t) (auto simp: demo_execution_def)
    then show ?thesis using demo_execution_receive [OF False]
      by (auto simp: tree_receive_at_def demo_os_def intro!: tree_step.Deliver)
  qed
  then show ?thesis by (simp add: tree_execution_def demo_execution_def tree_start_def)
qed

lemma demo_execution_fair: "tree_fair demo_os {(1, 2)} demo_execution"
proof -
  have "\<exists>t1 \<ge> t. \<exists>calls. tree_timer_at demo_os demo_execution 1 t1 calls \<and>
      (\<forall>d m. Radio_send d m \<in> set calls \<longrightarrow> (\<exists>t2 > t1. tree_receive_at demo_os demo_execution 2 t2 1 m))" for t
  proof (intro exI conjI allI impI)
    show "t \<le> 2 * t" by simp
    show "tree_timer_at demo_os demo_execution 1 (2 * t) [Radio_send 0xffff [100, 0, 0, 1], Set_timer 5000]"
      by (rule demo_execution_timer) simp
    fix d m assume "Radio_send d m \<in> set [Radio_send 0xffff [100, 0, 0, 1], Set_timer 5000]"
    then show "2 * t < Suc (2 * t)" and "tree_receive_at demo_os demo_execution 2 (Suc (2 * t)) 1 m"
      using demo_execution_receive [of "Suc (2 * t)"] by simp_all
  qed
  then show ?thesis by (simp add: tree_fair_def)
qed

lemma tree_converges_witness:
  "\<exists>T. \<forall>t \<ge> T. state (tnodes (demo_execution t) 2) \<noteq> TrUnconnected \<and> unat (hops (tnodes (demo_execution t) 2)) \<le> 1 \<and>
    (\<exists>p. tree_path (tnodes (demo_execution t)) (Suc 1) 2 = Some p \<and> last p = 1 \<and> length p \<le> Suc 1)"
  by (rule tree_converges [OF demo_execution_execution demo_execution_fair, of 1 2 1]) simp_all

end
