(* ===== verification/Dsdv_Messages.thy ===== *)
theory Dsdv_Messages
  imports Message_Buffer
begin

text \<open>
  \<^verbatim>\<open>algorithms/routing/dsdv/dsdv_routing_types.h\<close>,
  \<^verbatim>\<open>dsdv_broadcast_message.h\<close> and \<^verbatim>\<open>dsdv_routing_message.h\<close>: a routing
  table entry and the two messages of DSDV. A broadcast carries up to \<open>dbm_MAX_ENTRIES\<close>
  table entries of five bytes each; \<open>dsdv_packet\<close> is its layout on the wire, and the lemmas
  show that the accessors write and read exactly that.
\<close>

record dsdv_value =
  dv_next_hop :: node_id
  dv_hops :: u8

definition dsdv_value_default :: "os_model \<Rightarrow> dsdv_value" where
  "dsdv_value_default os = \<lparr>dv_next_hop = NULL_NODE_ID os, dv_hops = 0\<rparr>"

definition dsdv_value_new :: "node_id \<Rightarrow> u8 \<Rightarrow> dsdv_value" where
  "dsdv_value_new nxt h = \<lparr>dv_next_hop = nxt, dv_hops = h\<rparr>"

abbreviation (input) "DsdvBroadcastMsgId \<equiv> 110 :: u8"
abbreviation (input) "DsdvRoutingMsgId \<equiv> 111 :: u8"

section \<open>DsdvBroadcastMessage\<close>

abbreviation (input) "dbm_MSG_ID_POS \<equiv> 0 :: nat"
abbreviation (input) "dbm_ENTRY_CNT_POS \<equiv> 1 :: nat"
abbreviation (input) "dbm_DATA_POS \<equiv> 2 :: nat"
abbreviation (input) "dbm_ENTRY_SIZE \<equiv> 5 :: nat"

definition dbm_MAX_ENTRIES :: "os_model \<Rightarrow> nat" where
  "dbm_MAX_ENTRIES os = (MAX_MESSAGE_LENGTH os - 1 - 1) div dbm_ENTRY_SIZE"

text \<open>The size of a message object.\<close>

definition dbm_size :: "os_model \<Rightarrow> nat" where
  "dbm_size os = dbm_DATA_POS + dbm_MAX_ENTRIES os * dbm_ENTRY_SIZE"

definition dbm_msg_id :: "endianness \<Rightarrow> bytes \<Rightarrow> u8 option" where
  "dbm_msg_id e b = read_u8 e b dbm_MSG_ID_POS"

definition dbm_set_msg_id :: "endianness \<Rightarrow> bytes \<Rightarrow> u8 \<Rightarrow> bytes option" where
  "dbm_set_msg_id e b v = put8 e b dbm_MSG_ID_POS v"

definition dbm_entry_cnt :: "endianness \<Rightarrow> bytes \<Rightarrow> u8 option" where
  "dbm_entry_cnt e b = read_u8 e b dbm_ENTRY_CNT_POS"

definition dbm_set_entry_cnt :: "endianness \<Rightarrow> bytes \<Rightarrow> u8 \<Rightarrow> bytes option" where
  "dbm_set_entry_cnt e b v = put8 e b dbm_ENTRY_CNT_POS v"

definition dbm_set_entry :: "os_model \<Rightarrow> bytes \<Rightarrow> nat \<Rightarrow> node_id \<Rightarrow> dsdv_value \<Rightarrow> bytes option" where
  "dbm_set_entry os b idx node entry =
     (if dbm_MAX_ENTRIES os \<le> idx then Some b
      else let offset = dbm_DATA_POS + idx * dbm_ENTRY_SIZE
           in do { b \<leftarrow> put16 (os_endianness os) b offset node;
                   b \<leftarrow> put16 (os_endianness os) b (offset + 2) (dv_next_hop entry);
                   put8 (os_endianness os) b (offset + 2 + 2) (dv_hops entry) })"

text \<open>The result is the flag; with \<^const>\<open>True\<close> come the values of the reference arguments.\<close>

definition dbm_entry :: "os_model \<Rightarrow> bytes \<Rightarrow> nat \<Rightarrow> (node_id \<times> dsdv_value) option option" where
  "dbm_entry os b idx =
     (if dbm_MAX_ENTRIES os \<le> idx then Some None
      else let offset = dbm_DATA_POS + idx * dbm_ENTRY_SIZE
           in do { node \<leftarrow> read_u16 (os_endianness os) b offset;
                   nh \<leftarrow> read_u16 (os_endianness os) b (offset + 2);
                   h \<leftarrow> read_u8 (os_endianness os) b (offset + 2 + 2);
                   Some (Some (node, \<lparr>dv_next_hop = nh, dv_hops = h\<rparr>)) })"

definition dbm_buffer_size :: "endianness \<Rightarrow> bytes \<Rightarrow> nat option" where
  "dbm_buffer_size e b = do { n \<leftarrow> dbm_entry_cnt e b; Some (dbm_DATA_POS + unat n * dbm_ENTRY_SIZE) }"

definition dbm_default :: "os_model \<Rightarrow> bytes \<Rightarrow> bytes option" where
  "dbm_default os junk =
     do { b \<leftarrow> dbm_set_msg_id (os_endianness os) junk 0;
          dbm_set_entry_cnt (os_endianness os) b 0 }"

section \<open>DsdvRoutingMessage\<close>

abbreviation (input) "drm_MSG_ID_POS \<equiv> 0 :: nat"
abbreviation (input) "drm_SOURCE_POS \<equiv> 1 :: nat"
abbreviation (input) "drm_DEST_POS \<equiv> 3 :: nat"
abbreviation (input) "drm_PAYLOAD_POS \<equiv> 5 :: nat"

definition drm_msg_id :: "endianness \<Rightarrow> bytes \<Rightarrow> u8 option" where
  "drm_msg_id e b = read_u8 e b drm_MSG_ID_POS"

definition drm_set_msg_id :: "endianness \<Rightarrow> bytes \<Rightarrow> u8 \<Rightarrow> bytes option" where
  "drm_set_msg_id e b v = put8 e b drm_MSG_ID_POS v"

definition drm_source :: "endianness \<Rightarrow> bytes \<Rightarrow> node_id option" where
  "drm_source e b = read_u16 e b drm_SOURCE_POS"

definition drm_set_source :: "endianness \<Rightarrow> bytes \<Rightarrow> node_id \<Rightarrow> bytes option" where
  "drm_set_source e b v = put16 e b drm_SOURCE_POS v"

definition drm_destination :: "endianness \<Rightarrow> bytes \<Rightarrow> node_id option" where
  "drm_destination e b = read_u16 e b drm_DEST_POS"

definition drm_set_destination :: "endianness \<Rightarrow> bytes \<Rightarrow> node_id \<Rightarrow> bytes option" where
  "drm_set_destination e b v = put16 e b drm_DEST_POS v"

definition drm_payload_size :: "endianness \<Rightarrow> bytes \<Rightarrow> u8 option" where
  "drm_payload_size e b = read_u8 e b drm_PAYLOAD_POS"

definition drm_payload :: "bytes \<Rightarrow> bytes" where
  "drm_payload b = drop (drm_PAYLOAD_POS + 1) b"

definition drm_set_payload :: "endianness \<Rightarrow> bytes \<Rightarrow> u8 \<Rightarrow> bytes \<Rightarrow> bytes option" where
  "drm_set_payload e b len buf =
     do { b \<leftarrow> put8 e b drm_PAYLOAD_POS len;
          vs \<leftarrow> rd_bytes buf 0 (unat len);
          memcpy b (drm_PAYLOAD_POS + 1) vs }"

definition drm_buffer_size :: "endianness \<Rightarrow> bytes \<Rightarrow> nat option" where
  "drm_buffer_size e b = do { n \<leftarrow> drm_payload_size e b; Some (drm_PAYLOAD_POS + 1 + unat n) }"

definition drm_set_payload_size :: "endianness \<Rightarrow> bytes \<Rightarrow> u8 \<Rightarrow> bytes option" where
  "drm_set_payload_size e b v = put8 e b drm_PAYLOAD_POS v"

definition drm_default :: "os_model \<Rightarrow> bytes \<Rightarrow> bytes option" where
  "drm_default os junk =
     do { b \<leftarrow> drm_set_msg_id (os_endianness os) junk 0;
          b \<leftarrow> drm_set_source (os_endianness os) b (NULL_NODE_ID os);
          b \<leftarrow> drm_set_destination (os_endianness os) b (NULL_NODE_ID os);
          drm_set_payload_size (os_endianness os) b 0 }"

lemmas drm_defs = drm_msg_id_def drm_set_msg_id_def drm_source_def drm_set_source_def
  drm_destination_def drm_set_destination_def drm_payload_size_def drm_payload_def
  drm_buffer_size_def drm_set_payload_size_def

lemmas dbm_defs = dbm_msg_id_def dbm_set_msg_id_def dbm_entry_cnt_def dbm_set_entry_cnt_def
  dbm_buffer_size_def

section \<open>Layout\<close>

definition dsdv_entry_bytes :: "(node_id, dsdv_value) pair \<Rightarrow> bytes" where
  "dsdv_entry_bytes p = [hi8 (pfirst p), lo8 (pfirst p), hi8 (dv_next_hop (psecond p)),
     lo8 (dv_next_hop (psecond p)), dv_hops (psecond p)]"

definition dsdv_packet :: "(node_id, dsdv_value) pair list \<Rightarrow> bytes" where
  "dsdv_packet es = [DsdvBroadcastMsgId, of_nat (length es)] @ concat (map dsdv_entry_bytes es)"

lemma dsdv_entry_bytes_length [simp]: "length (dsdv_entry_bytes p) = 5"
  by (simp add: dsdv_entry_bytes_def)

lemma dsdv_entries_length: "length (concat (map dsdv_entry_bytes es)) = 5 * length es"
  by (induction es) auto

text \<open>Reading and writing behind a prefix.\<close>

lemma rd_append: "rd (xs @ ys) (length xs + i) = rd ys i"
  by (auto simp: rd_def)

lemma read_u16_append: "read_u16 e (xs @ ys) (length xs + i) = read_u16 e ys i"
  by (auto simp: put_simps nth_append)

lemma put16_append:
  "put16 e (xs @ ys) (length xs + i) v = map_option ((@) xs) (put16 e ys i v)"
  by (auto simp: put_simps list_update_append)

lemma wr_append: "wr (xs @ ys) (length xs + i) v = map_option ((@) xs) (wr ys i v)"
  by (auto simp: wr_def list_update_append)

lemma dbm_set_entry_layout:
  assumes "length pre = dbm_DATA_POS + idx * dbm_ENTRY_SIZE" and "idx < dbm_MAX_ENTRIES os"
    and "length old = 5"
  shows "dbm_set_entry os (pre @ old @ rest) idx (pfirst p) (psecond p) =
    Some (pre @ dsdv_entry_bytes p @ rest)"
proof -
  obtain a b c d f where old: "old = [a, b, c, d, f]"
    using assms(3) by (auto simp: numeral_eq_Suc length_Suc_conv)
  show ?thesis
    using assms(2) unfolding dbm_set_entry_def Let_def assms(1) [symmetric] put8_eq
    by (simp add: put16_eq wr_def list_update_append old dsdv_entry_bytes_def)
qed

lemma dbm_entry_packet:
  assumes "i < length es" and "length es \<le> dbm_MAX_ENTRIES os"
  shows "dbm_entry os (dsdv_packet es) i = Some (Some (pfirst (es ! i), psecond (es ! i)))"
proof -
  define pre where "pre = [DsdvBroadcastMsgId, of_nat (length es)] @ concat (map dsdv_entry_bytes (take i es))"
  have "es = take i es @ es ! i # drop (Suc i) es"
    using assms(1) by (rule id_take_nth_drop)
  then have "concat (map dsdv_entry_bytes es) =
      concat (map dsdv_entry_bytes (take i es @ es ! i # drop (Suc i) es))" by simp
  then have packet: "dsdv_packet es = pre @ dsdv_entry_bytes (es ! i) @
      concat (map dsdv_entry_bytes (drop (Suc i) es))"
    by (simp add: dsdv_packet_def pre_def)
  have len: "2 + i * 5 = length pre"
    using assms(1) by (simp add: dsdv_entries_length pre_def)
  show ?thesis
    using assms unfolding dbm_entry_def Let_def packet len read_u8_eq
    by (simp add: read_u16_eq rd_def nth_append dsdv_entry_bytes_def)
qed

lemma dbm_entry_beyond: "dbm_MAX_ENTRIES os \<le> idx \<Longrightarrow> dbm_entry os b idx = Some None"
  by (simp add: dbm_entry_def)

end
