(* ===== verification/Dsdv_Routing.thy ===== *)
theory Dsdv_Routing
  imports Dsdv_Messages Routing_Table
begin

text \<open>
  \<^verbatim>\<open>algorithms/routing/dsdv/dsdv_routing.h\<close>: one node of DSDV, for any routing table
  \<open>T\<close> (the template parameter \<^verbatim>\<open>RoutingTable_P\<close>). A handler returns the new state
  and the calls it made; \<^const>\<open>None\<close> is a memory access outside a packet or a message
  object, and for \<open>dsdv_broadcasts\<close> also a loop that does not end.
\<close>

record 't dsdv_node =
  dsdv_table :: 't
  startup_time :: nat
  dsdv_work_period :: nat

definition dsdv_new :: "'t \<Rightarrow> 't dsdv_node" where
  "dsdv_new empty_table = \<lparr>dsdv_table = empty_table, startup_time = 2000, dsdv_work_period = 5000\<rparr>"

definition dsdv_set_startup_time :: "nat \<Rightarrow> 't dsdv_node \<Rightarrow> 't dsdv_node" where
  "dsdv_set_startup_time t n = n\<lparr>startup_time := t\<rparr>"

definition dsdv_set_work_period :: "nat \<Rightarrow> 't dsdv_node \<Rightarrow> 't dsdv_node" where
  "dsdv_set_work_period t n = n\<lparr>dsdv_work_period := t\<rparr>"

definition dsdv_enable_radio :: "'t dsdv_node \<Rightarrow> 't dsdv_node \<times> os_call list \<times> os_code" where
  "dsdv_enable_radio n = (n, [Enable_radio, Reg_recv_callback, Set_timer (startup_time n)], SUCCESS)"

definition dsdv_init ::
  "('t, dsdv_value) table_ops \<Rightarrow> 't dsdv_node \<Rightarrow> 't dsdv_node \<times> os_call list \<times> os_code" where
  "dsdv_init T n =
     (let n' = n\<lparr>dsdv_table := t_clear T (dsdv_table n)\<rparr>;
          (n'', calls, _) = dsdv_enable_radio n'
      in (n'', calls, SUCCESS))"

definition dsdv_disable_radio :: "'t dsdv_node \<Rightarrow> 't dsdv_node \<times> os_call list \<times> os_code" where
  "dsdv_disable_radio n = (n, [], ERR_NOTIMPL)"

definition dsdv_destruct :: "'t dsdv_node \<Rightarrow> 't dsdv_node \<times> os_call list \<times> os_code" where
  "dsdv_destruct n = dsdv_disable_radio n"

definition dsdv_send ::
  "('t, dsdv_value) table_ops \<Rightarrow> os_model \<Rightarrow> node_id \<Rightarrow> bytes \<Rightarrow> 't dsdv_node \<Rightarrow> node_id \<Rightarrow> u8 \<Rightarrow>
     bytes \<Rightarrow> ('t dsdv_node \<times> os_call list \<times> os_code) option" where
  "dsdv_send T os self junk n destination len data =
     (case t_find T (dsdv_table n) destination of
        Some entry \<Rightarrow>
          if dv_next_hop entry \<noteq> NULL_NODE_ID os
          then do { message \<leftarrow> drm_default os junk;
                    message \<leftarrow> drm_set_msg_id (os_endianness os) message DsdvRoutingMsgId;
                    message \<leftarrow> drm_set_source (os_endianness os) message self;
                    message \<leftarrow> drm_set_destination (os_endianness os) message destination;
                    message \<leftarrow> drm_set_payload (os_endianness os) message len data;
                    sz \<leftarrow> drm_buffer_size (os_endianness os) message;
                    call \<leftarrow> radio_send (dv_next_hop entry) sz message;
                    Some (n, [call], SUCCESS) }
          else Some (n, [], ERR_HOSTUNREACH)
      | None \<Rightarrow> Some (n, [], ERR_HOSTUNREACH))"

text \<open>The inner loop of \<^verbatim>\<open>timer_elapsed\<close>: entries from the iterator on go into one
  message; the result has the message, the index and the entries left.\<close>

fun dsdv_fill :: "os_model \<Rightarrow> bytes \<Rightarrow> nat \<Rightarrow> (node_id, dsdv_value) pair list \<Rightarrow>
    (bytes \<times> nat \<times> (node_id, dsdv_value) pair list) option" where
  "dsdv_fill os message idx [] = Some (message, idx, [])"
| "dsdv_fill os message idx (p # it) =
     (if idx < dbm_MAX_ENTRIES os
      then do { message \<leftarrow> dbm_set_entry os message idx (pfirst p) (psecond p);
                dsdv_fill os message (idx + 1) it }
      else Some (message, idx, p # it))"

text \<open>The outer loop. Every message object is created in the same memory.\<close>

partial_function (option) dsdv_broadcasts ::
  "os_model \<Rightarrow> bytes \<Rightarrow> (node_id, dsdv_value) pair list \<Rightarrow> os_call list option" where
  "dsdv_broadcasts os junk it =
     (if it = [] then Some []
      else do { message \<leftarrow> dbm_default os junk;
                message \<leftarrow> dbm_set_msg_id (os_endianness os) message DsdvBroadcastMsgId;
                (message, idx, it') \<leftarrow> dsdv_fill os message 0 it;
                message \<leftarrow> dbm_set_entry_cnt (os_endianness os) message (of_nat idx);
                sz \<leftarrow> dbm_buffer_size (os_endianness os) message;
                call \<leftarrow> radio_send (BROADCAST_ADDRESS os) sz message;
                calls \<leftarrow> dsdv_broadcasts os junk it';
                Some (call # calls) })"

definition dsdv_timer_elapsed ::
  "('t, dsdv_value) table_ops \<Rightarrow> os_model \<Rightarrow> bytes \<Rightarrow> 't dsdv_node \<Rightarrow>
     ('t dsdv_node \<times> os_call list) option" where
  "dsdv_timer_elapsed T os junk n =
     (let entries = t_entries T (dsdv_table n) in
      do { calls \<leftarrow>
             (if entries = []
              then do { message \<leftarrow> dbm_default os junk;
                        message \<leftarrow> dbm_set_msg_id (os_endianness os) message DsdvBroadcastMsgId;
                        message \<leftarrow> dbm_set_entry_cnt (os_endianness os) message 0;
                        sz \<leftarrow> dbm_buffer_size (os_endianness os) message;
                        call \<leftarrow> radio_send (BROADCAST_ADDRESS os) sz message;
                        Some [call] }
              else dsdv_broadcasts os junk entries);
           Some (n, calls @ [Set_timer (dsdv_work_period n)]) })"

text \<open>The body of the loop of \<^verbatim>\<open>update_routing_table\<close> for an entry that was read; the
  new distance is stored in a \<^verbatim>\<open>uint8_t\<close>.\<close>

definition dsdv_learn ::
  "('t, dsdv_value) table_ops \<Rightarrow> os_model \<Rightarrow> node_id \<Rightarrow> node_id \<Rightarrow> 't \<Rightarrow> node_id \<Rightarrow> dsdv_value \<Rightarrow> 't" where
  "dsdv_learn T os self from t node entry =
     (if node \<noteq> NULL_NODE_ID os \<and> node \<noteq> self
      then (case t_find T t node of
              None \<Rightarrow> t_assign T t node (dsdv_value_new from (dv_hops entry + 1))
            | Some cur \<Rightarrow>
                if unat (dv_hops entry) + 1 < unat (dv_hops cur)
                then t_assign T t node (dsdv_value_new from (dv_hops entry + 1))
                else t)
      else t)"

function dsdv_update_from ::
  "('t, dsdv_value) table_ops \<Rightarrow> os_model \<Rightarrow> node_id \<Rightarrow> node_id \<Rightarrow> bytes \<Rightarrow> nat \<Rightarrow> 't \<Rightarrow> 't option" where
  "dsdv_update_from T os self from message i t =
     (case dbm_entry_cnt (os_endianness os) message of
        None \<Rightarrow> None
      | Some cnt \<Rightarrow>
          if i < unat cnt
          then (case dbm_entry os message i of
                  None \<Rightarrow> None
                | Some None \<Rightarrow> dsdv_update_from T os self from message (Suc i) t
                | Some (Some (node, entry)) \<Rightarrow>
                    dsdv_update_from T os self from message (Suc i) (dsdv_learn T os self from t node entry))
          else Some t)"
  by pat_completeness auto
termination
  by (relation "measure (\<lambda>(T, os, self, from, message, i, t).
      (case dbm_entry_cnt (os_endianness os) message of None \<Rightarrow> 0 | Some cnt \<Rightarrow> unat cnt) - i)") auto

declare dsdv_update_from.simps [simp del]

definition dsdv_update_routing_table ::
  "('t, dsdv_value) table_ops \<Rightarrow> os_model \<Rightarrow> node_id \<Rightarrow> node_id \<Rightarrow> bytes \<Rightarrow> 't \<Rightarrow> 't option" where
  "dsdv_update_routing_table T os self from message t = dsdv_update_from T os self from message 0 t"

definition dsdv_receive ::
  "('t, dsdv_value) table_ops \<Rightarrow> os_model \<Rightarrow> node_id \<Rightarrow> 't dsdv_node \<Rightarrow> node_id \<Rightarrow> nat \<Rightarrow> bytes \<Rightarrow>
     ('t dsdv_node \<times> os_call list) option" where
  "dsdv_receive T os self n from len data =
     (if from = self then Some (n, [])
      else do { msg_id \<leftarrow> read_u8 (os_endianness os) data 0;
        if msg_id = DsdvBroadcastMsgId
        then do { t \<leftarrow> dsdv_update_routing_table T os self from data
                         (t_assign T (dsdv_table n) from (dsdv_value_new from 1));
                  Some (n\<lparr>dsdv_table := t\<rparr>, []) }
        else if msg_id = DsdvRoutingMsgId
        then do { dest \<leftarrow> drm_destination (os_endianness os) data;
                  if dest = self
                  then do { src \<leftarrow> drm_source (os_endianness os) data;
                            sz \<leftarrow> drm_payload_size (os_endianness os) data;
                            Some (n, [Notify_receivers src (unat sz) (drm_payload data)]) }
                  else (case t_find T (dsdv_table n) dest of
                          Some entry \<Rightarrow>
                            if dv_next_hop entry \<noteq> NULL_NODE_ID os
                            then do { call \<leftarrow> radio_send (dv_next_hop entry) len data; Some (n, [call]) }
                            else Some (n, [])
                        | None \<Rightarrow> Some (n, [])) }
        else Some (n, []) })"

section \<open>Sending\<close>

lemma dsdv_fill_layout:
  assumes "length pre = dbm_DATA_POS + idx * dbm_ENTRY_SIZE" and "idx \<le> dbm_MAX_ENTRIES os"
    and "length rest = (dbm_MAX_ENTRIES os - idx) * dbm_ENTRY_SIZE"
  shows "dsdv_fill os (pre @ rest) idx es =
    (let k = min (length es) (dbm_MAX_ENTRIES os - idx) in
     Some (pre @ concat (map dsdv_entry_bytes (take k es)) @ drop (dbm_ENTRY_SIZE * k) rest,
       idx + k, drop k es))"
  using assms
proof (induction es arbitrary: pre idx rest)
  case (Cons p es)
  show ?case
  proof (cases "idx < dbm_MAX_ENTRIES os")
    case True
    then obtain k where k: "dbm_MAX_ENTRIES os - idx = Suc k" by (cases "dbm_MAX_ENTRIES os - idx") auto
    then have "rest = take 5 rest @ drop 5 rest" "length (take 5 rest) = 5"
        "length (drop 5 rest) = k * 5"
      using Cons.prems by auto
    then obtain old rest' where rest: "rest = old @ rest'" "length old = 5" "length rest' = k * 5"
      by metis
    have set: "dbm_set_entry os (pre @ rest) idx (pfirst p) (psecond p) =
        Some ((pre @ dsdv_entry_bytes p) @ rest')"
      using dbm_set_entry_layout [OF Cons.prems(1) True rest(2)] by (simp add: rest(1))
    have k': "dbm_MAX_ENTRIES os - Suc idx = k" using k by simp
    have IH: "dsdv_fill os ((pre @ dsdv_entry_bytes p) @ rest') (idx + 1) es =
        (let k = min (length es) (dbm_MAX_ENTRIES os - (idx + 1)) in
         Some ((pre @ dsdv_entry_bytes p) @ concat (map dsdv_entry_bytes (take k es)) @ drop (5 * k) rest',
           (idx + 1) + k, drop k es))"
      by (rule Cons.IH) (use Cons.prems True rest(3) k' in auto)
    have d: "drop (5 * Suc n) rest = drop (5 * n) rest'" for n
      by (simp add: rest(1,2))
    show ?thesis
      using True set IH d by (simp add: Let_def k k' del: mult_Suc_right append_assoc)
  next
    case False
    then show ?thesis using Cons.prems by simp
  qed
qed simp

text \<open>One message: the entries that fit.\<close>

lemma dsdv_one_broadcast:
  assumes "length junk = dbm_size os" and "dbm_MAX_ENTRIES os < 51"
  shows "do { message \<leftarrow> dbm_default os junk;
      message \<leftarrow> dbm_set_msg_id (os_endianness os) message DsdvBroadcastMsgId;
      (message, idx, it') \<leftarrow> dsdv_fill os message 0 es;
      message \<leftarrow> dbm_set_entry_cnt (os_endianness os) message (of_nat idx);
      sz \<leftarrow> dbm_buffer_size (os_endianness os) message;
      call \<leftarrow> radio_send (BROADCAST_ADDRESS os) sz message;
      rest \<leftarrow> f it';
      Some (call # rest) } =
    do { rest \<leftarrow> f (drop (dbm_MAX_ENTRIES os) es);
      Some (Radio_send (BROADCAST_ADDRESS os) (dsdv_packet (take (dbm_MAX_ENTRIES os) es)) # rest) }"
proof -
  let ?k = "min (length es) (dbm_MAX_ENTRIES os)"
  obtain a b js where junk: "junk = a # b # js" and js: "length js = dbm_MAX_ENTRIES os * 5"
    using assms(1) by (cases junk; cases "tl junk") (auto simp: dbm_size_def)
  have fill: "dsdv_fill os ([DsdvBroadcastMsgId, 0] @ js) 0 es =
      Some ([DsdvBroadcastMsgId, 0] @ concat (map dsdv_entry_bytes (take ?k es)) @ drop (5 * ?k) js,
        0 + ?k, drop ?k es)"
    using dsdv_fill_layout [of "[DsdvBroadcastMsgId, 0]" 0 os js es] js by (simp add: Let_def)
  have cnt: "unat (of_nat ?k :: u8) = ?k"
    using assms(2) by (simp add: unat_of_nat min_def take_bit_nat_eq_self)
  have len: "length (concat (map dsdv_entry_bytes (take ?k es))) = 5 * ?k"
    by (simp add: dsdv_entries_length)
  have takes: "take ?k es = take (dbm_MAX_ENTRIES os) es" "drop ?k es = drop (dbm_MAX_ENTRIES os) es"
    by (simp_all add: min_def)
  let ?c = "of_nat ?k :: u8"
  let ?m = "DsdvBroadcastMsgId # ?c # concat (map dsdv_entry_bytes (take ?k es)) @ drop (5 * ?k) js"
  have send: "radio_send (BROADCAST_ADDRESS os) (2 + ?k * 5) ?m =
      Some (Radio_send (BROADCAST_ADDRESS os) (dsdv_packet (take (dbm_MAX_ENTRIES os) es)))"
    using assms(2) js len by (subst radio_send_eq) (auto simp: dsdv_packet_def takes(1) [symmetric])
  show ?thesis
    using fill send cnt
    by (simp add: dbm_default_def dbm_defs put_simps junk takes)
qed

text \<open>The chunks of a list that the messages carry.\<close>

function chunks :: "nat \<Rightarrow> 'a list \<Rightarrow> 'a list list" where
  "chunks k xs = (if k = 0 \<or> xs = [] then [] else take k xs # chunks k (drop k xs))"
  by pat_completeness auto
termination by (relation "measure (length \<circ> snd)") auto

declare chunks.simps [simp del]

lemma concat_chunks: "0 < k \<Longrightarrow> concat (chunks k xs) = xs"
  by (induction k xs rule: chunks.induct) (subst chunks.simps, auto)

lemma chunks_subset: "0 < k \<Longrightarrow> c \<in> set (chunks k xs) \<Longrightarrow> set c \<subseteq> set xs"
  using arg_cong [OF concat_chunks [of k xs], of set] by auto

lemma chunks_length: "c \<in> set (chunks k xs) \<Longrightarrow> 0 < length c \<and> length c \<le> k"
proof (induction k xs rule: chunks.induct)
  case (1 k xs)
  then show ?case by (subst (asm) chunks.simps) (auto split: if_splits)
qed

lemma dsdv_broadcasts_eq:
  assumes "length junk = dbm_size os" and "0 < dbm_MAX_ENTRIES os" and "dbm_MAX_ENTRIES os < 51"
  shows "dsdv_broadcasts os junk es =
    Some (map (\<lambda>c. Radio_send (BROADCAST_ADDRESS os) (dsdv_packet c)) (chunks (dbm_MAX_ENTRIES os) es))"
  using assms(2)
proof (induction "dbm_MAX_ENTRIES os" es rule: chunks.induct)
  case (1 xs)
  show ?case
  proof (cases "xs = []")
    case True
    then show ?thesis by (simp add: dsdv_broadcasts.simps chunks.simps)
  next
    case False
    then show ?thesis
      using 1 by (subst dsdv_broadcasts.simps, subst chunks.simps, subst dsdv_one_broadcast [OF assms(1,3)]) simp
  qed
qed

lemma dsdv_timer_elapsed_eq:
  assumes "length junk = dbm_size os" and "0 < dbm_MAX_ENTRIES os" and "dbm_MAX_ENTRIES os < 51"
  shows "dsdv_timer_elapsed T os junk n = Some (n,
    (let es = t_entries T (dsdv_table n) in
     map (\<lambda>c. Radio_send (BROADCAST_ADDRESS os) (dsdv_packet c))
       (if es = [] then [[]] else chunks (dbm_MAX_ENTRIES os) es)) @ [Set_timer (dsdv_work_period n)])"
proof -
  obtain a b js where junk: "junk = a # b # js"
    using assms(1) by (cases junk; cases "tl junk") (auto simp: dbm_size_def)
  show ?thesis
    using dsdv_broadcasts_eq [OF assms]
    by (simp add: dsdv_timer_elapsed_def Let_def dbm_default_def dbm_defs put_simps junk radio_send_eq
        dsdv_packet_def)
qed

end
