(* ===== verification/Dsdv_Network.thy ===== *)
theory Dsdv_Network
  imports Dsdv_Routing Tree_Network
begin

text \<open>
  A network of DSDV nodes over a radio that may lose, duplicate, delay and reorder packets, for
  any routing table that meets the \<open>routing_table\<close> contract. The invariant: a distance is at
  least one, is never larger than the number of nodes that know the destination within it (so it
  never wraps round in its \<^verbatim>\<open>uint8_t\<close> with at most 256 nodes), and decreases from a
  node to its next hop; hence the next hops lead to the destination.
\<close>

section \<open>Receiving a broadcast\<close>

lemma dsdv_packet_cnt:
  "length es < 256 \<Longrightarrow> dbm_entry_cnt e (dsdv_packet es) = Some (of_nat (length es))
    \<and> unat (of_nat (length es) :: u8) = length es"
  by (simp add: dbm_entry_cnt_def dsdv_packet_def put_simps unat_of_nat take_bit_nat_eq_self)

lemma dsdv_packet_rd: "rd (dsdv_packet es) 0 = Some DsdvBroadcastMsgId"
  by (simp add: dsdv_packet_def)

definition dsdv_learn_all ::
  "('t, dsdv_value) table_ops \<Rightarrow> os_model \<Rightarrow> node_id \<Rightarrow> node_id \<Rightarrow> (node_id, dsdv_value) pair list \<Rightarrow> 't \<Rightarrow> 't"
  where
  "dsdv_learn_all T os self from es t =
     fold (\<lambda>p t. dsdv_learn T os self from t (pfirst p) (psecond p)) es t"

lemma dsdv_update_packet:
  assumes "length es \<le> dbm_MAX_ENTRIES os" and "length es < 256" and "i \<le> length es"
  shows "dsdv_update_from T os self from (dsdv_packet es) i t =
    Some (dsdv_learn_all T os self from (drop i es) t)"
  using assms(3)
proof (induction "length es - i" arbitrary: i t)
  case 0
  then show ?case
    using dsdv_packet_cnt [OF assms(2), of "os_endianness os"]
    by (subst dsdv_update_from.simps) (simp add: dsdv_learn_all_def)
next
  case (Suc k)
  then have i: "i < length es" by simp
  have k: "k = length es - Suc i" using Suc.hyps(2) by simp
  show ?case
    using dsdv_packet_cnt [OF assms(2), of "os_endianness os"] i
      dbm_entry_packet [OF i assms(1)] Suc.hyps(1) [OF k]
    by (subst dsdv_update_from.simps)
      (simp add: dsdv_learn_all_def Cons_nth_drop_Suc [OF i, symmetric])
qed

lemma dsdv_receive_broadcast:
  assumes "from \<noteq> self" and "length es \<le> dbm_MAX_ENTRIES os" and "length es < 256"
  shows "dsdv_receive T os self n from len (dsdv_packet es) =
    Some (n\<lparr>dsdv_table := dsdv_learn_all T os self from es
      (t_assign T (dsdv_table n) from (dsdv_value_new from 1))\<rparr>, [])"
  using assms(1)
  by (simp add: dsdv_receive_def read_u8_eq dsdv_packet_rd dsdv_update_routing_table_def
      dsdv_update_packet [OF assms(2,3)])

section \<open>The network\<close>

record 't dsdv_net =
  dnodes :: "node_id \<Rightarrow> 't dsdv_node"
  dair :: "(node_id \<times> node_id \<times> bytes) list"

definition dsdv_update :: "'t dsdv_net \<Rightarrow> node_id \<Rightarrow> 't dsdv_node \<Rightarrow> os_call list \<Rightarrow> 't dsdv_net" where
  "dsdv_update w i n calls =
     w\<lparr>dnodes := (dnodes w)(i := n), dair := dair w @ radio_packets i calls\<rparr>"

text \<open>Every node is constructed with some table and started, which clears the table.\<close>

definition dsdv_start :: "('t, dsdv_value) table_ops \<Rightarrow> (node_id \<Rightarrow> 't) \<Rightarrow> 't dsdv_net" where
  "dsdv_start T tab = \<lparr>dnodes = (\<lambda>i. fst (dsdv_init T (dsdv_new (tab i)))), dair = []\<rparr>"

text \<open>\<open>N\<close> is the set of the nodes' ids.\<close>

inductive dsdv_step :: "('t, dsdv_value) table_ops \<Rightarrow> os_model \<Rightarrow> node_id set \<Rightarrow> 't dsdv_net \<Rightarrow> 't dsdv_net \<Rightarrow> bool"
  for T os N where
  Timer: "i \<in> N \<Longrightarrow> length junk = dbm_size os \<Longrightarrow>
    dsdv_timer_elapsed T os junk (dnodes w i) = Some (n, calls) \<Longrightarrow>
    dsdv_step T os N w (dsdv_update w i n calls)"
| Send: "i \<in> N \<Longrightarrow> dsdv_send T os i junk (dnodes w i) dest len data = Some (n, calls, r) \<Longrightarrow>
    dsdv_step T os N w (dsdv_update w i n calls)"
| Deliver: "i \<in> N \<Longrightarrow> (from, d, m) \<in> set (dair w) \<Longrightarrow> d = i \<or> d = BROADCAST_ADDRESS os \<Longrightarrow>
    dsdv_receive T os i (dnodes w i) from (length m) m = Some (n, calls) \<Longrightarrow>
    dsdv_step T os N w (dsdv_update w i n calls)"

inductive dsdv_reachable ::
  "('t, dsdv_value) table_ops \<Rightarrow> os_model \<Rightarrow> node_id set \<Rightarrow> (node_id \<Rightarrow> 't) \<Rightarrow> 't dsdv_net \<Rightarrow> bool"
  for T os N tab where
  Start: "dsdv_reachable T os N tab (dsdv_start T tab)"
| Step: "dsdv_reachable T os N tab w \<Longrightarrow> dsdv_step T os N w w' \<Longrightarrow> dsdv_reachable T os N tab w'"

section \<open>The invariant\<close>

definition dsdv_entry :: "('t, dsdv_value) table_ops \<Rightarrow> 't dsdv_net \<Rightarrow> node_id \<Rightarrow> node_id \<Rightarrow> dsdv_value option" where
  "dsdv_entry T w i d = t_find T (dsdv_table (dnodes w i)) d"

definition knows :: "('t, dsdv_value) table_ops \<Rightarrow> node_id set \<Rightarrow> 't dsdv_net \<Rightarrow> node_id \<Rightarrow> nat \<Rightarrow> node_id set" where
  "knows T N w d k = {m \<in> N. \<exists>v. dsdv_entry T w m d = Some v \<and> unat (dv_hops v) \<le> k}"

text \<open>What a node \<open>i\<close> may store and what a broadcast of \<open>s\<close> may announce.\<close>

definition dsdv_entry_ok ::
  "('t, dsdv_value) table_ops \<Rightarrow> node_id set \<Rightarrow> 't dsdv_net \<Rightarrow> node_id \<Rightarrow> node_id \<Rightarrow> dsdv_value \<Rightarrow> bool" where
  "dsdv_entry_ok T N w i d v \<longleftrightarrow> d \<in> N \<and> d \<noteq> i \<and> 0 < unat (dv_hops v)
     \<and> unat (dv_hops v) \<le> card (knows T N w d (unat (dv_hops v)))
     \<and> (if dv_next_hop v = d then dv_hops v = 1
        else dv_next_hop v \<in> N \<and> (\<exists>v'. dsdv_entry T w (dv_next_hop v) d = Some v' \<and>
          unat (dv_hops v') < unat (dv_hops v)))"

definition dsdv_announced ::
  "('t, dsdv_value) table_ops \<Rightarrow> node_id set \<Rightarrow> 't dsdv_net \<Rightarrow> node_id \<Rightarrow> node_id \<Rightarrow> nat \<Rightarrow> bool" where
  "dsdv_announced T N w s d h \<longleftrightarrow> d \<in> N \<and> d \<noteq> s \<and> 0 < h \<and> h \<le> card (knows T N w d h) \<and>
     (\<exists>v. dsdv_entry T w s d = Some v \<and> unat (dv_hops v) \<le> h)"

definition dsdv_packet_ok ::
  "('t, dsdv_value) table_ops \<Rightarrow> os_model \<Rightarrow> node_id set \<Rightarrow> 't dsdv_net \<Rightarrow> node_id \<times> node_id \<times> bytes \<Rightarrow> bool" where
  "dsdv_packet_ok T os N w = (\<lambda>(s, d, m). s \<in> N \<and> (rd m 0 = Some DsdvBroadcastMsgId \<longrightarrow>
     (\<exists>es. m = dsdv_packet es \<and> length es \<le> dbm_MAX_ENTRIES os \<and> length es < 256 \<and>
       (\<forall>p \<in> set es. dsdv_announced T N w s (pfirst p) (unat (dv_hops (psecond p)))))))"

definition dsdv_net_inv ::
  "('t, dsdv_value) table_ops \<Rightarrow> ('t \<Rightarrow> bool) \<Rightarrow> os_model \<Rightarrow> node_id set \<Rightarrow> 't dsdv_net \<Rightarrow> bool" where
  "dsdv_net_inv T tinv os N w \<longleftrightarrow>
     (\<forall>i \<in> N. tinv (dsdv_table (dnodes w i))) \<and>
     (\<forall>i \<in> N. \<forall>d v. dsdv_entry T w i d = Some v \<longrightarrow> dsdv_entry_ok T N w i d v) \<and>
     (\<forall>p \<in> set (dair w). dsdv_packet_ok T os N w p)"

text \<open>Knowledge only grows.\<close>

definition dsdv_better :: "('t, dsdv_value) table_ops \<Rightarrow> 't dsdv_net \<Rightarrow> 't dsdv_net \<Rightarrow> bool" where
  "dsdv_better T w w' \<longleftrightarrow> (\<forall>i d v. dsdv_entry T w i d = Some v \<longrightarrow>
     (\<exists>v'. dsdv_entry T w' i d = Some v' \<and> unat (dv_hops v') \<le> unat (dv_hops v)))"

lemma dsdv_better_refl: "dsdv_better T w w"
  by (simp add: dsdv_better_def)

lemma dsdv_betterD:
  assumes "dsdv_better T w w'" and "dsdv_entry T w i d = Some v"
  obtains v' where "dsdv_entry T w' i d = Some v'" and "unat (dv_hops v') \<le> unat (dv_hops v)"
  using assms unfolding dsdv_better_def by blast

lemma knows_mono:
  assumes "dsdv_better T w w'" and "k \<le> k'"
  shows "knows T N w d k \<subseteq> knows T N w' d k'"
proof
  fix m
  assume "m \<in> knows T N w d k"
  then obtain v where v: "m \<in> N" "dsdv_entry T w m d = Some v" "unat (dv_hops v) \<le> k"
    by (auto simp: knows_def)
  obtain v' where "dsdv_entry T w' m d = Some v'" "unat (dv_hops v') \<le> unat (dv_hops v)"
    by (rule dsdv_betterD [OF assms(1) v(2)])
  then show "m \<in> knows T N w' d k'"
    using v assms(2) by (simp add: knows_def)
qed

lemma knows_card_mono:
  "dsdv_better T w w' \<Longrightarrow> k \<le> k' \<Longrightarrow> card (knows T N w d k) \<le> card (knows T N w' d k')"
  by (rule card_mono [OF _ knows_mono]) auto

lemma dsdv_announced_mono:
  assumes "dsdv_better T w w'" and "dsdv_announced T N w s d h"
  shows "dsdv_announced T N w' s d h"
proof -
  obtain v where v: "dsdv_entry T w s d = Some v" "unat (dv_hops v) \<le> h"
    using assms(2) by (auto simp: dsdv_announced_def)
  obtain v' where "dsdv_entry T w' s d = Some v'" "unat (dv_hops v') \<le> unat (dv_hops v)"
    by (rule dsdv_betterD [OF assms(1) v(1)])
  then show ?thesis
    using assms(2) v knows_card_mono [OF assms(1) order_refl [of h], of N d]
    by (simp add: dsdv_announced_def)
qed

lemma dsdv_packet_ok_mono:
  assumes "dsdv_better T w w'" and "dsdv_packet_ok T os N w p"
  shows "dsdv_packet_ok T os N w' p"
proof (cases p)
  case (fields s d m)
  then show ?thesis
    using assms(2) dsdv_announced_mono [OF assms(1)]
    by (simp add: dsdv_packet_ok_def) blast
qed

lemma dsdv_entry_ok_mono:
  assumes "dsdv_better T w w'" and "dsdv_entry_ok T N w i d v"
  shows "dsdv_entry_ok T N w' i d v"
proof -
  have closer: "\<exists>x. dsdv_entry T w' j d = Some x \<and> unat (dv_hops x) < unat (dv_hops v)"
    if e: "dsdv_entry T w j d = Some y" "unat (dv_hops y) < unat (dv_hops v)" for j y
  proof -
    obtain x where "dsdv_entry T w' j d = Some x" "unat (dv_hops x) \<le> unat (dv_hops y)"
      by (rule dsdv_betterD [OF assms(1) e(1)])
    then show ?thesis using e(2) by simp
  qed
  have "card (knows T N w d (unat (dv_hops v))) \<le> card (knows T N w' d (unat (dv_hops v)))"
    by (rule knows_card_mono [OF assms(1) order_refl])
  then show ?thesis
    using assms(2) closer by (auto simp: dsdv_entry_ok_def split: if_splits)
qed

section \<open>Every step keeps the invariant\<close>

definition dsdv_set_table :: "'t dsdv_net \<Rightarrow> node_id \<Rightarrow> 't \<Rightarrow> 't dsdv_net" where
  "dsdv_set_table w i t = w\<lparr>dnodes := (dnodes w)(i := (dnodes w i)\<lparr>dsdv_table := t\<rparr>)\<rparr>"

lemma drm_default_min: "drm_default os junk = Some b \<Longrightarrow> 6 \<le> length junk"
  by (auto simp: drm_default_def drm_defs put_simps mem_simps split: if_splits)

lemma length_6_list: "6 \<le> length b \<Longrightarrow> \<exists>b0 b1 b2 b3 b4 b5 bs. b = b0 # b1 # b2 # b3 # b4 # b5 # bs"
  by (auto simp: numeral_eq_Suc Suc_le_length_iff)

lemma drm_set_payload_layout:
  "drm_set_payload e ([a, b, c, d, f, g] @ js) len data =
    (if unat len \<le> length data \<and> unat len \<le> length js
     then Some ([a, b, c, d, f, len] @ take (unat len) data @ drop (unat len) js) else None)"
proof -
  have "drop (6 + n) (a # b # c # d # f # len # js) = drop n js" for n
    by (simp add: numeral_eq_Suc)
  then show ?thesis by (auto simp: drm_set_payload_def put_simps rd_bytes_def memcpy_def bind_eq_None_iff)
qed

lemma dsdv_send_eq:
  assumes "6 \<le> length junk" and "t_find T (dsdv_table n) dest = Some v" and "dv_next_hop v \<noteq> NULL_NODE_ID os"
  shows "dsdv_send T os self junk n dest len data =
    (if unat len \<le> length data \<and> 6 + unat len \<le> length junk
     then do { call \<leftarrow> radio_send (dv_next_hop v) (6 + unat len) ([DsdvRoutingMsgId, hi8 self, lo8 self,
                 hi8 dest, lo8 dest, len] @ take (unat len) data @ drop (6 + unat len) junk);
               Some (n, [call], SUCCESS) }
     else None)"
proof -
  obtain a b c d f g js where junk: "junk = a # b # c # d # f # g # js"
    using length_6_list [OF assms(1)] by blast
  have "drop (6 + unat len) (a # b # c # d # f # g # js) = drop (unat len) js"
    by (simp add: numeral_eq_Suc)
  then show ?thesis
    using assms(2,3) drm_set_payload_layout [of "os_endianness os" DsdvRoutingMsgId "hi8 self" "lo8 self"
        "hi8 dest" "lo8 dest" 0 js len data]
    by (simp add: dsdv_send_def drm_default_def drm_defs put_simps junk)
qed

lemma dsdv_send_packet:
  assumes "dsdv_send T os self junk n dest len data = Some (n', calls, r)"
  shows "n' = n \<and> (\<forall>d m. Radio_send d m \<in> set calls \<longrightarrow> rd m 0 \<noteq> Some DsdvBroadcastMsgId)"
proof (cases "\<exists>v. t_find T (dsdv_table n) dest = Some v \<and> dv_next_hop v \<noteq> NULL_NODE_ID os")
  case True
  then obtain v where v: "t_find T (dsdv_table n) dest = Some v" "dv_next_hop v \<noteq> NULL_NODE_ID os" by blast
  have "6 \<le> length junk"
    using assms v by (auto simp: dsdv_send_def mem_simps dest: drm_default_min)
  then show ?thesis
    using assms dsdv_send_eq [OF _ v]
    by (auto simp: radio_send_def mem_simps rd_def split: if_splits)
next
  case False
  then show ?thesis using assms by (auto simp: dsdv_send_def split: option.splits if_splits)
qed

lemma dsdv_receive_other:
  assumes "dsdv_receive T os self n from len data = Some (n', calls)"
    and "\<not> (from \<noteq> self \<and> rd data 0 = Some DsdvBroadcastMsgId)"
  shows "n' = n \<and> (\<forall>d m. Radio_send d m \<in> set calls \<longrightarrow> rd m 0 \<noteq> Some DsdvBroadcastMsgId)"
  using assms
  by (auto simp: dsdv_receive_def put_simps mem_simps radio_send_def rd_def split: if_splits option.splits)

lemma dsdv_receive_routing:
  assumes "from \<noteq> self" and "m = [DsdvRoutingMsgId, hi8 src, lo8 src, hi8 d, lo8 d, len] @ pl"
    and "length pl = unat len" and "length m < 256"
  shows "dsdv_receive T os self n from (length m) m = Some (n,
    if d = self then [Notify_receivers src (unat len) pl]
    else (case t_find T (dsdv_table n) d of
        Some v \<Rightarrow> if dv_next_hop v \<noteq> NULL_NODE_ID os then [Radio_send (dv_next_hop v) m] else []
      | None \<Rightarrow> []))"
  using assms by (auto simp: dsdv_receive_def drm_defs put_simps radio_send_eq split: option.split)

section \<open>The way to the destination\<close>

text \<open>Following the next hops towards \<open>d\<close> from a node, at most \<open>k\<close> of them.\<close>

fun dsdv_path :: "('t, dsdv_value) table_ops \<Rightarrow> 't dsdv_net \<Rightarrow> nat \<Rightarrow> node_id \<Rightarrow> node_id \<Rightarrow> node_id list option" where
  "dsdv_path T w k i d =
     (if i = d then Some [i]
      else case k of
        0 \<Rightarrow> None
      | Suc k' \<Rightarrow> (case dsdv_entry T w i d of
            None \<Rightarrow> None
          | Some v \<Rightarrow> map_option (Cons i) (dsdv_path T w k' (dv_next_hop v) d)))"

declare dsdv_path.simps [simp del]

lemma dsdv_path_here: "dsdv_path T w k i i = Some [i]"
  by (simp add: dsdv_path.simps)

lemma dsdv_path_step:
  "i \<noteq> d \<Longrightarrow> dsdv_entry T w i d = Some v \<Longrightarrow>
    dsdv_path T w (Suc k) i d = map_option (Cons i) (dsdv_path T w k (dv_next_hop v) d)"
  by (simp add: dsdv_path.simps [of T w "Suc k"])

definition dsdv_rank :: "('t, dsdv_value) table_ops \<Rightarrow> 't dsdv_net \<Rightarrow> node_id \<Rightarrow> node_id \<Rightarrow> nat" where
  "dsdv_rank T w d j =
     (if j = d then 0 else case dsdv_entry T w j d of None \<Rightarrow> 0 | Some v \<Rightarrow> unat (dv_hops v))"

text \<open>One packet carried by the nodes, each handing it on as its handler says, until some node
  gives it to its receivers: the node, and what the receivers get.\<close>

fun dsdv_convey :: "('t, dsdv_value) table_ops \<Rightarrow> os_model \<Rightarrow> 't dsdv_net \<Rightarrow> nat \<Rightarrow> node_id \<Rightarrow> node_id \<Rightarrow> bytes \<Rightarrow>
    (node_id \<times> node_id \<times> nat \<times> bytes) option" where
  "dsdv_convey T os w 0 i from m = None"
| "dsdv_convey T os w (Suc k) i from m =
     (case dsdv_receive T os i (dnodes w i) from (length m) m of
        Some (_, [Notify_receivers src n p]) \<Rightarrow> Some (i, src, n, p)
      | Some (_, [Radio_send d m']) \<Rightarrow> dsdv_convey T os w k d i m'
      | _ \<Rightarrow> None)"

text \<open>The contract of the routing table, at the value type of DSDV.\<close>

locale dsdv_tables = routing_table T inv room
  for T :: "('t, dsdv_value) table_ops" and inv :: "'t \<Rightarrow> bool" and room :: "'t \<Rightarrow> bool"
begin

text \<open>One assignment to the table of node \<open>i\<close>.\<close>

lemma dsdv_entry_assign:
  assumes "inv (dsdv_table (dnodes w i))"
  shows "dsdv_entry T (dsdv_set_table w i (t_assign T (dsdv_table (dnodes w i)) d v)) j =
    (if j = i \<and> \<not> (dsdv_entry T w i d = None \<and> \<not> room (dsdv_table (dnodes w i)))
     then (dsdv_entry T w i)(d \<mapsto> v) else dsdv_entry T w j)"
  using assms by (auto simp: fun_eq_iff dsdv_entry_def dsdv_set_table_def find_assign)

lemma dsdv_better_assign:
  assumes "inv (dsdv_table (dnodes w i))"
    and "\<And>v0. dsdv_entry T w i d = Some v0 \<Longrightarrow> unat (dv_hops v) \<le> unat (dv_hops v0)"
  shows "dsdv_better T w (dsdv_set_table w i (t_assign T (dsdv_table (dnodes w i)) d v))"
  using assms(2) by (auto simp: dsdv_better_def dsdv_entry_assign [OF assms(1)])

lemma dsdv_assign_inv:
  assumes net: "dsdv_net_inv T inv os N w" and i: "i \<in> N" and d: "d \<in> N" "d \<noteq> i"
    and old: "\<And>v0. dsdv_entry T w i d = Some v0 \<Longrightarrow> unat (dv_hops v) \<le> unat (dv_hops v0)"
    and pos: "unat (dv_hops v) = Suc k"
    and fresh: "i \<notin> knows T N w d k" and card: "k \<le> card (knows T N w d k)"
    and why: "dv_next_hop v = d \<and> dv_hops v = 1 \<or> dv_next_hop v \<in> N \<and> dv_next_hop v \<noteq> d \<and>
      dv_next_hop v \<noteq> i \<and> (\<exists>v'. dsdv_entry T w (dv_next_hop v) d = Some v' \<and> unat (dv_hops v') \<le> k)"
  shows "dsdv_net_inv T inv os N (dsdv_set_table w i (t_assign T (dsdv_table (dnodes w i)) d v))"
    (is "dsdv_net_inv T inv os N ?w")
proof -
  have inv: "inv (dsdv_table (dnodes w i))" using net i by (simp add: dsdv_net_inv_def)
  note entry = dsdv_entry_assign [OF inv, of d v]
  have better: "dsdv_better T w ?w" using inv old by (rule dsdv_better_assign)
  have "dsdv_entry_ok T N ?w j d' v'" if j: "j \<in> N" and e: "dsdv_entry T ?w j d' = Some v'" for j d' v'
  proof (cases "dsdv_entry T w j d' = Some v'")
    case True
    then show ?thesis
      using net j dsdv_entry_ok_mono [OF better] by (auto simp: dsdv_net_inv_def)
  next
    case False
    then have new: "j = i" "d' = d" "v' = v" "dsdv_entry T ?w i d = Some v"
      using e by (auto simp: entry split: if_splits)
    have "insert i (knows T N w d k) \<subseteq> knows T N ?w d (Suc k)"
      using i new(4) pos knows_mono [OF better, of k "Suc k"] by (auto simp: knows_def)
    then have "card (insert i (knows T N w d k)) \<le> card (knows T N ?w d (Suc k))"
      by (rule card_mono [rotated]) simp
    then have many: "Suc k \<le> card (knows T N ?w d (Suc k))"
      using fresh card by simp
    have "dsdv_entry T ?w (dv_next_hop v) = dsdv_entry T w (dv_next_hop v)" if "dv_next_hop v \<noteq> i"
      using that by (simp add: entry)
    then show ?thesis
      using many pos d why by (auto simp: new dsdv_entry_ok_def less_Suc_eq_le)
  qed
  moreover have "\<forall>p \<in> set (dair ?w). dsdv_packet_ok T os N ?w p"
    using net dsdv_packet_ok_mono [OF better] by (auto simp: dsdv_net_inv_def dsdv_set_table_def)
  moreover have "\<forall>j \<in> N. inv (dsdv_table (dnodes ?w j))"
    using net i inv_assign [OF inv] by (simp add: dsdv_net_inv_def dsdv_set_table_def)
  ultimately show ?thesis unfolding dsdv_net_inv_def by blast
qed

text \<open>What \<open>receive\<close> stores for the sender itself, and for one announced entry.\<close>

lemma dsdv_neighbour_inv:
  assumes net: "dsdv_net_inv T inv os N w" and i: "i \<in> N" and s: "s \<in> N" "s \<noteq> i"
  shows "dsdv_net_inv T inv os N (dsdv_set_table w i
      (t_assign T (dsdv_table (dnodes w i)) s (dsdv_value_new s 1)))"
    and "dsdv_better T w (dsdv_set_table w i
      (t_assign T (dsdv_table (dnodes w i)) s (dsdv_value_new s 1)))"
proof -
  have pos: "0 < unat (dv_hops v)" if j: "j \<in> N" and e: "dsdv_entry T w j d = Some v" for j d v
  proof -
    have "dsdv_entry_ok T N w j d v" using net j e by (simp add: dsdv_net_inv_def)
    then show ?thesis by (simp add: dsdv_entry_ok_def)
  qed
  have old: "unat (dv_hops (dsdv_value_new s 1)) \<le> unat (dv_hops v0)"
    if "dsdv_entry T w i s = Some v0" for v0
    using pos [OF i that] by (simp add: dsdv_value_new_def)
  have none: "knows T N w s 0 = {}" using pos by (fastforce simp: knows_def simp del: unat_eq_zero)
  show "dsdv_net_inv T inv os N (dsdv_set_table w i
      (t_assign T (dsdv_table (dnodes w i)) s (dsdv_value_new s 1)))"
    by (rule dsdv_assign_inv [OF net i s old, where k = 0])
      (simp_all add: none dsdv_value_new_def)
  show "dsdv_better T w (dsdv_set_table w i
      (t_assign T (dsdv_table (dnodes w i)) s (dsdv_value_new s 1)))"
    by (rule dsdv_better_assign [OF _ old]) (use net i in \<open>simp_all add: dsdv_net_inv_def\<close>)
qed

lemma dsdv_learn_inv:
  assumes net: "dsdv_net_inv T inv os N w" and i: "i \<in> N" and s: "s \<in> N" "s \<noteq> i"
    and said: "dsdv_announced T N w s d (unat (dv_hops v))" and small: "card N \<le> 256"
  shows "dsdv_net_inv T inv os N (dsdv_set_table w i
      (dsdv_learn T os i s (dsdv_table (dnodes w i)) d v))"
    and "dsdv_better T w (dsdv_set_table w i (dsdv_learn T os i s (dsdv_table (dnodes w i)) d v))"
proof -
  let ?k = "unat (dv_hops v)" and ?t = "dsdv_table (dnodes w i)"
  let ?new = "dsdv_value_new s (dv_hops v + 1)"
  have inv: "inv ?t" using net i by (simp add: dsdv_net_inv_def)
  have same: "dsdv_set_table w i ?t = w" by (simp add: dsdv_set_table_def)
  note said' = said [unfolded dsdv_announced_def]
  let ?changes = "d \<noteq> i \<and> (\<forall>v0. dsdv_entry T w i d = Some v0 \<longrightarrow> Suc ?k < unat (dv_hops v0))"
  have change: "dsdv_net_inv T inv os N (dsdv_set_table w i (t_assign T ?t d ?new)) \<and>
      dsdv_better T w (dsdv_set_table w i (t_assign T ?t d ?new))" if c: ?changes
  proof -
    have fresh: "i \<notin> knows T N w d ?k" using c by (auto simp: knows_def)
    have "d \<notin> knows T N w d ?k"
      using net by (auto simp: dsdv_net_inv_def dsdv_entry_ok_def knows_def)
    then have sub: "insert i (knows T N w d ?k) \<subseteq> N - {d}"
      using i c by (auto simp: knows_def)
    have "card (insert i (knows T N w d ?k)) \<le> card (N - {d})"
      by (rule card_mono [OF _ sub]) simp
    moreover have "?k \<le> card (knows T N w d ?k)" and "d \<in> N" using said' by blast+
    moreover have "card (insert i (knows T N w d ?k)) = Suc (card (knows T N w d ?k))"
      using fresh by simp
    moreover have "card (N - {d}) = card N - 1" using \<open>d \<in> N\<close> by simp
    ultimately have "Suc ?k \<le> 255" using small by linarith
    then have hops: "unat (dv_hops ?new) = Suc ?k"
      by (simp add: dsdv_value_new_def unat_Suc_bound)
    have old: "unat (dv_hops ?new) \<le> unat (dv_hops v0)" if "dsdv_entry T w i d = Some v0" for v0
      using c that by (simp add: hops)
    show ?thesis
      using dsdv_assign_inv [OF net i _ _ old hops fresh] dsdv_better_assign [OF inv old] said' c s
      by (auto simp: dsdv_value_new_def)
  qed
  have "dsdv_learn T os i s ?t d v = (if d \<noteq> NULL_NODE_ID os \<and> ?changes then t_assign T ?t d ?new else ?t)"
    by (auto simp: dsdv_learn_def dsdv_entry_def split: option.split)
  then show "dsdv_net_inv T inv os N (dsdv_set_table w i (dsdv_learn T os i s ?t d v))"
    "dsdv_better T w (dsdv_set_table w i (dsdv_learn T os i s ?t d v))"
    using change net same dsdv_better_refl [of T w] by simp_all
qed

lemma dsdv_learn_all_inv:
  assumes "dsdv_net_inv T inv os N w" and i: "i \<in> N" and s: "s \<in> N" "s \<noteq> i" and small: "card N \<le> 256"
    and "\<forall>p \<in> set es. dsdv_announced T N w s (pfirst p) (unat (dv_hops (psecond p)))"
  shows "dsdv_net_inv T inv os N (dsdv_set_table w i
      (dsdv_learn_all T os i s es (dsdv_table (dnodes w i))))"
  using assms(1,6)
proof (induction es arbitrary: w)
  case Nil
  then show ?case by (simp add: dsdv_learn_all_def dsdv_set_table_def)
next
  case (Cons p es)
  let ?w = "dsdv_set_table w i (dsdv_learn T os i s (dsdv_table (dnodes w i)) (pfirst p) (psecond p))"
  have "dsdv_announced T N w s (pfirst p) (unat (dv_hops (psecond p)))" using Cons.prems(2) by simp
  note learn = dsdv_learn_inv [OF Cons.prems(1) i s this small]
  have "dsdv_net_inv T inv os N (dsdv_set_table ?w i (dsdv_learn_all T os i s es (dsdv_table (dnodes ?w i))))"
    using Cons.prems(2) dsdv_announced_mono [OF learn(2)] by (intro Cons.IH [OF learn(1)]) auto
  then show ?case by (simp add: dsdv_set_table_def dsdv_learn_all_def)
qed

lemma dsdv_find_entry:
  assumes "inv t" and "p \<in> set (t_entries T t)"
  shows "t_find T t (pfirst p) = Some (psecond p)"
  using assms(2) entries_find [OF assms(1)]
    assoc_distinct [OF entries_distinct [OF assms(1)], of "pfirst p" "psecond p"] by simp

lemma dsdv_entry_announced:
  assumes "dsdv_net_inv T inv os N w" and "i \<in> N" and "p \<in> set (t_entries T (dsdv_table (dnodes w i)))"
  shows "dsdv_announced T N w i (pfirst p) (unat (dv_hops (psecond p)))"
proof -
  have inv: "inv (dsdv_table (dnodes w i))" using assms(1,2) by (simp add: dsdv_net_inv_def)
  have e: "dsdv_entry T w i (pfirst p) = Some (psecond p)"
    using dsdv_find_entry [OF inv assms(3)] by (simp add: dsdv_entry_def)
  then have "dsdv_entry_ok T N w i (pfirst p) (psecond p)"
    using assms(1,2) by (simp add: dsdv_net_inv_def)
  then show ?thesis using e by (simp add: dsdv_entry_ok_def dsdv_announced_def)
qed

lemma dsdv_packets_inv:
  assumes net: "dsdv_net_inv T inv os N w" and "dnodes w i = n" and "i \<in> N"
    and new: "\<And>d m. Radio_send d m \<in> set calls \<Longrightarrow> dsdv_packet_ok T os N w (i, d, m)"
  shows "dsdv_net_inv T inv os N (dsdv_update w i n calls)"
proof -
  have nodes: "dnodes (dsdv_update w i n calls) = dnodes w"
    using assms(2) by (auto simp: dsdv_update_def)
  then have e: "dsdv_entry T (dsdv_update w i n calls) = dsdv_entry T w"
    by (simp add: dsdv_entry_def fun_eq_iff)
  have k: "knows T N (dsdv_update w i n calls) = knows T N w"
    by (simp add: knows_def e fun_eq_iff)
  have "dsdv_packet_ok T os N (dsdv_update w i n calls) = dsdv_packet_ok T os N w"
    "dsdv_entry_ok T N (dsdv_update w i n calls) = dsdv_entry_ok T N w"
    by (simp_all add: dsdv_packet_ok_def dsdv_announced_def dsdv_entry_ok_def e k fun_eq_iff)
  moreover have "set (dair (dsdv_update w i n calls)) = set (dair w) \<union> set (radio_packets i calls)"
    by (simp add: dsdv_update_def)
  ultimately show ?thesis
    using net new unfolding dsdv_net_inv_def nodes e
    by (auto simp: radio_packets_in)
qed

lemma dsdv_step_inv:
  assumes step: "dsdv_step T os N w w'" and net: "dsdv_net_inv T inv os N w"
    and small: "card N \<le> 256" and entries: "0 < dbm_MAX_ENTRIES os" "dbm_MAX_ENTRIES os < 51"
  shows "dsdv_net_inv T inv os N w'"
  using step
proof (cases rule: dsdv_step.cases)
  case (Timer i junk n calls)
  let ?es = "t_entries T (dsdv_table (dnodes w i))"
  note timer = Timer(4) [unfolded dsdv_timer_elapsed_eq [OF Timer(3) entries]]
  have "dsdv_packet_ok T os N w (i, d, m)" if sent: "Radio_send d m \<in> set calls" for d m
  proof -
    obtain c where c: "m = dsdv_packet c" "c \<in> set (if ?es = [] then [[]] else chunks (dbm_MAX_ENTRIES os) ?es)"
      using timer sent by (auto simp: Let_def)
    have "length c \<le> dbm_MAX_ENTRIES os"
      using c(2) chunks_length [of c] by (cases "?es = []") auto
    moreover have "set c \<subseteq> set ?es"
      using c(2) chunks_subset [OF entries(1), of c ?es] by (cases "?es = []") simp_all
    ultimately have "length c \<le> dbm_MAX_ENTRIES os \<and> length c < 256 \<and>
        (\<forall>p \<in> set c. dsdv_announced T N w i (pfirst p) (unat (dv_hops (psecond p))))"
      using dsdv_entry_announced [OF net Timer(2)] entries(2) by auto
    then show ?thesis
      using Timer(2) c(1) by (auto simp: dsdv_packet_ok_def)
  qed
  moreover have "dnodes w i = n" using timer by simp
  ultimately show ?thesis unfolding Timer(1)
    by (intro dsdv_packets_inv [OF net _ Timer(2)])
next
  case (Send i junk dest len data n calls r)
  have "n = dnodes w i \<and> (\<forall>d m. Radio_send d m \<in> set calls \<longrightarrow> rd m 0 \<noteq> Some DsdvBroadcastMsgId)"
    using dsdv_send_packet [OF Send(3)] .
  then show ?thesis unfolding Send(1)
    by (intro dsdv_packets_inv [OF net _ Send(2)]) (auto simp: dsdv_packet_ok_def Send(2))
next
  case (Deliver i src d m n calls)
  have air: "dsdv_packet_ok T os N w (src, d, m)"
    using Deliver(3) net by (auto simp: dsdv_net_inv_def)
  show ?thesis
  proof (cases "src \<noteq> i \<and> rd m 0 = Some DsdvBroadcastMsgId")
    case True
    then obtain es where es: "m = dsdv_packet es" "length es \<le> dbm_MAX_ENTRIES os" "length es < 256"
        "\<forall>p \<in> set es. dsdv_announced T N w src (pfirst p) (unat (dv_hops (psecond p)))" and src: "src \<in> N" "src \<noteq> i"
      using air by (auto simp: dsdv_packet_ok_def)
    note neighbour = dsdv_neighbour_inv [OF net Deliver(2) src]
    have said: "\<forall>p \<in> set es. dsdv_announced T N (dsdv_set_table w i
        (t_assign T (dsdv_table (dnodes w i)) src (dsdv_value_new src 1))) src (pfirst p) (unat (dv_hops (psecond p)))"
      using es(4) dsdv_announced_mono [OF neighbour(2)] by blast
    have "w' = dsdv_set_table w i (dsdv_learn_all T os i src es
        (t_assign T (dsdv_table (dnodes w i)) src (dsdv_value_new src 1)))"
      using Deliver(1) Deliver(5) [unfolded es(1) dsdv_receive_broadcast [OF src(2) es(2,3)]]
      by (auto simp: dsdv_update_def dsdv_set_table_def radio_packets_def)
    then show ?thesis
      using dsdv_learn_all_inv [OF neighbour(1) Deliver(2) src small said]
      by (simp add: dsdv_set_table_def)
  next
    case False
    then have "n = dnodes w i \<and> (\<forall>d m. Radio_send d m \<in> set calls \<longrightarrow> rd m 0 \<noteq> Some DsdvBroadcastMsgId)"
      using dsdv_receive_other [OF Deliver(5)] by blast
    then show ?thesis unfolding Deliver(1)
      by (intro dsdv_packets_inv [OF net _ Deliver(2)]) (auto simp: dsdv_packet_ok_def Deliver(2))
  qed
qed

lemma dsdv_start_inv:
  assumes "\<And>i. inv (tab i)"
  shows "dsdv_net_inv T inv os N (dsdv_start T tab)"
  using assms
  by (simp add: dsdv_net_inv_def dsdv_start_def dsdv_init_def dsdv_enable_radio_def dsdv_new_def
      dsdv_entry_def inv_clear find_clear)

lemma dsdv_reachable_inv:
  assumes "dsdv_reachable T os N tab w" and "\<And>i. inv (tab i)"
    and "card N \<le> 256" and "0 < dbm_MAX_ENTRIES os" "dbm_MAX_ENTRIES os < 51"
  shows "dsdv_net_inv T inv os N w"
  using assms(1)
  by induction (auto intro: dsdv_start_inv dsdv_step_inv assms(2-5))

lemma dsdv_net_inv_entry:
  assumes "dsdv_net_inv T inv os N w" and "i \<in> N" and "dsdv_entry T w i d = Some v"
  shows "d \<in> N" and "d \<noteq> i" and "dv_next_hop v \<in> N" and "dv_next_hop v \<noteq> i"
    and "0 < unat (dv_hops v)" and "unat (dv_hops v) < card N"
    and "dv_next_hop v \<noteq> d \<Longrightarrow> \<exists>v'. dsdv_entry T w (dv_next_hop v) d = Some v' \<and>
      unat (dv_hops v') < unat (dv_hops v)"
proof -
  have ok: "dsdv_entry_ok T N w i d v"
    using assms by (simp add: dsdv_net_inv_def)
  then show "d \<in> N" "d \<noteq> i" "dv_next_hop v \<in> N" "0 < unat (dv_hops v)"
    and nxt: "dv_next_hop v \<noteq> d \<Longrightarrow> \<exists>v'. dsdv_entry T w (dv_next_hop v) d = Some v' \<and>
      unat (dv_hops v') < unat (dv_hops v)"
    by (auto simp: dsdv_entry_ok_def split: if_splits)
  then show "dv_next_hop v \<noteq> i" using assms(3) by fastforce
  have "knows T N w d (unat (dv_hops v)) \<subseteq> N - {d}"
    using assms(1) by (auto simp: dsdv_net_inv_def dsdv_entry_ok_def knows_def)
  then have "card (knows T N w d (unat (dv_hops v))) \<le> card (N - {d})"
    by (rule card_mono [rotated]) simp
  then have "unat (dv_hops v) \<le> card N - 1"
    using ok by (auto simp: dsdv_entry_ok_def)
  moreover have "0 < card N" using assms(2) by (auto simp: card_gt_0_iff)
  ultimately show "unat (dv_hops v) < card N" by linarith
qed

lemma dsdv_path_descends:
  assumes net: "dsdv_net_inv T inv os N w"
    and "i \<in> N" and "dsdv_entry T w i d = Some v" and "unat (dv_hops v) \<le> k"
  shows "\<exists>p. dsdv_path T w (Suc k) i d = Some p \<and> p \<noteq> [] \<and> hd p = i \<and> last p = d \<and> set p \<subseteq> N \<and>
    length p \<le> Suc (unat (dv_hops v)) \<and> sorted_wrt (>) (map (dsdv_rank T w d) p)"
  using assms(2-4)
proof (induction k arbitrary: i v)
  case 0
  then show ?case using dsdv_net_inv_entry [OF net 0(1,2)] by simp
next
  case (Suc k)
  note entry = dsdv_net_inv_entry [OF net Suc.prems(1,2)]
  have rank: "dsdv_rank T w d i = unat (dv_hops v)"
    using entry(2) Suc.prems(2) by (simp add: dsdv_rank_def)
  show ?case
  proof (cases "dv_next_hop v = d")
    case True
    then show ?thesis
      using Suc.prems entry rank by (intro exI [of _ "[i, d]"]) (simp add: dsdv_rank_def dsdv_path_step dsdv_path_here)
  next
    case False
    then obtain v' where v': "dsdv_entry T w (dv_next_hop v) d = Some v'" "unat (dv_hops v') < unat (dv_hops v)"
      using entry(7) by blast
    have "unat (dv_hops v') \<le> k" using v'(2) Suc.prems(3) by simp
    from Suc.IH [OF entry(3) v'(1) this] obtain p where
      p: "dsdv_path T w (Suc k) (dv_next_hop v) d = Some p" "p \<noteq> []" "hd p = dv_next_hop v" "last p = d"
        "set p \<subseteq> N" "length p \<le> Suc (unat (dv_hops v'))" "sorted_wrt (>) (map (dsdv_rank T w d) p)"
      by blast
    then obtain q where q: "p = dv_next_hop v # q" by (cases p) auto
    have "dsdv_rank T w d (dv_next_hop v) = unat (dv_hops v')"
      using False v'(1) by (simp add: dsdv_rank_def)
    then show ?thesis
      using p entry(2) Suc.prems(1,2) v'(2) rank
      by (intro exI [of _ "i # p"]) (auto simp: q dsdv_path_step)
  qed
qed

lemma dsdv_convey_arrives:
  assumes net: "dsdv_net_inv T inv os N w" and null: "NULL_NODE_ID os \<notin> N"
    and m: "m = [DsdvRoutingMsgId, hi8 src, lo8 src, hi8 d, lo8 d, len] @ pl" "length pl = unat len" "length m < 256"
    and "i \<in> N" and "from \<noteq> i"
    and "i = d \<or> (\<exists>v. dsdv_entry T w i d = Some v \<and> unat (dv_hops v) \<le> k)"
  shows "dsdv_convey T os w (Suc k) i from m = Some (d, src, unat len, pl)"
  using assms(6-8)
proof (induction k arbitrary: i "from")
  case 0
  then have "i = d" using dsdv_net_inv_entry(5) [OF net] by fastforce
  then show ?case using dsdv_receive_routing [OF 0(2) m, of T os] by simp
next
  case (Suc k)
  show ?case
  proof (cases "i = d")
    case True
    then show ?thesis using dsdv_receive_routing [OF Suc.prems(2) m, of T os] by simp
  next
    case False
    then obtain v where v: "dsdv_entry T w i d = Some v" "unat (dv_hops v) \<le> Suc k"
      using Suc.prems(3) by blast
    note entry = dsdv_net_inv_entry [OF net Suc.prems(1) v(1)]
    have "dv_next_hop v = d \<or> (\<exists>v'. dsdv_entry T w (dv_next_hop v) d = Some v' \<and> unat (dv_hops v') \<le> k)"
      using entry(7) v(2) by fastforce
    from Suc.IH [OF entry(3) entry(4) [symmetric] this]
    have "dsdv_convey T os w (Suc k) (dv_next_hop v) i m = Some (d, src, unat len, pl)" .
    moreover have "dv_next_hop v \<noteq> NULL_NODE_ID os" using null entry(3) by metis
    ultimately show ?thesis
      using dsdv_receive_routing [OF Suc.prems(2) m, of T os "dnodes w i"] False v(1)
      by (subst dsdv_convey.simps) (simp add: dsdv_entry_def)
  qed
qed

lemma dsdv_send_arrives_generic:
  assumes net: "dsdv_net_inv T inv os N w" and null: "NULL_NODE_ID os \<notin> N"
    and i: "i \<in> N" and v: "dsdv_entry T w i d = Some v"
    and len: "6 + unat len \<le> length junk" "unat len \<le> length data" "6 + unat len < 256"
  shows "\<exists>m. dsdv_send T os i junk (dnodes w i) d len data =
      Some (dnodes w i, [Radio_send (dv_next_hop v) m], SUCCESS) \<and>
    dsdv_convey T os w (Suc (unat (dv_hops v))) (dv_next_hop v) i m
      = Some (d, i, unat len, take (unat len) data)"
proof -
  note entry = dsdv_net_inv_entry [OF net i v]
  let ?m = "[DsdvRoutingMsgId, hi8 i, lo8 i, hi8 d, lo8 d, len] @ take (unat len) data"
  have nn: "dv_next_hop v \<noteq> NULL_NODE_ID os" using null entry(3) by metis
  have "radio_send (dv_next_hop v) (6 + unat len) (?m @ drop (6 + unat len) junk) =
      Some (Radio_send (dv_next_hop v) ?m)"
    using len by (subst radio_send_eq) (auto simp: numeral_eq_Suc)
  then have send: "dsdv_send T os i junk (dnodes w i) d len data =
      Some (dnodes w i, [Radio_send (dv_next_hop v) ?m], SUCCESS)"
    using dsdv_send_eq [of junk T "dnodes w i" d v os i len data] v nn len by (simp add: dsdv_entry_def)
  have "dv_next_hop v = d \<or> (\<exists>v'. dsdv_entry T w (dv_next_hop v) d = Some v' \<and> unat (dv_hops v') \<le> unat (dv_hops v))"
    using entry(7) by fastforce
  then show ?thesis
    using send len(2,3) by (intro exI [of _ ?m] conjI dsdv_convey_arrives [OF net null refl _ _ entry(3) entry(4) [symmetric]]) auto
qed

end

interpretation dsa: dsdv_tables "array_table_ops dflt" rt_inv rt_room for dflt
  by (rule dsdv_tables.intro) (rule sa.routing_table_axioms)

interpretation dsm: dsdv_tables stl_table_ops stl_inv "\<lambda>_. True"
  by (rule dsdv_tables.intro) (rule sm.routing_table_axioms)

section \<open>Properties\<close>

text \<open>The example: nodes 1, 2 and 3 with tables of four entries; node 2 hears node 1, then node 3
  hears node 2.\<close>

definition demo_table :: "dsdv_value array_table" where
  "demo_table = \<lparr>vec = replicate 4 (Mk_pair 0 (dsdv_value_default demo_os)), finish = 0,
     dummy = dsdv_value_default demo_os\<rparr>"

abbreviation "demo_ops \<equiv> array_table_ops (dsdv_value_default demo_os)"

abbreviation "demo_nodes \<equiv> {1, 2, 3 :: node_id}"

definition demo_table_of :: "(node_id, dsdv_value) pair list \<Rightarrow> dsdv_value array_table" where
  "demo_table_of ps = demo_table\<lparr>vec := ps @ drop (length ps) (vec demo_table), finish := length ps\<rparr>"

definition demo_dsdv :: "dsdv_value array_table dsdv_net" where
  "demo_dsdv =
     \<lparr>dnodes = (\<lambda>i. dsdv_new demo_table)
        (2 := dsdv_new (demo_table_of [Mk_pair 1 (dsdv_value_new 1 1)]),
         3 := dsdv_new (demo_table_of [Mk_pair 2 (dsdv_value_new 2 1), Mk_pair 1 (dsdv_value_new 2 2)])),
      dair = [(1, 0xffff, dsdv_packet []), (2, 0xffff, dsdv_packet [Mk_pair 1 (dsdv_value_new 1 1)])]\<rparr>"

lemma demo_dsdv_timer:
  assumes "i \<in> demo_nodes"
    and "calls = map (\<lambda>c. Radio_send 0xffff (dsdv_packet c))
      (let es = t_entries T (dsdv_table (dnodes w i)) in if es = [] then [[]] else chunks 22 es)"
  shows "dsdv_step T demo_os demo_nodes w (w\<lparr>dair := dair w @ radio_packets i calls\<rparr>)"
proof -
  have "dsdv_step T demo_os demo_nodes w (dsdv_update w i (dnodes w i)
      (calls @ [Set_timer (dsdv_work_period (dnodes w i))]))"
    by (rule dsdv_step.Timer [where junk = "replicate 112 0"])
      (use assms in \<open>simp_all add: dsdv_timer_elapsed_eq dbm_size_def dbm_MAX_ENTRIES_def demo_os_def Let_def\<close>)
  then show ?thesis by (simp add: dsdv_update_def radio_packets_def)
qed

lemma demo_dsdv_deliver:
  assumes "i \<in> demo_nodes" and "s \<noteq> i" and "(s, 0xffff, dsdv_packet es) \<in> set (dair w)" and "length es \<le> 22"
  shows "dsdv_step T demo_os demo_nodes w (dsdv_set_table w i (dsdv_learn_all T demo_os i s es
    (t_assign T (dsdv_table (dnodes w i)) s (dsdv_value_new s 1))))"
proof -
  have "dsdv_step T demo_os demo_nodes w (dsdv_update w i ((dnodes w i)\<lparr>dsdv_table :=
      dsdv_learn_all T demo_os i s es (t_assign T (dsdv_table (dnodes w i)) s (dsdv_value_new s 1))\<rparr>) [])"
    by (rule dsdv_step.Deliver [OF assms(1,3)])
      (use assms in \<open>simp_all add: dsdv_receive_broadcast dbm_MAX_ENTRIES_def demo_os_def\<close>)
  then show ?thesis by (simp add: dsdv_update_def dsdv_set_table_def radio_packets_def)
qed

lemma demo_tables:
  "t_clear demo_ops demo_table = demo_table"
  "t_assign demo_ops demo_table 1 v = demo_table_of [Mk_pair 1 v]"
  "t_assign demo_ops demo_table 2 v = demo_table_of [Mk_pair 2 v]"
  "dsdv_learn demo_ops demo_os 3 s (demo_table_of [Mk_pair 2 v]) 1 e =
     demo_table_of [Mk_pair 2 v, Mk_pair 1 (dsdv_value_new s (dv_hops e + 1))]"
  "t_entries demo_ops demo_table = []"
  "t_entries demo_ops (demo_table_of [Mk_pair 1 v]) = [Mk_pair 1 v]"
  by (simp_all add: array_table_ops_def demo_table_def demo_table_of_def vs_clear_def rt_assign_def
      rt_subscript_def rt_find_def rt_find_from.simps vs_begin_def vs_end_def vs_push_back_def Let_def
      elems_def dsdv_learn_def rt_lookup_def demo_os_def numeral_eq_Suc)

lemma demo_chunks: "chunks 22 [p] = [[p]]"
  by (simp add: chunks.simps [of 22 "[p]"] chunks.simps [of 22 "[]"])

lemma demo_hops: "dv_hops (dsdv_value_new a h) = h"
  by (simp add: dsdv_value_new_def)

lemma demo_dsdv_reachable: "dsdv_reachable demo_ops demo_os demo_nodes (\<lambda>_. demo_table) demo_dsdv"
proof -
  have "dsdv_reachable demo_ops demo_os demo_nodes (\<lambda>_. demo_table) (dsdv_start demo_ops (\<lambda>_. demo_table))"
    by (rule dsdv_reachable.Start)
  note dsdv_reachable.Step [OF this demo_dsdv_timer [of 1, OF _ refl]]
  note dsdv_reachable.Step [OF this demo_dsdv_deliver [of 2 1 "[]"]]
  note dsdv_reachable.Step [OF this demo_dsdv_timer [of 2, OF _ refl]]
  note dsdv_reachable.Step [OF this demo_dsdv_deliver [of 3 2 "[Mk_pair 1 (dsdv_value_new 1 1)]"]]
  from this show ?thesis
    by (simp add: dsdv_start_def dsdv_init_def dsdv_enable_radio_def dsdv_new_def demo_tables
        dsdv_learn_all_def dsdv_set_table_def demo_chunks radio_packets_def demo_dsdv_def fun_upd_def
        demo_hops)
qed

lemma demo_os_entries: "dbm_MAX_ENTRIES demo_os = 22"
  by (simp add: dbm_MAX_ENTRIES_def demo_os_def)

lemma demo_table_inv: "rt_inv demo_table"
  by (simp add: rt_inv_def vs_inv_def elems_def demo_table_def)

lemma demo_dsdv_entry: "dsdv_entry demo_ops demo_dsdv 3 1 = Some (dsdv_value_new 2 2)"
  by (simp add: dsdv_entry_def demo_dsdv_def dsdv_new_def array_table_ops_def rt_lookup_def rt_find_def
      rt_find_from.simps demo_table_of_def demo_table_def vs_begin_def vs_end_def Let_def numeral_eq_Suc)

text \<open>C5: In every state that a network of at most 256 DSDV nodes with array routing tables can
  reach, whatever packets are lost, duplicated, delayed or reordered and whatever entries the full
  tables drop: from a node with an entry for a destination the next hops lead there, through nodes
  of the network and without a cycle, in at most as many steps as the entry's distance, which is
  smaller than the number of nodes.\<close>

theorem dsdv_loop_free:
  assumes "dsdv_reachable (array_table_ops dflt) os N tab w" and "\<And>i. rt_inv (tab i)"
    and "card N \<le> 256" and "0 < dbm_MAX_ENTRIES os" and "dbm_MAX_ENTRIES os < 51"
    and "i \<in> N" and "dsdv_entry (array_table_ops dflt) w i d = Some v"
  shows "\<exists>p. dsdv_path (array_table_ops dflt) w (Suc (unat (dv_hops v))) i d = Some p \<and> distinct p
    \<and> hd p = i \<and> last p = d \<and> set p \<subseteq> N \<and> length p \<le> Suc (unat (dv_hops v))
    \<and> unat (dv_hops v) < card N"
  using dsa.dsdv_path_descends [OF dsa.dsdv_reachable_inv [OF assms(1-5)] assms(6,7) order_refl]
    dsa.dsdv_net_inv_entry(6) [OF dsa.dsdv_reachable_inv [OF assms(1-5)] assms(6,7)]
  by (blast intro: sorted_wrt_greater_distinct)

theorem dsdv_loop_free_witness:
  "dsdv_entry demo_ops demo_dsdv 3 1 = Some (dsdv_value_new 2 2) \<and>
   (\<exists>p. dsdv_path demo_ops demo_dsdv 3 3 1 = Some p \<and> distinct p \<and> hd p = 3 \<and> last p = 1 \<and> length p \<le> 3)"
  using dsdv_loop_free [OF demo_dsdv_reachable demo_table_inv _ _ _ _ demo_dsdv_entry] demo_dsdv_entry
  by (auto simp: demo_os_entries dsdv_value_new_def)

text \<open>C6: In every reachable state of such a network, the payload that a node sends to a destination
  for which it has an entry is handed on from next hop to next hop and given to the destination's
  receivers, unchanged and with the sender as its source.\<close>

theorem dsdv_send_arrives:
  assumes "dsdv_reachable (array_table_ops dflt) os N tab w" and "\<And>i. rt_inv (tab i)"
    and "card N \<le> 256" and "0 < dbm_MAX_ENTRIES os" and "dbm_MAX_ENTRIES os < 51" and "NULL_NODE_ID os \<notin> N"
    and "i \<in> N" and "dsdv_entry (array_table_ops dflt) w i d = Some v"
    and "6 + unat len \<le> length junk" and "unat len \<le> length data" and "6 + unat len < 256"
  shows "\<exists>m. dsdv_send (array_table_ops dflt) os i junk (dnodes w i) d len data =
      Some (dnodes w i, [Radio_send (dv_next_hop v) m], SUCCESS) \<and>
    dsdv_convey (array_table_ops dflt) os w (Suc (unat (dv_hops v))) (dv_next_hop v) i m
      = Some (d, i, unat len, take (unat len) data)"
  by (rule dsa.dsdv_send_arrives_generic [OF dsa.dsdv_reachable_inv [OF assms(1-5)] assms(6-11)])

theorem dsdv_send_arrives_witness:
  "\<exists>m. dsdv_send demo_ops demo_os 3 (replicate 116 0) (dnodes demo_dsdv 3) 1 2 [42, 43] =
      Some (dnodes demo_dsdv 3, [Radio_send 2 m], SUCCESS) \<and>
    dsdv_convey demo_ops demo_os demo_dsdv 3 2 3 m = Some (1, 3, 2, [42, 43])"
proof -
  have null: "NULL_NODE_ID demo_os \<notin> demo_nodes" by (simp add: demo_os_def)
  show ?thesis
    using dsdv_send_arrives [OF demo_dsdv_reachable demo_table_inv _ _ _ null _ demo_dsdv_entry,
        of 2 "replicate 116 0" "[42, 43]"]
    by (simp add: demo_os_entries dsdv_value_new_def del: dsdv_convey.simps)
qed

text \<open>What a list of calls put on the air, and the entries a receiver reads from a packet.\<close>

definition dsdv_unpack :: "os_model \<Rightarrow> bytes \<Rightarrow> (node_id \<times> dsdv_value) list" where
  "dsdv_unpack os m = concat (map (\<lambda>i. case dbm_entry os m i of Some (Some x) \<Rightarrow> [x] | _ \<Rightarrow> [])
     [0 ..< (case dbm_entry_cnt (os_endianness os) m of None \<Rightarrow> 0 | Some c \<Rightarrow> unat c)])"

definition dsdv_sent :: "os_call list \<Rightarrow> bytes list" where
  "dsdv_sent calls = concat (map (\<lambda>c. case c of Radio_send d m \<Rightarrow> [m] | _ \<Rightarrow> []) calls)"

lemma dsdv_unpack_packet:
  assumes "length es \<le> dbm_MAX_ENTRIES os" and "length es < 256"
  shows "dsdv_unpack os (dsdv_packet es) = map (\<lambda>p. (pfirst p, psecond p)) es"
proof -
  have "concat (map (\<lambda>i. case dbm_entry os (dsdv_packet es) i of Some (Some x) \<Rightarrow> [x] | _ \<Rightarrow> []) [0..<n])
      = map (\<lambda>i. (pfirst (es ! i), psecond (es ! i))) [0..<n]" if "n \<le> length es" for n
    using that by (induction n) (auto simp: dbm_entry_packet [OF _ assms(1)])
  from this [OF order_refl] show ?thesis
    using dsdv_packet_cnt [OF assms(2), of "os_endianness os"]
    by (simp add: dsdv_unpack_def) (rule nth_equalityI, auto)
qed

text \<open>\<open>timer_elapsed\<close> announces the whole routing table: when a message has room for an
  entry, the loops end, every packet has the layout of a broadcast with at most
  \<open>MAX_ENTRIES\<close> entries, and receiving them in order gives back exactly the table's entries.\<close>

theorem dsdv_timer_announces_table:
  assumes "length junk = dbm_size os" and "0 < dbm_MAX_ENTRIES os" and "dbm_MAX_ENTRIES os < 51"
  shows "\<exists>calls. dsdv_timer_elapsed (array_table_ops dflt) os junk n = Some (n, calls) \<and>
    concat (map (dsdv_unpack os) (dsdv_sent calls)) = map (\<lambda>p. (pfirst p, psecond p)) (elems (dsdv_table n)) \<and>
    (\<forall>m \<in> set (dsdv_sent calls). rd m 0 = Some DsdvBroadcastMsgId) \<and> dsdv_sent calls \<noteq> []"
proof -
  let ?es = "elems (dsdv_table n)" and ?k = "dbm_MAX_ENTRIES os"
  let ?cs = "if ?es = [] then [[]] else chunks ?k ?es"
  let ?calls = "map (\<lambda>c. Radio_send (BROADCAST_ADDRESS os) (dsdv_packet c)) ?cs @ [Set_timer (dsdv_work_period n)]"
  have calls: "dsdv_timer_elapsed (array_table_ops dflt) os junk n = Some (n, ?calls)"
    by (simp add: dsdv_timer_elapsed_eq [OF assms] array_table_ops_def)
  have sent: "dsdv_sent (map (\<lambda>c. Radio_send (BROADCAST_ADDRESS os) (dsdv_packet c)) cs @ [Set_timer t])
      = map dsdv_packet cs" for cs t
    by (induction cs) (auto simp: dsdv_sent_def)
  have "\<forall>c \<in> set ?cs. length c \<le> ?k"
    using chunks_length [of _ ?k ?es] by auto
  then have "map (dsdv_unpack os) (map dsdv_packet ?cs) = map (map (\<lambda>p. (pfirst p, psecond p))) ?cs"
    using assms(3) dsdv_unpack_packet [of _ os] by (auto simp del: if_image_distrib)
  then have "concat (map (dsdv_unpack os) (dsdv_sent ?calls)) = map (\<lambda>p. (pfirst p, psecond p)) (concat ?cs)"
    unfolding sent by (simp only: map_concat)
  also have "concat ?cs = ?es"
    using concat_chunks [OF assms(2), of ?es] by simp
  finally show ?thesis
    using calls sent chunks.simps [of ?k ?es] assms(2)
    by (intro exI [of _ ?calls]) (auto simp: dsdv_packet_rd)
qed

theorem dsdv_timer_announces_table_witness:
  "\<exists>calls. dsdv_timer_elapsed demo_ops demo_os (replicate 112 0) (dnodes demo_dsdv 3) = Some (dnodes demo_dsdv 3, calls)
    \<and> concat (map (dsdv_unpack demo_os) (dsdv_sent calls)) = [(2, dsdv_value_new 2 1), (1, dsdv_value_new 2 2)]"
proof -
  have "elems (dsdv_table (dnodes demo_dsdv 3)) = [Mk_pair 2 (dsdv_value_new 2 1), Mk_pair 1 (dsdv_value_new 2 2)]"
    by (simp add: demo_dsdv_def dsdv_new_def demo_table_of_def elems_def)
  moreover have "length (replicate 112 0 :: bytes) = dbm_size demo_os"
    by (simp add: dbm_size_def demo_os_entries)
  ultimately show ?thesis
    using dsdv_timer_announces_table [of "replicate 112 0" demo_os "dsdv_value_default demo_os" "dnodes demo_dsdv 3"]
    by (auto simp: demo_os_entries)
qed

text \<open>Without the bound on the number of nodes the distance wraps round: a table with room that
  does not know a destination stores an announced distance of 255 as 0.\<close>

theorem dsdv_distance_wraps:
  assumes "rt_inv t" and "rt_room t" and "rt_lookup t d = None" and "d \<noteq> self" and "d \<noteq> NULL_NODE_ID os"
    and "dv_hops e = 255"
  shows "rt_lookup (dsdv_learn (array_table_ops dflt) os self from t d e) d = Some (dsdv_value_new from 0)"
proof -
  have "(255 :: u8) + 1 = 0" by simp
  then show ?thesis
    using assms sa.find_assign [of t dflt d "dsdv_value_new from 0"]
    by (simp only: dsdv_learn_def array_table_ops_def table_ops.simps) simp
qed

theorem dsdv_distance_wraps_witness:
  "rt_lookup (dsdv_learn demo_ops demo_os 3 2 demo_table 7 (dsdv_value_new 9 255)) 7 = Some (dsdv_value_new 2 0)"
  by (rule dsdv_distance_wraps [OF demo_table_inv])
    (simp_all add: demo_hops rt_room_def demo_table_def vs_size_def vs_max_size_def rt_lookup_def rt_find_def
      rt_find_from.simps vs_begin_def vs_end_def demo_os_def)

end
