(* ===== verification/Dsr_Messages.thy ===== *)
theory Dsr_Messages
  imports Message_Buffer Vector_Static
begin

text \<open>
  \<^verbatim>\<open>algorithms/routing/dsr/dsr_routing_types.h\<close>,
  \<^verbatim>\<open>dsr_route_discovery_msg.h\<close> and \<^verbatim>\<open>dsr_routing_msg.h\<close>: the routing
  table value, the message of a route request or reply, and the message that carries data along a
  path. The path type is \<open>vector_static\<close> of node ids. The lemmas give the layout on the wire:
  \<open>rdm_packet\<close> and \<open>drt_packet\<close>.
\<close>

abbreviation (input) "DsrRouteRequestMsgId \<equiv> 120 :: u8"
abbreviation (input) "DsrRouteReplyMsgId \<equiv> 121 :: u8"
abbreviation (input) "DsrRoutingMsgId \<equiv> 122 :: u8"

type_synonym dsr_path = "node_id vector_static"

record dsr_value =
  dsr_path :: dsr_path
  dsr_hops :: u8
  dsr_seq_nr :: u16

text \<open>\<open>pj\<close> is the memory of the default constructed path.\<close>

definition dsr_value_default :: "node_id list \<Rightarrow> dsr_value" where
  "dsr_value_default pj = \<lparr>dsr_path = vs_new pj, dsr_hops = 0, dsr_seq_nr = 0\<rparr>"

section \<open>Paths in a message\<close>

text \<open>The loops of \<^verbatim>\<open>set_path\<close> and \<^verbatim>\<open>path\<close>, the same in both classes up to
  \<^verbatim>\<open>PATH_POS\<close>, here \<open>base\<close>. The first returns the buffer and the number of entries.\<close>

fun dsr_write_path :: "endianness \<Rightarrow> nat \<Rightarrow> bytes \<Rightarrow> nat \<Rightarrow> node_id list \<Rightarrow> (bytes \<times> nat) option" where
  "dsr_write_path e base b idx [] = Some (b, idx)"
| "dsr_write_path e base b idx (x # it) =
     do { b \<leftarrow> put16 e b (base + idx * 2) x; dsr_write_path e base b (idx + 1) it }"

fun dsr_read_path :: "endianness \<Rightarrow> nat \<Rightarrow> bytes \<Rightarrow> nat \<Rightarrow> nat \<Rightarrow> dsr_path \<Rightarrow> dsr_path option" where
  "dsr_read_path e base b 0 i p = Some p"
| "dsr_read_path e base b (Suc left) i p =
     do { node \<leftarrow> read_u16 e b (base + i * 2);
          dsr_read_path e base b left (i + 1) (vs_push_back p node) }"

section \<open>DsrRouteDiscoveryMessage\<close>

abbreviation (input) "rdm_MSG_ID_POS \<equiv> 0 :: nat"
abbreviation (input) "rdm_HOPS_POS \<equiv> 1 :: nat"
abbreviation (input) "rdm_SEQ_POS \<equiv> 2 :: nat"
abbreviation (input) "rdm_SOURCE_POS \<equiv> 4 :: nat"
abbreviation (input) "rdm_DEST_POS \<equiv> 6 :: nat"
abbreviation (input) "rdm_IDX_POS \<equiv> 8 :: nat"
abbreviation (input) "rdm_ENTRY_CNT_POS \<equiv> 9 :: nat"
abbreviation (input) "rdm_PATH_POS \<equiv> 10 :: nat"

definition rdm_msg_id :: "endianness \<Rightarrow> bytes \<Rightarrow> u8 option" where
  "rdm_msg_id e b = read_u8 e b rdm_MSG_ID_POS"

definition rdm_set_msg_id :: "endianness \<Rightarrow> bytes \<Rightarrow> u8 \<Rightarrow> bytes option" where
  "rdm_set_msg_id e b v = put8 e b rdm_MSG_ID_POS v"

definition rdm_hops :: "endianness \<Rightarrow> bytes \<Rightarrow> u8 option" where
  "rdm_hops e b = read_u8 e b rdm_HOPS_POS"

definition rdm_set_hops :: "endianness \<Rightarrow> bytes \<Rightarrow> u8 \<Rightarrow> bytes option" where
  "rdm_set_hops e b v = put8 e b rdm_HOPS_POS v"

definition rdm_sequence_nr :: "endianness \<Rightarrow> bytes \<Rightarrow> u16 option" where
  "rdm_sequence_nr e b = read_u16 e b rdm_SEQ_POS"

definition rdm_set_sequence_nr :: "endianness \<Rightarrow> bytes \<Rightarrow> u16 \<Rightarrow> bytes option" where
  "rdm_set_sequence_nr e b v = put16 e b rdm_SEQ_POS v"

definition rdm_source :: "endianness \<Rightarrow> bytes \<Rightarrow> node_id option" where
  "rdm_source e b = read_u16 e b rdm_SOURCE_POS"

definition rdm_set_source :: "endianness \<Rightarrow> bytes \<Rightarrow> node_id \<Rightarrow> bytes option" where
  "rdm_set_source e b v = put16 e b rdm_SOURCE_POS v"

definition rdm_destination :: "endianness \<Rightarrow> bytes \<Rightarrow> node_id option" where
  "rdm_destination e b = read_u16 e b rdm_DEST_POS"

definition rdm_set_destination :: "endianness \<Rightarrow> bytes \<Rightarrow> node_id \<Rightarrow> bytes option" where
  "rdm_set_destination e b v = put16 e b rdm_DEST_POS v"

definition rdm_path_idx :: "endianness \<Rightarrow> bytes \<Rightarrow> u8 option" where
  "rdm_path_idx e b = read_u8 e b rdm_IDX_POS"

definition rdm_set_path_idx :: "endianness \<Rightarrow> bytes \<Rightarrow> u8 \<Rightarrow> bytes option" where
  "rdm_set_path_idx e b v = put8 e b rdm_IDX_POS v"

definition rdm_dec_path_idx :: "endianness \<Rightarrow> bytes \<Rightarrow> bytes option" where
  "rdm_dec_path_idx e b = do { i \<leftarrow> rdm_path_idx e b; rdm_set_path_idx e b (i - 1) }"

definition rdm_inc_path_idx :: "endianness \<Rightarrow> bytes \<Rightarrow> bytes option" where
  "rdm_inc_path_idx e b = do { i \<leftarrow> rdm_path_idx e b; rdm_set_path_idx e b (i + 1) }"

definition rdm_entry_cnt :: "endianness \<Rightarrow> bytes \<Rightarrow> u8 option" where
  "rdm_entry_cnt e b = read_u8 e b rdm_ENTRY_CNT_POS"

definition rdm_set_entry_cnt :: "endianness \<Rightarrow> bytes \<Rightarrow> u8 \<Rightarrow> bytes option" where
  "rdm_set_entry_cnt e b v = put8 e b rdm_ENTRY_CNT_POS v"

definition rdm_set_path :: "endianness \<Rightarrow> bytes \<Rightarrow> dsr_path \<Rightarrow> bytes option" where
  "rdm_set_path e b p =
     do { (b, idx) \<leftarrow> dsr_write_path e rdm_PATH_POS b 0 (elems p);
          rdm_set_entry_cnt e b (of_nat idx) }"

definition rdm_path :: "endianness \<Rightarrow> bytes \<Rightarrow> dsr_path \<Rightarrow> dsr_path option" where
  "rdm_path e b p =
     do { cnt \<leftarrow> rdm_entry_cnt e b; dsr_read_path e rdm_PATH_POS b (unat cnt) 0 (vs_clear p) }"

text \<open>The result type of \<^verbatim>\<open>buffer_size\<close> is \<^verbatim>\<open>uint8_t\<close>.\<close>

definition rdm_buffer_size :: "endianness \<Rightarrow> bytes \<Rightarrow> nat option" where
  "rdm_buffer_size e b = do { cnt \<leftarrow> rdm_entry_cnt e b; Some ((rdm_PATH_POS + unat cnt * 2) mod 256) }"

definition rdm_new :: "endianness \<Rightarrow> bytes \<Rightarrow> u8 \<Rightarrow> u8 \<Rightarrow> u16 \<Rightarrow> node_id \<Rightarrow> node_id \<Rightarrow> u8 \<Rightarrow> bytes option" where
  "rdm_new e junk mid h seq src dest idx =
     do { b \<leftarrow> rdm_set_msg_id e junk mid;
          b \<leftarrow> rdm_set_hops e b h;
          b \<leftarrow> rdm_set_sequence_nr e b seq;
          b \<leftarrow> rdm_set_source e b src;
          b \<leftarrow> rdm_set_destination e b dest;
          rdm_set_path_idx e b idx }"

section \<open>DsrRoutingMessage\<close>

abbreviation (input) "drt_MSG_ID_POS \<equiv> 0 :: nat"
abbreviation (input) "drt_IDX_POS \<equiv> 1 :: nat"
abbreviation (input) "drt_SOURCE_POS \<equiv> 2 :: nat"
abbreviation (input) "drt_DEST_POS \<equiv> 4 :: nat"
abbreviation (input) "drt_ENTRY_CNT_POS \<equiv> 6 :: nat"
abbreviation (input) "drt_PATH_POS \<equiv> 7 :: nat"

definition drt_msg_id :: "endianness \<Rightarrow> bytes \<Rightarrow> u8 option" where
  "drt_msg_id e b = read_u8 e b drt_MSG_ID_POS"

definition drt_set_msg_id :: "endianness \<Rightarrow> bytes \<Rightarrow> u8 \<Rightarrow> bytes option" where
  "drt_set_msg_id e b v = put8 e b drt_MSG_ID_POS v"

definition drt_path_idx :: "endianness \<Rightarrow> bytes \<Rightarrow> u8 option" where
  "drt_path_idx e b = read_u8 e b drt_IDX_POS"

definition drt_set_path_idx :: "endianness \<Rightarrow> bytes \<Rightarrow> u8 \<Rightarrow> bytes option" where
  "drt_set_path_idx e b v = put8 e b drt_IDX_POS v"

definition drt_dec_path_idx :: "endianness \<Rightarrow> bytes \<Rightarrow> bytes option" where
  "drt_dec_path_idx e b = do { i \<leftarrow> drt_path_idx e b; drt_set_path_idx e b (i - 1) }"

definition drt_inc_path_idx :: "endianness \<Rightarrow> bytes \<Rightarrow> bytes option" where
  "drt_inc_path_idx e b = do { i \<leftarrow> drt_path_idx e b; drt_set_path_idx e b (i + 1) }"

definition drt_source :: "endianness \<Rightarrow> bytes \<Rightarrow> node_id option" where
  "drt_source e b = read_u16 e b drt_SOURCE_POS"

definition drt_set_source :: "endianness \<Rightarrow> bytes \<Rightarrow> node_id \<Rightarrow> bytes option" where
  "drt_set_source e b v = put16 e b drt_SOURCE_POS v"

definition drt_destination :: "endianness \<Rightarrow> bytes \<Rightarrow> node_id option" where
  "drt_destination e b = read_u16 e b drt_DEST_POS"

definition drt_set_destination :: "endianness \<Rightarrow> bytes \<Rightarrow> node_id \<Rightarrow> bytes option" where
  "drt_set_destination e b v = put16 e b drt_DEST_POS v"

definition drt_entry_cnt :: "endianness \<Rightarrow> bytes \<Rightarrow> u8 option" where
  "drt_entry_cnt e b = read_u8 e b drt_ENTRY_CNT_POS"

definition drt_set_entry_cnt :: "endianness \<Rightarrow> bytes \<Rightarrow> u8 \<Rightarrow> bytes option" where
  "drt_set_entry_cnt e b v = put8 e b drt_ENTRY_CNT_POS v"

text \<open>The position of the payload size depends on the number of path entries.\<close>

definition drt_payload_size :: "endianness \<Rightarrow> bytes \<Rightarrow> u8 option" where
  "drt_payload_size e b = do { cnt \<leftarrow> drt_entry_cnt e b; read_u8 e b (drt_PATH_POS + unat cnt * 2) }"

definition drt_set_payload_size :: "endianness \<Rightarrow> bytes \<Rightarrow> u8 \<Rightarrow> bytes option" where
  "drt_set_payload_size e b n = do { cnt \<leftarrow> drt_entry_cnt e b; put8 e b (drt_PATH_POS + unat cnt * 2) n }"

definition drt_set_payload :: "endianness \<Rightarrow> bytes \<Rightarrow> u8 \<Rightarrow> bytes \<Rightarrow> bytes option" where
  "drt_set_payload e b len data =
     do { cnt \<leftarrow> drt_entry_cnt e b;
          vs \<leftarrow> rd_bytes data 0 (unat len);
          memcpy b (drt_PATH_POS + unat cnt * 2 + 1) vs }"

definition drt_payload :: "endianness \<Rightarrow> bytes \<Rightarrow> bytes option" where
  "drt_payload e b = do { cnt \<leftarrow> drt_entry_cnt e b; Some (drop (drt_PATH_POS + unat cnt * 2 + 1) b) }"

definition drt_set_path :: "endianness \<Rightarrow> bytes \<Rightarrow> dsr_path \<Rightarrow> bytes option" where
  "drt_set_path e b p =
     do { psize \<leftarrow> drt_payload_size e b;
          pdata \<leftarrow> (if 0 < psize then do { pl \<leftarrow> drt_payload e b; rd_bytes pl 0 (unat psize) } else Some []);
          (b, idx) \<leftarrow> dsr_write_path e drt_PATH_POS b 0 (elems p);
          b \<leftarrow> drt_set_entry_cnt e b (of_nat idx);
          b \<leftarrow> drt_set_payload_size e b psize;
          if 0 < psize then drt_set_payload e b psize pdata else Some b }"

definition drt_path :: "endianness \<Rightarrow> bytes \<Rightarrow> dsr_path \<Rightarrow> dsr_path option" where
  "drt_path e b p =
     do { cnt \<leftarrow> drt_entry_cnt e b; dsr_read_path e drt_PATH_POS b (unat cnt) 0 (vs_clear p) }"

text \<open>The sum has no byte for the payload size.\<close>

definition drt_buffer_size :: "endianness \<Rightarrow> bytes \<Rightarrow> nat option" where
  "drt_buffer_size e b =
     do { cnt \<leftarrow> drt_entry_cnt e b; n \<leftarrow> drt_payload_size e b;
          Some (drt_PATH_POS + unat cnt * 2 + unat n) }"

definition drt_new :: "endianness \<Rightarrow> bytes \<Rightarrow> u8 \<Rightarrow> node_id \<Rightarrow> node_id \<Rightarrow> u8 \<Rightarrow> u8 \<Rightarrow> bytes \<Rightarrow> bytes option" where
  "drt_new e junk mid src dest idx len data =
     do { b \<leftarrow> drt_set_msg_id e junk mid;
          b \<leftarrow> drt_set_path_idx e b idx;
          b \<leftarrow> drt_set_source e b src;
          b \<leftarrow> drt_set_destination e b dest;
          b \<leftarrow> drt_set_entry_cnt e b 0;
          b \<leftarrow> drt_set_payload_size e b len;
          drt_set_payload e b len data }"

lemmas rdm_defs = rdm_msg_id_def rdm_set_msg_id_def rdm_hops_def rdm_set_hops_def rdm_sequence_nr_def
  rdm_set_sequence_nr_def rdm_source_def rdm_set_source_def rdm_destination_def rdm_set_destination_def
  rdm_path_idx_def rdm_set_path_idx_def rdm_dec_path_idx_def rdm_inc_path_idx_def rdm_entry_cnt_def
  rdm_set_entry_cnt_def rdm_buffer_size_def

lemmas drt_defs = drt_msg_id_def drt_set_msg_id_def drt_path_idx_def drt_set_path_idx_def
  drt_dec_path_idx_def drt_inc_path_idx_def drt_source_def drt_set_source_def drt_destination_def
  drt_set_destination_def drt_entry_cnt_def drt_set_entry_cnt_def drt_payload_size_def
  drt_set_payload_size_def drt_buffer_size_def drt_payload_def

section \<open>Layout\<close>

definition node_bytes :: "node_id list \<Rightarrow> bytes" where
  "node_bytes ps = concat (map (\<lambda>i. [hi8 i, lo8 i]) ps)"

lemma node_bytes_simps [simp]:
  "node_bytes [] = []" "node_bytes (x # xs) = hi8 x # lo8 x # node_bytes xs"
  "node_bytes (xs @ ys) = node_bytes xs @ node_bytes ys"
  by (simp_all add: node_bytes_def)

lemma node_bytes_length [simp]: "length (node_bytes ps) = 2 * length ps"
  by (induction ps) auto

definition rdm_packet :: "u8 \<Rightarrow> u8 \<Rightarrow> u16 \<Rightarrow> node_id \<Rightarrow> node_id \<Rightarrow> u8 \<Rightarrow> node_id list \<Rightarrow> bytes" where
  "rdm_packet mid h seq src dest idx ps = [mid, h, hi8 seq, lo8 seq, hi8 src, lo8 src, hi8 dest, lo8 dest,
     idx, of_nat (length ps)] @ node_bytes ps"

definition drt_packet :: "u8 \<Rightarrow> u8 \<Rightarrow> node_id \<Rightarrow> node_id \<Rightarrow> node_id list \<Rightarrow> u8 \<Rightarrow> bytes \<Rightarrow> bytes" where
  "drt_packet mid idx src dest ps len pl = [mid, idx, hi8 src, lo8 src, hi8 dest, lo8 dest,
     of_nat (length ps)] @ node_bytes ps @ [len] @ pl"

lemma rdm_packet_length [simp]: "length (rdm_packet mid h seq src dest idx ps) = 10 + 2 * length ps"
  by (simp add: rdm_packet_def)

lemma drt_packet_length [simp]: "length (drt_packet mid idx src dest ps len pl) = 8 + 2 * length ps + length pl"
  by (simp add: drt_packet_def)

lemma dsr_write_path_layout:
  assumes "length pre = base + idx * 2" and "2 * length ps \<le> length rest"
  shows "dsr_write_path e base (pre @ rest) idx ps =
    Some (pre @ node_bytes ps @ drop (2 * length ps) rest, idx + length ps)"
  using assms
proof (induction ps arbitrary: pre idx rest)
  case (Cons x ps)
  then obtain r0 r1 rest' where rest: "rest = r0 # r1 # rest'"
    by (cases rest; cases "tl rest") auto
  have put: "put16 e (pre @ rest) (base + idx * 2) x = Some ((pre @ [hi8 x, lo8 x]) @ rest')"
    using Cons.prems(1) by (simp add: rest put16_eq list_update_append)
  have IH: "dsr_write_path e base ((pre @ [hi8 x, lo8 x]) @ rest') (idx + 1) ps =
      Some ((pre @ [hi8 x, lo8 x]) @ node_bytes ps @ drop (2 * length ps) rest', (idx + 1) + length ps)"
    using Cons.prems by (intro Cons.IH) (simp_all add: rest)
  show ?case unfolding dsr_write_path.simps put using IH by (simp add: rest)
qed simp

lemma dsr_read_path_layout:
  assumes "length pre = base + i * 2"
  shows "dsr_read_path e base (pre @ node_bytes ps @ rest) (length ps) i p = Some (vs_push_all p ps)"
  using assms
proof (induction ps arbitrary: pre i p)
  case (Cons x ps)
  have rd: "read_u16 e (pre @ hi8 x # lo8 x # node_bytes ps @ rest) (base + i * 2) = Some x"
    using Cons.prems by (simp add: read_u16_eq nth_append)
  have IH: "dsr_read_path e base ((pre @ [hi8 x, lo8 x]) @ node_bytes ps @ rest) (length ps) (i + 1)
      (vs_push_back p x) = Some (vs_push_all (vs_push_back p x) ps)"
    using Cons.prems by (intro Cons.IH) simp
  show ?case using rd IH by simp
qed simp

named_theorems dsr_simps \<open>accessors of the DSR messages on their layout\<close>

lemma rdm_get [dsr_simps]:
  "rdm_msg_id e (rdm_packet mid h seq src dest idx ps @ rest) = Some mid"
  "rdm_hops e (rdm_packet mid h seq src dest idx ps @ rest) = Some h"
  "rdm_sequence_nr e (rdm_packet mid h seq src dest idx ps @ rest) = Some seq"
  "rdm_source e (rdm_packet mid h seq src dest idx ps @ rest) = Some src"
  "rdm_destination e (rdm_packet mid h seq src dest idx ps @ rest) = Some dest"
  "rdm_path_idx e (rdm_packet mid h seq src dest idx ps @ rest) = Some idx"
  "rdm_entry_cnt e (rdm_packet mid h seq src dest idx ps @ rest) = Some (of_nat (length ps))"
  by (simp_all add: rdm_packet_def rdm_defs put_simps)

lemma rdm_set [dsr_simps]:
  "rdm_set_msg_id e (rdm_packet mid h seq src dest idx ps @ rest) mid' =
     Some (rdm_packet mid' h seq src dest idx ps @ rest)"
  "rdm_set_hops e (rdm_packet mid h seq src dest idx ps @ rest) h' =
     Some (rdm_packet mid h' seq src dest idx ps @ rest)"
  "rdm_set_path_idx e (rdm_packet mid h seq src dest idx ps @ rest) idx' =
     Some (rdm_packet mid h seq src dest idx' ps @ rest)"
  by (simp_all add: rdm_packet_def rdm_defs put_simps)

lemma rdm_inc_dec [dsr_simps]:
  "rdm_inc_path_idx e (rdm_packet mid h seq src dest idx ps @ rest) =
     Some (rdm_packet mid h seq src dest (idx + 1) ps @ rest)"
  "rdm_dec_path_idx e (rdm_packet mid h seq src dest idx ps @ rest) =
     Some (rdm_packet mid h seq src dest (idx - 1) ps @ rest)"
  by (simp_all add: rdm_inc_path_idx_def rdm_dec_path_idx_def dsr_simps)

lemma rdm_path_layout [dsr_simps]:
  "length ps < 256 \<Longrightarrow>
    rdm_path e (rdm_packet mid h seq src dest idx ps @ rest) p = Some (vs_push_all (vs_clear p) ps)"
  using dsr_read_path_layout [of "take 10 (rdm_packet mid h seq src dest idx ps)" 10 0 e ps rest "vs_clear p"]
  by (simp add: rdm_path_def dsr_simps unat_of_nat take_bit_nat_eq_self) (simp add: rdm_packet_def)

lemma drop_10_Cons:
  "drop (10 + n) (a0 # a1 # a2 # a3 # a4 # a5 # a6 # a7 # a8 # a9 # xs) = drop n xs"
  by (simp add: numeral_eq_Suc)

lemma drop_8_Cons: "drop (8 + n) (a0 # a1 # a2 # a3 # a4 # a5 # a6 # xs) = drop (Suc n) xs"
  by (simp add: numeral_eq_Suc)

lemma rdm_set_path_layout [dsr_simps]:
  assumes "10 + 2 * length (elems p) \<le> length (rdm_packet mid h seq src dest idx ps @ rest)"
  shows "rdm_set_path e (rdm_packet mid h seq src dest idx ps @ rest) p =
    Some (rdm_packet mid h seq src dest idx (elems p) @
      drop (10 + 2 * length (elems p)) (rdm_packet mid h seq src dest idx ps @ rest))"
proof -
  let ?pre = "[mid, h, hi8 seq, lo8 seq, hi8 src, lo8 src, hi8 dest, lo8 dest, idx, of_nat (length ps)]"
  have "dsr_write_path e 10 (?pre @ node_bytes ps @ rest) 0 (elems p) =
      Some (?pre @ node_bytes (elems p) @ drop (2 * length (elems p)) (node_bytes ps @ rest),
        0 + length (elems p))"
    using assms by (intro dsr_write_path_layout) simp_all
  then show ?thesis
    by (simp add: rdm_set_path_def rdm_packet_def rdm_defs put_simps drop_10_Cons)
qed

lemma rdm_buffer_size_layout [dsr_simps]:
  "10 + 2 * length ps < 256 \<Longrightarrow>
    rdm_buffer_size e (rdm_packet mid h seq src dest idx ps @ rest) = Some (10 + 2 * length ps)"
  by (simp add: rdm_buffer_size_def dsr_simps unat_of_nat take_bit_nat_eq_self)

lemma rdm_new_layout:
  assumes "10 \<le> length junk"
  shows "\<exists>c js. rdm_new e junk mid h seq src dest idx = Some ([mid, h, hi8 seq, lo8 seq, hi8 src, lo8 src,
    hi8 dest, lo8 dest, idx, c] @ js) \<and> length js + 10 = length junk \<and> js = drop 10 junk"
proof -
  obtain a0 a1 a2 a3 a4 a5 a6 a7 a8 a9 js where
    "junk = a0 # a1 # a2 # a3 # a4 # a5 # a6 # a7 # a8 # a9 # js"
    using assms by (auto simp: numeral_eq_Suc Suc_le_length_iff)
  then show ?thesis by (simp add: rdm_new_def rdm_defs put_simps)
qed

lemma drt_get [dsr_simps]:
  "drt_msg_id e (drt_packet mid idx src dest ps len pl @ rest) = Some mid"
  "drt_path_idx e (drt_packet mid idx src dest ps len pl @ rest) = Some idx"
  "drt_source e (drt_packet mid idx src dest ps len pl @ rest) = Some src"
  "drt_destination e (drt_packet mid idx src dest ps len pl @ rest) = Some dest"
  "drt_entry_cnt e (drt_packet mid idx src dest ps len pl @ rest) = Some (of_nat (length ps))"
  by (simp_all add: drt_packet_def drt_defs put_simps)

lemma drt_set [dsr_simps]:
  "drt_set_path_idx e (drt_packet mid idx src dest ps len pl @ rest) idx' =
     Some (drt_packet mid idx' src dest ps len pl @ rest)"
  by (simp_all add: drt_packet_def drt_defs put_simps)

lemma drt_inc [dsr_simps]:
  "drt_inc_path_idx e (drt_packet mid idx src dest ps len pl @ rest) =
     Some (drt_packet mid (idx + 1) src dest ps len pl @ rest)"
  by (simp add: drt_inc_path_idx_def dsr_simps)

lemma drt_path_layout [dsr_simps]:
  "length ps < 256 \<Longrightarrow>
    drt_path e (drt_packet mid idx src dest ps len pl @ rest) p = Some (vs_push_all (vs_clear p) ps)"
  using dsr_read_path_layout [of "take 7 (drt_packet mid idx src dest ps len pl)" 7 0 e ps "len # pl @ rest" "vs_clear p"]
  by (simp add: drt_path_def dsr_simps unat_of_nat take_bit_nat_eq_self) (simp add: drt_packet_def)

lemma drt_payload_layout [dsr_simps]:
  assumes "length ps < 256"
  shows "drt_payload_size e (drt_packet mid idx src dest ps len pl @ rest) = Some len"
    and "drt_payload e (drt_packet mid idx src dest ps len pl @ rest) = Some (pl @ rest)"
    and "drt_buffer_size e (drt_packet mid idx src dest ps len pl @ rest) = Some (7 + 2 * length ps + unat len)"
proof -
  let ?pre = "[mid, idx, hi8 src, lo8 src, hi8 dest, lo8 dest, of_nat (length ps)] @ node_bytes ps"
  have b: "drt_packet mid idx src dest ps len pl @ rest = ?pre @ len # pl @ rest"
    by (simp add: drt_packet_def)
  have pos: "7 + length ps * 2 = length ?pre" by simp
  have cnt: "unat (of_nat (length ps) :: u8) = length ps"
    using assms by (simp add: unat_of_nat take_bit_nat_eq_self)
  show "drt_payload_size e (drt_packet mid idx src dest ps len pl @ rest) = Some len"
    unfolding drt_payload_size_def drt_get Option.bind.simps cnt pos
    unfolding b read_u8_eq by (simp add: rd_def nth_append)
  then show "drt_buffer_size e (drt_packet mid idx src dest ps len pl @ rest) = Some (7 + 2 * length ps + unat len)"
    by (simp add: drt_buffer_size_def dsr_simps cnt)
  show "drt_payload e (drt_packet mid idx src dest ps len pl @ rest) = Some (pl @ rest)"
    unfolding drt_payload_def drt_get Option.bind.simps cnt pos
    unfolding b by simp
qed

lemma drt_set_path_layout [dsr_simps]:
  assumes "length ps < 256" and "length (elems p) < 256" and "length pl = unat len"
    and fits: "8 + 2 * length (elems p) + length pl \<le> length (drt_packet mid idx src dest ps len pl @ rest)"
  shows "drt_set_path e (drt_packet mid idx src dest ps len pl @ rest) p =
    Some (drt_packet mid idx src dest (elems p) len pl @
      drop (8 + 2 * length (elems p) + length pl) (drt_packet mid idx src dest ps len pl @ rest))"
proof -
  let ?qs = "elems p"
  let ?hdr = "[mid, idx, hi8 src, lo8 src, hi8 dest, lo8 dest]"
  define old where "old = node_bytes ps @ [len] @ pl @ rest"
  have b: "drt_packet mid idx src dest ps len pl @ rest = (?hdr @ [of_nat (length ps)]) @ old"
    by (simp add: drt_packet_def old_def)
  have room: "Suc (2 * length ?qs + length pl) \<le> length old"
    using fits by (simp add: old_def)
  then have "Suc (length pl) \<le> length (drop (2 * length ?qs) old)" by simp
  then obtain x xs where x: "drop (2 * length ?qs) old = x # xs" and xs: "length pl \<le> length xs"
    by (cases "drop (2 * length ?qs) old") auto
  have cnt: "unat (of_nat (length ?qs) :: u8) = length ?qs"
    using assms(2) by (simp add: unat_of_nat take_bit_nat_eq_self)
  have wr: "dsr_write_path e 7 ((?hdr @ [c]) @ old) 0 ?qs = Some ((?hdr @ [c]) @ node_bytes ?qs @ x # xs, length ?qs)" for c
    using dsr_write_path_layout [of "?hdr @ [c]" 7 0 ?qs old e] room x by simp
  let ?b1 = "?hdr @ [of_nat (length ?qs)] @ node_bytes ?qs"
  have set_cnt: "drt_set_entry_cnt e ((?hdr @ [c]) @ node_bytes ?qs @ x # xs) (of_nat (length ?qs)) = Some (?b1 @ x # xs)" for c
    by (simp add: drt_defs put_simps)
  have get_cnt: "drt_entry_cnt e (?b1 @ ys) = Some (of_nat (length ?qs))" for ys
    by (simp add: drt_defs put_simps)
  have pos: "7 + length ?qs * 2 = length ?b1" by simp
  have set_size: "drt_set_payload_size e (?b1 @ x # xs) len = Some (?b1 @ len # xs)"
    by (simp only: drt_set_payload_size_def get_cnt Option.bind.simps cnt pos put8_eq)
      (simp add: wr_def list_update_append)
  have set_pl: "drt_set_payload e (?b1 @ len # xs) len pl = Some (?b1 @ len # pl @ drop (length pl) xs)"
    by (simp only: drt_set_payload_def get_cnt Option.bind.simps cnt pos)
      (use assms(3) xs in \<open>simp add: rd_bytes_def memcpy_def\<close>)
  have pdata: "(if 0 < len then do { pl' \<leftarrow> drt_payload e (drt_packet mid idx src dest ps len pl @ rest);
      rd_bytes pl' 0 (unat len) } else Some []) = Some pl"
    using assms(3) by (auto simp: drt_payload_layout(2) [OF assms(1)] rd_bytes_def word_gt_0)
  have len0: "pl = []" if "len = 0" using that assms(3) by simp
  have rest: "drop (8 + 2 * length ?qs + length pl) ((?hdr @ [of_nat (length ps)]) @ old) = drop (length pl) xs"
  proof -
    have "drop (8 + (2 * length ?qs + length pl)) ((?hdr @ [of_nat (length ps)]) @ old) =
        drop (Suc (length pl)) (drop (2 * length ?qs) old)"
      by (simp add: drop_8_Cons add.commute)
    then show ?thesis by (simp add: x add.assoc)
  qed
  show ?thesis
    unfolding drt_set_path_def drt_payload_layout(1) [OF assms(1)] Option.bind.simps pdata
    unfolding rest b wr Option.bind.simps prod.case set_cnt set_size
    using set_pl len0 by (auto simp: drt_packet_def word_gt_0)
qed

lemma drt_new_layout:
  assumes "8 + unat len \<le> length junk" and "unat len \<le> length data"
  shows "drt_new e junk mid src dest idx len data =
    Some (drt_packet mid idx src dest [] len (take (unat len) data) @ drop (8 + unat len) junk)"
proof -
  obtain a0 a1 a2 a3 a4 a5 a6 a7 js where
    junk: "junk = a0 # a1 # a2 # a3 # a4 # a5 # a6 # a7 # js"
    using assms by (auto simp: numeral_eq_Suc Suc_le_length_iff)
  have "drop (8 + n) (b0 # b1 # b2 # b3 # b4 # b5 # b6 # b7 # xs) = drop n xs"
    for n and b0 b1 b2 b3 b4 b5 b6 b7 :: u8 and xs
    by (simp add: numeral_eq_Suc)
  then show ?thesis
    using assms by (simp add: junk drt_new_def drt_defs drt_set_payload_def put_simps rd_bytes_def memcpy_def
        drt_packet_def)
qed

end
