(* ===== verification/Dsr_Routing.thy ===== *)
theory Dsr_Routing
  imports Dsr_Messages Routing_Table
begin

text \<open>
  \<^verbatim>\<open>algorithms/routing/dsr/dsr_routing.h\<close>: one node of DSR, for any routing table
  \<open>T\<close>. \<open>junk\<close> and \<open>pj\<close> are the memory a message object and a path object are
  created in; \<open>data\<close> is the memory from the received packet on, of which \<open>len\<close> bytes
  are the packet: the handlers copy and change whole message objects of
  \<^verbatim>\<open>MAX_MESSAGE_LENGTH\<close> bytes there.
\<close>

record 't dsr_node =
  dsr_next_seq_nr :: u16
  send_in_progress :: bool
  dsr_table :: 't
  routing_message :: bytes

definition dsr_new :: "'t \<Rightarrow> bytes \<Rightarrow> 't dsr_node" where
  "dsr_new empty_table junk =
     \<lparr>dsr_next_seq_nr = 1, send_in_progress = False, dsr_table = empty_table, routing_message = junk\<rparr>"

definition dsr_enable_radio :: "'t dsr_node \<Rightarrow> 't dsr_node \<times> os_call list \<times> os_code" where
  "dsr_enable_radio n = (n, [Enable_radio, Reg_recv_callback, Set_timer 15000], SUCCESS)"

definition dsr_init ::
  "('t, dsr_value) table_ops \<Rightarrow> bytes \<Rightarrow> 't dsr_node \<Rightarrow> 't dsr_node \<times> os_call list \<times> os_code" where
  "dsr_init T junk n =
     (let n' = \<lparr>dsr_next_seq_nr = 1, send_in_progress = False, dsr_table = t_clear T (dsr_table n),
                routing_message = junk\<rparr>;
          (n'', calls, _) = dsr_enable_radio n'
      in (n'', calls, SUCCESS))"

definition dsr_disable_radio :: "'t dsr_node \<Rightarrow> 't dsr_node \<times> os_call list \<times> os_code" where
  "dsr_disable_radio n = (n, [], ERR_NOTIMPL)"

definition dsr_destruct :: "'t dsr_node \<Rightarrow> 't dsr_node \<times> os_call list \<times> os_code" where
  "dsr_destruct n = dsr_disable_radio n"

definition dsr_timer_elapsed :: "'t dsr_node \<Rightarrow> 't dsr_node \<times> os_call list" where
  "dsr_timer_elapsed n = (n, [Set_timer 15000])"

definition dsr_send ::
  "('t, dsr_value) table_ops \<Rightarrow> os_model \<Rightarrow> node_id \<Rightarrow> bytes \<Rightarrow> node_id list \<Rightarrow> 't dsr_node \<Rightarrow> node_id \<Rightarrow> u8 \<Rightarrow>
     bytes \<Rightarrow> ('t dsr_node \<times> os_call list \<times> os_code) option" where
  "dsr_send T os self junk pj n destination len data =
     (if send_in_progress n then Some (n, [], ERR_BUSY)
      else do { rm \<leftarrow> drt_new (os_endianness os) junk DsrRoutingMsgId self destination 1 len data;
        case t_find T (dsr_table n) destination of
          Some v \<Rightarrow>
            do { rm \<leftarrow> drt_set_path (os_endianness os) rm (dsr_path v);
                 hop \<leftarrow> vs_at (dsr_path v) 1;
                 sz \<leftarrow> drt_buffer_size (os_endianness os) rm;
                 call \<leftarrow> radio_send hop sz rm;
                 Some (n\<lparr>routing_message := rm\<rparr>, [call], SUCCESS) }
        | None \<Rightarrow>
            do { message \<leftarrow> rdm_new (os_endianness os) junk DsrRouteRequestMsgId 0 (dsr_next_seq_nr n) self destination 0;
                 message \<leftarrow> rdm_set_path (os_endianness os) message (vs_push_back (vs_new pj) self);
                 sz \<leftarrow> rdm_buffer_size (os_endianness os) message;
                 call \<leftarrow> radio_send (BROADCAST_ADDRESS os) sz message;
                 Some (n\<lparr>routing_message := rm, send_in_progress := True,
                          dsr_next_seq_nr := dsr_next_seq_nr n + 1\<rparr>, [call], SUCCESS) } })"

definition dsr_get_seq_nr :: "('t, dsr_value) table_ops \<Rightarrow> 't \<Rightarrow> node_id \<Rightarrow> u16" where
  "dsr_get_seq_nr T t node = (case t_find T t node of Some v \<Rightarrow> dsr_seq_nr v | None \<Rightarrow> 0)"

definition dsr_update_seq_nr :: "('t, dsr_value) table_ops \<Rightarrow> node_id list \<Rightarrow> 't \<Rightarrow> node_id \<Rightarrow> u16 \<Rightarrow> 't" where
  "dsr_update_seq_nr T pj t node seq =
     (case t_find T t node of
        Some v \<Rightarrow> t_assign T t node (v\<lparr>dsr_seq_nr := seq\<rparr>)
      | None \<Rightarrow> t_assign T t node ((dsr_value_default pj)\<lparr>dsr_hops := 0, dsr_seq_nr := seq\<rparr>))"

text \<open>Copying a message object.\<close>

definition dsr_copy :: "os_model \<Rightarrow> bytes \<Rightarrow> bytes option" where
  "dsr_copy os message = rd_bytes message 0 (MAX_MESSAGE_LENGTH os)"

definition dsr_handle_route_request ::
  "('t, dsr_value) table_ops \<Rightarrow> os_model \<Rightarrow> node_id \<Rightarrow> node_id list \<Rightarrow> 't dsr_node \<Rightarrow> node_id \<Rightarrow> bytes \<Rightarrow>
     ('t dsr_node \<times> os_call list) option" where
  "dsr_handle_route_request T os self pj n from message =
     (let e = os_endianness os in
      do { src \<leftarrow> rdm_source e message;
           seq \<leftarrow> rdm_sequence_nr e message;
           if seq \<le> dsr_get_seq_nr T (dsr_table n) src then Some (n, [])
           else do {
             n' \<leftarrow> Some (n\<lparr>dsr_table := dsr_update_seq_nr T pj (dsr_table n) src seq\<rparr>);
             dest \<leftarrow> rdm_destination e message;
             if dest = self
             then do { msg \<leftarrow> dsr_copy os message;
                       msg \<leftarrow> rdm_set_msg_id e msg DsrRouteReplyMsgId;
                       h \<leftarrow> rdm_hops e msg;
                       msg \<leftarrow> rdm_set_hops e msg (h + 1);
                       path \<leftarrow> rdm_path e msg (vs_new pj);
                       path \<leftarrow> Some (vs_push_back path self);
                       msg \<leftarrow> rdm_set_path e msg path;
                       idx \<leftarrow> rdm_path_idx e msg;
                       hop \<leftarrow> vs_at path (unat idx);
                       sz \<leftarrow> rdm_buffer_size e msg;
                       call \<leftarrow> radio_send hop sz msg;
                       Some (n', [call]) }
             else do { msg \<leftarrow> dsr_copy os message;
                       path \<leftarrow> rdm_path e msg (vs_new pj);
                       path \<leftarrow> Some (vs_push_back path self);
                       msg \<leftarrow> rdm_inc_path_idx e msg;
                       h \<leftarrow> rdm_hops e msg;
                       msg \<leftarrow> rdm_set_hops e msg (h + 1);
                       msg \<leftarrow> rdm_set_path e msg path;
                       sz \<leftarrow> rdm_buffer_size e msg;
                       call \<leftarrow> radio_send (BROADCAST_ADDRESS os) sz msg;
                       Some (n', [call]) } } })"

definition dsr_handle_route_reply ::
  "('t, dsr_value) table_ops \<Rightarrow> os_model \<Rightarrow> node_id \<Rightarrow> node_id list \<Rightarrow> 't dsr_node \<Rightarrow> node_id \<Rightarrow> bytes \<Rightarrow>
     ('t dsr_node \<times> os_call list) option" where
  "dsr_handle_route_reply T os self pj n from message =
     (let e = os_endianness os in
      do { src \<leftarrow> rdm_source e message;
           if src = self
           then do { rm \<leftarrow> drt_set_path_idx e (routing_message n) 1;
                     path \<leftarrow> rdm_path e message (vs_new pj);
                     rm \<leftarrow> drt_set_path e rm path;
                     h \<leftarrow> rdm_hops e message;
                     seq \<leftarrow> rdm_sequence_nr e message;
                     dest \<leftarrow> rdm_destination e message;
                     t \<leftarrow> Some (t_assign T (dsr_table n) dest \<lparr>dsr_path = path, dsr_hops = h, dsr_seq_nr = seq\<rparr>);
                     idx \<leftarrow> drt_path_idx e rm;
                     hop \<leftarrow> vs_at path (unat idx);
                     sz \<leftarrow> drt_buffer_size e rm;
                     call \<leftarrow> radio_send hop sz rm;
                     Some (n\<lparr>dsr_table := t, routing_message := rm, send_in_progress := False\<rparr>, [call]) }
           else do { message \<leftarrow> rdm_dec_path_idx e message;
                     path \<leftarrow> rdm_path e message (vs_new pj);
                     idx \<leftarrow> rdm_path_idx e message;
                     hop \<leftarrow> vs_at path (unat idx);
                     sz \<leftarrow> rdm_buffer_size e message;
                     call \<leftarrow> radio_send hop sz message;
                     Some (n, [call]) } })"

definition dsr_handle_routing_message ::
  "os_model \<Rightarrow> node_id \<Rightarrow> node_id list \<Rightarrow> 't dsr_node \<Rightarrow> node_id \<Rightarrow> nat \<Rightarrow> bytes \<Rightarrow>
     ('t dsr_node \<times> os_call list) option" where
  "dsr_handle_routing_message os self pj n from len message =
     (let e = os_endianness os in
      do { dest \<leftarrow> drt_destination e message;
           if dest = self
           then do { src \<leftarrow> drt_source e message;
                     sz \<leftarrow> drt_payload_size e message;
                     pl \<leftarrow> drt_payload e message;
                     Some (n, [Notify_receivers src (unat sz) pl]) }
           else do { msg \<leftarrow> dsr_copy os message;
                     path \<leftarrow> drt_path e message (vs_new pj);
                     msg \<leftarrow> drt_inc_path_idx e msg;
                     idx \<leftarrow> drt_path_idx e msg;
                     hop \<leftarrow> vs_at path (unat idx);
                     call \<leftarrow> radio_send hop len msg;
                     Some (n, [call]) } })"

definition dsr_receive ::
  "('t, dsr_value) table_ops \<Rightarrow> os_model \<Rightarrow> node_id \<Rightarrow> node_id list \<Rightarrow> 't dsr_node \<Rightarrow> node_id \<Rightarrow> nat \<Rightarrow> bytes \<Rightarrow>
     ('t dsr_node \<times> os_call list) option" where
  "dsr_receive T os self pj n from len data =
     do { msg_id \<leftarrow> read_u8 (os_endianness os) data 0;
          if msg_id = DsrRouteRequestMsgId then dsr_handle_route_request T os self pj n from data
          else if msg_id = DsrRouteReplyMsgId then dsr_handle_route_reply T os self pj n from data
          else if msg_id = DsrRoutingMsgId then dsr_handle_routing_message os self pj n from len data
          else Some (n, []) }"

end
