(* ===== verification/Dsr_Discovery.thy ===== *)
theory Dsr_Discovery
  imports Dsr_Routing
begin

text \<open>
  What the handlers of DSR do to the packets of one route discovery: a request that is handed on
  from node to node collects their ids, the destination answers along the collected path, and the
  source caches the path and sends its waiting data along it. The lemmas \<open>dsr_receive_*\<close> give
  one handler each; \<open>dsr_relay\<close> composes them along a list of nodes.
\<close>

section \<open>Paths\<close>

definition path_of :: "node_id list \<Rightarrow> node_id list \<Rightarrow> dsr_path" where
  "path_of pj ps = vs_push_all (vs_clear (vs_new pj)) ps"

lemma path_of_elems: "length ps \<le> length pj \<Longrightarrow> elems (path_of pj ps) = ps"
  by (simp add: path_of_def vs_push_all_elems vs_clear_elems)
    (simp add: vs_max_size_def vs_size_def vs_clear_def vs_new_def)

lemma path_of_inv: "vs_inv (path_of pj ps)"
  by (simp add: path_of_def vs_push_all_inv vs_clear_elems)

lemma path_of_max_size: "vs_max_size (path_of pj ps) = length pj"
  by (simp add: path_of_def vs_clear_def vs_new_def) (simp add: vs_max_size_def)

lemma path_of_snoc: "vs_push_back (path_of pj ps) x = path_of pj (ps @ [x])"
proof -
  have "vs_push_all v (ps @ [x]) = vs_push_back (vs_push_all v ps) x" for v :: dsr_path
    by (induction ps arbitrary: v) auto
  then show ?thesis by (simp add: path_of_def)
qed

lemma path_of_at:
  assumes "length ps \<le> length pj" and "i < length ps"
  shows "vs_at (path_of pj ps) i = Some (ps ! i)"
proof -
  have s: "vs_size (path_of pj ps) = length ps"
    using length_elems [OF path_of_inv] path_of_elems [OF assms(1)] by metis
  then have "vec (path_of pj ps) ! i = ps ! i"
    using elems_nth [OF path_of_inv, of i pj ps] path_of_elems [OF assms(1)] assms(2) by simp
  moreover have "i < length (vec (path_of pj ps))"
    using assms path_of_max_size [of pj ps] by (simp add: vs_max_size_def)
  ultimately show ?thesis by (simp add: vs_at_def)
qed

section \<open>One handler\<close>

lemma dsr_copy_layout:
  assumes "length p \<le> MAX_MESSAGE_LENGTH os" and "MAX_MESSAGE_LENGTH os \<le> length (p @ rest)"
  shows "dsr_copy os (p @ rest) = Some (p @ take (MAX_MESSAGE_LENGTH os - length p) rest)"
  using assms by (simp add: dsr_copy_def rd_bytes_def)

text \<open>The bounds under which no message and no path is too long.\<close>

definition dsr_fits :: "os_model \<Rightarrow> node_id list \<Rightarrow> nat \<Rightarrow> bool" where
  "dsr_fits os pj k \<longleftrightarrow> k \<le> length pj \<and> 10 + 2 * k \<le> MAX_MESSAGE_LENGTH os \<and> 10 + 2 * k < 256"

lemma dsr_fits_mono: "dsr_fits os pj k \<Longrightarrow> j \<le> k \<Longrightarrow> dsr_fits os pj j"
  by (simp add: dsr_fits_def)

lemma rdm_msg_type:
  "read_u8 e (rdm_packet mid h seq src dest idx ps @ rest) 0 = Some mid"
  by (simp add: rdm_packet_def read_u8_eq)

lemma rdm_send:
  assumes "10 + 2 * length ps < 256"
  shows "radio_send d (10 + 2 * length ps) (rdm_packet mid h seq src dest idx ps @ rest)
    = Some (Radio_send d (rdm_packet mid h seq src dest idx ps))"
  using assms by (simp add: radio_send_eq)

lemma dsr_receive_request_known:
  assumes "seq \<le> dsr_get_seq_nr T (dsr_table n) src"
  shows "dsr_receive T os self pj n from len (rdm_packet DsrRouteRequestMsgId h seq src dest idx ps @ rest)
    = Some (n, [])"
  using assms by (simp add: dsr_receive_def rdm_msg_type dsr_handle_route_request_def Let_def dsr_simps)

lemma dsr_receive_request_forward:
  assumes "\<not> seq \<le> dsr_get_seq_nr T (dsr_table n) src" and "dest \<noteq> self"
    and fits: "dsr_fits os pj (Suc (length ps))" and mem: "MAX_MESSAGE_LENGTH os \<le> length rest"
  shows "dsr_receive T os self pj n from len (rdm_packet DsrRouteRequestMsgId h seq src dest idx ps @ rest)
    = Some (n\<lparr>dsr_table := dsr_update_seq_nr T pj (dsr_table n) src seq\<rparr>,
        [Radio_send (BROADCAST_ADDRESS os)
          (rdm_packet DsrRouteRequestMsgId (h + 1) seq src dest (idx + 1) (ps @ [self]))])"
proof -
  note copy = dsr_copy_layout [of "rdm_packet DsrRouteRequestMsgId h seq src dest idx ps" os rest]
  have el: "elems (path_of pj (ps @ [self])) = ps @ [self]"
    using fits by (intro path_of_elems) (simp add: dsr_fits_def)
  show ?thesis
    using assms(1,2) fits mem copy el path_of_snoc [of pj ps self, unfolded path_of_def]
    by (simp add: dsr_receive_def rdm_msg_type dsr_handle_route_request_def Let_def dsr_simps dsr_fits_def
        rdm_send [of "ps @ [self]", simplified] path_of_def)
qed

lemma dsr_receive_request_answer:
  assumes "\<not> seq \<le> dsr_get_seq_nr T (dsr_table n) src"
    and fits: "dsr_fits os pj (Suc (length ps))" and mem: "MAX_MESSAGE_LENGTH os \<le> length rest"
    and idx: "unat idx < Suc (length ps)"
  shows "dsr_receive T os self pj n from len (rdm_packet DsrRouteRequestMsgId h seq src self idx ps @ rest)
    = Some (n\<lparr>dsr_table := dsr_update_seq_nr T pj (dsr_table n) src seq\<rparr>,
        [Radio_send ((ps @ [self]) ! unat idx)
          (rdm_packet DsrRouteReplyMsgId (h + 1) seq src self idx (ps @ [self]))])"
proof -
  note copy = dsr_copy_layout [of "rdm_packet DsrRouteRequestMsgId h seq src self idx ps" os rest]
  have el: "elems (path_of pj (ps @ [self])) = ps @ [self]"
    using fits by (intro path_of_elems) (simp add: dsr_fits_def)
  have at: "vs_at (path_of pj (ps @ [self])) (unat idx) = Some ((ps @ [self]) ! unat idx)"
    using fits idx by (intro path_of_at) (simp_all add: dsr_fits_def)
  show ?thesis
    using assms(1,2) fits mem copy el at path_of_snoc [of pj ps self, unfolded path_of_def]
    by (simp add: dsr_receive_def rdm_msg_type dsr_handle_route_request_def Let_def dsr_simps dsr_fits_def
        rdm_send [of "ps @ [self]", simplified] path_of_def)
qed

lemma dsr_receive_reply_forward:
  assumes "src \<noteq> self" and "dsr_fits os pj (length ps)" and "unat (idx - 1) < length ps"
  shows "dsr_receive T os self pj n from len (rdm_packet DsrRouteReplyMsgId h seq src dest idx ps @ rest)
    = Some (n, [Radio_send (ps ! unat (idx - 1)) (rdm_packet DsrRouteReplyMsgId h seq src dest (idx - 1) ps)])"
  using assms path_of_at [of ps pj "unat (idx - 1)", unfolded path_of_def]
  by (simp add: dsr_receive_def rdm_msg_type dsr_handle_route_reply_def Let_def dsr_simps dsr_fits_def
      rdm_send)

text \<open>The packet of a routing message lacks the last byte of the message.\<close>

lemma drt_packet_take:
  assumes "pl \<noteq> []"
  shows "take (7 + 2 * length ps + length pl) (drt_packet mid idx src dest ps len pl @ rest) =
    drt_packet mid idx src dest ps len (butlast pl)"
proof -
  let ?p = "drt_packet mid idx src dest ps len (butlast pl)"
  have "drt_packet mid idx src dest ps len pl @ rest = ?p @ last pl # rest"
    using assms by (simp add: drt_packet_def)
  moreover have "7 + 2 * length ps + length pl = length ?p"
    using assms by (cases pl) auto
  ultimately show ?thesis by (simp only: append_eq_conv_conj [THEN iffD1] take_append) simp
qed

lemma drt_packet_short:
  "drt_packet mid idx src dest ps len pl @ x # rest = drt_packet mid idx src dest ps len (pl @ [x]) @ rest"
  by (simp add: drt_packet_def)

lemma drt_msg_type: "read_u8 e (drt_packet mid idx src dest ps len pl @ rest) 0 = Some mid"
  by (simp add: drt_packet_def read_u8_eq)

text \<open>What fits in a routing message.\<close>

definition drt_fits :: "os_model \<Rightarrow> node_id list \<Rightarrow> nat \<Rightarrow> u8 \<Rightarrow> bool" where
  "drt_fits os pj k len \<longleftrightarrow> k \<le> length pj \<and> 8 + 2 * k + unat len \<le> MAX_MESSAGE_LENGTH os
     \<and> 8 + 2 * k + unat len < 256"

lemma dsr_receive_data_forward:
  assumes "dest \<noteq> self" and fits: "drt_fits os pj (length ps) len" and "Suc (length pl) = unat len"
    and mem: "MAX_MESSAGE_LENGTH os \<le> length rest" and "unat (idx + 1) < length ps"
    and m: "m = drt_packet DsrRoutingMsgId idx src dest ps len pl"
  shows "dsr_receive T os self pj n from (length m) (m @ rest) = Some (n,
    [Radio_send (ps ! unat (idx + 1)) (drt_packet DsrRoutingMsgId (idx + 1) src dest ps len pl)])"
proof -
  have rest: "rest \<noteq> []" using mem fits by (auto simp: drt_fits_def)
  then obtain x xs where x: "rest = x # xs" by (cases rest) auto
  let ?pl = "pl @ [x]"
  have copy: "dsr_copy os (drt_packet DsrRoutingMsgId idx src dest ps len ?pl @ xs) =
      Some (drt_packet DsrRoutingMsgId idx src dest ps len ?pl @
        take (MAX_MESSAGE_LENGTH os - (8 + 2 * length ps + unat len)) xs)"
    using dsr_copy_layout [of "drt_packet DsrRoutingMsgId idx src dest ps len ?pl" os xs] fits mem assms(3)
    by (simp add: x drt_fits_def)
  have small: "8 + 2 * length ps + length pl < 256" "length ps < 256"
    using fits assms(3) by (auto simp: drt_fits_def)
  have send: "radio_send d (8 + 2 * length ps + length pl) (drt_packet DsrRoutingMsgId i src dest ps len ?pl @ ys)
      = Some (Radio_send d (drt_packet DsrRoutingMsgId i src dest ps len pl))" for d i ys
    using drt_packet_take [of ?pl ps DsrRoutingMsgId i src dest len ys] small by (simp add: radio_send_eq add.assoc)
  show ?thesis
    using assms(1,5) fits copy send small path_of_at [of ps pj "unat (idx + 1)", unfolded path_of_def]
    unfolding m x drt_packet_short
    by (simp add: dsr_receive_def drt_msg_type dsr_handle_routing_message_def Let_def dsr_simps drt_fits_def)
qed

lemma dsr_receive_data_deliver:
  assumes "length ps < 256" and "Suc (length pl) = unat len"
  shows "dsr_receive T os self pj n from n' (drt_packet DsrRoutingMsgId idx src self ps len pl @ x # rest)
    = Some (n, [Notify_receivers src (unat len) (pl @ x # rest)])"
  using assms unfolding drt_packet_short
  by (simp add: dsr_receive_def drt_msg_type dsr_handle_routing_message_def Let_def dsr_simps)

lemma dsr_receive_reply_home:
  assumes rm: "routing_message n = drt_packet DsrRoutingMsgId i self dest [] len pl @ rm_rest"
    and rm_len: "length (routing_message n) = MAX_MESSAGE_LENGTH os"
    and pl: "length pl = unat len" "pl \<noteq> []"
    and fits: "drt_fits os pj (length ps) len" "dsr_fits os pj (length ps)" and two: "1 < length ps"
  shows "\<exists>rm'. dsr_receive T os self pj n from n' (rdm_packet DsrRouteReplyMsgId h seq self dest idx ps @ rest) =
    Some (n\<lparr>dsr_table := t_assign T (dsr_table n) dest \<lparr>dsr_path = path_of pj ps, dsr_hops = h, dsr_seq_nr = seq\<rparr>,
        routing_message := rm', send_in_progress := False\<rparr>,
      [Radio_send (ps ! 1) (drt_packet DsrRoutingMsgId 1 self dest ps len (butlast pl))])"
proof -
  let ?old = "drt_packet DsrRoutingMsgId 1 self dest [] len pl @ rm_rest"
  let ?rm = "drt_packet DsrRoutingMsgId 1 self dest ps len pl @ drop (8 + 2 * length ps + length pl) ?old"
  have small: "8 + 2 * length ps + unat len < 256" "length ps < 256" "length ps \<le> length pj"
    using fits by (auto simp: drt_fits_def)
  have el: "elems (path_of pj ps) = ps" using small by (simp add: path_of_elems)
  have set_path: "drt_set_path (os_endianness os) ?old (path_of pj ps) = Some ?rm"
    using drt_set_path_layout [of "[]" "path_of pj ps" pl len DsrRoutingMsgId 1 self dest rm_rest "os_endianness os"]
      rm rm_len pl fits(1) small by (simp add: el drt_fits_def)
  have at: "vs_at (path_of pj ps) 1 = Some (ps ! 1)" using two small by (intro path_of_at)
  have send: "radio_send (ps ! 1) (7 + 2 * length ps + unat len) ?rm =
      Some (Radio_send (ps ! 1) (drt_packet DsrRoutingMsgId 1 self dest ps len (butlast pl)))"
    using drt_packet_take [OF pl(2), of ps DsrRoutingMsgId 1 self dest len "drop (8 + 2 * length ps + length pl) ?old"]
      small pl by (simp add: radio_send_eq)
  have "dsr_receive T os self pj n from n' (rdm_packet DsrRouteReplyMsgId h seq self dest idx ps @ rest) =
    Some (n\<lparr>dsr_table := t_assign T (dsr_table n) dest \<lparr>dsr_path = path_of pj ps, dsr_hops = h, dsr_seq_nr = seq\<rparr>,
        routing_message := ?rm, send_in_progress := False\<rparr>,
      [Radio_send (ps ! 1) (drt_packet DsrRoutingMsgId 1 self dest ps len (butlast pl))])"
    using set_path at send small
    by (simp add: dsr_receive_def rdm_msg_type dsr_handle_route_reply_def Let_def rm dsr_simps
        path_of_def [symmetric])
  then show ?thesis by blast
qed

section \<open>Along a list of nodes\<close>

text \<open>
  The packet \<open>m\<close> in the air, sent by \<open>from\<close> to \<open>dst\<close>, is received by the first node
  of the list, what that node sends by the second, and so on; \<open>buf i\<close> is the memory behind the
  packet in the receive buffer of node \<open>i\<close>. The result is the state of the nodes and the packet
  the last one sent.
\<close>

type_synonym packet = "node_id \<times> node_id \<times> bytes"

fun dsr_relay ::
  "('t, dsr_value) table_ops \<Rightarrow> os_model \<Rightarrow> node_id list \<Rightarrow> (node_id \<Rightarrow> bytes) \<Rightarrow> (node_id \<Rightarrow> 't dsr_node) \<Rightarrow>
     packet \<Rightarrow> node_id list \<Rightarrow> ((node_id \<Rightarrow> 't dsr_node) \<times> packet) option" where
  "dsr_relay T os pj buf nds p [] = Some (nds, p)"
| "dsr_relay T os pj buf nds (from, dst, m) (i # ids) =
     (if dst = i \<or> dst = BROADCAST_ADDRESS os
      then case dsr_receive T os i pj (nds i) from (length m) (m @ buf i) of
             Some (n, [Radio_send d m']) \<Rightarrow> dsr_relay T os pj buf (nds(i := n)) (i, d, m') ids
           | _ \<Rightarrow> None
      else None)"

lemma dsr_relay_append:
  "dsr_relay T os pj buf nds p (ids @ js) =
     Option.bind (dsr_relay T os pj buf nds p ids) (\<lambda>(nds', p'). dsr_relay T os pj buf nds' p' js)"
proof (induction T os pj buf nds p ids rule: dsr_relay.induct)
  case (2 T os pj buf nds src dst m i ids)
  then show ?case
    by (cases "dsr_receive T os i pj (nds i) src (length m) (m @ buf i)")
      (auto split: prod.split list.split os_call.split simp del: fun_upd_apply)
qed simp

definition dsr_seen ::
  "('t, dsr_value) table_ops \<Rightarrow> node_id list \<Rightarrow> node_id \<Rightarrow> u16 \<Rightarrow> node_id list \<Rightarrow> (node_id \<Rightarrow> 't dsr_node) \<Rightarrow>
     node_id \<Rightarrow> 't dsr_node" where
  "dsr_seen T pj src seq ids nds = (\<lambda>i. if i \<in> set ids
     then (nds i)\<lparr>dsr_table := dsr_update_seq_nr T pj (dsr_table (nds i)) src seq\<rparr> else nds i)"

text \<open>The request: every node adds itself.\<close>

lemma dsr_relay_request:
  assumes "distinct ids" and "dest \<notin> set ids"
    and "\<And>i. i \<in> set ids \<Longrightarrow> \<not> seq \<le> dsr_get_seq_nr T (dsr_table (nds i)) src"
    and "dsr_fits os pj (length ps + length ids)" and "\<And>i. MAX_MESSAGE_LENGTH os \<le> length (buf i)"
  shows "dsr_relay T os pj buf nds
      (from, BROADCAST_ADDRESS os, rdm_packet DsrRouteRequestMsgId h seq src dest idx ps) ids =
    Some (dsr_seen T pj src seq ids nds, (if ids = [] then from else last ids), BROADCAST_ADDRESS os,
      rdm_packet DsrRouteRequestMsgId (h + of_nat (length ids)) seq src dest (idx + of_nat (length ids)) (ps @ ids))"
  using assms(1-4)
proof (induction ids arbitrary: nds "from" h idx ps)
  case Nil
  then show ?case by (simp add: dsr_seen_def)
next
  case (Cons i ids)
  let ?n = "(nds i)\<lparr>dsr_table := dsr_update_seq_nr T pj (dsr_table (nds i)) src seq\<rparr>"
  have rcv: "dsr_receive T os i pj (nds i) from (10 + 2 * length ps)
      (rdm_packet DsrRouteRequestMsgId h seq src dest idx ps @ buf i) =
      Some (?n, [Radio_send (BROADCAST_ADDRESS os)
        (rdm_packet DsrRouteRequestMsgId (h + 1) seq src dest (idx + 1) (ps @ [i]))])"
    using Cons.prems assms(5) by (intro dsr_receive_request_forward) (auto elim: dsr_fits_mono)
  have IH: "dsr_relay T os pj buf (nds(i := ?n)) (i, BROADCAST_ADDRESS os,
        rdm_packet DsrRouteRequestMsgId (h + 1) seq src dest (idx + 1) (ps @ [i])) ids =
      Some (dsr_seen T pj src seq ids (nds(i := ?n)), (if ids = [] then i else last ids), BROADCAST_ADDRESS os,
        rdm_packet DsrRouteRequestMsgId ((h + 1) + of_nat (length ids)) seq src dest
          ((idx + 1) + of_nat (length ids)) ((ps @ [i]) @ ids))"
    using Cons.prems by (intro Cons.IH) (auto simp: fun_upd_apply)
  have "dsr_seen T pj src seq ids (nds(i := ?n)) = dsr_seen T pj src seq (i # ids) nds"
    using Cons.prems(1) by (auto simp: dsr_seen_def fun_eq_iff)
  then show ?case using rcv IH by (simp add: add.assoc)
qed

text \<open>The reply: back along the path, whose first \<open>k\<close> nodes after the source are left.\<close>

lemma dsr_relay_reply:
  assumes path: "path = src # ids @ rest" and "src \<notin> set ids" and "dsr_fits os pj (length path)"
  shows "k \<le> length ids \<Longrightarrow> dsr_relay T os pj buf nds (from, path ! k,
      rdm_packet DsrRouteReplyMsgId h seq src dest (of_nat k) path) (rev (take k ids)) =
    Some (nds, (if k = 0 then from else ids ! 0), src, rdm_packet DsrRouteReplyMsgId h seq src dest 0 path)"
proof (induction k arbitrary: "from")
  case 0
  then show ?case by (simp add: path)
next
  case (Suc k)
  let ?i = "ids ! k"
  have i: "take (Suc k) ids = take k ids @ [?i]" "path ! Suc k = ?i" "src \<noteq> ?i"
    using Suc.prems assms(2) by (auto simp: take_Suc_nth path nth_append)
  have small: "length path < 256" using assms(3) by (simp add: dsr_fits_def)
  have k: "(of_nat (Suc k) :: u8) - 1 = of_nat k" "unat (of_nat k :: u8) = k"
    using Suc.prems small by (simp_all add: path unat_of_nat take_bit_nat_eq_self)
  have rcv: "dsr_receive T os ?i pj (nds ?i) from (10 + 2 * length path)
      (rdm_packet DsrRouteReplyMsgId h seq src dest (of_nat (Suc k)) path @ buf ?i) =
      Some (nds ?i, [Radio_send (path ! k) (rdm_packet DsrRouteReplyMsgId h seq src dest (of_nat k) path)])"
    using dsr_receive_reply_forward [OF i(3) assms(3), of "of_nat (Suc k)"] k Suc.prems
    by (simp add: path del: of_nat_Suc)
  have start: "(if k = 0 then ?i else ids ! 0) = ids ! 0" by simp
  show ?case
    using rcv Suc.IH [of ?i, unfolded start] Suc.prems by (simp add: i fun_upd_idem del: of_nat_Suc)
qed

text \<open>The data: forward along the path, whose first \<open>k\<close> nodes have had it.\<close>

lemma dsr_relay_data:
  assumes "path = ps @ ids @ [dest]" and "dest \<notin> set ids"
    and fits: "drt_fits os pj (length path) len" and "Suc (length pl) = unat len"
    and mem: "\<And>i. MAX_MESSAGE_LENGTH os \<le> length (buf i)"
  shows "dsr_relay T os pj buf nds (from, path ! length ps,
      drt_packet DsrRoutingMsgId (of_nat (length ps)) src dest path len pl) ids =
    Some (nds, (if ids = [] then from else last ids), dest,
      drt_packet DsrRoutingMsgId (of_nat (length path - 1)) src dest path len pl)"
  using assms(1,2)
proof (induction ids arbitrary: ps "from")
  case Nil
  then show ?case by simp
next
  case (Cons i ids)
  have small: "length path < 256" using fits by (simp add: drt_fits_def)
  have k: "unat (of_nat (length ps) + 1 :: u8) = Suc (length ps)"
  proof -
    have "of_nat (length ps) + 1 = (of_nat (Suc (length ps)) :: u8)" by simp
    then show ?thesis
      using small Cons.prems(1) by (simp only: unat_of_nat) (simp add: take_bit_nat_eq_self)
  qed
  have i: "path ! length ps = i" using Cons.prems(1) by simp
  have rcv: "dsr_receive T os i pj (nds i) from (length (drt_packet DsrRoutingMsgId (of_nat (length ps)) src dest path len pl))
      (drt_packet DsrRoutingMsgId (of_nat (length ps)) src dest path len pl @ buf i) =
      Some (nds i, [Radio_send (path ! Suc (length ps))
        (drt_packet DsrRoutingMsgId (of_nat (Suc (length ps))) src dest path len pl)])"
    using dsr_receive_data_forward [OF _ fits assms(4) mem [of i] _ refl, where self = i
        and idx = "of_nat (length ps)" and T = T and n = "nds i" and src = src and dest = dest]
      Cons.prems k by (simp add: add.commute)
  have IH: "dsr_relay T os pj buf nds (i, path ! length (ps @ [i]),
      drt_packet DsrRoutingMsgId (of_nat (length (ps @ [i]))) src dest path len pl) ids =
    Some (nds, (if ids = [] then i else last ids), dest,
      drt_packet DsrRoutingMsgId (of_nat (length path - 1)) src dest path len pl)"
    using Cons.prems by (intro Cons.IH) auto
  then show ?case using rcv by (simp add: i fun_upd_idem del: of_nat_Suc)
qed

section \<open>One route discovery\<close>

lemma dsr_send_request:
  assumes "\<not> send_in_progress n" and "t_find T (dsr_table n) dest = None"
    and "dsr_fits os pj 1" and "8 + unat len \<le> MAX_MESSAGE_LENGTH os" and "length junk = MAX_MESSAGE_LENGTH os"
    and "unat len \<le> length data"
  shows "dsr_send T os self junk pj n dest len data =
    Some (n\<lparr>routing_message := drt_packet DsrRoutingMsgId 1 self dest [] len (take (unat len) data) @
        drop (8 + unat len) junk, send_in_progress := True, dsr_next_seq_nr := dsr_next_seq_nr n + 1\<rparr>,
      [Radio_send (BROADCAST_ADDRESS os)
        (rdm_packet DsrRouteRequestMsgId 0 (dsr_next_seq_nr n) self dest 0 [self])], SUCCESS)"
proof -
  let ?seq = "dsr_next_seq_nr n" and ?e = "os_endianness os"
  let ?hdr = "[DsrRouteRequestMsgId, 0, hi8 ?seq, lo8 ?seq, hi8 self, lo8 self, hi8 dest, lo8 dest, 0]"
  have rm: "drt_new ?e junk DsrRoutingMsgId self dest 1 len data =
      Some (drt_packet DsrRoutingMsgId 1 self dest [] len (take (unat len) data) @ drop (8 + unat len) junk)"
    using assms(4-6) by (intro drt_new_layout) simp_all
  obtain c js where new: "rdm_new ?e junk DsrRouteRequestMsgId 0 ?seq self dest 0 = Some ((?hdr @ [c]) @ js)"
      and js: "length js + 10 = length junk"
    using rdm_new_layout [of junk ?e DsrRouteRequestMsgId 0 ?seq self dest 0] assms(3,5) by (auto simp: dsr_fits_def)
  have el: "elems (vs_push_back (vs_new pj) self) = [self]"
    using path_of_elems [of "[self]" pj] assms(3) by (simp add: path_of_def dsr_fits_def vs_clear_def vs_new_def)
  have "2 \<le> length js" using js assms(3,5) by (simp add: dsr_fits_def)
  then obtain y z ys where ys: "js = y # z # ys" by (cases js; cases "tl js") auto
  have "rdm_set_path ?e ((?hdr @ [c]) @ js) (vs_push_back (vs_new pj) self) =
      Some (rdm_packet DsrRouteRequestMsgId 0 ?seq self dest 0 [self] @ ys)"
    by (simp add: rdm_set_path_def el ys put_simps rdm_defs rdm_packet_def)
  then show ?thesis
    using assms(1,2) rm new rdm_send [of "[self]"] rdm_buffer_size_layout [of "[self]"]
    by (simp add: dsr_send_def)
qed

lemma dsr_seen_other: "i \<notin> set ids \<Longrightarrow> dsr_seen T pj src seq ids nds i = nds i"
  by (simp add: dsr_seen_def)

lemma dsr_seen_snoc:
  "d \<notin> set ids \<Longrightarrow> (dsr_seen T pj src seq ids nds)
    (d := (nds d)\<lparr>dsr_table := dsr_update_seq_nr T pj (dsr_table (nds d)) src seq\<rparr>) =
   dsr_seen T pj src seq (ids @ [d]) nds"
  by (auto simp: dsr_seen_def fun_eq_iff)

text \<open>Request and reply.\<close>

lemma dsr_discover:
  assumes dist: "distinct (s # ids @ [d])"
    and fresh: "\<And>i. i \<in> set (ids @ [d]) \<Longrightarrow> \<not> seq \<le> dsr_get_seq_nr T (dsr_table (nds i)) s"
    and fits: "dsr_fits os pj (length (s # ids @ [d]))"
    and mem: "\<And>i. MAX_MESSAGE_LENGTH os \<le> length (buf i)"
  shows "\<exists>x. dsr_relay T os pj buf nds (s, BROADCAST_ADDRESS os,
        rdm_packet DsrRouteRequestMsgId 0 seq s d 0 [s]) (ids @ [d] @ rev ids) =
    Some (dsr_seen T pj s seq (ids @ [d]) nds, x, s,
      rdm_packet DsrRouteReplyMsgId (of_nat (Suc (length ids))) seq s d 0 (s # ids @ [d]))"
proof -
  let ?k = "length ids" and ?path = "s # ids @ [d]"
  let ?nds = "dsr_seen T pj s seq ids nds"
  have request: "dsr_relay T os pj buf nds (s, BROADCAST_ADDRESS os,
        rdm_packet DsrRouteRequestMsgId 0 seq s d 0 [s]) ids =
      Some (?nds, (if ids = [] then s else last ids), BROADCAST_ADDRESS os,
        rdm_packet DsrRouteRequestMsgId (0 + of_nat ?k) seq s d (0 + of_nat ?k) ([s] @ ids))"
    using dist fresh fits mem by (intro dsr_relay_request) (auto elim: dsr_fits_mono)
  have k: "unat (of_nat ?k :: u8) = ?k"
    using fits by (simp add: dsr_fits_def unat_of_nat take_bit_nat_eq_self)
  have answer: "dsr_receive T os d pj (?nds d) x (10 + 2 * length (s # ids))
      (rdm_packet DsrRouteRequestMsgId (of_nat ?k) seq s d (of_nat ?k) (s # ids) @ buf d) =
    Some ((nds d)\<lparr>dsr_table := dsr_update_seq_nr T pj (dsr_table (nds d)) s seq\<rparr>,
      [Radio_send (?path ! ?k) (rdm_packet DsrRouteReplyMsgId (of_nat ?k + 1) seq s d (of_nat ?k) ?path)])" for x
    using dsr_receive_request_answer [of seq T "?nds d" s os pj "s # ids" "buf d" "of_nat ?k" d x _ "of_nat ?k"]
      dist fresh fits mem by (simp add: k dsr_seen_other)
  have reply: "dsr_relay T os pj buf nds' (d, ?path ! ?k,
      rdm_packet DsrRouteReplyMsgId h seq s d (of_nat ?k) ?path) (rev ids) =
    Some (nds', (if ?k = 0 then d else ids ! 0), s, rdm_packet DsrRouteReplyMsgId h seq s d 0 ?path)" for nds' h
    using dsr_relay_reply [of ?path s ids "[d]" os pj ?k T buf nds' d h seq d] dist fits by simp
  have snoc: "?nds(d := (nds d)\<lparr>dsr_table := dsr_update_seq_nr T pj (dsr_table (nds d)) s seq\<rparr>) =
      dsr_seen T pj s seq (ids @ [d]) nds"
    using dist by (intro dsr_seen_snoc) simp
  show ?thesis
    using request answer reply by (simp add: dsr_relay_append snoc add.commute)
qed

text \<open>The source gets the reply, caches the path, and the waiting data goes to the destination.\<close>

lemma dsr_home_and_data:
  assumes dist: "distinct (s # ids @ [d])"
    and rm: "routing_message (nds s) = drt_packet DsrRoutingMsgId i s d [] len pl @ rm_rest"
    and rm_len: "length (routing_message (nds s)) = MAX_MESSAGE_LENGTH os"
    and pl: "length pl = unat len" "pl \<noteq> []"
    and fits: "drt_fits os pj (length (s # ids @ [d])) len" "dsr_fits os pj (length (s # ids @ [d]))"
    and mem: "\<And>i. MAX_MESSAGE_LENGTH os \<le> length (buf i)"
  shows "\<exists>rm'. dsr_relay T os pj buf nds (x, s,
      rdm_packet DsrRouteReplyMsgId h seq s d 0 (s # ids @ [d])) (s # ids) =
    Some (nds(s := (nds s)\<lparr>dsr_table := t_assign T (dsr_table (nds s)) d
        \<lparr>dsr_path = path_of pj (s # ids @ [d]), dsr_hops = h, dsr_seq_nr = seq\<rparr>,
        routing_message := rm', send_in_progress := False\<rparr>),
      (if ids = [] then s else last ids), d,
      drt_packet DsrRoutingMsgId (of_nat (Suc (length ids))) s d (s # ids @ [d]) len (butlast pl))"
proof -
  let ?path = "s # ids @ [d]"
  obtain rm' where home: "dsr_receive T os s pj (nds s) x (10 + 2 * length ?path)
      (rdm_packet DsrRouteReplyMsgId h seq s d 0 ?path @ buf s) =
    Some ((nds s)\<lparr>dsr_table := t_assign T (dsr_table (nds s)) d
        \<lparr>dsr_path = path_of pj ?path, dsr_hops = h, dsr_seq_nr = seq\<rparr>,
        routing_message := rm', send_in_progress := False\<rparr>,
      [Radio_send (?path ! 1) (drt_packet DsrRoutingMsgId 1 s d ?path len (butlast pl))])"
    using dsr_receive_reply_home [OF rm rm_len pl fits, of T x "10 + 2 * length ?path" h seq 0 "buf s"] by auto
  have data: "dsr_relay T os pj buf nds' (s, ?path ! 1, drt_packet DsrRoutingMsgId 1 s d ?path len (butlast pl)) ids =
    Some (nds', (if ids = [] then s else last ids), d,
      drt_packet DsrRoutingMsgId (of_nat (Suc (length ids))) s d ?path len (butlast pl))" for nds'
  proof -
    have "(of_nat (Suc 0) :: u8) = 1" "0 < unat len" using pl by (simp, metis length_greater_0_conv)
    then show ?thesis
      using dsr_relay_data [of ?path "[s]" ids d os pj len "butlast pl" buf T nds' s s] dist fits pl mem
      by (simp del: of_nat_Suc)
  qed
  show ?thesis using home data by (intro exI [of _ rm']) (simp del: of_nat_Suc)
qed

section \<open>Properties\<close>

text \<open>C14: A route discovery works: a source without a route sends a request; when every node of a
  list and then the destination receives it in turn, each for the first time, the answer goes back
  along the same nodes, the source caches exactly that path with its length as the distance, is
  ready to send again, and its waiting message follows the path to the destination's receivers.
  But the message on the air lacks its last byte: the receivers get the payload with the last byte
  replaced by what happens to lie behind the packet in the destination's receive buffer.\<close>

theorem dsr_discovery:
  assumes "distinct (s # ids @ [d])" and "\<not> send_in_progress (nds s)"
    and "rt_lookup (dsr_table (nds s)) d = None" and "rt_inv (dsr_table (nds s))" and "rt_room (dsr_table (nds s))"
    and "\<And>i. i \<in> set (ids @ [d]) \<Longrightarrow>
      dsr_get_seq_nr (array_table_ops dflt) (dsr_table (nds i)) s < dsr_next_seq_nr (nds s)"
    and "dsr_fits os pj (length ids + 2)" and "drt_fits os pj (length ids + 2) len"
    and "\<And>i. MAX_MESSAGE_LENGTH os \<le> length (buf i)" and "length junk = MAX_MESSAGE_LENGTH os"
    and "unat len \<le> length data" and "0 < unat len"
  shows "\<exists>n m nds' m' pl v.
    dsr_send (array_table_ops dflt) os s junk pj (nds s) d len data =
      Some (n, [Radio_send (BROADCAST_ADDRESS os) m], SUCCESS) \<and>
    dsr_relay (array_table_ops dflt) os pj buf (nds(s := n)) (s, BROADCAST_ADDRESS os, m)
      (ids @ [d] @ rev ids @ [s] @ ids) = Some (nds', last (s # ids), d, m') \<and>
    rt_lookup (dsr_table (nds' s)) d = Some v \<and> elems (dsr_path v) = s # ids @ [d] \<and>
    unat (dsr_hops v) = length ids + 1 \<and> \<not> send_in_progress (nds' s) \<and>
    dsr_receive (array_table_ops dflt) os d pj (nds' d) (last (s # ids)) (length m') (m' @ buf d) =
      Some (nds' d, [Notify_receivers s (unat len) pl]) \<and>
    take (unat len) pl = take (unat len - 1) data @ [hd (buf d)]"
proof -
  let ?T = "array_table_ops dflt" and ?path = "s # ids @ [d]" and ?pl = "take (unat len) data"
  let ?seq = "dsr_next_seq_nr (nds s)" and ?h = "of_nat (Suc (length ids)) :: u8"
  define n where "n = (nds s)\<lparr>routing_message := drt_packet DsrRoutingMsgId 1 s d [] len ?pl @
      drop (8 + unat len) junk, send_in_progress := True, dsr_next_seq_nr := ?seq + 1\<rparr>"
  let ?m = "rdm_packet DsrRouteRequestMsgId 0 ?seq s d 0 [s]"
  have send: "dsr_send ?T os s junk pj (nds s) d len data =
      Some (n, [Radio_send (BROADCAST_ADDRESS os) ?m], SUCCESS)"
    using dsr_send_request [of "nds s" ?T d os pj len junk data s] assms
    by (simp add: n_def array_table_ops_def dsr_fits_def drt_fits_def)
  let ?nds1 = "dsr_seen ?T pj s ?seq (ids @ [d]) (nds(s := n))"
  have "\<not> ?seq \<le> dsr_get_seq_nr ?T (dsr_table ((nds(s := n)) i)) s" if "i \<in> set (ids @ [d])" for i
    using assms(1) assms(6) [OF that] that by auto
  note fresh = this
  have f: "drt_fits os pj (length ?path) len" "dsr_fits os pj (length ?path)" using assms(7,8) by simp_all
  obtain x where there: "dsr_relay ?T os pj buf (nds(s := n)) (s, BROADCAST_ADDRESS os, ?m) (ids @ [d] @ rev ids) =
      Some (?nds1, x, s, rdm_packet DsrRouteReplyMsgId ?h ?seq s d 0 ?path)"
    using dsr_discover [where T = ?T and nds = "nds(s := n)" and buf = buf, OF assms(1) fresh f(2) assms(9)]
    by blast
  have s: "?nds1 s = n" using assms(1) by (simp add: dsr_seen_other)
  have rm: "routing_message (?nds1 s) = drt_packet DsrRoutingMsgId 1 s d [] len ?pl @ drop (8 + unat len) junk"
    "length (routing_message (?nds1 s)) = MAX_MESSAGE_LENGTH os"
    using assms(8,10,11) by (simp_all only: s) (simp_all add: n_def drt_fits_def)
  have pl: "length ?pl = unat len" "?pl \<noteq> []" using assms(11,12) by auto
  let ?v = "\<lparr>dsr_path = path_of pj ?path, dsr_hops = ?h, dsr_seq_nr = ?seq\<rparr>"
  obtain rm' where ret: "dsr_relay ?T os pj buf ?nds1 (x, s, rdm_packet DsrRouteReplyMsgId ?h ?seq s d 0 ?path) (s # ids) =
    Some (?nds1(s := (?nds1 s)\<lparr>dsr_table := t_assign ?T (dsr_table (?nds1 s)) d ?v, routing_message := rm',
        send_in_progress := False\<rparr>),
      (if ids = [] then s else last ids), d, drt_packet DsrRoutingMsgId ?h s d ?path len (butlast ?pl))"
    using dsr_home_and_data [where T = ?T and x = x and h = ?h and seq = ?seq and buf = buf and nds = ?nds1,
        OF assms(1) rm pl f assms(9)]
    by blast
  define nds' where "nds' = ?nds1(s := n\<lparr>dsr_table := t_assign ?T (dsr_table n) d ?v,
      routing_message := rm', send_in_progress := False\<rparr>)"
  let ?m' = "drt_packet DsrRoutingMsgId ?h s d ?path len (butlast ?pl)"
  have relay: "dsr_relay ?T os pj buf (nds(s := n)) (s, BROADCAST_ADDRESS os, ?m) (ids @ [d] @ rev ids @ [s] @ ids) =
      Some (nds', last (s # ids), d, ?m')"
    using there ret dsr_relay_append [of ?T os pj buf "nds(s := n)" _ "ids @ [d] @ rev ids" "s # ids"]
    by (simp only: s nds'_def) simp
  have table: "rt_lookup (dsr_table (nds' s)) d = Some ?v"
    using sa.find_assign [of "dsr_table (nds s)" dflt d ?v] assms(3-5)
    by (simp add: nds'_def n_def array_table_ops_def)
  have "buf d \<noteq> []" using assms(7) assms(9) [of d] by (auto simp: dsr_fits_def)
  then obtain y ys where y: "buf d = y # ys" by (cases "buf d") auto
  have deliver: "dsr_receive ?T os d pj (nds' d) (last (s # ids)) (length ?m') (?m' @ buf d) =
      Some (nds' d, [Notify_receivers s (unat len) (butlast ?pl @ y # ys)])"
    using dsr_receive_data_deliver [of ?path "butlast ?pl" len ?T os d pj] pl assms(7,12)
    by (simp add: y dsr_fits_def)
  have "butlast ?pl = take (unat len - 1) data"
    using assms(11,12) by (simp add: butlast_take)
  then have "take (unat len) (butlast ?pl @ y # ys) = take (unat len - 1) data @ [hd (buf d)]"
    using assms(11,12) by (simp add: y)
  moreover have "unat (dsr_hops ?v) = length ids + 1"
    using assms(7) by (simp only: dsr_value.simps unat_of_nat) (simp add: dsr_fits_def take_bit_nat_eq_self)
  moreover have "elems (dsr_path ?v) = ?path"
    using assms(7) by (simp add: path_of_elems dsr_fits_def)
  moreover have "\<not> send_in_progress (nds' s)" by (simp add: nds'_def)
  ultimately show ?thesis using send relay table deliver
    by - (rule exI [of _ n], rule exI [of _ ?m], rule exI [of _ nds'], rule exI [of _ ?m'],
        rule exI [of _ "butlast ?pl @ y # ys"], rule exI [of _ ?v], intro conjI, assumption+)
qed

definition demo_dsr_table :: "dsr_value array_table" where
  "demo_dsr_table = \<lparr>vec = replicate 4 (Mk_pair 0 (dsr_value_default [])), finish = 0, dummy = dsr_value_default []\<rparr>"

lemma demo_dsr_table_facts:
  "rt_lookup demo_dsr_table k = None" "rt_inv demo_dsr_table" "rt_room demo_dsr_table"
  by (simp_all add: demo_dsr_table_def rt_lookup_def rt_find_def rt_find_from.simps vs_begin_def vs_end_def
      rt_inv_def vs_inv_def elems_def rt_room_def vs_size_def vs_max_size_def)

theorem dsr_discovery_witness:
  "\<exists>n m nds' m' pl v.
    dsr_send (array_table_ops (dsr_value_default [])) demo_os 1 (replicate 116 0) (replicate 8 0)
      (dsr_new demo_dsr_table []) 3 2 [42, 43] = Some (n, [Radio_send (BROADCAST_ADDRESS demo_os) m], SUCCESS) \<and>
    dsr_relay (array_table_ops (dsr_value_default [])) demo_os (replicate 8 0) (\<lambda>_. replicate 116 7)
      ((\<lambda>_. dsr_new demo_dsr_table [])(1 := n)) (1, BROADCAST_ADDRESS demo_os, m) ([2] @ [3] @ rev [2] @ [1] @ [2])
      = Some (nds', last (1 # [2]), 3, m') \<and>
    rt_lookup (dsr_table (nds' 1)) 3 = Some v \<and> elems (dsr_path v) = 1 # [2] @ [3] \<and>
    unat (dsr_hops v) = length [2 :: node_id] + 1 \<and> \<not> send_in_progress (nds' 1) \<and>
    dsr_receive (array_table_ops (dsr_value_default [])) demo_os 3 (replicate 8 0) (nds' 3) (last (1 # [2])) (length m')
      (m' @ replicate 116 7) = Some (nds' 3, [Notify_receivers 1 (unat (2 :: u8)) pl]) \<and>
    take (unat (2 :: u8)) pl = take (unat (2 :: u8) - 1) [42, 43] @ [hd (replicate 116 7)]"
  by (rule dsr_discovery [where nds = "\<lambda>_. dsr_new demo_dsr_table []" and s = 1 and d = 3 and ids = "[2]"
        and buf = "\<lambda>_. replicate 116 7" and dflt = "dsr_value_default []" and os = demo_os and pj = "replicate 8 0"
        and junk = "replicate 116 0" and data = "[42, 43]" and len = 2])
    (simp_all only: dsr_new_def dsr_node.simps demo_dsr_table_facts,
     simp_all add: demo_dsr_table_facts dsr_fits_def drt_fits_def demo_os_def dsr_get_seq_nr_def array_table_ops_def)

lemma dsr_receive_request_table:
  assumes "dsr_receive T os self pj n from len (rdm_packet DsrRouteRequestMsgId h seq src dest idx ps @ rest)
    = Some (n', calls)"
  shows "dsr_table n' = (if seq \<le> dsr_get_seq_nr T (dsr_table n) src then dsr_table n
    else dsr_update_seq_nr T pj (dsr_table n) src seq)"
  using assms
  by (auto simp: dsr_receive_def rdm_msg_type dsr_handle_route_request_def Let_def dsr_simps bind_eq_Some_iff
      split: if_splits)

text \<open>A node whose table knows the source or has room reacts to a route request at most once:
  whatever it did with a request, every later copy of it (along any path, with any distance), and
  every older request of that source, is ignored.\<close>

theorem dsr_request_once:
  assumes "dsr_receive (array_table_ops dflt) os self pj n from len
      (rdm_packet DsrRouteRequestMsgId h seq src dest idx ps @ rest) = Some (n', calls)"
    and "rt_inv (dsr_table n)" and "rt_lookup (dsr_table n) src \<noteq> None \<or> rt_room (dsr_table n)"
    and "seq' \<le> seq"
  shows "dsr_receive (array_table_ops dflt) os self pj n' from' len'
      (rdm_packet DsrRouteRequestMsgId h' seq' src dest' idx' ps' @ rest') = Some (n', [])"
proof (rule dsr_receive_request_known)
  let ?T = "array_table_ops dflt"
  have "dsr_get_seq_nr ?T (dsr_update_seq_nr ?T pj (dsr_table n) src seq) src = seq"
    using sa.find_assign [OF assms(2), of dflt] assms(3)
    by (auto simp: dsr_get_seq_nr_def dsr_update_seq_nr_def array_table_ops_def split: option.splits)
  then show "seq' \<le> dsr_get_seq_nr ?T (dsr_table n') src"
    using dsr_receive_request_table [OF assms(1)] assms(4) by auto
qed

theorem dsr_request_once_witness:
  "dsr_receive (array_table_ops (dsr_value_default [])) demo_os 2 (replicate 8 0)
      ((dsr_new demo_dsr_table [])\<lparr>dsr_table := dsr_update_seq_nr (array_table_ops (dsr_value_default []))
        (replicate 8 0) demo_dsr_table 1 5\<rparr>) 4 12
      (rdm_packet DsrRouteRequestMsgId 3 5 1 3 3 [1, 6, 7, 4] @ replicate 116 7) =
    Some ((dsr_new demo_dsr_table [])\<lparr>dsr_table := dsr_update_seq_nr (array_table_ops (dsr_value_default []))
        (replicate 8 0) demo_dsr_table 1 5\<rparr>, [])"
proof -
  let ?T = "array_table_ops (dsr_value_default [])" and ?n = "dsr_new demo_dsr_table []"
  have "dsr_receive ?T demo_os 2 (replicate 8 0) ?n 1 12
      (rdm_packet DsrRouteRequestMsgId 0 5 1 3 0 [1] @ replicate 116 7) =
    Some (?n\<lparr>dsr_table := dsr_update_seq_nr ?T (replicate 8 0) (dsr_table ?n) 1 5\<rparr>,
      [Radio_send (BROADCAST_ADDRESS demo_os)
        (rdm_packet DsrRouteRequestMsgId (0 + 1) 5 1 3 (0 + 1) ([1] @ [2]))])"
    by (rule dsr_receive_request_forward)
      (simp_all add: dsr_get_seq_nr_def dsr_new_def array_table_ops_def demo_dsr_table_facts dsr_fits_def demo_os_def)
  from dsr_request_once [OF this] show ?thesis
    by (simp add: dsr_new_def demo_dsr_table_facts del: replicate.simps)
qed

text \<open>A source does not recognise its own request: when its neighbour's copy comes back, the
  source, which has no table entry for itself, adds itself to the path a second time and broadcasts
  the request again.\<close>

theorem dsr_own_request:
  assumes "rt_lookup (dsr_table n) self = None" and "seq \<noteq> 0" and "dest \<noteq> self"
    and "dsr_fits os pj (length ps + 2)" and "MAX_MESSAGE_LENGTH os \<le> length rest"
  shows "\<exists>n'. dsr_receive (array_table_ops dflt) os self pj n from len
      (rdm_packet DsrRouteRequestMsgId h seq self dest idx (self # ps) @ rest) =
    Some (n', [Radio_send (BROADCAST_ADDRESS os)
      (rdm_packet DsrRouteRequestMsgId (h + 1) seq self dest (idx + 1) (self # ps @ [self]))])"
  using dsr_receive_request_forward [of seq "array_table_ops dflt" n self dest self os pj "self # ps" rest] assms
  by (simp add: dsr_get_seq_nr_def array_table_ops_def)

theorem dsr_own_request_witness:
  "\<exists>n'. dsr_receive (array_table_ops (dsr_value_default [])) demo_os 1 (replicate 8 0)
      (dsr_new demo_dsr_table []) 2 14 (rdm_packet DsrRouteRequestMsgId 1 1 1 3 1 [1, 2] @ replicate 116 7) =
    Some (n', [Radio_send (BROADCAST_ADDRESS demo_os)
      (rdm_packet DsrRouteRequestMsgId 2 1 1 3 2 [1, 2, 1])])"
  using dsr_own_request [of "dsr_new demo_dsr_table []" 1 1 3 demo_os "replicate 8 0" "[2]" "replicate 116 7"
      "dsr_value_default []" 2 14 1 1]
  by (simp add: dsr_new_def demo_dsr_table_facts dsr_fits_def demo_os_def del: replicate.simps)

end
