(* ===== verification/Flooding.thy ===== *)
theory Flooding
  imports Message_Buffer Routing_Table
begin

text \<open>
  \<^verbatim>\<open>wiselib.testing/algorithms/routing/flooding/flooding_message.h\<close> and
  \<^verbatim>\<open>flooding_algorithm.h\<close>: the message of the flooding algorithm, a byte buffer, and one
  node. The map of sequence numbers is a template parameter, used here through the operations of a
  routing table \<open>T\<close> whose values are \<^verbatim>\<open>uint16_t\<close>, the default of the tables.
\<close>

section \<open>FloodingMessage\<close>

abbreviation (input) "fm_NODE_ID_POS \<equiv> 1 :: nat"
abbreviation (input) "fm_DEST_ID_POS \<equiv> 3 :: nat"
abbreviation (input) "fm_SEQ_NR_POS \<equiv> 5 :: nat"
abbreviation (input) "fm_PAYLOAD_POS \<equiv> 7 :: nat"

definition fm_msg_id :: "endianness \<Rightarrow> bytes \<Rightarrow> u8 option" where
  "fm_msg_id e b = read_u8 e b 0"

definition fm_set_msg_id :: "endianness \<Rightarrow> bytes \<Rightarrow> u8 \<Rightarrow> bytes option" where
  "fm_set_msg_id e b v = put8 e b 0 v"

definition fm_node_id :: "endianness \<Rightarrow> bytes \<Rightarrow> u16 option" where
  "fm_node_id e b = read_u16 e b fm_NODE_ID_POS"

definition fm_set_node_id :: "endianness \<Rightarrow> bytes \<Rightarrow> u16 \<Rightarrow> bytes option" where
  "fm_set_node_id e b v = put16 e b fm_NODE_ID_POS v"

definition fm_dest_id :: "endianness \<Rightarrow> bytes \<Rightarrow> u16 option" where
  "fm_dest_id e b = read_u16 e b fm_DEST_ID_POS"

definition fm_set_dest_id :: "endianness \<Rightarrow> bytes \<Rightarrow> u16 \<Rightarrow> bytes option" where
  "fm_set_dest_id e b v = put16 e b fm_DEST_ID_POS v"

definition fm_seq_nr :: "endianness \<Rightarrow> bytes \<Rightarrow> u16 option" where
  "fm_seq_nr e b = read_u16 e b fm_SEQ_NR_POS"

definition fm_set_seq_nr :: "endianness \<Rightarrow> bytes \<Rightarrow> u16 \<Rightarrow> bytes option" where
  "fm_set_seq_nr e b v = put16 e b fm_SEQ_NR_POS v"

definition fm_payload_size :: "endianness \<Rightarrow> bytes \<Rightarrow> u8 option" where
  "fm_payload_size e b = read_u8 e b fm_PAYLOAD_POS"

definition fm_payload :: "bytes \<Rightarrow> bytes" where
  "fm_payload b = drop (fm_PAYLOAD_POS + 1) b"

definition fm_set_payload :: "endianness \<Rightarrow> bytes \<Rightarrow> u8 \<Rightarrow> bytes \<Rightarrow> bytes option" where
  "fm_set_payload e b len buf = do {
     b \<leftarrow> put8 e b fm_PAYLOAD_POS len;
     vs \<leftarrow> rd_bytes buf 0 (unat len);
     memcpy b (fm_PAYLOAD_POS + 1) vs }"

definition fm_buffer_size :: "endianness \<Rightarrow> bytes \<Rightarrow> nat option" where
  "fm_buffer_size e b = do { n \<leftarrow> fm_payload_size e b; Some (fm_PAYLOAD_POS + 1 + unat n) }"

definition fm_new :: "endianness \<Rightarrow> bytes \<Rightarrow> bytes option" where
  "fm_new e junk = do {
     b \<leftarrow> fm_set_msg_id e junk 0;
     b \<leftarrow> fm_set_node_id e b 0;
     put8 e b fm_PAYLOAD_POS 0 }"

lemmas fm_defs = fm_msg_id_def fm_set_msg_id_def fm_node_id_def fm_set_node_id_def fm_dest_id_def
  fm_set_dest_id_def fm_seq_nr_def fm_set_seq_nr_def fm_payload_size_def fm_payload_def fm_buffer_size_def

section \<open>FloodingAlgorithm\<close>

abbreviation (input) "FLOODING_MESSAGE_ID \<equiv> 112 :: u8"
abbreviation (input) "FLOODING_INIT_SEQ_NR \<equiv> 0 :: u16"

record 't fl_node =
  fl_seq_nr :: u16
  seq_map :: 't

definition fl_new :: "'t \<Rightarrow> 't fl_node" where
  "fl_new empty_map = \<lparr>fl_seq_nr = FLOODING_INIT_SEQ_NR, seq_map = empty_map\<rparr>"

definition fl_enable_radio :: "'t fl_node \<Rightarrow> 't fl_node \<times> os_call list \<times> os_code" where
  "fl_enable_radio n = (n, [Enable_radio, Reg_recv_callback], SUCCESS)"

definition fl_disable_radio :: "'t fl_node \<Rightarrow> 't fl_node \<times> os_call list \<times> os_code" where
  "fl_disable_radio n = (n, [Unreg_recv_callback, Disable_radio], SUCCESS)"

definition fl_init :: "'t fl_node \<Rightarrow> 't fl_node \<times> os_call list \<times> os_code" where
  "fl_init n = fl_enable_radio (n\<lparr>fl_seq_nr := FLOODING_INIT_SEQ_NR\<rparr>)"

definition fl_destruct :: "'t fl_node \<Rightarrow> 't fl_node \<times> os_call list \<times> os_code" where
  "fl_destruct n = fl_disable_radio n"

definition fl_send :: "os_model \<Rightarrow> node_id \<Rightarrow> bytes \<Rightarrow> 't fl_node \<Rightarrow> node_id \<Rightarrow> u8 \<Rightarrow> bytes \<Rightarrow>
    ('t fl_node \<times> os_call list \<times> os_code) option" where
  "fl_send os self junk n destination len data = (let e = os_endianness os in do {
     message \<leftarrow> fm_new e junk;
     message \<leftarrow> fm_set_msg_id e message FLOODING_MESSAGE_ID;
     message \<leftarrow> fm_set_node_id e message self;
     message \<leftarrow> fm_set_dest_id e message destination;
     message \<leftarrow> fm_set_seq_nr e message (fl_seq_nr n);
     message \<leftarrow> fm_set_payload e message len data;
     sz \<leftarrow> fm_buffer_size e message;
     call \<leftarrow> radio_send (BROADCAST_ADDRESS os) sz message;
     Some (n\<lparr>fl_seq_nr := fl_seq_nr n + 1\<rparr>, [call], SUCCESS) })"

text \<open>Whether a number is accepted, given the entry of the source in the map.\<close>

fun fl_accepts :: "u16 option \<Rightarrow> u16 \<Rightarrow> bool" where
  "fl_accepts None s = True"
| "fl_accepts (Some v) s = (s > v \<or> s = FLOODING_INIT_SEQ_NR \<and> v \<ge> 2)"

definition fl_receive :: "('t, u16) table_ops \<Rightarrow> os_model \<Rightarrow> node_id \<Rightarrow> 't fl_node \<Rightarrow> node_id \<Rightarrow> nat \<Rightarrow> bytes \<Rightarrow>
    ('t fl_node \<times> os_call list) option" where
  "fl_receive T os self n from len data = (let e = os_endianness os in
     if from = self then Some (n, [])
     else do {
       msg_id \<leftarrow> read_u8 e data 0;
       if msg_id = FLOODING_MESSAGE_ID then do {
         src \<leftarrow> fm_node_id e data;
         if src = self then Some (n, [])
         else do {
           seq \<leftarrow> fm_seq_nr e data;
           if fl_accepts (t_find T (seq_map n) src) seq then do {
             n \<leftarrow> Some (n\<lparr>seq_map := t_assign T (seq_map n) src seq\<rparr>);
             call \<leftarrow> radio_send (BROADCAST_ADDRESS os) len data;
             dest \<leftarrow> fm_dest_id e data;
             if dest = BROADCAST_ADDRESS os \<or> dest = self then do {
               sz \<leftarrow> fm_payload_size e data;
               Some (n, [call, Notify_receivers src (unat sz) (fm_payload data)]) }
             else Some (n, [call]) }
           else Some (n, []) } }
       else Some (n, []) })"

section \<open>The message on the wire\<close>

text \<open>The bytes of a message, and what the handlers do with it.\<close>

definition fl_packet :: "node_id \<Rightarrow> node_id \<Rightarrow> u16 \<Rightarrow> bytes \<Rightarrow> bytes" where
  "fl_packet src dest seq pl =
     [FLOODING_MESSAGE_ID, hi8 src, lo8 src, hi8 dest, lo8 dest, hi8 seq, lo8 seq, word_of_nat (length pl)] @ pl"

lemma length_fl_packet [simp]: "length (fl_packet src dest seq pl) = 8 + length pl"
  by (simp add: fl_packet_def)

lemma take_8_Cons: "take (8 + n) (a # b # c # d # e # f # g # h # xs) = [a, b, c, d, e, f, g, h] @ take n xs"
  by (simp add: numeral_eq_Suc)

lemma fl_send_eq:
  assumes "8 + unat len \<le> length junk" and "unat len \<le> length data" and "8 + unat len < 256"
  shows "fl_send os self junk n dest len data = Some (n\<lparr>fl_seq_nr := fl_seq_nr n + 1\<rparr>,
    [Radio_send (BROADCAST_ADDRESS os) (fl_packet self dest (fl_seq_nr n) (take (unat len) data))], SUCCESS)"
proof -
  obtain b0 b1 b2 b3 b4 b5 b6 b7 js where junk: "junk = b0 # b1 # b2 # b3 # b4 # b5 # b6 # b7 # js"
    using assms(1) by (auto simp: numeral_eq_Suc Suc_le_length_iff)
  have "unat len \<le> length js" using assms(1) by (simp add: junk)
  then show ?thesis
    using assms(2,3)
    by (simp add: fl_send_def junk fm_new_def fm_defs put_simps fm_set_payload_def rd_bytes_def memcpy_def
        radio_send_eq fl_packet_def take_8_Cons)
qed

lemma fl_receive_packet:
  assumes "from \<noteq> self" and "src \<noteq> self" and "length pl < 248"
  shows "fl_receive T os self n from (8 + length pl) (fl_packet src dest seq pl) = Some
    (if fl_accepts (t_find T (seq_map n) src) seq
     then (n\<lparr>seq_map := t_assign T (seq_map n) src seq\<rparr>,
       Radio_send (BROADCAST_ADDRESS os) (fl_packet src dest seq pl) #
       (if dest = BROADCAST_ADDRESS os \<or> dest = self then [Notify_receivers src (length pl) pl] else []))
     else (n, []))"
  using assms
  by (auto simp: fl_receive_def fm_defs put_simps fl_packet_def radio_send_eq unat_of_nat)

end
