(* ===== verification/Flooding_Network.thy ===== *)
theory Flooding_Network
  imports Flooding "HOL-Library.Multiset"
begin

text \<open>
  A network of flooding nodes over lossless links: what a node broadcasts is in flight to each of
  its neighbours once and is delivered there at some time, in any order. The theorems are about
  when flooding comes to an end, whom it reaches, and a load under which it never ends.
\<close>

record 't flood_net =
  fnodes :: "node_id \<Rightarrow> 't fl_node"
  flinks :: "(node_id \<times> node_id \<times> bytes) multiset"
  fheard :: "(node_id \<times> node_id \<times> bytes) multiset"

text \<open>What the calls of node \<open>i\<close> put on its links, and what its receivers hear: the receiver, the
  source and the payload.\<close>

definition flood_packets :: "(node_id \<Rightarrow> node_id list) \<Rightarrow> node_id \<Rightarrow> os_call list \<Rightarrow> (node_id \<times> node_id \<times> bytes) list" where
  "flood_packets nbrs i calls =
     concat (map (\<lambda>c. case c of Radio_send d m \<Rightarrow> map (\<lambda>j. (i, j, m)) (nbrs i) | _ \<Rightarrow> []) calls)"

definition flood_notified :: "node_id \<Rightarrow> os_call list \<Rightarrow> (node_id \<times> node_id \<times> bytes) list" where
  "flood_notified i calls =
     concat (map (\<lambda>c. case c of Notify_receivers src n pl \<Rightarrow> [(i, src, take n pl)] | _ \<Rightarrow> []) calls)"

definition flood_update :: "(node_id \<Rightarrow> node_id list) \<Rightarrow> 't flood_net \<Rightarrow> node_id \<Rightarrow> 't fl_node \<Rightarrow> os_call list \<Rightarrow> 't flood_net" where
  "flood_update nbrs w i n calls = w\<lparr>fnodes := (fnodes w)(i := n),
     flinks := flinks w + mset (flood_packets nbrs i calls), fheard := fheard w + mset (flood_notified i calls)\<rparr>"

inductive flood_deliver :: "('t, u16) table_ops \<Rightarrow> os_model \<Rightarrow> (node_id \<Rightarrow> node_id list) \<Rightarrow> 't flood_net \<Rightarrow> 't flood_net \<Rightarrow> bool"
  for T os nbrs where
  Deliver: "(s, d, m) \<in># flinks w \<Longrightarrow> fl_receive T os d (fnodes w d) s (length m) m = Some (n, calls) \<Longrightarrow>
    flood_deliver T os nbrs w (flood_update nbrs (w\<lparr>flinks := flinks w - {#(s, d, m)#}\<rparr>) d n calls)"

inductive flood_originate :: "os_model \<Rightarrow> (node_id \<Rightarrow> node_id list) \<Rightarrow> 't flood_net \<Rightarrow> 't flood_net \<Rightarrow> bool"
  for os nbrs where
  Send: "fl_send os i junk (fnodes w i) dest len data = Some (n, calls, r) \<Longrightarrow>
    flood_originate os nbrs w (flood_update nbrs w i n calls)"

lemma flood_deliverI:
  "(s, d, m) \<in># flinks w \<Longrightarrow> fl_receive T os d (fnodes w d) s (length m) m = Some (n, calls) \<Longrightarrow>
    flood_update nbrs (w\<lparr>flinks := flinks w - {#(s, d, m)#}\<rparr>) d n calls = w' \<Longrightarrow> flood_deliver T os nbrs w w'"
  by (auto intro: flood_deliver.Deliver)

inductive_cases flood_deliverE: "flood_deliver T os nbrs w w'"

section \<open>Flooding comes to an end\<close>

lemma fl_receive_step:
  assumes "fl_receive T os self n from len data = Some (n', calls)"
  shows "(n' = n \<and> calls = []) \<or> (\<exists>src seq cs. fm_msg_id (os_endianness os) data = Some FLOODING_MESSAGE_ID \<and>
      fm_seq_nr (os_endianness os) data = Some seq \<and>
      fl_accepts (t_find T (seq_map n) src) seq \<and> n' = n\<lparr>seq_map := t_assign T (seq_map n) src seq\<rparr> \<and>
      calls = Radio_send (BROADCAST_ADDRESS os) (take (len mod 256) data) # cs \<and> (\<forall>d m. Radio_send d m \<notin> set cs))"
proof (cases "n' = n \<and> calls = []")
  case False
  let ?e = "os_endianness os"
  have "from \<noteq> self" using assms False by (auto simp: fl_receive_def Let_def)
  then have mid: "read_u8 ?e data 0 = Some FLOODING_MESSAGE_ID"
    using assms False by (cases "read_u8 ?e data 0") (auto simp: fl_receive_def Let_def split: if_splits)
  then obtain src where src: "fm_node_id ?e data = Some src" "src \<noteq> self"
    using assms False \<open>from \<noteq> self\<close> by (cases "fm_node_id ?e data") (auto simp: fl_receive_def Let_def split: if_splits)
  then obtain seq where seq: "fm_seq_nr ?e data = Some seq" "fl_accepts (t_find T (seq_map n) src) seq"
    using assms False \<open>from \<noteq> self\<close> mid by (cases "fm_seq_nr ?e data") (auto simp: fl_receive_def Let_def split: if_splits)
  let ?n = "n\<lparr>seq_map := t_assign T (seq_map n) src seq\<rparr>"
  obtain call where call: "radio_send (BROADCAST_ADDRESS os) len data = Some call"
    using assms \<open>from \<noteq> self\<close> mid src seq
    by (cases "radio_send (BROADCAST_ADDRESS os) len data") (simp_all add: fl_receive_def Let_def)
  obtain dest where dest: "fm_dest_id ?e data = Some dest"
    using assms \<open>from \<noteq> self\<close> mid src seq call by (cases "fm_dest_id ?e data") (simp_all add: fl_receive_def Let_def)
  have "n' = ?n \<and> (calls = [call] \<or> (\<exists>r k p. calls = [call, Notify_receivers r k p]))"
    using assms \<open>from \<noteq> self\<close> mid src seq call dest
    by (cases "fm_payload_size ?e data") (auto simp: fl_receive_def Let_def split: if_splits)
  moreover have "fm_msg_id ?e data = Some FLOODING_MESSAGE_ID" using mid by (simp add: fm_msg_id_def)
  ultimately have *: "fm_msg_id ?e data = Some FLOODING_MESSAGE_ID" "fm_seq_nr ?e data = Some seq"
      "fl_accepts (t_find T (seq_map n) src) seq" "n' = ?n"
      "radio_send (BROADCAST_ADDRESS os) len data = Some call" "calls = [call] \<or> (\<exists>r k p. calls = [call, Notify_receivers r k p])"
    using seq call by simp_all
  then have "call = Radio_send (BROADCAST_ADDRESS os) (take (len mod 256) data)"
    by (auto simp: radio_send_def mem_simps)
  then show ?thesis using * by auto
qed simp

text \<open>Every packet carries a number other than 0.\<close>

definition fl_numbered :: "os_model \<Rightarrow> bytes \<Rightarrow> bool" where
  "fl_numbered os m \<longleftrightarrow> fm_msg_id (os_endianness os) m = Some FLOODING_MESSAGE_ID \<longrightarrow>
     fm_seq_nr (os_endianness os) m \<noteq> Some FLOODING_INIT_SEQ_NR"

lemma fl_numbered_take: "fl_numbered os m \<Longrightarrow> fl_numbered os (take k m)"
  by (auto simp: fl_numbered_def fm_defs put_simps mem_simps split: if_splits)

definition fl_weight :: "u16 option \<Rightarrow> nat" where
  "fl_weight v = (case v of None \<Rightarrow> 65536 | Some v \<Rightarrow> 65535 - unat v)"

lemma unat_u16_less: "unat (k :: u16) < 65536"
  using unsigned_less [of k, where 'a = nat] by simp

lemma fl_weight_accepts:
  assumes "fl_accepts v s" and "s \<noteq> 0"
  shows "fl_weight (Some s) < fl_weight v"
proof (cases v)
  case (Some x)
  then have "unat x < unat s" using assms by (simp add: word_less_nat_alt)
  then show ?thesis using Some unat_u16_less [of s] by (simp add: fl_weight_def)
qed (simp add: fl_weight_def)

definition flood_weight :: "('t, u16) table_ops \<Rightarrow> 't flood_net \<Rightarrow> nat" where
  "flood_weight T w = (\<Sum>i \<in> UNIV. \<Sum>src \<in> UNIV. fl_weight (t_find T (seq_map (fnodes w i)) src))"

lemma sum_less_at:
  fixes f g :: "'a :: finite \<Rightarrow> nat"
  assumes "f a < g a" and "\<And>x. x \<noteq> a \<Longrightarrow> f x = g x"
  shows "sum f UNIV < sum g UNIV"
proof -
  have "f x \<le> g x" for x using assms(1) assms(2) [of x] by (cases "x = a") simp_all
  then show ?thesis using assms(1) by (intro sum_strict_mono_ex1) auto
qed

lemma flood_packets_accept:
  assumes "\<forall>d m. Radio_send d m \<notin> set cs"
  shows "flood_packets nbrs i (Radio_send d m # cs) = map (\<lambda>j. (i, j, m)) (nbrs i)"
proof -
  have "flood_packets nbrs i cs = []"
    using assms by (fastforce simp: flood_packets_def split: os_call.splits)
  then show ?thesis by (simp add: flood_packets_def)
qed

definition flood_ok :: "os_model \<Rightarrow> u16 stl_table flood_net \<Rightarrow> bool" where
  "flood_ok os w \<longleftrightarrow> (\<forall>i. stl_inv (seq_map (fnodes w i))) \<and> (\<forall>(s, d, m) \<in># flinks w. fl_numbered os m)"

lemma flood_deliver_decreases:
  assumes "flood_deliver stl_table_ops os nbrs w w'" and ok: "flood_ok os w"
  shows "flood_ok os w'" and "flood_weight stl_table_ops w' < flood_weight stl_table_ops w \<or>
    flood_weight stl_table_ops w' = flood_weight stl_table_ops w \<and> size (flinks w') < size (flinks w)"
proof -
  let ?T = "stl_table_ops :: (u16 stl_table, u16) table_ops"
  obtain s d m n calls where p: "(s, d, m) \<in># flinks w"
      and rcv: "fl_receive ?T os d (fnodes w d) s (length m) m = Some (n, calls)"
      and w': "w' = flood_update nbrs (w\<lparr>flinks := flinks w - {#(s, d, m)#}\<rparr>) d n calls"
    using assms(1) by (auto elim: flood_deliverE)
  have num: "fl_numbered os m" and inv: "stl_inv (seq_map (fnodes w i))" for i using ok p by (auto simp: flood_ok_def)
  from fl_receive_step [OF rcv] consider "n = fnodes w d" "calls = []"
    | src seq cs where "fm_msg_id (os_endianness os) m = Some FLOODING_MESSAGE_ID"
      "fm_seq_nr (os_endianness os) m = Some seq" "fl_accepts (t_find ?T (seq_map (fnodes w d)) src) seq"
      "n = (fnodes w d)\<lparr>seq_map := t_assign ?T (seq_map (fnodes w d)) src seq\<rparr>"
      "calls = Radio_send (BROADCAST_ADDRESS os) (take (length m mod 256) m) # cs" "\<forall>d m. Radio_send d m \<notin> set cs"
    by blast
  then have "flood_ok os w' \<and> (flood_weight ?T w' < flood_weight ?T w \<or>
    flood_weight ?T w' = flood_weight ?T w \<and> size (flinks w') < size (flinks w))"
  proof cases
    case 1
    have "size (flinks w - {#(s, d, m)#}) < size (flinks w)" using p by (rule size_Diff1_less)
    moreover have "fl_numbered os x" if "(a, b, x) \<in># flinks w - {#(s, d, m)#}" for a b x
      using in_diffD [OF that] ok by (auto simp: flood_ok_def)
    ultimately show ?thesis
      using 1 ok by (auto simp: w' flood_update_def flood_packets_def flood_weight_def flood_ok_def)
  next
    case (2 src seq cs)
    have seq: "seq \<noteq> 0" using 2(1,2) num by (auto simp: fl_numbered_def)
    have find: "t_find ?T (seq_map n) = (t_find ?T (seq_map (fnodes w d)))(src \<mapsto> seq)"
      using sm.find_assign [OF inv] by (simp add: 2(4))
    have nodes: "fnodes w' = (fnodes w)(d := n)" by (simp add: w' flood_update_def)
    have "flood_weight ?T w' < flood_weight ?T w"
      unfolding flood_weight_def nodes
    proof (rule sum_less_at [where a = d])
      show "(\<Sum>x \<in> UNIV. fl_weight (t_find ?T (seq_map (((fnodes w)(d := n)) d)) x)) <
          (\<Sum>x \<in> UNIV. fl_weight (t_find ?T (seq_map (fnodes w d)) x))"
        by (rule sum_less_at [where a = src]) (use fl_weight_accepts [OF 2(3) seq] in \<open>auto simp: find\<close>)
    qed simp
    moreover have "flood_ok os w'"
      unfolding flood_ok_def
    proof (intro conjI allI ballI)
      show "stl_inv (seq_map (fnodes w' i))" for i
        using inv sm.inv_assign [OF inv] by (simp add: nodes 2(4))
      fix q assume "q \<in># flinks w'"
      then have "q \<in># flinks w \<or> snd (snd q) = take (length m mod 256) m"
        using flood_packets_accept [OF 2(6)] by (auto simp: w' flood_update_def 2(5) dest: in_diffD)
      then show "case q of (s, d, m) \<Rightarrow> fl_numbered os m"
        using ok num by (auto simp: flood_ok_def fl_numbered_take)
    qed
    ultimately show ?thesis by blast
  qed
  then show "flood_ok os w'" and "flood_weight ?T w' < flood_weight ?T w \<or>
    flood_weight ?T w' = flood_weight ?T w \<and> size (flinks w') < size (flinks w)" by blast+
qed

lemma flood_no_infinite_run:
  assumes "flood_ok os (run 0)"
  shows "\<not> (\<forall>t. flood_deliver stl_table_ops os nbrs (run t) (run (Suc t)))"
proof
  assume steps: "\<forall>t. flood_deliver stl_table_ops os nbrs (run t) (run (Suc t))"
  have ok: "flood_ok os (run t)" for t
    by (induction t) (use assms flood_deliver_decreases(1) steps in blast)+
  let ?r = "measures [flood_weight stl_table_ops, \<lambda>w. size (flinks w)]"
  have "(run (Suc t), run t) \<in> ?r" for t
    using flood_deliver_decreases(2) [OF steps [rule_format] ok, of t] by auto
  then show False using wf_measures wf_iff_no_infinite_down_chain by blast
qed

section \<open>Flooding reaches every node\<close>

text \<open>The state while one message \<open>m\<close> of \<open>orig\<close> is under way and the nodes \<open>A\<close> have accepted it:
  every neighbour of a node that has broadcast the message has it or will get it.\<close>

definition flood_inv :: "('t, u16) table_ops \<Rightarrow> os_model \<Rightarrow> (node_id \<Rightarrow> node_id list) \<Rightarrow> 't flood_net \<Rightarrow> node_id \<Rightarrow> node_id \<Rightarrow>
    u16 \<Rightarrow> bytes \<Rightarrow> node_id set \<Rightarrow> 't flood_net \<Rightarrow> bool" where
  "flood_inv T os nbrs w0 orig dest seq pl A w \<longleftrightarrow> orig \<notin> A \<and>
     (\<forall>i. i \<noteq> orig \<longrightarrow> (if i \<in> A then t_find T (seq_map (fnodes w i)) orig = Some seq else fnodes w i = fnodes w0 i)) \<and>
     (\<forall>(i, j, m) \<in># flinks w. m = fl_packet orig dest seq pl) \<and>
     (\<forall>i \<in> insert orig A. \<forall>j \<in> set (nbrs i). j \<in> insert orig A \<or> (i, j, fl_packet orig dest seq pl) \<in># flinks w) \<and>
     fheard w = fheard w0 + image_mset (\<lambda>i. (i, orig, pl)) (mset_set {i \<in> A. dest = BROADCAST_ADDRESS os \<or> dest = i})"

lemma in_diff_other: "a \<noteq> b \<Longrightarrow> a \<in># M \<Longrightarrow> a \<in># M - {#b#}"
  by (simp add: in_diff_count)

text \<open>Every other node still accepts the number and has room in its table for its source.\<close>

definition flood_fresh :: "('t, u16) table_ops \<Rightarrow> ('t \<Rightarrow> bool) \<Rightarrow> ('t \<Rightarrow> bool) \<Rightarrow> 't flood_net \<Rightarrow> node_id \<Rightarrow> u16 \<Rightarrow> bool" where
  "flood_fresh T ok room w orig seq \<longleftrightarrow> (\<forall>i. i \<noteq> orig \<longrightarrow> ok (seq_map (fnodes w i)) \<and> room (seq_map (fnodes w i)) \<and>
     fl_accepts (t_find T (seq_map (fnodes w i)) orig) seq)"

locale flood_table = routing_table T inv room for T :: "('t, u16) table_ops" and inv room
begin

lemma known_not_accepted: "\<not> fl_accepts (Some seq) seq" for seq :: u16
  by (simp add: not_le)

lemma flood_drop:
  assumes "flood_inv T os nbrs w0 orig dest seq pl A w" and "j \<in> insert orig A \<or> j = i"
    and "fheard w' = fheard w" and "fnodes w' = fnodes w" and "flinks w' = flinks w - {#(i, j, m)#}"
  shows "flood_inv T os nbrs w0 orig dest seq pl A w'"
proof -
  have "(a, b, fl_packet orig dest seq pl) \<in># flinks w'"
    if "(a, b, fl_packet orig dest seq pl) \<in># flinks w" "a \<in> insert orig A" "b \<notin> insert orig A" for a b
  proof -
    have "(a, b, fl_packet orig dest seq pl) \<noteq> (i, j, m)" using that(2,3) assms(2) by auto
    then show ?thesis using that(1) by (auto simp: assms(5) in_diff_other)
  qed
  moreover have "p \<in># flinks w" if "p \<in># flinks w'" for p using that by (simp add: assms(5) in_diffD)
  ultimately show ?thesis using assms(1) unfolding flood_inv_def assms(3,4) by blast
qed

lemma flood_accept:
  assumes fresh: "flood_fresh T inv room w0 orig seq" and inv: "flood_inv T os nbrs w0 orig dest seq pl A w"
    and j: "j \<noteq> orig" "j \<notin> A"
    and w': "w' = flood_update nbrs (w\<lparr>flinks := flinks w - {#(i, j, fl_packet orig dest seq pl)#}\<rparr>) j
      ((fnodes w j)\<lparr>seq_map := t_assign T (seq_map (fnodes w j)) orig seq\<rparr>)
      (Radio_send (BROADCAST_ADDRESS os) (fl_packet orig dest seq pl) #
       (if dest = BROADCAST_ADDRESS os \<or> dest = j then [Notify_receivers orig (length pl) pl] else []))"
  shows "flood_inv T os nbrs w0 orig dest seq pl (insert j A) w'"
proof -
  let ?m = "fl_packet orig dest seq pl"
  have links: "flinks w' = flinks w - {#(i, j, ?m)#} + mset (map (\<lambda>k. (j, k, ?m)) (nbrs j))"
    and nodes: "fnodes w' = (fnodes w)(j := (fnodes w j)\<lparr>seq_map := t_assign T (seq_map (fnodes w j)) orig seq\<rparr>)"
    by (simp_all add: w' flood_update_def flood_packets_def)
  have "fnodes w j = fnodes w0 j" using inv j by (simp add: flood_inv_def)
  then have find: "t_find T (seq_map (fnodes w' j)) orig = Some seq"
    using find_assign fresh j(1) by (simp add: nodes flood_fresh_def)
  have "{k \<in> insert j A. dest = BROADCAST_ADDRESS os \<or> dest = k} =
      (if dest = BROADCAST_ADDRESS os \<or> dest = j then insert j else id) {k \<in> A. dest = BROADCAST_ADDRESS os \<or> dest = k}"
    by auto
  moreover have "fheard w' = (if dest = BROADCAST_ADDRESS os \<or> dest = j then add_mset (j, orig, pl) else id) (fheard w)"
    by (simp add: w' flood_update_def flood_notified_def)
  ultimately have heard: "fheard w' = fheard w0 +
      image_mset (\<lambda>i. (i, orig, pl)) (mset_set {k \<in> insert j A. dest = BROADCAST_ADDRESS os \<or> dest = k})"
    using inv j by (simp add: flood_inv_def)
  have flight: "(a, b, ?m) \<in># flinks w'" if "(a, b, ?m) \<in># flinks w" "b \<noteq> j" for a b
    using that by (simp add: links in_diff_other)
  show ?thesis
    unfolding flood_inv_def
  proof (intro conjI allI impI ballI)
    show "orig \<notin> insert j A" using inv j by (simp add: flood_inv_def)
    show "if k \<in> insert j A then t_find T (seq_map (fnodes w' k)) orig = Some seq else fnodes w' k = fnodes w0 k"
      if "k \<noteq> orig" for k
      using inv find that by (auto simp: flood_inv_def nodes)
    show "case p of (a, b, m) \<Rightarrow> m = ?m" if "p \<in># flinks w'" for p
      using that inv by (auto simp: flood_inv_def links dest!: in_diffD)
    show "b \<in> insert orig (insert j A) \<or> (a, b, ?m) \<in># flinks w'"
      if "a \<in> insert orig (insert j A)" "b \<in> set (nbrs a)" for a b
    proof (cases "a = j")
      case True
      then show ?thesis using that(2) by (simp add: links)
    next
      case False
      then have "b \<in> insert orig A \<or> (a, b, ?m) \<in># flinks w" using that inv by (auto simp: flood_inv_def)
      then show ?thesis using flight by auto
    qed
  qed (rule heard)
qed

lemma flood_step_inv:
  assumes fresh: "flood_fresh T inv room w0 orig seq" and payload: "length pl < 248"
    and inv: "flood_inv T os nbrs w0 orig dest seq pl A w" and p: "(i, j, m) \<in># flinks w"
  shows "\<exists>n calls. fl_receive T os j (fnodes w j) i (length m) m = Some (n, calls) \<and>
    (\<exists>A'. flood_inv T os nbrs w0 orig dest seq pl A' (flood_update nbrs (w\<lparr>flinks := flinks w - {#(i, j, m)#}\<rparr>) j n calls) \<and>
      (A' = A \<and> calls = [] \<or> A \<subset> A'))"
proof -
  have m: "m = fl_packet orig dest seq pl" using inv p by (auto simp: flood_inv_def)
  let ?w = "\<lambda>n calls. flood_update nbrs (w\<lparr>flinks := flinks w - {#(i, j, m)#}\<rparr>) j n calls"
  have keep: "fheard (?w (fnodes w j) []) = fheard w" "fnodes (?w (fnodes w j) []) = fnodes w"
      "flinks (?w (fnodes w j) []) = flinks w - {#(i, j, m)#}"
    by (simp_all add: flood_update_def flood_packets_def flood_notified_def)
  show ?thesis
  proof (cases "j \<in> insert orig A \<or> j = i")
    case True
    have "fl_receive T os j (fnodes w j) i (length m) m = Some (fnodes w j, [])"
    proof (cases "i = j \<or> j = orig")
      case True
      then show ?thesis by (auto simp: m fl_receive_def Let_def fl_packet_def fm_defs put_simps)
    next
      case False
      then have "t_find T (seq_map (fnodes w j)) orig = Some seq" using True inv by (auto simp: flood_inv_def)
      then show ?thesis
        using fl_receive_packet [of i j orig pl T os "fnodes w j" dest seq] False known_not_accepted payload
        by (auto simp: m simp del: fl_accepts.simps)
    qed
    then show ?thesis using flood_drop [OF inv True keep] by blast
  next
    case False
    then have "fnodes w j = fnodes w0 j" using inv by (simp add: flood_inv_def)
    then have "fl_accepts (t_find T (seq_map (fnodes w j)) orig) seq" using False fresh by (simp add: flood_fresh_def)
    then have "fl_receive T os j (fnodes w j) i (length m) m = Some
      ((fnodes w j)\<lparr>seq_map := t_assign T (seq_map (fnodes w j)) orig seq\<rparr>,
       Radio_send (BROADCAST_ADDRESS os) m #
       (if dest = BROADCAST_ADDRESS os \<or> dest = j then [Notify_receivers orig (length pl) pl] else []))"
      using fl_receive_packet [of i j orig pl T os "fnodes w j" dest seq] False payload by (auto simp: m)
    moreover have "j \<noteq> orig" "j \<notin> A" using False by auto
    ultimately show ?thesis using flood_accept [OF fresh inv _ _ refl, of j i] unfolding m by blast
  qed
qed

lemma flood_run_inv:
  assumes "flood_fresh T inv room w0 orig seq" and "length pl < 248"
    and "(flood_deliver T os nbrs)\<^sup>*\<^sup>* w w'" and "flood_inv T os nbrs w0 orig dest seq pl A w"
  shows "\<exists>A'. flood_inv T os nbrs w0 orig dest seq pl A' w'"
  using assms(3)
proof (induction rule: rtranclp_induct)
  case (step x y)
  then obtain B where B: "flood_inv T os nbrs w0 orig dest seq pl B x" by blast
  from step.hyps(2) show ?case
  proof (cases rule: flood_deliver.cases)
    case (Deliver s d m n calls)
    then show ?thesis using flood_step_inv [OF assms(1,2) B Deliver(2)] by auto
  qed
qed (use assms(4) in blast)

text \<open>A delivery keeps the invariant; it lets a further node accept the message or takes a packet off the links.\<close>

lemma flood_deliver_inv:
  assumes "flood_fresh T inv room w0 orig seq" and "length pl < 248"
    and "flood_inv T os nbrs w0 orig dest seq pl A w" and "flood_deliver T os nbrs w w'"
  shows "\<exists>A'. flood_inv T os nbrs w0 orig dest seq pl A' w' \<and>
    (card (- A') < card (- A) \<or> A' = A \<and> size (flinks w') < size (flinks w))"
  using assms(4)
proof (cases rule: flood_deliver.cases)
  case (Deliver s d m n calls)
  obtain A' where A': "flood_inv T os nbrs w0 orig dest seq pl A' w'" "A' = A \<and> calls = [] \<or> A \<subset> A'"
    using flood_step_inv [OF assms(1-3) Deliver(2)] Deliver(1,3) by auto
  have "size (flinks w') < size (flinks w)" if "calls = []"
    using Deliver(1,2) that by (simp add: flood_update_def flood_packets_def size_Diff1_less)
  moreover have "card (- A') < card (- A)" if "A \<subset> A'" using that by (intro psubset_card_mono) auto
  ultimately show ?thesis using A' by blast
qed

lemma flood_no_endless_run:
  assumes "flood_fresh T inv room w0 orig seq" and "length pl < 248"
  shows "flood_inv T os nbrs w0 orig dest seq pl A w \<Longrightarrow> run 0 = w \<Longrightarrow>
    \<exists>t. \<not> flood_deliver T os nbrs (run t) (run (Suc t))"
proof (induction "(A, w)" arbitrary: A w run rule: wf_induct_rule
    [OF wf_measures [of "[\<lambda>(A, w). card (- A), \<lambda>(A, w). size (flinks w)]"]])
  case (1 A w)
  show ?case
  proof (cases "flood_deliver T os nbrs w (run (Suc 0))")
    case True
    then obtain A' where A': "flood_inv T os nbrs w0 orig dest seq pl A' (run (Suc 0))"
        "card (- A') < card (- A) \<or> A' = A \<and> size (flinks (run (Suc 0))) < size (flinks w)"
      using flood_deliver_inv [OF assms 1(2)] by blast
    then show ?thesis using 1(1) [OF _ A'(1), of "\<lambda>t. run (Suc t)"] by auto
  qed (use 1(3) in auto)
qed

lemma flood_progress:
  assumes "flood_fresh T inv room w0 orig seq" and "length pl < 248"
    and "flood_inv T os nbrs w0 orig dest seq pl A w" and "flinks w \<noteq> {#}"
  shows "\<exists>w'. flood_deliver T os nbrs w w'"
proof -
  obtain i j m where p: "(i, j, m) \<in># flinks w" using assms(4) by (metis multiset_nonemptyE prod_cases3)
  then show ?thesis using flood_step_inv [OF assms(1-3) p] flood_deliver.Deliver [OF p] by blast
qed

lemma flood_settled:
  assumes "flood_inv T os nbrs w0 orig dest seq pl A w" and "flinks w = {#}"
    and "(orig, d) \<in> {(i, j). j \<in> set (nbrs i)}\<^sup>*" and "d \<noteq> orig"
  shows "d \<in> A" and "count (fheard w) (d, orig, pl) =
    count (fheard w0) (d, orig, pl) + (if dest = BROADCAST_ADDRESS os \<or> dest = d then 1 else 0)"
proof -
  have "d \<in> insert orig A"
    using assms(3)
    by (induction rule: rtrancl_induct) (use assms(1,2) in \<open>auto simp: flood_inv_def\<close>)
  then show "d \<in> A" using assms(4) by simp
  have "count (image_mset (\<lambda>i. (i, orig, pl)) M) (d, orig, pl) = count M d" for M :: "node_id multiset"
    by (induction M) auto
  then show "count (fheard w) (d, orig, pl) =
    count (fheard w0) (d, orig, pl) + (if dest = BROADCAST_ADDRESS os \<or> dest = d then 1 else 0)"
    using assms(1) \<open>d \<in> A\<close> by (simp add: flood_inv_def count_mset_set)
qed

lemma flood_originated:
  assumes "flinks w = {#}"
  shows "flood_inv T os nbrs w orig dest seq pl {}
    (flood_update nbrs w orig n [Radio_send (BROADCAST_ADDRESS os) (fl_packet orig dest seq pl)])"
  using assms by (auto simp: flood_inv_def flood_update_def flood_packets_def flood_notified_def)

end

interpretation sf: flood_table "array_table_ops d :: (u16 array_table, u16) table_ops" rt_inv rt_room for d
  by unfold_locales

section \<open>Properties\<close>

text \<open>C8: While the messages under way carry numbers other than 0, flooding comes to an end: with a
  map that has room for every source there is no endless sequence of deliveries, whatever the
  network, the number of messages and the order of delivery.\<close>

theorem flooding_terminates:
  assumes "\<And>i. stl_inv (seq_map (fnodes w i))" and "\<And>s d m. (s, d, m) \<in># flinks w \<Longrightarrow> fl_numbered os m"
  shows "\<nexists>run. run 0 = w \<and> (\<forall>t. flood_deliver stl_table_ops os nbrs (run t) (run (Suc t)))"
proof -
  have "flood_ok os w" using assms by (auto simp: flood_ok_def)
  then show ?thesis using flood_no_infinite_run by blast
qed

text \<open>The example network: the nodes 1, 2 and 3 in a line.\<close>

definition demo_line :: "node_id \<Rightarrow> node_id list" where
  "demo_line i = (if i = 1 then [2] else if i = 2 then [1, 3] else if i = 3 then [2] else [])"

definition demo_flood :: "u16 \<Rightarrow> u16 stl_table \<Rightarrow> u16 stl_table \<Rightarrow> (node_id \<times> node_id \<times> bytes) multiset \<Rightarrow>
    (node_id \<times> node_id \<times> bytes) multiset \<Rightarrow> u16 stl_table flood_net" where
  "demo_flood q v2 v3 L H = \<lparr>fnodes = (\<lambda>i. fl_new [])(1 := (fl_new [])\<lparr>fl_seq_nr := q\<rparr>,
     2 := (fl_new [])\<lparr>seq_map := v2\<rparr>, 3 := (fl_new [])\<lparr>seq_map := v3\<rparr>), flinks = L, fheard = H\<rparr>"

definition demo_message :: "u16 \<Rightarrow> bytes" where
  "demo_message s = fl_packet 1 0xffff s [ucast s]"

lemma flooding_terminates_witness:
  "\<nexists>run. run 0 = demo_flood 2 [] [] {#(1, 2, demo_message 1)#} {#} \<and>
    (\<forall>t. flood_deliver stl_table_ops demo_os demo_line (run t) (run (Suc t)))"
  by (rule flooding_terminates)
    (auto simp: demo_flood_def fl_new_def stl_inv_def fl_numbered_def fm_defs put_simps fl_packet_def demo_message_def)

text \<open>C7: A node sends a message with a payload of less than 248 bytes into a silent network, whose other nodes all have
  room for its source in their tables of numbers and still accept its number. Then every order of deliveries comes to an
  end: there is no endless one, and as long as a packet is under way a delivery is possible. Whenever nothing is
  under way any more, the receivers of every node that can be reached have got the payload exactly once, if it was for
  them.\<close>

theorem flooding_reaches_all:
  assumes "flood_fresh (array_table_ops dflt) rt_inv rt_room w orig (fl_seq_nr (fnodes w orig))"
    and "flinks w = {#}" and "8 + unat len \<le> length junk" and "unat len \<le> length data" and "8 + unat len < 256"
  shows "\<exists>n calls. fl_send os orig junk (fnodes w orig) dest len data = Some (n, calls, SUCCESS) \<and>
    (\<nexists>run. run 0 = flood_update nbrs w orig n calls \<and>
      (\<forall>t. flood_deliver (array_table_ops dflt) os nbrs (run t) (run (Suc t)))) \<and>
    (\<forall>w'. (flood_deliver (array_table_ops dflt) os nbrs)\<^sup>*\<^sup>* (flood_update nbrs w orig n calls) w' \<longrightarrow> flinks w' \<noteq> {#} \<longrightarrow>
      (\<exists>w''. flood_deliver (array_table_ops dflt) os nbrs w' w'')) \<and>
    (\<forall>w' d. (flood_deliver (array_table_ops dflt) os nbrs)\<^sup>*\<^sup>* (flood_update nbrs w orig n calls) w' \<longrightarrow> flinks w' = {#} \<longrightarrow>
      (orig, d) \<in> {(i, j). j \<in> set (nbrs i)}\<^sup>* \<longrightarrow> d \<noteq> orig \<longrightarrow>
      count (fheard w') (d, orig, take (unat len) data) = count (fheard w) (d, orig, take (unat len) data) +
        (if dest = BROADCAST_ADDRESS os \<or> dest = d then 1 else 0))"
proof -
  let ?pl = "take (unat len) data" and ?n = "(fnodes w orig)\<lparr>fl_seq_nr := fl_seq_nr (fnodes w orig) + 1\<rparr>"
  let ?D = "flood_deliver (array_table_ops dflt) os nbrs"
  let ?calls = "[Radio_send (BROADCAST_ADDRESS os) (fl_packet orig dest (fl_seq_nr (fnodes w orig)) ?pl)]"
  let ?w = "flood_update nbrs w orig ?n ?calls"
  have pl: "length ?pl < 248" using assms(5) by simp
  note start = sf.flood_originated [OF assms(2), of dflt os nbrs orig dest "fl_seq_nr (fnodes w orig)" ?pl ?n]
  have "\<nexists>run. run 0 = ?w \<and> (\<forall>t. ?D (run t) (run (Suc t)))"
    using sf.flood_no_endless_run [OF assms(1) pl start] by blast
  moreover have "\<exists>w''. ?D w' w''" if "?D\<^sup>*\<^sup>* ?w w'" "flinks w' \<noteq> {#}" for w'
    using sf.flood_run_inv [OF assms(1) pl that(1) start] sf.flood_progress [OF assms(1) pl _ that(2)] by blast
  moreover have "count (fheard w') (d, orig, ?pl) = count (fheard w) (d, orig, ?pl) +
      (if dest = BROADCAST_ADDRESS os \<or> dest = d then 1 else 0)"
    if "?D\<^sup>*\<^sup>* ?w w'" "flinks w' = {#}" "(orig, d) \<in> {(i, j). j \<in> set (nbrs i)}\<^sup>*" "d \<noteq> orig" for w' d
    using sf.flood_run_inv [OF assms(1) pl that(1) start] sf.flood_settled(2) [OF _ that(2,3,4)] by blast
  ultimately show ?thesis using fl_send_eq [OF assms(3,4,5), of os orig "fnodes w orig" dest]
    by (intro exI [of _ ?n] exI [of _ ?calls]) blast
qed

definition demo_flood_array :: "u16 array_table flood_net" where
  "demo_flood_array = \<lparr>fnodes = (\<lambda>_. fl_new \<lparr>vec = replicate 4 (Mk_pair 0 0), finish = 0, dummy = 0\<rparr>),
     flinks = {#}, fheard = {#}\<rparr>"

lemma flooding_reaches_all_witness:
  "\<exists>n calls. fl_send demo_os 1 (replicate 116 0) (fnodes demo_flood_array 1) 3 2 [42, 43] = Some (n, calls, SUCCESS) \<and>
    (\<nexists>run. run 0 = flood_update demo_line demo_flood_array 1 n calls \<and>
      (\<forall>t. flood_deliver (array_table_ops 0) demo_os demo_line (run t) (run (Suc t)))) \<and>
    (\<forall>w'. (flood_deliver (array_table_ops 0) demo_os demo_line)\<^sup>*\<^sup>* (flood_update demo_line demo_flood_array 1 n calls) w' \<longrightarrow>
      flinks w' = {#} \<longrightarrow> count (fheard w') (3, 1, [42, 43]) = 1 \<and> count (fheard w') (2, 1, [42, 43]) = 0)"
proof -
  have fresh: "flood_fresh (array_table_ops 0) rt_inv rt_room demo_flood_array 1 (fl_seq_nr (fnodes demo_flood_array 1))"
    by (simp add: flood_fresh_def demo_flood_array_def fl_new_def array_table_ops_def rt_lookup_def rt_find_def
        rt_find_from.simps vs_begin_def vs_end_def rt_inv_def vs_inv_def elems_def rt_room_def vs_size_def vs_max_size_def)
  have two: "(1, 2) \<in> {(i, j). j \<in> set (demo_line i)}\<^sup>*" by (rule r_into_rtrancl) (simp add: demo_line_def)
  then have three: "(1, 3) \<in> {(i, j). j \<in> set (demo_line i)}\<^sup>*"
    by (rule rtrancl_into_rtrancl) (simp add: demo_line_def)
  have heard: "count (fheard demo_flood_array) x = 0" for x by (simp add: demo_flood_array_def)
  have bc: "BROADCAST_ADDRESS demo_os = 0xffff" by (simp add: demo_os_def)
  have len: "unat (2 :: u8) = 2" "take 2 [42, 43 :: u8] = [42, 43]" by simp_all
  have "flinks demo_flood_array = {#}" "8 + unat (2 :: u8) \<le> length (replicate 116 (0 :: u8))"
      "unat (2 :: u8) \<le> length [42, 43 :: u8]" "8 + unat (2 :: u8) < 256"
    by (simp_all add: demo_flood_array_def len)
  note F = flooding_reaches_all [OF fresh this, of demo_os 3 demo_line, unfolded len heard bc]
  then obtain n calls where run: "fl_send demo_os 1 (replicate 116 0) (fnodes demo_flood_array 1) 3 2 [42, 43] = Some (n, calls, SUCCESS)"
      "\<nexists>run. run 0 = flood_update demo_line demo_flood_array 1 n calls \<and>
        (\<forall>t. flood_deliver (array_table_ops 0) demo_os demo_line (run t) (run (Suc t)))"
      "\<forall>w' d. (flood_deliver (array_table_ops 0) demo_os demo_line)\<^sup>*\<^sup>* (flood_update demo_line demo_flood_array 1 n calls) w' \<longrightarrow>
        flinks w' = {#} \<longrightarrow> (1, d) \<in> {(i, j). j \<in> set (demo_line i)}\<^sup>* \<longrightarrow> d \<noteq> 1 \<longrightarrow>
        count (fheard w') (d, 1, [42, 43]) = 0 + (if 3 = (0xffff :: node_id) \<or> 3 = d then 1 else 0)"
    by (elim exE conjE) (rule that)
  have "count (fheard w') (3, 1, [42, 43]) = 1 \<and> count (fheard w') (2, 1, [42, 43]) = 0"
    if "(flood_deliver (array_table_ops 0) demo_os demo_line)\<^sup>*\<^sup>* (flood_update demo_line demo_flood_array 1 n calls) w'"
      "flinks w' = {#}" for w'
    using run(3) [rule_format, OF that three] run(3) [rule_format, OF that two] by simp
  then show ?thesis using run(1,2) by blast
qed

text \<open>One bounce: a message reaches node 2 from node 1 or 3, both 2 and 3 accept it, and it is under way
  back from 3 to 2.\<close>

lemma demo_bounce:
  assumes "a = 1 \<or> a = 3" and "fl_accepts (assoc v2 1) s" and "fl_accepts (assoc v3 1) s"
  shows "(flood_deliver stl_table_ops demo_os demo_line)\<^sup>+\<^sup>+ (demo_flood q v2 v3 (add_mset (a, 2, demo_message s) L) H)
    (demo_flood q (stl_assign v2 1 s) (stl_assign v3 1 s) (add_mset (3, 2, demo_message s) L)
      (add_mset (2, 1, [ucast s]) (add_mset (3, 1, [ucast s]) H)))"
proof -
  let ?T = "stl_table_ops :: (u16 stl_table, u16) table_ops" and ?m = "fl_packet 1 0xffff s [ucast s]"
  let ?D = "flood_deliver ?T demo_os demo_line"
  let ?w = "demo_flood q v2 v3 (add_mset (a, 2, ?m) L) H"
  let ?w1 = "demo_flood q (stl_assign v2 1 s) v3 (add_mset (2, 1, ?m) (add_mset (2, 3, ?m) L)) (add_mset (2, 1, [ucast s]) H)"
  let ?w2 = "demo_flood q (stl_assign v2 1 s) v3 (add_mset (2, 3, ?m) L) (add_mset (2, 1, [ucast s]) H)"
  let ?w3 = "demo_flood q (stl_assign v2 1 s) (stl_assign v3 1 s) (add_mset (3, 2, ?m) L)
      (add_mset (2, 1, [ucast s]) (add_mset (3, 1, [ucast s]) H))"
  note rcv = fl_receive_packet [where pl = "[ucast s]" and T = ?T and os = demo_os and seq = s and dest = "0xffff" and src = 1, simplified]
  have T: "t_find ?T = assoc" "t_assign ?T = stl_assign" "BROADCAST_ADDRESS demo_os = 0xffff"
    by (simp_all add: stl_table_ops_def demo_os_def)
  note demo = demo_flood_def demo_os_def fl_new_def stl_table_ops_def
  note update = flood_update_def flood_packets_def flood_notified_def demo_line_def
  have one: "?D ?w ?w1"
  proof -
    have "fl_receive ?T demo_os 2 (fnodes ?w 2) a (length ?m) ?m = Some ((fnodes ?w 2)\<lparr>seq_map := stl_assign v2 1 s\<rparr>,
        [Radio_send 0xffff ?m, Notify_receivers 1 1 [ucast s]])"
      using assms(1,2) by (auto simp: rcv T demo_flood_def fl_new_def)
    then show ?thesis
      by (rule flood_deliverI [rotated]) (auto simp: demo update fun_eq_iff)
  qed
  have two: "?D ?w1 ?w2"
  proof -
    have "fl_receive ?T demo_os 1 (fnodes ?w1 1) 2 (length ?m) ?m = Some (fnodes ?w1 1, [])"
      by (simp add: fl_receive_def Let_def fl_packet_def fm_defs put_simps)
    then show ?thesis
      by (rule flood_deliverI [rotated]) (auto simp: demo update fun_eq_iff)
  qed
  have three: "?D ?w2 ?w3"
  proof -
    have "fl_receive ?T demo_os 3 (fnodes ?w2 3) 2 (length ?m) ?m = Some ((fnodes ?w2 3)\<lparr>seq_map := stl_assign v3 1 s\<rparr>,
        [Radio_send 0xffff ?m, Notify_receivers 1 1 [ucast s]])"
      using assms(3) by (auto simp: rcv T demo_flood_def fl_new_def)
    then show ?thesis
      by (rule flood_deliverI [rotated]) (auto simp: demo update fun_eq_iff)
  qed
  show ?thesis unfolding demo_message_def using one two three by (meson tranclp.r_into_trancl tranclp.trancl_into_trancl)
qed

text \<open>What the receivers hear in a bounce, and how node 1 sends message \<open>q\<close>.\<close>

abbreviation demo_heard :: "u16 \<Rightarrow> (node_id \<times> node_id \<times> bytes) multiset \<Rightarrow> (node_id \<times> node_id \<times> bytes) multiset" where
  "demo_heard s H \<equiv> add_mset (2, 1, [ucast s]) (add_mset (3, 1, [ucast s]) H)"

lemma demo_originate:
  "flood_originate demo_os demo_line (demo_flood q v2 v3 L H) (demo_flood (q + 1) v2 v3 (add_mset (1, 2, demo_message q) L) H)"
proof -
  let ?w = "demo_flood q v2 v3 L H"
  have "fl_send demo_os 1 (replicate 116 0) (fnodes ?w 1) 0xffff 1 [ucast q] =
      Some ((fnodes ?w 1)\<lparr>fl_seq_nr := q + 1\<rparr>, [Radio_send 0xffff (fl_packet 1 0xffff q [ucast q])], SUCCESS)"
    by (simp add: fl_send_eq demo_os_def demo_flood_def fl_new_def)
  then have "flood_originate demo_os demo_line ?w (flood_update demo_line ?w 1 ((fnodes ?w 1)\<lparr>fl_seq_nr := q + 1\<rparr>)
      [Radio_send 0xffff (fl_packet 1 0xffff q [ucast q])])" by (rule flood_originate.Send)
  moreover have "flood_update demo_line ?w 1 ((fnodes ?w 1)\<lparr>fl_seq_nr := q + 1\<rparr>) [Radio_send 0xffff (fl_packet 1 0xffff q [ucast q])] =
      demo_flood (q + 1) v2 v3 (add_mset (1, 2, fl_packet 1 0xffff q [ucast q]) L) H"
    by (auto simp: demo_flood_def fl_new_def flood_update_def flood_packets_def flood_notified_def demo_line_def fun_eq_iff)
  ultimately show ?thesis by (simp add: demo_message_def)
qed

definition flood_step :: "u16 stl_table flood_net \<Rightarrow> u16 stl_table flood_net \<Rightarrow> bool" where
  "flood_step w w' \<longleftrightarrow> flood_originate demo_os demo_line w w' \<or> flood_deliver stl_table_ops demo_os demo_line w w'"

lemma demo_bounce_steps:
  "a = 1 \<or> a = 3 \<Longrightarrow> fl_accepts (assoc v2 1) s \<Longrightarrow> fl_accepts (assoc v3 1) s \<Longrightarrow>
    flood_step\<^sup>*\<^sup>* (demo_flood q v2 v3 (add_mset (a, 2, demo_message s) L) H)
      (demo_flood q (stl_assign v2 1 s) (stl_assign v3 1 s) (add_mset (3, 2, demo_message s) L) (demo_heard s H))"
  using demo_bounce [of a v2 s v3 q L H] mono_rtranclp [of "flood_deliver stl_table_ops demo_os demo_line" flood_step]
  by (auto simp: flood_step_def dest!: tranclp_into_rtranclp)

lemma demo_send_steps:
  assumes "fl_accepts (assoc v2 1) q" and "fl_accepts (assoc v3 1) q"
  shows "flood_step\<^sup>*\<^sup>* (demo_flood q v2 v3 L H)
    (demo_flood (q + 1) (stl_assign v2 1 q) (stl_assign v3 1 q) (add_mset (3, 2, demo_message q) L) (demo_heard q H))"
proof -
  have "flood_step (demo_flood q v2 v3 L H) (demo_flood (q + 1) v2 v3 (add_mset (1, 2, demo_message q) L) H)"
    using demo_originate by (simp add: flood_step_def)
  then show ?thesis using demo_bounce_steps [OF _ assms, of 1] by (simp add: converse_rtranclp_into_rtranclp)
qed

definition demo_storm :: "(node_id \<times> node_id \<times> bytes) multiset \<Rightarrow> u16 stl_table flood_net" where
  "demo_storm H = demo_flood 3 [Mk_pair 1 2] [Mk_pair 1 2]
     {#(3, 2, demo_message 0), (3, 2, demo_message 1), (3, 2, demo_message 2)#} H"

lemma demo_storm_reachable: "\<exists>H. flood_step\<^sup>*\<^sup>* (demo_flood 0 [] [] {#} {#}) (demo_storm H)"
proof -
  let ?H1 = "demo_heard 0 {#}"
  let ?H2 = "demo_heard 1 ?H1"
  let ?w1 = "demo_flood 1 [Mk_pair 1 0] [Mk_pair 1 0] {#(3, 2, demo_message 0)#} ?H1"
  let ?w2 = "demo_flood 2 [Mk_pair 1 1] [Mk_pair 1 1] {#(3, 2, demo_message 1), (3, 2, demo_message 0)#} ?H2"
  have "flood_step\<^sup>*\<^sup>* (demo_flood 0 [] [] {#} {#}) ?w1" using demo_send_steps [of "[]" 0 "[]" "{#}" "{#}"] by simp
  moreover have "flood_step\<^sup>*\<^sup>* ?w1 ?w2"
    using demo_send_steps [of "[Mk_pair 1 0]" 1 "[Mk_pair 1 0]" "{#(3, 2, demo_message 0)#}" ?H1] by simp
  moreover have "flood_step\<^sup>*\<^sup>* ?w2 (demo_storm (demo_heard 2 ?H2))"
    using demo_send_steps [of "[Mk_pair 1 1]" 2 "[Mk_pair 1 1]" "{#(3, 2, demo_message 1), (3, 2, demo_message 0)#}" ?H2]
    by (simp add: demo_storm_def add_mset_commute)
  ultimately show ?thesis by (meson rtranclp_trans)
qed

lemma demo_storm_again:
  "(flood_deliver stl_table_ops demo_os demo_line)\<^sup>+\<^sup>+ (demo_storm H) (demo_storm (demo_heard 2 (demo_heard 1 (demo_heard 0 H))))"
proof -
  let ?D = "flood_deliver stl_table_ops demo_os demo_line"
  let ?M0 = "(3, 2, demo_message 0)" and ?M1 = "(3, 2, demo_message 1)" and ?M2 = "(3, 2, demo_message 2)"
  let ?w1 = "demo_flood 3 [Mk_pair 1 0] [Mk_pair 1 0] {#?M0, ?M1, ?M2#} (demo_heard 0 H)"
  let ?w2 = "demo_flood 3 [Mk_pair 1 1] [Mk_pair 1 1] {#?M1, ?M0, ?M2#} (demo_heard 1 (demo_heard 0 H))"
  have "?D\<^sup>+\<^sup>+ (demo_storm H) ?w1"
    using demo_bounce [of 3 "[Mk_pair 1 2]" 0 "[Mk_pair 1 2]" 3 "{#?M1, ?M2#}" H] by (simp add: demo_storm_def)
  moreover have "?D\<^sup>+\<^sup>+ ?w1 ?w2"
    using demo_bounce [of 3 "[Mk_pair 1 0]" 1 "[Mk_pair 1 0]" 3 "{#?M0, ?M2#}" "demo_heard 0 H"]
    by (simp add: add_mset_commute [of ?M0 ?M1])
  moreover have "?D\<^sup>+\<^sup>+ ?w2 (demo_storm (demo_heard 2 (demo_heard 1 (demo_heard 0 H))))"
    using demo_bounce [of 3 "[Mk_pair 1 1]" 2 "[Mk_pair 1 1]" 3 "{#?M1, ?M0#}" "demo_heard 1 (demo_heard 0 H)"]
    by (simp add: demo_storm_def add_mset_commute)
  ultimately show ?thesis by (meson tranclp_trans)
qed

text \<open>The number 0 can make three messages circle for ever without a loss and without a copy
  made by the radio: in a line of three freshly started nodes, node 1 sends three messages, and when
  the copies that node 3 sends back to node 2 are late, a sequence of deliveries leads to the same
  network state again, in which all three messages have been delivered once more.\<close>

theorem flooding_storm:
  "\<exists>w w'. flood_step\<^sup>*\<^sup>* (demo_flood 0 [] [] {#} {#}) w \<and>
    (flood_deliver stl_table_ops demo_os demo_line)\<^sup>+\<^sup>+ w w' \<and> fnodes w' = fnodes w \<and> flinks w' = flinks w \<and>
    fheard w' = fheard w + {#(i, 1, [s]). (i, s) \<in># {#(2, 0), (3, 0), (2, 1), (3, 1), (2, 2), (3, 2)#}#}"
proof -
  obtain H where H: "flood_step\<^sup>*\<^sup>* (demo_flood 0 [] [] {#} {#}) (demo_storm H)" using demo_storm_reachable by blast
  let ?w' = "demo_storm (demo_heard 2 (demo_heard 1 (demo_heard 0 H)))"
  have "fnodes ?w' = fnodes (demo_storm H)" "flinks ?w' = flinks (demo_storm H)"
      "fheard ?w' = fheard (demo_storm H) + {#(i, 1, [s]). (i, s) \<in># {#(2, 0), (3, 0), (2, 1), (3, 1), (2, 2), (3, 2)#}#}"
    by (simp_all add: demo_storm_def demo_flood_def)
  then show ?thesis using H demo_storm_again by blast
qed

end
