(* ===== verification/Pstl_Order.thy ===== *)
theory Pstl_Order
  imports Wl_Prelude Wl_Pair "HOL-Library.Multiset"
begin

text \<open>
  What the algorithms of pSTL ask of a comparison: a strict weak order. The locale has the sorting
  notions the sorting and searching algorithms are specified with; it is interpreted on
  \<^verbatim>\<open>operator<\<close> of a linear order, of the pSTL pair, and on a comparison of keys.
\<close>

locale strict_weak_order =
  fixes less :: "'a \<Rightarrow> 'a \<Rightarrow> bool"
  assumes irrefl: "\<not> less x x"
    and trans: "less x y \<Longrightarrow> less y z \<Longrightarrow> less x z"
    and incomparable: "\<not> less x y \<Longrightarrow> \<not> less y z \<Longrightarrow> \<not> less x z"
begin

lemma asym: "less x y \<Longrightarrow> \<not> less y x"
  using irrefl trans by blast

lemma not_less_trans: "\<not> less x y \<Longrightarrow> \<not> less y z \<Longrightarrow> \<not> less x z"
  by (rule incomparable)

lemma less_le_trans: "less x y \<Longrightarrow> \<not> less z y \<Longrightarrow> less x z"
  using incomparable by blast

lemma le_less_trans: "\<not> less y x \<Longrightarrow> less y z \<Longrightarrow> less x z"
  using incomparable by blast

text \<open>Sorted: no element is less than an earlier one.\<close>

lemma sorted_snoc:
  "sorted_wrt (\<lambda>x y. \<not> less y x) (xs @ [y]) \<longleftrightarrow>
     sorted_wrt (\<lambda>x y. \<not> less y x) xs \<and> (\<forall>x \<in> set xs. \<not> less y x)"
  by (auto simp: sorted_wrt_append)

lemma sorted_nth:
  "sorted_wrt (\<lambda>x y. \<not> less y x) xs \<Longrightarrow> i \<le> j \<Longrightarrow> j < length xs \<Longrightarrow> \<not> less (xs ! j) (xs ! i)"
  by (cases "i = j") (auto simp: sorted_wrt_iff_nth_less irrefl)

end

interpretation less_order: strict_weak_order "(<) :: 'a::linorder \<Rightarrow> 'a \<Rightarrow> bool"
  by unfold_locales auto

text \<open>\<^verbatim>\<open>operator<\<close> of \<^verbatim>\<open>pair\<close> is a strict weak order when the components'
  operators are.\<close>

lemma pair_strict_weak_order:
  assumes "strict_weak_order A" and "strict_weak_order B"
  shows "strict_weak_order (pair_less A B)"
proof
  note a = strict_weak_order.irrefl [OF assms(1)] strict_weak_order.trans [OF assms(1)]
    strict_weak_order.incomparable [OF assms(1)]
  note b = strict_weak_order.irrefl [OF assms(2)] strict_weak_order.trans [OF assms(2)]
    strict_weak_order.incomparable [OF assms(2)]
  show "\<not> pair_less A B x x" for x
    using a(1) b(1) by (simp add: pair_less_def)
  show "pair_less A B x z" if "pair_less A B x y" "pair_less A B y z" for x y z
    using that a b unfolding pair_less_def by meson
  show "\<not> pair_less A B x z" if "\<not> pair_less A B x y" "\<not> pair_less A B y z" for x y z
    using that a b unfolding pair_less_def by meson
qed

interpretation pair_order: strict_weak_order "pair_less (<) (<) :: ('a::linorder, 'b::linorder) pair \<Rightarrow> ('a, 'b) pair \<Rightarrow> bool"
  by (intro pair_strict_weak_order less_order.strict_weak_order_axioms)

interpretation key_order: strict_weak_order "\<lambda>x y. key x < key y" for key :: "'a \<Rightarrow> 'k::linorder"
  by unfold_locales auto

lemma sorted_wrt_not_greater: "sorted_wrt (\<lambda>x y. \<not> y < x) xs \<longleftrightarrow> sorted xs" for xs :: "'a::linorder list"
  by (simp add: not_less)

end
