(* ===== verification/Pstl_Search.thy ===== *)
theory Pstl_Search
  imports Pstl_Order
begin

text \<open>
  \<^verbatim>\<open>wiselib.testing/util/pstl/algorithm.h\<close>, the algorithms that do not modify: all
  iterators point into one memory \<open>m\<close>, a list, and are indices of it; two ranges of different
  containers are two parts of \<open>m\<close>. The overload without a predicate or comparison is the same
  text with \<^verbatim>\<open>==\<close> or \<^verbatim>\<open><\<close>, so it is the instance of the other at
  \<open>(=)\<close> or \<open>(<)\<close>. \<^const>\<open>None\<close> is a dereference outside the memory or a function
  that returns no value. \<open>seg\<close> is the list of elements of a range.
\<close>

definition seg :: "'a list \<Rightarrow> nat \<Rightarrow> nat \<Rightarrow> 'a list" where
  "seg m f l = take (l - f) (drop f m)"

lemma seg_empty [simp]: "seg m f f = []"
  by (simp add: seg_def)

lemma seg_length [simp]: "l \<le> length m \<Longrightarrow> length (seg m f l) = l - f"
  by (simp add: seg_def)

lemma seg_nth: "i < l - f \<Longrightarrow> l \<le> length m \<Longrightarrow> seg m f l ! i = m ! (f + i)"
  by (simp add: seg_def)

lemma seg_Cons: "f < l \<Longrightarrow> l \<le> length m \<Longrightarrow> seg m f l = m ! f # seg m (Suc f) l"
  by (simp add: seg_def) (metis Cons_nth_drop_Suc Suc_diff_Suc less_le_trans take_Suc_Cons)

lemma seg_snoc: "f \<le> l \<Longrightarrow> l < length m \<Longrightarrow> seg m f (Suc l) = seg m f l @ [m ! l]"
  by (simp add: seg_def Suc_diff_le take_Suc_conv_app_nth)

lemma seg_append:
  assumes "f \<le> k" and "k \<le> l"
  shows "seg m f l = seg m f k @ seg m k l"
proof -
  have "l - f = (k - f) + (l - k)" "(k - f) + f = k" using assms by simp_all
  then show ?thesis by (simp only: seg_def take_add drop_drop)
qed

lemma seg_update_outside [simp]:
  assumes "i < f \<or> l \<le> i"
  shows "seg (m[i := v]) f l = seg m f l"
proof (cases "i < f")
  case True
  then show ?thesis by (simp add: seg_def)
next
  case False
  then have "drop f (m[i := v]) = (drop f m)[i - f := v]" "l - f \<le> i - f"
    using assms by (simp_all add: drop_update_swap)
  then show ?thesis by (simp add: seg_def)
qed

section \<open>Non-modifying operations\<close>

text \<open>The function object is a state that every call changes.\<close>

function alg_for_each :: "('s \<Rightarrow> 'a \<Rightarrow> 's) \<Rightarrow> 'a list \<Rightarrow> nat \<Rightarrow> nat \<Rightarrow> 's \<Rightarrow> 's option" where
  "alg_for_each call m f l s =
     (if f \<noteq> l then do { x \<leftarrow> rd m f; alg_for_each call m (Suc f) l (call s x) } else Some s)"
  by pat_completeness auto
termination by (relation "measure (\<lambda>(call, m, f, l, s). length m - f)") (auto simp: mem_simps)

function alg_find_if :: "('a \<Rightarrow> bool) \<Rightarrow> 'a list \<Rightarrow> nat \<Rightarrow> nat \<Rightarrow> nat option" where
  "alg_find_if pred m f l =
     (if f \<noteq> l then do { x \<leftarrow> rd m f; if \<not> pred x then alg_find_if pred m (Suc f) l else Some f }
      else Some f)"
  by pat_completeness auto
termination by (relation "measure (\<lambda>(pred, m, f, l). length m - f)") (auto simp: mem_simps)

definition alg_find :: "'a list \<Rightarrow> nat \<Rightarrow> nat \<Rightarrow> 'a \<Rightarrow> nat option" where
  "alg_find m f l v = alg_find_if (\<lambda>x. x = v) m f l"

function alg_adjacent_loop :: "('a \<Rightarrow> 'a \<Rightarrow> bool) \<Rightarrow> 'a list \<Rightarrow> nat \<Rightarrow> nat \<Rightarrow> nat \<Rightarrow> nat option" where
  "alg_adjacent_loop pred m f nxt l =
     (if nxt \<noteq> l then do { x \<leftarrow> rd m f; y \<leftarrow> rd m nxt;
        if pred x y then Some f else alg_adjacent_loop pred m (Suc f) (Suc nxt) l }
      else Some l)"
  by pat_completeness auto
termination by (relation "measure (\<lambda>(pred, m, f, nxt, l). length m - nxt)") (auto simp: mem_simps)

text \<open>For an empty range the function returns without a value.\<close>

definition alg_adjacent_find_pred :: "('a \<Rightarrow> 'a \<Rightarrow> bool) \<Rightarrow> 'a list \<Rightarrow> nat \<Rightarrow> nat \<Rightarrow> nat option" where
  "alg_adjacent_find_pred pred m f l = (if f = l then None else alg_adjacent_loop pred m f (Suc f) l)"

definition alg_adjacent_find :: "'a list \<Rightarrow> nat \<Rightarrow> nat \<Rightarrow> nat option" where
  "alg_adjacent_find m f l = alg_adjacent_find_pred (=) m f l"

function alg_count_loop :: "('a \<Rightarrow> bool) \<Rightarrow> 'a list \<Rightarrow> nat \<Rightarrow> nat \<Rightarrow> nat \<Rightarrow> nat option" where
  "alg_count_loop pred m f l c =
     (if f \<noteq> l then do { x \<leftarrow> rd m f; alg_count_loop pred m (Suc f) l (if pred x then c + 1 else c) }
      else Some c)"
  by pat_completeness auto
termination by (relation "measure (\<lambda>(pred, m, f, l, c). length m - f)") (auto simp: mem_simps)

definition alg_count_if :: "('a \<Rightarrow> bool) \<Rightarrow> 'a list \<Rightarrow> nat \<Rightarrow> nat \<Rightarrow> nat option" where
  "alg_count_if pred m f l = alg_count_loop pred m f l 0"

definition alg_count :: "'a list \<Rightarrow> nat \<Rightarrow> nat \<Rightarrow> 'a \<Rightarrow> nat option" where
  "alg_count m f l v = alg_count_if (\<lambda>x. x = v) m f l"

function alg_equal_pred :: "('a \<Rightarrow> 'a \<Rightarrow> bool) \<Rightarrow> 'a list \<Rightarrow> nat \<Rightarrow> nat \<Rightarrow> nat \<Rightarrow> bool option" where
  "alg_equal_pred pred m f1 l1 f2 =
     (if f1 \<noteq> l1 then do { x \<leftarrow> rd m f1; y \<leftarrow> rd m f2;
        if \<not> pred x y then Some False else alg_equal_pred pred m (Suc f1) l1 (Suc f2) }
      else Some True)"
  by pat_completeness auto
termination by (relation "measure (\<lambda>(pred, m, f1, l1, f2). length m - f1)") (auto simp: mem_simps)

definition alg_equal :: "'a list \<Rightarrow> nat \<Rightarrow> nat \<Rightarrow> nat \<Rightarrow> bool option" where
  "alg_equal m f1 l1 f2 = alg_equal_pred (=) m f1 l1 f2"

function alg_mismatch_pred ::
  "('a \<Rightarrow> 'a \<Rightarrow> bool) \<Rightarrow> 'a list \<Rightarrow> nat \<Rightarrow> nat \<Rightarrow> nat \<Rightarrow> (nat, nat) pair option" where
  "alg_mismatch_pred pred m f1 l1 f2 =
     (if f1 \<noteq> l1 then do { x \<leftarrow> rd m f1; y \<leftarrow> rd m f2;
        if \<not> pred x y then Some (Mk_pair f1 f2) else alg_mismatch_pred pred m (Suc f1) l1 (Suc f2) }
      else Some (Mk_pair f1 f2))"
  by pat_completeness auto
termination by (relation "measure (\<lambda>(pred, m, f1, l1, f2). length m - f1)") (auto simp: mem_simps)

definition alg_mismatch :: "'a list \<Rightarrow> nat \<Rightarrow> nat \<Rightarrow> nat \<Rightarrow> (nat, nat) pair option" where
  "alg_mismatch m f1 l1 f2 = alg_mismatch_pred (=) m f1 l1 f2"

text \<open>The inner loop of \<^verbatim>\<open>search\<close>: the value to return, or \<open>Some None\<close> when it is
  left because of a difference.\<close>

function alg_search_at ::
  "('a \<Rightarrow> 'a \<Rightarrow> bool) \<Rightarrow> 'a list \<Rightarrow> nat \<Rightarrow> nat \<Rightarrow> nat \<Rightarrow> nat \<Rightarrow> nat \<Rightarrow> nat option option" where
  "alg_search_at pred m f1 it1 l1 it2 l2 =
     do { x \<leftarrow> rd m it1; y \<leftarrow> rd m it2;
          if pred x y
          then if Suc it2 = l2 then Some (Some f1)
               else if Suc it1 = l1 then Some (Some l1)
               else alg_search_at pred m f1 (Suc it1) l1 (Suc it2) l2
          else Some None }"
  by pat_completeness auto
termination by (relation "measure (\<lambda>(pred, m, f1, it1, l1, it2, l2). length m - it1)") (auto simp: mem_simps)

function alg_search_loop ::
  "('a \<Rightarrow> 'a \<Rightarrow> bool) \<Rightarrow> 'a list \<Rightarrow> nat \<Rightarrow> nat \<Rightarrow> nat \<Rightarrow> nat \<Rightarrow> nat option" where
  "alg_search_loop pred m f1 l1 f2 l2 =
     (if f1 \<noteq> l1 then
        (case alg_search_at pred m f1 f1 l1 f2 l2 of
           None \<Rightarrow> None
         | Some (Some r) \<Rightarrow> Some r
         | Some None \<Rightarrow> if f1 < length m then alg_search_loop pred m (Suc f1) l1 f2 l2 else None)
      else Some l1)"
  by pat_completeness auto
termination by (relation "measure (\<lambda>(pred, m, f1, l1, f2, l2). length m - f1)") auto

definition alg_search_pred ::
  "('a \<Rightarrow> 'a \<Rightarrow> bool) \<Rightarrow> 'a list \<Rightarrow> nat \<Rightarrow> nat \<Rightarrow> nat \<Rightarrow> nat \<Rightarrow> nat option" where
  "alg_search_pred pred m f1 l1 f2 l2 = (if f2 = l2 then Some f1 else alg_search_loop pred m f1 l1 f2 l2)"

definition alg_search :: "'a list \<Rightarrow> nat \<Rightarrow> nat \<Rightarrow> nat \<Rightarrow> nat \<Rightarrow> nat option" where
  "alg_search m f1 l1 f2 l2 = alg_search_pred (=) m f1 l1 f2 l2"

text \<open>The inner loop of \<^verbatim>\<open>find_end\<close>: the new \<^verbatim>\<open>ret\<close> and whether the function
  returns it.\<close>

function alg_find_end_at ::
  "('a \<Rightarrow> 'a \<Rightarrow> bool) \<Rightarrow> 'a list \<Rightarrow> nat \<Rightarrow> nat \<Rightarrow> nat \<Rightarrow> nat \<Rightarrow> nat \<Rightarrow> nat \<Rightarrow> (nat \<times> bool) option" where
  "alg_find_end_at pred m f1 it1 l1 it2 l2 ret =
     do { x \<leftarrow> rd m it1; y \<leftarrow> rd m it2;
          if pred x y
          then if Suc it2 = l2 then Some (f1, Suc it1 = l1)
               else if Suc it1 = l1 then Some (ret, True)
               else alg_find_end_at pred m f1 (Suc it1) l1 (Suc it2) l2 ret
          else Some (ret, False) }"
  by pat_completeness auto
termination
  by (relation "measure (\<lambda>(pred, m, f1, it1, l1, it2, l2, ret). length m - it1)") (auto simp: mem_simps)

function alg_find_end_loop ::
  "('a \<Rightarrow> 'a \<Rightarrow> bool) \<Rightarrow> 'a list \<Rightarrow> nat \<Rightarrow> nat \<Rightarrow> nat \<Rightarrow> nat \<Rightarrow> nat \<Rightarrow> nat option" where
  "alg_find_end_loop pred m f1 l1 f2 l2 ret =
     (if f1 \<noteq> l1 then
        (case alg_find_end_at pred m f1 f1 l1 f2 l2 ret of
           None \<Rightarrow> None
         | Some (ret', True) \<Rightarrow> Some ret'
         | Some (ret', False) \<Rightarrow> if f1 < length m then alg_find_end_loop pred m (Suc f1) l1 f2 l2 ret' else None)
      else Some ret)"
  by pat_completeness auto
termination by (relation "measure (\<lambda>(pred, m, f1, l1, f2, l2, ret). length m - f1)") auto

definition alg_find_end_pred ::
  "('a \<Rightarrow> 'a \<Rightarrow> bool) \<Rightarrow> 'a list \<Rightarrow> nat \<Rightarrow> nat \<Rightarrow> nat \<Rightarrow> nat \<Rightarrow> nat option" where
  "alg_find_end_pred pred m f1 l1 f2 l2 =
     (if f2 = l2 then Some l1 else alg_find_end_loop pred m f1 l1 f2 l2 l1)"

definition alg_find_end :: "'a list \<Rightarrow> nat \<Rightarrow> nat \<Rightarrow> nat \<Rightarrow> nat \<Rightarrow> nat option" where
  "alg_find_end m f1 l1 f2 l2 = alg_find_end_pred (=) m f1 l1 f2 l2"

function alg_search_n_loop ::
  "('a \<Rightarrow> 'a \<Rightarrow> bool) \<Rightarrow> 'a list \<Rightarrow> nat \<Rightarrow> nat \<Rightarrow> nat \<Rightarrow> 'a \<Rightarrow> nat \<Rightarrow> nat \<Rightarrow> nat option" where
  "alg_search_n_loop pred m f l cnt v n ret =
     (if f \<noteq> l \<and> n \<noteq> cnt
      then do { x \<leftarrow> rd m f;
                if pred x v then alg_search_n_loop pred m (Suc f) l cnt v (n + 1) ret
                else alg_search_n_loop pred m (Suc f) l cnt v 0 (Suc f) }
      else Some (if n = cnt then ret else l))"
  by pat_completeness auto
termination
  by (relation "measure (\<lambda>(pred, m, f, l, cnt, v, n, ret). length m - f)") (auto simp: mem_simps)

definition alg_search_n_pred ::
  "('a \<Rightarrow> 'a \<Rightarrow> bool) \<Rightarrow> 'a list \<Rightarrow> nat \<Rightarrow> nat \<Rightarrow> nat \<Rightarrow> 'a \<Rightarrow> nat option" where
  "alg_search_n_pred pred m f l cnt v = alg_search_n_loop pred m f l cnt v 0 f"

definition alg_search_n :: "'a list \<Rightarrow> nat \<Rightarrow> nat \<Rightarrow> nat \<Rightarrow> 'a \<Rightarrow> nat option" where
  "alg_search_n m f l cnt v = alg_search_n_pred (=) m f l cnt v"

function alg_any :: "('a \<Rightarrow> 'a \<Rightarrow> bool) \<Rightarrow> 'a list \<Rightarrow> nat \<Rightarrow> nat \<Rightarrow> nat \<Rightarrow> bool option" where
  "alg_any pred m f1 it l2 =
     (if it \<noteq> l2 then do { x \<leftarrow> rd m it; y \<leftarrow> rd m f1;
        if pred x y then Some True else alg_any pred m f1 (Suc it) l2 }
      else Some False)"
  by pat_completeness auto
termination by (relation "measure (\<lambda>(pred, m, f1, it, l2). length m - it)") (auto simp: mem_simps)

function alg_find_first_of_pred ::
  "('a \<Rightarrow> 'a \<Rightarrow> bool) \<Rightarrow> 'a list \<Rightarrow> nat \<Rightarrow> nat \<Rightarrow> nat \<Rightarrow> nat \<Rightarrow> nat option" where
  "alg_find_first_of_pred pred m f1 l1 f2 l2 =
     (if f1 \<noteq> l1 then
        (case alg_any pred m f1 f2 l2 of
           None \<Rightarrow> None
         | Some True \<Rightarrow> Some f1
         | Some False \<Rightarrow> if f1 < length m then alg_find_first_of_pred pred m (Suc f1) l1 f2 l2 else None)
      else Some l1)"
  by pat_completeness auto
termination by (relation "measure (\<lambda>(pred, m, f1, l1, f2, l2). length m - f1)") auto

definition alg_find_first_of :: "'a list \<Rightarrow> nat \<Rightarrow> nat \<Rightarrow> nat \<Rightarrow> nat \<Rightarrow> nat option" where
  "alg_find_first_of m f1 l1 f2 l2 = alg_find_first_of_pred (=) m f1 l1 f2 l2"

section \<open>Minimum, maximum and lexicographical comparison\<close>

definition alg_min_comp :: "('a \<Rightarrow> 'a \<Rightarrow> bool) \<Rightarrow> 'a \<Rightarrow> 'a \<Rightarrow> 'a" where
  "alg_min_comp cmp a b = (if cmp a b then a else b)"

definition alg_min :: "'a::linorder \<Rightarrow> 'a \<Rightarrow> 'a" where
  "alg_min a b = (if a < b then a else b)"

definition alg_max_comp :: "('a \<Rightarrow> 'a \<Rightarrow> bool) \<Rightarrow> 'a \<Rightarrow> 'a \<Rightarrow> 'a" where
  "alg_max_comp cmp a b = (if cmp b a then a else b)"

definition alg_max :: "'a::linorder \<Rightarrow> 'a \<Rightarrow> 'a" where
  "alg_max a b = (if b < a then a else b)"

text \<open>The loops start with \<^verbatim>\<open>++first\<close>.\<close>

function alg_min_loop :: "('a \<Rightarrow> 'a \<Rightarrow> bool) \<Rightarrow> 'a list \<Rightarrow> nat \<Rightarrow> nat \<Rightarrow> nat \<Rightarrow> nat option" where
  "alg_min_loop cmp m f l lowest =
     (if Suc f \<noteq> l then do { x \<leftarrow> rd m (Suc f); y \<leftarrow> rd m lowest;
        alg_min_loop cmp m (Suc f) l (if cmp x y then Suc f else lowest) }
      else Some lowest)"
  by pat_completeness auto
termination by (relation "measure (\<lambda>(cmp, m, f, l, lowest). length m - f)") (auto simp: mem_simps)

definition alg_min_element_comp :: "('a \<Rightarrow> 'a \<Rightarrow> bool) \<Rightarrow> 'a list \<Rightarrow> nat \<Rightarrow> nat \<Rightarrow> nat option" where
  "alg_min_element_comp cmp m f l = (if f = l then Some l else alg_min_loop cmp m f l f)"

definition alg_min_element :: "'a::linorder list \<Rightarrow> nat \<Rightarrow> nat \<Rightarrow> nat option" where
  "alg_min_element m f l = alg_min_element_comp (<) m f l"

function alg_max_loop :: "('a \<Rightarrow> 'a \<Rightarrow> bool) \<Rightarrow> 'a list \<Rightarrow> nat \<Rightarrow> nat \<Rightarrow> nat \<Rightarrow> nat option" where
  "alg_max_loop cmp m f l largest =
     (if Suc f \<noteq> l then do { x \<leftarrow> rd m largest; y \<leftarrow> rd m (Suc f);
        alg_max_loop cmp m (Suc f) l (if cmp x y then Suc f else largest) }
      else Some largest)"
  by pat_completeness auto
termination by (relation "measure (\<lambda>(cmp, m, f, l, largest). length m - f)") (auto simp: mem_simps)

definition alg_max_element_comp :: "('a \<Rightarrow> 'a \<Rightarrow> bool) \<Rightarrow> 'a list \<Rightarrow> nat \<Rightarrow> nat \<Rightarrow> nat option" where
  "alg_max_element_comp cmp m f l = (if f = l then Some l else alg_max_loop cmp m f l f)"

definition alg_max_element :: "'a::linorder list \<Rightarrow> nat \<Rightarrow> nat \<Rightarrow> nat option" where
  "alg_max_element m f l = alg_max_element_comp (<) m f l"

function alg_lexicographical_compare_comp ::
  "('a \<Rightarrow> 'a \<Rightarrow> bool) \<Rightarrow> 'a list \<Rightarrow> nat \<Rightarrow> nat \<Rightarrow> nat \<Rightarrow> nat \<Rightarrow> bool option" where
  "alg_lexicographical_compare_comp cmp m f1 l1 f2 l2 =
     (if f1 \<noteq> l1
      then if f2 = l2 then Some False
           else do { x \<leftarrow> rd m f1; y \<leftarrow> rd m f2;
                     if cmp y x then Some False
                     else if cmp x y then Some True
                     else alg_lexicographical_compare_comp cmp m (Suc f1) l1 (Suc f2) l2 }
      else Some (f2 \<noteq> l2))"
  by pat_completeness auto
termination by (relation "measure (\<lambda>(cmp, m, f1, l1, f2, l2). length m - f1)") (auto simp: mem_simps)

definition alg_lexicographical_compare :: "'a::linorder list \<Rightarrow> nat \<Rightarrow> nat \<Rightarrow> nat \<Rightarrow> nat \<Rightarrow> bool option" where
  "alg_lexicographical_compare m f1 l1 f2 l2 = alg_lexicographical_compare_comp (<) m f1 l1 f2 l2"

section \<open>Searching a sorted range\<close>

function alg_sequential_lower_bound_comp :: "('a \<Rightarrow> 'a \<Rightarrow> bool) \<Rightarrow> 'a list \<Rightarrow> nat \<Rightarrow> nat \<Rightarrow> 'a \<Rightarrow> nat option" where
  "alg_sequential_lower_bound_comp cmp m f l v =
     (if f \<noteq> l then do { x \<leftarrow> rd m f; if cmp x v then alg_sequential_lower_bound_comp cmp m (Suc f) l v else Some f }
      else Some f)"
  by pat_completeness auto
termination by (relation "measure (\<lambda>(cmp, m, f, l, v). length m - f)") (auto simp: mem_simps)

definition alg_sequential_lower_bound :: "'a::linorder list \<Rightarrow> nat \<Rightarrow> nat \<Rightarrow> 'a \<Rightarrow> nat option" where
  "alg_sequential_lower_bound m f l v = alg_sequential_lower_bound_comp (<) m f l v"

function alg_sequential_upper_bound_comp :: "('a \<Rightarrow> 'a \<Rightarrow> bool) \<Rightarrow> 'a list \<Rightarrow> nat \<Rightarrow> nat \<Rightarrow> 'a \<Rightarrow> nat option" where
  "alg_sequential_upper_bound_comp cmp m f l v =
     (if f \<noteq> l then do { x \<leftarrow> rd m f; if \<not> cmp v x then alg_sequential_upper_bound_comp cmp m (Suc f) l v else Some f }
      else Some f)"
  by pat_completeness auto
termination by (relation "measure (\<lambda>(cmp, m, f, l, v). length m - f)") (auto simp: mem_simps)

definition alg_sequential_upper_bound :: "'a::linorder list \<Rightarrow> nat \<Rightarrow> nat \<Rightarrow> 'a \<Rightarrow> nat option" where
  "alg_sequential_upper_bound m f l v = alg_sequential_upper_bound_comp (<) m f l v"

definition alg_sequential_equal_range_comp ::
  "('a \<Rightarrow> 'a \<Rightarrow> bool) \<Rightarrow> 'a list \<Rightarrow> nat \<Rightarrow> nat \<Rightarrow> 'a \<Rightarrow> (nat, nat) pair option" where
  "alg_sequential_equal_range_comp cmp m f l v =
     do { f \<leftarrow> alg_sequential_lower_bound_comp cmp m f l v;
          u \<leftarrow> alg_sequential_upper_bound_comp cmp m f l v;
          Some (Mk_pair f u) }"

definition alg_sequential_equal_range :: "'a::linorder list \<Rightarrow> nat \<Rightarrow> nat \<Rightarrow> 'a \<Rightarrow> (nat, nat) pair option" where
  "alg_sequential_equal_range m f l v = alg_sequential_equal_range_comp (<) m f l v"

definition alg_sequential_search :: "'a::linorder list \<Rightarrow> nat \<Rightarrow> nat \<Rightarrow> 'a \<Rightarrow> bool option" where
  "alg_sequential_search m f l v =
     do { f \<leftarrow> alg_sequential_lower_bound m f l v;
          if f \<noteq> l then do { x \<leftarrow> rd m f; Some (\<not> v < x) } else Some False }"

text \<open>The overload with a comparison searches with \<^verbatim>\<open>operator<\<close>.\<close>

definition alg_sequential_search_comp :: "('a \<Rightarrow> 'a \<Rightarrow> bool) \<Rightarrow> 'a::linorder list \<Rightarrow> nat \<Rightarrow> nat \<Rightarrow> 'a \<Rightarrow> bool option" where
  "alg_sequential_search_comp cmp m f l v =
     do { f \<leftarrow> alg_sequential_lower_bound m f l v;
          if f \<noteq> l then do { x \<leftarrow> rd m f; Some (\<not> cmp v x) } else Some False }"

text \<open>\<open>go\<close> tells whether the answer lies behind the middle element; \<open>count\<close> counts down to 0.\<close>

function alg_bound_loop :: "('a \<Rightarrow> bool) \<Rightarrow> 'a list \<Rightarrow> nat \<Rightarrow> nat \<Rightarrow> nat option" where
  "alg_bound_loop go m f cnt =
     (if 0 < cnt
      then let step = cnt div 2; it = f + step
           in do { x \<leftarrow> rd m it;
                   if go x then alg_bound_loop go m (it + 1) (cnt - (step + 1))
                   else alg_bound_loop go m f step }
      else Some f)"
  by pat_completeness auto
termination by (relation "measure (\<lambda>(go, m, f, cnt). cnt)") auto

definition alg_lower_bound_comp :: "('a \<Rightarrow> 'a \<Rightarrow> bool) \<Rightarrow> 'a list \<Rightarrow> nat \<Rightarrow> nat \<Rightarrow> 'a \<Rightarrow> nat option" where
  "alg_lower_bound_comp cmp m f l v = alg_bound_loop (\<lambda>x. cmp x v) m f (l - f)"

definition alg_lower_bound :: "'a::linorder list \<Rightarrow> nat \<Rightarrow> nat \<Rightarrow> 'a \<Rightarrow> nat option" where
  "alg_lower_bound m f l v = alg_lower_bound_comp (<) m f l v"

definition alg_upper_bound_comp :: "('a \<Rightarrow> 'a \<Rightarrow> bool) \<Rightarrow> 'a list \<Rightarrow> nat \<Rightarrow> nat \<Rightarrow> 'a \<Rightarrow> nat option" where
  "alg_upper_bound_comp cmp m f l v = alg_bound_loop (\<lambda>x. \<not> cmp v x) m f (l - f)"

definition alg_upper_bound :: "'a::linorder list \<Rightarrow> nat \<Rightarrow> nat \<Rightarrow> 'a \<Rightarrow> nat option" where
  "alg_upper_bound m f l v = alg_upper_bound_comp (<) m f l v"

definition alg_equal_range_comp ::
  "('a \<Rightarrow> 'a \<Rightarrow> bool) \<Rightarrow> 'a list \<Rightarrow> nat \<Rightarrow> nat \<Rightarrow> 'a \<Rightarrow> (nat, nat) pair option" where
  "alg_equal_range_comp cmp m f l v =
     do { f \<leftarrow> alg_lower_bound_comp cmp m f l v;
          u \<leftarrow> alg_upper_bound_comp cmp m f l v;
          Some (Mk_pair f u) }"

definition alg_equal_range :: "'a::linorder list \<Rightarrow> nat \<Rightarrow> nat \<Rightarrow> 'a \<Rightarrow> (nat, nat) pair option" where
  "alg_equal_range m f l v = alg_equal_range_comp (<) m f l v"

definition alg_binary_search :: "'a::linorder list \<Rightarrow> nat \<Rightarrow> nat \<Rightarrow> 'a \<Rightarrow> bool option" where
  "alg_binary_search m f l v =
     do { f \<leftarrow> alg_lower_bound m f l v;
          if f \<noteq> l then do { x \<leftarrow> rd m f; Some (\<not> v < x) } else Some False }"

text \<open>The overload with a comparison searches with \<^verbatim>\<open>operator<\<close>.\<close>

definition alg_binary_search_comp :: "('a \<Rightarrow> 'a \<Rightarrow> bool) \<Rightarrow> 'a::linorder list \<Rightarrow> nat \<Rightarrow> nat \<Rightarrow> 'a \<Rightarrow> bool option" where
  "alg_binary_search_comp cmp m f l v =
     do { f \<leftarrow> alg_lower_bound m f l v;
          if f \<noteq> l then do { x \<leftarrow> rd m f; Some (\<not> cmp v x) } else Some False }"

lemmas alg_loops [simp del] = alg_for_each.simps alg_find_if.simps alg_adjacent_loop.simps alg_count_loop.simps
  alg_equal_pred.simps alg_mismatch_pred.simps alg_search_at.simps alg_search_loop.simps alg_find_end_at.simps
  alg_find_end_loop.simps alg_search_n_loop.simps alg_any.simps alg_find_first_of_pred.simps alg_min_loop.simps
  alg_max_loop.simps alg_lexicographical_compare_comp.simps alg_sequential_lower_bound_comp.simps
  alg_sequential_upper_bound_comp.simps alg_bound_loop.simps

section \<open>What they return\<close>

lemma length_takeWhile_eqI:
  assumes "n \<le> length xs" and "\<And>i. i < n \<Longrightarrow> P (xs ! i)" and "n < length xs \<Longrightarrow> \<not> P (xs ! n)"
  shows "length (takeWhile P xs) = n"
proof -
  have "takeWhile P xs = take n xs"
  proof (cases "n < length xs")
    case True
    then show ?thesis using assms by (intro takeWhile_eq_take_P_nth) auto
  next
    case False
    then have "\<forall>x \<in> set xs. P x" using assms(2) by (auto simp: in_set_conv_nth)
    then have "takeWhile P xs = xs" by (simp only: takeWhile_eq_all_conv)
    then show ?thesis using False by simp
  qed
  then show ?thesis using assms(1) by simp
qed

lemma alg_for_each_fold:
  assumes "f \<le> l" and "l \<le> length m"
  shows "alg_for_each call m f l s = Some (foldl call s (seg m f l))"
  using assms(1)
proof (induction f arbitrary: s rule: inc_induct)
  case base
  then show ?case by (simp add: alg_for_each.simps)
next
  case (step f)
  then show ?case using assms(2) by (subst alg_for_each.simps) (simp add: seg_Cons)
qed

lemma alg_find_if_takeWhile:
  assumes "f \<le> l" and "l \<le> length m"
  shows "alg_find_if pred m f l = Some (f + length (takeWhile (\<lambda>x. \<not> pred x) (seg m f l)))"
  using assms(1)
proof (induction f rule: inc_induct)
  case base
  then show ?case by (simp add: alg_find_if.simps)
next
  case (step f)
  then show ?case using assms(2) by (subst alg_find_if.simps) (simp add: seg_Cons)
qed

lemma alg_count_loop_filter:
  assumes "f \<le> l" and "l \<le> length m"
  shows "alg_count_loop pred m f l c = Some (c + length (filter pred (seg m f l)))"
  using assms(1)
proof (induction f arbitrary: c rule: inc_induct)
  case base
  then show ?case by (simp add: alg_count_loop.simps)
next
  case (step f)
  then show ?case using assms(2) by (subst alg_count_loop.simps) (simp add: seg_Cons)
qed

lemma alg_equal_pred_all2:
  assumes "f1 \<le> l1" and "l1 \<le> length m" and "f2 + (l1 - f1) \<le> length m"
  shows "alg_equal_pred pred m f1 l1 f2 = Some (list_all2 pred (seg m f1 l1) (seg m f2 (f2 + (l1 - f1))))"
  using assms(1,3)
proof (induction f1 arbitrary: f2 rule: inc_induct)
  case base
  then show ?case by (simp add: alg_equal_pred.simps)
next
  case (step f1)
  have "seg m f2 (f2 + (l1 - f1)) = m ! f2 # seg m (Suc f2) (Suc f2 + (l1 - Suc f1))"
    using step by (subst seg_Cons) (simp_all add: Suc_diff_Suc)
  then show ?case using step assms(2) by (subst alg_equal_pred.simps) (simp add: seg_Cons)
qed

text \<open>Halving: the loop finds the border of a range partitioned by \<open>go\<close>.\<close>

lemma alg_bound_loop_border:
  assumes "f + cnt \<le> length m"
    and "\<And>i j. f \<le> i \<Longrightarrow> i \<le> j \<Longrightarrow> j < f + cnt \<Longrightarrow> go (m ! j) \<Longrightarrow> go (m ! i)"
  shows "\<exists>r. alg_bound_loop go m f cnt = Some r \<and> f \<le> r \<and> r \<le> f + cnt \<and>
    (\<forall>i. f \<le> i \<longrightarrow> i < r \<longrightarrow> go (m ! i)) \<and> (\<forall>i. r \<le> i \<longrightarrow> i < f + cnt \<longrightarrow> \<not> go (m ! i))"
  using assms
proof (induction cnt arbitrary: f rule: less_induct)
  case (less cnt)
  show ?case
  proof (cases "cnt = 0")
    case True
    then show ?thesis by (simp add: alg_bound_loop.simps)
  next
    case False
    let ?s = "cnt div 2" and ?it = "f + cnt div 2"
    have it: "?it < length m" "?s < cnt" using False less.prems(1) by auto
    show ?thesis
    proof (cases "go (m ! ?it)")
      case True
      have "\<exists>r. alg_bound_loop go m (?it + 1) (cnt - (?s + 1)) = Some r \<and> ?it + 1 \<le> r \<and>
          r \<le> (?it + 1) + (cnt - (?s + 1)) \<and> (\<forall>i. ?it + 1 \<le> i \<longrightarrow> i < r \<longrightarrow> go (m ! i)) \<and>
          (\<forall>i. r \<le> i \<longrightarrow> i < (?it + 1) + (cnt - (?s + 1)) \<longrightarrow> \<not> go (m ! i))"
        using it less.prems by (intro less.IH) auto
      then obtain r where r: "alg_bound_loop go m (?it + 1) (cnt - (?s + 1)) = Some r" "?it + 1 \<le> r"
          "r \<le> f + cnt" "\<forall>i. ?it + 1 \<le> i \<longrightarrow> i < r \<longrightarrow> go (m ! i)"
          "\<forall>i. r \<le> i \<longrightarrow> i < f + cnt \<longrightarrow> \<not> go (m ! i)"
        using it by auto
      have "go (m ! i)" if "f \<le> i" "i < r" for i
        using that r(4) less.prems(2) [of i ?it] True it by (cases "?it + 1 \<le> i") auto
      then show ?thesis
        using r False True it by (subst alg_bound_loop.simps) (auto simp: Let_def)
    next
      case stop: False
      have "\<exists>r. alg_bound_loop go m f ?s = Some r \<and> f \<le> r \<and> r \<le> f + ?s \<and>
          (\<forall>i. f \<le> i \<longrightarrow> i < r \<longrightarrow> go (m ! i)) \<and> (\<forall>i. r \<le> i \<longrightarrow> i < f + ?s \<longrightarrow> \<not> go (m ! i))"
        using it less.prems by (intro less.IH) auto
      then obtain r where r: "alg_bound_loop go m f ?s = Some r" "f \<le> r" "r \<le> f + ?s"
          "\<forall>i. f \<le> i \<longrightarrow> i < r \<longrightarrow> go (m ! i)" "\<forall>i. r \<le> i \<longrightarrow> i < f + ?s \<longrightarrow> \<not> go (m ! i)"
        by blast
      have "\<not> go (m ! i)" if "r \<le> i" "i < f + cnt" for i
        using that r(5) less.prems(2) [of ?it i] stop it by (cases "i < ?it") auto
      then show ?thesis
        using r False stop it by (subst alg_bound_loop.simps) (auto simp: Let_def)
    qed
  qed
qed

text \<open>The border as a position in the range.\<close>

lemma alg_bound_loop_takeWhile:
  assumes "f \<le> l" and "l \<le> length m"
    and "\<And>i j. f \<le> i \<Longrightarrow> i \<le> j \<Longrightarrow> j < l \<Longrightarrow> go (m ! j) \<Longrightarrow> go (m ! i)"
  shows "alg_bound_loop go m f (l - f) = Some (f + length (takeWhile go (seg m f l)))"
proof -
  obtain r where r: "alg_bound_loop go m f (l - f) = Some r" "f \<le> r" "r \<le> l"
      "\<forall>i. f \<le> i \<longrightarrow> i < r \<longrightarrow> go (m ! i)" "\<forall>i. r \<le> i \<longrightarrow> i < l \<longrightarrow> \<not> go (m ! i)"
    using alg_bound_loop_border [of f "l - f" m go] assms by auto
  have "length (takeWhile go (seg m f l)) = r - f"
  proof (rule length_takeWhile_eqI)
    show "go (seg m f l ! i)" if "i < r - f" for i
      using that r assms(2) by (subst seg_nth) auto
    show "r - f < length (seg m f l) \<Longrightarrow> \<not> go (seg m f l ! (r - f))"
      using r assms(2) by (subst seg_nth) auto
    show "r - f \<le> length (seg m f l)" using r assms(2) by simp
  qed
  then show ?thesis using r by simp
qed

text \<open>\<open>occurs\<close>: a list starts with a pattern, element by element in the sense of
  \<open>pred\<close>.\<close>

definition occurs :: "('a \<Rightarrow> 'a \<Rightarrow> bool) \<Rightarrow> 'a list \<Rightarrow> 'a list \<Rightarrow> bool" where
  "occurs pred hay pat \<longleftrightarrow> length pat \<le> length hay \<and> list_all2 pred (take (length pat) hay) pat"

lemma occurs_Nil [simp]: "occurs pred hay []"
  by (simp add: occurs_def)

lemma occurs_Cons [simp]: "occurs pred (x # hay) (y # pat) \<longleftrightarrow> pred x y \<and> occurs pred hay pat"
  by (auto simp: occurs_def)

lemma occurs_empty [simp]: "occurs pred [] (y # pat) \<longleftrightarrow> False"
  by (simp add: occurs_def)

lemma occurs_length: "occurs pred hay pat \<Longrightarrow> length pat \<le> length hay"
  by (simp add: occurs_def)

lemma occurs_eq: "occurs (=) hay pat \<longleftrightarrow> take (length pat) hay = pat"
  by (auto simp: occurs_def list.rel_eq) (metis length_take min.absorb_iff2 min.commute nat_le_linear)

text \<open>The inner loops compare from a position on: the pattern occurs, the text ends first, or a
  difference is found.\<close>

lemma alg_search_at_spec:
  assumes "l1 \<le> length m" and "l2 \<le> length m"
  shows "it1 < l1 \<Longrightarrow> it2 < l2 \<Longrightarrow>
    (occurs pred (seg m it1 l1) (seg m it2 l2) \<longrightarrow> alg_search_at pred m f1 it1 l1 it2 l2 = Some (Some f1)) \<and>
    (\<not> occurs pred (seg m it1 l1) (seg m it2 l2) \<longrightarrow> alg_search_at pred m f1 it1 l1 it2 l2 = Some None \<or>
       alg_search_at pred m f1 it1 l1 it2 l2 = Some (Some l1) \<and> l1 - it1 < l2 - it2)"
proof (induction "l1 - it1" arbitrary: it1 it2)
  case (Suc k)
  have segs: "seg m it1 l1 = m ! it1 # seg m (Suc it1) l1" "seg m it2 l2 = m ! it2 # seg m (Suc it2) l2"
    using Suc.prems assms by (simp_all add: seg_Cons)
  have step: "alg_search_at pred m f1 it1 l1 it2 l2 = (if pred (m ! it1) (m ! it2)
      then if Suc it2 = l2 then Some (Some f1) else if Suc it1 = l1 then Some (Some l1)
        else alg_search_at pred m f1 (Suc it1) l1 (Suc it2) l2
      else Some None)"
    using Suc.prems assms by (subst alg_search_at.simps) simp
  show ?case
  proof (cases "pred (m ! it1) (m ! it2) \<and> Suc it1 < l1 \<and> Suc it2 < l2")
    case True
    moreover have "k = l1 - Suc it1" using Suc.hyps(2) by simp
    ultimately show ?thesis
      using Suc.hyps(1) [of "Suc it1" "Suc it2"] step segs by auto
  next
    case False
    have "seg m (Suc it2) l2 = []" if "Suc it2 = l2" using that by simp
    moreover have "\<not> occurs pred (seg m (Suc it1) l1) (seg m (Suc it2) l2)" if "Suc it1 = l1" "Suc it2 < l2"
      using that assms by (simp add: seg_Cons)
    ultimately show ?thesis using False Suc.prems step segs by auto
  qed
qed simp

lemma alg_search_loop_spec:
  assumes "f1 \<le> l1" and "l1 \<le> length m" and "f2 < l2" and "l2 \<le> length m"
  shows "\<exists>r. alg_search_loop pred m f1 l1 f2 l2 = Some r \<and> f1 \<le> r \<and> r \<le> l1 \<and>
    (\<forall>i. f1 \<le> i \<longrightarrow> i < r \<longrightarrow> \<not> occurs pred (seg m i l1) (seg m f2 l2)) \<and>
    (r < l1 \<longrightarrow> occurs pred (seg m r l1) (seg m f2 l2))"
  using assms(1)
proof (induction f1 rule: inc_induct)
  case base
  then show ?case by (simp add: alg_search_loop.simps)
next
  case (step f1)
  note at = alg_search_at_spec [OF assms(2,4) step.hyps(2) assms(3), of pred f1]
  show ?case
  proof (cases "occurs pred (seg m f1 l1) (seg m f2 l2)")
    case True
    then show ?thesis
      using at step.hyps by (subst alg_search_loop.simps) auto
  next
    case False
    then consider "alg_search_at pred m f1 f1 l1 f2 l2 = Some None"
      | "alg_search_at pred m f1 f1 l1 f2 l2 = Some (Some l1)" "l1 - f1 < l2 - f2"
      using at by blast
    then show ?thesis
    proof cases
      case 1
      obtain r where r: "alg_search_loop pred m (Suc f1) l1 f2 l2 = Some r" "Suc f1 \<le> r" "r \<le> l1"
          "\<forall>i. Suc f1 \<le> i \<longrightarrow> i < r \<longrightarrow> \<not> occurs pred (seg m i l1) (seg m f2 l2)"
          "r < l1 \<longrightarrow> occurs pred (seg m r l1) (seg m f2 l2)"
        using step.IH by blast
      have "\<not> occurs pred (seg m i l1) (seg m f2 l2)" if "f1 \<le> i" "i < r" for i
        using that r(4) False by (cases "i = f1") auto
      moreover have "alg_search_loop pred m f1 l1 f2 l2 = Some r"
        using 1 r(1) step.hyps assms(2) by (subst alg_search_loop.simps) simp
      ultimately show ?thesis using r(2,3,5) by auto
    next
      case 2
      have "\<not> occurs pred (seg m i l1) (seg m f2 l2)" if "f1 \<le> i" for i
        using that 2(2) assms occurs_length [of pred "seg m i l1" "seg m f2 l2"] by auto
      moreover have "alg_search_loop pred m f1 l1 f2 l2 = Some l1"
        using 2 step.hyps by (subst alg_search_loop.simps) simp
      ultimately show ?thesis using step.hyps by auto
    qed
  qed
qed

text \<open>\<^verbatim>\<open>find_end\<close> keeps the last position.\<close>

lemma alg_find_end_at_spec:
  assumes "l1 \<le> length m" and "l2 \<le> length m"
  shows "it1 < l1 \<Longrightarrow> it2 < l2 \<Longrightarrow>
    (occurs pred (seg m it1 l1) (seg m it2 l2) \<longrightarrow>
       alg_find_end_at pred m f1 it1 l1 it2 l2 ret = Some (f1, l1 - it1 = l2 - it2)) \<and>
    (\<not> occurs pred (seg m it1 l1) (seg m it2 l2) \<longrightarrow> alg_find_end_at pred m f1 it1 l1 it2 l2 ret = Some (ret, False) \<or>
       alg_find_end_at pred m f1 it1 l1 it2 l2 ret = Some (ret, True) \<and> l1 - it1 < l2 - it2)"
proof (induction "l1 - it1" arbitrary: it1 it2)
  case (Suc k)
  have segs: "seg m it1 l1 = m ! it1 # seg m (Suc it1) l1" "seg m it2 l2 = m ! it2 # seg m (Suc it2) l2"
    using Suc.prems assms by (simp_all add: seg_Cons)
  have step: "alg_find_end_at pred m f1 it1 l1 it2 l2 ret = (if pred (m ! it1) (m ! it2)
      then if Suc it2 = l2 then Some (f1, Suc it1 = l1) else if Suc it1 = l1 then Some (ret, True)
        else alg_find_end_at pred m f1 (Suc it1) l1 (Suc it2) l2 ret
      else Some (ret, False))"
    using Suc.prems assms by (subst alg_find_end_at.simps) simp
  show ?case
  proof (cases "pred (m ! it1) (m ! it2) \<and> Suc it1 < l1 \<and> Suc it2 < l2")
    case True
    moreover have "k = l1 - Suc it1" using Suc.hyps(2) by simp
    moreover have "(l1 - it1 = l2 - it2) = (l1 - Suc it1 = l2 - Suc it2)"
      "(l1 - it1 < l2 - it2) = (l1 - Suc it1 < l2 - Suc it2)" using True by auto
    ultimately show ?thesis
      using Suc.hyps(1) [of "Suc it1" "Suc it2"] step segs by auto
  next
    case False
    have "seg m (Suc it2) l2 = []" if "Suc it2 = l2" using that by simp
    moreover have "\<not> occurs pred (seg m (Suc it1) l1) (seg m (Suc it2) l2)" if "Suc it1 = l1" "Suc it2 < l2"
      using that assms by (simp add: seg_Cons)
    ultimately show ?thesis using False Suc.prems step segs by auto
  qed
qed simp

lemma alg_find_end_loop_spec:
  assumes "f1 \<le> l1" and "l1 \<le> length m" and "f2 < l2" and "l2 \<le> length m"
  shows "\<exists>r. alg_find_end_loop pred m f1 l1 f2 l2 ret = Some r \<and>
    (r = ret \<and> (\<forall>i. f1 \<le> i \<longrightarrow> i < l1 \<longrightarrow> \<not> occurs pred (seg m i l1) (seg m f2 l2)) \<or>
     f1 \<le> r \<and> r < l1 \<and> occurs pred (seg m r l1) (seg m f2 l2) \<and>
       (\<forall>i. r < i \<longrightarrow> i < l1 \<longrightarrow> \<not> occurs pred (seg m i l1) (seg m f2 l2)))"
  using assms(1)
proof (induction f1 arbitrary: ret rule: inc_induct)
  case base
  then show ?case by (simp add: alg_find_end_loop.simps)
next
  case (step f1)
  note at = alg_find_end_at_spec [OF assms(2,4) step.hyps(2) assms(3), of pred f1 ret]
  have short: "\<not> occurs pred (seg m i l1) (seg m f2 l2)" if "l1 - i < l2 - f2" for i
    using that assms occurs_length [of pred "seg m i l1" "seg m f2 l2"] by auto
  have unfold: "alg_find_end_loop pred m f1 l1 f2 l2 ret =
      (case alg_find_end_at pred m f1 f1 l1 f2 l2 ret of None \<Rightarrow> None | Some (ret', True) \<Rightarrow> Some ret'
       | Some (ret', False) \<Rightarrow> alg_find_end_loop pred m (Suc f1) l1 f2 l2 ret')"
    using step.hyps assms(2) by (subst alg_find_end_loop.simps) (simp split: option.split prod.split bool.split)
  show ?case
  proof (cases "occurs pred (seg m f1 l1) (seg m f2 l2)")
    case True
    show ?thesis
    proof (cases "l1 - f1 = l2 - f2")
      case True
      then have "\<not> occurs pred (seg m i l1) (seg m f2 l2)" if "f1 < i" "i < l1" for i
        using that by (intro short) auto
      then show ?thesis using True \<open>occurs pred (seg m f1 l1) (seg m f2 l2)\<close> at step.hyps unfold by auto
    next
      case False
      obtain r where r: "alg_find_end_loop pred m (Suc f1) l1 f2 l2 f1 = Some r" and
        "r = f1 \<and> (\<forall>i. Suc f1 \<le> i \<longrightarrow> i < l1 \<longrightarrow> \<not> occurs pred (seg m i l1) (seg m f2 l2)) \<or>
         Suc f1 \<le> r \<and> r < l1 \<and> occurs pred (seg m r l1) (seg m f2 l2) \<and>
           (\<forall>i. r < i \<longrightarrow> i < l1 \<longrightarrow> \<not> occurs pred (seg m i l1) (seg m f2 l2))"
        using step.IH [of f1] by blast
      moreover have "alg_find_end_loop pred m f1 l1 f2 l2 ret = Some r"
        using True False at r unfold by simp
      ultimately show ?thesis using True step.hyps by (auto simp: Suc_le_eq)
    qed
  next
    case False
    then consider "alg_find_end_at pred m f1 f1 l1 f2 l2 ret = Some (ret, False)"
      | "alg_find_end_at pred m f1 f1 l1 f2 l2 ret = Some (ret, True)" "l1 - f1 < l2 - f2"
      using at by blast
    then show ?thesis
    proof cases
      case 1
      obtain r where r: "alg_find_end_loop pred m (Suc f1) l1 f2 l2 ret = Some r" and
        spec: "r = ret \<and> (\<forall>i. Suc f1 \<le> i \<longrightarrow> i < l1 \<longrightarrow> \<not> occurs pred (seg m i l1) (seg m f2 l2)) \<or>
         Suc f1 \<le> r \<and> r < l1 \<and> occurs pred (seg m r l1) (seg m f2 l2) \<and>
           (\<forall>i. r < i \<longrightarrow> i < l1 \<longrightarrow> \<not> occurs pred (seg m i l1) (seg m f2 l2))"
        using step.IH [of ret] by blast
      have "\<not> occurs pred (seg m i l1) (seg m f2 l2)"
        if "\<forall>i. Suc f1 \<le> i \<longrightarrow> i < l1 \<longrightarrow> \<not> occurs pred (seg m i l1) (seg m f2 l2)" "f1 \<le> i" "i < l1" for i
        using that False by (cases "i = f1") auto
      then show ?thesis using 1 r spec unfold by (intro exI [of _ r]) auto
    next
      case 2
      have "\<not> occurs pred (seg m i l1) (seg m f2 l2)" if "f1 \<le> i" for i
        using that 2(2) by (intro short) auto
      then show ?thesis using 2 unfold by auto
    qed
  qed
qed

context strict_weak_order
begin

text \<open>The first least element.\<close>

lemma min_loop_spec:
  assumes "f < l" and "l \<le> length m" and "low \<le> f"
    and "\<forall>i. s \<le> i \<longrightarrow> i \<le> f \<longrightarrow> \<not> less (m ! i) (m ! low)" and "\<forall>i. s \<le> i \<longrightarrow> i < low \<longrightarrow> less (m ! low) (m ! i)"
  shows "\<exists>r. alg_min_loop less m f l low = Some r \<and> low \<le> r \<and> r < l \<and>
    (\<forall>i. s \<le> i \<longrightarrow> i < l \<longrightarrow> \<not> less (m ! i) (m ! r)) \<and> (\<forall>i. s \<le> i \<longrightarrow> i < r \<longrightarrow> less (m ! r) (m ! i))"
  using assms(1,3-5)
proof (induction "l - f" arbitrary: f low)
  case (Suc k)
  show ?case
  proof (cases "Suc f = l")
    case True
    then show ?thesis using Suc.prems by (subst alg_min_loop.simps) auto
  next
    case False
    let ?low = "if less (m ! Suc f) (m ! low) then Suc f else low"
    have k: "k = l - Suc f" "Suc f < l" using Suc.hyps(2) Suc.prems(1) False by auto
    have step: "alg_min_loop less m f l low = alg_min_loop less m (Suc f) l ?low"
      using k Suc.prems assms(2) False by (subst alg_min_loop.simps) simp
    have 1: "\<not> less (m ! i) (m ! ?low)" if "s \<le> i" "i \<le> Suc f" for i
    proof (cases "i = Suc f")
      case True
      then show ?thesis using irrefl by simp
    next
      case False
      then have "\<not> less (m ! i) (m ! low)" using that Suc.prems(3) by simp
      then show ?thesis using trans [of "m ! i" "m ! Suc f" "m ! low"] by auto
    qed
    have 2: "less (m ! ?low) (m ! i)" if "s \<le> i" "i < ?low" for i
    proof (cases "less (m ! Suc f) (m ! low)")
      case True
      then have "\<not> less (m ! i) (m ! low)" using that Suc.prems(3) by simp
      then show ?thesis using True less_le_trans [of "m ! Suc f" "m ! low" "m ! i"] by simp
    next
      case False
      then show ?thesis using that Suc.prems(4) by simp
    qed
    have "\<exists>r. alg_min_loop less m (Suc f) l ?low = Some r \<and> ?low \<le> r \<and> r < l \<and>
      (\<forall>i. s \<le> i \<longrightarrow> i < l \<longrightarrow> \<not> less (m ! i) (m ! r)) \<and> (\<forall>i. s \<le> i \<longrightarrow> i < r \<longrightarrow> less (m ! r) (m ! i))"
      using Suc.prems(2) 1 2 by (intro Suc.hyps(1) [OF k]) auto
    then obtain r where "alg_min_loop less m (Suc f) l ?low = Some r" "?low \<le> r" "r < l"
      "\<forall>i. s \<le> i \<longrightarrow> i < l \<longrightarrow> \<not> less (m ! i) (m ! r)" "\<forall>i. s \<le> i \<longrightarrow> i < r \<longrightarrow> less (m ! r) (m ! i)"
      by blast
    moreover have "low \<le> ?low" using Suc.prems(2) by auto
    ultimately show ?thesis using step by (intro exI [of _ r]) auto
  qed
qed simp

lemma min_element_spec:
  assumes "f < l" and "l \<le> length m"
  shows "\<exists>r. alg_min_element_comp less m f l = Some r \<and> f \<le> r \<and> r < l \<and>
    (\<forall>i. f \<le> i \<longrightarrow> i < l \<longrightarrow> \<not> less (m ! i) (m ! r)) \<and> (\<forall>i. f \<le> i \<longrightarrow> i < r \<longrightarrow> less (m ! r) (m ! i))"
  using min_loop_spec [OF assms order_refl, of f] assms(1) irrefl by (auto simp: alg_min_element_comp_def)

text \<open>In a sorted range.\<close>

lemma seg_sorted:
  assumes "sorted_wrt (\<lambda>x y. \<not> less y x) (seg m f l)" and "l \<le> length m" and "f \<le> i" and "i \<le> j" and "j < l"
  shows "\<not> less (m ! j) (m ! i)"
  using sorted_nth [OF assms(1), of "i - f" "j - f"] assms(2-) by (simp add: seg_nth)

lemma lower_bound_takeWhile:
  assumes "f \<le> l" and "l \<le> length m" and "sorted_wrt (\<lambda>x y. \<not> less y x) (seg m f l)"
  shows "alg_lower_bound_comp less m f l v = Some (f + length (takeWhile (\<lambda>x. less x v) (seg m f l)))"
  unfolding alg_lower_bound_comp_def
  by (rule alg_bound_loop_takeWhile [OF assms(1,2)])
    (use seg_sorted [OF assms(3,2)] le_less_trans in blast)

lemma upper_bound_takeWhile:
  assumes "f \<le> l" and "l \<le> length m" and "sorted_wrt (\<lambda>x y. \<not> less y x) (seg m f l)"
  shows "alg_upper_bound_comp less m f l v = Some (f + length (takeWhile (\<lambda>x. \<not> less v x) (seg m f l)))"
  unfolding alg_upper_bound_comp_def
  by (rule alg_bound_loop_takeWhile [OF assms(1,2)])
    (use seg_sorted [OF assms(3,2)] less_le_trans in blast)

end

section \<open>Properties\<close>

lemma nth_before_takeWhile:
  assumes "f \<le> i" and "i < f + length (takeWhile P (seg m f l))" and "l \<le> length m"
  shows "P (m ! i)"
proof -
  have i: "i - f < length (takeWhile P (seg m f l))" using assms(1,2) by simp
  have "takeWhile P (seg m f l) ! (i - f) \<in> set (takeWhile P (seg m f l))" by (rule nth_mem [OF i])
  then have "P (takeWhile P (seg m f l) ! (i - f))" by (rule set_takeWhileD [THEN conjunct2])
  moreover have "i - f < length (seg m f l)" using i length_takeWhile_le [of P "seg m f l"] by linarith
  ultimately show ?thesis using assms(1,3) takeWhile_nth [OF i] by (simp add: seg_nth)
qed

lemma nth_at_takeWhile:
  "f + length (takeWhile P (seg m f l)) < l \<Longrightarrow> l \<le> length m \<Longrightarrow> \<not> P (m ! (f + length (takeWhile P (seg m f l))))"
  using nth_length_takeWhile [of P "seg m f l"] by (auto simp: seg_nth)

lemma seg_sub: "f \<le> k \<Longrightarrow> k \<le> l \<Longrightarrow> sorted_wrt P (seg m f l) \<Longrightarrow> sorted_wrt P (seg m k l)"
  using seg_append [of f k l m] by (simp add: sorted_wrt_append)

lemma takeWhile_seg_le: "f \<le> l \<Longrightarrow> l \<le> length m \<Longrightarrow> f + length (takeWhile P (seg m f l)) \<le> l"
  using length_takeWhile_le [of P "seg m f l"] by simp

text \<open>\<open>search\<close> returns the first and \<open>find_end\<close> the last position of a range at
  which a non-empty pattern occurs, and both the end of the range when it occurs nowhere.\<close>

theorem alg_search_find_end:
  assumes "f1 \<le> l1" and "l1 \<le> length m" and "f2 < l2" and "l2 \<le> length m"
  shows "\<exists>r q. alg_search m f1 l1 f2 l2 = Some r \<and> alg_find_end m f1 l1 f2 l2 = Some q \<and>
    (r = l1 \<and> q = l1 \<and> (\<forall>i. f1 \<le> i \<longrightarrow> i < l1 \<longrightarrow> take (l2 - f2) (seg m i l1) \<noteq> seg m f2 l2) \<or>
     f1 \<le> r \<and> r \<le> q \<and> q < l1 \<and>
     take (l2 - f2) (seg m r l1) = seg m f2 l2 \<and> take (l2 - f2) (seg m q l1) = seg m f2 l2 \<and>
     (\<forall>i. f1 \<le> i \<longrightarrow> i < l1 \<longrightarrow> take (l2 - f2) (seg m i l1) = seg m f2 l2 \<longrightarrow> r \<le> i \<and> i \<le> q))"
proof -
  have occ: "occurs (=) (seg m i l1) (seg m f2 l2) \<longleftrightarrow> take (l2 - f2) (seg m i l1) = seg m f2 l2" for i
    using assms(4) by (simp add: occurs_eq)
  obtain r where r: "alg_search m f1 l1 f2 l2 = Some r" "f1 \<le> r" "r \<le> l1"
      "\<forall>i. f1 \<le> i \<longrightarrow> i < r \<longrightarrow> take (l2 - f2) (seg m i l1) \<noteq> seg m f2 l2"
      "r < l1 \<longrightarrow> take (l2 - f2) (seg m r l1) = seg m f2 l2"
    using alg_search_loop_spec [OF assms, of "(=)"] assms(3) unfolding occ
    by (auto simp: alg_search_def alg_search_pred_def)
  obtain q where q: "alg_find_end m f1 l1 f2 l2 = Some q" and
      "q = l1 \<and> (\<forall>i. f1 \<le> i \<longrightarrow> i < l1 \<longrightarrow> take (l2 - f2) (seg m i l1) \<noteq> seg m f2 l2) \<or>
       f1 \<le> q \<and> q < l1 \<and> take (l2 - f2) (seg m q l1) = seg m f2 l2 \<and>
         (\<forall>i. q < i \<longrightarrow> i < l1 \<longrightarrow> take (l2 - f2) (seg m i l1) \<noteq> seg m f2 l2)"
    using alg_find_end_loop_spec [OF assms, of "(=)" l1] assms(3) unfolding occ
    by (auto simp: alg_find_end_def alg_find_end_pred_def)
  then show ?thesis
  proof (elim disjE)
    assume "q = l1 \<and> (\<forall>i. f1 \<le> i \<longrightarrow> i < l1 \<longrightarrow> take (l2 - f2) (seg m i l1) \<noteq> seg m f2 l2)"
    then show ?thesis using r q by (intro exI [of _ r] exI [of _ q]) force
  next
    assume q': "f1 \<le> q \<and> q < l1 \<and> take (l2 - f2) (seg m q l1) = seg m f2 l2 \<and>
      (\<forall>i. q < i \<longrightarrow> i < l1 \<longrightarrow> take (l2 - f2) (seg m i l1) \<noteq> seg m f2 l2)"
    then have "r \<le> q" using r(4) by (meson not_le)
    moreover have "\<forall>i. f1 \<le> i \<longrightarrow> i < l1 \<longrightarrow> take (l2 - f2) (seg m i l1) = seg m f2 l2 \<longrightarrow> r \<le> i \<and> i \<le> q"
      using r(4) q' by (meson not_le)
    moreover have "take (l2 - f2) (seg m r l1) = seg m f2 l2"
      using r(5) q' \<open>r \<le> q\<close> by simp
    ultimately show ?thesis using r(1,2) q q' by blast
  qed
qed

theorem alg_search_find_end_witness:
  "\<exists>r q. alg_search [1, 2, 1, 2, 1, (3::nat), 1, 2] 0 6 6 8 = Some r \<and>
    alg_find_end [1, 2, 1, 2, 1, (3::nat), 1, 2] 0 6 6 8 = Some q \<and> r \<le> 0 \<and> 2 \<le> q"
proof -
  let ?m = "[1, 2, 1, 2, 1, (3::nat), 1, 2]"
  have "take (8 - 6) (seg ?m 0 6) = seg ?m 6 8" "take (8 - 6) (seg ?m 2 6) = seg ?m 6 8"
    by (simp_all add: seg_def)
  then show ?thesis using alg_search_find_end [of 0 6 ?m 6 8] by force
qed

text \<open>In a sorted range, \<open>equal_range\<close> returns the borders of the elements equal to a value:
  all elements before are smaller, all behind are greater; and \<open>binary_search\<close> tells whether
  the value is there.\<close>

theorem alg_equal_range_sorted:
  fixes m :: "'a::linorder list"
  assumes "f \<le> l" and "l \<le> length m" and "sorted (seg m f l)"
  shows "\<exists>lo up. alg_equal_range m f l v = Some (Mk_pair lo up) \<and> f \<le> lo \<and> lo \<le> up \<and> up \<le> l \<and>
    (\<forall>i. f \<le> i \<longrightarrow> i < lo \<longrightarrow> m ! i < v) \<and> (\<forall>i. lo \<le> i \<longrightarrow> i < up \<longrightarrow> m ! i = v) \<and>
    (\<forall>i. up \<le> i \<longrightarrow> i < l \<longrightarrow> v < m ! i) \<and> alg_binary_search m f l v = Some (v \<in> set (seg m f l))"
proof -
  have sorted: "sorted_wrt (\<lambda>x y. \<not> y < x) (seg m f l)" using assms(3) by (simp add: sorted_wrt_not_greater)
  let ?lo = "f + length (takeWhile (\<lambda>x. x < v) (seg m f l))"
  have lo: "alg_lower_bound m f l v = Some ?lo"
    unfolding alg_lower_bound_def by (rule less_order.lower_bound_takeWhile [OF assms(1,2) sorted])
  have lo_le: "?lo \<le> l" by (rule takeWhile_seg_le [OF assms(1,2)])
  have sorted': "sorted_wrt (\<lambda>x y. \<not> y < x) (seg m ?lo l)"
    by (rule seg_sub [OF _ lo_le sorted]) simp
  let ?up = "?lo + length (takeWhile (\<lambda>x. \<not> v < x) (seg m ?lo l))"
  have up: "alg_upper_bound_comp (<) m ?lo l v = Some ?up"
    by (rule less_order.upper_bound_takeWhile [OF lo_le assms(2) sorted'])
  have up_le: "?up \<le> l" by (rule takeWhile_seg_le [OF lo_le assms(2)])
  have before: "m ! i < v" if "f \<le> i" "i < ?lo" for i
    using nth_before_takeWhile [OF that assms(2)] .
  have at_lo: "\<not> m ! ?lo < v" if "?lo < l" using nth_at_takeWhile [OF that assms(2)] .
  have mono: "\<not> m ! j < m ! i" if "f \<le> i" "i \<le> j" "j < l" for i j
    by (rule less_order.seg_sorted [OF sorted assms(2) that])
  have from_lo: "\<not> m ! i < v" if "?lo \<le> i" "i < l" for i
    using at_lo mono [of ?lo i] that by fastforce
  have middle: "m ! i = v" if "?lo \<le> i" "i < ?up" for i
    using nth_before_takeWhile [OF that assms(2)] from_lo [of i] that up_le by fastforce
  have at_up: "v < m ! ?up" if "?up < l" using nth_at_takeWhile [OF that assms(2)] by simp
  have behind: "v < m ! i" if "?up \<le> i" "i < l" for i
    using at_up mono [of ?up i] that by fastforce
  have "v \<in> set (seg m f l) \<longleftrightarrow> (\<exists>i. f \<le> i \<and> i < l \<and> m ! i = v)"
  proof
    assume "v \<in> set (seg m f l)"
    then obtain k where "k < length (seg m f l)" "seg m f l ! k = v" by (auto simp: in_set_conv_nth)
    then show "\<exists>i. f \<le> i \<and> i < l \<and> m ! i = v"
      using assms(2) by (intro exI [of _ "f + k"]) (auto simp: seg_nth)
  next
    assume "\<exists>i. f \<le> i \<and> i < l \<and> m ! i = v"
    then obtain i where "f \<le> i" "i < l" "m ! i = v" by blast
    then show "v \<in> set (seg m f l)"
      using assms(2) by (auto simp: in_set_conv_nth seg_nth intro!: exI [of _ "i - f"])
  qed
  also have "\<dots> \<longleftrightarrow> ?lo < l \<and> \<not> v < m ! ?lo"
  proof
    assume "\<exists>i. f \<le> i \<and> i < l \<and> m ! i = v"
    then obtain i where i: "f \<le> i" "i < l" "m ! i = v" by blast
    have "?lo \<le> i" using before [of i] i by (meson less_irrefl not_le)
    moreover from this have "\<not> m ! i < m ! ?lo" using mono [of ?lo i] i(2) by simp
    ultimately show "?lo < l \<and> \<not> v < m ! ?lo" using i(2,3) by simp
  next
    assume "?lo < l \<and> \<not> v < m ! ?lo"
    moreover from this have "m ! ?lo = v" using at_lo by simp
    ultimately show "\<exists>i. f \<le> i \<and> i < l \<and> m ! i = v" by (intro exI [of _ ?lo]) simp
  qed
  finally have "alg_binary_search m f l v = Some (v \<in> set (seg m f l))"
    using lo lo_le assms(2) by (auto simp: alg_binary_search_def)
  moreover have "alg_equal_range m f l v = Some (Mk_pair ?lo ?up)"
    using lo up by (simp add: alg_equal_range_def alg_equal_range_comp_def alg_lower_bound_def)
  ultimately show ?thesis
    using before middle behind up_le by (intro exI [of _ ?lo] exI [of _ ?up]) simp
qed

theorem alg_equal_range_sorted_witness:
  "\<exists>lo up. alg_equal_range [9, 1, 2, 2, 4, (0::nat)] 1 5 2 = Some (Mk_pair lo up) \<and> lo \<le> up"
  using alg_equal_range_sorted [of 1 5 "[9, 1, 2, 2, 4, (0::nat)]" 2] by (auto simp: seg_def)

end
