(* ===== verification/Pstl_Modify.thy ===== *)
theory Pstl_Modify
  imports Pstl_Search
begin

text \<open>
  \<^verbatim>\<open>wiselib.testing/util/pstl/algorithm.h\<close>, the algorithms that modify a range, lines 547-784.
  Every function takes the memory and returns the changed one, with the iterator the code returns;
  source and destination are indices of the same memory, so that overlapping ranges are covered.
  A value passed by reference is a value that is not in the memory.
\<close>

section \<open>Swapping and copying\<close>

definition alg_swap :: "'a list \<Rightarrow> nat \<Rightarrow> nat \<Rightarrow> 'a list option" where
  "alg_swap m a b = do { c \<leftarrow> rd m a; y \<leftarrow> rd m b; m \<leftarrow> wr m a y; wr m b c }"

definition alg_iter_swap :: "'a list \<Rightarrow> nat \<Rightarrow> nat \<Rightarrow> 'a list option" where
  "alg_iter_swap m a b = alg_swap m a b"

lemma alg_swap_Some [mem_simps]:
  "alg_swap m a b = Some m' \<longleftrightarrow> a < length m \<and> b < length m \<and> m' = m[a := m ! b, b := m ! a]"
  by (auto simp: alg_swap_def mem_simps)

lemma alg_swap_in: "a < length m \<Longrightarrow> b < length m \<Longrightarrow> alg_swap m a b = Some (m[a := m ! b, b := m ! a])"
  by (simp add: mem_simps)

lemma alg_iter_swap_Some [mem_simps]:
  "alg_iter_swap m a b = Some m' \<longleftrightarrow> a < length m \<and> b < length m \<and> m' = m[a := m ! b, b := m ! a]"
  by (simp add: alg_iter_swap_def mem_simps)

function alg_swap_ranges :: "'a list \<Rightarrow> nat \<Rightarrow> nat \<Rightarrow> nat \<Rightarrow> ('a list \<times> nat) option" where
  "alg_swap_ranges m f1 l1 f2 =
     (if f1 \<noteq> l1 then do { m \<leftarrow> alg_iter_swap m f1 f2; alg_swap_ranges m (Suc f1) l1 (Suc f2) }
      else Some (m, f2))"
  by pat_completeness auto
termination by (relation "measure (\<lambda>(m, f1, l1, f2). length m - f1)") (auto simp: mem_simps)

function alg_copy :: "'a list \<Rightarrow> nat \<Rightarrow> nat \<Rightarrow> nat \<Rightarrow> ('a list \<times> nat) option" where
  "alg_copy m f l d =
     (if f \<noteq> l then do { x \<leftarrow> rd m f; m \<leftarrow> wr m d x; alg_copy m (Suc f) l (Suc d) } else Some (m, d))"
  by pat_completeness auto
termination by (relation "measure (\<lambda>(m, f, l, d). length m - f)") (auto simp: mem_simps)

text \<open>An iterator in front of the memory is \<^const>\<open>None\<close>.\<close>

function alg_copy_backward :: "'a list \<Rightarrow> nat \<Rightarrow> nat \<Rightarrow> nat \<Rightarrow> ('a list \<times> nat) option" where
  "alg_copy_backward m f l d =
     (if l \<noteq> f then (if l = 0 \<or> d = 0 then None
        else do { x \<leftarrow> rd m (l - 1); m \<leftarrow> wr m (d - 1) x; alg_copy_backward m f (l - 1) (d - 1) })
      else Some (m, d))"
  by pat_completeness auto
termination by (relation "measure (\<lambda>(m, f, l, d). l)") auto

function alg_transform :: "('a \<Rightarrow> 'a) \<Rightarrow> 'a list \<Rightarrow> nat \<Rightarrow> nat \<Rightarrow> nat \<Rightarrow> ('a list \<times> nat) option" where
  "alg_transform g m f l d =
     (if f \<noteq> l then do { x \<leftarrow> rd m f; m \<leftarrow> wr m d (g x); alg_transform g m (Suc f) l (Suc d) }
      else Some (m, d))"
  by pat_completeness auto
termination by (relation "measure (\<lambda>(g, m, f, l, d). length m - f)") (auto simp: mem_simps)

function alg_transform2 ::
  "('a \<Rightarrow> 'a \<Rightarrow> 'a) \<Rightarrow> 'a list \<Rightarrow> nat \<Rightarrow> nat \<Rightarrow> nat \<Rightarrow> nat \<Rightarrow> ('a list \<times> nat) option" where
  "alg_transform2 g m f1 l1 f2 d =
     (if f1 \<noteq> l1 then do { x \<leftarrow> rd m f1; y \<leftarrow> rd m f2; m \<leftarrow> wr m d (g x y);
        alg_transform2 g m (Suc f1) l1 (Suc f2) (Suc d) }
      else Some (m, d))"
  by pat_completeness auto
termination by (relation "measure (\<lambda>(g, m, f1, l1, f2, d). length m - f1)") (auto simp: mem_simps)

section \<open>Replacing, filling and generating\<close>

function alg_replace_if :: "('a \<Rightarrow> bool) \<Rightarrow> 'a list \<Rightarrow> nat \<Rightarrow> nat \<Rightarrow> 'a \<Rightarrow> 'a list option" where
  "alg_replace_if pred m f l v =
     (if f \<noteq> l then do { x \<leftarrow> rd m f; m \<leftarrow> (if pred x then wr m f v else Some m);
        alg_replace_if pred m (Suc f) l v }
      else Some m)"
  by pat_completeness auto
termination by (relation "measure (\<lambda>(pred, m, f, l, v). length m - f)") (auto simp: mem_simps split: if_splits)

definition alg_replace :: "'a list \<Rightarrow> nat \<Rightarrow> nat \<Rightarrow> 'a \<Rightarrow> 'a \<Rightarrow> 'a list option" where
  "alg_replace m f l old_value v = alg_replace_if (\<lambda>x. x = old_value) m f l v"

function alg_replace_copy_if ::
  "('a \<Rightarrow> bool) \<Rightarrow> 'a list \<Rightarrow> nat \<Rightarrow> nat \<Rightarrow> nat \<Rightarrow> 'a \<Rightarrow> ('a list \<times> nat) option" where
  "alg_replace_copy_if pred m f l d v =
     (if f \<noteq> l then do { x \<leftarrow> rd m f; m \<leftarrow> wr m d (if pred x then v else x);
        alg_replace_copy_if pred m (Suc f) l (Suc d) v }
      else Some (m, d))"
  by pat_completeness auto
termination by (relation "measure (\<lambda>(pred, m, f, l, d, v). length m - f)") (auto simp: mem_simps)

definition alg_replace_copy :: "'a list \<Rightarrow> nat \<Rightarrow> nat \<Rightarrow> nat \<Rightarrow> 'a \<Rightarrow> 'a \<Rightarrow> ('a list \<times> nat) option" where
  "alg_replace_copy m f l d old_value v = alg_replace_copy_if (\<lambda>x. x = old_value) m f l d v"

function alg_fill :: "'a list \<Rightarrow> nat \<Rightarrow> nat \<Rightarrow> 'a \<Rightarrow> 'a list option" where
  "alg_fill m f l v = (if f \<noteq> l then do { m \<leftarrow> wr m f v; alg_fill m (Suc f) l v } else Some m)"
  by pat_completeness auto
termination by (relation "measure (\<lambda>(m, f, l, v). length m - f)") (auto simp: mem_simps)

primrec alg_fill_n :: "'a list \<Rightarrow> nat \<Rightarrow> nat \<Rightarrow> 'a \<Rightarrow> 'a list option" where
  "alg_fill_n m f 0 v = Some m"
| "alg_fill_n m f (Suc n) v = do { m \<leftarrow> wr m f v; alg_fill_n m (Suc f) n v }"

text \<open>The generator is a function of its state.\<close>

function alg_generate :: "('s \<Rightarrow> 'a \<times> 's) \<Rightarrow> 'a list \<Rightarrow> nat \<Rightarrow> nat \<Rightarrow> 's \<Rightarrow> 'a list option" where
  "alg_generate gen m f l s =
     (if f \<noteq> l then do { m \<leftarrow> wr m f (fst (gen s)); alg_generate gen m (Suc f) l (snd (gen s)) }
      else Some m)"
  by pat_completeness auto
termination by (relation "measure (\<lambda>(gen, m, f, l, s). length m - f)") (auto simp: mem_simps)

primrec alg_generate_n :: "('s \<Rightarrow> 'a \<times> 's) \<Rightarrow> 'a list \<Rightarrow> nat \<Rightarrow> nat \<Rightarrow> 's \<Rightarrow> 'a list option" where
  "alg_generate_n gen m f 0 s = Some m"
| "alg_generate_n gen m f (Suc n) s =
     do { m \<leftarrow> wr m f (fst (gen s)); alg_generate_n gen m (Suc f) n (snd (gen s)) }"

section \<open>Removing\<close>

function alg_remove_copy_if :: "('a \<Rightarrow> bool) \<Rightarrow> 'a list \<Rightarrow> nat \<Rightarrow> nat \<Rightarrow> nat \<Rightarrow> ('a list \<times> nat) option" where
  "alg_remove_copy_if pred m f l d =
     (if f \<noteq> l then do { x \<leftarrow> rd m f;
        if \<not> pred x then do { m \<leftarrow> wr m d x; alg_remove_copy_if pred m (Suc f) l (Suc d) }
        else alg_remove_copy_if pred m (Suc f) l d }
      else Some (m, d))"
  by pat_completeness auto
termination by (relation "measure (\<lambda>(pred, m, f, l, d). length m - f)") (auto simp: mem_simps)

definition alg_remove_copy :: "'a list \<Rightarrow> nat \<Rightarrow> nat \<Rightarrow> nat \<Rightarrow> 'a \<Rightarrow> ('a list \<times> nat) option" where
  "alg_remove_copy m f l d v = alg_remove_copy_if (\<lambda>x. x = v) m f l d"

text \<open>\<^verbatim>\<open>remove\<close> and \<^verbatim>\<open>remove_if\<close> work in place, but end without returning
  the iterator they promise, which is undefined.\<close>

definition alg_remove_if :: "('a \<Rightarrow> bool) \<Rightarrow> 'a list \<Rightarrow> nat \<Rightarrow> nat \<Rightarrow> ('a list \<times> nat) option" where
  "alg_remove_if pred m f l = do { (m, d) \<leftarrow> alg_remove_copy_if pred m f l f; None }"

definition alg_remove :: "'a list \<Rightarrow> nat \<Rightarrow> nat \<Rightarrow> 'a \<Rightarrow> ('a list \<times> nat) option" where
  "alg_remove m f l v = do { (m, d) \<leftarrow> alg_remove_copy m f l f v; None }"

function alg_unique_loop :: "('a \<Rightarrow> 'a \<Rightarrow> bool) \<Rightarrow> 'a list \<Rightarrow> nat \<Rightarrow> nat \<Rightarrow> nat \<Rightarrow> ('a list \<times> nat) option" where
  "alg_unique_loop pred m d f l =
     (if Suc f \<noteq> l then do { x \<leftarrow> rd m d; y \<leftarrow> rd m (Suc f);
        if \<not> pred x y then do { m \<leftarrow> wr m (Suc d) y; alg_unique_loop pred m (Suc d) (Suc f) l }
        else alg_unique_loop pred m d (Suc f) l }
      else Some (m, Suc d))"
  by pat_completeness auto
termination by (relation "measure (\<lambda>(pred, m, d, f, l). length m - f)") (auto simp: mem_simps)

definition alg_unique_pred :: "('a \<Rightarrow> 'a \<Rightarrow> bool) \<Rightarrow> 'a list \<Rightarrow> nat \<Rightarrow> nat \<Rightarrow> ('a list \<times> nat) option" where
  "alg_unique_pred pred m f l = alg_unique_loop pred m f f l"

definition alg_unique :: "'a list \<Rightarrow> nat \<Rightarrow> nat \<Rightarrow> ('a list \<times> nat) option" where
  "alg_unique m f l = alg_unique_pred (=) m f l"

definition alg_unique_copy_pred ::
  "('a \<Rightarrow> 'a \<Rightarrow> bool) \<Rightarrow> 'a list \<Rightarrow> nat \<Rightarrow> nat \<Rightarrow> nat \<Rightarrow> ('a list \<times> nat) option" where
  "alg_unique_copy_pred pred m f l d = do { x \<leftarrow> rd m f; m \<leftarrow> wr m d x; alg_unique_loop pred m d f l }"

definition alg_unique_copy :: "'a list \<Rightarrow> nat \<Rightarrow> nat \<Rightarrow> nat \<Rightarrow> ('a list \<times> nat) option" where
  "alg_unique_copy m f l d = alg_unique_copy_pred (=) m f l d"

section \<open>Permuting\<close>

function alg_reverse :: "'a list \<Rightarrow> nat \<Rightarrow> nat \<Rightarrow> 'a list option" where
  "alg_reverse m f l =
     (if f \<noteq> l then (if l = 0 then None
        else if f \<noteq> l - 1 then do { m \<leftarrow> alg_iter_swap m f (l - 1); alg_reverse m (Suc f) (l - 1) }
        else Some m)
      else Some m)"
  by pat_completeness auto
termination by (relation "measure (\<lambda>(m, f, l). l)") auto

function alg_reverse_copy :: "'a list \<Rightarrow> nat \<Rightarrow> nat \<Rightarrow> nat \<Rightarrow> ('a list \<times> nat) option" where
  "alg_reverse_copy m f l d =
     (if f \<noteq> l then (if l = 0 then None
        else do { x \<leftarrow> rd m (l - 1); m \<leftarrow> wr m d x; alg_reverse_copy m f (l - 1) (Suc d) })
      else Some (m, d))"
  by pat_completeness auto
termination by (relation "measure (\<lambda>(m, f, l, d). l)") auto

function alg_rotate_loop :: "'a list \<Rightarrow> nat \<Rightarrow> nat \<Rightarrow> nat \<Rightarrow> nat \<Rightarrow> 'a list option" where
  "alg_rotate_loop m f middle nxt l =
     (if f \<noteq> nxt then do { m \<leftarrow> alg_swap m f nxt;
        if Suc nxt = l then alg_rotate_loop m (Suc f) middle middle l
        else if Suc f = middle then alg_rotate_loop m (Suc f) (Suc nxt) (Suc nxt) l
        else alg_rotate_loop m (Suc f) middle (Suc nxt) l }
      else Some m)"
  by pat_completeness auto
termination by (relation "measure (\<lambda>(m, f, middle, nxt, l). length m - f)") (auto simp: mem_simps)

definition alg_rotate :: "'a list \<Rightarrow> nat \<Rightarrow> nat \<Rightarrow> nat \<Rightarrow> 'a list option" where
  "alg_rotate m f middle l = alg_rotate_loop m f middle middle l"

definition alg_rotate_copy :: "'a list \<Rightarrow> nat \<Rightarrow> nat \<Rightarrow> nat \<Rightarrow> nat \<Rightarrow> ('a list \<times> nat) option" where
  "alg_rotate_copy m f middle l d = do { (m, d) \<leftarrow> alg_copy m middle l d; alg_copy m f middle d }"

text \<open>The random number generator is a function of its state and of the bound.\<close>

function alg_shuffle_loop :: "('s \<Rightarrow> nat \<Rightarrow> nat \<times> 's) \<Rightarrow> 'a list \<Rightarrow> nat \<Rightarrow> nat \<Rightarrow> nat \<Rightarrow> 's \<Rightarrow> ('a list \<times> 's) option" where
  "alg_shuffle_loop rand m f l i s =
     (if i < l - f then do { m \<leftarrow> alg_swap m (f + i) (f + fst (rand s i));
        alg_shuffle_loop rand m f l (Suc i) (snd (rand s i)) }
      else Some (m, s))"
  by pat_completeness auto
termination by (relation "measure (\<lambda>(rand, m, f, l, i, s). l - f - i)") auto

definition alg_random_shuffle :: "('s \<Rightarrow> nat \<Rightarrow> nat \<times> 's) \<Rightarrow> 'a list \<Rightarrow> nat \<Rightarrow> nat \<Rightarrow> 's \<Rightarrow> ('a list \<times> 's) option" where
  "alg_random_shuffle rand m f l s = alg_shuffle_loop rand m f l 2 s"

text \<open>\<open>alg_partition_down\<close> is the loop that looks for the last element with the property; the
  loop that looks for the first one without it is that of \<^verbatim>\<open>find_if\<close>.\<close>

fun alg_partition_down :: "('a \<Rightarrow> bool) \<Rightarrow> 'a list \<Rightarrow> nat \<Rightarrow> nat \<Rightarrow> nat option" where
  "alg_partition_down pred m f 0 = None"
| "alg_partition_down pred m f (Suc l) =
     (if f \<noteq> l then do { x \<leftarrow> rd m l; if \<not> pred x then alg_partition_down pred m f l else Some l }
      else Some l)"

lemma alg_partition_down_less: "alg_partition_down pred m f l = Some k \<Longrightarrow> k < l"
  by (induction l arbitrary: k) (auto simp: mem_simps less_Suc_eq split: if_splits)

function alg_partition :: "('a \<Rightarrow> bool) \<Rightarrow> 'a list \<Rightarrow> nat \<Rightarrow> nat \<Rightarrow> ('a list \<times> nat) option" where
  "alg_partition pred m f l = do {
     f \<leftarrow> alg_find_if (\<lambda>x. \<not> pred x) m f l;
     if f = l then Some (m, f)
     else do { l \<leftarrow> alg_partition_down pred m f l;
       if f = l then Some (m, f)
       else do { m \<leftarrow> alg_iter_swap m f l; alg_partition pred m (Suc f) l } } }"
  by pat_completeness auto
termination by (relation "measure (\<lambda>(pred, m, f, l). l)") (auto dest: alg_partition_down_less)

declare alg_swap_ranges.simps [simp del] alg_copy.simps [simp del] alg_copy_backward.simps [simp del]
  alg_transform.simps [simp del] alg_transform2.simps [simp del] alg_replace_if.simps [simp del]
  alg_replace_copy_if.simps [simp del] alg_fill.simps [simp del] alg_generate.simps [simp del]
  alg_remove_copy_if.simps [simp del] alg_unique_loop.simps [simp del] alg_reverse.simps [simp del]
  alg_reverse_copy.simps [simp del] alg_rotate_loop.simps [simp del] alg_shuffle_loop.simps [simp del]
  alg_partition.simps [simp del]

section \<open>What the loops do\<close>

text \<open>A memory is the part in front of a range, the range, and the part behind it.\<close>

lemma seg_split: "f \<le> l \<Longrightarrow> l \<le> length m \<Longrightarrow> m = take f m @ seg m f l @ drop l m"
  by (simp add: seg_def) (metis append_take_drop_id drop_drop le_add_diff_inverse2 ordered_cancel_comm_monoid_diff_class.add_diff_inverse add.commute)

lemma seg_append_middle [simp]: "seg (p @ s @ r) (length p) (length p + length s) = s"
  by (simp add: seg_def)

lemma swap_append:
  "alg_swap (p @ x # q @ y # r) (length p) (Suc (length p + length q)) = Some (p @ y # q @ x # r)"
  by (auto simp: mem_simps nth_append list_update_append)

lemma mset_swapped: "a < length m \<Longrightarrow> b < length m \<Longrightarrow> mset (m[a := m ! b, b := m ! a]) = mset m"
  by (metis list_update_swap mset_swap)

lemma alg_copy_memcpy:
  assumes "f \<le> l" and "l \<le> length m" and "d + (l - f) \<le> length m" and "d \<le> f \<or> l \<le> d"
  shows "alg_copy m f l d = Some (take d m @ seg m f l @ drop (d + (l - f)) m, d + (l - f))"
  using assms
proof (induction "l - f" arbitrary: m f d)
  case 0
  then show ?case by (simp add: alg_copy.simps)
next
  case (Suc k)
  have fl: "f < l" using Suc.hyps(2) by simp
  have d: "d < length m" using Suc.prems(3) fl by simp
  let ?m = "m[d := m ! f]"
  have "seg ?m (Suc f) l = seg m (Suc f) l" using Suc.prems(4) fl by (intro seg_update_outside) auto
  moreover have "take (Suc d) ?m = take d m @ [m ! f]" using d by (simp add: take_Suc_conv_app_nth)
  moreover have "drop (Suc d + (l - Suc f)) ?m = drop (d + (l - f)) m"
    using fl by (simp add: Suc_diff_Suc flip: add_Suc_right)
  moreover have "alg_copy ?m (Suc f) l (Suc d) =
      Some (take (Suc d) ?m @ seg ?m (Suc f) l @ drop (Suc d + (l - Suc f)) ?m, Suc d + (l - Suc f))"
    using Suc.prems fl Suc.hyps(2) by (intro Suc.hyps(1)) auto
  ultimately show ?case
    using fl d Suc.prems(2) by (subst alg_copy.simps) (simp add: seg_Cons)
qed

lemma alg_reverse_append: "alg_reverse (p @ s @ r) (length p) (length p + length s) = Some (p @ rev s @ r)"
proof (induction "length s" arbitrary: p s r rule: less_induct)
  case less
  consider "s = []" | x where "s = [x]" | x q y where "s = x # q @ [y]"
    by (metis append_butlast_last_id neq_Nil_conv)
  then show ?case
  proof cases
    case 3
    have "alg_reverse ((p @ [y]) @ q @ (x # r)) (length (p @ [y])) (length (p @ [y]) + length q) =
        Some ((p @ [y]) @ rev q @ (x # r))"
      by (rule less) (simp add: 3)
    then show ?thesis
      using 3 by (subst alg_reverse.simps) (simp add: alg_iter_swap_def swap_append)
  qed (subst alg_reverse.simps, simp)+
qed

text \<open>The loop of \<^verbatim>\<open>rotate\<close>: \<open>A\<close> is still in front of the middle, \<open>B\<close> are the elements
  it has moved behind the middle, \<open>C\<close> the ones it has still to fetch.\<close>

lemma alg_rotate_loop_append:
  assumes "A \<noteq> []" and "C \<noteq> []"
  shows "alg_rotate_loop (p @ A @ B @ C @ r) (length p) (length p + length A)
      (length p + length A + length B) (length p + length A + length B + length C) =
    Some (p @ C @ B @ A @ r)"
  using assms
proof (induction "length (A @ B @ C)" arbitrary: p A B C rule: less_induct)
  case less
  obtain a A' where A: "A = a # A'" using less.prems(1) by (cases A) auto
  obtain c C' where C: "C = c # C'" using less.prems(2) by (cases C) auto
  have swap: "alg_swap (p @ A @ B @ C @ r) (length p) (length p + length A + length B) =
      Some ((p @ [c]) @ A' @ (B @ [a]) @ C' @ r)"
    using swap_append [of p a "A' @ B" c "C' @ r"] by (simp add: A C add.assoc)
  have IH: "A1 \<noteq> [] \<Longrightarrow> C1 \<noteq> [] \<Longrightarrow> length (A1 @ B1 @ C1) < length (A @ B @ C) \<Longrightarrow>
      alg_rotate_loop ((p @ [c]) @ A1 @ B1 @ C1 @ r) (Suc (length p)) (Suc (length p + length A1))
       (Suc (length p + length A1 + length B1)) (Suc (length p + length A1 + length B1 + length C1)) =
      Some ((p @ [c]) @ C1 @ B1 @ A1 @ r)" for A1 B1 C1
    using less.hyps [of A1 B1 C1 "p @ [c]"] by simp
  have empty: "alg_rotate_loop m k i k l = Some m" for m :: "'a list" and k i l
    by (subst alg_rotate_loop.simps) simp
  show ?case
  proof (cases "C' = []")
    case True
    show ?thesis
    proof (cases "A' = []")
      case True
      then show ?thesis
        using swap \<open>C' = []\<close> by (subst alg_rotate_loop.simps) (simp add: A C empty)
    next
      case False
      then show ?thesis
        using swap \<open>C' = []\<close> IH [of A' "B @ [a]" "[]"] by (subst alg_rotate_loop.simps) (simp add: A C ac_simps)
    qed
  next
    case False
    show ?thesis
    proof (cases "A' = []")
      case True
      then show ?thesis
        using swap False IH [of "B @ [a]" C' "[]"] by (subst alg_rotate_loop.simps) (simp add: A C ac_simps)
    next
      case False
      then show ?thesis
        using swap \<open>C' \<noteq> []\<close> IH [of A' C' "B @ [a]"] by (subst alg_rotate_loop.simps) (simp add: A C ac_simps)
    qed
  qed
qed

lemma alg_rotate_append:
  assumes "C \<noteq> [] \<or> A = []"
  shows "alg_rotate (p @ A @ C @ r) (length p) (length p + length A) (length p + length A + length C) =
    Some (p @ C @ A @ r)"
proof (cases "A = []")
  case True
  then show ?thesis by (simp add: alg_rotate_def alg_rotate_loop.simps)
next
  case False
  then show ?thesis
    using assms alg_rotate_loop_append [of A C p "[]" r] by (simp add: alg_rotate_def)
qed

lemma alg_partition_down_spec:
  assumes "f \<le> k" and "k < l" and "l \<le> length m" and "k = f \<or> pred (m ! k)"
    and "\<And>i. k < i \<Longrightarrow> i < l \<Longrightarrow> \<not> pred (m ! i)"
  shows "alg_partition_down pred m f l = Some k"
  using assms
proof (induction l)
  case (Suc l)
  show ?case
  proof (cases "l = k")
    case False
    then have "\<not> pred (m ! l)" "k < l" using Suc.prems by simp_all
    then show ?thesis using Suc False by simp
  qed (use Suc.prems in auto)
qed simp

lemma alg_partition_down_append:
  assumes "f \<le> length q" and "length q = f \<or> pred x" and "\<forall>y \<in> set z. \<not> pred y"
  shows "alg_partition_down pred (q @ x # z @ r) f (Suc (length q + length z)) = Some (length q)"
proof (rule alg_partition_down_spec)
  fix i assume i: "length q < i" "i < Suc (length q + length z)"
  then have "(q @ x # z @ r) ! i = z ! (i - Suc (length q))"
    by (simp add: nth_append nth_Cons' less_diff_conv2 Suc_le_eq)
  moreover have "z ! (i - Suc (length q)) \<in> set z" using i by (intro nth_mem) simp
  ultimately show "\<not> pred ((q @ x # z @ r) ! i)" using assms(3) by simp
qed (use assms in auto)

lemma split_at_first:
  obtains "\<forall>x \<in> set s. P x" | u x v where "s = u @ x # v" "\<forall>y \<in> set u. P y" "\<not> P x"
  using split_list_first_prop [of s "\<lambda>x. \<not> P x"] by blast

lemma split_at_last:
  obtains "\<forall>x \<in> set s. P x" | u x v where "s = u @ x # v" "\<forall>y \<in> set v. P y" "\<not> P x"
  using split_list_last_prop [of s "\<lambda>x. \<not> P x"] by blast

lemma find_if_append:
  assumes "\<forall>y \<in> set u. \<not> P y" and "v = [] \<or> P (hd v)"
  shows "alg_find_if P (p @ (u @ v) @ r) (length p) (length p + length (u @ v)) = Some (length p + length u)"
proof -
  have "takeWhile (\<lambda>x. \<not> P x) (u @ v) = u"
    using assms by (cases v) auto
  then show ?thesis
    using alg_find_if_takeWhile [of "length p" "length p + length (u @ v)" "p @ (u @ v) @ r" P]
    by (simp add: seg_append_middle [of p "u @ v", simplified])
qed

lemma alg_partition_append:
  "\<exists>s1 s2. alg_partition pred (p @ s @ r) (length p) (length p + length s) =
      Some (p @ (s1 @ s2) @ r, length p + length s1) \<and>
    mset (s1 @ s2) = mset s \<and> (\<forall>x \<in> set s1. pred x) \<and> (\<forall>x \<in> set s2. \<not> pred x)"
proof (induction "length s" arbitrary: p s r rule: less_induct)
  case less
  show ?case
  proof (rule split_at_first [of s pred])
    assume all: "\<forall>x \<in> set s. pred x"
    then have "alg_find_if (\<lambda>x. \<not> pred x) (p @ s @ r) (length p) (length p + length s) = Some (length p + length s)"
      using find_if_append [of s "\<lambda>x. \<not> pred x" "[]" p r] by simp
    then show ?thesis
      using all by (intro exI [of _ s] exI [of _ "[]"]) (subst alg_partition.simps, simp)
  next
    fix u x v assume s: "s = u @ x # v" and u: "\<forall>y \<in> set u. pred y" and x: "\<not> pred x"
    have find: "alg_find_if (\<lambda>x. \<not> pred x) (p @ s @ r) (length p) (length p + length s) = Some (length p + length u)"
      using find_if_append [of u "\<lambda>x. \<not> pred x" "x # v" p r] u x by (simp add: s)
    show ?thesis
    proof (rule split_at_last [of v "\<lambda>x. \<not> pred x"])
      assume v: "\<forall>y \<in> set v. \<not> pred y"
      have "alg_partition_down pred (p @ s @ r) (length p + length u) (length p + length s) = Some (length p + length u)"
        using v alg_partition_down_append [of "length p + length u" "p @ u" pred x v r] by (simp add: s add.assoc)
      then show ?thesis
        using find u v x by (intro exI [of _ u] exI [of _ "x # v"]) (subst alg_partition.simps, simp add: s)
    next
      fix w y z assume v: "v = w @ y # z" and z: "\<forall>y \<in> set z. \<not> pred y" and y: "\<not> \<not> pred y"
      let ?k = "Suc (length p + length u + length w)"
      have down: "alg_partition_down pred (p @ s @ r) (length p + length u) (length p + length s) = Some ?k"
        using z y alg_partition_down_append [of "length p + length u" "p @ u @ x # w" pred y z r]
        by (simp add: s v add.assoc)
      have swap: "alg_iter_swap (p @ s @ r) (length p + length u) ?k =
          Some ((p @ u @ [y]) @ w @ ((x # z) @ r))"
        using swap_append [of "p @ u" x w y "z @ r"] by (simp add: alg_iter_swap_def s v add.assoc)
      obtain s1 s2 where IH: "alg_partition pred ((p @ u @ [y]) @ w @ ((x # z) @ r))
            (length (p @ u @ [y])) (length (p @ u @ [y]) + length w) =
          Some ((p @ u @ [y]) @ (s1 @ s2) @ ((x # z) @ r), length (p @ u @ [y]) + length s1)"
          "mset (s1 @ s2) = mset w" "\<forall>x \<in> set s1. pred x" "\<forall>x \<in> set s2. \<not> pred x"
        using less [of w "p @ u @ [y]" "(x # z) @ r"] by (auto simp: s v)
      have "alg_partition pred (p @ s @ r) (length p) (length p + length s) =
          alg_partition pred ((p @ u @ [y]) @ w @ ((x # z) @ r)) (Suc (length p + length u)) ?k"
        by (subst alg_partition.simps) (simp add: find down swap, simp add: s v)
      then show ?thesis
        using IH(1,3,4) u y x z IH(2) [symmetric]
        by (intro exI [of _ "u @ y # s1"] exI [of _ "s2 @ x # z"]) (auto simp: s v ac_simps)
    qed
  qed
qed

lemma alg_remove_copy_if_spec:
  assumes "d \<le> f" and "f \<le> l" and "l \<le> length m"
  shows "\<exists>m' e. alg_remove_copy_if pred m f l d = Some (m', e) \<and> length m' = length m \<and>
    take d m' = take d m \<and> drop l m' = drop l m \<and> d \<le> e \<and> e \<le> l \<and>
    seg m' d e = filter (\<lambda>x. \<not> pred x) (seg m f l)"
  using assms
proof (induction "l - f" arbitrary: m f d)
  case 0
  then show ?case by (simp add: alg_remove_copy_if.simps)
next
  case (Suc k)
  have fl: "f < l" and k: "k = l - Suc f" using Suc.hyps(2) by simp_all
  show ?case
  proof (cases "pred (m ! f)")
    case True
    moreover obtain m' e where "alg_remove_copy_if pred m (Suc f) l d = Some (m', e) \<and> length m' = length m \<and>
        take d m' = take d m \<and> drop l m' = drop l m \<and> d \<le> e \<and> e \<le> l \<and>
        seg m' d e = filter (\<lambda>x. \<not> pred x) (seg m (Suc f) l)"
      using Suc.hyps(1) [OF k, of d m] fl Suc.prems by auto
    ultimately show ?thesis
      using Suc.prems fl by (subst alg_remove_copy_if.simps) (simp add: seg_Cons)
  next
    case False
    let ?m = "m[d := m ! f]"
    obtain m' e where m': "alg_remove_copy_if pred ?m (Suc f) l (Suc d) = Some (m', e)" "length m' = length m"
        "take (Suc d) m' = take (Suc d) ?m" "drop l m' = drop l ?m" "Suc d \<le> e" "e \<le> l"
        "seg m' (Suc d) e = filter (\<lambda>x. \<not> pred x) (seg ?m (Suc f) l)"
      using Suc.hyps(1) [OF k, of "Suc d" ?m] fl Suc.prems by auto
    have d: "d < length m" using Suc.prems fl by simp
    have "m' ! d = m ! f" "take d m' = take d m"
      using m'(2,3) d by (simp_all add: take_Suc_conv_app_nth)
    moreover have "drop l m' = drop l m" using m'(4) Suc.prems(1) fl by simp
    moreover have "seg m' d e = m ! f # filter (\<lambda>x. \<not> pred x) (seg m (Suc f) l)"
      using m' Suc.prems fl \<open>m' ! d = m ! f\<close> by (simp add: seg_Cons)
    ultimately show ?thesis
      using Suc.prems fl d False m' by (subst alg_remove_copy_if.simps) (simp add: seg_Cons)
  qed
qed

lemma alg_unique_loop_spec:
  assumes "d \<le> f" and "f < l" and "l \<le> length m"
  shows "\<exists>m' e. alg_unique_loop (=) m d f l = Some (m', e) \<and> length m' = length m \<and>
    take d m' = take d m \<and> drop l m' = drop l m \<and> d < e \<and> e \<le> l \<and>
    seg m' d e = remdups_adj (m ! d # seg m (Suc f) l)"
  using assms
proof (induction "l - f" arbitrary: m f d)
  case (Suc k)
  have k: "k = l - Suc f" and d: "d < length m" using Suc.hyps(2) Suc.prems by simp_all
  show ?case
  proof (cases "Suc f = l")
    case True
    then show ?thesis
      using Suc.prems d by (subst alg_unique_loop.simps) (simp add: seg_Cons)
  next
    case False
    then have f: "Suc f < l" using Suc.prems by simp
    show ?thesis
    proof (cases "m ! d = m ! Suc f")
      case True
      moreover obtain m' e where "alg_unique_loop (=) m d (Suc f) l = Some (m', e) \<and> length m' = length m \<and>
          take d m' = take d m \<and> drop l m' = drop l m \<and> d < e \<and> e \<le> l \<and>
          seg m' d e = remdups_adj (m ! d # seg m (Suc (Suc f)) l)"
        using Suc.hyps(1) [OF k, of d m] f Suc.prems by auto
      ultimately show ?thesis
        using Suc.prems f d by (subst alg_unique_loop.simps) (simp add: seg_Cons)
    next
      case False
      let ?m = "m[Suc d := m ! Suc f]"
      have Sd: "Suc d < length m" using Suc.prems f by simp
      obtain m' e where m': "alg_unique_loop (=) ?m (Suc d) (Suc f) l = Some (m', e)" "length m' = length m"
          "take (Suc d) m' = take (Suc d) ?m" "drop l m' = drop l ?m" "Suc d < e" "e \<le> l"
          "seg m' (Suc d) e = remdups_adj (m ! Suc f # seg ?m (Suc (Suc f)) l)"
        using Suc.hyps(1) [OF k, of "Suc d" ?m] f Sd Suc.prems by auto
      have "m' ! d = m ! d" "take d m' = take d m"
        using m'(2,3) d by (simp_all add: take_Suc_conv_app_nth)
      moreover have "drop l m' = drop l m" using m'(4) Suc.prems f by simp
      moreover have "seg m' d e = m ! d # remdups_adj (m ! Suc f # seg m (Suc (Suc f)) l)"
        using m' Suc.prems \<open>m' ! d = m ! d\<close> by (simp add: seg_Cons)
      ultimately show ?thesis
        using Suc.prems f d Sd False m' by (subst alg_unique_loop.simps) (simp add: seg_Cons)
    qed
  qed
qed simp

text \<open>When the second part is empty, the iterator \<^verbatim>\<open>next\<close> never meets the end.\<close>

lemma alg_rotate_loop_runs_out:
  "f < nxt \<Longrightarrow> l \<le> nxt \<Longrightarrow> alg_rotate_loop m f middle nxt l = None"
proof (induction m f middle nxt l rule: alg_rotate_loop.induct)
  case (1 m f middle nxt l)
  show ?case
  proof (cases "alg_swap m f nxt")
    case None
    then show ?thesis using 1(4) by (subst alg_rotate_loop.simps) simp
  next
    case (Some m')
    then show ?thesis
      using 1 by (subst alg_rotate_loop.simps) (simp del: alg_rotate_loop.simps)
  qed
qed

lemma alg_shuffle_loop_mset:
  "alg_shuffle_loop rand m f l i s = Some (m', s') \<Longrightarrow> mset m' = mset m"
proof (induction rand m f l i s arbitrary: m' s' rule: alg_shuffle_loop.induct)
  case (1 rand m f l i s)
  show ?case
    using 1(2) 1(1) by (subst (asm) alg_shuffle_loop.simps) (fastforce simp: mem_simps mset_swapped split: if_splits)
qed

section \<open>Properties\<close>

text \<open>\<open>rotate\<close> exchanges the two parts of a range in place, in order, and touches nothing
  else; but when the second part is empty and the first is not, it leaves the memory instead of
  doing nothing.\<close>

theorem alg_rotate_exchanges:
  assumes "f \<le> middle" and "middle \<le> l" and "l \<le> length m"
  shows "alg_rotate m f middle l =
    (if middle < l \<or> f = middle then Some (take f m @ seg m middle l @ seg m f middle @ drop l m) else None)"
proof (cases "middle < l \<or> f = middle")
  case True
  have "m = take f m @ seg m f middle @ seg m middle l @ drop l m"
    using assms seg_split [of f l m] seg_append [of f middle l m] by simp
  moreover have "alg_rotate (take f m @ seg m f middle @ seg m middle l @ drop l m) f middle l =
      Some (take f m @ seg m middle l @ seg m f middle @ drop l m)"
    using alg_rotate_append [of "seg m middle l" "seg m f middle" "take f m" "drop l m"] assms True
    by (auto simp: seg_def)
  ultimately show ?thesis using True by simp
next
  case False
  then show ?thesis
    using assms alg_rotate_loop_runs_out [of f middle l m middle] by (simp add: alg_rotate_def)
qed

theorem alg_rotate_exchanges_witness:
  "alg_rotate [9, 1, 2, 3, 4, 5, 8] 1 3 6 = Some [9, 3, 4, 5, 1, 2, (8::nat)] \<and>
   alg_rotate [9, 1, 2, 3, 4, 5, 8] 1 6 6 = (None :: nat list option)"
  using alg_rotate_exchanges [of 1 3 6 "[9, 1, 2, 3, 4, 5, (8::nat)]"]
    alg_rotate_exchanges [of 1 6 6 "[9, 1, 2, 3, 4, 5, (8::nat)]"]
  by (simp add: seg_def)

text \<open>\<open>partition\<close> moves the elements with a property in front of the others, keeps all of
  them and touches nothing else, and returns the border.\<close>

theorem alg_partition_separates:
  assumes "f \<le> l" and "l \<le> length m"
  shows "\<exists>s1 s2. alg_partition pred m f l = Some (take f m @ s1 @ s2 @ drop l m, f + length s1) \<and>
    mset (s1 @ s2) = mset (seg m f l) \<and> (\<forall>x \<in> set s1. pred x) \<and> (\<forall>x \<in> set s2. \<not> pred x)"
  using alg_partition_append [of pred "take f m" "seg m f l" "drop l m"] assms
  by (simp flip: seg_split)

theorem alg_partition_separates_witness:
  "\<exists>s1 s2. alg_partition (\<lambda>x. x < 5) [9, 1, 7, 3, 6, (2::nat)] 1 6 = Some ([9] @ s1 @ s2, 1 + length s1) \<and>
    mset (s1 @ s2) = {#1, 7, 3, 6, 2#}"
  using alg_partition_separates [of 1 6 "[9, 1, 7, 3, 6, (2::nat)]" "\<lambda>x. x < 5"] by (auto simp: seg_def)

text \<open>Removing the elements of a range that equal a value with \<open>remove_copy\<close>, in place or
  to a place in front, leaves the others in order, and \<open>unique\<close> leaves one element of each
  run of equal ones; both touch nothing outside of the range. \<open>remove\<close> has no result.\<close>

theorem alg_remove_unique:
  assumes "f < l" and "l \<le> length m"
  shows "\<exists>m1 e1 m2 e2. alg_remove_copy m f l f v = Some (m1, e1) \<and> alg_unique m f l = Some (m2, e2) \<and>
    seg m1 f e1 = filter (\<lambda>x. x \<noteq> v) (seg m f l) \<and> seg m2 f e2 = remdups_adj (seg m f l) \<and>
    take f m1 = take f m \<and> take f m2 = take f m \<and> drop l m1 = drop l m \<and> drop l m2 = drop l m \<and>
    e1 \<le> l \<and> e2 \<le> l \<and> alg_remove m f l v = None"
proof -
  obtain m1 e1 where "alg_remove_copy m f l f v = Some (m1, e1)" "take f m1 = take f m" "drop l m1 = drop l m"
      "e1 \<le> l" "seg m1 f e1 = filter (\<lambda>x. x \<noteq> v) (seg m f l)"
    using alg_remove_copy_if_spec [of f f l m "\<lambda>x. x = v"] assms by (auto simp: alg_remove_copy_def)
  moreover obtain m2 e2 where "alg_unique m f l = Some (m2, e2)" "take f m2 = take f m" "drop l m2 = drop l m"
      "e2 \<le> l" "seg m2 f e2 = remdups_adj (m ! f # seg m (Suc f) l)"
    using alg_unique_loop_spec [of f f l m] assms by (auto simp: alg_unique_def alg_unique_pred_def)
  ultimately show ?thesis using assms by (simp add: alg_remove_def seg_Cons)
qed

theorem alg_remove_unique_witness:
  "\<exists>m1 e1 m2 e2. alg_remove_copy [9, 4, 4, 7, 4, (8::nat)] 1 5 1 4 = Some (m1, e1) \<and> seg m1 1 e1 = [7] \<and>
    alg_unique [9, 4, 4, 7, 4, (8::nat)] 1 5 = Some (m2, e2) \<and> seg m2 1 e2 = [4, 7, 4]"
  using alg_remove_unique [of 1 5 "[9, 4, 4, 7, 4, (8::nat)]" 4] by (auto simp: seg_def)

end
