(* ===== verification/Pstl_Heap.thy ===== *)
theory Pstl_Heap
  imports Pstl_Modify
begin

text \<open>
  \<^verbatim>\<open>wiselib.testing/util/pstl/algorithm.h\<close>, heaps and sorting. The heap functions take a
  pointer \<^verbatim>\<open>base\<close> to the place in front of the first element, so that the elements are
  \<^verbatim>\<open>base[1]\<close> to \<^verbatim>\<open>base[n]\<close>; here the argument is the index \<open>lo\<close> of
  \<^verbatim>\<open>base[1]\<close>, and \<open>heap_rd m lo k\<close> is \<^verbatim>\<open>base[k]\<close>.
  \<open>push_heap\<close> and \<open>pop_heap\<close> call their helpers with the arguments
  \<^verbatim>\<open>--first, last - first\<close>, in whose order of evaluation compilers differ:
  \<open>right_to_left\<close> tells which argument is evaluated first.

  \<^verbatim>\<open>__medianof3\<close> (and \<^verbatim>\<open>quickselect\<close>, \<^verbatim>\<open>nth_element\<close>) and
  \<^verbatim>\<open>__heap_select\<close> (and \<^verbatim>\<open>heap_select\<close>, \<^verbatim>\<open>partial_sort\<close>)
  are left out: they shift an iterator and dereference an index, so no instance of them compiles.
\<close>

section \<open>Partition around a pivot\<close>

definition alg_pivot_partition :: "('a \<Rightarrow> 'a \<Rightarrow> bool) \<Rightarrow> 'a list \<Rightarrow> nat \<Rightarrow> nat \<Rightarrow> nat \<Rightarrow> ('a list \<times> nat) option" where
  "alg_pivot_partition cmp m f pivot l =
     (if l = 0 then None
      else do {
        m \<leftarrow> alg_iter_swap m (l - 1) pivot;
        v \<leftarrow> rd m (l - 1);
        (m, pivot) \<leftarrow> alg_partition (\<lambda>x. cmp x v) m f (l - 1);
        m \<leftarrow> alg_iter_swap m pivot (l - 1);
        Some (m, pivot) })"

section \<open>Heaps\<close>

definition heap_rd :: "'a list \<Rightarrow> nat \<Rightarrow> nat \<Rightarrow> 'a option" where
  "heap_rd m lo k = (if lo + k = 0 then None else rd m (lo + k - 1))"

definition heap_swap :: "'a list \<Rightarrow> nat \<Rightarrow> nat \<Rightarrow> nat \<Rightarrow> 'a list option" where
  "heap_swap m lo j k = (if lo + j = 0 \<or> lo + k = 0 then None else alg_swap m (lo + j - 1) (lo + k - 1))"

function alg_push_heap_loop :: "('a \<Rightarrow> 'a \<Rightarrow> bool) \<Rightarrow> 'a list \<Rightarrow> nat \<Rightarrow> nat \<Rightarrow> 'a list option" where
  "alg_push_heap_loop cmp m lo n =
     (if 1 < n then do {
        x \<leftarrow> heap_rd m lo (n div 2);
        y \<leftarrow> heap_rd m lo n;
        if \<not> cmp x y then Some m
        else do { m \<leftarrow> heap_swap m lo (n div 2) n; alg_push_heap_loop cmp m lo (n div 2) } }
      else Some m)"
  by pat_completeness auto
termination by (relation "measure (\<lambda>(cmp, m, lo, n). n)") auto

text \<open>\<^verbatim>\<open>--first\<close> of the first element of the memory is undefined, but compilers give the
  pointer in front of it; so does \<open>lo\<close>.\<close>

definition alg_push_heap_comp :: "bool \<Rightarrow> ('a \<Rightarrow> 'a \<Rightarrow> bool) \<Rightarrow> 'a list \<Rightarrow> nat \<Rightarrow> nat \<Rightarrow> 'a list option" where
  "alg_push_heap_comp right_to_left cmp m f l =
     alg_push_heap_loop cmp m f (if right_to_left then l - f else l + 1 - f)"

definition alg_push_heap :: "bool \<Rightarrow> 'a::linorder list \<Rightarrow> nat \<Rightarrow> nat \<Rightarrow> 'a list option" where
  "alg_push_heap right_to_left m f l = alg_push_heap_comp right_to_left (<) m f l"

text \<open>From \<open>start = 0\<close> the loop need not end, so the function is a partial one.\<close>

partial_function (option) alg_sift_down :: "('a \<Rightarrow> 'a \<Rightarrow> bool) \<Rightarrow> 'a list \<Rightarrow> nat \<Rightarrow> nat \<Rightarrow> nat \<Rightarrow> 'a list option" where
  "alg_sift_down cmp m lo start n =
     (if start \<le> n div 2 then
        Option.bind (if 2 * start < n then
            Option.bind (heap_rd m lo (2 * start)) (\<lambda>x.
            Option.bind (heap_rd m lo (2 * start OR 1)) (\<lambda>y.
            Some (if cmp x y then 2 * start OR 1 else 2 * start)))
          else Some (2 * start)) (\<lambda>child.
        Option.bind (heap_rd m lo start) (\<lambda>x.
        Option.bind (heap_rd m lo child) (\<lambda>y.
        if \<not> cmp x y then Some m
        else Option.bind (heap_swap m lo start child) (\<lambda>m. alg_sift_down cmp m lo child n))))
      else Some m)"

declare alg_sift_down.simps [code]

definition alg_pop_heap_base :: "('a \<Rightarrow> 'a \<Rightarrow> bool) \<Rightarrow> 'a list \<Rightarrow> nat \<Rightarrow> nat \<Rightarrow> 'a list option" where
  "alg_pop_heap_base cmp m lo n = do { m \<leftarrow> heap_swap m lo n 1; alg_sift_down cmp m lo 1 (n - 1) }"

definition alg_pop_heap_comp :: "bool \<Rightarrow> ('a \<Rightarrow> 'a \<Rightarrow> bool) \<Rightarrow> 'a list \<Rightarrow> nat \<Rightarrow> nat \<Rightarrow> 'a list option" where
  "alg_pop_heap_comp right_to_left cmp m f l =
     alg_pop_heap_base cmp m f (if right_to_left then l - f else l + 1 - f)"

definition alg_pop_heap :: "bool \<Rightarrow> 'a::linorder list \<Rightarrow> nat \<Rightarrow> nat \<Rightarrow> 'a list option" where
  "alg_pop_heap right_to_left m f l = alg_pop_heap_comp right_to_left (<) m f l"

primrec alg_make_heap_loop :: "('a \<Rightarrow> 'a \<Rightarrow> bool) \<Rightarrow> 'a list \<Rightarrow> nat \<Rightarrow> nat \<Rightarrow> nat \<Rightarrow> 'a list option" where
  "alg_make_heap_loop cmp m lo n 0 = Some m"
| "alg_make_heap_loop cmp m lo n (Suc k) =
     do { m \<leftarrow> alg_sift_down cmp m lo (Suc k) n; alg_make_heap_loop cmp m lo n k }"

definition alg_make_heap_comp :: "('a \<Rightarrow> 'a \<Rightarrow> bool) \<Rightarrow> 'a list \<Rightarrow> nat \<Rightarrow> nat \<Rightarrow> 'a list option" where
  "alg_make_heap_comp cmp m f l = alg_make_heap_loop cmp m f (l - f) ((l - f) div 2)"

definition alg_make_heap :: "'a::linorder list \<Rightarrow> nat \<Rightarrow> nat \<Rightarrow> 'a list option" where
  "alg_make_heap m f l = alg_make_heap_comp (<) m f l"

function alg_sort_heap_loop :: "('a \<Rightarrow> 'a \<Rightarrow> bool) \<Rightarrow> 'a list \<Rightarrow> nat \<Rightarrow> nat \<Rightarrow> 'a list option" where
  "alg_sort_heap_loop cmp m lo n =
     (if 1 < n then do { m \<leftarrow> alg_pop_heap_base cmp m lo n; alg_sort_heap_loop cmp m lo (n - 1) } else Some m)"
  by pat_completeness auto
termination by (relation "measure (\<lambda>(cmp, m, lo, n). n)") auto

definition alg_sort_heap_comp :: "('a \<Rightarrow> 'a \<Rightarrow> bool) \<Rightarrow> 'a list \<Rightarrow> nat \<Rightarrow> nat \<Rightarrow> 'a list option" where
  "alg_sort_heap_comp cmp m f l = alg_sort_heap_loop cmp m f (l - f)"

definition alg_sort_heap :: "'a::linorder list \<Rightarrow> nat \<Rightarrow> nat \<Rightarrow> 'a list option" where
  "alg_sort_heap m f l = alg_sort_heap_comp (<) m f l"

definition alg_heap_sort_comp :: "('a \<Rightarrow> 'a \<Rightarrow> bool) \<Rightarrow> 'a list \<Rightarrow> nat \<Rightarrow> nat \<Rightarrow> 'a list option" where
  "alg_heap_sort_comp cmp m f l = do { m \<leftarrow> alg_make_heap_comp cmp m f l; alg_sort_heap_comp cmp m f l }"

definition alg_heap_sort :: "'a::linorder list \<Rightarrow> nat \<Rightarrow> nat \<Rightarrow> 'a list option" where
  "alg_heap_sort m f l = alg_heap_sort_comp (<) m f l"

section \<open>Sorting\<close>

function alg_linear_insert_comp :: "('a \<Rightarrow> 'a \<Rightarrow> bool) \<Rightarrow> 'a list \<Rightarrow> nat \<Rightarrow> nat \<Rightarrow> 'a \<Rightarrow> 'a list option" where
  "alg_linear_insert_comp cmp m f l v =
     (if l \<noteq> f then (if l = 0 then None
        else do { x \<leftarrow> rd m (l - 1);
          if cmp v x then do { m \<leftarrow> wr m l x; alg_linear_insert_comp cmp m f (l - 1) v } else wr m l v })
      else wr m l v)"
  by pat_completeness auto
termination by (relation "measure (\<lambda>(cmp, m, f, l, v). l)") auto

definition alg_linear_insert :: "'a::linorder list \<Rightarrow> nat \<Rightarrow> nat \<Rightarrow> 'a \<Rightarrow> 'a list option" where
  "alg_linear_insert m f l v = alg_linear_insert_comp (<) m f l v"

declare alg_linear_insert_comp.simps [simp del]

lemma alg_linear_insert_length: "alg_linear_insert_comp cmp m f l v = Some m' \<Longrightarrow> length m' = length m"
proof (induction cmp m f l v rule: alg_linear_insert_comp.induct)
  case (1 cmp m f l v)
  show ?case
    using 1(2) unfolding alg_linear_insert_comp.simps [of cmp m f l v]
    by (auto simp: mem_simps dest: 1(1) split: if_splits)
qed

function alg_insertion_loop :: "('a \<Rightarrow> 'a \<Rightarrow> bool) \<Rightarrow> 'a list \<Rightarrow> nat \<Rightarrow> nat \<Rightarrow> nat \<Rightarrow> 'a list option" where
  "alg_insertion_loop cmp m f i l =
     (if i \<noteq> l then do { v \<leftarrow> rd m i; m \<leftarrow> alg_linear_insert_comp cmp m f i v;
        alg_insertion_loop cmp m f (Suc i) l }
      else Some m)"
  by pat_completeness auto
termination by (relation "measure (\<lambda>(cmp, m, f, i, l). length m - i)") (auto simp: mem_simps alg_linear_insert_length)

definition alg_insertion_sort_comp :: "('a \<Rightarrow> 'a \<Rightarrow> bool) \<Rightarrow> 'a list \<Rightarrow> nat \<Rightarrow> nat \<Rightarrow> 'a list option" where
  "alg_insertion_sort_comp cmp m f l = alg_insertion_loop cmp m f f l"

definition alg_insertion_sort :: "'a::linorder list \<Rightarrow> nat \<Rightarrow> nat \<Rightarrow> 'a list option" where
  "alg_insertion_sort m f l = alg_insertion_sort_comp (<) m f l"

function alg_selection_partial_sort_comp :: "('a \<Rightarrow> 'a \<Rightarrow> bool) \<Rightarrow> 'a list \<Rightarrow> nat \<Rightarrow> nat \<Rightarrow> nat \<Rightarrow> 'a list option" where
  "alg_selection_partial_sort_comp cmp m f middle l =
     (if f \<noteq> middle then do { k \<leftarrow> alg_min_element_comp cmp m f l; m \<leftarrow> alg_iter_swap m f k;
        alg_selection_partial_sort_comp cmp m (Suc f) middle l }
      else Some m)"
  by pat_completeness auto
termination by (relation "measure (\<lambda>(cmp, m, f, middle, l). length m - f)") (auto simp: mem_simps)

definition alg_selection_partial_sort :: "'a::linorder list \<Rightarrow> nat \<Rightarrow> nat \<Rightarrow> nat \<Rightarrow> 'a list option" where
  "alg_selection_partial_sort m f middle l = alg_selection_partial_sort_comp (<) m f middle l"

definition alg_stable_sort_comp :: "('a \<Rightarrow> 'a \<Rightarrow> bool) \<Rightarrow> 'a list \<Rightarrow> nat \<Rightarrow> nat \<Rightarrow> 'a list option" where
  "alg_stable_sort_comp cmp m f l = alg_insertion_sort_comp cmp m f l"

definition alg_stable_sort :: "'a::linorder list \<Rightarrow> nat \<Rightarrow> nat \<Rightarrow> 'a list option" where
  "alg_stable_sort m f l = alg_insertion_sort m f l"

definition alg_sort_comp :: "('a \<Rightarrow> 'a \<Rightarrow> bool) \<Rightarrow> 'a list \<Rightarrow> nat \<Rightarrow> nat \<Rightarrow> 'a list option" where
  "alg_sort_comp cmp m f l = alg_heap_sort_comp cmp m f l"

definition alg_sort :: "'a::linorder list \<Rightarrow> nat \<Rightarrow> nat \<Rightarrow> 'a list option" where
  "alg_sort m f l = alg_heap_sort m f l"

text \<open>\<^verbatim>\<open>partial_sort_copy\<close>: the loop that fills the result, and the one that replaces the
  greatest element of the heap. The latter passes \<^verbatim>\<open>result_first\<close> where
  \<^verbatim>\<open>__sift_down\<close> expects the pointer in front of it.\<close>

function alg_psc_fill :: "'a list \<Rightarrow> nat \<Rightarrow> nat \<Rightarrow> nat \<Rightarrow> nat \<Rightarrow> ('a list \<times> nat \<times> nat) option" where
  "alg_psc_fill m f l r rl =
     (if f \<noteq> l \<and> r \<noteq> rl then do { x \<leftarrow> rd m f; m \<leftarrow> wr m r x; alg_psc_fill m (Suc f) l (Suc r) rl }
      else Some (m, f, r))"
  by pat_completeness auto
termination by (relation "measure (\<lambda>(m, f, l, r, rl). length m - f)") (auto simp: mem_simps)

primrec alg_psc_loop :: "('a \<Rightarrow> 'a \<Rightarrow> bool) \<Rightarrow> 'a list \<Rightarrow> nat \<Rightarrow> nat \<Rightarrow> nat \<Rightarrow> nat \<Rightarrow> 'a list option" where
  "alg_psc_loop cmp m f rf n 0 = Some m"
| "alg_psc_loop cmp m f rf n (Suc todo) = do {
     x \<leftarrow> rd m f; y \<leftarrow> rd m rf;
     m \<leftarrow> (if cmp x y then do { m \<leftarrow> wr m rf x; alg_sift_down cmp m (Suc rf) 1 n } else Some m);
     alg_psc_loop cmp m (Suc f) rf n todo }"

definition alg_partial_sort_copy_comp ::
  "('a \<Rightarrow> 'a \<Rightarrow> bool) \<Rightarrow> 'a list \<Rightarrow> nat \<Rightarrow> nat \<Rightarrow> nat \<Rightarrow> nat \<Rightarrow> ('a list \<times> nat) option" where
  "alg_partial_sort_copy_comp cmp m f l rf rl =
     (if rf = rl then Some (m, rl)
      else do {
        (m, f, r) \<leftarrow> alg_psc_fill m f l rf rl;
        m \<leftarrow> alg_make_heap_comp cmp m rf r;
        m \<leftarrow> alg_psc_loop cmp m f rf (r - rf) (l - f);
        m \<leftarrow> alg_sort_heap_comp cmp m rf r;
        Some (m, r) })"

definition alg_partial_sort_copy :: "'a::linorder list \<Rightarrow> nat \<Rightarrow> nat \<Rightarrow> nat \<Rightarrow> nat \<Rightarrow> ('a list \<times> nat) option" where
  "alg_partial_sort_copy m f l rf rl = alg_partial_sort_copy_comp (<) m f l rf rl"

declare alg_push_heap_loop.simps [simp del] alg_sort_heap_loop.simps [simp del]
  alg_insertion_loop.simps [simp del]
  alg_selection_partial_sort_comp.simps [simp del] alg_psc_fill.simps [simp del]

section \<open>What the loops do\<close>

text \<open>\<open>permuted f l m m'\<close>: the memory \<open>m'\<close> has the elements of \<open>m\<close>, in another order
  within a range and unchanged outside of it.\<close>

definition permuted :: "nat \<Rightarrow> nat \<Rightarrow> 'a list \<Rightarrow> 'a list \<Rightarrow> bool" where
  "permuted f l m m' \<longleftrightarrow> length m' = length m \<and> take f m' = take f m \<and> drop l m' = drop l m \<and>
     mset (seg m' f l) = mset (seg m f l)"

lemma permuted_refl [simp]: "permuted f l m m"
  by (simp add: permuted_def)

lemma permuted_trans [trans]: "permuted f l m m1 \<Longrightarrow> permuted f l m1 m2 \<Longrightarrow> permuted f l m m2"
  by (simp add: permuted_def)

lemma permuted_length: "permuted f l m m' \<Longrightarrow> length m' = length m"
  by (simp add: permuted_def)

lemma permuted_nth_outside:
  assumes "permuted f l m m'" and "i < f \<or> l \<le> i" and "i < length m"
  shows "m' ! i = m ! i"
proof (cases "i < f")
  case True
  then have "take f m' ! i = m' ! i" "take f m ! i = m ! i" by simp_all
  then show ?thesis using assms(1) unfolding permuted_def by metis
next
  case False
  then have i: "l \<le> i" using assms(2) by simp
  have "length m' = length m" using assms(1) by (simp add: permuted_def)
  then have "drop l m' ! (i - l) = m' ! i" "drop l m ! (i - l) = m ! i" using i assms(3) by simp_all
  then show ?thesis using assms(1) unfolding permuted_def by metis
qed

lemma permuted_swap:
  assumes "f \<le> a" "a < l" "f \<le> b" "b < l" "l \<le> length m"
  shows "permuted f l m (m[a := m ! b, b := m ! a])" (is "permuted f l m ?m")
proof -
  have eq: "take f ?m = take f m" "drop l ?m = drop l m" using assms by simp_all
  have "mset ?m = mset m" using assms by (intro mset_swapped) simp_all
  moreover have "?m = take f m @ seg ?m f l @ drop l m" "m = take f m @ seg m f l @ drop l m"
    using seg_split [of f l ?m] seg_split [of f l m] eq assms by simp_all
  then have "mset ?m = mset (take f m) + (mset (seg ?m f l) + mset (drop l m))"
      "mset m = mset (take f m) + (mset (seg m f l) + mset (drop l m))"
    by (metis mset_append)+
  ultimately have "mset (seg ?m f l) = mset (seg m f l)" by simp
  then show ?thesis using eq by (simp add: permuted_def)
qed

lemma permuted_set:
  assumes "permuted f l m m'"
  shows "set (seg m' f l) = set (seg m f l)"
  using assms unfolding permuted_def by (metis mset_eq_setD)

lemma permuted_mono:
  assumes "permuted f l m m'" and "f' \<le> f" and "f \<le> l" and "l \<le> l'"
  shows "permuted f' l' m m'"
proof -
  have len: "length m' = length m" using assms(1) by (rule permuted_length)
  have "take f' m' = take f' (take f m')" "take f' m = take f' (take f m)" using assms(2) by simp_all
  then have t: "take f' m' = take f' m" using assms(1) unfolding permuted_def by metis
  have "drop l' m' = drop (l' - l) (drop l m')" "drop l' m = drop (l' - l) (drop l m)" using assms(4) by simp_all
  then have d: "drop l' m' = drop l' m" using assms(1) unfolding permuted_def by metis
  have cut: "seg x f' l' = seg x f' f @ seg x f l @ seg x l l'" for x :: "'a list"
    using seg_append [of f' f l' x] seg_append [of f l l' x] assms(2-4) by simp
  have "seg x f' f = drop f' (take f x)" for x :: "'a list" by (simp add: seg_def drop_take)
  moreover have "seg x l l' = take (l' - l) (drop l x)" for x :: "'a list" by (simp add: seg_def)
  ultimately have "mset (seg m' f' l') = mset (seg m f' l')"
    using assms(1) by (simp add: cut permuted_def)
  then show ?thesis using len t d by (simp add: permuted_def)
qed

lemma permuted_memory:
  assumes "permuted f l m m'" and "f \<le> l" and "l \<le> length m"
  shows "m' = take f m @ seg m' f l @ drop l m"
  using seg_split [of f l m'] assms by (simp add: permuted_def)

text \<open>\<open>el m lo k\<close> is the element at position \<open>k\<close> of a heap whose first element has index \<open>lo\<close>.\<close>

abbreviation el :: "'a list \<Rightarrow> nat \<Rightarrow> nat \<Rightarrow> 'a" where
  "el m lo k \<equiv> m ! (lo + k - 1)"

lemma heap_rd_in: "1 \<le> k \<Longrightarrow> lo + k \<le> length m \<Longrightarrow> heap_rd m lo k = Some (el m lo k)"
  by (simp add: heap_rd_def)

lemma heap_swap_in:
  assumes "1 \<le> j" "1 \<le> k" "j \<le> n" "k \<le> n" "lo + n \<le> length m"
  shows "\<exists>m'. heap_swap m lo j k = Some m' \<and> permuted lo (lo + n) m m' \<and>
    (\<forall>i. 1 \<le> i \<longrightarrow> i \<le> n \<longrightarrow> el m' lo i = (if i = k then el m lo j else if i = j then el m lo k else el m lo i))"
proof -
  let ?a = "lo + j - 1" and ?b = "lo + k - 1"
  have ab: "?a < length m" "?b < length m" "lo \<le> ?a" "lo \<le> ?b" "?a < lo + n" "?b < lo + n" using assms by auto
  have "heap_swap m lo j k = Some (m[?a := m ! ?b, ?b := m ! ?a])"
    using assms ab by (simp add: heap_swap_def mem_simps)
  moreover have "permuted lo (lo + n) m (m[?a := m ! ?b, ?b := m ! ?a])"
    using ab assms(5) by (intro permuted_swap)
  moreover have "el (m[?a := m ! ?b, ?b := m ! ?a]) lo i =
      (if i = k then el m lo j else if i = j then el m lo k else el m lo i)" if "1 \<le> i" "i \<le> n" for i
  proof -
    have e: "lo + x - 1 = lo + y - 1 \<longleftrightarrow> x = y" if "1 \<le> x" "1 \<le> y" for x y
      using that by (cases x; cases y) simp_all
    show ?thesis
      using ab unfolding e [OF that(1) assms(1), symmetric] e [OF that(1) assms(2), symmetric]
      by (simp add: nth_list_update)
  qed
  ultimately show ?thesis by (intro exI [of _ "m[?a := m ! ?b, ?b := m ! ?a]"] conjI) blast+
qed

text \<open>\<open>heap_from cmp m lo n s\<close>: the heap property below the positions from \<open>s\<close> on.\<close>

definition heap_from :: "('a \<Rightarrow> 'a \<Rightarrow> bool) \<Rightarrow> 'a list \<Rightarrow> nat \<Rightarrow> nat \<Rightarrow> nat \<Rightarrow> bool" where
  "heap_from cmp m lo n s \<longleftrightarrow> (\<forall>i. i \<le> n \<longrightarrow> s \<le> i div 2 \<longrightarrow> \<not> cmp (el m lo (i div 2)) (el m lo i))"

context strict_weak_order
begin

lemma heap_root:
  assumes "heap_from less m lo n 1" and "1 \<le> k" and "k \<le> n"
  shows "\<not> less (el m lo 1) (el m lo k)"
  using assms(2,3)
proof (induction k rule: less_induct)
  case (less k)
  show ?case
  proof (cases "k = 1")
    case False
    then have "\<not> less (el m lo 1) (el m lo (k div 2))" 
      by (intro less.IH) (use less.prems False in auto)
    moreover have "\<not> less (el m lo (k div 2)) (el m lo k)"
      using assms(1) less.prems False unfolding heap_from_def by simp
    ultimately show ?thesis by (rule incomparable)
  qed (simp add: irrefl)
qed

text \<open>The state of \<^verbatim>\<open>__sift_down\<close> at position \<open>k\<close>: the heap property holds below every
  position from \<open>s\<close> on but \<open>k\<close>, and the children of \<open>k\<close> are not greater than its parent.\<close>

definition sift_inv :: "'a list \<Rightarrow> nat \<Rightarrow> nat \<Rightarrow> nat \<Rightarrow> nat \<Rightarrow> bool" where
  "sift_inv m lo n s k \<longleftrightarrow>
     (\<forall>i. i \<le> n \<longrightarrow> s \<le> i div 2 \<longrightarrow> i div 2 \<noteq> k \<longrightarrow> \<not> less (el m lo (i div 2)) (el m lo i)) \<and>
     (\<forall>i. i \<le> n \<longrightarrow> i div 2 = k \<longrightarrow> s \<le> k div 2 \<longrightarrow> \<not> less (el m lo (k div 2)) (el m lo i))"

lemma sift_inv_done:
  assumes "sift_inv m lo n s k" and "\<And>i. i \<le> n \<Longrightarrow> i div 2 = k \<Longrightarrow> \<not> less (el m lo k) (el m lo i)"
  shows "heap_from less m lo n s"
  using assms unfolding sift_inv_def heap_from_def by metis

lemma sift_inv_step:
  assumes I: "sift_inv m lo n s k" and k: "1 \<le> s" "s \<le> k" "c div 2 = k" "c \<le> n"
    and less: "less (el m lo k) (el m lo c)"
    and other: "\<And>i. i \<le> n \<Longrightarrow> i div 2 = k \<Longrightarrow> \<not> less (el m lo c) (el m lo i)"
    and el: "\<And>i. 1 \<le> i \<Longrightarrow> i \<le> n \<Longrightarrow>
      el m' lo i = (if i = c then el m lo k else if i = k then el m lo c else el m lo i)"
  shows "sift_inv m' lo n s c"
proof -
  have ck: "c \<noteq> k" "1 \<le> c" "k \<le> n" "1 \<le> k" using k by auto
  have 1: "\<not> less (el m' lo (i div 2)) (el m' lo i)" if i: "i \<le> n" "s \<le> i div 2" "i div 2 \<noteq> c" for i
  proof -
    have b: "1 \<le> i" "1 \<le> i div 2" "i div 2 \<le> n" "i div 2 \<noteq> i" using i k(1) by auto
    consider "i = c" | "i \<noteq> c" "i div 2 = k" | "i = k" | "i \<noteq> c" "i div 2 \<noteq> k" "i \<noteq> k" by blast
    then show ?thesis
    proof cases
      case 1
      then show ?thesis using el [of c] el [of k] ck k(3,4) asym [OF less] by simp
    next
      case 2
      then have "i \<noteq> k" using b(4) by auto
      then show ?thesis using 2 el [of i] el [of k] b i ck other [of i] by simp
    next
      case 3
      then have "\<not> less (el m lo (k div 2)) (el m lo c)"
        using I i k unfolding sift_inv_def by blast
      then show ?thesis using 3 el [of k] el [of "k div 2"] b i ck by simp
    next
      case 4
      then have "\<not> less (el m lo (i div 2)) (el m lo i)" using I i unfolding sift_inv_def by blast
      then show ?thesis using 4 el [of i] el [of "i div 2"] b i by simp
    qed
  qed
  have 2: "\<not> less (el m' lo (c div 2)) (el m' lo i)" if i: "i \<le> n" "i div 2 = c" for i
  proof -
    have b: "1 \<le> i" "i \<noteq> c" "i \<noteq> k" using i ck k(3) by auto
    have "\<not> less (el m lo c) (el m lo i)"
      using I i k ck(1) unfolding sift_inv_def by (metis div_le_dividend le_trans)
    then show ?thesis using el [of i] el [of k] b i ck k(3) by simp
  qed
  show ?thesis unfolding sift_inv_def using 1 2 by blast
qed

lemma sift_down_spec:
  assumes "1 \<le> s" and "s \<le> k" and "lo + n \<le> length m" and "sift_inv m lo n s k"
  shows "\<exists>m'. alg_sift_down less m lo k n = Some m' \<and> permuted lo (lo + n) m m' \<and> heap_from less m' lo n s"
  using assms
proof (induction "n - k" arbitrary: m k rule: less_induct)
  case less
  note prems = less.prems
  show ?case
  proof (cases "k \<le> n div 2")
    case False
    then have "heap_from less m lo n s"
      by (intro sift_inv_done [OF prems(4)]) auto
    then show ?thesis using False by (subst alg_sift_down.simps) simp
  next
    case True
    have or1: "2 * k OR 1 = Suc (2 * k)" using or_one_eq [of "2 * k"] by simp
    have b: "1 \<le> k" "2 * k \<le> n" using True prems by auto
    define c where "c = (if 2 * k < n then if less (el m lo (2 * k)) (el m lo (Suc (2 * k)))
        then Suc (2 * k) else 2 * k else 2 * k)"
    have c: "c div 2 = k" "c \<le> n" "1 \<le> c" "k < c" using b by (auto simp: c_def)
    have other: "\<not> less (el m lo c) (el m lo i)" if "i \<le> n" "i div 2 = k" for i
    proof -
      have "i = 2 * k \<or> i = Suc (2 * k)" using that(2) by auto
      then show ?thesis
        using that(1) asym [of "el m lo (2 * k)" "el m lo (Suc (2 * k))"]
        by (elim disjE) (simp_all add: c_def irrefl)
    qed
    have child: "(if 2 * k < n then
            Option.bind (heap_rd m lo (2 * k)) (\<lambda>x.
            Option.bind (heap_rd m lo (2 * k OR 1)) (\<lambda>y.
            Some (if less x y then 2 * k OR 1 else 2 * k)))
          else Some (2 * k)) = Some c"
      using b prems(3) unfolding or1 by (auto simp: c_def heap_rd_in)
    have rds: "heap_rd m lo k = Some (el m lo k)" "heap_rd m lo c = Some (el m lo c)"
      using b c prems(3) by (simp_all add: heap_rd_in)
    show ?thesis
    proof (cases "less (el m lo k) (el m lo c)")
      case False
      have "heap_from less m lo n s"
      proof (rule sift_inv_done [OF prems(4)])
        fix i assume "i \<le> n" "i div 2 = k"
        then show "\<not> less (el m lo k) (el m lo i)" using other [of i] False incomparable by blast
      qed
      then show ?thesis using True False rds child by (subst alg_sift_down.simps) simp
    next
      case less: True
      obtain m1 where m1: "heap_swap m lo k c = Some m1" "permuted lo (lo + n) m m1"
          "\<forall>i. 1 \<le> i \<longrightarrow> i \<le> n \<longrightarrow> el m1 lo i = (if i = c then el m lo k else if i = k then el m lo c else el m lo i)"
        using heap_swap_in [of k c n lo m] b c prems(3) by auto
      have "sift_inv m1 lo n s c"
        by (rule sift_inv_step [OF prems(4,1,2) c(1,2) less other]) (use m1(3) in auto)
      moreover have "n - c < n - k" "s \<le> c" "lo + n \<le> length m1"
        using c prems permuted_length [OF m1(2)] by auto
      ultimately obtain m2 where "alg_sift_down (\<lambda>a. less a) m1 lo c n = Some m2"
          "permuted lo (lo + n) m1 m2" "heap_from less m2 lo n s"
        using less.hyps [of c m1] prems(1) by blast
      then show ?thesis
        using True less rds child m1 permuted_trans [OF m1(2)]
        by (subst alg_sift_down.simps) simp
    qed
  qed
qed

lemma make_heap_loop_spec:
  assumes "lo + n \<le> length m" and "heap_from less m lo n (Suc k)"
  shows "\<exists>m'. alg_make_heap_loop less m lo n k = Some m' \<and> permuted lo (lo + n) m m' \<and> heap_from less m' lo n 1"
  using assms
proof (induction k arbitrary: m)
  case (Suc k)
  have "sift_inv m lo n (Suc k) (Suc k)"
    using Suc.prems(2) unfolding sift_inv_def heap_from_def by auto
  then obtain m1 where m1: "alg_sift_down less m lo (Suc k) n = Some m1" "permuted lo (lo + n) m m1"
      "heap_from less m1 lo n (Suc k)"
    using sift_down_spec [of "Suc k" "Suc k" lo n m] Suc.prems(1) by auto
  obtain m2 where "alg_make_heap_loop less m1 lo n k = Some m2" "permuted lo (lo + n) m1 m2" "heap_from less m2 lo n 1"
    using Suc.IH [of m1] m1 Suc.prems(1) permuted_length [OF m1(2)] by auto
  then show ?case using m1 permuted_trans [OF m1(2)] by auto
qed simp

lemma make_heap_spec:
  assumes "f \<le> l" and "l \<le> length m"
  shows "\<exists>m'. alg_make_heap_comp less m f l = Some m' \<and> permuted f l m m' \<and> heap_from less m' f (l - f) 1"
proof -
  have "heap_from less m f (l - f) (Suc ((l - f) div 2))"
    unfolding heap_from_def by (auto dest: div_le_mono [where k = 2])
  then show ?thesis
    using make_heap_loop_spec [of f "l - f" m "(l - f) div 2"] assms by (simp add: alg_make_heap_comp_def)
qed

lemma pop_heap_spec:
  assumes "1 \<le> n" and "lo + n \<le> length m" and "heap_from less m lo n 1"
  shows "\<exists>m'. alg_pop_heap_base less m lo n = Some m' \<and> permuted lo (lo + n) m m' \<and>
    heap_from less m' lo (n - 1) 1 \<and> el m' lo n = el m lo 1"
proof -
  obtain m1 where m1: "heap_swap m lo n 1 = Some m1" "permuted lo (lo + n) m m1"
      "\<forall>i. 1 \<le> i \<longrightarrow> i \<le> n \<longrightarrow> el m1 lo i = (if i = 1 then el m lo n else if i = n then el m lo 1 else el m lo i)"
    using heap_swap_in [of n 1 n lo m] assms by auto
  have "\<not> less (el m1 lo (i div 2)) (el m1 lo i)" if "i \<le> n - 1" "1 \<le> i div 2" "i div 2 \<noteq> 1" for i
  proof -
    have "1 \<le> i" "i \<le> n" "i \<noteq> 1" "i \<noteq> n" "i div 2 \<le> n" "i div 2 \<noteq> n" using that assms(1) by auto
    then show ?thesis using m1(3) that assms(3) unfolding heap_from_def by simp
  qed
  then have "sift_inv m1 lo (n - 1) 1 1" unfolding sift_inv_def by simp
  moreover have "lo + (n - 1) \<le> length m1" using assms(2) permuted_length [OF m1(2)] by linarith
  ultimately obtain m2 where m2: "alg_sift_down less m1 lo 1 (n - 1) = Some m2"
      "permuted lo (lo + (n - 1)) m1 m2" "heap_from less m2 lo (n - 1) 1"
    using sift_down_spec [of 1 1 lo "n - 1" m1] by auto
  have "permuted lo (lo + n) m1 m2" by (rule permuted_mono [OF m2(2)]) simp_all
  then have "permuted lo (lo + n) m m2" by (rule permuted_trans [OF m1(2)])
  moreover have "el m2 lo n = el m1 lo n"
    using permuted_nth_outside [OF m2(2), of "lo + n - 1"] assms permuted_length [OF m1(2)] by simp
  moreover have "el m1 lo n = el m lo 1" using m1(3) assms(1) by (cases "n = 1") simp_all
  ultimately show ?thesis using m1(1) m2(1,3) by (simp add: alg_pop_heap_base_def)
qed

lemma heap_root_set:
  assumes "heap_from less m lo n 1" and "lo + n \<le> length m" and "x \<in> set (seg m lo (lo + n))"
  shows "\<not> less (el m lo 1) x"
proof -
  obtain k where "k < n" "x = m ! (lo + k)"
    using assms(2,3) by (auto simp: in_set_conv_nth seg_nth)
  then show ?thesis using heap_root [OF assms(1), of "Suc k"] by simp
qed

lemma sort_heap_loop_spec:
  assumes "lo + n \<le> length m" and "heap_from less m lo n 1"
  shows "\<exists>m'. alg_sort_heap_loop less m lo n = Some m' \<and> permuted lo (lo + n) m m' \<and>
    sorted_wrt (\<lambda>x y. \<not> less y x) (seg m' lo (lo + n))"
  using assms
proof (induction n arbitrary: m)
  case 0
  then show ?case by (subst alg_sort_heap_loop.simps) simp
next
  case (Suc n)
  show ?case
  proof (cases "n = 0")
    case True
    then have "seg m lo (lo + Suc n) = [m ! lo]" using Suc.prems by (simp add: seg_Cons)
    then show ?thesis using True by (subst alg_sort_heap_loop.simps) simp
  next
    case False
    obtain m1 where m1: "alg_pop_heap_base less m lo (Suc n) = Some m1" "permuted lo (lo + Suc n) m m1"
        "heap_from less m1 lo n 1" "el m1 lo (Suc n) = el m lo 1"
      using pop_heap_spec [of "Suc n" lo m] Suc.prems by auto
    obtain m2 where m2: "alg_sort_heap_loop less m1 lo n = Some m2" "permuted lo (lo + n) m1 m2"
        "sorted_wrt (\<lambda>x y. \<not> less y x) (seg m2 lo (lo + n))"
      using Suc.IH [of m1] m1 Suc.prems(1) permuted_length [OF m1(2)] by auto
    have "permuted lo (lo + Suc n) m1 m2" by (rule permuted_mono [OF m2(2)]) simp_all
    then have perm: "permuted lo (lo + Suc n) m m2" by (rule permuted_trans [OF m1(2)])
    have len: "length m2 = length m" "length m1 = length m" using permuted_length perm m1(2) by blast+
    have top: "m2 ! (lo + n) = el m lo 1"
      using permuted_nth_outside [OF m2(2), of "lo + n"] m1(4) Suc.prems(1) len by simp
    have "seg m2 lo (lo + Suc n) = seg m2 lo (lo + n) @ [el m lo 1]"
      using Suc.prems(1) len seg_snoc [of lo "lo + n" m2] top by simp
    moreover have "\<not> less (el m lo 1) x" if "x \<in> set (seg m2 lo (lo + n))" for x
    proof (rule heap_root_set [OF Suc.prems(2,1)])
      have "x \<in> set (seg m2 lo (lo + Suc n))" using that calculation by simp
      then show "x \<in> set (seg m lo (lo + Suc n))" using permuted_set [OF perm] by simp
    qed
    ultimately have "sorted_wrt (\<lambda>x y. \<not> less y x) (seg m2 lo (lo + Suc n))"
      using m2(3) by (simp only: sorted_snoc) simp
    then show ?thesis using m1(1) m2(1) perm False by (subst alg_sort_heap_loop.simps) simp
  qed
qed

lemma heap_sort_spec:
  assumes "f \<le> l" and "l \<le> length m"
  shows "\<exists>m'. alg_heap_sort_comp less m f l = Some m' \<and> permuted f l m m' \<and>
    sorted_wrt (\<lambda>x y. \<not> less y x) (seg m' f l)"
proof -
  obtain m1 where m1: "alg_make_heap_comp less m f l = Some m1" "permuted f l m m1" "heap_from less m1 f (l - f) 1"
    using make_heap_spec [OF assms] by blast
  obtain m2 where "alg_sort_heap_loop less m1 f (l - f) = Some m2" "permuted f l m1 m2"
      "sorted_wrt (\<lambda>x y. \<not> less y x) (seg m2 f l)"
    using sort_heap_loop_spec [of f "l - f" m1] m1 assms permuted_length [OF m1(2)] by auto
  then show ?thesis
    using m1 permuted_trans [OF m1(2)] by (auto simp: alg_heap_sort_comp_def alg_sort_heap_comp_def)
qed

text \<open>The state of \<^verbatim>\<open>__push_heap\<close> at position \<open>k\<close>: the heap property holds but
  between \<open>k\<close> and its parent.\<close>

definition push_inv :: "'a list \<Rightarrow> nat \<Rightarrow> nat \<Rightarrow> nat \<Rightarrow> bool" where
  "push_inv m lo n k \<longleftrightarrow>
     (\<forall>i. i \<le> n \<longrightarrow> 1 \<le> i div 2 \<longrightarrow> i \<noteq> k \<longrightarrow> \<not> less (el m lo (i div 2)) (el m lo i)) \<and>
     (\<forall>i. i \<le> n \<longrightarrow> i div 2 = k \<longrightarrow> 1 \<le> k div 2 \<longrightarrow> \<not> less (el m lo (k div 2)) (el m lo i))"

lemma push_inv_step:
  assumes I: "push_inv m lo n k" and k: "1 < k" "k \<le> n" and p: "p = k div 2"
    and less: "less (el m lo p) (el m lo k)"
    and el: "\<And>i. 1 \<le> i \<Longrightarrow> i \<le> n \<Longrightarrow>
      el m' lo i = (if i = k then el m lo p else if i = p then el m lo k else el m lo i)"
  shows "push_inv m' lo n p"
proof -
  have pk: "1 \<le> p" "p \<noteq> k" "p \<le> n" using k p by auto
  have I1: "\<not> less (el m lo (i div 2)) (el m lo i)" if "i \<le> n" "1 \<le> i div 2" "i \<noteq> k" for i
    using I that unfolding push_inv_def by blast
  have 1: "\<not> less (el m' lo (i div 2)) (el m' lo i)" if i: "i \<le> n" "1 \<le> i div 2" "i \<noteq> p" for i
  proof -
    have b: "1 \<le> i" "i div 2 \<le> n" "i div 2 \<noteq> i" using i by auto
    consider "i = k" | "i \<noteq> k" "i div 2 = p" | "i \<noteq> k" "i div 2 = k" | "i \<noteq> k" "i div 2 \<noteq> p" "i div 2 \<noteq> k"
      by blast
    then show ?thesis
    proof cases
      case 1
      then show ?thesis using el [of i] el [of p] pk k p asym [OF less] by simp
    next
      case 2
      then have "\<not> less (el m lo p) (el m lo i)" using I1 [of i] i by simp
      then have "\<not> less (el m lo k) (el m lo i)" using trans [OF less] by blast
      then show ?thesis using 2 el [of i] el [of p] pk i b by simp
    next
      case 3
      then have "\<not> less (el m lo p) (el m lo i)"
        using I i pk p unfolding push_inv_def by blast
      then show ?thesis using 3 el [of i] el [of k] k i b by simp
    next
      case 4
      then show ?thesis using el [of i] el [of "i div 2"] I1 [of i] i b by simp
    qed
  qed
  have 2: "\<not> less (el m' lo (p div 2)) (el m' lo i)" if i: "i \<le> n" "i div 2 = p" "1 \<le> p div 2" for i
  proof -
    have b: "1 \<le> i" "i \<noteq> p" "p div 2 \<noteq> p" "p div 2 \<noteq> k" "p div 2 \<le> n"
      using i pk k p le_trans [OF div_le_dividend pk(3)] by auto
    have top: "\<not> less (el m lo (p div 2)) (el m lo p)" using I1 [of p] i pk by simp
    show ?thesis
    proof (cases "i = k")
      case True
      then show ?thesis using top el [of i] el [of "p div 2"] b i by simp
    next
      case False
      then have "\<not> less (el m lo p) (el m lo i)" using I1 [of i] i pk by simp
      then have "\<not> less (el m lo (p div 2)) (el m lo i)" by (rule incomparable [OF top])
      then show ?thesis using False el [of i] el [of "p div 2"] b i by simp
    qed
  qed
  show ?thesis unfolding push_inv_def using 1 2 by blast
qed

lemma push_heap_loop_spec:
  assumes "1 \<le> k" and "k \<le> n" and "lo + n \<le> length m" and "push_inv m lo n k"
  shows "\<exists>m'. alg_push_heap_loop less m lo k = Some m' \<and> permuted lo (lo + n) m m' \<and> heap_from less m' lo n 1"
  using assms
proof (induction k arbitrary: m rule: less_induct)
  case (less k)
  note prems = less.prems
  show ?case
  proof (cases "1 < k")
    case False
    then have "heap_from less m lo n 1" using prems(1,4) unfolding push_inv_def heap_from_def by fastforce
    then show ?thesis using False by (subst alg_push_heap_loop.simps) simp
  next
    case True
    let ?p = "k div 2"
    have p: "1 \<le> ?p" "?p < k" "?p \<le> n" using True prems(2) by auto
    have rds: "heap_rd m lo ?p = Some (el m lo ?p)" "heap_rd m lo k = Some (el m lo k)"
      using p prems(1-3) by (simp_all add: heap_rd_in)
    show ?thesis
    proof (cases "less (el m lo ?p) (el m lo k)")
      case False
      then have "heap_from less m lo n 1" using prems(4) unfolding push_inv_def heap_from_def by metis
      then show ?thesis using True False rds by (subst alg_push_heap_loop.simps) simp
    next
      case less': True
      obtain m1 where m1: "heap_swap m lo ?p k = Some m1" "permuted lo (lo + n) m m1"
          "\<forall>i. 1 \<le> i \<longrightarrow> i \<le> n \<longrightarrow> el m1 lo i = (if i = k then el m lo ?p else if i = ?p then el m lo k else el m lo i)"
        using heap_swap_in [of ?p k n lo m] p prems by auto
      have "push_inv m1 lo n ?p"
        by (rule push_inv_step [OF prems(4) True prems(2) refl less']) (use m1(3) in auto)
      then obtain m2 where "alg_push_heap_loop less m1 lo ?p = Some m2"
          "permuted lo (lo + n) m1 m2" "heap_from less m2 lo n 1"
        using less.IH [of ?p m1] p prems permuted_length [OF m1(2)] by auto
      then show ?thesis
        using True less' rds m1 permuted_trans [OF m1(2)] by (subst alg_push_heap_loop.simps) simp
    qed
  qed
qed

end

text \<open>Insertion sort: \<open>insert_right cmp v s\<close> puts \<open>v\<close> in front of the greater elements at
  the end of \<open>s\<close>.\<close>

definition insert_right :: "('a \<Rightarrow> 'a \<Rightarrow> bool) \<Rightarrow> 'a \<Rightarrow> 'a list \<Rightarrow> 'a list" where
  "insert_right cmp v s = rev (dropWhile (cmp v) (rev s)) @ v # rev (takeWhile (cmp v) (rev s))"

lemma insert_right_split:
  obtains s1 s2 where "s = s1 @ s2" "insert_right cmp v s = s1 @ v # s2" "\<forall>x \<in> set s2. cmp v x"
    "s1 = [] \<or> \<not> cmp v (last s1)"
proof
  show "s = rev (dropWhile (cmp v) (rev s)) @ rev (takeWhile (cmp v) (rev s))"
    by (metis rev_append rev_rev_ident takeWhile_dropWhile_id)
  show "insert_right cmp v s = rev (dropWhile (cmp v) (rev s)) @ v # rev (takeWhile (cmp v) (rev s))"
    by (rule insert_right_def)
  show "\<forall>x \<in> set (rev (takeWhile (cmp v) (rev s))). cmp v x"
    by (auto dest: set_takeWhileD)
  show "rev (dropWhile (cmp v) (rev s)) = [] \<or> \<not> cmp v (last (rev (dropWhile (cmp v) (rev s))))"
    using hd_dropWhile [of "cmp v" "rev s"]
    by (cases "dropWhile (cmp v) (rev s) = []") (simp_all add: last_rev del: dropWhile_eq_Nil_conv)
qed

lemma linear_insert_append:
  assumes "\<forall>x \<in> set s2. cmp v x" and "s1 = [] \<or> \<not> cmp v (last s1)"
  shows "alg_linear_insert_comp cmp (p @ s1 @ s2 @ y # r) (length p) (length p + length s1 + length s2) v =
    Some (p @ s1 @ v # s2 @ r)"
  using assms(1)
proof (induction s2 arbitrary: y r rule: rev_induct)
  case Nil
  show ?case
  proof (cases s1 rule: rev_cases)
    case Nil
    then show ?thesis by (subst alg_linear_insert_comp.simps) simp
  next
    case (snoc s x)
    then show ?thesis
      using assms(2) by (subst alg_linear_insert_comp.simps) (simp add: nth_append list_update_append)
  qed
next
  case (snoc x s2)
  have "alg_linear_insert_comp cmp (p @ s1 @ s2 @ x # x # r) (length p) (length p + length s1 + length s2) v =
      Some (p @ s1 @ v # s2 @ x # r)"
    using snoc.IH [of x "x # r"] snoc.prems by simp
  then show ?case
    using snoc.prems by (subst alg_linear_insert_comp.simps) (simp add: nth_append list_update_append)
qed

lemma linear_insert_right:
  "alg_linear_insert_comp cmp (p @ s @ y # r) (length p) (length p + length s) v =
    Some (p @ insert_right cmp v s @ r)"
proof (rule insert_right_split [of s cmp v])
  fix s1 s2 assume "s = s1 @ s2" "insert_right cmp v s = s1 @ v # s2" "\<forall>x \<in> set s2. cmp v x"
    "s1 = [] \<or> \<not> cmp v (last s1)"
  then show ?thesis using linear_insert_append [of s2 cmp v s1 p y r] by (simp add: add.assoc)
qed

lemma insert_right_length [simp]: "length (insert_right cmp v s) = Suc (length s)"
  by (rule insert_right_split [of s cmp v]) simp

lemma insert_right_mset [simp]: "mset (insert_right cmp v s) = add_mset v (mset s)"
  by (rule insert_right_split [of s cmp v]) simp

lemma insertion_loop_foldl:
  "alg_insertion_loop cmp (p @ s @ t @ r) (length p) (length p + length s) (length p + length s + length t) =
    Some (p @ foldl (\<lambda>s v. insert_right cmp v s) s t @ r)"
proof (induction t arbitrary: s)
  case Nil
  then show ?case by (subst alg_insertion_loop.simps) simp
next
  case (Cons v t)
  have "alg_linear_insert_comp cmp (p @ s @ v # t @ r) (length p) (length p + length s) v =
      Some (p @ insert_right cmp v s @ t @ r)"
    using linear_insert_right [of cmp p s v "t @ r" v] by simp
  then show ?case
    using Cons.IH [of "insert_right cmp v s"] by (subst alg_insertion_loop.simps) (simp add: nth_append)
qed

lemma insertion_sort_foldl:
  assumes "f \<le> l" and "l \<le> length m"
  shows "alg_insertion_sort_comp cmp m f l =
    Some (take f m @ foldl (\<lambda>s v. insert_right cmp v s) [] (seg m f l) @ drop l m)"
  using insertion_loop_foldl [of cmp "take f m" "[]" "seg m f l" "drop l m"] assms
  by (simp add: alg_insertion_sort_comp_def flip: seg_split)

context strict_weak_order
begin

lemma insert_right_sorted:
  assumes "sorted_wrt (\<lambda>x y. \<not> less y x) s"
  shows "sorted_wrt (\<lambda>x y. \<not> less y x) (insert_right less v s)"
proof (rule insert_right_split [of s less v])
  fix s1 s2 assume s: "s = s1 @ s2" "insert_right less v s = s1 @ v # s2" "\<forall>x \<in> set s2. less v x"
    "s1 = [] \<or> \<not> less v (last s1)"
  have "\<not> less v x" if "x \<in> set s1" for x
  proof -
    have "s1 = butlast s1 @ [last s1]" using that by (cases s1) simp_all
    then have "sorted_wrt (\<lambda>x y. \<not> less y x) (butlast s1 @ [last s1])"
      using assms s(1) by (metis sorted_wrt_append)
    then have "\<not> less (last s1) x \<or> x = last s1"
      using that \<open>s1 = butlast s1 @ [last s1]\<close> by (metis Un_iff set_append sorted_snoc empty_iff set_ConsD empty_set)
    then show ?thesis using s(4) that incomparable [of v "last s1" x] by auto
  qed
  then show ?thesis
    using assms s asym by (auto simp: sorted_wrt_append)
qed

lemma insertion_sorted:
  "sorted_wrt (\<lambda>x y. \<not> less y x) s \<Longrightarrow> sorted_wrt (\<lambda>x y. \<not> less y x) (foldl (\<lambda>s v. insert_right less v s) s t)"
  by (induction t arbitrary: s) (simp_all add: insert_right_sorted)

end

lemma insertion_mset: "mset (foldl (\<lambda>s v. insert_right cmp v s) s t) = mset s + mset t"
  by (induction t arbitrary: s) simp_all

lemma insert_right_stable:
  fixes key :: "'a \<Rightarrow> 'k::linorder"
  shows "filter (\<lambda>x. k = key x) (insert_right (\<lambda>x y. key x < key y) v s) =
    filter (\<lambda>x. k = key x) s @ filter (\<lambda>x. k = key x) [v]"
proof (rule insert_right_split [of s "\<lambda>x y. key x < key y" v])
  fix s1 s2 assume s: "s = s1 @ s2" "insert_right (\<lambda>x y. key x < key y) v s = s1 @ v # s2"
    "\<forall>x \<in> set s2. key v < key x"
  have "filter (\<lambda>x. k = key x) s2 = []" if "k = key v" using s(3) that by (auto simp: filter_empty_conv)
  then show ?thesis using s by auto
qed

lemma insertion_stable:
  fixes key :: "'a \<Rightarrow> 'k::linorder"
  shows "filter (\<lambda>x. k = key x) (foldl (\<lambda>s v. insert_right (\<lambda>x y. key x < key y) v s) s t) =
    filter (\<lambda>x. k = key x) s @ filter (\<lambda>x. k = key x) t"
  by (induction t arbitrary: s) (simp_all add: insert_right_stable)

lemma insertion_sort_key:
  fixes key :: "'a \<Rightarrow> 'k::linorder"
  shows "foldl (\<lambda>s v. insert_right (\<lambda>x y. key x < key y) v s) [] t = sort_key key t"
proof (rule properties_for_sort_key [symmetric])
  show "mset (foldl (\<lambda>s v. insert_right (\<lambda>x y. key x < key y) v s) [] t) = mset t"
    by (simp add: insertion_mset)
  show "filter (\<lambda>x. key k = key x) (foldl (\<lambda>s v. insert_right (\<lambda>x y. key x < key y) v s) [] t) =
      filter (\<lambda>x. key k = key x) t" for k
    by (simp add: insertion_stable)
  show "sorted (map key (foldl (\<lambda>s v. insert_right (\<lambda>x y. key x < key y) v s) [] t))"
    using key_order.insertion_sorted [of key "[]" t] by (simp add: sorted_map not_less)
qed

context strict_weak_order
begin

lemma selection_spec:
  assumes "f \<le> middle" and "middle \<le> l" and "l \<le> length m"
  shows "\<exists>m'. alg_selection_partial_sort_comp less m f middle l = Some m' \<and> permuted f l m m' \<and>
    (\<forall>i j. f \<le> i \<longrightarrow> i < middle \<longrightarrow> i \<le> j \<longrightarrow> j < l \<longrightarrow> \<not> less (m' ! j) (m' ! i))"
  using assms
proof (induction "middle - f" arbitrary: m f)
  case 0
  then show ?case by (subst alg_selection_partial_sort_comp.simps) simp
next
  case (Suc k)
  have k: "k = middle - Suc f" and f: "f < middle" "f < l" "f < length m" using Suc.hyps(2) Suc.prems by simp_all
  obtain r where r: "alg_min_element_comp less m f l = Some r" "f \<le> r" "r < l"
      "\<And>i. f \<le> i \<Longrightarrow> i < l \<Longrightarrow> \<not> less (m ! i) (m ! r)"
    using min_element_spec [OF f(2) Suc.prems(3)] by blast
  let ?m = "m[f := m ! r, r := m ! f]"
  have swap: "alg_iter_swap m f r = Some ?m" using f r Suc.prems(3) by (simp add: mem_simps)
  have p1: "permuted f l m ?m" using r(2,3) f Suc.prems(3) by (intro permuted_swap) auto
  obtain m' where m': "alg_selection_partial_sort_comp less ?m (Suc f) middle l = Some m'" "permuted (Suc f) l ?m m'"
      "\<forall>i j. Suc f \<le> i \<longrightarrow> i < middle \<longrightarrow> i \<le> j \<longrightarrow> j < l \<longrightarrow> \<not> less (m' ! j) (m' ! i)"
    using Suc.hyps(1) [OF k, of ?m] f Suc.prems by auto
  have "permuted f l ?m m'" using f by (intro permuted_mono [OF m'(2)]) auto
  then have perm: "permuted f l m m'" by (rule permuted_trans [OF p1])
  have first: "m' ! f = m ! r"
    using permuted_nth_outside [OF m'(2), of f] f r Suc.prems(3) by (simp add: nth_list_update)
  have "\<not> less (m' ! j) (m' ! f)" if j: "f \<le> j" "j < l" for j
  proof -
    have "m' ! j \<in> set (seg m' f l)"
      using j Suc.prems(3) permuted_length [OF perm]
      by (auto simp: in_set_conv_nth seg_nth intro!: exI [of _ "j - f"])
    then have "m' ! j \<in> set (seg m f l)" using permuted_set [OF perm] by simp
    then obtain i where "i < l - f" "m ! (f + i) = m' ! j"
      using Suc.prems(3) by (auto simp: in_set_conv_nth seg_nth)
    then show ?thesis using r(4) [of "f + i"] first by simp
  qed
  then have "\<not> less (m' ! j) (m' ! i)" if "f \<le> i" "i < middle" "i \<le> j" "j < l" for i j
    using m'(3) that by (cases "i = f") auto
  then show ?case
    using f r(1) swap m'(1) perm by (subst alg_selection_partial_sort_comp.simps) simp
qed

end

section \<open>Properties\<close>

text \<open>C30: \<open>sort\<close> orders a range by any strict weak order, keeps its elements and touches
  nothing else.\<close>

theorem alg_sort_sorts:
  assumes "strict_weak_order cmp" and "f \<le> l" and "l \<le> length m"
  shows "\<exists>s. alg_sort_comp cmp m f l = Some (take f m @ s @ drop l m) \<and> mset s = mset (seg m f l) \<and>
    sorted_wrt (\<lambda>x y. \<not> cmp y x) s"
proof -
  obtain m' where "alg_heap_sort_comp cmp m f l = Some m'" "permuted f l m m'"
      "sorted_wrt (\<lambda>x y. \<not> cmp y x) (seg m' f l)"
    using strict_weak_order.heap_sort_spec [OF assms] by blast
  then show ?thesis
    using permuted_memory [OF _ assms(2,3)]
    by (intro exI [of _ "seg m' f l"]) (simp add: alg_sort_comp_def permuted_def flip: permuted_memory)
qed

theorem alg_sort_sorts_witness:
  "\<exists>s. alg_sort_comp (<) [9, 5, 3, 4, 3, (1::nat), 0] 1 6 = Some ([9] @ s @ [0]) \<and> mset s = {#5, 3, 4, 3, 1#}"
  using alg_sort_sorts [OF less_order.strict_weak_order_axioms, of 1 6 "[9, 5, 3, 4, 3, (1::nat), 0]"]
  by (auto simp: seg_def)

text \<open>C31: \<open>stable_sort\<close> orders a range by a key and keeps the order of elements with equal
  keys.\<close>

theorem alg_stable_sort_stable:
  fixes key :: "'a \<Rightarrow> 'k::linorder"
  assumes "f \<le> l" and "l \<le> length m"
  shows "alg_stable_sort_comp (\<lambda>x y. key x < key y) m f l =
    Some (take f m @ sort_key key (seg m f l) @ drop l m)"
  by (simp add: alg_stable_sort_comp_def insertion_sort_foldl [OF assms] insertion_sort_key)

theorem alg_stable_sort_stable_witness:
  "alg_stable_sort_comp (\<lambda>x y. fst x < fst y) [(2, 1), (1, 2), (2, 3), (1, 4), (0::nat, 5::nat)] 0 4 =
    Some [(1, 2), (1, 4), (2, 1), (2, 3), (0, 5)]"
  using alg_stable_sort_stable [of 0 4 "[(2, 1), (1, 2), (2, 3), (1, 4), (0::nat, 5::nat)]" fst]
  by (simp add: seg_def)

text \<open>When the arguments of the helpers are evaluated from right to left, \<open>push_heap\<close>
  restores the heap and \<open>pop_heap\<close> moves the greatest element behind it. Evaluated from left to
  right, both work on a range that ends one element too late.\<close>

theorem alg_heap_operations:
  assumes "strict_weak_order cmp" and "f < l" and "l \<le> length m" and "heap_from cmp m f (l - f - 1) 1"
  shows "\<exists>m1 m2. alg_push_heap_comp True cmp m f l = Some m1 \<and> permuted f l m m1 \<and> heap_from cmp m1 f (l - f) 1 \<and>
    alg_pop_heap_comp True cmp m1 f l = Some m2 \<and> permuted f l m1 m2 \<and> heap_from cmp m2 f (l - f - 1) 1 \<and>
    (\<forall>x \<in> set (seg m f l). \<not> cmp (m2 ! (l - 1)) x) \<and>
    alg_push_heap_comp False cmp m f l = alg_push_heap_comp True cmp m f (Suc l) \<and>
    alg_pop_heap_comp False cmp m1 f l = alg_pop_heap_comp True cmp m1 f (Suc l)"
proof -
  have n: "1 \<le> l - f" "f + (l - f) = l" "f + (l - f) \<le> length m" using assms(2,3) by auto
  have "strict_weak_order.push_inv cmp m f (l - f) (l - f)"
    using assms(4) n unfolding strict_weak_order.push_inv_def [OF assms(1)] heap_from_def by auto
  then obtain m1 where m1: "alg_push_heap_loop cmp m f (l - f) = Some m1" "permuted f l m m1" "heap_from cmp m1 f (l - f) 1"
    using strict_weak_order.push_heap_loop_spec [OF assms(1) n(1) order_refl n(3)] n(2) by auto
  have len: "length m1 = length m" using m1(2) by (rule permuted_length)
  obtain m2 where m2: "alg_pop_heap_base cmp m1 f (l - f) = Some m2" "permuted f l m1 m2"
      "heap_from cmp m2 f (l - f - 1) 1" "m2 ! (l - 1) = m1 ! f"
    using strict_weak_order.pop_heap_spec [OF assms(1) n(1) _ m1(3)] n len assms(2) by auto
  have "\<not> cmp (m2 ! (l - 1)) x" if "x \<in> set (seg m f l)" for x
    using strict_weak_order.heap_root_set [OF assms(1) m1(3), of x] that permuted_set [OF m1(2)] m2(4) n(2) len assms(3)
    by simp
  then show ?thesis
    using m1 m2 assms(2) by (intro exI [of _ m1] exI [of _ m2]) (simp add: alg_push_heap_comp_def alg_pop_heap_comp_def)
qed

theorem alg_heap_operations_witness:
  "\<exists>m1 m2. alg_push_heap_comp True (<) [7, 4, 5, 9, (2::nat)] 0 4 = Some m1 \<and> m1 ! 4 = 2 \<and>
    alg_pop_heap_comp True (<) m1 0 4 = Some m2 \<and> \<not> m2 ! 3 < 9"
proof -
  have "heap_from (<) [7, 4, 5, 9, (2::nat)] 0 3 1"
    unfolding heap_from_def
  proof (intro allI impI)
    fix i :: nat assume "i \<le> 3" "1 \<le> i div 2"
    then have "i = 2 \<or> i = 3" by auto
    then show "\<not> el [7, 4, 5, 9, (2::nat)] 0 (i div 2) < el [7, 4, 5, 9, (2::nat)] 0 i" by auto
  qed
  then obtain m1 m2 where "alg_push_heap_comp True (<) [7, 4, 5, 9, (2::nat)] 0 4 = Some m1"
      "permuted 0 4 [7, 4, 5, 9, (2::nat)] m1" "alg_pop_heap_comp True (<) m1 0 4 = Some m2"
      "\<not> m2 ! 3 < 9"
    using alg_heap_operations [OF less_order.strict_weak_order_axioms, of 0 4 "[7, 4, 5, 9, (2::nat)]"]
    by (auto simp: seg_def)
  moreover from this have "m1 ! 4 = 2" using permuted_nth_outside [of 0 4 _ m1 4] by force
  ultimately show ?thesis by blast
qed

text \<open>\<open>selection_partial_sort\<close> brings the smallest elements of a range to its front, in
  order, keeps all elements and touches nothing else.\<close>

theorem alg_selection_sorts:
  assumes "strict_weak_order cmp" and "f \<le> middle" and "middle \<le> l" and "l \<le> length m"
  shows "\<exists>m'. alg_selection_partial_sort_comp cmp m f middle l = Some m' \<and> permuted f l m m' \<and>
    (\<forall>i j. f \<le> i \<longrightarrow> i < middle \<longrightarrow> i \<le> j \<longrightarrow> j < l \<longrightarrow> \<not> cmp (m' ! j) (m' ! i))"
  by (rule strict_weak_order.selection_spec [OF assms])

theorem alg_selection_sorts_witness:
  "\<exists>m'. alg_selection_partial_sort_comp (<) [9, 5, 3, 4, (1::nat)] 1 3 5 = Some m' \<and> length m' = 5"
  using alg_selection_sorts [OF less_order.strict_weak_order_axioms, of 1 3 5 "[9, 5, 3, 4, (1::nat)]"]
  by (auto simp: permuted_def)

text \<open>\<open>partial_sort_copy\<close> does not sort: given 5 4 3 2 1 and room for four elements, it returns
  2 3 4 1; with room for two it exchanges an element of the result with the one behind the room,
  and at the end of the memory it leaves the memory.\<close>

theorem alg_partial_sort_copy_wrong:
  "alg_partial_sort_copy [5, 4, 3, 2, 1, 0, 0, 0, (0::nat)] 0 5 5 9 = Some ([5, 4, 3, 2, 1, 2, 3, 4, 1], 9) \<and>
   alg_partial_sort_copy [3, 2, 1, 0, 0, (9::nat)] 0 3 3 5 = Some ([3, 2, 1, 9, 1, 2], 5) \<and>
   alg_partial_sort_copy [3, 2, 1, 0, (0::nat)] 0 3 3 5 = None"
  by code_simp

end
