(* ===== verification/Pstl_Sets.thy ===== *)
theory Pstl_Sets
  imports Pstl_Heap
begin

text \<open>
  \<^verbatim>\<open>wiselib.testing/util/pstl/algorithm.h\<close>, merging and the set operations on sorted
  ranges, lines 1038-1257. \<open>m\<close> holds both ranges and the room for the result at \<open>d\<close>.
\<close>

function alg_merge_comp ::
  "('a \<Rightarrow> 'a \<Rightarrow> bool) \<Rightarrow> 'a list \<Rightarrow> nat \<Rightarrow> nat \<Rightarrow> nat \<Rightarrow> nat \<Rightarrow> nat \<Rightarrow> ('a list \<times> nat) option" where
  "alg_merge_comp cmp m f1 l1 f2 l2 d = do {
     x \<leftarrow> rd m f1; y \<leftarrow> rd m f2;
     if cmp x y then do { m \<leftarrow> wr m d x;
       if Suc f1 = l1 then alg_copy m (Suc f1) l1 (Suc d) else alg_merge_comp cmp m (Suc f1) l1 f2 l2 (Suc d) }
     else do { m \<leftarrow> wr m d y;
       if Suc f2 = l2 then alg_copy m (Suc f2) l2 (Suc d) else alg_merge_comp cmp m f1 l1 (Suc f2) l2 (Suc d) } }"
  by pat_completeness auto
termination by (relation "measure (\<lambda>(cmp, m, f1, l1, f2, l2, d). (length m - f1) + (length m - f2))")
  (auto simp: mem_simps)

definition alg_merge :: "'a::linorder list \<Rightarrow> nat \<Rightarrow> nat \<Rightarrow> nat \<Rightarrow> nat \<Rightarrow> nat \<Rightarrow> ('a list \<times> nat) option" where
  "alg_merge m f1 l1 f2 l2 d = alg_merge_comp (<) m f1 l1 f2 l2 d"

definition alg_inplace_merge_comp :: "('a \<Rightarrow> 'a \<Rightarrow> bool) \<Rightarrow> 'a list \<Rightarrow> nat \<Rightarrow> nat \<Rightarrow> nat \<Rightarrow> 'a list option" where
  "alg_inplace_merge_comp cmp m f middle l = alg_heap_sort_comp cmp m f l"

definition alg_inplace_merge :: "'a::linorder list \<Rightarrow> nat \<Rightarrow> nat \<Rightarrow> nat \<Rightarrow> 'a list option" where
  "alg_inplace_merge m f middle l = alg_heap_sort m f l"

function alg_includes_comp :: "('a \<Rightarrow> 'a \<Rightarrow> bool) \<Rightarrow> 'a list \<Rightarrow> nat \<Rightarrow> nat \<Rightarrow> nat \<Rightarrow> nat \<Rightarrow> bool option" where
  "alg_includes_comp cmp m f1 l1 f2 l2 =
     (if f1 \<noteq> l1 then
        (if f2 = l2 then Some True
         else do { x \<leftarrow> rd m f1; y \<leftarrow> rd m f2;
           if cmp y x then Some False
           else do { x \<leftarrow> rd m (Suc f1);
             alg_includes_comp cmp m (Suc f1) l1 (if \<not> cmp x y then Suc f2 else f2) l2 } })
      else Some False)"
  by pat_completeness auto
termination by (relation "measure (\<lambda>(cmp, m, f1, l1, f2, l2). length m - f1)") (auto simp: mem_simps)

definition alg_includes :: "'a::linorder list \<Rightarrow> nat \<Rightarrow> nat \<Rightarrow> nat \<Rightarrow> nat \<Rightarrow> bool option" where
  "alg_includes m f1 l1 f2 l2 = alg_includes_comp (<) m f1 l1 f2 l2"

function alg_set_union_comp ::
  "('a \<Rightarrow> 'a \<Rightarrow> bool) \<Rightarrow> 'a list \<Rightarrow> nat \<Rightarrow> nat \<Rightarrow> nat \<Rightarrow> nat \<Rightarrow> nat \<Rightarrow> ('a list \<times> nat) option" where
  "alg_set_union_comp cmp m f1 l1 f2 l2 d =
     (if f1 = l1 then alg_copy m f2 l2 d
      else if f2 = l2 then alg_copy m f1 l1 d
      else do { x \<leftarrow> rd m f1; y \<leftarrow> rd m f2;
        if cmp x y then do { m \<leftarrow> wr m d x; alg_set_union_comp cmp m (Suc f1) l1 f2 l2 (Suc d) }
        else do { m \<leftarrow> wr m d y; y \<leftarrow> rd m (Suc f2); x \<leftarrow> rd m f1;
          alg_set_union_comp cmp m (if \<not> cmp y x then Suc f1 else f1) l1 (Suc f2) l2 (Suc d) } })"
  by pat_completeness auto
termination by (relation "measure (\<lambda>(cmp, m, f1, l1, f2, l2, d). (length m - f1) + (length m - f2))")
  (auto simp: mem_simps)

definition alg_set_union :: "'a::linorder list \<Rightarrow> nat \<Rightarrow> nat \<Rightarrow> nat \<Rightarrow> nat \<Rightarrow> nat \<Rightarrow> ('a list \<times> nat) option" where
  "alg_set_union m f1 l1 f2 l2 d = alg_set_union_comp (<) m f1 l1 f2 l2 d"

function alg_set_intersection_comp ::
  "('a \<Rightarrow> 'a \<Rightarrow> bool) \<Rightarrow> 'a list \<Rightarrow> nat \<Rightarrow> nat \<Rightarrow> nat \<Rightarrow> nat \<Rightarrow> nat \<Rightarrow> ('a list \<times> nat) option" where
  "alg_set_intersection_comp cmp m f1 l1 f2 l2 d =
     (if f1 \<noteq> l1 \<and> f2 \<noteq> l2 then do { x \<leftarrow> rd m f1; y \<leftarrow> rd m f2;
        if cmp x y then alg_set_intersection_comp cmp m (Suc f1) l1 f2 l2 d
        else if cmp y x then alg_set_intersection_comp cmp m f1 l1 (Suc f2) l2 d
        else do { m \<leftarrow> wr m d x; alg_set_intersection_comp cmp m (Suc f1) l1 (Suc f2) l2 (Suc d) } }
      else Some (m, d))"
  by pat_completeness auto
termination by (relation "measure (\<lambda>(cmp, m, f1, l1, f2, l2, d). (length m - f1) + (length m - f2))")
  (auto simp: mem_simps)

definition alg_set_intersection ::
  "'a::linorder list \<Rightarrow> nat \<Rightarrow> nat \<Rightarrow> nat \<Rightarrow> nat \<Rightarrow> nat \<Rightarrow> ('a list \<times> nat) option" where
  "alg_set_intersection m f1 l1 f2 l2 d = alg_set_intersection_comp (<) m f1 l1 f2 l2 d"

function alg_set_difference_comp ::
  "('a \<Rightarrow> 'a \<Rightarrow> bool) \<Rightarrow> 'a list \<Rightarrow> nat \<Rightarrow> nat \<Rightarrow> nat \<Rightarrow> nat \<Rightarrow> nat \<Rightarrow> ('a list \<times> nat) option" where
  "alg_set_difference_comp cmp m f1 l1 f2 l2 d =
     (if f1 \<noteq> l1 \<and> f2 \<noteq> l2 then do { x \<leftarrow> rd m f1; y \<leftarrow> rd m f2;
        if cmp x y then do { m \<leftarrow> wr m d x; alg_set_difference_comp cmp m (Suc f1) l1 f2 l2 (Suc d) }
        else alg_set_difference_comp cmp m (if \<not> cmp y x then Suc f1 else f1) l1 (Suc f2) l2 d }
      else alg_copy m f1 l1 d)"
  by pat_completeness auto
termination by (relation "measure (\<lambda>(cmp, m, f1, l1, f2, l2, d). (length m - f1) + (length m - f2))")
  (auto simp: mem_simps)

definition alg_set_difference ::
  "'a::linorder list \<Rightarrow> nat \<Rightarrow> nat \<Rightarrow> nat \<Rightarrow> nat \<Rightarrow> nat \<Rightarrow> ('a list \<times> nat) option" where
  "alg_set_difference m f1 l1 f2 l2 d = alg_set_difference_comp (<) m f1 l1 f2 l2 d"

function alg_set_symmetric_difference_comp ::
  "('a \<Rightarrow> 'a \<Rightarrow> bool) \<Rightarrow> 'a list \<Rightarrow> nat \<Rightarrow> nat \<Rightarrow> nat \<Rightarrow> nat \<Rightarrow> nat \<Rightarrow> ('a list \<times> nat) option" where
  "alg_set_symmetric_difference_comp cmp m f1 l1 f2 l2 d =
     (if f1 = l1 then alg_copy m f2 l2 d
      else if f2 = l2 then alg_copy m f1 l1 d
      else do { x \<leftarrow> rd m f1; y \<leftarrow> rd m f2;
        if cmp x y then do { m \<leftarrow> wr m d x; alg_set_symmetric_difference_comp cmp m (Suc f1) l1 f2 l2 (Suc d) }
        else if cmp y x then do { m \<leftarrow> wr m d y; alg_set_symmetric_difference_comp cmp m f1 l1 (Suc f2) l2 (Suc d) }
        else alg_set_symmetric_difference_comp cmp m (Suc f1) l1 (Suc f2) l2 d })"
  by pat_completeness auto
termination by (relation "measure (\<lambda>(cmp, m, f1, l1, f2, l2, d). (length m - f1) + (length m - f2))")
  (auto simp: mem_simps)

definition alg_set_symmetric_difference ::
  "'a::linorder list \<Rightarrow> nat \<Rightarrow> nat \<Rightarrow> nat \<Rightarrow> nat \<Rightarrow> nat \<Rightarrow> ('a list \<times> nat) option" where
  "alg_set_symmetric_difference m f1 l1 f2 l2 d = alg_set_symmetric_difference_comp (<) m f1 l1 f2 l2 d"

declare alg_merge_comp.simps [simp del] alg_includes_comp.simps [simp del] alg_set_union_comp.simps [simp del]
  alg_set_intersection_comp.simps [simp del] alg_set_difference_comp.simps [simp del]
  alg_set_symmetric_difference_comp.simps [simp del]

section \<open>The operations on lists\<close>

fun inter_list :: "'a::linorder list \<Rightarrow> 'a list \<Rightarrow> 'a list" where
  "inter_list (x # xs) (y # ys) =
     (if x < y then inter_list xs (y # ys) else if y < x then inter_list (x # xs) ys else x # inter_list xs ys)"
| "inter_list _ _ = []"

fun diff_list :: "'a::linorder list \<Rightarrow> 'a list \<Rightarrow> 'a list" where
  "diff_list (x # xs) (y # ys) =
     (if x < y then x # diff_list xs (y # ys) else if y < x then diff_list (x # xs) ys else diff_list xs ys)"
| "diff_list xs _ = xs"

fun symdiff_list :: "'a::linorder list \<Rightarrow> 'a list \<Rightarrow> 'a list" where
  "symdiff_list (x # xs) (y # ys) =
     (if x < y then x # symdiff_list xs (y # ys) else if y < x then y # symdiff_list (x # xs) ys
      else symdiff_list xs ys)"
| "symdiff_list [] ys = ys"
| "symdiff_list xs [] = xs"

lemma inter_list_Nil [simp]: "inter_list xs [] = []"
  by (cases xs) simp_all

lemma diff_list_Nil [simp]: "diff_list [] ys = []"
  by (cases ys) simp_all

lemma symdiff_list_Nil [simp]: "symdiff_list xs [] = xs"
  by (cases xs) simp_all

lemma count_zero_sorted: "sorted (y # ys) \<Longrightarrow> x < y \<Longrightarrow> count (mset ys) x = 0"
  by (auto simp: count_eq_zero_iff)

lemma count_notin: "a \<notin> set xs \<Longrightarrow> count (mset xs) a = 0"
  by simp

lemma inter_list_count:
  "sorted xs \<Longrightarrow> sorted ys \<Longrightarrow> count (mset (inter_list xs ys)) a = min (count (mset xs) a) (count (mset ys) a)"
proof (induction xs ys rule: inter_list.induct)
  case (1 x xs y ys)
  consider "x < y" | "y < x" | "x = y" by fastforce
  then show ?case
    using 1 count_zero_sorted [of y ys a] count_zero_sorted [of x xs a] by cases (auto simp: count_notin)
qed auto

lemma diff_list_count:
  "sorted xs \<Longrightarrow> sorted ys \<Longrightarrow> count (mset (diff_list xs ys)) a = count (mset xs) a - count (mset ys) a"
proof (induction xs ys rule: diff_list.induct)
  case (1 x xs y ys)
  consider "x < y" | "y < x" | "x = y" by fastforce
  then show ?case
    using 1 count_zero_sorted [of y ys a] count_zero_sorted [of x xs a] by cases (auto simp: count_notin)
qed auto

lemma symdiff_list_count:
  "sorted xs \<Longrightarrow> sorted ys \<Longrightarrow> count (mset (symdiff_list xs ys)) a =
     (count (mset xs) a - count (mset ys) a) + (count (mset ys) a - count (mset xs) a)"
proof (induction xs ys rule: symdiff_list.induct)
  case (1 x xs y ys)
  consider "x < y" | "y < x" | "x = y" by fastforce
  then show ?case
    using 1 count_zero_sorted [of y ys a] count_zero_sorted [of x xs a] by cases (auto simp: count_notin)
qed auto

lemma inter_list_sorted: "sorted xs \<Longrightarrow> sorted ys \<Longrightarrow> sorted (inter_list xs ys) \<and> set (inter_list xs ys) \<subseteq> set xs"
  by (induction xs ys rule: inter_list.induct) auto

lemma diff_list_sorted: "sorted xs \<Longrightarrow> sorted ys \<Longrightarrow> sorted (diff_list xs ys) \<and> set (diff_list xs ys) \<subseteq> set xs"
  by (induction xs ys rule: diff_list.induct) auto

lemma symdiff_list_set: "set (symdiff_list xs ys) \<subseteq> set xs \<union> set ys"
  by (induction xs ys rule: symdiff_list.induct) auto

lemma symdiff_list_sorted: "sorted xs \<Longrightarrow> sorted ys \<Longrightarrow> sorted (symdiff_list xs ys)"
proof (induction xs ys rule: symdiff_list.induct)
  case (1 x xs y ys)
  have "\<forall>z \<in> set (symdiff_list xs (y # ys)). x \<le> z" if "x < y"
    using symdiff_list_set [of xs "y # ys"] 1(4,5) that by fastforce
  moreover have "\<forall>z \<in> set (symdiff_list (x # xs) ys). y \<le> z" if "y < x"
    using symdiff_list_set [of "x # xs" ys] 1(4,5) that by fastforce
  ultimately show ?case using 1 by auto
qed simp_all

section \<open>What the loops do\<close>

text \<open>The result is copied to a place behind the ranges.\<close>

definition put :: "'a list \<Rightarrow> nat \<Rightarrow> 'a list \<Rightarrow> ('a list \<times> nat) option" where
  "put m d out = do { m \<leftarrow> memcpy m d out; Some (m, d + length out) }"

lemma put_Nil [simp]: "d \<le> length m \<Longrightarrow> put m d [] = Some (m, d)"
  by (simp add: put_def memcpy_Nil)

lemma put_Cons: "put m d (x # xs) = do { m \<leftarrow> wr m d x; put m (Suc d) xs }"
  by (cases "wr m d x") (simp_all add: put_def memcpy_Cons)

text \<open>A write behind the ranges leaves them unchanged.\<close>

lemma put_step:
  assumes "d \<le> length m" and "l1 \<le> d" and "l2 \<le> d"
    and "\<And>m'. length m' = length m \<Longrightarrow> seg m' f1 l1 = seg m f1 l1 \<Longrightarrow> seg m' f2 l2 = seg m f2 l2 \<Longrightarrow>
      Suc d \<le> length m' \<Longrightarrow> step m' = put m' (Suc d) xs"
  shows "Option.bind (wr m d x) step = put m d (x # xs)"
proof (cases "wr m d x")
  case (Some m')
  then show ?thesis using assms by (simp add: put_Cons) (auto simp: mem_simps)
qed (simp add: put_Cons)

lemma copy_put: "f \<le> l \<Longrightarrow> l \<le> d \<Longrightarrow> d \<le> length m \<Longrightarrow> alg_copy m f l d = put m d (seg m f l)"
proof (induction "l - f" arbitrary: m f d)
  case 0
  then show ?case by (simp add: alg_copy.simps)
next
  case (Suc k)
  have k: "k = l - Suc f" and f: "f < l" "l \<le> length m" using Suc.hyps(2) Suc.prems by simp_all
  have "Option.bind (wr m d (m ! f)) (\<lambda>m'. alg_copy m' (Suc f) l (Suc d)) = put m d (m ! f # seg m (Suc f) l)"
    using Suc.prems Suc.hyps(1) [OF k] f by (intro put_step [of d m l l "Suc f" "Suc f"]) auto
  then show ?case using f by (subst alg_copy.simps) (simp add: seg_Cons)
qed

lemma set_intersection_put:
  "f1 \<le> l1 \<Longrightarrow> f2 \<le> l2 \<Longrightarrow> l1 \<le> d \<Longrightarrow> l2 \<le> d \<Longrightarrow> d \<le> length m \<Longrightarrow>
   alg_set_intersection_comp (<) m f1 l1 f2 l2 d = put m d (inter_list (seg m f1 l1) (seg m f2 l2))"
proof (induction "(l1 - f1) + (l2 - f2)" arbitrary: m f1 f2 d rule: less_induct)
  case less
  note prems = less.prems
  show ?case
  proof (cases "f1 = l1 \<or> f2 = l2")
    case True
    then show ?thesis using prems by (subst alg_set_intersection_comp.simps) (auto simp: copy_put)
  next
    case False
    then have f: "f1 < l1" "f2 < l2" "l1 \<le> length m" "l2 \<le> length m" using prems by simp_all
    note unfold = alg_set_intersection_comp.simps [of "(<)" m f1 l1 f2 l2 d]
    show ?thesis
    proof (cases "m ! f1" "m ! f2" rule: linorder_cases)
      case less
      have "alg_set_intersection_comp (<) m (Suc f1) l1 (f2) l2 d = put m d (inter_list (seg m (Suc f1) l1) (seg m (f2) l2))"
        using prems f by (intro less.hyps) auto
      then show ?thesis using f less unfolding unfold by (simp add: seg_Cons)
    next
      case equal
      have "Option.bind (wr m d (m ! f1)) (\<lambda>m'. alg_set_intersection_comp (<) m' (Suc f1) l1 (Suc f2) l2 (Suc d)) =
          put m d (m ! f1 # inter_list (seg m (Suc f1) l1) (seg m (Suc f2) l2))"
        using prems f by (intro put_step [of d m l1 l2 "Suc f1" "Suc f2"]) (auto simp: less.hyps)
      then show ?thesis using f equal unfolding unfold by (simp add: seg_Cons)
    next
      case greater
      have "alg_set_intersection_comp (<) m (f1) l1 (Suc f2) l2 d = put m d (inter_list (seg m (f1) l1) (seg m (Suc f2) l2))"
        using prems f by (intro less.hyps) auto
      moreover have "\<not> m ! f1 < m ! f2" using greater by simp
      ultimately show ?thesis using f greater unfolding unfold by (simp add: seg_Cons del: not_less)
    qed
  qed
qed

lemma set_difference_put:
  "f1 \<le> l1 \<Longrightarrow> f2 \<le> l2 \<Longrightarrow> l1 \<le> d \<Longrightarrow> l2 \<le> d \<Longrightarrow> d \<le> length m \<Longrightarrow>
   alg_set_difference_comp (<) m f1 l1 f2 l2 d = put m d (diff_list (seg m f1 l1) (seg m f2 l2))"
proof (induction "(l1 - f1) + (l2 - f2)" arbitrary: m f1 f2 d rule: less_induct)
  case less
  note prems = less.prems
  show ?case
  proof (cases "f1 = l1 \<or> f2 = l2")
    case True
    then show ?thesis using prems by (subst alg_set_difference_comp.simps) (auto simp: copy_put)
  next
    case False
    then have f: "f1 < l1" "f2 < l2" "l1 \<le> length m" "l2 \<le> length m" using prems by simp_all
    note unfold = alg_set_difference_comp.simps [of "(<)" m f1 l1 f2 l2 d]
    show ?thesis
    proof (cases "m ! f1" "m ! f2" rule: linorder_cases)
      case less
      have "Option.bind (wr m d (m ! f1)) (\<lambda>m'. alg_set_difference_comp (<) m' (Suc f1) l1 (f2) l2 (Suc d)) =
          put m d (m ! f1 # diff_list (seg m (Suc f1) l1) (seg m (f2) l2))"
        using prems f by (intro put_step [of d m l1 l2 "Suc f1" "f2"]) (auto simp: less.hyps)
      then show ?thesis using f less unfolding unfold by (simp add: seg_Cons)
    next
      case equal
      have "alg_set_difference_comp (<) m (Suc f1) l1 (Suc f2) l2 d = put m d (diff_list (seg m (Suc f1) l1) (seg m (Suc f2) l2))"
        using prems f by (intro less.hyps) auto
      then show ?thesis using f equal unfolding unfold by (simp add: seg_Cons)
    next
      case greater
      have "alg_set_difference_comp (<) m (f1) l1 (Suc f2) l2 d = put m d (diff_list (seg m (f1) l1) (seg m (Suc f2) l2))"
        using prems f by (intro less.hyps) auto
      moreover have "\<not> m ! f1 < m ! f2" using greater by simp
      ultimately show ?thesis using f greater unfolding unfold by (simp add: seg_Cons del: not_less)
    qed
  qed
qed

lemma set_symmetric_difference_put:
  "f1 \<le> l1 \<Longrightarrow> f2 \<le> l2 \<Longrightarrow> l1 \<le> d \<Longrightarrow> l2 \<le> d \<Longrightarrow> d \<le> length m \<Longrightarrow>
   alg_set_symmetric_difference_comp (<) m f1 l1 f2 l2 d = put m d (symdiff_list (seg m f1 l1) (seg m f2 l2))"
proof (induction "(l1 - f1) + (l2 - f2)" arbitrary: m f1 f2 d rule: less_induct)
  case less
  note prems = less.prems
  show ?case
  proof (cases "f1 = l1 \<or> f2 = l2")
    case True
    then show ?thesis using prems by (subst alg_set_symmetric_difference_comp.simps) (auto simp: copy_put)
  next
    case False
    then have f: "f1 < l1" "f2 < l2" "l1 \<le> length m" "l2 \<le> length m" using prems by simp_all
    note unfold = alg_set_symmetric_difference_comp.simps [of "(<)" m f1 l1 f2 l2 d]
    show ?thesis
    proof (cases "m ! f1" "m ! f2" rule: linorder_cases)
      case less
      have "Option.bind (wr m d (m ! f1)) (\<lambda>m'. alg_set_symmetric_difference_comp (<) m' (Suc f1) l1 (f2) l2 (Suc d)) =
          put m d (m ! f1 # symdiff_list (seg m (Suc f1) l1) (seg m (f2) l2))"
        using prems f by (intro put_step [of d m l1 l2 "Suc f1" "f2"]) (auto simp: less.hyps)
      then show ?thesis using f less unfolding unfold by (simp add: seg_Cons)
    next
      case equal
      have "alg_set_symmetric_difference_comp (<) m (Suc f1) l1 (Suc f2) l2 d = put m d (symdiff_list (seg m (Suc f1) l1) (seg m (Suc f2) l2))"
        using prems f by (intro less.hyps) auto
      then show ?thesis using f equal unfolding unfold by (simp add: seg_Cons)
    next
      case greater
      have "Option.bind (wr m d (m ! f2)) (\<lambda>m'. alg_set_symmetric_difference_comp (<) m' (f1) l1 (Suc f2) l2 (Suc d)) =
          put m d (m ! f2 # symdiff_list (seg m (f1) l1) (seg m (Suc f2) l2))"
        using prems f by (intro put_step [of d m l1 l2 "f1" "Suc f2"]) (auto simp: less.hyps)
      moreover have "\<not> m ! f1 < m ! f2" using greater by simp
      ultimately show ?thesis using f greater unfolding unfold by (simp add: seg_Cons del: not_less)
    qed
  qed
qed

lemma put_in:
  "d + length out \<le> length m \<Longrightarrow> put m d out = Some (take d m @ out @ drop (d + length out) m, d + length out)"
  by (simp add: put_def memcpy_def)

lemma inter_list_length: "length (inter_list xs ys) \<le> length xs"
  by (induction xs ys rule: inter_list.induct) auto

lemma diff_list_length: "length (diff_list xs ys) \<le> length xs"
  by (induction xs ys rule: diff_list.induct) auto

lemma symdiff_list_length: "length (symdiff_list xs ys) \<le> length xs + length ys"
  by (induction xs ys rule: symdiff_list.induct) auto

text \<open>\<open>merge\<close> stops when one range is used up.\<close>

fun merge_list :: "('a \<Rightarrow> 'a \<Rightarrow> bool) \<Rightarrow> 'a list \<Rightarrow> 'a list \<Rightarrow> 'a list" where
  "merge_list cmp (x # xs) (y # ys) =
     (if cmp x y then x # merge_list cmp xs (y # ys) else y # merge_list cmp (x # xs) ys)"
| "merge_list cmp _ _ = []"

lemma merge_list_Nil [simp]: "merge_list cmp xs [] = []"
  by (cases xs) simp_all

lemma merge_list_rest:
  "xs \<noteq> [] \<Longrightarrow> ys \<noteq> [] \<Longrightarrow> \<exists>rest. rest \<noteq> [] \<and> mset (merge_list cmp xs ys) + mset rest = mset xs + mset ys \<and>
     ((\<exists>k. rest = drop k xs) \<or> (\<exists>k. rest = drop k ys))"
proof (induction cmp xs ys rule: merge_list.induct)
  case (1 cmp x xs y ys)
  show ?case
  proof (cases "cmp x y")
    case True
    show ?thesis
    proof (cases "xs = []")
      case True
      then show ?thesis
        using \<open>cmp x y\<close> by (intro exI [of _ "y # ys"]) (auto intro: exI [of _ 0])
    next
      case False
      then obtain rest where "rest \<noteq> []" "mset (merge_list cmp xs (y # ys)) + mset rest = mset xs + mset (y # ys)"
          "(\<exists>k. rest = drop k xs) \<or> (\<exists>k. rest = drop k (y # ys))"
        using 1(1) [OF True] by auto
      then show ?thesis
        using True by (intro exI [of _ rest]) (auto intro: exI [of _ "Suc _"])
    qed
  next
    case cmp: False
    show ?thesis
    proof (cases "ys = []")
      case True
      then show ?thesis
        using cmp by (intro exI [of _ "x # xs"]) (auto intro: exI [of _ 0])
    next
      case False
      then obtain rest where "rest \<noteq> []" "mset (merge_list cmp (x # xs) ys) + mset rest = mset (x # xs) + mset ys"
          "(\<exists>k. rest = drop k (x # xs)) \<or> (\<exists>k. rest = drop k ys)"
        using 1(2) [OF cmp] by auto
      then show ?thesis
        using cmp by (intro exI [of _ rest]) (auto intro: exI [of _ "Suc _"])
    qed
  qed
qed simp_all

lemma merge_put:
  "f1 < l1 \<Longrightarrow> f2 < l2 \<Longrightarrow> l1 \<le> d \<Longrightarrow> l2 \<le> d \<Longrightarrow> d \<le> length m \<Longrightarrow>
   alg_merge_comp cmp m f1 l1 f2 l2 d = put m d (merge_list cmp (seg m f1 l1) (seg m f2 l2))"
proof (induction "(l1 - f1) + (l2 - f2)" arbitrary: m f1 f2 d rule: less_induct)
  case less
  note prems = less.prems
  have l: "l1 \<le> length m" "l2 \<le> length m" using prems by simp_all
  note unfold = alg_merge_comp.simps [of cmp m f1 l1 f2 l2 d]
  show ?case
  proof (cases "cmp (m ! f1) (m ! f2)")
    case True
    have "Option.bind (wr m d (m ! f1)) (\<lambda>m'. if Suc f1 = l1 then alg_copy m' (Suc f1) l1 (Suc d)
          else alg_merge_comp cmp m' (Suc f1) l1 f2 l2 (Suc d)) =
        put m d (m ! f1 # merge_list cmp (seg m (Suc f1) l1) (seg m f2 l2))"
      using prems by (intro put_step [of d m l1 l2 "Suc f1" f2]) (auto simp: less.hyps copy_put)
    then show ?thesis using prems l True unfolding unfold by (simp add: seg_Cons)
  next
    case False
    have "Option.bind (wr m d (m ! f2)) (\<lambda>m'. if Suc f2 = l2 then alg_copy m' (Suc f2) l2 (Suc d)
          else alg_merge_comp cmp m' f1 l1 (Suc f2) l2 (Suc d)) =
        put m d (m ! f2 # merge_list cmp (seg m f1 l1) (seg m (Suc f2) l2))"
      using prems by (intro put_step [of d m l1 l2 f1 "Suc f2"]) (auto simp: less.hyps copy_put)
    then show ?thesis using prems l False unfolding unfold by (simp add: seg_Cons)
  qed
qed

text \<open>Every step of \<open>includes\<close> leaves an element of the first range, but not always one of the
  second.\<close>

lemma includes_shorter:
  "alg_includes_comp cmp m f1 l1 f2 l2 = Some True \<Longrightarrow> f1 \<le> l1 \<Longrightarrow> f2 \<le> l2 \<Longrightarrow> l2 - f2 < l1 - f1"
proof (induction "length m - f1" arbitrary: f1 f2 rule: less_induct)
  case less
  have ne: "f1 \<noteq> l1" using less.prems(1) by (auto simp: alg_includes_comp.simps)
  show ?case
  proof (cases "f2 = l2")
    case False
    obtain f2' where "f1 < length m" "alg_includes_comp cmp m (Suc f1) l1 f2' l2 = Some True" "f2' = f2 \<or> f2' = Suc f2"
      using less.prems(1) ne False unfolding alg_includes_comp.simps [of cmp m f1 l1 f2 l2]
      by (auto simp: mem_simps split: if_splits)
    moreover from this have "l2 - f2' < l1 - Suc f1"
      using less.prems(2,3) ne False by (intro less.hyps) auto
    ultimately show ?thesis by auto
  qed (use less.prems(2) ne in simp)
qed

section \<open>Properties\<close>

text \<open>For two sorted ranges and room for the result behind them, \<open>set_intersection\<close>,
  \<open>set_difference\<close> and \<open>set_symmetric_difference\<close> write the sorted intersection,
  difference and symmetric difference of the multisets of their elements.\<close>

theorem alg_set_operations:
  fixes m :: "'a::linorder list"
  assumes "f1 \<le> l1" and "f2 \<le> l2" and "l1 \<le> d" and "l2 \<le> d" and "d + (l1 - f1) + (l2 - f2) \<le> length m"
    and "sorted (seg m f1 l1)" and "sorted (seg m f2 l2)"
  shows "\<exists>u v w. alg_set_intersection m f1 l1 f2 l2 d = Some (take d m @ u @ drop (d + length u) m, d + length u) \<and>
    alg_set_difference m f1 l1 f2 l2 d = Some (take d m @ v @ drop (d + length v) m, d + length v) \<and>
    alg_set_symmetric_difference m f1 l1 f2 l2 d = Some (take d m @ w @ drop (d + length w) m, d + length w) \<and>
    sorted u \<and> sorted v \<and> sorted w \<and>
    mset u = mset (seg m f1 l1) \<inter># mset (seg m f2 l2) \<and> mset v = mset (seg m f1 l1) - mset (seg m f2 l2) \<and>
    mset w = (mset (seg m f1 l1) - mset (seg m f2 l2)) + (mset (seg m f2 l2) - mset (seg m f1 l1))"
proof -
  let ?x = "seg m f1 l1" and ?y = "seg m f2 l2"
  have l: "l1 \<le> length m" "l2 \<le> length m" "d \<le> length m" using assms by simp_all
  have len: "d + length (inter_list ?x ?y) \<le> length m" "d + length (diff_list ?x ?y) \<le> length m"
      "d + length (symdiff_list ?x ?y) \<le> length m"
    using inter_list_length [of ?x ?y] diff_list_length [of ?x ?y] symdiff_list_length [of ?x ?y] assms(5) l
    by simp_all
  have "mset (inter_list ?x ?y) = mset ?x \<inter># mset ?y" "mset (diff_list ?x ?y) = mset ?x - mset ?y"
      "mset (symdiff_list ?x ?y) = (mset ?x - mset ?y) + (mset ?y - mset ?x)"
    using assms(6,7) by (intro multiset_eqI; simp add: inter_list_count diff_list_count symdiff_list_count)+
  then show ?thesis
    using assms(1-4,6,7) l len
    by (intro exI [of _ "inter_list ?x ?y"] exI [of _ "diff_list ?x ?y"] exI [of _ "symdiff_list ?x ?y"])
      (simp add: alg_set_intersection_def alg_set_difference_def alg_set_symmetric_difference_def
        set_intersection_put set_difference_put set_symmetric_difference_put put_in
        inter_list_sorted diff_list_sorted symdiff_list_sorted)
qed

theorem alg_set_operations_witness:
  "\<exists>u. alg_set_intersection [2, 3, 3, 5, 3, 3, 4, 0, 0, 0, 0, 0, 0, (0::nat)] 0 4 4 7 7 =
      Some ([2, 3, 3, 5, 3, 3, 4] @ u @ drop (7 + length u) [2, 3, 3, 5, 3, 3, 4, 0, 0, 0, 0, 0, 0, (0::nat)], 7 + length u) \<and>
    mset u = {#3, 3#}"
proof -
  let ?m = "[2, 3, 3, 5, 3, 3, 4, 0, 0, 0, 0, 0, 0, (0::nat)]"
  obtain u where "alg_set_intersection ?m 0 4 4 7 7 = Some (take 7 ?m @ u @ drop (7 + length u) ?m, 7 + length u)"
      "mset u = mset (seg ?m 0 4) \<inter># mset (seg ?m 4 7)"
    using alg_set_operations [of 0 4 4 7 7 ?m] by (auto simp: seg_def)
  then show ?thesis by (intro exI [of _ u]) (simp add: seg_def inter_mset_def)
qed

text \<open>\<open>merge\<close> of two non-empty ranges loses the rest of the range that is not used up first,
  at least one element.\<close>

theorem alg_merge_loses:
  assumes "f1 < l1" and "f2 < l2" and "l1 \<le> d" and "l2 \<le> d" and "d + (l1 - f1) + (l2 - f2) \<le> length m"
  shows "\<exists>out rest. alg_merge_comp cmp m f1 l1 f2 l2 d =
      Some (take d m @ out @ drop (d + length out) m, d + length out) \<and>
    mset out + mset rest = mset (seg m f1 l1) + mset (seg m f2 l2) \<and> rest \<noteq> [] \<and>
    ((\<exists>k. rest = drop k (seg m f1 l1)) \<or> (\<exists>k. rest = drop k (seg m f2 l2)))"
proof -
  have l: "l1 \<le> length m" "l2 \<le> length m" "d \<le> length m" using assms by simp_all
  then have "seg m f1 l1 \<noteq> []" "seg m f2 l2 \<noteq> []"
    using assms(1,2) by (simp_all add: seg_Cons)
  then obtain rest where rest: "rest \<noteq> []"
      "mset (merge_list cmp (seg m f1 l1) (seg m f2 l2)) + mset rest = mset (seg m f1 l1) + mset (seg m f2 l2)"
      "(\<exists>k. rest = drop k (seg m f1 l1)) \<or> (\<exists>k. rest = drop k (seg m f2 l2))"
    using merge_list_rest [of "seg m f1 l1" "seg m f2 l2" cmp] by metis
  let ?out = "merge_list cmp (seg m f1 l1) (seg m f2 l2)"
  have "size (mset ?out) + size (mset rest) = size (mset (seg m f1 l1)) + size (mset (seg m f2 l2))"
    unfolding size_union [symmetric] rest(2) ..
  then have "length ?out \<le> (l1 - f1) + (l2 - f2)" using l by simp
  then have "d + length ?out \<le> length m" using assms(5) by simp
  then have "alg_merge_comp cmp m f1 l1 f2 l2 d = Some (take d m @ ?out @ drop (d + length ?out) m, d + length ?out)"
    using merge_put [OF assms(1-4) l(3), of cmp] put_in [of d ?out m] by simp
  then show ?thesis using rest by blast
qed

theorem alg_merge_loses_witness:
  "\<exists>(out::nat list) m. alg_merge_comp (<) [2, 4, 3, 5, 0, 0, 0, (0::nat)] 0 2 2 4 4 = Some (m, 4 + length out) \<and> length out < 4"
proof -
  let ?m = "[2, 4, 3, 5, 0, 0, 0, (0::nat)]"
  obtain out rest where "alg_merge_comp (<) ?m 0 2 2 4 4 = Some (take 4 ?m @ out @ drop (4 + length out) ?m, 4 + length out)"
      "mset out + mset rest = mset (seg ?m 0 2) + mset (seg ?m 2 4)" "rest \<noteq> []"
    using alg_merge_loses [of 0 2 2 4 4 ?m "(<)"] by auto
  moreover from this(2) have "size (mset out + mset rest) = size (mset (seg ?m 0 2) + mset (seg ?m 2 4))" by simp
  then have "length out + length rest = 4" by (simp add: seg_def)
  moreover have "0 < length rest" using calculation(3) by simp
  ultimately have "length out < 4" by linarith
  then show ?thesis
    using \<open>alg_merge_comp (<) ?m 0 2 2 4 4 = _\<close> by metis
qed

text \<open>\<open>includes\<close> finds only ranges that are shorter than the including one, so that no
  range includes itself.\<close>

theorem alg_includes_shorter:
  assumes "alg_includes_comp cmp m f1 l1 f2 l2 = Some True" and "f1 \<le> l1" and "f2 \<le> l2"
  shows "l2 - f2 < l1 - f1"
  by (rule includes_shorter [OF assms])

theorem alg_includes_shorter_witness:
  "alg_includes [1, 2, 3, 1, (2::nat)] 0 3 3 5 = Some True \<and> (5::nat) - 3 < 3 - 0"
proof -
  have "alg_includes [1, 2, 3, 1, (2::nat)] 0 3 3 5 = Some True" by code_simp
  then show ?thesis
    using alg_includes_shorter [of "(<)" "[1, 2, 3, 1, (2::nat)]" 0 3 3 5] by (simp add: alg_includes_def)
qed

text \<open>\<open>includes\<close> and \<open>set_union\<close> compare after they have advanced: \<open>includes\<close> finds 2 in 1 3,
  and the union of 2 and of 1 3 has no 2.\<close>

theorem alg_includes_union_wrong:
  "alg_includes [1, 3, 2, (0::nat)] 0 2 2 3 = Some True \<and>
   alg_set_union [2, 1, 3, 0, 0, (0::nat)] 0 1 1 3 3 = Some ([2, 1, 3, 1, 3, 0], 5)"
  by code_simp

end
