(* ===== verification/Priority_Queue.thy ===== *)
theory Priority_Queue
  imports Wl_Prelude "HOL-Library.Multiset"
begin

text \<open>
  \<^verbatim>\<open>wiselib.testing/util/pstl/priority_queue.h\<close>: a priority queue with the least element at
  the top. Element \<open>i\<close> of the array has the parent \<open>i div 2\<close>: element 0 is the top and has the
  only child 1, from where on it is a binary heap. \<open>pq_vec\<close> is the array, \<open>pq_finish\<close> the
  difference \<^verbatim>\<open>finish_ - start_\<close>; \<open>start_\<close> always points to the array.
  \<^const>\<open>None\<close> is an access outside of the array.
\<close>

record 'a prio_queue =
  pq_vec :: "'a list"
  pq_finish :: nat

definition pq_new :: "'a list \<Rightarrow> 'a prio_queue" where
  "pq_new storage = \<lparr>pq_vec = storage, pq_finish = 0\<rparr>"

definition pq_copy :: "'a prio_queue \<Rightarrow> 'a prio_queue \<Rightarrow> 'a prio_queue" where
  "pq_copy this pq = this\<lparr>pq_vec := pq_vec pq, pq_finish := pq_finish pq\<rparr>"

definition pq_size :: "'a prio_queue \<Rightarrow> nat" where
  "pq_size pq = pq_finish pq"

definition pq_max_size :: "'a prio_queue \<Rightarrow> nat" where
  "pq_max_size pq = length (pq_vec pq)"

definition pq_empty :: "'a prio_queue \<Rightarrow> bool" where
  "pq_empty pq \<longleftrightarrow> pq_size pq = 0"

definition pq_top :: "'a prio_queue \<Rightarrow> 'a option" where
  "pq_top pq = rd (pq_vec pq) 0"

definition pq_clear :: "'a prio_queue \<Rightarrow> 'a prio_queue" where
  "pq_clear pq = pq\<lparr>pq_finish := 0\<rparr>"

function pq_push_loop :: "'a::linorder list \<Rightarrow> 'a \<Rightarrow> nat \<Rightarrow> ('a list \<times> nat) option" where
  "pq_push_loop v x i =
     (if i \<noteq> 0 then do { p \<leftarrow> rd v (i div 2);
        if x < p then do { v \<leftarrow> wr v i p; pq_push_loop v x (i div 2) } else Some (v, i) }
      else Some (v, i))"
  by pat_completeness auto
termination by (relation "measure (\<lambda>(v, x, i). i)") auto

declare pq_push_loop.simps [simp del]

definition pq_push :: "'a::linorder prio_queue \<Rightarrow> 'a \<Rightarrow> 'a prio_queue option" where
  "pq_push pq x = do {
     (v, i) \<leftarrow> pq_push_loop (pq_vec pq) x (pq_size pq);
     v \<leftarrow> wr v i x;
     Some (pq\<lparr>pq_vec := v, pq_finish := pq_finish pq + 1\<rparr>) }"

text \<open>The loop of \<^verbatim>\<open>pop\<close>, which starts with \<open>i = 0\<close> and \<open>c = 1\<close>; from \<open>c = 0\<close> it need
  not end.\<close>

partial_function (option) pq_pop_loop :: "'a::linorder list \<Rightarrow> 'a \<Rightarrow> nat \<Rightarrow> nat \<Rightarrow> nat \<Rightarrow> ('a list \<times> nat) option" where
  "pq_pop_loop v x n i c =
     (if c \<le> n then
        Option.bind (if c < n then
            Option.bind (rd v (c + 1)) (\<lambda>b. Option.bind (rd v c) (\<lambda>a. Some (if b < a then c + 1 else c)))
          else Some c) (\<lambda>c.
        Option.bind (rd v c) (\<lambda>y.
        if \<not> y < x then Some (v, i)
        else Option.bind (wr v i y) (\<lambda>v. pq_pop_loop v x n c (2 * c))))
      else Some (v, i))"

declare pq_pop_loop.simps [code]

definition pq_pop :: "'a::linorder prio_queue \<Rightarrow> ('a prio_queue \<times> 'a) option" where
  "pq_pop pq =
     (if pq_size pq = 0 then None
      else do {
        let n = pq_size pq - 1;
        e \<leftarrow> rd (pq_vec pq) 0;
        x \<leftarrow> rd (pq_vec pq) n;
        (v, i) \<leftarrow> pq_pop_loop (pq_vec pq) x n 0 1;
        v \<leftarrow> wr v i x;
        Some (pq\<lparr>pq_vec := v, pq_finish := pq_finish pq - 1\<rparr>, e) })"

section \<open>The heap\<close>

definition heap_below :: "'a::linorder list \<Rightarrow> nat \<Rightarrow> bool" where
  "heap_below v n \<longleftrightarrow> (\<forall>j. 1 \<le> j \<longrightarrow> j < n \<longrightarrow> v ! (j div 2) \<le> v ! j)"

definition pq_inv :: "'a::linorder prio_queue \<Rightarrow> bool" where
  "pq_inv pq \<longleftrightarrow> pq_finish pq \<le> length (pq_vec pq) \<and> heap_below (pq_vec pq) (pq_finish pq)"

definition pq_elems :: "'a prio_queue \<Rightarrow> 'a multiset" where
  "pq_elems pq = mset (take (pq_finish pq) (pq_vec pq))"

lemma heap_below_top:
  assumes "heap_below v n" and "j < n"
  shows "v ! 0 \<le> v ! j"
  using assms(2)
proof (induction j rule: less_induct)
  case (less j)
  show ?case
  proof (cases "j = 0")
    case False
    then have "v ! 0 \<le> v ! (j div 2)" using less by simp
    also have "v ! (j div 2) \<le> v ! j" using assms(1) False less.prems by (simp add: heap_below_def)
    finally show ?thesis .
  qed simp
qed

text \<open>Moving the parent into the hole and the hole to the parent is a swap of the array with
  \<open>x\<close> in the hole.\<close>

lemma hole_swap_mset:
  assumes "i < n" and "p < n" and "n \<le> length v" and "i \<noteq> p"
  shows "mset (take n (v[i := v ! p, p := x])) = mset (take n (v[i := x]))"
proof -
  let ?w = "take n (v[i := x])"
  have eq: "take n (v[i := v ! p, p := x]) = ?w[i := ?w ! p, p := ?w ! i]"
    using assms by (simp add: take_update_swap list_update_swap)
  show ?thesis unfolding eq by (rule mset_swap) (use assms in simp_all)
qed

definition push_hole :: "'a::linorder list \<Rightarrow> nat \<Rightarrow> 'a \<Rightarrow> nat \<Rightarrow> bool" where
  "push_hole v n x i \<longleftrightarrow>
     (\<forall>j. 1 \<le> j \<longrightarrow> j \<le> n \<longrightarrow> j \<noteq> i \<longrightarrow> v[i := x] ! (j div 2) \<le> v[i := x] ! j) \<and>
     (\<forall>j. 1 \<le> j \<longrightarrow> j \<le> n \<longrightarrow> j div 2 = i \<longrightarrow> 1 \<le> i \<longrightarrow> v ! (i div 2) \<le> v ! j)"

lemma push_hole_step:
  assumes I: "push_hole v n x i" and i: "1 \<le> i" "i \<le> n" "n < length v" and p: "p = i div 2" and less: "x < v ! p"
  shows "push_hole (v[i := v ! p]) n x p"
proof -
  have pi: "p < i" "p < length v" "i < length v" using i p by auto
  let ?w = "v[i := v ! p, p := x]"
  have w: "?w ! j = (if j = p then x else if j = i then v ! p else v ! j)" if "j < length v" for j
    using that pi by (simp add: nth_list_update)
  have u: "v[i := x] ! j = (if j = i then x else v ! j)" if "j < length v" for j
    using that pi by (simp add: nth_list_update)
  have I1: "v[i := x] ! (j div 2) \<le> v[i := x] ! j" if "1 \<le> j" "j \<le> n" "j \<noteq> i" for j
    using I that unfolding push_hole_def by blast
  have 1: "?w ! (j div 2) \<le> ?w ! j" if j: "1 \<le> j" "j \<le> n" "j \<noteq> p" for j
  proof -
    have b: "j < length v" "j div 2 < length v" "j div 2 \<noteq> j" using j i by auto
    consider "j = i" | "j \<noteq> i" "j div 2 = p" | "j \<noteq> i" "j div 2 = i" | "j \<noteq> i" "j div 2 \<noteq> p" "j div 2 \<noteq> i" by blast
    then show ?thesis
    proof cases
      case 1
      then show ?thesis using w [of j] w [of p] b pi p less j by simp
    next
      case 2
      then have "v ! p \<le> v ! j" using I1 [of j] j u [of j] u [of p] b pi by simp
      then show ?thesis using 2 w [of j] w [of p] b j less by simp
    next
      case 3
      then have "v ! p \<le> v ! j" using I j i p unfolding push_hole_def by blast
      then show ?thesis using 3 w [of j] w [of i] b j pi by simp
    next
      case 4
      then show ?thesis using w [of j] w [of "j div 2"] I1 [of j] j u [of j] u [of "j div 2"] b by simp
    qed
  qed
  have 2: "v[i := v ! p] ! (p div 2) \<le> v[i := v ! p] ! j" if j: "1 \<le> j" "j \<le> n" "j div 2 = p" "1 \<le> p" for j
  proof -
    have b: "p div 2 \<noteq> p" "p div 2 \<noteq> i" "p div 2 < length v" "j < length v" "p \<noteq> i" using j pi i by auto
    have top: "v ! (p div 2) \<le> v ! p" using I1 [of p] u [of p] u [of "p div 2"] j pi i b by simp
    show ?thesis
    proof (cases "j = i")
      case False
      then have "v ! p \<le> v ! j" using I1 [of j] j u [of j] u [of p] b pi by simp
      then show ?thesis using False top b pi by simp
    qed (use top b pi in simp)
  qed
  show ?thesis unfolding push_hole_def using 1 2 by (simp add: p)
qed

lemma pq_push_loop_spec:
  assumes "i \<le> n" and "n < length v" and "push_hole v n x i"
  shows "\<exists>v' k. pq_push_loop v x i = Some (v', k) \<and> k \<le> n \<and> length v' = length v \<and>
    heap_below (v'[k := x]) (Suc n) \<and> mset (take (Suc n) (v'[k := x])) = mset (take (Suc n) (v[i := x]))"
  using assms
proof (induction i arbitrary: v rule: less_induct)
  case (less i)
  note prems = less.prems
  show ?case
  proof (cases "i \<noteq> 0 \<and> x < v ! (i div 2)")
    case False
    have "heap_below (v[i := x]) (Suc n)"
      unfolding heap_below_def
    proof (intro allI impI)
      fix j assume j: "1 \<le> j" "j < Suc n"
      show "v[i := x] ! (j div 2) \<le> v[i := x] ! j"
      proof (cases "j = i")
        case True
        then show ?thesis using False j prems by (auto simp: nth_list_update)
      qed (use prems(3) j in \<open>auto simp: push_hole_def\<close>)
    qed
    then show ?thesis using False prems by (subst pq_push_loop.simps) auto
  next
    case True
    let ?p = "i div 2"
    have p: "?p < i" "?p < length v" "i < length v" using True prems by auto
    have "push_hole (v[i := v ! ?p]) n x ?p"
      using prems True by (intro push_hole_step) auto
    then obtain v' k where IH: "pq_push_loop (v[i := v ! ?p]) x ?p = Some (v', k)" "k \<le> n" "length v' = length v"
        "heap_below (v'[k := x]) (Suc n)" "mset (take (Suc n) (v'[k := x])) = mset (take (Suc n) (v[i := v ! ?p, ?p := x]))"
      using less.IH [OF p(1), of "v[i := v ! ?p]"] p prems by auto
    have "mset (take (Suc n) (v[i := v ! ?p, ?p := x])) = mset (take (Suc n) (v[i := x]))"
      using p prems by (intro hole_swap_mset) auto
    then show ?thesis using True p IH by (subst pq_push_loop.simps) simp
  qed
qed

lemma pq_push_spec:
  assumes "pq_inv pq" and "pq_size pq < pq_max_size pq"
  shows "\<exists>pq'. pq_push pq x = Some pq' \<and> pq_inv pq' \<and> pq_elems pq' = add_mset x (pq_elems pq) \<and>
    pq_max_size pq' = pq_max_size pq"
proof -
  let ?v = "pq_vec pq" and ?n = "pq_finish pq"
  have n: "?n < length ?v" using assms(2) by (simp add: pq_size_def pq_max_size_def)
  have "push_hole ?v ?n x ?n"
    using assms(1) n unfolding push_hole_def pq_inv_def heap_below_def by auto
  then obtain v' k where l: "pq_push_loop ?v x ?n = Some (v', k)" "k \<le> ?n" "length v' = length ?v"
      "heap_below (v'[k := x]) (Suc ?n)" "mset (take (Suc ?n) (v'[k := x])) = mset (take (Suc ?n) (?v[?n := x]))"
    using pq_push_loop_spec [of ?n ?n ?v x] n by blast
  moreover have "mset (take (Suc ?n) (?v[?n := x])) = add_mset x (mset (take ?n ?v))"
    using n by (simp add: take_Suc_conv_app_nth)
  ultimately show ?thesis
    using n by (simp add: pq_push_def pq_size_def pq_inv_def pq_elems_def pq_max_size_def)
qed

definition pop_hole :: "'a::linorder list \<Rightarrow> nat \<Rightarrow> 'a \<Rightarrow> nat \<Rightarrow> bool" where
  "pop_hole v n x i \<longleftrightarrow>
     (\<forall>j. 1 \<le> j \<longrightarrow> j < n \<longrightarrow> j div 2 \<noteq> i \<longrightarrow> v[i := x] ! (j div 2) \<le> v[i := x] ! j) \<and>
     (\<forall>j. 1 \<le> j \<longrightarrow> j < n \<longrightarrow> j div 2 = i \<longrightarrow> 1 \<le> i \<longrightarrow> v ! (i div 2) \<le> v ! j)"

lemma pop_hole_step:
  assumes I: "pop_hole v n x i" and c: "1 \<le> c" "c < n" "c div 2 = i" "n < length v" and less: "v ! c < x"
    and other: "\<And>j. 1 \<le> j \<Longrightarrow> j < n \<Longrightarrow> j div 2 = i \<Longrightarrow> v ! c \<le> v ! j"
  shows "pop_hole (v[i := v ! c]) n x c"
proof -
  have ic: "i < c" "i < length v" "c < length v" using c by auto
  let ?w = "v[i := v ! c, c := x]"
  have w: "?w ! j = (if j = c then x else if j = i then v ! c else v ! j)" if "j < length v" for j
    using that ic by (simp add: nth_list_update)
  have u: "v[i := x] ! j = (if j = i then x else v ! j)" if "j < length v" for j
    using that ic by (simp add: nth_list_update)
  have I1: "v[i := x] ! (j div 2) \<le> v[i := x] ! j" if "1 \<le> j" "j < n" "j div 2 \<noteq> i" for j
    using I that unfolding pop_hole_def by blast
  have 1: "?w ! (j div 2) \<le> ?w ! j" if j: "1 \<le> j" "j < n" "j div 2 \<noteq> c" for j
  proof -
    have b: "j < length v" "j div 2 < length v" "j div 2 \<noteq> j" using j c by auto
    consider "j = c" | "j \<noteq> c" "j div 2 = i" | "j = i" | "j \<noteq> c" "j div 2 \<noteq> i" "j \<noteq> i" by blast
    then show ?thesis
    proof cases
      case 1
      then show ?thesis using w [of j] w [of i] b c ic less by simp
    next
      case 2
      then have "j \<noteq> i" using b(3) by auto
      then show ?thesis using 2 w [of j] w [of i] b j ic other [of j] by simp
    next
      case 3
      then have "v ! (i div 2) \<le> v ! c" using I j c unfolding pop_hole_def by blast
      then show ?thesis using 3 w [of i] w [of "i div 2"] b j ic by simp
    next
      case 4
      then show ?thesis using w [of j] w [of "j div 2"] I1 [of j] j u [of j] u [of "j div 2"] b by simp
    qed
  qed
  have 2: "v[i := v ! c] ! (c div 2) \<le> v[i := v ! c] ! j" if j: "1 \<le> j" "j < n" "j div 2 = c" for j
  proof -
    have b: "j \<noteq> i" "j < length v" "c \<noteq> i" using j ic c by auto
    have "v ! c \<le> v ! j" using I1 [of j] u [of j] u [of c] j b ic by simp
    then show ?thesis using b ic c(3) by simp
  qed
  show ?thesis unfolding pop_hole_def using 1 2 by simp
qed

lemma pop_hole_done:
  assumes "pop_hole v n x i" and "i < length v" and "n \<le> length v"
    and "\<And>j. 1 \<le> j \<Longrightarrow> j < n \<Longrightarrow> j div 2 = i \<Longrightarrow> x \<le> v ! j"
  shows "heap_below (v[i := x]) n"
  unfolding heap_below_def
proof (intro allI impI)
  fix j assume j: "1 \<le> j" "j < n"
  show "v[i := x] ! (j div 2) \<le> v[i := x] ! j"
  proof (cases "j div 2 = i")
    case True
    then have "j \<noteq> i" using j by auto
    then show ?thesis using True assms(2,4) j by simp
  qed (use assms(1) j in \<open>auto simp: pop_hole_def\<close>)
qed

text \<open>The loop reads the element at \<open>n\<close>, which is \<open>x\<close> itself, but never moves it. In the first
  round it compares 1 and 2, which are not siblings, but 2 is never the smaller one.\<close>

lemma pq_pop_loop_spec:
  assumes "i \<le> n" and "n < length v" and "pop_hole v n x i" and "n \<noteq> i \<longrightarrow> v ! n = x"
    and "c = (if i = 0 then 1 else 2 * i)" and "i = 0 \<longrightarrow> 2 \<le> n \<longrightarrow> v ! 1 \<le> v ! 2" and "i = 0 \<or> i < n"
  shows "\<exists>v' k. pq_pop_loop v x n i c = Some (v', k) \<and> k \<le> n \<and> length v' = length v \<and>
    heap_below (v'[k := x]) n \<and> mset (take n (v'[k := x])) = mset (take n (v[i := x]))"
  using assms
proof (induction "n - i" arbitrary: v i c rule: less_induct)
  case (less i v c)
  note prems = less.prems
  have kids: "j = c \<or> i \<noteq> 0 \<and> j = Suc c" if "1 \<le> j" "j div 2 = i" for j
    using that prems(5) by auto
  show ?case
  proof (cases "c \<le> n")
    case False
    have "heap_below (v[i := x]) n"
      using prems False kids by (intro pop_hole_done) fastforce+
    then show ?thesis using False prems by (subst pq_pop_loop.simps) auto
  next
    case True
    define d where "d = (if c < n then if v ! (c + 1) < v ! c then c + 1 else c else c)"
    have choose: "(if c < n then
            Option.bind (rd v (c + 1)) (\<lambda>b. Option.bind (rd v c) (\<lambda>a. Some (if b < a then c + 1 else c)))
          else Some c) = Some d"
      using prems(2) by (simp add: d_def)
    have c1: "1 \<le> c" "c div 2 = i" using prems(5) True prems(7) by (auto split: if_splits)
    have dd: "c \<le> d" "d \<le> n" "1 \<le> d" using True c1 by (auto simp: d_def)
    have d2: "d div 2 = i"
    proof (cases "i = 0")
      case True
      then show ?thesis using prems(5,6) by (auto simp: d_def eval_nat_numeral)
    next
      case False
      then show ?thesis using prems(5) by (auto simp: d_def)
    qed
    have best: "v ! d \<le> v ! j" if "1 \<le> j" "j < n" "j div 2 = i" for j
      using kids [OF that(1,3)] that(2) by (auto simp: d_def)
    show ?thesis
    proof (cases "v ! d < x")
      case False
      have "heap_below (v[i := x]) n"
      proof (rule pop_hole_done [OF prems(3)])
        fix j assume "1 \<le> j" "j < n" "j div 2 = i"
        then show "x \<le> v ! j" using best [of j] False by simp
      qed (use prems in auto)
      then show ?thesis using True False choose dd prems by (subst pq_pop_loop.simps) auto
    next
      case less': True
      have "i < d" using d2 dd by auto
      then have "d \<noteq> n" using less' prems(4) dd by auto
      then have d: "d < n" using dd by simp
      have hole: "pop_hole (v[i := v ! d]) n x d"
        using d dd d2 prems less' best by (intro pop_hole_step) auto
      have "n - d < n - i" using \<open>i < d\<close> d by simp
      moreover have "(v[i := v ! d]) ! n = x" using prems(4) \<open>i < d\<close> d by simp
      ultimately obtain v' k where IH: "pq_pop_loop (v[i := v ! d]) x n d (2 * d) = Some (v', k)" "k \<le> n"
          "length v' = length v" "heap_below (v'[k := x]) n"
          "mset (take n (v'[k := x])) = mset (take n (v[i := v ! d, d := x]))"
        using less.hyps [of d "v[i := v ! d]" "2 * d"] hole d prems(2) \<open>i < d\<close> by auto
      have "mset (take n (v[i := v ! d, d := x])) = mset (take n (v[i := x]))"
        using d \<open>i < d\<close> prems(2) by (intro hole_swap_mset) auto
      then show ?thesis using True less' choose dd prems IH by (subst pq_pop_loop.simps) simp
    qed
  qed
qed

lemma pq_pop_spec:
  assumes "pq_inv pq" and "pq_size pq \<noteq> 0"
  shows "\<exists>pq' e. pq_pop pq = Some (pq', e) \<and> pq_top pq = Some e \<and> pq_inv pq' \<and>
    pq_elems pq = add_mset e (pq_elems pq') \<and> (\<forall>y \<in># pq_elems pq'. e \<le> y) \<and> pq_max_size pq' = pq_max_size pq"
proof -
  let ?v = "pq_vec pq" and ?n = "pq_finish pq - 1"
  let ?x = "?v ! ?n"
  have n: "pq_finish pq = Suc ?n" "?n < length ?v" using assms by (auto simp: pq_size_def pq_inv_def)
  have heap: "heap_below ?v (Suc ?n)" using assms(1) n(1) by (simp add: pq_inv_def)
  have "pop_hole ?v ?n ?x 0"
    using heap n(2) unfolding pop_hole_def heap_below_def by (auto simp: nth_list_update)
  moreover have "2 \<le> ?n \<longrightarrow> ?v ! 1 \<le> ?v ! 2"
  proof
    assume "2 \<le> ?n"
    then show "?v ! 1 \<le> ?v ! 2" using heap unfolding heap_below_def by (elim allE [of _ 2]) simp
  qed
  ultimately obtain v' k where l: "pq_pop_loop ?v ?x ?n 0 1 = Some (v', k)" "k \<le> ?n" "length v' = length ?v"
      "heap_below (v'[k := ?x]) ?n" "mset (take ?n (v'[k := ?x])) = mset (take ?n (?v[0 := ?x]))"
    using pq_pop_loop_spec [of 0 ?n ?v ?x 1] n(2) by auto
  have "0 < length ?v" using n(2) by linarith
  define pq' where "pq' = pq\<lparr>pq_vec := v'[k := ?x], pq_finish := ?n\<rparr>"
  have pop: "pq_pop pq = Some (pq', ?v ! 0)"
    using assms(2) n l \<open>0 < length ?v\<close> by (auto simp: pq_pop_def pq_size_def pq'_def Let_def)
  have "mset (take (Suc ?n) ?v) = add_mset (?v ! 0) (mset (take ?n (?v[0 := ?x])))"
  proof (cases "?n = 0")
    case True
    then show ?thesis using n(2) by (simp add: take_Suc_conv_app_nth)
  next
    case False
    then obtain t where t: "take ?n ?v = ?v ! 0 # t" using n(2) by (cases ?v; cases ?n) auto
    then have "take ?n (?v[0 := ?x]) = ?x # t" by (simp add: take_update_swap)
    then show ?thesis using n(2) t by (simp add: take_Suc_conv_app_nth)
  qed
  then have elems: "pq_elems pq = add_mset (?v ! 0) (pq_elems pq')"
    using l(5) n(1) by (simp add: pq_elems_def pq'_def)
  have "?v ! 0 \<le> y" if "y \<in># pq_elems pq'" for y
  proof -
    have "y \<in># pq_elems pq" using elems that by simp
    then obtain j where "j < Suc ?n" "y = ?v ! j" using n by (auto simp: pq_elems_def in_set_conv_nth)
    then show ?thesis using heap_below_top [OF heap] by simp
  qed
  moreover have "pq_inv pq'" using l n by (simp add: pq_inv_def pq'_def)
  moreover have "pq_top pq = Some (?v ! 0)" using \<open>0 < length ?v\<close> by (simp add: pq_top_def)
  moreover have "pq_max_size pq' = pq_max_size pq" using l(3) by (simp add: pq_max_size_def pq'_def)
  ultimately show ?thesis using pop elems by blast
qed

section \<open>The interface of a bounded priority queue\<close>

text \<open>\<open>push\<close> is defined while there is room and \<open>pop\<close> while there are elements.\<close>

locale bounded_min_queue =
  fixes invar :: "'q \<Rightarrow> bool"
    and contents :: "'q \<Rightarrow> 'a::linorder multiset"
    and capacity :: "'q \<Rightarrow> nat"
    and push :: "'q \<Rightarrow> 'a \<Rightarrow> 'q option"
    and pop :: "'q \<Rightarrow> ('q \<times> 'a) option"
  assumes push_ok: "invar q \<Longrightarrow> size (contents q) < capacity q \<Longrightarrow>
      \<exists>q'. push q x = Some q' \<and> invar q' \<and> contents q' = add_mset x (contents q) \<and> capacity q' = capacity q"
    and pop_ok: "invar q \<Longrightarrow> contents q \<noteq> {#} \<Longrightarrow>
      \<exists>q' e. pop q = Some (q', e) \<and> invar q' \<and> contents q = add_mset e (contents q') \<and>
        (\<forall>y \<in># contents q'. e \<le> y) \<and> capacity q' = capacity q"
begin

primrec push_all :: "'q \<Rightarrow> 'a list \<Rightarrow> 'q option" where
  "push_all q [] = Some q"
| "push_all q (x # xs) = Option.bind (push q x) (\<lambda>q. push_all q xs)"

primrec pop_n :: "'q \<Rightarrow> nat \<Rightarrow> 'a list option" where
  "pop_n q 0 = Some []"
| "pop_n q (Suc n) = Option.bind (pop q) (\<lambda>(q, e). map_option (Cons e) (pop_n q n))"

lemma push_all_ok:
  "invar q \<Longrightarrow> size (contents q) + length xs \<le> capacity q \<Longrightarrow>
     \<exists>q'. push_all q xs = Some q' \<and> invar q' \<and> contents q' = contents q + mset xs"
proof (induction xs arbitrary: q)
  case (Cons x xs)
  obtain q1 where "push q x = Some q1" "invar q1" "contents q1 = add_mset x (contents q)" "capacity q1 = capacity q"
    using push_ok [of q x] Cons.prems by auto
  then show ?case using Cons.IH [of q1] Cons.prems by auto
qed simp

lemma pop_n_sorted:
  "invar q \<Longrightarrow> size (contents q) = n \<Longrightarrow> \<exists>ys. pop_n q n = Some ys \<and> mset ys = contents q \<and> sorted ys"
proof (induction n arbitrary: q)
  case (Suc n)
  obtain q1 e where q1: "pop q = Some (q1, e)" "invar q1" "contents q = add_mset e (contents q1)"
      "\<forall>y \<in># contents q1. e \<le> y"
    using pop_ok [of q] Suc.prems by fastforce
  obtain ys where "pop_n q1 n = Some ys" "mset ys = contents q1" "sorted ys"
    using Suc.IH [of q1] q1 Suc.prems by auto
  moreover from this(2) have "set ys = set_mset (contents q1)" by (metis set_mset_mset)
  ultimately show ?case using q1 by (intro exI [of _ "e # ys"]) simp
qed simp

lemma push_pop_sorts:
  assumes "invar q" and "contents q = {#}" and "length xs \<le> capacity q"
  shows "\<exists>q'. push_all q xs = Some q' \<and> pop_n q' (length xs) = Some (sort xs)"
proof -
  obtain q' where q': "push_all q xs = Some q'" "invar q'" "contents q' = mset xs"
    using push_all_ok [of q xs] assms by auto
  then obtain ys where "pop_n q' (length xs) = Some ys" "mset ys = mset xs" "sorted ys"
    using pop_n_sorted [of q' "length xs"] by auto
  then show ?thesis using q'(1) by (auto intro: properties_for_sort [symmetric])
qed

end

lemma pq_size_elems: "pq_inv pq \<Longrightarrow> size (pq_elems pq) = pq_size pq"
  by (simp add: pq_inv_def pq_elems_def pq_size_def)

interpretation pq: bounded_min_queue pq_inv pq_elems pq_max_size pq_push pq_pop
proof
  show "\<exists>q'. pq_push q x = Some q' \<and> pq_inv q' \<and> pq_elems q' = add_mset x (pq_elems q) \<and> pq_max_size q' = pq_max_size q"
    if "pq_inv q" "size (pq_elems q) < pq_max_size q" for q :: "'a prio_queue" and x
    using pq_push_spec that by (simp add: pq_size_elems)
  show "\<exists>q' e. pq_pop q = Some (q', e) \<and> pq_inv q' \<and> pq_elems q = add_mset e (pq_elems q') \<and>
      (\<forall>y \<in># pq_elems q'. e \<le> y) \<and> pq_max_size q' = pq_max_size q"
    if "pq_inv q" "pq_elems q \<noteq> {#}" for q :: "'a prio_queue"
    using pq_pop_spec [of q] that pq_size_elems [of q] by fastforce
qed

section \<open>Properties\<close>

lemma pq_push_full: "pq_size pq = pq_max_size pq \<Longrightarrow> pq_push pq x = None"
  by (subst pq_push_def, subst pq_push_loop.simps)
    (auto simp: pq_size_def pq_max_size_def bind_eq_None_iff wr_def rd_def)

text \<open>C32: The queue is a multiset of at most \<open>max_size\<close> elements: within its capacity \<open>push\<close> adds
  an element, \<open>pop\<close> removes and returns the least one, which \<open>top\<close> shows. \<open>push\<close> into a full
  queue always writes behind the array.\<close>

theorem prio_queue_refines_multiset:
  assumes "pq_inv pq"
  shows "(pq_size pq < pq_max_size pq \<longrightarrow>
      (\<exists>pq'. pq_push pq x = Some pq' \<and> pq_inv pq' \<and> pq_elems pq' = add_mset x (pq_elems pq))) \<and>
    (pq_size pq = pq_max_size pq \<longrightarrow> pq_push pq x = None) \<and>
    (pq_size pq \<noteq> 0 \<longrightarrow> (\<exists>pq' e. pq_pop pq = Some (pq', e) \<and> pq_top pq = Some e \<and> pq_inv pq' \<and>
      pq_elems pq = add_mset e (pq_elems pq') \<and> (\<forall>y \<in># pq_elems pq'. e \<le> y)))"
  using pq_push_spec [OF assms, of x] pq_pop_spec [OF assms] pq_push_full [of pq x] by blast

theorem prio_queue_refines_multiset_witness:
  "\<exists>pq' e. pq_pop \<lparr>pq_vec = [1, 4, 5, 9, (7::nat), 0], pq_finish = 5\<rparr> = Some (pq', e) \<and> e = 1"
proof -
  let ?q = "\<lparr>pq_vec = [1, 4, 5, 9, (7::nat), 0], pq_finish = 5\<rparr>"
  have "pq_inv ?q"
    unfolding pq_inv_def heap_below_def
  proof (intro conjI allI impI)
    fix j :: nat assume j: "1 \<le> j" "j < pq_finish ?q"
    then have "j = 1 \<or> j = 2 \<or> j = 3 \<or> j = 4" by auto
    then show "pq_vec ?q ! (j div 2) \<le> pq_vec ?q ! j" by auto
  qed simp
  then obtain pq' e where "pq_pop ?q = Some (pq', e)" "pq_top ?q = Some e"
    using prio_queue_refines_multiset [of ?q 0] by (auto simp: pq_size_def)
  then show ?thesis by (simp add: pq_top_def)
qed

text \<open>Pushing any elements into an empty queue with room for them and popping as many gives
  them in order.\<close>

theorem prio_queue_sorts:
  fixes storage xs :: "'a::linorder list"
  assumes "length xs \<le> length storage"
  shows "\<exists>q. pq.push_all (pq_new storage) xs = Some q \<and> pq.pop_n q (length xs) = Some (sort xs)"
  by (rule pq.push_pop_sorts)
    (use assms in \<open>simp_all add: pq_new_def pq_inv_def heap_below_def pq_elems_def pq_max_size_def\<close>)

theorem prio_queue_sorts_witness:
  "\<exists>q. pq.push_all (pq_new [0, 0, 0, (0::nat)]) [7, 3, 5] = Some q \<and> pq.pop_n q 3 = Some [3, 5, 7]"
  using prio_queue_sorts [of "[7, 3, 5]" "[0, 0, 0, (0::nat)]"]
  by (simp del: pq.push_all.simps pq.pop_n.simps add: eval_nat_numeral)

end
