(* ===== verification/Queue_Static.thy ===== *)
theory Queue_Static
  imports Wl_Prelude
begin

text \<open>
  \<^verbatim>\<open>wiselib.testing/util/pstl/queue_static.h\<close>: a FIFO queue in a ring. The sizes are
  \<^verbatim>\<open>OsModel::size_t\<close>, an \<^verbatim>\<open>unsigned int\<close>; \<^verbatim>\<open>QUEUE_SIZE\<close> is the
  length of the array \<open>q_arr\<close>. The constant overloads of \<^verbatim>\<open>front\<close> and
  \<^verbatim>\<open>back\<close> call themselves, and \<^verbatim>\<open>operator=\<close> has a \<^verbatim>\<open>return;\<close>
  without a value; they are left out.
\<close>

record 'a queue_static =
  q_arr :: "'a list"
  q_front :: u32
  q_size :: u32

definition qs_new :: "'a list \<Rightarrow> 'a queue_static" where
  "qs_new storage = \<lparr>q_arr = storage, q_front = 0, q_size = 0\<rparr>"

definition qs_size :: "'a queue_static \<Rightarrow> u32" where
  "qs_size q = q_size q"

definition qs_copy :: "'a queue_static \<Rightarrow> 'a queue_static" where
  "qs_copy q = \<lparr>q_arr = q_arr q, q_front = q_front q, q_size = qs_size q\<rparr>"

definition qs_max_size :: "'a queue_static \<Rightarrow> u32" where
  "qs_max_size q = of_nat (length (q_arr q))"

definition qs_empty :: "'a queue_static \<Rightarrow> bool" where
  "qs_empty q \<longleftrightarrow> qs_size q = 0"

definition qs_full :: "'a queue_static \<Rightarrow> bool" where
  "qs_full q \<longleftrightarrow> qs_size q = qs_max_size q"

definition qs_front :: "'a queue_static \<Rightarrow> 'a option" where
  "qs_front q = rd (q_arr q) (unat (q_front q))"

definition qs_back_index :: "'a queue_static \<Rightarrow> u32" where
  "qs_back_index q = (q_front q + qs_size q - 1) mod qs_max_size q"

definition qs_back :: "'a queue_static \<Rightarrow> 'a option" where
  "qs_back q = rd (q_arr q) (unat (qs_back_index q))"

definition qs_push :: "'a queue_static \<Rightarrow> 'a \<Rightarrow> 'a queue_static option" where
  "qs_push q x =
     (if \<not> qs_full q
      then let q = q\<lparr>q_size := q_size q + 1\<rparr>
           in do { arr \<leftarrow> wr (q_arr q) (unat (qs_back_index q)) x; Some (q\<lparr>q_arr := arr\<rparr>) }
      else Some q)"

definition qs_pop :: "'a queue_static \<Rightarrow> 'a queue_static" where
  "qs_pop q =
     (if \<not> qs_empty q
      then q\<lparr>q_size := q_size q - 1, q_front := (q_front q + 1) mod qs_max_size q\<rparr>
      else q)"

definition qs_clear :: "'a queue_static \<Rightarrow> 'a queue_static" where
  "qs_clear q = q\<lparr>q_size := 0\<rparr>"

section \<open>The contents\<close>

text \<open>The sizes of two rings have to fit into a \<open>size_t\<close>, so that \<^verbatim>\<open>front_ + size()\<close> does
  not wrap.\<close>

definition qs_inv :: "'a queue_static \<Rightarrow> bool" where
  "qs_inv q \<longleftrightarrow> 0 < length (q_arr q) \<and> 2 * length (q_arr q) \<le> 2 ^ 32 \<and>
     unat (q_front q) < length (q_arr q) \<and> unat (q_size q) \<le> length (q_arr q)"

definition qs_slot :: "'a queue_static \<Rightarrow> nat \<Rightarrow> nat" where
  "qs_slot q i = (unat (q_front q) + i) mod length (q_arr q)"

definition qs_elems :: "'a queue_static \<Rightarrow> 'a list" where
  "qs_elems q = map (\<lambda>i. q_arr q ! qs_slot q i) [0..<unat (q_size q)]"

lemma qs_length_elems [simp]: "length (qs_elems q) = unat (q_size q)"
  by (simp add: qs_elems_def)

lemma qs_max_unat: "qs_inv q \<Longrightarrow> unat (qs_max_size q) = length (q_arr q)"
  by (simp add: qs_inv_def qs_max_size_def unat_of_nat take_bit_nat_eq_self)

lemma qs_full_iff: "qs_inv q \<Longrightarrow> qs_full q \<longleftrightarrow> unat (q_size q) = length (q_arr q)"
  using qs_max_unat [of q] by (simp add: qs_full_def qs_size_def word_unat_eq_iff)

lemma qs_empty_iff: "qs_empty q \<longleftrightarrow> qs_elems q = []"
  by (simp add: qs_empty_def qs_size_def qs_elems_def unat_eq_0)

lemma mod_once: "a < N \<Longrightarrow> i < N \<Longrightarrow> (a + i) mod N = (if a + i < N then a + i else a + i - N)" for a i N :: nat
  by (simp add: mod_if)

lemma qs_slot_inj:
  assumes "qs_inv q" and "i < length (q_arr q)" and "j < length (q_arr q)" and "qs_slot q i = qs_slot q j"
  shows "i = j"
  using assms by (auto simp: qs_slot_def qs_inv_def mod_once split: if_splits)

lemma qs_slot_less: "qs_inv q \<Longrightarrow> qs_slot q i < length (q_arr q)"
  by (simp add: qs_inv_def qs_slot_def)

lemma qs_back_index_unat:
  assumes "qs_inv q" and "q_size q \<noteq> 0"
  shows "unat (qs_back_index q) = qs_slot q (unat (q_size q) - 1)"
proof -
  have sz: "1 \<le> unat (q_size q)" using assms(2) by (simp add: Suc_le_eq unat_gt_0)
  have "unat (q_front q) + unat (q_size q) < 2 ^ 32" using assms(1) by (auto simp: qs_inv_def)
  then have sum: "unat (q_front q + q_size q) = unat (q_front q) + unat (q_size q)"
    by (simp add: unat_word_ariths)
  then have "1 \<le> q_front q + q_size q" using sz by (simp add: word_le_nat_alt)
  then have "unat (q_front q + q_size q - 1) = unat (q_front q) + unat (q_size q) - 1"
    using sum by (simp add: unat_sub)
  then show ?thesis
    using qs_max_unat [OF assms(1)] sz by (simp add: qs_back_index_def qs_size_def unat_mod qs_slot_def)
qed

lemma qs_push_spec:
  assumes "qs_inv q"
  shows "\<exists>q'. qs_push q x = Some q' \<and> qs_inv q' \<and> length (q_arr q') = length (q_arr q) \<and>
    qs_elems q' = (if length (qs_elems q) < length (q_arr q) then qs_elems q @ [x] else qs_elems q)"
proof (cases "qs_full q")
  case True
  then show ?thesis using assms qs_full_iff [OF assms] by (simp add: qs_push_def)
next
  case False
  let ?n = "unat (q_size q)"
  have n: "?n < length (q_arr q)" using False assms qs_full_iff [OF assms] by (auto simp: qs_inv_def)
  then have "?n + 1 < 2 ^ 32" using assms by (auto simp: qs_inv_def)
  then have sz: "unat (q_size q + 1) = Suc ?n" by (simp add: unat_word_ariths)
  let ?q = "q\<lparr>q_size := q_size q + 1\<rparr>"
  have inv: "qs_inv ?q" using assms n sz by (simp add: qs_inv_def)
  have "q_size q + 1 \<noteq> 0" using sz by (metis nat.distinct(1) unat_0)
  then have idx: "unat (qs_back_index ?q) = qs_slot q ?n"
    using qs_back_index_unat [OF inv] sz by (simp add: qs_slot_def)
  have slot: "qs_slot q ?n < length (q_arr q)" by (rule qs_slot_less [OF assms])
  let ?q' = "?q\<lparr>q_arr := (q_arr q)[qs_slot q ?n := x]\<rparr>"
  have push: "qs_push q x = Some ?q'"
    using False slot idx by (simp add: qs_push_def Let_def)
  have s': "qs_slot ?q' i = qs_slot q i" for i by (simp add: qs_slot_def)
  have "qs_elems ?q' = map (\<lambda>i. (q_arr q)[qs_slot q ?n := x] ! qs_slot q i) [0..<Suc ?n]"
    using sz by (simp add: qs_elems_def s')
  also have "\<dots> = qs_elems q @ [x]"
  proof -
    have "qs_slot q ?n \<noteq> qs_slot q i" if "i < ?n" for i
      using qs_slot_inj [OF assms, of ?n i] n that by auto
    then show ?thesis using slot by (simp add: qs_elems_def)
  qed
  finally have "qs_elems ?q' = qs_elems q @ [x]" .
  moreover have "qs_inv ?q'" using inv by (simp add: qs_inv_def)
  ultimately show ?thesis using push n by simp
qed

lemma qs_pop_spec:
  assumes "qs_inv q"
  shows "qs_inv (qs_pop q)" and "qs_elems (qs_pop q) = tl (qs_elems q)"
    and "length (q_arr (qs_pop q)) = length (q_arr q)"
proof -
  have "qs_inv (qs_pop q) \<and> qs_elems (qs_pop q) = tl (qs_elems q) \<and> length (q_arr (qs_pop q)) = length (q_arr q)"
  proof (cases "q_size q = 0")
    case True
    then show ?thesis using assms by (simp add: qs_pop_def qs_empty_def qs_size_def qs_elems_def)
  next
    case False
    let ?n = "unat (q_size q)" and ?N = "length (q_arr q)"
    have n: "1 \<le> ?n" using False by (simp add: Suc_le_eq unat_gt_0)
    then have sz: "unat (q_size q - 1) = ?n - 1" by (simp add: unat_sub word_le_nat_alt)
    have "unat (q_front q) + 1 < 2 ^ 32" using assms by (auto simp: qs_inv_def)
    then have fr: "unat ((q_front q + 1) mod qs_max_size q) = (unat (q_front q) + 1) mod ?N"
      using qs_max_unat [OF assms] by (simp add: unat_mod unat_word_ariths)
    have pop: "qs_pop q = q\<lparr>q_size := q_size q - 1, q_front := (q_front q + 1) mod qs_max_size q\<rparr>"
      using False by (simp add: qs_pop_def qs_empty_def qs_size_def)
    have slot: "qs_slot (qs_pop q) i = qs_slot q (Suc i)" for i
      by (simp add: pop qs_slot_def fr mod_simps)
    have "qs_elems (qs_pop q) = map (\<lambda>i. q_arr q ! qs_slot q (Suc i)) [0..<?n - 1]"
      unfolding qs_elems_def slot by (simp add: pop sz)
    also have "\<dots> = map (\<lambda>i. q_arr q ! qs_slot q i) [1..<?n]"
    proof -
      have "[1..<?n] = map Suc [0..<?n - 1]" using n by (simp add: map_Suc_upt)
      then show ?thesis by (simp add: comp_def)
    qed
    also have "\<dots> = tl (qs_elems q)" using n by (simp add: qs_elems_def upt_conv_Cons)
    finally show ?thesis using assms sz fr by (auto simp: pop qs_inv_def)
  qed
  then show "qs_inv (qs_pop q)" "qs_elems (qs_pop q) = tl (qs_elems q)"
    "length (q_arr (qs_pop q)) = length (q_arr q)" by blast+
qed

lemma qs_front_spec: "qs_inv q \<Longrightarrow> qs_elems q \<noteq> [] \<Longrightarrow> qs_front q = Some (hd (qs_elems q))"
  using qs_slot_less [of q 0]
  by (auto simp: qs_front_def qs_elems_def hd_map qs_slot_def qs_inv_def upt_conv_Cons)

lemma qs_back_spec: "qs_inv q \<Longrightarrow> qs_elems q \<noteq> [] \<Longrightarrow> qs_back q = Some (last (qs_elems q))"
  using qs_back_index_unat [of q] qs_slot_less [of q "unat (q_size q) - 1"]
  by (auto simp: qs_back_def qs_elems_def last_map unat_eq_0 unat_gt_0)

section \<open>The interface of a bounded queue\<close>

locale bounded_fifo =
  fixes invar :: "'q \<Rightarrow> bool"
    and elements :: "'q \<Rightarrow> 'a list"
    and capacity :: "'q \<Rightarrow> nat"
    and push :: "'q \<Rightarrow> 'a \<Rightarrow> 'q option"
    and pop :: "'q \<Rightarrow> 'q"
    and front :: "'q \<Rightarrow> 'a option"
  assumes push_ok: "invar q \<Longrightarrow> \<exists>q'. push q x = Some q' \<and> invar q' \<and> capacity q' = capacity q \<and>
      elements q' = (if length (elements q) < capacity q then elements q @ [x] else elements q)"
    and pop_invar: "invar q \<Longrightarrow> invar (pop q)"
    and pop_elements: "invar q \<Longrightarrow> elements (pop q) = tl (elements q)"
    and pop_capacity: "invar q \<Longrightarrow> capacity (pop q) = capacity q"
    and front_ok: "invar q \<Longrightarrow> elements q \<noteq> [] \<Longrightarrow> front q = Some (hd (elements q))"
begin

text \<open>A run of pushes (\<open>Some x\<close>) and takes (\<open>None\<close>, \<^verbatim>\<open>front\<close> and \<^verbatim>\<open>pop\<close>)
  gives what is taken.\<close>

fun run :: "'q \<Rightarrow> 'a option list \<Rightarrow> ('q \<times> 'a list) option" where
  "run q [] = Some (q, [])"
| "run q (Some x # ops) = Option.bind (push q x) (\<lambda>q. run q ops)"
| "run q (None # ops) = Option.bind (front q) (\<lambda>x. map_option (\<lambda>(q, ys). (q, x # ys)) (run (pop q) ops))"

fun spec :: "nat \<Rightarrow> 'a list \<Rightarrow> 'a option list \<Rightarrow> ('a list \<times> 'a list) option" where
  "spec n xs [] = Some (xs, [])"
| "spec n xs (Some x # ops) = spec n (if length xs < n then xs @ [x] else xs) ops"
| "spec n [] (None # ops) = None"
| "spec n (y # xs) (None # ops) = map_option (\<lambda>(zs, ys). (zs, y # ys)) (spec n xs ops)"

lemma run_spec:
  "invar q \<Longrightarrow> spec (capacity q) (elements q) ops = Some (zs, ys) \<Longrightarrow>
     \<exists>q'. run q ops = Some (q', ys) \<and> invar q' \<and> elements q' = zs"
proof (induction ops arbitrary: q ys)
  case (Cons a ops)
  show ?case
  proof (cases a)
    case None
    obtain y xs where e: "elements q = y # xs" using Cons.prems(2) None by (cases "elements q") auto
    then obtain ys' where ys: "ys = y # ys'" "spec (capacity q) xs ops = Some (zs, ys')"
      using Cons.prems(2) None by auto
    have "front q = Some y" "elements (pop q) = xs"
      using front_ok [of q] pop_elements [of q] Cons.prems(1) e by simp_all
    then show ?thesis
      using Cons.IH [of "pop q" ys'] ys None Cons.prems(1) pop_invar [of q] pop_capacity [of q] by auto
  next
    case (Some x)
    obtain q1 where q1: "push q x = Some q1" "invar q1" "capacity q1 = capacity q"
        "elements q1 = (if length (elements q) < capacity q then elements q @ [x] else elements q)"
      using push_ok [OF Cons.prems(1), of x] by blast
    then show ?thesis using Cons.IH [of q1 ys] Cons.prems(2) Some by (simp split: if_splits)
  qed
qed simp

end

interpretation qs: bounded_fifo qs_inv qs_elems "\<lambda>q. length (q_arr q)" qs_push qs_pop qs_front
  by unfold_locales (rule qs_pop_spec qs_front_spec qs_push_spec [THEN exE]; auto)+

text \<open>The operations on the contents, \<open>back\<close> included.\<close>

lemma queue_static_refines_list:
  assumes "qs_inv q"
  shows "qs_elems (qs_pop q) = tl (qs_elems q) \<and> qs_inv (qs_pop q) \<and>
    (qs_elems q \<noteq> [] \<longrightarrow> qs_front q = Some (hd (qs_elems q)) \<and> qs_back q = Some (last (qs_elems q))) \<and>
    (\<exists>q'. qs_push q x = Some q' \<and> qs_inv q' \<and>
      qs_elems q' = (if length (qs_elems q) < length (q_arr q) then qs_elems q @ [x] else qs_elems q))"
  using qs_pop_spec [OF assms] qs_front_spec [OF assms] qs_back_spec [OF assms] qs_push_spec [OF assms, of x]
  by blast

section \<open>Properties\<close>

text \<open>C33: From an empty queue, every sequence of pushes and takes gives what a bounded list gives
  that drops pushes while it is full: the elements in the order they were pushed.\<close>

theorem queue_static_fifo:
  assumes "storage \<noteq> []" and "2 * length storage \<le> 2 ^ 32"
    and "qs.spec (length storage) [] ops = Some (zs, ys)"
  shows "\<exists>q. qs.run (qs_new storage) ops = Some (q, ys) \<and> qs_elems q = zs"
proof -
  have "qs_inv (qs_new storage)" "qs_elems (qs_new storage) = []" "length (q_arr (qs_new storage)) = length storage"
    using assms(1,2) by (simp_all add: qs_inv_def qs_new_def qs_elems_def)
  then show ?thesis using qs.run_spec [of "qs_new storage" ops zs ys] assms(3) by auto
qed

theorem queue_static_fifo_witness:
  "\<exists>q. qs.run (qs_new [0, (0::nat)]) [Some 1, Some 2, Some 3, None, Some 4, None] = Some (q, [1, 2]) \<and> qs_elems q = [4]"
  using queue_static_fifo [of "[0, (0::nat)]" "[Some 1, Some 2, Some 3, None, Some 4, None]" "[4]" "[1, 2]"]
  by simp

end
