(* ===== verification/Floating_Point.thy ===== *)
theory Floating_Point
  imports Serialization
begin

text \<open>
  \<^verbatim>\<open>util/serialization/floating_point.h\<close>: floating point values travel as the bytes of
  their object representation, most significant byte first; a value is the list of these bytes in
  the memory of the host. A platform with a \<^verbatim>\<open>double\<close> of four bytes writes it as one of
  eight bytes.
\<close>

section \<open>The generic template\<close>

definition fp_write :: "endianness \<Rightarrow> bytes \<Rightarrow> nat \<Rightarrow> bytes \<Rightarrow> (bytes \<times> nat) option" where
  "fp_write e buf target value = do { buf \<leftarrow> write_loop e buf target value 0; Some (buf, length value) }"

text \<open>\<open>n\<close> is \<^verbatim>\<open>sizeof(Type)\<close>.\<close>

definition fp_read :: "nat \<Rightarrow> endianness \<Rightarrow> bytes \<Rightarrow> nat \<Rightarrow> bytes option" where
  "fp_read n e buf target = read_loop e buf target n 0 []"

section \<open>A double of four bytes\<close>

definition or_byte :: "bytes \<Rightarrow> nat \<Rightarrow> u8 \<Rightarrow> bytes option" where
  "or_byte buf i x = do { y \<leftarrow> rd buf i; wr buf i (y OR x) }"

text \<open>\<open>b k\<close> is byte \<open>k\<close> of the value, counted from the most significant one:
  \<^verbatim>\<open>*(val+3-k)\<close> on a little endian and \<^verbatim>\<open>*(val+k)\<close> on a big endian host.\<close>

definition fp4_write :: "endianness \<Rightarrow> bytes \<Rightarrow> nat \<Rightarrow> bytes \<Rightarrow> (bytes \<times> nat) option" where
  "fp4_write e buf target value =
     (let b = (\<lambda>k. value ! target_index e 4 k) in do {
        buf \<leftarrow> memcpy buf target (replicate 8 0);
        buf \<leftarrow> or_byte buf target ((b 0 AND (0x80 OR 0x40)) OR (drop_bit 3 (b 0) AND 0x07));
        buf \<leftarrow> (if b 0 AND 0x40 = 0 then or_byte buf target 0x38 else Some buf);
        buf \<leftarrow> or_byte buf (target + 1) ((push_bit 5 (b 0) AND 0xe0) OR (drop_bit 3 (b 1) AND 0x10));
        buf \<leftarrow> or_byte buf (target + 1) (drop_bit 3 (b 1) AND 0x0f);
        buf \<leftarrow> or_byte buf (target + 2) ((push_bit 5 (b 1) AND 0xe0) OR (drop_bit 3 (b 2) AND 0x1f));
        buf \<leftarrow> or_byte buf (target + 3) ((push_bit 5 (b 2) AND 0xe0) OR (drop_bit 3 (b 3) AND 0x1f));
        buf \<leftarrow> or_byte buf (target + 4) (push_bit 5 (b 3) AND 0xe0);
        Some (buf, 4) })"

definition fp4_read :: "endianness \<Rightarrow> bytes \<Rightarrow> nat \<Rightarrow> bytes option" where
  "fp4_read e buf target = do {
     t0 \<leftarrow> rd buf target; t1 \<leftarrow> rd buf (target + 1); t2 \<leftarrow> rd buf (target + 2);
     t3 \<leftarrow> rd buf (target + 3); t4 \<leftarrow> rd buf (target + 4);
     let v0 = (t0 AND 0xc0) OR (push_bit 3 t0 AND 0x38) OR (drop_bit 5 t1 AND 0x07);
         v1 = (push_bit 3 t1 AND 0xf8) OR (drop_bit 5 t2 AND 0x07);
         v2 = (push_bit 3 t2 AND 0xf8) OR (drop_bit 5 t3 AND 0x07);
         v3 = (push_bit 3 t3 AND 0xf8) OR (drop_bit 5 t4 AND 0x07)
     in Some (case e of WISELIB_LITTLE_ENDIAN \<Rightarrow> [v3, v2, v1, v0] | WISELIB_BIG_ENDIAN \<Rightarrow> [v0, v1, v2, v3]) }"

section \<open>Round trips\<close>

text \<open>What the four byte format writes, byte by byte.\<close>

definition fp4_image :: "u8 \<Rightarrow> u8 \<Rightarrow> u8 \<Rightarrow> u8 \<Rightarrow> bytes" where
  "fp4_image a b c d =
     [((a AND (0x80 OR 0x40)) OR (drop_bit 3 a AND 0x07)) OR (if a AND 0x40 = 0 then 0x38 else 0),
      ((push_bit 5 a AND 0xe0) OR (drop_bit 3 b AND 0x10)) OR (drop_bit 3 b AND 0x0f),
      (push_bit 5 b AND 0xe0) OR (drop_bit 3 c AND 0x1f),
      (push_bit 5 c AND 0xe0) OR (drop_bit 3 d AND 0x1f),
      push_bit 5 d AND 0xe0, 0, 0, 0]"

lemma or_byte_append:
  "length p = i \<Longrightarrow> or_byte (p @ y # r) i x = Some (p @ (y OR x) # r)"
  by (auto simp: or_byte_def)

lemma or_byte_prefix:
  "length p \<le> i \<Longrightarrow> or_byte (p @ q) i x = map_option ((@) p) (or_byte q (i - length p) x)"
  by (auto simp: or_byte_def rd_def wr_def nth_append list_update_append)

lemma fp4_write_image:
  fixes e :: endianness and buf v :: bytes
  assumes "target + 8 \<le> length buf" and "length v = 4"
  defines "b \<equiv> \<lambda>k. v ! target_index e 4 k"
  shows "fp4_write e buf target v =
    Some (take target buf @ fp4_image (b 0) (b 1) (b 2) (b 3) @ drop (target + 8) buf, 4)"
proof -
  let ?p = "take target buf" and ?r = "drop (target + 8) buf"
  have p: "length ?p = target" using assms(1) by simp
  have m: "memcpy buf target (replicate 8 0) = Some (?p @ [0, 0, 0, 0, 0, 0, 0, 0] @ ?r)"
    using assms(1) by (simp add: memcpy_def eval_nat_numeral)
  have o: "or_byte (?p @ q) (target + k) x = map_option ((@) ?p) (or_byte q k x)" for q k x
    using or_byte_prefix [of ?p "target + k" q x] p by simp
  have o0: "or_byte (?p @ q) target x = map_option ((@) ?p) (or_byte q 0 x)" for q x
    using o [of q 0 x] by simp
  have step: "or_byte (x # q) 0 y = Some ((x OR y) # q)"
      "or_byte (x0 # x # q) 1 y = Some (x0 # (x OR y) # q)"
      "or_byte (x0 # x1 # x # q) 2 y = Some (x0 # x1 # (x OR y) # q)"
      "or_byte (x0 # x1 # x2 # x # q) 3 y = Some (x0 # x1 # x2 # (x OR y) # q)"
      "or_byte (x0 # x1 # x2 # x3 # x # q) 4 y = Some (x0 # x1 # x2 # x3 # (x OR y) # q)"
    for x y x0 x1 x2 x3 :: u8 and q
    by (simp_all add: or_byte_def eval_nat_numeral)
  show ?thesis
    unfolding fp4_write_def Let_def b_def [symmetric] m o o0
    by (cases "b 0 AND 0x40 = 0") (simp_all only: o0 o step fp4_image_def append_Cons append_Nil option.map Option.bind.simps if_True if_False
        simp_thms or.right_neutral or.left_neutral bit.disj_zero_right)
qed

text \<open>Reading gives the four bytes back, bit for bit.\<close>

lemma fp4_decode:
  fixes a b c d :: u8
  defines "im \<equiv> fp4_image a b c d"
  shows "(im ! 0 AND 0xc0) OR (push_bit 3 (im ! 0) AND 0x38) OR (drop_bit 5 (im ! 1) AND 0x07) = a"
    and "(push_bit 3 (im ! 1) AND 0xf8) OR (drop_bit 5 (im ! 2) AND 0x07) = b"
    and "(push_bit 3 (im ! 2) AND 0xf8) OR (drop_bit 5 (im ! 3) AND 0x07) = c"
    and "(push_bit 3 (im ! 3) AND 0xf8) OR (drop_bit 5 (im ! 4) AND 0x07) = d"
  by (simp_all add: im_def fp4_image_def byte_bits bit_simps)

lemma fp4_read_image:
  "fp4_read e (p @ fp4_image a b c d @ r) (length p) =
     Some (case e of WISELIB_LITTLE_ENDIAN \<Rightarrow> [d, c, b, a] | WISELIB_BIG_ENDIAN \<Rightarrow> [a, b, c, d])"
proof -
  have len: "length (fp4_image a b c d) = 8" by (simp add: fp4_image_def)
  have nth: "rd (p @ fp4_image a b c d @ r) (length p + k) = Some (fp4_image a b c d ! k)" if "k < 8" for k
    using that len by (simp add: nth_append)
  note at = nth [of 0] nth [of 1] nth [of 2] nth [of 3] nth [of 4]
  show ?thesis
    using at by (simp add: fp4_read_def fp4_decode [unfolded One_nat_def] Let_def del: rd_in split: endianness.split)
qed

text \<open>A floating point value of any size is read back as it was written, also by a host of
  the other byte order, for which the bytes are in its own order.\<close>

lemma fp_roundtrip:
  assumes "v \<noteq> []" and "target + length v \<le> length buf"
  shows "\<exists>buf'. fp_write e buf target v = Some (buf', length v) \<and>
    fp_read (length v) e' buf' target = Some (if e = e' then v else rev v)"
proof -
  obtain buf' where w: "memcpy buf target (wire_order e v) = Some buf'"
    using assms(2) by (auto simp: memcpy_def)
  then have "rd_bytes buf' target (length v) = Some (wire_order e v)"
    using rd_bytes_memcpy [OF w] by simp
  then show ?thesis
    using w assms(1)
    by (simp add: fp_write_def fp_read_def write_loop_memcpy read_loop_rd_bytes, simp add: wire_order_def)
      (cases e; cases e'; simp)
qed

section \<open>Sign, exponent and mantissa\<close>

text \<open>The fields of the two IEEE formats, given as bytes, most significant first.\<close>

definition single_fields :: "bytes \<Rightarrow> bool \<times> nat \<times> nat" where
  "single_fields w =
     (bit (w ! 0) 7, 2 * unat (w ! 0 AND 0x7f) + unat (drop_bit 7 (w ! 1)),
      2 ^ 16 * unat (w ! 1 AND 0x7f) + 2 ^ 8 * unat (w ! 2) + unat (w ! 3))"

definition double_fields :: "bytes \<Rightarrow> bool \<times> nat \<times> nat" where
  "double_fields w =
     (bit (w ! 0) 7, 16 * unat (w ! 0 AND 0x7f) + unat (drop_bit 4 (w ! 1)),
      2 ^ 48 * unat (w ! 1 AND 0x0f) + 2 ^ 40 * unat (w ! 2) + 2 ^ 32 * unat (w ! 3) + 2 ^ 24 * unat (w ! 4) +
      2 ^ 16 * unat (w ! 5) + 2 ^ 8 * unat (w ! 6) + unat (w ! 7))"

lemma byte_unat:
  "unat x = of_bool (bit x 0) + 2 * of_bool (bit x 1) + 4 * of_bool (bit x 2) + 8 * of_bool (bit x 3) +
     16 * of_bool (bit x 4) + 32 * of_bool (bit x 5) + 64 * of_bool (bit x 6) + 128 * of_bool (bit x 7)"
  for x :: u8
proof -
  have "unat x = horner_sum of_bool 2 (map (bit (unat x)) [0..<8])"
    by (simp add: horner_sum_bit_eq_take_bit take_bit_nat_eq_self unsigned_less [of x, simplified])
  moreover have "[0..<8] = [0, 1, 2, 3, 4, 5, 6, 7::nat]" by (simp add: upt_rec)
  ultimately show ?thesis by (simp add: bit_unsigned_iff)
qed

lemma bit_6_mask: "a AND 0x40 = 0 \<longleftrightarrow> \<not> bit a 6" for a :: u8
  by (simp add: byte_bits bit_simps)

lemma bit_u8_high [simp]: "8 \<le> n \<Longrightarrow> \<not> bit (b :: u8) n"
  by (auto dest: bit_imp_le_length)

lemma fp4_image_fields:
  "double_fields (fp4_image a b c d) =
     (fst (single_fields [a, b, c, d]), fst (snd (single_fields [a, b, c, d])) + 896,
      snd (snd (single_fields [a, b, c, d])) * 2 ^ 29)"
  by (simp add: double_fields_def single_fields_def fp4_image_def byte_unat bit_simps bit_6_mask)

section \<open>Properties\<close>

text \<open>A double of four bytes is read back as it was written. The eight bytes written are those
  of the double with the same sign, the mantissa filled up with zeros, and an exponent that is
  greater by 1023 - 127; this holds for zero too, so that zero is written as another number. The
  write returns four although it fills eight bytes.\<close>

theorem fp4_roundtrip:
  fixes e :: endianness and buf v :: bytes
  assumes "target + 8 \<le> length buf" and "length v = 4"
  shows "\<exists>image. fp4_write e buf target v = Some (take target buf @ image @ drop (target + 8) buf, 4) \<and>
    length image = 8 \<and> fp4_read e (take target buf @ image @ drop (target + 8) buf) target = Some v \<and>
    (let (sign, ex, mant) = single_fields (wire_order e v) in double_fields image = (sign, ex + 896, mant * 2 ^ 29))"
proof -
  let ?b = "\<lambda>k. v ! target_index e 4 k"
  let ?im = "fp4_image (?b 0) (?b 1) (?b 2) (?b 3)"
  obtain v0 v1 v2 v3 where v: "v = [v0, v1, v2, v3]"
    using assms(2) by (auto simp: length_Suc_conv eval_nat_numeral)
  have "fp4_read e (take target buf @ ?im @ drop (target + 8) buf) target = Some v"
    using fp4_read_image [of e "take target buf" "?b 0" "?b 1" "?b 2" "?b 3" "drop (target + 8) buf"] assms(1)
    by (cases e) (simp_all add: v target_index_def min_def eval_nat_numeral)
  moreover have "length ?im = 8" by (simp add: fp4_image_def)
  moreover have "wire_order e v = [?b 0, ?b 1, ?b 2, ?b 3]"
    by (cases e) (simp_all add: v target_index_def wire_order_def eval_nat_numeral)
  ultimately show ?thesis
    using fp4_write_image [OF assms] by (intro exI [of _ ?im]) (simp add: fp4_image_fields split: prod.split)
qed

theorem fp4_roundtrip_witness:
  "\<exists>image. fp4_write WISELIB_LITTLE_ENDIAN (replicate 9 7) 1 [0, 0, 0, 0] = Some (7 # image, 4) \<and>
    double_fields image = (False, 896, 0)"
  using fp4_roundtrip [of 1 "replicate 9 7" "[0, 0, 0, 0]" WISELIB_LITTLE_ENDIAN]
  by (auto simp: single_fields_def wire_order_def)

end
