(* ===== verification/Callback_Bases.thy ===== *)
theory Callback_Bases
  imports Radio_Base
begin

text \<open>
  \<^verbatim>\<open>util/base_classes\<close>: the classes that keep the callbacks of a state, a sensor and a
  UART. Their vectors of delegates are those of \<^verbatim>\<open>RadioBase\<close>, with the same loops; only
  what a delegate is called with differs. \<open>callback_base\<close> is the contract all of them meet:
  between the registrations and the notification they are a list with holes.
\<close>

section \<open>The classes\<close>

definition register_state_callback :: "nat \<Rightarrow> 'c callbacks \<Rightarrow> 'c \<Rightarrow> ('c callbacks \<times> int) option" where
  "register_state_callback n cb d = (let cb' = (if vs_empty cb then vs_assign cb n None else cb) in reg_loop cb' d 0)"

definition state_unreg_read_callback :: "'c callbacks \<Rightarrow> nat \<Rightarrow> 'c callbacks option" where
  "state_unreg_read_callback cb idx = vs_set_at cb idx None"

definition state_notify_receivers :: "'c callbacks \<Rightarrow> int \<Rightarrow> ('c \<times> int) list" where
  "state_notify_receivers cb v = map (\<lambda>d. (d, v)) (notify_loop cb (vs_begin cb))"

definition register_sensor_callback :: "nat \<Rightarrow> 'c callbacks \<Rightarrow> 'c \<Rightarrow> ('c callbacks \<times> int) option" where
  "register_sensor_callback n cb d = (let cb' = (if vs_empty cb then vs_assign cb n None else cb) in reg_loop cb' d 0)"

definition sensor_unreg_read_callback :: "'c callbacks \<Rightarrow> nat \<Rightarrow> 'c callbacks option" where
  "sensor_unreg_read_callback cb idx = vs_set_at cb idx None"

definition sensor_notify_receivers :: "'c callbacks \<Rightarrow> 'v \<Rightarrow> ('c \<times> 'v) list" where
  "sensor_notify_receivers cb v = map (\<lambda>d. (d, v)) (notify_loop cb (vs_begin cb))"

definition uart_reg_read_callback :: "nat \<Rightarrow> 'c callbacks \<Rightarrow> 'c \<Rightarrow> ('c callbacks \<times> int) option" where
  "uart_reg_read_callback n cb d = (let cb' = (if vs_empty cb then vs_assign cb n None else cb) in reg_loop cb' d 0)"

definition uart_unreg_read_callback :: "'c callbacks \<Rightarrow> nat \<Rightarrow> 'c callbacks option" where
  "uart_unreg_read_callback cb idx = vs_set_at cb idx None"

definition uart_notify_receivers :: "'c callbacks \<Rightarrow> nat \<Rightarrow> bytes \<Rightarrow> ('c \<times> nat \<times> bytes) list" where
  "uart_notify_receivers cb len data = map (\<lambda>d. (d, len, data)) (notify_loop cb (vs_begin cb))"

section \<open>The contract\<close>

lemma list_split_at:
  assumes "k < length xs"
  obtains A B where "xs = A @ xs ! k # B" and "length A = k" and "\<And>v. xs[k := v] = A @ v # B"
  using assms id_take_nth_drop [OF assms] upd_conv_take_nth_drop [OF assms] by (metis length_take min.absorb4)

text \<open>\<open>slots\<close> is the list of registered callbacks, with holes, as a client sees it: before the
  first registration it is \<open>n\<close> holes.\<close>

locale callback_base =
  fixes invar :: "'s \<Rightarrow> bool"
    and slots :: "'s \<Rightarrow> 'c option list"
    and reg :: "'s \<Rightarrow> 'c \<Rightarrow> ('s \<times> int) option"
    and unreg :: "'s \<Rightarrow> nat \<Rightarrow> 's option"
    and notify :: "'s \<Rightarrow> 'c list"
  assumes reg_free: "invar s \<Longrightarrow> None \<in> set (slots s) \<Longrightarrow> \<exists>s' k. reg s d = Some (s', int k) \<and> invar s' \<and>
      k < length (slots s) \<and> slots s ! k = None \<and> slots s' = (slots s)[k := Some d]"
    and reg_full: "invar s \<Longrightarrow> None \<notin> set (slots s) \<Longrightarrow> reg s d = Some (s, -1)"
    and unreg_slot: "invar s \<Longrightarrow> k < length (slots s) \<Longrightarrow> slots s ! k \<noteq> None \<Longrightarrow>
      \<exists>s'. unreg s k = Some s' \<and> invar s' \<and> slots s' = (slots s)[k := None]"
    and notify_slots: "invar s \<Longrightarrow> notify s = List.map_filter id (slots s)"
begin

lemma map_filter_id_set: "set (List.map_filter id xs) = {d. Some d \<in> set xs}"
  by (force simp: List.map_filter_def)

text \<open>A registration that succeeds makes its callback one of those called and none of the others
  is lost; a refusal happens only when all slots are taken.\<close>

lemma reg_notify:
  assumes "invar s"
  obtains s' i where "reg s d = Some (s', i)" and "invar s'"
    and "i = -1 \<Longrightarrow> s' = s \<and> length (notify s) = length (slots s)"
    and "i \<noteq> -1 \<Longrightarrow> set (notify s') = insert d (set (notify s))"
proof (cases "None \<in> set (slots s)")
  case True
  then obtain s' k where r: "reg s d = Some (s', int k)" "invar s'" "k < length (slots s)"
      "slots s ! k = None" "slots s' = (slots s)[k := Some d]"
    using reg_free [OF assms] by blast
  obtain A B where "slots s = A @ None # B" "slots s' = A @ Some d # B"
    using list_split_at [OF r(3)] r(4,5) by metis
  then have "set (notify s') = insert d (set (notify s))"
    using r assms by (auto simp: notify_slots map_filter_id_set)
  then show ?thesis using that [of s' "int k"] r by auto
next
  case False
  have "List.map_filter id xs = map the xs" if "None \<notin> set xs" for xs :: "'c option list"
    using that
  proof (induction xs)
    case (Cons x xs)
    then show ?case by (cases x) (auto simp: map_filter_simps)
  qed (simp add: map_filter_simps)
  then have "length (notify s) = length (slots s)" using False assms by (simp add: notify_slots)
  then show ?thesis using that [of s "-1"] reg_full [OF assms False] assms by simp
qed

lemma unreg_notify:
  assumes "invar s" and "k < length (slots s)" and "slots s ! k \<noteq> None"
  obtains s' where "unreg s k = Some s'" and "invar s'" and "Suc (length (notify s')) = length (notify s)"
proof -
  obtain s' where u: "unreg s k = Some s'" "invar s'" "slots s' = (slots s)[k := None]"
    using unreg_slot [OF assms] by blast
  have count: "length (List.map_filter id xs) = length (filter (\<lambda>x. x \<noteq> None) xs)" for xs :: "'c option list"
    by (induction xs) (auto simp: map_filter_simps split: option.splits)
  obtain d A B where "slots s = A @ Some d # B" "slots s' = A @ None # B"
    using list_split_at [OF assms(2)] assms(3) u(3) by (metis not_None_eq)
  then have "Suc (length (filter (\<lambda>x. x \<noteq> None) (slots s'))) = length (filter (\<lambda>x. x \<noteq> None) (slots s))"
    by simp
  then show ?thesis using that u assms(1) by (simp add: notify_slots count)
qed

end

definition cb_slots :: "nat \<Rightarrow> 'c callbacks \<Rightarrow> 'c option list" where
  "cb_slots n cb = (if elems cb = [] then replicate n None else elems cb)"

definition cb_inv :: "nat \<Rightarrow> 'c callbacks \<Rightarrow> bool" where
  "cb_inv n cb \<longleftrightarrow> vs_inv cb \<and> 0 < n \<and> n \<le> length (vec cb)"

lemma reg_loop_length: "reg_loop cb d i = Some (cb', k) \<Longrightarrow> length (vec cb') = length (vec cb)"
proof (induction cb d i rule: reg_loop.induct)
  case (1 cb d i)
  show ?case
    using 1(2) unfolding reg_loop.simps [of cb d i]
    by (auto simp: mem_simps vs_at_def vs_set_at_def dest: 1(1) split: if_splits)
qed

lemma vs_assign_length [simp]: "length (vec (vs_assign cb n u)) = length (vec cb)"
proof -
  have "vs_max_size (vs_assign cb n u) = vs_max_size (vs_clear cb)"
    by (simp add: vs_assign_def)
  then show ?thesis by (simp add: vs_max_size_def vs_clear_def)
qed

lemma radio_callback_base:
  "callback_base (cb_inv n) (cb_slots n) (reg_recv_callback n) unreg_recv_callback notify_receivers"
proof
  fix s :: "'a callbacks" and d
  assume inv: "cb_inv n s"
  then have v: "vs_inv s" "0 < n" "n \<le> vs_max_size s" by (simp_all add: cb_inv_def vs_max_size_def)
  note spec = reg_recv_callback_spec [OF v, of d, folded cb_slots_def]
  show "reg_recv_callback n s d = Some (s, -1)" if "None \<notin> set (cb_slots n s)"
    using spec that by simp
  show "\<exists>s' k. reg_recv_callback n s d = Some (s', int k) \<and> cb_inv n s' \<and> k < length (cb_slots n s) \<and>
      cb_slots n s ! k = None \<and> cb_slots n s' = (cb_slots n s)[k := Some d]" if free: "None \<in> set (cb_slots n s)"
  proof -
    obtain s' k where r: "reg_recv_callback n s d = Some (s', int k)" "k < length (cb_slots n s)"
        "cb_slots n s ! k = None" "elems s' = (cb_slots n s)[k := Some d]" "vs_inv s'"
      using spec unfolding if_P [OF free] by blast
    have "length (vec s') = length (vec s)"
      using r(1) reg_loop_length by (fastforce simp: reg_recv_callback_def Let_def)
    then have "cb_inv n s'" using r(5) inv by (simp add: cb_inv_def)
    moreover have "cb_slots n s' = (cb_slots n s)[k := Some d]"
      using r(2,4) by (auto simp: cb_slots_def)
    ultimately show ?thesis using r by blast
  qed
  show "notify_receivers s = List.map_filter id (cb_slots n s)"
  proof -
    have "List.map_filter id (replicate n None) = ([] :: 'a list)" by (induction n) (simp_all add: map_filter_simps)
    then show ?thesis using v(1) by (auto simp: notify_receivers_elems cb_slots_def map_filter_simps)
  qed
  fix k
  assume k: "k < length (cb_slots n s)" "cb_slots n s ! k \<noteq> None"
  have el: "elems s \<noteq> []" using k by (auto simp: cb_slots_def)
  then have "k < vs_size s" using k(1) length_elems [OF v(1)] by (simp add: cb_slots_def)
  then obtain s' where u: "unreg_recv_callback s k = Some s'" "vs_inv s'" "elems s' = (elems s)[k := None]"
    using unreg_recv_callback_spec [OF v(1)] by blast
  have "length (vec s') = length (vec s)"
    using u(1) by (auto simp: unreg_recv_callback_def vs_set_at_def mem_simps)
  then show "\<exists>s'. unreg_recv_callback s k = Some s' \<and> cb_inv n s' \<and> cb_slots n s' = (cb_slots n s)[k := None]"
    using u inv el by (auto simp: cb_inv_def cb_slots_def)
qed

interpretation rb: callback_base "cb_inv n" "cb_slots n" "reg_recv_callback n" unreg_recv_callback notify_receivers for n
  by (rule radio_callback_base)

text \<open>The other classes have the same statements.\<close>

lemmas other_bases = register_state_callback_def [abs_def] register_sensor_callback_def [abs_def]
  uart_reg_read_callback_def [abs_def] reg_recv_callback_def [abs_def]

interpretation sb: callback_base "cb_inv n" "cb_slots n" "register_state_callback n" state_unreg_read_callback
  "\<lambda>cb. map fst (state_notify_receivers cb v)" for n v
  using radio_callback_base [of n]
  unfolding other_bases state_unreg_read_callback_def [abs_def] unreg_recv_callback_def [abs_def]
    state_notify_receivers_def [abs_def] notify_receivers_def [abs_def] by (simp add: comp_def)

interpretation eb: callback_base "cb_inv n" "cb_slots n" "register_sensor_callback n" sensor_unreg_read_callback
  "\<lambda>cb. map fst (sensor_notify_receivers cb v)" for n v
  using radio_callback_base [of n]
  unfolding other_bases sensor_unreg_read_callback_def [abs_def] unreg_recv_callback_def [abs_def]
    sensor_notify_receivers_def [abs_def] notify_receivers_def [abs_def] by (simp add: comp_def)

interpretation ub: callback_base "cb_inv n" "cb_slots n" "uart_reg_read_callback n" uart_unreg_read_callback
  "\<lambda>cb. map fst (uart_notify_receivers cb len data)" for n len data
  using radio_callback_base [of n]
  unfolding other_bases uart_unreg_read_callback_def [abs_def] unreg_recv_callback_def [abs_def]
    uart_notify_receivers_def [abs_def] notify_receivers_def [abs_def] by (simp add: comp_def)

section \<open>Properties\<close>

text \<open>A receiver that registers at a radio with a return value other than -1 is called by the
  next notification, and all those registered before are still called; the radio refuses with -1, and
  stays as it was, only when as many are registered as it has slots for. An unregistration takes
  exactly one call away.\<close>

theorem radio_callbacks_served:
  assumes "cb_inv n cb"
  shows "(\<exists>cb' i. reg_recv_callback n cb d = Some (cb', i) \<and> cb_inv n cb' \<and>
      (if i = -1 then cb' = cb \<and> length (notify_receivers cb) = length (cb_slots n cb)
       else set (notify_receivers cb') = insert d (set (notify_receivers cb)))) \<and>
    (\<forall>k < length (cb_slots n cb). cb_slots n cb ! k \<noteq> None \<longrightarrow>
      (\<exists>cb'. unreg_recv_callback cb k = Some cb' \<and> Suc (length (notify_receivers cb')) = length (notify_receivers cb)))"
  using rb.reg_notify [OF assms, of d] rb.unreg_notify [OF assms] by (metis (no_types, lifting))

theorem radio_callbacks_served_witness:
  "\<exists>cb' i. reg_recv_callback 2 \<lparr>vec = [None, None, None], finish = 0\<rparr> ''a'' = Some (cb', i) \<and>
    (i = -1 \<or> ''a'' \<in> set (notify_receivers cb'))"
  using radio_callbacks_served [of 2 "\<lparr>vec = [None, None, None], finish = 0\<rparr>" "''a''"]
  by (auto simp: cb_inv_def vs_inv_def split: if_splits)

end
