(* ===== verification/Aes.thy ===== *)
theory Aes
  imports Wl_Prelude
begin

text \<open>
  \<^verbatim>\<open>wiselib.testing/algorithms/crypto/aes.h\<close>: AES with keys of 128, 192 and 256 bits. The
  matrix \<^verbatim>\<open>state[r][c]\<close> is a list of 16 bytes with the element at \<open>4 * r + c\<close>.
  \<^verbatim>\<open>Nr\<close> and \<^verbatim>\<open>Nk\<close> are \<^const>\<open>None\<close> until \<^verbatim>\<open>key_setup\<close> has set them: using them
  before is undefined.
\<close>

section \<open>The class\<close>

record aes =
  Nr :: "nat option"
  Nk :: "nat option"
  aes_state :: bytes
  RoundKey :: bytes

definition Nb :: nat where
  "Nb = 4"

definition xtime :: "u8 \<Rightarrow> u8" where
  "xtime x = push_bit 1 x XOR ((drop_bit 7 x AND 1) * 0x1b)"

definition Rcon :: bytes where
  "Rcon =
    [0x8d, 0x01, 0x02, 0x04, 0x08, 0x10, 0x20, 0x40, 0x80, 0x1b, 0x36, 0x6c, 0xd8, 0xab, 0x4d, 0x9a,
     0x2f, 0x5e, 0xbc, 0x63, 0xc6, 0x97, 0x35, 0x6a, 0xd4, 0xb3, 0x7d, 0xfa, 0xef, 0xc5, 0x91, 0x39,
     0x72, 0xe4, 0xd3, 0xbd, 0x61, 0xc2, 0x9f, 0x25, 0x4a, 0x94, 0x33, 0x66, 0xcc, 0x83, 0x1d, 0x3a,
     0x74, 0xe8, 0xcb, 0x8d, 0x01, 0x02, 0x04, 0x08, 0x10, 0x20, 0x40, 0x80, 0x1b, 0x36, 0x6c, 0xd8,
     0xab, 0x4d, 0x9a, 0x2f, 0x5e, 0xbc, 0x63, 0xc6, 0x97, 0x35, 0x6a, 0xd4, 0xb3, 0x7d, 0xfa, 0xef,
     0xc5, 0x91, 0x39, 0x72, 0xe4, 0xd3, 0xbd, 0x61, 0xc2, 0x9f, 0x25, 0x4a, 0x94, 0x33, 0x66, 0xcc,
     0x83, 0x1d, 0x3a, 0x74, 0xe8, 0xcb, 0x8d, 0x01, 0x02, 0x04, 0x08, 0x10, 0x20, 0x40, 0x80, 0x1b,
     0x36, 0x6c, 0xd8, 0xab, 0x4d, 0x9a, 0x2f, 0x5e, 0xbc, 0x63, 0xc6, 0x97, 0x35, 0x6a, 0xd4, 0xb3,
     0x7d, 0xfa, 0xef, 0xc5, 0x91, 0x39, 0x72, 0xe4, 0xd3, 0xbd, 0x61, 0xc2, 0x9f, 0x25, 0x4a, 0x94,
     0x33, 0x66, 0xcc, 0x83, 0x1d, 0x3a, 0x74, 0xe8, 0xcb, 0x8d, 0x01, 0x02, 0x04, 0x08, 0x10, 0x20,
     0x40, 0x80, 0x1b, 0x36, 0x6c, 0xd8, 0xab, 0x4d, 0x9a, 0x2f, 0x5e, 0xbc, 0x63, 0xc6, 0x97, 0x35,
     0x6a, 0xd4, 0xb3, 0x7d, 0xfa, 0xef, 0xc5, 0x91, 0x39, 0x72, 0xe4, 0xd3, 0xbd, 0x61, 0xc2, 0x9f,
     0x25, 0x4a, 0x94, 0x33, 0x66, 0xcc, 0x83, 0x1d, 0x3a, 0x74, 0xe8, 0xcb, 0x8d, 0x01, 0x02, 0x04,
     0x08, 0x10, 0x20, 0x40, 0x80, 0x1b, 0x36, 0x6c, 0xd8, 0xab, 0x4d, 0x9a, 0x2f, 0x5e, 0xbc, 0x63,
     0xc6, 0x97, 0x35, 0x6a, 0xd4, 0xb3, 0x7d, 0xfa, 0xef, 0xc5, 0x91, 0x39, 0x72, 0xe4, 0xd3, 0xbd,
     0x61, 0xc2, 0x9f, 0x25, 0x4a, 0x94, 0x33, 0x66, 0xcc, 0x83, 0x1d, 0x3a, 0x74, 0xe8, 0xcb]"

definition getRconValue :: "nat \<Rightarrow> u8" where
  "getRconValue num = Rcon ! num"

definition sbox :: bytes where
  "sbox =
    [0x63, 0x7c, 0x77, 0x7b, 0xf2, 0x6b, 0x6f, 0xc5, 0x30, 0x01, 0x67, 0x2b, 0xfe, 0xd7, 0xab, 0x76,
     0xca, 0x82, 0xc9, 0x7d, 0xfa, 0x59, 0x47, 0xf0, 0xad, 0xd4, 0xa2, 0xaf, 0x9c, 0xa4, 0x72, 0xc0,
     0xb7, 0xfd, 0x93, 0x26, 0x36, 0x3f, 0xf7, 0xcc, 0x34, 0xa5, 0xe5, 0xf1, 0x71, 0xd8, 0x31, 0x15,
     0x04, 0xc7, 0x23, 0xc3, 0x18, 0x96, 0x05, 0x9a, 0x07, 0x12, 0x80, 0xe2, 0xeb, 0x27, 0xb2, 0x75,
     0x09, 0x83, 0x2c, 0x1a, 0x1b, 0x6e, 0x5a, 0xa0, 0x52, 0x3b, 0xd6, 0xb3, 0x29, 0xe3, 0x2f, 0x84,
     0x53, 0xd1, 0x00, 0xed, 0x20, 0xfc, 0xb1, 0x5b, 0x6a, 0xcb, 0xbe, 0x39, 0x4a, 0x4c, 0x58, 0xcf,
     0xd0, 0xef, 0xaa, 0xfb, 0x43, 0x4d, 0x33, 0x85, 0x45, 0xf9, 0x02, 0x7f, 0x50, 0x3c, 0x9f, 0xa8,
     0x51, 0xa3, 0x40, 0x8f, 0x92, 0x9d, 0x38, 0xf5, 0xbc, 0xb6, 0xda, 0x21, 0x10, 0xff, 0xf3, 0xd2,
     0xcd, 0x0c, 0x13, 0xec, 0x5f, 0x97, 0x44, 0x17, 0xc4, 0xa7, 0x7e, 0x3d, 0x64, 0x5d, 0x19, 0x73,
     0x60, 0x81, 0x4f, 0xdc, 0x22, 0x2a, 0x90, 0x88, 0x46, 0xee, 0xb8, 0x14, 0xde, 0x5e, 0x0b, 0xdb,
     0xe0, 0x32, 0x3a, 0x0a, 0x49, 0x06, 0x24, 0x5c, 0xc2, 0xd3, 0xac, 0x62, 0x91, 0x95, 0xe4, 0x79,
     0xe7, 0xc8, 0x37, 0x6d, 0x8d, 0xd5, 0x4e, 0xa9, 0x6c, 0x56, 0xf4, 0xea, 0x65, 0x7a, 0xae, 0x08,
     0xba, 0x78, 0x25, 0x2e, 0x1c, 0xa6, 0xb4, 0xc6, 0xe8, 0xdd, 0x74, 0x1f, 0x4b, 0xbd, 0x8b, 0x8a,
     0x70, 0x3e, 0xb5, 0x66, 0x48, 0x03, 0xf6, 0x0e, 0x61, 0x35, 0x57, 0xb9, 0x86, 0xc1, 0x1d, 0x9e,
     0xe1, 0xf8, 0x98, 0x11, 0x69, 0xd9, 0x8e, 0x94, 0x9b, 0x1e, 0x87, 0xe9, 0xce, 0x55, 0x28, 0xdf,
     0x8c, 0xa1, 0x89, 0x0d, 0xbf, 0xe6, 0x42, 0x68, 0x41, 0x99, 0x2d, 0x0f, 0xb0, 0x54, 0xbb, 0x16]"

definition getSBoxValue :: "u8 \<Rightarrow> u8" where
  "getSBoxValue num = sbox ! unat num"

definition rsbox :: bytes where
  "rsbox =
    [0x52, 0x09, 0x6a, 0xd5, 0x30, 0x36, 0xa5, 0x38, 0xbf, 0x40, 0xa3, 0x9e, 0x81, 0xf3, 0xd7, 0xfb,
     0x7c, 0xe3, 0x39, 0x82, 0x9b, 0x2f, 0xff, 0x87, 0x34, 0x8e, 0x43, 0x44, 0xc4, 0xde, 0xe9, 0xcb,
     0x54, 0x7b, 0x94, 0x32, 0xa6, 0xc2, 0x23, 0x3d, 0xee, 0x4c, 0x95, 0x0b, 0x42, 0xfa, 0xc3, 0x4e,
     0x08, 0x2e, 0xa1, 0x66, 0x28, 0xd9, 0x24, 0xb2, 0x76, 0x5b, 0xa2, 0x49, 0x6d, 0x8b, 0xd1, 0x25,
     0x72, 0xf8, 0xf6, 0x64, 0x86, 0x68, 0x98, 0x16, 0xd4, 0xa4, 0x5c, 0xcc, 0x5d, 0x65, 0xb6, 0x92,
     0x6c, 0x70, 0x48, 0x50, 0xfd, 0xed, 0xb9, 0xda, 0x5e, 0x15, 0x46, 0x57, 0xa7, 0x8d, 0x9d, 0x84,
     0x90, 0xd8, 0xab, 0x00, 0x8c, 0xbc, 0xd3, 0x0a, 0xf7, 0xe4, 0x58, 0x05, 0xb8, 0xb3, 0x45, 0x06,
     0xd0, 0x2c, 0x1e, 0x8f, 0xca, 0x3f, 0x0f, 0x02, 0xc1, 0xaf, 0xbd, 0x03, 0x01, 0x13, 0x8a, 0x6b,
     0x3a, 0x91, 0x11, 0x41, 0x4f, 0x67, 0xdc, 0xea, 0x97, 0xf2, 0xcf, 0xce, 0xf0, 0xb4, 0xe6, 0x73,
     0x96, 0xac, 0x74, 0x22, 0xe7, 0xad, 0x35, 0x85, 0xe2, 0xf9, 0x37, 0xe8, 0x1c, 0x75, 0xdf, 0x6e,
     0x47, 0xf1, 0x1a, 0x71, 0x1d, 0x29, 0xc5, 0x89, 0x6f, 0xb7, 0x62, 0x0e, 0xaa, 0x18, 0xbe, 0x1b,
     0xfc, 0x56, 0x3e, 0x4b, 0xc6, 0xd2, 0x79, 0x20, 0x9a, 0xdb, 0xc0, 0xfe, 0x78, 0xcd, 0x5a, 0xf4,
     0x1f, 0xdd, 0xa8, 0x33, 0x88, 0x07, 0xc7, 0x31, 0xb1, 0x12, 0x10, 0x59, 0x27, 0x80, 0xec, 0x5f,
     0x60, 0x51, 0x7f, 0xa9, 0x19, 0xb5, 0x4a, 0x0d, 0x2d, 0xe5, 0x7a, 0x9f, 0x93, 0xc9, 0x9c, 0xef,
     0xa0, 0xe0, 0x3b, 0x4d, 0xae, 0x2a, 0xf5, 0xb0, 0xc8, 0xeb, 0xbb, 0x3c, 0x83, 0x53, 0x99, 0x61,
     0x17, 0x2b, 0x04, 0x7e, 0xba, 0x77, 0xd6, 0x26, 0xe1, 0x69, 0x14, 0x63, 0x55, 0x21, 0x0c, 0x7d]"

definition getSBoxInvert :: "u8 \<Rightarrow> u8" where
  "getSBoxInvert num = rsbox ! unat num"

fun xtimes_loop :: "nat \<Rightarrow> u8 \<Rightarrow> u8 \<Rightarrow> u8 \<Rightarrow> u8" where
  "xtimes_loop 0 a b result = result"
| "xtimes_loop (Suc count) a b result =
     xtimes_loop count
       (if a AND 128 \<noteq> 0 then push_bit 1 a XOR (0x11B AND 255) else push_bit 1 a)
       (drop_bit 1 b)
       (if b AND 1 \<noteq> 0 then result XOR a else result)"

definition xtimes :: "u8 \<Rightarrow> u8 \<Rightarrow> u8" where
  "xtimes a b = xtimes_loop 8 a b 0"

text \<open>Key expansion: \<open>rk\<close> is \<^verbatim>\<open>RoundKey\<close>.\<close>

definition RotWord :: "bytes \<Rightarrow> bytes" where
  "RotWord temp = [temp ! 1, temp ! 2, temp ! 3, temp ! 0]"

definition SubWord :: "bytes \<Rightarrow> bytes" where
  "SubWord temp = map getSBoxValue temp"

fun key_copy :: "bytes \<Rightarrow> bytes \<Rightarrow> nat \<Rightarrow> nat \<Rightarrow> bytes option" where
  "key_copy key rk i 0 = Some rk"
| "key_copy key rk i (Suc n) = do {
     w \<leftarrow> rd_bytes key (i * 4) 4;
     rk \<leftarrow> memcpy rk (i * 4) w;
     key_copy key rk (Suc i) n }"

function key_words :: "nat \<Rightarrow> nat \<Rightarrow> bytes \<Rightarrow> nat \<Rightarrow> bytes option" where
  "key_words nk nr rk i =
     (if i < Nb * (nr + 1) then do {
        temp \<leftarrow> rd_bytes rk ((i - 1) * 4) 4;
        let temp = (if i mod nk = 0
            then let temp = SubWord (RotWord temp) in temp[0 := temp ! 0 XOR getRconValue (i div nk)]
            else if nk > 6 \<and> i mod nk = 4 then SubWord temp
            else temp) in do {
        old \<leftarrow> rd_bytes rk ((i - nk) * 4) 4;
        rk \<leftarrow> memcpy rk (i * 4) (map2 (XOR) old temp);
        key_words nk nr rk (Suc i) } }
      else Some rk)"
  by pat_completeness auto
termination by (relation "measure (\<lambda>(nk, nr, rk, i). Nb * (nr + 1) - i)") auto

definition KeyExpansion :: "nat \<Rightarrow> nat \<Rightarrow> bytes \<Rightarrow> bytes \<Rightarrow> bytes option" where
  "KeyExpansion nk nr rk key = do { rk \<leftarrow> key_copy key rk 0 nk; key_words nk nr rk nk }"

text \<open>The round functions work on the state \<open>s\<close>.\<close>

definition AddRoundKey :: "bytes \<Rightarrow> nat \<Rightarrow> bytes \<Rightarrow> bytes option" where
  "AddRoundKey rk round s = do {
     k \<leftarrow> rd_bytes rk (round * Nb * 4) 16;
     Some (map (\<lambda>p. s ! p XOR k ! ((p mod 4) * Nb + p div 4)) [0..<16]) }"

definition SubBytes :: "bytes \<Rightarrow> bytes" where
  "SubBytes s = map getSBoxValue s"

definition InvSubBytes :: "bytes \<Rightarrow> bytes" where
  "InvSubBytes s = map getSBoxInvert s"

definition mv :: "nat \<Rightarrow> nat \<Rightarrow> nat \<Rightarrow> bytes \<Rightarrow> bytes" where
  "mv r c d s = s[4 * r + c := s ! (4 * r + d)]"

definition ShiftRows :: "bytes \<Rightarrow> bytes" where
  "ShiftRows s =
     (let temp = s ! (4 * 1 + 0);
          s = mv 1 2 3 (mv 1 1 2 (mv 1 0 1 s));
          s = s[4 * 1 + 3 := temp];
          temp = s ! (4 * 2 + 0);
          s = mv 2 0 2 s;
          s = s[4 * 2 + 2 := temp];
          temp = s ! (4 * 2 + 1);
          s = mv 2 1 3 s;
          s = s[4 * 2 + 3 := temp];
          temp = s ! (4 * 3 + 0);
          s = mv 3 2 1 (mv 3 3 2 (mv 3 0 3 s))
      in s[4 * 3 + 1 := temp])"

definition InvShiftRows :: "bytes \<Rightarrow> bytes" where
  "InvShiftRows s =
     (let temp = s ! (4 * 1 + 3);
          s = mv 1 1 0 (mv 1 2 1 (mv 1 3 2 s));
          s = s[4 * 1 + 0 := temp];
          temp = s ! (4 * 2 + 0);
          s = mv 2 0 2 s;
          s = s[4 * 2 + 2 := temp];
          temp = s ! (4 * 2 + 1);
          s = mv 2 1 3 s;
          s = s[4 * 2 + 3 := temp];
          temp = s ! (4 * 3 + 0);
          s = mv 3 2 3 (mv 3 1 2 (mv 3 0 1 s))
      in s[4 * 3 + 3 := temp])"

text \<open>One round of the loop of \<^verbatim>\<open>MixColumns\<close> and of \<^verbatim>\<open>InvMixColumns\<close>.\<close>

definition mix_column :: "nat \<Rightarrow> bytes \<Rightarrow> bytes" where
  "mix_column i s =
     (let t = s ! i;
          Tmp = s ! i XOR s ! (4 + i) XOR s ! (8 + i) XOR s ! (12 + i);
          s = s[i := s ! i XOR (xtime (s ! i XOR s ! (4 + i)) XOR Tmp)];
          s = s[4 + i := s ! (4 + i) XOR (xtime (s ! (4 + i) XOR s ! (8 + i)) XOR Tmp)];
          s = s[8 + i := s ! (8 + i) XOR (xtime (s ! (8 + i) XOR s ! (12 + i)) XOR Tmp)]
      in s[12 + i := s ! (12 + i) XOR (xtime (s ! (12 + i) XOR t) XOR Tmp)])"

definition MixColumns :: "bytes \<Rightarrow> bytes" where
  "MixColumns s = fold mix_column [0..<4] s"

definition inv_mix_column :: "nat \<Rightarrow> bytes \<Rightarrow> bytes" where
  "inv_mix_column i s =
     (let x1 = 0x0e; x2 = 0x09; x3 = 0x0d; x4 = 0x0b;
          a = s ! i; b = s ! (4 + i); c = s ! (8 + i); d = s ! (12 + i);
          s = s[i := xtimes a x1 XOR xtimes b x4 XOR xtimes c x3 XOR xtimes d x2];
          s = s[4 + i := xtimes a x2 XOR xtimes b x1 XOR xtimes c x4 XOR xtimes d x3];
          s = s[8 + i := xtimes a x3 XOR xtimes b x2 XOR xtimes c x1 XOR xtimes d x4]
      in s[12 + i := xtimes a x4 XOR xtimes b x3 XOR xtimes c x2 XOR xtimes d x1])"

definition InvMixColumns :: "bytes \<Rightarrow> bytes" where
  "InvMixColumns s = fold inv_mix_column [0..<4] s"

text \<open>\<^verbatim>\<open>state[j][i] = in[i*4 + j]\<close>, and back for the output.\<close>

definition aes_transpose :: "bytes \<Rightarrow> bytes" where
  "aes_transpose xs = map (\<lambda>p. xs ! ((p mod 4) * 4 + p div 4)) [0..<16]"

function encrypt_rounds :: "bytes \<Rightarrow> nat \<Rightarrow> nat \<Rightarrow> bytes \<Rightarrow> bytes option" where
  "encrypt_rounds rk nr round s =
     (if round < nr
      then do { s \<leftarrow> AddRoundKey rk round (MixColumns (ShiftRows (SubBytes s)));
                encrypt_rounds rk nr (Suc round) s }
      else Some s)"
  by pat_completeness auto
termination by (relation "measure (\<lambda>(rk, nr, round, s). nr - round)") auto

definition aes_encrypt :: "aes \<Rightarrow> bytes \<Rightarrow> bytes \<Rightarrow> (aes \<times> bytes) option" where
  "aes_encrypt a inp out = do {
     nr \<leftarrow> Nr a;
     xs \<leftarrow> rd_bytes inp 0 16;
     s \<leftarrow> AddRoundKey (RoundKey a) 0 (aes_transpose xs);
     s \<leftarrow> encrypt_rounds (RoundKey a) nr 1 s;
     s \<leftarrow> AddRoundKey (RoundKey a) nr (ShiftRows (SubBytes s));
     out \<leftarrow> memcpy out 0 (aes_transpose s);
     Some (a\<lparr>aes_state := s\<rparr>, out) }"

text \<open>The loop runs from \<open>round = Nr - 1\<close> down to 1.\<close>

fun decrypt_rounds :: "bytes \<Rightarrow> nat \<Rightarrow> bytes \<Rightarrow> bytes option" where
  "decrypt_rounds rk 0 s = Some s"
| "decrypt_rounds rk (Suc round) s = do {
     s \<leftarrow> AddRoundKey rk (Suc round) (InvSubBytes (InvShiftRows s));
     decrypt_rounds rk round (InvMixColumns s) }"

definition aes_decrypt :: "aes \<Rightarrow> bytes \<Rightarrow> bytes \<Rightarrow> (aes \<times> bytes) option" where
  "aes_decrypt a inp out = do {
     nr \<leftarrow> Nr a;
     xs \<leftarrow> rd_bytes inp 0 16;
     s \<leftarrow> AddRoundKey (RoundKey a) nr (aes_transpose xs);
     s \<leftarrow> decrypt_rounds (RoundKey a) (nr - 1) s;
     s \<leftarrow> AddRoundKey (RoundKey a) 0 (InvSubBytes (InvShiftRows s));
     out \<leftarrow> memcpy out 0 (aes_transpose s);
     Some (a\<lparr>aes_state := s\<rparr>, out) }"

text \<open>A wrong length is only reported on the debug output.\<close>

definition aes_key_setup :: "aes \<Rightarrow> bytes \<Rightarrow> nat \<Rightarrow> aes option" where
  "aes_key_setup a key key_length =
     (if key_length = 128 then do {
        rk \<leftarrow> KeyExpansion 4 10 (RoundKey a) key; Some (a\<lparr>Nk := Some 4, Nr := Some 10, RoundKey := rk\<rparr>) }
      else if key_length = 192 then do {
        rk \<leftarrow> KeyExpansion 6 12 (RoundKey a) key; Some (a\<lparr>Nk := Some 6, Nr := Some 12, RoundKey := rk\<rparr>) }
      else if key_length = 256 then do {
        rk \<leftarrow> KeyExpansion 8 14 (RoundKey a) key; Some (a\<lparr>Nk := Some 8, Nr := Some 14, RoundKey := rk\<rparr>) }
      else Some a)"

end
