(* ===== verification/Aes_Field.thy ===== *)
theory Aes_Field
  imports Aes
begin

text \<open>
  The mathematics behind AES, as FIPS 197 states it: bytes as elements of the field with 256
  elements, the S-box as inverse and affine map, the steps of a round on the matrix. The tables
  and steps of the code are shown to be these.
\<close>

section \<open>The field\<close>

text \<open>\<open>gf_x\<close> multiplies by the polynomial \<open>x\<close> modulo \<open>x^8 + x^4 + x^3 + x + 1\<close>, \<open>gf_mul\<close> adds the
  products with the powers of \<open>x\<close>.\<close>

definition gf_x :: "u8 \<Rightarrow> u8" where
  "gf_x a = (if bit a 7 then push_bit 1 a XOR 0x1b else push_bit 1 a)"

definition gf_mul :: "u8 \<Rightarrow> u8 \<Rightarrow> u8" where
  "gf_mul a b = foldr (\<lambda>i r. (if bit b i then (gf_x ^^ i) a else 0) XOR r) [0..<8] 0"

lemma bit7: "drop_bit 7 a AND 1 = of_bool (bit a 7)" for a :: u8
  by (simp add: bit_iff_odd_drop_bit and_one_eq mod2_eq_if)

lemma xtime_gf_x: "xtime = gf_x"
  by (rule ext) (simp add: xtime_def gf_x_def bit7)

lemma xtimes_loop_step:
  "xtimes_loop (Suc n) a b r = xtimes_loop n (gf_x a) (drop_bit 1 b) ((if bit b 0 then a else 0) XOR r)"
proof -
  have "(if a AND 128 \<noteq> 0 then push_bit 1 a XOR (0x11B AND 255) else push_bit 1 a) = gf_x a"
    using bit_iff_and_push_bit_not_eq_0 [of a 7] by (simp add: gf_x_def)
  moreover have "b AND 1 \<noteq> 0 \<longleftrightarrow> bit b 0"
    using bit_iff_and_push_bit_not_eq_0 [of b 0] by simp
  ultimately show ?thesis by (simp add: xor.commute)
qed

lemma xtimes_gf_mul: "xtimes = gf_mul"
proof (intro ext)
  fix a b
  have "xtimes_loop n a b r = foldr (\<lambda>i r. (if bit b i then (gf_x ^^ i) a else 0) XOR r) [0..<n] r" for n r
  proof (induction n arbitrary: a b r)
    case (Suc n)
    have "[0..<Suc n] = 0 # map Suc [0..<n]" by (simp add: upt_conv_Cons map_Suc_upt)
    moreover have "(if bit b (Suc i) then (gf_x ^^ Suc i) a else 0) = (if bit (drop_bit 1 b) i then (gf_x ^^ i) (gf_x a) else 0)" for i
      by (simp add: bit_simps funpow_swap1)
    moreover have "foldr (\<lambda>i r. f i XOR r) xs (y XOR r) = y XOR foldr (\<lambda>i r. f i XOR r) xs r" for f :: "nat \<Rightarrow> u8" and xs y
      by (induction xs) (simp_all add: ac_simps)
    ultimately show ?case
      unfolding xtimes_loop_step Suc.IH by (simp add: foldr_map comp_def del: upt_Suc)
  qed simp
  then show "xtimes a b = gf_mul a b" by (simp add: xtimes_def gf_mul_def)
qed

lemma gf_mul_const:
  "gf_mul a 9 = a XOR gf_x (gf_x (gf_x a))"
  "gf_mul a 11 = a XOR gf_x a XOR gf_x (gf_x (gf_x a))"
  "gf_mul a 13 = a XOR gf_x (gf_x a) XOR gf_x (gf_x (gf_x a))"
  "gf_mul a 14 = gf_x a XOR gf_x (gf_x a) XOR gf_x (gf_x (gf_x a))"
  "gf_mul a 2 = gf_x a"
  "gf_mul a 3 = a XOR gf_x a"
  "gf_mul a 1 = a"
  by (simp_all add: gf_mul_def upt_conv_Cons funpow_swap1 eval_nat_numeral bit_simps ac_simps)

lemma gf_x_xor: "gf_x (a XOR b) = gf_x a XOR gf_x b"
  by (auto simp: gf_x_def bit_simps push_bit_xor xor.assoc xor.commute xor.left_commute)


lemma xor_cancel: "x XOR (x XOR y) = y" for x y :: u8
  by (simp add: xor.assoc [symmetric])

section \<open>The steps of a round\<close>

lemma sixteen:
  assumes "length s = 16"
  obtains a0 a1 a2 a3 b0 b1 b2 b3 c0 c1 c2 c3 d0 d1 d2 d3
  where "s = [a0, a1, a2, a3, b0, b1, b2, b3, c0, c1, c2, c3, d0, d1, d2, d3]"
  using assms by (auto simp: length_Suc_conv eval_nat_numeral)

definition mat :: "bytes \<Rightarrow> (nat \<Rightarrow> nat \<Rightarrow> u8) \<Rightarrow> bool" where
  "mat s f \<longleftrightarrow> length s = 16 \<and> (\<forall>r < 4. \<forall>c < 4. s ! (4 * r + c) = f r c)"

lemma mat_iff:
  "mat s f \<longleftrightarrow> s = [f 0 0, f 0 1, f 0 2, f 0 3, f 1 0, f 1 1, f 1 2, f 1 3,
    f 2 0, f 2 1, f 2 2, f 2 3, f 3 0, f 3 1, f 3 2, f 3 3]"
proof
  assume m: "mat s f"
  then have "length s = 16" by (simp add: mat_def)
  moreover have "s ! (4 * r + c) = f r c" if "r < 4" "c < 4" for r c using m that by (simp add: mat_def)
  note this [of 0 0] this [of 0 1] this [of 0 2] this [of 0 3] this [of 1 0] this [of 1 1] this [of 1 2] this [of 1 3]
    this [of 2 0] this [of 2 1] this [of 2 2] this [of 2 3] this [of 3 0] this [of 3 1] this [of 3 2] this [of 3 3]
  ultimately show "s = [f 0 0, f 0 1, f 0 2, f 0 3, f 1 0, f 1 1, f 1 2, f 1 3,
    f 2 0, f 2 1, f 2 2, f 2 3, f 3 0, f 3 1, f 3 2, f 3 3]"
    by (elim sixteen) simp
next
  assume s: "s = [f 0 0, f 0 1, f 0 2, f 0 3, f 1 0, f 1 1, f 1 2, f 1 3,
    f 2 0, f 2 1, f 2 2, f 2 3, f 3 0, f 3 1, f 3 2, f 3 3]"
  have four: "(\<forall>r < 4. P r) \<longleftrightarrow> P 0 \<and> P 1 \<and> P 2 \<and> P 3" for P :: "nat \<Rightarrow> bool"
    by (auto simp: less_Suc_eq eval_nat_numeral)
  show "mat s f" unfolding mat_def four by (simp add: s)
qed

lemma ShiftRows_mat: "mat s f \<Longrightarrow> mat (ShiftRows s) (\<lambda>r c. f r ((c + r) mod 4))"
  by (simp add: mat_iff ShiftRows_def mv_def numeral_2_eq_2 [symmetric])

lemma InvShiftRows_ShiftRows: "length s = 16 \<Longrightarrow> InvShiftRows (ShiftRows s) = s"
  by (elim sixteen) (simp add: ShiftRows_def InvShiftRows_def mv_def)

lemma MixColumns_mat:
  assumes "mat s f"
  shows "mat (MixColumns s) (\<lambda>r c. gf_mul (f r c) 2 XOR gf_mul (f ((r + 1) mod 4) c) 3 XOR
    f ((r + 2) mod 4) c XOR f ((r + 3) mod 4) c)"
  using assms unfolding mat_iff
  by (simp add: MixColumns_def mix_column_def upt_conv_Cons xtime_gf_x gf_mul_const gf_x_xor ac_simps xor_cancel
    numeral_2_eq_2 [symmetric])



lemma MixColumns_eq:
  "MixColumns [a0, a1, a2, a3, b0, b1, b2, b3, c0, c1, c2, c3, d0, d1, d2, d3] =
    (let m = (\<lambda>a b c d. gf_x a XOR b XOR gf_x b XOR c XOR d) in
      [m a0 b0 c0 d0, m a1 b1 c1 d1, m a2 b2 c2 d2, m a3 b3 c3 d3,
       m b0 c0 d0 a0, m b1 c1 d1 a1, m b2 c2 d2 a2, m b3 c3 d3 a3,
       m c0 d0 a0 b0, m c1 d1 a1 b1, m c2 d2 a2 b2, m c3 d3 a3 b3,
       m d0 a0 b0 c0, m d1 a1 b1 c1, m d2 a2 b2 c2, m d3 a3 b3 c3])"
  by (simp add: MixColumns_def mix_column_def upt_conv_Cons xtime_gf_x gf_x_xor ac_simps xor_cancel)

lemma InvMixColumns_eq:
  "InvMixColumns [a0, a1, a2, a3, b0, b1, b2, b3, c0, c1, c2, c3, d0, d1, d2, d3] =
    (let m = (\<lambda>a b c d. gf_mul a 14 XOR gf_mul b 11 XOR gf_mul c 13 XOR gf_mul d 9) in
      [m a0 b0 c0 d0, m a1 b1 c1 d1, m a2 b2 c2 d2, m a3 b3 c3 d3,
       m b0 c0 d0 a0, m b1 c1 d1 a1, m b2 c2 d2 a2, m b3 c3 d3 a3,
       m c0 d0 a0 b0, m c1 d1 a1 b1, m c2 d2 a2 b2, m c3 d3 a3 b3,
       m d0 a0 b0 c0, m d1 a1 b1 c1, m d2 a2 b2 c2, m d3 a3 b3 c3])"
  by (simp add: InvMixColumns_def inv_mix_column_def upt_conv_Cons xtimes_gf_mul ac_simps)

lemma inv_mix:
  fixes a b c d :: u8
  defines "m \<equiv> \<lambda>a b c d. gf_x a XOR b XOR gf_x b XOR c XOR d"
  shows "gf_mul (m a b c d) 14 XOR gf_mul (m b c d a) 11 XOR gf_mul (m c d a b) 13 XOR gf_mul (m d a b c) 9 = a"
  by (simp add: m_def gf_mul_const gf_x_xor ac_simps xor_cancel)

lemma InvMixColumns_MixColumns: 
  assumes "length s = 16" shows "InvMixColumns (MixColumns s) = s"
  using assms by (elim sixteen) (simp add: MixColumns_eq InvMixColumns_eq inv_mix Let_def)


section \<open>The S-box\<close>

definition affine :: "u8 \<Rightarrow> u8" where
  "affine b = b XOR word_rotl 1 b XOR word_rotl 2 b XOR word_rotl 3 b XOR word_rotl 4 b XOR 0x63"

text \<open>The powers of 3, which generate the multiplicative group.\<close>

definition powers :: bytes where
  "powers =
    [0x01, 0x03, 0x05, 0x0f, 0x11, 0x33, 0x55, 0xff, 0x1a, 0x2e, 0x72, 0x96, 0xa1, 0xf8, 0x13, 0x35,
     0x5f, 0xe1, 0x38, 0x48, 0xd8, 0x73, 0x95, 0xa4, 0xf7, 0x02, 0x06, 0x0a, 0x1e, 0x22, 0x66, 0xaa,
     0xe5, 0x34, 0x5c, 0xe4, 0x37, 0x59, 0xeb, 0x26, 0x6a, 0xbe, 0xd9, 0x70, 0x90, 0xab, 0xe6, 0x31,
     0x53, 0xf5, 0x04, 0x0c, 0x14, 0x3c, 0x44, 0xcc, 0x4f, 0xd1, 0x68, 0xb8, 0xd3, 0x6e, 0xb2, 0xcd,
     0x4c, 0xd4, 0x67, 0xa9, 0xe0, 0x3b, 0x4d, 0xd7, 0x62, 0xa6, 0xf1, 0x08, 0x18, 0x28, 0x78, 0x88,
     0x83, 0x9e, 0xb9, 0xd0, 0x6b, 0xbd, 0xdc, 0x7f, 0x81, 0x98, 0xb3, 0xce, 0x49, 0xdb, 0x76, 0x9a,
     0xb5, 0xc4, 0x57, 0xf9, 0x10, 0x30, 0x50, 0xf0, 0x0b, 0x1d, 0x27, 0x69, 0xbb, 0xd6, 0x61, 0xa3,
     0xfe, 0x19, 0x2b, 0x7d, 0x87, 0x92, 0xad, 0xec, 0x2f, 0x71, 0x93, 0xae, 0xe9, 0x20, 0x60, 0xa0,
     0xfb, 0x16, 0x3a, 0x4e, 0xd2, 0x6d, 0xb7, 0xc2, 0x5d, 0xe7, 0x32, 0x56, 0xfa, 0x15, 0x3f, 0x41,
     0xc3, 0x5e, 0xe2, 0x3d, 0x47, 0xc9, 0x40, 0xc0, 0x5b, 0xed, 0x2c, 0x74, 0x9c, 0xbf, 0xda, 0x75,
     0x9f, 0xba, 0xd5, 0x64, 0xac, 0xef, 0x2a, 0x7e, 0x82, 0x9d, 0xbc, 0xdf, 0x7a, 0x8e, 0x89, 0x80,
     0x9b, 0xb6, 0xc1, 0x58, 0xe8, 0x23, 0x65, 0xaf, 0xea, 0x25, 0x6f, 0xb1, 0xc8, 0x43, 0xc5, 0x54,
     0xfc, 0x1f, 0x21, 0x63, 0xa5, 0xf4, 0x07, 0x09, 0x1b, 0x2d, 0x77, 0x99, 0xb0, 0xcb, 0x46, 0xca,
     0x45, 0xcf, 0x4a, 0xde, 0x79, 0x8b, 0x86, 0x91, 0xa8, 0xe3, 0x3e, 0x42, 0xc6, 0x51, 0xf3, 0x0e,
     0x12, 0x36, 0x5a, 0xee, 0x29, 0x7b, 0x8d, 0x8c, 0x8f, 0x8a, 0x85, 0x94, 0xa7, 0xf2, 0x0d, 0x17,
     0x39, 0x4b, 0xdd, 0x7c, 0x84, 0x97, 0xa2, 0xfd, 0x1c, 0x24, 0x6c, 0xb4, 0xc7, 0x52, 0xf6]"

fun chain :: "bytes \<Rightarrow> bool" where
  "chain (x # y # zs) \<longleftrightarrow> y = x XOR gf_x x \<and> chain (y # zs)"
| "chain xs \<longleftrightarrow> True"

lemma chain_powers: "chain (powers @ [1])"
  by code_simp

lemma sbox_powers: "map getSBoxValue powers = map affine (hd powers # rev (tl powers))"
  by code_simp

lemma sbox_zero: "getSBoxValue 0 = affine 0"
  by code_simp

lemma rsbox_sbox: "map (\<lambda>x. rsbox ! unat x) sbox = map of_nat [0..<256]"
  by code_simp

text \<open>The powers \<open>i\<close> and \<open>255 - i\<close> are inverse to each other.\<close>

lemma gf_x_0 [simp]: "gf_x 0 = 0"
  by (simp add: gf_x_def)

lemma gf_mul_three: "gf_mul (a XOR gf_x a) b = gf_mul a b XOR gf_x (gf_mul a b)"
proof -
  have pow_xor: "(gf_x ^^ i) (a XOR b) = (gf_x ^^ i) a XOR (gf_x ^^ i) b" for a b i
    by (induction i) (simp_all add: gf_x_xor)
  have gf_xor: "gf_mul (a XOR c) b = gf_mul a b XOR gf_mul c b" for a c
  proof -
    have "foldr (\<lambda>i r. (if bit b i then (gf_x ^^ i) (a XOR c) else 0) XOR r) is 0 =
        foldr (\<lambda>i r. (if bit b i then (gf_x ^^ i) a else 0) XOR r) is 0 XOR
        foldr (\<lambda>i r. (if bit b i then (gf_x ^^ i) c else 0) XOR r) is 0" for "is"
      by (induction "is") (simp_all add: pow_xor ac_simps)
    then show ?thesis by (simp add: gf_mul_def)
  qed
  have "foldr (\<lambda>i r. (if bit b i then (gf_x ^^ i) (gf_x a) else 0) XOR r) is 0 =
      gf_x (foldr (\<lambda>i r. (if bit b i then (gf_x ^^ i) a else 0) XOR r) is 0)" for "is"
    by (induction "is") (simp_all add: gf_x_xor funpow_swap1)
  then have "gf_mul (gf_x a) b = gf_x (gf_mul a b)" by (simp add: gf_mul_def)
  then show ?thesis by (simp add: gf_xor)
qed

lemma gf_mul_1: "gf_mul 1 b = b"
proof -
  have "(gf_x ^^ 2) 1 = 4" "(gf_x ^^ 3) 1 = 8" "(gf_x ^^ 4) 1 = 16" "(gf_x ^^ 5) 1 = 32" "(gf_x ^^ 6) 1 = 64"
      "(gf_x ^^ 7) 1 = 128" "gf_x 1 = 2"
    by (simp_all add: eval_nat_numeral gf_x_def)
  then show ?thesis by (simp add: gf_mul_def upt_conv_Cons bit_simps byte_bits numeral_2_eq_2 [symmetric])
qed

lemma powers_nth: "i \<le> 255 \<Longrightarrow> (powers @ [1]) ! i = ((\<lambda>x. x XOR gf_x x) ^^ i) 1"
  for i :: nat
proof (induction i)
  case 0
  then show ?case by (simp add: powers_def)
next
  case (Suc i)
  have "chain xs \<Longrightarrow> Suc i < length xs \<Longrightarrow> xs ! Suc i = xs ! i XOR gf_x (xs ! i)" for xs i
  proof (induction xs arbitrary: i rule: chain.induct)
    case (1 x y zs)
    then show ?case by (cases i) auto
  qed auto
  note this [OF chain_powers, of i]
  moreover have "length (powers @ [1]) = 256" by (simp add: powers_def)
  ultimately show ?case using Suc by simp
qed

lemma gf_mul_powers:
  assumes "i + j = 255"
  shows "gf_mul ((powers @ [1]) ! i) ((powers @ [1]) ! j) = 1"
proof -
  let ?t = "\<lambda>x. x XOR gf_x x"
  have "gf_mul ((?t ^^ i) 1) b = (?t ^^ i) b" for b
    by (induction i) (simp_all add: gf_mul_1 gf_mul_three)
  then have "gf_mul ((powers @ [1]) ! i) ((powers @ [1]) ! j) = (?t ^^ (i + j)) 1"
    using assms powers_nth [of i] powers_nth [of j] unfolding funpow_add by simp
  also have "\<dots> = (powers @ [1]) ! 255" unfolding assms by (simp add: powers_nth)
  finally show ?thesis by (simp add: powers_def)
qed


lemma powers_all: "set powers = - {0}"
proof -
  let ?t = "\<lambda>x. x XOR gf_x x" and ?p = "powers @ [1]"
  have len: "length powers = 255" by (simp add: powers_def)
  have first_one: "1 \<notin> set (tl powers)" by (simp add: powers_def)
  have "powers ! i \<noteq> powers ! j" if "i < j" "j < 255" for i j
  proof
    assume eq: "powers ! i = powers ! j"
    have "(?t ^^ (255 - j)) ((?t ^^ i) 1) = (?t ^^ (255 - j)) ((?t ^^ j) 1)"
      using eq powers_nth [of i] powers_nth [of j] that len by (simp add: nth_append)
    then have "(?t ^^ (255 - j + i)) 1 = (?t ^^ (255 - j + j)) 1" unfolding funpow_add by simp
    moreover have "255 - j + j = 255" using that by simp
    ultimately have "?p ! (255 - j + i) = ?p ! 255"
      using powers_nth [of "255 - j + i"] powers_nth [of 255] that by simp
    moreover have "255 - j + i < 255" "0 < 255 - j + i" using that by simp_all
    moreover define k where "k = 255 - j + i - 1"
    ultimately have "tl powers ! k = 1" "k < length (tl powers)"
      using len by (auto simp: nth_append nth_tl)
    then show False using first_one nth_mem [of k "tl powers"] by simp
  qed
  then have "distinct powers" using len by (auto simp: distinct_conv_nth neq_iff)
  then have "card (set powers) = 255" using len by (simp add: distinct_card)
  moreover have "card (- {0 :: u8}) = 255" by (simp add: Compl_eq_Diff_UNIV card_Diff_subset card_word)
  moreover have "0 \<notin> set powers" by (simp add: powers_def)
  then have "set powers \<subseteq> - {0}" by blast
  ultimately show ?thesis by (simp add: card_subset_eq)
qed

lemma sbox_affine: "\<exists>y. (x = 0 \<and> y = 0 \<or> gf_mul x y = 1) \<and> getSBoxValue x = affine y"
proof (cases "x = 0")
  case False
  then have "x \<in> set powers" by (simp add: powers_all)
  then obtain i where i: "i < length powers" "x = powers ! i" by (auto simp: in_set_conv_nth)
  have len: "length powers = 255" by (simp add: powers_def)
  let ?y = "(powers @ [1]) ! (255 - i)"
  have "gf_mul x ?y = 1" using gf_mul_powers [of i "255 - i"] i len by (simp add: nth_append)
  moreover have "getSBoxValue x = affine ?y"
  proof -
    have "getSBoxValue x = affine ((hd powers # rev (tl powers)) ! i)"
      using arg_cong [OF sbox_powers, of "\<lambda>xs. xs ! i"] i len by (simp del: list.map add: nth_map)
    also have "(hd powers # rev (tl powers)) ! i = ?y"
    proof (cases i)
      case 0
      then show ?thesis using len by (simp add: powers_def)
    next
      case (Suc k)
      then have "Suc (253 - k) = 255 - i" using i len by simp
      then show ?thesis using i len Suc by (auto simp: rev_nth nth_append nth_tl)
    qed
    finally show ?thesis .
  qed
  ultimately show ?thesis by blast
qed (use sbox_zero in auto)
end
