(* ===== verification/Aes_Cipher.thy ===== *)
theory Aes_Cipher
  imports Aes_Field
begin

text \<open>
  AES as a whole: decryption gives back what encryption was given, and encryption is the cipher
  of FIPS 197, whose state is a function of row and column and whose key schedule is a function of
  the word and the byte in it.
\<close>

section \<open>The cipher of FIPS 197\<close>

function fips_w :: "bytes \<Rightarrow> nat \<Rightarrow> nat \<Rightarrow> nat \<Rightarrow> u8" where
  "fips_w key nk i j =
     (if i < nk \<or> nk = 0 then key ! (4 * i + j)
      else fips_w key nk (i - nk) j XOR
        (if i mod nk = 0
         then getSBoxValue (fips_w key nk (i - 1) ((j + 1) mod 4)) XOR (if j = 0 then (gf_x ^^ (i div nk - 1)) 1 else 0)
         else if nk > 6 \<and> i mod nk = 4 then getSBoxValue (fips_w key nk (i - 1) j)
         else fips_w key nk (i - 1) j))"
  by pat_completeness auto
termination by (relation "measure (\<lambda>(key, nk, i, j). i)") auto

declare fips_w.simps [simp del]

type_synonym matrix = "nat \<Rightarrow> nat \<Rightarrow> u8"

definition fips_add :: "(nat \<Rightarrow> nat \<Rightarrow> u8) \<Rightarrow> nat \<Rightarrow> matrix \<Rightarrow> matrix" where
  "fips_add w round f = (\<lambda>r c. f r c XOR w (4 * round + c) r)"

definition fips_sub_shift :: "matrix \<Rightarrow> matrix" where
  "fips_sub_shift f = (\<lambda>r c. getSBoxValue (f r ((c + r) mod 4)))"

definition fips_mix :: "matrix \<Rightarrow> matrix" where
  "fips_mix f = (\<lambda>r c. gf_mul (f r c) 2 XOR gf_mul (f ((r + 1) mod 4) c) 3 XOR
     f ((r + 2) mod 4) c XOR f ((r + 3) mod 4) c)"

fun fips_rounds :: "(nat \<Rightarrow> nat \<Rightarrow> u8) \<Rightarrow> nat \<Rightarrow> nat \<Rightarrow> matrix \<Rightarrow> matrix" where
  "fips_rounds w round 0 f = f"
| "fips_rounds w round (Suc n) f = fips_rounds w (Suc round) n (fips_add w round (fips_mix (fips_sub_shift f)))"

text \<open>Block \<open>xs\<close>, key of \<open>nk\<close> words; byte \<open>4 * c + r\<close> of a block is in row \<open>r\<close> and column \<open>c\<close>.\<close>

definition fips_cipher :: "bytes \<Rightarrow> nat \<Rightarrow> bytes \<Rightarrow> bytes" where
  "fips_cipher key nk xs =
     (let nr = nk + 6; w = fips_w key nk;
          f = fips_rounds w 1 (nr - 1) (fips_add w 0 (\<lambda>r c. xs ! (4 * c + r)));
          g = fips_add w nr (fips_sub_shift f)
      in [g 0 0, g 1 0, g 2 0, g 3 0, g 0 1, g 1 1, g 2 1, g 3 1,
          g 0 2, g 1 2, g 2 2, g 3 2, g 0 3, g 1 3, g 2 3, g 3 3])"

section \<open>Key expansion\<close>

lemma key_copy_spec:
  assumes "4 * (i + n) \<le> length key" and "4 * (i + n) \<le> length rk"
  shows "\<exists>rk'. key_copy key rk i n = Some rk' \<and> length rk' = length rk \<and>
    (\<forall>p < 4 * (i + n). rk' ! p = (if p < 4 * i then rk ! p else key ! p))"
  using assms
proof (induction n arbitrary: rk i)
  case (Suc n)
  let ?rk = "take (i * 4) rk @ take 4 (drop (i * 4) key) @ drop (i * 4 + 4) rk"
  have step: "key_copy key rk i (Suc n) = key_copy key ?rk (Suc i) n"
    using Suc.prems by (simp add: rd_bytes_def memcpy_def)
  have "\<forall>p < 4 * (i + Suc n). ?rk ! p = (if p < 4 * i then rk ! p else if p < 4 * Suc i then key ! p else rk ! p)"
    using Suc.prems by (auto simp: nth_append)
  moreover have "length ?rk = length rk" using Suc.prems by simp
  ultimately show ?case
    using Suc.IH [of "Suc i" ?rk] Suc.prems unfolding step by (auto simp: nth_append)
qed simp

lemma Rcon_powers: "0 < k \<Longrightarrow> k < 11 \<Longrightarrow> getRconValue k = (gf_x ^^ (k - 1)) 1"
proof -
  have "map getRconValue [1..<11] = map (\<lambda>k. (gf_x ^^ (k - 1)) 1) [1..<11]" by code_simp
  then show "0 < k \<Longrightarrow> k < 11 \<Longrightarrow> getRconValue k = (gf_x ^^ (k - 1)) 1" by (auto simp: map_eq_conv)
qed

lemma take_word:
  "p * 4 + 4 \<le> length xs \<Longrightarrow> take 4 (drop (p * 4) xs) = [xs ! (4 * p), xs ! (4 * p + 1), xs ! (4 * p + 2), xs ! (4 * p + 3)]"
  by (rule nth_equalityI) (auto simp: less_Suc_eq eval_nat_numeral ac_simps)

declare key_words.simps [simp del]

lemma key_words_spec:
  assumes "nk \<in> {4, 6, 8}" and "length rk = 240" and "nk \<le> i" and "i \<le> Nb * (nk + 6 + 1)"
    and "\<forall>p < i. \<forall>j < 4. rk ! (4 * p + j) = fips_w key nk p j"
  shows "\<exists>rk'. key_words nk (nk + 6) rk i = Some rk' \<and> length rk' = 240 \<and>
    (\<forall>p < Nb * (nk + 6 + 1). \<forall>j < 4. rk' ! (4 * p + j) = fips_w key nk p j)"
  using assms(2-5)
proof (induction "Nb * (nk + 6 + 1) - i" arbitrary: i rk)
  case 0
  then have "i = Nb * (nk + 6 + 1)" by simp
  then have "key_words nk (nk + 6) rk i = Some rk" by (subst key_words.simps) simp
  then show ?case using 0 \<open>i = _\<close> by blast
next
  case (Suc n)
  let ?w = "fips_w key nk"
  have nk: "4 \<le> nk" "nk \<le> 8" using assms(1) by auto
  have i: "0 < i" "i < Nb * (nk + 6 + 1)" "i * 4 + 4 \<le> 240" using Suc.hyps(2) Suc.prems nk by (simp_all add: Nb_def)
  have word: "rd_bytes rk (p * 4) 4 = Some [?w p 0, ?w p 1, ?w p 2, ?w p 3]" if "p < i" for p
  proof -
    have "rk ! (4 * p + j) = ?w p j" if "j < 4" for j using Suc.prems(4) \<open>p < i\<close> that by blast
    from this [of 0] this [of 1] this [of 2] this [of 3]
    show ?thesis using that i Suc.prems(1) take_word [of p rk] by (simp add: rd_bytes_def)
  qed
  define new where "new = [?w i 0, ?w i 1, ?w i 2, ?w i 3]"
  have rcon: "i mod nk = 0 \<Longrightarrow> getRconValue (i div nk) = (gf_x ^^ (i div nk - 1)) 1"
  proof (rule Rcon_powers)
    show "0 < i div nk" using Suc.prems(2) nk by (simp add: div_greater_zero_iff)
    have "i div nk \<le> Nb * (nk + 7) div nk" using i by (intro div_le_mono) (simp add: ac_simps)
    moreover have "i div nk < 11" if "i < 4 * (nk + 7)" using that assms(1) by auto
    ultimately show "i div nk < 11" using i by (simp add: Nb_def)
  qed
  have new: "map2 (XOR) [?w (i - nk) 0, ?w (i - nk) 1, ?w (i - nk) 2, ?w (i - nk) 3]
      (if i mod nk = 0 then let temp = SubWord (RotWord [?w (i - 1) 0, ?w (i - 1) 1, ?w (i - 1) 2, ?w (i - 1) 3])
         in temp[0 := temp ! 0 XOR getRconValue (i div nk)]
       else if nk > 6 \<and> i mod nk = 4 then SubWord [?w (i - 1) 0, ?w (i - 1) 1, ?w (i - 1) 2, ?w (i - 1) 3]
       else [?w (i - 1) 0, ?w (i - 1) 1, ?w (i - 1) 2, ?w (i - 1) 3]) = new"
    using Suc.prems(2) nk rcon
    unfolding new_def fips_w.simps [of key nk i] by (auto simp: SubWord_def RotWord_def Let_def numeral_2_eq_2 [symmetric])
  let ?rk = "take (i * 4) rk @ new @ drop (i * 4 + 4) rk"
  have "length new = 4" by (simp add: new_def)
  then have "memcpy rk (i * 4) new = Some ?rk" using i Suc.prems(1) by (simp add: memcpy_def)
  moreover have "rd_bytes rk ((i - 1) * 4) 4 = Some [?w (i - 1) 0, ?w (i - 1) 1, ?w (i - 1) 2, ?w (i - 1) 3]"
      "rd_bytes rk ((i - nk) * 4) 4 = Some [?w (i - nk) 0, ?w (i - nk) 1, ?w (i - nk) 2, ?w (i - nk) 3]"
    using word [of "i - 1"] word [of "i - nk"] i nk by simp_all
  ultimately have step: "key_words nk (nk + 6) rk i = key_words nk (nk + 6) ?rk (Suc i)"
    using i(2) new [unfolded Let_def]
    unfolding key_words.simps [of nk "nk + 6" rk i] Let_def by (simp only: if_True Option.bind.simps)
  have "length ?rk = 240" using i Suc.prems(1) by (simp add: new_def)
  moreover have "\<forall>p < Suc i. \<forall>j < 4. ?rk ! (4 * p + j) = ?w p j"
  proof (intro allI impI)
    fix p j :: nat
    assume "p < Suc i" "j < 4"
    show "?rk ! (4 * p + j) = ?w p j"
    proof (cases "p = i")
      case True
      have "j = 0 \<or> j = 1 \<or> j = 2 \<or> j = 3" using \<open>j < 4\<close> by auto
      then show ?thesis using True i Suc.prems(1) by (auto simp: nth_append new_def)
    next
      case False
      then show ?thesis using \<open>p < Suc i\<close> \<open>j < 4\<close> i Suc.prems by (simp add: nth_append)
    qed
  qed
  ultimately show ?case
    using Suc.hyps(1) [of "Suc i" ?rk] Suc.hyps(2) Suc.prems i unfolding step by simp
qed

lemma KeyExpansion_spec:
  assumes "nk \<in> {4, 6, 8}" and "length rk = 240" and "4 * nk \<le> length key"
  shows "\<exists>rk'. KeyExpansion nk (nk + 6) rk key = Some rk' \<and> length rk' = 240 \<and>
    (\<forall>p < 4 * (nk + 7). \<forall>j < 4. rk' ! (4 * p + j) = fips_w key nk p j)"
proof -
  obtain rk1 where rk1: "key_copy key rk 0 nk = Some rk1" "length rk1 = 240" "\<forall>p < 4 * nk. rk1 ! p = key ! p"
    using key_copy_spec [of 0 nk key rk] assms by auto
  have "fips_w key nk p j = key ! (4 * p + j)" if "p < nk" for p j
    using that by (subst fips_w.simps) simp
  then have "\<forall>p < nk. \<forall>j < 4. rk1 ! (4 * p + j) = fips_w key nk p j"
    using rk1(3) by simp
  then show ?thesis
    using key_words_spec [OF assms(1) rk1(2), of nk key] rk1(1) assms(1)
    by (simp add: KeyExpansion_def Nb_def add.commute [of nk] add.assoc)
qed

text \<open>After \<^verbatim>\<open>key_setup\<close> the object is ready for both directions.\<close>

definition aes_ready :: "aes \<Rightarrow> bool" where
  "aes_ready a \<longleftrightarrow> (\<exists>nr. Nr a = Some nr \<and> 0 < nr \<and> nr \<le> 14) \<and> length (RoundKey a) = 240"

definition key_bits :: "nat \<Rightarrow> bool" where
  "key_bits n \<longleftrightarrow> n = 128 \<or> n = 192 \<or> n = 256"

lemma aes_key_setup_spec:
  assumes "key_bits n" and "length (RoundKey a) = 240" and "n \<le> 8 * length key"
  defines "nk \<equiv> n div 32"
  shows "\<exists>a'. aes_key_setup a key n = Some a' \<and> aes_ready a' \<and> Nr a' = Some (nk + 6) \<and>
    nk \<in> {4, 6, 8} \<and> (\<forall>p < 4 * (nk + 7). \<forall>j < 4. RoundKey a' ! (4 * p + j) = fips_w key nk p j)"
proof -
  have nk: "nk \<in> {4, 6, 8}" "4 * nk \<le> length key" using assms by (auto simp: key_bits_def)
  obtain rk where "KeyExpansion nk (nk + 6) (RoundKey a) key = Some rk" "length rk = 240"
      "\<forall>p < 4 * (nk + 7). \<forall>j < 4. rk ! (4 * p + j) = fips_w key nk p j"
    using KeyExpansion_spec [OF nk(1) assms(2) nk(2)] by blast
  then show ?thesis
    using assms(1) nk by (auto simp: aes_key_setup_def key_bits_def aes_ready_def nk_def)
qed

section \<open>Decryption undoes encryption\<close>

lemma getSBoxInvert_getSBoxValue: "getSBoxInvert (getSBoxValue x) = x"
proof -
  have "unat x < 2 ^ LENGTH(8)" by (rule unsigned_less)
  then have x: "unat x < 256" by simp
  then have "map (\<lambda>x. rsbox ! unat x) sbox ! unat x = of_nat (unat x)"
    unfolding rsbox_sbox by (subst nth_map) simp_all
  moreover have "unat x < length sbox" using x by (simp add: sbox_def)
  ultimately show ?thesis by (simp add: getSBoxInvert_def getSBoxValue_def)
qed

lemma InvSubBytes_SubBytes [simp]: "InvSubBytes (SubBytes s) = s"
  by (simp add: InvSubBytes_def SubBytes_def getSBoxInvert_getSBoxValue comp_def)

lemma step_lengths [simp]:
  "length (SubBytes s) = length s" "length (ShiftRows s) = length s" "length (MixColumns s) = length s"
  "length (aes_transpose s) = 16"
  by (simp_all add: SubBytes_def ShiftRows_def mv_def Let_def MixColumns_def mix_column_def upt_conv_Cons aes_transpose_def)

lemma AddRoundKey_length: "AddRoundKey rk r s = Some t \<Longrightarrow> length t = 16"
  by (auto simp: AddRoundKey_def mem_simps)

lemma AddRoundKey_twice: "AddRoundKey rk r s = Some t \<Longrightarrow> length s = 16 \<Longrightarrow> AddRoundKey rk r t = Some s"
  by (auto simp: AddRoundKey_def mem_simps xor.assoc intro!: nth_equalityI)

lemma AddRoundKey_defined: "length rk = 240 \<Longrightarrow> r \<le> 14 \<Longrightarrow> AddRoundKey rk r s \<noteq> None"
  by (simp add: AddRoundKey_def rd_bytes_def Nb_def)

lemma aes_transpose_twice: "length s = 16 \<Longrightarrow> aes_transpose (aes_transpose s) = s"
  by (elim sixteen) (simp add: aes_transpose_def upt_conv_Cons)

declare encrypt_rounds.simps [simp del]

lemma encrypt_rounds_spec:
  assumes "length rk = 240" and "nr \<le> 14" and "0 < round" and "round \<le> nr" and "length s = 16"
  shows "\<exists>t. encrypt_rounds rk nr round s = Some t \<and> length t = 16 \<and>
    decrypt_rounds rk (nr - 1) (ShiftRows (SubBytes t)) = decrypt_rounds rk (round - 1) (ShiftRows (SubBytes s))"
  using assms(3-5)
proof (induction "nr - round" arbitrary: round s)
  case 0
  then have "round = nr" by simp
  then show ?case using 0 by (simp add: encrypt_rounds.simps [of _ _ nr])
next
  case (Suc n)
  let ?m = "MixColumns (ShiftRows (SubBytes s))"
  obtain s1 where s1: "AddRoundKey rk round ?m = Some s1"
    using AddRoundKey_defined [of rk round ?m] assms(1,2) Suc.prems by auto
  have len: "length s1 = 16" using AddRoundKey_length [OF s1] .
  obtain t where t: "encrypt_rounds rk nr (Suc round) s1 = Some t" "length t = 16"
      "decrypt_rounds rk (nr - 1) (ShiftRows (SubBytes t)) = decrypt_rounds rk round (ShiftRows (SubBytes s1))"
    using Suc.hyps(1) [OF _ _ _ len, of "Suc round"] Suc.hyps(2) Suc.prems by force
  have rl: "round < nr" using Suc.hyps(2) by simp
  obtain r where r: "round = Suc r" using Suc.prems by (cases round) auto
  have "decrypt_rounds rk round (ShiftRows (SubBytes s1)) = decrypt_rounds rk r (ShiftRows (SubBytes s))"
    using AddRoundKey_twice [OF s1] Suc.prems len
    by (simp add: r InvShiftRows_ShiftRows InvMixColumns_MixColumns)
  then have "decrypt_rounds rk (nr - 1) (ShiftRows (SubBytes t)) = decrypt_rounds rk (round - 1) (ShiftRows (SubBytes s))"
    using t(3) r by simp
  moreover have "encrypt_rounds rk nr round s = Some t"
    using t(1) s1 rl by (simp add: encrypt_rounds.simps [of rk nr round s])
  ultimately show ?case using t(2) by blast
qed

lemma aes_decrypt_encrypt:
  assumes "aes_ready a" and "16 \<le> length inp" and "16 \<le> length out"
  shows "\<exists>a' out'. aes_encrypt a inp out = Some (a', out') \<and> out' = take 16 out' @ drop 16 out \<and> length out' = length out \<and>
    Nr a' = Nr a \<and> RoundKey a' = RoundKey a \<and>
    (\<forall>buf. 16 \<le> length buf \<longrightarrow> (\<exists>a''. aes_decrypt a' out' buf = Some (a'', take 16 inp @ drop 16 buf)))"
proof -
  obtain nr where nr: "Nr a = Some nr" "0 < nr" "nr \<le> 14" and rk: "length (RoundKey a) = 240"
    using assms(1) by (auto simp: aes_ready_def)
  let ?rk = "RoundKey a" and ?x = "take 16 inp"
  obtain s0 where s0: "AddRoundKey ?rk 0 (aes_transpose ?x) = Some s0"
    using AddRoundKey_defined [OF rk, of 0] by blast
  obtain s1 where s1: "encrypt_rounds ?rk nr 1 s0 = Some s1" "length s1 = 16"
      "decrypt_rounds ?rk (nr - 1) (ShiftRows (SubBytes s1)) = Some (ShiftRows (SubBytes s0))"
    using encrypt_rounds_spec [OF rk nr(3), of 1 s0] nr(2) AddRoundKey_length [OF s0] by auto
  obtain s2 where s2: "AddRoundKey ?rk nr (ShiftRows (SubBytes s1)) = Some s2"
    using AddRoundKey_defined [OF rk nr(3)] by blast
  have len: "length s0 = 16" "length s2 = 16" using AddRoundKey_length s0 s2 by blast+
  define a' where "a' = a\<lparr>aes_state := s2\<rparr>"
  define out' where "out' = aes_transpose s2 @ drop 16 out"
  have enc: "aes_encrypt a inp out = Some (a', out')"
    using assms s0 s1(1) s2 nr(1) by (simp add: aes_encrypt_def rd_bytes_def memcpy_def a'_def out'_def)
  have "aes_decrypt a' out' buf = Some (a'\<lparr>aes_state := aes_transpose ?x\<rparr>, ?x @ drop 16 buf)" if "16 \<le> length buf" for buf
    using that assms(2) s1 len nr(1) AddRoundKey_twice [OF s0] AddRoundKey_twice [OF s2]
    by (simp add: aes_decrypt_def rd_bytes_def memcpy_def a'_def out'_def aes_transpose_twice InvShiftRows_ShiftRows)
  then show ?thesis
    using enc assms(3) by (auto simp: a'_def out'_def)
qed

section \<open>Encryption is the cipher of FIPS 197\<close>

lemma sub_shift_mat: "mat s f \<Longrightarrow> mat (ShiftRows (SubBytes s)) (fips_sub_shift f)"
proof -
  assume "mat s f"
  then have "mat (SubBytes s) (\<lambda>r c. getSBoxValue (f r c))" by (simp add: mat_iff SubBytes_def)
  from ShiftRows_mat [OF this] show ?thesis by (simp add: fips_sub_shift_def)
qed

lemma add_mat:
  assumes "mat s f" and "length rk = 240" and "round \<le> nk + 6" and "nk \<le> 8"
    and w: "\<forall>p < 4 * (nk + 7). \<forall>j < 4. rk ! (4 * p + j) = w p j"
  shows "\<exists>t. AddRoundKey rk round s = Some t \<and> mat t (fips_add w round f)"
proof -
  define k where "k = take 16 (drop (round * Nb * 4) rk)"
  have def: "AddRoundKey rk round s = Some (map (\<lambda>p. s ! p XOR k ! ((p mod 4) * Nb + p div 4)) [0..<16])"
    using assms(2-4) by (simp add: AddRoundKey_def rd_bytes_def k_def Nb_def)
  have "k ! (4 * c + r) = w (4 * round + c) r" if "r < 4" "c < 4" for r c
  proof -
    have "k ! (4 * c + r) = rk ! (4 * (4 * round + c) + r)"
      using that assms(2-4) by (simp add: k_def Nb_def algebra_simps)
    moreover have "4 * round + c < 4 * (nk + 7)" using that assms(3) by simp
    then have "rk ! (4 * (4 * round + c) + r) = w (4 * round + c) r" using w that by blast
    ultimately show ?thesis by simp
  qed
  then have "mat (map (\<lambda>p. s ! p XOR k ! ((p mod 4) * Nb + p div 4)) [0..<16]) (fips_add w round f)"
    using assms(1) by (auto simp: mat_def fips_add_def Nb_def ac_simps)
  then show ?thesis using def by blast
qed

lemma rounds_mat:
  assumes "length rk = 240" and "nk \<le> 8" and "\<forall>p < 4 * (nk + 7). \<forall>j < 4. rk ! (4 * p + j) = w p j"
    and "round + n = nk + 6" and "mat s f"
  shows "\<exists>t. encrypt_rounds rk (nk + 6) round s = Some t \<and> mat t (fips_rounds w round n f)"
  using assms(4,5)
proof (induction n arbitrary: round s f)
  case 0
  then show ?case by (simp add: encrypt_rounds.simps [of rk "nk + 6" "nk + 6"])
next
  case (Suc n)
  have "mat (MixColumns (ShiftRows (SubBytes s))) (fips_mix (fips_sub_shift f))"
    using MixColumns_mat [OF sub_shift_mat [OF Suc.prems(2)]] by (simp add: fips_mix_def)
  then obtain s1 where s1: "AddRoundKey rk round (MixColumns (ShiftRows (SubBytes s))) = Some s1"
      "mat s1 (fips_add w round (fips_mix (fips_sub_shift f)))"
    using add_mat [OF _ assms(1) _ assms(2,3)] Suc.prems(1) by (metis le_add1)
  then show ?case
    using Suc.IH [of "Suc round" s1] Suc.prems(1) by (simp add: encrypt_rounds.simps [of rk "nk + 6" round])
qed

lemma aes_encrypt_fips:
  assumes "Nr a = Some (nk + 6)" and "length (RoundKey a) = 240" and "nk \<le> 8"
    and w: "\<forall>p < 4 * (nk + 7). \<forall>j < 4. RoundKey a ! (4 * p + j) = fips_w key nk p j"
    and "16 \<le> length inp" and "16 \<le> length out"
  shows "\<exists>a'. aes_encrypt a inp out = Some (a', fips_cipher key nk inp @ drop 16 out)"
proof -
  let ?rk = "RoundKey a" and ?x = "take 16 inp" and ?w = "fips_w key nk"
  have "mat (aes_transpose ?x) (\<lambda>r c. inp ! (4 * c + r))"
    using assms(5) by (simp add: mat_iff aes_transpose_def upt_conv_Cons)
  then obtain s0 where s0: "AddRoundKey ?rk 0 (aes_transpose ?x) = Some s0"
      "mat s0 (fips_add ?w 0 (\<lambda>r c. inp ! (4 * c + r)))"
    using add_mat [OF _ assms(2) _ assms(3) w] by blast
  obtain s1 where s1: "encrypt_rounds ?rk (nk + 6) 1 s0 = Some s1"
      "mat s1 (fips_rounds ?w 1 (nk + 5) (fips_add ?w 0 (\<lambda>r c. inp ! (4 * c + r))))"
    using rounds_mat [OF assms(2,3) w _ s0(2), of 1 "nk + 5"] by auto
  obtain s2 where s2: "AddRoundKey ?rk (nk + 6) (ShiftRows (SubBytes s1)) = Some s2"
      "mat s2 (fips_add ?w (nk + 6) (fips_sub_shift (fips_rounds ?w 1 (nk + 5) (fips_add ?w 0 (\<lambda>r c. inp ! (4 * c + r))))))"
    using add_mat [OF sub_shift_mat [OF s1(2)] assms(2) _ assms(3) w] by blast
  have "nk + 6 - 1 = nk + 5" by simp
  then have "aes_transpose s2 = fips_cipher key nk inp"
    using s2(2) unfolding fips_cipher_def Let_def mat_iff by (simp only:) (simp add: aes_transpose_def upt_conv_Cons)
  moreover have "aes_encrypt a inp out = Some (a\<lparr>aes_state := s2\<rparr>, aes_transpose s2 @ drop 16 out)"
    using assms(1,5,6) s0(1) s1(1) s2(1) by (simp add: aes_encrypt_def rd_bytes_def memcpy_def)
  ultimately show ?thesis by auto
qed

section \<open>Properties\<close>

text \<open>C15: With any key of 128, 192 or 256 bits, decryption gives back the block that encryption was
  given, for every block. Both write their 16 bytes of the output only.\<close>

theorem aes_roundtrip:
  assumes "key_bits n" and "n \<le> 8 * length key" and "length (RoundKey a) = 240"
    and "16 \<le> length inp" and "16 \<le> length out" and "16 \<le> length buf"
  shows "\<exists>a1 a2 a3 out'. aes_key_setup a key n = Some a1 \<and> aes_encrypt a1 inp out = Some (a2, out') \<and>
    drop 16 out' = drop 16 out \<and> aes_decrypt a2 out' buf = Some (a3, take 16 inp @ drop 16 buf)"
proof -
  obtain a1 where a1: "aes_key_setup a key n = Some a1" "aes_ready a1"
    using aes_key_setup_spec [OF assms(1,3,2)] by blast
  obtain a2 out' where a2: "aes_encrypt a1 inp out = Some (a2, out')" "out' = take 16 out' @ drop 16 out"
      "length out' = length out"
      "\<And>buf. 16 \<le> length buf \<Longrightarrow> \<exists>a3. aes_decrypt a2 out' buf = Some (a3, take 16 inp @ drop 16 buf)"
    using aes_decrypt_encrypt [OF a1(2) assms(4,5)] by blast
  have "drop 16 out' = drop 16 out" using a2(3) assms(5) arg_cong [OF a2(2), of "drop 16"] by simp
  then show ?thesis using a1(1) a2(1) a2(4) [OF assms(6)] by blast
qed

theorem aes_roundtrip_witness:
  "\<exists>a1 a2 a3 out'. aes_key_setup \<lparr>Nr = None, Nk = None, aes_state = [], RoundKey = replicate 240 7\<rparr> (replicate 16 1) 128 = Some a1 \<and>
    aes_encrypt a1 (replicate 16 2) (replicate 17 9) = Some (a2, out') \<and> drop 16 out' = [9] \<and>
    aes_decrypt a2 out' (replicate 16 0) = Some (a3, replicate 16 2)"
  using aes_roundtrip [of 128 "replicate 16 1" "\<lparr>Nr = None, Nk = None, aes_state = [], RoundKey = replicate 240 7\<rparr>"
    "replicate 16 2" "replicate 17 9" "replicate 16 0"]
  by (simp add: key_bits_def)

text \<open>C16: AES is the one of FIPS 197: encryption computes its cipher with the key schedule, and the
  S-box maps every byte to the affine image of its inverse in the field with 256 elements.\<close>

theorem aes_encrypt_is_fips:
  assumes "key_bits n" and "n \<le> 8 * length key" and "length (RoundKey a) = 240"
    and "16 \<le> length inp" and "16 \<le> length out"
  shows "(\<exists>a1 a2. aes_key_setup a key n = Some a1 \<and>
      aes_encrypt a1 inp out = Some (a2, fips_cipher key (n div 32) inp @ drop 16 out)) \<and>
    (\<forall>x. \<exists>y. (x = 0 \<and> y = 0 \<or> gf_mul x y = 1) \<and> getSBoxValue x = affine y)"
proof -
  obtain a1 where "aes_key_setup a key n = Some a1" "aes_ready a1" "Nr a1 = Some (n div 32 + 6)" "n div 32 \<in> {4, 6, 8}"
      "\<forall>p < 4 * (n div 32 + 7). \<forall>j < 4. RoundKey a1 ! (4 * p + j) = fips_w key (n div 32) p j"
    using aes_key_setup_spec [OF assms(1,3,2)] by blast
  then show ?thesis
    using aes_encrypt_fips [of a1 "n div 32" key inp out] assms(4,5) sbox_affine by (auto simp: aes_ready_def)
qed

theorem aes_encrypt_is_fips_witness:
  "\<exists>a1 a2. aes_key_setup \<lparr>Nr = None, Nk = None, aes_state = [], RoundKey = replicate 240 7\<rparr> (replicate 32 1) 256 = Some a1 \<and>
    aes_encrypt a1 (replicate 16 2) (replicate 16 9) = Some (a2, fips_cipher (replicate 32 1) 8 (replicate 16 2))"
  using aes_encrypt_is_fips [of 256 "replicate 32 1" "\<lparr>Nr = None, Nk = None, aes_state = [], RoundKey = replicate 240 7\<rparr>"
    "replicate 16 2" "replicate 16 9"]
  by (simp add: key_bits_def)

end
