(* ===== verification/Sha1.thy ===== *)
theory Sha1
  imports Wl_Prelude
begin

text \<open>
  \<^verbatim>\<open>wiselib.testing/algorithms/crypto/sha1.h\<close>: SHA-1 over a message that arrives in pieces,
  the message authentication code and the key derivation made of it. A null pointer is
  \<^const>\<open>None\<close>; the pointer to the context is never null. \<^verbatim>\<open>Message_Block_Index\<close> is a natural
  number: an access beyond 64 is undefined before its 16 bits could wrap.
\<close>

section \<open>The code\<close>

definition shaSuccess :: int where "shaSuccess = 0"
definition shaNull :: int where "shaNull = 1"
definition shaStateError :: int where "shaStateError = 3"

record sha1_context =
  Intermediate_Hash :: "u32 list"
  Length_Low :: u32
  Length_High :: u32
  Message_Block_Index :: nat
  Message_Block :: bytes
  Computed :: bool
  Corrupted :: int

definition SHA1CircularShift :: "nat \<Rightarrow> u32 \<Rightarrow> u32" where
  "SHA1CircularShift bits w = (push_bit bits w AND 0xFFFFFFFF) OR drop_bit (32 - bits) w"

definition SHA1Reset :: "sha1_context \<Rightarrow> sha1_context" where
  "SHA1Reset c = c\<lparr>Length_Low := 0, Length_High := 0, Message_Block_Index := 0,
     Intermediate_Hash := [0x67452301, 0xEFCDAB89, 0x98BADCFE, 0x10325476, 0xC3D2E1F0],
     Computed := False, Corrupted := 0\<rparr>"

definition sha1_init_words :: "bytes \<Rightarrow> u32 list" where
  "sha1_init_words block = map (\<lambda>t. push_bit 24 (ucast (block ! (t * 4))) OR push_bit 16 (ucast (block ! (t * 4 + 1)))
     OR push_bit 8 (ucast (block ! (t * 4 + 2))) OR ucast (block ! (t * 4 + 3))) [0..<16]"

type_synonym sha1_regs = "u32 list \<times> u32 \<times> u32 \<times> u32 \<times> u32 \<times> u32"

text \<open>One round of the four loops, which differ in the function \<open>f\<close> and the constant \<open>k\<close>. From
  the second loop on \<open>t\<close> is greater than 15.\<close>

definition sha1_step :: "(u32 \<Rightarrow> u32 \<Rightarrow> u32 \<Rightarrow> u32) \<Rightarrow> u32 \<Rightarrow> nat \<Rightarrow> sha1_regs \<Rightarrow> sha1_regs" where
  "sha1_step f k t = (\<lambda>(W, wA, wB, wC, wD, wE).
     (let s = t AND 0x0f;
          W = (if 16 \<le> t
               then W[s := SHA1CircularShift 1 (W ! ((s + 13) AND 0x0f) XOR W ! ((s + 8) AND 0x0f) XOR
                      W ! ((s + 2) AND 0x0f) XOR W ! s)]
               else W);
          temp = SHA1CircularShift 5 wA + f wB wC wD + wE + W ! s + k
      in (W, temp, wA, SHA1CircularShift 30 wB, wC, wD)))"

definition sha1_rounds :: "sha1_regs \<Rightarrow> sha1_regs" where
  "sha1_rounds r =
     (let r = fold (sha1_step (\<lambda>wB wC wD. (wB AND wC) OR (NOT wB AND wD)) 0x5A827999) [0..<20] r;
          r = fold (sha1_step (\<lambda>wB wC wD. wB XOR wC XOR wD) 0x6ED9EBA1) [20..<40] r;
          r = fold (sha1_step (\<lambda>wB wC wD. (wB AND wC) OR (wB AND wD) OR (wC AND wD)) 0x8F1BBCDC) [40..<60] r
      in fold (sha1_step (\<lambda>wB wC wD. wB XOR wC XOR wD) 0xCA62C1D6) [60..<80] r)"

definition SHA1ProcessMessageBlock :: "sha1_context \<Rightarrow> sha1_context" where
  "SHA1ProcessMessageBlock c =
     (let H = Intermediate_Hash c;
          (W, wA, wB, wC, wD, wE) =
            sha1_rounds (sha1_init_words (Message_Block c), H ! 0, H ! 1, H ! 2, H ! 3, H ! 4)
      in c\<lparr>Intermediate_Hash := [H ! 0 + wA, H ! 1 + wB, H ! 2 + wC, H ! 3 + wD, H ! 4 + wE],
           Message_Block_Index := 0\<rparr>)"

text \<open>\<^verbatim>\<open>Message_Block[Message_Block_Index++] = v\<close>\<close>

definition sha1_put :: "sha1_context \<Rightarrow> u8 \<Rightarrow> sha1_context option" where
  "sha1_put c v = do { b \<leftarrow> wr (Message_Block c) (Message_Block_Index c) v;
     Some (c\<lparr>Message_Block := b, Message_Block_Index := Message_Block_Index c + 1\<rparr>) }"

text \<open>\<^verbatim>\<open>while(Message_Block_Index < limit)\<close> with the zeros of \<^verbatim>\<open>SHA1PadMessage\<close>.\<close>

function sha1_zeros :: "nat \<Rightarrow> sha1_context \<Rightarrow> sha1_context option" where
  "sha1_zeros limit c =
     (if Message_Block_Index c < limit then do { c \<leftarrow> sha1_put c 0; sha1_zeros limit c } else Some c)"
  by pat_completeness auto
termination
  by (relation "measure (\<lambda>(limit, c). limit - Message_Block_Index c)") (auto simp: sha1_put_def mem_simps)

definition SHA1PadMessage :: "sha1_context \<Rightarrow> sha1_context option" where
  "SHA1PadMessage c = do {
     c \<leftarrow> (if Message_Block_Index c > 55
          then do { c \<leftarrow> sha1_put c 0x80;
                    c \<leftarrow> sha1_zeros 64 c;
                    sha1_zeros 56 (SHA1ProcessMessageBlock c) }
          else do { c \<leftarrow> sha1_put c 0x80; sha1_zeros 56 c });
     b \<leftarrow> memcpy (Message_Block c) 56
       [ucast (drop_bit 24 (Length_High c)), ucast (drop_bit 16 (Length_High c)),
        ucast (drop_bit 8 (Length_High c)), ucast (Length_High c),
        ucast (drop_bit 24 (Length_Low c)), ucast (drop_bit 16 (Length_Low c)),
        ucast (drop_bit 8 (Length_Low c)), ucast (Length_Low c)];
     Some (SHA1ProcessMessageBlock (c\<lparr>Message_Block := b\<rparr>)) }"

definition sha1_hash_bytes :: "u32 list \<Rightarrow> bytes" where
  "sha1_hash_bytes H = map (\<lambda>i. ucast (drop_bit (8 * (3 - i mod 4)) (H ! (i div 4)))) [0..<20]"

definition SHA1Digest :: "sha1_context \<Rightarrow> bytes option \<Rightarrow> (sha1_context \<times> bytes option \<times> int) option" where
  "SHA1Digest c digest =
     (case digest of
        None \<Rightarrow> Some (c, None, shaNull)
      | Some d \<Rightarrow>
          if Corrupted c \<noteq> 0 then Some (c, Some d, Corrupted c)
          else do {
            c \<leftarrow> (if \<not> Computed c
                 then do { c \<leftarrow> SHA1PadMessage c;
                           b \<leftarrow> memcpy (Message_Block c) 0 (replicate 64 0);
                           Some (c\<lparr>Message_Block := b, Length_Low := 0, Length_High := 0, Computed := True\<rparr>) }
                 else Some c);
            d \<leftarrow> memcpy d 0 (sha1_hash_bytes (Intermediate_Hash c));
            Some (c, Some d, 1) })"

text \<open>One round of the loop of \<^verbatim>\<open>SHA1Update\<close>, and the loop.\<close>

definition sha1_input :: "sha1_context \<Rightarrow> u8 \<Rightarrow> sha1_context option" where
  "sha1_input c v = do {
     c \<leftarrow> sha1_put c (v AND 0xFF);
     let c = c\<lparr>Length_Low := Length_Low c + 8\<rparr>;
         c = (if Length_Low c = 0
              then (let c = c\<lparr>Length_High := Length_High c + 1\<rparr>
                    in if Length_High c = 0 then c\<lparr>Corrupted := 1\<rparr> else c)
              else c)
     in Some (if Message_Block_Index c = 64 then SHA1ProcessMessageBlock c else c) }"

fun sha1_inputs :: "sha1_context \<Rightarrow> bytes \<Rightarrow> nat \<Rightarrow> nat \<Rightarrow> sha1_context option" where
  "sha1_inputs c message p 0 = Some c"
| "sha1_inputs c message p (Suc n) =
     (if Corrupted c \<noteq> 0 then Some c
      else do { v \<leftarrow> rd message p; c \<leftarrow> sha1_input c v; sha1_inputs c message (p + 1) n })"

definition SHA1Update :: "sha1_context \<Rightarrow> bytes option \<Rightarrow> nat \<Rightarrow> (sha1_context \<times> int) option" where
  "SHA1Update c message len =
     (if len = 0 then Some (c, shaSuccess)
      else case message of
        None \<Rightarrow> Some (c, shaNull)
      | Some m \<Rightarrow>
          if Computed c then Some (c\<lparr>Corrupted := shaStateError\<rparr>, shaStateError)
          else if Corrupted c \<noteq> 0 then Some (c, Corrupted c)
          else do { c \<leftarrow> sha1_inputs c m 0 len; Some (c, shaSuccess) })"

text \<open>\<^verbatim>\<open>KDF\<close>; \<open>z\<close> is the array of 20 bytes, as \<^verbatim>\<open>KEYDIGITS * NN_DIGIT_LEN\<close> is 16, \<open>ctx\<close> the
  uninitialised context and \<open>dg\<close> the uninitialised array of the digest.\<close>

function kdf_loop :: "sha1_context \<Rightarrow> bytes \<Rightarrow> bytes \<Rightarrow> bytes \<Rightarrow> int \<Rightarrow> nat \<Rightarrow> bytes option" where
  "kdf_loop ctx dg z kp len i =
     (if len > 0 then do {
        z \<leftarrow> wr z 19 (of_nat i);
        (ctx, r) \<leftarrow> SHA1Update (SHA1Reset ctx) (Some z) 20;
        (ctx, d, r) \<leftarrow> SHA1Digest ctx (Some dg);
        dg \<leftarrow> d;
        out \<leftarrow> rd_bytes dg 0 (if len \<ge> 20 then 20 else nat len);
        kp \<leftarrow> memcpy kp ((i - 1) * 20) out;
        kdf_loop ctx dg z kp (len - 20) (i + 1) }
      else Some kp)"
  by pat_completeness auto
termination by (relation "measure (\<lambda>(ctx, dg, z, kp, len, i). nat len)") auto

definition KDF :: "sha1_context \<Rightarrow> bytes \<Rightarrow> bytes \<Rightarrow> bytes \<Rightarrow> int \<Rightarrow> bytes \<Rightarrow> bytes option" where
  "KDF ctx dg z kp k_len zp = do {
     s \<leftarrow> rd_bytes zp 0 16;
     z \<leftarrow> memcpy z 0 s;
     z \<leftarrow> memcpy z 16 (replicate 3 0);
     kdf_loop ctx dg z kp k_len 1 }"

text \<open>\<open>ipad\<close> and \<open>opad\<close> are the uninitialised arrays of 65 bytes.\<close>

definition hmac_pad :: "bytes \<Rightarrow> bytes \<Rightarrow> nat \<Rightarrow> u8 \<Rightarrow> bytes option" where
  "hmac_pad pad key key_len v = do {
     k \<leftarrow> rd_bytes key 0 key_len;
     pad \<leftarrow> memcpy pad 0 k;
     if key_len \<le> 65 then do {
       pad \<leftarrow> memcpy pad key_len (replicate (65 - key_len) 0);
       Some (map (\<lambda>b. b XOR v) (take 64 pad) @ drop 64 pad) }
     else None }"

definition hmac_sha1 :: "sha1_context \<Rightarrow> bytes \<Rightarrow> bytes \<Rightarrow> bytes option \<Rightarrow> nat \<Rightarrow> bytes \<Rightarrow> nat \<Rightarrow> bytes \<Rightarrow> bytes option" where
  "hmac_sha1 ctx ipad opad text text_len key key_len digest = do {
     ipad \<leftarrow> hmac_pad ipad key key_len 0x36;
     opad \<leftarrow> hmac_pad opad key key_len 0x5c;
     (ctx, r) \<leftarrow> SHA1Update (SHA1Reset ctx) (Some ipad) 64;
     (ctx, r) \<leftarrow> SHA1Update ctx text text_len;
     (ctx, d, r) \<leftarrow> SHA1Digest ctx (Some digest);
     (ctx, r) \<leftarrow> SHA1Update (SHA1Reset ctx) (Some opad) 64;
     (ctx, r) \<leftarrow> SHA1Update ctx d 20;
     (ctx, d, r) \<leftarrow> SHA1Digest ctx d;
     d }"

end
