(* ===== verification/Sha1_Correct.thy ===== *)
theory Sha1_Correct
  imports Sha1
begin

text \<open>
  SHA-1 as FIPS 180-4 defines it, on a whole message with a schedule of 80 words, and the proof
  that the code, which takes the message in pieces and keeps 16 words of the schedule in a ring,
  computes it; the message authentication code is the one of RFC 2104.
\<close>

section \<open>SHA-1 of FIPS 180-4\<close>

function sha1_w :: "(nat \<Rightarrow> u32) \<Rightarrow> nat \<Rightarrow> u32" where
  "sha1_w ws t =
     (if t < 16 then ws t
      else word_rotl 1 (sha1_w ws (t - 3) XOR sha1_w ws (t - 8) XOR sha1_w ws (t - 14) XOR sha1_w ws (t - 16)))"
  by pat_completeness auto
termination by (relation "measure snd") auto

declare sha1_w.simps [simp del]

definition sha1_f :: "nat \<Rightarrow> u32 \<Rightarrow> u32 \<Rightarrow> u32 \<Rightarrow> u32" where
  "sha1_f t x y z =
     (if t < 20 then (x AND y) OR (NOT x AND z)
      else if 40 \<le> t \<and> t < 60 then (x AND y) OR (x AND z) OR (y AND z)
      else x XOR y XOR z)"

definition sha1_k :: "nat \<Rightarrow> u32" where
  "sha1_k t = (if t < 20 then 0x5A827999 else if t < 40 then 0x6ED9EBA1 else if t < 60 then 0x8F1BBCDC else 0xCA62C1D6)"

type_synonym sha1_hash = "u32 \<times> u32 \<times> u32 \<times> u32 \<times> u32"

definition sha1_round :: "(nat \<Rightarrow> u32) \<Rightarrow> nat \<Rightarrow> sha1_hash \<Rightarrow> sha1_hash" where
  "sha1_round w t = (\<lambda>(a, b, c, d, e). (word_rotl 5 a + sha1_f t b c d + e + sha1_k t + w t, a, word_rotl 30 b, c, d))"

definition be_word :: "bytes \<Rightarrow> u32" where
  "be_word bs = foldl (\<lambda>acc b. push_bit 8 acc OR ucast b) 0 bs"

definition sha1_compress :: "sha1_hash \<Rightarrow> bytes \<Rightarrow> sha1_hash" where
  "sha1_compress h block =
     (let (a, b, c, d, e) = fold (sha1_round (sha1_w (\<lambda>t. be_word (take 4 (drop (4 * t) block))))) [0..<80] h;
          (a', b', c', d', e') = h
      in (a' + a, b' + b, c' + c, d' + d, e' + e))"

text \<open>Only the complete blocks of a message are hashed.\<close>

function sha1_blocks :: "sha1_hash \<Rightarrow> bytes \<Rightarrow> sha1_hash" where
  "sha1_blocks h m = (if length m < 64 then h else sha1_blocks (sha1_compress h (take 64 m)) (drop 64 m))"
  by pat_completeness auto
termination by (relation "measure (\<lambda>(h, m). length m)") auto

declare sha1_blocks.simps [simp del]

definition sha1_H0 :: sha1_hash where
  "sha1_H0 = (0x67452301, 0xEFCDAB89, 0x98BADCFE, 0x10325476, 0xC3D2E1F0)"

definition be_bytes :: "nat \<Rightarrow> nat \<Rightarrow> bytes" where
  "be_bytes n v = map (\<lambda>i. of_nat (v div 256 ^ (n - 1 - i))) [0..<n]"

definition sha1_pad :: "nat \<Rightarrow> bytes" where
  "sha1_pad len = 0x80 # replicate ((119 - len mod 64) mod 64) 0 @ be_bytes 8 (8 * len)"

definition sha1_digest :: "sha1_hash \<Rightarrow> bytes" where
  "sha1_digest h = (case h of (a, b, c, d, e) \<Rightarrow> concat (map (\<lambda>w. be_bytes 4 (unat w)) [a, b, c, d, e]))"

definition sha1 :: "bytes \<Rightarrow> bytes" where
  "sha1 m = sha1_digest (sha1_blocks sha1_H0 (m @ sha1_pad (length m)))"

section \<open>Words\<close>

lemma SHA1CircularShift_rotl:
  assumes "0 < n" and "n < 32"
  shows "SHA1CircularShift n w = word_rotl n w"
proof (rule bit_word_eqI)
  fix i assume "i < LENGTH(32)"
  then have i: "i < 32" by simp
  have mask: "(0xFFFFFFFF :: u32) = -1" by simp
  have "SHA1CircularShift n w = push_bit n w OR drop_bit (32 - n) w"
    unfolding SHA1CircularShift_def mask by (simp only: and.right_neutral)
  moreover have "(i + (32 - n)) mod 32 = (if i < n then i + (32 - n) else i - n)"
    using assms i by (simp add: mod_if)
  moreover have "\<not> bit w (i + (32 - n))" if "n \<le> i"
    using that assms bit_imp_le_length [of w "i + (32 - n)"] by auto
  moreover have "bit (word_rotl n w) i \<longleftrightarrow> bit w ((i + (32 - n)) mod 32)"
    using assms i by (simp add: bit_word_rotl_iff)
  ultimately show "bit (SHA1CircularShift n w) i = bit (word_rotl n w) i"
    using assms i by (simp add: bit_or_iff bit_push_bit_iff bit_drop_bit_eq add.commute [of "32 - n"])
qed

lemma be_word_4: "be_word [a, b, c, d] = push_bit 24 (ucast a) OR push_bit 16 (ucast b) OR push_bit 8 (ucast c) OR ucast d"
  by (simp add: be_word_def push_bit_or or.assoc)

lemma ucast_drop_bit: "ucast (drop_bit n w) = (of_nat (unat w div 2 ^ n) :: u8)" for w :: u32
proof -
  have "unat (drop_bit n w) = unat w div 2 ^ n" by (simp only: unat_drop_bit_eq) (simp add: drop_bit_eq_div)
  then show ?thesis by (metis of_nat_unat)
qed

section \<open>The ring of 16 words\<close>

definition ring :: "(nat \<Rightarrow> u32) \<Rightarrow> nat \<Rightarrow> u32 list \<Rightarrow> bool" where
  "ring w t W \<longleftrightarrow> length W = 16 \<and> (\<forall>m < max t 16. max t 16 \<le> m + 16 \<longrightarrow> W ! (m mod 16) = w m)"

lemma and_15: "n AND 15 = n mod 16" for n :: nat
  using take_bit_eq_mask [of 4 n] by (simp add: take_bit_eq_mod mask_numeral)

lemma ring_update:
  assumes "ring (sha1_w ws) t W" and "16 \<le> t"
  shows "ring (sha1_w ws) (Suc t) (W[t mod 16 := SHA1CircularShift 1 (W ! ((t mod 16 + 13) mod 16) XOR
    W ! ((t mod 16 + 8) mod 16) XOR W ! ((t mod 16 + 2) mod 16) XOR W ! (t mod 16))])"
proof -
  have old: "W ! (m mod 16) = sha1_w ws m" if "m < t" "t \<le> m + 16" for m
    using assms that by (auto simp: ring_def max_def)
  obtain u where u: "t = u + 16" using assms(2) le_Suc_ex [of 16 t] by auto
  have idx: "(t mod 16 + 13) mod 16 = (t - 3) mod 16" "(t mod 16 + 8) mod 16 = (t - 8) mod 16"
      "(t mod 16 + 2) mod 16 = (t - 14) mod 16" "t mod 16 = (t - 16) mod 16"
    by (simp_all add: u mod_simps add.commute)
  have ago: "W ! ((t mod 16 + 13) mod 16) = sha1_w ws (t - 3)" "W ! ((t mod 16 + 8) mod 16) = sha1_w ws (t - 8)"
      "W ! ((t mod 16 + 2) mod 16) = sha1_w ws (t - 14)"
    unfolding idx(1-3) by (rule old; use assms(2) in simp)+
  have "W ! (t mod 16) = sha1_w ws (t - 16)"
    unfolding idx(4) by (rule old) (use assms(2) in simp_all)
  moreover have "sha1_w ws t = word_rotl 1 (sha1_w ws (t - 3) XOR sha1_w ws (t - 8) XOR sha1_w ws (t - 14) XOR sha1_w ws (t - 16))"
    using assms(2) by (subst sha1_w.simps) simp
  moreover have "SHA1CircularShift 1 x = word_rotl 1 x" for x by (rule SHA1CircularShift_rotl) simp_all
  ultimately have new: "SHA1CircularShift 1 (W ! ((t mod 16 + 13) mod 16) XOR W ! ((t mod 16 + 8) mod 16) XOR
      W ! ((t mod 16 + 2) mod 16) XOR W ! (t mod 16)) = sha1_w ws t"
    by (simp only: ago)
  have "W[t mod 16 := sha1_w ws t] ! (m mod 16) = sha1_w ws m" if "m < Suc t" "Suc t \<le> m + 16" for m
  proof (cases "m = t")
    case True
    then show ?thesis using assms(1) by (simp add: ring_def)
  next
    case False
    then have "\<not> 16 dvd t - m" using that by (auto dest: dvd_imp_le)
    then have "m mod 16 \<noteq> t mod 16" using that mod_eq_dvd_iff_nat [of m t 16] by auto
    then show ?thesis using old [of m] that False by simp
  qed
  then show ?thesis using assms unfolding new by (simp add: ring_def max_def)
qed

text \<open>The state of the code has the registers of the standard and the ring.\<close>

definition sha1_regs_rep :: "(nat \<Rightarrow> u32) \<Rightarrow> nat \<Rightarrow> sha1_regs \<Rightarrow> sha1_hash \<Rightarrow> bool" where
  "sha1_regs_rep w t r h \<longleftrightarrow> (\<exists>W. r = (W, h) \<and> ring w t W)"

lemma sha1_step_rep:
  assumes "sha1_regs_rep (sha1_w ws) t r h" and "sha1_f t = f" and "sha1_k t = k"
  shows "sha1_regs_rep (sha1_w ws) (Suc t) (sha1_step f k t r) (sha1_round (sha1_w ws) t h)"
proof -
  obtain W a b c d e where r: "r = (W, a, b, c, d, e)" "h = (a, b, c, d, e)" and W: "ring (sha1_w ws) t W"
    using assms(1) by (cases h) (auto simp: sha1_regs_rep_def)
  define V where "V = (if 16 \<le> t then W[t mod 16 := SHA1CircularShift 1 (W ! ((t mod 16 + 13) mod 16) XOR
      W ! ((t mod 16 + 8) mod 16) XOR W ! ((t mod 16 + 2) mod 16) XOR W ! (t mod 16))] else W)"
  have V: "ring (sha1_w ws) (Suc t) V"
    using W ring_update [OF W] by (auto simp: V_def ring_def max_def)
  then have "V ! (t mod 16) = sha1_w ws t" by (auto simp: ring_def max_def)
  then have "sha1_step f k t r = (V, sha1_round (sha1_w ws) t h)"
    unfolding sha1_step_def sha1_round_def r case_prod_conv Let_def and_15 V_def [symmetric]
    by (simp add: assms(2,3) SHA1CircularShift_rotl ac_simps)
  then show ?thesis using V by (auto simp: sha1_regs_rep_def)
qed

lemma sha1_loop_rep:
  assumes "sha1_regs_rep (sha1_w ws) i r h" and "i \<le> j" and "\<And>t. i \<le> t \<Longrightarrow> t < j \<Longrightarrow> sha1_f t = f \<and> sha1_k t = k"
  shows "sha1_regs_rep (sha1_w ws) j (fold (sha1_step f k) [i..<j] r) (fold (sha1_round (sha1_w ws)) [i..<j] h)"
  using assms(2,3)
proof (induction rule: dec_induct)
  case base
  then show ?case using assms(1) by simp
next
  case (step n)
  then show ?case using sha1_step_rep by simp
qed

lemma sha1_rounds_rep:
  assumes "sha1_regs_rep (sha1_w ws) 0 r h"
  shows "sha1_regs_rep (sha1_w ws) 80 (sha1_rounds r) (fold (sha1_round (sha1_w ws)) [0..<80] h)"
proof -
  have f: "sha1_f t = (\<lambda>x y z. (x AND y) OR (NOT x AND z))" "sha1_k t = 0x5A827999" if "t < 20" for t
    using that by (auto simp: sha1_f_def [abs_def] sha1_k_def)
  have g: "sha1_f t = (\<lambda>x y z. x XOR y XOR z)" "sha1_k t = 0x6ED9EBA1" if "20 \<le> t" "t < 40" for t
    using that by (auto simp: sha1_f_def [abs_def] sha1_k_def)
  have h: "sha1_f t = (\<lambda>x y z. (x AND y) OR (x AND z) OR (y AND z))" "sha1_k t = 0x8F1BBCDC" if "40 \<le> t" "t < 60" for t
    using that by (auto simp: sha1_f_def [abs_def] sha1_k_def)
  have i: "sha1_f t = (\<lambda>x y z. x XOR y XOR z)" "sha1_k t = 0xCA62C1D6" if "60 \<le> t" for t
    using that by (auto simp: sha1_f_def [abs_def] sha1_k_def)
  have split: "[0..<80] = [0..<20] @ [20..<40] @ [40..<60] @ [60..<80]"
    by (simp add: upt_conv_Cons)
  show ?thesis
    unfolding sha1_rounds_def Let_def split fold_append comp_def
    by (intro sha1_loop_rep assms) (simp_all add: f g h i)
qed

lemma sha1_process_compress:
  assumes "length (Message_Block c) = 64" and "Intermediate_Hash c = [a, b, c', d, e]"
  shows "\<exists>a1 b1 c1 d1 e1. sha1_compress (a, b, c', d, e) (Message_Block c) = (a1, b1, c1, d1, e1) \<and>
    SHA1ProcessMessageBlock c = c\<lparr>Intermediate_Hash := [a1, b1, c1, d1, e1], Message_Block_Index := 0\<rparr>"
proof -
  let ?ws = "\<lambda>t. be_word (take 4 (drop (4 * t) (Message_Block c)))"
  have four: "take 4 (drop (4 * t) xs) = [xs ! (t * 4), xs ! (t * 4 + 1), xs ! (t * 4 + 2), xs ! (t * 4 + 3)]"
    if "t < 16" "length xs = 64" for t and xs :: bytes
    using that by (intro nth_equalityI) (auto simp: less_Suc_eq eval_nat_numeral ac_simps)
  have "sha1_init_words (Message_Block c) ! m = sha1_w ?ws m" if "m < 16" for m
    using that assms(1) by (subst sha1_w.simps) (simp add: sha1_init_words_def four be_word_4)
  then have "ring (sha1_w ?ws) 0 (sha1_init_words (Message_Block c))"
    by (simp add: ring_def) (simp add: sha1_init_words_def)
  then have "sha1_regs_rep (sha1_w ?ws) 0 (sha1_init_words (Message_Block c), a, b, c', d, e) (a, b, c', d, e)"
    by (simp add: sha1_regs_rep_def)
  from sha1_rounds_rep [OF this] obtain W where
    "sha1_rounds (sha1_init_words (Message_Block c), a, b, c', d, e) = (W, fold (sha1_round (sha1_w ?ws)) [0..<80] (a, b, c', d, e))"
    by (auto simp: sha1_regs_rep_def)
  then show ?thesis
    by (simp add: SHA1ProcessMessageBlock_def sha1_compress_def assms(2) Let_def split: prod.split)
qed

section \<open>The message in pieces\<close>

lemma sha1_blocks_append:
  "64 dvd length P \<Longrightarrow> sha1_blocks h (P @ Q) = sha1_blocks (sha1_blocks h P) Q"
proof (induction h P rule: sha1_blocks.induct)
  case (1 h m)
  show ?case
  proof (cases "length m < 64")
    case True
    then have "m = []" using 1(2) by (auto dest: dvd_imp_le)
    then show ?thesis by (simp add: sha1_blocks.simps [of h "[]"])
  next
    case False
    then have "64 dvd length (drop 64 m)" using 1(2) by simp
    then show ?thesis
      using 1(1) [OF False] False by (simp add: sha1_blocks.simps [of h "m @ Q"] sha1_blocks.simps [of h m])
  qed
qed

lemma sha1_blocks_one: "length b = 64 \<Longrightarrow> sha1_blocks h b = sha1_compress h b"
  by (simp add: sha1_blocks.simps [of h b] sha1_blocks.simps [of _ "[]"])

lemma sha1_blocks_snoc:
  "64 dvd length P \<Longrightarrow> length b = 64 \<Longrightarrow> sha1_blocks h (P @ b) = sha1_compress (sha1_blocks h P) b"
  by (simp add: sha1_blocks_append sha1_blocks_one)

definition sha1_hash_rep :: "sha1_context \<Rightarrow> bytes \<Rightarrow> bool" where
  "sha1_hash_rep c P \<longleftrightarrow> length (Message_Block c) = 64 \<and> 64 dvd length P \<and>
     (\<exists>a b c' d e. Intermediate_Hash c = [a, b, c', d, e] \<and> sha1_blocks sha1_H0 P = (a, b, c', d, e))"

lemma sha1_hash_rep_cong:
  "Message_Block c = Message_Block c' \<Longrightarrow> Intermediate_Hash c = Intermediate_Hash c' \<Longrightarrow>
    sha1_hash_rep c P \<longleftrightarrow> sha1_hash_rep c' P"
  by (simp add: sha1_hash_rep_def)

lemma sha1_process_rep:
  assumes "sha1_hash_rep c P"
  obtains H where "SHA1ProcessMessageBlock c = c\<lparr>Intermediate_Hash := H, Message_Block_Index := 0\<rparr>"
    and "sha1_hash_rep (c\<lparr>Intermediate_Hash := H\<rparr>) (P @ Message_Block c)"
proof -
  obtain a b c' d e where h: "Intermediate_Hash c = [a, b, c', d, e]" "sha1_blocks sha1_H0 P = (a, b, c', d, e)"
      and l: "length (Message_Block c) = 64" "64 dvd length P"
    using assms by (auto simp: sha1_hash_rep_def)
  obtain a1 b1 c1 d1 e1 where "sha1_compress (a, b, c', d, e) (Message_Block c) = (a1, b1, c1, d1, e1)"
      "SHA1ProcessMessageBlock c = c\<lparr>Intermediate_Hash := [a1, b1, c1, d1, e1], Message_Block_Index := 0\<rparr>"
    using sha1_process_compress [OF l(1) h(1)] by blast
  then show ?thesis using that l h(2) by (simp add: sha1_hash_rep_def sha1_blocks_snoc)
qed

text \<open>The context stands for the message \<open>M\<close>: its complete blocks \<open>P\<close> are hashed, the rest is in
  the block.\<close>

definition sha1_rep :: "sha1_context \<Rightarrow> bytes \<Rightarrow> bool" where
  "sha1_rep c M \<longleftrightarrow> \<not> Computed c \<and> Corrupted c = 0 \<and> 8 * length M < 2 ^ 64 \<and>
     Length_Low c = of_nat (8 * length M) \<and> Length_High c = of_nat (8 * length M div 2 ^ 32) \<and>
     (\<exists>P R. M = P @ R \<and> sha1_hash_rep c P \<and> length R = Message_Block_Index c \<and> length R < 64 \<and>
       take (length R) (Message_Block c) = R)"

lemma sha1_repI:
  "\<not> Computed c \<Longrightarrow> Corrupted c = 0 \<Longrightarrow> 8 * length M < 2 ^ 64 \<Longrightarrow> Length_Low c = of_nat (8 * length M) \<Longrightarrow>
    Length_High c = of_nat (8 * length M div 2 ^ 32) \<Longrightarrow> M = P @ R \<Longrightarrow> sha1_hash_rep c P \<Longrightarrow>
    length R = Message_Block_Index c \<Longrightarrow> length R < 64 \<Longrightarrow> take (length R) (Message_Block c) = R \<Longrightarrow> sha1_rep c M"
  unfolding sha1_rep_def by blast

lemma SHA1Reset_rep: "length (Message_Block c) = 64 \<Longrightarrow> sha1_rep (SHA1Reset c) []"
  by (simp add: sha1_rep_def SHA1Reset_def sha1_hash_rep_def sha1_H0_def sha1_blocks.simps)

lemma length_words:
  assumes "8 * n + 8 < (2 :: nat) ^ 64"
  shows "(of_nat (8 * n + 8) = (0 :: u32)) \<Longrightarrow> (8 * n + 8) div 2 ^ 32 = Suc (8 * n div 2 ^ 32)"
    and "(of_nat (8 * n + 8) = (0 :: u32)) \<Longrightarrow> of_nat ((8 * n + 8) div 2 ^ 32) \<noteq> (0 :: u32)"
    and "(of_nat (8 * n + 8) \<noteq> (0 :: u32)) \<Longrightarrow> (8 * n + 8) div 2 ^ 32 = 8 * n div 2 ^ 32"
proof -
  have zero: "of_nat k = (0 :: u32) \<longleftrightarrow> 2 ^ 32 dvd k" for k
    using word_of_nat_eq_0_iff [where 'a = 32, of k] by simp
  show "(8 * n + 8) div 2 ^ 32 = Suc (8 * n div 2 ^ 32)" if "of_nat (8 * n + 8) = (0 :: u32)"
    using that zero [of "8 * n + 8"] by auto
  show "of_nat ((8 * n + 8) div 2 ^ 32) \<noteq> (0 :: u32)" if "of_nat (8 * n + 8) = (0 :: u32)"
  proof
    assume "of_nat ((8 * n + 8) div 2 ^ 32) = (0 :: u32)"
    then have dvd: "2 ^ 32 dvd (8 * n + 8) div 2 ^ 32" "2 ^ 32 dvd 8 * n + 8" using that zero by blast+
    obtain k where k: "8 * n + 8 = 2 ^ 32 * k" using dvd(2) by (rule dvdE)
    then have "2 ^ 32 dvd k" using dvd(1) by simp
    moreover have "0 < k" using k by (cases k) simp_all
    ultimately have "2 ^ 32 \<le> k" by (rule dvd_imp_le)
    then show False using k assms by simp
  qed
  show "(8 * n + 8) div 2 ^ 32 = 8 * n div 2 ^ 32" if "of_nat (8 * n + 8) \<noteq> (0 :: u32)"
  proof -
    define q r where "q = (8 * n + 8) div 2 ^ 32" and "r = (8 * n + 8) mod 2 ^ 32"
    have X: "8 * n + 8 = 2 ^ 32 * q + r" by (simp add: q_def r_def)
    have "r \<noteq> 0" using that zero [of "8 * n + 8"] unfolding r_def by (simp add: dvd_eq_mod_eq_0)
    moreover have "8 dvd 2 ^ 32 * q + r" unfolding X [symmetric] by simp
    then have "8 dvd r" by (subst (asm) dvd_add_right_iff) simp_all
    ultimately have "8 \<le> r" by (auto dest: dvd_imp_le)
    moreover have "r < 2 ^ 32" by (simp add: r_def)
    ultimately have "8 * n div 2 ^ 32 = q" using X by (intro div_nat_eqI) simp_all
    then show ?thesis by (simp add: q_def)
  qed
qed

lemma byte_mask: "v AND 0xFF = v" for v :: u8
proof -
  have "(0xFF :: u8) = -1" by simp
  then show ?thesis by (simp only: and.right_neutral)
qed

lemma sha1_input_rep:
  assumes "sha1_rep c M" and "8 * length M + 8 < (2 :: nat) ^ 64"
  shows "\<exists>c'. sha1_input c v = Some c' \<and> sha1_rep c' (M @ [v])"
proof -
  let ?n = "8 * length M" and ?b = "Message_Block c" and ?i = "Message_Block_Index c"
  obtain P R where M: "M = P @ R" and hash: "sha1_hash_rep c P" and R: "length R = ?i" "?i < 64" "take ?i ?b = R"
    using assms(1) by (auto simp: sha1_rep_def)
  have l: "length ?b = 64" using hash by (simp add: sha1_hash_rep_def)
  have rep: "\<not> Computed c" "Corrupted c = 0" "Length_Low c = of_nat ?n" "Length_High c = of_nat (?n div 2 ^ 32)"
    using assms(1) by (simp_all add: sha1_rep_def)
  define b where "b = ?b[?i := v]"
  define lo where "lo = (of_nat (?n + 8) :: u32)"
  define hi where "hi = (of_nat ((?n + 8) div 2 ^ 32) :: u32)"
  define c2 where "c2 = c\<lparr>Message_Block := b, Message_Block_Index := Suc ?i, Length_Low := lo, Length_High := hi\<rparr>"
  note words = length_words [OF assms(2)]
  have low: "Length_Low c + 8 = lo" using rep by (simp add: lo_def)
  have high: "lo = 0 \<Longrightarrow> Length_High c + 1 = hi \<and> hi \<noteq> 0" "lo \<noteq> 0 \<Longrightarrow> Length_High c = hi"
    using words rep unfolding lo_def hi_def by (metis of_nat_Suc add.commute)+
  have input: "sha1_input c v = Some (if Suc ?i = 64 then SHA1ProcessMessageBlock c2 else c2)"
  proof (cases "lo = 0")
    case True
    then show ?thesis
      using R(2) l high(1) [OF True] by (simp add: sha1_input_def sha1_put_def byte_mask b_def [symmetric] c2_def Let_def low)
  next
    case False
    then have "c2 = c\<lparr>Message_Block := b, Message_Block_Index := Suc ?i, Length_Low := lo\<rparr>"
      using high(2) by (cases c) (simp add: c2_def)
    then show ?thesis
      using R(2) l False by (simp add: sha1_input_def sha1_put_def byte_mask b_def [symmetric] Let_def low)
  qed
  have b: "take (Suc ?i) b = R @ [v]" "length b = 64" using R l by (simp_all add: b_def take_Suc_conv_app_nth)
  have hash2: "sha1_hash_rep c2 P" using hash b by (simp add: sha1_hash_rep_def c2_def)
  show ?thesis
  proof (cases "Suc ?i = 64")
    case False
    then have "sha1_rep c2 (M @ [v])"
      using rep assms(2) hash2 b R M
      by (intro sha1_repI [of _ _ P "R @ [v]"]) (simp_all add: c2_def lo_def hi_def add.commute)
    then show ?thesis using input False by simp
  next
    case True
    obtain H where H: "SHA1ProcessMessageBlock c2 = c2\<lparr>Intermediate_Hash := H, Message_Block_Index := 0\<rparr>"
        "sha1_hash_rep (c2\<lparr>Intermediate_Hash := H\<rparr>) (P @ Message_Block c2)"
      using sha1_process_rep [OF hash2] by blast
    have "Message_Block c2 = R @ [v]" using b True by (simp add: c2_def)
    moreover have "64 dvd length P" using hash by (simp add: sha1_hash_rep_def)
    ultimately have "sha1_hash_rep (c2\<lparr>Intermediate_Hash := H, Message_Block_Index := 0\<rparr>) (M @ [v])"
      using H(2) M by (simp add: sha1_hash_rep_def)
    then have "sha1_rep (c2\<lparr>Intermediate_Hash := H, Message_Block_Index := 0\<rparr>) (M @ [v])"
      using rep assms(2)
      by (intro sha1_repI [of _ _ "M @ [v]" "[]"]) (simp_all add: c2_def lo_def hi_def add.commute)
    then show ?thesis using input True H(1) by simp
  qed
qed

lemma sha1_inputs_rep:
  assumes "sha1_rep c M" and "p + n \<le> length message" and "8 * (length M + n) < (2 :: nat) ^ 64"
  shows "\<exists>c'. sha1_inputs c message p n = Some c' \<and> sha1_rep c' (M @ take n (drop p message))"
  using assms
proof (induction n arbitrary: c M p)
  case (Suc n)
  obtain c1 where c1: "sha1_input c (message ! p) = Some c1" "sha1_rep c1 (M @ [message ! p])"
    using sha1_input_rep [OF Suc.prems(1), of "message ! p"] Suc.prems(3) by auto
  have "take (Suc n) (drop p message) = message ! p # take n (drop (Suc p) message)"
    using Suc.prems(2) by (simp add: Cons_nth_drop_Suc [symmetric])
  moreover have "Corrupted c = 0" using Suc.prems(1) by (simp add: sha1_rep_def)
  ultimately show ?case
    using Suc.IH [OF c1(2), of "Suc p"] Suc.prems c1(1) by simp
qed simp

lemma SHA1Update_rep:
  assumes "sha1_rep c M" and "n \<le> length message" and "8 * (length M + n) < (2 :: nat) ^ 64"
  shows "\<exists>c'. SHA1Update c (Some message) n = Some (c', shaSuccess) \<and> sha1_rep c' (M @ take n message)"
proof -
  obtain c' where "sha1_inputs c message 0 n = Some c'" "sha1_rep c' (M @ take n message)"
    using sha1_inputs_rep [OF assms(1), of 0 n message] assms(2,3) by auto
  moreover have "\<not> Computed c" "Corrupted c = 0" using assms(1) by (simp_all add: sha1_rep_def)
  ultimately show ?thesis by (cases "n = 0") (auto simp: SHA1Update_def)
qed

section \<open>Padding and digest\<close>

declare sha1_zeros.simps [simp del]

lemma sha1_zeros_spec:
  assumes "Message_Block_Index c \<le> limit" and "limit \<le> length (Message_Block c)"
  shows "sha1_zeros limit c = Some (c\<lparr>Message_Block :=
      take (Message_Block_Index c) (Message_Block c) @ replicate (limit - Message_Block_Index c) 0 @ drop limit (Message_Block c),
    Message_Block_Index := limit\<rparr>)"
  using assms
proof (induction "limit - Message_Block_Index c" arbitrary: c)
  case 0
  then have "Message_Block_Index c = limit" by simp
  moreover have "c = c\<lparr>Message_Block_Index := limit\<rparr>" using calculation by (cases c) simp
  ultimately show ?case by (subst sha1_zeros.simps) simp
next
  case (Suc n)
  let ?i = "Message_Block_Index c" and ?b = "Message_Block c"
  define c1 where "c1 = c\<lparr>Message_Block := ?b[?i := 0], Message_Block_Index := Suc ?i\<rparr>"
  have i: "?i < limit" using Suc.hyps(2) by simp
  have "sha1_zeros limit c = sha1_zeros limit c1"
    using i Suc.prems by (subst sha1_zeros.simps) (simp add: sha1_put_def c1_def)
  also have "\<dots> = Some (c1\<lparr>Message_Block :=
      take (Suc ?i) (?b[?i := 0]) @ replicate (limit - Suc ?i) 0 @ drop limit (?b[?i := 0]), Message_Block_Index := limit\<rparr>)"
    using Suc.hyps(1) [of c1] Suc.hyps(2) Suc.prems i by (simp add: c1_def)
  also have "take (Suc ?i) (?b[?i := 0]) @ replicate (limit - Suc ?i) 0 @ drop limit (?b[?i := 0]) =
      take ?i ?b @ replicate (limit - ?i) 0 @ drop limit ?b"
    using i Suc.prems by (simp add: take_Suc_conv_app_nth replicate_Suc [symmetric] Suc_diff_Suc)
  finally show ?case by (simp add: c1_def)
qed

lemma of_nat_mod_256: "of_nat (x mod 256) = (of_nat x :: u8)"
  by (simp add: word_of_nat_eq_iff take_bit_eq_mod)

lemma length_bytes:
  assumes "n < (2 :: nat) ^ 64"
  shows "[ucast (drop_bit 24 (of_nat (n div 2 ^ 32) :: u32)), ucast (drop_bit 16 (of_nat (n div 2 ^ 32) :: u32)),
     ucast (drop_bit 8 (of_nat (n div 2 ^ 32) :: u32)), ucast (of_nat (n div 2 ^ 32) :: u32),
     ucast (drop_bit 24 (of_nat n :: u32)), ucast (drop_bit 16 (of_nat n :: u32)),
     ucast (drop_bit 8 (of_nat n :: u32)), ucast (of_nat n :: u32)] = be_bytes 8 n"
proof -
  have hi: "unat (of_nat (n div 2 ^ 32) :: u32) = n div 2 ^ 32"
  proof -
    have "n div 2 ^ 32 < 2 ^ 32" using assms by (intro less_mult_imp_div_less) simp
    then show ?thesis by (simp add: unat_of_nat)
  qed
  have lo: "unat (of_nat n :: u32) = n mod 2 ^ 32" by (simp add: unat_of_nat)
  have low: "of_nat (n mod 2 ^ 32 div 2 ^ k) = (of_nat (n div 2 ^ k) :: u8)" if "k \<le> 24" for k
  proof -
    have "n mod 2 ^ (k + (32 - k)) = 2 ^ k * (n div 2 ^ k mod 2 ^ (32 - k)) + n mod 2 ^ k"
      unfolding power_add by (rule mod_mult2_eq)
    then have "n mod 2 ^ 32 div 2 ^ k = n div 2 ^ k mod 2 ^ (32 - k)" using that by simp
    moreover have "n div 2 ^ k mod 2 ^ (32 - k) mod 256 = n div 2 ^ k mod 256"
      using that by (intro mod_mod_cancel) (simp add: le_imp_power_dvd [of 8 "32 - k" 2, simplified])
    ultimately show ?thesis by (metis of_nat_mod_256)
  qed
  have h: "ucast (drop_bit k (of_nat (n div 2 ^ 32) :: u32)) = (of_nat (n div 2 ^ (32 + k)) :: u8)" for k
    unfolding ucast_drop_bit hi by (simp only: power_add div_mult2_eq)
  have l: "ucast (drop_bit k (of_nat n :: u32)) = (of_nat (n div 2 ^ k) :: u8)" if "k \<le> 24" for k
    using low [OF that] unfolding ucast_drop_bit lo .
  show ?thesis
    using h [of 24] h [of 16] h [of 8] h [of 0] l [of 24] l [of 16] l [of 8] l [of 0]
    by (simp add: be_bytes_def upt_conv_Cons)
qed

lemma be_bytes_length [simp]: "length (be_bytes n v) = n"
  by (simp add: be_bytes_def)

lemma SHA1PadMessage_rep:
  assumes "sha1_rep c M"
  shows "\<exists>c'. SHA1PadMessage c = Some c' \<and> sha1_hash_rep c' (M @ sha1_pad (length M)) \<and> Corrupted c' = 0"
proof -
  let ?n = "8 * length M" and ?b = "Message_Block c" and ?i = "Message_Block_Index c"
  obtain P R where M: "M = P @ R" and hash: "sha1_hash_rep c P" and R: "length R = ?i" "?i < 64" "take ?i ?b = R"
    using assms by (auto simp: sha1_rep_def)
  have rep: "Corrupted c = 0" "?n < 2 ^ 64" "Length_Low c = of_nat ?n" "Length_High c = of_nat (?n div 2 ^ 32)"
    using assms by (simp_all add: sha1_rep_def del: of_nat_mult)
  have l: "length ?b = 64" "64 dvd length P" using hash by (simp_all add: sha1_hash_rep_def)
  have i: "length M mod 64 = ?i" using M R l(2) by (auto elim!: dvdE)
  define c1 where "c1 = c\<lparr>Message_Block := ?b[?i := 0x80], Message_Block_Index := Suc ?i\<rparr>"
  have c1: "sha1_put c 0x80 = Some c1" using R l by (simp add: sha1_put_def c1_def)
  have b1: "take (Suc ?i) (Message_Block c1) = R @ [0x80]" "length (Message_Block c1) = 64"
    using R l by (simp_all add: c1_def take_Suc_conv_app_nth)
  have len: "[ucast (drop_bit 24 (Length_High c)), ucast (drop_bit 16 (Length_High c)),
      ucast (drop_bit 8 (Length_High c)), ucast (Length_High c),
      ucast (drop_bit 24 (Length_Low c)), ucast (drop_bit 16 (Length_Low c)),
      ucast (drop_bit 8 (Length_Low c)), ucast (Length_Low c)] = be_bytes 8 ?n"
    using length_bytes [OF rep(2)] unfolding rep(3,4) .
  text \<open>The second half: zeros up to 56, the length, and the last block.\<close>
  have last: "\<exists>c'. do { c \<leftarrow> sha1_zeros 56 d;
        b \<leftarrow> memcpy (Message_Block c) 56
         [ucast (drop_bit 24 (Length_High c)), ucast (drop_bit 16 (Length_High c)),
          ucast (drop_bit 8 (Length_High c)), ucast (Length_High c),
          ucast (drop_bit 24 (Length_Low c)), ucast (drop_bit 16 (Length_Low c)),
          ucast (drop_bit 8 (Length_Low c)), ucast (Length_Low c)];
        Some (SHA1ProcessMessageBlock (c\<lparr>Message_Block := b\<rparr>)) } = Some c' \<and>
      sha1_hash_rep c' (Q @ S @ replicate (56 - length S) 0 @ be_bytes 8 ?n) \<and> Corrupted c' = Corrupted d"
    if d: "sha1_hash_rep d Q" "length S = Message_Block_Index d" "length S \<le> 56" "take (length S) (Message_Block d) = S"
      "Length_High d = Length_High c" "Length_Low d = Length_Low c" for d Q S
  proof -
    have ld: "length (Message_Block d) = 64" "64 dvd length Q" using d(1) by (simp_all add: sha1_hash_rep_def)
    define B where "B = S @ replicate (56 - length S) 0 @ be_bytes 8 ?n"
    have "take 56 (S @ replicate (56 - length S) 0 @ drop 56 (Message_Block d)) @ be_bytes 8 ?n = B"
      using d(3) by (simp add: B_def)
    then have "memcpy (S @ replicate (56 - length S) 0 @ drop 56 (Message_Block d)) 56 (be_bytes 8 ?n) = Some B"
      using d(3) ld by (simp add: memcpy_def)
    moreover have "sha1_hash_rep (d\<lparr>Message_Block_Index := 56, Message_Block := B\<rparr>) Q"
      using d(1,3) by (simp add: sha1_hash_rep_def B_def)
    then obtain H where "SHA1ProcessMessageBlock (d\<lparr>Message_Block_Index := 56, Message_Block := B\<rparr>) =
        d\<lparr>Message_Block := B, Intermediate_Hash := H, Message_Block_Index := 0\<rparr>"
      "sha1_hash_rep (d\<lparr>Message_Block_Index := 56, Message_Block := B, Intermediate_Hash := H\<rparr>) (Q @ B)"
      by (rule sha1_process_rep) simp
    ultimately show ?thesis
      using d(2-) sha1_zeros_spec [of d 56] ld len
      by (simp add: B_def [unfolded d(2), symmetric] sha1_hash_rep_def)
  qed
  show ?thesis
  proof (cases "?i > 55")
    case False
    have "sha1_hash_rep c1 P" using hash b1 by (simp add: sha1_hash_rep_def c1_def)
    from last [OF this, of "R @ [0x80]"] obtain c' where "SHA1PadMessage c = Some c'" "Corrupted c' = 0"
        "sha1_hash_rep c' (P @ (R @ [0x80]) @ replicate (56 - length (R @ [0x80])) 0 @ be_bytes 8 ?n)"
      using False R b1 c1 rep by (auto simp: SHA1PadMessage_def c1_def)
    moreover have "(119 - ?i) mod 64 = 56 - length (R @ [0x80])" using False R by (simp add: mod_if)
    ultimately show ?thesis using M i by (simp add: sha1_pad_def)
  next
    case True
    define B where "B = R @ 0x80 # replicate (63 - ?i) 0"
    have "sha1_zeros 64 c1 = Some (c1\<lparr>Message_Block := B, Message_Block_Index := 64\<rparr>)"
      using sha1_zeros_spec [of c1 64] b1 R by (simp add: c1_def B_def)
    moreover have "sha1_hash_rep (c1\<lparr>Message_Block := B, Message_Block_Index := 64\<rparr>) P"
      using hash R by (simp add: sha1_hash_rep_def c1_def B_def)
    then obtain H where H: "SHA1ProcessMessageBlock (c1\<lparr>Message_Block := B, Message_Block_Index := 64\<rparr>) =
        c1\<lparr>Message_Block := B, Intermediate_Hash := H, Message_Block_Index := 0\<rparr>"
        "sha1_hash_rep (c1\<lparr>Message_Block := B, Message_Block_Index := 64, Intermediate_Hash := H\<rparr>) (P @ B)"
      by (rule sha1_process_rep) simp
    have "sha1_hash_rep (c1\<lparr>Message_Block := B, Intermediate_Hash := H, Message_Block_Index := 0\<rparr>) (P @ B)"
      using H(2) l(2) by (simp add: sha1_hash_rep_def)
    from last [OF this, of "[]"] obtain c' where c': "SHA1PadMessage c = Some c'" "Corrupted c' = 0"
        "sha1_hash_rep c' ((P @ B) @ [] @ replicate 56 0 @ be_bytes 8 ?n)"
      using True c1 rep calculation H(1) by (auto simp: SHA1PadMessage_def c1_def)
    have "(119 - ?i) mod 64 = (63 - ?i) + 56" using True R by (simp add: mod_if)
    then have "replicate ((119 - ?i) mod 64) (0 :: u8) = replicate (63 - ?i) 0 @ replicate 56 0"
      by (simp only: replicate_add)
    then show ?thesis using c' M i by (simp add: sha1_pad_def B_def)
  qed
qed

lemma sha1_hash_bytes_digest: "sha1_hash_bytes [a, b, c, d, e] = sha1_digest (a, b, c, d, e)"
proof -
  have "ucast w = (of_nat (unat w) :: u8)" for w :: u32 by simp
  then show ?thesis
    by (simp add: sha1_hash_bytes_def sha1_digest_def be_bytes_def upt_conv_Cons ucast_drop_bit)
qed

lemma sha1_digest_length: "length (sha1 m) = 20"
  by (simp add: sha1_def sha1_digest_def split: prod.split)

text \<open>After the digest the context only gives the digest again.\<close>

definition sha1_done :: "sha1_context \<Rightarrow> bytes \<Rightarrow> bool" where
  "sha1_done c h \<longleftrightarrow> Computed c \<and> Corrupted c = 0 \<and> sha1_hash_bytes (Intermediate_Hash c) = h \<and>
     length (Message_Block c) = 64"

lemma SHA1Digest_done:
  assumes "sha1_done c h" and "20 \<le> length d"
  shows "SHA1Digest c (Some d) = Some (c, Some (h @ drop 20 d), 1)"
  using assms by (auto simp: SHA1Digest_def sha1_done_def memcpy_def sha1_hash_bytes_def)

lemma SHA1Digest_rep:
  assumes "sha1_rep c M" and "20 \<le> length d"
  shows "\<exists>c'. SHA1Digest c (Some d) = Some (c', Some (sha1 M @ drop 20 d), 1) \<and> sha1_done c' (sha1 M)"
proof -
  obtain c1 where c1: "SHA1PadMessage c = Some c1" "sha1_hash_rep c1 (M @ sha1_pad (length M))" "Corrupted c1 = 0"
    using SHA1PadMessage_rep [OF assms(1)] by blast
  define c2 where "c2 = c1\<lparr>Message_Block := replicate 64 0, Length_Low := 0, Length_High := 0, Computed := True\<rparr>"
  have "sha1_hash_bytes (Intermediate_Hash c1) = sha1 M"
    using c1(2) sha1_hash_bytes_digest by (auto simp: sha1_hash_rep_def sha1_def)
  then have dn: "sha1_done c2 (sha1 M)" using c1(3) by (simp add: sha1_done_def c2_def)
  have "\<not> Computed c" "Corrupted c = 0" using assms(1) by (simp_all add: sha1_rep_def)
  moreover have "length (Message_Block c1) = 64" using c1(2) by (simp add: sha1_hash_rep_def)
  then have "memcpy (Message_Block c1) 0 (replicate 64 0) = Some (replicate 64 0)" by (simp only: memcpy_def) simp
  ultimately have "SHA1Digest c (Some d) = do { d \<leftarrow> memcpy d 0 (sha1_hash_bytes (Intermediate_Hash c2)); Some (c2, Some d, 1) }"
    using c1(1) by (simp add: SHA1Digest_def c2_def)
  moreover have "sha1_hash_bytes (Intermediate_Hash c2) = sha1 M" using dn by (simp add: sha1_done_def)
  ultimately show ?thesis
    using dn assms(2) by (simp add: memcpy_def sha1_digest_length)
qed

section \<open>The message authentication code of RFC 2104\<close>

definition xor_pad :: "bytes \<Rightarrow> u8 \<Rightarrow> bytes" where
  "xor_pad key v = map (\<lambda>b. b XOR v) (key @ replicate (64 - length key) 0)"

definition hmac :: "bytes \<Rightarrow> bytes \<Rightarrow> bytes" where
  "hmac key text = sha1 (xor_pad key 0x5c @ sha1 (xor_pad key 0x36 @ text))"

lemma hmac_pad_spec:
  assumes "length pad = 65" and "n \<le> length key" and "n \<le> 65"
  shows "\<exists>p. hmac_pad pad key n v = Some p \<and> take 64 p = xor_pad (take 64 (take n key)) v \<and> length p = 65"
proof -
  define z where "z = take n key @ replicate (65 - n) 0"
  have "take 64 z = take 64 (take n key) @ replicate (64 - length (take 64 (take n key))) 0"
    using assms by (simp add: z_def min_def)
  then show ?thesis
    using assms by (auto simp: hmac_pad_def rd_bytes_def memcpy_def xor_pad_def z_def)
qed

section \<open>The key derivation\<close>

text \<open>The \<open>j\<close>th block of the derived key is the hash of the shared secret and a counter of 32 bits,
  of which the code sets the last byte only.\<close>

definition kdf_block :: "bytes \<Rightarrow> nat \<Rightarrow> bytes" where
  "kdf_block secret j = sha1 (secret @ [0, 0, 0, of_nat j])"

declare kdf_loop.simps [simp del]

lemma SHA1_once:
  assumes "length (Message_Block ctx) = 64" and "n \<le> length m" and "20 \<le> length dg" and "n < 2 ^ 32"
  obtains c c' where "SHA1Update (SHA1Reset ctx) (Some m) n = Some (c, shaSuccess)"
    and "SHA1Digest c (Some dg) = Some (c', Some (sha1 (take n m) @ drop 20 dg), 1)" and "length (Message_Block c') = 64"
proof -
  obtain c where c: "SHA1Update (SHA1Reset ctx) (Some m) n = Some (c, shaSuccess)" "sha1_rep c (take n m)"
    using SHA1Update_rep [OF SHA1Reset_rep [OF assms(1)] assms(2)] assms(4) by auto
  then show ?thesis using SHA1Digest_rep [OF c(2) assms(3)] that by (auto simp: sha1_done_def)
qed

lemma kdf_loop_spec:
  assumes "length (Message_Block ctx) = 64" and "20 \<le> length dg" and "length z = 20" and "take 19 z = secret @ [0, 0, 0]"
    and "(i - 1) * 20 + n \<le> length kp" and "0 < i"
  shows "kdf_loop ctx dg z kp (int n) i = Some (take ((i - 1) * 20) kp @
    take n (concat (map (kdf_block secret) [i..<i + (n + 19) div 20])) @ drop ((i - 1) * 20 + n) kp)"
  using assms
proof (induction n arbitrary: ctx dg z kp i rule: less_induct)
  case (less n)
  show ?case
  proof (cases "n = 0")
    case True
    then show ?thesis by (simp add: kdf_loop.simps)
  next
    case False
    have "length secret = 16" using arg_cong [OF less.prems(4), of length] less.prems(3) by simp
    moreover define z' where "z' = z[19 := of_nat i]"
    moreover have "z' = take 19 z @ [of_nat i]" using less.prems(3) by (simp add: z'_def upd_conv_take_nth_drop)
    ultimately have z': "take 20 z' = secret @ [0, 0, 0, of_nat i]" "length z' = 20" "take 19 z' = secret @ [0, 0, 0]"
      using less.prems(3,4) by simp_all
    obtain c c' where c: "SHA1Update (SHA1Reset ctx) (Some z') 20 = Some (c, shaSuccess)"
        "SHA1Digest c (Some dg) = Some (c', Some (kdf_block secret i @ drop 20 dg), 1)" "length (Message_Block c') = 64"
      using SHA1_once [OF less.prems(1), of 20 z' dg] z' less.prems(2) by (auto simp: kdf_block_def)
    have len: "length (kdf_block secret i) = 20" by (simp add: kdf_block_def sha1_digest_length)
    have idx: "[i..<i + (n + 19) div 20] = i # [Suc i..<i + (n + 19) div 20]" using False by (simp add: upt_conv_Cons)
    define k where "k = min n 20"
    define kp' where "kp' = take ((i - 1) * 20) kp @ take k (kdf_block secret i) @ drop ((i - 1) * 20 + k) kp"
    have step: "kdf_loop ctx dg z kp (int n) i = kdf_loop c' (kdf_block secret i @ drop 20 dg) z' kp' (int n - 20) (i + 1)"
      using False c less.prems len
      by (subst kdf_loop.simps) (auto simp: z'_def [symmetric] rd_bytes_def memcpy_def k_def kp'_def min_def)
    show ?thesis
    proof (cases "n \<le> 20")
      case True
      then have "(n + 19) div 20 = 1" using False by (intro div_nat_eqI) simp_all
      then show ?thesis
        using True step idx len by (subst step, subst kdf_loop.simps) (simp add: kp'_def k_def)
    next
      case big: False
      have "length kp' = length kp" using less.prems(5,6) big len by (simp add: kp'_def k_def)
      moreover have "i * 20 = (i - 1) * 20 + 20" using less.prems(6) by (cases i) simp_all
      ultimately have "kdf_loop c' (kdf_block secret i @ drop 20 dg) z' kp' (int (n - 20)) (i + 1) =
          Some (take (i * 20) kp' @ take (n - 20) (concat (map (kdf_block secret) [Suc i..<Suc i + (n - 20 + 19) div 20])) @
            drop (i * 20 + (n - 20)) kp')"
        using less.IH [of "n - 20" c' "kdf_block secret i @ drop 20 dg" z' "i + 1" kp'] big less.prems len z' c(3) by simp
      moreover have "take (i * 20) kp' = take ((i - 1) * 20) kp @ kdf_block secret i"
        using \<open>i * 20 = _\<close> len big less.prems(5) by (simp add: kp'_def k_def)
      moreover have "drop (i * 20 + (n - 20)) kp' = drop ((i - 1) * 20 + n) kp"
        using \<open>i * 20 = _\<close> len big less.prems(5) by (simp add: kp'_def k_def add.commute)
      moreover have "(n + 19) div 20 = Suc ((n - 20 + 19) div 20)"
      proof -
        have "n + 19 = (n - 20 + 19) + 20" using big by simp
        then show ?thesis by (metis add_Suc_right add.right_neutral div_add_self2 numeral_neq_zero Suc_eq_plus1)
      qed
      ultimately show ?thesis
        using step idx len big by (simp add: int_ops(6) kdf_block_def [symmetric])
    qed
  qed
qed

lemma KDF_spec:
  assumes "length (Message_Block ctx) = 64" and "20 \<le> length dg" and "length z = 20" and "16 \<le> length zp"
    and "n \<le> length kp"
  shows "KDF ctx dg z kp (int n) zp =
    Some (take n (concat (map (kdf_block (take 16 zp)) [1..<1 + (n + 19) div 20])) @ drop n kp)"
proof -
  define z2 where "z2 = take 16 zp @ [0, 0, 0] @ drop 19 z"
  have "memcpy (take 16 zp @ drop 16 z) 16 (replicate 3 0) = Some z2"
    using assms(3,4) by (simp add: memcpy_def z2_def eval_nat_numeral)
  moreover have "memcpy z 0 (take 16 zp) = Some (take 16 zp @ drop 16 z)" using assms(3,4) by (simp add: memcpy_def)
  ultimately have "KDF ctx dg z kp (int n) zp = kdf_loop ctx dg z2 kp (int n) 1"
    using assms(4) by (simp add: KDF_def rd_bytes_def)
  also have "\<dots> = Some (take n (concat (map (kdf_block (take 16 zp)) [1..<1 + (n + 19) div 20])) @ drop n kp)"
    using kdf_loop_spec [OF assms(1,2), of z2 "take 16 zp" 1 n kp] assms(3-5) by (simp add: z2_def)
  finally show ?thesis .
qed

section \<open>Properties\<close>

text \<open>A message given in pieces.\<close>

fun sha1_feed :: "sha1_context \<Rightarrow> bytes list \<Rightarrow> sha1_context option" where
  "sha1_feed c [] = Some c"
| "sha1_feed c (m # ms) = do { (c, r) \<leftarrow> SHA1Update c (Some m) (length m); sha1_feed c ms }"

lemma sha1_feed_rep:
  "sha1_rep c M \<Longrightarrow> 8 * (length M + length (concat ms)) < (2 :: nat) ^ 64 \<Longrightarrow>
    \<exists>c'. sha1_feed c ms = Some c' \<and> sha1_rep c' (M @ concat ms)"
proof (induction ms arbitrary: c M)
  case (Cons m ms)
  obtain c1 where "SHA1Update c (Some m) (length m) = Some (c1, shaSuccess)" "sha1_rep c1 (M @ m)"
    using SHA1Update_rep [OF Cons.prems(1), of "length m" m] Cons.prems(2) by auto
  then show ?case using Cons.IH [of c1 "M @ m"] Cons.prems(2) by auto
qed simp

text \<open>C17: However a message of less than 2^64 bits is cut into pieces, the digest is SHA-1 of FIPS
  180-4 of the whole message; asking again gives the same digest, and a further piece is refused.\<close>

theorem sha1_streaming:
  assumes "length (Message_Block c) = 64" and "8 * length (concat ms) < 2 ^ 64" and "\<forall>m \<in> set ms. length m < 2 ^ 32"
    and "20 \<le> length d" and "20 \<le> length d'" and "0 < n"
  shows "\<exists>c1 c2. sha1_feed (SHA1Reset c) ms = Some c1 \<and>
    SHA1Digest c1 (Some d) = Some (c2, Some (sha1 (concat ms) @ drop 20 d), 1) \<and>
    SHA1Digest c2 (Some d') = Some (c2, Some (sha1 (concat ms) @ drop 20 d'), 1) \<and>
    SHA1Update c2 (Some m) n = Some (c2\<lparr>Corrupted := shaStateError\<rparr>, shaStateError)"
proof -
  obtain c1 where c1: "sha1_feed (SHA1Reset c) ms = Some c1" "sha1_rep c1 (concat ms)"
    using sha1_feed_rep [OF SHA1Reset_rep [OF assms(1)], of ms] assms(2) by auto
  obtain c2 where "SHA1Digest c1 (Some d) = Some (c2, Some (sha1 (concat ms) @ drop 20 d), 1)"
      and c2: "sha1_done c2 (sha1 (concat ms))"
    using SHA1Digest_rep [OF c1(2) assms(4)] by blast
  moreover have "SHA1Update c2 (Some m) n = Some (c2\<lparr>Corrupted := shaStateError\<rparr>, shaStateError)"
    using c2 assms(6) by (simp add: SHA1Update_def sha1_done_def)
  ultimately show ?thesis using c1(1) SHA1Digest_done [OF c2 assms(5)] by blast
qed

theorem sha1_streaming_witness:
  "\<exists>c1 c2. sha1_feed (SHA1Reset \<lparr>Intermediate_Hash = [], Length_Low = 9, Length_High = 9, Message_Block_Index = 9,
      Message_Block = replicate 64 9, Computed = True, Corrupted = 9\<rparr>) [[0x61], [], [0x62, 0x63]] = Some c1 \<and>
    SHA1Digest c1 (Some (replicate 20 0)) = Some (c2, Some (sha1 [0x61, 0x62, 0x63]), 1)"
  using sha1_streaming [of "\<lparr>Intermediate_Hash = [], Length_Low = 9, Length_High = 9, Message_Block_Index = 9,
    Message_Block = replicate 64 9, Computed = True, Corrupted = 9\<rparr>" "[[0x61], [], [0x62, 0x63]]" "replicate 20 0" "replicate 20 0" 1 "[]"]
  by (simp del: sha1_feed.simps) blast

text \<open>C18: With a key of at most 64 bytes hmac_sha1 computes the code of RFC 2104 for SHA-1; of a key
  of 65 bytes the last byte is ignored, and a longer key overflows the arrays.\<close>

theorem hmac_sha1_rfc2104:
  assumes "length (Message_Block ctx) = 64" and "length ipad = 65" and "length opad = 65" and "20 \<le> length digest"
    and "k \<le> length key" and "n \<le> length text" and "n < 2 ^ 32"
  shows "hmac_sha1 ctx ipad opad (Some text) n key k digest =
    (if k \<le> 65 then Some (hmac (take 64 (take k key)) (take n text) @ drop 20 digest) else None)"
proof (cases "k \<le> 65")
  case False
  then show ?thesis using assms by (simp add: hmac_sha1_def hmac_pad_def memcpy_def rd_bytes_def)
next
  case True
  let ?k = "take 64 (take k key)"
  obtain ip where ip: "hmac_pad ipad key k 0x36 = Some ip" "take 64 ip = xor_pad ?k 0x36" "length ip = 65"
    using hmac_pad_spec [OF assms(2,5) True] by blast
  obtain op where op: "hmac_pad opad key k 0x5c = Some op" "take 64 op = xor_pad ?k 0x5c" "length op = 65"
    using hmac_pad_spec [OF assms(3,5) True] by blast
  have x: "length (xor_pad ?k v) = 64" for v by (simp add: xor_pad_def min_def)
  obtain c1 where c1: "SHA1Update (SHA1Reset ctx) (Some ip) 64 = Some (c1, shaSuccess)" "sha1_rep c1 (xor_pad ?k 0x36)"
    using SHA1Update_rep [OF SHA1Reset_rep [OF assms(1)], of 64 ip] ip by auto
  obtain c2 where c2: "SHA1Update c1 (Some text) n = Some (c2, shaSuccess)" "sha1_rep c2 (xor_pad ?k 0x36 @ take n text)"
    using SHA1Update_rep [OF c1(2) assms(6)] assms(7) x by auto
  define h where "h = sha1 (xor_pad ?k 0x36 @ take n text)"
  obtain c3 where c3: "SHA1Digest c2 (Some digest) = Some (c3, Some (h @ drop 20 digest), 1)" "sha1_done c3 h"
    using SHA1Digest_rep [OF c2(2) assms(4)] by (auto simp: h_def)
  have h: "length h = 20" by (simp add: h_def sha1_digest_length)
  have "length (Message_Block c3) = 64" using c3(2) by (simp add: sha1_done_def)
  from SHA1Update_rep [OF SHA1Reset_rep [OF this], of 64 op] op
  obtain c4 where c4: "SHA1Update (SHA1Reset c3) (Some op) 64 = Some (c4, shaSuccess)" "sha1_rep c4 (xor_pad ?k 0x5c)"
    by auto
  obtain c5 where c5: "SHA1Update c4 (Some (h @ drop 20 digest)) 20 = Some (c5, shaSuccess)" "sha1_rep c5 (xor_pad ?k 0x5c @ h)"
    using SHA1Update_rep [OF c4(2), of 20 "h @ drop 20 digest"] h x by auto
  obtain c6 where c6: "SHA1Digest c5 (Some (h @ drop 20 digest)) =
      Some (c6, Some (sha1 (xor_pad ?k 0x5c @ h) @ drop 20 digest), 1)"
    using SHA1Digest_rep [OF c5(2), of "h @ drop 20 digest"] h by auto
  show ?thesis
    using True ip(1) op(1) c1(1) c2(1) c3(1) c4(1) c5(1) c6 by (simp add: hmac_sha1_def hmac_def h_def)
qed

theorem hmac_sha1_rfc2104_witness:
  "hmac_sha1 \<lparr>Intermediate_Hash = [], Length_Low = 9, Length_High = 9, Message_Block_Index = 9,
      Message_Block = replicate 64 9, Computed = True, Corrupted = 9\<rparr> (replicate 65 1) (replicate 65 2)
      (Some [72, 105]) 2 [7, 8] 2 (replicate 20 0) = Some (hmac [7, 8] [72, 105])"
  using hmac_sha1_rfc2104 [of "\<lparr>Intermediate_Hash = [], Length_Low = 9, Length_High = 9, Message_Block_Index = 9,
    Message_Block = replicate 64 9, Computed = True, Corrupted = 9\<rparr>" "replicate 65 1" "replicate 65 2" "replicate 20 0"
    2 "[7, 8]" 2 "[72, 105]"]
  by simp

end
