(* ===== verification/First_Fit.thy ===== *)
theory First_Fit
  imports Wl_Prelude
begin

text \<open>
  \<^verbatim>\<open>wiselib.testing/util/allocators/first_fit_allocator.h\<close>: an allocator that keeps its chunks
  in a list, ordered by address, in an array of \<open>M\<close> descriptors; the memory has \<open>N\<close> bytes. An
  address is an offset in \<^verbatim>\<open>memory_\<close>, \<^verbatim>\<open>size_t\<close> has 32 bits, \<^verbatim>\<open>assert\<close> is empty,
  as the file defines it outside of a PC. The contents of the memory are not modelled, so the
  constructor calls are left out.
\<close>

section \<open>The class\<close>

text \<open>The number of bits of \<^verbatim>\<open>small_uint<n>::t\<close>.\<close>

definition small_uint :: "nat \<Rightarrow> nat" where
  "small_uint n = (if n \<ge> 0x10001 then 32 else if n \<ge> 0x101 then 16 else 8)"

record ff_chunk =
  chunk_size :: nat
  chunk_next :: nat
  chunk_start :: nat

record first_fit =
  reserved :: "ff_chunk list"
  chunks_used :: nat
  first_chunk_id :: nat

definition NONE :: "nat \<Rightarrow> nat" where
  "NONE M = 2 ^ small_uint M - 1"

definition chunk_new :: "nat \<Rightarrow> nat \<Rightarrow> ff_chunk" where
  "chunk_new M junk = \<lparr>chunk_size = 0, chunk_next = NONE M, chunk_start = junk\<rparr>"

definition occupied :: "ff_chunk \<Rightarrow> bool" where
  "occupied ch \<longleftrightarrow> chunk_size ch \<noteq> 0"

definition chunk_end :: "ff_chunk \<Rightarrow> nat" where
  "chunk_end ch = chunk_start ch + chunk_size ch"

text \<open>\<open>junk\<close> are the uninitialised start pointers.\<close>

definition ff_new :: "nat \<Rightarrow> nat list \<Rightarrow> first_fit" where
  "ff_new M junk = \<lparr>reserved = map (chunk_new M) junk, chunks_used = 0, first_chunk_id = NONE M\<rparr>"

text \<open>\<^verbatim>\<open>(size_t)(p - q)\<close>\<close>

definition ptr_diff :: "nat \<Rightarrow> nat \<Rightarrow> nat" where
  "ptr_diff p q = nat ((int p - int q) mod 2 ^ 32)"

text \<open>The loop of \<^verbatim>\<open>allocate_chunk\<close> with \<^verbatim>\<open>c\<close>, \<^verbatim>\<open>prev\<close> and \<^verbatim>\<open>end\<close>.\<close>

partial_function (option) ff_find :: "nat \<Rightarrow> ff_chunk list \<Rightarrow> nat \<Rightarrow> nat \<Rightarrow> nat \<Rightarrow> nat \<Rightarrow> (nat \<times> nat) option" where
  "ff_find M rs to_allocate c prev e =
     (if c \<noteq> NONE M then
        Option.bind (rd rs c) (\<lambda>ch.
          if ptr_diff (chunk_start ch) e \<ge> to_allocate then Some (prev, e)
          else ff_find M rs to_allocate (chunk_next ch) c (chunk_end ch))
      else Some (prev, e))"

text \<open>\<^verbatim>\<open>insert_chunk\<close>: the loop stops at the first descriptor that is not occupied.\<close>

definition insert_chunk :: "nat \<Rightarrow> nat \<Rightarrow> first_fit \<Rightarrow> nat \<Rightarrow> nat \<Rightarrow> nat \<Rightarrow> (first_fit \<times> nat) option" where
  "insert_chunk N M al idx start sz =
     (let c = length (takeWhile occupied (reserved al)) in
      if c = M then Some (al, NONE M)
      else do {
        (old_next, rs, fst_id) \<leftarrow> (if idx \<noteq> NONE M
           then do { ch \<leftarrow> rd (reserved al) idx;
                     rs \<leftarrow> wr (reserved al) idx (ch\<lparr>chunk_next := c mod 2 ^ small_uint M\<rparr>);
                     Some (chunk_next ch, rs, first_chunk_id al) }
           else Some (first_chunk_id al, reserved al, c mod 2 ^ small_uint M));
        rs \<leftarrow> wr rs c \<lparr>chunk_size = sz mod 2 ^ small_uint N, chunk_next = old_next, chunk_start = start\<rparr>;
        Some (al\<lparr>reserved := rs, first_chunk_id := fst_id,
          chunks_used := (chunks_used al + 1) mod 2 ^ small_uint M\<rparr>, c) })"

text \<open>\<open>sz\<close> is \<^verbatim>\<open>sizeof(T)\<close>; the result is the index of the chunk or \<^const>\<open>None\<close> for the null
  pointer.\<close>

definition ff_allocate_chunk :: "nat \<Rightarrow> nat \<Rightarrow> first_fit \<Rightarrow> nat \<Rightarrow> nat \<Rightarrow> (first_fit \<times> nat option) option" where
  "ff_allocate_chunk N M al sz n =
     (if chunks_used al \<ge> M then Some (al, None)
      else let to_allocate = sz * n mod 2 ^ 32 in do {
        (prev, e) \<leftarrow> ff_find M (reserved al) to_allocate (first_chunk_id al) (NONE M) 0;
        full \<leftarrow> (if prev \<noteq> NONE M
          then do { ch \<leftarrow> rd (reserved al) prev;
                    Some (chunk_next ch = NONE M \<and> to_allocate > ptr_diff N (chunk_end ch)) }
          else Some False);
        if full then Some (al, None)
        else do { (al, r) \<leftarrow> insert_chunk N M al prev e to_allocate;
                  Some (al, if r = NONE M then None else Some r) } })"

text \<open>The search of the predecessor.\<close>

partial_function (option) ff_pred :: "nat \<Rightarrow> ff_chunk list \<Rightarrow> nat \<Rightarrow> nat \<Rightarrow> nat option" where
  "ff_pred M rs idx prev =
     (if prev \<noteq> NONE M then
        Option.bind (rd rs prev) (\<lambda>ch. if chunk_next ch \<noteq> idx then ff_pred M rs idx (chunk_next ch) else Some prev)
      else Some prev)"

definition ff_free_chunk :: "nat \<Rightarrow> first_fit \<Rightarrow> nat \<Rightarrow> first_fit option" where
  "ff_free_chunk M al idx =
     (if first_chunk_id al = NONE M then Some al
      else do {
        (fst_id, rs) \<leftarrow> (if idx = first_chunk_id al
           then do { ch \<leftarrow> rd (reserved al) idx; Some (chunk_next ch, reserved al) }
           else do { prev \<leftarrow> ff_pred M (reserved al) idx (first_chunk_id al);
                     rs \<leftarrow> (if prev \<noteq> NONE M
                       then do { p \<leftarrow> rd (reserved al) prev; ch \<leftarrow> rd (reserved al) idx;
                                 wr (reserved al) prev (p\<lparr>chunk_next := chunk_next ch\<rparr>) }
                       else Some (reserved al));
                     Some (first_chunk_id al, rs) });
        ch \<leftarrow> rd rs idx;
        rs \<leftarrow> wr rs idx (ch\<lparr>chunk_size := 0\<rparr>);
        Some (al\<lparr>reserved := rs, first_chunk_id := fst_id,
          chunks_used := (chunks_used al + 2 ^ small_uint M - 1) mod 2 ^ small_uint M\<rparr>) })"

text \<open>The operations of a client; a pointer is the index of a chunk, and following the null pointer is
  undefined. \<open>ff_free_array\<close> also returns how many elements it destroys.\<close>

definition ff_allocate :: "nat \<Rightarrow> nat \<Rightarrow> first_fit \<Rightarrow> nat \<Rightarrow> (first_fit \<times> nat option) option" where
  "ff_allocate N M al sz = ff_allocate_chunk N M al sz 1"

definition ff_allocate_array :: "nat \<Rightarrow> nat \<Rightarrow> first_fit \<Rightarrow> nat \<Rightarrow> nat \<Rightarrow> (first_fit \<times> nat option) option" where
  "ff_allocate_array N M al sz n = ff_allocate_chunk N M al sz n"

definition ff_free :: "nat \<Rightarrow> first_fit \<Rightarrow> nat option \<Rightarrow> first_fit option" where
  "ff_free M al p = do { i \<leftarrow> p; ff_free_chunk M al i }"

definition ff_free_array :: "nat \<Rightarrow> first_fit \<Rightarrow> nat \<Rightarrow> nat option \<Rightarrow> (first_fit \<times> nat) option" where
  "ff_free_array M al sz p = do { i \<leftarrow> p; al \<leftarrow> ff_free_chunk M al i; ch \<leftarrow> rd (reserved al) i;
     Some (al, chunk_size ch div sz) }"

declare ff_find.simps [code] ff_pred.simps [code]

section \<open>The chunks as a list\<close>

text \<open>The list of the indices, from the first chunk on up to the index \<open>stop\<close>, and the order of the chunks in memory from
  an address \<open>e\<close> on.\<close>

fun ff_chain :: "ff_chunk list \<Rightarrow> nat \<Rightarrow> nat list \<Rightarrow> nat \<Rightarrow> bool" where
  "ff_chain rs c [] stop \<longleftrightarrow> c = stop"
| "ff_chain rs c (d # ds) stop \<longleftrightarrow> c = d \<and> d < length rs \<and> ff_chain rs (chunk_next (rs ! d)) ds stop"

fun ff_ordered :: "nat \<Rightarrow> ff_chunk list \<Rightarrow> nat \<Rightarrow> nat list \<Rightarrow> bool" where
  "ff_ordered N rs e [] \<longleftrightarrow> e \<le> N"
| "ff_ordered N rs e (d # ds) \<longleftrightarrow> e \<le> chunk_start (rs ! d) \<and> ff_ordered N rs (chunk_end (rs ! d)) ds"

definition ff_inv :: "nat \<Rightarrow> nat \<Rightarrow> first_fit \<Rightarrow> nat list \<Rightarrow> bool" where
  "ff_inv N M al cs \<longleftrightarrow> length (reserved al) = M \<and> M \<le> NONE M \<and> N < 2 ^ 32 \<and>
     ff_chain (reserved al) (first_chunk_id al) cs (NONE M) \<and> distinct cs \<and>
     (\<forall>i < M. occupied (reserved al ! i) \<longleftrightarrow> i \<in> set cs) \<and>
     ff_ordered N (reserved al) 0 cs \<and> chunks_used al = length cs"

text \<open>The place first fit chooses, and the address where the chunk in front of it ends.\<close>

fun fit :: "ff_chunk list \<Rightarrow> nat \<Rightarrow> nat \<Rightarrow> nat list \<Rightarrow> nat" where
  "fit rs sz e [] = 0"
| "fit rs sz e (d # ds) = (if sz \<le> chunk_start (rs ! d) - e then 0 else Suc (fit rs sz (chunk_end (rs ! d)) ds))"

definition end_of :: "ff_chunk list \<Rightarrow> nat list \<Rightarrow> nat" where
  "end_of rs cs = (if cs = [] then 0 else chunk_end (rs ! last cs))"

lemma ptr_diff_le [simp]: "q \<le> p \<Longrightarrow> p < 2 ^ 32 \<Longrightarrow> ptr_diff p q = p - q"
  by (simp add: ptr_diff_def flip: of_nat_diff)

lemma ff_chain_set: "ff_chain rs c cs stop \<Longrightarrow> d \<in> set cs \<Longrightarrow> d < length rs"
  by (induction cs arbitrary: c) auto

lemma ff_chain_update: "d \<notin> set cs \<Longrightarrow> ff_chain (rs[d := x]) c cs stop \<longleftrightarrow> ff_chain rs c cs stop"
  by (induction cs arbitrary: c) (auto simp: nth_list_update_neq)

lemma ff_chain_append: "ff_chain rs c (us @ vs) stop \<longleftrightarrow> (\<exists>m. ff_chain rs c us m \<and> ff_chain rs m vs stop)"
  by (induction us arbitrary: c) auto

lemma ff_chain_last:
  assumes "ff_chain rs c (us @ [p]) m" and "p \<notin> set us"
  shows "chunk_next (rs ! p) = m" and "ff_chain (rs[p := (rs ! p)\<lparr>chunk_next := x\<rparr>]) c (us @ [p]) x"
  using assms by (auto simp: ff_chain_append ff_chain_update)

lemma ff_chain_start: "ff_chain rs c cs stop \<Longrightarrow> c = (if cs = [] then stop else hd cs)"
  by (cases cs) auto

lemma ff_ordered_update:
  "d \<notin> set cs \<Longrightarrow> ff_ordered N (rs[d := x]) e cs \<longleftrightarrow> ff_ordered N rs e cs"
  by (induction cs arbitrary: e) (auto simp: nth_list_update_neq)

lemma ff_ordered_cong:
  "(\<And>d. d \<in> set cs \<Longrightarrow> chunk_start (rs ! d) = chunk_start (rs' ! d) \<and> chunk_size (rs ! d) = chunk_size (rs' ! d)) \<Longrightarrow>
    ff_ordered N rs e cs \<longleftrightarrow> ff_ordered N rs' e cs"
  by (induction cs arbitrary: e) (auto simp: chunk_end_def)

lemma ff_ordered_bounds: "ff_ordered N rs e cs \<Longrightarrow> e \<le> N \<and> (\<forall>d \<in> set cs. e \<le> chunk_start (rs ! d) \<and> chunk_end (rs ! d) \<le> N)"
proof (induction cs arbitrary: e)
  case (Cons d ds)
  have "chunk_end (rs ! d) \<le> N \<and> (\<forall>c \<in> set ds. chunk_end (rs ! d) \<le> chunk_start (rs ! c) \<and> chunk_end (rs ! c) \<le> N)"
    using Cons.IH [of "chunk_end (rs ! d)"] Cons.prems by simp
  moreover have "e \<le> chunk_start (rs ! d)" "chunk_start (rs ! d) \<le> chunk_end (rs ! d)"
    using Cons.prems by (simp_all add: chunk_end_def)
  ultimately show ?case by (auto dest: order_trans)
qed simp

lemma ff_ordered_split:
  "ff_ordered N rs e (us @ vs) \<longleftrightarrow> ff_ordered N rs e us \<and> ff_ordered N rs (if us = [] then e else chunk_end (rs ! last us)) vs"
proof (induction us arbitrary: e)
  case (Cons d ds)
  then show ?case using ff_ordered_bounds [of N rs _ vs] by (auto split: if_splits)
next
  case Nil
  then show ?case using ff_ordered_bounds [of N rs e vs] by auto
qed

lemma ff_ordered_from:
  assumes "ff_ordered N rs e vs" and "vs \<noteq> [] \<Longrightarrow> e' \<le> chunk_start (rs ! hd vs)" and "vs = [] \<Longrightarrow> e' \<le> N"
  shows "ff_ordered N rs e' vs"
  using assms by (cases vs) auto

lemma ff_invD:
  assumes "ff_inv N M al cs"
  shows "length (reserved al) = M" and "M \<le> NONE M" and "N < 2 ^ 32"
    and "ff_chain (reserved al) (first_chunk_id al) cs (NONE M)" and "distinct cs"
    and "\<And>i. i < M \<Longrightarrow> occupied (reserved al ! i) \<longleftrightarrow> i \<in> set cs"
    and "ff_ordered N (reserved al) 0 cs" and "chunks_used al = length cs" and "\<And>i. i \<in> set cs \<Longrightarrow> i < M"
  using assms ff_chain_set by (auto simp: ff_inv_def)

section \<open>Allocation\<close>

lemma ff_find_fit:
  assumes "ff_chain rs c cs (NONE M)" and "ff_ordered N rs e cs" and "N < 2 ^ 32" and "\<forall>d \<in> set cs. d \<noteq> NONE M"
  shows "ff_find M rs sz c prev e = Some
    (let us = take (fit rs sz e cs) cs in if us = [] then (prev, e) else (last us, chunk_end (rs ! last us)))"
  using assms
proof (induction cs arbitrary: c prev e)
  case Nil
  then show ?case by (simp add: ff_find.simps)
next
  case (Cons d ds)
  let ?g = "sz \<le> chunk_start (rs ! d) - e"
  have d: "c = d" "d < length rs" "d \<noteq> NONE M" using Cons.prems by auto
  have "chunk_start (rs ! d) \<le> N" using ff_ordered_bounds [OF Cons.prems(2)] by (auto simp: chunk_end_def)
  then have "ptr_diff (chunk_start (rs ! d)) e = chunk_start (rs ! d) - e" using Cons.prems(2,3) by simp
  then have step: "ff_find M rs sz c prev e = (if ?g then Some (prev, e) else ff_find M rs sz (chunk_next (rs ! d)) d (chunk_end (rs ! d)))"
    using d by (subst ff_find.simps) simp
  show ?case
  proof (cases ?g)
    case False
    then show ?thesis
      using Cons.IH [of "chunk_next (rs ! d)" "chunk_end (rs ! d)" d] Cons.prems step by (auto simp: Let_def)
  qed (simp add: step)
qed

lemma fit_gap:
  "fit rs sz e cs < length cs \<Longrightarrow> sz \<le> chunk_start (rs ! (cs ! fit rs sz e cs)) -
    (let us = take (fit rs sz e cs) cs in if us = [] then e else chunk_end (rs ! last us))"
proof (induction cs arbitrary: e)
  case (Cons d ds)
  show ?case
  proof (cases "sz \<le> chunk_start (rs ! d) - e")
    case False
    then have "fit rs sz (chunk_end (rs ! d)) ds < length ds" using Cons.prems by simp
    from Cons.IH [OF this] this show ?thesis using False by (cases ds) (auto simp: Let_def split: if_splits)
  qed simp
qed simp

lemma fit_le: "fit rs sz e cs \<le> length cs"
  by (induction cs arbitrary: e) auto

text \<open>The chunk \<open>i\<close> is inserted between \<open>us\<close> and \<open>vs\<close>.\<close>

lemma insert_chunk_inv:
  assumes inv: "ff_inv N M al (us @ vs)" and free: "length (us @ vs) < M" and sz: "0 < sz" "sz < 2 ^ small_uint N"
    and gap: "vs \<noteq> [] \<Longrightarrow> end_of (reserved al) us + sz \<le> chunk_start (reserved al ! hd vs)"
      "vs = [] \<Longrightarrow> end_of (reserved al) us + sz \<le> N"
  shows "\<exists>al' i. insert_chunk N M al (if us = [] then NONE M else last us) (end_of (reserved al) us) sz = Some (al', i) \<and>
    i < M \<and> i \<notin> set (us @ vs) \<and> ff_inv N M al' (us @ i # vs) \<and>
    chunk_size (reserved al' ! i) = sz \<and> chunk_start (reserved al' ! i) = end_of (reserved al) us \<and>
    (\<forall>j \<in> set (us @ vs). chunk_start (reserved al' ! j) = chunk_start (reserved al ! j) \<and>
      chunk_size (reserved al' ! j) = chunk_size (reserved al ! j))"
proof -
  let ?rs = "reserved al" and ?e = "end_of (reserved al) us"
  note i = ff_invD [OF inv]
  define i where "i = length (takeWhile occupied ?rs)"
  have "i \<noteq> M"
  proof
    assume "i = M"
    then have "takeWhile occupied ?rs = ?rs" using i(1) by (metis i_def length_takeWhile_le takeWhile_eq_take take_all_iff)
    then have "\<forall>j < M. j \<in> set (us @ vs)" using i(1,6) by (metis nth_mem takeWhile_eq_all_conv)
    then have "{..<M} \<subseteq> set (us @ vs)" by auto
    then have "M \<le> card (set (us @ vs))" using card_mono [of "set (us @ vs)" "{..<M}"] by simp
    then show False using free card_length [of "us @ vs"] by simp
  qed
  then have iM: "i < M" using i(1) length_takeWhile_le [of occupied ?rs] by (simp add: i_def)
  then have occ: "\<not> occupied (?rs ! i)" using i(1) nth_length_takeWhile [of occupied ?rs] by (simp add: i_def)
  then have out: "i \<notin> set (us @ vs)" using i(6) iM by blast
  have "0 < (2 :: nat) ^ small_uint M" by simp
  then have "M < 2 ^ small_uint M" using i(2) unfolding NONE_def by linarith
  then have width: "j mod 2 ^ small_uint M = j" if "j \<le> M" for j
    using that by (intro mod_less) linarith
  obtain m where m: "ff_chain ?rs (first_chunk_id al) us m" "ff_chain ?rs m vs (NONE M)"
    using i(4) by (auto simp: ff_chain_append)
  define ch where "ch = \<lparr>chunk_size = sz, chunk_next = m, chunk_start = ?e\<rparr>"
  define rs1 where "rs1 = (if us = [] then ?rs else ?rs[last us := (?rs ! last us)\<lparr>chunk_next := i\<rparr>])"
  define rs2 where "rs2 = rs1[i := ch]"
  define f where "f = (if us = [] then i else first_chunk_id al)"
  define al' where "al' = al\<lparr>reserved := rs2, first_chunk_id := f, chunks_used := Suc (chunks_used al)\<rparr>"
  have us: "us = butlast us @ [last us]" "last us \<notin> set (butlast us)" "last us < M" "last us \<in> set us" if "us \<noteq> []"
    using that i(5,9) by (auto simp: distinct_append) (metis append_butlast_last_id distinct_append disjoint_iff list.set_intros(1) not_distinct_conv_prefix)
  have call: "insert_chunk N M al (if us = [] then NONE M else last us) ?e sz = Some (al', i)"
  proof (cases "us = []")
    case True
    then show ?thesis
      using m iM i(1,8) sz free width [of i] width [of "Suc (chunks_used al)"]
      by (simp add: insert_chunk_def i_def [symmetric] al'_def rs2_def rs1_def f_def ch_def)
  next
    case False
    have "chunk_next (?rs ! last us) = m" using ff_chain_last(1) [of ?rs _ "butlast us" "last us" m] m(1) us [OF False] by metis
    moreover have "last us \<noteq> NONE M" using us(3) [OF False] i(2) by simp
    ultimately show ?thesis
      using False us(3) [OF False] iM i(1,8) sz free width [of i] width [of "Suc (chunks_used al)"]
      by (simp add: insert_chunk_def i_def [symmetric] al'_def rs2_def rs1_def f_def ch_def)
  qed
  have len: "length rs1 = M" "length rs2 = M" using i(1) by (simp_all add: rs1_def rs2_def)
  have same: "chunk_start (rs2 ! j) = chunk_start (?rs ! j)" "chunk_size (rs2 ! j) = chunk_size (?rs ! j)"
    if "j \<noteq> i" for j
    using that us(3) i(1) by (auto simp: rs2_def rs1_def nth_list_update)
  have "ff_chain rs1 f us i"
  proof (cases "us = []")
    case False
    have "ff_chain (?rs[last us := (?rs ! last us)\<lparr>chunk_next := i\<rparr>]) (first_chunk_id al) (butlast us @ [last us]) i"
      using ff_chain_last(2) [of ?rs "first_chunk_id al" "butlast us" "last us" m i] m(1) us [OF False] by simp
    then show ?thesis using False by (simp add: rs1_def f_def)
  qed (simp add: rs1_def f_def)
  moreover have "last us \<notin> set vs" if "us \<noteq> []" using i(5) us(4) [OF that] by auto
  then have "ff_chain rs1 m vs (NONE M)" using m(2) by (simp add: rs1_def ff_chain_update)
  ultimately have chain: "ff_chain (rs2) f (us @ i # vs) (NONE M)"
    using out iM len by (auto simp: rs2_def ff_chain_append ff_chain_update ch_def)
  have "ff_ordered N ?rs 0 us" and vs: "ff_ordered N ?rs ?e vs"
    using i(7) unfolding ff_ordered_split end_of_def by auto
  moreover have "ff_ordered N ?rs (?e + sz) vs" using ff_ordered_from [OF vs] gap by blast
  moreover have "ff_ordered N (rs2) e xs \<longleftrightarrow> ff_ordered N ?rs e xs" if "i \<notin> set xs" for e xs
    using that same by (intro ff_ordered_cong) metis
  ultimately have order: "ff_ordered N (rs2) 0 us" "ff_ordered N (rs2) (?e + sz) vs"
    using out by auto
  have "(if us = [] then 0 else chunk_end (rs2 ! last us)) = ?e"
  proof (cases "us = []")
    case False
    then have "last us \<noteq> i" using us(4) out by auto
    then show ?thesis using False same [of "last us"] by (simp add: end_of_def chunk_end_def)
  qed (simp add: end_of_def)
  then have "ff_ordered N (rs2) 0 (us @ i # vs)"
    using order iM len unfolding ff_ordered_split by (simp add: rs2_def ch_def chunk_end_def)
  moreover have "occupied (rs2 ! j) \<longleftrightarrow> j \<in> set (us @ i # vs)" if "j < M" for j
    using that i(6) same [of j] iM len sz by (cases "j = i") (auto simp: rs2_def occupied_def ch_def)
  ultimately have "ff_inv N M al' (us @ i # vs)"
    using i(2,3,5,8) len chain out by (auto simp: ff_inv_def al'_def)
  moreover have "j \<noteq> i" if "j \<in> set (us @ vs)" for j using that out by auto
  then have "\<forall>j \<in> set (us @ vs). chunk_start (reserved al' ! j) = chunk_start (?rs ! j) \<and>
      chunk_size (reserved al' ! j) = chunk_size (?rs ! j)"
    using same by (simp add: al'_def)
  moreover have "reserved al' ! i = ch" using iM len by (simp add: al'_def rs2_def)
  ultimately show ?thesis using call iM out by (auto simp: ch_def)
qed

text \<open>First fit among the gaps: \<open>gap_fits\<close> tells whether there is one.\<close>

definition gap_fits :: "nat \<Rightarrow> ff_chunk list \<Rightarrow> nat \<Rightarrow> nat list \<Rightarrow> bool" where
  "gap_fits N rs sz cs \<longleftrightarrow> fit rs sz 0 cs < length cs \<or> end_of rs cs + sz \<le> N"

lemma ff_allocate_chunk_spec:
  assumes inv: "ff_inv N M al cs" and sz: "0 < sz * n" "sz * n < 2 ^ small_uint N" and first: "cs \<noteq> [] \<or> sz * n \<le> N"
  shows "if length cs < M \<and> gap_fits N (reserved al) (sz * n) cs
    then \<exists>al' i. ff_allocate_chunk N M al sz n = Some (al', Some i) \<and> i < M \<and> i \<notin> set cs \<and>
      (let k = fit (reserved al) (sz * n) 0 cs in ff_inv N M al' (take k cs @ i # drop k cs)) \<and>
      chunk_size (reserved al' ! i) = sz * n \<and>
      (\<forall>j \<in> set cs. chunk_start (reserved al' ! j) = chunk_start (reserved al ! j) \<and>
        chunk_size (reserved al' ! j) = chunk_size (reserved al ! j))
    else ff_allocate_chunk N M al sz n = Some (al, None)"
proof (cases "length cs < M")
  case False
  then show ?thesis using ff_invD(8) [OF inv] by (simp add: ff_allocate_chunk_def)
next
  case True
  let ?rs = "reserved al" and ?sz = "sz * n"
  define k where "k = fit ?rs ?sz 0 cs"
  define us where "us = take k cs"
  define vs where "vs = drop k cs"
  note i = ff_invD [OF inv]
  have cs: "cs = us @ vs" and k: "k \<le> length cs" using fit_le by (simp_all add: us_def vs_def k_def)
  have "(2 :: nat) ^ small_uint N \<le> 2 ^ 32" by (simp add: small_uint_def)
  then have mod: "?sz mod 2 ^ 32 = ?sz" using sz(2) by simp
  have out: "d \<noteq> NONE M" if "d \<in> set cs" for d using i(2) i(9) [OF that] by simp
  have find: "ff_find M ?rs ?sz (first_chunk_id al) (NONE M) 0 = Some (if us = [] then NONE M else last us, end_of ?rs us)"
    using ff_find_fit [OF i(4,7,3), of ?sz "NONE M"] out by (simp add: k_def us_def end_of_def Let_def)
  have gap: "end_of ?rs us + ?sz \<le> chunk_start (?rs ! hd vs)" if "vs \<noteq> []"
  proof -
    have lt: "k < length cs" using that by (simp add: vs_def)
    have "?sz \<le> chunk_start (?rs ! (cs ! k)) - end_of ?rs us"
      using fit_gap [of ?rs ?sz 0 cs] lt by (simp add: k_def us_def end_of_def Let_def)
    moreover have "hd vs = cs ! k" using lt by (simp add: vs_def hd_drop_conv_nth)
    ultimately show ?thesis using sz(1) by (simp only:)
  qed
  have full: "(if (if us = [] then NONE M else last us) \<noteq> NONE M
      then do { ch \<leftarrow> rd ?rs (if us = [] then NONE M else last us);
                Some (chunk_next ch = NONE M \<and> ?sz > ptr_diff N (chunk_end ch)) }
      else Some False) = Some (us \<noteq> [] \<and> vs = [] \<and> N < end_of ?rs us + ?sz)"
  proof (cases "us = []")
    case False
    have us: "us = butlast us @ [last us]" "last us \<in> set cs" "last us \<notin> set (butlast us)"
      using False i(5) cs by (auto simp: distinct_append) (metis append_butlast_last_id distinct_append disjoint_iff list.set_intros(1))
    obtain m where m: "ff_chain ?rs (first_chunk_id al) us m" "ff_chain ?rs m vs (NONE M)"
      using i(4) unfolding cs by (auto simp: ff_chain_append)
    have "chunk_next (?rs ! last us) = m"
      using ff_chain_last(1) [of ?rs "first_chunk_id al" "butlast us" "last us" m] m(1) us by metis
    moreover have "m = NONE M \<longleftrightarrow> vs = []" using ff_chain_start [OF m(2)] out cs by (cases vs) auto
    moreover have "chunk_end (?rs ! last us) \<le> N" using ff_ordered_bounds [OF i(7)] us(2) by blast
    ultimately show ?thesis
      using False us(2) out i(1,3,9) by (auto simp: end_of_def)
  qed simp
  have bound: "end_of ?rs us + ?sz \<le> N" if "gap_fits N ?rs ?sz cs" "vs = []"
    using that k by (auto simp: gap_fits_def vs_def us_def k_def)
  have start: "ff_allocate_chunk N M al sz n =
      (if us \<noteq> [] \<and> vs = [] \<and> N < end_of ?rs us + ?sz then Some (al, None)
       else do { (al, r) \<leftarrow> insert_chunk N M al (if us = [] then NONE M else last us) (end_of ?rs us) ?sz;
                 Some (al, if r = NONE M then None else Some r) })"
    using True i(8) find full unfolding ff_allocate_chunk_def mod Let_def by simp
  show ?thesis
  proof (cases "gap_fits N ?rs ?sz cs")
    case fits: True
    obtain al' j where "insert_chunk N M al (if us = [] then NONE M else last us) (end_of ?rs us) ?sz = Some (al', j)"
        "j < M" "j \<notin> set cs" "ff_inv N M al' (us @ j # vs)" "chunk_size (reserved al' ! j) = ?sz"
        "\<forall>l \<in> set cs. chunk_start (reserved al' ! l) = chunk_start (?rs ! l) \<and> chunk_size (reserved al' ! l) = chunk_size (?rs ! l)"
      using insert_chunk_inv [of N M al us vs ?sz] inv cs True sz gap bound [OF fits] by auto
    then show ?thesis
      using start bound [OF fits] fits True i(2) by (auto simp: k_def [symmetric] us_def [symmetric] vs_def [symmetric] Let_def not_less)
  next
    case False
    then have "\<not> k < length cs" "N < end_of ?rs cs + ?sz" by (auto simp: gap_fits_def k_def)
    then have "vs = []" "us = cs" "N < end_of ?rs us + ?sz" by (simp_all add: us_def vs_def)
    moreover have "us \<noteq> []" using first calculation by (auto simp: end_of_def)
    ultimately show ?thesis using start False by simp
  qed
qed

section \<open>Freeing\<close>

lemma ff_pred_chain:
  assumes "ff_chain rs c (us @ p # i # vs) (NONE M)" and "distinct (us @ p # i # vs)" and "length rs \<le> NONE M"
  shows "ff_pred M rs i c = Some p"
  using assms
proof (induction us arbitrary: c)
  case Nil
  then show ?case by (subst ff_pred.simps) auto
next
  case (Cons d ds)
  have d: "c = d" "d < length rs" "ff_chain rs (chunk_next (rs ! d)) (ds @ p # i # vs) (NONE M)" using Cons.prems(1) by auto
  have "chunk_next (rs ! d) \<noteq> i"
    using ff_chain_start [OF d(3)] Cons.prems(2) by (cases ds) auto
  then show ?case
    using Cons.IH [OF d(3)] Cons.prems(2,3) d(1,2) by (subst ff_pred.simps) auto
qed

lemma ff_free_chunk_spec:
  assumes inv: "ff_inv N M al (us @ i # vs)"
  shows "\<exists>al'. ff_free_chunk M al i = Some al' \<and> ff_inv N M al' (us @ vs) \<and>
    (\<forall>j \<in> set (us @ vs). chunk_start (reserved al' ! j) = chunk_start (reserved al ! j) \<and>
      chunk_size (reserved al' ! j) = chunk_size (reserved al ! j))"
proof -
  let ?rs = "reserved al"
  note i = ff_invD [OF inv]
  have iM: "i < M" using i(9) by simp
  have i_notin: "i \<notin> set us" "i \<notin> set vs" using i(5) by auto
  obtain m where m: "ff_chain ?rs (first_chunk_id al) us i" "ff_chain ?rs (chunk_next (?rs ! i)) vs (NONE M)"
    using i(4) by (auto simp: ff_chain_append)
  define rs1 where "rs1 = (if us = [] then ?rs else ?rs[last us := (?rs ! last us)\<lparr>chunk_next := chunk_next (?rs ! i)\<rparr>])"
  define f where "f = (if us = [] then chunk_next (?rs ! i) else first_chunk_id al)"
  define ch where "ch = (?rs ! i)\<lparr>chunk_size := 0\<rparr>"
  define rs2 where "rs2 = rs1[i := ch]"
  define al' where "al' = al\<lparr>reserved := rs2, first_chunk_id := f, chunks_used := length (us @ vs)\<rparr>"
  have us: "us = butlast us @ [last us]" "last us \<notin> set (butlast us)" "last us < M" "last us \<in> set us" "last us \<noteq> i"
    if "us \<noteq> []"
    using that i(5,9) by (auto simp: distinct_append) (metis append_butlast_last_id distinct_append disjoint_iff list.set_intros(1))
  have "0 < (2 :: nat) ^ small_uint M" by simp
  then have "M < 2 ^ small_uint M" using i(2) unfolding NONE_def by linarith
  moreover have "length (us @ i # vs) \<le> M"
    using card_mono [of "{..<M}" "set (us @ i # vs)"] i(9) distinct_card [OF i(5)] by auto
  ultimately have used: "(chunks_used al + 2 ^ small_uint M - 1) mod 2 ^ small_uint M = length (us @ vs)"
    using i(8) by simp
  have fst: "first_chunk_id al \<noteq> NONE M"
    using ff_chain_start [OF i(4)] i(2) i(9) [of "hd (us @ i # vs)"] by (cases us) auto
  have call: "ff_free_chunk M al i = Some al'"
  proof (cases "us = []")
    case True
    then have "first_chunk_id al = i" using m(1) by simp
    then show ?thesis
      using fst iM i(1) used True by (simp add: ff_free_chunk_def al'_def rs2_def rs1_def f_def ch_def)
  next
    case False
    have "first_chunk_id al \<noteq> i" using ff_chain_start [OF m(1)] False i_notin by (cases us) auto
    moreover have "ff_pred M ?rs i (first_chunk_id al) = Some (last us)"
      using ff_pred_chain [of ?rs "first_chunk_id al" "butlast us" "last us" i vs M] i(1,2,4,5) us(1) [OF False]
      by (metis append.assoc append_Cons append_Nil)
    moreover have "last us \<noteq> NONE M" using us(3) [OF False] i(2) by simp
    ultimately show ?thesis
      using fst iM i(1) used False us(3,5) by (simp add: ff_free_chunk_def al'_def rs2_def rs1_def f_def ch_def)
  qed
  have len: "length rs1 = M" "length rs2 = M" using i(1) by (simp_all add: rs1_def rs2_def)
  have same: "chunk_start (rs2 ! j) = chunk_start (?rs ! j)" "chunk_size (rs2 ! j) = chunk_size (?rs ! j)"
    if "j \<noteq> i" for j
    using that us(3) i(1) by (auto simp: rs2_def rs1_def nth_list_update)
  have "ff_chain rs1 f us (chunk_next (?rs ! i))"
  proof (cases "us = []")
    case False
    have "ff_chain (?rs[last us := (?rs ! last us)\<lparr>chunk_next := chunk_next (?rs ! i)\<rparr>]) (first_chunk_id al) (butlast us @ [last us]) (chunk_next (?rs ! i))"
      using ff_chain_last(2) [of ?rs "first_chunk_id al" "butlast us" "last us" i] m(1) us [OF False] by simp
    then show ?thesis using False by (simp add: rs1_def f_def)
  qed (simp add: rs1_def f_def)
  moreover have "last us \<notin> set vs" if "us \<noteq> []" using i(5) us(4) [OF that] by auto
  then have "ff_chain rs1 (chunk_next (?rs ! i)) vs (NONE M)" using m(2) by (simp add: rs1_def ff_chain_update)
  ultimately have chain: "ff_chain (rs2) f (us @ vs) (NONE M)"
    using i_notin by (auto simp: rs2_def ff_chain_append ff_chain_update)
  have "ff_ordered N ?rs 0 us" "ff_ordered N ?rs (chunk_end (?rs ! i)) vs"
      "(if us = [] then 0 else chunk_end (?rs ! last us)) \<le> chunk_end (?rs ! i)"
    using i(7) unfolding ff_ordered_split by (auto simp: chunk_end_def)
  then have "ff_ordered N ?rs 0 (us @ vs)"
    unfolding ff_ordered_split using ff_ordered_bounds by (cases vs) (auto intro: order_trans)
  moreover have "ff_ordered N (rs2) 0 xs \<longleftrightarrow> ff_ordered N ?rs 0 xs" if "i \<notin> set xs" for xs
    using that same by (intro ff_ordered_cong) metis
  ultimately have "ff_ordered N (rs2) 0 (us @ vs)" using i_notin by simp
  moreover have "occupied (rs2 ! j) \<longleftrightarrow> j \<in> set (us @ vs)" if "j < M" for j
    using that i(6) [OF that] same [of j] iM len i_notin by (cases "j = i") (auto simp: rs2_def occupied_def ch_def)
  ultimately have "ff_inv N M al' (us @ vs)"
    using i(2,3,5) len chain by (auto simp: ff_inv_def al'_def)
  moreover have "j \<noteq> i" if "j \<in> set (us @ vs)" for j using that i_notin by auto
  ultimately show ?thesis using call same by (simp add: al'_def)
qed

text \<open>\<^verbatim>\<open>free_array\<close> looks at the size after it has been reset, so that no element is destroyed.\<close>

lemma ff_free_array_destroys_none:
  assumes "ff_free_array M al sz p = Some (al', n)" and "first_chunk_id al \<noteq> NONE M"
  shows "n = 0"
  using assms by (auto simp: ff_free_array_def ff_free_chunk_def mem_simps split: if_splits)

section \<open>What a client sees\<close>

text \<open>The bytes of a chunk.\<close>

definition region :: "first_fit \<Rightarrow> nat \<Rightarrow> nat set" where
  "region al i = {chunk_start (reserved al ! i)..<chunk_end (reserved al ! i)}"

lemma ff_ordered_disjoint:
  "ff_ordered N rs e cs \<Longrightarrow> distinct cs \<Longrightarrow> i \<in> set cs \<Longrightarrow> j \<in> set cs \<Longrightarrow> i \<noteq> j \<Longrightarrow>
    {chunk_start (rs ! i)..<chunk_end (rs ! i)} \<inter> {chunk_start (rs ! j)..<chunk_end (rs ! j)} = {}"
proof (induction cs arbitrary: e)
  case (Cons d ds)
  have "chunk_end (rs ! d) \<le> chunk_start (rs ! c)" if "c \<in> set ds" for c
    using Cons.prems(1) that ff_ordered_bounds [of N rs "chunk_end (rs ! d)" ds] by auto
  then have apart: "{chunk_start (rs ! d)..<chunk_end (rs ! d)} \<inter> {chunk_start (rs ! c)..<chunk_end (rs ! c)} = {}"
    if "c \<in> set ds" for c using that by fastforce
  consider "i = d" | "j = d" | "i \<in> set ds" "j \<in> set ds" using Cons.prems by auto
  then show ?case
    by cases (use Cons apart in \<open>auto simp: Int_commute\<close>)
qed simp

lemma ff_inv_regions:
  assumes "ff_inv N M al cs" and "i \<in> set cs"
  shows "region al i \<subseteq> {..<N}" and "\<And>j. j \<in> set cs \<Longrightarrow> i \<noteq> j \<Longrightarrow> region al i \<inter> region al j = {}"
proof -
  note i = ff_invD [OF assms(1)]
  show "region al i \<subseteq> {..<N}" using ff_ordered_bounds [OF i(7)] assms(2) by (force simp: region_def)
  show "region al i \<inter> region al j = {}" if "j \<in> set cs" "i \<noteq> j" for j
    using ff_ordered_disjoint [OF i(7,5) assms(2) that] by (simp add: region_def)
qed

text \<open>If first fit finds no gap between the chunks there is none.\<close>

lemma no_fit:
  assumes "\<not> fit rs sz e cs < length cs" and "ff_ordered N rs e cs" and "0 < sz" and "e \<le> a"
    and "\<forall>j \<in> set cs. chunk_size (rs ! j) \<noteq> 0 \<and> {a..<a + sz} \<inter> {chunk_start (rs ! j)..<chunk_end (rs ! j)} = {}"
  shows "(if cs = [] then e else chunk_end (rs ! last cs)) \<le> a"
  using assms
proof (induction cs arbitrary: e)
  case (Cons d ds)
  have nofit: "\<not> sz \<le> chunk_start (rs ! d) - e" "\<not> fit rs sz (chunk_end (rs ! d)) ds < length ds"
    using Cons.prems(1) by (auto split: if_splits)
  have "chunk_end (rs ! d) \<le> a"
  proof (rule ccontr)
    assume "\<not> chunk_end (rs ! d) \<le> a"
    moreover have "max a (chunk_start (rs ! d)) \<notin> {a..<a + sz} \<inter> {chunk_start (rs ! d)..<chunk_end (rs ! d)}"
        "chunk_start (rs ! d) < chunk_end (rs ! d)"
      using Cons.prems(5) by (auto simp: chunk_end_def)
    moreover note Cons.prems(3)
    ultimately have "a + sz \<le> chunk_start (rs ! d)" by (auto simp: max_def split: if_splits)
    then show False using nofit(1) Cons.prems(4) by linarith
  qed
  then show ?case using Cons.IH [OF nofit(2)] Cons.prems by auto
qed simp

text \<open>A client allocates arrays of \<open>n\<close> objects of \<open>sz\<close> bytes that are neither empty nor greater
  than the memory, and frees chunks it has, \<open>live\<close>.\<close>

inductive ff_run :: "nat \<Rightarrow> nat \<Rightarrow> first_fit \<Rightarrow> nat set \<Rightarrow> bool" for N M where
  start: "length junk = M \<Longrightarrow> ff_run N M (ff_new M junk) {}"
| alloc: "ff_run N M al live \<Longrightarrow> 0 < sz * n \<Longrightarrow> sz * n \<le> N \<Longrightarrow>
    ff_allocate_chunk N M al sz n = Some (al', Some i) \<Longrightarrow> ff_run N M al' (insert i live)"
| refused: "ff_run N M al live \<Longrightarrow> 0 < sz * n \<Longrightarrow> sz * n \<le> N \<Longrightarrow>
    ff_allocate_chunk N M al sz n = Some (al', None) \<Longrightarrow> ff_run N M al' live"
| free: "ff_run N M al live \<Longrightarrow> i \<in> live \<Longrightarrow> ff_free_chunk M al i = Some al' \<Longrightarrow> ff_run N M al' (live - {i})"

inductive_cases ff_run_cases: "ff_run N M al live"

lemma ff_new_inv:
  assumes "length junk = M" and "M \<le> NONE M" and "N < 2 ^ 32"
  shows "ff_inv N M (ff_new M junk) []"
  using assms by (auto simp: ff_inv_def ff_new_def chunk_new_def occupied_def)

lemma ff_run_inv:
  assumes "ff_run N M al live" and "M \<le> NONE M" and "N < 2 ^ small_uint N"
  shows "\<exists>cs. ff_inv N M al cs \<and> set cs = live"
  using assms(1)
proof induction
  case (start junk)
  have "(2 :: nat) ^ small_uint N \<le> 2 ^ 32" by (simp add: small_uint_def)
  then show ?case using ff_new_inv [OF start assms(2)] assms(3) by auto
next
  case (alloc al live sz n al' i)
  then obtain cs where cs: "ff_inv N M al cs" "set cs = live" by blast
  have "sz * n < 2 ^ small_uint N" using alloc.hyps assms(3) by linarith
  from ff_allocate_chunk_spec [OF cs(1) alloc.hyps(2) this] alloc.hyps(3,4)
  have "ff_inv N M al' (take (fit (reserved al) (sz * n) 0 cs) cs @ i # drop (fit (reserved al) (sz * n) 0 cs) cs)"
    by (auto simp: Let_def split: if_splits)
  moreover have "set (take k cs @ i # drop k cs) = insert i live" for k
    using cs(2) by (metis Un_insert_right append_take_drop_id list.simps(15) set_append)
  ultimately show ?case by blast
next
  case (refused al live sz n al')
  then obtain cs where cs: "ff_inv N M al cs" "set cs = live" by blast
  have "sz * n < 2 ^ small_uint N" using refused.hyps assms(3) by linarith
  from ff_allocate_chunk_spec [OF cs(1) refused.hyps(2) this] refused.hyps(3,4)
  have "al' = al" by (auto split: if_splits)
  then show ?case using cs by blast
next
  case (free al live i al')
  then obtain cs where cs: "ff_inv N M al cs" "set cs = live" by blast
  then obtain us vs where split: "cs = us @ i # vs" using free.hyps(2) by (metis split_list)
  then have "ff_inv N M al' (us @ vs)" using ff_free_chunk_spec [of N M al us i vs] cs(1) free.hyps(3) by auto
  moreover have "distinct cs" using ff_invD(5) [OF cs(1)] .
  then have "set (us @ vs) = live - {i}" using cs(2) split by auto
  ultimately show ?case by blast
qed

section \<open>Properties\<close>

text \<open>C29: For a memory of less than \<open>2 ^ 32\<close> bytes whose size can be held by the type that \<^verbatim>\<open>small_uint\<close> chooses for it
  (that is, not of 256 or 65536 bytes), and a number of descriptors whose type of indices has a value left for \<open>NONE\<close>
  (again not 256 or 65536 of them): while a client allocates only non-empty chunks that are not greater than the memory and
  frees only chunks it has, its chunks lie in the memory and do not overlap; a further such allocation is
  defined, returns a chunk that it did not have of the size it asked for, moves none of the others,
  and is refused only if all descriptors are in use or no gap of the memory is great enough. For a memory of 256
  bytes it is false (\<open>first_fit_unguarded\<close>).\<close>

theorem first_fit_safe:
  assumes "ff_run N M al live" and "M \<le> NONE M" and "N < 2 ^ small_uint N"
    and "0 < sz * n" and "sz * n \<le> N"
  shows "(\<forall>i \<in> live. region al i \<subseteq> {..<N} \<and> (\<forall>j \<in> live - {i}. region al i \<inter> region al j = {})) \<and>
    (\<exists>al' r. ff_allocate_chunk N M al sz n = Some (al', r) \<and> (\<forall>j \<in> live. region al' j = region al j) \<and>
      (case r of
         Some i \<Rightarrow> i \<notin> live \<and> card (region al' i) = sz * n
       | None \<Rightarrow> al' = al \<and> (card live = M \<or>
           \<not> (\<exists>a. {a..<a + sz * n} \<subseteq> {..<N} \<and> (\<forall>j \<in> live. {a..<a + sz * n} \<inter> region al j = {})))))"
proof -
  obtain cs where cs: "ff_inv N M al cs" "set cs = live" using ff_run_inv [OF assms(1-3)] by blast
  note i = ff_invD [OF cs(1)]
  have "sz * n < 2 ^ small_uint N" using assms by linarith
  note spec = ff_allocate_chunk_spec [OF cs(1) assms(4) this, unfolded cs(2)]
  have regions: "\<forall>i \<in> live. region al i \<subseteq> {..<N} \<and> (\<forall>j \<in> live - {i}. region al i \<inter> region al j = {})"
    using ff_inv_regions [OF cs(1)] cs(2) by blast
  have card: "card live = length cs" using distinct_card [OF i(5)] cs(2) by simp
  have nofit: "False" if a: "\<not> gap_fits N (reserved al) (sz * n) cs" "{a..<a + sz * n} \<subseteq> {..<N}"
      "\<forall>j \<in> live. {a..<a + sz * n} \<inter> region al j = {}" for a
  proof -
    have no: "\<not> fit (reserved al) (sz * n) 0 cs < length cs" "\<not> end_of (reserved al) cs + sz * n \<le> N"
      using a(1) by (simp_all add: gap_fits_def)
    have "end_of (reserved al) cs \<le> a"
      using no_fit [of "reserved al" "sz * n" 0 cs N a] no(1) i(7) assms(4) a(3) cs(2) i(6,9)
      by (auto simp: end_of_def region_def occupied_def)
    moreover have "a + sz * n \<le> N"
    proof -
      have "a + sz * n - 1 \<in> {a..<a + sz * n}" using assms(4) unfolding atLeastLessThan_iff by linarith
      then have "a + sz * n - 1 < N" using a(2) by blast
      then show ?thesis by linarith
    qed
    ultimately show False using no(2) by linarith
  qed
  show ?thesis
  proof (cases "length cs < M \<and> gap_fits N (reserved al) (sz * n) cs")
    case True
    then show ?thesis using spec regions assms(5) cs(2)
      by (auto simp: region_def chunk_end_def)
  next
    case False
    then have "ff_allocate_chunk N M al sz n = Some (al, None)" using spec assms(5) by auto
    moreover have "length cs \<le> M"
      using card_mono [of "{..<M}" "set cs"] i(9) distinct_card [OF i(5)] by auto
    ultimately show ?thesis using regions False card nofit by fastforce
  qed
qed

theorem first_fit_safe_witness:
  "\<exists>al' r. ff_allocate_chunk 100 3 (ff_new 3 [7, 7, 7]) 4 5 = Some (al', r) \<and>
    (\<forall>i. r = Some i \<longrightarrow> card (region al' i) = 20)"
proof -
  have run: "ff_run 100 3 (ff_new 3 [7, 7, 7]) {}" by (rule ff_run.start) simp
  have "3 \<le> NONE 3" "(100 :: nat) < 2 ^ small_uint 100" "(0 :: nat) < 4 * 5" "(4 * 5 :: nat) \<le> 100"
    by (simp_all add: NONE_def small_uint_def)
  from first_fit_safe [OF run this] show ?thesis by fastforce
qed

text \<open>What the guards of the code do not exclude. An allocator without chunks hands out a chunk
  of any size, also one that is greater than its memory; and a chunk of 256 bytes of a memory of 256
  bytes is entered with size zero, so that the next allocation returns the same chunk again.\<close>

theorem first_fit_unguarded:
  assumes "1 < M" and "length junk = M" and "M \<le> NONE M" and "sz < 2 ^ small_uint N"
  shows "(\<exists>al. ff_allocate_chunk N M (ff_new M junk) sz 1 = Some (al, Some 0) \<and>
      chunk_start (reserved al ! 0) = 0 \<and> chunk_size (reserved al ! 0) = sz) \<and>
    (\<exists>al al'. ff_allocate_chunk 256 M (ff_new M junk) 1 256 = Some (al, Some 0) \<and>
      ff_allocate_chunk 256 M al 1 8 = Some (al', Some 0))"
proof -
  obtain j js where junk: "junk = j # js" using assms(1,2) by (cases junk) auto
  have none: "0 \<noteq> NONE M" "NONE M \<noteq> 0" using assms(1,3) by simp_all
  have M: "1 mod 2 ^ small_uint M = (1 :: nat)" "Suc 0 mod 2 ^ small_uint M = Suc 0" "\<not> M \<le> 0" "\<not> M \<le> 1"
    using assms(1) by (simp_all add: small_uint_def)
  have first: "ff_allocate_chunk N' M (ff_new M junk) s n = Some (\<lparr>reserved =
      \<lparr>chunk_size = s * n mod 2 ^ small_uint N', chunk_next = NONE M, chunk_start = 0\<rparr> # map (chunk_new M) js,
      chunks_used = 1, first_chunk_id = 0\<rparr>, Some 0)" if "s * n < 2 ^ 32" for s n N'
    using that none M assms(1)
    by (simp add: ff_allocate_chunk_def ff_new_def ff_find.simps insert_chunk_def junk chunk_new_def occupied_def rd_def wr_def)
  have "(2 :: nat) ^ small_uint N \<le> 2 ^ 32" by (simp add: small_uint_def)
  then have part1: "sz * 1 < 2 ^ 32" "sz mod 2 ^ small_uint N = sz" using assms(4) by simp_all
  define al where "al = \<lparr>reserved = \<lparr>chunk_size = 0, chunk_next = NONE M, chunk_start = 0\<rparr> # map (chunk_new M) js,
      chunks_used = 1, first_chunk_id = 0\<rparr>"
  have "ff_allocate_chunk 256 M (ff_new M junk) 1 256 = Some (al, Some 0)"
    using first [of 1 256 256] by (simp add: al_def small_uint_def)
  moreover have "\<exists>al'. ff_allocate_chunk 256 M al 1 8 = Some (al', Some 0)"
    using none M assms(1)
    by (simp add: ff_allocate_chunk_def al_def ff_find.simps insert_chunk_def occupied_def chunk_end_def rd_def wr_def)
  ultimately show ?thesis using first [OF part1(1)] part1(2) by auto
qed

theorem first_fit_unguarded_witness:
  "\<exists>al. ff_allocate_chunk 100 2 (ff_new 2 [7, 7]) 200 1 = Some (al, Some 0) \<and> chunk_size (reserved al ! 0) = 200"
  using first_fit_unguarded [of 2 "[7, 7]" 200 100] by (auto simp: NONE_def small_uint_def)

end
