(* ===== verification/Bitmap_Allocator.thy ===== *)
theory Bitmap_Allocator
  imports Wl_Prelude
begin

text \<open>
  \<^verbatim>\<open>wiselib.testing/util/pstl/bit_array.h\<close> and
  \<^verbatim>\<open>wiselib.testing/util/allocators/bitmap_allocator.h\<close>: an array of bits in bytes, and an
  allocator that keeps two of them: \<open>used\<close> for the blocks in use and \<open>start\<close> for the first block of
  a chunk and the first behind it.
\<close>

section \<open>The bit array\<close>

definition ba_byte :: "nat \<Rightarrow> nat" where "ba_byte pos = pos div 8"
definition ba_bit :: "nat \<Rightarrow> nat" where "ba_bit pos = pos mod 8"

definition ba_get :: "bytes \<Rightarrow> nat \<Rightarrow> bool option" where
  "ba_get m idx = do { b \<leftarrow> rd m (ba_byte idx); Some (b AND push_bit (ba_bit idx) 1 \<noteq> 0) }"

definition ba_set :: "bytes \<Rightarrow> nat \<Rightarrow> bool \<Rightarrow> bytes option" where
  "ba_set m i v = do {
     b \<leftarrow> rd m (ba_byte i);
     m \<leftarrow> wr m (ba_byte i) (b AND NOT (push_bit (ba_bit i) 1));
     b \<leftarrow> rd m (ba_byte i);
     wr m (ba_byte i) (b OR push_bit (ba_bit i) (of_bool v)) }"

definition ba_fill_byte :: "bytes \<Rightarrow> nat \<Rightarrow> u8 \<Rightarrow> bytes option" where
  "ba_fill_byte m pos filler = do { b \<leftarrow> rd m (ba_byte pos); wr m (ba_byte pos) (b OR push_bit (ba_bit pos) filler) }"

text \<open>The source and the target are two arrays.\<close>

fun ba_copy :: "bytes \<Rightarrow> bytes \<Rightarrow> nat \<Rightarrow> nat \<Rightarrow> nat \<Rightarrow> bytes option" where
  "ba_copy src target t s 0 = Some target"
| "ba_copy src target t s (Suc len) = do {
     v \<leftarrow> ba_get src s; target \<leftarrow> ba_set target t v; ba_copy src target (t + 1) (s + 1) len }"

definition ba_bytes_needed :: "nat \<Rightarrow> nat" where
  "ba_bytes_needed bits = (bits + 7) div 8"

fun ba_zeros :: "bytes \<Rightarrow> nat \<Rightarrow> nat \<Rightarrow> bytes option" where
  "ba_zeros m idx 0 = Some m"
| "ba_zeros m idx (Suc n) = do { m \<leftarrow> ba_set m idx False; ba_zeros m (idx + 1) n }"

definition ba_terminate :: "bytes \<Rightarrow> nat \<Rightarrow> (bytes \<times> nat) option" where
  "ba_terminate m idx =
     (let zeros = (if idx mod 8 \<noteq> 0 then 8 + (8 - idx mod 8) else 8) in do {
        m \<leftarrow> ba_zeros m idx zeros; Some (m, zeros) })"

text \<open>The abstract array: the bits.\<close>

definition bits_of :: "bytes \<Rightarrow> bool list" where
  "bits_of m = map (\<lambda>i. bit (m ! (i div 8)) (i mod 8)) [0..<8 * length m]"

lemma length_bits_of [simp]: "length (bits_of m) = 8 * length m"
  by (simp add: bits_of_def)

lemma bits_of_nth: "i < 8 * length m \<Longrightarrow> bits_of m ! i = bit (m ! (i div 8)) (i mod 8)"
  by (simp add: bits_of_def)

lemma ba_get_bits: "ba_get m i = rd (bits_of m) i"
proof -
  have "b AND push_bit k 1 \<noteq> 0 \<longleftrightarrow> bit b k" for b :: u8 and k
    by (simp add: bit_iff_and_push_bit_not_eq_0)
  then show ?thesis by (auto simp: ba_get_def ba_byte_def ba_bit_def rd_def bits_of_nth)
qed

lemma ba_set_bits: "i < 8 * length m \<Longrightarrow> \<exists>m'. ba_set m i v = Some m' \<and> bits_of m' = (bits_of m)[i := v] \<and> length m' = length m"
proof -
  assume i: "i < 8 * length m"
  define b where "b = (m ! (i div 8) AND NOT (push_bit (i mod 8) 1)) OR push_bit (i mod 8) (of_bool v)"
  have set: "ba_set m i v = Some (m[i div 8 := b])"
    using i by (simp add: ba_set_def ba_byte_def ba_bit_def b_def)
  have bits: "bit b k \<longleftrightarrow> (if k = i mod 8 then v else bit (m ! (i div 8)) k)" if "k < 8" for k
    using that by (auto simp: b_def bit_simps)
  have "bits_of (m[i div 8 := b]) = (bits_of m)[i := v]"
  proof (rule nth_equalityI)
    fix j assume "j < length (bits_of (m[i div 8 := b]))"
    then have j: "j < 8 * length m" by simp
    have "j = i \<longleftrightarrow> j div 8 = i div 8 \<and> j mod 8 = i mod 8" by (metis mult_div_mod_eq)
    then show "bits_of (m[i div 8 := b]) ! j = (bits_of m)[i := v] ! j"
      using i j bits [of "j mod 8"] by (auto simp: nth_list_update bits_of_nth)
  qed simp
  then show ?thesis using set by simp
qed

lemma ba_set_None: "8 * length m \<le> i \<Longrightarrow> ba_set m i v = None"
  by (simp add: ba_set_def ba_byte_def rd_def div_less_iff_less_mult not_less mult.commute)

text \<open>So the array of bytes is an array of bits, and every program over \<open>get\<close> and \<open>set\<close> can be
  understood on the list of bits.\<close>

locale bit_store =
  fixes bits :: "'s \<Rightarrow> bool list"
    and get :: "'s \<Rightarrow> nat \<Rightarrow> bool option"
    and put :: "'s \<Rightarrow> nat \<Rightarrow> bool \<Rightarrow> 's option"
  assumes get_bits: "get s i = rd (bits s) i"
    and put_bits: "i < length (bits s) \<Longrightarrow> \<exists>s'. put s i v = Some s' \<and> bits s' = (bits s)[i := v]"
begin

fun put_range :: "'s \<Rightarrow> nat \<Rightarrow> nat \<Rightarrow> bool \<Rightarrow> 's option" where
  "put_range s i 0 v = Some s"
| "put_range s i (Suc n) v = Option.bind (put s i v) (\<lambda>s. put_range s (i + 1) n v)"

lemma put_range_bits:
  "i + n \<le> length (bits s) \<Longrightarrow> \<exists>s'. put_range s i n v = Some s' \<and>
    bits s' = take i (bits s) @ replicate n v @ drop (i + n) (bits s)"
proof (induction n arbitrary: s i)
  case (Suc n)
  obtain s1 where s1: "put s i v = Some s1" "bits s1 = (bits s)[i := v]" using put_bits [of i s v] Suc.prems by auto
  have "take (Suc i) (bits s1) @ replicate n v @ drop (Suc i + n) (bits s1) =
      take i (bits s) @ replicate (Suc n) v @ drop (i + Suc n) (bits s)"
    using Suc.prems by (simp add: s1(2) take_Suc_conv_app_nth)
  then show ?case using Suc.IH [of "Suc i" s1] Suc.prems s1 by auto
qed simp

end

interpretation ba: bit_store bits_of ba_get ba_set
  by (unfold_locales, rule ba_get_bits) (use ba_set_bits in fastforce)

section \<open>The allocator\<close>

text \<open>\<^verbatim>\<open>BITMAP_SIZE\<close>, for a memory of \<open>N\<close> bytes. It is the number of bytes of the arrays; the
  code also uses it as the number of blocks.\<close>

definition BITMAP_SIZE :: "nat \<Rightarrow> nat" where
  "BITMAP_SIZE N = (N + 1 + 7) div 8"

record bitmap =
  used :: bytes
  starts :: bytes

definition bm_new :: "nat \<Rightarrow> bitmap" where
  "bm_new N = \<lparr>used = replicate (BITMAP_SIZE N) 0, starts = replicate (BITMAP_SIZE N) 0\<rparr>"

fun ba_set_range :: "bytes \<Rightarrow> nat \<Rightarrow> nat \<Rightarrow> bool \<Rightarrow> bytes option" where
  "ba_set_range m i 0 v = Some m"
| "ba_set_range m i (Suc n) v = do { m \<leftarrow> ba_set m i v; ba_set_range m (i + 1) n v }"

text \<open>\<open>B\<close> is \<^verbatim>\<open>BLOCK_SIZE\<close>, an address an offset in \<^verbatim>\<open>buffer_\<close>.\<close>

definition bm_allocate_chunk :: "nat \<Rightarrow> bitmap \<Rightarrow> nat \<Rightarrow> nat \<Rightarrow> (bitmap \<times> nat) option" where
  "bm_allocate_chunk B al pos required = do {
     s \<leftarrow> ba_set (starts al) pos True;
     u \<leftarrow> ba_set_range (used al) pos required True;
     s \<leftarrow> ba_set s (pos + required) True;
     Some (al\<lparr>used := u, starts := s\<rparr>, B * pos) }"

function bm_fit :: "nat \<Rightarrow> bytes \<Rightarrow> nat \<Rightarrow> nat \<Rightarrow> nat \<Rightarrow> nat \<Rightarrow> nat option option" where
  "bm_fit N u required i start_pos len =
     (if i < BITMAP_SIZE N then do {
        v \<leftarrow> ba_get u i;
        if v then bm_fit N u required (i + 1) (i + 1) 0
        else if len + 1 \<ge> required then Some (Some start_pos)
        else bm_fit N u required (i + 1) start_pos (len + 1) }
      else Some None)"
  by pat_completeness auto
termination by (relation "measure (\<lambda>(N, u, required, i, start_pos, len). BITMAP_SIZE N - i)") auto

declare bm_fit.simps [simp del]

text \<open>The result is the address, or \<^const>\<open>None\<close> for the null pointer.\<close>

definition bm_first_fit :: "nat \<Rightarrow> nat \<Rightarrow> bitmap \<Rightarrow> nat \<Rightarrow> (bitmap \<times> nat option) option" where
  "bm_first_fit N B al required = do {
     r \<leftarrow> bm_fit N (used al) required 0 0 0;
     case r of
       None \<Rightarrow> Some (al, None)
     | Some pos \<Rightarrow> do { (al, p) \<leftarrow> bm_allocate_chunk B al pos required; Some (al, Some p) } }"

text \<open>\<open>sz\<close> is \<^verbatim>\<open>sizeof(T)\<close>. The constructor is called even at the null pointer, which is
  undefined for the single object; for an array of no elements it is not called.\<close>

definition bm_allocate :: "nat \<Rightarrow> nat \<Rightarrow> bitmap \<Rightarrow> nat \<Rightarrow> (bitmap \<times> nat) option" where
  "bm_allocate N B al sz = do {
     (al, p) \<leftarrow> bm_first_fit N B al ((sz + B - 1) div B); p \<leftarrow> p; Some (al, p) }"

definition bm_allocate_array :: "nat \<Rightarrow> nat \<Rightarrow> bitmap \<Rightarrow> nat \<Rightarrow> nat \<Rightarrow> (bitmap \<times> nat option) option" where
  "bm_allocate_array N B al sz n = do {
     (al, p) \<leftarrow> bm_first_fit N B al ((n * sz + B - 1) div B);
     if p = None \<and> n \<noteq> 0 then None else Some (al, p) }"

function bm_free_loop :: "bytes \<Rightarrow> bytes \<Rightarrow> nat \<Rightarrow> bytes option" where
  "bm_free_loop s u pos =
     (if pos < 8 * length s then do {
        u \<leftarrow> ba_set u pos False;
        v \<leftarrow> ba_get s pos;
        if \<not> v then bm_free_loop s u (pos + 1) else Some u }
      else None)"
  by pat_completeness auto
termination by (relation "measure (\<lambda>(s, u, pos). 8 * length s - pos)") auto

declare bm_free_loop.simps [simp del]

definition bm_free_chunk :: "nat \<Rightarrow> bitmap \<Rightarrow> nat \<Rightarrow> bitmap option" where
  "bm_free_chunk B al ptr =
     (let pos = ptr div B in do {
        s \<leftarrow> ba_set (starts al) pos False;
        u \<leftarrow> bm_free_loop s (used al) pos;
        Some (al\<lparr>used := u, starts := s\<rparr>) })"

section \<open>The operations on lists of bits\<close>

lemma ba_set_range_eq: "ba_set_range m i n v = ba.put_range m i n v"
proof (induction n arbitrary: m i)
  case (Suc n)
  then show ?case by (cases "ba_set m i v") simp_all
qed simp

lemma ba_set_range_bits:
  "i + n \<le> 8 * length m \<Longrightarrow> \<exists>m'. ba_set_range m i n v = Some m' \<and>
    bits_of m' = take i (bits_of m) @ replicate n v @ drop (i + n) (bits_of m)"
  using ba.put_range_bits [of i n m v] by (simp add: ba_set_range_eq)

lemma bits_of_replicate [simp]: "bits_of (replicate n 0) = replicate (8 * n) False"
  by (rule nth_equalityI) (auto simp: bits_of_nth less_mult_imp_div_less mult.commute)

lemma bits_length: "bits_of m = xs \<Longrightarrow> 8 * length m = length xs"
  using length_bits_of [of m] by simp

lemma bm_fit_used:
  "i + a \<le> BITMAP_SIZE N \<Longrightarrow> (\<forall>j. i \<le> j \<and> j < i + a \<longrightarrow> j < 8 * length u \<and> bits_of u ! j) \<Longrightarrow> 0 < a \<Longrightarrow>
    bm_fit N u req i sp len = bm_fit N u req (i + a) (i + a) 0"
proof (induction a arbitrary: i sp len)
  case (Suc a)
  have "ba_get u i = Some True" using Suc.prems by (simp add: ba_get_bits)
  then have step: "bm_fit N u req i sp len = bm_fit N u req (Suc i) (Suc i) 0"
    using Suc.prems by (subst bm_fit.simps) simp
  show ?case
  proof (cases a)
    case 0
    then show ?thesis using step by simp
  next
    case (Suc b)
    then show ?thesis using Suc.IH [of "Suc i" "Suc i" 0] Suc.prems step by simp
  qed
qed simp

lemma bm_fit_free:
  "0 < n \<Longrightarrow> i + n \<le> BITMAP_SIZE N \<Longrightarrow> (\<forall>j. i \<le> j \<and> j < i + n \<longrightarrow> j < 8 * length u \<and> \<not> bits_of u ! j) \<Longrightarrow>
    bm_fit N u (len + n) i sp len = Some (Some sp)"
proof (induction n arbitrary: i len)
  case (Suc n)
  have "ba_get u i = Some False" and "i < BITMAP_SIZE N" using Suc.prems by (simp_all add: ba_get_bits)
  then have "bm_fit N u (len + Suc n) i sp len =
      (if n = 0 then Some (Some sp) else bm_fit N u (Suc len + n) (Suc i) sp (Suc len))"
    by (subst bm_fit.simps) simp
  then show ?case using Suc.IH [of "Suc i" "Suc len"] Suc.prems by simp
qed simp

lemma bm_fit_bits:
  assumes "bits_of u = replicate a True @ replicate b False @ rest" and "0 < req" and "req \<le> b" and "a + req \<le> BITMAP_SIZE N"
  shows "bm_fit N u req 0 0 0 = Some (Some a)"
proof -
  have len: "8 * length u = a + b + length rest" using bits_length [OF assms(1)] by simp
  have "bm_fit N u req 0 0 0 = bm_fit N u req a a 0"
    using bm_fit_used [of 0 a N u req 0 0] assms len by (cases "a = 0") (auto simp: nth_append)
  moreover have "bits_of u ! j = False" if "a \<le> j \<and> j < a + req" for j
    using that assms(1,3) by (auto simp: nth_append)
  then have "bm_fit N u req a a 0 = Some (Some a)"
    using bm_fit_free [of req a N u 0 a] assms(2,3,4) len by simp
  ultimately show ?thesis by simp
qed

lemma bm_free_loop_bits:
  "bits_of s = p @ replicate n False @ True # r \<Longrightarrow> length p = pos \<Longrightarrow> length s = length u \<Longrightarrow>
    \<exists>u'. bm_free_loop s u pos = Some u' \<and>
      bits_of u' = take pos (bits_of u) @ replicate (Suc n) False @ drop (pos + Suc n) (bits_of u)"
proof (induction n arbitrary: p pos u)
  case 0
  have pos: "pos < 8 * length u" using bits_length [OF 0(1)] 0(2,3) by simp
  then obtain u1 where u1: "ba_set u pos False = Some u1" "bits_of u1 = (bits_of u)[pos := False]" using ba_set_bits by blast
  have "ba_get s pos = Some True" using 0 pos by (simp add: ba_get_bits nth_append)
  then have "bm_free_loop s u pos = Some u1" using pos 0(3) u1(1) by (subst bm_free_loop.simps) simp
  then show ?case using u1(2) pos by (simp add: upd_conv_take_nth_drop)
next
  case (Suc n)
  have pos: "pos < 8 * length u" using bits_length [OF Suc.prems(1)] Suc.prems(2,3) by simp
  then obtain u1 where u1: "ba_set u pos False = Some u1" "bits_of u1 = (bits_of u)[pos := False]" "length u1 = length u"
    using ba_set_bits by blast
  have "ba_get s pos = Some False" using Suc.prems pos by (simp add: ba_get_bits nth_append)
  then have "bm_free_loop s u pos = bm_free_loop s u1 (Suc pos)"
    using pos Suc.prems(3) u1(1) by (subst bm_free_loop.simps) simp
  moreover obtain u' where "bm_free_loop s u1 (Suc pos) = Some u'"
      "bits_of u' = take (Suc pos) (bits_of u1) @ replicate (Suc n) False @ drop (Suc pos + Suc n) (bits_of u1)"
    using Suc.IH [of "p @ [False]" "Suc pos" u1] Suc.prems u1(3) by auto
  moreover have "take (Suc pos) (bits_of u1) = take pos (bits_of u) @ [False]"
    using pos by (simp add: u1(2) take_Suc_conv_app_nth)
  ultimately show ?case by (simp add: u1(2))
qed

definition bm_sized :: "nat \<Rightarrow> bitmap \<Rightarrow> bool" where
  "bm_sized N al \<longleftrightarrow> length (used al) = BITMAP_SIZE N \<and> length (starts al) = BITMAP_SIZE N"

lemma bm_first_fit_bits:
  assumes "bm_sized N al" and "bits_of (used al) = replicate a True @ replicate b False @ rest"
    and "0 < req" and "req \<le> b" and "a + req \<le> BITMAP_SIZE N"
  shows "\<exists>al'. bm_first_fit N B al req = Some (al', Some (B * a)) \<and> bm_sized N al' \<and>
    bits_of (used al') = replicate (a + req) True @ replicate (b - req) False @ rest \<and>
    bits_of (starts al') = (bits_of (starts al))[a := True, a + req := True]"
proof -
  have fit: "bm_fit N (used al) req 0 0 0 = Some (Some a)" using bm_fit_bits assms(2-5) .
  have len: "length (used al) = BITMAP_SIZE N" "length (starts al) = BITMAP_SIZE N" using assms(1) by (simp_all add: bm_sized_def)
  obtain s1 where s1: "ba_set (starts al) a True = Some s1" "bits_of s1 = (bits_of (starts al))[a := True]" "length s1 = BITMAP_SIZE N"
    using ba_set_bits [of a "starts al" True] assms(3,5) len by auto
  obtain s2 where s2: "ba_set s1 (a + req) True = Some s2" "bits_of s2 = (bits_of s1)[a + req := True]" "length s2 = BITMAP_SIZE N"
    using ba_set_bits [of "a + req" s1 True] assms(3,5) s1(3) by auto
  obtain u where u: "ba_set_range (used al) a req True = Some u"
      "bits_of u = take a (bits_of (used al)) @ replicate req True @ drop (a + req) (bits_of (used al))"
    using ba_set_range_bits [of a req "used al" True] assms(5) len by auto
  have "bits_of u = replicate (a + req) True @ replicate (b - req) False @ rest"
    using assms(4) by (simp add: u(2) assms(2) replicate_add)
  moreover have "length u = BITMAP_SIZE N"
    using arg_cong [where f = List.length, OF u(2)] assms(5) len by simp
  ultimately show ?thesis using fit s1 s2 u(1)
    by (simp add: bm_first_fit_def bm_allocate_chunk_def bm_sized_def)
qed

lemma bm_free_bits:
  assumes "bm_sized N al" and "bits_of (starts al) = p @ True # replicate n False @ True # r" and "length p = pos" and "0 < B"
  shows "\<exists>al'. bm_free_chunk B al (B * pos) = Some al' \<and> bm_sized N al' \<and>
    bits_of (used al') = take pos (bits_of (used al)) @ replicate (n + 2) False @ drop (pos + n + 2) (bits_of (used al))"
proof -
  have "pos + n + 2 \<le> 8 * BITMAP_SIZE N" and pos: "pos < 8 * length (starts al)"
    using bits_length [OF assms(2)] assms(1,3) by (simp_all add: bm_sized_def)
  obtain s1 where s1: "ba_set (starts al) pos False = Some s1" "bits_of s1 = (bits_of (starts al))[pos := False]"
      "length s1 = BITMAP_SIZE N"
    using ba_set_bits [OF pos, of False] assms(1) by (auto simp: bm_sized_def)
  have "bits_of s1 = p @ replicate (Suc n) False @ True # r"
    using assms(3) by (simp add: s1(2) assms(2) list_update_append)
  then obtain u where u: "bm_free_loop s1 (used al) pos = Some u"
      "bits_of u = take pos (bits_of (used al)) @ replicate (Suc (Suc n)) False @ drop (pos + Suc (Suc n)) (bits_of (used al))"
    using bm_free_loop_bits [of s1 p "Suc n" r pos "used al"] assms(1,3) s1(3) by (auto simp: bm_sized_def)
  have "length u = BITMAP_SIZE N"
    using arg_cong [where f = List.length, OF u(2)] assms(1) \<open>pos + n + 2 \<le> 8 * BITMAP_SIZE N\<close> by (simp add: bm_sized_def)
  then show ?thesis using s1 u assms(1,4) by (simp add: bm_free_chunk_def bm_sized_def)
qed

lemma bm_new_sized [simp]: "bm_sized N (bm_new N)"
  and bm_new_used [simp]: "bits_of (used (bm_new N)) = replicate (8 * BITMAP_SIZE N) False"
  and bm_new_starts [simp]: "bits_of (starts (bm_new N)) = replicate (8 * BITMAP_SIZE N) False"
  by (simp_all add: bm_new_def bm_sized_def)

section \<open>Freeing a chunk takes a block of the next\<close>

text \<open>chunks are handed out one behind the other: on a fresh allocator a chunk of \<open>m\<close> blocks
  lies at the start of the memory and one of \<open>k\<close> blocks right behind it. But freeing the first also
  marks the first block of the second as unused, although that chunk is still in use (the loop of
  \<open>free_chunk\<close> clears a block before it looks whether the block starts a chunk), and the next
  request for \<open>m + 1\<close> blocks is given memory that the second chunk owns.\<close>

theorem bitmap_free_takes_next:
  assumes "0 < m" and "0 < k" and "m + k \<le> BITMAP_SIZE N" and "0 < B"
  shows "\<exists>al1 al2 al3 al4.
    bm_first_fit N B (bm_new N) m = Some (al1, Some 0) \<and>
    bm_first_fit N B al1 k = Some (al2, Some (B * m)) \<and>
    (\<forall>j < m + k. rd (bits_of (used al2)) j = Some True) \<and>
    bm_free_chunk B al2 0 = Some al3 \<and> ba_get (used al3) m = Some False \<and>
    bm_first_fit N B al3 (m + 1) = Some (al4, Some 0)"
proof -
  let ?M = "BITMAP_SIZE N"
  obtain al1 where al1: "bm_first_fit N B (bm_new N) m = Some (al1, Some 0)" "bm_sized N al1"
      "bits_of (used al1) = replicate m True @ replicate (8 * ?M - m) False"
      "bits_of (starts al1) = (replicate (8 * ?M) False)[0 := True, m := True]"
    using bm_first_fit_bits [of N "bm_new N" 0 "8 * ?M" "[]" m B] assms by auto
  obtain al2 where al2: "bm_first_fit N B al1 k = Some (al2, Some (B * m))" "bm_sized N al2"
      "bits_of (used al2) = replicate (m + k) True @ replicate (8 * ?M - (m + k)) False"
      "bits_of (starts al2) = (replicate (8 * ?M) False)[0 := True, m := True, m + k := True]"
    using bm_first_fit_bits [of N al1 m "8 * ?M - m" "[]" k B] le_diff_conv2 [of m "8 * ?M" k] assms al1 by auto
  have "bits_of (starts al2) = [] @ True # replicate (m - 1) False @ True # drop (m + 1) (bits_of (starts al2))"
    using assms by (intro nth_equalityI) (auto simp: al2(4) nth_list_update nth_append nth_Cons split: nat.split)
  then obtain al3 where al3: "bm_free_chunk B al2 0 = Some al3" "bm_sized N al3"
      "bits_of (used al3) = replicate (m + 1) False @ drop (m + 1) (bits_of (used al2))"
    using bm_free_bits [of N al2 "[]" "m - 1" _ 0 B] assms al2(2) by auto
  have free: "ba_get (used al3) m = Some False"
    using assms by (simp add: ba_get_bits al3(3) rd_def nth_append al2(3))
  obtain al4 where "bm_first_fit N B al3 (m + 1) = Some (al4, Some 0)"
    using bm_first_fit_bits [of N al3 0 "m + 1" _ "m + 1" B] al3 assms by auto
  moreover have "\<forall>j < m + k. rd (bits_of (used al2)) j = Some True" by (simp add: al2(3) rd_def nth_append)
  ultimately show ?thesis using al1(1) al2(1) al3(1) free by blast
qed

lemma bitmap_free_takes_next_witness:
  "\<exists>al1 al2 al3 al4.
    bm_first_fit 63 4 (bm_new 63) 2 = Some (al1, Some 0) \<and>
    bm_first_fit 63 4 al1 3 = Some (al2, Some (4 * 2)) \<and>
    (\<forall>j < 2 + 3. rd (bits_of (used al2)) j = Some True) \<and>
    bm_free_chunk 4 al2 0 = Some al3 \<and> ba_get (used al3) 2 = Some False \<and>
    bm_first_fit 63 4 al3 (2 + 1) = Some (al4, Some 0)"
  by (rule bitmap_free_takes_next) (simp_all add: BITMAP_SIZE_def)

end
