(* ===== verification/Checked_Message.thy ===== *)
theory Checked_Message
  imports Message_Buffer
begin

text \<open>
  \<^verbatim>\<open>wiselib.testing/internal_interface/message/message.h\<close>: a message with an id, a Fletcher
  checksum (\<^verbatim>\<open>MESSAGE_H_FLETCHER_CHECKSUM\<close> is defined) and a payload, in a byte buffer.
  \<open>sw\<close> is \<^verbatim>\<open>sizeof(size_t)\<close> of the radio the message is for: 1 for the plain radios, 2 for
  the fragmenting radio. Sizes are natural numbers, cut off to that width where the code stores or
  returns them.
\<close>

section \<open>The checksum\<close>

fun fletcher_block :: "bytes \<Rightarrow> nat \<Rightarrow> nat \<Rightarrow> u16 \<Rightarrow> u16 \<Rightarrow> (u16 \<times> u16) option" where
  "fletcher_block m i 0 sum1 sum2 = Some (sum1, sum2)"
| "fletcher_block m i (Suc tlen) sum1 sum2 = do {
     b \<leftarrow> rd m i;
     fletcher_block m (i + 1) tlen (sum1 + ucast b) (sum2 + (sum1 + ucast b)) }"

definition fletcher_fold :: "u16 \<Rightarrow> u16" where
  "fletcher_fold s = (s AND 0xff) + drop_bit 8 s"

function fletcher_loop :: "bytes \<Rightarrow> nat \<Rightarrow> nat \<Rightarrow> u16 \<Rightarrow> u16 \<Rightarrow> (u16 \<times> u16) option" where
  "fletcher_loop m i n sum1 sum2 =
     (if n \<noteq> 0 then
        let tlen = (if n > 20 then 20 else n) in do {
          (sum1, sum2) \<leftarrow> fletcher_block m i tlen sum1 sum2;
          fletcher_loop m (i + tlen) (n - tlen) (fletcher_fold sum1) (fletcher_fold sum2) }
      else Some (sum1, sum2))"
  by pat_completeness auto
termination by (relation "measure (\<lambda>(m, i, n, _). n)") (auto split: if_splits)

declare fletcher_loop.simps [simp del]

definition fletcher16_checksum :: "bytes \<Rightarrow> nat \<Rightarrow> nat \<Rightarrow> u16 option" where
  "fletcher16_checksum m i n = do {
     (sum1, sum2) \<leftarrow> fletcher_loop m i n 0xff 0xff;
     Some (push_bit 8 (fletcher_fold sum2) OR fletcher_fold sum1) }"

section \<open>Message_Type\<close>

definition get_size :: "nat \<Rightarrow> endianness \<Rightarrow> bytes \<Rightarrow> nat \<Rightarrow> nat option" where
  "get_size sw e b pos = (if sw = 1 then map_option unat (read_u8 e b pos) else map_option unat (read_u16 e b pos))"

definition put_size :: "nat \<Rightarrow> endianness \<Rightarrow> bytes \<Rightarrow> nat \<Rightarrow> nat \<Rightarrow> bytes option" where
  "put_size sw e b pos n = (if sw = 1 then put8 e b pos (word_of_nat n) else put16 e b pos (word_of_nat n))"

definition size_mod :: "nat \<Rightarrow> nat \<Rightarrow> nat" where
  "size_mod sw n = n mod 256 ^ sw"

abbreviation (input) "cm_CSUM_POS \<equiv> 1 :: nat"
abbreviation (input) "cm_PAYLOAD_SIZE_POS \<equiv> 3 :: nat"
abbreviation (input) "cm_PAYLOAD_POS sw \<equiv> 3 + sw"

definition get_message_id :: "endianness \<Rightarrow> bytes \<Rightarrow> u8 option" where
  "get_message_id e b = read_u8 e b 0"

definition set_message_id :: "endianness \<Rightarrow> bytes \<Rightarrow> u8 \<Rightarrow> bytes option" where
  "set_message_id e b v = put8 e b 0 v"

definition get_payload_size :: "nat \<Rightarrow> endianness \<Rightarrow> bytes \<Rightarrow> nat option" where
  "get_payload_size sw e b = get_size sw e b cm_PAYLOAD_SIZE_POS"

text \<open>The payload is the memory of the object from the payload position on.\<close>

definition get_payload :: "nat \<Rightarrow> bytes \<Rightarrow> bytes" where
  "get_payload sw b = drop (cm_PAYLOAD_POS sw) b"

definition set_payload :: "nat \<Rightarrow> endianness \<Rightarrow> bytes \<Rightarrow> nat \<Rightarrow> bytes \<Rightarrow> nat \<Rightarrow> bytes option" where
  "set_payload sw e b len buff offset = do {
     csum \<leftarrow> fletcher16_checksum buff offset len;
     b \<leftarrow> put16 e b (offset + cm_CSUM_POS) csum;
     b \<leftarrow> put_size sw e b (offset + cm_PAYLOAD_SIZE_POS) len;
     vs \<leftarrow> rd_bytes buff 0 len;
     memcpy b (cm_PAYLOAD_POS sw) vs }"

definition cm_new :: "nat \<Rightarrow> endianness \<Rightarrow> bytes \<Rightarrow> bytes option" where
  "cm_new sw e junk = do { b \<leftarrow> set_message_id e junk 0; set_payload sw e b 0 b 0 }"

definition cm_serial_size :: "nat \<Rightarrow> endianness \<Rightarrow> bytes \<Rightarrow> nat option" where
  "cm_serial_size sw e b = do { n \<leftarrow> get_payload_size sw e b; Some (size_mod sw (cm_PAYLOAD_POS sw + n)) }"

text \<open>\<^verbatim>\<open>serialize\<close> returns the buffer; \<^verbatim>\<open>de_serialize\<close> copies as many bytes as the buffer has.\<close>

definition cm_serialize :: "bytes \<Rightarrow> bytes" where
  "cm_serialize b = b"

definition cm_de_serialize :: "bytes \<Rightarrow> bytes \<Rightarrow> nat \<Rightarrow> bytes option" where
  "cm_de_serialize b buff offset = do { vs \<leftarrow> rd_bytes buff 0 (length b); memcpy b offset vs }"

definition cm_copy :: "nat \<Rightarrow> endianness \<Rightarrow> bytes \<Rightarrow> bytes \<Rightarrow> bytes option" where
  "cm_copy sw e b msg = do { len \<leftarrow> cm_serial_size sw e msg; vs \<leftarrow> rd_bytes msg 0 len; memcpy b 0 vs }"

definition csum :: "endianness \<Rightarrow> bytes \<Rightarrow> u16 option" where
  "csum e b = read_u16 e b cm_CSUM_POS"

definition compare_checksum :: "nat \<Rightarrow> endianness \<Rightarrow> bytes \<Rightarrow> bool option" where
  "compare_checksum sw e b = do {
     transmitted \<leftarrow> read_u16 e b cm_CSUM_POS;
     n \<leftarrow> get_payload_size sw e b;
     actual \<leftarrow> fletcher16_checksum b (cm_PAYLOAD_POS sw) n;
     Some (transmitted = actual) }"

section \<open>The checksum is Fletcher's\<close>

text \<open>The textbook definition: two sums modulo 255, the second over the first.\<close>

fun fletcher_sums :: "nat \<Rightarrow> nat \<Rightarrow> bytes \<Rightarrow> nat \<times> nat" where
  "fletcher_sums a b [] = (a, b)"
| "fletcher_sums a b (x # xs) = (let a' = (a + unat x) mod 255 in fletcher_sums a' ((b + a') mod 255) xs)"

text \<open>The code represents 0 modulo 255 by 255.\<close>

definition ones :: "nat \<Rightarrow> nat" where
  "ones n = (if n mod 255 = 0 then 255 else n mod 255)"

lemma ones_cong: "ones m = ones n \<longleftrightarrow> m mod 255 = n mod 255"
  using mod_less_divisor [of 255 m] mod_less_divisor [of 255 n] by (auto simp: ones_def simp del: mod_less_divisor)

lemma u8_le: "unat (x :: u8) \<le> 255"
  using unsigned_less [of x, where 'a = nat] by simp

lemma unat_add_small: "unat (a :: u16) + unat b < 65536 \<Longrightarrow> unat (a + b) = unat a + unat b"
  by (simp add: unat_word_ariths)

lemma unat_ucast_u16: "unat (ucast (x :: u8) :: u16) = unat x"
  using u8_le [of x] by (simp add: unsigned_ucast_eq take_bit_word_eq_self unsigned_take_bit_eq take_bit_nat_eq_self)

text \<open>A block does not overflow, and folding keeps a sum modulo 255.\<close>

lemma fletcher_block_sums:
  assumes "i + n \<le> length m" and "unat s1 + n * 255 < 65536" and "unat s2 + n * unat s1 + 255 * (n * (n + 1) div 2) < 65536"
  shows "\<exists>t1 t2. fletcher_block m i n s1 s2 = Some (t1, t2) \<and> unat s1 \<le> unat t1 \<and> unat s2 \<le> unat t2 \<and>
    (unat t1 mod 255, unat t2 mod 255) = fletcher_sums (unat s1 mod 255) (unat s2 mod 255) (take n (drop i m))"
  using assms
proof (induction n arbitrary: i s1 s2)
  case (Suc n)
  let ?b = "m ! i"
  have d: "take (Suc n) (drop i m) = ?b # take n (drop (Suc i) m)"
    using Suc.prems(1) by (metis Cons_nth_drop_Suc Suc_le_eq add_Suc_right le_trans less_add_Suc1 take_Suc_Cons)
  have gauss: "Suc n * (Suc n + 1) div 2 = n * (n + 1) div 2 + Suc n" by simp
  have b: "unat (ucast ?b :: u16) \<le> 255" using u8_le by (simp add: unat_ucast_u16)
  have s1: "unat (s1 + ucast ?b) = unat s1 + unat ?b"
    using Suc.prems(2) u8_le [of ?b] by (subst unat_add_small) (auto simp: unat_ucast_u16)
  have "unat s2 + (unat s1 + unat ?b) < 65536" using Suc.prems(3) u8_le [of ?b] unfolding gauss by simp
  then have s2: "unat (s2 + (s1 + ucast ?b)) = unat s2 + (unat s1 + unat ?b)"
    by (subst unat_add_small) (auto simp: s1)
  have "n * (unat s1 + unat ?b) \<le> n * unat s1 + n * 255" using u8_le [of ?b] by (simp add: algebra_simps)
  then have fits: "unat (s2 + (s1 + ucast ?b)) + n * unat (s1 + ucast ?b) + 255 * (n * (n + 1) div 2) < 65536"
    using Suc.prems(3) u8_le [of ?b] unfolding gauss s1 s2 by simp
  obtain t1 t2 where t: "fletcher_block m (Suc i) n (s1 + ucast ?b) (s2 + (s1 + ucast ?b)) = Some (t1, t2)"
      "unat (s1 + ucast ?b) \<le> unat t1" "unat (s2 + (s1 + ucast ?b)) \<le> unat t2"
      "(unat t1 mod 255, unat t2 mod 255) = fletcher_sums ((unat s1 + unat ?b) mod 255)
        ((unat s2 + (unat s1 + unat ?b)) mod 255) (take n (drop (Suc i) m))"
    using Suc.IH [of "Suc i" "s1 + ucast ?b" "s2 + (s1 + ucast ?b)"] fits Suc.prems(1,2) u8_le [of ?b]
    unfolding s1 s2 by auto
  have "((unat s2 mod 255) + (unat s1 mod 255 + unat ?b) mod 255) mod 255 = (unat s2 + (unat s1 + unat ?b)) mod 255"
    and "(unat s1 mod 255 + unat ?b) mod 255 = (unat s1 + unat ?b) mod 255"
    by (simp_all add: mod_simps)
  then show ?case using t Suc.prems(1) by (auto simp: d Let_def s1 s2)
qed auto

lemma fletcher_sums_append:
  "fletcher_sums a b (xs @ ys) = (case fletcher_sums a b xs of (a', b') \<Rightarrow> fletcher_sums a' b' ys)"
  by (induction a b xs rule: fletcher_sums.induct) (simp_all add: Let_def)

lemma fletcher_fold_nat: "unat (fletcher_fold s) = unat s mod 256 + unat s div 256"
proof -
  have "unat s div 256 < 256" using unsigned_less [of s, where 'a = nat] by (simp add: less_mult_imp_div_less)
  moreover have "unat (s AND 0xff) = unat s mod 256"
  proof -
    have "s AND 0xff = take_bit 8 s" by (simp add: mask_8 take_bit_eq_mask)
    then show ?thesis by (simp only: unsigned_take_bit_eq) (simp add: take_bit_eq_mod)
  qed
  moreover have "unat (drop_bit 8 s) = unat s div 256" by (simp only: unat_drop_bit_eq) (simp add: drop_bit_eq_div)
  moreover have "unat s mod 256 < 256" by simp
  ultimately show ?thesis unfolding fletcher_fold_def by (subst unat_add_small) auto
qed

lemma fletcher_fold:
  "unat (fletcher_fold s) \<le> 510" "unat (fletcher_fold s) mod 255 = unat s mod 255"
  "0 < unat s \<Longrightarrow> 0 < unat (fletcher_fold s)" "unat s \<le> 510 \<Longrightarrow> unat (fletcher_fold s) \<le> 255"
proof -
  have "unat s div 256 < 256" using unsigned_less [of s, where 'a = nat] by (simp add: less_mult_imp_div_less)
  then show "unat (fletcher_fold s) \<le> 510" using pos_mod_bound [of 256 "int (unat s)"] by (simp add: fletcher_fold_nat)
  have "unat s = 255 * (unat s div 256) + (unat s mod 256 + unat s div 256)" using mult_div_mod_eq [of 256 "unat s"] by simp
  then have "unat s mod 255 = (unat s mod 256 + unat s div 256) mod 255" by (metis mod_mult_self4)
  then show "unat (fletcher_fold s) mod 255 = unat s mod 255" by (simp add: fletcher_fold_nat)
  show "0 < unat s \<Longrightarrow> 0 < unat (fletcher_fold s)" by (auto simp: fletcher_fold_nat)
  show "unat s \<le> 510 \<Longrightarrow> unat (fletcher_fold s) \<le> 255"
    by (cases "unat s < 256") (auto simp: fletcher_fold_nat le_mod_geq le_div_geq not_less)
qed

lemma fletcher_loop_sums:
  assumes "i + n \<le> length m" and "unat s1 \<in> {1..510}" and "unat s2 \<in> {1..510}"
  shows "\<exists>t1 t2. fletcher_loop m i n s1 s2 = Some (t1, t2) \<and> unat t1 \<in> {1..510} \<and> unat t2 \<in> {1..510} \<and>
    (unat t1 mod 255, unat t2 mod 255) = fletcher_sums (unat s1 mod 255) (unat s2 mod 255) (take n (drop i m))"
  using assms
proof (induction n arbitrary: i s1 s2 rule: less_induct)
  case (less n)
  show ?case
  proof (cases "n = 0")
    case True
    then show ?thesis using less.prems by (simp add: fletcher_loop.simps)
  next
    case False
    define tlen where "tlen = (if n > 20 then 20 else n)"
    have tlen: "0 < tlen" "tlen \<le> 20" "tlen \<le> n" using False by (auto simp: tlen_def)
    have "tlen * unat s1 \<le> 20 * 510" using tlen less.prems(2) by (intro mult_le_mono) auto
    moreover have "tlen * (tlen + 1) div 2 \<le> 210"
    proof -
      have "tlen * (tlen + 1) \<le> 20 * 21" using tlen by (intro mult_le_mono) auto
      then show ?thesis by simp
    qed
    ultimately obtain t1 t2 where t: "fletcher_block m i tlen s1 s2 = Some (t1, t2)" "unat s1 \<le> unat t1" "unat s2 \<le> unat t2"
        "(unat t1 mod 255, unat t2 mod 255) = fletcher_sums (unat s1 mod 255) (unat s2 mod 255) (take tlen (drop i m))"
      using fletcher_block_sums [of i tlen m s1 s2] tlen less.prems by auto
    let ?u1 = "fletcher_fold t1" and ?u2 = "fletcher_fold t2"
    have "unat ?u1 \<in> {1..510}" "unat ?u2 \<in> {1..510}"
      using fletcher_fold(1,3) [of t1] fletcher_fold(1,3) [of t2] t(2,3) less.prems(2,3) by auto
    then obtain v1 v2 where v: "fletcher_loop m (i + tlen) (n - tlen) ?u1 ?u2 = Some (v1, v2)"
        "unat v1 \<in> {1..510}" "unat v2 \<in> {1..510}"
        "(unat v1 mod 255, unat v2 mod 255) = fletcher_sums (unat t1 mod 255) (unat t2 mod 255) (take (n - tlen) (drop (i + tlen) m))"
      using less.IH [of "n - tlen" "i + tlen" ?u1 ?u2] tlen less.prems(1) by (auto simp: fletcher_fold(2))
    have "take n (drop i m) = take tlen (drop i m) @ take (n - tlen) (drop (i + tlen) m)"
      using tlen take_add [of tlen "n - tlen" "drop i m"] by (simp add: add.commute)
    moreover have "fletcher_loop m i n s1 s2 = Some (v1, v2)"
      using False t(1) v(1) by (subst fletcher_loop.simps) (simp add: tlen_def [symmetric] Let_def del: fletcher_block.simps)
    ultimately show ?thesis using v t(4) by (auto simp: fletcher_sums_append split: prod.splits)
  qed
qed

lemma ones_of: "Suc 0 \<le> n \<Longrightarrow> n \<le> 255 \<Longrightarrow> ones n = n"
  by (cases "n = 255") (auto simp: ones_def)

lemma fletcher16_sums:
  assumes "i + n \<le> length m"
  shows "fletcher16_checksum m i n = Some (case fletcher_sums 0 0 (take n (drop i m)) of
    (a, b) \<Rightarrow> mk16 (word_of_nat (ones b)) (word_of_nat (ones a)))"
proof -
  obtain t1 t2 where t: "fletcher_loop m i n 0xff 0xff = Some (t1, t2)" "unat t1 \<in> {1..510}" "unat t2 \<in> {1..510}"
      "(unat t1 mod 255, unat t2 mod 255) = fletcher_sums 0 0 (take n (drop i m))"
    using fletcher_loop_sums [OF assms, of "0xff" "0xff"] by auto
  have fold: "fletcher_fold s = ucast (word_of_nat (ones (unat s)) :: u8)" if "unat s \<in> {1..510}" for s
  proof -
    have le: "unat (fletcher_fold s) \<in> {1..255}" using fletcher_fold(3,4) [of s] that by auto
    have "ones (unat s) = ones (unat (fletcher_fold s))" by (simp add: ones_cong fletcher_fold(2))
    also have "\<dots> = unat (fletcher_fold s)" using le by (simp add: ones_of)
    finally show ?thesis using le
      by (intro unsigned_word_eqI [where ?'a = nat]) (simp add: unat_ucast_u16 unsigned_ucast_eq unsigned_take_bit_eq take_bit_nat_eq_self)
  qed
  have "ones (unat t) = ones (unat t mod 255)" for t :: u16 by (simp add: ones_cong)
  then show ?thesis using t(1,4) fold [OF t(2)] fold [OF t(3)]
    by (auto simp: fletcher16_checksum_def mk16_def split: prod.splits)
qed

section \<open>A message on the wire\<close>

definition fletcher_of :: "bytes \<Rightarrow> u16" where
  "fletcher_of pl = (case fletcher_sums 0 0 pl of (a, b) \<Rightarrow> mk16 (word_of_nat (ones b)) (word_of_nat (ones a)))"

lemma fletcher16_of: "i + n \<le> length m \<Longrightarrow> fletcher16_checksum m i n = Some (fletcher_of (take n (drop i m)))"
  by (simp add: fletcher16_sums fletcher_of_def)

definition size_bytes :: "nat \<Rightarrow> nat \<Rightarrow> bytes" where
  "size_bytes sw n = (if sw = 1 then [word_of_nat n] else [hi8 (word_of_nat n), lo8 (word_of_nat n)])"

definition message_bytes :: "nat \<Rightarrow> u8 \<Rightarrow> bytes \<Rightarrow> bytes" where
  "message_bytes sw mid pl = [mid, hi8 (fletcher_of pl), lo8 (fletcher_of pl)] @ size_bytes sw (length pl) @ pl"

definition size_width :: "nat \<Rightarrow> bool" where
  "size_width sw \<longleftrightarrow> sw = 1 \<or> sw = 2"

lemma length_size_bytes [simp]: "size_width sw \<Longrightarrow> length (size_bytes sw n) = sw"
  by (auto simp: size_bytes_def size_width_def)

lemma length_message_bytes [simp]: "size_width sw \<Longrightarrow> length (message_bytes sw mid pl) = 3 + sw + length pl"
  by (simp add: message_bytes_def)

lemma u16_size: "n < 65536 \<Longrightarrow> unat (word_of_nat n :: u16) = n"
  by (simp add: unat_of_nat)

lemma drop_345_Cons:
  "drop (3 + n) (a # b # c # xs) = drop n xs" "drop (4 + n) (a # b # c # d # xs) = drop n xs"
  "drop (5 + n) (a # b # c # d # e # xs) = drop n xs"
  by (simp_all add: numeral_eq_Suc)

lemma message_get:
  assumes "size_width sw" and "length pl < 256 ^ sw"
  shows "get_message_id e (message_bytes sw mid pl @ rest) = Some mid"
    and "get_payload_size sw e (message_bytes sw mid pl @ rest) = Some (length pl)"
    and "get_payload sw (message_bytes sw mid pl @ rest) = pl @ rest"
    and "csum e (message_bytes sw mid pl @ rest) = Some (fletcher_of pl)"
    and "compare_checksum sw e (message_bytes sw mid pl @ rest) = Some True"
    and "cm_serial_size sw e (message_bytes sw mid pl @ rest) = Some (size_mod sw (3 + sw + length pl))"
proof -
  let ?b = "message_bytes sw mid pl @ rest"
  show "get_message_id e ?b = Some mid" and "csum e ?b = Some (fletcher_of pl)"
    by (simp_all add: get_message_id_def csum_def message_bytes_def put_simps)
  show size: "get_payload_size sw e ?b = Some (length pl)"
    using assms by (auto simp: get_payload_size_def get_size_def message_bytes_def size_bytes_def put_simps size_width_def
        u16_size unat_of_nat)
  show "get_payload sw ?b = pl @ rest"
    using assms(1) by (simp add: get_payload_def message_bytes_def drop_345_Cons)
  have "take (length pl) (drop (3 + sw) ?b) = pl" using assms(1) by (simp add: message_bytes_def drop_345_Cons)
  then have "fletcher16_checksum ?b (3 + sw) (length pl) = Some (fletcher_of pl)"
    using assms(1) by (subst fletcher16_of) simp_all
  moreover have "read_u16 e ?b 1 = Some (fletcher_of pl)" by (simp add: message_bytes_def put_simps)
  ultimately show "compare_checksum sw e ?b = Some True" by (simp add: compare_checksum_def size)
  show "cm_serial_size sw e ?b = Some (size_mod sw (3 + sw + length pl))" by (simp add: cm_serial_size_def size)
qed

text \<open>Building a message in an object whose memory is \<open>b\<close>.\<close>

lemma length_ge_Cons: "Suc n \<le> length xs \<longleftrightarrow> (\<exists>y ys. xs = y # ys \<and> n \<le> length ys)"
  by (cases xs) auto

lemma message_build:
  assumes "size_width sw" and "3 + sw + len \<le> length b" and "len \<le> length buff"
  shows "(do { b \<leftarrow> set_message_id e b mid; set_payload sw e b len buff 0 }) =
    Some (message_bytes sw mid (take len buff) @ drop (3 + sw + len) b)"
proof -
  have cs: "fletcher16_checksum buff 0 len = Some (fletcher_of (take len buff))"
    using assms(3) by (simp add: fletcher16_of)
  have len: "length (take len buff) = len" using assms(3) by simp
  from assms(1) consider "sw = 1" | "sw = 2" by (auto simp: size_width_def)
  then show ?thesis
  proof cases
    case 1
    then obtain b0 b1 b2 b3 js where b: "b = b0 # b1 # b2 # b3 # js" and js: "len \<le> length js"
      using assms(2) by (auto simp: numeral_eq_Suc length_ge_Cons)
    then show ?thesis using assms(3) 1 cs len
      by (simp add: set_message_id_def set_payload_def put_size_def put_simps message_bytes_def size_bytes_def memcpy_def rd_bytes_def
          drop_345_Cons)
  next
    case 2
    then obtain b0 b1 b2 b3 b4 js where b: "b = b0 # b1 # b2 # b3 # b4 # js" and js: "len \<le> length js"
      using assms(2) by (auto simp: numeral_eq_Suc length_ge_Cons)
    then show ?thesis using assms(3) 2 cs len
      by (simp add: set_message_id_def set_payload_def put_size_def put_simps message_bytes_def size_bytes_def memcpy_def rd_bytes_def
          drop_345_Cons)
  qed
qed

section \<open>What the checksum detects\<close>

lemma mod_add_cancel: "(b + c) mod 255 = (b' + c) mod 255 \<longleftrightarrow> b mod 255 = b' mod (255 :: nat)"
proof -
  have "(int b + int c) mod 255 = (int b' + int c) mod 255 \<longleftrightarrow> int b mod 255 = int b' mod 255"
    by (simp add: mod_eq_dvd_iff)
  then have "int ((b + c) mod 255) = int ((b' + c) mod 255) \<longleftrightarrow> int (b mod 255) = int (b' mod 255)"
    by (simp add: zmod_int)
  then show ?thesis by simp
qed

lemma fletcher_sums_fst: "a < 255 \<Longrightarrow> fst (fletcher_sums a b xs) = (a + sum_list (map unat xs)) mod 255"
proof (induction xs arbitrary: a b)
  case (Cons x xs)
  then show ?case by (simp add: Let_def mod_add_left_eq add.assoc)
qed simp

lemma fletcher_sums_less: "a < 255 \<Longrightarrow> b < 255 \<Longrightarrow> fst (fletcher_sums a b xs) < 255 \<and> snd (fletcher_sums a b xs) < 255"
  by (induction xs arbitrary: a b) (simp_all add: Let_def)

lemma fletcher_sums_snd: "b mod 255 \<noteq> b' mod 255 \<Longrightarrow>
    snd (fletcher_sums a b xs) mod 255 \<noteq> snd (fletcher_sums a b' xs) mod 255"
proof (induction xs arbitrary: a b b')
  case (Cons x xs)
  then show ?case by (simp add: Let_def mod_add_cancel)
qed simp

lemma fletcher_of_eq: "fletcher_of xs = fletcher_of ys \<longleftrightarrow> fletcher_sums 0 0 xs = fletcher_sums 0 0 ys"
proof -
  obtain a b where x: "fletcher_sums 0 0 xs = (a, b)" by force
  obtain c d where y: "fletcher_sums 0 0 ys = (c, d)" by force
  have less: "a < 255" "b < 255" "c < 255" "d < 255"
    using fletcher_sums_less [of 0 0 xs] fletcher_sums_less [of 0 0 ys] by (simp_all add: x y)
  have inj: "(word_of_nat (ones m) :: u8) = word_of_nat (ones n) \<longleftrightarrow> m mod 255 = n mod 255" for m n
  proof -
    have "ones k < 256" for k using mod_less_divisor [of 255 k] by (simp add: ones_def del: mod_less_divisor)
    then have "unat (word_of_nat (ones k) :: u8) = ones k" for k by (simp add: unat_of_nat)
    then show ?thesis by (metis ones_cong)
  qed
  have "mk16 h l = mk16 h' l' \<longleftrightarrow> h = h' \<and> l = l'" for h l h' l' by (metis hi8_mk16 lo8_mk16)
  then show ?thesis using less by (auto simp: fletcher_of_def x y inj)
qed

lemma fletcher_detects_change:
  assumes "j < length xs" and "unat v mod 255 \<noteq> unat (xs ! j) mod 255"
  shows "fletcher_of (xs[j := v]) \<noteq> fletcher_of xs"
proof
  assume "fletcher_of (xs[j := v]) = fletcher_of xs"
  then have "fletcher_sums 0 0 (xs[j := v]) = fletcher_sums 0 0 xs" by (simp add: fletcher_of_eq)
  then have "fst (fletcher_sums 0 0 (xs[j := v])) = fst (fletcher_sums 0 0 xs)" by simp
  then have eq: "sum_list (map unat (xs[j := v])) mod 255 = sum_list (map unat xs) mod 255"
    by (simp add: fletcher_sums_fst)
  obtain ys zs where xs: "xs = ys @ xs ! j # zs" "length ys = j"
    using assms(1) id_take_nth_drop [of j xs] by (metis length_take min.absorb4)
  define x where "x = xs ! j"
  have "xs[j := v] = ys @ v # zs" and "xs = ys @ x # zs" using xs unfolding x_def [symmetric] by auto
  then have "(unat v + sum_list (map unat (ys @ zs))) mod 255 = (unat x + sum_list (map unat (ys @ zs))) mod 255"
    using eq by (simp add: add.commute add.left_commute)
  then show False using assms(2) by (simp only: mod_add_cancel x_def)
qed

lemma fletcher_detects_exchange:
  assumes "unat x mod 255 \<noteq> unat y mod 255"
  shows "fletcher_of (xs @ x # y # ys) \<noteq> fletcher_of (xs @ y # x # ys)"
proof -
  obtain a b where ab: "fletcher_sums 0 0 xs = (a, b)" by force
  have "(a + unat x) mod 255 \<noteq> (a + unat y) mod 255"
    using assms mod_add_cancel [of "unat x" a "unat y"] by (simp add: add.commute)
  then have "(b + (a + unat x) mod 255 + (a + unat x + unat y) mod 255) mod 255 \<noteq>
      (b + (a + unat y) mod 255 + (a + unat x + unat y) mod 255) mod 255"
    using mod_add_cancel [of "(a + unat x) mod 255" b "(a + unat y) mod 255"]
    by (simp add: mod_add_cancel add.commute [of b])
  then have *: "((b + (a + unat x) mod 255) mod 255 + (a + unat x + unat y) mod 255) mod 255 mod 255 \<noteq>
      ((b + (a + unat y) mod 255) mod 255 + (a + unat x + unat y) mod 255) mod 255 mod 255"
    by (simp add: mod_add_left_eq)
  have "((a + unat x) mod 255 + unat y) mod 255 = (a + unat x + unat y) mod 255" by (rule mod_add_left_eq)
  moreover have "((a + unat y) mod 255 + unat x) mod 255 = (a + unat x + unat y) mod 255"
    using mod_add_left_eq [of "a + unat y" 255 "unat x"] by (simp only: add.assoc add.commute [of "unat y"])
  ultimately show ?thesis
    using fletcher_sums_snd [OF *, of "(a + unat x + unat y) mod 255" ys] by (auto simp: fletcher_of_eq fletcher_sums_append ab Let_def)
qed

lemma split_at_two: "Suc j < length zs \<Longrightarrow> zs = take j zs @ zs ! j # zs ! Suc j # drop (Suc (Suc j)) zs"
  by (simp add: Cons_nth_drop_Suc)

lemma compare_checksum_payload:
  assumes "size_width sw" and "compare_checksum sw e b = Some True" and "get_payload_size sw e b = Some n"
    and "3 + sw + n \<le> length b" and "take (3 + sw) b' = take (3 + sw) b" and "length b' = length b"
  shows "compare_checksum sw e b' =
    Some (fletcher_of (take n (drop (3 + sw) b')) = fletcher_of (take n (drop (3 + sw) b)))"
proof -
  have nth: "b' ! k = b ! k" if "k < 3 + sw" for k using that assms(5) by (metis nth_take)
  have "get_payload_size sw e b' = Some n" and "read_u16 e b' 1 = read_u16 e b 1"
    using assms(1,3,4,6) nth [of 1] nth [of 2] nth [of 3] nth [of 4]
    by (auto simp: get_payload_size_def get_size_def put_simps size_width_def rd_def numeral_eq_Suc)
  then show ?thesis
    using assms(2-4,6) by (auto simp: compare_checksum_def fletcher16_of mem_simps)
qed

section \<open>Properties\<close>

text \<open>The checksum loop, which adds blocks of 20 bytes in 16 bits and folds the sums in between,
  computes Fletcher's checksum, the two sums modulo 255, for a memory of any length: nothing is lost
  to overflow. (A sum of 0 is represented by 255.)\<close>

theorem fletcher16_is_fletcher:
  assumes "i + n \<le> length m"
  shows "fletcher16_checksum m i n = Some (case fletcher_sums 0 0 (take n (drop i m)) of
    (a, b) \<Rightarrow> mk16 (word_of_nat (ones b)) (word_of_nat (ones a)))"
  using assms by (rule fletcher16_sums)

lemma fletcher16_is_fletcher_witness:
  "fletcher16_checksum [9, 1, 2, 255] 1 3 = Some (mk16 7 3)"
  using fletcher16_is_fletcher [of 1 3 "[9, 1, 2, 255]"] by (simp add: Let_def ones_def)

text \<open>C40: A message whose checksum is right is rejected when one byte of its payload is changed by
  something else than 255, and when two neighbouring bytes of it are exchanged that differ by
  something else than 255.\<close>

theorem checksum_detects:
  assumes "size_width sw" and "compare_checksum sw e b = Some True" and "get_payload_size sw e b = Some n"
    and "3 + sw + n \<le> length b"
  shows "(\<forall>j. \<forall>v :: u8. j < n \<and> unat v mod 255 \<noteq> unat (b ! (3 + sw + j)) mod 255 \<longrightarrow>
      compare_checksum sw e (b[3 + sw + j := v]) = Some False) \<and>
    (\<forall>j. Suc j < n \<and> unat (b ! (3 + sw + j)) mod 255 \<noteq> unat (b ! (3 + sw + Suc j)) mod 255 \<longrightarrow>
      compare_checksum sw e (b[3 + sw + j := b ! (3 + sw + Suc j), 3 + sw + Suc j := b ! (3 + sw + j)]) = Some False)"
proof (intro conjI allI impI; elim conjE)
  let ?pl = "\<lambda>b. take n (drop (3 + sw) b)"
  note compare = compare_checksum_payload [OF assms]
  fix j and v :: u8 assume j: "j < n" "unat v mod 255 \<noteq> unat (b ! (3 + sw + j)) mod 255"
  have "?pl (b[3 + sw + j := v]) = (?pl b)[j := v]" by (simp add: drop_update_swap take_update_swap)
  then show "compare_checksum sw e (b[3 + sw + j := v]) = Some False"
    using compare [of "b[3 + sw + j := v]"] fletcher_detects_change [of j "?pl b" v] j assms(4) by simp
next
  let ?pl = "\<lambda>b. take n (drop (3 + sw) b)"
  note compare = compare_checksum_payload [OF assms]
  fix j assume j: "Suc j < n" "unat (b ! (3 + sw + j)) mod 255 \<noteq> unat (b ! (3 + sw + Suc j)) mod 255"
  let ?b = "b[3 + sw + j := b ! (3 + sw + Suc j), 3 + sw + Suc j := b ! (3 + sw + j)]"
  define xs x y ys where "xs = take j (?pl b)" and "x = ?pl b ! j" and "y = ?pl b ! Suc j" and "ys = drop (Suc (Suc j)) (?pl b)"
  have "?pl b = xs @ x # y # ys"
    using split_at_two [of j "?pl b"] j(1) assms(4) unfolding xs_def x_def y_def ys_def by simp
  moreover have xy: "x = b ! (3 + sw + j)" "y = b ! (3 + sw + Suc j)" using j(1) assms(4) by (simp_all add: x_def y_def)
  moreover have "?pl ?b = (?pl b)[j := y, Suc j := x]"
    using calculation(2,3) by (simp add: drop_update_swap take_update_swap)
  moreover have "length xs = j" using j(1) assms(4) by (simp add: xs_def)
  ultimately have "?pl b = xs @ x # y # ys" and "?pl ?b = xs @ y # x # ys" by (simp_all add: list_update_append)
  then show "compare_checksum sw e ?b = Some False"
    using compare [of ?b] fletcher_detects_exchange [of x y xs ys] j(2) xy by simp
qed

lemma checksum_detects_witness:
  "compare_checksum 1 WISELIB_BIG_ENDIAN ((message_bytes 1 7 [1, 2])[3 + 1 + 1 := 3]) = Some False \<and>
   compare_checksum 1 WISELIB_BIG_ENDIAN ((message_bytes 1 7 [1, 2])[3 + 1 + 0 := 2, 3 + 1 + Suc 0 := 1]) = Some False"
proof -
  have w: "size_width 1" by (simp add: size_width_def)
  note get = message_get [OF w, where pl = "[1, 2]" and mid = 7 and rest = "[]", simplified]
  let ?b = "message_bytes 1 7 [1, 2]"
  have nth: "?b ! 4 = 1" "?b ! 5 = 2" by (simp_all add: message_bytes_def size_bytes_def)
  have len: "3 + 1 + 2 \<le> length ?b" using w by simp
  have get': "compare_checksum 1 WISELIB_BIG_ENDIAN ?b = Some True" "get_payload_size 1 WISELIB_BIG_ENDIAN ?b = Some 2" using get by simp_all
  note detects = checksum_detects [OF w get' len]
  show ?thesis
  proof
    show "compare_checksum 1 WISELIB_BIG_ENDIAN (?b[3 + 1 + 1 := 3]) = Some False"
      using conjunct1 [OF detects, rule_format, of 1 3] nth by simp
    show "compare_checksum 1 WISELIB_BIG_ENDIAN (?b[3 + 1 + 0 := 2, 3 + 1 + Suc 0 := 1]) = Some False"
      using conjunct2 [OF detects, rule_format, of 0] nth by simp
  qed
qed

end
