(* ===== verification/Fragmenting.thy ===== *)
theory Fragmenting
  imports Checked_Message Vector_Static
begin

text \<open>
  \<^verbatim>\<open>wiselib.testing/radio/fragmenting\<close>: a radio that sends messages longer than those of the
  radio below in fragments. \<open>Fragment_Type\<close>, \<open>FragmentingMessage_Type\<close> and the operations of
  \<open>FragmentingRadio_Type\<close>. Its messages have sizes of two bytes (\<^verbatim>\<open>sizeof(size_t)\<close> is 2), those
  of the radio below of one. Assigning a fragment copies only the bytes of the payload that are in
  use; the others are never read, so the model copies the whole record.
\<close>

section \<open>Fragment_Type\<close>

record fragment =
  frg_id :: u16
  frg_orig_id :: u8
  frg_seq_fragment :: u8
  frg_total_fragments :: u8
  frg_payload :: bytes
  frg_payload_size :: u8

definition frg_new :: "bytes \<Rightarrow> fragment" where
  "frg_new junk = \<lparr>frg_id = 0, frg_orig_id = 0, frg_seq_fragment = 0, frg_total_fragments = 0,
     frg_payload = junk, frg_payload_size = 0\<rparr>"

text \<open>\<open>mem\<close> is the memory the argument points into, at \<open>pos\<close>.\<close>

definition frg_set_payload :: "fragment \<Rightarrow> nat \<Rightarrow> bytes \<Rightarrow> nat \<Rightarrow> fragment option" where
  "frg_set_payload f len mem pos = do {
     vs \<leftarrow> rd_bytes mem pos (unat (word_of_nat len :: u8));
     p \<leftarrow> memcpy (frg_payload f) 0 vs;
     Some (f\<lparr>frg_payload_size := word_of_nat len, frg_payload := p\<rparr>) }"

abbreviation (input) "frg_PAYLOAD_POS \<equiv> 6 :: nat"

definition frg_serialize :: "endianness \<Rightarrow> fragment \<Rightarrow> bytes \<Rightarrow> bytes option" where
  "frg_serialize e f buff = do {
     b \<leftarrow> put16 e buff 0 (frg_id f);
     b \<leftarrow> put8 e b 2 (frg_orig_id f);
     b \<leftarrow> put8 e b 3 (frg_seq_fragment f);
     b \<leftarrow> put8 e b 4 (frg_total_fragments f);
     b \<leftarrow> put8 e b 5 (frg_payload_size f);
     vs \<leftarrow> rd_bytes (frg_payload f) 0 (unat (frg_payload_size f));
     memcpy b frg_PAYLOAD_POS vs }"

definition frg_de_serialize :: "endianness \<Rightarrow> fragment \<Rightarrow> bytes \<Rightarrow> fragment option" where
  "frg_de_serialize e f buff = do {
     i \<leftarrow> read_u16 e buff 0;
     oi \<leftarrow> read_u8 e buff 2;
     sq \<leftarrow> read_u8 e buff 3;
     t \<leftarrow> read_u8 e buff 4;
     n \<leftarrow> read_u8 e buff 5;
     vs \<leftarrow> rd_bytes buff frg_PAYLOAD_POS (unat n);
     p \<leftarrow> memcpy (frg_payload f) 0 vs;
     Some \<lparr>frg_id = i, frg_orig_id = oi, frg_seq_fragment = sq, frg_total_fragments = t,
       frg_payload = p, frg_payload_size = n\<rparr> }"

definition frg_serial_size :: "fragment \<Rightarrow> nat" where
  "frg_serial_size f = (frg_PAYLOAD_POS + unat (frg_payload_size f)) mod 256"

section \<open>FragmentingMessage_Type\<close>

record fragmenting_message =
  fgm_id :: u16
  fgm_orig_id :: u8
  fgm_timestamp :: u32
  fgm_active :: bool
  fgm_fragments :: "fragment vector_static"

abbreviation (input) "FR_MAX_FRAGMENTS \<equiv> 7 :: nat"

definition fgm_new :: "bytes \<Rightarrow> fragmenting_message" where
  "fgm_new junk = \<lparr>fgm_id = 0, fgm_orig_id = 0, fgm_timestamp = 0, fgm_active = False,
     fgm_fragments = vs_new (replicate FR_MAX_FRAGMENTS (frg_new junk))\<rparr>"

text \<open>0: no fragment yet, 1: complete, 2: incomplete.\<close>

definition check_completeness :: "fragmenting_message \<Rightarrow> nat option" where
  "check_completeness m =
     (if vs_size (fgm_fragments m) \<noteq> 0 then do {
        f \<leftarrow> vs_at (fgm_fragments m) 0;
        Some (if vs_size (fgm_fragments m) = unat (frg_total_fragments f) then 1 else 2) }
      else Some 0)"

definition insert_unique :: "fragmenting_message \<Rightarrow> fragment \<Rightarrow> fragmenting_message option" where
  "insert_unique m f = do {
     c \<leftarrow> check_completeness m;
     if c = 0 then Some (m\<lparr>fgm_fragments := vs_push_back (fgm_fragments m) f\<rparr>)
     else if c = 2 then
       (let flag = (\<exists>x \<in> set (elems (fgm_fragments m)). frg_seq_fragment f = frg_seq_fragment x) in
        if \<not> flag then Some (m\<lparr>fgm_fragments := vs_push_back (fgm_fragments m) f\<rparr>) else Some m)
     else Some m }"

definition fgm_fragment :: "fragmenting_message \<Rightarrow> bytes \<Rightarrow> nat \<Rightarrow> nat \<Rightarrow> nat \<Rightarrow> bytes \<Rightarrow> nat \<Rightarrow> fragment option" where
  "fgm_fragment m junk i tot len mem pos =
     frg_set_payload ((frg_new junk)\<lparr>frg_id := fgm_id m, frg_orig_id := fgm_orig_id m,
       frg_seq_fragment := word_of_nat i, frg_total_fragments := word_of_nat tot\<rparr>) len mem pos"

text \<open>The first loop makes the fragments \<open>i\<close>, \<open>i + 1\<close>, ..., as many as \<open>n\<close>.\<close>

fun vectorize_loop :: "bytes \<Rightarrow> nat \<Rightarrow> nat \<Rightarrow> bytes \<Rightarrow> nat \<Rightarrow> nat \<Rightarrow> nat \<Rightarrow> fragmenting_message \<Rightarrow> fragmenting_message option" where
  "vectorize_loop junk tot mr_len buff offset i 0 m = Some m"
| "vectorize_loop junk tot mr_len buff offset i (Suc n) m = do {
     f \<leftarrow> fgm_fragment m junk i tot mr_len buff (offset + i * mr_len);
     vectorize_loop junk tot mr_len buff offset (i + 1) n (m\<lparr>fgm_fragments := vs_push_back (fgm_fragments m) f\<rparr>) }"

definition vectorize :: "bytes \<Rightarrow> fragmenting_message \<Rightarrow> bytes \<Rightarrow> nat \<Rightarrow> nat \<Rightarrow> nat \<Rightarrow> fragmenting_message option" where
  "vectorize junk m buff len mr_len offset =
     (let last_fragment_bytes = len mod mr_len;
          number_of_fragments = (if last_fragment_bytes \<noteq> 0 then len div mr_len + 1 else len div mr_len);
          i = number_of_fragments - 1 in do {
        m \<leftarrow> vectorize_loop junk number_of_fragments mr_len buff offset 0 i m;
        if last_fragment_bytes \<noteq> 0 then do {
          f \<leftarrow> fgm_fragment m junk i number_of_fragments last_fragment_bytes buff (offset + i * mr_len);
          Some (m\<lparr>fgm_fragments := vs_push_back (fgm_fragments m) f\<rparr>) }
        else Some m })"

fun de_vectorize_loop :: "fragment list \<Rightarrow> bytes \<Rightarrow> nat \<Rightarrow> bytes option" where
  "de_vectorize_loop [] buff i = Some buff"
| "de_vectorize_loop (f # fs) buff i = do {
     vs \<leftarrow> rd_bytes (frg_payload f) 0 (unat (frg_payload_size f));
     buff \<leftarrow> memcpy buff i vs;
     de_vectorize_loop fs buff (i + unat (frg_payload_size f)) }"

definition de_vectorize :: "fragmenting_message \<Rightarrow> bytes \<Rightarrow> bytes option" where
  "de_vectorize m buff = de_vectorize_loop (elems (fgm_fragments m)) buff 0"

definition fgm_serial_size :: "fragmenting_message \<Rightarrow> nat" where
  "fgm_serial_size m = sum_list (map (\<lambda>f. unat (frg_payload_size f)) (elems (fgm_fragments m))) mod 65536"

section \<open>FragmentingRadio_Type\<close>

abbreviation (input) "FR_MESSAGE \<equiv> 14 :: u8"
abbreviation (input) "FR_MAX_MESSAGE_LENGTH \<equiv> 1024 :: nat"

datatype fr_error = FR_SUCCESS | FR_PROT_LIST_FULL | FR_INACTIVE

record 'c frag_radio =
  fr_active :: bool
  fr_callbacks :: "'c vector_static"
  fragmenting_messages :: "fragmenting_message vector_static"
  fr_daemon_period :: u32
  fragmenting_message_timeout :: u32

text \<open>What the radio asks of its surroundings: to send below, to call a receiver with a length and the
  buffer of a message, to set the timer of the daemon.\<close>

datatype 'c frag_call =
    Frag_enable | Frag_reg | Frag_unreg | Frag_disable
  | Frag_send node_id bytes
  | Frag_notify 'c node_id nat bytes
  | Frag_timer u32

definition fr_new :: "'c list \<Rightarrow> bytes \<Rightarrow> 'c frag_radio" where
  "fr_new cb_junk junk = \<lparr>fr_active = False, fr_callbacks = vs_new cb_junk,
     fragmenting_messages = vs_new (replicate 5 (fgm_new junk)), fr_daemon_period = 1000, fragmenting_message_timeout = 1000\<rparr>"

text \<open>\<open>current_time\<close> is the clock in milliseconds.\<close>

definition fr_expire :: "u32 \<Rightarrow> u32 \<Rightarrow> fragmenting_message \<Rightarrow> fragmenting_message" where
  "fr_expire timeout current_time m =
     (let m = (if current_time < fgm_timestamp m then m\<lparr>fgm_timestamp := current_time\<rparr> else m)
      in if current_time > fgm_timestamp m + timeout \<and> fgm_active m then m\<lparr>fgm_active := False\<rparr> else m)"

definition fr_daemon :: "u32 \<Rightarrow> 'c frag_radio \<Rightarrow> 'c frag_radio \<times> 'c frag_call list" where
  "fr_daemon current_time st =
     (if fr_active st then
        (st\<lparr>fragmenting_messages := vs_store (fragmenting_messages st)
            (map (fr_expire (fragmenting_message_timeout st) current_time) (elems (fragmenting_messages st)))\<rparr>,
         [Frag_timer (fr_daemon_period st)])
      else (st, []))"

definition fr_enable_radio :: "u32 \<Rightarrow> 'c frag_radio \<Rightarrow> 'c frag_radio \<times> 'c frag_call list" where
  "fr_enable_radio now st = (let (st, calls) = fr_daemon now (st\<lparr>fr_active := True\<rparr>) in (st, [Frag_enable, Frag_reg] @ calls))"

definition fr_disable_radio :: "'c frag_radio \<Rightarrow> 'c frag_radio \<times> 'c frag_call list" where
  "fr_disable_radio st = (st\<lparr>fr_active := False\<rparr>, [Frag_unreg, Frag_disable])"

text \<open>\<open>below\<close> is \<^verbatim>\<open>radio().reserved_bytes()\<close>.\<close>

definition fr_reserved_bytes :: "nat \<Rightarrow> nat" where
  "fr_reserved_bytes below = (below + frg_serial_size (frg_new [])) mod 65536"

text \<open>The message of the radio below that carries a fragment. \<open>junk\<close> is memory for local objects.\<close>

definition fr_carry :: "os_model \<Rightarrow> bytes \<Rightarrow> node_id \<Rightarrow> fragment \<Rightarrow> 'c frag_call option" where
  "fr_carry os junk dest f = (let e = os_endianness os in do {
     mf \<leftarrow> cm_new 1 e (take (MAX_MESSAGE_LENGTH os) junk);
     mf \<leftarrow> set_message_id e mf FR_MESSAGE;
     buff \<leftarrow> frg_serialize e f (take (MAX_MESSAGE_LENGTH os) junk);
     mf \<leftarrow> set_payload 1 e mf (frg_serial_size f) buff 0;
     sz \<leftarrow> cm_serial_size 1 e mf;
     bs \<leftarrow> rd_bytes mf 0 sz;
     Some (Frag_send dest bs) })"

fun fr_carry_all :: "os_model \<Rightarrow> bytes \<Rightarrow> node_id \<Rightarrow> fragment list \<Rightarrow> 'c frag_call list option" where
  "fr_carry_all os junk dest [] = Some []"
| "fr_carry_all os junk dest (f # fs) = do {
     c \<leftarrow> fr_carry os junk dest f; cs \<leftarrow> fr_carry_all os junk dest fs; Some (c # cs) }"

text \<open>\<open>random\<close> is what the random number generator returns.\<close>

definition fr_send :: "os_model \<Rightarrow> nat \<Rightarrow> nat \<Rightarrow> bytes \<Rightarrow> 'c frag_radio \<Rightarrow> node_id \<Rightarrow> nat \<Rightarrow> bytes \<Rightarrow>
    'c frag_call list option" where
  "fr_send os below random junk st dest len data = (let e = os_endianness os in
     if fr_active st then
       if MAX_MESSAGE_LENGTH os \<ge> len then do {
         m \<leftarrow> cm_new 2 e (take FR_MAX_MESSAGE_LENGTH junk);
         m \<leftarrow> cm_de_serialize m data 0;
         mn \<leftarrow> cm_new 1 e (take (MAX_MESSAGE_LENGTH os) junk);
         mid \<leftarrow> get_message_id e m;
         mn \<leftarrow> set_message_id e mn mid;
         n \<leftarrow> get_payload_size 2 e m;
         mn \<leftarrow> set_payload 1 e mn (n mod 256) (get_payload 2 m) 0;
         sz \<leftarrow> cm_serial_size 1 e mn;
         bs \<leftarrow> rd_bytes mn 0 sz;
         Some [Frag_send dest bs] }
       else if MAX_MESSAGE_LENGTH os > fr_reserved_bytes below then do {
         m \<leftarrow> cm_new 2 e (take FR_MAX_MESSAGE_LENGTH junk);
         internal_reserved_bytes \<leftarrow> cm_serial_size 2 e m;
         m \<leftarrow> cm_de_serialize m data 0;
         mid \<leftarrow> get_message_id e m;
         fm \<leftarrow> vectorize (take (MAX_MESSAGE_LENGTH os) junk)
                 ((fgm_new (take (MAX_MESSAGE_LENGTH os) junk))\<lparr>fgm_id := word_of_nat (random mod 0xffff), fgm_orig_id := mid\<rparr>)
                 data (len - internal_reserved_bytes) ((MAX_MESSAGE_LENGTH os - fr_reserved_bytes below) mod 256)
                 internal_reserved_bytes;
         fr_carry_all os junk dest (elems (fgm_fragments fm)) }
       else Some []
     else Some [])"

text \<open>The loop over the stored messages: every active one with the id of the fragment takes it; the
  first that becomes complete ends the loop and is returned, with the stored messages. Otherwise the
  result says whether there was one.\<close>

fun fr_match :: "fragment \<Rightarrow> fragmenting_message list \<Rightarrow> (fragmenting_message list \<times> fragmenting_message option \<times> bool) option" where
  "fr_match f [] = Some ([], None, False)"
| "fr_match f (m # ms) =
     (if fgm_id m = frg_id f \<and> fgm_active m then do {
        m \<leftarrow> insert_unique m f;
        c \<leftarrow> check_completeness m;
        if c = 1 then Some (m\<lparr>fgm_active := False\<rparr> # ms, Some m, True)
        else do { (ms, r, flag) \<leftarrow> fr_match f ms; Some (m # ms, r, True) } }
      else do { (ms, r, flag) \<leftarrow> fr_match f ms; Some (m # ms, r, flag) })"

text \<open>A new message takes the place of every inactive one, or is added when there is none.\<close>

definition fr_insert :: "fragmenting_message vector_static \<Rightarrow> fragmenting_message \<Rightarrow> fragmenting_message vector_static" where
  "fr_insert v fm =
     (let flag2 = (\<exists>m \<in> set (elems v). \<not> fgm_active m);
          v = vs_store v (map (\<lambda>m. if fgm_active m then m else fm) (elems v))
      in if flag2 then v else vs_push_back v fm)"

definition fr_notify :: "'c frag_radio \<Rightarrow> node_id \<Rightarrow> nat \<Rightarrow> bytes \<Rightarrow> 'c frag_call list" where
  "fr_notify st from len b = map (\<lambda>c. Frag_notify c from len b) (elems (fr_callbacks st))"

definition fr_receive_fragment :: "os_model \<Rightarrow> bytes \<Rightarrow> u32 \<Rightarrow> 'c frag_radio \<Rightarrow> node_id \<Rightarrow> fragment \<Rightarrow>
    ('c frag_radio \<times> 'c frag_call list) option" where
  "fr_receive_fragment os junk now st from f = (let e = os_endianness os in do {
     (ms, complete, flag) \<leftarrow> fr_match f (elems (fragmenting_messages st));
     st \<leftarrow> Some (st\<lparr>fragmenting_messages := vs_store (fragmenting_messages st) ms\<rparr>);
     case complete of
       Some fm \<Rightarrow> do {
         m \<leftarrow> cm_new 2 e (take FR_MAX_MESSAGE_LENGTH junk);
         m \<leftarrow> set_message_id e m (fgm_orig_id fm);
         buff \<leftarrow> de_vectorize fm (take FR_MAX_MESSAGE_LENGTH junk);
         m \<leftarrow> set_payload 2 e m (fgm_serial_size fm) buff 0;
         n \<leftarrow> get_payload_size 2 e m;
         Some (st, fr_notify st from n (cm_serialize m)) }
     | None \<Rightarrow>
         if flag then Some (st, [])
         else do {
           fm \<leftarrow> insert_unique ((fgm_new (take (MAX_MESSAGE_LENGTH os) junk))\<lparr>fgm_id := frg_id f, fgm_orig_id := frg_orig_id f\<rparr>) f;
           Some (st\<lparr>fragmenting_messages :=
             fr_insert (fragmenting_messages st) (fm\<lparr>fgm_active := True, fgm_timestamp := now\<rparr>)\<rparr>, []) } })"

definition fr_receive :: "os_model \<Rightarrow> node_id \<Rightarrow> bytes \<Rightarrow> u32 \<Rightarrow> 'c frag_radio \<Rightarrow> node_id \<Rightarrow> bytes \<Rightarrow>
    ('c frag_radio \<times> 'c frag_call list) option" where
  "fr_receive os self junk now st from msg = (let e = os_endianness os in
     if fr_active st \<and> from \<noteq> self then do {
       message \<leftarrow> cm_new 1 e (take (MAX_MESSAGE_LENGTH os) junk);
       message \<leftarrow> cm_de_serialize message msg 0;
       ok \<leftarrow> compare_checksum 1 e message;
       if \<not> ok then Some (st, [])
       else do {
         mid \<leftarrow> get_message_id e message;
         if mid = FR_MESSAGE then do {
           f \<leftarrow> frg_de_serialize e (frg_new (take (MAX_MESSAGE_LENGTH os) junk)) (get_payload 1 message);
           fr_receive_fragment os junk now st from f }
         else do {
           n \<leftarrow> get_payload_size 1 e message;
           m \<leftarrow> cm_new 2 e (take FR_MAX_MESSAGE_LENGTH junk);
           m \<leftarrow> set_message_id e m mid;
           m \<leftarrow> set_payload 2 e m n (get_payload 1 message) 0;
           sz \<leftarrow> cm_serial_size 2 e m;
           Some (st, fr_notify st from sz (cm_serialize m)) } } }
     else Some (st, []))"

definition fr_reg_recv_callback :: "'c frag_radio \<Rightarrow> 'c \<Rightarrow> 'c frag_radio \<times> fr_error" where
  "fr_reg_recv_callback st c =
     (if fr_active st then
        if vs_max_size (fr_callbacks st) = vs_size (fr_callbacks st) then (st, FR_PROT_LIST_FULL)
        else (st\<lparr>fr_callbacks := vs_push_back (fr_callbacks st) c\<rparr>, FR_SUCCESS)
      else (st, FR_INACTIVE))"

definition fr_unreg_recv_callback :: "'c frag_radio \<Rightarrow> nat \<Rightarrow> 'c frag_radio \<times> nat" where
  "fr_unreg_recv_callback st idx = (st, 0)"

end
