(* ===== verification/Fragmenting_Correct.thy ===== *)
theory Fragmenting_Correct
  imports Fragmenting
begin

text \<open>
  What becomes of a long message: the fragments the fragmenting radio sends for it, and what the
  radio of the receiver makes of them when they arrive in some order, some of them repeatedly.
\<close>

section \<open>A fragment on the wire\<close>

text \<open>The fields of a fragment and the bytes of its payload that are in use.\<close>

definition frg_is :: "fragment \<Rightarrow> u16 \<Rightarrow> u8 \<Rightarrow> nat \<Rightarrow> nat \<Rightarrow> bytes \<Rightarrow> bool" where
  "frg_is f i mid s tot data \<longleftrightarrow> frg_id f = i \<and> frg_orig_id f = mid \<and> frg_seq_fragment f = word_of_nat s \<and>
     frg_total_fragments f = word_of_nat tot \<and> frg_payload_size f = word_of_nat (length data) \<and>
     length data < 256 \<and> length data \<le> length (frg_payload f) \<and> take (length data) (frg_payload f) = data"

definition frg_bytes :: "u16 \<Rightarrow> u8 \<Rightarrow> nat \<Rightarrow> nat \<Rightarrow> bytes \<Rightarrow> bytes" where
  "frg_bytes i mid s tot data =
     [hi8 i, lo8 i, mid, word_of_nat s, word_of_nat tot, word_of_nat (length data)] @ data"

lemma length_frg_bytes [simp]: "length (frg_bytes i mid s tot data) = 6 + length data"
  by (simp add: frg_bytes_def)

lemma u8_size: "n < 256 \<Longrightarrow> unat (word_of_nat n :: u8) = n"
  by (simp add: unat_of_nat)

lemma drop_6_Cons: "drop (6 + n) (a # b # c # d # e # f # xs) = drop n xs"
  by (simp add: numeral_eq_Suc)

lemma frg_is_size: "frg_is f i mid s tot data \<Longrightarrow> unat (frg_payload_size f) = length data"
  by (simp add: frg_is_def u8_size)

lemma frg_serialize_eq:
  assumes "frg_is f i mid s tot data" and "6 + length data \<le> length buff"
  shows "frg_serialize e f buff = Some (frg_bytes i mid s tot data @ drop (6 + length data) buff)"
proof -
  obtain b0 b1 b2 b3 b4 b5 js where b: "buff = b0 # b1 # b2 # b3 # b4 # b5 # js" and js: "length data \<le> length js"
    using assms(2) by (auto simp: numeral_eq_Suc length_ge_Cons)
  show ?thesis
    using assms(1) js
    by (simp add: frg_is_def frg_serialize_def b put_simps rd_bytes_def u8_size memcpy_def frg_bytes_def drop_6_Cons)
qed

lemma frg_de_serialize_eq:
  assumes "length data < 256" and "length data \<le> length junk"
  shows "\<exists>f. frg_de_serialize e (frg_new junk) (frg_bytes i mid s tot data @ rest) = Some f \<and> frg_is f i mid s tot data"
  using assms
  by (auto simp: frg_de_serialize_def put_simps frg_bytes_def rd_bytes_def memcpy_def u8_size frg_new_def frg_is_def)

lemma frg_serial_size_eq:
  assumes "frg_is f i mid s tot data" and "6 + length data < 256"
  shows "frg_serial_size f = 6 + length data"
  using assms by (simp add: frg_serial_size_def frg_is_size [OF assms(1)])

text \<open>The packet of the radio below.\<close>

definition fr_packet :: "u16 \<Rightarrow> u8 \<Rightarrow> nat \<Rightarrow> nat \<Rightarrow> bytes \<Rightarrow> bytes" where
  "fr_packet i mid s tot data = message_bytes 1 FR_MESSAGE (frg_bytes i mid s tot data)"

lemma size_width_simps [simp]: "size_width 1" "size_width (Suc 0)" "size_width 2"
  by (simp_all add: size_width_def)

lemma length_fr_packet [simp]: "length (fr_packet i mid s tot data) = 10 + length data"
  by (simp add: fr_packet_def)

lemma cm_new_eq:
  assumes "size_width sw" and "3 + sw \<le> length junk"
  shows "\<exists>b. cm_new sw e junk = Some b \<and> length b = length junk \<and> get_payload_size sw e b = Some 0"
proof -
  obtain j0 js where j: "junk = j0 # js" using assms by (cases junk) auto
  have "cm_new sw e junk = Some (message_bytes sw 0 [] @ drop (3 + sw) junk)"
    using message_build [of sw 0 junk "0 # js" e 0] assms
    by (simp add: cm_new_def j set_message_id_def put_simps set_payload_def fletcher16_of rd_bytes_def)
  moreover have "get_payload_size sw e (message_bytes sw 0 [] @ drop (3 + sw) junk) = Some 0"
    using message_get(2) [OF assms(1), of "[]" e 0] by simp
  ultimately show ?thesis using assms by simp
qed

lemma message_build':
  assumes "size_width sw" and "3 + sw + len \<le> length b" and "len \<le> length buff"
  shows "Option.bind (set_message_id e b mid) (\<lambda>b. Option.bind (set_payload sw e b len buff 0) g) =
    g (message_bytes sw mid (take len buff) @ drop (3 + sw + len) b)"
proof -
  have "Option.bind (set_message_id e b mid) (\<lambda>b. Option.bind (set_payload sw e b len buff 0) g) =
    Option.bind (Option.bind (set_message_id e b mid) (\<lambda>b. set_payload sw e b len buff 0)) g"
    by (simp add: bind_assoc)
  then show ?thesis using message_build [OF assms] by simp
qed

lemma fr_carry_eq:
  assumes f: "frg_is f i mid s tot data" and len: "10 + length data \<le> MAX_MESSAGE_LENGTH os" "MAX_MESSAGE_LENGTH os < 256"
    and junk: "MAX_MESSAGE_LENGTH os \<le> length junk"
  shows "fr_carry os junk dest f = Some (Frag_send dest (fr_packet i mid s tot data))"
proof -
  let ?e = "os_endianness os" and ?j = "take (MAX_MESSAGE_LENGTH os) junk"
  have lj: "length ?j = MAX_MESSAGE_LENGTH os" using junk by simp
  obtain mf where mf: "cm_new 1 ?e ?j = Some mf" "length mf = MAX_MESSAGE_LENGTH os"
    using cm_new_eq [of 1 ?j ?e] len lj by (auto simp del: length_take)
  have buff: "frg_serialize ?e f ?j = Some (frg_bytes i mid s tot data @ drop (6 + length data) ?j)"
    using frg_serialize_eq [OF f] len lj by simp
  have size: "frg_serial_size f = 6 + length data" using frg_serial_size_eq [OF f] len by simp
  let ?buff = "frg_bytes i mid s tot data @ drop (6 + length data) ?j"
  have "take (6 + length data) ?buff = frg_bytes i mid s tot data" by simp
  then have build: "Option.bind (set_message_id ?e mf FR_MESSAGE) (\<lambda>mf. Option.bind (set_payload 1 ?e mf (6 + length data) ?buff 0) g) =
      g (fr_packet i mid s tot data @ drop (10 + length data) mf)" for g :: "bytes \<Rightarrow> 'c frag_call option"
    using message_build' [of 1 "6 + length data" mf ?buff ?e FR_MESSAGE g] len mf(2) by (simp add: fr_packet_def)
  have "cm_serial_size 1 ?e (fr_packet i mid s tot data @ drop (10 + length data) mf) = Some (10 + length data)"
    using message_get(6) [of 1 "frg_bytes i mid s tot data" ?e FR_MESSAGE] len by (simp add: fr_packet_def size_mod_def)
  then show ?thesis using len
    by (simp add: fr_carry_def mf(1) buff size build rd_bytes_def Let_def del: One_nat_def)
qed

section \<open>What send sends\<close>

text \<open>The piece number \<open>s\<close> of a payload, the number the fragments announce, and the number of
  fragments that are made.\<close>

definition fr_piece :: "nat \<Rightarrow> bytes \<Rightarrow> nat \<Rightarrow> bytes" where
  "fr_piece mr pl s = take mr (drop (s * mr) pl)"

definition fr_announced :: "nat \<Rightarrow> bytes \<Rightarrow> nat" where
  "fr_announced mr pl = (if length pl mod mr \<noteq> 0 then length pl div mr + 1 else length pl div mr)"

definition fr_made :: "nat \<Rightarrow> bytes \<Rightarrow> nat" where
  "fr_made mr pl = (if length pl mod mr \<noteq> 0 then length pl div mr + 1 else length pl div mr - 1)"

definition frg_made :: "bytes \<Rightarrow> u16 \<Rightarrow> u8 \<Rightarrow> nat \<Rightarrow> nat \<Rightarrow> bytes \<Rightarrow> fragment" where
  "frg_made junk i mid tot s data = \<lparr>frg_id = i, frg_orig_id = mid, frg_seq_fragment = word_of_nat s,
     frg_total_fragments = word_of_nat tot, frg_payload = data @ drop (length data) junk,
     frg_payload_size = word_of_nat (length data)\<rparr>"

lemma frg_made_is: "length data < 256 \<Longrightarrow> frg_is (frg_made junk i mid tot s data) i mid s tot data"
  by (simp add: frg_is_def frg_made_def)

lemma fgm_fragment_eq:
  assumes "len < 256" and "pos + len \<le> length mem" and "len \<le> length junk"
  shows "fgm_fragment m junk s tot len mem pos =
    Some (frg_made junk (fgm_id m) (fgm_orig_id m) tot s (take len (drop pos mem)))"
  using assms by (simp add: fgm_fragment_def frg_set_payload_def frg_new_def u8_size rd_bytes_def memcpy_def frg_made_def)

lemma vectorize_loop_eq:
  assumes "mr < 256" and "off + (i + n) * mr \<le> length buff" and "mr \<le> length junk"
  shows "vectorize_loop junk tot mr buff off i n m = Some (m\<lparr>fgm_fragments := vs_push_all (fgm_fragments m)
    (map (\<lambda>s. frg_made junk (fgm_id m) (fgm_orig_id m) tot s (take mr (drop (off + s * mr) buff))) [i..<i + n])\<rparr>)"
  using assms
proof (induction n arbitrary: i m)
  case (Suc n)
  have "[i..<i + Suc n] = i # [Suc i..<Suc i + n]" by (simp add: upt_rec)
  moreover have "off + i * mr + mr \<le> length buff" using Suc.prems(2) by (simp add: algebra_simps)
  ultimately show ?case using Suc.prems Suc.IH [of "Suc i"]
    by (simp add: fgm_fragment_eq algebra_simps)
qed simp

lemma vectorize_eq:
  assumes "0 < mr" "mr < 256" and "off + len \<le> length buff" and "mr \<le> length junk" and pl: "pl = take len (drop off buff)"
  shows "vectorize junk m buff len mr off = Some (m\<lparr>fgm_fragments := vs_push_all (fgm_fragments m)
    (map (\<lambda>s. frg_made junk (fgm_id m) (fgm_orig_id m) (fr_announced mr pl) s (fr_piece mr pl s)) [0..<fr_made mr pl])\<rparr>)"
proof -
  have lpl: "length pl = len" using assms(3) by (simp add: pl)
  let ?d = "len div mr"
  have le: "?d * mr + len mod mr = len" by simp
  have full: "take mr (drop (off + s * mr) buff) = fr_piece mr pl s" if "s < ?d" for s
  proof -
    have "Suc s * mr \<le> ?d * mr" using that by (intro mult_le_mono1) simp
    then have "mr + s * mr \<le> ?d * mr" by (simp only: mult_Suc)
    then have "mr + s * mr \<le> len" using le by linarith
    then have "min mr (len - s * mr) = mr" by simp
    then show ?thesis by (simp add: fr_piece_def pl drop_take add.commute)
  qed
  have made: "map (\<lambda>s. frg_made junk i j t s (take mr (drop (off + s * mr) buff))) [0..<n] =
    map (\<lambda>s. frg_made junk i j t s (fr_piece mr pl s)) [0..<n]" if "n \<le> ?d" for i j t n
    using that full by simp
  show ?thesis
  proof (cases "len mod mr = 0")
    case True
    have "(?d - 1) * mr \<le> ?d * mr" by (intro mult_le_mono1) simp
    then have "off + (?d - 1) * mr \<le> length buff" using le assms(3) by linarith
    then have "off + (0 + (?d - 1)) * mr \<le> length buff" by simp
    from vectorize_loop_eq [OF assms(2) this assms(4)] True show ?thesis
      by (auto simp: vectorize_def Let_def fr_announced_def fr_made_def lpl made)
  next
    case False
    have "off + (0 + ?d) * mr \<le> length buff" unfolding add_0 using le assms(3) by linarith
    note loop = vectorize_loop_eq [OF assms(2) this assms(4)]
    have rest: "take (len mod mr) (drop (off + ?d * mr) buff) = fr_piece mr pl ?d"
    proof -
      have "len - ?d * mr = len mod mr" by (simp add: minus_div_mult_eq_mod)
      moreover have "min mr (len mod mr) = len mod mr" using mod_less_divisor [OF assms(1), of len] by linarith
      ultimately show ?thesis by (simp only: fr_piece_def pl drop_take take_take drop_drop add.commute)
    qed
    have last: "fgm_fragment m' junk ?d tot (len mod mr) buff (off + ?d * mr) =
      Some (frg_made junk (fgm_id m') (fgm_orig_id m') tot ?d (fr_piece mr pl ?d))" for m' tot
      using assms(1-4) le by (subst fgm_fragment_eq) (auto simp: rest intro: order.trans [OF less_imp_le [OF mod_less_divisor]] less_trans [OF mod_less_divisor])
    have "vs_push_all v (xs @ [x]) = vs_push_back (vs_push_all v xs) x" for v :: "fragment vector_static" and xs x
      by (induction xs arbitrary: v) auto
    then show ?thesis using False loop
      by (simp add: vectorize_def Let_def fr_announced_def fr_made_def lpl last made)
  qed
qed

lemma fr_carry_all_eq:
  "(\<And>s. s \<in> set ss \<Longrightarrow> fr_carry os junk dest (g s) = Some (h s)) \<Longrightarrow> fr_carry_all os junk dest (map g ss) = Some (map h ss)"
  by (induction ss) auto

abbreviation (input) "fr_room os below \<equiv> MAX_MESSAGE_LENGTH os - (below + 6)"

lemma fr_send_long:
  assumes act: "fr_active st" and len: "MAX_MESSAGE_LENGTH os < 5 + length pl" "5 + length pl \<le> 1024"
    and max: "4 \<le> below" "below + 6 < MAX_MESSAGE_LENGTH os" "MAX_MESSAGE_LENGTH os < 256"
    and junk: "1024 \<le> length junk" and data: "1024 \<le> 5 + length pl + length rest"
  shows "fr_send os below random junk st dest (5 + length pl) (message_bytes 2 mid pl @ rest) =
    Some (map (\<lambda>s. Frag_send dest (fr_packet (word_of_nat (random mod 65535)) mid s (fr_announced (fr_room os below) pl)
      (fr_piece (fr_room os below) pl s))) [0..<min 7 (fr_made (fr_room os below) pl)])"
proof -
  let ?e = "os_endianness os" and ?mr = "fr_room os below" and ?j = "take (MAX_MESSAGE_LENGTH os) junk"
  let ?i = "word_of_nat (random mod 65535) :: u16" and ?m = "message_bytes 2 mid pl @ rest"
  have j2: "length (take 1024 junk) = 1024" using junk by simp
  have "3 + 2 \<le> length (take 1024 junk)" unfolding j2 by simp
  then obtain b where b: "cm_new 2 ?e (take 1024 junk) = Some b" "length b = 1024" "get_payload_size 2 ?e b = Some 0"
    using cm_new_eq [of 2 "take 1024 junk" ?e] unfolding j2 by (auto simp del: length_take)
  have hdr: "cm_serial_size 2 ?e b = Some 5" by (simp add: cm_serial_size_def b(3) size_mod_def)
  have ds: "cm_de_serialize b ?m 0 = Some (take 1024 ?m)"
    using data by (simp add: cm_de_serialize_def b(2) rd_bytes_def memcpy_def del: take_append)
  have m: "take 1024 ?m = message_bytes 2 mid pl @ take (1019 - length pl) rest" using len(2) by simp
  have mid: "get_message_id ?e (message_bytes 2 mid pl @ rs) = Some mid" for rs
    using message_get(1) [of 2 pl ?e mid] len(2) by simp
  have res: "fr_reserved_bytes below = below + 6" using max
    by (simp add: fr_reserved_bytes_def frg_serial_size_def frg_new_def)
  have pl: "pl = take (length pl) (drop 5 ?m)"
    using message_get(3) [of 2 pl mid rest] len(2) by (simp add: get_payload_def del: drop_append)
  have "5 + length pl \<le> length ?m" by simp
  note vec = vectorize_eq [OF _ _ this _ pl, of ?mr ?j]
  have mr: "0 < ?mr" "?mr < 256" "?mr \<le> length ?j" "?mr mod 256 = ?mr" using max junk by auto
  have carry: "fr_carry os junk dest (frg_made ?j ?i mid (fr_announced ?mr pl) s (fr_piece ?mr pl s)) =
    Some (Frag_send dest (fr_packet ?i mid s (fr_announced ?mr pl) (fr_piece ?mr pl s)))" for s
  proof (rule fr_carry_eq)
    have "length (fr_piece ?mr pl s) \<le> ?mr" by (simp add: fr_piece_def)
    then show "frg_is (frg_made ?j ?i mid (fr_announced ?mr pl) s (fr_piece ?mr pl s)) ?i mid s (fr_announced ?mr pl) (fr_piece ?mr pl s)"
        "10 + length (fr_piece ?mr pl s) \<le> MAX_MESSAGE_LENGTH os"
      using mr max by (auto intro!: frg_made_is)
  qed (use max junk in auto)
  have elems: "elems (vs_push_all (vs_new (replicate 7 x)) xs) = take 7 xs" for x :: fragment and xs
    using vs_push_all_elems [OF vs_new_elems(2), of "replicate 7 x" xs] by (simp add: vs_new_elems(1)) (simp add: vs_new_def vs_max_size_def vs_size_def)
  have upt: "take 7 [0..<n] = [0..<min 7 n]" for n
    by (cases "n \<le> 7") (simp_all add: min_def)
  show ?thesis
    using act len max mr
    by (simp add: fr_send_def Let_def b(1) hdr ds m mid res vec elems fgm_new_def take_map upt fr_carry_all_eq [OF carry])
qed

section \<open>What receive makes of the fragments\<close>

text \<open>\<open>m\<close> holds the fragments \<open>ss\<close> of a message of \<open>k\<close> fragments with the pieces \<open>p\<close>, in the
  order in which they came.\<close>

definition fgm_holds :: "fragmenting_message \<Rightarrow> u16 \<Rightarrow> u8 \<Rightarrow> nat \<Rightarrow> (nat \<Rightarrow> bytes) \<Rightarrow> nat list \<Rightarrow> bool" where
  "fgm_holds m i mid k p ss \<longleftrightarrow> fgm_id m = i \<and> fgm_orig_id m = mid \<and> vs_inv (fgm_fragments m) \<and>
     vs_max_size (fgm_fragments m) = 7 \<and> list_all2 (\<lambda>f s. frg_is f i mid s k (p s)) (elems (fgm_fragments m)) ss"

lemma fgm_holds_size: "fgm_holds m i mid k p ss \<Longrightarrow> vs_size (fgm_fragments m) = length ss"
  by (auto simp: fgm_holds_def simp flip: length_elems dest: list_all2_lengthD)

lemma check_completeness_holds:
  assumes "fgm_holds m i mid k p ss" and "ss \<noteq> []" and "k < 256"
  shows "check_completeness m = Some (if length ss = k then 1 else 2)"
proof -
  let ?v = "fgm_fragments m"
  have n: "vs_size ?v = length ss" by (rule fgm_holds_size [OF assms(1)])
  have inv: "vs_inv ?v" and l: "list_all2 (\<lambda>f s. frg_is f i mid s k (p s)) (elems ?v) ss"
    using assms(1) by (auto simp: fgm_holds_def)
  have "0 < length ss" using assms(2) by simp
  then have "elems ?v ! 0 = vec ?v ! 0" "0 < length (vec ?v)" using inv n elems_nth [OF inv, of 0] by (auto simp: vs_inv_def vs_size_def)
  moreover have "frg_is (elems ?v ! 0) i mid (ss ! 0) k (p (ss ! 0))"
    using list_all2_nthD2 [OF l \<open>0 < length ss\<close>] .
  ultimately show ?thesis using assms(2,3) by (simp add: check_completeness_def n vs_at_def rd_def frg_is_def u8_size)
qed

lemma insert_unique_holds:
  assumes m: "fgm_holds m i mid k p ss" and f: "frg_is f i mid s k (p s)" and ss: "length ss < k" "k \<le> 7" "s < k" "set ss \<subseteq> {..<k}"
  shows "\<exists>m'. insert_unique m f = Some m' \<and> fgm_active m' = fgm_active m \<and>
    fgm_holds m' i mid k p (if s \<in> set ss then ss else ss @ [s])"
proof -
  have inv: "vs_inv (fgm_fragments m)" and l: "list_all2 (\<lambda>f s. frg_is f i mid s k (p s)) (elems (fgm_fragments m)) ss"
    using m by (auto simp: fgm_holds_def)
  have room: "vs_size (fgm_fragments m) < vs_max_size (fgm_fragments m)" using m ss fgm_holds_size [OF m] by (simp add: fgm_holds_def)
  have add: "fgm_holds (m\<lparr>fgm_fragments := vs_push_back (fgm_fragments m) f\<rparr>) i mid k p (ss @ [s])"
    using m f room by (simp add: fgm_holds_def vs_push_back_inv vs_push_back_elems list_all2_appendI)
  show ?thesis
  proof (cases "ss = []")
    case True
    then have "check_completeness m = Some 0" using fgm_holds_size [OF m] by (simp add: check_completeness_def)
    then show ?thesis using add True by (auto simp: insert_unique_def)
  next
    case False
    have seq: "frg_seq_fragment (elems (fgm_fragments m) ! j) = word_of_nat (ss ! j)" if "j < length ss" for j
      using list_all2_nthD2 [OF l that] by (simp add: frg_is_def)
    have len: "length (elems (fgm_fragments m)) = length ss" using list_all2_lengthD [OF l] .
    have small: "unat (word_of_nat t :: u8) = t" if "t < k" for t using that ss by (intro u8_size) simp
    have eq: "(word_of_nat s :: u8) = word_of_nat t \<longleftrightarrow> s = t" if "t < k" for t
      using small [OF that] small [OF ss(3)] by metis
    have "(\<exists>x \<in> set (elems (fgm_fragments m)). frg_seq_fragment f = frg_seq_fragment x) \<longleftrightarrow>
        (\<exists>j < length ss. (word_of_nat s :: u8) = word_of_nat (ss ! j))"
      using f by (simp add: frg_is_def Bex_def in_set_conv_nth len) (metis len seq)
    also have "\<dots> \<longleftrightarrow> s \<in> set ss" using eq ss(4) by (force simp: in_set_conv_nth)
    finally have flag: "(\<exists>x \<in> set (elems (fgm_fragments m)). frg_seq_fragment f = frg_seq_fragment x) \<longleftrightarrow> s \<in> set ss" .
    have "check_completeness m = Some 2" using check_completeness_holds [OF m False] ss by simp
    then show ?thesis using add m by (auto simp: insert_unique_def flag Let_def)
  qed
qed

lemma fr_match_none:
  "\<forall>x \<in> set ms. \<not> (fgm_id x = frg_id f \<and> fgm_active x) \<Longrightarrow> fr_match f ms = Some (ms, None, False)"
  by (induction ms) auto

lemma fr_match_append:
  "\<forall>x \<in> set us. \<not> (fgm_id x = frg_id f \<and> fgm_active x) \<Longrightarrow>
    fr_match f (us @ ms) = do { (ms, r, flag) \<leftarrow> fr_match f ms; Some (us @ ms, r, flag) }"
proof (induction us)
  case Nil
  then show ?case by (cases "fr_match f ms") auto
next
  case (Cons u us)
  then show ?case by (cases "fr_match f ms") auto
qed

lemma de_vectorize_loop_eq:
  assumes "list_all2 (\<lambda>f s. frg_is f i mid s k (p s)) fs ss" and "j + length (concat (map p ss)) \<le> length buff"
  shows "de_vectorize_loop fs buff j = Some (take j buff @ concat (map p ss) @ drop (j + length (concat (map p ss))) buff)"
  using assms
proof (induction fs ss arbitrary: j buff rule: list_all2_induct)
  case (Cons f fs s ss)
  have size: "unat (frg_payload_size f) = length (p s)" by (rule frg_is_size [OF Cons.hyps(1)])
  have pl: "rd_bytes (frg_payload f) 0 (length (p s)) = Some (p s)"
    using Cons.hyps(1) by (simp add: frg_is_def rd_bytes_def)
  let ?b = "take j buff @ p s @ drop (j + length (p s)) buff"
  have "memcpy buff j (p s) = Some ?b" using Cons.prems by (simp add: memcpy_def)
  moreover have "de_vectorize_loop fs ?b (j + length (p s)) = Some (take (j + length (p s)) ?b @
      concat (map p ss) @ drop (j + length (p s) + length (concat (map p ss))) ?b)"
    using Cons.prems by (intro Cons.IH) simp
  ultimately show ?case using Cons.prems by (simp add: size pl add.assoc add.commute [of "length (concat (map p ss))"])
qed simp

definition fr_others :: "u16 \<Rightarrow> fragmenting_message list \<Rightarrow> bool" where
  "fr_others i ms \<longleftrightarrow> (\<forall>x \<in> set ms. \<not> (fgm_id x = i \<and> fgm_active x))"

lemma fr_others_append [simp]: "fr_others i (xs @ ys) \<longleftrightarrow> fr_others i xs \<and> fr_others i ys"
  by (auto simp: fr_others_def)

text \<open>\<open>fr_holds\<close>: the radio holds the fragments \<open>ss\<close> of the message, and its other messages are active. \<open>fr_ready\<close>: it
  is active, holds no active message with the number, and has exactly one place for it, an inactive
  message, or, when all are active, room for one more.\<close>

definition fr_holds :: "'c frag_radio \<Rightarrow> u16 \<Rightarrow> u8 \<Rightarrow> nat \<Rightarrow> (nat \<Rightarrow> bytes) \<Rightarrow> nat list \<Rightarrow> bool" where
  "fr_holds st i mid k p ss \<longleftrightarrow> fr_active st \<and> vs_inv (fragmenting_messages st) \<and>
     (\<exists>us m vs. elems (fragmenting_messages st) = us @ m # vs \<and> fr_others i us \<and> fr_others i vs \<and>
       (\<forall>x \<in> set (us @ vs). fgm_active x) \<and> fgm_active m \<and> fgm_holds m i mid k p ss)"

definition fr_ready :: "'c frag_radio \<Rightarrow> u16 \<Rightarrow> bool" where
  "fr_ready st i \<longleftrightarrow> fr_active st \<and> vs_inv (fragmenting_messages st) \<and> fr_others i (elems (fragmenting_messages st)) \<and>
     (let n = length (filter (\<lambda>m. \<not> fgm_active m) (elems (fragmenting_messages st))) in
      n = 1 \<or> n = 0 \<and> vs_size (fragmenting_messages st) < vs_max_size (fragmenting_messages st))"

lemma fr_ready_first:
  assumes st: "fr_ready st i" and f: "frg_is f i mid s k (p s)" and k: "2 \<le> k" "k \<le> 7" "s < k"
  shows "\<exists>st'. fr_receive_fragment os junk now st from f = Some (st', []) \<and> fr_callbacks st' = fr_callbacks st \<and>
    fr_holds st' i mid k p [s]"
proof -
  let ?v = "fragmenting_messages st" and ?j = "take (MAX_MESSAGE_LENGTH os) junk"
  let ?m = "(fgm_new ?j)\<lparr>fgm_id := frg_id f, fgm_orig_id := frg_orig_id f\<rparr>"
  have inv: "vs_inv ?v" and act: "fr_active st" and oth: "fr_others i (elems ?v)" using st by (auto simp: fr_ready_def)
  have id: "frg_id f = i" "frg_orig_id f = mid" using f by (auto simp: frg_is_def)
  have none: "fr_match f (elems ?v) = Some (elems ?v, None, False)"
    using fr_match_none [of "elems ?v" f] oth by (simp add: fr_others_def id)
  have same: "vs_store ?v (elems ?v) = ?v" by (simp add: vs_store_def elems_def)
  have "fgm_holds ?m i mid k p []"
    by (simp add: fgm_holds_def id fgm_new_def vs_new_elems) (simp add: vs_new_def vs_max_size_def)
  from insert_unique_holds [OF this f] k obtain m' where m': "insert_unique ?m f = Some m'" "fgm_holds m' i mid k p [s]"
    by auto
  let ?m' = "m'\<lparr>fgm_active := True, fgm_timestamp := now\<rparr>"
  have hold: "fgm_holds ?m' i mid k p [s]" using m'(2) by (simp add: fgm_holds_def)
  let ?v' = "fr_insert ?v ?m'" and ?g = "\<lambda>m. if fgm_active m then m else ?m'"
  have len: "length (map ?g (elems ?v)) = length (elems ?v)" by simp
  note store = vs_store_elems [OF inv len]
  have "vs_inv ?v' \<and> (\<exists>us vs. elems ?v' = us @ ?m' # vs \<and> fr_others i us \<and> fr_others i vs \<and> (\<forall>x \<in> set (us @ vs). fgm_active x))"
  proof (cases "\<exists>m \<in> set (elems ?v). \<not> fgm_active m")
    case True
    then have "length (filter (\<lambda>m. \<not> fgm_active m) (elems ?v)) = 1"
      using st by (auto simp: fr_ready_def Let_def filter_empty_conv)
    then obtain m where "filter (\<lambda>m. \<not> fgm_active m) (elems ?v) = [m]" by (auto simp: length_Suc_conv)
    then obtain us vs where e: "elems ?v = us @ m # vs" and uv: "\<forall>u \<in> set us. fgm_active u" "\<not> fgm_active m" "[] = filter (\<lambda>m. \<not> fgm_active m) vs"
      by (auto simp: filter_eq_Cons_iff)
    have act_vs: "\<forall>u \<in> set vs. fgm_active u" using uv(3) by (auto simp: filter_empty_conv eq_commute [of "[]"])
    then have "map ?g us = us" "map ?g vs = vs" using uv(1) by (auto intro: map_idI)
    then have "elems ?v' = us @ ?m' # vs" using True store uv(2) by (simp add: fr_insert_def Let_def e)
    moreover have "vs_inv ?v'" using True store by (simp add: fr_insert_def Let_def)
    moreover have "fr_others i us" "fr_others i vs" using oth by (simp_all add: e fr_others_def)
    ultimately show ?thesis using uv(1) act_vs by (intro conjI exI [of _ us] exI [of _ vs]) auto
  next
    case False
    then have "filter (\<lambda>m. \<not> fgm_active m) (elems ?v) = []" by (auto simp: filter_empty_conv)
    then have room: "vs_size ?v < vs_max_size ?v" using st by (simp add: fr_ready_def)
    have "map ?g (elems ?v) = elems ?v" using False by (auto intro: map_idI)
    then have "?v' = vs_push_back ?v ?m'" using False by (simp add: fr_insert_def Let_def same)
    then have "vs_inv ?v'" "elems ?v' = elems ?v @ ?m' # []" using inv room by (simp_all add: vs_push_back_inv vs_push_back_elems)
    moreover have "fr_others i []" by (simp add: fr_others_def)
    moreover have "\<forall>x \<in> set (elems ?v @ []). fgm_active x" using False by simp
    ultimately show ?thesis using oth by blast
  qed
  then have "fr_holds (st\<lparr>fragmenting_messages := ?v'\<rparr>) i mid k p [s]"
    using act hold unfolding fr_holds_def by (elim exE conjE) (auto intro!: exI)
  then show ?thesis using none m'(1)
    by (simp add: fr_receive_fragment_def Let_def same)
qed

lemma fr_match_holds:
  assumes e: "elems v = us @ m # vs" "fr_others i us" "fr_others i vs" "fgm_active m"
    and m: "fgm_holds m i mid k p ss" and f: "frg_is f i mid s k (p s)"
    and ss: "length ss < k" "k \<le> 7" "s < k" "set ss \<subseteq> {..<k}"
  shows "\<exists>m'. fgm_active m' \<and> fgm_holds m' i mid k p (if s \<in> set ss then ss else ss @ [s]) \<and>
    fr_match f (elems v) = Some (if length (if s \<in> set ss then ss else ss @ [s]) = k
      then (us @ m'\<lparr>fgm_active := False\<rparr> # vs, Some m', True) else (us @ m' # vs, None, True))"
proof -
  let ?ss = "if s \<in> set ss then ss else ss @ [s]"
  obtain m' where m': "insert_unique m f = Some m'" "fgm_active m'" "fgm_holds m' i mid k p ?ss"
    using insert_unique_holds [OF m f ss] e(4) by auto
  have "?ss \<noteq> []" by auto
  then have c: "check_completeness m' = Some (if length ?ss = k then 1 else 2)"
    using check_completeness_holds [OF m'(3)] ss(2) by simp
  have id: "frg_id f = i" "fgm_id m = i" using f m by (auto simp: frg_is_def fgm_holds_def)
  have "fr_match f (us @ m # vs) = do { (ms, r, flag) \<leftarrow> fr_match f (m # vs); Some (us @ ms, r, flag) }"
    using fr_match_append [of us f "m # vs"] e(2) by (simp add: id fr_others_def)
  moreover have "fr_match f vs = Some (vs, None, False)" using fr_match_none [of vs f] e(3) by (simp add: id fr_others_def)
  ultimately show ?thesis using m' c e(4) by (intro exI [of _ m']) (simp add: e(1) id split del: if_split, simp)
qed

lemma fr_holds_step:
  assumes st: "fr_holds st i mid k p ss" and f: "frg_is f i mid s k (p s)"
    and ss: "length ss < k" "k \<le> 7" "s < k" "set ss \<subseteq> {..<k}" and more: "length (if s \<in> set ss then ss else ss @ [s]) < k"
  shows "\<exists>st'. fr_receive_fragment os junk now st from f = Some (st', []) \<and> fr_callbacks st' = fr_callbacks st \<and>
    fr_holds st' i mid k p (if s \<in> set ss then ss else ss @ [s])"
proof -
  let ?v = "fragmenting_messages st"
  from st obtain us m vs where e: "elems ?v = us @ m # vs" "fr_others i us" "fr_others i vs" "fgm_active m"
      and m: "fgm_holds m i mid k p ss" and act: "fr_active st" "vs_inv ?v" and oth: "\<forall>x \<in> set (us @ vs). fgm_active x"
    unfolding fr_holds_def by (elim exE conjE) (rule that)
  obtain m' where m': "fgm_active m'" "fgm_holds m' i mid k p (if s \<in> set ss then ss else ss @ [s])"
      and match: "fr_match f (elems ?v) = Some (us @ m' # vs, None, True)"
    using fr_match_holds [OF e m f ss] more by (elim exE conjE) (simp split del: if_split)
  have len: "length (us @ m' # vs) = length (elems ?v)" by (simp add: e(1))
  have "fr_holds (st\<lparr>fragmenting_messages := vs_store ?v (us @ m' # vs)\<rparr>) i mid k p (if s \<in> set ss then ss else ss @ [s])"
    using act(1) vs_store_elems [OF act(2) len] e(2,3) m' oth unfolding fr_holds_def
    by (intro conjI exI [of _ us] exI [of _ m'] exI [of _ vs]) simp_all
  then show ?thesis using match by (simp add: fr_receive_fragment_def Let_def)
qed

lemma fr_holds_complete:
  assumes st: "fr_holds st i mid k p ss" and f: "frg_is f i mid s k (p s)"
    and ss: "length ss < k" "k \<le> 7" "s < k" "set ss \<subseteq> {..<k}" and full: "length (if s \<in> set ss then ss else ss @ [s]) = k"
    and len: "length (concat (map p (ss @ [s]))) \<le> 1019" and junk: "1024 \<le> length junk"
  shows "\<exists>st' rest. fr_receive_fragment os junk now st from f = Some (st', fr_notify st from
      (length (concat (map p (ss @ [s])))) (message_bytes 2 mid (concat (map p (ss @ [s]))) @ rest)) \<and>
    fr_ready st' i \<and> fr_callbacks st' = fr_callbacks st"
proof -
  let ?v = "fragmenting_messages st" and ?e = "os_endianness os" and ?ss = "ss @ [s]" and ?j = "take 1024 junk"
  have new: "s \<notin> set ss" using full ss(1) by auto
  from st obtain us m vs where e: "elems ?v = us @ m # vs" "fr_others i us" "fr_others i vs" "fgm_active m"
      and m: "fgm_holds m i mid k p ss" and act: "fr_active st" "vs_inv ?v" and oth: "\<forall>x \<in> set (us @ vs). fgm_active x"
    unfolding fr_holds_def by (elim exE conjE) (rule that)
  obtain m' where m': "fgm_holds m' i mid k p ?ss"
      and match: "fr_match f (elems ?v) = Some (us @ m'\<lparr>fgm_active := False\<rparr> # vs, Some m', True)"
    using fr_match_holds [OF e m f ss] full new by auto
  let ?pl = "concat (map p ?ss)"
  have l: "list_all2 (\<lambda>f s. frg_is f i mid s k (p s)) (elems (fgm_fragments m')) ?ss" and mid: "fgm_orig_id m' = mid"
    using m' by (auto simp: fgm_holds_def)
  have j: "length ?j = 1024" using junk by simp
  have dv: "de_vectorize m' ?j = Some (?pl @ drop (length ?pl) ?j)"
    using de_vectorize_loop_eq [OF l, of 0 ?j] len unfolding de_vectorize_def j by simp
  have "map (\<lambda>f. unat (frg_payload_size f)) (elems (fgm_fragments m')) = map (\<lambda>s. length (p s)) ?ss"
    using l by (induction rule: list_all2_induct) (auto dest: frg_is_size)
  then have size: "fgm_serial_size m' = length ?pl" using len by (simp add: fgm_serial_size_def length_concat comp_def)
  have "3 + 2 \<le> length ?j" unfolding j by simp
  then obtain b where b: "cm_new 2 ?e ?j = Some b" "length b = 1024"
    using cm_new_eq [of 2 ?j ?e] unfolding j by (auto simp del: length_take)
  let ?buff = "?pl @ drop (length ?pl) ?j"
  have build: "Option.bind (set_message_id ?e b mid) (\<lambda>b. Option.bind (set_payload 2 ?e b (length ?pl) ?buff 0) g) =
      g (message_bytes 2 mid ?pl @ drop (3 + 2 + length ?pl) b)" for g :: "bytes \<Rightarrow> ('a frag_radio \<times> 'a frag_call list) option"
    using message_build' [of 2 "length ?pl" b ?buff ?e mid g] len b(2) by (simp del: map_append concat_append)
  have get: "get_payload_size 2 ?e (message_bytes 2 mid ?pl @ rest) = Some (length ?pl)" for rest
    using message_get(2) [of 2 ?pl ?e mid rest] len by (simp del: map_append concat_append)
  let ?ms = "us @ m'\<lparr>fgm_active := False\<rparr> # vs" and ?st = "st\<lparr>fragmenting_messages := vs_store ?v (us @ m'\<lparr>fgm_active := False\<rparr> # vs)\<rparr>"
  have "length ?ms = length (elems ?v)" by (simp add: e(1))
  note store = vs_store_elems [OF act(2) this]
  have "filter (\<lambda>m. \<not> fgm_active m) us = []" "filter (\<lambda>m. \<not> fgm_active m) vs = []"
    using oth by (auto simp: filter_empty_conv)
  then have "fr_ready ?st i"
    using act(1) store e(2,3) by (auto simp: fr_ready_def fr_others_def Let_def)
  moreover have "fr_receive_fragment os junk now st from f = Some (?st, fr_notify st from (length ?pl)
      (message_bytes 2 mid ?pl @ drop (3 + 2 + length ?pl) b))"
    by (simp add: fr_receive_fragment_def Let_def match b(1) mid dv size build get fr_notify_def cm_serialize_def
        del: map_append concat_append length_append)
  ultimately show ?thesis by (intro exI [of _ ?st] exI) (rule conjI, assumption, simp)
qed

section \<open>The packets arrive\<close>

text \<open>The radio of the receiver hands over every packet that arrives, at the given times.\<close>

fun fr_run :: "os_model \<Rightarrow> node_id \<Rightarrow> bytes \<Rightarrow> 'c frag_radio \<Rightarrow> node_id \<Rightarrow> (u32 \<times> bytes) list \<Rightarrow>
    ('c frag_radio \<times> 'c frag_call list) option" where
  "fr_run os self junk st from [] = Some (st, [])"
| "fr_run os self junk st from ((now, msg) # ms) = do {
     (st, cs) \<leftarrow> fr_receive os self junk now st from msg;
     (st, cs') \<leftarrow> fr_run os self junk st from ms;
     Some (st, cs @ cs') }"

text \<open>The first occurrences in a list, in their order.\<close>

definition fr_firsts :: "nat list \<Rightarrow> nat list" where
  "fr_firsts xs = rev (remdups (rev xs))"

lemma fr_firsts_simps [simp]: "fr_firsts [] = []" "fr_firsts (xs @ [s]) = (if s \<in> set xs then fr_firsts xs else fr_firsts xs @ [s])"
  by (simp_all add: fr_firsts_def)

lemma fr_firsts_set [simp]: "set (fr_firsts xs) = set xs" "distinct (fr_firsts xs)"
  by (simp_all add: fr_firsts_def)

lemma fr_run_append: "fr_run os self junk st from (xs @ ys) =
    do { (st, cs) \<leftarrow> fr_run os self junk st from xs; (st, cs') \<leftarrow> fr_run os self junk st from ys; Some (st, cs @ cs') }"
proof (induction xs arbitrary: st)
  case (Cons x xs)
  then show ?case by (cases x) (simp add: Option.bind_assoc split_def)
next
  case Nil
  then show ?case by (cases "fr_run os self junk st from ys") auto
qed

lemma fr_receive_packet:
  assumes st: "fr_active st" "from \<noteq> self" and len: "10 + length data \<le> MAX_MESSAGE_LENGTH os" "MAX_MESSAGE_LENGTH os < 256"
    and junk: "MAX_MESSAGE_LENGTH os \<le> length junk" and pad: "MAX_MESSAGE_LENGTH os \<le> 10 + length data + length pad"
  shows "\<exists>f. frg_is f i mid s tot data \<and>
    fr_receive os self junk now st from (fr_packet i mid s tot data @ pad) = fr_receive_fragment os junk now st from f"
proof -
  let ?e = "os_endianness os" and ?j = "take (MAX_MESSAGE_LENGTH os) junk" and ?pk = "fr_packet i mid s tot data"
  let ?pad = "take (MAX_MESSAGE_LENGTH os - (10 + length data)) pad"
  have j: "length ?j = MAX_MESSAGE_LENGTH os" using junk by simp
  obtain b where b: "cm_new 1 ?e ?j = Some b" "length b = MAX_MESSAGE_LENGTH os"
    using cm_new_eq [of 1 ?j ?e] len unfolding j by (auto simp del: length_take)
  have "take (MAX_MESSAGE_LENGTH os) (?pk @ pad) = ?pk @ ?pad" using len by simp
  then have ds: "cm_de_serialize b (?pk @ pad) 0 = Some (?pk @ ?pad)"
    using pad len by (simp add: cm_de_serialize_def b(2) rd_bytes_def memcpy_def del: take_append)
  have w: "size_width 1" "length (frg_bytes i mid s tot data) < 256 ^ 1" using len by simp_all
  have get: "get_message_id ?e (?pk @ ?pad) = Some FR_MESSAGE" "compare_checksum 1 ?e (?pk @ ?pad) = Some True"
    "get_payload 1 (?pk @ ?pad) = frg_bytes i mid s tot data @ ?pad"
    unfolding fr_packet_def by (rule message_get [OF w])+
  obtain f where f: "frg_de_serialize ?e (frg_new ?j) (frg_bytes i mid s tot data @ ?pad) = Some f" "frg_is f i mid s tot data"
    using frg_de_serialize_eq [of data ?j ?e i mid s tot ?pad] len junk by auto
  have "fr_receive os self junk now st from (?pk @ pad) = fr_receive_fragment os junk now st from f"
    using st by (simp add: fr_receive_def Let_def b(1) ds get f(1) del: One_nat_def)
  then show ?thesis using f(2) by blast
qed

text \<open>The network the two nodes need: \<open>mr\<close> is what a fragment carries.\<close>

definition fr_packets :: "u16 \<Rightarrow> u8 \<Rightarrow> nat \<Rightarrow> bytes \<Rightarrow> nat \<Rightarrow> bytes" where
  "fr_packets i mid mr pl s = fr_packet i mid s (fr_announced mr pl) (fr_piece mr pl s)"

lemma fr_run_holds:
  assumes st: "fr_ready st i" "from \<noteq> self"
    and mr: "10 + mr \<le> MAX_MESSAGE_LENGTH os" "MAX_MESSAGE_LENGTH os < 256" and junk: "MAX_MESSAGE_LENGTH os \<le> length junk"
    and k: "2 \<le> k" "k \<le> 7" "k = fr_announced mr pl" and pad: "\<forall>s. MAX_MESSAGE_LENGTH os \<le> length (pad s)"
    and xs: "xs \<noteq> []" "snd ` set xs \<subseteq> {..<k}" "length (fr_firsts (map snd xs)) < k"
  shows "\<exists>st'. fr_run os self junk st from (map (\<lambda>(now, s). (now, fr_packets i mid mr pl s @ pad s)) xs) = Some (st', []) \<and>
    fr_callbacks st' = fr_callbacks st \<and> fr_holds st' i mid k (fr_piece mr pl) (fr_firsts (map snd xs))"
  using xs
proof (induction xs rule: rev_induct)
  case (snoc x xs)
  obtain now s where x: "x = (now, s)" by force
  have s: "s < k" using snoc.prems(2) by (simp add: x)
  have "length (fr_piece mr pl s) \<le> mr" by (simp add: fr_piece_def)
  then have len: "10 + length (fr_piece mr pl s) \<le> MAX_MESSAGE_LENGTH os" using mr by simp
  have pad': "MAX_MESSAGE_LENGTH os \<le> 10 + length (fr_piece mr pl s) + length (pad s)" using pad by (simp add: trans_le_add2)
  have receive: "\<exists>f. frg_is f i mid s k (fr_piece mr pl s) \<and> fr_receive os self junk now st from (fr_packets i mid mr pl s @ pad s) =
      fr_receive_fragment os junk now st from f" if "fr_active st" for st :: "'a frag_radio"
    using fr_receive_packet [OF that st(2) len mr(2) junk pad', of i mid s k now] by (simp add: fr_packets_def k(3))
  show ?case
  proof (cases "xs = []")
    case True
    obtain f where f: "frg_is f i mid s k (fr_piece mr pl s)"
        "fr_receive os self junk now st from (fr_packets i mid mr pl s @ pad s) = fr_receive_fragment os junk now st from f"
      using receive [of st] st(1) by (auto simp: fr_ready_def)
    obtain st' where "fr_receive_fragment os junk now st from f = Some (st', [])" "fr_callbacks st' = fr_callbacks st"
        "fr_holds st' i mid k (fr_piece mr pl) [s]"
      using fr_ready_first [where p = "fr_piece mr pl", OF st(1) f(1) k(1,2) s] by blast
    then show ?thesis using f(2) fr_firsts_simps(2) [of "[]" s] by (simp add: True x)
  next
    case False
    let ?fs = "fr_firsts (map snd xs)"
    have fs: "fr_firsts (map snd (xs @ [x])) = (if s \<in> set ?fs then ?fs else ?fs @ [s])" by (simp add: x)
    have "length ?fs \<le> length (fr_firsts (map snd (xs @ [x])))" by (simp add: fs)
    then have less: "length ?fs < k" using snoc.prems(3) by simp
    obtain st1 where st1: "fr_run os self junk st from (map (\<lambda>(now, s). (now, fr_packets i mid mr pl s @ pad s)) xs) = Some (st1, [])"
        "fr_callbacks st1 = fr_callbacks st" and hold: "fr_holds st1 i mid k (fr_piece mr pl) ?fs"
      using snoc.IH [OF False _ less] snoc.prems(2) by auto
    obtain f where f: "frg_is f i mid s k (fr_piece mr pl s)"
        "fr_receive os self junk now st1 from (fr_packets i mid mr pl s @ pad s) = fr_receive_fragment os junk now st1 from f"
      using receive [of st1] hold by (auto simp: fr_holds_def)
    have "set ?fs \<subseteq> {..<k}" using snoc.prems(2) by auto
    moreover have "length (if s \<in> set ?fs then ?fs else ?fs @ [s]) < k" using snoc.prems(3) unfolding fs .
    ultimately obtain st' where "fr_receive_fragment os junk now st1 from f = Some (st', [])" "fr_callbacks st' = fr_callbacks st1"
        "fr_holds st' i mid k (fr_piece mr pl) (if s \<in> set ?fs then ?fs else ?fs @ [s])"
      using fr_holds_step [OF hold f(1) less k(2) s] by blast
    then show ?thesis unfolding fs using st1 f(2) by (simp add: fr_run_append x)
  qed
qed simp

lemma concat_pieces: "concat (map (fr_piece mr pl) [0..<n]) = take (n * mr) pl"
proof (induction n)
  case (Suc n)
  have "Suc n * mr = n * mr + mr" by simp
  then show ?case using Suc by (simp only: take_add) (simp add: fr_piece_def)
qed simp

lemma fr_announced_covers: "0 < mr \<Longrightarrow> length pl \<le> fr_announced mr pl * mr"
proof -
  assume "0 < mr"
  then have "length pl mod mr < mr" by simp
  moreover have "length pl div mr * mr + length pl mod mr = length pl" by simp
  ultimately have "length pl \<le> (length pl div mr + 1) * mr" "length pl mod mr = 0 \<Longrightarrow> length pl \<le> length pl div mr * mr"
    unfolding add_mult_distrib by linarith+
  then show ?thesis by (auto simp only: fr_announced_def split: if_split)
qed

lemma length_concat_distinct: "distinct ss \<Longrightarrow> length (concat (map p ss)) = (\<Sum>s \<in> set ss. length (p s))"
  by (simp add: length_concat comp_def sum_list_distinct_conv_sum_set)

lemma length_concat_pieces:
  assumes "distinct ss" and "set ss = {..<fr_announced mr pl}" and "0 < mr"
  shows "length (concat (map (fr_piece mr pl) ss)) = length pl"
proof -
  have "length (concat (map (fr_piece mr pl) [0..<fr_announced mr pl])) = length pl"
    unfolding concat_pieces using fr_announced_covers [OF assms(3), of pl] by simp
  moreover have "length (concat (map (fr_piece mr pl) ss)) = length (concat (map (fr_piece mr pl) [0..<fr_announced mr pl]))"
    unfolding length_concat_distinct [OF assms(1)] length_concat_distinct [OF distinct_upt] set_upt assms(2) lessThan_atLeast0 ..
  ultimately show ?thesis by (rule trans [rotated])
qed

lemma fr_two_fragments:
  assumes "MAX_MESSAGE_LENGTH os < 5 + length pl" and "4 \<le> below" and "below + 6 < MAX_MESSAGE_LENGTH os"
  shows "2 \<le> fr_announced (fr_room os below) pl"
proof (rule ccontr)
  assume "\<not> ?thesis"
  then have "fr_announced (fr_room os below) pl * fr_room os below \<le> 1 * fr_room os below" by (intro mult_le_mono1) simp
  then have "length pl \<le> fr_room os below" using fr_announced_covers [of "fr_room os below" pl] assms(3) by linarith
  then show False using assms by simp
qed

text \<open>One round: every fragment arrives, the last of them \<open>s\<close>.\<close>

lemma fr_round:
  assumes rt: "fr_ready rt i" "src \<noteq> self"
    and mr: "0 < mr" "10 + mr \<le> MAX_MESSAGE_LENGTH os" "MAX_MESSAGE_LENGTH os < 256"
    and junk: "1024 \<le> length junk" and len: "length pl \<le> 1019"
    and k: "2 \<le> k" "k \<le> 7" "k = fr_announced mr pl" and pad: "\<forall>s. MAX_MESSAGE_LENGTH os \<le> length (pad s)"
    and arrivals: "insert s (snd ` set xs) = {..<k}" "s \<notin> snd ` set xs"
  shows "\<exists>rt1 rt2 more. fr_run os self junk rt src (map (\<lambda>(now, s). (now, fr_packets i mid mr pl s @ pad s)) xs) = Some (rt1, []) \<and>
    fr_receive os self junk now rt1 src (fr_packets i mid mr pl s @ pad s) = Some (rt2, fr_notify rt src (length pl)
      (message_bytes 2 mid (concat (map (fr_piece mr pl) (fr_firsts (map snd xs @ [s])))) @ more)) \<and>
    fr_ready rt2 i \<and> fr_notify rt2 = (fr_notify rt :: node_id \<Rightarrow> _)"
proof -
  let ?p = "fr_piece mr pl" and ?fs = "fr_firsts (map snd xs)"
  have room: "MAX_MESSAGE_LENGTH os \<le> length junk" using mr(3) junk by simp
  have s: "s < k" using arrivals(1) by auto
  have set: "set ?fs = {..<k} - {s}" using arrivals by auto
  then have "length ?fs = k - 1" using s distinct_card [of ?fs] by simp
  then have less: "length ?fs < k" "length (?fs @ [s]) = k" using k(1) by simp_all
  have "?fs \<noteq> []" using less k(1) by auto
  then have ne: "xs \<noteq> []" by auto
  have "snd ` set xs \<subseteq> {..<k}" using arrivals by auto
  then obtain rt1 where run: "fr_run os self junk rt src (map (\<lambda>(now, s). (now, fr_packets i mid mr pl s @ pad s)) xs) = Some (rt1, [])"
      and cb: "fr_callbacks rt1 = fr_callbacks rt" and hold: "fr_holds rt1 i mid k ?p ?fs"
    using fr_run_holds [OF rt mr(2,3) room k pad ne _ less(1), of mid] by blast
  have "length (?p s) \<le> mr" by (simp add: fr_piece_def)
  then obtain f where f: "frg_is f i mid s k (?p s)"
      "fr_receive os self junk now rt1 src (fr_packets i mid mr pl s @ pad s) = fr_receive_fragment os junk now rt1 src f"
    using fr_receive_packet [of rt1 src self "?p s" os junk "pad s" i mid s k now] hold rt(2) mr pad room
    by (auto simp: fr_packets_def k(3) fr_holds_def trans_le_add2)
  have new: "s \<notin> set ?fs" using set by simp
  have "set (?fs @ [s]) = {..<fr_announced mr pl}" using set s k(3) by auto
  then have l: "length (concat (map ?p (?fs @ [s]))) = length pl"
    using new by (intro length_concat_pieces) (auto simp: mr(1))
  have "set ?fs \<subseteq> {..<k}" using set by auto
  then obtain rt2 more where rec: "fr_receive_fragment os junk now rt1 src f = Some (rt2, fr_notify rt1 src (length pl)
      (message_bytes 2 mid (concat (map ?p (?fs @ [s]))) @ more))" "fr_ready rt2 i" "fr_callbacks rt2 = fr_callbacks rt1"
    using fr_holds_complete [OF hold f(1) less(1) k(2) s, of junk os now src] new less(2) l len junk
    by (auto simp del: map_append concat_append simp: if_False)
  have "fr_notify rt1 = (fr_notify rt :: node_id \<Rightarrow> _)" "fr_notify rt2 = (fr_notify rt :: node_id \<Rightarrow> _)"
    using cb rec(3) by (simp_all add: fr_notify_def fun_eq_iff)
  moreover have "fr_firsts (map snd xs @ [s]) = ?fs @ [s]" using arrivals(2) by simp
  ultimately show ?thesis using run f(2) rec(1,2)
    by (intro exI [of _ rt1] exI [of _ rt2] exI [of _ more]) (simp del: map_append concat_append)
qed

section \<open>The properties\<close>

text \<open>C9: A message too long for the radio below, with at most 1019 bytes of payload which are not a multiple of what a
  fragment carries and need at most seven fragments: send makes a packet for every fragment, with the piece of its number.
  The radio of the receiver is active, holds no active message of the same number and has exactly one place for it
  (\<open>fr_ready\<close>). The fragments arrive in any order, \<open>xs\<close> and \<open>s\<close> as the last new one, and repeated before that one,
  with no run of the daemon in between. Then the receivers get nothing before each fragment has arrived, and at
  the last new one exactly one message with the id and the length of the payload that was sent. Its payload is the
  pieces in the order of their first arrival, thus the payload that was sent when they arrive in order. The
  radio then has forgotten the message: if each fragment arrives again (\<open>ys\<close> and \<open>u\<close>), again in any order, the receivers get
  a second message in the same way.\<close>

theorem fragmenting_delivers:
  fixes os below pl random mid
  defines "mr \<equiv> MAX_MESSAGE_LENGTH os - (below + 6)"
  defines "k \<equiv> length pl div mr + 1"
  defines "piece \<equiv> \<lambda>s. take mr (drop (s * mr) pl)"
  defines "packet \<equiv> \<lambda>s. fr_packet (word_of_nat (random mod 65535)) mid s k (piece s)"
  assumes act: "fr_active st" and len: "MAX_MESSAGE_LENGTH os < 5 + length pl" "5 + length pl \<le> 1024"
    and max: "4 \<le> below" "below + 6 < MAX_MESSAGE_LENGTH os" "MAX_MESSAGE_LENGTH os < 256" "MAX_MESSAGE_LENGTH os' = MAX_MESSAGE_LENGTH os"
    and fragments: "length pl mod mr \<noteq> 0" "length pl div mr < 7"
    and junk: "1024 \<le> length junk" "1024 \<le> length junk'" and data: "1024 \<le> length rest"
    and rt: "fr_ready rt (word_of_nat (random mod 65535))" "src \<noteq> self" and pad: "\<forall>s. MAX_MESSAGE_LENGTH os \<le> length (pad s)"
    and arrivals: "insert s (snd ` set xs) = {..<k}" "s \<notin> snd ` set xs"
    and again: "insert u (snd ` set ys) = {..<k}" "u \<notin> snd ` set ys"
  shows "\<exists>rt1 rt2 rt3 rt4 more more'.
    fr_send os below random junk st dest (5 + length pl) (message_bytes 2 mid pl @ rest) =
      Some (map (Frag_send dest) (map packet [0..<k])) \<and>
    fr_run os' self junk' rt src (map (\<lambda>(now, s). (now, packet s @ pad s)) xs) = Some (rt1, []) \<and>
    fr_receive os' self junk' now rt1 src (packet s @ pad s) =
      Some (rt2, fr_notify rt src (length pl) (message_bytes 2 mid (concat (map piece (fr_firsts (map snd xs @ [s])))) @ more)) \<and>
    concat (map piece [0..<k]) = pl \<and>
    fr_run os' self junk' rt2 src (map (\<lambda>(now, s). (now, packet s @ pad s)) ys) = Some (rt3, []) \<and>
    fr_receive os' self junk' now' rt3 src (packet u @ pad u) =
      Some (rt4, fr_notify rt src (length pl) (message_bytes 2 mid (concat (map piece (fr_firsts (map snd ys @ [u])))) @ more'))"
proof -
  let ?i = "word_of_nat (random mod 65535) :: u16"
  have ann: "fr_announced mr pl = k" "fr_made mr pl = k" using fragments(1) by (auto simp: fr_announced_def fr_made_def k_def)
  have piece: "piece = fr_piece mr pl" by (simp add: piece_def fr_piece_def fun_eq_iff)
  have packet: "packet = fr_packets ?i mid mr pl" by (simp add: packet_def piece fr_packets_def ann fun_eq_iff)
  have mr: "0 < mr" "10 + mr \<le> MAX_MESSAGE_LENGTH os'" "MAX_MESSAGE_LENGTH os' < 256" using max by (auto simp: mr_def)
  have "min 7 k = k" using fragments(2) by (simp add: k_def)
  then have send: "fr_send os below random junk st dest (5 + length pl) (message_bytes 2 mid pl @ rest) =
      Some (map (Frag_send dest) (map packet [0..<k]))"
    using fr_send_long [OF act len max(1-3) junk(1), of rest random dest mid] data
    by (simp add: ann packet fr_packets_def comp_def del: upt_Suc flip: mr_def)
  have two: "2 \<le> k" "k \<le> 7" using fr_two_fragments [OF len(1) max(1,2)] fragments(2) by (auto simp: ann k_def simp flip: mr_def)
  have pad': "\<forall>s. MAX_MESSAGE_LENGTH os' \<le> length (pad s)" using pad unfolding max(4) .
  have l: "length pl \<le> 1019" using len(2) by simp
  note round = fr_round [where mid = mid and i = ?i, OF _ rt(2) mr junk(2) l two ann(1) [symmetric] pad', folded packet piece]
  obtain rt1 rt2 more where a: "fr_run os' self junk' rt src (map (\<lambda>(now, s). (now, packet s @ pad s)) xs) = Some (rt1, [])"
      "fr_receive os' self junk' now rt1 src (packet s @ pad s) =
        Some (rt2, fr_notify rt src (length pl) (message_bytes 2 mid (concat (map piece (fr_firsts (map snd xs @ [s])))) @ more))"
      "fr_ready rt2 ?i" "fr_notify rt2 = (fr_notify rt :: node_id \<Rightarrow> _)"
    using round [OF rt(1) arrivals] by blast
  obtain rt3 rt4 more' where b: "fr_run os' self junk' rt2 src (map (\<lambda>(now, s). (now, packet s @ pad s)) ys) = Some (rt3, [])"
      "fr_receive os' self junk' now' rt3 src (packet u @ pad u) =
        Some (rt4, fr_notify rt2 src (length pl) (message_bytes 2 mid (concat (map piece (fr_firsts (map snd ys @ [u])))) @ more'))"
    using round [OF a(3) again] by blast
  have "concat (map piece [0..<k]) = pl" unfolding piece concat_pieces using fr_announced_covers [OF mr(1), of pl] ann(1) by simp
  then show ?thesis using send a(1,2) b unfolding a(4) by blast
qed

lemma fragmenting_delivers_witness:
  "\<exists>packets rt1 rt2 rt3 rt4 more more'.
    fr_send (demo_os\<lparr>MAX_MESSAGE_LENGTH := 20\<rparr>) 4 77 (replicate 1024 0) ((fr_new [] [] :: unit frag_radio)\<lparr>fr_active := True\<rparr>) 7 30
      (message_bytes 2 9 (replicate 10 1 @ replicate 10 2 @ replicate 5 3) @ replicate 1024 0) =
      Some (map (Frag_send 7) packets) \<and> length packets = 3 \<and>
    fr_run (demo_os\<lparr>MAX_MESSAGE_LENGTH := 20\<rparr>) 7 (replicate 1024 5) ((fr_new [True] [])\<lparr>fr_active := True,
        fr_callbacks := vs_push_back (vs_new [True]) True\<rparr>) 8
      [(1, packets ! 1 @ replicate 20 0), (2, packets ! 0 @ replicate 20 0), (4, packets ! 1 @ replicate 20 0)] = Some (rt1, []) \<and>
    fr_receive (demo_os\<lparr>MAX_MESSAGE_LENGTH := 20\<rparr>) 7 (replicate 1024 5) 9 rt1 8 (packets ! 2 @ replicate 20 0) =
      Some (rt2, [Frag_notify True 8 25 (message_bytes 2 9 (replicate 10 2 @ replicate 10 1 @ replicate 5 3) @ more)]) \<and>
    fr_run (demo_os\<lparr>MAX_MESSAGE_LENGTH := 20\<rparr>) 7 (replicate 1024 5) rt2 8
      [(10, packets ! 0 @ replicate 20 0), (11, packets ! 1 @ replicate 20 0)] = Some (rt3, []) \<and>
    fr_receive (demo_os\<lparr>MAX_MESSAGE_LENGTH := 20\<rparr>) 7 (replicate 1024 5) 12 rt3 8 (packets ! 2 @ replicate 20 0) =
      Some (rt4, [Frag_notify True 8 25 (message_bytes 2 9 (replicate 10 1 @ replicate 10 2 @ replicate 5 3) @ more')])"
proof -
  let ?st = "(fr_new [] [])\<lparr>fr_active := True\<rparr> :: unit frag_radio"
  let ?rt = "(fr_new [True] [])\<lparr>fr_active := True, fr_callbacks := vs_push_back (vs_new [True]) True\<rparr>"
  let ?pl = "replicate 10 1 @ replicate 10 2 @ replicate 5 3 :: bytes"
  have room: "fr_ready ?rt (word_of_nat (77 mod 65535))"
    by (simp add: fr_ready_def fr_new_def vs_new_elems fr_others_def) (simp add: vs_new_def vs_size_def vs_max_size_def)
  have firsts: "fr_firsts (map snd [(1 :: u32, 1), (2, 0), (4, 1)] @ [2]) = [1, 0, 2]"
      "fr_firsts (map snd [(10 :: u32, 0), (11, 1)] @ [2]) = [0, 1, 2]" by (simp_all add: fr_firsts_def)
  have three: "insert 2 (snd ` set [(1 :: u32, 1), (2, 0), (4, 1 :: nat)]) = {..<3}"
      "insert 2 (snd ` set [(10 :: u32, 0), (11, 1 :: nat)]) = {..<3}" by auto
  have notify: "fr_notify ?rt 8 n b = [Frag_notify True 8 n b]" for n b
    by (simp add: fr_notify_def vs_push_back_def vs_new_def elems_def)
  have "length ?pl = 25" by simp
  note F = fragmenting_delivers [where os = "demo_os\<lparr>MAX_MESSAGE_LENGTH := 20\<rparr>" and os' = "demo_os\<lparr>MAX_MESSAGE_LENGTH := 20\<rparr>"
      and below = 4 and pl = ?pl and st = ?st and rt = ?rt and random = 77 and junk = "replicate 1024 0" and junk' = "replicate 1024 5"
      and rest = "replicate 1024 0" and self = 7 and src = 8 and pad = "\<lambda>s. replicate 20 0" and s = 2 and dest = 7 and mid = 9
      and xs = "[(1, 1), (2, 0), (4, 1)]" and now = 9 and u = 2 and ys = "[(10, 0), (11, 1)]" and now' = 12,
      unfolded firsts this notify]
  have pieces: "concat (map (\<lambda>s. take 10 (drop (s * 10) ?pl)) [1, 0, 2]) = replicate 10 2 @ replicate 10 1 @ replicate 5 3"
      "concat (map (\<lambda>s. take 10 (drop (s * 10) ?pl)) [0, 1, 2]) = ?pl" by simp_all
  let ?packet = "\<lambda>s. fr_packet (word_of_nat (77 mod 65535)) 9 s 3 (take 10 (drop (s * 10) ?pl))"
  have upt: "map ?packet [0..<3] = [?packet 0, ?packet 1, ?packet 2]"
    by (simp add: upt_rec numeral_2_eq_2 numeral_3_eq_3)
  let ?os = "demo_os\<lparr>MAX_MESSAGE_LENGTH := 20\<rparr>" and ?z = "replicate 20 0 :: bytes" and ?j = "replicate 1024 5 :: bytes"
  have G: "\<exists>rt1 rt2 rt3 rt4 more more'.
    fr_send ?os 4 77 (replicate 1024 0) ?st 7 30 (message_bytes 2 9 ?pl @ replicate 1024 0) =
      Some (map (Frag_send 7) (map ?packet [0..<3])) \<and>
    fr_run ?os 7 ?j ?rt 8 [(1, ?packet 1 @ ?z), (2, ?packet 0 @ ?z), (4, ?packet 1 @ ?z)] = Some (rt1, []) \<and>
    fr_receive ?os 7 ?j 9 rt1 8 (?packet 2 @ ?z) =
      Some (rt2, [Frag_notify True 8 25 (message_bytes 2 9 (replicate 10 2 @ replicate 10 1 @ replicate 5 3) @ more)]) \<and>
    fr_run ?os 7 ?j rt2 8 [(10, ?packet 0 @ ?z), (11, ?packet 1 @ ?z)] = Some (rt3, []) \<and>
    fr_receive ?os 7 ?j 12 rt3 8 (?packet 2 @ ?z) = Some (rt4, [Frag_notify True 8 25 (message_bytes 2 9 ?pl @ more')])"
    using F room three by (simp add: pieces demo_os_def del: fr_run.simps upt_Suc) blast
  have nth: "[x, y, z] ! 0 = x" "[x, y, z] ! 1 = y" "[x, y, z] ! 2 = z" "length [x, y, z] = 3" for x y z :: bytes by simp_all
  show ?thesis using G unfolding upt
    by (intro exI [of _ "[?packet 0, ?packet 1, ?packet 2]"]) (simp only: nth simp_thms)
qed

text \<open>C10: A long message whose payload of at most 1019 bytes is a multiple of what a fragment carries and would need at most
  seven fragments is never delivered: each of the fragments that are sent announces \<open>k\<close> fragments, one for every piece, but
  only the first \<open>k - 1\<close> are sent, as the loop that makes the full ones stops before the last and only a shorter
  one is added after it. Whatever packets of it arrive, in any order and repeated, at a radio that is ready for the
  message (\<open>fr_ready\<close>), the receivers get nothing.\<close>

theorem fragmenting_exact_multiple:
  fixes os below pl random mid
  defines "mr \<equiv> MAX_MESSAGE_LENGTH os - (below + 6)"
  defines "k \<equiv> length pl div mr"
  defines "packet \<equiv> \<lambda>s. fr_packet (word_of_nat (random mod 65535)) mid s k (take mr (drop (s * mr) pl))"
  assumes act: "fr_active st" and len: "MAX_MESSAGE_LENGTH os < 5 + length pl" "5 + length pl \<le> 1024"
    and max: "4 \<le> below" "below + 6 < MAX_MESSAGE_LENGTH os" "MAX_MESSAGE_LENGTH os < 256" "MAX_MESSAGE_LENGTH os' = MAX_MESSAGE_LENGTH os"
    and fragments: "length pl mod mr = 0" "k \<le> 7"
    and junk: "1024 \<le> length junk" "1024 \<le> length junk'" and data: "1024 \<le> length rest"
    and rt: "fr_ready rt (word_of_nat (random mod 65535))" "src \<noteq> self" and pad: "\<forall>s. MAX_MESSAGE_LENGTH os \<le> length (pad s)"
    and arrivals: "xs \<noteq> []" "snd ` set xs \<subseteq> {..<k - 1}"
  shows "2 \<le> k \<and>
    fr_send os below random junk st dest (5 + length pl) (message_bytes 2 mid pl @ rest) =
      Some (map (Frag_send dest) (map packet [0..<k - 1])) \<and>
    (\<exists>rt'. fr_run os' self junk' rt src (map (\<lambda>(now, s). (now, packet s @ pad s)) xs) = Some (rt', []))"
proof -
  let ?i = "word_of_nat (random mod 65535) :: u16"
  have ann: "fr_announced mr pl = k" "fr_made mr pl = k - 1" using fragments(1) by (auto simp: fr_announced_def fr_made_def k_def)
  have packet: "packet = fr_packets ?i mid mr pl" by (simp add: packet_def fr_piece_def fr_packets_def ann fun_eq_iff)
  have mr: "10 + mr \<le> MAX_MESSAGE_LENGTH os'" "MAX_MESSAGE_LENGTH os' < 256" "MAX_MESSAGE_LENGTH os' \<le> length junk'"
    using max junk by (auto simp: mr_def)
  have min: "min 7 (k - 1) = k - 1" using fragments(2) by simp
  have send: "fr_send os below random junk st dest (5 + length pl) (message_bytes 2 mid pl @ rest) =
      Some (map (Frag_send dest) (map packet [0..<k - 1]))"
    using fr_send_long [OF act len max(1-3) junk(1), of rest random dest mid] data
    by (simp only: ann min packet fr_packets_def comp_def map_map flip: mr_def)
  have two: "2 \<le> k" using fr_two_fragments [OF len(1) max(1,2)] by (simp only: ann flip: mr_def)
  have "card (set (fr_firsts (map snd xs))) \<le> card {..<k - 1}" using arrivals(2) by (intro card_mono) auto
  then have less: "length (fr_firsts (map snd xs)) < k" using two distinct_card [OF fr_firsts_set(2), of "map snd xs"] by simp
  have pad': "\<forall>s. MAX_MESSAGE_LENGTH os' \<le> length (pad s)" using pad unfolding max(4) .
  have "snd ` set xs \<subseteq> {..<k}" using arrivals(2) by auto
  then obtain rt' where "fr_run os' self junk' rt src (map (\<lambda>(now, s). (now, packet s @ pad s)) xs) = Some (rt', [])"
    using fr_run_holds [OF rt mr two fragments(2) ann(1) [symmetric] pad' arrivals(1) _ less, of mid] unfolding packet by blast
  then show ?thesis using send two by blast
qed

lemma fragmenting_exact_multiple_witness:
  "\<exists>packet rt'.
    fr_send (demo_os\<lparr>MAX_MESSAGE_LENGTH := 20\<rparr>) 4 77 (replicate 1024 0) ((fr_new [] [] :: unit frag_radio)\<lparr>fr_active := True\<rparr>) 7 25
      (message_bytes 2 9 (replicate 20 1) @ replicate 1024 0) = Some [Frag_send 7 packet] \<and>
    packet = message_bytes 1 FR_MESSAGE (frg_bytes 77 9 0 2 (replicate 10 1)) \<and>
    fr_run (demo_os\<lparr>MAX_MESSAGE_LENGTH := 20\<rparr>) 7 (replicate 1024 5) ((fr_new [True] [])\<lparr>fr_active := True\<rparr>) 8
      [(1, packet @ replicate 20 0), (2, packet @ replicate 20 0)] = Some (rt', [])"
proof -
  let ?st = "(fr_new [] [])\<lparr>fr_active := True\<rparr> :: unit frag_radio"
  let ?rt = "(fr_new [True] [])\<lparr>fr_active := True\<rparr>"
  have room: "fr_ready ?rt (word_of_nat (77 mod 65535))"
    by (simp add: fr_ready_def fr_new_def vs_new_elems fr_others_def) (simp add: vs_new_def vs_size_def vs_max_size_def)
  note F = fragmenting_exact_multiple [where os = "demo_os\<lparr>MAX_MESSAGE_LENGTH := 20\<rparr>" and os' = "demo_os\<lparr>MAX_MESSAGE_LENGTH := 20\<rparr>"
      and below = 4 and pl = "replicate 20 1" and st = ?st and rt = ?rt and random = 77 and junk = "replicate 1024 0" and junk' = "replicate 1024 5"
      and rest = "replicate 1024 0" and self = 7 and src = 8 and pad = "\<lambda>s. replicate 20 0" and dest = 7 and mid = 9
      and xs = "[(1, 0), (2, 0)]"]
  from F show ?thesis using room by (simp add: demo_os_def fr_packet_def del: fr_run.simps)
qed

end
