(* ===== verification/List_Static.thy ===== *)
theory List_Static
  imports Wl_Prelude
begin

text \<open>
  \<^verbatim>\<open>wiselib.testing/util/pstl/list_static.h\<close>: a list in an array of nodes that are linked in two
  rings, one of the elements with the node \<open>data_\<close>, one of the free nodes with \<open>empty_nodes_\<close>.
  The three members are one array here, as \<open>end()\<close> takes them: a pointer is an index, \<open>data_\<close> is
  the index behind the last node and \<open>empty_nodes_\<close> the next one. A loop over iterators that may not end
  is a \<open>partial_function\<close>: \<^const>\<open>None\<close> also stands for not returning. \<open>splice\<close> and \<open>rend\<close> do
  not compile.
\<close>

section \<open>list_node\<close>

record 'a list_node =
  ln_element :: 'a
  ln_next :: nat
  ln_prev :: nat

type_synonym 'a list_nodes = "'a list_node list"

definition get_next :: "'a list_nodes \<Rightarrow> nat \<Rightarrow> nat option" where
  "get_next ns p = map_option ln_next (rd ns p)"

definition get_prev :: "'a list_nodes \<Rightarrow> nat \<Rightarrow> nat option" where
  "get_prev ns p = map_option ln_prev (rd ns p)"

definition set_next :: "'a list_nodes \<Rightarrow> nat \<Rightarrow> nat \<Rightarrow> 'a list_nodes option" where
  "set_next ns p q = do { n \<leftarrow> rd ns p; wr ns p (n\<lparr>ln_next := q\<rparr>) }"

definition set_prev :: "'a list_nodes \<Rightarrow> nat \<Rightarrow> nat \<Rightarrow> 'a list_nodes option" where
  "set_prev ns p q = do { n \<leftarrow> rd ns p; wr ns p (n\<lparr>ln_prev := q\<rparr>) }"

definition ln_new :: "'a \<Rightarrow> nat \<Rightarrow> 'a list_node" where
  "ln_new d this = \<lparr>ln_element = d, ln_next = this, ln_prev = this\<rparr>"

text \<open>\<open>position\<close> may be the null pointer.\<close>

definition ln_hook :: "'a list_nodes \<Rightarrow> nat \<Rightarrow> nat option \<Rightarrow> 'a list_nodes option" where
  "ln_hook ns this position = (case position of None \<Rightarrow> Some ns | Some p \<Rightarrow> do {
     ns \<leftarrow> set_next ns this p;
     q \<leftarrow> get_prev ns p; ns \<leftarrow> set_prev ns this q;
     n \<leftarrow> get_next ns this; ns \<leftarrow> set_prev ns n this;
     q \<leftarrow> get_prev ns this; set_next ns q this })"

definition ln_unhook :: "'a list_nodes \<Rightarrow> nat \<Rightarrow> 'a list_nodes option" where
  "ln_unhook ns this = do {
     q \<leftarrow> get_prev ns this; n \<leftarrow> get_next ns this; ns \<leftarrow> set_next ns q n;
     n \<leftarrow> get_next ns this; q \<leftarrow> get_prev ns this; ns \<leftarrow> set_prev ns n q;
     ns \<leftarrow> set_next ns this this;
     set_prev ns this this }"

definition ln_reverse :: "'a list_nodes \<Rightarrow> nat \<Rightarrow> 'a list_nodes option" where
  "ln_reverse ns this = do {
     tmp \<leftarrow> get_next ns this;
     q \<leftarrow> get_prev ns this; ns \<leftarrow> set_next ns this q;
     set_prev ns this tmp }"

definition ln_swap :: "'a list_nodes \<Rightarrow> nat \<Rightarrow> nat \<Rightarrow> 'a list_nodes option" where
  "ln_swap ns this nd = do { tmp \<leftarrow> rd ns nd; x \<leftarrow> rd ns this; ns \<leftarrow> wr ns nd x; wr ns this tmp }"

section \<open>list_iterator\<close>

definition it_deref :: "'a list_nodes \<Rightarrow> nat \<Rightarrow> 'a option" where
  "it_deref ns it = map_option ln_element (rd ns it)"

definition it_inc :: "'a list_nodes \<Rightarrow> nat \<Rightarrow> nat option" where
  "it_inc ns it = get_next ns it"

definition it_dec :: "'a list_nodes \<Rightarrow> nat \<Rightarrow> nat option" where
  "it_dec ns it = get_prev ns it"

text \<open>\<open>lhs - rhs\<close> counts the steps from \<open>rhs\<close> to \<open>lhs\<close>.\<close>

partial_function (option) it_diff_loop :: "'a list_nodes \<Rightarrow> nat \<Rightarrow> nat \<Rightarrow> nat \<Rightarrow> int \<Rightarrow> int option" where
  "it_diff_loop ns lhs rhs tmp i =
     (if tmp \<noteq> lhs then do {
        tmp \<leftarrow> it_inc ns tmp;
        if tmp = rhs then Some (- 1) else it_diff_loop ns lhs rhs tmp (i + 1) }
      else Some i)"

definition it_diff :: "'a list_nodes \<Rightarrow> nat \<Rightarrow> nat \<Rightarrow> int option" where
  "it_diff ns lhs rhs = it_diff_loop ns lhs rhs rhs 0"

section \<open>list_static\<close>

record 'a list_static =
  ls_nodes :: "'a list_nodes"

definition list_SIZE :: "int \<Rightarrow> nat" where
  "list_SIZE n = (if n < 1 then 1 else nat n)"

definition ls_SIZE :: "'a list_static \<Rightarrow> nat" where
  "ls_SIZE l = length (ls_nodes l) - 2"

abbreviation (input) "ls_data l \<equiv> ls_SIZE l"
abbreviation (input) "ls_empties l \<equiv> ls_SIZE l + 1"

text \<open>The loop of \<open>init\<close> over \<open>i\<close>, \<open>i + 1\<close>, ... as many as \<open>k\<close>.\<close>

fun ls_init_loop :: "nat \<Rightarrow> nat \<Rightarrow> 'a list_nodes \<Rightarrow> 'a list_nodes option" where
  "ls_init_loop i 0 ns = Some ns"
| "ls_init_loop i (Suc k) ns = do {
     ns \<leftarrow> set_next ns i (i + 1);
     ns \<leftarrow> set_prev ns (i + 1) i;
     ls_init_loop (i + 1) k ns }"

definition ls_init :: "'a list_static \<Rightarrow> 'a list_static option" where
  "ls_init l = (let N = ls_SIZE l in do {
     ns \<leftarrow> ls_init_loop 0 (N - 1) (ls_nodes l);
     ns \<leftarrow> set_next ns (N - 1) 0;
     ns \<leftarrow> set_prev ns 0 (N - 1);
     ns \<leftarrow> ln_hook ns (ls_empties l) (Some 0);
     Some (l\<lparr>ls_nodes := ns\<rparr>) })"

text \<open>\<open>d\<close> is the element of a new node, \<^verbatim>\<open>Value_P()\<close>.\<close>

definition ls_new :: "int \<Rightarrow> 'a \<Rightarrow> 'a list_static option" where
  "ls_new n d = ls_init \<lparr>ls_nodes = map (ln_new d) [0..<list_SIZE n + 2]\<rparr>"

definition ls_begin :: "'a list_static \<Rightarrow> nat option" where
  "ls_begin l = get_next (ls_nodes l) (ls_data l)"

definition ls_end :: "'a list_static \<Rightarrow> nat" where
  "ls_end l = ls_SIZE l"

definition ls_rbegin :: "'a list_static \<Rightarrow> nat option" where
  "ls_rbegin l = it_dec (ls_nodes l) (ls_end l)"

definition ls_empty :: "'a list_static \<Rightarrow> bool option" where
  "ls_empty l = do { b \<leftarrow> ls_begin l; Some (b = ls_end l) }"

definition ls_max_size :: "'a list_static \<Rightarrow> int" where
  "ls_max_size l = int (ls_SIZE l)"

definition ls_size :: "'a list_static \<Rightarrow> int option" where
  "ls_size l = do { b \<leftarrow> ls_begin l; it_diff (ls_nodes l) (ls_end l) b }"

definition ls_full :: "'a list_static \<Rightarrow> bool option" where
  "ls_full l = do { n \<leftarrow> ls_size l; Some (n = ls_max_size l) }"

definition ls_capacity :: "'a list_static \<Rightarrow> int" where
  "ls_capacity l = int (ls_SIZE l)"

definition ls_front :: "'a list_static \<Rightarrow> 'a option" where
  "ls_front l = do { b \<leftarrow> ls_begin l; it_deref (ls_nodes l) b }"

definition ls_back :: "'a list_static \<Rightarrow> 'a option" where
  "ls_back l = do { tmp \<leftarrow> it_dec (ls_nodes l) (ls_end l); it_deref (ls_nodes l) tmp }"

definition ls_put_node :: "'a list_static \<Rightarrow> nat \<Rightarrow> 'a list_static option" where
  "ls_put_node l node = do {
     f \<leftarrow> get_next (ls_nodes l) (ls_empties l);
     ns \<leftarrow> ln_hook (ls_nodes l) node (Some f);
     Some (l\<lparr>ls_nodes := ns\<rparr>) }"

text \<open>The inner option of a result is a pointer that may be null.\<close>

definition ls_get_node :: "'a list_static \<Rightarrow> ('a list_static \<times> nat option) option" where
  "ls_get_node l = do {
     tmp \<leftarrow> get_next (ls_nodes l) (ls_empties l);
     if ls_empties l = tmp then Some (l, None)
     else do { ns \<leftarrow> ln_unhook (ls_nodes l) tmp; Some (l\<lparr>ls_nodes := ns\<rparr>, Some tmp) } }"

definition ls_create_node :: "'a list_static \<Rightarrow> 'a \<Rightarrow> ('a list_static \<times> nat option) option" where
  "ls_create_node l x = do {
     (l, tmp) \<leftarrow> ls_get_node l;
     case tmp of None \<Rightarrow> Some (l, None)
     | Some p \<Rightarrow> do {
         n \<leftarrow> rd (ls_nodes l) p;
         ns \<leftarrow> wr (ls_nodes l) p (n\<lparr>ln_element := x\<rparr>);
         Some (l\<lparr>ls_nodes := ns\<rparr>, Some p) } }"

definition ls_erase :: "'a list_static \<Rightarrow> nat \<Rightarrow> ('a list_static \<times> nat option) option" where
  "ls_erase l position = do {
     e \<leftarrow> ls_empty l;
     if e then Some (l, None)
     else do {
       ns \<leftarrow> ln_unhook (ls_nodes l) position;
       l \<leftarrow> ls_put_node (l\<lparr>ls_nodes := ns\<rparr>) position;
       Some (l, Some position) } }"

partial_function (option) ls_erase_loop :: "'a list_static \<Rightarrow> nat \<Rightarrow> nat \<Rightarrow> nat \<Rightarrow> 'a list_static option" where
  "ls_erase_loop l frst lst it =
     (if it \<noteq> lst then do {
        (l, _) \<leftarrow> ls_erase l it;
        it \<leftarrow> it_inc (ls_nodes l) it;
        if it = frst then Some l else ls_erase_loop l frst lst it }
      else Some l)"

definition ls_erase_range :: "'a list_static \<Rightarrow> nat \<Rightarrow> nat \<Rightarrow> 'a list_static option" where
  "ls_erase_range l frst lst = ls_erase_loop l frst lst frst"

definition ls_insert :: "'a list_static \<Rightarrow> nat \<Rightarrow> 'a \<Rightarrow> ('a list_static \<times> bool) option" where
  "ls_insert l position x = do {
     (l, tmp) \<leftarrow> ls_create_node l x;
     case tmp of None \<Rightarrow> Some (l, False)
     | Some p \<Rightarrow> do {
         ns \<leftarrow> ln_hook (ls_nodes l) p (Some position);
         Some (l\<lparr>ls_nodes := ns\<rparr>, True) } }"

fun ls_insert_n :: "'a list_static \<Rightarrow> nat \<Rightarrow> nat \<Rightarrow> 'a \<Rightarrow> 'a list_static option" where
  "ls_insert_n l position 0 x = Some l"
| "ls_insert_n l position (Suc n) x = do { (l, _) \<leftarrow> ls_insert l position x; ls_insert_n l position n x }"

text \<open>The range that is inserted is the contents of another container, whose iterators do not run in
  a circle.\<close>

fun ls_insert_range :: "'a list_static \<Rightarrow> nat \<Rightarrow> 'a list \<Rightarrow> ('a list_static \<times> bool) option" where
  "ls_insert_range l position [] = Some (l, True)"
| "ls_insert_range l position (x # xs) = do {
     (l, ok) \<leftarrow> ls_insert l position x;
     if \<not> ok then Some (l, False)
     else do {
       position \<leftarrow> it_inc (ls_nodes l) position;
       ls_insert_range l position xs } }"

definition ls_push_back :: "'a list_static \<Rightarrow> 'a \<Rightarrow> ('a list_static \<times> bool) option" where
  "ls_push_back l x = ls_insert l (ls_end l) x"

definition ls_push_front :: "'a list_static \<Rightarrow> 'a \<Rightarrow> ('a list_static \<times> bool) option" where
  "ls_push_front l x = do { b \<leftarrow> ls_begin l; ls_insert l b x }"

definition ls_pop_back :: "'a list_static \<Rightarrow> ('a list_static \<times> nat option) option" where
  "ls_pop_back l = do { p \<leftarrow> get_prev (ls_nodes l) (ls_end l); ls_erase l p }"

definition ls_pop_front :: "'a list_static \<Rightarrow> ('a list_static \<times> nat option) option" where
  "ls_pop_front l = do { b \<leftarrow> ls_begin l; ls_erase l b }"

partial_function (option) ls_reverse_loop :: "'a list_static \<Rightarrow> nat \<Rightarrow> 'a list_static option" where
  "ls_reverse_loop l it = do {
     ns \<leftarrow> ln_reverse (ls_nodes l) it;
     l \<leftarrow> Some (l\<lparr>ls_nodes := ns\<rparr>);
     it \<leftarrow> it_dec (ls_nodes l) it;
     b \<leftarrow> ls_begin l;
     if it \<noteq> b then ls_reverse_loop l it else Some l }"

definition ls_reverse :: "'a list_static \<Rightarrow> 'a list_static option" where
  "ls_reverse l = do { it \<leftarrow> ls_begin l; ls_reverse_loop l it }"

definition ls_clear :: "'a list_static \<Rightarrow> 'a list_static option" where
  "ls_clear l = do {
     e \<leftarrow> ls_empty l;
     if e then Some l
     else (let d = ls_data l; em = ls_empties l; ns = ls_nodes l in do {
       first_element \<leftarrow> get_next ns d;
       n \<leftarrow> get_next ns first_element; p \<leftarrow> get_prev ns em; ns \<leftarrow> set_prev ns n p;
       p \<leftarrow> get_prev ns em; n \<leftarrow> get_next ns first_element; ns \<leftarrow> set_next ns p n;
       ns \<leftarrow> set_next ns first_element em;
       ns \<leftarrow> set_prev ns em first_element;
       ns \<leftarrow> ln_unhook ns d;
       Some (l\<lparr>ls_nodes := ns\<rparr>) }) }"

text \<open>The elements of the list that is copied, read by its iterators.\<close>

partial_function (option) ls_copy_loop :: "'a list_static \<Rightarrow> 'a list_static \<Rightarrow> nat \<Rightarrow> 'a list_static option" where
  "ls_copy_loop l src it =
     (if it \<noteq> ls_end src then do {
        x \<leftarrow> it_deref (ls_nodes src) it;
        (l, _) \<leftarrow> ls_push_back l x;
        it \<leftarrow> it_inc (ls_nodes src) it;
        ls_copy_loop l src it }
      else Some l)"

definition ls_assign :: "'a list_static \<Rightarrow> 'a list_static \<Rightarrow> 'a list_static option" where
  "ls_assign l src = do { l \<leftarrow> ls_clear l; it \<leftarrow> ls_begin src; ls_copy_loop l src it }"

definition ls_copy :: "int \<Rightarrow> 'a \<Rightarrow> 'a list_static \<Rightarrow> 'a list_static option" where
  "ls_copy n d src = do { l \<leftarrow> ls_new n d; ls_assign l src }"

text \<open>The inner loop of \<open>remove\<close> and of \<open>unique\<close>: erase at the iterator as long as the element there is
  \<open>v\<close>; and the outer loops.\<close>

partial_function (option) ls_remove_while :: "'a list_static \<Rightarrow> 'a \<Rightarrow> nat \<Rightarrow> ('a list_static \<times> nat) option" where
  "ls_remove_while l v it = do {
     x \<leftarrow> it_deref (ls_nodes l) it;
     if x = v then do {
       nxt \<leftarrow> it_inc (ls_nodes l) it;
       (l, _) \<leftarrow> ls_erase l it;
       if nxt = ls_end l then Some (l, nxt) else ls_remove_while l v nxt }
     else Some (l, it) }"

partial_function (option) ls_remove_loop :: "'a list_static \<Rightarrow> 'a \<Rightarrow> nat \<Rightarrow> 'a list_static option" where
  "ls_remove_loop l v it =
     (if it \<noteq> ls_end l then do {
        (l, it) \<leftarrow> ls_remove_while l v it;
        it \<leftarrow> it_inc (ls_nodes l) it;
        ls_remove_loop l v it }
      else Some l)"

definition ls_remove :: "'a list_static \<Rightarrow> 'a \<Rightarrow> 'a list_static option" where
  "ls_remove l v = do { it \<leftarrow> ls_begin l; ls_remove_loop l v it }"

partial_function (option) ls_unique_while :: "'a list_static \<Rightarrow> nat \<Rightarrow> nat \<Rightarrow> ('a list_static \<times> nat) option" where
  "ls_unique_while l it nxt = do {
     x \<leftarrow> it_deref (ls_nodes l) it;
     y \<leftarrow> it_deref (ls_nodes l) nxt;
     if x = y then do {
       nxt' \<leftarrow> it_inc (ls_nodes l) nxt;
       (l, _) \<leftarrow> ls_erase l nxt;
       if nxt' = ls_end l then Some (l, nxt') else ls_unique_while l it nxt' }
     else Some (l, nxt) }"

partial_function (option) ls_unique_loop :: "'a list_static \<Rightarrow> nat \<Rightarrow> nat \<Rightarrow> 'a list_static option" where
  "ls_unique_loop l it nxt =
     (if it \<noteq> ls_end l then do {
        nxt \<leftarrow> it_inc (ls_nodes l) nxt;
        (l, nxt) \<leftarrow> ls_unique_while l it nxt;
        ls_unique_loop l nxt nxt }
      else Some l)"

definition ls_unique :: "'a list_static \<Rightarrow> 'a list_static option" where
  "ls_unique l = do { it \<leftarrow> ls_begin l; ls_unique_loop l it it }"

declare it_diff_loop.simps [code] ls_erase_loop.simps [code] ls_reverse_loop.simps [code] ls_copy_loop.simps [code]
  ls_remove_while.simps [code] ls_remove_loop.simps [code] ls_unique_while.simps [code] ls_unique_loop.simps [code]

end
