(* ===== verification/List_Static_Correct.thy ===== *)
theory List_Static_Correct
  imports List_Static
begin

text \<open>
  The list of \<open>List_Static\<close> refines a list of at most as many elements as there are nodes. The
  representation says which nodes are on the ring of the elements and on that of the free nodes;
  hooking and unhooking a node are described once, on any ring.
\<close>

section \<open>Rings\<close>

abbreviation (input) "nx ns p \<equiv> ln_next (ns ! p)"
abbreviation (input) "pv ns p \<equiv> ln_prev (ns ! p)"

definition ln_link :: "'a list_nodes \<Rightarrow> nat \<Rightarrow> nat \<Rightarrow> bool" where
  "ln_link ns p q \<longleftrightarrow> nx ns p = q \<and> pv ns q = p"

text \<open>The ring through \<open>s\<close> and then the nodes \<open>xs\<close>.\<close>

definition ring :: "'a list_nodes \<Rightarrow> nat \<Rightarrow> nat list \<Rightarrow> bool" where
  "ring ns s xs \<longleftrightarrow> successively (ln_link ns) (s # xs) \<and> ln_link ns (last (s # xs)) s \<and>
     distinct (s # xs) \<and> (\<forall>p \<in> set (s # xs). p < length ns)"

lemma links_cong:
  assumes "successively (ln_link ns) zs" and "\<And>p. p \<in> set (butlast zs) \<Longrightarrow> nx ns' p = nx ns p"
    and "\<And>p. p \<in> set (tl zs) \<Longrightarrow> pv ns' p = pv ns p"
  shows "successively (ln_link ns') zs"
  using assms
proof (induction zs rule: induct_list012)
  case (3 x y zs)
  have "successively (ln_link ns') (y # zs)"
  proof (rule "3.IH"(2))
    show "nx ns' p = nx ns p" if "p \<in> set (butlast (y # zs))" for p using "3.prems"(2) [of p] that by (auto split: if_splits)
    show "pv ns' p = pv ns p" if "p \<in> set (tl (y # zs))" for p using "3.prems"(3) [of p] that by auto
  qed (use "3.prems"(1) in simp)
  moreover have "nx ns' x = nx ns x" "pv ns' y = pv ns y" using "3.prems" by auto
  ultimately show ?case using "3.prems"(1) by (simp add: ln_link_def)
qed simp_all

lemma ring_append: "ring ns s (xs @ ys) \<longleftrightarrow> successively (ln_link ns) (s # xs) \<and> successively (ln_link ns) ys \<and>
    (ys \<noteq> [] \<longrightarrow> ln_link ns (last (s # xs)) (hd ys)) \<and> ln_link ns (last (s # xs @ ys)) s \<and>
    distinct (s # xs @ ys) \<and> (\<forall>p \<in> set (s # xs @ ys). p < length ns)"
proof -
  have "successively (ln_link ns) (s # xs @ ys) \<longleftrightarrow> successively (ln_link ns) (s # xs) \<and> successively (ln_link ns) ys \<and>
      (ys \<noteq> [] \<longrightarrow> ln_link ns (last (s # xs)) (hd ys))"
    using successively_append_iff [of "ln_link ns" "s # xs" ys] by auto
  then show ?thesis unfolding ring_def by (simp only: append_Cons [symmetric] conj_assoc)
qed

lemma ring_links: "ring ns s xs \<Longrightarrow> nx ns s = hd (xs @ [s]) \<and> pv ns s = last (s # xs)"
  by (cases xs) (auto simp: ring_def ln_link_def)

lemma ring_split:
  assumes "ring ns s (xs @ y # ys)"
  shows "nx ns y = hd (ys @ [s])" "pv ns y = last (s # xs)"
  using assms by (cases ys; auto simp: ring_append ln_link_def)+

lemma ring_cong:
  assumes "ring ns s xs" and "\<And>p. p \<in> set (s # xs) \<Longrightarrow> ns' ! p = ns ! p" and "length ns' = length ns"
  shows "ring ns' s xs"
proof -
  have "successively (ln_link ns') (s # xs)"
  proof (rule links_cong)
    show "successively (ln_link ns) (s # xs)" using assms(1) by (simp add: ring_def)
    show "nx ns' p = nx ns p" if "p \<in> set (butlast (s # xs))" for p
      using assms(2) [OF in_set_butlastD [OF that]] by simp
    show "pv ns' p = pv ns p" if "p \<in> set (tl (s # xs))" for p
      using assms(2) [of p] that by simp
  qed
  moreover have "last (s # xs) \<in> set (s # xs)" by (rule last_in_set) simp
  then have "ns' ! last (s # xs) = ns ! last (s # xs)" "ns' ! s = ns ! s" by (rule assms(2), simp add: assms(2))
  then have "ln_link ns' (last (s # xs)) s \<longleftrightarrow> ln_link ns (last (s # xs)) s" unfolding ln_link_def by (simp only:)
  ultimately show ?thesis using assms(1) unfolding ring_def assms(3) by blast
qed

section \<open>Hooking and unhooking\<close>

lemma set_next_in: "p < length ns \<Longrightarrow> set_next ns p q = Some (ns[p := (ns ! p)\<lparr>ln_next := q\<rparr>])"
  by (simp add: set_next_def)

lemma set_prev_in: "p < length ns \<Longrightarrow> set_prev ns p q = Some (ns[p := (ns ! p)\<lparr>ln_prev := q\<rparr>])"
  by (simp add: set_prev_def)

lemma get_in: "p < length ns \<Longrightarrow> get_next ns p = Some (nx ns p)" "p < length ns \<Longrightarrow> get_prev ns p = Some (pv ns p)"
  by (simp_all add: get_next_def get_prev_def)

lemmas node_simps = set_next_in set_prev_in get_in nth_list_update

definition same_nodes :: "'a list_nodes \<Rightarrow> 'a list_nodes \<Rightarrow> nat set \<Rightarrow> bool" where
  "same_nodes ns' ns A \<longleftrightarrow> length ns' = length ns \<and> map ln_element ns' = map ln_element ns \<and> (\<forall>p. p \<notin> A \<longrightarrow> ns' ! p = ns ! p)"

lemma map_element_update: "p < length ns \<Longrightarrow> ln_element n = ln_element (ns ! p) \<Longrightarrow> map ln_element (ns[p := n]) = map ln_element ns"
  by (metis list_update_id map_update nth_map length_map)

lemma ln_hook_eq:
  assumes "t < length ns" "p < length ns" "pv ns p < length ns" "t \<noteq> p" "pv ns p \<noteq> t"
  shows "\<exists>ns'. ln_hook ns t (Some p) = Some ns' \<and> same_nodes ns' ns {t, p, pv ns p} \<and>
    (\<forall>r. nx ns' r = (if r = t then p else if r = pv ns p then t else nx ns r)) \<and>
    (\<forall>r. pv ns' r = (if r = t then pv ns p else if r = p then t else pv ns r))"
  using assms by (auto simp: ln_hook_def node_simps same_nodes_def map_element_update)

lemma ln_unhook_eq:
  assumes "y < length ns" "nx ns y < length ns" "pv ns y < length ns" "nx ns y \<noteq> y" "pv ns y \<noteq> y"
  shows "\<exists>ns'. ln_unhook ns y = Some ns' \<and> same_nodes ns' ns {y, nx ns y, pv ns y} \<and>
    (\<forall>r. nx ns' r = (if r = y then y else if r = pv ns y then nx ns y else nx ns r)) \<and>
    (\<forall>r. pv ns' r = (if r = y then y else if r = nx ns y then pv ns y else pv ns r))"
  using assms by (auto simp: ln_unhook_def node_simps same_nodes_def map_element_update)

lemma distinct_butlast_last: "distinct zs \<Longrightarrow> p \<in> set (butlast zs) \<Longrightarrow> p \<noteq> last zs"
  by (metis append_butlast_last_id butlast.simps(1) distinct_append disjoint_insert(1) emptyE list.set(1,2) set_append)

lemma hook_ring:
  assumes ring: "ring ns s (xs @ ys)" and t: "t < length ns" "t \<notin> set (s # xs @ ys)"
  shows "\<exists>ns'. ln_hook ns t (Some (hd (ys @ [s]))) = Some ns' \<and> ring ns' s (xs @ t # ys) \<and>
    same_nodes ns' ns (insert t (set (s # xs @ ys)))"
proof -
  let ?p = "hd (ys @ [s])" and ?q = "last (s # xs)"
  have q: "pv ns ?p = ?q" using ring ring_links [OF ring] ring_split(2) [of ns s xs "hd ys" "tl ys"] by (cases ys) auto
  have mem: "?p \<in> set (s # ys)" "?q \<in> set (s # xs)" by (cases ys; simp) (rule last_in_set, simp)
  have in_: "?p \<in> set (s # xs @ ys)" "?q \<in> set (s # xs @ ys)" using mem by auto
  have lt: "?p < length ns" "?q < length ns" using ring in_ by (auto simp only: ring_def)
  have ne: "t \<noteq> ?p" "?q \<noteq> t" using in_ t(2) by metis+
  from ln_hook_eq [OF t(1) lt(1) lt(2) [folded q] ne(1) ne(2) [folded q]] obtain ns' where
    ns': "ln_hook ns t (Some ?p) = Some ns'" and same: "same_nodes ns' ns {t, ?p, ?q}"
    and nx: "\<And>r. nx ns' r = (if r = t then ?p else if r = ?q then t else nx ns r)"
    and pv: "\<And>r. pv ns' r = (if r = t then ?q else if r = ?p then t else pv ns r)" unfolding q by (elim exE conjE) simp
  have d: "distinct (s # xs @ ys)" and len: "length ns' = length ns" using ring same by (auto simp: ring_def same_nodes_def)
  have "successively (ln_link ns') (s # xs)"
  proof (rule links_cong)
    show "successively (ln_link ns) (s # xs)" using ring by (simp add: ring_append)
    show "nx ns' r = nx ns r" if "r \<in> set (butlast (s # xs))" for r
      using nx [of r] that distinct_butlast_last [of "s # xs" r] d t(2) in_set_butlastD [OF that] by auto
    show "pv ns' r = pv ns r" if "r \<in> set (tl (s # xs))" for r
      using pv [of r] that mem(1) d t(2) by auto
  qed
  moreover have "successively (ln_link ns') ys"
  proof (rule links_cong)
    show "successively (ln_link ns) ys" using ring by (simp add: ring_append)
    show "nx ns' r = nx ns r" if "r \<in> set (butlast ys)" for r
      using nx [of r] mem(2) d t(2) in_set_butlastD [OF that] by auto
    show "pv ns' r = pv ns r" if "r \<in> set (tl ys)" for r
      using pv [of r] that d t(2) by (cases ys) auto
  qed
  moreover have "ln_link ns' ?q t" using nx [of ?q] pv [of t] ne by (simp add: ln_link_def)
  moreover have "ln_link ns' t ?p" using nx [of t] pv [of ?p] ne by (simp add: ln_link_def)
  moreover have "ys \<noteq> [] \<Longrightarrow> ln_link ns' (last ys) s"
  proof -
    assume ys: "ys \<noteq> []"
    then have "ln_link ns (last ys) s" using ring by (simp add: ring_append)
    moreover have "last ys \<notin> set (s # xs)" using d last_in_set [OF ys] by auto
    then have "last ys \<noteq> ?q" using mem(2) by metis
    moreover have "last ys \<noteq> t" "s \<noteq> t" "s \<noteq> ?p" using ys d t(2) mem(2) last_in_set [OF ys] hd_in_set [OF ys] by auto
    ultimately show ?thesis using nx [of "last ys"] pv [of s] by (simp add: ln_link_def)
  qed
  ultimately have "ring ns' s (xs @ t # ys)"
    using d t ring len unfolding ring_append by (cases ys) (auto simp: successively_Cons ring_def)
  moreover have "same_nodes ns' ns (insert t (set (s # xs @ ys)))" using same mem by (auto simp: same_nodes_def)
  ultimately show ?thesis using ns' by blast
qed

lemma unhook_ring:
  assumes ring: "ring ns s (xs @ y # ys)"
  shows "\<exists>ns'. ln_unhook ns y = Some ns' \<and> ring ns' s (xs @ ys) \<and> same_nodes ns' ns (set (s # xs @ y # ys)) \<and>
    nx ns' y = y \<and> pv ns' y = y"
proof -
  let ?p = "hd (ys @ [s])" and ?q = "last (s # xs)"
  note links = ring_split [OF ring]
  have mem: "?p \<in> set (s # ys)" "?q \<in> set (s # xs)" by (cases ys; simp) (rule last_in_set, simp)
  have d: "distinct (s # xs @ y # ys)" using ring by (simp add: ring_def)
  have ne: "?p \<noteq> y" "?q \<noteq> y" using mem d by auto
  have lt: "y < length ns" "?p < length ns" "?q < length ns" using ring mem unfolding ring_def by auto
  from ln_unhook_eq [of y ns, unfolded links, OF lt ne] obtain ns' where
    ns': "ln_unhook ns y = Some ns'" and same: "same_nodes ns' ns {y, ?p, ?q}"
    and nx: "\<And>r. nx ns' r = (if r = y then y else if r = ?q then ?p else nx ns r)"
    and pv: "\<And>r. pv ns' r = (if r = y then y else if r = ?p then ?q else pv ns r)" by (elim exE conjE) simp
  have len: "length ns' = length ns" using same by (simp add: same_nodes_def)
  have "successively (ln_link ns') (s # xs)"
  proof (rule links_cong)
    show "successively (ln_link ns) (s # xs)" using ring by (simp add: ring_append)
    show "nx ns' r = nx ns r" if "r \<in> set (butlast (s # xs))" for r
      using nx [of r] that distinct_butlast_last [of "s # xs" r] d in_set_butlastD [OF that] by auto
    show "pv ns' r = pv ns r" if "r \<in> set (tl (s # xs))" for r
      using pv [of r] that mem(1) d by auto
  qed
  moreover have "successively (ln_link ns') ys"
  proof (rule links_cong)
    show "successively (ln_link ns) ys" using ring by (cases ys) (auto simp: ring_append)
    show "nx ns' r = nx ns r" if "r \<in> set (butlast ys)" for r
      using nx [of r] mem(2) d in_set_butlastD [OF that] by auto
    show "pv ns' r = pv ns r" if "r \<in> set (tl ys)" for r
      using pv [of r] that d by (cases ys) auto
  qed
  moreover have "ln_link ns' ?q ?p" using nx [of ?q] pv [of ?p] ne by (simp add: ln_link_def)
  moreover have "ys \<noteq> [] \<Longrightarrow> ln_link ns' (last ys) s"
  proof -
    assume ys: "ys \<noteq> []"
    then have "ln_link ns (last ys) s" using ring by (simp add: ring_append)
    moreover have "last ys \<notin> set (s # xs)" using d last_in_set [OF ys] by auto
    then have "last ys \<noteq> ?q" using mem(2) by metis
    moreover have "last ys \<noteq> y" "s \<noteq> y" "s \<noteq> ?p" using ys d last_in_set [OF ys] hd_in_set [OF ys] by auto
    ultimately show ?thesis using nx [of "last ys"] pv [of s] by (simp add: ln_link_def)
  qed
  moreover have "\<forall>p \<in> set (s # xs @ ys). p < length ns'" using ring unfolding ring_def len by simp
  ultimately have "ring ns' s (xs @ ys)"
    using d unfolding ring_append by (cases ys) auto
  moreover have "same_nodes ns' ns (set (s # xs @ y # ys))" using same mem by (auto simp: same_nodes_def)
  moreover have "nx ns' y = y" "pv ns' y = y" using nx [of y] pv [of y] by simp_all
  ultimately show ?thesis using ns' by blast
qed

section \<open>The representation\<close>

text \<open>The nodes \<open>as\<close> hold the elements, in their order; the nodes \<open>es\<close> are free.\<close>

definition ls_rep :: "'a list_static \<Rightarrow> nat list \<Rightarrow> nat list \<Rightarrow> bool" where
  "ls_rep l as es \<longleftrightarrow> (let ns = ls_nodes l; N = ls_SIZE l in
     ring ns N as \<and> ring ns (N + 1) es \<and> distinct (as @ es) \<and> set (as @ es) = {..<N} \<and> length ns = N + 2)"

definition ls_elems :: "'a list_static \<Rightarrow> nat list \<Rightarrow> 'a list" where
  "ls_elems l as = map (\<lambda>p. ln_element (ls_nodes l ! p)) as"

text \<open>The list of the elements, and the node \<open>data_\<close> with the element it was made with.\<close>

definition ls_holds :: "'a \<Rightarrow> nat \<Rightarrow> 'a list_static \<Rightarrow> 'a list \<Rightarrow> bool" where
  "ls_holds d N l xs \<longleftrightarrow> ls_SIZE l = N \<and> ln_element (ls_nodes l ! N) = d \<and>
     (\<exists>as es. ls_rep l as es \<and> xs = ls_elems l as)"

lemma ls_repD:
  assumes "ls_rep l as es"
  shows "ring (ls_nodes l) (ls_SIZE l) as" "ring (ls_nodes l) (ls_SIZE l + 1) es" "distinct (as @ es)"
    "set (as @ es) = {..<ls_SIZE l}" "length (ls_nodes l) = ls_SIZE l + 2" "length as + length es = ls_SIZE l"
proof -
  show "distinct (as @ es)" "set (as @ es) = {..<ls_SIZE l}" using assms by (simp_all only: ls_rep_def Let_def)
  then have "card (set (as @ es)) = length (as @ es)" by (intro distinct_card)
  with \<open>set (as @ es) = {..<ls_SIZE l}\<close> show "length as + length es = ls_SIZE l" by simp
qed (use assms in \<open>simp_all only: ls_rep_def Let_def\<close>)

lemma ls_rep_links:
  assumes "ls_rep l as es"
  shows "ls_begin l = Some (hd (as @ [ls_SIZE l]))" "get_prev (ls_nodes l) (ls_SIZE l) = Some (last (ls_SIZE l # as))"
    "get_next (ls_nodes l) (ls_SIZE l + 1) = Some (hd (es @ [ls_SIZE l + 1]))"
  using ring_links [OF ls_repD(1) [OF assms]] ring_links [OF ls_repD(2) [OF assms]] ls_repD(5) [OF assms]
  by (simp_all add: ls_begin_def get_in del: last.simps)

lemma ls_rep_empty: "ls_rep l as es \<Longrightarrow> ls_empty l = Some (as = [])"
  using ls_repD(3,4) [of l as es] by (cases as) (auto simp: ls_empty_def ls_rep_links ls_end_def)

lemma ls_holds_length: "ls_holds d N l xs \<Longrightarrow> length xs \<le> N"
  by (auto simp: ls_holds_def ls_elems_def dest: ls_repD(6))

lemma same_nodes_ring:
  assumes "same_nodes ns' ns A" and "ring ns s xs" and "set (s # xs) \<inter> A = {}"
  shows "ring ns' s xs"
proof (rule ring_cong [OF assms(2)])
  show "ns' ! p = ns ! p" if "p \<in> set (s # xs)" for p using assms(1,3) that unfolding same_nodes_def by blast
  show "length ns' = length ns" using assms(1) by (simp add: same_nodes_def)
qed

lemma same_nodes_element:
  assumes "same_nodes ns' ns A" and "p < length ns"
  shows "ln_element (ns' ! p) = ln_element (ns ! p)"
  using assms unfolding same_nodes_def by (metis nth_map)

lemma same_nodes_length: "same_nodes ns' ns A \<Longrightarrow> length ns' = length ns"
  by (simp add: same_nodes_def)

lemma ls_put_node_rep:
  assumes "ring (ls_nodes l) (ls_SIZE l + 1) es" and "p \<notin> set ((ls_SIZE l + 1) # es)" "p < length (ls_nodes l)"
  shows "\<exists>l'. ls_put_node l p = Some l' \<and> ring (ls_nodes l') (ls_SIZE l + 1) (p # es) \<and>
    same_nodes (ls_nodes l') (ls_nodes l) (insert p (set ((ls_SIZE l + 1) # es)))"
proof -
  have "get_next (ls_nodes l) (ls_SIZE l + 1) = Some (hd (es @ [ls_SIZE l + 1]))"
    using ring_links [OF assms(1)] assms(1) by (simp add: get_in ring_def)
  then show ?thesis using hook_ring [of "ls_nodes l" "ls_SIZE l + 1" "[]" es p] assms
    by (auto simp: ls_put_node_def)
qed

lemma ls_SIZE_same: "length (ls_nodes l') = length (ls_nodes l) \<Longrightarrow> ls_SIZE l' = ls_SIZE l"
  by (simp add: ls_SIZE_def)

lemma ls_erase_rep:
  assumes rep: "ls_rep l (as1 @ p # as2) es"
  shows "\<exists>l'. ls_erase l p = Some (l', Some p) \<and> ls_rep l' (as1 @ as2) (p # es) \<and> ls_SIZE l' = ls_SIZE l \<and>
    map ln_element (ls_nodes l') = map ln_element (ls_nodes l)"
proof -
  let ?N = "ls_SIZE l" and ?ns = "ls_nodes l"
  note R = ls_repD [OF rep]
  have bounds: "\<forall>q \<in> set (as1 @ p # as2 @ es). q < ?N" using R(4) by auto
  then have out: "?N \<notin> set (as1 @ p # as2 @ es)" "Suc ?N \<notin> set (as1 @ p # as2 @ es)" by fastforce+
  obtain ns1 where ns1: "ln_unhook ?ns p = Some ns1" "ring ns1 ?N (as1 @ as2)" "same_nodes ns1 ?ns (set (?N # as1 @ p # as2))"
    using unhook_ring [OF R(1)] by blast
  have len1: "length ns1 = ?N + 2" using same_nodes_length [OF ns1(3)] R(5) by simp
  let ?l1 = "l\<lparr>ls_nodes := ns1\<rparr>"
  have size1: "ls_SIZE ?l1 = ?N" using len1 by (simp add: ls_SIZE_def)
  have "ring ns1 (?N + 1) es" using R(3) out by (intro same_nodes_ring [OF ns1(3) R(2)]) auto
  moreover have "p \<notin> set ((?N + 1) # es)" using R(3) out by auto
  ultimately obtain l' where l': "ls_put_node ?l1 p = Some l'" "ring (ls_nodes l') (?N + 1) (p # es)"
      "same_nodes (ls_nodes l') ns1 (insert p (set ((?N + 1) # es)))"
    using ls_put_node_rep [of ?l1 es p] size1 bounds len1 by auto
  have len': "length (ls_nodes l') = ?N + 2" using same_nodes_length [OF l'(3)] len1 by simp
  have size': "ls_SIZE l' = ?N" using len' by (simp add: ls_SIZE_def)
  have "ring (ls_nodes l') ?N (as1 @ as2)" using R(3) out by (intro same_nodes_ring [OF l'(3) ns1(2)]) auto
  then have "ls_rep l' (as1 @ as2) (p # es)" using l'(2) R(3,4) len' unfolding ls_rep_def size' Let_def by auto
  moreover have "map ln_element (ls_nodes l') = map ln_element ?ns" using ns1(3) l'(3) by (simp add: same_nodes_def)
  ultimately show ?thesis using ns1(1) l'(1) size' ls_rep_empty [OF rep] by (auto simp: ls_erase_def)
qed

lemma ls_erase_empty: "ls_rep l [] es \<Longrightarrow> ls_erase l p = Some (l, None)"
  using ls_rep_empty [of l "[]" es] by (simp add: ls_erase_def)

lemma ls_insert_rep:
  assumes rep: "ls_rep l (as1 @ as2) (e # es)"
  shows "\<exists>l'. ls_insert l (hd (as2 @ [ls_SIZE l])) x = Some (l', True) \<and> ls_rep l' (as1 @ e # as2) es \<and> ls_SIZE l' = ls_SIZE l \<and>
    map ln_element (ls_nodes l') = (map ln_element (ls_nodes l)) [e := x]"
proof -
  let ?N = "ls_SIZE l" and ?ns = "ls_nodes l"
  note R = ls_repD [OF rep]
  have bounds: "\<forall>q \<in> set (as1 @ as2 @ e # es). q < ?N" using R(4) by auto
  then have out: "?N \<notin> set (as1 @ as2 @ e # es)" "Suc ?N \<notin> set (as1 @ as2 @ e # es)" by fastforce+
  have tmp: "get_next ?ns (?N + 1) = Some e" "?N + 1 \<noteq> e" using ls_rep_links(3) [OF rep] bounds by auto
  obtain ns1 where ns1: "ln_unhook ?ns e = Some ns1" "ring ns1 (?N + 1) es" "same_nodes ns1 ?ns (set ((?N + 1) # e # es))"
    using unhook_ring [of ?ns "?N + 1" "[]" e es] R(2) by auto
  have len1: "length ns1 = ?N + 2" using same_nodes_length [OF ns1(3)] R(5) by simp
  let ?ns2 = "ns1[e := (ns1 ! e)\<lparr>ln_element := x\<rparr>]"
  have ring1: "ring ns1 ?N (as1 @ as2)" using R(3) out by (intro same_nodes_ring [OF ns1(3) R(1)]) auto
  have ring2: "ring ?ns2 ?N (as1 @ as2)" "ring ?ns2 (?N + 1) es"
  proof -
    have keep: "ring ?ns2 s zs" if "ring ns1 s zs" "e \<notin> set (s # zs)" for s zs
      using that(2) by (intro ring_cong [OF that(1)]) (metis nth_list_update_neq, simp)
    show "ring ?ns2 ?N (as1 @ as2)" using keep [OF ring1] R(3) out by auto
    show "ring ?ns2 (?N + 1) es" using keep [OF ns1(2)] R(3) out by auto
  qed
  have len2: "length ?ns2 = ?N + 2" using len1 by simp
  have "e < length ?ns2" "e \<notin> set (?N # as1 @ as2)" using R(3) out bounds len1 by auto
  then obtain ns3 where ns3: "ln_hook ?ns2 e (Some (hd (as2 @ [?N]))) = Some ns3" "ring ns3 ?N (as1 @ e # as2)"
      "same_nodes ns3 ?ns2 (insert e (set (?N # as1 @ as2)))"
    using hook_ring [OF ring2(1)] by blast
  have len3: "length ns3 = ?N + 2" using same_nodes_length [OF ns3(3)] len2 by simp
  let ?l' = "l\<lparr>ls_nodes := ns3\<rparr>"
  have size': "ls_SIZE ?l' = ?N" using len3 by (simp add: ls_SIZE_def)
  have "ring ns3 (?N + 1) es" using R(3) out by (intro same_nodes_ring [OF ns3(3) ring2(2)]) auto
  then have "ls_rep ?l' (as1 @ e # as2) es" using ns3(2) R(3,4) len3 unfolding ls_rep_def size' Let_def by auto
  moreover have "map ln_element ns3 = (map ln_element ?ns)[e := x]"
    using ns1(3) ns3(3) by (simp add: same_nodes_def map_update)
  moreover have "ls_insert l (hd (as2 @ [?N])) x = Some (?l', True)"
    using tmp ns1(1) ns3(1) bounds len1 by (simp add: ls_insert_def ls_create_node_def ls_get_node_def)
  ultimately show ?thesis using size' by auto
qed

lemma ls_insert_full: "ls_rep l as [] \<Longrightarrow> ls_insert l p x = Some (l, False)"
  using ls_rep_links(3) [of l as "[]"] by (simp add: ls_insert_def ls_create_node_def ls_get_node_def)

lemma ls_init_loop_eq:
  "i + k < length ns \<Longrightarrow> \<exists>ns'. ls_init_loop i k ns = Some ns' \<and> length ns' = length ns \<and> map ln_element ns' = map ln_element ns \<and>
    (\<forall>r. nx ns' r = (if i \<le> r \<and> r < i + k then r + 1 else nx ns r)) \<and>
    (\<forall>r. pv ns' r = (if i < r \<and> r \<le> i + k then r - 1 else pv ns r))"
proof (induction k arbitrary: i ns)
  case (Suc k)
  let ?ns1 = "ns[i := (ns ! i)\<lparr>ln_next := i + 1\<rparr>]"
  let ?ns2 = "?ns1[i + 1 := (?ns1 ! (i + 1))\<lparr>ln_prev := i\<rparr>]"
  have step: "ls_init_loop i (Suc k) ns = ls_init_loop (i + 1) k ?ns2"
    using Suc.prems by (simp add: set_next_in set_prev_in)
  have nx2: "nx ?ns2 r = (if r = i then i + 1 else nx ns r)" and pv2: "pv ?ns2 r = (if r = i + 1 then i else pv ns r)" for r
    using Suc.prems by (auto simp: nth_list_update)
  have el2: "map ln_element ?ns2 = map ln_element ns" using Suc.prems by (simp add: map_element_update)
  have "i + 1 + k < length ?ns2" using Suc.prems by simp
  from Suc.IH [OF this] obtain ns' where ns': "ls_init_loop (i + 1) k ?ns2 = Some ns'" "length ns' = length ns"
      "map ln_element ns' = map ln_element ns"
    "\<And>r. nx ns' r = (if i + 1 \<le> r \<and> r < i + 1 + k then r + 1 else nx ?ns2 r)"
    "\<And>r. pv ns' r = (if i + 1 < r \<and> r \<le> i + 1 + k then r - 1 else pv ?ns2 r)"
    unfolding el2 by (elim exE conjE) simp
  have "nx ns' r = (if i \<le> r \<and> r < i + Suc k then r + 1 else nx ns r)" for r unfolding ns'(4) nx2 by auto
  moreover have "pv ns' r = (if i < r \<and> r \<le> i + Suc k then r - 1 else pv ns r)" for r unfolding ns'(5) pv2 by auto
  ultimately show ?case unfolding step ns'(1) using ns'(2,3) by blast
qed simp

lemma ring_upt:
  assumes "\<And>r. r < m \<Longrightarrow> nx ns r = r + 1 \<and> pv ns (r + 1) = r" and "nx ns m = 0" "pv ns 0 = m" "m < length ns"
  shows "ring ns 0 [1..<m + 1]"
proof -
  have "successively (ln_link ns) [i..<i + k]" if "i + k \<le> m + 1" for i k
    using that
  proof (induction k arbitrary: i)
    case (Suc k)
    then show ?case using Suc.IH [of "Suc i"] assms(1) [of i]
      by (cases k) (auto simp: upt_rec successively_Cons ln_link_def)
  qed simp
  from this [of 0 "m + 1"] have "successively (ln_link ns) (0 # [1..<m + 1])" by (simp add: upt_rec)
  moreover have "last (0 # [1..<m + 1]) = m" by (cases m) auto
  ultimately show ?thesis using assms(2-4) by (simp only: ring_def) (auto simp: ln_link_def)
qed

lemma ring_rotate: "ring ns s (xs @ t # ys) \<Longrightarrow> ring ns t (ys @ s # xs)"
  unfolding ring_append by (cases ys) (auto simp: successively_Cons)

lemma ls_new_rep: "\<exists>l. ls_new n d = Some l \<and> ls_rep l [] [0..<list_SIZE n] \<and> ls_SIZE l = list_SIZE n \<and>
    map ln_element (ls_nodes l) = replicate (list_SIZE n + 2) d"
proof -
  let ?N = "list_SIZE n" and ?l = "\<lparr>ls_nodes = map (ln_new d) [0..<list_SIZE n + 2]\<rparr>"
  let ?ns = "map (ln_new d) [0..<list_SIZE n + 2]"
  have N: "1 \<le> ?N" by (simp add: list_SIZE_def) linarith
  have size: "ls_SIZE ?l = ?N" by (simp add: ls_SIZE_def)
  have "0 + (?N - 1) < length ?ns" by simp
  from ls_init_loop_eq [OF this] obtain ns1 where ns1: "ls_init_loop 0 (?N - 1) ?ns = Some ns1" "length ns1 = ?N + 2"
      "map ln_element ns1 = map ln_element ?ns"
      "\<And>r. nx ns1 r = (if r < ?N - 1 then r + 1 else nx ?ns r)" "\<And>r. pv ns1 r = (if 0 < r \<and> r \<le> ?N - 1 then r - 1 else pv ?ns r)"
    by (elim exE conjE) simp
  let ?ns2 = "ns1[?N - 1 := (ns1 ! (?N - 1))\<lparr>ln_next := 0\<rparr>]"
  let ?ns3 = "?ns2[0 := (?ns2 ! 0)\<lparr>ln_prev := ?N - 1\<rparr>]"
  have nx3: "nx ?ns3 r = (if r = ?N - 1 then 0 else nx ns1 r)" and pv3: "pv ?ns3 r = (if r = 0 then ?N - 1 else pv ns1 r)" for r
    using ns1(2) by (auto simp: nth_list_update)
  have el3: "map ln_element ?ns3 = map ln_element ?ns" using ns1(2,3) by (simp add: map_element_update)
  have "ring ?ns3 0 [1..<(?N - 1) + 1]"
    by (rule ring_upt; (unfold nx3 pv3)?) (use ns1(2,4,5) in auto)
  then have ring3: "ring ?ns3 0 ([1..<?N] @ [])" using N by simp
  have "?N + 1 < length ?ns3" "?N + 1 \<notin> set (0 # [1..<?N] @ [])" using ns1(2) by auto
  from hook_ring [OF ring3 this] obtain ns4 where ns4: "ln_hook ?ns3 (?N + 1) (Some 0) = Some ns4"
      "ring ns4 0 ([1..<?N] @ [?N + 1])" "same_nodes ns4 ?ns3 (insert (?N + 1) (set (0 # [1..<?N])))" by auto
  let ?l' = "\<lparr>ls_nodes = ns4\<rparr>"
  have len4: "length ns4 = ?N + 2" using same_nodes_length [OF ns4(3)] ns1(2) by simp
  have size4: "ls_SIZE ?l' = ?N" using len4 by (simp add: ls_SIZE_def)
  have "[0..<?N] = 0 # [1..<?N]" using N upt_conv_Cons [of 0 ?N] by simp
  moreover have "ring ns4 (?N + 1) ([] @ 0 # [1..<?N])" by (rule ring_rotate) (rule ns4(2))
  ultimately have free: "ring ns4 (?N + 1) [0..<?N]" by (simp only: append_Nil)
  have same: "ns4 ! ?N = ?ns3 ! ?N" using ns4(3) N unfolding same_nodes_def by auto
  have "?ns ! ?N = ln_new d ?N" by (simp del: upt_Suc)
  then have "nx ns1 ?N = ?N" "pv ns1 ?N = ?N" unfolding ns1(4,5) using N by (auto simp: ln_new_def)
  then have "nx ?ns3 ?N = ?N" "pv ?ns3 ?N = ?N" unfolding nx3 pv3 using N by auto
  then have "ring ns4 ?N []" using len4 same by (simp add: ring_def ln_link_def)
  then have "ls_rep ?l' [] [0..<?N]" using len4 free by (auto simp: ls_rep_def size4 Let_def)
  moreover have "map ln_element ns4 = replicate (?N + 2) d"
  proof -
    have "map ln_element ns4 = map ln_element ?ns" using ns4(3) el3 by (simp only: same_nodes_def)
    also have "\<dots> = replicate (?N + 2) d" by (simp add: ln_new_def comp_def map_replicate_const del: upt_Suc)
    finally show ?thesis .
  qed
  moreover have "set_next ns1 (?N - 1) 0 = Some ?ns2" "set_prev ?ns2 0 (?N - 1) = Some ?ns3"
    using ns1(2) by (auto intro!: set_next_in set_prev_in)
  then have "ls_new n d = Some ?l'"
    by (simp only: ls_new_def ls_init_def size Let_def list_static.select_convs list_static.update_convs ns1(1) ns4(1) Option.bind.simps)
  ultimately show ?thesis using size4 by auto
qed

lemma links_join:
  assumes "successively P (e # es)" "successively P xs" "P (last (e # es)) (hd (xs @ [n]))" "xs \<noteq> [] \<Longrightarrow> P (last xs) n" "P n a"
  shows "successively P ((e # es) @ xs @ [n, a])"
proof (cases xs)
  case Nil
  then show ?thesis using assms unfolding successively_append_iff [of P "e # es"] by simp
next
  case (Cons y ys)
  have "successively P (xs @ [n, a])" using assms Cons unfolding successively_append_iff [of P xs] by simp
  then show ?thesis using assms Cons unfolding successively_append_iff [of P "e # es"] by simp
qed

lemma ls_clear_rep:
  assumes rep: "ls_rep l (a # rest) es"
  shows "\<exists>l'. ls_clear l = Some l' \<and> ls_rep l' [] (es @ rest @ [a]) \<and> ls_SIZE l' = ls_SIZE l \<and>
    map ln_element (ls_nodes l') = map ln_element (ls_nodes l)"
proof -
  let ?N = "ls_SIZE l" and ?E = "ls_SIZE l + 1" and ?ns = "ls_nodes l"
  note R = ls_repD [OF rep]
  have d: "distinct (a # rest @ es)" using R(3) by auto
  have lt: "\<forall>q \<in> set (a # rest @ es). q < ?N" using R(4) by auto
  then have out: "?N \<notin> set (a # rest @ es)" "?E \<notin> set (a # rest @ es)" by fastforce+
  let ?h = "hd (rest @ [?N])" and ?q = "last (?E # es)"
  have h: "?h \<in> set (?N # rest)" by (cases rest) auto
  have q: "?q \<in> set (?E # es)" by (rule last_in_set) simp
  have ne: "?h \<noteq> a" "?h \<noteq> ?E" "?q \<noteq> a" "?q \<noteq> ?N" "?h \<noteq> ?q" "?h \<notin> set es" using h q d out by auto
  have less: "a < length ?ns" "?E < length ?ns" "?N < length ?ns" "?h < length ?ns" "?q < length ?ns"
  proof -
    have all: "\<forall>r \<in> set (?E # ?N # a # rest @ es). r < length ?ns" using R(5) lt by (auto intro: less_SucI)
    then show "a < length ?ns" "?E < length ?ns" "?N < length ?ns" by simp_all
    show "?h < length ?ns" using h by (intro bspec [OF all]) auto
    show "?q < length ?ns" using q by (intro bspec [OF all]) (auto simp del: last.simps)
  qed
  have val: "nx ?ns ?N = a" "pv ?ns ?N = last (a # rest)" "nx ?ns a = ?h" "pv ?ns a = ?N" "pv ?ns ?E = ?q"
    using ring_links [OF R(1)] ring_links [OF R(2)] ring_split [of ?ns ?N "[]" a rest] R(1) by auto
  let ?n1 = "?ns[?h := (?ns ! ?h)\<lparr>ln_prev := ?q\<rparr>]"
  let ?n2 = "?n1[?q := (?n1 ! ?q)\<lparr>ln_next := ?h\<rparr>]"
  let ?n3 = "?n2[a := (?n2 ! a)\<lparr>ln_next := ?E\<rparr>]"
  let ?n4 = "?n3[?E := (?n3 ! ?E)\<lparr>ln_prev := a\<rparr>]"
  have nx4: "nx ?n4 r = (if r = a then ?E else if r = ?q then ?h else nx ?ns r)"
    and pv4: "pv ?n4 r = (if r = ?E then a else if r = ?h then ?q else pv ?ns r)" for r
    using less ne by (auto simp: nth_list_update simp del: last.simps)
  have el4: "map ln_element ?n4 = map ln_element ?ns" using less by (simp add: map_element_update del: last.simps)
  have "ring ?n4 ?E ((es @ rest) @ ?N # [a])"
  proof -
    have "successively (ln_link ?n4) (?E # es)"
    proof (rule links_cong)
      show "successively (ln_link ?ns) (?E # es)" using R(2) by (simp add: ring_def)
      show "nx ?n4 r = nx ?ns r" if "r \<in> set (butlast (?E # es))" for r
        using nx4 [of r] that distinct_butlast_last [of "?E # es" r] d out in_set_butlastD [OF that] by auto
      show "pv ?n4 r = pv ?ns r" if "r \<in> set (tl (?E # es))" for r using pv4 [of r] that out ne by auto
    qed
    moreover have "successively (ln_link ?n4) rest"
    proof (rule links_cong)
      show "successively (ln_link ?ns) rest" using R(1) by (cases rest) (auto simp: ring_def)
      show "nx ?n4 r = nx ?ns r" if "r \<in> set (butlast rest)" for r
        using nx4 [of r] in_set_butlastD [OF that] d out q by auto
      show "pv ?n4 r = pv ?ns r" if "r \<in> set (tl rest)" for r
        using pv4 [of r] that d out by (cases rest) auto
    qed
    moreover have "ln_link ?n4 ?q ?h" using nx4 [of ?q] pv4 [of ?h] ne by (simp add: ln_link_def del: last.simps)
    moreover have "rest \<noteq> [] \<Longrightarrow> ln_link ?n4 (last rest) ?N"
    proof -
      assume r: "rest \<noteq> []"
      have *: "x \<noteq> a \<and> x \<noteq> ?N \<and> x \<notin> set (?E # es)" if "x \<in> set rest" for x using that d out by auto
      have "last rest \<noteq> a" "last rest \<notin> set (?E # es)" "?N \<noteq> ?h" "?N \<noteq> ?E"
        using * [OF last_in_set [OF r]] * [OF hd_in_set [OF r]] r by auto
      moreover from this(2) have "last rest \<noteq> ?q" using q by metis
      moreover have "ln_link ?ns (last rest) ?N" using R(1) r by (simp add: ring_def)
      ultimately show ?thesis using nx4 [of "last rest"] pv4 [of ?N] by (simp add: ln_link_def del: last.simps)
    qed
    moreover have "ln_link ?n4 ?N a" using nx4 [of ?N] pv4 [of a] val ne out by (auto simp: ln_link_def simp del: last.simps)
    ultimately have links: "successively (ln_link ?n4) ((?E # es) @ rest @ [?N, a])"
      by (intro links_join)
    have close: "ln_link ?n4 a ?E" using nx4 [of a] pv4 [of ?E] by (simp add: ln_link_def)
    have "distinct ((?E # es) @ rest @ [?N, a])" "\<forall>r \<in> set ((?E # es) @ rest @ [?N, a]). r < length ?n4"
      using d out lt less R(5) by (auto intro: less_SucI)
    moreover have "?E # (es @ rest) @ ?N # [a] = (?E # es) @ rest @ [?N, a]" "last ((?E # es) @ rest @ [?N, a]) = a" by simp_all
    ultimately show ?thesis using links close unfolding ring_def by metis
  qed
  from unhook_ring [OF this] obtain n5 where n5: "ln_unhook ?n4 ?N = Some n5" "ring n5 ?E ((es @ rest) @ [a])"
      "same_nodes n5 ?n4 (set (?E # (es @ rest) @ ?N # [a]))" "nx n5 ?N = ?N" "pv n5 ?N = ?N" by blast
  let ?l' = "l\<lparr>ls_nodes := n5\<rparr>"
  have len5: "length n5 = ?N + 2" using same_nodes_length [OF n5(3)] R(5) by simp
  have size5: "ls_SIZE ?l' = ?N" using len5 by (simp add: ls_SIZE_def)
  have "ring n5 ?N []" using n5(4,5) len5 by (simp add: ring_def ln_link_def)
  then have "ls_rep ?l' [] (es @ rest @ [a])" using n5(2) R(3,4) len5 unfolding ls_rep_def size5 Let_def by auto
  moreover have "map ln_element n5 = map ln_element ?ns" using n5(3) el4 by (simp only: same_nodes_def)
  moreover have "ls_clear l = Some ?l'"
  proof -
    have "get_prev ?n1 ?E = Some ?q" "get_next ?n1 a = Some ?h"
      using less val ne by (auto simp: get_in nth_list_update simp del: last.simps)
    then show ?thesis using less val n5(1) ls_rep_empty [OF rep]
      by (simp add: ls_clear_def Let_def get_in set_next_in set_prev_in del: last.simps)
  qed
  ultimately show ?thesis using size5 by auto
qed

end
