(* ===== verification/List_Static_Loops.thy ===== *)
theory List_Static_Loops
  imports List_Static_Correct
begin

text \<open>
  The operations of \<open>List_Static\<close> that walk through the list: what they do to the elements, the ones
  that do not do what they are meant to, and the list as a refinement of a bounded list.
\<close>

section \<open>Walking\<close>

lemma ls_rep_inc:
  assumes "ls_rep l (as1 @ p # as2) es"
  shows "it_inc (ls_nodes l) p = Some (hd (as2 @ [ls_SIZE l]))" "it_dec (ls_nodes l) p = Some (last (ls_SIZE l # as1))"
    "it_deref (ls_nodes l) p = Some (ln_element (ls_nodes l ! p))" "p < ls_SIZE l" "p \<noteq> ls_end l"
proof -
  note R = ls_repD [OF assms]
  have p: "p < ls_SIZE l" using R(4) by auto
  then show "p < ls_SIZE l" "p \<noteq> ls_end l" by (simp_all add: ls_end_def)
  show "it_inc (ls_nodes l) p = Some (hd (as2 @ [ls_SIZE l]))" "it_dec (ls_nodes l) p = Some (last (ls_SIZE l # as1))"
      "it_deref (ls_nodes l) p = Some (ln_element (ls_nodes l ! p))"
    using ring_split [OF R(1)] p R(5) by (simp_all add: it_inc_def it_dec_def it_deref_def get_in del: last.simps)
qed

lemma ls_rep_hd_end:
  assumes "ls_rep l (as1 @ as2) es"
  shows "hd (as2 @ [ls_SIZE l]) = ls_end l \<longleftrightarrow> as2 = []"
  using ls_rep_inc(5) [of l as1 "hd as2" "tl as2" es] assms by (cases as2) (auto simp: ls_end_def)

lemma ls_rep_hd_begin:
  assumes "ls_rep l (as1 @ as2) es" and "as1 \<noteq> []"
  shows "hd (as2 @ [ls_SIZE l]) \<noteq> hd (as1 @ as2 @ [ls_SIZE l])"
proof -
  have "distinct ((as1 @ as2) @ [ls_SIZE l])" using ls_repD(3,4) [OF assms(1)] by auto
  then show ?thesis using assms(2) by (cases as1; cases as2) auto
qed

lemma it_diff_loop_rep:
  assumes "ls_rep l (as1 @ as2) es" and "as1 @ as2 \<noteq> []"
  shows "it_diff_loop (ls_nodes l) (ls_end l) (hd (as1 @ as2)) (hd (as2 @ [ls_SIZE l])) i = Some (i + int (length as2))"
  using assms
proof (induction as2 arbitrary: as1 i)
  case Nil
  then show ?case by (simp add: it_diff_loop.simps ls_end_def)
next
  case (Cons p as2)
  note inc = ls_rep_inc [OF Cons.prems(1)]
  have "ls_rep l ((as1 @ [p]) @ as2) es" using Cons.prems(1) by simp
  from ls_rep_hd_begin [OF this] Cons.IH [OF this, of "i + 1"]
  have ne: "hd (as2 @ [ls_SIZE l]) \<noteq> hd (as1 @ p # as2)" and
    IH: "it_diff_loop (ls_nodes l) (ls_end l) (hd (as1 @ p # as2)) (hd (as2 @ [ls_SIZE l])) (i + 1) = Some (i + 1 + int (length as2))"
    by (cases as1; simp)+
  show ?case using inc(1,5) ne IH by (subst it_diff_loop.simps) simp
qed

lemma ls_size_rep: "ls_rep l as es \<Longrightarrow> ls_size l = Some (int (length as))"
  using it_diff_loop_rep [of l "[]" as es 0] by (cases as)
    (auto simp: ls_size_def ls_rep_links it_diff_def it_diff_loop.simps ls_end_def)

lemma ls_full_rep: "ls_rep l as es \<Longrightarrow> ls_full l = Some (es = [])"
  using ls_repD(6) [of l as es] by (cases es) (auto simp: ls_full_def ls_size_rep ls_max_size_def)

lemma ls_front_rep: "ls_rep l (p # as) es \<Longrightarrow> ls_front l = Some (ln_element (ls_nodes l ! p))"
  using ls_rep_inc(3) [of l "[]" p as es] ls_rep_links(1) [of l "p # as" es] by (simp add: ls_front_def)

lemma ls_back_rep: "ls_rep l (as @ [p]) es \<Longrightarrow> ls_back l = Some (ln_element (ls_nodes l ! p))"
  using ls_rep_inc(3) [of l as p "[]" es] ls_rep_links(2) [of l "as @ [p]" es] by (simp add: ls_back_def it_dec_def ls_end_def)

section \<open>remove and unique\<close>

abbreviation (input) "el l p \<equiv> ln_element (ls_nodes l ! p)"

definition ls_same :: "'a list_static \<Rightarrow> 'a list_static \<Rightarrow> bool" where
  "ls_same l' l \<longleftrightarrow> ls_SIZE l' = ls_SIZE l \<and> map ln_element (ls_nodes l') = map ln_element (ls_nodes l)"

lemma ls_same_refl [simp]: "ls_same l l"
  by (simp add: ls_same_def)

lemma ls_same_trans [trans]: "ls_same l2 l1 \<Longrightarrow> ls_same l1 l \<Longrightarrow> ls_same l2 l"
  by (simp add: ls_same_def)

lemma ls_same_element: "ls_same l' l \<Longrightarrow> p < length (ls_nodes l) \<Longrightarrow> el l' p = el l p"
  unfolding ls_same_def by (metis length_map nth_map)

lemma ls_rep_valid: "ls_rep l as es \<Longrightarrow> p \<in> set (as @ es) \<Longrightarrow> p < length (ls_nodes l)"
  using ls_repD(4,5) [of l as es] by (metis add_2_eq_Suc' lessThan_iff less_SucI)

lemma ls_same_rep: "ls_same l' l \<Longrightarrow> ls_rep l as es \<Longrightarrow> p \<in> set (as @ es) \<Longrightarrow> el l' p = el l p"
  by (rule ls_same_element) (auto intro: ls_rep_valid)

lemma ls_same_elems:
  assumes "ls_same l' l" and "ls_rep l as es" and "set bs \<subseteq> set as"
  shows "ls_elems l' bs = ls_elems l bs"
  using ls_same_rep [OF assms(1,2)] assms(3) by (auto simp: ls_elems_def)

lemma ls_erase_same:
  assumes "ls_rep l (as1 @ p # as2) es"
  shows "\<exists>l'. ls_erase l p = Some (l', Some p) \<and> ls_rep l' (as1 @ as2) (p # es) \<and> ls_same l' l"
  using ls_erase_rep [OF assms] by (simp add: ls_same_def)

text \<open>The inner loops erase the nodes from an iterator on up to the first other element or the end.\<close>

lemma ls_remove_while_rep:
  assumes "ls_rep l (as1 @ p # as2) es"
  shows "\<exists>l' es'. ls_remove_while l v p = Some (l', hd (dropWhile (\<lambda>q. el l q = v) (p # as2) @ [ls_SIZE l])) \<and>
    ls_rep l' (as1 @ dropWhile (\<lambda>q. el l q = v) (p # as2)) es' \<and> ls_same l' l"
  using assms
proof (induction as2 arbitrary: l p es)
  case Nil
  note inc = ls_rep_inc [OF Nil.prems]
  obtain l' where l': "ls_erase l p = Some (l', Some p)" "ls_rep l' as1 (p # es)" "ls_same l' l"
    using ls_erase_same [OF Nil.prems] by auto
  then show ?case using inc Nil.prems
    by (subst ls_remove_while.simps) (auto simp: ls_end_def ls_same_def)
next
  case (Cons q as2)
  note inc = ls_rep_inc [OF Cons.prems]
  show ?case
  proof (cases "el l p = v")
    case False
    then show ?thesis using inc Cons.prems by (subst ls_remove_while.simps) auto
  next
    case True
    obtain l' where l': "ls_erase l p = Some (l', Some p)" "ls_rep l' (as1 @ q # as2) (p # es)" "ls_same l' l"
      using ls_erase_same [OF Cons.prems] by auto
    have size: "ls_SIZE l' = ls_SIZE l" using l'(3) by (simp add: ls_same_def)
    have els: "el l' r = el l r" if "r \<in> set (q # as2)" for r
      using that by (intro ls_same_rep [OF l'(3) Cons.prems]) auto
    have drop: "dropWhile (\<lambda>r. el l' r = v) (q # as2) = dropWhile (\<lambda>r. el l r = v) (q # as2)"
      using els by (intro dropWhile_cong) auto
    from Cons.IH [OF l'(2)] obtain l2 es2 where l2: "ls_remove_while l' v q = Some (l2, hd (dropWhile (\<lambda>q. el l q = v) (q # as2) @ [ls_SIZE l]))"
        "ls_rep l2 (as1 @ dropWhile (\<lambda>q. el l q = v) (q # as2)) es2" "ls_same l2 l'" unfolding drop size by blast
    have "q \<noteq> ls_end l'" using ls_rep_inc(5) [OF l'(2)] .
    then have "ls_remove_while l v p = ls_remove_while l' v q"
      using inc True l'(1) by (subst ls_remove_while.simps) simp
    then show ?thesis using l2 True ls_same_trans [OF l2(3) l'(3)] by auto
  qed
qed

lemma ls_remove_loop_none:
  assumes "ls_rep l (as1 @ as2) es" and "\<forall>q \<in> set as2. el l q \<noteq> v"
  shows "ls_remove_loop l v (hd (as2 @ [ls_SIZE l])) = Some l"
  using assms
proof (induction as2 arbitrary: as1)
  case Nil
  then show ?case by (simp add: ls_remove_loop.simps ls_end_def)
next
  case (Cons p as2)
  note inc = ls_rep_inc [OF Cons.prems(1)]
  have "ls_remove_while l v p = Some (l, p)" using inc Cons.prems(2) by (subst ls_remove_while.simps) simp
  moreover have "ls_remove_loop l v (hd (as2 @ [ls_SIZE l])) = Some l" using Cons.IH [of "as1 @ [p]"] Cons.prems by simp
  ultimately show ?case using inc by (subst ls_remove_loop.simps) simp
qed

lemma ls_remove_loop_rep:
  assumes "ls_rep l (as1 @ as2) es" and "\<forall>q \<in> set as1. el l q \<noteq> v"
  shows "\<exists>l' es'. ls_remove_loop l v (hd (as2 @ [ls_SIZE l])) = Some l' \<and>
    ls_rep l' (as1 @ filter (\<lambda>q. el l q \<noteq> v) as2) es' \<and> ls_same l' l"
  using assms
proof (induction as2 arbitrary: l as1 es rule: length_induct)
  case (1 as2)
  show ?case
  proof (cases as2)
    case Nil
    then show ?thesis using "1.prems" by (auto simp: ls_remove_loop.simps ls_end_def)
  next
    case (Cons p as3)
    let ?rest = "dropWhile (\<lambda>q. el l q = v) as2"
    have rep: "ls_rep l (as1 @ p # as3) es" using "1.prems"(1) by (simp add: Cons)
    obtain l1 es1 where l1: "ls_remove_while l v p = Some (l1, hd (?rest @ [ls_SIZE l]))" "ls_rep l1 (as1 @ ?rest) es1" "ls_same l1 l"
      using ls_remove_while_rep [OF rep, of v] unfolding Cons by blast
    have size: "ls_SIZE l1 = ls_SIZE l" using l1(3) by (simp add: ls_same_def)
    have els: "el l1 q = el l q" if "q \<in> set (as1 @ as2)" for q
      using that by (intro ls_same_rep [OF l1(3) "1.prems"(1)]) auto
    have filter: "filter (\<lambda>q. el l q \<noteq> v) ?rest = filter (\<lambda>q. el l q \<noteq> v) as2"
      by (induction as2) auto
    have step: "ls_remove_loop l v (hd (as2 @ [ls_SIZE l])) = do {
        it \<leftarrow> it_inc (ls_nodes l1) (hd (?rest @ [ls_SIZE l])); ls_remove_loop l1 v it }"
      using ls_rep_inc(5) [OF rep] l1(1) by (subst ls_remove_loop.simps) (simp add: Cons)
    show ?thesis
    proof (cases ?rest)
      case Nil
      have none: "\<forall>q \<in> set as1. el l1 q \<noteq> v" using "1.prems"(2) els by auto
      have rep1: "ls_rep l1 ([] @ as1) es1" using l1(2) Nil by simp
      have "it_inc (ls_nodes l1) (ls_SIZE l) = Some (hd (as1 @ [ls_SIZE l]))"
        using ls_rep_links(1) [of l1 as1 es1] rep1 size by (simp add: ls_begin_def it_inc_def)
      then show ?thesis using step ls_remove_loop_none [OF rep1 none] l1(3) rep1 filter size
        by (auto simp: Nil simp flip: filter)
    next
      case (Cons q rest)
      have ne: "el l q \<noteq> v" using Cons by (metis (mono_tags, lifting) dropWhile_eq_Cons_conv)
      have sub: "set (q # rest) \<subseteq> set as2" unfolding Cons [symmetric] by (auto dest: set_dropWhileD)
      have less: "length rest < length as2" using length_dropWhile_le [of "\<lambda>q. el l q = v" as2] Cons by simp
      have rep1: "ls_rep l1 ((as1 @ [q]) @ rest) es1" using l1(2) Cons by simp
      have none: "\<forall>r \<in> set (as1 @ [q]). el l1 r \<noteq> v" using "1.prems"(2) els ne sub by auto
      obtain l2 es2 where l2: "ls_remove_loop l1 v (hd (rest @ [ls_SIZE l1])) = Some l2"
          "ls_rep l2 ((as1 @ [q]) @ filter (\<lambda>q. el l1 q \<noteq> v) rest) es2" "ls_same l2 l1"
        using "1.IH" [rule_format, OF less rep1 none [rule_format]] by blast
      have "filter (\<lambda>q. el l1 q \<noteq> v) rest = filter (\<lambda>q. el l q \<noteq> v) rest" using els sub by (intro filter_cong) auto
      moreover have "it_inc (ls_nodes l1) q = Some (hd (rest @ [ls_SIZE l1]))"
        using ls_rep_inc(1) [of l1 as1 q rest es1] rep1 by simp
      ultimately show ?thesis using step l2 ne ls_same_trans [OF l2(3) l1(3)] filter Cons
        by (auto simp flip: filter)
    qed
  qed
qed

lemma ls_remove_rep:
  assumes "ls_rep l as es"
  shows "\<exists>l' es'. ls_remove l v = Some l' \<and> ls_rep l' (filter (\<lambda>q. el l q \<noteq> v) as) es' \<and> ls_same l' l"
  using ls_remove_loop_rep [of l "[]" as es v] assms by (simp add: ls_remove_def ls_rep_links(1) [OF assms])

text \<open>\<open>unique\<close> also compares with the element of \<open>data_\<close> at the end of the list.\<close>

lemma ls_end_deref: "ls_rep l as es \<Longrightarrow> it_deref (ls_nodes l) (ls_SIZE l) = Some (el l (ls_SIZE l))"
  using ls_repD(5) [of l as es] by (simp add: it_deref_def)

lemma ls_unique_while_rep:
  assumes "ls_rep l (as1 @ p # as2) es" and "el l p \<noteq> el l (ls_SIZE l)"
  shows "\<exists>l' es'. ls_unique_while l p (hd (as2 @ [ls_SIZE l])) =
      Some (l', hd (dropWhile (\<lambda>q. el l q = el l p) as2 @ [ls_SIZE l])) \<and>
    ls_rep l' (as1 @ p # dropWhile (\<lambda>q. el l q = el l p) as2) es' \<and> ls_same l' l"
  using assms
proof (induction as2 arbitrary: l es)
  case Nil
  then show ?case using ls_rep_inc(3) [OF Nil.prems(1)] ls_end_deref [OF Nil.prems(1)]
    by (subst ls_unique_while.simps) auto
next
  case (Cons q as2)
  note inc = ls_rep_inc(3) [OF Cons.prems(1)]
  have rep: "ls_rep l ((as1 @ [p]) @ q # as2) es" using Cons.prems(1) by simp
  note inc' = ls_rep_inc [OF rep]
  show ?case
  proof (cases "el l q = el l p")
    case False
    then show ?thesis using inc inc' Cons.prems(1) by (subst ls_unique_while.simps) auto
  next
    case True
    obtain l' where l': "ls_erase l q = Some (l', Some q)" "ls_rep l' (as1 @ p # as2) (q # es)" "ls_same l' l"
      using ls_erase_same [OF rep] by auto
    have size: "ls_SIZE l' = ls_SIZE l" using l'(3) by (simp add: ls_same_def)
    have els: "el l' r = el l r" if "r \<in> set (p # as2)" for r
      using that by (intro ls_same_rep [OF l'(3) Cons.prems(1)]) auto
    have dat: "el l' (ls_SIZE l') = el l (ls_SIZE l)"
      using ls_same_element [OF l'(3)] ls_repD(5) [OF Cons.prems(1)] size by simp
    have drop: "dropWhile (\<lambda>r. el l' r = el l' p) as2 = dropWhile (\<lambda>r. el l r = el l p) as2"
      using els by (intro dropWhile_cong) auto
    have "el l' p \<noteq> el l' (ls_SIZE l')" using Cons.prems(2) els [of p] dat by simp
    from Cons.IH [OF l'(2) this] obtain l2 es2 where l2:
        "ls_unique_while l' p (hd (as2 @ [ls_SIZE l])) = Some (l2, hd (dropWhile (\<lambda>q. el l q = el l p) as2 @ [ls_SIZE l]))"
        "ls_rep l2 (as1 @ p # dropWhile (\<lambda>q. el l q = el l p) as2) es2" "ls_same l2 l'" unfolding drop size by blast
    have "hd (as2 @ [ls_SIZE l]) = ls_end l' \<longleftrightarrow> as2 = []"
      using ls_rep_hd_end [of l' "as1 @ [p]" as2] l'(2) size by simp
    moreover have "ls_unique_while l p q = (if hd (as2 @ [ls_SIZE l]) = ls_end l' then Some (l', hd (as2 @ [ls_SIZE l]))
        else ls_unique_while l' p (hd (as2 @ [ls_SIZE l])))"
      using inc inc' True l'(1) by (subst ls_unique_while.simps) simp
    ultimately have "ls_unique_while l p q = (if as2 = [] then Some (l', ls_SIZE l) else ls_unique_while l' p (hd (as2 @ [ls_SIZE l])))"
      by auto
    then show ?thesis using l2 l' True ls_same_trans [OF l2(3) l'(3)] by (cases as2) auto
  qed
qed

lemma ls_unique_loop_rep:
  assumes "ls_rep l (as1 @ as2) es" and "\<forall>q \<in> set as2. el l q \<noteq> el l (ls_SIZE l)"
  shows "\<exists>l' as' es'. ls_unique_loop l (hd (as2 @ [ls_SIZE l])) (hd (as2 @ [ls_SIZE l])) = Some l' \<and>
    ls_rep l' (as1 @ as') es' \<and> ls_same l' l \<and> map (\<lambda>q. el l q) as' = remdups_adj (map (\<lambda>q. el l q) as2)"
  using assms
proof (induction as2 arbitrary: l as1 es rule: length_induct)
  case (1 as2)
  show ?case
  proof (cases as2)
    case Nil
    then show ?thesis using "1.prems" by (intro exI [of _ l] exI [of _ "[]"] exI [of _ es]) (simp add: ls_unique_loop.simps ls_end_def)
  next
    case (Cons p as3)
    let ?rest = "dropWhile (\<lambda>q. el l q = el l p) as3"
    have rep: "ls_rep l (as1 @ p # as3) es" using "1.prems"(1) by (simp add: Cons)
    note inc = ls_rep_inc [OF rep]
    have "el l p \<noteq> el l (ls_SIZE l)" using "1.prems"(2) Cons by simp
    from ls_unique_while_rep [OF rep this] obtain l1 es1 where
      l1: "ls_unique_while l p (hd (as3 @ [ls_SIZE l])) = Some (l1, hd (?rest @ [ls_SIZE l]))" "ls_rep l1 (as1 @ p # ?rest) es1" "ls_same l1 l"
      by blast
    have size: "ls_SIZE l1 = ls_SIZE l" using l1(3) by (simp add: ls_same_def)
    have els: "el l1 q = el l q" if "q \<in> set as2" for q
      using that by (intro ls_same_rep [OF l1(3) "1.prems"(1)]) auto
    have dat: "el l1 (ls_SIZE l1) = el l (ls_SIZE l)"
      using ls_same_element [OF l1(3)] ls_repD(5) [OF rep] size by simp
    have sub: "set ?rest \<subseteq> set as2" unfolding Cons by (auto dest: set_dropWhileD)
    have less: "length ?rest < length as2" using length_dropWhile_le [of "\<lambda>q. el l q = el l p" as3] Cons by simp
    have rep1: "ls_rep l1 ((as1 @ [p]) @ ?rest) es1" using l1(2) by simp
    have none: "\<And>q. q \<in> set ?rest \<Longrightarrow> el l1 q \<noteq> el l1 (ls_SIZE l1)" using "1.prems"(2) els sub dat by auto
    obtain l2 as' es2 where l2: "ls_unique_loop l1 (hd (?rest @ [ls_SIZE l1])) (hd (?rest @ [ls_SIZE l1])) = Some l2"
        "ls_rep l2 ((as1 @ [p]) @ as') es2" "ls_same l2 l1" "map (\<lambda>q. el l1 q) as' = remdups_adj (map (\<lambda>q. el l1 q) ?rest)"
      using "1.IH" [rule_format, OF less rep1 none] by blast
    have "map (\<lambda>q. el l1 q) ?rest = map (\<lambda>q. el l q) ?rest" using els sub by (intro map_cong) auto
    moreover have "map (\<lambda>q. el l1 q) as' = map (\<lambda>q. el l q) as'"
    proof (rule map_cong [OF refl])
      fix q assume "q \<in> set as'"
      then have "q < ls_SIZE l" using ls_repD(4) [OF l2(2)] l2(3) size by (auto simp: ls_same_def)
      then show "el l1 q = el l q" using ls_repD(5) [OF rep] by (intro ls_same_element [OF l1(3)]) simp
    qed
    moreover have "map (\<lambda>q. el l q) ?rest = dropWhile (\<lambda>y. y = el l p) (map (\<lambda>q. el l q) as3)"
      by (simp add: dropWhile_map comp_def)
    ultimately have "map (\<lambda>q. el l q) (p # as') = remdups_adj (map (\<lambda>q. el l q) as2)"
      using l2(4) Cons remdups_adj_Cons' [of "el l p" "map (\<lambda>q. el l q) as3"] by simp
    moreover have "ls_unique_loop l p p = ls_unique_loop l1 (hd (?rest @ [ls_SIZE l1])) (hd (?rest @ [ls_SIZE l1]))"
      using inc(1,5) l1(1) size by (subst ls_unique_loop.simps) simp
    ultimately show ?thesis using l2 ls_same_trans [OF l2(3) l1(3)]
      by (intro exI [of _ l2] exI [of _ "p # as'"] exI [of _ es2]) (simp add: Cons)
  qed
qed

lemma ls_unique_rep:
  assumes "ls_rep l as es" and "\<forall>q \<in> set as. el l q \<noteq> el l (ls_SIZE l)"
  shows "\<exists>l' as' es'. ls_unique l = Some l' \<and> ls_rep l' as' es' \<and> ls_same l' l \<and>
    map (\<lambda>q. el l q) as' = remdups_adj (map (\<lambda>q. el l q) as)"
  using ls_unique_loop_rep [of l "[]" as es] assms by (simp add: ls_unique_def ls_rep_links(1) [OF assms(1)])

section \<open>reverse\<close>

text \<open>The nodes \<open>R\<close> have been reversed.\<close>

definition ln_flip :: "'a list_node \<Rightarrow> 'a list_node" where
  "ln_flip n = n\<lparr>ln_next := ln_prev n, ln_prev := ln_next n\<rparr>"

definition ls_flips :: "'a list_static \<Rightarrow> nat set \<Rightarrow> 'a list_static" where
  "ls_flips l R = l\<lparr>ls_nodes := map (\<lambda>i. if i \<in> R then ln_flip (ls_nodes l ! i) else ls_nodes l ! i) [0..<length (ls_nodes l)]\<rparr>"

lemma ln_flip_flip [simp]: "ln_flip (ln_flip n) = n"
  by (simp add: ln_flip_def)

lemma ls_flips_empty [simp]: "ls_flips l {} = l"
  by (simp add: ls_flips_def map_nth)

lemma ls_flips_SIZE [simp]: "ls_SIZE (ls_flips l R) = ls_SIZE l"
  by (simp add: ls_flips_def ls_SIZE_def)

lemma ls_flips_nth: "p < length (ls_nodes l) \<Longrightarrow>
    ls_nodes (ls_flips l R) ! p = (if p \<in> R then ln_flip (ls_nodes l ! p) else ls_nodes l ! p)"
  by (simp add: ls_flips_def)

lemma ls_flips_length [simp]: "length (ls_nodes (ls_flips l R)) = length (ls_nodes l)"
  by (simp add: ls_flips_def)

lemma ln_reverse_flip: "p < length ns \<Longrightarrow> ln_reverse ns p = Some (ns[p := ln_flip (ns ! p)])"
  by (simp add: ln_reverse_def get_in set_next_in set_prev_in ln_flip_def)

lemma ln_reverse_flips:
  assumes "p < length (ls_nodes l)"
  shows "ln_reverse (ls_nodes (ls_flips l R)) p = Some (ls_nodes (ls_flips l (if p \<in> R then R - {p} else insert p R)))"
  using assms by (auto simp: ln_reverse_flip ls_flips_nth intro!: nth_equalityI) (auto simp: nth_list_update ls_flips_nth)

text \<open>One round of the loop: the node \<open>p\<close> is reversed, and the iterator goes to what is now before it.\<close>

lemma ls_reverse_step:
  assumes "ls_rep l as es" and "p \<in> set as \<or> p = ls_SIZE l"
  shows "ls_reverse_loop (ls_flips l R) p =
    (let R' = (if p \<in> R then R - {p} else insert p R); l' = ls_flips l R';
         it = (if p \<in> R' then ln_next (ls_nodes l ! p) else ln_prev (ls_nodes l ! p));
         b = (if ls_SIZE l \<in> R' then ln_prev (ls_nodes l ! ls_SIZE l) else ln_next (ls_nodes l ! ls_SIZE l))
     in if it \<noteq> b then ls_reverse_loop l' it else Some l')"
proof -
  let ?R = "if p \<in> R then R - {p} else insert p R"
  have len: "p < length (ls_nodes l)" "ls_SIZE l < length (ls_nodes l)"
    using assms ls_repD(5) [OF assms(1)] ls_rep_valid [OF assms(1), of p] by auto
  have upd: "(ls_flips l R)\<lparr>ls_nodes := ls_nodes (ls_flips l ?R)\<rparr> = ls_flips l ?R" by (simp add: ls_flips_def)
  have "it_dec (ls_nodes (ls_flips l S)) p = Some (if p \<in> S then ln_next (ls_nodes l ! p) else ln_prev (ls_nodes l ! p))" for S
    using len by (simp add: it_dec_def get_in ls_flips_nth ln_flip_def)
  moreover have "ls_begin (ls_flips l S) =
      Some (if ls_SIZE l \<in> S then ln_prev (ls_nodes l ! ls_SIZE l) else ln_next (ls_nodes l ! ls_SIZE l))" for S
    using len by (simp add: ls_begin_def get_in ls_flips_nth ln_flip_def)
  ultimately show ?thesis
    by (subst ls_reverse_loop.simps) (simp only: ln_reverse_flips [OF len(1)] upd Option.bind.simps Let_def)
qed

lemma ls_reverse_forward:
  assumes "ls_rep l (as1 @ as2) es" and "as2 \<noteq> []"
  shows "ls_reverse_loop (ls_flips l (set as1)) (hd as2) = ls_reverse_loop (ls_flips l (set (as1 @ as2))) (ls_SIZE l)"
  using assms
proof (induction as2 arbitrary: as1)
  case (Cons p as2)
  note R = ls_repD [OF Cons.prems(1)]
  have out: "p \<notin> set as1" "ls_SIZE l \<notin> set as1" "ls_SIZE l \<noteq> p" using R(3,4) by auto
  have nxt: "ln_next (ls_nodes l ! p) = hd (as2 @ [ls_SIZE l])" using ring_split(1) [OF R(1)] .
  have beg: "ln_next (ls_nodes l ! ls_SIZE l) = hd (as1 @ [p])" using ring_links [OF R(1)] by (cases as1) auto
  have rep: "ls_rep l ((as1 @ [p]) @ as2) es" using Cons.prems(1) by simp
  have "hd (as2 @ [ls_SIZE l]) \<noteq> hd (as1 @ [p])" using ls_rep_hd_begin [OF rep] by (cases as1) auto
  then have step: "ls_reverse_loop (ls_flips l (set as1)) p = ls_reverse_loop (ls_flips l (set (as1 @ [p]))) (hd (as2 @ [ls_SIZE l]))"
    using ls_reverse_step [OF Cons.prems(1), of p "set as1"] out by (simp add: Let_def nxt beg)
  show ?case
  proof (cases "as2 = []")
    case True
    then show ?thesis using step by simp
  next
    case False
    then show ?thesis using step Cons.IH [OF rep] by simp
  qed
qed simp

lemma ls_reverse_back:
  assumes "ls_rep l (a # bs @ cs) es" and "bs \<noteq> []"
  shows "ls_reverse_loop (ls_flips l (set bs)) (last bs) = Some l"
  using assms
proof (induction bs arbitrary: cs rule: rev_induct)
  case (snoc p bs)
  have rep: "ls_rep l ((a # bs) @ p # cs) es" using snoc.prems(1) by simp
  note R = ls_repD [OF rep]
  have out: "p \<notin> set bs" "ls_SIZE l \<notin> set bs" "ls_SIZE l \<noteq> p" "a \<notin> set bs" "a \<noteq> p" using R(3,4) by auto
  have prv: "ln_prev (ls_nodes l ! p) = last (a # bs)" using ring_split(2) [OF R(1)] by simp
  have beg: "ln_next (ls_nodes l ! ls_SIZE l) = a" using ring_links [OF R(1)] by simp
  have set: "insert p (set bs) - {p} = set bs" using out(1) by simp
  have "ls_reverse_loop (ls_flips l (set (bs @ [p]))) p =
      (if last (a # bs) \<noteq> a then ls_reverse_loop (ls_flips l (set bs)) (last (a # bs)) else Some (ls_flips l (set bs)))"
    using ls_reverse_step [OF rep, of p "set (bs @ [p])"] out(1-3) by (simp add: Let_def prv beg set del: last.simps)
  moreover have "last (a # bs) \<noteq> a \<longleftrightarrow> bs \<noteq> []" using out(4) last_in_set [of bs] by (cases "bs = []") auto
  ultimately show ?case using snoc.IH [of "p # cs"] snoc.prems(1) by auto
qed simp

lemma ls_reverse_rep:
  assumes rep: "ls_rep l as es"
  shows "ls_reverse l = Some l"
proof -
  let ?N = "ls_SIZE l"
  note R = ls_repD [OF rep]
  have links: "ln_next (ls_nodes l ! ?N) = hd (as @ [?N])" "ln_prev (ls_nodes l ! ?N) = last (?N # as)"
    using ring_links [OF R(1)] by simp_all
  have out: "?N \<notin> set as" using R(4) by auto
  have step: "ls_reverse_loop (ls_flips l S) ?N = (let S' = (if ?N \<in> S then S - {?N} else insert ?N S); l' = ls_flips l S';
         it = (if ?N \<in> S' then hd (as @ [?N]) else last (?N # as)); b = (if ?N \<in> S' then last (?N # as) else hd (as @ [?N]))
     in if it \<noteq> b then ls_reverse_loop l' it else Some l')" for S
    using ls_reverse_step [OF rep, of ?N S] by (simp add: links del: last.simps)
  have flip_same: "ls_flips l {p} = l" if "ln_next (ls_nodes l ! p) = ln_prev (ls_nodes l ! p)" for p
  proof -
    have "ln_flip (ls_nodes l ! p) = ls_nodes l ! p" using that by (simp add: ln_flip_def)
    then have "map (\<lambda>i. if i \<in> {p} then ln_flip (ls_nodes l ! i) else ls_nodes l ! i) [0..<length (ls_nodes l)] = ls_nodes l"
      by (intro nth_equalityI) auto
    then show ?thesis by (simp add: ls_flips_def)
  qed
  show ?thesis
  proof (cases as)
    case Nil
    then show ?thesis using step [of "{}"] flip_same [of ?N] links by (simp add: ls_reverse_def ls_rep_links(1) [OF rep] Let_def)
  next
    case (Cons a bs)
    have forward: "ls_reverse l = ls_reverse_loop (ls_flips l (set as)) ?N"
      using ls_reverse_forward [of l "[]" as es] rep Cons by (simp add: ls_reverse_def ls_rep_links(1) [OF rep])
    show ?thesis
    proof (cases "bs = []")
      case True
      have "ls_flips l (set as) = l" using flip_same [of a] ring_split [of "ls_nodes l" ?N "[]" a bs] R(1) True Cons by simp
      then have "ls_reverse l = ls_reverse_loop (ls_flips l {}) ?N" using forward by simp
      also have "\<dots> = Some l" using step [of "{}"] flip_same [of ?N] links True Cons out by (simp add: Let_def)
      finally show ?thesis .
    next
      case False
      have d: "a \<notin> set bs" "?N \<notin> set bs" "a \<noteq> ?N" using R(3) out Cons by auto
      have ne: "last bs \<noteq> a" using d(1) last_in_set [OF False] by metis
      have "ls_reverse_loop (ls_flips l (set as)) ?N = ls_reverse_loop (ls_flips l (insert ?N (set as))) a"
        using step [of "set as"] out ne False by (simp add: Cons Let_def)
      also have "\<dots> = ls_reverse_loop (ls_flips l (insert ?N (set bs))) ?N"
      proof -
        have "insert ?N (set as) - {a} = insert ?N (set bs)" using d Cons by auto
        moreover have "ln_prev (ls_nodes l ! a) = ?N" using ring_split(2) [of "ls_nodes l" ?N "[]" a bs] R(1) Cons by simp
        moreover have "last (?N # as) \<noteq> ?N" using out last_in_set [of as] Cons by (metis last_ConsR list.distinct(1))
        ultimately show ?thesis using ls_reverse_step [OF rep, of a "insert ?N (set as)"] d Cons links
          by (simp add: Let_def del: last.simps)
      qed
      also have "\<dots> = ls_reverse_loop (ls_flips l (set bs)) (last bs)"
        using step [of "insert ?N (set bs)"] d ne False by (simp add: Cons Let_def)
      also have "\<dots> = Some l" using ls_reverse_back [of l a bs "[]" es] rep Cons False by simp
      finally show ?thesis using forward by simp
    qed
  qed
qed

section \<open>Erasing and inserting ranges\<close>

text \<open>After an element is erased its node is the first free one, and the iterator goes on there: with
  another free node the loop takes that one, finds the node it began with and stops.\<close>

lemma ls_erase_loop_free:
  assumes "ls_rep l [] (es1 @ e # es2)" and "p \<in> set es1" and "hd es1 = p" and "lst \<notin> set (es1 @ e # es2)" "lst \<noteq> ls_SIZE l + 1"
  shows "ls_erase_loop l p lst e = Some l"
  using assms
proof (induction es2 arbitrary: es1 e)
  case Nil
  note R = ls_repD [OF Nil.prems(1)]
  have mem: "e < ls_SIZE l" "p < ls_SIZE l" using R(4) Nil.prems(2) by auto
  have "it_inc (ls_nodes l) e = Some (ls_SIZE l + 1)"
    using ring_split(1) [OF R(2)] mem R(5) by (simp add: it_inc_def get_in)
  moreover have "ln_next (ls_nodes l ! (ls_SIZE l + 1)) = p"
    using ring_links [OF R(2)] Nil.prems(2,3) by (cases es1) auto
  then have "it_inc (ls_nodes l) (ls_SIZE l + 1) = Some p" using R(5) by (simp add: it_inc_def get_in)
  then have "ls_erase_loop l p lst (ls_SIZE l + 1) = Some l"
    using ls_erase_empty [OF Nil.prems(1), of "ls_SIZE l + 1"] Nil.prems(5) by (subst ls_erase_loop.simps) simp
  ultimately show ?case using ls_erase_empty [OF Nil.prems(1), of e] Nil.prems(4) mem
    by (subst ls_erase_loop.simps) simp
next
  case (Cons f es2)
  note R = ls_repD [OF Cons.prems(1)]
  have e: "e < ls_SIZE l" using R(4) by auto
  have "it_inc (ls_nodes l) e = Some f" using ring_split(1) [OF R(2)] e R(5) by (simp add: it_inc_def get_in)
  moreover have "f \<noteq> p" "lst \<noteq> e" using R(3) Cons.prems(2,4) by auto
  moreover have "ls_erase_loop l p lst f = Some l"
  proof (rule Cons.IH [of "es1 @ [e]"])
    show "hd (es1 @ [e]) = p" using Cons.prems(2,3) by (cases es1) auto
  qed (use Cons.prems in auto)
  ultimately show ?case using ls_erase_empty [OF Cons.prems(1), of e] by (subst ls_erase_loop.simps) simp
qed

lemma ls_erase_range_first:
  assumes rep: "ls_rep l (as1 @ p # as2) (e # es)" and lst: "lst \<in> set as2 \<or> lst = ls_end l"
  shows "\<exists>l' es'. ls_erase_range l p lst = Some l' \<and> ls_rep l' (as1 @ as2) es' \<and> ls_same l' l"
proof -
  note R = ls_repD [OF rep]
  have e: "e < ls_SIZE l" "p < ls_SIZE l" using R(4) by auto
  have ne: "lst \<noteq> p" "lst \<noteq> e" "lst \<notin> set es" "lst \<noteq> ls_SIZE l + 1" "e \<noteq> p" 
  proof -
    have all: "q < ls_SIZE l" if "q \<in> set (as1 @ p # as2 @ e # es)" for q using R(4) that by auto
    have "x \<noteq> p \<and> x \<noteq> e \<and> x \<notin> set es \<and> x \<noteq> ls_SIZE l + 1" if "x \<in> set as2" for x using R(3) that all [of x] by auto
    moreover have "ls_SIZE l \<noteq> p \<and> ls_SIZE l \<noteq> e \<and> ls_SIZE l \<notin> set es" using all [of "ls_SIZE l"] e by auto
    moreover have "e \<noteq> p" using R(3) by auto
    ultimately show "lst \<noteq> p" "lst \<noteq> e" "lst \<notin> set es" "lst \<noteq> ls_SIZE l + 1" "e \<noteq> p"
      using lst unfolding ls_end_def by auto
  qed
  obtain l1 where l1: "ls_erase l p = Some (l1, Some p)" "ls_rep l1 (as1 @ as2) (p # e # es)" "ls_same l1 l"
    using ls_erase_same [OF rep] by blast
  have size: "ls_SIZE l1 = ls_SIZE l" using l1(3) by (simp add: ls_same_def)
  have "it_inc (ls_nodes l1) p = Some e"
    using ring_split(1) [of "ls_nodes l1" "ls_SIZE l1 + 1" "[]" p "e # es"] ls_repD(2,5) [OF l1(2)] e size
    by (simp add: it_inc_def get_in)
  then have step: "ls_erase_range l p lst = ls_erase_loop l1 p lst e"
    unfolding ls_erase_range_def using ne l1(1) by (subst ls_erase_loop.simps) simp
  show ?thesis
  proof (cases "as1 @ as2")
    case Nil
    then have "ls_erase_loop l1 p lst e = Some l1"
      using l1(2) ne size by (intro ls_erase_loop_free [of l1 "[p]" e es]) auto
    then show ?thesis using step l1 by auto
  next
    case (Cons a as)
    have ring1: "ring (ls_nodes l1) (ls_SIZE l1 + 1) ([p] @ e # es)" using ls_repD(2) [OF l1(2)] by simp
    obtain n2 where n2: "ln_unhook (ls_nodes l1) e = Some n2" "ring n2 (ls_SIZE l1 + 1) ([p] @ es)"
        "same_nodes n2 (ls_nodes l1) (set ((ls_SIZE l1 + 1) # [p] @ e # es))"
      using unhook_ring [OF ring1] by blast
    let ?l2 = "l1\<lparr>ls_nodes := n2\<rparr>"
    have len2: "length n2 = ls_SIZE l1 + 2" using same_nodes_length [OF n2(3)] ls_repD(5) [OF l1(2)] by simp
    have size2: "ls_SIZE ?l2 = ls_SIZE l1" using len2 by (simp add: ls_SIZE_def)
    have "e \<notin> set ((ls_SIZE l1 + 1) # [p] @ es)" "e < length n2" using R(3) e size len2 ne(5) by auto
    then obtain l3 where l3: "ls_put_node ?l2 e = Some l3" "ring (ls_nodes l3) (ls_SIZE l1 + 1) (e # [p] @ es)"
        "same_nodes (ls_nodes l3) n2 (insert e (set ((ls_SIZE l1 + 1) # [p] @ es)))"
      using ls_put_node_rep [of ?l2 "[p] @ es" e] n2(2) size2 by auto
    have len3: "length (ls_nodes l3) = ls_SIZE l1 + 2" using same_nodes_length [OF l3(3)] len2 by simp
    have size3: "ls_SIZE l3 = ls_SIZE l1" using len3 by (simp add: ls_SIZE_def)
    note R1 = ls_repD [OF l1(2)]
    have out: "ls_SIZE l1 \<notin> set ((as1 @ as2) @ p # e # es)" "Suc (ls_SIZE l1) \<notin> set ((as1 @ as2) @ p # e # es)"
      using R1(4) by auto
    have "ring n2 (ls_SIZE l1) (as1 @ as2)" using out R1(3) by (intro same_nodes_ring [OF n2(3) R1(1)]) auto
    then have "ring (ls_nodes l3) (ls_SIZE l1) (as1 @ as2)" using out R1(3) by (intro same_nodes_ring [OF l3(3)]) auto
    then have rep3: "ls_rep l3 (as1 @ as2) (e # p # es)" using l3(2) R1(3,4) len3 unfolding ls_rep_def size3 Let_def by auto
    have same3: "ls_same l3 l1" using n2(3) l3(3) size3 by (simp add: ls_same_def same_nodes_def)
    have "ls_erase l1 e = Some (l3, Some e)" using l3(1) n2(1) ls_rep_empty [OF l1(2)] Cons by (simp add: ls_erase_def)
    moreover have "it_inc (ls_nodes l3) e = Some p"
      using ring_split(1) [of "ls_nodes l3" "ls_SIZE l3 + 1" "[]" e "p # es"] ls_repD(2,5) [OF rep3] e size size3
      by (simp add: it_inc_def get_in)
    ultimately have "ls_erase_loop l1 p lst e = Some l3" using ne by (subst ls_erase_loop.simps) auto
    then show ?thesis using step rep3 ls_same_trans [OF same3 l1(3)] by auto
  qed
qed

text \<open>With no other free node it comes to \<open>empty_nodes_\<close> itself, which is unhooked and hooked to itself
  again and again.\<close>

definition ls_stuck :: "'a list_static \<Rightarrow> nat \<Rightarrow> bool" where
  "ls_stuck l it \<longleftrightarrow> (\<exists>q. ls_erase l it = Some (l, q)) \<and> it_inc (ls_nodes l) it = Some it"

lemma ls_erase_loop_stuck:
  assumes "ls_stuck l it" and "it \<noteq> lst" "it \<noteq> frst"
  shows "ls_erase_loop l frst lst it = None"
proof (rule ccontr)
  assume "ls_erase_loop l frst lst it \<noteq> None"
  then obtain r where "ls_erase_loop l frst lst it = Some r" by auto
  then have "\<not> (ls_stuck l it \<and> it \<noteq> lst \<and> it \<noteq> frst)"
    by (rule ls_erase_loop.raw_induct [rotated]) (auto simp: ls_stuck_def split: if_splits, blast)
  then show False using assms by simp
qed

lemma ls_erase_range_full:
  assumes rep: "ls_rep l (as1 @ p # as2) []" and more: "as1 @ as2 \<noteq> []" and lst: "lst \<in> set as2 \<or> lst = ls_end l"
  shows "ls_erase_range l p lst = None \<and> (\<exists>l1 l2 q. ls_erase l p = Some (l1, Some p) \<and> it_inc (ls_nodes l1) p = Some q \<and>
    ls_erase l1 q = Some (l2, Some q) \<and> it_inc (ls_nodes l2) q = Some q \<and> ls_stuck l2 q \<and> q \<noteq> lst \<and> q \<noteq> p)"
proof -
  let ?E = "ls_SIZE l + 1"
  note R = ls_repD [OF rep]
  have ne: "lst \<noteq> p" "?E \<noteq> lst" "?E \<noteq> p" "p < ls_SIZE l" using lst R(3,4) by (auto simp: ls_end_def)
  obtain l1 where l1: "ls_erase l p = Some (l1, Some p)" "ls_rep l1 (as1 @ as2) [p]" "ls_same l1 l"
    using ls_erase_same [OF rep] by blast
  have size: "ls_SIZE l1 = ls_SIZE l" using l1(3) by (simp add: ls_same_def)
  note R1 = ls_repD [OF l1(2), unfolded size]
  have p: "nx (ls_nodes l1) p = ?E" "pv (ls_nodes l1) p = ?E" "nx (ls_nodes l1) ?E = p" "pv (ls_nodes l1) ?E = p"
    using ring_split [of "ls_nodes l1" ?E "[]" p "[]"] ring_links [OF R1(2)] R1(2) by auto
  have inc1: "it_inc (ls_nodes l1) p = Some ?E" using p(1) R1(5) ne(4) by (simp add: it_inc_def get_in)
  obtain n2 where n2: "ln_unhook (ls_nodes l1) ?E = Some n2" "same_nodes n2 (ls_nodes l1) {?E, p}"
      and nx2: "\<forall>r. nx n2 r = (if r = ?E then ?E else if r = p then p else nx (ls_nodes l1) r)"
      and pv2: "\<forall>r. pv n2 r = (if r = ?E then ?E else if r = p then p else pv (ls_nodes l1) r)"
    using ln_unhook_eq [of ?E "ls_nodes l1"] p ne R1(5) by auto
  have len2: "length n2 = ls_SIZE l + 2" using same_nodes_length [OF n2(2)] R1(5) by simp
  define l2 where "l2 = l1\<lparr>ls_nodes := n2\<rparr>"
  have size2: "ls_SIZE l2 = ls_SIZE l" using len2 by (simp add: ls_SIZE_def l2_def)
  have E2: "nx n2 ?E = ?E" "pv n2 ?E = ?E" using nx2 pv2 by auto
  have self: "n2[?E := (n2 ! ?E)\<lparr>ln_next := ?E\<rparr>] = n2" "n2[?E := (n2 ! ?E)\<lparr>ln_prev := ?E\<rparr>] = n2"
    using E2 by (metis list_node.update_convs(2) list_node.surjective list_node.simps(2) list_update_id,
      metis list_node.update_convs(3) list_node.surjective list_node.simps(3) list_update_id)
  have hook: "ln_hook n2 ?E (Some ?E) = Some n2" "ln_unhook n2 ?E = Some n2"
    using len2 E2 self by (simp_all add: ln_hook_def ln_unhook_def set_next_in set_prev_in get_in)
  have put: "ls_put_node l2 ?E = Some l2" using hook len2 E2 size2 by (simp add: ls_put_node_def get_in l2_def)
  have erase1: "ls_erase l1 ?E = Some (l2, Some ?E)"
    using n2(1) put ls_rep_empty [OF l1(2)] more by (simp add: ls_erase_def flip: l2_def)
  have "ls_empty l2 = ls_empty l1"
  proof -
    have "ls_SIZE l \<noteq> p" "ls_SIZE l \<noteq> ?E" using ne by auto
    then have "nx n2 (ls_SIZE l) = nx (ls_nodes l1) (ls_SIZE l)" using nx2 by simp
    then show ?thesis using len2 R1(5) size2 size by (simp add: ls_empty_def ls_begin_def get_in ls_end_def l2_def)
  qed
  then have erase2: "ls_erase l2 ?E = Some (l2, Some ?E)"
    using hook put ls_rep_empty [OF l1(2)] more by (simp add: ls_erase_def l2_def)
  have inc2: "it_inc (ls_nodes l2) ?E = Some ?E" using E2 len2 by (simp add: it_inc_def get_in l2_def)
  have stuck: "ls_stuck l2 ?E" using erase2 inc2 by (simp add: ls_stuck_def)
  have "ls_erase_range l p lst = ls_erase_loop l1 p lst ?E"
    unfolding ls_erase_range_def using ne l1(1) inc1 by (subst ls_erase_loop.simps) simp
  also have "\<dots> = ls_erase_loop l2 p lst ?E" using ne erase1 inc2 by (subst ls_erase_loop.simps) simp
  also have "\<dots> = None" using ls_erase_loop_stuck [OF stuck ne(2,3)] .
  finally show ?thesis using l1(1) inc1 erase1 inc2 stuck ne by blast
qed

text \<open>Inserting a range steps behind the element at the position after every insertion, so the new
  elements end up between the old ones.\<close>

fun interleave :: "'a list \<Rightarrow> 'a list \<Rightarrow> 'a list" where
  "interleave [] ys = ys"
| "interleave (x # xs) [] = x # xs"
| "interleave (x # xs) (y # ys) = x # y # interleave xs ys"

lemma ls_insert_same:
  assumes "ls_rep l (as1 @ as2) (e # es)" and "p = hd (as2 @ [ls_SIZE l])"
  shows "\<exists>l'. ls_insert l p x = Some (l', True) \<and> ls_rep l' (as1 @ e # as2) es \<and> ls_SIZE l' = ls_SIZE l \<and>
    el l' e = x \<and> (\<forall>q. q \<noteq> e \<longrightarrow> q < length (ls_nodes l) \<longrightarrow> el l' q = el l q)"
proof -
  obtain l' where l': "ls_insert l p x = Some (l', True)" "ls_rep l' (as1 @ e # as2) es" "ls_SIZE l' = ls_SIZE l"
      and m: "map ln_element (ls_nodes l') = (map ln_element (ls_nodes l)) [e := x]"
    using ls_insert_rep [OF assms(1), of x] unfolding assms(2) by blast
  have len: "length (ls_nodes l') = length (ls_nodes l)" using ls_repD(5) [OF assms(1)] ls_repD(5) [OF l'(2)] l'(3) by simp
  have "map ln_element (ls_nodes l') ! q = (if q = e then x else el l q)" if "q < length (ls_nodes l)" for q
    using that unfolding m by (simp add: nth_list_update)
  moreover have "e < length (ls_nodes l)" by (rule ls_rep_valid [OF assms(1)]) simp
  ultimately show ?thesis using l' len by (metis nth_map)
qed

lemma ls_elems_eq: "(\<And>q. q \<in> set bs \<Longrightarrow> el l' q = el l q) \<Longrightarrow> ls_elems l' bs = ls_elems l bs"
  by (simp add: ls_elems_def)

lemma ls_insert_elems:
  assumes "ls_rep l (as1 @ as2) (e # es)" and "p = hd (as2 @ [ls_SIZE l])"
  shows "\<exists>l'. ls_insert l p x = Some (l', True) \<and> ls_rep l' (as1 @ e # as2) es \<and> ls_SIZE l' = ls_SIZE l \<and>
    ls_elems l' (as1 @ e # as2) = ls_elems l as1 @ x # ls_elems l as2 \<and> ls_elems l' as1 = ls_elems l as1 \<and>
    ls_elems l' as2 = ls_elems l as2 \<and> el l' e = x \<and> el l' (ls_SIZE l) = el l (ls_SIZE l)"
proof -
  obtain l' where l': "ls_insert l p x = Some (l', True)" "ls_rep l' (as1 @ e # as2) es" "ls_SIZE l' = ls_SIZE l" "el l' e = x"
      "\<And>q. q \<noteq> e \<Longrightarrow> q < length (ls_nodes l) \<Longrightarrow> el l' q = el l q"
    using ls_insert_same [OF assms] by blast
  note R = ls_repD [OF assms(1)]
  have same: "ls_elems l' bs = ls_elems l bs" if "set bs \<subseteq> set (as1 @ as2)" for bs
  proof (rule ls_elems_eq)
    fix q assume "q \<in> set bs"
    then have "q \<in> set (as1 @ as2)" using that by blast
    moreover from this have "q \<noteq> e" using R(3) by auto
    ultimately show "el l' q = el l q" using l'(5) ls_rep_valid [OF assms(1)] by auto
  qed
  have "ls_SIZE l \<noteq> e" "ls_SIZE l < length (ls_nodes l)" using R(4,5) by auto
  then have "el l' (ls_SIZE l) = el l (ls_SIZE l)" using l'(5) by blast
  moreover have "ls_elems l' as1 = ls_elems l as1" "ls_elems l' as2 = ls_elems l as2" by (simp_all add: same)
  moreover from this have "ls_elems l' (as1 @ e # as2) = ls_elems l as1 @ x # ls_elems l as2" using l'(4) by (simp add: ls_elems_def)
  ultimately show ?thesis using l' by blast
qed

lemma ls_insert_range_interleaves:
  assumes "ls_rep l (as1 @ as2) es" and "length xs \<le> length as2" "length xs \<le> length es"
  shows "\<exists>l' as' es'. ls_insert_range l (hd (as2 @ [ls_SIZE l])) xs = Some (l', True) \<and> ls_rep l' as' es' \<and> ls_SIZE l' = ls_SIZE l \<and>
    ls_elems l' as' = ls_elems l as1 @ interleave xs (ls_elems l as2)"
  using assms
proof (induction xs arbitrary: l as1 as2 es)
  case Nil
  then show ?case by (intro exI [of _ l] exI [of _ "as1 @ as2"] exI [of _ es]) (simp add: ls_elems_def)
next
  case (Cons x xs)
  obtain p as3 where as2: "as2 = p # as3" using Cons.prems(2) by (cases as2) auto
  obtain e es1 where es: "es = e # es1" using Cons.prems(3) by (cases es) auto
  obtain l1 where l1: "ls_insert l (hd (as2 @ [ls_SIZE l])) x = Some (l1, True)" "ls_rep l1 (as1 @ e # as2) es1" "ls_SIZE l1 = ls_SIZE l"
      "ls_elems l1 as1 = ls_elems l as1" "ls_elems l1 as2 = ls_elems l as2" "el l1 e = x"
    using ls_insert_elems [of l as1 as2 e es1 _ x] Cons.prems(1) unfolding es by blast
  have rep1: "ls_rep l1 ((as1 @ [e, p]) @ as3) es1" using l1(2) by (simp add: as2)
  have "it_inc (ls_nodes l1) p = Some (hd (as3 @ [ls_SIZE l1]))"
    using ls_rep_inc(1) [of l1 "as1 @ [e]" p as3 es1] rep1 by simp
  then have step: "ls_insert_range l (hd (as2 @ [ls_SIZE l])) (x # xs) = ls_insert_range l1 (hd (as3 @ [ls_SIZE l1])) xs"
    using l1(1) by (simp add: as2)
  obtain l2 as' es' where l2: "ls_insert_range l1 (hd (as3 @ [ls_SIZE l1])) xs = Some (l2, True)" "ls_rep l2 as' es'" "ls_SIZE l2 = ls_SIZE l1"
      "ls_elems l2 as' = ls_elems l1 (as1 @ [e, p]) @ interleave xs (ls_elems l1 as3)"
    using Cons.IH [OF rep1] Cons.prems(2,3) unfolding as2 es by auto
  have "ls_elems l1 as3 = ls_elems l as3" using l1(5) by (simp add: ls_elems_def as2)
  moreover have "ls_elems l1 (as1 @ [e, p]) = ls_elems l as1 @ [x, el l p]" using l1(4-6) by (simp add: ls_elems_def as2)
  moreover have "ls_elems l as2 = el l p # ls_elems l as3" by (simp add: ls_elems_def as2)
  ultimately have "ls_elems l2 as' = ls_elems l as1 @ interleave (x # xs) (ls_elems l as2)" using l2(4) by simp
  then show ?case using step l2(1-3) l1(3) by auto
qed

section \<open>Copying\<close>

lemma ls_copy_loop_rep:
  assumes "ls_rep src (bs1 @ bs2) fs" and "ls_rep l as es"
  shows "\<exists>l' as' es'. ls_copy_loop l src (hd (bs2 @ [ls_SIZE src])) = Some l' \<and> ls_rep l' as' es' \<and> ls_SIZE l' = ls_SIZE l \<and>
    ls_elems l' as' = ls_elems l as @ take (length es) (ls_elems src bs2) \<and> el l' (ls_SIZE l) = el l (ls_SIZE l)"
  using assms
proof (induction bs2 arbitrary: l as es bs1)
  case Nil
  then show ?case by (intro exI [of _ l] exI [of _ as] exI [of _ es]) (simp add: ls_copy_loop.simps ls_end_def ls_elems_def)
next
  case (Cons p bs2)
  note inc = ls_rep_inc [OF Cons.prems(1)]
  have src: "ls_rep src ((bs1 @ [p]) @ bs2) fs" using Cons.prems(1) by simp
  have "\<exists>l1 ok as1 es1. ls_push_back l (el src p) = Some (l1, ok) \<and> ls_rep l1 as1 es1 \<and> ls_SIZE l1 = ls_SIZE l \<and> length es1 = length es - 1 \<and>
      ls_elems l1 as1 = ls_elems l as @ take (length es) [el src p] \<and> el l1 (ls_SIZE l) = el l (ls_SIZE l)"
  proof (cases es)
    case Nil
    then show ?thesis using ls_insert_full [of l as] Cons.prems(2) by (auto simp: ls_push_back_def)
  next
    case (Cons e es1)
    have "ls_rep l (as @ []) (e # es1)" using \<open>ls_rep l as es\<close> Cons by simp
    from ls_insert_elems [OF this, of "ls_end l" "el src p"] obtain l1 where "ls_insert l (ls_end l) (el src p) = Some (l1, True)"
        "ls_rep l1 (as @ [e]) es1" "ls_SIZE l1 = ls_SIZE l" "ls_elems l1 (as @ [e]) = ls_elems l as @ [el src p]"
        "el l1 (ls_SIZE l) = el l (ls_SIZE l)"
      by (auto simp: ls_end_def ls_elems_def)
    then show ?thesis by (intro exI [of _ l1] exI [of _ True] exI [of _ "as @ [e]"] exI [of _ es1]) (simp add: ls_push_back_def Cons)
  qed
  then obtain l1 ok as1 es1 where l1: "ls_push_back l (el src p) = Some (l1, ok)" "ls_rep l1 as1 es1" "ls_SIZE l1 = ls_SIZE l"
      "length es1 = length es - 1" "ls_elems l1 as1 = ls_elems l as @ take (length es) [el src p]" "el l1 (ls_SIZE l) = el l (ls_SIZE l)" by blast
  have "ls_copy_loop l src p = ls_copy_loop l1 src (hd (bs2 @ [ls_SIZE src]))"
    using inc l1(1) by (subst ls_copy_loop.simps) simp
  then show ?case using Cons.IH [OF src l1(2)] l1(3-6) by (cases es) (auto simp: ls_elems_def)
qed

text \<open>Assigning copies as many elements as there is room for.\<close>

lemma ls_assign_rep:
  assumes "ls_rep src bs fs" and "ls_rep l as es"
  shows "\<exists>l' as' es'. ls_assign l src = Some l' \<and> ls_rep l' as' es' \<and> ls_SIZE l' = ls_SIZE l \<and>
    ls_elems l' as' = take (ls_SIZE l) (ls_elems src bs) \<and> el l' (ls_SIZE l) = el l (ls_SIZE l)"
proof -
  have "\<exists>l1 es1. ls_clear l = Some l1 \<and> ls_rep l1 [] es1 \<and> ls_SIZE l1 = ls_SIZE l \<and> length es1 = ls_SIZE l \<and> el l1 (ls_SIZE l) = el l (ls_SIZE l)"
  proof (cases as)
    case Nil
    then show ?thesis using assms(2) ls_rep_empty [OF assms(2)] ls_repD(6) [OF assms(2)] by (auto simp: ls_clear_def)
  next
    case (Cons a rest)
    then obtain l1 where "ls_clear l = Some l1" "ls_rep l1 [] (es @ rest @ [a])" "ls_same l1 l"
      using ls_clear_rep [of l a rest es] assms(2) by (auto simp: ls_same_def)
    moreover from this have "el l1 (ls_SIZE l) = el l (ls_SIZE l)"
      using ls_repD(5) [OF assms(2)] by (intro ls_same_element) auto
    ultimately show ?thesis using ls_repD(6) [OF assms(2)] Cons by (auto simp: ls_same_def)
  qed
  then obtain l1 es1 where l1: "ls_clear l = Some l1" "ls_rep l1 [] es1" "ls_SIZE l1 = ls_SIZE l" "length es1 = ls_SIZE l"
      "el l1 (ls_SIZE l) = el l (ls_SIZE l)" by blast
  have "ls_rep src ([] @ bs) fs" using assms(1) by simp
  from ls_copy_loop_rep [OF this l1(2)] show ?thesis
    using l1 ls_rep_links(1) [OF assms(1)] by (auto simp: ls_assign_def ls_elems_def)
qed

end
