(* ===== verification/List_Static_Refines.thy ===== *)
theory List_Static_Refines
  imports List_Static_Loops
begin

text \<open>
  The list of \<open>List_Static\<close> as an implementation of lists of bounded length: operations as data,
  what they do to a list, and that the code does the same in every sequence of them.
\<close>

section \<open>Sequences of operations\<close>

datatype 'a list_op =
    Push_back 'a | Push_front 'a | Pop_back | Pop_front | Insert nat 'a | Erase nat | Remove 'a | Unique | Clear | Assign "'a list"

text \<open>The iterator that is \<open>i\<close> steps behind \<open>it\<close>.\<close>

fun it_advance :: "'a list_nodes \<Rightarrow> nat \<Rightarrow> nat \<Rightarrow> nat option" where
  "it_advance ns it 0 = Some it"
| "it_advance ns it (Suc i) = do { it \<leftarrow> it_inc ns it; it_advance ns it i }"

definition ls_at :: "'a list_static \<Rightarrow> nat \<Rightarrow> nat option" where
  "ls_at l i = do { b \<leftarrow> ls_begin l; it_advance (ls_nodes l) b i }"

fun ls_push_all :: "'a list_static \<Rightarrow> 'a list \<Rightarrow> 'a list_static option" where
  "ls_push_all l [] = Some l"
| "ls_push_all l (x # xs) = do { (l, _) \<leftarrow> ls_push_back l x; ls_push_all l xs }"

text \<open>\<open>Assign\<close> assigns a list of the same type that was made of the given elements.\<close>

fun ls_exec :: "int \<Rightarrow> 'a \<Rightarrow> 'a list_static \<Rightarrow> 'a list_op \<Rightarrow> 'a list_static option" where
  "ls_exec n d l (Push_back x) = map_option fst (ls_push_back l x)"
| "ls_exec n d l (Push_front x) = map_option fst (ls_push_front l x)"
| "ls_exec n d l Pop_back = map_option fst (ls_pop_back l)"
| "ls_exec n d l Pop_front = map_option fst (ls_pop_front l)"
| "ls_exec n d l (Insert i x) = do { p \<leftarrow> ls_at l i; map_option fst (ls_insert l p x) }"
| "ls_exec n d l (Erase i) = do { p \<leftarrow> ls_at l i; map_option fst (ls_erase l p) }"
| "ls_exec n d l (Remove v) = ls_remove l v"
| "ls_exec n d l Unique = ls_unique l"
| "ls_exec n d l Clear = ls_clear l"
| "ls_exec n d l (Assign xs) = do { src \<leftarrow> ls_new n d; src \<leftarrow> ls_push_all src xs; ls_assign l src }"

fun ls_run :: "int \<Rightarrow> 'a \<Rightarrow> 'a list_static \<Rightarrow> 'a list_op list \<Rightarrow> 'a list_static option" where
  "ls_run n d l [] = Some l"
| "ls_run n d l (c # cs) = do { l \<leftarrow> ls_exec n d l c; ls_run n d l cs }"

text \<open>The same on lists of at most \<open>N\<close> elements. Iterators are taken within the list, and \<open>unique\<close> on a
  list without the element \<open>d\<close> of a new node.\<close>

fun list_exec :: "nat \<Rightarrow> 'a \<Rightarrow> 'a list \<Rightarrow> 'a list_op \<Rightarrow> 'a list option" where
  "list_exec N d xs (Push_back x) = Some (if length xs < N then xs @ [x] else xs)"
| "list_exec N d xs (Push_front x) = Some (if length xs < N then x # xs else xs)"
| "list_exec N d xs Pop_back = Some (butlast xs)"
| "list_exec N d xs Pop_front = Some (tl xs)"
| "list_exec N d xs (Insert i x) = (if i \<le> length xs then
     Some (if length xs < N then take i xs @ x # drop i xs else xs) else None)"
| "list_exec N d xs (Erase i) = (if i < length xs then Some (take i xs @ drop (Suc i) xs) else None)"
| "list_exec N d xs (Remove v) = Some (filter (\<lambda>x. x \<noteq> v) xs)"
| "list_exec N d xs Unique = (if d \<notin> set xs then Some (remdups_adj xs) else None)"
| "list_exec N d xs Clear = Some []"
| "list_exec N d xs (Assign ys) = Some (take N ys)"

fun list_run :: "nat \<Rightarrow> 'a \<Rightarrow> 'a list \<Rightarrow> 'a list_op list \<Rightarrow> 'a list option" where
  "list_run N d xs [] = Some xs"
| "list_run N d xs (c # cs) = do { xs \<leftarrow> list_exec N d xs c; list_run N d xs cs }"

section \<open>Every operation\<close>

lemma it_advance_rep:
  "ls_rep l (as1 @ as2) es \<Longrightarrow> i \<le> length as2 \<Longrightarrow>
    it_advance (ls_nodes l) (hd (as2 @ [ls_SIZE l])) i = Some (hd (drop i as2 @ [ls_SIZE l]))"
proof (induction i arbitrary: as1 as2)
  case (Suc i)
  then obtain p as3 where as2: "as2 = p # as3" by (cases as2) auto
  show ?case using Suc.IH [of "as1 @ [p]" as3] Suc.prems ls_rep_inc(1) [of l as1 p as3 es] by (simp add: as2)
qed simp

lemma ls_at_rep: "ls_rep l as es \<Longrightarrow> i \<le> length as \<Longrightarrow> ls_at l i = Some (hd (drop i as @ [ls_SIZE l]))"
  using it_advance_rep [of l "[]" as es i] by (simp add: ls_at_def ls_rep_links(1))

text \<open>\<open>ls_holds d N l xs\<close> from a representation.\<close>

lemma ls_holdsI: "ls_rep l as es \<Longrightarrow> ls_SIZE l = N \<Longrightarrow> el l N = d \<Longrightarrow> xs = ls_elems l as \<Longrightarrow> ls_holds d N l xs"
  by (auto simp: ls_holds_def)

lemma ls_holds_same:
  assumes "ls_rep l as es" "ls_SIZE l = N" "el l N = d" and "ls_rep l' as' es'" "ls_same l' l" and "xs = ls_elems l as'"
  shows "ls_holds d N l' xs"
proof (rule ls_holdsI [OF assms(4)])
  show "ls_SIZE l' = N" using assms(2,5) by (simp add: ls_same_def)
  show "el l' N = d" using assms(2,3) ls_repD(5) [OF assms(1)] ls_same_element [OF assms(5), of N] by simp
  have "q < length (ls_nodes l)" if "q \<in> set as'" for q
    using ls_rep_valid [OF assms(4)] that assms(5) unfolding ls_same_def by (metis Un_iff length_map set_append)
  then show "xs = ls_elems l' as'" using ls_same_element [OF assms(5)] by (simp add: assms(6) ls_elems_def)
qed

lemma ls_holds_insert:
  assumes "ls_rep l (as1 @ as2) es" "ls_SIZE l = N" "el l N = d" and "p = hd (as2 @ [N])"
  shows "\<exists>l' ok. ls_insert l p x = Some (l', ok) \<and>
    ls_holds d N l' (if length (as1 @ as2) < N then ls_elems l as1 @ x # ls_elems l as2 else ls_elems l (as1 @ as2))"
proof (cases es)
  case Nil
  then show ?thesis using ls_insert_full [of l "as1 @ as2"] assms ls_repD(6) [OF assms(1)] by (auto intro: ls_holdsI)
next
  case (Cons e es')
  obtain l' where "ls_insert l p x = Some (l', True)" "ls_rep l' (as1 @ e # as2) es'" "ls_SIZE l' = N"
      "ls_elems l' (as1 @ e # as2) = ls_elems l as1 @ x # ls_elems l as2" "el l' N = d"
    using ls_insert_elems [of l as1 as2 e es' p x] assms Cons by auto
  then show ?thesis using ls_repD(6) [OF assms(1)] Cons assms(2) by (auto intro!: ls_holdsI)
qed

lemma ls_elems_append: "ls_elems l (as @ bs) = ls_elems l as @ ls_elems l bs" "length (ls_elems l as) = length as"
  "take i (ls_elems l as) = ls_elems l (take i as)" "drop i (ls_elems l as) = ls_elems l (drop i as)"
  "ls_elems l (p # as) = el l p # ls_elems l as" "ls_elems l [] = []"
  by (simp_all add: ls_elems_def take_map drop_map)

lemma ls_holds_erase:
  assumes "ls_rep l (as1 @ p # as2) es" "ls_SIZE l = N" "el l N = d"
  shows "\<exists>l' q. ls_erase l p = Some (l', q) \<and> ls_holds d N l' (ls_elems l (as1 @ as2))"
proof -
  obtain l' where "ls_erase l p = Some (l', Some p)" "ls_rep l' (as1 @ as2) (p # es)" "ls_same l' l"
    using ls_erase_same [OF assms(1)] by blast
  then show ?thesis using ls_holds_same [OF assms, of l' "as1 @ as2"] by blast
qed

lemma ls_new_holds: "\<exists>l. ls_new n d = Some l \<and> ls_holds d (list_SIZE n) l []"
proof -
  obtain l where l: "ls_new n d = Some l" "ls_rep l [] [0..<list_SIZE n]" "ls_SIZE l = list_SIZE n"
      "map ln_element (ls_nodes l) = replicate (list_SIZE n + 2) d"
    using ls_new_rep [of n d] by (elim exE conjE) (rule that)
  have "map ln_element (ls_nodes l) ! list_SIZE n = d" unfolding l(4) by (rule nth_replicate) simp
  moreover have "list_SIZE n < length (ls_nodes l)" using ls_repD(5) [OF l(2)] l(3) by simp
  ultimately have "el l (list_SIZE n) = d" by (metis nth_map)
  then show ?thesis using l(1-3) by (auto intro!: ls_holdsI simp: ls_elems_def)
qed

lemma ls_push_back_holds:
  assumes "ls_holds d N l xs"
  shows "\<exists>l' ok. ls_push_back l x = Some (l', ok) \<and> ls_holds d N l' (if length xs < N then xs @ [x] else xs)"
proof -
  from assms obtain as es where rep: "ls_rep l as es" "ls_SIZE l = N" "el l N = d" and xs: "xs = ls_elems l as"
    by (auto simp: ls_holds_def)
  show ?thesis using ls_holds_insert [of l as "[]" es N d N x] rep
    by (auto simp: ls_push_back_def ls_end_def xs ls_elems_append split: if_splits)
qed

lemma ls_push_all_holds:
  "ls_holds d N l xs \<Longrightarrow> \<exists>l'. ls_push_all l ys = Some l' \<and> ls_holds d N l' (xs @ take (N - length xs) ys)"
proof (induction ys arbitrary: l xs)
  case (Cons y ys)
  obtain l1 ok where l1: "ls_push_back l y = Some (l1, ok)" "ls_holds d N l1 (if length xs < N then xs @ [y] else xs)"
    using ls_push_back_holds [OF Cons.prems] by blast
  show ?case using Cons.IH [OF l1(2)] l1(1) ls_holds_length [OF Cons.prems]
    by (auto simp: take_Cons' Suc_diff_Suc split: if_splits)
qed auto

lemma ls_exec_holds:
  assumes l: "ls_holds d (list_SIZE n) l xs" and spec: "list_exec (list_SIZE n) d xs c = Some xs'"
  shows "\<exists>l'. ls_exec n d l c = Some l' \<and> ls_holds d (list_SIZE n) l' xs'"
proof -
  let ?N = "list_SIZE n"
  from l obtain as es where rep: "ls_rep l as es" "ls_SIZE l = ?N" "el l ?N = d" and xs: "xs = ls_elems l as"
    by (auto simp: ls_holds_def)
  note links = ls_rep_links [OF rep(1)]
  have d: "el l (ls_SIZE l) = d" using rep(2,3) by simp
  show ?thesis
  proof (cases c)
    case (Push_back x)
    then show ?thesis using ls_push_back_holds [OF l, of x] spec by auto
  next
    case (Push_front x)
    then show ?thesis using ls_holds_insert [of l "[]" as es ?N d _ x] rep links(1) spec
      by (auto simp: ls_push_front_def xs ls_elems_append)
  next
    case Pop_back
    show ?thesis
    proof (cases as rule: rev_cases)
      case Nil
      then show ?thesis using l ls_erase_empty [of l es] rep(1) links(2) spec Pop_back
        by (auto simp: ls_pop_back_def ls_end_def xs ls_elems_append)
    next
      case (snoc as1 p)
      then show ?thesis using ls_holds_erase [of l as1 p "[]" es ?N d] rep links(2) spec Pop_back
        by (auto simp: ls_pop_back_def ls_end_def xs ls_elems_append)
    qed
  next
    case Pop_front
    show ?thesis
    proof (cases as)
      case Nil
      then show ?thesis using l ls_erase_empty [of l es] rep(1) links(1) spec Pop_front
        by (auto simp: ls_pop_front_def xs ls_elems_append)
    next
      case (Cons p as2)
      then show ?thesis using ls_holds_erase [of l "[]" p as2 es ?N d] rep links(1) spec Pop_front
        by (auto simp: ls_pop_front_def xs ls_elems_append)
    qed
  next
    case (Insert i x)
    then have i: "i \<le> length as" using spec by (auto simp: xs ls_elems_append split: if_splits)
    then show ?thesis using ls_holds_insert [of l "take i as" "drop i as" es ?N d _ x] rep spec Insert ls_at_rep [OF rep(1) i]
      by (auto simp: xs ls_elems_append append_take_drop_id split: if_splits)
  next
    case (Erase i)
    then have i: "i < length as" using spec by (auto simp: xs ls_elems_append split: if_splits)
    then have "as = take i as @ as ! i # drop (Suc i) as" by (rule id_take_nth_drop)
    then show ?thesis using ls_holds_erase [of l "take i as" "as ! i" "drop (Suc i) as" es ?N d] rep spec Erase i
        ls_at_rep [OF rep(1), of i]
      by (auto simp: xs ls_elems_append hd_append hd_drop_conv_nth split: if_splits)
  next
    case (Remove v)
    obtain l' es' where l': "ls_remove l v = Some l'" "ls_rep l' (filter (\<lambda>q. el l q \<noteq> v) as) es'" "ls_same l' l"
      using ls_remove_rep [OF rep(1)] by blast
    have "ls_elems l (filter (\<lambda>q. el l q \<noteq> v) as) = filter (\<lambda>x. x \<noteq> v) xs" by (simp add: xs ls_elems_def filter_map comp_def)
    then show ?thesis using ls_holds_same [OF rep l'(2,3)] l'(1) spec Remove by auto
  next
    case Unique
    have "d \<notin> set xs" using spec Unique by (auto split: if_splits)
    then have "\<forall>q \<in> set as. el l q \<noteq> el l (ls_SIZE l)" unfolding d by (metis xs ls_elems_def image_eqI list.set_map)
    from ls_unique_rep [OF rep(1) this] obtain l' as' es' where l': "ls_unique l = Some l'" "ls_rep l' as' es'" "ls_same l' l"
        "map (\<lambda>q. el l q) as' = remdups_adj (map (\<lambda>q. el l q) as)" by blast
    then show ?thesis using ls_holds_same [OF rep l'(2,3)] spec Unique by (auto simp: xs ls_elems_def split: if_splits)
  next
    case Clear
    show ?thesis
    proof (cases as)
      case Nil
      then show ?thesis using l ls_rep_empty [OF rep(1)] spec Clear by (auto simp: ls_clear_def xs ls_elems_append)
    next
      case (Cons a rest)
      then obtain l' where l': "ls_clear l = Some l'" "ls_rep l' [] (es @ rest @ [a])" "ls_same l' l"
        using ls_clear_rep [of l a rest es] rep(1) by (auto simp: ls_same_def)
      then show ?thesis using ls_holds_same [OF rep l'(2,3)] spec Clear by (auto simp: ls_elems_append)
    qed
  next
    case (Assign ys)
    obtain src0 where src0: "ls_new n d = Some src0" "ls_holds d ?N src0 []" using ls_new_holds [of n d] by (elim exE conjE) (rule that)
    obtain src where src: "ls_push_all src0 ys = Some src" "ls_holds d ?N src (take ?N ys)"
      using ls_push_all_holds [OF src0(2), of ys] by auto
    obtain bs fs where bs: "ls_rep src bs fs" "take ?N ys = ls_elems src bs" using src(2) by (auto simp: ls_holds_def)
    obtain l' as' es' where "ls_assign l src = Some l'" "ls_rep l' as' es'" "ls_SIZE l' = ls_SIZE l"
        "ls_elems l' as' = take (ls_SIZE l) (ls_elems src bs)" "el l' (ls_SIZE l) = el l (ls_SIZE l)"
      using ls_assign_rep [OF bs(1) rep(1)] by blast
    then show ?thesis using src0(1) src(1) rep(2) d spec Assign by (auto intro!: ls_holdsI simp flip: bs(2))
  qed
qed

lemma ls_run_holds:
  "ls_holds d (list_SIZE n) l xs \<Longrightarrow> list_run (list_SIZE n) d xs cs = Some xs' \<Longrightarrow>
    \<exists>l'. ls_run n d l cs = Some l' \<and> ls_holds d (list_SIZE n) l' xs'"
proof (induction cs arbitrary: l xs)
  case (Cons c cs)
  then obtain ys where ys: "list_exec (list_SIZE n) d xs c = Some ys" "list_run (list_SIZE n) d ys cs = Some xs'"
    by (auto simp: bind_eq_Some_conv)
  then show ?case using ls_exec_holds [OF Cons.prems(1) ys(1)] Cons.IH by force
qed simp

section \<open>The properties\<close>

text \<open>C34: A new list after any sequence of insertions, removals, clearings and assignments holds what
  the same operations make of a list of bounded length: a full list ignores insertions, \<open>remove\<close> is
  a filter, \<open>unique\<close> removes repetitions; size, emptiness, front, back and the elements under its
  iterators are those of that list.\<close>

theorem list_static_refines:
  assumes "list_run (list_SIZE n) d [] cs = Some xs"
  shows "\<exists>l l'. ls_new n d = Some l \<and> ls_run n d l cs = Some l' \<and> ls_size l' = Some (int (length xs)) \<and>
    ls_full l' = Some (length xs = list_SIZE n) \<and> ls_empty l' = Some (xs = []) \<and>
    ls_at l' (length xs) = Some (ls_end l') \<and> (\<forall>i < length xs. \<exists>p. ls_at l' i = Some p \<and> it_deref (ls_nodes l') p = Some (xs ! i)) \<and>
    (if xs = [] then True else ls_front l' = Some (hd xs) \<and> ls_back l' = Some (last xs))"
proof -
  obtain l where l: "ls_new n d = Some l" "ls_holds d (list_SIZE n) l []" using ls_new_holds [of n d] by (elim exE conjE) (rule that)
  obtain l' where l': "ls_run n d l cs = Some l'" "ls_holds d (list_SIZE n) l' xs" using ls_run_holds [OF l(2) assms] by blast
  then obtain as es where rep: "ls_rep l' as es" "ls_SIZE l' = list_SIZE n" and xs: "xs = ls_elems l' as"
    by (auto simp: ls_holds_def)
  have "\<exists>p. ls_at l' i = Some p \<and> it_deref (ls_nodes l') p = Some (xs ! i)" if i: "i < length xs" for i
  proof -
    have "as = take i as @ as ! i # drop (Suc i) as" using i by (intro id_take_nth_drop) (simp add: xs ls_elems_append)
    then have "it_deref (ls_nodes l') (as ! i) = Some (el l' (as ! i))" using ls_rep_inc(3) [of l' "take i as" "as ! i"] rep(1) by metis
    then show ?thesis using i ls_at_rep [OF rep(1), of i] by (simp add: xs ls_elems_def hd_append hd_drop_conv_nth)
  qed
  moreover have "ls_front l' = Some (hd xs) \<and> ls_back l' = Some (last xs)" if "xs \<noteq> []"
  proof -
    have "as \<noteq> []" using that by (auto simp: xs ls_elems_def)
    then have "as = hd as # tl as" "as = butlast as @ [last as]" by simp_all
    then have "ls_front l' = Some (el l' (hd as))" "ls_back l' = Some (el l' (last as))"
      using ls_front_rep [of l' "hd as" "tl as"] ls_back_rep [of l' "butlast as" "last as"] rep(1) by metis+
    then show ?thesis using \<open>as \<noteq> []\<close> by (simp add: xs ls_elems_def hd_map last_map)
  qed
  ultimately show ?thesis
    using l(1) l'(1) ls_size_rep [OF rep(1)] ls_full_rep [OF rep(1)] ls_rep_empty [OF rep(1)] ls_at_rep [OF rep(1), of "length as"]
      ls_repD(6) [OF rep(1)] rep(2)
    by (intro exI [of _ l] exI [of _ l']) (auto simp: xs ls_elems_append ls_end_def ls_elems_def)
qed

lemma list_static_refines_witness:
  "\<exists>l l'. ls_new 3 (0 :: nat) = Some l \<and>
    ls_run 3 0 l [Push_back 1, Push_back 2, Push_front 4, Push_back 5, Remove 4, Insert 1 2, Unique] = Some l' \<and> ls_size l' = Some 2 \<and>
    ls_front l' = Some 1 \<and> ls_back l' = Some 2"
proof -
  have "list_run (list_SIZE 3) (0 :: nat) [] [Push_back 1, Push_back 2, Push_front 4, Push_back 5, Remove 4, Insert 1 2, Unique] = Some [1, 2]"
    by (simp add: list_SIZE_def)
  from list_static_refines [OF this] show ?thesis by auto
qed

text \<open>What goes wrong on every list: \<open>reverse\<close> reverses each node twice and changes nothing. Erasing
  from the first element to the end erases only the first as long as there is a free node, and of a full
  list of two or more elements it never returns: the loop comes to the node of the free ones and stays
  there. Inserting a range in front of the first element puts its elements in between the old ones.\<close>

theorem list_static_ranges:
  assumes "ls_holds d N l xs"
  shows "ls_reverse l = Some l \<and>
    (xs \<noteq> [] \<and> length xs < N \<longrightarrow> (\<exists>b l'. ls_begin l = Some b \<and> ls_erase_range l b (ls_end l) = Some l' \<and> ls_holds d N l' (tl xs))) \<and>
    (2 \<le> length xs \<and> length xs = N \<longrightarrow> (\<exists>b l1 l2 q. ls_begin l = Some b \<and> ls_erase_range l b (ls_end l) = None \<and>
       ls_erase l b = Some (l1, Some b) \<and> it_inc (ls_nodes l1) b = Some q \<and> q \<noteq> b \<and> q \<noteq> ls_end l \<and>
       ls_erase l1 q = Some (l2, Some q) \<and> it_inc (ls_nodes l2) q = Some q \<and> ls_stuck l2 q)) \<and>
    (\<forall>ys. length ys \<le> length xs \<and> length xs + length ys \<le> N \<longrightarrow>
       (\<exists>b l' as es. ls_begin l = Some b \<and> ls_insert_range l b ys = Some (l', True) \<and> ls_rep l' as es \<and> ls_elems l' as = interleave ys xs))"
proof -
  from assms obtain as es where rep: "ls_rep l as es" "ls_SIZE l = N" "el l N = d" and xs: "xs = ls_elems l as"
    by (auto simp: ls_holds_def)
  note first = ls_rep_links(1) [OF rep(1)] and len = ls_repD(6) [OF rep(1)]
  have "\<exists>b l'. ls_begin l = Some b \<and> ls_erase_range l b (ls_end l) = Some l' \<and> ls_holds d N l' (tl xs)" if ne: "xs \<noteq> []" "length xs < N"
  proof -
    obtain p as2 where as: "as = p # as2" using ne(1) by (cases as) (auto simp: xs ls_elems_append)
    obtain e es2 where es: "es = e # es2" using ne(2) len rep(2) by (cases es) (auto simp: xs ls_elems_append)
    obtain l' es' where "ls_erase_range l p (ls_end l) = Some l'" "ls_rep l' as2 es'" "ls_same l' l"
      using ls_erase_range_first [of l "[]" p as2 e es2 "ls_end l"] rep(1) as es by auto
    then show ?thesis using ls_holds_same [OF rep, of l' as2 es' "tl xs"] first as by (auto simp: xs ls_elems_append)
  qed
  moreover have "\<exists>b l1 l2 q. ls_begin l = Some b \<and> ls_erase_range l b (ls_end l) = None \<and>
       ls_erase l b = Some (l1, Some b) \<and> it_inc (ls_nodes l1) b = Some q \<and> q \<noteq> b \<and> q \<noteq> ls_end l \<and>
       ls_erase l1 q = Some (l2, Some q) \<and> it_inc (ls_nodes l2) q = Some q \<and> ls_stuck l2 q" if ne: "2 \<le> length xs" "length xs = N"
  proof -
    obtain p q as2 where as: "as = p # q # as2" using ne(1) by (cases as; cases "tl as") (auto simp: xs ls_elems_append)
    have "es = []" using ne(2) len rep(2) by (simp add: xs ls_elems_append)
    then show ?thesis using ls_erase_range_full [of l "[]" p "q # as2" "ls_end l"] rep(1) first as by auto
  qed
  moreover have "\<exists>b l' as' es'. ls_begin l = Some b \<and> ls_insert_range l b ys = Some (l', True) \<and> ls_rep l' as' es' \<and>
      ls_elems l' as' = interleave ys xs" if "length ys \<le> length xs" "length xs + length ys \<le> N" for ys
    using ls_insert_range_interleaves [of l "[]" as es ys] that first rep(1,2) len by (auto simp: xs ls_elems_append)
  ultimately show ?thesis using ls_reverse_rep [OF rep(1)] by simp
qed

lemma list_static_ranges_witness:
  "\<exists>l l' b. ls_new 2 (0 :: nat) = Some l \<and> ls_run 2 0 l [Push_back 1, Push_back 2] = Some l' \<and> ls_reverse l' = Some l' \<and>
    ls_begin l' = Some b \<and> ls_erase_range l' b (ls_end l') = None"
proof -
  obtain l where l: "ls_new 2 (0 :: nat) = Some l" "ls_holds 0 (list_SIZE 2) l []"
    using ls_new_holds [of 2 0] by (elim exE conjE) (rule that)
  have spec: "list_run (list_SIZE 2) (0 :: nat) [] [Push_back 1, Push_back 2] = Some [1, 2]" by (simp add: list_SIZE_def)
  obtain l' where l': "ls_run 2 0 l [Push_back 1, Push_back 2] = Some l'" "ls_holds 0 (list_SIZE 2) l' [1, 2]"
    using ls_run_holds [OF l(2) spec] by blast
  show ?thesis using list_static_ranges [OF l'(2)] l(1) l'(1) by (auto simp: list_SIZE_def)
qed

end
