(* ===== verification/Avl_Tree.thy ===== *)
theory Avl_Tree
  imports Wl_Prelude
begin

text \<open>
  \<^verbatim>\<open>wiselib.testing/util/pstl/avl_tree.h\<close>: the search tree with balance fields. Nodes live in a heap, a
  pointer is an address and 0 the null pointer; an access to an address that holds no node is
  \<^const>\<open>None\<close>, as is a recursion that does not return. The comparator, with the argument the client
  passes on, is the parameter \<open>cmp\<close>; the address that the allocator returns for a new node is the
  parameter \<open>new\<close>. A path, the state of an iterator, is a list with the back of the code's list first.
  \<^verbatim>\<open>assert\<close> is the empty macro of the file; the \<open>check_\<close> operations are those of \<^verbatim>\<open>AVLTREE_CHECK\<close>, where a
  failed assertion is \<^const>\<open>None\<close>.
\<close>

section \<open>Node\<close>

datatype side = LEFT | RIGHT

fun other :: "side \<Rightarrow> side" where
  "other LEFT = RIGHT"
| "other RIGHT = LEFT"

fun sign_of :: "side \<Rightarrow> int" where
  "sign_of LEFT = - 1"
| "sign_of RIGHT = 1"

record 'v avl_node =
  an_data :: 'v
  an_childs :: "side \<Rightarrow> nat"
  an_balance :: int

text \<open>\<open>balance_\<close> is a signed char.\<close>

definition node_init :: "'v \<Rightarrow> 'v avl_node" where
  "node_init d = \<lparr>an_data = d, an_childs = (\<lambda>_. 0), an_balance = 0\<rparr>"

definition node_side :: "'v avl_node \<Rightarrow> nat \<Rightarrow> side" where
  "node_side n c = (if an_childs n LEFT = c then LEFT else RIGHT)"

definition is_leaf :: "'v avl_node \<Rightarrow> bool" where
  "is_leaf n = (\<not> (an_childs n LEFT \<noteq> 0 \<or> an_childs n RIGHT \<noteq> 0))"

definition add_balance :: "int \<Rightarrow> 'v avl_node \<Rightarrow> 'v avl_node" where
  "add_balance i n = n\<lparr>an_balance := schar (an_balance n + i)\<rparr>"

definition put_child :: "side \<Rightarrow> nat \<Rightarrow> 'v avl_node \<Rightarrow> 'v avl_node" where
  "put_child i c n = n\<lparr>an_childs := (an_childs n)(i := c)\<rparr>"

definition set_child :: "side \<Rightarrow> nat \<Rightarrow> 'v avl_node \<Rightarrow> 'v avl_node" where
  "set_child i c n = put_child i c
     (if an_childs n i = 0 \<and> c \<noteq> 0 then add_balance (if i = LEFT then - 1 else 1) n
      else if an_childs n i \<noteq> 0 \<and> c = 0 then add_balance (if i = LEFT then 1 else - 1) n
      else n)"

definition remove_child :: "nat \<Rightarrow> 'v avl_node \<Rightarrow> 'v avl_node" where
  "remove_child c n =
     (if c = an_childs n LEFT then set_child LEFT 0 n
      else if c = an_childs n RIGHT then set_child RIGHT 0 n else n)"

definition heavy_side :: "'v avl_node \<Rightarrow> side" where
  "heavy_side n = (if an_balance n < 0 then LEFT else RIGHT)"

definition imbalanced :: "'v avl_node \<Rightarrow> bool" where
  "imbalanced n = (an_balance n \<ge> 2 \<or> an_balance n \<le> - 2)"

definition node_childs :: "'v avl_node \<Rightarrow> nat" where
  "node_childs n =
     (if an_childs n LEFT \<noteq> 0 then 1 else 0) + (if an_childs n RIGHT \<noteq> 0 then 1 else 0)"

section \<open>The heap\<close>

type_synonym 'v avl_heap = "nat \<Rightarrow> 'v avl_node option"

definition deref :: "'v avl_heap \<Rightarrow> nat \<Rightarrow> 'v avl_node option" where
  "deref h p = (if p = 0 then None else h p)"

definition modify :: "'v avl_heap \<Rightarrow> nat \<Rightarrow> ('v avl_node \<Rightarrow> 'v avl_node) \<Rightarrow> 'v avl_heap option" where
  "modify h p f = do { n \<leftarrow> deref h p; Some (h(p \<mapsto> f n)) }"

section \<open>rotate and rebalance\<close>

text \<open>The change of height, from the balances of both nodes before and after.\<close>

definition rotate_hc :: "side \<Rightarrow> int \<Rightarrow> int \<Rightarrow> int \<Rightarrow> int \<Rightarrow> int" where
  "rotate_hc dir bal_a bal_b bal_a2 bal_b2 =
     (let s = (if dir = RIGHT then - 1 else 1);
          z = s * bal_b2 < 0; x = s * bal_a2 < 0; w = s * bal_a < 0; y = s * bal_b < 0
      in if \<not> z \<and> \<not> w \<and> \<not> y then - 1
         else if \<not> z \<and> \<not> w \<and> y then s * bal_b - 1
         else if \<not> z \<and> w then s * (bal_a2 + bal_b)
         else if z \<and> \<not> x \<and> \<not> w \<and> \<not> y then - s * bal_b
         else if z \<and> \<not> x \<and> \<not> w \<and> y then 0
         else if z \<and> \<not> x \<and> w then 1 + s * bal_a2
         else if z \<and> x \<and> \<not> w \<and> \<not> y then - s * (bal_a2 + bal_b)
         else if z \<and> x \<and> \<not> w \<and> y then - s * bal_a2
         else if z \<and> x \<and> w then 1
         else 0)"

text \<open>\<open>rotate\<close> returns the heap, the node on top and the parameter \<open>height\<close> it changes.\<close>

definition avl_rotate :: "'v avl_heap \<Rightarrow> nat \<Rightarrow> side \<Rightarrow> int \<Rightarrow> ('v avl_heap \<times> nat \<times> int) option" where
  "avl_rotate h a dir height = do {
     na \<leftarrow> deref h a;
     let b = an_childs na (other dir);
     nb \<leftarrow> deref h b;
     let bal_a = an_balance na;
     let bal_b = an_balance nb;
     h \<leftarrow> modify h a (put_child (other dir) (an_childs nb dir));
     h \<leftarrow> modify h b (put_child dir a);
     nb \<leftarrow> deref h b;
     h \<leftarrow> modify h a (add_balance
            (if dir = LEFT then - 1 - (if an_balance nb \<le> 0 then 0 else an_balance nb)
             else 1 - (if an_balance nb \<ge> 0 then 0 else an_balance nb)));
     na \<leftarrow> deref h a;
     h \<leftarrow> modify h b (add_balance
            (if dir = LEFT then - 1 + (if an_balance na \<ge> 0 then 0 else an_balance na)
             else 1 + (if an_balance na \<le> 0 then 0 else an_balance na)));
     na \<leftarrow> deref h a;
     nb \<leftarrow> deref h b;
     Some (h, b, height + rotate_hc dir bal_a bal_b (an_balance na) (an_balance nb)) }"

definition avl_rebalance :: "'v avl_heap \<Rightarrow> nat \<Rightarrow> int \<Rightarrow> ('v avl_heap \<times> nat \<times> int) option" where
  "avl_rebalance h node height = do {
     n \<leftarrow> deref h node;
     let s = heavy_side n;
     let c = an_childs n s;
     double \<leftarrow> (if c \<noteq> 0 then do {
         k \<leftarrow> deref h c;
         Some (\<not> is_leaf k \<and> an_childs k (other s) \<noteq> 0 \<and> heavy_side k = other s) }
       else Some False);
     (h, height) \<leftarrow> (if double then do {
         (h, x, d) \<leftarrow> avl_rotate h c s 0;
         h \<leftarrow> modify h node (put_child s x);
         h \<leftarrow> (if d \<noteq> 0 then modify h node (add_balance ((if s = RIGHT then 1 else - 1) * d))
                else Some h);
         Some (h, height + d) }
       else Some (h, height));
     avl_rotate h node (other s) height }"

section \<open>insert\<close>

record 'v avl_tree =
  at_heap :: "'v avl_heap"
  at_root :: nat
  at_size :: nat

text \<open>
  The private \<open>insert\<close> returns heap and size, the reference parameters \<open>base\<close> and \<open>height_change\<close> as
  it leaves them, and the node that holds the data.
\<close>

partial_function (option) avl_insert ::
    "('v \<Rightarrow> 'v \<Rightarrow> int) \<Rightarrow> nat \<Rightarrow> 'v \<Rightarrow> 'v avl_heap \<Rightarrow> nat \<Rightarrow> nat \<Rightarrow>
     ('v avl_heap \<times> nat \<times> nat \<times> int \<times> nat) option" where
  "avl_insert cmp new data h sz base = do {
     nb \<leftarrow> deref h base;
     if cmp (an_data nb) data = 0 then Some (h, sz, base, 0, base)
     else do {
       side \<leftarrow> Some (if cmp (an_data nb) data > 0 then LEFT else RIGHT);
       if an_childs nb side \<noteq> 0 then do {
         (h, sz, child, height_change, r) \<leftarrow> avl_insert cmp new data h sz (an_childs nb side);
         h \<leftarrow> modify h base (set_child side child);
         h \<leftarrow> modify h base (add_balance (if side = RIGHT then height_change else - height_change));
         nb \<leftarrow> deref h base;
         (h, base, height_change) \<leftarrow> (if imbalanced nb then do {
             (h, base, _) \<leftarrow> avl_rebalance h base 0;
             Some (h, base, 0) }
           else Some (h, base, height_change));
         nb \<leftarrow> deref h base;
         Some (h, sz, base, if height_change = 1 \<and> an_balance nb \<noteq> 0 then 1 else 0, r) }
       else do {
         h \<leftarrow> Some (h(new \<mapsto> node_init data));
         h \<leftarrow> modify h base (set_child side new);
         nb \<leftarrow> deref h base;
         Some (h, sz + 1, base, if an_balance nb \<noteq> 0 then 1 else 0, new) } } }"

definition avl_init :: "'v avl_heap \<Rightarrow> 'v avl_tree" where
  "avl_init h = \<lparr>at_heap = h, at_root = 0, at_size = 0\<rparr>"

definition avl_insert_n ::
    "('v \<Rightarrow> 'v \<Rightarrow> int) \<Rightarrow> nat \<Rightarrow> 'v \<Rightarrow> 'v avl_tree \<Rightarrow> ('v avl_tree \<times> nat) option" where
  "avl_insert_n cmp new data t =
     (if at_root t = 0 then
        Some (t\<lparr>at_heap := (at_heap t)(new \<mapsto> node_init data), at_root := new,
                at_size := at_size t + 1\<rparr>, new)
      else do {
        (h, sz, root, _, r) \<leftarrow> avl_insert cmp new data (at_heap t) (at_size t) (at_root t);
        Some (t\<lparr>at_heap := h, at_root := root, at_size := sz\<rparr>, r) })"

section \<open>find and the iterator\<close>

partial_function (option) avl_find_path ::
    "('v \<Rightarrow> 'v \<Rightarrow> int) \<Rightarrow> 'v avl_heap \<Rightarrow> 'v \<Rightarrow> nat \<Rightarrow> nat list \<Rightarrow> nat list option" where
  "avl_find_path cmp h data r path =
     (if r \<noteq> 0 then do {
        n \<leftarrow> deref h r;
        if cmp (an_data n) data > 0 \<and> an_childs n LEFT \<noteq> 0
        then avl_find_path cmp h data (an_childs n LEFT) (r # path)
        else if cmp (an_data n) data < 0 \<and> an_childs n RIGHT \<noteq> 0
        then avl_find_path cmp h data (an_childs n RIGHT) (r # path)
        else Some (r # path) }
      else Some path)"

definition avl_find :: "('v \<Rightarrow> 'v \<Rightarrow> int) \<Rightarrow> 'v avl_tree \<Rightarrow> 'v \<Rightarrow> nat list option" where
  "avl_find cmp t data = do {
     path \<leftarrow> avl_find_path cmp (at_heap t) data (at_root t) [];
     case path of [] \<Rightarrow> Some []
     | p # _ \<Rightarrow> do {
         n \<leftarrow> deref (at_heap t) p;
         Some (if cmp (an_data n) data = 0 then path else []) } }"

fun it_node :: "nat list \<Rightarrow> nat" where
  "it_node [] = 0"
| "it_node (p # _) = p"

fun it_equal :: "nat list \<Rightarrow> nat list \<Rightarrow> bool" where
  "it_equal [] [] = True"
| "it_equal (p # _) (q # _) = (p = q)"
| "it_equal _ _ = False"

definition avl_find_n :: "('v \<Rightarrow> 'v \<Rightarrow> int) \<Rightarrow> 'v avl_tree \<Rightarrow> 'v \<Rightarrow> nat option" where
  "avl_find_n cmp t data = do {
     it \<leftarrow> avl_find cmp t data;
     Some (if it_equal it [] then 0 else it_node it) }"

definition avl_count :: "('v \<Rightarrow> 'v \<Rightarrow> int) \<Rightarrow> 'v avl_tree \<Rightarrow> 'v \<Rightarrow> nat option" where
  "avl_count cmp t data = do {
     it \<leftarrow> avl_find cmp t data;
     Some (if it_equal it [] then 0 else 1) }"

partial_function (option) it_begin_loop :: "'v avl_heap \<Rightarrow> nat \<Rightarrow> nat list \<Rightarrow> nat list option" where
  "it_begin_loop h pos path =
     (if pos \<noteq> 0 then do {
        n \<leftarrow> deref h pos;
        if an_childs n LEFT \<noteq> 0 then it_begin_loop h (an_childs n LEFT) (pos # path)
        else Some (pos # path) }
      else Some path)"

definition avl_begin :: "'v avl_tree \<Rightarrow> nat list option" where
  "avl_begin t = it_begin_loop (at_heap t) (at_root t) []"

text \<open>The two loops of \<open>operator++\<close>.\<close>

partial_function (option) it_down :: "'v avl_heap \<Rightarrow> nat \<Rightarrow> nat list \<Rightarrow> nat list option" where
  "it_down h pos path = do {
     n \<leftarrow> deref h pos;
     if an_childs n LEFT \<noteq> 0 then it_down h (an_childs n LEFT) (an_childs n LEFT # path)
     else Some path }"

fun it_up :: "'v avl_heap \<Rightarrow> nat \<Rightarrow> nat list \<Rightarrow> nat list option" where
  "it_up h pos [] = Some []"
| "it_up h pos (p # path) = do {
     n \<leftarrow> deref h p;
     if pos \<noteq> an_childs n LEFT then it_up h p path else Some (p # path) }"

fun it_next :: "'v avl_heap \<Rightarrow> nat list \<Rightarrow> nat list option" where
  "it_next h [] = Some []"
| "it_next h (pos # path) = do {
     n \<leftarrow> deref h pos;
     if an_childs n RIGHT \<noteq> 0 then it_down h (an_childs n RIGHT) (an_childs n RIGHT # pos # path)
     else it_up h pos path }"

text \<open>What a client reads from \<open>begin()\<close> to \<open>end()\<close>.\<close>

partial_function (option) it_values :: "'v avl_heap \<Rightarrow> nat list \<Rightarrow> 'v list option" where
  "it_values h it =
     (if it_equal it [] then Some []
      else do {
        n \<leftarrow> deref h (it_node it);
        it \<leftarrow> it_next h it;
        vs \<leftarrow> it_values h it;
        Some (an_data n # vs) })"

definition avl_values :: "'v avl_tree \<Rightarrow> 'v list option" where
  "avl_values t = do { it \<leftarrow> avl_begin t; it_values (at_heap t) it }"

section \<open>erase\<close>

definition up_hc :: "side \<Rightarrow> int \<Rightarrow> int \<Rightarrow> int" where
  "up_hc s balance hc =
     (if sign_of s = sgn balance then (if hc < - abs balance then - abs balance else hc)
      else if hc \<ge> abs balance then hc - abs balance else 0)"

text \<open>
  The loop of \<open>rebalance_up\<close> returns the heap, \<open>root_\<close>, \<open>new_subtree_root\<close> and \<open>hc\<close>.
\<close>

fun rebalance_up_loop ::
    "'v avl_heap \<Rightarrow> nat \<Rightarrow> bool \<Rightarrow> nat \<Rightarrow> nat list \<Rightarrow> side \<Rightarrow> int \<Rightarrow>
     ('v avl_heap \<times> nat \<times> nat \<times> int) option" where
  "rebalance_up_loop h root rooted new_root [] s hc = Some (h, root, new_root, hc)"
| "rebalance_up_loop h root rooted new_root (n # path) s hc = do {
     m \<leftarrow> deref h n;
     let old_hc = hc;
     let hc = up_hc s (an_balance m) hc;
     h \<leftarrow> modify h n (add_balance (sign_of s * old_hc));
     m \<leftarrow> deref h n;
     case path of
       parent # _ \<Rightarrow> do {
         mp \<leftarrow> deref h parent;
         let s = node_side mp n;
         (h, n, hc) \<leftarrow> (if imbalanced m then do {
             (h, n, d) \<leftarrow> avl_rebalance h n 0;
             Some (h, n, hc + d) }
           else Some (h, n, hc));
         h \<leftarrow> modify h parent (set_child s n);
         rebalance_up_loop h root rooted new_root path s hc }
     | [] \<Rightarrow>
         if imbalanced m then do {
           (h, r, d) \<leftarrow> avl_rebalance h n 0;
           Some (h, if rooted then r else root, r, hc + d) }
         else Some (h, root, new_root, hc) }"

definition rebalance_up ::
    "'v avl_heap \<Rightarrow> nat \<Rightarrow> nat list \<Rightarrow> side \<Rightarrow> int \<Rightarrow> ('v avl_heap \<times> nat \<times> nat \<times> int) option" where
  "rebalance_up h root path s height_change =
     (if path = [] then None
      else rebalance_up_loop h root (last path = root) (last path) path s height_change)"

partial_function (option) leftmost_leaf :: "'v avl_heap \<Rightarrow> nat \<Rightarrow> nat list \<Rightarrow> nat list option" where
  "leftmost_leaf h n path =
     (if n \<noteq> 0 then do { m \<leftarrow> deref h n; leftmost_leaf h (an_childs m LEFT) (n # path) }
      else Some path)"

text \<open>
  \<open>unlink\<close> returns the heap, \<open>root_\<close>, the unlinked node and the reference parameters \<open>base\<close>, which every
  branch assigns, and \<open>height_change\<close>.
\<close>

partial_function (option) avl_unlink ::
    "'v avl_heap \<Rightarrow> nat \<Rightarrow> nat list \<Rightarrow> int \<Rightarrow> ('v avl_heap \<times> nat \<times> nat \<times> nat \<times> int) option" where
  "avl_unlink h root iter height_change = do {
     node \<leftarrow> Some (it_node iter);
     path \<leftarrow> Some (tl iter);
     parent \<leftarrow> Some (it_node path);
     n \<leftarrow> deref h node;
     if node_childs n = 0 then
       (if parent \<noteq> 0 then do {
          mp \<leftarrow> deref h parent;
          h \<leftarrow> modify h parent (put_child (node_side mp node) 0);
          (h, root, base, hc) \<leftarrow> rebalance_up h root path (node_side mp node) (- 1);
          Some (h, root, node, base, hc) }
        else Some (h, root, node, 0, height_change))
     else if node_childs n = 1 then
       (if parent \<noteq> 0 then do {
          mp \<leftarrow> deref h parent;
          h \<leftarrow> modify h parent (put_child (node_side mp node) (an_childs n (heavy_side n)));
          (h, root, base, hc) \<leftarrow> rebalance_up h root path (node_side mp node) (- 1);
          Some (h, root, node, base, hc) }
        else Some (h, root, node, an_childs n (heavy_side n), - 1))
     else do {
       sub_iter \<leftarrow> leftmost_leaf h (an_childs n RIGHT) [];
       (h, root, substitute, right, hcr) \<leftarrow> avl_unlink h root sub_iter (- 1);
       h \<leftarrow> modify h substitute (put_child RIGHT right);
       n \<leftarrow> deref h node;
       h \<leftarrow> modify h substitute (put_child LEFT (an_childs n LEFT));
       h \<leftarrow> modify h substitute (\<lambda>m. m\<lparr>an_balance := an_balance n\<rparr>);
       if parent \<noteq> 0 then do {
         mp \<leftarrow> deref h parent;
         h \<leftarrow> modify h parent (put_child (node_side mp node) substitute);
         (h, root, base, _) \<leftarrow> rebalance_up h root (substitute # path) RIGHT hcr;
         Some (h, root, node, base, height_change) }
       else do {
         h \<leftarrow> modify h substitute (add_balance hcr);
         Some (h, root, node, substitute, height_change) } } }"

text \<open>\<open>base\<close> is \<open>root_\<close> here, so its value is the root afterwards.\<close>

definition avl_erase :: "'v avl_tree \<Rightarrow> nat list \<Rightarrow> 'v avl_tree option" where
  "avl_erase t iter = do {
     (h, _, d, base, _) \<leftarrow> avl_unlink (at_heap t) (at_root t) iter 0;
     Some (t\<lparr>at_heap := h(d := None), at_root := base, at_size := at_size t - 1\<rparr>) }"

definition avl_erase_n :: "('v \<Rightarrow> 'v \<Rightarrow> int) \<Rightarrow> 'v avl_tree \<Rightarrow> nat \<Rightarrow> 'v avl_tree option" where
  "avl_erase_n cmp t n = do {
     m \<leftarrow> deref (at_heap t) n;
     iter \<leftarrow> avl_find cmp t (an_data m);
     if \<not> it_equal iter [] then avl_erase t iter else Some t }"

section \<open>clear\<close>

partial_function (option) avl_clear_nodes :: "'v avl_heap \<Rightarrow> nat \<Rightarrow> 'v avl_heap option" where
  "avl_clear_nodes h node =
     (if node = 0 then Some h
      else do {
        n \<leftarrow> deref h node;
        h \<leftarrow> (if an_childs n LEFT \<noteq> 0 then do {
                h \<leftarrow> avl_clear_nodes h (an_childs n LEFT);
                modify h node (set_child LEFT 0) }
              else Some h);
        n \<leftarrow> deref h node;
        h \<leftarrow> (if an_childs n RIGHT \<noteq> 0 then do {
                h \<leftarrow> avl_clear_nodes h (an_childs n RIGHT);
                modify h node (set_child RIGHT 0) }
              else Some h);
        _ \<leftarrow> deref h node;
        Some (h(node := None)) })"

definition avl_clear :: "'v avl_tree \<Rightarrow> 'v avl_tree option" where
  "avl_clear t = do {
     h \<leftarrow> (if at_root t \<noteq> 0 then avl_clear_nodes (at_heap t) (at_root t) else Some (at_heap t));
     Some (t\<lparr>at_heap := h, at_root := 0, at_size := 0\<rparr>) }"

section \<open>The checks of AVLTREE_CHECK\<close>

partial_function (option) check_avl :: "'v avl_heap \<Rightarrow> nat \<Rightarrow> unit option" where
  "check_avl h r =
     (if r = 0 then Some ()
      else do {
        n \<leftarrow> deref h r;
        if an_childs n LEFT \<noteq> r \<and> an_childs n RIGHT \<noteq> r \<and>
           (an_balance n = - 1 \<or> an_balance n = 0 \<or> an_balance n = 1)
        then do { _ \<leftarrow> check_avl h (an_childs n LEFT); check_avl h (an_childs n RIGHT) }
        else None })"

partial_function (option) check_balance :: "'v avl_heap \<Rightarrow> nat \<Rightarrow> int option" where
  "check_balance h p =
     (if p = 0 then Some 0
      else do {
        n \<leftarrow> deref h p;
        if an_childs n LEFT \<noteq> p \<and> an_childs n RIGHT \<noteq> p
        then do {
          l \<leftarrow> check_balance h (an_childs n LEFT);
          r \<leftarrow> check_balance h (an_childs n RIGHT);
          if an_balance n = r - l then Some ((if r \<ge> l then r else l) + 1) else None }
        else None })"

partial_function (option) check_ordering :: "('v \<Rightarrow> 'v \<Rightarrow> int) \<Rightarrow> 'v avl_heap \<Rightarrow> nat \<Rightarrow> unit option" where
  "check_ordering cmp h p =
     (if p = 0 then Some ()
      else do {
        n \<leftarrow> deref h p;
        _ \<leftarrow> (if an_childs n LEFT \<noteq> 0 then do {
                _ \<leftarrow> check_ordering cmp h (an_childs n LEFT);
                m \<leftarrow> deref h (an_childs n LEFT);
                if cmp (an_data m) (an_data n) \<le> 0 \<and> cmp (an_data n) (an_data m) \<ge> 0
                then Some () else None }
              else Some ());
        (if an_childs n RIGHT \<noteq> 0 then do {
           _ \<leftarrow> check_ordering cmp h (an_childs n RIGHT);
           m \<leftarrow> deref h (an_childs n RIGHT);
           if cmp (an_data n) (an_data m) \<le> 0 \<and> cmp (an_data m) (an_data n) \<ge> 0
           then Some () else None }
         else Some ()) })"

partial_function (option) count_nodes :: "'v avl_heap \<Rightarrow> nat \<Rightarrow> nat option" where
  "count_nodes h p =
     (if p = 0 then Some 0
      else do {
        n \<leftarrow> deref h p;
        if an_childs n LEFT \<noteq> p \<and> an_childs n RIGHT \<noteq> p
        then do {
          l \<leftarrow> count_nodes h (an_childs n LEFT);
          r \<leftarrow> count_nodes h (an_childs n RIGHT);
          Some (1 + l + r) }
        else None })"

text \<open>The loop of \<open>check_inorder\<close> over the values of the iterator.\<close>

fun check_inorder :: "('v \<Rightarrow> 'v \<Rightarrow> int) \<Rightarrow> 'v list \<Rightarrow> unit option" where
  "check_inorder cmp (v # w # vs) =
     (if cmp v w \<le> 0 \<and> cmp w v \<ge> 0 then check_inorder cmp (w # vs) else None)"
| "check_inorder cmp vs = Some ()"

definition avl_check :: "('v \<Rightarrow> 'v \<Rightarrow> int) \<Rightarrow> 'v avl_tree \<Rightarrow> unit option" where
  "avl_check cmp t = do {
     _ \<leftarrow> check_balance (at_heap t) (at_root t);
     _ \<leftarrow> check_avl (at_heap t) (at_root t);
     _ \<leftarrow> check_ordering cmp (at_heap t) (at_root t);
     vs \<leftarrow> avl_values t;
     _ \<leftarrow> check_inorder cmp vs;
     counted \<leftarrow> count_nodes (at_heap t) (at_root t);
     if counted = at_size t \<and> (at_root t = 0) = (at_size t = 0) then Some () else None }"

declare avl_insert.simps [code]
  avl_find_path.simps [code]
  it_begin_loop.simps [code]
  it_down.simps [code]
  it_values.simps [code]
  leftmost_leaf.simps [code]
  avl_unlink.simps [code]
  avl_clear_nodes.simps [code]
  check_avl.simps [code]
  check_balance.simps [code]
  check_ordering.simps [code]
  count_nodes.simps [code]

section \<open>string_comparator\<close>

text \<open>\<^verbatim>\<open>strcmp\<close> of two strings, given as their bytes before the terminating zero.\<close>

fun string_comparator :: "bytes \<Rightarrow> bytes \<Rightarrow> int" where
  "string_comparator [] [] = 0"
| "string_comparator [] (b # bs) = - 1"
| "string_comparator (a # as) [] = 1"
| "string_comparator (a # as) (b # bs) =
     (if a < b then - 1 else if b < a then 1 else string_comparator as bs)"

end
