(* ===== verification/Avl_Tree_Shape.thy ===== *)
theory Avl_Tree_Shape
  imports Avl_Tree "HOL-Library.Tree"
begin

text \<open>
  The shape of the heap of \<^verbatim>\<open>Avl_Tree\<close>: \<open>rep h t\<close> says that the nodes of the tree \<open>t\<close> of addresses and data
  are in \<open>h\<close>, linked as in \<open>t\<close> and with the differences of the heights as balances. \<open>mk s x p q\<close> is the tree
  with root \<open>x\<close> and the child \<open>p\<close> on side \<open>s\<close>, so that one lemma holds for both directions. \<open>rotate\<close> and
  \<open>rebalance\<close> are functions on these trees.
\<close>

section \<open>Trees of addresses\<close>

type_synonym 'v item = "nat \<times> 'v"

abbreviation hg :: "'a tree \<Rightarrow> int" where
  "hg t \<equiv> int (height t)"

fun addr :: "'v item tree \<Rightarrow> nat" where
  "addr Leaf = 0"
| "addr (Node l x r) = fst x"

abbreviation adrs :: "'v item tree \<Rightarrow> nat list" where
  "adrs t \<equiv> map fst (inorder t)"

fun kids :: "side \<Rightarrow> nat \<Rightarrow> nat \<Rightarrow> side \<Rightarrow> nat" where
  "kids LEFT p q = (\<lambda>s. case s of LEFT \<Rightarrow> p | RIGHT \<Rightarrow> q)"
| "kids RIGHT p q = (\<lambda>s. case s of LEFT \<Rightarrow> q | RIGHT \<Rightarrow> p)"

fun mk :: "side \<Rightarrow> 'a \<Rightarrow> 'a tree \<Rightarrow> 'a tree \<Rightarrow> 'a tree" where
  "mk LEFT x p q = Node p x q"
| "mk RIGHT x p q = Node q x p"

fun rep :: "'v avl_heap \<Rightarrow> 'v item tree \<Rightarrow> bool" where
  "rep h Leaf = True"
| "rep h (Node l (a, d) r) = (a \<noteq> 0 \<and>
     h a = Some \<lparr>an_data = d, an_childs = kids LEFT (addr l) (addr r), an_balance = hg r - hg l\<rparr> \<and>
     rep h l \<and> rep h r)"

lemma other_other [simp]: "other (other s) = s"
  by (cases s) auto

lemma other_neq [simp]: "other s \<noteq> s" "s \<noteq> other s"
  by (cases s; simp)+

lemma kids_apply [simp]: "kids s p q s = p" "kids s p q (other s) = q" "kids (other s) p q s = q"
  by (cases s; simp)+

lemma kids_upd [simp]: "(kids s p q)(s := z) = kids s z q" "(kids s p q)(other s := z) = kids s p z"
  by (cases s; auto simp: fun_eq_iff split: side.split)+

lemma kids_other [simp]: "kids (other s) p q = kids s q p"
  by (cases s) auto

lemma kids_upd_sides [simp]:
  "(kids LEFT p q)(RIGHT := z) = kids LEFT p z" "(kids RIGHT p q)(LEFT := z) = kids RIGHT p z"
  by (auto simp: fun_eq_iff split: side.split)

lemma kids_sides [simp]:
  "kids LEFT p q RIGHT = q" "kids RIGHT p q LEFT = q" "kids LEFT p q LEFT = p" "kids RIGHT p q RIGHT = p"
  by auto

declare kids.simps [simp del]

lemma kids_flip: "kids RIGHT p q = kids LEFT q p"
  by (simp add: kids.simps)

lemma mk_other [simp]: "mk (other s) x p q = mk s x q p"
  by (cases s) auto

lemma mk_not_Leaf [simp]: "mk s x p q \<noteq> Leaf"
  by (cases s) auto

lemma addr_mk [simp]: "addr (mk s x p q) = fst x"
  by (cases s) auto

lemma height_mk [simp]: "height (mk s x p q) = Suc (max (height p) (height q))"
  by (cases s) auto

lemma set_tree_mk [simp]: "set_tree (mk s x p q) = insert x (set_tree p \<union> set_tree q)"
  by (cases s) auto

lemma distinct_mk [simp]:
  "distinct (adrs (mk s x p q)) \<longleftrightarrow> fst x \<notin> set (adrs p) \<and> fst x \<notin> set (adrs q) \<and>
     distinct (adrs p) \<and> distinct (adrs q) \<and> set (adrs p) \<inter> set (adrs q) = {}"
  by (cases s) auto

lemma rep_mk [simp]:
  "rep h (mk s (a, d) p q) \<longleftrightarrow> a \<noteq> 0 \<and>
     h a = Some \<lparr>an_data = d, an_childs = kids s (addr p) (addr q),
                an_balance = sign_of s * (hg p - hg q)\<rparr> \<and> rep h p \<and> rep h q"
  by (cases s) (auto simp: kids_flip)

lemma tree_cases_side:
  obtains "t = Leaf" | x p q where "t = mk s x p q"
  by (cases t; cases s) (force+)

lemma rep_addr_in: "t \<noteq> Leaf \<Longrightarrow> addr t \<in> set (adrs t)"
  by (cases t) auto

lemma rep_nonzero: "rep h t \<Longrightarrow> (0, d) \<notin> set_tree t"
  by (induction t) auto

lemma addr_zero: "rep h t \<Longrightarrow> addr t = 0 \<longleftrightarrow> t = Leaf"
  by (cases t) auto

lemma rep_frame: "rep h t \<Longrightarrow> (\<And>a. a \<in> set (adrs t) \<Longrightarrow> h' a = h a) \<Longrightarrow> rep h' t"
proof (induction t)
  case (Node l x r)
  then show ?case by (cases x) auto
qed simp

lemma rep_upd [simp]: "a \<notin> set (adrs t) \<Longrightarrow> rep (h(a := n)) t \<longleftrightarrow> rep h t"
  by (induction t) auto

lemma height_zero [simp]: "height t = 0 \<longleftrightarrow> t = Leaf" for t :: "'a tree"
  by (cases t) auto

section \<open>rotate and rebalance on trees\<close>

text \<open>The height change that \<open>rotate\<close> computes is the right one whatever the balances are.\<close>

lemma rotate_hc_height:
  fixes h1 h2 h3 :: int
  assumes "bal_b = sign_of dir * (h2 - h3)" and "bal_a = sign_of dir * (h1 - (max h2 h3 + 1))"
    and "bal_a2 = sign_of dir * (h1 - h2)" and "bal_b2 = sign_of dir * (max h1 h2 + 1 - h3)"
  shows "rotate_hc dir bal_a bal_b bal_a2 bal_b2 = max (max h1 h2 + 1) h3 - max h1 (max h2 h3 + 1)"
  using assms by (cases dir) (simp_all add: rotate_hc_def Let_def, (smt (verit))+)

lemma modify_Some [simp]: "p \<noteq> 0 \<Longrightarrow> h p = Some n \<Longrightarrow> modify h p f = Some (h(p \<mapsto> f n))"
  by (simp add: modify_def deref_def)

lemma deref_Some [simp]: "p \<noteq> 0 \<Longrightarrow> deref h p = h p"
  by (simp add: deref_def)

lemma avl_rotate_heap:
  assumes "a \<noteq> 0" "b \<noteq> 0" "a \<noteq> b"
    and "h a = Some \<lparr>an_data = d, an_childs = kids dir p b, an_balance = ba\<rparr>"
    and "h b = Some \<lparr>an_data = e, an_childs = kids dir q r, an_balance = bb\<rparr>"
    and "ba' = schar (ba + (if dir = LEFT then - 1 - (if bb \<le> 0 then 0 else bb)
                            else 1 - (if bb \<ge> 0 then 0 else bb)))"
    and "bb' = schar (bb + (if dir = LEFT then - 1 + (if ba' \<ge> 0 then 0 else ba')
                            else 1 + (if ba' \<le> 0 then 0 else ba')))"
  shows "avl_rotate h a dir k = Some (h(
     a \<mapsto> \<lparr>an_data = d, an_childs = kids dir p q, an_balance = ba'\<rparr>,
     b \<mapsto> \<lparr>an_data = e, an_childs = kids dir a r, an_balance = bb'\<rparr>), b,
     k + rotate_hc dir ba bb ba' bb')"
proof -
  have "b \<noteq> a" using assms(3) by simp
  then show ?thesis
    using assms(1-5) unfolding assms(6,7)
    by (simp add: avl_rotate_def put_child_def add_balance_def fun_upd_twist del: fun_upd_upd)
qed

lemma avl_rotate_rep:
  fixes t1 t2 t3 :: "'v item tree" and a b :: nat and d e :: 'v and dir :: side
  defines "t \<equiv> mk dir (a, d) t1 (mk dir (b, e) t2 t3)"
  defines "t' \<equiv> mk dir (b, e) (mk dir (a, d) t1 t2) t3"
  assumes "rep h t" and "distinct (adrs t)"
    and "\<bar>hg t1 - (max (hg t2) (hg t3) + 1)\<bar> \<le> 4" and "\<bar>hg t2 - hg t3\<bar> \<le> 4"
  shows "\<exists>h'. avl_rotate h a dir k = Some (h', b, k + (hg t' - hg t)) \<and> rep h' t' \<and>
    (\<forall>x. x \<notin> set (adrs t) \<longrightarrow> h' x = h x)"
proof -
  have a: "a \<noteq> 0" "b \<noteq> 0" "a \<noteq> b" "b \<noteq> a"
    "a \<notin> set (adrs t1)" "a \<notin> set (adrs t2)" "a \<notin> set (adrs t3)"
    "b \<notin> set (adrs t1)" "b \<notin> set (adrs t2)" "b \<notin> set (adrs t3)"
    using assms(3,4) by (auto simp: t_def)
  define ba bb ba' bb' where "ba = sign_of dir * (hg t1 - (max (hg t2) (hg t3) + 1))"
    and "bb = sign_of dir * (hg t2 - hg t3)" and "ba' = sign_of dir * (hg t1 - hg t2)"
    and "bb' = sign_of dir * (max (hg t1) (hg t2) + 1 - hg t3)"
  note b = this
  have h: "h a = Some \<lparr>an_data = d, an_childs = kids dir (addr t1) b, an_balance = ba\<rparr>"
    "h b = Some \<lparr>an_data = e, an_childs = kids dir (addr t2) (addr t3), an_balance = bb\<rparr>"
    and r: "rep h t1" "rep h t2" "rep h t3"
    using assms(3) by (auto simp: t_def b)
  have ba: "ba' = schar (ba + (if dir = LEFT then - 1 - (if bb \<le> 0 then 0 else bb)
                              else 1 - (if bb \<ge> 0 then 0 else bb)))"
    using assms(5,6) unfolding b by (cases dir; cases "hg t2 \<le> hg t3") (simp_all add: max_def)
  have bb: "bb' = schar (bb + (if dir = LEFT then - 1 + (if ba' \<ge> 0 then 0 else ba')
                              else 1 + (if ba' \<le> 0 then 0 else ba')))"
    using assms(5,6) unfolding b
    by (cases dir; cases "hg t1 \<le> hg t2"; cases "hg t2 \<le> hg t3") (simp_all add: max_def)
  have hc: "rotate_hc dir ba bb ba' bb' = hg t' - hg t"
    by (subst rotate_hc_height[OF b(2,1,3,4)]) (simp add: t_def t'_def)
  note rot = avl_rotate_heap[OF a(1-3) h ba bb, of k, unfolded hc]
  have rep: "rep (h(a \<mapsto> \<lparr>an_data = d, an_childs = kids dir (addr t1) (addr t2), an_balance = ba'\<rparr>,
      b \<mapsto> \<lparr>an_data = e, an_childs = kids dir a (addr t3), an_balance = bb'\<rparr>)) t'"
    using a r by (simp add: t'_def b of_nat_max)
  show ?thesis
    by (intro exI conjI, rule rot, rule rep) (simp add: t_def)
qed

fun kid :: "side \<Rightarrow> 'a tree \<Rightarrow> 'a tree" where
  "kid s Leaf = Leaf"
| "kid s (Node l x r) = (if s = LEFT then l else r)"

lemma kid_mk [simp]: "kid s (mk s x p q) = p" "kid (other s) (mk s x p q) = q"
  by (cases s; simp)+

text \<open>Whether the child on side \<open>s\<close> is heavy on the other side, as \<open>heavy_side\<close> decides it.\<close>

definition bent :: "side \<Rightarrow> 'a tree \<Rightarrow> bool" where
  "bent s c = (kid (other s) c \<noteq> Leaf \<and>
     (if s = LEFT then height (kid s c) \<le> height (kid (other s) c)
      else height (kid s c) < height (kid (other s) c)))"

definition treb :: "side \<Rightarrow> 'a \<Rightarrow> 'a tree \<Rightarrow> 'a tree \<Rightarrow> 'a tree" where
  "treb s x c q = (case c of Leaf \<Rightarrow> mk s x c q | Node _ y _ \<Rightarrow>
     (case kid (other s) c of Leaf \<Rightarrow> mk s y (kid s c) (mk s x Leaf q)
      | Node _ w _ \<Rightarrow>
          if bent s c
          then mk s w (mk s y (kid s c) (kid s (kid (other s) c)))
                      (mk s x (kid (other s) (kid (other s) c)) q)
          else mk s y (kid s c) (mk s x (kid (other s) c) q)))"

lemma treb_straight:
  "\<not> bent s (mk s y p u) \<Longrightarrow> treb s x (mk s y p u) q = mk s y p (mk s x u q)"
  by (cases s; cases u) (auto simp: treb_def bent_def)

lemma treb_bent:
  "bent s (mk s y p (mk s w v z)) \<Longrightarrow>
     treb s x (mk s y p (mk s w v z)) q = mk s w (mk s y p v) (mk s x z q)"
  by (cases s) (auto simp: treb_def)

lemma bent_kid: "bent s (mk s y p u) \<Longrightarrow> u \<noteq> Leaf"
  by (simp add: bent_def)

fun hbal :: "'a tree \<Rightarrow> bool" where
  "hbal Leaf = True"
| "hbal (Node l x r) = (\<bar>hg l - hg r\<bar> \<le> 1 \<and> hbal l \<and> hbal r)"

lemma hbal_mk [simp]: "hbal (mk s x p q) \<longleftrightarrow> \<bar>hg p - hg q\<bar> \<le> 1 \<and> hbal p \<and> hbal q"
  by (cases s) auto

lemma hbal_cases:
  assumes "hbal c" and "c \<noteq> Leaf"
  obtains y p u where "c = mk s y p u" "\<bar>hg p - hg u\<bar> \<le> 1" "hbal p" "hbal u"
proof -
  obtain y p u where "c = mk s y p u" using assms(2) tree_cases_side by metis
  with assms(1) that show thesis by simp
qed

lemma avl_rebalance_cases:
  assumes "a \<noteq> 0" "b \<noteq> 0" and "h a = Some n" and "heavy_side n = s" and "an_childs n s = b"
    and "h b = Some m"
    and "(\<not> is_leaf m \<and> an_childs m (other s) \<noteq> 0 \<and> heavy_side m = other s) = double"
  shows avl_rebalance_single: "\<not> double \<Longrightarrow> avl_rebalance h a k = avl_rotate h a (other s) k"
    and avl_rebalance_double: "double \<Longrightarrow> avl_rotate h b s 0 = Some (h1, x, dd) \<Longrightarrow> h1 a = Some n1 \<Longrightarrow>
      schar (an_balance n1) = an_balance n1 \<Longrightarrow>
      avl_rebalance h a k = avl_rotate
        (h1(a \<mapsto> (put_child s x n1)\<lparr>an_balance := schar (an_balance n1 + sign_of s * dd)\<rparr>))
        a (other s) (k + dd)"
proof -
  have sg: "(if s = RIGHT then 1 else - 1) = sign_of s" by (cases s) simp_all
  have heavy: "deref h a = Some n" "deref h b = Some m"
    using assms(1-3,6) by simp_all
  show "avl_rebalance h a k = avl_rotate h a (other s) k" if "\<not> double"
    using that by (simp add: avl_rebalance_def Let_def heavy assms(2,4,5) assms(7)[unfolded neq0_conv] del: deref_Some)
  show "avl_rebalance h a k = avl_rotate
        (h1(a \<mapsto> (put_child s x n1)\<lparr>an_balance := schar (an_balance n1 + sign_of s * dd)\<rparr>))
        a (other s) (k + dd)"
    if "double" "avl_rotate h b s 0 = Some (h1, x, dd)" "h1 a = Some n1"
      "schar (an_balance n1) = an_balance n1"
    using that assms(1) by
      (simp add: sg avl_rebalance_def Let_def heavy assms(2,4,5) assms(7)[unfolded neq0_conv] put_child_def add_balance_def
        del: deref_Some)
qed

lemma avl_rebalance_top:
  assumes "rep h (mk s (a, d) (mk s (b, e) p u) q)" and "hg (mk s (b, e) p u) - hg q = 2"
  defines "n \<equiv> \<lparr>an_data = d, an_childs = kids s b (addr q),
      an_balance = sign_of s * (hg (mk s (b, e) p u) - hg q)\<rparr>"
    and "m \<equiv> \<lparr>an_data = e, an_childs = kids s (addr p) (addr u), an_balance = sign_of s * (hg p - hg u)\<rparr>"
  shows "a \<noteq> 0" "b \<noteq> 0" "h a = Some n" "heavy_side n = s" "an_childs n s = b" "h b = Some m"
    and "(\<not> is_leaf m \<and> an_childs m (other s) \<noteq> 0 \<and> heavy_side m = other s) = bent s (mk s (b, e) p u)"
proof -
  show "a \<noteq> 0" "b \<noteq> 0" "h a = Some n" "an_childs n s = b" "h b = Some m"
    using assms(1) by (simp_all add: n_def m_def)
  show "heavy_side n = s" using assms(2) by (cases s) (simp_all add: heavy_side_def n_def)
  have "rep h u" using assms(1) by simp
  then show "(\<not> is_leaf m \<and> an_childs m (other s) \<noteq> 0 \<and> heavy_side m = other s) = bent s (mk s (b, e) p u)"
    by (cases s) (auto simp: m_def bent_def heavy_side_def is_leaf_def addr_zero)
qed

lemma avl_rebalance_straight:
  assumes "rep h (mk s (a, d) c q)" and "distinct (adrs (mk s (a, d) c q))"
    and "hg c - hg q = 2" and c: "c = mk s (b, e) p u" and "\<bar>hg p - hg u\<bar> \<le> 1" and "\<not> bent s c"
  defines "t \<equiv> treb s (a, d) c q"
  shows "\<exists>h'. avl_rebalance h a k = Some (h', addr t, k + (hg t - hg (mk s (a, d) c q))) \<and> rep h' t \<and>
    (\<forall>x. x \<notin> set (adrs (mk s (a, d) c q)) \<longrightarrow> h' x = h x)"
proof -
  have t: "t = mk (other s) (b, e) (mk (other s) (a, d) q u) p"
    and c': "mk s (a, d) c q = mk (other s) (a, d) q (mk (other s) (b, e) u p)"
    using treb_straight[of s "(b, e)" p u "(a, d)" q] assms(6) by (simp_all add: c t_def)
  have bounds: "\<bar>hg q - (max (hg u) (hg p) + 1)\<bar> \<le> 4" "\<bar>hg u - hg p\<bar> \<le> 4"
    using assms(3,5) by (simp_all add: c of_nat_max)
  note single = avl_rebalance_single[OF avl_rebalance_top[OF assms(1,3)[unfolded c]]]
  show ?thesis
    using assms(6) unfolding t c' addr_mk fst_conv
    by (subst single) (use avl_rotate_rep[OF assms(1,2)[unfolded c'] bounds] c in auto)
qed

text \<open>The first rotation of a double one, with the update of the node above.\<close>

lemma avl_rebalance_first:
  assumes "rep h (mk s (a, d) c q)" and "distinct (adrs (mk s (a, d) c q))"
    and "hg c - hg q = 2" and c: "c = mk s (b, e) p (mk s (f, g) v z)"
    and "\<bar>hg p - hg (mk s (f, g) v z)\<bar> \<le> 1" and "\<bar>hg v - hg z\<bar> \<le> 1" and "bent s c"
  defines "c' \<equiv> mk s (f, g) (mk s (b, e) p v) z"
  shows "\<exists>h'. avl_rebalance h a k = avl_rotate h' a (other s) (k + (hg c' - hg c)) \<and>
    rep h' (mk s (a, d) c' q) \<and> (\<forall>x. x \<notin> set (adrs (mk s (a, d) c q)) \<longrightarrow> h' x = h x)"
proof -
  let ?n = "\<lparr>an_data = d, an_childs = kids s b (addr q), an_balance = sign_of s * (hg c - hg q)\<rparr>"
  note top = avl_rebalance_top[OF assms(1,3)[unfolded c], folded c]
  have rc: "rep h (mk s (b, e) p (mk s (f, g) v z))" "distinct (adrs (mk s (b, e) p (mk s (f, g) v z)))"
    using assms(1,2) unfolding rep_mk distinct_mk c by blast+
  have bounds: "\<bar>hg p - (max (hg v) (hg z) + 1)\<bar> \<le> 4" "\<bar>hg v - hg z\<bar> \<le> 4"
    using assms(5,6) by (simp_all add: of_nat_max)
  obtain h1 where h1: "avl_rotate h b s 0 = Some (h1, f, 0 + (hg c' - hg c))" "rep h1 c'"
    "\<forall>x. x \<notin> set (adrs c) \<longrightarrow> h1 x = h x"
    using avl_rotate_rep[OF rc bounds, of 0] unfolding c c'_def by blast
  have adrs: "a \<notin> set (adrs c)" "a \<notin> set (adrs q)" "set (adrs c) \<inter> set (adrs q) = {}"
    using assms(2) by simp_all
  have adrs': "set (adrs c') = set (adrs c)" by (auto simp: c c'_def)
  have h1a: "h1 a = Some ?n" using h1(3) adrs(1) top(3) by simp
  have q1: "rep h1 q"
    by (rule rep_frame[of h]) (use assms(1) h1(3) adrs(3) in auto)
  have small: "schar (an_balance ?n) = an_balance ?n"
    using assms(3) by (cases s) simp_all
  have dh: "- 1 \<le> hg c' - hg c" "hg c' - hg c \<le> 1"
    using assms(5,6) by (simp_all add: c c'_def of_nat_max)
  then have bal: "schar (sign_of s * (hg c - hg q) + sign_of s * (0 + (hg c' - hg c))) = sign_of s * (hg c' - hg q)"
    using assms(3) by (cases s) simp_all
  have "rep (h1(a \<mapsto> (put_child s f ?n)\<lparr>an_balance :=
      schar (an_balance ?n + sign_of s * (0 + (hg c' - hg c)))\<rparr>)) (mk s (a, d) c' q)"
    using top(1) adrs adrs' h1(2) q1 bal by (simp add: put_child_def) (simp add: c'_def)
  moreover have "\<forall>x. x \<notin> set (adrs (mk s (a, d) c q)) \<longrightarrow> (h1(a \<mapsto> (put_child s f ?n)\<lparr>an_balance :=
      schar (an_balance ?n + sign_of s * (0 + (hg c' - hg c)))\<rparr>)) x = h x"
    using h1(3) by (simp add: image_Un)
  ultimately show ?thesis
    using avl_rebalance_double[OF top assms(7) h1(1) h1a small, of k] by auto
qed

lemma avl_rebalance_bent:
  assumes "rep h (mk s (a, d) c q)" and "distinct (adrs (mk s (a, d) c q))"
    and "hg c - hg q = 2" and c: "c = mk s (b, e) p (mk s (f, g) v z)"
    and "\<bar>hg p - hg (mk s (f, g) v z)\<bar> \<le> 1" and "\<bar>hg v - hg z\<bar> \<le> 1" and "bent s c"
  defines "t \<equiv> treb s (a, d) c q"
  shows "\<exists>h'. avl_rebalance h a k = Some (h', addr t, k + (hg t - hg (mk s (a, d) c q))) \<and> rep h' t \<and>
    (\<forall>x. x \<notin> set (adrs (mk s (a, d) c q)) \<longrightarrow> h' x = h x)"
proof -
  let ?pv = "mk s (b, e) p v"
  let ?c = "mk s (f, g) ?pv z"
  have t: "t = mk (other s) (f, g) (mk (other s) (a, d) q z) ?pv"
    using treb_bent[of s "(b, e)" p "(f, g)" v z "(a, d)" q] assms(7) by (simp add: c t_def)
  have c': "mk s (a, d) ?c q = mk (other s) (a, d) q (mk (other s) (f, g) z ?pv)" by simp
  obtain h1 where h1: "avl_rebalance h a k = avl_rotate h1 a (other s) (k + (hg ?c - hg c))"
    "rep h1 (mk s (a, d) ?c q)" "\<forall>x. x \<notin> set (adrs (mk s (a, d) c q)) \<longrightarrow> h1 x = h x"
    using avl_rebalance_first[OF assms(1-7)] by blast
  have dist: "distinct (adrs (mk s (a, d) ?c q))"
    using assms(2) by (auto simp: c)
  have bounds: "\<bar>hg q - (max (hg z) (hg ?pv) + 1)\<bar> \<le> 4" "\<bar>hg z - hg ?pv\<bar> \<le> 4"
    using assms(3,5,6) unfolding c by (simp_all add: of_nat_max)
  have same: "set (adrs (mk s (a, d) ?c q)) = set (adrs (mk s (a, d) c q))"
    by (auto simp: c)
  have hts: "k + (hg ?c - hg c) + (hg t - hg (mk s (a, d) ?c q)) = k + (hg t - hg (mk s (a, d) c q))"
    using assms(3,5,6) by (simp add: c of_nat_max)
  show ?thesis
    using avl_rotate_rep[OF h1(2)[unfolded c'] dist[unfolded c'] bounds, folded c' t, of "k + (hg ?c - hg c)"]
      h1(1,3) unfolding same hts by (auto simp: t)
qed

lemma avl_rebalance_rep:
  assumes "rep h (mk s (a, d) c q)" and "distinct (adrs (mk s (a, d) c q))" and "hbal c"
    and "hg c - hg q = 2"
  shows "\<exists>h'. avl_rebalance h a k =
      Some (h', addr (treb s (a, d) c q), k + (hg (treb s (a, d) c q) - hg (mk s (a, d) c q))) \<and>
    rep h' (treb s (a, d) c q) \<and> (\<forall>x. x \<notin> set (adrs (mk s (a, d) c q)) \<longrightarrow> h' x = h x)"
proof -
  have "c \<noteq> Leaf" using assms(4) by auto
  then obtain b e p u where c: "c = mk s (b, e) p u" and pu: "\<bar>hg p - hg u\<bar> \<le> 1" "hbal u"
    using hbal_cases[OF assms(3)] by (metis surj_pair)
  show ?thesis
  proof (cases "bent s c")
    case False
    then show ?thesis using avl_rebalance_straight[OF assms(1,2,4) c pu(1)] by blast
  next
    case True
    then have "u \<noteq> Leaf" by (auto simp: c bent_def)
    then obtain f g v z where u: "u = mk s (f, g) v z" and vz: "\<bar>hg v - hg z\<bar> \<le> 1"
      using hbal_cases[OF pu(2)] by (metis surj_pair)
    show ?thesis using avl_rebalance_bent[OF assms(1,2,4) c[unfolded u] pu(1)[unfolded u] vz True] by blast
  qed
qed

end
