(* ===== verification/Avl_Tree_Insert.thy ===== *)
theory Avl_Tree_Insert
  imports Avl_Tree_Shape
begin

text \<open>
  \<open>insert\<close>: the function \<open>tins\<close> on trees keeps the balance, and the recursion over the heap computes it,
  returns the change of the height and leaves all other nodes alone.
\<close>

section \<open>insert on trees\<close>

definition tfix :: "side \<Rightarrow> 'a \<Rightarrow> 'a tree \<Rightarrow> 'a tree \<Rightarrow> 'a tree" where
  "tfix s x c q = (if hg c - hg q \<ge> 2 then treb s x c q else mk s x c q)"

fun tins :: "('v \<Rightarrow> 'v \<Rightarrow> int) \<Rightarrow> 'v item \<Rightarrow> 'v item tree \<Rightarrow> 'v item tree" where
  "tins cmp x Leaf = Node Leaf x Leaf"
| "tins cmp x (Node l y r) =
     (if cmp (snd y) (snd x) = 0 then Node l y r
      else if cmp (snd y) (snd x) > 0 then tfix LEFT y (tins cmp x l) r
      else tfix RIGHT y (tins cmp x r) l)"

lemma inorder_treb [simp]: "inorder (treb s x c q) = inorder (mk s x c q)"
proof (rule tree_cases_side[where t = c and s = s])
  fix y p u assume 2: "c = mk s y p u"
  show ?thesis
  proof (cases "bent s c")
    case True
    then obtain w v z where "u = mk s w v z"
      using 2 tree_cases_side[where t = u and s = s] bent_kid by metis
    then show ?thesis using treb_bent[of s y p w v z x q] True 2 by (cases s) simp_all
  qed (cases s; use treb_straight[of s y p u x q] 2 in simp)
qed (simp add: treb_def)

lemma inorder_tfix [simp]: "inorder (tfix s x c q) = inorder (mk s x c q)"
  by (simp add: tfix_def)

lemma set_tree_tfix [simp]: "set_tree (tfix s x c q) = insert x (set_tree c \<union> set_tree q)"
  by (metis inorder_tfix set_inorder set_tree_mk)

lemma size_mk [simp]: "size (mk s x p q) = Suc (size p + size q)"
  by (cases s) auto

lemma size_tfix [simp]: "size (tfix s x c q) = Suc (size c + size q)"
  by (metis inorder_tfix length_inorder size_mk)

lemma tfix_not_Leaf [simp]: "tfix s x c q \<noteq> Leaf"
  by (metis size_tfix nat.distinct(1) tree.size(3))

lemma tins_not_Leaf [simp]: "tins cmp x t \<noteq> Leaf"
  by (cases t) auto

text \<open>\<open>tilted t\<close>: the children of the root differ in height.\<close>

definition tilted :: "'a tree \<Rightarrow> bool" where
  "tilted t = (height (kid LEFT t) \<noteq> height (kid RIGHT t))"

lemma tilted_mk [simp]: "tilted (mk s x p q) \<longleftrightarrow> height p \<noteq> height q"
  by (cases s) (auto simp: tilted_def)

lemma treb_tilted:
  assumes "hbal c" "hbal q" "tilted c" "hg c - hg q = 2"
  shows "hbal (treb s x c q) \<and> hg (treb s x c q) = hg c"
proof -
  have "c \<noteq> Leaf" using assms(4) by auto
  then obtain y p u where c: "c = mk s y p u" and pu: "\<bar>hg p - hg u\<bar> \<le> 1" "hbal p" "hbal u"
    using hbal_cases[OF assms(1)] by metis
  show ?thesis
  proof (cases "bent s c")
    case False
    then have "height u < height p"
      using assms(3) by (cases "u = Leaf") (auto simp: bent_def c neq0_conv[symmetric] simp del: neq0_conv split: if_splits)
    then show ?thesis
      using assms pu treb_straight[of s y p u x q] False by (simp add: c of_nat_max)
  next
    case True
    then have "u \<noteq> Leaf" by (auto simp: c bent_def)
    then obtain w v z where u: "u = mk s w v z" and vz: "\<bar>hg v - hg z\<bar> \<le> 1" "hbal v" "hbal z"
      using hbal_cases[OF pu(3)] by metis
    have "height p < height u" using True assms(3) by (auto simp: bent_def c split: if_splits)
    then have "hg p < max (hg v) (hg z) + 1" by (simp add: u of_nat_max)
    moreover have "\<bar>hg p - (max (hg v) (hg z) + 1)\<bar> \<le> 1" using pu(1) by (simp add: u of_nat_max)
    moreover have "max (hg p) (max (hg v) (hg z) + 1) + 1 - hg q = 2"
      using assms(4) by (simp add: c u of_nat_max)
    ultimately have e: "hg p = hg q" "max (hg v) (hg z) = hg q" by linarith+
    then have "\<bar>hg p - hg v\<bar> \<le> 1" "\<bar>hg z - hg q\<bar> \<le> 1" "hg v \<le> hg q" "hg z \<le> hg q"
      using vz(1) by linarith+
    then show ?thesis
      using assms(2) pu(2) vz(2,3) e treb_bent[of s y p w v z x q] True
      by (simp add: c u of_nat_max)
  qed
qed

text \<open>A child that grew by at most one level, and is tilted when it grew and was not empty.\<close>

definition grown :: "'a tree \<Rightarrow> 'a tree \<Rightarrow> bool" where
  "grown t t' \<longleftrightarrow> hbal t' \<and> (hg t' = hg t \<or> hg t' = hg t + 1 \<and> (t \<noteq> Leaf \<longrightarrow> tilted t'))"

lemma tfix_grown:
  assumes "grown c c'" and "hbal (mk s x c q)"
  shows "grown (mk s x c q) (tfix s x c' q)"
    and "hg (tfix s x c' q) - hg (mk s x c q) = (if hg c' - hg c = 1 \<and> hg c' - hg q = 1 then 1 else 0)"
proof -
  have c: "\<bar>hg c - hg q\<bar> \<le> 1" "hbal q" "hbal c'" using assms by (auto simp: grown_def)
  have "grown (mk s x c q) (tfix s x c' q) \<and>
    hg (tfix s x c' q) - hg (mk s x c q) = (if hg c' - hg c = 1 \<and> hg c' - hg q = 1 then 1 else 0)"
  proof (cases "hg c' - hg q \<ge> 2")
    case True
    then have h: "hg c' = hg c + 1" "hg c' - hg q = 2" "c \<noteq> Leaf"
      using assms c by (auto simp: grown_def)
    then have "tilted c'" using assms(1) by (auto simp: grown_def)
    from treb_tilted[OF c(3,2) this h(2), of s x] show ?thesis
      using h True by (auto simp: tfix_def grown_def of_nat_max)
  next
    case False
    have "hg c = 0 \<Longrightarrow> hg q = 0 \<or> hg q = 1" using c(1) by linarith
    then show ?thesis
      using assms(1) c False unfolding tfix_def grown_def by (cases "c = Leaf") (auto simp: of_nat_max le_Suc_eq)
  qed
  then show "grown (mk s x c q) (tfix s x c' q)"
    "hg (tfix s x c' q) - hg (mk s x c q) = (if hg c' - hg c = 1 \<and> hg c' - hg q = 1 then 1 else 0)"
    by blast+
qed

lemma tins_grown: "hbal t \<Longrightarrow> grown t (tins cmp x t)"
proof (induction t)
  case Leaf
  then show ?case by (simp add: grown_def)
next
  case (Node l y r)
  have l: "grown l (tins cmp x l)" and r: "grown r (tins cmp x r)" using Node by simp_all
  show ?case
    using tfix_grown(1)[OF l, of LEFT y r] tfix_grown(1)[OF r, of RIGHT y l] Node.prems
    by (auto simp: grown_def)
qed

lemma set_tree_tins: "set_tree (tins cmp x t) \<subseteq> insert x (set_tree t)"
  by (induction t) auto

lemma disjoint_insert_sub: "A \<subseteq> insert x L \<Longrightarrow> x \<notin> R \<Longrightarrow> L \<inter> R = {} \<Longrightarrow> A \<inter> R = {}"
  by blast

lemma distinct_tins:
  "distinct (adrs t) \<Longrightarrow> fst x \<notin> set (adrs t) \<Longrightarrow> distinct (adrs (tins cmp x t))"
proof (induction t)
  case (Node l y r)
  have sub: "fst ` set_tree (tins cmp x l) \<subseteq> insert (fst x) (fst ` set_tree l)"
    "fst ` set_tree (tins cmp x r) \<subseteq> insert (fst x) (fst ` set_tree r)"
    using image_mono[OF set_tree_tins, of fst cmp x] by simp_all
  have x: "fst x \<noteq> fst y" "fst x \<notin> fst ` set_tree l" "fst x \<notin> fst ` set_tree r"
    and y: "fst y \<notin> fst ` set_tree l" "fst y \<notin> fst ` set_tree r"
    and d: "fst ` set_tree l \<inter> fst ` set_tree r = {}" "fst ` set_tree r \<inter> fst ` set_tree l = {}"
    using Node.prems by auto
  have "fst ` set_tree (tins cmp x l) \<inter> fst ` set_tree r = {}"
    "fst ` set_tree (tins cmp x r) \<inter> fst ` set_tree l = {}"
    "fst y \<notin> fst ` set_tree (tins cmp x l)" "fst y \<notin> fst ` set_tree (tins cmp x r)"
    using disjoint_insert_sub[OF sub(1) x(3) d(1)] disjoint_insert_sub[OF sub(2) x(2) d(2)] sub x(1) y
    by (blast, blast, metis insert_iff subsetD, metis insert_iff subsetD)
  then show ?case using Node by auto
qed simp

section \<open>insert on the heap\<close>

text \<open>What \<open>insert\<close> does after its recursive call returned the child \<open>p\<close>.\<close>

definition insert_after ::
    "'v avl_heap \<Rightarrow> nat \<Rightarrow> side \<Rightarrow> nat \<Rightarrow> int \<Rightarrow> nat \<Rightarrow> nat \<Rightarrow> ('v avl_heap \<times> nat \<times> nat \<times> int \<times> nat) option" where
  "insert_after h a s p hc sz r = do {
     h \<leftarrow> modify h a (set_child s p);
     h \<leftarrow> modify h a (add_balance (if s = RIGHT then hc else - hc));
     nb \<leftarrow> deref h a;
     (h, base, height_change) \<leftarrow> (if imbalanced nb then do {
         (h, base, _) \<leftarrow> avl_rebalance h a 0;
         Some (h, base, 0) }
       else Some (h, a, hc));
     nb \<leftarrow> deref h base;
     Some (h, sz, base, if height_change = 1 \<and> an_balance nb \<noteq> 0 then 1 else 0, r) }"

lemma avl_insert_above:
  fixes c c' q :: "'v item tree"
  assumes "a \<noteq> 0" and "h a = Some \<lparr>an_data = d, an_childs = kids s (addr c) (addr q),
      an_balance = sign_of s * (hg c - hg q)\<rparr>"
    and "rep h c'" "rep h q" and "distinct (adrs (mk s (a, d) c' q))"
    and "addr c \<noteq> 0" "addr c' \<noteq> 0" and "grown c c'" and "\<bar>hg c - hg q\<bar> \<le> 1"
  defines "t \<equiv> tfix s (a, d) c' q"
  shows "\<exists>h'. insert_after h a s (addr c') (hg c' - hg c) sz r =
     Some (h', sz, addr t, if hg c' - hg c = 1 \<and> hg c' - hg q = 1 then 1 else 0 :: int, r :: nat) \<and>
     rep h' t \<and> (\<forall>x. x \<notin> set (adrs (mk s (a, d) c' q)) \<longrightarrow> h' x = h x)"
proof -
  define n where "n = \<lparr>an_data = d, an_childs = kids s (addr c') (addr q),
      an_balance = sign_of s * (hg c' - hg q)\<rparr>"
  have hc: "hg c' - hg c = 0 \<or> hg c' - hg c = 1" using assms(8) by (auto simp: grown_def)
  let ?h = "h(a \<mapsto> n)"
  have set: "modify h a (set_child s (addr c')) =
      Some (h(a \<mapsto> n\<lparr>an_balance := sign_of s * (hg c - hg q)\<rparr>))"
    using assms(1,2,6,7) by (simp add: set_child_def put_child_def n_def)
  have add: "modify (h(a \<mapsto> n\<lparr>an_balance := sign_of s * (hg c - hg q)\<rparr>)) a
      (add_balance (if s = RIGHT then hg c' - hg c else - (hg c' - hg c))) = Some ?h"
    using assms(1,9) hc by (cases s) (auto simp: add_balance_def n_def)
  have rep: "rep ?h (mk s (a, d) c' q)"
    using assms(1,3,4,5) by (simp add: n_def)
  have imb: "imbalanced n \<longleftrightarrow> hg c' - hg q \<ge> 2"
    using assms(9) hc by (cases s) (auto simp: imbalanced_def n_def)
  have get: "deref ?h a = Some n" using assms(1) by simp
  show ?thesis
  proof (cases "hg c' - hg q \<ge> 2")
    case True
    then have two: "hg c' - hg q = 2" and "hbal c'" using assms(8,9) hc by (auto simp: grown_def)
    then obtain h' where h': "avl_rebalance ?h a 0 = Some (h', addr t, 0 + (hg t - hg (mk s (a, d) c' q)))"
      "rep h' t" "\<forall>x. x \<notin> set (adrs (mk s (a, d) c' q)) \<longrightarrow> h' x = ?h x"
      using avl_rebalance_rep[OF rep assms(5), of 0] True by (auto simp: t_def tfix_def)
    obtain m where "deref h' (addr t) = Some m"
      using h'(2) by (cases t) (auto simp: t_def)
    then show ?thesis
      using True two imb h' by (auto simp: insert_after_def set add get)
  next
    case False
    then have t: "t = mk s (a, d) c' q" by (simp add: t_def tfix_def)
    have "sign_of s * (hg c' - hg q) \<noteq> 0 \<longleftrightarrow> hg c' - hg q \<noteq> 0" by (cases s) auto
    then have bal: "hg c' - hg c = 1 \<and> an_balance n \<noteq> 0 \<longleftrightarrow> hg c' - hg c = 1 \<and> hg c' - hg q = 1"
      using False assms(9) by (auto simp: n_def)
    have "\<not> imbalanced n" using imb False by simp
    then show ?thesis
      unfolding t by (intro exI[of _ ?h] conjI) (simp_all add: insert_after_def set add get bal rep del: rep_mk)
  qed
qed

text \<open>What the recursion gives for \<open>t\<close>, and the step from a child to its parent.\<close>

definition inserts ::
    "('v \<Rightarrow> 'v \<Rightarrow> int) \<Rightarrow> nat \<Rightarrow> 'v \<Rightarrow> 'v avl_heap \<Rightarrow> nat \<Rightarrow> 'v item tree \<Rightarrow> 'v item tree \<Rightarrow> bool" where
  "inserts cmp new data h sz t t' \<longleftrightarrow> (\<exists>h' r. avl_insert cmp new data h sz (addr t) =
      Some (h', sz + (size t' - size t), addr t', hg t' - hg t, r) \<and> rep h' t' \<and>
    (\<forall>x. x \<noteq> new \<and> x \<notin> set (adrs t) \<longrightarrow> h' x = h x) \<and>
    (\<exists>d. (r, d) \<in> set_tree t' \<and> (cmp d data = 0 \<or> (r, d) = (new, data))))"

lemma avl_insert_child:
  assumes "rep h (mk s (a, d) c q)" "hbal (mk s (a, d) c q)" "distinct (adrs (mk s (a, d) c q))"
    and "new \<noteq> 0" "new \<notin> set (adrs (mk s (a, d) c q))"
    and "cmp d data \<noteq> 0" "s = (if cmp d data > 0 then LEFT else RIGHT)"
    and "c \<noteq> Leaf" "inserts cmp new data h sz c (tins cmp (new, data) c)"
  shows "inserts cmp new data h sz (mk s (a, d) c q) (tfix s (a, d) (tins cmp (new, data) c) q)"
proof -
  let ?c = "tins cmp (new, data) c"
  let ?n = "\<lparr>an_data = d, an_childs = kids s (addr c) (addr q), an_balance = sign_of s * (hg c - hg q)\<rparr>"
  obtain h1 r d1 where h1: "avl_insert cmp new data h sz (addr c) =
      Some (h1, sz + (size ?c - size c), addr ?c, hg ?c - hg c, r)" "rep h1 ?c"
      "\<forall>x. x \<noteq> new \<and> x \<notin> set (adrs c) \<longrightarrow> h1 x = h x"
    and r: "(r, d1) \<in> set_tree ?c" "cmp d1 data = 0 \<or> (r, d1) = (new, data)"
    using assms(9) by (auto simp: inserts_def)
  have a: "a \<noteq> 0" "h a = Some ?n" and q: "rep h q" and c: "rep h c"
    using assms(1) by simp_all
  have ac: "addr c \<noteq> 0" using assms(8) addr_zero[OF c] by simp
  have adrs: "a \<notin> set (adrs c)" "new \<noteq> a" "new \<notin> set (adrs q)" "set (adrs c) \<inter> set (adrs q) = {}"
    using assms(3,5) by auto
  have h1a: "h1 a = Some ?n" using h1(3) adrs a(2) by simp
  have q1: "rep h1 q" by (rule rep_frame[OF q]) (use h1(3) adrs(3,4) in \<open>metis disjoint_iff\<close>)
  have dist: "distinct (adrs (mk s (a, d) ?c q))"
    using distinct_tins[of "mk s (a, d) c q" "(new, data)" cmp] assms(3,5,6,7)
    by (cases s) (auto split: if_splits)
  have ac': "addr ?c \<noteq> 0" using h1(2) by (simp add: addr_zero)
  have bal: "\<bar>hg c - hg q\<bar> \<le> 1" and gr: "grown c ?c"
    using assms(2) tins_grown[of c] by simp_all
  have step: "avl_insert cmp new data h sz a =
      insert_after h1 a s (addr ?c) (hg ?c - hg c) (sz + (size ?c - size c)) r"
    using a ac assms(6,7) h1(1) by (subst avl_insert.simps) (simp add: insert_after_def)
  obtain h2 where h2: "avl_insert cmp new data h sz a = Some (h2, sz + (size ?c - size c),
      addr (tfix s (a, d) ?c q), if hg ?c - hg c = 1 \<and> hg ?c - hg q = 1 then 1 else 0, r)"
    "rep h2 (tfix s (a, d) ?c q)" "\<forall>x. x \<notin> set (adrs (mk s (a, d) ?c q)) \<longrightarrow> h2 x = h1 x"
    using avl_insert_above[OF a(1) h1a h1(2) q1 dist ac ac' gr bal, of "sz + (size ?c - size c)" r]
    unfolding step by blast
  have sub: "set (adrs ?c) \<subseteq> insert new (set (adrs c))"
    using image_mono[OF set_tree_tins, of fst cmp "(new, data)" c] by simp
  have frame: "h2 x = h x" if "x \<noteq> new" "x \<notin> set (adrs (mk s (a, d) c q))" for x
  proof -
    have "x \<notin> set (adrs c)" "x \<notin> set (adrs (mk s (a, d) ?c q))"
      using that sub by (auto simp: image_Un)
    then show ?thesis using h1(3) h2(3) that(1) by simp
  qed
  have r': "(r, d1) \<in> set_tree (tfix s (a, d) ?c q)" using r(1) by simp
  have szs: "size (tfix s (a, d) ?c q) - size (mk s (a, d) c q) = size ?c - size c" by simp
  show ?thesis
    unfolding inserts_def addr_mk fst_conv szs tfix_grown(2)[OF gr assms(2)]
    using h2(1,2) frame r' r(2) by blast
qed

lemma avl_insert_leaf:
  assumes "rep h (mk s (a, d) Leaf q)" "hbal (mk s (a, d) Leaf q)"
    and "new \<noteq> 0" "new \<notin> set (adrs (mk s (a, d) Leaf q))"
    and "cmp d data \<noteq> 0" "s = (if cmp d data > 0 then LEFT else RIGHT)"
    and "distinct (adrs (mk s (a, d) Leaf q))"
  shows "inserts cmp new data h sz (mk s (a, d) Leaf q) (tfix s (a, d) (Node Leaf (new, data) Leaf) q)"
proof -
  let ?n = "\<lparr>an_data = d, an_childs = kids s 0 (addr q), an_balance = sign_of s * (0 - hg q)\<rparr>"
  let ?m = "\<lparr>an_data = d, an_childs = kids s new (addr q), an_balance = sign_of s * (1 - hg q)\<rparr>"
  have a: "a \<noteq> 0" "h a = Some ?n" and q: "rep h q" "a \<notin> fst ` set_tree q"
    and new: "new \<noteq> a" "new \<notin> fst ` set_tree q"
    using assms(1,4,7) by auto
  have "hg q \<le> 1" using assms(2) by simp
  then have hq: "hg q = 0 \<or> hg q = 1" by linarith
  have t: "tfix s (a, d) (Node Leaf (new, data) Leaf) q = mk s (a, d) (Node Leaf (new, data) Leaf) q"
    by (simp add: tfix_def)
  have "modify (h(new \<mapsto> node_init data)) a (set_child s new) = Some (h(new \<mapsto> node_init data, a \<mapsto> ?m))"
    using a new(1) assms(3) hq
    by (cases s) (auto simp: set_child_def put_child_def add_balance_def)
  then have "avl_insert cmp new data h sz a = Some (h(new \<mapsto> node_init data, a \<mapsto> ?m), sz + 1, a,
      if sign_of s * (1 - hg q) \<noteq> 0 then 1 else 0, new)"
    using a assms(5,6) by (subst avl_insert.simps) simp
  moreover have "(if sign_of s * (1 - hg q) \<noteq> 0 then 1 else 0) =
      hg (mk s (a, d) (Node Leaf (new, data) Leaf) q) - hg (mk s (a, d) Leaf q)"
    using hq by (cases s) auto
  moreover have "rep (h(new \<mapsto> node_init data, a \<mapsto> ?m)) (mk s (a, d) (Node Leaf (new, data) Leaf) q)"
    using a q new assms(3,4) by (auto simp: node_init_def kids.simps fun_eq_iff split: side.split)
  ultimately show ?thesis
    unfolding inserts_def t by (intro exI conjI) (auto simp: a)
qed

lemma avl_insert_rep:
  assumes "rep h t" "t \<noteq> Leaf" "hbal t" "distinct (adrs t)" and "new \<noteq> 0" "new \<notin> set (adrs t)"
  shows "inserts cmp new data h sz t (tins cmp (new, data) t)"
  using assms(1-4,6)
proof (induction t arbitrary: h sz)
  case (Node l y r)
  obtain a d where y: "y = (a, d)" by (cases y)
  show ?case
  proof (cases "cmp d data = 0")
    case True
    then show ?thesis using Node.prems(1) unfolding inserts_def by (subst avl_insert.simps) (auto simp: y)
  next
    case False
    define s where "s = (if cmp d data > 0 then LEFT else RIGHT)"
    define c where "c = kid s (Node l y r)"
    define q where "q = kid (other s) (Node l y r)"
    have t: "Node l y r = mk s (a, d) c q" by (cases s) (simp_all add: c_def q_def y)
    have t': "tins cmp (new, data) (Node l y r) = tfix s (a, d) (tins cmp (new, data) c) q"
      using False by (simp add: s_def c_def q_def y)
    note t' = t'[unfolded t]
    show ?thesis
    proof (cases "c = Leaf")
      case True
      note prems = Node.prems[unfolded t True]
      have "inserts cmp new data h sz (mk s (a, d) Leaf q) (tfix s (a, d) (Node Leaf (new, data) Leaf) q)"
        by (rule avl_insert_leaf[where cmp = cmp, OF prems(1,3) assms(5) prems(5) \<open>cmp d data \<noteq> 0\<close> s_def prems(4)])
      then show ?thesis unfolding t t' by (simp only: True tins.simps)
    next
      case False
      have sub: "c = l \<or> c = r" by (simp add: c_def)
      have c: "rep h c" "hbal c" "distinct (adrs c)" "new \<notin> set (adrs c)"
        using Node.prems unfolding t by (simp_all add: image_Un)
      have "inserts cmp new data h sz c (tins cmp (new, data) c)"
        using sub Node.IH c False by blast
      then show ?thesis
        using avl_insert_child[of h s a d c q] Node.prems assms(5) \<open>cmp d data \<noteq> 0\<close> False s_def
        unfolding t t' by blast
    qed
  qed
qed simp

end
