(* ===== verification/Avl_Tree_Paths.thy ===== *)
theory Avl_Tree_Paths
  imports Avl_Tree_Insert
begin

text \<open>
  Paths: a frame is a node above, with the side the path leaves it on and the tree on the other side. What
  \<open>find\<close>, the iterator and the checks compute, in terms of the tree.
\<close>

section \<open>Frames\<close>

type_synonym 'v frame = "side \<times> 'v item \<times> 'v item tree"

fun plug :: "'v item tree \<Rightarrow> 'v frame list \<Rightarrow> 'v item tree" where
  "plug t [] = t"
| "plug t ((s, x, q) # fs) = plug (mk s x t q) fs"

abbreviation pth :: "'v frame list \<Rightarrow> nat list" where
  "pth fs \<equiv> map (\<lambda>(s, x, q). fst x) fs"

fun after :: "'v frame list \<Rightarrow> 'v item list" where
  "after [] = []"
| "after ((s, x, q) # fs) = (if s = LEFT then x # inorder q @ after fs else after fs)"

fun before :: "'v frame list \<Rightarrow> 'v item list" where
  "before [] = []"
| "before ((s, x, q) # fs) = (if s = LEFT then before fs else before fs @ inorder q @ [x])"

fun crep :: "'v avl_heap \<Rightarrow> nat \<Rightarrow> int \<Rightarrow> 'v frame list \<Rightarrow> bool" where
  "crep h p k [] = True"
| "crep h p k ((s, (a, d), q) # fs) = (a \<noteq> 0 \<and>
     h a = Some \<lparr>an_data = d, an_childs = kids s p (addr q), an_balance = sign_of s * (k - hg q)\<rparr> \<and>
     rep h q \<and> crep h a (max k (hg q) + 1) fs)"

lemma plug_append: "plug t (fs @ gs) = plug (plug t fs) gs"
  by (induction t fs rule: plug.induct) auto

lemma inorder_plug: "inorder (plug t fs) = before fs @ inorder t @ after fs"
proof (induction t fs rule: plug.induct)
  case (2 t s x q fs)
  then show ?case by (cases s) auto
qed simp

lemma rep_plug: "rep h (plug t fs) \<longleftrightarrow> rep h t \<and> crep h (addr t) (hg t) fs"
proof (induction t fs rule: plug.induct)
  case (2 t s x q fs)
  then show ?case by (cases x) (auto simp: of_nat_max add.commute)
qed simp

lemma plug_not_Leaf: "t \<noteq> Leaf \<Longrightarrow> plug t fs \<noteq> Leaf"
  by (induction t fs rule: plug.induct) auto

lemma addr_plug: "t \<noteq> Leaf \<Longrightarrow> addr (plug t fs) = last (addr t # pth fs)"
  by (induction t fs rule: plug.induct) auto

lemma rep_top: "rep h t \<Longrightarrow> t \<noteq> Leaf \<Longrightarrow> \<exists>n. h (addr t) = Some n \<and> addr t \<noteq> 0"
  by (cases t) auto

section \<open>The iterator\<close>

definition all_left :: "'v frame list \<Rightarrow> bool" where
  "all_left fs = (\<forall>f \<in> set fs. fst f = LEFT)"

lemma all_left_before: "all_left fs \<Longrightarrow> before fs = []"
  by (induction fs rule: before.induct) (auto simp: all_left_def)

lemma all_left_snoc [simp]: "all_left (fs @ [(s, x, q)]) \<longleftrightarrow> all_left fs \<and> s = LEFT"
  by (auto simp: all_left_def)

lemma it_down_rep:
  assumes "rep h t" "t \<noteq> Leaf"
  shows "\<exists>y r gs. it_down h (addr t) (addr t # path) = Some (fst y # pth gs @ path) \<and>
    t = plug (Node Leaf y r) gs \<and> all_left gs"
  using assms
proof (induction t arbitrary: path)
  case (Node l x r)
  show ?case
  proof (cases "l = Leaf")
    case True
    then show ?thesis
      using Node.prems
      by (intro exI[of _ x] exI[of _ r] exI[of _ "[]"], cases x, subst it_down.simps)
        (simp add: all_left_def)
  next
    case False
    then obtain y r' gs where "it_down h (addr l) (addr l # addr (Node l x r) # path) =
        Some (fst y # pth gs @ addr (Node l x r) # path)" "l = plug (Node Leaf y r') gs" "all_left gs"
      using Node by (cases x) fastforce
    moreover have "it_down h (fst x) (fst x # path) = it_down h (addr l) (addr l # fst x # path)"
      using Node.prems False addr_zero[of h l] by (cases x, subst it_down.simps) simp
    ultimately show ?thesis
      by (intro exI[of _ y] exI[of _ r'] exI[of _ "gs @ [(LEFT, x, r)]"]) (simp add: plug_append)
  qed
qed simp

lemma it_begin_loop_rep:
  assumes "rep h t" "t \<noteq> Leaf"
  shows "\<exists>y r gs. it_begin_loop h (addr t) path = Some (fst y # pth gs @ path) \<and>
    t = plug (Node Leaf y r) gs \<and> all_left gs"
  using assms
proof (induction t arbitrary: path)
  case (Node l x r)
  show ?case
  proof (cases "l = Leaf")
    case True
    then show ?thesis
      using Node.prems
      by (intro exI[of _ x] exI[of _ r] exI[of _ "[]"], cases x, subst it_begin_loop.simps)
        (simp add: all_left_def)
  next
    case False
    then obtain y r' gs where "it_begin_loop h (addr l) (addr (Node l x r) # path) =
        Some (fst y # pth gs @ addr (Node l x r) # path)" "l = plug (Node Leaf y r') gs" "all_left gs"
      using Node by (cases x) fastforce
    moreover have "it_begin_loop h (fst x) path = it_begin_loop h (addr l) (fst x # path)"
      using Node.prems False addr_zero[of h l] by (cases x, subst it_begin_loop.simps) simp
    ultimately show ?thesis
      by (intro exI[of _ y] exI[of _ r'] exI[of _ "gs @ [(LEFT, x, r)]"]) (simp add: plug_append)
  qed
qed simp

lemma it_up_rep:
  assumes "rep h (plug t fs)" "distinct (adrs (plug t fs))" "t \<noteq> Leaf"
  shows "(\<exists>x q fs' u. it_up h (addr t) (pth fs) = Some (fst x # pth fs') \<and>
      plug t fs = plug (mk LEFT x u q) fs' \<and> after fs = x # inorder q @ after fs') \<or>
    it_up h (addr t) (pth fs) = Some [] \<and> after fs = []"
  using assms
proof (induction t fs rule: plug.induct)
  case (2 t s x q fs)
  obtain a d where x: "x = (a, d)" by (cases x)
  have n: "a \<noteq> 0" "h a = Some \<lparr>an_data = d, an_childs = kids s (addr t) (addr q), an_balance = sign_of s * (hg t - hg q)\<rparr>"
    and q: "rep h q"
    using 2(2) by (auto simp: rep_plug x)
  show ?case
  proof (cases s)
    case LEFT
    then show ?thesis using n by (intro disjI1 exI[of _ x] exI[of _ q] exI[of _ fs] exI[of _ t]) (simp add: x)
  next
    case RIGHT
    have "addr t \<noteq> addr q"
    proof (cases "q = Leaf")
      case True
      then show ?thesis using rep_top[of h t] 2(2,4) by (auto simp: rep_plug x)
    next
      case False
      have "set (adrs t) \<inter> set (adrs q) = {}" using 2(3) by (auto simp: inorder_plug)
      then show ?thesis using rep_addr_in[OF False] rep_addr_in[OF 2(4)] by (metis disjoint_iff)
    qed
    then show ?thesis using 2 RIGHT n by (simp add: x)
  qed
qed simp

lemma it_values_rep:
  assumes "rep h (plug (Node l (a, d) r) fs)" "distinct (adrs (plug (Node l (a, d) r) fs))"
  shows "it_values h (a # pth fs) = Some (d # map snd (inorder r @ after fs))"
  using assms
proof (induction "length (inorder r @ after fs)" arbitrary: l a d r fs rule: less_induct)
  case less
  have n: "deref h a = Some \<lparr>an_data = d, an_childs = kids LEFT (addr l) (addr r), an_balance = hg r - hg l\<rparr>"
    and r: "rep h r" and a: "a \<noteq> 0"
    using less(2) by (auto simp: rep_plug)
  show ?case
  proof (cases "r = Leaf")
    case False
    obtain b e r' gs where gs: "it_down h (addr r) (addr r # a # pth fs) = Some (b # pth gs @ a # pth fs)"
      "r = plug (Node Leaf (b, e) r') gs" "all_left gs"
      using it_down_rep[OF r False, of "a # pth fs"] by auto
    let ?fs = "gs @ (RIGHT, (a, d), l) # fs"
    have plug: "plug (Node Leaf (b, e) r') ?fs = plug (Node l (a, d) r) fs"
      by (simp add: plug_append gs(2))
    have after: "after ?fs = after gs @ after fs" by (induction gs rule: after.induct) auto
    have ino: "inorder r = (b, e) # inorder r' @ after gs"
      by (simp add: gs(2) inorder_plug all_left_before[OF gs(3)])
    have "it_values h (b # pth ?fs) = Some (e # map snd (inorder r' @ after ?fs))"
      by (rule less(1)[where l = Leaf]) (use less(2,3) in \<open>simp_all add: plug ino after\<close>)
    then show ?thesis
      using n addr_zero[OF r] False gs(1) by (subst it_values.simps) (simp add: ino after)
  next
    case True
    have up: "it_next h (a # pth fs) = it_up h a (pth fs)" using n True by simp
    consider (some) x q fs' u where "it_up h a (pth fs) = Some (fst x # pth fs')"
        "plug (Node l (a, d) r) fs = plug (mk LEFT x u q) fs'" "after fs = x # inorder q @ after fs'"
      | (none) "it_up h a (pth fs) = Some []" "after fs = []"
      using it_up_rep[OF less(2,3)] by auto
    then show ?thesis
    proof cases
      case some
      obtain b e where x: "x = (b, e)" by (cases x)
      have "it_values h (b # pth fs') = Some (e # map snd (inorder q @ after fs'))"
        by (rule less(1)) (use less(2,3) some(2,3) in \<open>simp_all add: x\<close>)
      then show ?thesis using n up some(1,3) True by (subst it_values.simps) (simp add: x del: it_next.simps)
    next
      case none
      then show ?thesis
        using n up True by (subst it_values.simps) (simp add: it_values.simps[of h "[]"] del: it_next.simps)
    qed
  qed
qed

lemma avl_values_rep:
  assumes "rep (at_heap t) u" "at_root t = addr u" "distinct (adrs u)"
  shows "avl_values t = Some (map snd (inorder u))"
proof (cases "u = Leaf")
  case True
  then show ?thesis
    using assms by (simp add: avl_values_def avl_begin_def it_begin_loop.simps it_values.simps)
next
  case False
  obtain b e r gs where gs: "it_begin_loop (at_heap t) (addr u) [] = Some (b # pth gs)"
    "u = plug (Node Leaf (b, e) r) gs" "all_left gs"
    using it_begin_loop_rep[OF assms(1) False, of "[]"] by auto
  show ?thesis
    using it_values_rep[of "at_heap t" Leaf b e r gs] assms gs
    by (simp add: avl_values_def avl_begin_def inorder_plug all_left_before)
qed

section \<open>find\<close>

text \<open>The path turns left where the data is smaller and right where it is greater.\<close>

definition led :: "('v \<Rightarrow> 'v \<Rightarrow> int) \<Rightarrow> 'v \<Rightarrow> 'v frame list \<Rightarrow> bool" where
  "led cmp data fs =
     (\<forall>(s, x, q) \<in> set fs. if s = LEFT then cmp (snd x) data > 0 else cmp (snd x) data < 0)"

lemma led_simps [simp]:
  "led cmp data []"
  "led cmp data ((s, x, q) # fs) \<longleftrightarrow>
     (if s = LEFT then cmp (snd x) data > 0 else cmp (snd x) data < 0) \<and> led cmp data fs"
  "led cmp data (fs @ gs) \<longleftrightarrow> led cmp data fs \<and> led cmp data gs"
  by (simp_all add: led_def ball_Un)

lemma avl_find_path_rep:
  assumes "rep h t" "t \<noteq> Leaf"
  shows "\<exists>l y r gs. avl_find_path cmp h data (addr t) path = Some (fst y # pth gs @ path) \<and>
    t = plug (Node l y r) gs \<and> led cmp data gs \<and>
    (cmp (snd y) data = 0 \<or> cmp (snd y) data > 0 \<and> l = Leaf \<or> cmp (snd y) data < 0 \<and> r = Leaf)"
  using assms
proof (induction t arbitrary: path)
  case (Node l x r)
  obtain a d where x: "x = (a, d)" by (cases x)
  note rep = Node.prems(1)[unfolded x]
  consider (left) "cmp d data > 0" "l \<noteq> Leaf" | (right) "cmp d data < 0" "r \<noteq> Leaf"
    | (here) "cmp d data = 0 \<or> cmp d data > 0 \<and> l = Leaf \<or> cmp d data < 0 \<and> r = Leaf"
    by linarith
  then show ?case
  proof cases
    case left
    have "avl_find_path cmp h data a path = avl_find_path cmp h data (addr l) (a # path)"
      using rep left addr_zero[of h l] by (subst avl_find_path.simps) simp
    moreover obtain l' y r' gs where
      "avl_find_path cmp h data (addr l) (a # path) = Some (fst y # pth gs @ a # path)"
      "l = plug (Node l' y r') gs" "led cmp data gs"
      "cmp (snd y) data = 0 \<or> cmp (snd y) data > 0 \<and> l' = Leaf \<or> cmp (snd y) data < 0 \<and> r' = Leaf"
      using Node.IH(1)[of "a # path"] rep left(2) by auto
    ultimately show ?thesis
      by (intro exI[of _ l'] exI[of _ y] exI[of _ r'] exI[of _ "gs @ [(LEFT, x, r)]"])
        (use left in \<open>simp add: plug_append x led_def\<close>)
  next
    case right
    have "avl_find_path cmp h data a path = avl_find_path cmp h data (addr r) (a # path)"
      using rep right addr_zero[of h r] by (subst avl_find_path.simps) simp
    moreover obtain l' y r' gs where
      "avl_find_path cmp h data (addr r) (a # path) = Some (fst y # pth gs @ a # path)"
      "r = plug (Node l' y r') gs" "led cmp data gs"
      "cmp (snd y) data = 0 \<or> cmp (snd y) data > 0 \<and> l' = Leaf \<or> cmp (snd y) data < 0 \<and> r' = Leaf"
      using Node.IH(2)[of "a # path"] rep right(2) by auto
    ultimately show ?thesis
      by (intro exI[of _ l'] exI[of _ y] exI[of _ r'] exI[of _ "gs @ [(RIGHT, x, l)]"])
        (use right in \<open>simp add: plug_append x led_def\<close>)
  next
    case here
    then have "avl_find_path cmp h data a path = Some (a # path)"
      using rep addr_zero[of h l] addr_zero[of h r] by (subst avl_find_path.simps) auto
    then show ?thesis
      using here by (intro exI[of _ l] exI[of _ x] exI[of _ r] exI[of _ "[]"]) (simp add: x)
  qed
qed simp

section \<open>The checks\<close>

lemma addr_neq_top:
  assumes "distinct (adrs (Node l (a, d) r))" "a \<noteq> 0"
  shows "addr l \<noteq> a" "addr r \<noteq> a"
  using assms by (cases l; cases r; force)+

lemma check_avl_rep:
  "rep h t \<Longrightarrow> distinct (adrs t) \<Longrightarrow> check_avl h (addr t) = (if hbal t then Some () else None)"
proof (induction t)
  case (Node l x r)
  obtain a d where x: "x = (a, d)" by (cases x)
  have bal: "(hg r - hg l = - 1 \<or> hg r - hg l = 0 \<or> hg r - hg l = 1) \<longleftrightarrow> \<bar>hg l - hg r\<bar> \<le> 1" by linarith
  have "check_avl h a = (if \<bar>hg l - hg r\<bar> \<le> 1
      then do { _ \<leftarrow> check_avl h (addr l); check_avl h (addr r) } else None)"
    using Node.prems addr_neq_top[of l a d r] unfolding bal[symmetric] x by (subst check_avl.simps) simp
  then show ?case using Node by (simp add: x)
qed (simp add: check_avl.simps)

lemma check_balance_rep: "rep h t \<Longrightarrow> distinct (adrs t) \<Longrightarrow> check_balance h (addr t) = Some (hg t)"
proof (induction t)
  case (Node l x r)
  obtain a d where x: "x = (a, d)" by (cases x)
  show ?case
    using Node addr_neq_top[of l a d r] unfolding x by (subst check_balance.simps) (simp add: of_nat_max max_def)
qed (simp add: check_balance.simps)

lemma count_nodes_rep: "rep h t \<Longrightarrow> distinct (adrs t) \<Longrightarrow> count_nodes h (addr t) = Some (size t)"
proof (induction t)
  case (Node l x r)
  obtain a d where x: "x = (a, d)" by (cases x)
  show ?case
    using Node addr_neq_top[of l a d r] unfolding x by (subst count_nodes.simps) simp
qed (simp add: count_nodes.simps)

end
