(* ===== verification/Avl_Tree_Correct.thy ===== *)
theory Avl_Tree_Correct
  imports Avl_Tree_Paths
begin

text \<open>
  What clients of the tree rely on. The comparator is an interface: \<open>comparator\<close> is what the tree needs of
  it, and \<open>string_comparator\<close> provides it.
\<close>

section \<open>Comparators\<close>

locale comparator =
  fixes cmp :: "'v \<Rightarrow> 'v \<Rightarrow> int"
  assumes flip: "cmp x y < 0 \<longleftrightarrow> cmp y x > 0"
    and trans: "cmp x y \<le> 0 \<Longrightarrow> cmp y z \<le> 0 \<Longrightarrow> cmp x z \<le> 0"
begin

lemma same [simp]: "cmp x x = 0"
  using flip[of x x] by linarith

lemma zero_sym: "cmp x y = 0 \<longleftrightarrow> cmp y x = 0"
  using flip[of x y] flip[of y x] by linarith

lemma less_le: "cmp x y < 0 \<Longrightarrow> cmp y z \<le> 0 \<Longrightarrow> cmp x z < 0"
  using trans[of x y z] trans[of y z x] flip[of x y] zero_sym[of x z] by linarith

lemma le_less: "cmp x y \<le> 0 \<Longrightarrow> cmp y z < 0 \<Longrightarrow> cmp x z < 0"
  using trans[of x y z] trans[of z x y] flip[of y z] zero_sym[of x z] by linarith

end

lemma string_comparator_flip: "string_comparator x y < 0 \<longleftrightarrow> string_comparator y x > 0"
  by (induction x y rule: string_comparator.induct) auto

lemma string_comparator_trans:
  "string_comparator x y \<le> 0 \<Longrightarrow> string_comparator y z \<le> 0 \<Longrightarrow> string_comparator x z \<le> 0"
proof (induction x y arbitrary: z rule: string_comparator.induct)
  case (4 a as b bs)
  then show ?case by (cases z) (auto split: if_splits)
qed (case_tac z; simp)+

lemma string_comparator_zero: "string_comparator x y = 0 \<longleftrightarrow> x = y"
  by (induction x y rule: string_comparator.induct) auto

interpretation strings: comparator string_comparator
  by unfold_locales (rule string_comparator_flip, erule (1) string_comparator_trans)

section \<open>Ordered lists of items\<close>

definition ascending :: "('v \<Rightarrow> 'v \<Rightarrow> int) \<Rightarrow> 'v list \<Rightarrow> bool" where
  "ascending cmp vs = sorted_wrt (\<lambda>x y. cmp x y < 0) vs"

fun put_item :: "('v \<Rightarrow> 'v \<Rightarrow> int) \<Rightarrow> 'v item \<Rightarrow> 'v item list \<Rightarrow> 'v item list" where
  "put_item cmp x [] = [x]"
| "put_item cmp x (y # ys) =
     (if cmp (snd y) (snd x) = 0 then y # ys
      else if cmp (snd y) (snd x) > 0 then x # y # ys else y # put_item cmp x ys)"

abbreviation ordered :: "('v \<Rightarrow> 'v \<Rightarrow> int) \<Rightarrow> 'v item tree \<Rightarrow> bool" where
  "ordered cmp t \<equiv> ascending cmp (map snd (inorder t))"

lemma ascending_append: "ascending cmp (xs @ ys) \<longleftrightarrow>
    ascending cmp xs \<and> ascending cmp ys \<and> (\<forall>x \<in> set xs. \<forall>y \<in> set ys. cmp x y < 0)"
  by (simp add: ascending_def sorted_wrt_append)

lemma ascending_Cons: "ascending cmp (x # xs) \<longleftrightarrow> ascending cmp xs \<and> (\<forall>y \<in> set xs. cmp x y < 0)"
  by (auto simp: ascending_def)

lemma ordered_Node: "ordered cmp (Node l x r) \<longleftrightarrow> ordered cmp l \<and> ordered cmp r \<and>
    (\<forall>y \<in> set_tree l. cmp (snd y) (snd x) < 0) \<and> (\<forall>y \<in> set_tree r. cmp (snd x) (snd y) < 0) \<and>
    (\<forall>y \<in> set_tree l. \<forall>z \<in> set_tree r. cmp (snd y) (snd z) < 0)"
  by (auto simp: ascending_append ascending_Cons)

lemma ordered_plug: "ordered cmp (plug t fs) \<Longrightarrow> ordered cmp t"
  by (simp add: inorder_plug ascending_append)

lemma put_item_front:
  "cmp (snd y) (snd x) > 0 \<Longrightarrow> put_item cmp x (xs @ y # ys) = put_item cmp x xs @ y # ys"
  by (induction xs) auto

lemma put_item_skip:
  "(\<And>z. z \<in> set xs \<Longrightarrow> cmp (snd z) (snd x) < 0) \<Longrightarrow> put_item cmp x (xs @ ys) = xs @ put_item cmp x ys"
proof (induction xs)
  case (Cons z zs)
  have "cmp (snd z) (snd x) < 0" by (rule Cons.prems) simp
  then have "cmp (snd z) (snd x) \<noteq> 0" "\<not> cmp (snd z) (snd x) > 0" by linarith+
  then show ?case using Cons.IH Cons.prems by (simp del: neq0_conv)
qed simp

lemma set_put_item: "set (put_item cmp x ys) \<subseteq> insert x (set ys)"
  by (induction ys) auto

lemma put_item_keeps: "set ys \<subseteq> set (put_item cmp x ys)"
  by (induction ys) auto

context comparator
begin

lemma inorder_tins: "ordered cmp t \<Longrightarrow> inorder (tins cmp x t) = put_item cmp x (inorder t)"
proof (induction t)
  case (Node l y r)
  note ord = Node.prems[unfolded ordered_Node]
  have less: "cmp (snd z) (snd x) < 0" if "z \<in> set (inorder l)" "cmp (snd y) (snd x) \<le> 0" for z
    using less_le[of "snd z" "snd y" "snd x"] ord that by auto
  consider "cmp (snd y) (snd x) = 0" | "cmp (snd y) (snd x) > 0" | "cmp (snd y) (snd x) < 0"
    by linarith
  then show ?case
  proof cases
    case 1
    then show ?thesis using put_item_skip[of "inorder l" cmp x "y # inorder r"] less by simp
  next
    case 2
    then show ?thesis using put_item_front[of cmp y x "inorder l" "inorder r"] Node ord by simp
  next
    case 3
    then show ?thesis using put_item_skip[of "inorder l" cmp x "y # inorder r"] less Node ord by simp
  qed
qed simp

lemma put_item_has: "\<exists>y \<in> set (put_item cmp x ys). cmp (snd y) (snd x) = 0"
  by (induction ys) auto

lemma put_item_ascending: "ascending cmp (map snd ys) \<Longrightarrow> ascending cmp (map snd (put_item cmp x ys))"
proof (induction ys)
  case (Cons y ys)
  consider "cmp (snd y) (snd x) = 0" | "cmp (snd y) (snd x) > 0" | "cmp (snd y) (snd x) < 0"
    by linarith
  then show ?case
  proof cases
    case 2
    then have "cmp (snd x) (snd y) < 0" by (simp add: flip)
    then show ?thesis using 2 Cons.prems less_le[of "snd x" "snd y"] by (auto simp: ascending_Cons)
  next
    case 3
    then show ?thesis using Cons set_put_item[of cmp x ys] by (auto simp: ascending_Cons)
  qed (use Cons in simp)
qed (simp add: ascending_def)

lemma led_ordered:
  "ordered cmp (plug t gs) \<Longrightarrow> led cmp data gs \<Longrightarrow>
    (\<forall>z \<in> set (before gs). cmp (snd z) data < 0) \<and> (\<forall>z \<in> set (after gs). cmp (snd z) data > 0)"
proof (induction t gs rule: plug.induct)
  case (2 t s x q fs)
  have "ordered cmp (mk s x t q)" using 2(2) by (auto intro: ordered_plug)
  then have q: "\<forall>z \<in> set_tree q. if s = LEFT then cmp (snd x) (snd z) < 0 else cmp (snd z) (snd x) < 0"
    by (cases s) (auto simp: ordered_Node simp del: inorder.simps)
  show ?case
  proof (cases s)
    case LEFT
    then have x: "cmp data (snd x) < 0" using 2(3) flip[of data "snd x"] by (simp add: led_def)
    have "cmp (snd z) data > 0" if "z \<in> set_tree q" for z
    proof -
      have "cmp (snd x) (snd z) < 0" using q that LEFT by simp
      then have "cmp data (snd z) < 0" using le_less[of data "snd x" "snd z"] x by simp
      then show ?thesis by (simp only: flip)
    qed
    moreover have "(\<forall>z \<in> set (before fs). cmp (snd z) data < 0) \<and> (\<forall>z \<in> set (after fs). cmp (snd z) data > 0)"
      by (rule 2(1)) (use 2(2,3) in simp_all)
    moreover have "cmp (snd x) data > 0" using x by (simp only: flip)
    ultimately show ?thesis using LEFT by simp blast
  next
    case RIGHT
    then have x: "cmp (snd x) data < 0" using 2(3) by (simp add: led_def)
    have "cmp (snd z) data < 0" if "z \<in> set_tree q" for z
    proof -
      have "cmp (snd z) (snd x) < 0" using q that RIGHT by simp
      then show ?thesis using less_le[of "snd z" "snd x" data] x by simp
    qed
    moreover have "(\<forall>z \<in> set (before fs). cmp (snd z) data < 0) \<and> (\<forall>z \<in> set (after fs). cmp (snd z) data > 0)"
      by (rule 2(1)) (use 2(2,3) in simp_all)
    ultimately show ?thesis using RIGHT x by simp blast
  qed
qed simp

lemma not_found:
  assumes "ordered cmp (plug (Node l y r) gs)" "led cmp data gs"
    and "cmp (snd y) data > 0 \<and> l = Leaf \<or> cmp (snd y) data < 0 \<and> r = Leaf"
    and "z \<in> set_tree (plug (Node l y r) gs)"
  shows "cmp (snd z) data \<noteq> 0"
proof -
  note node = ordered_plug[OF assms(1), unfolded ordered_Node]
  have "z \<in> set (before gs) \<or> z \<in> set (after gs) \<or> z \<in> set_tree (Node l y r)"
    using assms(4) by (metis UnE inorder_plug set_append set_inorder)
  then show ?thesis
  proof (elim disjE)
    assume z: "z \<in> set_tree (Node l y r)"
    show ?thesis
    proof (cases "cmp (snd y) data > 0")
      case True
      then have less: "cmp data (snd y) < 0" and l: "l = Leaf"
        using assms(3) flip[of data "snd y"] by auto
      have "cmp data (snd z) < 0"
        using z l node less le_less[of data "snd y" "snd z"] by auto
      then show ?thesis using zero_sym[of "snd z" data] by simp
    next
      case False
      then have less: "cmp (snd y) data < 0" and r: "r = Leaf" using assms(3) by auto
      have "cmp (snd z) data < 0"
        using z r node less less_le[of "snd z" "snd y" data] by auto
      then show ?thesis by simp
    qed
  qed (use led_ordered[OF assms(1,2)] in force)+
qed

text \<open>The node that \<open>find\<close> returns.\<close>

lemma avl_find_rep:
  assumes "rep (at_heap t) u" "at_root t = addr u" "ordered cmp u"
  shows "(\<exists>l y r gs. avl_find cmp t data = Some (fst y # pth gs) \<and> u = plug (Node l y r) gs \<and>
      cmp (snd y) data = 0) \<or>
    avl_find cmp t data = Some [] \<and> (\<forall>z \<in> set_tree u. cmp (snd z) data \<noteq> 0)"
proof (cases "u = Leaf")
  case True
  then show ?thesis using assms by (simp add: avl_find_def avl_find_path.simps)
next
  case False
  obtain l y r gs where gs: "avl_find_path cmp (at_heap t) data (addr u) [] = Some (fst y # pth gs)"
    "u = plug (Node l y r) gs" "led cmp data gs"
    "cmp (snd y) data = 0 \<or> cmp (snd y) data > 0 \<and> l = Leaf \<or> cmp (snd y) data < 0 \<and> r = Leaf"
    using avl_find_path_rep[OF assms(1) False, of cmp data "[]"] by auto
  have node: "deref (at_heap t) (fst y) = Some \<lparr>an_data = snd y, an_childs = kids LEFT (addr l) (addr r),
      an_balance = hg r - hg l\<rparr>"
    using assms(1) gs(2) by (cases y) (auto simp: rep_plug)
  show ?thesis
  proof (cases "cmp (snd y) data = 0")
    case True
    then have "avl_find cmp t data = Some (fst y # pth gs)"
      using assms(2) gs(1) node by (simp add: avl_find_def del: deref_Some)
    then show ?thesis using True gs(2) by blast
  next
    case False
    then have "avl_find cmp t data = Some []"
      using assms(2) gs(1) node by (simp add: avl_find_def del: deref_Some)
    then show ?thesis using not_found[of l y r gs data] assms(3) gs False by blast
  qed
qed

lemma ordered_kids:
  assumes "ordered cmp (Node l x r)" "rep h l" "l \<noteq> Leaf"
  shows "\<exists>m. deref h (addr l) = Some m \<and> cmp (an_data m) (snd x) < 0"
proof -
  have "\<forall>y \<in> set_tree l. cmp (snd y) (snd x) < 0" using assms(1) unfolding ordered_Node by blast
  then show ?thesis using assms(2,3) by (cases l) auto
qed

lemma ordered_kids_right:
  assumes "ordered cmp (Node l x r)" "rep h r" "r \<noteq> Leaf"
  shows "\<exists>m. deref h (addr r) = Some m \<and> cmp (snd x) (an_data m) < 0"
proof -
  have "\<forall>y \<in> set_tree r. cmp (snd x) (snd y) < 0" using assms(1) unfolding ordered_Node by blast
  then show ?thesis using assms(2,3) by (cases r) auto
qed

lemma check_ordering_rep:
  "rep h t \<Longrightarrow> ordered cmp t \<Longrightarrow> check_ordering cmp h (addr t) = Some ()"
proof (induction t)
  case (Node l x r)
  obtain a d where x: "x = (a, d)" by (cases x)
  note rep = Node.prems(1)[unfolded x]
  have ord: "ordered cmp l" "ordered cmp r" using Node.prems(2) unfolding ordered_Node by blast+
  define left where "left = (if addr l \<noteq> 0 then do {
      _ \<leftarrow> check_ordering cmp h (addr l);
      m \<leftarrow> deref h (addr l);
      if cmp (an_data m) d \<le> 0 \<and> cmp d (an_data m) \<ge> 0 then Some () else None }
    else Some ())"
  define right where "right = (if addr r \<noteq> 0 then do {
      _ \<leftarrow> check_ordering cmp h (addr r);
      m \<leftarrow> deref h (addr r);
      if cmp d (an_data m) \<le> 0 \<and> cmp (an_data m) d \<ge> 0 then Some () else None }
    else Some ())"
  have "left = Some ()"
  proof (cases "l = Leaf")
    case False
    then obtain m where "deref h (addr l) = Some m" "cmp (an_data m) d < 0"
      using ordered_kids[OF Node.prems(2), of h] rep by (auto simp: x)
    moreover from this(2) have "cmp d (an_data m) > 0" by (simp add: flip)
    ultimately show ?thesis using Node.IH(1) ord rep by (simp add: left_def)
  qed (simp add: left_def)
  moreover have "right = Some ()"
  proof (cases "r = Leaf")
    case False
    then obtain m where "deref h (addr r) = Some m" "cmp d (an_data m) < 0"
      using ordered_kids_right[OF Node.prems(2), of h] rep by (auto simp: x)
    moreover from this(2) have "cmp (an_data m) d > 0" by (simp add: flip)
    ultimately show ?thesis using Node.IH(2) ord rep by (simp add: right_def)
  qed (simp add: right_def)
  moreover have "check_ordering cmp h a = do { _ \<leftarrow> left; right }"
    unfolding left_def right_def using rep by (subst check_ordering.simps) simp
  ultimately show ?case by (simp add: x)
qed (simp add: check_ordering.simps)

lemma check_inorder_ascending: "ascending cmp vs \<Longrightarrow> check_inorder cmp vs = Some ()"
proof (induction vs)
  case (Cons v vs)
  then show ?case
    by (cases vs) (auto simp: ascending_Cons flip order.strict_implies_order)
qed simp

end

section \<open>Trees built by insert_n\<close>

definition avl_shape :: "'v avl_tree \<Rightarrow> 'v item tree \<Rightarrow> bool" where
  "avl_shape t u \<longleftrightarrow>
     rep (at_heap t) u \<and> at_root t = addr u \<and> distinct (adrs u) \<and> at_size t = size u"

lemma size_tins: "size u \<le> size (tins cmp x u)"
  by (induction u) auto

lemma avl_insert_n_rep:
  fixes cmp :: "'v \<Rightarrow> 'v \<Rightarrow> int" and d :: 'v
  assumes "avl_shape t u" "hbal u" "new \<noteq> 0" "new \<notin> set (adrs u)"
  defines "v \<equiv> tins cmp (new, d) u"
  shows "\<exists>t' r. avl_insert_n cmp new d t = Some (t', r) \<and> avl_shape t' v \<and>
    (\<forall>x. x \<noteq> new \<and> x \<notin> set (adrs u) \<longrightarrow> at_heap t' x = at_heap t x) \<and>
    (\<exists>e. (r, e) \<in> set_tree v \<and> (cmp e d = 0 \<or> (r, e) = (new, d)))"
proof (cases "u = Leaf")
  case True
  then show ?thesis
    using assms by (simp add: avl_insert_n_def avl_shape_def node_init_def kids.simps fun_eq_iff split: side.split)
next
  case False
  have u: "rep (at_heap t) u" "at_root t = addr u" "distinct (adrs u)" "at_size t = size u"
    using assms(1) by (simp_all add: avl_shape_def)
  have "inserts cmp new d (at_heap t) (at_size t) u v"
    using avl_insert_rep[OF u(1) False assms(2) u(3) assms(3,4)] by (simp add: v_def)
  then obtain h r e where h: "avl_insert cmp new d (at_heap t) (at_size t) (addr u) =
      Some (h, at_size t + (size v - size u), addr v, hg v - hg u, r)" "rep h v"
      "\<forall>x. x \<noteq> new \<and> x \<notin> set (adrs u) \<longrightarrow> h x = at_heap t x"
      "(r, e) \<in> set_tree v" "cmp e d = 0 \<or> (r, e) = (new, d)"
    by (auto simp: inserts_def)
  have "addr u \<noteq> 0" using addr_zero[OF u(1)] False by simp
  moreover have "avl_shape (t\<lparr>at_heap := h, at_root := addr v, at_size := at_size t + (size v - size u)\<rparr>) v"
    using h(2) distinct_tins[OF u(3), of "(new, d)" cmp] assms(4) size_tins[of u cmp "(new, d)"] u(4)
    by (simp add: avl_shape_def v_def)
  ultimately show ?thesis using h u(2) by (auto simp: avl_insert_n_def)
qed

text \<open>A sequence of calls of \<open>insert_n\<close>, each with the address its allocation gets.\<close>

fun avl_insert_all :: "('v \<Rightarrow> 'v \<Rightarrow> int) \<Rightarrow> 'v item list \<Rightarrow> 'v avl_tree \<Rightarrow> 'v avl_tree option" where
  "avl_insert_all cmp [] t = Some t"
| "avl_insert_all cmp ((new, d) # ops) t = do {
     (t, _) \<leftarrow> avl_insert_n cmp new d t;
     avl_insert_all cmp ops t }"

lemma avl_insert_all_rep:
  fixes cmp :: "'v \<Rightarrow> 'v \<Rightarrow> int"
  assumes "avl_shape t u" "hbal u" "distinct (map fst ops)" "0 \<notin> fst ` set ops"
    and "fst ` set ops \<inter> set (adrs u) = {}"
  defines "v \<equiv> fold (tins cmp) ops u"
  shows "\<exists>t'. avl_insert_all cmp ops t = Some t' \<and> avl_shape t' v \<and> hbal v \<and>
    set_tree v \<subseteq> set ops \<union> set_tree u \<and>
    (\<forall>x. x \<notin> fst ` set ops \<and> x \<notin> set (adrs u) \<longrightarrow> at_heap t' x = at_heap t x)"
  using assms(1-5) unfolding v_def
proof (induction ops arbitrary: t u)
  case (Cons op ops)
  obtain new d where op: "op = (new, d)" by (cases op)
  let ?u = "tins cmp (new, d) u"
  obtain t1 r where t1: "avl_insert_n cmp new d t = Some (t1, r)" "avl_shape t1 ?u"
    "\<forall>x. x \<noteq> new \<and> x \<notin> set (adrs u) \<longrightarrow> at_heap t1 x = at_heap t x"
    using avl_insert_n_rep[OF Cons.prems(1,2), of new cmp d] Cons.prems(4,5) by (auto simp: op)
  have sub: "set (adrs ?u) \<subseteq> insert new (set (adrs u))"
    using image_mono[OF set_tree_tins, of fst cmp "(new, d)" u] by simp
  have "hbal ?u" using tins_grown[OF Cons.prems(2)] by (auto simp: grown_def)
  moreover have "fst ` set ops \<inter> set (adrs ?u) = {}"
    using disjoint_insert_sub[OF sub, of "fst ` set ops"] Cons.prems(3,5) by (simp add: op Int_commute)
  ultimately obtain t' where t': "avl_insert_all cmp ops t1 = Some t'" "avl_shape t' (fold (tins cmp) ops ?u)"
    "hbal (fold (tins cmp) ops ?u)" "set_tree (fold (tins cmp) ops ?u) \<subseteq> set ops \<union> set_tree ?u"
    "\<forall>x. x \<notin> fst ` set ops \<and> x \<notin> set (adrs ?u) \<longrightarrow> at_heap t' x = at_heap t1 x"
    using Cons.IH[OF t1(2)] Cons.prems(3,4) by auto
  have "at_heap t' x = at_heap t x" if "x \<notin> fst ` set (op # ops)" "x \<notin> set (adrs u)" for x
  proof -
    have "x \<noteq> new" "x \<notin> set (adrs ?u)" "x \<notin> fst ` set ops" using that sub by (auto simp: op)
    then show ?thesis using t1(3) t'(5) that(2) by simp
  qed
  then show ?case
    using t1(1) t'(1-4) set_tree_tins[of cmp "(new, d)" u] unfolding op
    by (intro exI[of _ t']) auto
qed simp

context comparator
begin

lemma fold_put_item:
  assumes "ordered cmp u"
  shows "inorder (fold (tins cmp) ops u) = fold (put_item cmp) ops (inorder u)"
    and "ordered cmp (fold (tins cmp) ops u)"
proof -
  have "inorder (fold (tins cmp) ops u) = fold (put_item cmp) ops (inorder u) \<and> ordered cmp (fold (tins cmp) ops u)"
    using assms
  proof (induction ops arbitrary: u)
    case (Cons op ops)
    have "ordered cmp (tins cmp op u)"
      using Cons.prems by (simp add: inorder_tins put_item_ascending)
    from Cons.IH[OF this] show ?case
      unfolding fold_Cons comp_apply inorder_tins[OF Cons.prems, symmetric] .
  qed simp
  then show "inorder (fold (tins cmp) ops u) = fold (put_item cmp) ops (inorder u)"
    and "ordered cmp (fold (tins cmp) ops u)" by blast+
qed

lemma fold_put_item_has:
  assumes "d \<in> snd ` set ops \<or> (\<exists>y \<in> set ys. cmp (snd y) d = 0)"
  shows "\<exists>y \<in> set (fold (put_item cmp) ops ys). cmp (snd y) d = 0"
  using assms
proof (induction ops arbitrary: ys)
  case (Cons op ops)
  have "d \<in> snd ` set ops \<or> (\<exists>y \<in> set (put_item cmp op ys). cmp (snd y) d = 0)"
    using Cons.prems put_item_has[of op ys] put_item_keeps[of ys cmp op] by auto
  then show ?case using Cons.IH by simp
qed simp

lemma avl_check_rep:
  assumes "avl_shape t u" "hbal u" "ordered cmp u"
  shows "avl_check cmp t = Some ()"
proof -
  have u: "rep (at_heap t) u" "at_root t = addr u" "distinct (adrs u)" "at_size t = size u"
    using assms(1) by (simp_all add: avl_shape_def)
  show ?thesis
    using check_balance_rep[OF u(1,3)] check_avl_rep[OF u(1,3)] check_ordering_rep[OF u(1) assms(3)]
      avl_values_rep[OF u(1-3)] check_inorder_ascending[OF assms(3)] count_nodes_rep[OF u(1,3)]
      addr_zero[OF u(1)] u(2,4) assms(2)
    by (simp add: avl_check_def)
qed

lemma avl_count_rep:
  assumes "avl_shape t u" "ordered cmp u"
  shows "avl_count cmp t d = Some (if \<exists>v \<in> snd ` set_tree u. cmp v d = 0 then 1 else 0)"
proof -
  have u: "rep (at_heap t) u" "at_root t = addr u" using assms(1) by (simp_all add: avl_shape_def)
  from avl_find_rep[OF u assms(2), of d] show ?thesis
  proof (elim disjE exE conjE)
    fix l y r gs assume gs: "avl_find cmp t d = Some (fst y # pth gs)" "u = plug (Node l y r) gs"
      and y: "cmp (snd y) d = 0"
    have "y \<in> set_tree u" by (simp add: gs(2) set_inorder[symmetric] inorder_plug del: set_inorder)
    then show ?thesis using gs(1) y by (auto simp: avl_count_def)
  qed (auto simp: avl_count_def)
qed

lemma avl_insert_all_values:
  assumes "distinct (map fst ops)" "0 \<notin> fst ` set ops"
  shows "\<exists>t vs. avl_insert_all cmp ops (avl_init h) = Some t \<and> avl_check cmp t = Some () \<and>
    avl_values t = Some vs \<and> ascending cmp vs \<and> set vs \<subseteq> snd ` set ops \<and>
    (\<forall>d \<in> snd ` set ops. \<exists>v \<in> set vs. cmp v d = 0) \<and> at_size t = length vs \<and>
    (\<forall>d. avl_count cmp t d = Some (if \<exists>v \<in> set vs. cmp v d = 0 then 1 else 0)) \<and>
    (\<forall>x. x \<notin> fst ` set ops \<longrightarrow> at_heap t x = h x)"
proof -
  let ?u = "fold (tins cmp) ops Leaf"
  have "avl_shape (avl_init h) Leaf" by (simp add: avl_shape_def avl_init_def)
  then obtain t where t: "avl_insert_all cmp ops (avl_init h) = Some t" "avl_shape t ?u" "hbal ?u"
    "set_tree ?u \<subseteq> set ops" "\<forall>x. x \<notin> fst ` set ops \<longrightarrow> at_heap t x = h x"
    using avl_insert_all_rep[of "avl_init h" Leaf ops cmp] assms by (auto simp: avl_init_def)
  have ord: "ordered cmp ?u" using fold_put_item(2)[of Leaf ops] by (simp add: ascending_def)
  have vs: "avl_values t = Some (map snd (inorder ?u))"
    using t(2) avl_values_rep by (auto simp: avl_shape_def)
  have "\<forall>d \<in> snd ` set ops. \<exists>v \<in> set (map snd (inorder ?u)). cmp v d = 0"
    using fold_put_item_has[of _ ops "[]"] fold_put_item(1)[of Leaf ops] by (auto simp: ascending_def)
  moreover have "at_size t = length (map snd (inorder ?u))" using t(2) by (simp add: avl_shape_def)
  moreover have "set (map snd (inorder ?u)) \<subseteq> snd ` set ops" using t(4) by auto
  moreover have "avl_count cmp t d = Some (if \<exists>v \<in> set (map snd (inorder ?u)). cmp v d = 0 then 1 else 0)" for d
    using avl_count_rep[OF t(2) ord, of d] by simp
  ultimately show ?thesis
    using t(1,5) avl_check_rep[OF t(2,3) ord] vs ord by blast
qed

end

text \<open>C35: Whatever is inserted with insert_n, with a comparator that orders the values, the tree passes its
  own checks of balance fields, balance, order and size, iterating it gives the inserted values in ascending
  order with one representative of equal ones, count finds exactly these, and only the addresses that
  the allocator returned are written.\<close>

theorem avl_insert_run:
  assumes "comparator cmp" "distinct (map fst ops)" "0 \<notin> fst ` set ops"
  shows "\<exists>t vs. avl_insert_all cmp ops (avl_init h) = Some t \<and> avl_check cmp t = Some () \<and>
    avl_values t = Some vs \<and> ascending cmp vs \<and> set vs \<subseteq> snd ` set ops \<and>
    (\<forall>d \<in> snd ` set ops. \<exists>v \<in> set vs. cmp v d = 0) \<and> at_size t = length vs \<and>
    (\<forall>d. avl_count cmp t d = Some (if \<exists>v \<in> set vs. cmp v d = 0 then 1 else 0)) \<and>
    (\<forall>x. x \<notin> fst ` set ops \<longrightarrow> at_heap t x = h x)"
  using comparator.avl_insert_all_values[OF assms] .

text \<open>The words c, b, d, a and, at an address that is not used, b again.\<close>

theorem avl_insert_run_witness:
  "\<exists>t vs. avl_insert_all string_comparator
      [(1, [99]), (2, [98]), (3, [100]), (4, [97]), (5, [98])] (avl_init (\<lambda>_. None)) = Some t \<and>
    avl_check string_comparator t = Some () \<and> avl_values t = Some vs \<and> set vs = {[97], [98], [99], [100]} \<and>
    ascending string_comparator vs"
proof -
  let ?ops = "[(1, [99]), (2, [98]), (3, [100]), (4, [97]), (5, [98])] :: bytes item list"
  have "distinct (map fst ?ops)" "0 \<notin> fst ` set ?ops" by simp_all
  from avl_insert_run[OF strings.comparator_axioms this, of "\<lambda>_. None"]
  obtain t vs where t: "avl_insert_all string_comparator ?ops (avl_init (\<lambda>_. None)) = Some t"
    "avl_check string_comparator t = Some ()" "avl_values t = Some vs" "ascending string_comparator vs"
    "set vs \<subseteq> snd ` set ?ops" "\<forall>d \<in> snd ` set ?ops. \<exists>v \<in> set vs. string_comparator v d = 0"
    by blast
  have "d \<in> set vs" if "d \<in> snd ` set ?ops" for d
    using t(6)[rule_format, OF that] by (simp add: string_comparator_zero)
  then have "set vs = {[97], [98], [99], [100]}" using t(5) by auto
  then show ?thesis using t(1-4) by auto
qed

section \<open>clear\<close>

lemma avl_clear_nodes_rep:
  assumes "rep h t" "distinct (adrs t)"
  shows "avl_clear_nodes h (addr t) = Some (\<lambda>x. if x \<in> set (adrs t) then None else h x)"
  using assms
proof (induction t arbitrary: h)
  case Leaf
  then show ?case by (simp add: avl_clear_nodes.simps)
next
  case (Node l x r)
  obtain a d where x: "x = (a, d)" by (cases x)
  have n: "a \<noteq> 0" "h a = Some \<lparr>an_data = d, an_childs = kids LEFT (addr l) (addr r), an_balance = hg r - hg l\<rparr>"
    and lr: "rep h l" "rep h r" using Node.prems(1) by (simp_all add: x)
  have zero: "addr l = 0 \<longleftrightarrow> l = Leaf" "addr r = 0 \<longleftrightarrow> r = Leaf" using lr by (auto simp: addr_zero)
  define h1 where "h1 = (\<lambda>x. if x \<in> set (adrs l) then None else h x)"
  have adrs: "a \<notin> set (adrs l)" "a \<notin> set (adrs r)" "set (adrs l) \<inter> set (adrs r) = {}"
    "distinct (adrs l)" "distinct (adrs r)" using Node.prems(2) by (auto simp: x)
  have h1a: "h1 a = h a" using adrs(1) by (simp add: h1_def)
  have "\<exists>m. (if addr l \<noteq> 0 then do { h \<leftarrow> avl_clear_nodes h (addr l); modify h a (set_child LEFT 0) } else Some h) =
      Some (h1(a \<mapsto> m)) \<and> an_childs m RIGHT = addr r"
  proof (cases "l = Leaf")
    case True
    then show ?thesis using n h1a by (intro exI) (auto simp: h1_def fun_eq_iff)
  next
    case False
    then show ?thesis
      using n h1a zero Node.IH(1)[OF lr(1) adrs(4), folded h1_def]
      by (intro exI[of _ "set_child LEFT 0 \<lparr>an_data = d, an_childs = kids LEFT (addr l) (addr r),
          an_balance = hg r - hg l\<rparr>"]) (simp add: set_child_def put_child_def add_balance_def)
  qed
  then obtain m where m: "(if addr l \<noteq> 0 then do { h \<leftarrow> avl_clear_nodes h (addr l); modify h a (set_child LEFT 0) }
      else Some h) = Some (h1(a \<mapsto> m))" "an_childs m RIGHT = addr r" by blast
  define h2 where "h2 = (\<lambda>x. if x \<in> set (adrs r) then None else (h1(a \<mapsto> m)) x)"
  have h2a: "h2 a = Some m" using adrs(2) by (simp add: h2_def)
  have "rep (h1(a \<mapsto> m)) r"
    by (rule rep_frame[OF lr(2)]) (use adrs(2,3) in \<open>auto simp: h1_def\<close>)
  then have right: "avl_clear_nodes (h1(a \<mapsto> m)) (addr r) = Some h2"
    unfolding h2_def by (rule Node.IH(2)[OF _ adrs(5)])
  have "\<exists>m'. (if addr r \<noteq> 0 then do { h \<leftarrow> avl_clear_nodes (h1(a \<mapsto> m)) (addr r); modify h a (set_child RIGHT 0) }
      else Some (h1(a \<mapsto> m))) = Some (h2(a \<mapsto> m'))"
  proof (cases "r = Leaf")
    case True
    then show ?thesis by (intro exI[of _ m]) (auto simp: h2_def fun_eq_iff)
  next
    case False
    then show ?thesis
      using n(1) zero right h2a by (intro exI[of _ "set_child RIGHT 0 m"]) simp
  qed
  then obtain m' where m': "(if addr r \<noteq> 0 then do { h \<leftarrow> avl_clear_nodes (h1(a \<mapsto> m)) (addr r);
      modify h a (set_child RIGHT 0) } else Some (h1(a \<mapsto> m))) = Some (h2(a \<mapsto> m'))" by blast
  have "avl_clear_nodes h a = do {
      h \<leftarrow> (if addr l \<noteq> 0 then do { h \<leftarrow> avl_clear_nodes h (addr l); modify h a (set_child LEFT 0) } else Some h);
      n \<leftarrow> deref h a;
      h \<leftarrow> (if an_childs n RIGHT \<noteq> 0
            then do { h \<leftarrow> avl_clear_nodes h (an_childs n RIGHT); modify h a (set_child RIGHT 0) } else Some h);
      _ \<leftarrow> deref h a;
      Some (h(a := None)) }"
    using n by (subst avl_clear_nodes.simps) simp
  moreover have "deref (h1(a \<mapsto> m)) a = Some m" "deref (h2(a \<mapsto> m')) a = Some m'" using n(1) by simp_all
  ultimately have "avl_clear_nodes h a = Some ((h2(a \<mapsto> m'))(a := None))"
    by (simp only: m m' Option.bind.bind_lunit)
  moreover have "(h2(a \<mapsto> m'))(a := None) = (\<lambda>y. if y \<in> set (adrs (Node l x r)) then None else h y)"
    by (auto simp: fun_eq_iff h2_def h1_def x)
  ultimately show ?case by (simp add: x)
qed

lemma avl_clear_frees:
  assumes "avl_shape t u"
  shows "\<exists>t'. avl_clear t = Some t' \<and> avl_shape t' Leaf \<and>
    at_heap t' = (\<lambda>x. if x \<in> set (adrs u) then None else at_heap t x)"
proof -
  have u: "rep (at_heap t) u" "at_root t = addr u" "distinct (adrs u)"
    using assms by (simp_all add: avl_shape_def)
  show ?thesis
    using avl_clear_nodes_rep[OF u(1,3)] addr_zero[OF u(1)] u(2)
    by (cases "u = Leaf") (simp_all add: avl_clear_def avl_shape_def)
qed

end
