(* ===== verification/Avl_Tree_Erase.thy ===== *)
theory Avl_Tree_Erase
  imports Avl_Tree_Correct
begin

text \<open>
  \<open>erase\<close> in a balanced tree: the walk up rebalances every node on the path once, the node goes and all
  others stay in their order. It does not always leave a balanced tree.
\<close>

section \<open>The walk up, on trees\<close>

fun tup :: "'v item tree \<Rightarrow> 'v frame list \<Rightarrow> 'v item tree" where
  "tup t [] = t"
| "tup t ((s, x, q) # fs) = tup (tfix (other s) x q t) fs"

fun cbal :: "int \<Rightarrow> 'v frame list \<Rightarrow> bool" where
  "cbal k [] = True"
| "cbal k ((s, x, q) # fs) = (\<bar>k - hg q\<bar> \<le> 1 \<and> hbal q \<and> cbal (max k (hg q) + 1) fs)"

fun chg :: "int \<Rightarrow> 'v frame list \<Rightarrow> int" where
  "chg k [] = k"
| "chg k ((s, x, q) # fs) = chg (max k (hg q) + 1) fs"

lemma hbal_plug: "hbal (plug t fs) \<longleftrightarrow> hbal t \<and> cbal (hg t) fs"
  by (induction t fs rule: plug.induct) (auto simp: of_nat_max add.commute)

lemma chg_plug: "chg (hg t) fs = hg (plug t fs)"
  by (induction t fs rule: plug.induct) (auto simp: of_nat_max add.commute)

lemma inorder_tup: "inorder (tup t fs) = inorder (plug t fs)"
proof (induction t fs rule: tup.induct)
  case (2 t s x q fs)
  have "inorder (tfix (other s) x q t) = inorder (mk s x t q)" by simp
  then show ?case using 2 by (simp add: inorder_plug)
qed simp

lemma treb_height:
  assumes "hbal c" "hg c - hg q = 2"
  shows "hg (treb s x c q) = hg c \<or> hg (treb s x c q) = hg c + 1"
proof -
  have "c \<noteq> Leaf" using assms(2) by auto
  then obtain y p u where c: "c = mk s y p u" and pu: "\<bar>hg p - hg u\<bar> \<le> 1" "hbal u"
    using hbal_cases[OF assms(1)] by metis
  have h: "max (hg p) (hg u) + 1 - hg q = 2" using assms(2) by (simp add: c of_nat_max)
  show ?thesis
  proof (cases "bent s c")
    case False
    then show ?thesis
      using h pu treb_straight[of s y p u x q] by (simp add: c of_nat_max) linarith
  next
    case True
    then have "u \<noteq> Leaf" by (auto simp: c bent_def)
    then obtain w v z where u: "u = mk s w v z" and vz: "\<bar>hg v - hg z\<bar> \<le> 1"
      using hbal_cases[OF pu(2)] by metis
    have "hg p \<le> hg u" using True by (auto simp: bent_def c split: if_splits)
    then show ?thesis
      using h pu vz treb_bent[of s y p w v z x q] True by (simp add: c u of_nat_max) linarith
  qed
qed

lemma tfix_shrunk:
  fixes x :: 'a and s :: side
  assumes "hbal q" "\<bar>k - hg q\<bar> \<le> 1" "hg t - k = 0 \<or> hg t - k = - 1"
  defines "j \<equiv> hg (tfix s x q t) - (max k (hg q) + 1)"
  shows "j = 0 \<or> j = - 1"
proof (cases "hg q - hg t \<ge> 2")
  case True
  then have "hg q - hg t = 2" using assms(2,3) by linarith
  from treb_height[OF assms(1) this, of s x] show ?thesis
    using True assms(2,3) by (simp add: j_def tfix_def) linarith
next
  case False
  then show ?thesis using assms(2,3) by (simp add: j_def tfix_def of_nat_max) linarith
qed

section \<open>The walk up, on the heap\<close>

lemma up_hc_height:
  fixes t k q :: int
  assumes "\<bar>k - q\<bar> \<le> 1" "t - k = 0 \<or> t - k = - 1"
  shows "up_hc s (sign_of s * (k - q)) (t - k) = max t q - max k q"
  using assms by (cases s) (auto simp: up_hc_def max_def sgn_if)

lemma set_tree_plug: "set_tree (plug t fs) = set_tree t \<union> set_tree (plug Leaf fs)"
  unfolding set_inorder[symmetric] inorder_plug by auto

lemma crep_frame:
  "crep h p k fs \<Longrightarrow> (\<And>a. a \<in> fst ` set_tree (plug Leaf fs) \<Longrightarrow> h' a = h a) \<Longrightarrow> crep h' p k fs"
proof (induction h p k fs rule: crep.induct)
  case (2 h p k s a d q fs)
  have all: "h' x = h x" if "x = a \<or> x \<in> fst ` set_tree q \<or> x \<in> fst ` set_tree (plug Leaf fs)" for x
    using that 2(3)[of x] set_tree_plug[of "mk s (a, d) Leaf q" fs] by auto
  have "rep h' q" by (rule rep_frame[of h]) (use 2(2) all in auto)
  moreover have "crep h' a (max k (hg q) + 1) fs" by (rule 2(1)) (use 2(2) all in auto)
  ultimately show ?case using 2(2) all[of a] by simp
qed simp

lemma up_fix:
  fixes d :: 'v and a :: nat and s :: side
  assumes "rep h (mk s (a, d) t q)" "distinct (adrs (mk s (a, d) t q))" "hbal q" "hg q - hg t \<le> 2"
  defines "u \<equiv> tfix (other s) (a, d) q t"
  shows "\<exists>h'. (if hg q - hg t \<ge> 2 then avl_rebalance h a 0 else Some (h, a, 0)) =
      Some (h', addr u, hg u - hg (mk s (a, d) t q)) \<and> rep h' u \<and>
    (\<forall>x. x \<notin> set (adrs (mk s (a, d) t q)) \<longrightarrow> h' x = h x)"
proof (cases "hg q - hg t \<ge> 2")
  case True
  have m: "mk s (a, d) t q = mk (other s) (a, d) q t" by simp
  have "u = treb (other s) (a, d) q t" using True by (simp add: u_def tfix_def)
  then show ?thesis
    using avl_rebalance_rep[OF assms(1,2)[unfolded m] assms(3), of 0] True assms(4) unfolding m by auto
next
  case False
  then show ?thesis using assms(1) by (simp add: u_def tfix_def)
qed

lemma up_balance:
  assumes "crep h (addr t) k ((s, (a, d), q) # fs)" "rep h t" "distinct (adrs (mk s (a, d) t q))"
    and "\<bar>k - hg q\<bar> \<le> 1" "hg t - k = 0 \<or> hg t - k = - 1"
  defines "n \<equiv> \<lparr>an_data = d, an_childs = kids s (addr t) (addr q), an_balance = sign_of s * (hg t - hg q)\<rparr>"
  shows "\<exists>m. deref h a = Some m \<and> up_hc s (an_balance m) (hg t - k) = hg (mk s (a, d) t q) - (max k (hg q) + 1)"
    and "modify h a (add_balance (sign_of s * (hg t - k))) = Some (h(a \<mapsto> n))"
    and "imbalanced n \<longleftrightarrow> hg q - hg t \<ge> 2" and "deref (h(a \<mapsto> n)) a = Some n"
    and "rep (h(a \<mapsto> n)) (mk s (a, d) t q)"
proof -
  let ?m = "\<lparr>an_data = d, an_childs = kids s (addr t) (addr q), an_balance = sign_of s * (k - hg q)\<rparr>"
  have a: "a \<noteq> 0" "h a = Some ?m" "rep h q" using assms(1) by simp_all
  show "\<exists>m. deref h a = Some m \<and> up_hc s (an_balance m) (hg t - k) = hg (mk s (a, d) t q) - (max k (hg q) + 1)"
    using a up_hc_height[OF assms(4,5), of s] by (simp add: of_nat_max)
  show "modify h a (add_balance (sign_of s * (hg t - k))) = Some (h(a \<mapsto> n))"
    using a assms(4,5) by (cases s) (auto simp: add_balance_def n_def)
  show "imbalanced n \<longleftrightarrow> hg q - hg t \<ge> 2"
    using assms(4,5) by (cases s) (auto simp: imbalanced_def n_def)
  show "deref (h(a \<mapsto> n)) a = Some n" using a(1) by simp
  show "rep (h(a \<mapsto> n)) (mk s (a, d) t q)"
    using a assms(2,3) by (simp add: n_def)
qed

lemma distinct_plug: "distinct (adrs (plug t fs)) \<Longrightarrow>
    distinct (adrs t) \<and> set (adrs t) \<inter> fst ` set_tree (plug Leaf fs) = {}"
  by (auto simp: inorder_plug set_tree_plug[of t fs] simp flip: set_inorder)

lemma distinct_frames: "distinct (adrs (plug t fs)) \<Longrightarrow> distinct (adrs (plug Leaf fs))"
  by (auto simp: inorder_plug)

text \<open>A frame that gets another child.\<close>

lemma crep_point:
  assumes "crep h p k ((s, (b, e), q) # fs)" "distinct (adrs (plug Leaf ((s, (b, e), q) # fs)))"
  shows "crep (h(b \<mapsto> \<lparr>an_data = e, an_childs = kids s p' (addr q), an_balance = sign_of s * (k - hg q)\<rparr>))
    p' k ((s, (b, e), q) # fs)"
proof -
  have "b \<notin> fst ` set_tree q" "b \<notin> fst ` set_tree (plug Leaf fs)"
    using distinct_plug[of "mk s (b, e) Leaf q" fs] assms(2) by simp_all
  moreover have "crep h b (max k (hg q) + 1) fs" "rep h q" "b \<noteq> 0" using assms(1) by simp_all
  moreover have "crep (h(b \<mapsto> m)) b (max k (hg q) + 1) fs" for m
    by (rule crep_frame[of h]) (use calculation(2,3) in auto)
  ultimately show ?thesis by simp
qed

text \<open>The side of a child.\<close>

lemma crep_side:
  assumes "crep h (addr t) k ((s, (b, e), q) # fs)" "rep h t" "t \<noteq> Leaf"
    and "distinct (adrs (plug t ((s, (b, e), q) # fs)))"
  shows "\<exists>m. deref h b = Some m \<and> node_side m (addr t) = s"
proof -
  have "addr t \<noteq> addr q"
  proof (cases "q = Leaf")
    case False
    then show ?thesis
      using distinct_plug[of "mk s (b, e) t q" fs] assms(4) rep_addr_in[OF False] rep_addr_in[OF assms(3)]
      by (simp del: set_map) (metis disjoint_iff)
  qed (use rep_top[OF assms(2,3)] in simp)
  then show ?thesis using assms(1) by (cases s) (simp_all add: node_side_def)
qed

lemma tfix_addr: "rep h (tfix s x c q) \<Longrightarrow> addr (tfix s x c q) \<noteq> 0"
  using addr_zero[of h "tfix s x c q"] by simp

lemma set_tree_tup: "set_tree (tup t fs) = set_tree (plug t fs)"
  by (metis inorder_tup set_inorder)

lemma rebalance_up_loop_step:
  assumes "deref h n = Some m" "up_hc s (an_balance m) hc = c"
    and "modify h n (add_balance (sign_of s * hc)) = Some h1" "deref h1 n = Some m1"
    and "deref h1 p = Some mp" "node_side mp n = s2"
    and "(if imbalanced m1 then avl_rebalance h1 n 0 else Some (h1, n, 0)) = Some (h2, n2, dd)"
    and "modify h2 p (set_child s2 n2) = Some h3"
  shows "rebalance_up_loop h root rooted nr (n # p # path) s hc =
    rebalance_up_loop h3 root rooted nr (p # path) s2 (c + dd)"
  using assms by (subst rebalance_up_loop.simps(2)) (cases "imbalanced m1";
    simp add: Let_def del: rebalance_up_loop.simps(2))

text \<open>One round of the loop: the child of the node \<open>a\<close> is done, now its parent \<open>b\<close> gets the child.\<close>

lemma rebalance_up_loop_round:
  fixes a b :: nat and d e :: 'v and s s2 :: side and t q q2 :: "'v item tree" and fs :: "'v frame list"
  defines "f \<equiv> (s2, (b, e), q2) # fs" and "u \<equiv> tfix (other s) (a, d) q t"
  assumes "crep h (addr t) k ((s, (a, d), q) # f)" "rep h t" "distinct (adrs (plug t ((s, (a, d), q) # f)))"
    and "\<bar>k - hg q\<bar> \<le> 1" "hbal q" "hg t - k = 0 \<or> hg t - k = - 1"
  shows "\<exists>h'. rebalance_up_loop h root rooted nr (a # pth f) s (hg t - k) =
      rebalance_up_loop h' root rooted nr (pth f) s2 (hg u - (max k (hg q) + 1)) \<and>
    rep h' u \<and> crep h' (addr u) (max k (hg q) + 1) f \<and>
    (\<forall>y. y \<notin> set (adrs (plug t ((s, (a, d), q) # f))) \<longrightarrow> h' y = h y)"
proof -
  let ?n = "\<lparr>an_data = d, an_childs = kids s (addr t) (addr q), an_balance = sign_of s * (hg t - hg q)\<rparr>"
  let ?k = "max k (hg q) + 1" and ?t = "mk s (a, d) t q"
  have plug: "distinct (adrs (plug ?t f))" and above: "crep h a ?k f"
    using assms(3,5) by simp_all
  have dist: "distinct (adrs ?t)" and disj: "set (adrs ?t) \<inter> fst ` set_tree (plug Leaf f) = {}"
    using distinct_plug[OF plug] by simp_all
  note up = up_balance[OF assms(3,4) dist assms(6,8)]
  obtain m where m: "deref h a = Some m" "up_hc s (an_balance m) (hg t - k) = hg ?t - ?k"
    using up(1) by blast
  have "hg q - hg t \<le> 2" using assms(6,8) by linarith
  from up_fix[OF up(5) dist assms(7) this] obtain h2 where h2:
    "(if hg q - hg t \<ge> 2 then avl_rebalance (h(a \<mapsto> ?n)) a 0 else Some (h(a \<mapsto> ?n), a, 0)) =
      Some (h2, addr u, hg u - hg ?t)"
    "rep h2 u" "\<forall>x. x \<notin> set (adrs ?t) \<longrightarrow> h2 x = (h(a \<mapsto> ?n)) x"
    unfolding u_def by blast
  have same: "h2 y = h y" if "y \<notin> set (adrs ?t)" for y
    using h2(3) that by simp
  define h3 where "h3 = h2(b \<mapsto> \<lparr>an_data = e, an_childs = kids s2 (addr u) (addr q2),
      an_balance = sign_of s2 * (?k - hg q2)\<rparr>)"
  have b: "b \<in> fst ` set_tree (plug Leaf f)"
    using set_tree_plug[of "mk s2 (b, e) Leaf q2" fs] by (auto simp: f_def)
  have ab: "b \<notin> set (adrs ?t)" using disj b by (metis disjoint_iff)
  have crep1: "crep (h(a \<mapsto> ?n)) (addr ?t) ?k f"
    unfolding addr_mk fst_conv
    by (rule crep_frame[OF above]) (use disj in \<open>auto simp del: plug.simps\<close>)
  from crep_side[OF crep1[unfolded f_def] up(5) mk_not_Leaf plug[unfolded f_def]]
  obtain mp where mp: "deref (h(a \<mapsto> ?n)) b = Some mp" "node_side mp a = s2" by auto
  have crep2: "crep h2 a ?k f"
    by (rule crep_frame[OF above]) (use same disj in \<open>metis disjoint_iff\<close>)
  have crep3: "crep h3 (addr u) ?k f"
    using crep_point[OF crep2[unfolded f_def] distinct_frames[OF plug, unfolded f_def]]
    unfolding h3_def f_def .
  have "a \<noteq> 0" "addr u \<noteq> 0" using up(5) h2(2) tfix_addr[of h2] by (simp_all add: u_def)
  then have set: "modify h2 b (set_child s2 (addr u)) = Some h3"
    using crep2 by (simp add: h3_def set_child_def put_child_def f_def)
  have rep3: "rep h3 u"
    using h2(2) ab by (simp add: h3_def u_def)
  have "rebalance_up_loop h root rooted nr (a # b # pth fs) s (hg t - k) =
      rebalance_up_loop h3 root rooted nr (b # pth fs) s2 (hg ?t - ?k + (hg u - hg ?t))"
    by (rule rebalance_up_loop_step[OF m up(2,4) mp _ set]) (use h2(1) up(3) in simp)
  moreover have "hg ?t - ?k + (hg u - hg ?t) = hg u - ?k" by linarith
  moreover have "h3 y = h y" if "y \<notin> set (adrs (plug t ((s, (a, d), q) # f)))" for y
  proof -
    have "y \<noteq> b" "y \<notin> set (adrs ?t)"
      using that b set_tree_plug[of ?t f] by auto
    then show ?thesis using same by (simp add: h3_def)
  qed
  ultimately show ?thesis using rep3 crep3 by (simp only: f_def list.map prod.case fst_conv) blast
qed

lemma rebalance_up_loop_rep:
  assumes "crep h (addr t) k ((s, x, q) # fs)" "rep h t" "distinct (adrs (plug t ((s, x, q) # fs)))"
    and "cbal k ((s, x, q) # fs)" "hg t - k = 0 \<or> hg t - k = - 1"
    and "last (pth ((s, x, q) # fs)) = nr"
  shows "\<exists>h' root'. rebalance_up_loop h root rooted nr (pth ((s, x, q) # fs)) s (hg t - k) =
      Some (h', root', addr (tup t ((s, x, q) # fs)),
        hg (tup t ((s, x, q) # fs)) - chg k ((s, x, q) # fs)) \<and>
    rep h' (tup t ((s, x, q) # fs)) \<and>
    (\<forall>y. y \<notin> set (adrs (plug t ((s, x, q) # fs))) \<longrightarrow> h' y = h y)"
  using assms
proof (induction fs arbitrary: h t k s x q)
  case Nil
  obtain a d where x: "x = (a, d)" by (cases x)
  let ?n = "\<lparr>an_data = d, an_childs = kids s (addr t) (addr q), an_balance = sign_of s * (hg t - hg q)\<rparr>"
  have dist: "distinct (adrs (mk s (a, d) t q))" and bal: "\<bar>k - hg q\<bar> \<le> 1" "hbal q" and nr: "nr = a"
    using Nil.prems by (simp_all add: x)
  note up = up_balance[OF Nil.prems(1)[unfolded x] Nil.prems(2) dist bal(1) Nil.prems(5)]
  obtain m where m: "deref h a = Some m" "up_hc s (an_balance m) (hg t - k) = hg (mk s (a, d) t q) - (max k (hg q) + 1)"
    using up(1) by blast
  have "hg q - hg t \<le> 2" using bal Nil.prems(5) by linarith
  from up_fix[OF up(5) dist bal(2) this] obtain h' where h':
    "(if hg q - hg t \<ge> 2 then avl_rebalance (h(a \<mapsto> ?n)) a 0 else Some (h(a \<mapsto> ?n), a, 0)) =
      Some (h', addr (tfix (other s) (a, d) q t), hg (tfix (other s) (a, d) q t) - hg (mk s (a, d) t q))"
    "rep h' (tfix (other s) (a, d) q t)" "\<forall>x. x \<notin> set (adrs (mk s (a, d) t q)) \<longrightarrow> h' x = (h(a \<mapsto> ?n)) x"
    by blast
  have "\<exists>root'. rebalance_up_loop h root rooted nr (pth [(s, x, q)]) s (hg t - k) =
      Some (h', root', addr (tup t [(s, x, q)]), hg (tup t [(s, x, q)]) - chg k [(s, x, q)])"
    using m up(2-4) h'(1) nr by (cases "hg q - hg t \<ge> 2") (auto simp: x Let_def)
  then show ?case using h'(2,3) by (auto simp: x)
next
  case (Cons f fs)
  obtain a d where x: "x = (a, d)" by (cases x)
  obtain s2 b e q2 where f: "f = (s2, (b, e), q2)" by (cases f) auto
  let ?u = "tfix (other s) (a, d) q t" and ?k = "max k (hg q) + 1" and ?f = "(s2, (b, e), q2) # fs"
  have bal: "\<bar>k - hg q\<bar> \<le> 1" "hbal q" "cbal ?k ?f" using Cons.prems(4) by (simp_all add: x f)
  obtain h3 where h3: "rebalance_up_loop h root rooted nr (a # pth ?f) s (hg t - k) =
      rebalance_up_loop h3 root rooted nr (pth ?f) s2 (hg ?u - ?k)" "rep h3 ?u" "crep h3 (addr ?u) ?k ?f"
    "\<forall>y. y \<notin> set (adrs (plug t ((s, (a, d), q) # ?f))) \<longrightarrow> h3 y = h y"
    using rebalance_up_loop_round[OF Cons.prems(1)[unfolded x f] Cons.prems(2)
      Cons.prems(3)[unfolded x f] bal(1,2) Cons.prems(5)] by blast
  have hc: "hg ?u - ?k = 0 \<or> hg ?u - ?k = - 1"
    using tfix_shrunk[OF bal(2,1) Cons.prems(5)] .
  have "inorder ?u = inorder (mk s (a, d) t q)" by simp
  then have ino: "inorder (plug ?u ?f) = inorder (plug t ((s, (a, d), q) # ?f))"
    unfolding inorder_plug plug.simps(2)[of t] by presburger
  then have dist3: "distinct (adrs (plug ?u ?f))"
    using Cons.prems(3) by (simp add: x f)
  obtain h' root' where h': "rebalance_up_loop h3 root rooted nr (pth ?f) s2 (hg ?u - ?k) =
      Some (h', root', addr (tup ?u ?f), hg (tup ?u ?f) - chg ?k ?f)" "rep h' (tup ?u ?f)"
    "\<forall>y. y \<notin> set (adrs (plug ?u ?f)) \<longrightarrow> h' y = h3 y"
    using Cons.IH[OF h3(3,2) dist3 bal(3) hc] Cons.prems(6) by (auto simp: x f)
  have "h' y = h y" if "y \<notin> set (adrs (plug t ((s, (a, d), q) # ?f)))" for y
    using h'(3) h3(4) that unfolding ino by metis
  then show ?case
    using h3(1) h'(1,2) unfolding x f by (auto simp del: rebalance_up_loop.simps)
qed

lemma rebalance_up_rep:
  assumes "crep h (addr t) k fs" "rep h t" "distinct (adrs (plug t fs))" "cbal k fs"
    and "hg t - k = 0 \<or> hg t - k = - 1" and "fs \<noteq> []" "s = fst (hd fs)"
  shows "\<exists>h' root'. rebalance_up h root (pth fs) s (hg t - k) =
      Some (h', root', addr (tup t fs), hg (tup t fs) - chg k fs) \<and> rep h' (tup t fs) \<and>
    (\<forall>y. y \<notin> set (adrs (plug t fs)) \<longrightarrow> h' y = h y)"
proof -
  obtain x q gs where fs: "fs = (s, x, q) # gs" using assms(6,7) by (cases fs) auto
  show ?thesis
    using rebalance_up_loop_rep[OF assms(1)[unfolded fs] assms(2) assms(3,4)[unfolded fs] assms(5) refl,
      of root "last (pth fs) = root"] by (auto simp: rebalance_up_def fs simp del: rebalance_up_loop.simps)
qed

section \<open>unlink\<close>

text \<open>A frame's node gets another child, one level lower, and the walk up starts there.\<close>

lemma put_and_rebalance:
  fixes b :: nat and e :: 'v and q t :: "'v item tree" and fs :: "'v frame list" and s :: side
  defines "f \<equiv> (s, (b, e), q) # fs"
  assumes "crep h p k f" "rep h t" "distinct (adrs (plug t f))" "cbal k f"
    and "hg t - k = 0 \<or> hg t - k = - 1"
  shows "\<exists>h' root'. do { h \<leftarrow> modify h b (put_child s (addr t)); rebalance_up h root (pth f) s (hg t - k) } =
      Some (h', root', addr (tup t f), hg (tup t f) - chg k f) \<and> rep h' (tup t f) \<and>
    (\<forall>y. y \<notin> set (adrs (plug t f)) \<longrightarrow> h' y = h y)"
proof -
  let ?h = "h(b \<mapsto> \<lparr>an_data = e, an_childs = kids s (addr t) (addr q), an_balance = sign_of s * (k - hg q)\<rparr>)"
  have f: "f \<noteq> []" "s = fst (hd f)" by (simp_all add: f_def)
  have put: "modify h b (put_child s (addr t)) = Some ?h"
    using assms(2) by (simp add: f_def put_child_def)
  have b: "b \<in> fst ` set_tree (plug Leaf f)"
    using set_tree_plug[of "mk s (b, e) Leaf q" fs] by (auto simp: f_def)
  then have bt: "b \<notin> set (adrs t)" using distinct_plug[OF assms(4)] by (metis disjoint_iff)
  have crep: "crep ?h (addr t) k f"
    using crep_point[OF assms(2)[unfolded f_def] distinct_frames[OF assms(4), unfolded f_def]]
    unfolding f_def .
  have rep: "rep ?h t" using assms(3) bt by simp
  obtain h' root' where h': "rebalance_up ?h root (pth f) s (hg t - k) =
      Some (h', root', addr (tup t f), hg (tup t f) - chg k f)" "rep h' (tup t f)"
    "\<forall>y. y \<notin> set (adrs (plug t f)) \<longrightarrow> h' y = ?h y"
    using rebalance_up_rep[OF crep rep assms(4-6) f] by blast
  have "h' y = h y" if "y \<notin> set (adrs (plug t f))" for y
    using h'(3) that b set_tree_plug[of t f] by (auto simp del: plug.simps)
  then show ?thesis using h'(1,2) put by (intro exI[of _ h'] exI[of _ root']) simp
qed

text \<open>A node with at most one child.\<close>

lemma avl_unlink_single:
  assumes "rep h (plug (Node l (a, d) r) fs)" "distinct (adrs (plug (Node l (a, d) r) fs))"
    and "hbal (plug (Node l (a, d) r) fs)" "l = Leaf \<or> r = Leaf"
  defines "c \<equiv> (if l = Leaf then r else l)"
  shows "\<exists>h' root' hc'. avl_unlink h root (a # pth fs) hc =
      Some (h', root', a, addr (tup c fs), hc') \<and> rep h' (tup c fs) \<and>
    (hc = - 1 \<longrightarrow> hc' = hg (tup c fs) - hg (plug (Node l (a, d) r) fs)) \<and>
    (\<forall>y. y \<notin> set (adrs (plug c fs)) \<longrightarrow> h' y = h y)"
proof -
  let ?t = "Node l (a, d) r"
  let ?n = "\<lparr>an_data = d, an_childs = kids LEFT (addr l) (addr r), an_balance = hg r - hg l\<rparr>"
  have t: "rep h ?t" and above: "crep h (addr ?t) (hg ?t) fs" using assms(1) by (simp_all add: rep_plug)
  have bal: "hbal ?t" and cbal: "cbal (hg ?t) fs" using assms(3) by (simp_all add: hbal_plug)
  have node: "deref h a = Some ?n" "a \<noteq> 0" using t by simp_all
  have kids: "addr l = 0 \<longleftrightarrow> l = Leaf" "addr r = 0 \<longleftrightarrow> r = Leaf"
    using t addr_zero[of h l] addr_zero[of h r] by simp_all
  have c: "rep h c" "hg c - hg ?t = - 1" using t assms(4) by (auto simp: c_def)
  have childs: "node_childs ?n = 0 \<longleftrightarrow> c = Leaf" "node_childs ?n = 0 \<or> node_childs ?n = 1"
    using kids assms(4) by (auto simp: node_childs_def c_def)
  have child: "(if node_childs ?n = 0 then 0 else an_childs ?n (heavy_side ?n)) = addr c"
    using kids assms(4) bal by (auto simp: node_childs_def c_def heavy_side_def)
  show ?thesis
  proof (cases fs)
    case Nil
    then show ?thesis
      using node childs child c by (subst avl_unlink.simps) (auto simp: c_def)
  next
    case (Cons f0 gs)
    obtain s b e q where f: "f0 = (s, (b, e), q)" by (cases f0) auto
    have fs: "fs = (s, (b, e), q) # gs" by (simp add: Cons f)
    obtain m where m: "deref h b = Some m" "node_side m a = s"
      using crep_side[OF above[unfolded fs] t _ assms(2)[unfolded fs]] by auto
    have b: "b \<noteq> 0" using above by (simp add: fs)
    have sub: "set_tree (plug c fs) \<subseteq> set_tree (plug ?t fs)"
      unfolding set_tree_plug[of c] set_tree_plug[of ?t] by (auto simp: c_def)
    have dist: "distinct (adrs (plug c fs))"
      using assms(2,4) by (auto simp: inorder_plug c_def)
    obtain h' root' where h': "do { h \<leftarrow> modify h b (put_child s (addr c)); rebalance_up h root (pth fs) s (hg c - hg ?t) } =
        Some (h', root', addr (tup c fs), hg (tup c fs) - chg (hg ?t) fs)" "rep h' (tup c fs)"
      "\<forall>y. y \<notin> set (adrs (plug c fs)) \<longrightarrow> h' y = h y"
      using put_and_rebalance[OF above[unfolded fs] c(1) dist[unfolded fs] cbal[unfolded fs]] c(2)
      unfolding fs by blast
    have "avl_unlink h root (a # pth fs) hc =
        Some (h', root', a, addr (tup c fs), hg (tup c fs) - chg (hg ?t) fs)"
      using node m b childs child h'(1)[unfolded c(2)]
      by (subst avl_unlink.simps, cases "node_childs ?n = 0") (simp_all add: fs del: plug.simps tup.simps)
    then show ?thesis using h'(2,3) chg_plug[of ?t fs] by auto
  qed
qed

lemma leftmost_leaf_rep:
  assumes "rep h t" "t \<noteq> Leaf"
  shows "\<exists>y r gs. leftmost_leaf h (addr t) path = Some (fst y # pth gs @ path) \<and>
    t = plug (Node Leaf y r) gs \<and> all_left gs"
  using assms
proof (induction t arbitrary: path)
  case (Node l x r)
  obtain a d where x: "x = (a, d)" by (cases x)
  have step: "leftmost_leaf h a path = leftmost_leaf h (addr l) (a # path)"
    using Node.prems by (subst leftmost_leaf.simps) (simp add: x)
  show ?case
  proof (cases "l = Leaf")
    case True
    then show ?thesis
      using step by (intro exI[of _ x] exI[of _ r] exI[of _ "[]"])
        (simp add: all_left_def x leftmost_leaf.simps[of h 0])
  next
    case False
    have "rep h l" using Node.prems(1) by (simp add: x)
    from Node.IH(1)[OF this False, of "a # path"]
    obtain y r' gs where "leftmost_leaf h (addr l) (a # path) = Some (fst y # pth gs @ a # path)"
        "l = plug (Node Leaf y r') gs" "all_left gs"
      by blast
    then show ?thesis
      using step by (intro exI[of _ y] exI[of _ r'] exI[of _ "gs @ [(LEFT, x, r)]"])
        (simp add: plug_append x)
  qed
qed simp

lemma tup_shrunk:
  "cbal k fs \<Longrightarrow> hg t - k = 0 \<or> hg t - k = - 1 \<Longrightarrow>
    hg (tup t fs) - chg k fs = 0 \<or> hg (tup t fs) - chg k fs = - 1"
proof (induction t fs arbitrary: k rule: tup.induct)
  case (2 t s x q fs)
  have "hg (tfix (other s) x q t) - (max k (hg q) + 1) = 0 \<or>
      hg (tfix (other s) x q t) - (max k (hg q) + 1) = - 1"
    using tfix_shrunk[of q k t "other s" x] 2(2,3) by simp
  then show ?case using 2(1)[of "max k (hg q) + 1"] 2(2) by simp
qed simp

text \<open>
  A node with two children: its successor is taken out of the right subtree and put in its place. The last
  equation is the case without a parent, where nothing is rebalanced.
\<close>

definition unlinked :: "'v item tree \<Rightarrow> 'v item \<Rightarrow> 'v item tree \<Rightarrow> 'v frame list \<Rightarrow> 'v item tree" where
  "unlinked l y r' fs = (if fs = [] then Node l y r' else tup r' ((RIGHT, y, l) # fs))"

lemma unlinked_Cons: "unlinked l y r' (f # fs) = tup r' ((RIGHT, y, l) # f # fs)"
  by (simp add: unlinked_def)

text \<open>The steps of \<open>unlink\<close> up to the point where the successor has the children of the node.\<close>

definition take_successor ::
    "'v avl_heap \<Rightarrow> nat \<Rightarrow> nat \<Rightarrow> nat \<Rightarrow> ('v avl_heap \<times> nat \<times> nat \<times> int) option" where
  "take_successor h root node p = do {
     sub_iter \<leftarrow> leftmost_leaf h p [];
     (h, root, substitute, q, hcr) \<leftarrow> avl_unlink h root sub_iter (- 1);
     h \<leftarrow> modify h substitute (put_child RIGHT q);
     n \<leftarrow> deref h node;
     h \<leftarrow> modify h substitute (put_child LEFT (an_childs n LEFT));
     h \<leftarrow> modify h substitute (\<lambda>m. m\<lparr>an_balance := an_balance n\<rparr>);
     Some (h, root, substitute, hcr) }"

text \<open>\<open>h'\<close> after these steps: \<open>y\<close> has the left child, and \<open>r'\<close> is \<open>r\<close> without it.\<close>

definition placed ::
    "'v avl_heap \<Rightarrow> 'v item tree \<Rightarrow> 'v item tree \<Rightarrow> 'v item \<Rightarrow> 'v item tree \<Rightarrow> 'v avl_heap \<Rightarrow> bool" where
  "placed h l r y r' h' \<longleftrightarrow> fst y \<noteq> 0 \<and> h' (fst y) = Some \<lparr>an_data = snd y,
      an_childs = kids LEFT (addr l) (addr r'), an_balance = hg r - hg l\<rparr> \<and>
    rep h' r' \<and> rep h' l \<and> (\<forall>x. x \<notin> set (adrs r) \<longrightarrow> h' x = h x) \<and>
    inorder r = y # inorder r' \<and> (hg r' - hg r = 0 \<or> hg r' - hg r = - 1)"

lemma take_successor_rep:
  assumes "rep h (Node l (a, d) r)" "distinct (adrs (Node l (a, d) r))" "hbal r" "r \<noteq> Leaf"
  shows "\<exists>h' root' y r2 gs. r = plug (Node Leaf y r2) gs \<and> all_left gs \<and>
    take_successor h root a (addr r) = Some (h', root', fst y, hg (tup r2 gs) - hg r) \<and>
    placed h l r y (tup r2 gs) h'"
proof -
  let ?n = "\<lparr>an_data = d, an_childs = kids LEFT (addr l) (addr r), an_balance = hg r - hg l\<rparr>"
  have rl: "rep h l" "rep h r" and node: "h a = Some ?n" "a \<noteq> 0" using assms(1) by simp_all
  from leftmost_leaf_rep[OF rl(2) assms(4), of "[]"]
  obtain b e r2 gs where gs: "leftmost_leaf h (addr r) [] = Some (b # pth gs)"
    "r = plug (Node Leaf (b, e) r2) gs" "all_left gs" by auto
  have dr: "distinct (adrs r)" and disj: "a \<notin> set (adrs r)" "set (adrs l) \<inter> set (adrs r) = {}"
    using assms(2) by auto
  let ?r = "tup r2 gs"
  have ino: "inorder r = (b, e) # inorder ?r"
    by (simp add: gs(2) inorder_tup inorder_plug all_left_before[OF gs(3)])
  have setr: "set (adrs r) = insert b (set (adrs ?r))" and br: "b \<notin> set (adrs ?r)"
    using dr unfolding ino by simp_all
  have single: "rep h (plug (Node Leaf (b, e) r2) gs)" "distinct (adrs (plug (Node Leaf (b, e) r2) gs))"
    "hbal (plug (Node Leaf (b, e) r2) gs)" using rl(2) dr assms(3) by (simp_all add: gs(2))
  obtain h1 root1 where h1: "avl_unlink h root (b # pth gs) (- 1) = Some (h1, root1, b, addr ?r, hg ?r - hg r)"
    "rep h1 ?r" "\<forall>y. y \<notin> set (adrs (plug r2 gs)) \<longrightarrow> h1 y = h y"
    using avl_unlink_single[OF single, of root "- 1"] by (auto simp: gs(2))
  have h1y: "h1 y = h y" if "y \<notin> set (adrs ?r)" for y
    using h1(3) that unfolding inorder_tup by blast
  obtain m where m: "h b = Some m" "b \<noteq> 0" "an_data m = e" "an_childs m = kids LEFT 0 (addr r2)"
    using single(1) by (auto simp: rep_plug)
  define h2 where "h2 = h1(b \<mapsto> \<lparr>an_data = e, an_childs = kids LEFT (addr l) (addr ?r),
      an_balance = hg r - hg l\<rparr>)"
  have "h1 b = Some m" "h1 a = Some ?n" "a \<noteq> b"
    using h1y[OF br] h1y[of a] m(1) node disj(1) setr by simp_all
  then have "take_successor h root a (addr r) = Some (h2, root1, b, hg ?r - hg r)"
    using gs(1) h1(1) m(2-4) node(2) by (cases m) (simp add: take_successor_def put_child_def h2_def)
  moreover have "rep h2 ?r" using h1(2) br by (simp add: h2_def)
  moreover have frame: "h2 x = h x" if "x \<notin> set (adrs r)" for x
    using that h1y[of x] setr by (simp add: h2_def)
  moreover have "rep h2 l"
    by (rule rep_frame[OF rl(1)], rule frame) (use disj(2) in \<open>metis disjoint_iff\<close>)
  moreover have "hg ?r - hg r = 0 \<or> hg ?r - hg r = - 1"
    using tup_shrunk[of "hg (Node Leaf (b, e) r2)" gs r2] single(3)[unfolded hbal_plug]
      chg_plug[of "Node Leaf (b, e) r2" gs] by (simp add: gs(2))
  ultimately have "placed h l r (b, e) ?r h2"
    using ino m(2) by (simp add: placed_def h2_def)
  moreover have "take_successor h root a (addr r) = Some (h2, root1, fst (b, e), hg ?r - hg r)"
    using \<open>take_successor h root a (addr r) = _\<close> by simp
  ultimately show ?thesis using gs(2,3) by blast
qed

lemma put_successor:
  assumes "crep h a (max k (hg l) + 1) ((s, (p, g), q) # fs)"
    and "b \<noteq> 0" "h b = Some \<lparr>an_data = e, an_childs = kids LEFT (addr l) (addr t), an_balance = k - hg l\<rparr>"
    and "rep h t" "rep h l" "cbal k ((RIGHT, (b, e), l) # (s, (p, g), q) # fs)"
    and "distinct (adrs (plug t ((RIGHT, (b, e), l) # (s, (p, g), q) # fs)))"
    and "hg t - k = 0 \<or> hg t - k = - 1"
  defines "f \<equiv> (RIGHT, (b, e), l) # (s, (p, g), q) # fs"
  shows "\<exists>h' root' k'. do { h \<leftarrow> modify h p (put_child s b); rebalance_up h root (pth f) RIGHT (hg t - k) } =
      Some (h', root', addr (tup t f), k') \<and> rep h' (tup t f) \<and>
    (\<forall>y. y \<notin> set (adrs (plug t f)) \<longrightarrow> h' y = h y)"
proof -
  let ?g = "(s, (p, g), q) # fs"
  let ?h = "h(p \<mapsto> \<lparr>an_data = g, an_childs = kids s b (addr q),
      an_balance = sign_of s * (max k (hg l) + 1 - hg q)\<rparr>)"
  have put: "modify h p (put_child s b) = Some ?h"
    using assms(1) by (simp add: put_child_def)
  have plug: "distinct (adrs (plug (mk RIGHT (b, e) t l) ?g))" using assms(7) by simp
  have above: "crep ?h b (max k (hg l) + 1) ?g"
    by (rule crep_point[OF assms(1) distinct_frames[OF plug]])
  have p: "p \<in> fst ` set_tree (plug Leaf ?g)"
    using set_tree_plug[of "mk s (p, g) Leaf q" fs] by auto
  then have "p \<notin> set (adrs (mk RIGHT (b, e) t l))" using distinct_plug[OF plug] by (metis disjoint_iff)
  then have ne: "p \<noteq> b" "p \<notin> set (adrs t)" "p \<notin> set (adrs l)" by auto
  have crep: "crep ?h (addr t) k f"
    unfolding f_def using assms(2,3,5) ne above by (subst crep.simps) (simp add: kids_flip del: crep.simps)
  have rep: "rep ?h t" using assms(4) ne(2) by simp
  obtain h' root' where h': "rebalance_up ?h root (pth f) RIGHT (hg t - k) =
      Some (h', root', addr (tup t f), hg (tup t f) - chg k f)" "rep h' (tup t f)"
    "\<forall>y. y \<notin> set (adrs (plug t f)) \<longrightarrow> h' y = ?h y"
    using rebalance_up_rep[OF crep rep assms(7,6)[folded f_def] assms(8), of RIGHT root]
    by (auto simp: f_def simp del: plug.simps tup.simps)
  have "plug t f = plug (mk RIGHT (b, e) t l) ?g" by (simp add: f_def)
  then have pf: "p \<in> set (adrs (plug t f))"
    using p set_tree_plug[of "mk RIGHT (b, e) t l" ?g] by (simp only: set_map set_inorder) blast
  have "h' y = h y" if "y \<notin> set (adrs (plug t f))" for y
    using h'(3) that pf by (metis fun_upd_other)
  then show ?thesis using h'(1,2) put by (intro exI[of _ h'] exI[of _ root'] exI) simp
qed

text \<open>The rest of \<open>unlink\<close>, with and without a parent.\<close>

definition place_successor ::
    "'v avl_heap \<Rightarrow> nat \<Rightarrow> nat list \<Rightarrow> nat \<Rightarrow> nat \<Rightarrow> int \<Rightarrow> ('v avl_heap \<times> nat \<times> nat) option" where
  "place_successor h root path node substitute hcr =
     (if it_node path \<noteq> 0 then do {
        mp \<leftarrow> deref h (it_node path);
        h \<leftarrow> modify h (it_node path) (put_child (node_side mp node) substitute);
        (h, root, base, _) \<leftarrow> rebalance_up h root (substitute # path) RIGHT hcr;
        Some (h, root, base) }
      else do {
        h \<leftarrow> modify h substitute (add_balance hcr);
        Some (h, root, substitute) })"

lemma place_at_root:
  assumes "placed h l r y r' h2" "distinct (adrs (Node l (a, d) r))" "\<bar>hg r - hg l\<bar> \<le> 1"
  shows "\<exists>h'. place_successor h2 root [] a (fst y) (hg r' - hg r) = Some (h', root, fst y) \<and>
    rep h' (Node l y r') \<and> (\<forall>x. x \<notin> set (adrs r) \<longrightarrow> h' x = h x)"
proof -
  obtain b e where y: "y = (b, e)" by (cases y)
  let ?h = "h2(b \<mapsto> \<lparr>an_data = e, an_childs = kids LEFT (addr l) (addr r'), an_balance = hg r' - hg l\<rparr>)"
  have h2: "b \<noteq> 0" "h2 b = Some \<lparr>an_data = e, an_childs = kids LEFT (addr l) (addr r'), an_balance = hg r - hg l\<rparr>"
    "rep h2 r'" "rep h2 l" "\<forall>x. x \<notin> set (adrs r) \<longrightarrow> h2 x = h x" "inorder r = (b, e) # inorder r'"
    "hg r' - hg r = 0 \<or> hg r' - hg r = - 1"
    using assms(1) unfolding placed_def y fst_conv snd_conv by blast+
  have b: "b \<notin> set (adrs r')" "b \<notin> set (adrs l)" "b \<in> set (adrs r)"
    using assms(2) unfolding inorder.simps(2) h2(6) by auto
  have "modify h2 b (add_balance (hg r' - hg r)) = Some ?h"
    using h2(1,2,7) assms(3) by (auto simp: add_balance_def)
  moreover have "rep ?h (Node l (b, e) r')" using h2(1,3,4) b(1,2) by simp
  moreover have "?h x = h x" if "x \<notin> set (adrs r)" for x
    using h2(5) b(3) that by (metis fun_upd_other)
  ultimately show ?thesis by (auto simp: y place_successor_def)
qed

lemma place_below:
  fixes s :: side and p :: nat and g :: 'v and q :: "'v item tree" and fs :: "'v frame list"
  defines "f \<equiv> (s, (p, g), q) # fs"
  assumes "placed h l r y r' h2" "rep h (plug (Node l (a, d) r) f)" "distinct (adrs (plug (Node l (a, d) r) f))"
    and "hbal (plug (Node l (a, d) r) f)"
  shows "\<exists>h' root'. place_successor h2 root (pth f) a (fst y) (hg r' - hg r) =
      Some (h', root', addr (tup r' ((RIGHT, y, l) # f))) \<and> rep h' (tup r' ((RIGHT, y, l) # f)) \<and>
    (\<forall>x. x \<notin> set (adrs (plug (Node l (a, d) r) f)) \<longrightarrow> h' x = h x)"
proof -
  let ?t = "Node l (a, d) r"
  obtain b e where y: "y = (b, e)" by (cases y)
  let ?f = "(RIGHT, (b, e), l) # f"
  have h2: "b \<noteq> 0" "h2 b = Some \<lparr>an_data = e, an_childs = kids LEFT (addr l) (addr r'), an_balance = hg r - hg l\<rparr>"
    "rep h2 r'" "rep h2 l" "\<forall>x. x \<notin> set (adrs r) \<longrightarrow> h2 x = h x" "inorder r = (b, e) # inorder r'"
    "hg r' - hg r = 0 \<or> hg r' - hg r = - 1"
    using assms(2) unfolding placed_def y fst_conv snd_conv by blast+
  have t: "rep h ?t" and above: "crep h (addr ?t) (hg ?t) f" using assms(3) by (simp_all add: rep_plug)
  have bal: "hbal l" "\<bar>hg r - hg l\<bar> \<le> 1" and cbal: "cbal (hg ?t) f"
    using assms(5) by (auto simp: hbal_plug)
  have disj: "set (adrs ?t) \<inter> fst ` set_tree (plug Leaf f) = {}" and subt: "set (adrs r) \<subseteq> set (adrs ?t)"
    using distinct_plug[OF assms(4)] by auto
  have k: "hg ?t = max (hg r) (hg l) + 1" by (simp add: of_nat_max)
  have same: "h2 x = h x" if "x \<in> fst ` set_tree (plug Leaf f)" for x
  proof -
    have "x \<notin> set (adrs r)" using that disj subt by blast
    then show ?thesis using h2(5) by simp
  qed
  have above2: "crep h2 a (max (hg r) (hg l) + 1) f"
    using crep_frame[OF above same] unfolding k by (simp only: addr.simps fst_conv)
  have p: "p \<noteq> 0" "p \<in> fst ` set_tree (plug Leaf f)"
    using above set_tree_plug[of "mk s (p, g) Leaf q" fs] by (simp_all add: f_def)
  obtain mp where "deref h p = Some mp" "node_side mp a = s"
    using crep_side[OF above[unfolded f_def] t _ assms(4)[unfolded f_def]] by auto
  then have mp: "deref h2 p = Some mp" "node_side mp a = s" using same[OF p(2)] p(1) by simp_all
  have "adrs (plug r' ?f) = map fst (before f) @ adrs l @ b # adrs r' @ map fst (after f)"
    by (simp add: inorder_plug)
  moreover have "adrs (plug ?t f) = map fst (before f) @ adrs l @ a # (b # adrs r') @ map fst (after f)"
    unfolding inorder_plug inorder.simps(2) h2(6) by simp
  ultimately have dist: "distinct (adrs (plug r' ?f))" and sub: "set (adrs (plug r' ?f)) \<subseteq> set (adrs (plug ?t f))"
    using assms(4) by auto
  have cb: "cbal (hg r) ?f" using bal cbal unfolding k by simp
  obtain h' root' k' where h': "do { h \<leftarrow> modify h2 p (put_child s b); rebalance_up h root (pth ?f) RIGHT (hg r' - hg r) } =
      Some (h', root', addr (tup r' ?f), k')" "rep h' (tup r' ?f)"
    "\<forall>y. y \<notin> set (adrs (plug r' ?f)) \<longrightarrow> h' y = h2 y"
    using put_successor[OF above2[unfolded f_def] h2(1-4) cb[unfolded f_def] dist[unfolded f_def] h2(7), of root]
    unfolding f_def by blast
  have "place_successor h2 root (pth f) a b (hg r' - hg r) = Some (h', root', addr (tup r' ?f))"
    using h'(1) p(1) mp by (auto simp: place_successor_def f_def bind_eq_Some_iff simp del: tup.simps)
  moreover have "h' x = h x" if "x \<notin> set (adrs (plug ?t f))" for x
  proof -
    have "x \<notin> set (adrs r)" "x \<notin> set (adrs (plug r' ?f))" using that sub unfolding inorder_plug by auto
    then show ?thesis using h'(3) h2(5) by simp
  qed
  ultimately show ?thesis using h'(2) by (auto simp: y simp del: tup.simps)
qed

lemma avl_unlink_two:
  assumes "rep h (plug (Node l (a, d) r) fs)" "distinct (adrs (plug (Node l (a, d) r) fs))"
    and "hbal (plug (Node l (a, d) r) fs)" "l \<noteq> Leaf" "r \<noteq> Leaf"
  shows "\<exists>h' root' y r2 gs. r = plug (Node Leaf y r2) gs \<and> all_left gs \<and>
    avl_unlink h root (a # pth fs) hc = Some (h', root', a, addr (unlinked l y (tup r2 gs) fs), hc) \<and>
    rep h' (unlinked l y (tup r2 gs) fs) \<and>
    (\<forall>x. x \<notin> set (adrs (plug (Node l (a, d) r) fs)) \<longrightarrow> h' x = h x)"
proof -
  let ?t = "Node l (a, d) r"
  let ?n = "\<lparr>an_data = d, an_childs = kids LEFT (addr l) (addr r), an_balance = hg r - hg l\<rparr>"
  have t: "rep h ?t" using assms(1) by (simp add: rep_plug)
  have rl: "rep h l" "rep h r" and node: "deref h a = Some ?n" using t by simp_all
  have bal: "hbal r" "\<bar>hg r - hg l\<bar> \<le> 1" using assms(3) by (auto simp: hbal_plug)
  have childs: "node_childs ?n = 2"
    using addr_zero[OF rl(1)] addr_zero[OF rl(2)] assms(4,5) by (simp add: node_childs_def)
  have dt: "distinct (adrs ?t)" using distinct_plug[OF assms(2)] by blast
  obtain h2 root1 y r2 gs where r: "r = plug (Node Leaf y r2) gs" "all_left gs"
    and h2: "take_successor h root a (addr r) = Some (h2, root1, fst y, hg (tup r2 gs) - hg r)"
      "placed h l r y (tup r2 gs) h2"
    using take_successor_rep[OF t dt bal(1) assms(5), of root] by blast
  have unlink: "avl_unlink h root (a # pth fs) hc = do {
      (h, root, base) \<leftarrow> place_successor h2 root1 (pth fs) a (fst y) (hg (tup r2 gs) - hg r);
      Some (h, root, a, base, hc) }"
    using node childs h2(1) by (subst avl_unlink.simps)
      (auto simp: take_successor_def place_successor_def bind_eq_Some_iff split_def)
  have "\<exists>h' root'. place_successor h2 root1 (pth fs) a (fst y) (hg (tup r2 gs) - hg r) =
        Some (h', root', addr (unlinked l y (tup r2 gs) fs)) \<and> rep h' (unlinked l y (tup r2 gs) fs) \<and>
      (\<forall>x. x \<notin> set (adrs (plug ?t fs)) \<longrightarrow> h' x = h x)"
  proof (cases fs)
    case Nil
    then show ?thesis using place_at_root[OF h2(2) dt bal(2), of root1] by (auto simp: unlinked_def)
  next
    case (Cons f0 fs')
    obtain s p g q where f: "f0 = (s, (p, g), q)" by (cases f0) auto
    show ?thesis
      using place_below[OF h2(2) assms(1-3)[unfolded Cons f], of root1] unfolding Cons f unlinked_Cons by blast
  qed
  then obtain h' root' where h': "place_successor h2 root1 (pth fs) a (fst y) (hg (tup r2 gs) - hg r) =
        Some (h', root', addr (unlinked l y (tup r2 gs) fs))" "rep h' (unlinked l y (tup r2 gs) fs)"
      "\<forall>x. x \<notin> set (adrs (plug ?t fs)) \<longrightarrow> h' x = h x" by blast
  have "avl_unlink h root (a # pth fs) hc = Some (h', root', a, addr (unlinked l y (tup r2 gs) fs), hc)"
    unfolding unlink h'(1) by simp
  then show ?thesis using r h'(2,3) by blast
qed

section \<open>erase\<close>

lemma avl_unlink_rep:
  assumes "rep h (plug (Node l (a, d) r) fs)" "distinct (adrs (plug (Node l (a, d) r) fs))"
    and "hbal (plug (Node l (a, d) r) fs)"
  shows "\<exists>h' root' v hc'. avl_unlink h root (a # pth fs) hc = Some (h', root', a, addr v, hc') \<and>
    rep h' v \<and> inorder v = before fs @ inorder l @ inorder r @ after fs \<and>
    (\<forall>x. x \<notin> set (adrs (plug (Node l (a, d) r) fs)) \<longrightarrow> h' x = h x)"
proof (cases "l = Leaf \<or> r = Leaf")
  case True
  let ?c = "if l = Leaf then r else l"
  have ino: "inorder (tup ?c fs) = before fs @ inorder l @ inorder r @ after fs"
    unfolding inorder_tup inorder_plug using True by auto
  have sub: "set (adrs (plug ?c fs)) \<subseteq> set (adrs (plug (Node l (a, d) r) fs))"
    unfolding inorder_plug using True by auto
  obtain h' root' hc' where h': "avl_unlink h root (a # pth fs) hc = Some (h', root', a, addr (tup ?c fs), hc')"
    "rep h' (tup ?c fs)" "\<forall>y. y \<notin> set (adrs (plug ?c fs)) \<longrightarrow> h' y = h y"
    using avl_unlink_single[OF assms True, of root hc] by blast
  have "h' x = h x" if "x \<notin> set (adrs (plug (Node l (a, d) r) fs))" for x
    using h'(3) sub that by blast
  then show ?thesis using h'(1,2) ino by blast
next
  case False
  then obtain h' root' y r2 gs where h': "r = plug (Node Leaf y r2) gs" "all_left gs"
    "avl_unlink h root (a # pth fs) hc = Some (h', root', a, addr (unlinked l y (tup r2 gs) fs), hc)"
    "rep h' (unlinked l y (tup r2 gs) fs)"
    "\<forall>x. x \<notin> set (adrs (plug (Node l (a, d) r) fs)) \<longrightarrow> h' x = h x"
    using avl_unlink_two[OF assms, of root hc] by blast
  have "inorder r = y # inorder (tup r2 gs)"
    by (simp add: h'(1) inorder_tup inorder_plug all_left_before[OF h'(2)])
  then have "inorder (unlinked l y (tup r2 gs) fs) = before fs @ inorder l @ inorder r @ after fs"
    by (cases fs) (simp_all add: unlinked_def inorder_tup inorder_plug del: tup.simps)
  then show ?thesis using h'(3-5) by blast
qed

lemma avl_erase_rep:
  assumes "avl_shape t u" "hbal u" "u = plug (Node l (a, d) r) fs"
  shows "\<exists>t' v. avl_erase t (a # pth fs) = Some t' \<and> avl_shape t' v \<and>
    inorder v = before fs @ inorder l @ inorder r @ after fs \<and> at_heap t' a = None \<and>
    (\<forall>x. x \<notin> set (adrs u) \<longrightarrow> at_heap t' x = at_heap t x)"
proof -
  have u: "rep (at_heap t) u" "at_root t = addr u" "distinct (adrs u)" "at_size t = size u"
    using assms(1) by (simp_all add: avl_shape_def)
  obtain h' root' v hc' where h': "avl_unlink (at_heap t) (at_root t) (a # pth fs) 0 = Some (h', root', a, addr v, hc')"
    "rep h' v" "inorder v = before fs @ inorder l @ inorder r @ after fs"
    "\<forall>x. x \<notin> set (adrs u) \<longrightarrow> h' x = at_heap t x"
    using avl_unlink_rep[OF u(1,3)[unfolded assms(3)] assms(2)[unfolded assms(3)], of "at_root t" 0]
    unfolding assms(3) by blast
  have ino: "inorder u = before fs @ inorder l @ (a, d) # inorder r @ after fs"
    by (simp add: assms(3) inorder_plug)
  have dist: "distinct (adrs v)" and a: "a \<notin> set (adrs v)" and au: "a \<in> set (adrs u)"
    using u(3) unfolding h'(3) ino by auto
  have sz: "size v = size u - 1"
    unfolding length_inorder[symmetric] h'(3) ino by simp
  have "avl_shape (t\<lparr>at_heap := h'(a := None), at_root := addr v, at_size := at_size t - 1\<rparr>) v"
    using h'(2) a dist sz u(4) by (simp add: avl_shape_def)
  then show ?thesis using h' au by (auto simp: avl_erase_def)
qed

context comparator
begin

lemma ascending_split:
  "ascending cmp (xs @ a # ys) \<Longrightarrow> xs @ a # ys = vs @ v # ws \<Longrightarrow> cmp a v = 0 \<Longrightarrow> xs = vs \<and> a = v \<and> ys = ws"
proof (induction xs arbitrary: vs)
  case Nil
  then show ?case by (cases vs) (auto simp: ascending_Cons ascending_append)
next
  case (Cons x xs)
  then show ?case
  proof (cases vs)
    case Nil
    then have "cmp x a < 0" "x = v" using Cons.prems by (auto simp: ascending_Cons)
    then show ?thesis using Cons.prems(3) zero_sym[of a x] by simp
  qed (auto simp: ascending_Cons)
qed

text \<open>Erasing the node that \<open>find\<close> returns for a value of the tree.\<close>

lemma avl_erase_n_rep:
  assumes "avl_shape t u" "hbal u" "ordered cmp u" "map snd (inorder u) = vs @ v # ws"
  shows "\<exists>n t' w. avl_find_n cmp t v = Some n \<and> avl_erase_n cmp t n = Some t' \<and> avl_shape t' w \<and>
    map snd (inorder w) = vs @ ws \<and> n \<in> set (adrs u) \<and> at_heap t' n = None \<and>
    (\<forall>x. x \<notin> set (adrs u) \<longrightarrow> at_heap t' x = at_heap t x)"
proof -
  have u: "rep (at_heap t) u" "at_root t = addr u" using assms(1) by (simp_all add: avl_shape_def)
  have "v \<in> set (map snd (inorder u))" unfolding assms(4) by simp
  then obtain z where "z \<in> set_tree u" "snd z = v" by auto
  then have "\<exists>z \<in> set_tree u. cmp (snd z) v = 0" by (metis same)
  then obtain l y r gs where gs: "avl_find cmp t v = Some (fst y # pth gs)" "u = plug (Node l y r) gs"
    "cmp (snd y) v = 0" using avl_find_rep[OF u assms(3), of v] by auto
  obtain a d where y: "y = (a, d)" by (cases y)
  have ino: "inorder u = (before gs @ inorder l) @ (a, d) # inorder r @ after gs"
    by (simp add: gs(2) y inorder_plug)
  then have "map snd (before gs @ inorder l) = vs \<and> d = v \<and> map snd (inorder r @ after gs) = ws"
    using ascending_split[of "map snd (before gs @ inorder l)" d "map snd (inorder r @ after gs)" vs v ws]
      assms(3,4) gs(3) by (simp add: y)
  then have split: "map snd (before gs @ inorder l @ inorder r @ after gs) = vs @ ws" and d: "d = v" by auto
  have node: "deref (at_heap t) a = Some \<lparr>an_data = d, an_childs = kids LEFT (addr l) (addr r),
      an_balance = hg r - hg l\<rparr>"
    using u(1) by (simp add: gs(2) y rep_plug)
  obtain t' w where t': "avl_erase t (a # pth gs) = Some t'" "avl_shape t' w"
    "inorder w = before gs @ inorder l @ inorder r @ after gs" "at_heap t' a = None"
    "\<forall>x. x \<notin> set (adrs u) \<longrightarrow> at_heap t' x = at_heap t x"
    using avl_erase_rep[OF assms(1,2) gs(2)[unfolded y]] by blast
  have "avl_find_n cmp t v = Some a" using gs(1) by (simp add: avl_find_n_def y)
  moreover have "avl_erase_n cmp t a = Some t'"
    using node gs(1) t'(1) by (simp add: avl_erase_n_def d y del: deref_Some)
  moreover have "a \<in> set (adrs u)" unfolding ino by simp
  ultimately show ?thesis using t'(2-5) split by (intro exI[of _ a] exI[of _ t'] exI[of _ w]) simp
qed

end

section \<open>What erase does to a balanced tree\<close>

text \<open>What \<open>insert_n\<close> builds.\<close>

lemma avl_insert_all_shape:
  assumes "comparator cmp" "distinct (map fst ops)" "0 \<notin> fst ` set ops"
    and "avl_insert_all cmp ops (avl_init h) = Some t"
  shows "\<exists>u. avl_shape t u \<and> hbal u \<and> ordered cmp u \<and> set (adrs u) \<subseteq> fst ` set ops \<and>
    avl_values t = Some (map snd (inorder u))"
proof -
  let ?u = "fold (tins cmp) ops Leaf"
  have "avl_shape (avl_init h) Leaf" by (simp add: avl_shape_def avl_init_def)
  then have u: "avl_shape t ?u" "hbal ?u" "set_tree ?u \<subseteq> set ops"
    using avl_insert_all_rep[of "avl_init h" Leaf ops cmp] assms(2-4) by auto
  have "avl_values t = Some (map snd (inorder ?u))"
    using avl_values_rep u(1) unfolding avl_shape_def by blast
  moreover have "ordered cmp ?u"
    using comparator.fold_put_item(2)[OF assms(1), of Leaf ops] by (simp add: ascending_def)
  moreover have "set (adrs ?u) \<subseteq> fst ` set ops" using u(3) by (simp add: image_mono)
  ultimately show ?thesis using u(1,2) by blast
qed

text \<open>C36: In a tree built by insert_n every value can be found, and erasing the node found removes this
  value and no other from the order of the iterator. The node is freed, the size is one less, no memory
  outside of the tree is touched, and the balances are again the differences of the heights.\<close>

theorem avl_erase_removes:
  assumes "comparator cmp" "distinct (map fst ops)" "0 \<notin> fst ` set ops"
    and "avl_insert_all cmp ops (avl_init h) = Some t" "avl_values t = Some (vs @ v # ws)"
  shows "\<exists>n t' k. avl_find_n cmp t v = Some n \<and> n \<in> fst ` set ops \<and> avl_erase_n cmp t n = Some t' \<and>
    avl_values t' = Some (vs @ ws) \<and> at_heap t' n = None \<and> at_size t' = length (vs @ ws) \<and>
    check_balance (at_heap t') (at_root t') = Some k \<and>
    (\<forall>x. x \<notin> fst ` set ops \<longrightarrow> at_heap t' x = at_heap t x)"
proof -
  obtain u where u: "avl_shape t u" "hbal u" "ordered cmp u" "set (adrs u) \<subseteq> fst ` set ops"
    "map snd (inorder u) = vs @ v # ws"
    using avl_insert_all_shape[OF assms(1-4)] assms(5) by auto
  obtain n t' w where w: "avl_find_n cmp t v = Some n" "avl_erase_n cmp t n = Some t'" "avl_shape t' w"
    "map snd (inorder w) = vs @ ws" "n \<in> set (adrs u)" "at_heap t' n = None"
    "\<forall>x. x \<notin> set (adrs u) \<longrightarrow> at_heap t' x = at_heap t x"
    using comparator.avl_erase_n_rep[OF assms(1) u(1-3,5)] by blast
  have shape: "rep (at_heap t') w" "at_root t' = addr w" "distinct (adrs w)" "at_size t' = size w"
    using w(3) by (simp_all add: avl_shape_def)
  have "size w = length (map snd (inorder w))" by simp
  then have "at_size t' = length (vs @ ws)" unfolding w(4) shape(4) .
  then show ?thesis
    using w(1,2,4-7) u(4) avl_values_rep[OF shape(1-3)] check_balance_rep[OF shape(1,3)] shape(2)
    by (intro exI[of _ n] exI[of _ t'] exI[of _ "hg w"]) (simp, blast)
qed

text \<open>The words c, b, d, a.\<close>

definition demo_words :: "bytes item list" where
  "demo_words = [(1, [99]), (2, [98]), (3, [100]), (4, [97])]"

lemma demo_words_tree:
  "\<exists>t. avl_insert_all string_comparator demo_words (avl_init (\<lambda>_. None)) = Some t \<and>
    avl_values t = Some [[97], [98], [99], [100]]"
proof -
  have "distinct (map fst demo_words)" "0 \<notin> fst ` set demo_words" by (simp_all add: demo_words_def)
  then obtain t where t: "avl_insert_all string_comparator demo_words (avl_init (\<lambda>_. None)) = Some t"
    using strings.avl_insert_all_values by blast
  have "Option.bind (avl_insert_all string_comparator demo_words (avl_init (\<lambda>_. None))) avl_values =
      Some [[97], [98], [99], [100]]" by code_simp
  then show ?thesis using t by simp
qed

theorem avl_erase_removes_witness:
  "\<exists>t n t'. avl_insert_all string_comparator demo_words (avl_init (\<lambda>_. None)) = Some t \<and>
    avl_find_n string_comparator t [98] = Some n \<and> avl_erase_n string_comparator t n = Some t' \<and>
    avl_values t' = Some [[97], [99], [100]] \<and> at_size t' = 3"
proof -
  obtain t where t: "avl_insert_all string_comparator demo_words (avl_init (\<lambda>_. None)) = Some t"
    "avl_values t = Some ([[97]] @ [98] # [[99], [100]])"
    using demo_words_tree by auto
  have "distinct (map fst demo_words)" "0 \<notin> fst ` set demo_words" by (simp_all add: demo_words_def)
  from avl_erase_removes[OF strings.comparator_axioms this t] t(1) show ?thesis by auto
qed

text \<open>C37: A root with two children has its successor put in its place without being rebalanced: when
  the left subtree is the higher one and the right child a leaf, erase leaves a root with balance -2, which
  the tree's own check rejects.\<close>

theorem avl_erase_unbalances:
  assumes "comparator cmp" "distinct (map fst ops)" "0 \<notin> fst ` set ops"
    and "avl_insert_all cmp ops (avl_init h) = Some t"
    and "deref (at_heap t) (at_root t) = Some n" "an_balance n = - 1"
    and "deref (at_heap t) (an_childs n RIGHT) = Some m" "is_leaf m"
  shows "\<exists>t' n'. avl_erase t [at_root t] = Some t' \<and> deref (at_heap t') (at_root t') = Some n' \<and>
    an_balance n' = - 2 \<and> check_avl (at_heap t') (at_root t') = None"
proof -
  obtain u where u: "avl_shape t u" "hbal u" using avl_insert_all_shape[OF assms(1-4)] by blast
  have rep: "rep (at_heap t) u" and root: "at_root t = addr u" and dist: "distinct (adrs u)"
    using u(1) by (simp_all add: avl_shape_def)
  have "u \<noteq> Leaf" using assms(5) by (auto simp: root deref_def)
  then obtain l a d r where un: "u = Node l (a, d) r" by (cases u) auto
  have n: "an_childs n RIGHT = addr r" "hg r - hg l = - 1" and rr: "rep (at_heap t) r" and a: "a \<noteq> 0"
    using assms(5,6) rep by (auto simp: root un)
  have "r \<noteq> Leaf" using assms(7) n(1) by (auto simp: deref_def)
  then obtain b e p q where r: "r = Node p (b, e) q" by (cases r) auto
  have "p = Leaf" "q = Leaf"
    using assms(7,8) rr n(1) addr_zero[of "at_heap t" p] addr_zero[of "at_heap t" q]
    by (auto simp: r is_leaf_def)
  then have r': "r = Node Leaf (b, e) Leaf" by (simp add: r)
  then have l: "hg l = 2" "l \<noteq> Leaf" using n(2) by auto
  have plug: "rep (at_heap t) (plug (Node l (a, d) r) [])" "distinct (adrs (plug (Node l (a, d) r) []))"
    "hbal (plug (Node l (a, d) r) [])" using rep dist u(2) by (simp_all add: un)
  obtain h' root' y r2 gs where h': "r = plug (Node Leaf y r2) gs" "all_left gs"
    "avl_unlink (at_heap t) (at_root t) [a] 0 = Some (h', root', a, addr (unlinked l y (tup r2 gs) []), 0)"
    "rep h' (unlinked l y (tup r2 gs) [])"
    using avl_unlink_two[OF plug l(2) \<open>r \<noteq> Leaf\<close>, of "at_root t" 0, unfolded list.map] by blast
  have "inorder r = y # inorder (tup r2 gs)"
    by (simp add: h'(1) inorder_tup inorder_plug all_left_before[OF h'(2)])
  then have y: "y = (b, e)" "tup r2 gs = Leaf" by (cases "tup r2 gs"; simp add: r')+
  let ?h = "h'(a := None)" and ?v = "Node l (b, e) Leaf"
  have erase: "avl_erase t [at_root t] = Some (t\<lparr>at_heap := ?h, at_root := b, at_size := at_size t - 1\<rparr>)"
    using h'(3) by (simp add: avl_erase_def root un unlinked_def y)
  have "a \<notin> set (adrs ?v)" "distinct (adrs ?v)" using dist by (auto simp: un r')
  then have v: "rep ?h ?v" "distinct (adrs ?v)" using h'(4) by (simp_all add: unlinked_def y)
  then have "check_avl ?h b = None" using check_avl_rep[OF v] l(1) by simp
  moreover obtain n' where "deref ?h b = Some n'" "an_balance n' = - 2"
    using v(1) l(1) by simp
  ultimately show ?thesis using erase by auto
qed

theorem avl_erase_unbalances_witness:
  "\<exists>t t'. avl_insert_all string_comparator demo_words (avl_init (\<lambda>_. None)) = Some t \<and>
    avl_erase t [at_root t] = Some t' \<and> check_avl (at_heap t') (at_root t') = None"
proof -
  have ops: "distinct (map fst demo_words)" "0 \<notin> fst ` set demo_words" by (simp_all add: demo_words_def)
  obtain t where t: "avl_insert_all string_comparator demo_words (avl_init (\<lambda>_. None)) = Some t"
    using demo_words_tree by blast
  have "Option.bind (avl_insert_all string_comparator demo_words (avl_init (\<lambda>_. None)))
      (\<lambda>t. Option.bind (deref (at_heap t) (at_root t)) (\<lambda>n. Option.bind (deref (at_heap t) (an_childs n RIGHT))
        (\<lambda>m. Some (an_balance n, is_leaf m)))) = Some (- 1, True)"
    by code_simp
  then obtain n m where "deref (at_heap t) (at_root t) = Some n" "an_balance n = - 1"
    "deref (at_heap t) (an_childs n RIGHT) = Some m" "is_leaf m"
    by (auto simp: t bind_eq_Some_iff)
  from avl_erase_unbalances[OF strings.comparator_axioms ops t this] show ?thesis using t by blast
qed

text \<open>
  The balances of an unbalanced tree go wrong with the next insertions, and then \<open>erase\<close> also loses other
  elements: here the only child of the erased node is taken from the wrong side.
\<close>

datatype 'v avl_op = Insert nat 'v | Erase 'v

fun avl_run :: "('v \<Rightarrow> 'v \<Rightarrow> int) \<Rightarrow> 'v avl_op list \<Rightarrow> 'v avl_tree \<Rightarrow> 'v avl_tree option" where
  "avl_run cmp [] t = Some t"
| "avl_run cmp (Insert new d # ops) t = do { (t, _) \<leftarrow> avl_insert_n cmp new d t; avl_run cmp ops t }"
| "avl_run cmp (Erase d # ops) t = do {
     n \<leftarrow> avl_find_n cmp t d;
     t \<leftarrow> avl_erase_n cmp t n;
     avl_run cmp ops t }"

definition losing :: "bytes avl_op list" where
  "losing = [Insert 1 [4], Insert 2 [12], Insert 3 [7], Insert 4 [5], Insert 5 [10], Insert 6 [2],
     Insert 7 [3], Erase [7], Erase [10], Insert 8 [6], Insert 9 [3], Erase [5], Erase [12], Erase [2],
     Insert 10 [5], Insert 11 [8]]"

lemma avl_erase_loses_elements:
  "do {
     t \<leftarrow> avl_run string_comparator losing (avl_init (\<lambda>_. None));
     vs \<leftarrow> avl_values t;
     t' \<leftarrow> avl_run string_comparator [Erase [4]] t;
     vs' \<leftarrow> avl_values t';
     Some (vs, vs') } = Some ([[3], [4], [5], [6], [8]], [[5], [6], [8]])"
  by code_simp

end
