(* ===== verification/Reliable.thy ===== *)
theory Reliable
  imports Checked_Message Vector_Static
begin

text \<open>
  \<^verbatim>\<open>wiselib.testing/radio/reliable\<close>: a radio that repeats messages until they are confirmed.
  \<open>ReliableRadioMessage_Type\<close> and the operations of \<open>ReliableRadio_Type\<close>, without the debug output and
  the messages that are only built for it (\<^verbatim>\<open>DEBUG_RELIABLE_RADIO_H\<close> is not defined, nor are the
  random ids and offsets configured). Assigning a message copies the bytes of the payload that are in use;
  the others are never read, so the model copies the whole record. Callbacks are recorded as
  calls; a receiver that calls back into the radio is a later event.
\<close>

section \<open>ReliableRadioMessage_Type\<close>

record rr_message =
  rrm_message_id :: u32
  rrm_counter :: u8
  rrm_payload :: bytes
  rrm_payload_size :: u8
  rrm_destination :: node_id
  rrm_delivered :: bool

definition rrm_new :: "bytes \<Rightarrow> rr_message" where
  "rrm_new junk = \<lparr>rrm_message_id = 0, rrm_counter = 0, rrm_payload = junk, rrm_payload_size = 0,
     rrm_destination = 0, rrm_delivered = False\<rparr>"

definition rrm_set_payload :: "rr_message \<Rightarrow> nat \<Rightarrow> bytes \<Rightarrow> rr_message option" where
  "rrm_set_payload m len buff = do {
     vs \<leftarrow> rd_bytes buff 0 len;
     p \<leftarrow> memcpy (rrm_payload m) 0 vs;
     Some (m\<lparr>rrm_payload_size := word_of_nat len, rrm_payload := p\<rparr>) }"

definition rrm_inc_counter :: "rr_message \<Rightarrow> rr_message" where
  "rrm_inc_counter m = m\<lparr>rrm_counter := rrm_counter m + 1\<rparr>"

definition reply_destination_write :: "endianness \<Rightarrow> rr_message \<Rightarrow> rr_message option" where
  "reply_destination_write e m = do { p \<leftarrow> put16 e (rrm_payload m) 0 (rrm_destination m); Some (m\<lparr>rrm_payload := p\<rparr>) }"

definition reply_destination_read :: "endianness \<Rightarrow> rr_message \<Rightarrow> rr_message option" where
  "reply_destination_read e m = do { d \<leftarrow> read_u16 e (rrm_payload m) 0; Some (m\<lparr>rrm_destination := d\<rparr>) }"

text \<open>Values of 32 bits are read and written by the generic template.\<close>

definition put32 :: "endianness \<Rightarrow> bytes \<Rightarrow> nat \<Rightarrow> u32 \<Rightarrow> bytes option" where
  "put32 e b pos v = map_option fst (write_generic e b pos v)"

definition read_u32 :: "endianness \<Rightarrow> bytes \<Rightarrow> nat \<Rightarrow> u32 option" where
  "read_u32 e b pos = read_generic e b pos"

abbreviation (input) "rrm_COUNTER_POS \<equiv> 4 :: nat"
abbreviation (input) "rrm_DATA_LEN_POS \<equiv> 5 :: nat"
abbreviation (input) "rrm_DATA_POS \<equiv> 6 :: nat"

definition rrm_serialize :: "endianness \<Rightarrow> rr_message \<Rightarrow> bytes \<Rightarrow> bytes option" where
  "rrm_serialize e m buff = do {
     b \<leftarrow> put32 e buff 0 (rrm_message_id m);
     b \<leftarrow> put8 e b rrm_COUNTER_POS (rrm_counter m);
     b \<leftarrow> put8 e b rrm_DATA_LEN_POS (rrm_payload_size m);
     vs \<leftarrow> rd_bytes (rrm_payload m) 0 (unat (rrm_payload_size m));
     memcpy b rrm_DATA_POS vs }"

definition rrm_de_serialize :: "endianness \<Rightarrow> rr_message \<Rightarrow> bytes \<Rightarrow> rr_message option" where
  "rrm_de_serialize e m buff = do {
     i \<leftarrow> read_u32 e buff 0;
     c \<leftarrow> read_u8 e buff rrm_COUNTER_POS;
     n \<leftarrow> read_u8 e buff rrm_DATA_LEN_POS;
     vs \<leftarrow> rd_bytes buff rrm_DATA_POS (unat n);
     p \<leftarrow> memcpy (rrm_payload m) 0 vs;
     Some (m\<lparr>rrm_message_id := i, rrm_counter := c, rrm_payload_size := n, rrm_payload := p\<rparr>) }"

definition rrm_serial_size :: "rr_message \<Rightarrow> nat" where
  "rrm_serial_size m = (rrm_DATA_POS + unat (rrm_payload_size m)) mod 256"

section \<open>ReliableRadio_Type\<close>

abbreviation (input) "RR_MESSAGE \<equiv> 14 :: u8"
abbreviation (input) "RR_REPLY \<equiv> 24 :: u8"
abbreviation (input) "RR_UNDELIVERED \<equiv> 34 :: u8"
abbreviation (input) "RR_MESSAGE_BUFFER_FULL \<equiv> 44 :: u8"
abbreviation (input) "RR_REPLY_BUFFER_FULL \<equiv> 54 :: u8"

datatype rr_error = RR_SUCCESS | RR_PROT_LIST_FULL | RR_INACTIVE

record 'c reliable_radio =
  rr_active :: bool
  rr_daemon_period :: u32
  rr_callbacks :: "'c vector_static"
  rr_messages :: "rr_message vector_static"
  rr_replies :: "rr_message vector_static"
  rr_max_retries :: u32
  rr_seq :: u32

text \<open>The calls of the radio: to the radio below, to a receiver with the node, a length and the memory of
  the message, and to the timer.\<close>

datatype 'c rr_call =
    Rr_enable | Rr_reg | Rr_unreg | Rr_disable
  | Rr_send node_id bytes
  | Rr_set_power int
  | Rr_notify 'c node_id nat bytes
  | Rr_timer u32

text \<open>The constructor does not initialise the status, so it starts as anything. The two vectors have room
  for 10 messages and 30 replies.\<close>

definition rr_new :: "bool \<Rightarrow> 'c list \<Rightarrow> bytes \<Rightarrow> 'c reliable_radio" where
  "rr_new status cb_junk junk = \<lparr>rr_active = status, rr_daemon_period = 300, rr_callbacks = vs_new cb_junk,
     rr_messages = vs_new (replicate 10 (rrm_new junk)), rr_replies = vs_new (replicate 30 (rrm_new junk)),
     rr_max_retries = 2, rr_seq = 0\<rparr>"

text \<open>The first element that satisfies \<open>p\<close> is replaced.\<close>

fun rr_replace :: "('a \<Rightarrow> bool) \<Rightarrow> 'a \<Rightarrow> 'a list \<Rightarrow> 'a list \<times> bool" where
  "rr_replace p x [] = ([], False)"
| "rr_replace p x (y # ys) = (if p y then (x # ys, True) else (let (zs, ok) = rr_replace p x ys in (y # zs, ok)))"

definition rr_insert :: "(rr_message \<Rightarrow> bool) \<Rightarrow> rr_message vector_static \<Rightarrow> rr_message \<Rightarrow> rr_message vector_static \<times> bool" where
  "rr_insert obsolete v m =
     (if vs_max_size v > vs_size v then (vs_push_back v m, True)
      else (let (xs, ok) = rr_replace obsolete m (elems v) in (vs_store v xs, ok)))"

definition insert_reliable_radio_message :: "'c reliable_radio \<Rightarrow> rr_message \<Rightarrow> 'c reliable_radio \<times> bool" where
  "insert_reliable_radio_message st m =
     (let (v, ok) = rr_insert (\<lambda>x. unat (rrm_counter x) > unat (rr_max_retries st) \<or> rrm_delivered x) (rr_messages st) m
      in (st\<lparr>rr_messages := v\<rparr>, ok))"

definition insert_reliable_radio_reply :: "'c reliable_radio \<Rightarrow> rr_message \<Rightarrow> 'c reliable_radio \<times> bool" where
  "insert_reliable_radio_reply st m =
     (let (v, ok) = rr_insert (\<lambda>x. unat (rrm_counter x) \<ge> unat (rr_max_retries st)) (rr_replies st) m
      in (st\<lparr>rr_replies := v\<rparr>, ok))"

text \<open>The loop reads the destination of every reply from its payload, up to the one that is looked for.\<close>

fun rr_check_loop :: "endianness \<Rightarrow> u32 \<Rightarrow> node_id \<Rightarrow> rr_message list \<Rightarrow> (rr_message list \<times> bool) option" where
  "rr_check_loop e i from [] = Some ([], False)"
| "rr_check_loop e i from (r # rs) = do {
     r \<leftarrow> reply_destination_read e r;
     if rrm_message_id r = i \<and> rrm_destination r = from \<and> \<not> rrm_delivered r then Some (r # rs, True)
     else do { (rs, ok) \<leftarrow> rr_check_loop e i from rs; Some (r # rs, ok) } }"

definition replies_check :: "endianness \<Rightarrow> 'c reliable_radio \<Rightarrow> u32 \<Rightarrow> node_id \<Rightarrow> ('c reliable_radio \<times> bool) option" where
  "replies_check e st i from = do {
     (rs, ok) \<leftarrow> rr_check_loop e i from (elems (rr_replies st));
     Some (st\<lparr>rr_replies := vs_store (rr_replies st) rs\<rparr>, ok) }"

text \<open>A message of the radio below, with the given id and payload: its bytes, and what is sent of them.\<close>

definition rr_envelope :: "os_model \<Rightarrow> bytes \<Rightarrow> u8 \<Rightarrow> nat \<Rightarrow> bytes \<Rightarrow> (bytes \<times> nat) option" where
  "rr_envelope os junk i len buff = (let e = os_endianness os in do {
     message \<leftarrow> cm_new 1 e (take (MAX_MESSAGE_LENGTH os) junk);
     message \<leftarrow> set_message_id e message i;
     message \<leftarrow> set_payload 1 e message (len mod 256) buff 0;
     sz \<leftarrow> cm_serial_size 1 e message;
     Some (message, sz) })"

definition rr_transmit :: "os_model \<Rightarrow> bytes \<Rightarrow> u8 \<Rightarrow> node_id \<Rightarrow> rr_message \<Rightarrow> 'c rr_call option" where
  "rr_transmit os junk i dest m = do {
     buff \<leftarrow> rrm_serialize (os_endianness os) m (take (MAX_MESSAGE_LENGTH os) junk);
     (message, sz) \<leftarrow> rr_envelope os junk i (rrm_serial_size m) buff;
     bs \<leftarrow> rd_bytes message 0 sz;
     Some (Rr_send dest bs) }"

definition rr_notify :: "'c reliable_radio \<Rightarrow> node_id \<Rightarrow> nat \<Rightarrow> bytes \<Rightarrow> 'c rr_call list" where
  "rr_notify st from len b = map (\<lambda>c. Rr_notify c from len b) (elems (rr_callbacks st))"

text \<open>What tells the receivers of a message that could not be handled: nothing is built without receivers.\<close>

definition rr_report :: "os_model \<Rightarrow> bytes \<Rightarrow> 'c reliable_radio \<Rightarrow> u8 \<Rightarrow> node_id \<Rightarrow> nat \<Rightarrow> bytes \<Rightarrow> 'c rr_call list option" where
  "rr_report os junk st i node len buff =
     (if elems (rr_callbacks st) = [] then Some [] else do {
        (message, sz) \<leftarrow> rr_envelope os junk i len buff;
        Some (rr_notify st node sz (cm_serialize message)) })"

definition rr_send :: "os_model \<Rightarrow> bytes \<Rightarrow> 'c reliable_radio \<Rightarrow> node_id \<Rightarrow> nat \<Rightarrow> bytes \<Rightarrow>
    ('c reliable_radio \<times> 'c rr_call list) option" where
  "rr_send os junk st dest len data =
     (if rr_active st then
        if dest = BROADCAST_ADDRESS os then do {
          bs \<leftarrow> rd_bytes data 0 len;
          Some (st, [Rr_send dest bs]) }
        else do {
          m \<leftarrow> Some ((rrm_new (take (MAX_MESSAGE_LENGTH os) junk))\<lparr>rrm_message_id := rr_seq st\<rparr>);
          st \<leftarrow> Some (st\<lparr>rr_seq := rr_seq st + 1\<rparr>);
          m \<leftarrow> rrm_set_payload m len data;
          m \<leftarrow> Some (m\<lparr>rrm_destination := dest\<rparr>);
          (st, res) \<leftarrow> Some (insert_reliable_radio_message st m);
          if res then do { c \<leftarrow> rr_transmit os junk RR_MESSAGE dest m; Some (st, [c]) }
          else do { cs \<leftarrow> rr_report os junk st RR_MESSAGE_BUFFER_FULL dest len data; Some (st, cs) } }
      else Some (st, []))"

definition rr_make_reply :: "os_model \<Rightarrow> bytes \<Rightarrow> rr_message \<Rightarrow> node_id \<Rightarrow> rr_message option" where
  "rr_make_reply os junk m from = do {
     r \<leftarrow> Some ((rrm_new (take (MAX_MESSAGE_LENGTH os) junk))\<lparr>rrm_message_id := rrm_message_id m, rrm_counter := rrm_counter m\<rparr>);
     r \<leftarrow> rrm_set_payload r 2 (take (MAX_MESSAGE_LENGTH os) junk);
     r \<leftarrow> Some (r\<lparr>rrm_destination := from\<rparr>);
     reply_destination_write (os_endianness os) r }"

definition rr_receive_message :: "os_model \<Rightarrow> bytes \<Rightarrow> 'c reliable_radio \<Rightarrow> node_id \<Rightarrow> nat \<Rightarrow> bytes \<Rightarrow>
    ('c reliable_radio \<times> 'c rr_call list) option" where
  "rr_receive_message os junk st from len msg = (let e = os_endianness os in do {
     m \<leftarrow> rrm_de_serialize e (rrm_new (take (MAX_MESSAGE_LENGTH os) junk)) (get_payload 1 msg);
     r \<leftarrow> rr_make_reply os junk m from;
     (st, known) \<leftarrow> replies_check e st (rrm_message_id r) from;
     if \<not> known then do {
       (st, res) \<leftarrow> Some (insert_reliable_radio_reply st r);
       if res then do {
         c \<leftarrow> rr_transmit os junk RR_REPLY from r;
         Some (st, c # rr_notify st from (unat (rrm_payload_size m)) (rrm_payload m)) }
       else do { cs \<leftarrow> rr_report os junk st RR_REPLY_BUFFER_FULL from len (get_payload 1 msg); Some (st, cs) } }
     else Some (st, []) })"

text \<open>The first message that the reply confirms is marked as delivered.\<close>

fun rr_confirm :: "u32 \<Rightarrow> node_id \<Rightarrow> rr_message list \<Rightarrow> rr_message list" where
  "rr_confirm i from [] = []"
| "rr_confirm i from (m # ms) =
     (if rrm_message_id m = i \<and> \<not> rrm_delivered m \<and> rrm_destination m = from then m\<lparr>rrm_delivered := True\<rparr> # ms
      else m # rr_confirm i from ms)"

definition rr_receive_reply :: "os_model \<Rightarrow> bytes \<Rightarrow> 'c reliable_radio \<Rightarrow> node_id \<Rightarrow> bytes \<Rightarrow>
    ('c reliable_radio \<times> 'c rr_call list) option" where
  "rr_receive_reply os junk st from msg = (let e = os_endianness os in do {
     r \<leftarrow> rrm_de_serialize e (rrm_new (take (MAX_MESSAGE_LENGTH os) junk)) (get_payload 1 msg);
     r \<leftarrow> reply_destination_read e r;
     Some (st\<lparr>rr_messages := vs_store (rr_messages st) (rr_confirm (rrm_message_id r) from (elems (rr_messages st)))\<rparr>, []) })"

text \<open>\<open>msg\<close> is the memory the argument points to, which the code takes for a message object.\<close>

definition rr_receive :: "os_model \<Rightarrow> node_id \<Rightarrow> bytes \<Rightarrow> 'c reliable_radio \<Rightarrow> node_id \<Rightarrow> nat \<Rightarrow> bytes \<Rightarrow>
    ('c reliable_radio \<times> 'c rr_call list) option" where
  "rr_receive os self junk st from len msg = (let e = os_endianness os in
     if rr_active st \<and> from \<noteq> self then do {
       i \<leftarrow> get_message_id e msg;
       ok \<leftarrow> (if i = RR_MESSAGE then compare_checksum 1 e msg else Some False);
       if ok then rr_receive_message os junk st from len msg
       else if i = RR_REPLY then rr_receive_reply os junk st from msg
       else Some (st, []) }
     else Some (st, []))"

text \<open>The daemon on one message. \<open>old_db\<close> is the power of the radio. Reporting an undelivered message counts
  once for every receiver.\<close>

definition rr_retry :: "os_model \<Rightarrow> bytes \<Rightarrow> int \<Rightarrow> 'c reliable_radio \<Rightarrow> rr_message \<Rightarrow> (rr_message \<times> 'c rr_call list) option" where
  "rr_retry os junk old_db st m =
     (if unat (rrm_counter m) < unat (rr_max_retries st) \<and> \<not> rrm_delivered m then do {
        c \<leftarrow> rr_transmit os junk RR_MESSAGE (rrm_destination m) m;
        Some (rrm_inc_counter m,
          if unat (rrm_counter m) > unat (rr_max_retries st) div 2
          then (if old_db < - 6 then [Rr_set_power (old_db + 6)] else []) @ [c, Rr_set_power old_db]
          else [c]) }
      else if unat (rrm_counter m) = unat (rr_max_retries st) \<and> \<not> rrm_delivered m then do {
        cs \<leftarrow> rr_report os junk st RR_UNDELIVERED (rrm_destination m) (unat (rrm_payload_size m)) (rrm_payload m);
        Some ((rrm_inc_counter ^^ length (elems (rr_callbacks st))) m, cs) }
      else Some (m, []))"

fun rr_retry_all :: "os_model \<Rightarrow> bytes \<Rightarrow> int \<Rightarrow> 'c reliable_radio \<Rightarrow> rr_message list \<Rightarrow> (rr_message list \<times> 'c rr_call list) option" where
  "rr_retry_all os junk old_db st [] = Some ([], [])"
| "rr_retry_all os junk old_db st (m # ms) = do {
     (m, cs) \<leftarrow> rr_retry os junk old_db st m;
     (ms, cs') \<leftarrow> rr_retry_all os junk old_db st ms;
     Some (m # ms, cs @ cs') }"

definition rr_age :: "u32 \<Rightarrow> rr_message \<Rightarrow> rr_message" where
  "rr_age max_retries r = (if unat (rrm_counter r) < unat max_retries then rrm_inc_counter r else r)"

definition rr_daemon :: "os_model \<Rightarrow> bytes \<Rightarrow> int \<Rightarrow> 'c reliable_radio \<Rightarrow> ('c reliable_radio \<times> 'c rr_call list) option" where
  "rr_daemon os junk old_db st =
     (if rr_active st then do {
        (ms, cs) \<leftarrow> rr_retry_all os junk old_db st (elems (rr_messages st));
        Some (st\<lparr>rr_messages := vs_store (rr_messages st) ms,
                rr_replies := vs_store (rr_replies st) (map (rr_age (rr_max_retries st)) (elems (rr_replies st)))\<rparr>,
              cs @ [Rr_timer (rr_daemon_period st)]) }
      else Some (st, []))"

definition rr_enable_radio :: "os_model \<Rightarrow> bytes \<Rightarrow> int \<Rightarrow> 'c reliable_radio \<Rightarrow> ('c reliable_radio \<times> 'c rr_call list) option" where
  "rr_enable_radio os junk old_db st = do {
     (st, cs) \<leftarrow> rr_daemon os junk old_db (st\<lparr>rr_active := True\<rparr>);
     Some (st, [Rr_enable, Rr_reg] @ cs) }"

definition rr_disable_radio :: "'c reliable_radio \<Rightarrow> 'c reliable_radio \<times> 'c rr_call list" where
  "rr_disable_radio st = (st\<lparr>rr_active := False\<rparr>, [Rr_unreg, Rr_disable])"

definition rr_reg_recv_callback :: "'c reliable_radio \<Rightarrow> 'c \<Rightarrow> 'c reliable_radio \<times> rr_error" where
  "rr_reg_recv_callback st c =
     (if rr_active st then
        if vs_max_size (rr_callbacks st) = vs_size (rr_callbacks st) then (st, RR_PROT_LIST_FULL)
        else (st\<lparr>rr_callbacks := vs_push_back (rr_callbacks st) c\<rparr>, RR_SUCCESS)
      else (st, RR_INACTIVE))"

definition rr_unreg_recv_callback :: "'c reliable_radio \<Rightarrow> nat \<Rightarrow> 'c reliable_radio \<times> nat" where
  "rr_unreg_recv_callback st idx = (st, 0)"

text \<open>\<open>below\<close> is \<^verbatim>\<open>radio().reserved_bytes()\<close>.\<close>

definition rr_reserved_bytes :: "nat \<Rightarrow> nat" where
  "rr_reserved_bytes below = (below + rrm_serial_size (rrm_new [])) mod 256"

definition rr_set_daemon_period :: "'c reliable_radio \<Rightarrow> u32 \<Rightarrow> 'c reliable_radio" where
  "rr_set_daemon_period st p = st\<lparr>rr_daemon_period := p\<rparr>"

definition rr_set_max_retries :: "'c reliable_radio \<Rightarrow> u32 \<Rightarrow> 'c reliable_radio" where
  "rr_set_max_retries st n = st\<lparr>rr_max_retries := n\<rparr>"

end
