(* ===== verification/Reliable_Correct.thy ===== *)
theory Reliable_Correct
  imports Reliable
begin

text \<open>
  What the reliable radio guarantees: a well-formed radio stays well-formed and defined, a message
  is delivered at most once while its reply is remembered, and what becomes of a message when it or
  its reply is lost.
\<close>

section \<open>A message on the wire\<close>

definition rrm_is :: "rr_message \<Rightarrow> u32 \<Rightarrow> u8 \<Rightarrow> bytes \<Rightarrow> bool" where
  "rrm_is m i c data \<longleftrightarrow> rrm_message_id m = i \<and> rrm_counter m = c \<and> rrm_payload_size m = word_of_nat (length data) \<and>
     length data < 256 \<and> length data \<le> length (rrm_payload m) \<and> take (length data) (rrm_payload m) = data"

definition rrm_bytes :: "u32 \<Rightarrow> u8 \<Rightarrow> bytes \<Rightarrow> bytes" where
  "rrm_bytes i c data = wire_image i @ [c, word_of_nat (length data)] @ data"

lemma size_of_32 [simp]: "size_of TYPE(32) = 4"
  unfolding size_of_def by simp

lemma length_wire_32 [simp]: "length (wire_image (i :: u32)) = 4"
  by simp

lemma length_rrm_bytes [simp]: "length (rrm_bytes i c data) = 6 + length data"
  by (simp add: rrm_bytes_def)

lemma byte_size: "n < 256 \<Longrightarrow> unat (word_of_nat n :: u8) = n"
  by (simp add: unat_of_nat)

lemma word_byte_size [simp]: "word_of_nat (unat (n :: u8)) = n"
  by simp

lemma put32_eq: "put32 e b 0 v = (if 4 \<le> length b then Some (wire_image v @ drop 4 b) else None)"
  by (simp add: put32_def write_generic_memcpy memcpy_def)

lemma read_u32_eq: "read_u32 e b 0 = (if 4 \<le> length b then Some (of_le_image (rev (take 4 b))) else None)"
  by (simp add: read_u32_def read_generic_rd_bytes rd_bytes_def size_of_def)

lemma of_wire_32: "of_le_image (rev (wire_image (v :: u32))) = v"
  using of_le_image_le_image [of 4 v] by (simp add: wire_image_def size_of_def take_bit_word_eq_self)

lemma four_list: "length xs = 4 \<Longrightarrow> \<exists>a b c d. xs = [a, b, c, d]"
  by (auto simp: numeral_eq_Suc length_Suc_conv)

lemma rrm_serialize_eq:
  assumes "rrm_is m i c data" and "6 + length data \<le> length buff"
  shows "rrm_serialize e m buff = Some (rrm_bytes i c data @ drop (6 + length data) buff)"
proof -
  obtain b0 b1 b2 b3 b4 b5 js where b: "buff = b0 # b1 # b2 # b3 # b4 # b5 # js" and js: "length data \<le> length js"
    using assms(2) by (auto simp: numeral_eq_Suc length_ge_Cons)
  obtain w0 w1 w2 w3 where w: "wire_image i = [w0, w1, w2, w3]" using four_list [OF length_wire_32] by blast
  show ?thesis
    using assms(1) js
    by (simp add: rrm_is_def rrm_serialize_def put32_eq b w put_simps rd_bytes_def byte_size memcpy_def rrm_bytes_def)
      (simp add: numeral_eq_Suc)
qed

lemma rrm_serial_size_eq: "rrm_is m i c data \<Longrightarrow> 6 + length data < 256 \<Longrightarrow> rrm_serial_size m = 6 + length data"
  by (simp add: rrm_serial_size_def rrm_is_def byte_size)

text \<open>Reading a message from any memory that is long enough.\<close>

definition rrm_of :: "bytes \<Rightarrow> bytes \<Rightarrow> rr_message" where
  "rrm_of junk b = (rrm_new junk)\<lparr>rrm_message_id := of_le_image (rev (take 4 b)), rrm_counter := b ! 4,
     rrm_payload_size := b ! 5, rrm_payload := take (unat (b ! 5)) (drop 6 b) @ drop (unat (b ! 5)) junk\<rparr>"

lemma rrm_de_serialize_of:
  assumes "6 + unat (b ! 5) \<le> length b" and "unat (b ! 5) \<le> length junk"
  shows "rrm_de_serialize e (rrm_new junk) b = Some (rrm_of junk b)"
proof -
  have "5 < length b" "4 < length b" "4 \<le> length b" using assms(1) by simp_all
  then show ?thesis using assms
    by (simp add: rrm_de_serialize_def read_u32_eq put_simps rd_bytes_def memcpy_def rrm_new_def rrm_of_def)
qed

lemma rrm_of_bytes:
  assumes "length data < 256" and "length data \<le> length junk"
  shows "rrm_is (rrm_of junk (rrm_bytes i c data @ rest)) i c data"
    "rrm_payload (rrm_of junk (rrm_bytes i c data @ rest)) = data @ drop (length data) junk"
    "rrm_de_serialize e (rrm_new junk) (rrm_bytes i c data @ rest) = Some (rrm_of junk (rrm_bytes i c data @ rest))"
proof -
  obtain w0 w1 w2 w3 where w: "wire_image i = [w0, w1, w2, w3]" using four_list [OF length_wire_32] by blast
  let ?b = "rrm_bytes i c data @ rest"
  have b: "take 4 ?b = wire_image i" "?b ! 4 = c" "?b ! 5 = word_of_nat (length data)" "take (length data) (drop 6 ?b) = data"
    by (simp_all add: rrm_bytes_def w)
  have n: "unat (?b ! 5) = length data" unfolding b(3) by (rule byte_size [OF assms(1)])
  have pl: "rrm_payload (rrm_of junk ?b) = data @ drop (length data) junk" unfolding rrm_of_def n b(4) by simp
  then show "rrm_payload (rrm_of junk ?b) = data @ drop (length data) junk" .
  have "rrm_message_id (rrm_of junk ?b) = i" "rrm_counter (rrm_of junk ?b) = c"
      "rrm_payload_size (rrm_of junk ?b) = word_of_nat (length data)"
    unfolding rrm_of_def b of_wire_32 by simp_all
  then show "rrm_is (rrm_of junk ?b) i c data" using pl assms by (simp add: rrm_is_def)
  show "rrm_de_serialize e (rrm_new junk) ?b = Some (rrm_of junk ?b)"
    using assms by (intro rrm_de_serialize_of) (simp_all add: n)
qed

section \<open>Packets\<close>

lemma size_width_1 [simp]: "size_width 1" "size_width (Suc 0)"
  by (simp_all add: size_width_def)

text \<open>An envelope around the first \<open>len\<close> bytes of a buffer.\<close>

lemma rr_envelope_eq:
  assumes len: "4 + len \<le> MAX_MESSAGE_LENGTH os" "MAX_MESSAGE_LENGTH os < 256" "len \<le> length buff"
    and junk: "MAX_MESSAGE_LENGTH os \<le> length junk"
  shows "\<exists>rest. rr_envelope os junk i len buff = Some (message_bytes 1 i (take len buff) @ rest, 4 + len)"
proof -
  let ?e = "os_endianness os" and ?j = "take (MAX_MESSAGE_LENGTH os) junk"
  have j: "length ?j = MAX_MESSAGE_LENGTH os" using junk by simp
  obtain j0 js where js: "?j = j0 # js" using j len(1) by (cases ?j) auto
  have new: "cm_new 1 ?e ?j = Some (message_bytes 1 0 [] @ drop 4 ?j)"
    using message_build [of 1 0 ?j "0 # js" ?e 0] j len
    by (simp add: cm_new_def js set_message_id_def put_simps set_payload_def fletcher16_of rd_bytes_def)
  let ?b = "message_bytes 1 0 [] @ drop 4 ?j"
  have lb: "length ?b = MAX_MESSAGE_LENGTH os" using j len(1) by simp
  have "(do { b \<leftarrow> set_message_id ?e ?b i; set_payload 1 ?e b len buff 0 }) =
      Some (message_bytes 1 i (take len buff) @ drop (4 + len) ?b)"
    using message_build [of 1 len ?b buff ?e i] len lb by simp
  then obtain b2 where b2: "set_message_id ?e ?b i = Some b2" "set_payload 1 ?e b2 len buff 0 =
      Some (message_bytes 1 i (take len buff) @ drop (4 + len) ?b)" by (auto simp: bind_eq_Some_conv simp del: drop_append drop_drop)
  have "cm_serial_size 1 ?e (message_bytes 1 i (take len buff) @ drop (4 + len) ?b) = Some (4 + len)"
    using message_get(6) [of 1 "take len buff" ?e i] len by (simp add: size_mod_def)
  then show ?thesis using new b2 len
    by (simp add: rr_envelope_def Let_def del: One_nat_def drop_append)
qed

definition rr_packet :: "u8 \<Rightarrow> u32 \<Rightarrow> u8 \<Rightarrow> bytes \<Rightarrow> bytes" where
  "rr_packet k i c data = message_bytes 1 k (rrm_bytes i c data)"

lemma length_rr_packet [simp]: "length (rr_packet k i c data) = 10 + length data"
  by (simp add: rr_packet_def)

lemma rr_transmit_eq:
  assumes "rrm_is m i c data" and "10 + length data \<le> MAX_MESSAGE_LENGTH os" "MAX_MESSAGE_LENGTH os < 256"
    and "MAX_MESSAGE_LENGTH os \<le> length junk"
  shows "rr_transmit os junk k dest m = Some (Rr_send dest (rr_packet k i c data))"
proof -
  let ?buff = "rrm_bytes i c data @ drop (6 + length data) (take (MAX_MESSAGE_LENGTH os) junk)"
  have "rrm_serialize (os_endianness os) m (take (MAX_MESSAGE_LENGTH os) junk) = Some ?buff"
    using rrm_serialize_eq [OF assms(1)] assms(2,4) by simp
  moreover have "rrm_serial_size m = 6 + length data" using rrm_serial_size_eq [OF assms(1)] assms(2,3) by simp
  moreover obtain rest where "rr_envelope os junk k (6 + length data) ?buff = Some (message_bytes 1 k (take (6 + length data) ?buff) @ rest, 4 + (6 + length data))"
    using rr_envelope_eq [of "6 + length data" os ?buff junk k] assms(2-4) by auto
  ultimately show ?thesis by (simp add: rr_transmit_def rr_packet_def rd_bytes_def)
qed

lemma rr_report_defined:
  assumes "4 + len \<le> MAX_MESSAGE_LENGTH os" "MAX_MESSAGE_LENGTH os < 256" "len \<le> length buff" "MAX_MESSAGE_LENGTH os \<le> length junk"
  shows "\<exists>rest. rr_report os junk st k node len buff = Some (rr_notify st node (4 + len) (message_bytes 1 k (take len buff) @ rest))"
  using rr_envelope_eq [OF assms, of k] by (auto simp: rr_report_def rr_notify_def cm_serialize_def)

section \<open>Well-formed radios\<close>

definition rr_wf_message :: "os_model \<Rightarrow> rr_message \<Rightarrow> bool" where
  "rr_wf_message os m \<longleftrightarrow> length (rrm_payload m) = MAX_MESSAGE_LENGTH os \<and> unat (rrm_payload_size m) + 10 \<le> MAX_MESSAGE_LENGTH os"

text \<open>A reply carries the node it is for in its payload.\<close>

definition rr_wf_reply :: "os_model \<Rightarrow> rr_message \<Rightarrow> bool" where
  "rr_wf_reply os r \<longleftrightarrow> length (rrm_payload r) = MAX_MESSAGE_LENGTH os \<and> rrm_payload_size r = 2 \<and>
     take 2 (rrm_payload r) = [hi8 (rrm_destination r), lo8 (rrm_destination r)] \<and> \<not> rrm_delivered r"

definition rr_wf :: "os_model \<Rightarrow> 'c reliable_radio \<Rightarrow> bool" where
  "rr_wf os st \<longleftrightarrow> vs_inv (rr_callbacks st) \<and> vs_inv (rr_messages st) \<and> vs_inv (rr_replies st) \<and>
     (\<forall>m \<in> set (elems (rr_messages st)). rr_wf_message os m) \<and> (\<forall>r \<in> set (elems (rr_replies st)). rr_wf_reply os r)"

text \<open>The sizes a radio has and the memory it finds for its local objects.\<close>

definition rr_memory :: "os_model \<Rightarrow> bytes \<Rightarrow> bool" where
  "rr_memory os junk \<longleftrightarrow> 12 \<le> MAX_MESSAGE_LENGTH os \<and> MAX_MESSAGE_LENGTH os < 256 \<and> MAX_MESSAGE_LENGTH os \<le> length junk"

lemma rr_wf_message_is: "rr_wf_message os m \<Longrightarrow> \<exists>data. rrm_is m (rrm_message_id m) (rrm_counter m) data \<and>
    data = take (unat (rrm_payload_size m)) (rrm_payload m) \<and> length data = unat (rrm_payload_size m)"
  using unsigned_less [of "rrm_payload_size m", where 'a = nat]
  by (intro exI [of _ "take (unat (rrm_payload_size m)) (rrm_payload m)"]) (auto simp: rrm_is_def rr_wf_message_def min_def)

lemma rr_reply_destination:
  assumes "rr_wf_reply os r"
  shows "reply_destination_read e r = Some r"
proof -
  have "\<exists>js. rrm_payload r = hi8 (rrm_destination r) # lo8 (rrm_destination r) # js"
    using assms append_take_drop_id [of 2 "rrm_payload r"] unfolding rr_wf_reply_def by (metis append_Cons append_Nil)
  then obtain js where "rrm_payload r = hi8 (rrm_destination r) # lo8 (rrm_destination r) # js" ..
  then show ?thesis by (simp add: reply_destination_read_def put_simps)
qed

lemma rr_check_loop_wf: "\<forall>r \<in> set rs. rr_wf_reply os r \<Longrightarrow>
    rr_check_loop e i from rs = Some (rs, \<exists>r \<in> set rs. rrm_message_id r = i \<and> rrm_destination r = from)"
proof (induction rs)
  case (Cons r rs)
  then have r: "reply_destination_read e r = Some r" "\<not> rrm_delivered r"
    using rr_reply_destination [of os r e] by (auto simp: rr_wf_reply_def)
  then show ?case using Cons by auto
qed simp

lemma vs_store_same [simp]: "vs_store v (elems v) = v"
  by (simp add: vs_store_def elems_def)

definition rr_known :: "'c reliable_radio \<Rightarrow> u32 \<Rightarrow> node_id \<Rightarrow> bool" where
  "rr_known st i from \<longleftrightarrow> (\<exists>r \<in> set (elems (rr_replies st)). rrm_message_id r = i \<and> rrm_destination r = from)"

lemma replies_check_wf: "rr_wf os st \<Longrightarrow> replies_check e st i from = Some (st, rr_known st i from)"
  using rr_check_loop_wf [of "elems (rr_replies st)" os e i "from"] by (simp add: replies_check_def rr_wf_def rr_known_def)

lemma rr_replace_spec: "rr_replace p x ys = (zs, ok) \<Longrightarrow> length zs = length ys \<and> set zs \<subseteq> insert x (set ys) \<and>
    (ok \<longrightarrow> x \<in> set zs) \<and> (\<not> ok \<longrightarrow> zs = ys) \<and> (\<forall>y \<in> set ys. \<not> p y \<longrightarrow> y \<in> set zs)"
proof (induction ys arbitrary: zs ok)
  case (Cons y ys)
  obtain us k where "rr_replace p x ys = (us, k)" by force
  with Cons.IH [OF this] Cons.prems show ?case by (auto split: if_splits)
qed simp

lemma rr_insert_spec:
  assumes "rr_insert p v x = (v', ok)" and "vs_inv v"
  shows "vs_inv v' \<and> set (elems v') \<subseteq> insert x (set (elems v)) \<and> (ok \<longrightarrow> x \<in> set (elems v')) \<and> (\<not> ok \<longrightarrow> v' = v) \<and>
    (\<forall>y \<in> set (elems v). \<not> p y \<longrightarrow> y \<in> set (elems v'))"
proof (cases "vs_max_size v > vs_size v")
  case True
  then have "v' = vs_push_back v x" "ok" using assms(1) by (simp_all add: rr_insert_def)
  moreover have "elems (vs_push_back v x) = elems v @ [x]" using True assms(2) by (simp add: vs_push_back_elems)
  ultimately show ?thesis using vs_push_back_inv [OF assms(2)] by auto
next
  case False
  obtain zs k where z: "rr_replace p x (elems v) = (zs, k)" by force
  note spec = rr_replace_spec [OF z]
  have v: "v' = vs_store v zs" "ok = k" using False assms(1) z by (simp_all add: rr_insert_def)
  have "elems (vs_store v zs) = zs" "vs_inv (vs_store v zs)" using vs_store_elems [OF assms(2), of zs] spec by simp_all
  then show ?thesis using spec v by auto
qed

lemma list_of_two: "2 \<le> length xs \<Longrightarrow> \<exists>a b ys. xs = a # b # ys"
  by (cases xs; cases "tl xs") auto

text \<open>The reply to a message.\<close>

definition rr_reply_of :: "os_model \<Rightarrow> bytes \<Rightarrow> rr_message \<Rightarrow> node_id \<Rightarrow> rr_message" where
  "rr_reply_of os junk m from = (rrm_new (take (MAX_MESSAGE_LENGTH os) junk))\<lparr>rrm_message_id := rrm_message_id m,
     rrm_counter := rrm_counter m, rrm_payload_size := 2, rrm_destination := from,
     rrm_payload := hi8 from # lo8 from # drop 2 (take (MAX_MESSAGE_LENGTH os) junk)\<rparr>"

lemma rr_make_reply_eq:
  assumes "rr_memory os junk"
  shows "rr_make_reply os junk m from = Some (rr_reply_of os junk m from)"
    "rrm_is (rr_reply_of os junk m from) (rrm_message_id m) (rrm_counter m) [hi8 from, lo8 from]"
    "rr_wf_reply os (rr_reply_of os junk m from)" "rrm_message_id (rr_reply_of os junk m from) = rrm_message_id m"
    "rrm_destination (rr_reply_of os junk m from) = from" "rrm_counter (rr_reply_of os junk m from) = rrm_counter m"
proof -
  let ?j = "take (MAX_MESSAGE_LENGTH os) junk"
  have "2 \<le> length ?j" using assms by (auto simp: rr_memory_def)
  then obtain j0 j1 js where j: "?j = j0 # j1 # js" using list_of_two by blast
  have lj: "Suc (Suc (length js)) = MAX_MESSAGE_LENGTH os" using arg_cong [OF j, of length] assms by (simp add: rr_memory_def)
  have two: "Suc (Suc 0) \<le> MAX_MESSAGE_LENGTH os" unfolding lj [symmetric] by simp
  show "rr_make_reply os junk m from = Some (rr_reply_of os junk m from)"
    unfolding rr_make_reply_def rr_reply_of_def j
    by (simp add: rrm_new_def rrm_set_payload_def rd_bytes_def memcpy_def reply_destination_write_def put_simps)
  show "rrm_is (rr_reply_of os junk m from) (rrm_message_id m) (rrm_counter m) [hi8 from, lo8 from]"
    "rr_wf_reply os (rr_reply_of os junk m from)"
    using two unfolding rr_reply_of_def j by (simp_all add: rrm_is_def rr_wf_reply_def rrm_new_def lj)
qed (simp_all add: rr_reply_of_def)


section \<open>What arrives\<close>

text \<open>The message objects that a packet is read into.\<close>

definition rr_received :: "os_model \<Rightarrow> bytes \<Rightarrow> bytes \<Rightarrow> rr_message" where
  "rr_received os junk msg = rrm_of (take (MAX_MESSAGE_LENGTH os) junk) (drop 4 msg)"

text \<open>A packet in memory that is large enough for what its length fields say.\<close>

definition rr_readable :: "os_model \<Rightarrow> nat \<Rightarrow> bytes \<Rightarrow> bool" where
  "rr_readable os len msg \<longleftrightarrow> 10 \<le> length msg \<and> 4 + unat (msg ! 3) \<le> length msg \<and> 10 + unat (msg ! 9) \<le> length msg \<and>
     unat (msg ! 9) \<le> MAX_MESSAGE_LENGTH os \<and> 4 + len \<le> length msg \<and> 4 + len \<le> MAX_MESSAGE_LENGTH os"

lemma rr_readable_de_serialize:
  assumes "rr_readable os len msg" and "rr_memory os junk"
  shows "rrm_de_serialize e (rrm_new (take (MAX_MESSAGE_LENGTH os) junk)) (get_payload 1 msg) = Some (rr_received os junk msg)"
proof -
  have "get_payload 1 msg = drop 4 msg" by (simp add: get_payload_def)
  moreover have "drop 4 msg ! 5 = msg ! 9" using assms(1) by (simp add: rr_readable_def)
  moreover have "6 + unat (msg ! 9) \<le> length msg - 4" using assms(1) by (auto simp: rr_readable_def)
  ultimately show ?thesis using assms rrm_de_serialize_of [of "drop 4 msg" "take (MAX_MESSAGE_LENGTH os) junk" e]
    by (simp add: rr_readable_def rr_received_def rr_memory_def)
qed

lemma length_rr_received:
  assumes "rr_readable os len msg" and "rr_memory os junk"
  shows "length (rrm_payload (rr_received os junk msg)) = MAX_MESSAGE_LENGTH os"
  using assms by (auto simp: rr_received_def rrm_of_def rr_readable_def rr_memory_def)

lemma rr_readable_checks:
  assumes "rr_readable os len msg"
  shows "get_message_id e msg = Some (msg ! 0)" "\<exists>ok. compare_checksum 1 e msg = Some ok"
proof -
  have "10 \<le> length msg" "4 + unat (msg ! 3) \<le> length msg" using assms by (simp_all add: rr_readable_def)
  then have l: "0 < length msg" "1 < length msg" "2 < length msg" "3 < length msg" "4 + unat (msg ! 3) \<le> length msg" by linarith+
  then obtain a b c d msg' where "msg = a # b # c # d # msg'" by (auto simp: numeral_eq_Suc Suc_less_eq2 less_Suc_eq_0_disj length_ge_Cons less_eq_Suc_le)
  then show "get_message_id e msg = Some (msg ! 0)" by (simp add: get_message_id_def put_simps)
  show "\<exists>ok. compare_checksum 1 e msg = Some ok"
    using l by (simp add: compare_checksum_def get_payload_size_def get_size_def put_simps fletcher16_of)
qed

lemma rr_receive_message_eq:
  fixes st :: "'c reliable_radio"
  assumes "rr_wf os st" "rr_memory os junk" "rr_readable os len msg"
  shows "rr_receive_message os junk st from len msg =
    (let m = rr_received os junk msg; r = rr_reply_of os junk m from in
     if rr_known st (rrm_message_id m) from then Some (st, [])
     else (let (st', ok) = insert_reliable_radio_reply st r in
       if ok then Some (st', Rr_send from (rr_packet RR_REPLY (rrm_message_id m) (rrm_counter m) [hi8 from, lo8 from]) #
         rr_notify st' from (unat (rrm_payload_size m)) (rrm_payload m))
       else map_option (Pair st') (rr_report os junk st' RR_REPLY_BUFFER_FULL from len (drop 4 msg))))"
proof -
  let ?m = "rr_received os junk msg"
  note reply = rr_make_reply_eq [OF assms(2), of ?m "from"]
  have "rr_transmit os junk RR_REPLY from (rr_reply_of os junk ?m from) =
      Some (Rr_send from (rr_packet RR_REPLY (rrm_message_id ?m) (rrm_counter ?m) [hi8 from, lo8 from]) :: 'c rr_call)"
    using assms(2) by (intro rr_transmit_eq [OF reply(2)]) (simp_all add: rr_memory_def)
  then show ?thesis
    using rr_readable_de_serialize [OF assms(3,2)] reply replies_check_wf [OF assms(1)]
    by (simp add: rr_receive_message_def Let_def get_payload_def map_conv_bind_option comp_def split: prod.splits)
qed

lemma rr_reply_inserted:
  assumes "insert_reliable_radio_reply st r = (st', ok)" and "rr_wf os st" and "rr_wf_reply os r"
  shows "rr_wf os st'" and "ok \<Longrightarrow> r \<in> set (elems (rr_replies st'))"
    and "\<And>x. x \<in> set (elems (rr_replies st)) \<Longrightarrow> unat (rrm_counter x) < unat (rr_max_retries st) \<Longrightarrow> x \<in> set (elems (rr_replies st'))"
    and "rr_max_retries st' = rr_max_retries st" "rr_callbacks st' = rr_callbacks st" "rr_active st' = rr_active st"
proof -
  obtain v ok' where v: "rr_insert (\<lambda>x. unat (rrm_counter x) \<ge> unat (rr_max_retries st)) (rr_replies st) r = (v, ok')" by force
  have "vs_inv (rr_replies st)" using assms(2) by (simp add: rr_wf_def)
  note spec = rr_insert_spec [OF v this]
  have st': "st' = st\<lparr>rr_replies := v\<rparr>" "ok = ok'" using assms(1) v by (simp_all add: insert_reliable_radio_reply_def)
  show "rr_wf os st'" using spec assms(2,3) unfolding st' rr_wf_def by auto
  show "ok \<Longrightarrow> r \<in> set (elems (rr_replies st'))" using spec unfolding st' by simp
  show "\<And>x. x \<in> set (elems (rr_replies st)) \<Longrightarrow> unat (rrm_counter x) < unat (rr_max_retries st) \<Longrightarrow> x \<in> set (elems (rr_replies st'))"
    using spec unfolding st' by auto
  show "rr_max_retries st' = rr_max_retries st" "rr_callbacks st' = rr_callbacks st" "rr_active st' = rr_active st"
    unfolding st' by simp_all
qed

lemma rr_message_inserted:
  assumes "insert_reliable_radio_message st m = (st', ok)" and "rr_wf os st" and "rr_wf_message os m"
  shows "rr_wf os st'" and "rr_replies st' = rr_replies st" "rr_max_retries st' = rr_max_retries st"
proof -
  obtain v ok' where v: "rr_insert (\<lambda>x. unat (rrm_counter x) > unat (rr_max_retries st) \<or> rrm_delivered x) (rr_messages st) m = (v, ok')" by force
  have "vs_inv (rr_messages st)" using assms(2) by (simp add: rr_wf_def)
  note spec = rr_insert_spec [OF v this]
  have st': "st' = st\<lparr>rr_messages := v\<rparr>" using assms(1) v by (simp add: insert_reliable_radio_message_def)
  show "rr_wf os st'" using spec assms(2,3) unfolding st' rr_wf_def by auto
  show "rr_replies st' = rr_replies st" "rr_max_retries st' = rr_max_retries st" unfolding st' by simp_all
qed


section \<open>What the daemon does\<close>

lemma rrm_inc_fields [simp]:
  "rrm_payload ((rrm_inc_counter ^^ n) m) = rrm_payload m" "rrm_payload_size ((rrm_inc_counter ^^ n) m) = rrm_payload_size m"
  "rrm_message_id ((rrm_inc_counter ^^ n) m) = rrm_message_id m" "rrm_destination ((rrm_inc_counter ^^ n) m) = rrm_destination m"
  "rrm_delivered ((rrm_inc_counter ^^ n) m) = rrm_delivered m"
  by (induction n) (simp_all add: rrm_inc_counter_def)

lemma rrm_inc_once [simp]:
  "rrm_payload (rrm_inc_counter m) = rrm_payload m" "rrm_payload_size (rrm_inc_counter m) = rrm_payload_size m"
  "rrm_message_id (rrm_inc_counter m) = rrm_message_id m" "rrm_destination (rrm_inc_counter m) = rrm_destination m"
  "rrm_delivered (rrm_inc_counter m) = rrm_delivered m" "rrm_counter (rrm_inc_counter m) = rrm_counter m + 1"
  by (simp_all add: rrm_inc_counter_def)

lemma rr_wf_message_transmit:
  assumes "rr_wf_message os m" and "rr_memory os junk"
  shows "rr_transmit os junk k dest m = Some (Rr_send dest (rr_packet k (rrm_message_id m) (rrm_counter m)
    (take (unat (rrm_payload_size m)) (rrm_payload m))))"
proof -
  let ?data = "take (unat (rrm_payload_size m)) (rrm_payload m)"
  obtain data where data: "rrm_is m (rrm_message_id m) (rrm_counter m) data" "data = ?data" "length data = unat (rrm_payload_size m)"
    using rr_wf_message_is [OF assms(1)] by blast
  show ?thesis unfolding data(2) [symmetric]
    using assms data(3) by (intro rr_transmit_eq [OF data(1)]) (simp_all add: rr_memory_def rr_wf_message_def)
qed

lemma rr_wf_message_report:
  assumes "rr_wf_message os m" and "rr_memory os junk"
  shows "\<exists>rest. rr_report os junk st k node (unat (rrm_payload_size m)) (rrm_payload m) = Some (rr_notify st node
    (4 + unat (rrm_payload_size m)) (message_bytes 1 k (take (unat (rrm_payload_size m)) (rrm_payload m)) @ rest))"
  using assms by (intro rr_report_defined) (auto simp: rr_wf_message_def rr_memory_def)

lemma rr_retry_wf:
  assumes "rr_wf_message os m" and "rr_memory os junk"
  shows "\<exists>m' cs. rr_retry os junk db st m = Some (m', cs) \<and> rr_wf_message os m'"
proof -
  obtain rest where rest: "rr_report os junk st RR_UNDELIVERED (rrm_destination m) (unat (rrm_payload_size m)) (rrm_payload m) = Some (rr_notify st (rrm_destination m)
      (4 + unat (rrm_payload_size m)) (message_bytes 1 RR_UNDELIVERED (take (unat (rrm_payload_size m)) (rrm_payload m)) @ rest))"
    using rr_wf_message_report [OF assms] by blast
  show ?thesis unfolding rr_retry_def
    using assms(1) by (simp add: rest rr_wf_message_transmit [OF assms] rr_wf_message_def)
qed

lemma rr_retry_all_wf:
  assumes "\<forall>m \<in> set ms. rr_wf_message os m" and "rr_memory os junk"
  shows "\<exists>ms' cs. rr_retry_all os junk db st ms = Some (ms', cs) \<and> length ms' = length ms \<and> (\<forall>m \<in> set ms'. rr_wf_message os m)"
  using assms(1)
proof (induction ms)
  case (Cons m ms)
  then obtain ms' cs' where "rr_retry_all os junk db st ms = Some (ms', cs')" "length ms' = length ms" "\<forall>m \<in> set ms'. rr_wf_message os m"
    by auto
  moreover obtain m' cs where "rr_retry os junk db st m = Some (m', cs)" "rr_wf_message os m'"
    using Cons.prems rr_retry_wf [OF _ assms(2), of m db st] by auto
  ultimately show ?case by simp
qed simp

lemma rr_age_wf: "rr_wf_reply os r \<Longrightarrow> rr_wf_reply os (rr_age n r)"
  by (simp add: rr_age_def rr_wf_reply_def)

lemma rr_daemon_wf:
  assumes "rr_wf os st" and "rr_memory os junk"
  shows "\<exists>st' cs. rr_daemon os junk db st = Some (st', cs) \<and> rr_wf os st' \<and> rr_max_retries st' = rr_max_retries st \<and>
    elems (rr_replies st') = (if rr_active st then map (rr_age (rr_max_retries st)) (elems (rr_replies st)) else elems (rr_replies st))"
proof (cases "rr_active st")
  case True
  have inv: "vs_inv (rr_messages st)" "vs_inv (rr_replies st)" and wf: "\<forall>m \<in> set (elems (rr_messages st)). rr_wf_message os m"
      "\<forall>r \<in> set (elems (rr_replies st)). rr_wf_reply os r" "vs_inv (rr_callbacks st)" using assms(1) by (simp_all add: rr_wf_def)
  obtain ms cs where ms: "rr_retry_all os junk db st (elems (rr_messages st)) = Some (ms, cs)" "length ms = length (elems (rr_messages st))"
      "\<forall>m \<in> set ms. rr_wf_message os m"
    using rr_retry_all_wf [OF wf(1) assms(2)] by blast
  let ?rs = "map (rr_age (rr_max_retries st)) (elems (rr_replies st))"
  have "length ?rs = length (elems (rr_replies st))" by simp
  note st = vs_store_elems [OF inv(1) ms(2)] vs_store_elems [OF inv(2) this]
  show ?thesis using True ms wf st by (simp add: rr_daemon_def rr_wf_def rr_age_wf)
next
  case False
  then show ?thesis using assms(1) by (simp add: rr_daemon_def)
qed

lemma rr_confirm_wf: "\<forall>m \<in> set ms. rr_wf_message os m \<Longrightarrow> m \<in> set (rr_confirm i from ms) \<Longrightarrow> rr_wf_message os m"
  by (induction ms) (auto simp: rr_wf_message_def split: if_splits)

lemma length_rr_confirm [simp]: "length (rr_confirm i from ms) = length ms"
  by (induction ms) simp_all

lemma rr_receive_reply_wf:
  assumes "rr_wf os st" "rr_memory os junk" "rr_readable os len msg"
  shows "\<exists>st'. rr_receive_reply os junk st from msg = Some (st', []) \<and> rr_wf os st' \<and> rr_max_retries st' = rr_max_retries st \<and>
    rr_replies st' = rr_replies st"
proof -
  let ?m = "rr_received os junk msg"
  have "Suc 0 < length (rrm_payload ?m)" using length_rr_received [OF assms(3,2)] assms(2) by (simp add: rr_memory_def)
  then obtain d where d: "reply_destination_read (os_endianness os) ?m = Some (?m\<lparr>rrm_destination := d\<rparr>)"
    by (auto simp: reply_destination_read_def put_simps)
  let ?ms = "rr_confirm (rrm_message_id ?m) from (elems (rr_messages st))"
  have inv: "vs_inv (rr_messages st)" using assms(1) by (simp add: rr_wf_def)
  have "length ?ms = length (elems (rr_messages st))" by simp
  note st = vs_store_elems [OF inv this]
  have "\<forall>m \<in> set ?ms. rr_wf_message os m" using assms(1) rr_confirm_wf by (auto simp: rr_wf_def)
  then show ?thesis using d st assms(1) rr_readable_de_serialize [OF assms(3,2)]
    by (simp add: rr_receive_reply_def Let_def rr_wf_def)
qed

section \<open>Runs\<close>

text \<open>What happens to a radio: calls of its users, packets that arrive, the daemon's timer.\<close>

datatype 'c rr_event =
    Ev_send node_id nat bytes
  | Ev_receive node_id nat bytes
  | Ev_daemon int
  | Ev_enable int
  | Ev_disable
  | Ev_reg 'c

definition rr_step :: "os_model \<Rightarrow> node_id \<Rightarrow> bytes \<Rightarrow> 'c reliable_radio \<Rightarrow> 'c rr_event \<Rightarrow>
    ('c reliable_radio \<times> 'c rr_call list) option" where
  "rr_step os self junk st ev = (case ev of
      Ev_send dest len data \<Rightarrow> rr_send os junk st dest len data
    | Ev_receive from len msg \<Rightarrow> rr_receive os self junk st from len msg
    | Ev_daemon db \<Rightarrow> rr_daemon os junk db st
    | Ev_enable db \<Rightarrow> rr_enable_radio os junk db st
    | Ev_disable \<Rightarrow> Some (rr_disable_radio st)
    | Ev_reg c \<Rightarrow> Some (fst (rr_reg_recv_callback st c), []))"

text \<open>Every event finds its own memory for local objects.\<close>

fun rr_run :: "os_model \<Rightarrow> node_id \<Rightarrow> 'c reliable_radio \<Rightarrow> (bytes \<times> 'c rr_event) list \<Rightarrow>
    ('c reliable_radio \<times> 'c rr_call list) option" where
  "rr_run os self st [] = Some (st, [])"
| "rr_run os self st ((junk, ev) # evs) = do {
     (st, cs) \<leftarrow> rr_step os self junk st ev;
     (st, cs') \<leftarrow> rr_run os self st evs;
     Some (st, cs @ cs') }"

text \<open>The sizes a caller has to keep to.\<close>

definition rr_event_fits :: "os_model \<Rightarrow> 'c rr_event \<Rightarrow> bool" where
  "rr_event_fits os ev = (case ev of
      Ev_send dest len data \<Rightarrow> len \<le> length data \<and> 10 + len \<le> MAX_MESSAGE_LENGTH os
    | Ev_receive from len msg \<Rightarrow> rr_readable os len msg
    | _ \<Rightarrow> True)"

text \<open>The replies that are still there and younger than the limit, after so many runs of the daemon.\<close>

definition rr_remembers :: "'c reliable_radio \<Rightarrow> u32 \<Rightarrow> node_id \<Rightarrow> nat \<Rightarrow> bool" where
  "rr_remembers st i from n \<longleftrightarrow> (\<exists>r \<in> set (elems (rr_replies st)). rrm_message_id r = i \<and> rrm_destination r = from \<and>
     unat (rrm_counter r) + n < unat (rr_max_retries st))"

fun rr_daemon_runs :: "(bytes \<times> 'c rr_event) list \<Rightarrow> nat" where
  "rr_daemon_runs [] = 0"
| "rr_daemon_runs ((junk, ev) # evs) = (case ev of Ev_daemon db \<Rightarrow> 1 | Ev_enable db \<Rightarrow> 1 | _ \<Rightarrow> 0) + rr_daemon_runs evs"

lemma rr_remembers_known: "rr_remembers st i from n \<Longrightarrow> rr_known st i from"
  by (auto simp: rr_remembers_def rr_known_def)

lemma unat_inc_le: "unat (c + 1 :: u8) \<le> unat c + 1"
  by (simp add: unat_word_ariths)

lemma rr_remembers_aged:
  assumes "rr_remembers st i from (Suc n)" and "rr_max_retries st' = rr_max_retries st"
    and "elems (rr_replies st') = map (rr_age (rr_max_retries st)) (elems (rr_replies st))"
  shows "rr_remembers st' i from n"
proof -
  obtain r where r: "r \<in> set (elems (rr_replies st))" "rrm_message_id r = i" "rrm_destination r = from"
      "unat (rrm_counter r) + Suc n < unat (rr_max_retries st)"
    using assms(1) by (auto simp: rr_remembers_def)
  have "unat (rrm_counter (rr_age (rr_max_retries st) r)) \<le> unat (rrm_counter r) + 1"
    using unat_inc_le [of "rrm_counter r"] by (simp add: rr_age_def)
  moreover have "rrm_message_id (rr_age (rr_max_retries st) r) = i" "rrm_destination (rr_age (rr_max_retries st) r) = from"
    using r by (simp_all add: rr_age_def)
  ultimately show ?thesis using r assms(2,3) unfolding rr_remembers_def by force
qed

lemma rr_remembers_kept:
  assumes "rr_remembers st i from n" and "rr_max_retries st' = rr_max_retries st"
    and "\<And>x. x \<in> set (elems (rr_replies st)) \<Longrightarrow> unat (rrm_counter x) < unat (rr_max_retries st) \<Longrightarrow> x \<in> set (elems (rr_replies st'))"
  shows "rr_remembers st' i from n"
  using assms unfolding rr_remembers_def by (metis add_lessD1)


text \<open>One event at a well-formed radio: it is defined, the radio stays well-formed, and remembers what it
  did, one daemon's run less.\<close>

lemma rr_send_step:
  fixes st :: "'c reliable_radio"
  assumes "rr_wf os st" "rr_memory os junk" "len \<le> length data" "10 + len \<le> MAX_MESSAGE_LENGTH os"
  shows "\<exists>st' cs. rr_send os junk st dest len data = Some (st', cs) \<and> rr_wf os st' \<and> rr_max_retries st' = rr_max_retries st \<and>
    rr_replies st' = rr_replies st"
proof (cases "rr_active st \<and> dest \<noteq> BROADCAST_ADDRESS os")
  case True
  let ?j = "take (MAX_MESSAGE_LENGTH os) junk"
  let ?m = "(rrm_new ?j)\<lparr>rrm_message_id := rr_seq st, rrm_payload_size := word_of_nat len, rrm_payload := take len data @ drop len ?j,
    rrm_destination := dest\<rparr>"
  let ?st = "st\<lparr>rr_seq := rr_seq st + 1\<rparr>"
  have len: "len < 256" "MAX_MESSAGE_LENGTH os \<le> length junk" "MAX_MESSAGE_LENGTH os < 256" using assms by (auto simp: rr_memory_def)
  have wf: "rr_wf_message os ?m" using assms len by (simp add: rr_wf_message_def byte_size)
  obtain st' ok where ins: "insert_reliable_radio_message ?st ?m = (st', ok)" by force
  have "rr_wf os ?st" using assms(1) by (simp add: rr_wf_def)
  note st' = rr_message_inserted [OF ins this wf]
  have sp: "rrm_set_payload ((rrm_new ?j)\<lparr>rrm_message_id := rr_seq st\<rparr>) len data =
      Some ((rrm_new ?j)\<lparr>rrm_message_id := rr_seq st, rrm_payload_size := word_of_nat len, rrm_payload := take len data @ drop len ?j\<rparr>)"
    using assms(3,4) len by (simp add: rrm_set_payload_def rd_bytes_def memcpy_def rrm_new_def)
  obtain cs where "rr_report os junk st' RR_MESSAGE_BUFFER_FULL dest len data = Some cs"
    using rr_report_defined [of len os data junk st' RR_MESSAGE_BUFFER_FULL dest] assms(3,4) len by auto
  moreover obtain c :: "'c rr_call" where "rr_transmit os junk RR_MESSAGE dest ?m = Some c" using rr_wf_message_transmit [OF wf assms(2)] by blast
  ultimately show ?thesis using True st'
    by (simp add: rr_send_def sp ins)
next
  case False
  then show ?thesis using assms by (auto simp: rr_send_def rd_bytes_def)
qed

lemma rr_receive_step:
  assumes "rr_wf os st" "rr_memory os junk" "rr_readable os len msg"
  shows "\<exists>st' cs. rr_receive os self junk st from len msg = Some (st', cs) \<and> rr_wf os st' \<and> rr_max_retries st' = rr_max_retries st \<and>
    (\<forall>x \<in> set (elems (rr_replies st)). unat (rrm_counter x) < unat (rr_max_retries st) \<longrightarrow> x \<in> set (elems (rr_replies st')))"
proof -
  let ?m = "rr_received os junk msg"
  let ?r = "rr_reply_of os junk ?m from"
  obtain st1 ok where ins: "insert_reliable_radio_reply st ?r = (st1, ok)" by force
  have "rr_wf_reply os ?r" by (rule rr_make_reply_eq [OF assms(2)])
  note st1 = rr_reply_inserted [OF ins assms(1) this]
  have "len \<le> length (drop 4 msg)" "4 + len \<le> MAX_MESSAGE_LENGTH os" "MAX_MESSAGE_LENGTH os < 256" "MAX_MESSAGE_LENGTH os \<le> length junk"
    using assms(2,3) by (auto simp: rr_readable_def rr_memory_def)
  then obtain cs where cs: "rr_report os junk st1 RR_REPLY_BUFFER_FULL from len (drop 4 msg) = Some cs"
    using rr_report_defined [of len os "drop 4 msg" junk st1 RR_REPLY_BUFFER_FULL "from"] by auto
  have M: "\<exists>st' cs. rr_receive_message os junk st from len msg = Some (st', cs) \<and> rr_wf os st' \<and> rr_max_retries st' = rr_max_retries st \<and>
      (\<forall>x \<in> set (elems (rr_replies st)). unat (rrm_counter x) < unat (rr_max_retries st) \<longrightarrow> x \<in> set (elems (rr_replies st')))"
    using rr_receive_message_eq [OF assms, of "from"] st1 cs assms(1) by (simp add: Let_def ins)
  obtain st2 where R: "rr_receive_reply os junk st from msg = Some (st2, [])" "rr_wf os st2" "rr_max_retries st2 = rr_max_retries st"
      "rr_replies st2 = rr_replies st" using rr_receive_reply_wf [OF assms] by blast
  obtain ok where "compare_checksum 1 (os_endianness os) msg = Some ok" using rr_readable_checks(2) [OF assms(3)] by blast
  then show ?thesis using M R assms(1) rr_readable_checks(1) [OF assms(3)]
    by (simp add: rr_receive_def Let_def)
qed

lemma rr_step_ok:
  assumes "rr_wf os st" "rr_memory os junk" "rr_event_fits os ev"
  shows "\<exists>st' cs. rr_step os self junk st ev = Some (st', cs) \<and> rr_wf os st' \<and> rr_max_retries st' = rr_max_retries st \<and>
    (\<forall>i from n. rr_remembers st i from (n + rr_daemon_runs [(junk, ev)]) \<longrightarrow> rr_remembers st' i from n)"
proof (cases ev)
  case (Ev_send dest len data)
  with assms(3) have fits: "len \<le> length data" "10 + len \<le> MAX_MESSAGE_LENGTH os" by (simp_all add: rr_event_fits_def)
  obtain st' cs where st': "rr_send os junk st dest len data = Some (st', cs)" "rr_wf os st'" "rr_max_retries st' = rr_max_retries st"
      "rr_replies st' = rr_replies st" using rr_send_step [OF assms(1,2) fits] by blast
  then show ?thesis by (simp add: Ev_send rr_step_def rr_remembers_def)
next
  case (Ev_receive "from" len msg)
  with assms(3) have "rr_readable os len msg" by (simp add: rr_event_fits_def)
  from rr_receive_step [OF assms(1,2) this, of self "from"]
  obtain st' cs where st': "rr_receive os self junk st from len msg = Some (st', cs)" "rr_wf os st'" "rr_max_retries st' = rr_max_retries st"
      "\<And>x. x \<in> set (elems (rr_replies st)) \<Longrightarrow> unat (rrm_counter x) < unat (rr_max_retries st) \<Longrightarrow> x \<in> set (elems (rr_replies st'))"
    by blast
  have "rr_remembers st i f n \<Longrightarrow> rr_remembers st' i f n" for i f n
    by (rule rr_remembers_kept [OF _ st'(3) st'(4)]) simp_all
  then show ?thesis using st' by (simp add: Ev_receive rr_step_def)
next
  case (Ev_daemon db)
  obtain st' cs where st': "rr_daemon os junk db st = Some (st', cs)" "rr_wf os st'" "rr_max_retries st' = rr_max_retries st"
     "elems (rr_replies st') = (if rr_active st then map (rr_age (rr_max_retries st)) (elems (rr_replies st)) else elems (rr_replies st))"
    using rr_daemon_wf [OF assms(1,2), of db] by blast
  have "rr_remembers st i f (Suc n) \<Longrightarrow> rr_remembers st' i f n" for i f n
  proof (cases "rr_active st")
    case False
    with st'(3,4) show "rr_remembers st i f (Suc n) \<Longrightarrow> rr_remembers st' i f n" by (auto simp: rr_remembers_def)
  qed (use rr_remembers_aged [of st i f n st'] st' in auto)
  then show ?thesis using st' by (simp add: Ev_daemon rr_step_def)
next
  case (Ev_enable db)
  have "rr_wf os (st\<lparr>rr_active := True\<rparr>)" using assms(1) by (simp add: rr_wf_def)
  from rr_daemon_wf [OF this assms(2), of db]
  obtain st' cs where st': "rr_daemon os junk db (st\<lparr>rr_active := True\<rparr>) = Some (st', cs)" "rr_wf os st'" "rr_max_retries st' = rr_max_retries st"
     "elems (rr_replies st') = map (rr_age (rr_max_retries st)) (elems (rr_replies st))"
    by auto
  then have "rr_remembers st i f (Suc n) \<Longrightarrow> rr_remembers st' i f n" for i f n
    using rr_remembers_aged [of st i f n st'] by blast
  then show ?thesis using st' by (simp add: Ev_enable rr_step_def rr_enable_radio_def)
next
  case Ev_disable
  then show ?thesis using assms(1) by (simp add: rr_step_def rr_disable_radio_def rr_wf_def rr_remembers_def)
next
  case (Ev_reg c)
  then show ?thesis using assms(1) vs_push_back_inv by (auto simp: rr_step_def rr_reg_recv_callback_def rr_wf_def rr_remembers_def)
qed

definition rr_events_fit :: "os_model \<Rightarrow> (bytes \<times> 'c rr_event) list \<Rightarrow> bool" where
  "rr_events_fit os evs \<longleftrightarrow> (\<forall>(junk, ev) \<in> set evs. rr_memory os junk \<and> rr_event_fits os ev)"

lemma rr_daemon_runs_Cons: "rr_daemon_runs (e # evs) = rr_daemon_runs [e] + rr_daemon_runs evs"
  by (cases e) simp

lemma rr_run_ok: "rr_wf os st \<Longrightarrow> rr_events_fit os evs \<Longrightarrow>
    \<exists>st' cs. rr_run os self st evs = Some (st', cs) \<and> rr_wf os st' \<and> rr_max_retries st' = rr_max_retries st \<and>
      (\<forall>i from n. rr_remembers st i from (n + rr_daemon_runs evs) \<longrightarrow> rr_remembers st' i from n)"
proof (induction evs arbitrary: st)
  case (Cons e evs)
  obtain junk ev where e: "e = (junk, ev)" by force
  with Cons.prems have "rr_memory os junk" "rr_event_fits os ev" and fit: "rr_events_fit os evs"
    by (auto simp: rr_events_fit_def)
  from rr_step_ok [OF Cons.prems(1) this(1,2), of self]
  obtain st1 cs1 where st1: "rr_step os self junk st ev = Some (st1, cs1)" "rr_wf os st1" "rr_max_retries st1 = rr_max_retries st"
      "\<And>i f n. rr_remembers st i f (n + rr_daemon_runs [e]) \<Longrightarrow> rr_remembers st1 i f n" unfolding e by blast
  from Cons.IH [OF st1(2) fit]
  obtain st2 cs2 where st2: "rr_run os self st1 evs = Some (st2, cs2)" "rr_wf os st2" "rr_max_retries st2 = rr_max_retries st1"
      "\<And>i f n. rr_remembers st1 i f (n + rr_daemon_runs evs) \<Longrightarrow> rr_remembers st2 i f n" by blast
  have "rr_remembers st i f (n + rr_daemon_runs (e # evs)) \<Longrightarrow> rr_remembers st2 i f n" for i f n
    using st2(4) [of i f n] st1(4) [of i f "n + rr_daemon_runs evs"] rr_daemon_runs_Cons [of e evs] by (simp add: add.assoc add.commute)
  then show ?case using st1 st2 e by (auto simp del: rr_daemon_runs.simps)
qed simp

text \<open>A radio as its constructor leaves it.\<close>

lemma rr_wf_new: "rr_wf os (rr_new status cbs junk)"
  by (simp add: rr_wf_def rr_new_def vs_new_elems)


section \<open>Packets that arrive\<close>

lemma rr_packet_nth:
  "rr_packet k i c data @ rest = message_bytes 1 k (rrm_bytes i c data) @ rest"
  "(rr_packet k i c data @ rest) ! 0 = k" "(rr_packet k i c data @ rest) ! 3 = word_of_nat (6 + length data)"
  "(rr_packet k i c data @ rest) ! 9 = word_of_nat (length data)" "drop 4 (rr_packet k i c data @ rest) = rrm_bytes i c data @ rest"
proof -
  obtain w0 w1 w2 w3 where "wire_image i = [w0, w1, w2, w3]" using four_list [OF length_wire_32] by blast
  then show "rr_packet k i c data @ rest = message_bytes 1 k (rrm_bytes i c data) @ rest"
    "(rr_packet k i c data @ rest) ! 0 = k" "(rr_packet k i c data @ rest) ! 3 = word_of_nat (6 + length data)"
    "(rr_packet k i c data @ rest) ! 9 = word_of_nat (length data)" "drop 4 (rr_packet k i c data @ rest) = rrm_bytes i c data @ rest"
    by (simp_all add: rr_packet_def message_bytes_def size_bytes_def rrm_bytes_def)
qed

lemma rr_packet_readable:
  assumes "10 + length data \<le> MAX_MESSAGE_LENGTH os" and "rr_memory os junk"
    and "4 + len \<le> MAX_MESSAGE_LENGTH os" and "len \<le> 6 + length data + length rest"
  shows "rr_readable os len (rr_packet k i c data @ rest)"
proof -
  have "6 + length data < 256" "length data < 256" using assms(1,2) by (auto simp: rr_memory_def)
  then have "unat (word_of_nat (6 + length data) :: u8) = 6 + length data" "unat (word_of_nat (length data) :: u8) = length data"
    by (simp_all only: byte_size)
  then show ?thesis using assms unfolding rr_readable_def rr_packet_nth(3,4) by simp
qed

lemma rr_packet_received:
  assumes "10 + length data \<le> MAX_MESSAGE_LENGTH os" and "rr_memory os junk"
  shows "rrm_is (rr_received os junk (rr_packet k i c data @ rest)) i c data"
    "rrm_payload (rr_received os junk (rr_packet k i c data @ rest)) = data @ drop (length data) (take (MAX_MESSAGE_LENGTH os) junk)"
  using assms rrm_of_bytes(1,2) [where data = data and junk = "take (MAX_MESSAGE_LENGTH os) junk" and i = i and c = c and rest = rest]
  unfolding rr_received_def rr_packet_nth(5) by (auto simp: rr_memory_def)

lemma rr_receive_packet:
  assumes "10 + length data \<le> MAX_MESSAGE_LENGTH os" and "rr_memory os junk" and "rr_active st" and "from \<noteq> self"
  shows "rr_receive os self junk st from len (rr_packet RR_MESSAGE i c data @ rest) =
    rr_receive_message os junk st from len (rr_packet RR_MESSAGE i c data @ rest)"
proof -
  have "length (rrm_bytes i c data) < 256 ^ 1" using assms(1,2) by (simp add: rr_memory_def)
  note get = message_get [OF size_width_1(1) this]
  show ?thesis using assms get(1,5) unfolding rr_packet_nth(1)
    by (simp add: rr_receive_def Let_def del: One_nat_def)
qed

text \<open>A packet whose message is remembered is ignored.\<close>

lemma rr_known_ignored:
  assumes "rr_wf os st" "rr_memory os junk" "10 + length data \<le> MAX_MESSAGE_LENGTH os"
    and "4 + len \<le> MAX_MESSAGE_LENGTH os" "len \<le> 6 + length data + length rest" and "rr_known st i from"
  shows "rr_receive os self junk st from len (rr_packet RR_MESSAGE i c data @ rest) = Some (st, [])"
proof (cases "rr_active st \<and> from \<noteq> self")
  case True
  have "rrm_message_id (rr_received os junk (rr_packet RR_MESSAGE i c data @ rest)) = i"
    using rr_packet_received(1) [OF assms(3,2)] by (simp add: rrm_is_def)
  then show ?thesis using True assms rr_receive_packet [OF assms(3,2), of st]
      rr_receive_message_eq [OF assms(1,2) rr_packet_readable [OF assms(3,2,4,5)]]
    by (simp add: Let_def)
next
  case False
  then show ?thesis by (auto simp: rr_receive_def)
qed

text \<open>A packet that is answered is delivered, and remembered.\<close>

lemma rr_answered:
  assumes "rr_wf os st" "rr_memory os junk" "10 + length data \<le> MAX_MESSAGE_LENGTH os"
    and "4 + len \<le> MAX_MESSAGE_LENGTH os" "len \<le> 6 + length data + length rest"
    and run: "rr_receive os self junk st from len (rr_packet RR_MESSAGE i c data @ rest) = Some (st', Rr_send to p # calls)"
  shows "to = from" "p = rr_packet RR_REPLY i c [hi8 from, lo8 from]"
    "calls = rr_notify st from (length data) (data @ drop (length data) (take (MAX_MESSAGE_LENGTH os) junk))"
    "rr_wf os st'" "rr_max_retries st' = rr_max_retries st"
    "unat c + n < unat (rr_max_retries st) \<Longrightarrow> rr_remembers st' i from n"
proof -
  let ?p = "rr_packet RR_MESSAGE i c data @ rest"
  let ?m = "rr_received os junk ?p"
  let ?r = "rr_reply_of os junk ?m from"
  have on: "rr_active st \<and> from \<noteq> self" using run by (cases "rr_active st \<and> from \<noteq> self") (auto simp: rr_receive_def)
  have m: "rrm_is ?m i c data" "rrm_payload ?m = data @ drop (length data) (take (MAX_MESSAGE_LENGTH os) junk)"
    by (rule rr_packet_received [OF assms(3,2)])+
  have id: "rrm_message_id ?m = i" "rrm_counter ?m = c" and size: "unat (rrm_payload_size ?m) = length data"
    using m(1) byte_size [of "length data"] by (simp_all add: rrm_is_def)
  obtain st1 ok where ins: "insert_reliable_radio_reply st ?r = (st1, ok)" by force
  note r = rr_make_reply_eq [OF assms(2), of ?m "from"]
  note st1 = rr_reply_inserted [OF ins assms(1) r(3)]
  have "rr_receive_message os junk st from len ?p = Some (st', Rr_send to p # calls)"
    using run rr_receive_packet [OF assms(3,2), of st] on by simp
  then have res: "\<not> rr_known st i from \<and> ok \<and> st' = st1 \<and> to = from \<and> p = rr_packet RR_REPLY i c [hi8 from, lo8 from] \<and>
      calls = rr_notify st1 from (length data) (data @ drop (length data) (take (MAX_MESSAGE_LENGTH os) junk))"
    unfolding rr_receive_message_eq [OF assms(1,2) rr_packet_readable [OF assms(3,2,4,5)]]
    by (auto simp: Let_def ins id size m(2) rr_report_def rr_notify_def split: if_splits bind_splits)
  then show "to = from" "p = rr_packet RR_REPLY i c [hi8 from, lo8 from]" by simp_all
  show "calls = rr_notify st from (length data) (data @ drop (length data) (take (MAX_MESSAGE_LENGTH os) junk))"
    using res st1(5) by (simp add: rr_notify_def)
  show "rr_wf os st'" "rr_max_retries st' = rr_max_retries st" using res st1 by simp_all
  show "rr_remembers st' i from n" if "unat c + n < unat (rr_max_retries st)"
    unfolding rr_remembers_def using res st1(2,4) r(4-6) id that by (intro bexI [of _ ?r]) simp_all
qed

section \<open>Messages without an answer\<close>

text \<open>A message the daemon has finished with, and the calls that concern a node: the packets sent to it and what the
  receivers are told of it.\<close>

definition rr_settled :: "'c reliable_radio \<Rightarrow> rr_message \<Rightarrow> bool" where
  "rr_settled st m \<longleftrightarrow> unat (rrm_counter m) > unat (rr_max_retries st) \<or> rrm_delivered m"

definition rr_calls_on :: "node_id \<Rightarrow> 'c rr_call list \<Rightarrow> 'c rr_call list" where
  "rr_calls_on node cs = filter (\<lambda>c. case c of Rr_send d b \<Rightarrow> d = node | Rr_notify c d n b \<Rightarrow> d = node | _ \<Rightarrow> False) cs"

lemma rr_calls_on_simps [simp]:
  "rr_calls_on node [] = []" "rr_calls_on node (cs @ cs') = rr_calls_on node cs @ rr_calls_on node cs'"
  "rr_calls_on node (Rr_send d b # cs) = (if d = node then Rr_send d b # rr_calls_on node cs else rr_calls_on node cs)"
  "rr_calls_on node (Rr_set_power n # cs) = rr_calls_on node cs" "rr_calls_on node (Rr_timer t # cs) = rr_calls_on node cs"
  "rr_calls_on node (rr_notify st d len b) = (if d = node then rr_notify st d len b else [])"
  by (simp_all add: rr_calls_on_def rr_notify_def comp_def)

text \<open>Messages that do not concern the node stay so, and cause no calls that do.\<close>

definition rr_aside :: "'c reliable_radio \<Rightarrow> node_id \<Rightarrow> rr_message \<Rightarrow> bool" where
  "rr_aside st node m \<longleftrightarrow> rr_settled st m \<or> rrm_destination m \<noteq> node"

lemma rr_retry_aside:
  assumes "rr_wf_message os m" and "rr_memory os junk" and "rr_aside st node m"
  shows "\<exists>m' cs. rr_retry os junk db st m = Some (m', cs) \<and> rr_aside st node m' \<and> rr_calls_on node cs = []"
proof (cases "rr_settled st m")
  case True
  then show ?thesis by (auto simp: rr_retry_def rr_settled_def rr_aside_def)
next
  case False
  then have d: "rrm_destination m \<noteq> node" using assms(3) by (simp add: rr_aside_def)
  obtain rest where rest: "rr_report os junk st RR_UNDELIVERED (rrm_destination m) (unat (rrm_payload_size m)) (rrm_payload m) = Some (rr_notify st (rrm_destination m)
      (4 + unat (rrm_payload_size m)) (message_bytes 1 RR_UNDELIVERED (take (unat (rrm_payload_size m)) (rrm_payload m)) @ rest))"
    using rr_wf_message_report [OF assms(1,2)] by blast
  show ?thesis using d by (simp add: rr_retry_def rest rr_wf_message_transmit [OF assms(1,2)] rr_aside_def)
qed

lemma rr_retry_all_aside:
  assumes "\<forall>m \<in> set ms. rr_wf_message os m \<and> rr_aside st node m" and "rr_memory os junk"
  shows "\<exists>ms' cs. rr_retry_all os junk db st ms = Some (ms', cs) \<and> length ms' = length ms \<and> (\<forall>m \<in> set ms'. rr_aside st node m) \<and>
    rr_calls_on node cs = []"
  using assms(1)
proof (induction ms)
  case (Cons m ms)
  then obtain ms' cs' where "rr_retry_all os junk db st ms = Some (ms', cs')" "length ms' = length ms" "\<forall>m \<in> set ms'. rr_aside st node m"
      "rr_calls_on node cs' = []"
    by auto
  moreover obtain m' cs where "rr_retry os junk db st m = Some (m', cs)" "rr_aside st node m'" "rr_calls_on node cs = []"
    using Cons.prems rr_retry_aside [OF _ assms(2), of m st node db] by auto
  ultimately show ?case by simp
qed simp

lemma rr_retry_all_append: "rr_retry_all os junk db st (us @ vs) = do {
    (us, cs) \<leftarrow> rr_retry_all os junk db st us;
    (vs, cs') \<leftarrow> rr_retry_all os junk db st vs;
    Some (us @ vs, cs @ cs') }"
  by (induction us) (auto split: bind_splits)

text \<open>The messages of the radio: one of them waits for its answer, with the given counter, and no other for the same node.\<close>

definition rr_waits :: "'c reliable_radio \<Rightarrow> node_id \<Rightarrow> u32 \<Rightarrow> nat \<Rightarrow> bytes \<Rightarrow> bool" where
  "rr_waits st node i n data \<longleftrightarrow> (\<exists>us m vs. elems (rr_messages st) = us @ m # vs \<and> (\<forall>x \<in> set us \<union> set vs. rr_aside st node x) \<and>
     rrm_destination m = node \<and> \<not> rrm_delivered m \<and> rrm_is m i (word_of_nat n) data)"

text \<open>The counter after \<open>k\<close> runs: the report of an undelivered message counts once for every receiver.\<close>

definition rr_count :: "'c reliable_radio \<Rightarrow> nat \<Rightarrow> nat" where
  "rr_count st k = (if k \<le> unat (rr_max_retries st) then k else unat (rr_max_retries st) + length (elems (rr_callbacks st)))"

lemma rr_retry_waiting:
  assumes "rr_wf_message os m" and "rr_memory os junk" and "\<not> rrm_delivered m" and "rrm_is m i (word_of_nat (rr_count st k)) data"
    and "unat (rr_max_retries st) + length (elems (rr_callbacks st)) < 256"
  shows "\<exists>m' cs rest. rr_retry os junk db st m = Some (m', cs) \<and> rrm_destination m' = rrm_destination m \<and> \<not> rrm_delivered m' \<and>
    rrm_is m' i (word_of_nat (rr_count st (Suc k))) data \<and>
    rr_calls_on (rrm_destination m) cs =
      (if k < unat (rr_max_retries st) then [Rr_send (rrm_destination m) (rr_packet RR_MESSAGE i (word_of_nat k) data)]
       else if k = unat (rr_max_retries st) then
         rr_notify st (rrm_destination m) (4 + length data) (message_bytes 1 RR_UNDELIVERED data @ rest)
       else [])"
proof -
  let ?R = "unat (rr_max_retries st)" and ?C = "length (elems (rr_callbacks st))" and ?d = "rrm_destination m"
  have lt: "rr_count st k < 256" using assms(5) by (simp add: rr_count_def)
  have m: "rrm_message_id m = i" "unat (rrm_counter m) = rr_count st k" "unat (rrm_payload_size m) = length data"
      "take (length data) (rrm_payload m) = data" "rrm_counter m = word_of_nat (rr_count st k)"
    using assms(4) byte_size [of "length data"] byte_size [OF lt] by (simp_all add: rrm_is_def)
  have inc: "rrm_is ((rrm_inc_counter ^^ n) m) i (word_of_nat (rr_count st k + n)) data" for n
    using assms(4) by (induction n) (simp_all add: rrm_is_def)
  obtain rest where rep: "rr_report os junk st RR_UNDELIVERED ?d (unat (rrm_payload_size m)) (rrm_payload m) =
      Some (rr_notify st ?d (4 + length data) (message_bytes 1 RR_UNDELIVERED data @ rest))"
    using rr_wf_message_report [OF assms(1,2), of st RR_UNDELIVERED ?d] m by auto
  consider "k < ?R" | "k = ?R" | "?R < k" by linarith
  then show ?thesis
  proof cases
    case 1
    then have "rr_count st (Suc k) = rr_count st k + 1" "rr_count st k = k" by (simp_all add: rr_count_def)
    then show ?thesis using 1 inc [of 1] assms(3) m by (simp add: rr_retry_def rr_wf_message_transmit [OF assms(1,2)])
  next
    case 2
    then have "rr_count st (Suc k) = rr_count st k + ?C" "rr_count st k = ?R" by (simp_all add: rr_count_def)
    then show ?thesis using 2 inc [of ?C] assms(3) m(2) rep by (auto simp: rr_retry_def)
  next
    case 3
    then have c: "rr_count st (Suc k) = rr_count st k" "rr_count st k = ?R + ?C" by (simp_all add: rr_count_def)
    show ?thesis
    proof (cases "?C = 0")
      case True
      then have "rr_notify st ?d n b = []" for n b by (simp add: rr_notify_def)
      then show ?thesis using True 3 c assms(3,4) m(2) rep by (auto simp: rr_retry_def)
    qed (use 3 c assms(3,4) m(2) in \<open>auto simp: rr_retry_def\<close>)
  qed
qed

lemma rr_daemon_waiting:
  assumes "rr_wf os st" and "rr_memory os junk" and "rr_active st" and "rr_waits st node i (rr_count st k) data"
    and "unat (rr_max_retries st) + length (elems (rr_callbacks st)) < 256"
  shows "\<exists>st' cs rest. rr_daemon os junk db st = Some (st', cs) \<and> rr_wf os st' \<and> rr_active st' \<and>
    rr_max_retries st' = rr_max_retries st \<and> rr_callbacks st' = rr_callbacks st \<and> rr_waits st' node i (rr_count st (Suc k)) data \<and>
    rr_calls_on node cs =
      (if k < unat (rr_max_retries st) then [Rr_send node (rr_packet RR_MESSAGE i (word_of_nat k) data)]
       else if k = unat (rr_max_retries st) then rr_notify st node (4 + length data) (message_bytes 1 RR_UNDELIVERED data @ rest)
       else [])"
proof -
  obtain us m vs where e: "elems (rr_messages st) = us @ m # vs" "\<forall>x \<in> set us \<union> set vs. rr_aside st node x"
      "rrm_destination m = node" "\<not> rrm_delivered m" "rrm_is m i (word_of_nat (rr_count st k)) data"
    using assms(4) by (auto simp: rr_waits_def)
  have inv: "vs_inv (rr_messages st)" and wf: "\<forall>x \<in> set us \<union> set (m # vs). rr_wf_message os x"
    using assms(1) e(1) by (auto simp: rr_wf_def)
  obtain us' cs1 where u: "rr_retry_all os junk db st us = Some (us', cs1)" "length us' = length us"
      "\<forall>x \<in> set us'. rr_aside st node x" "rr_calls_on node cs1 = []"
    using rr_retry_all_aside [OF _ assms(2), of us st node db] e(2) wf by blast
  obtain vs' cs3 where v: "rr_retry_all os junk db st vs = Some (vs', cs3)" "length vs' = length vs"
      "\<forall>x \<in> set vs'. rr_aside st node x" "rr_calls_on node cs3 = []"
    using rr_retry_all_aside [OF _ assms(2), of vs st node db] e(2) wf by auto
  obtain m' cs2 rest where m: "rr_retry os junk db st m = Some (m', cs2)" "rrm_destination m' = node" "\<not> rrm_delivered m'"
      "rrm_is m' i (word_of_nat (rr_count st (Suc k))) data"
      "rr_calls_on node cs2 = (if k < unat (rr_max_retries st) then [Rr_send node (rr_packet RR_MESSAGE i (word_of_nat k) data)]
       else if k = unat (rr_max_retries st) then rr_notify st node (4 + length data) (message_bytes 1 RR_UNDELIVERED data @ rest)
       else [])"
    using rr_retry_waiting [OF _ assms(2) e(4,5) assms(5), where db = db] wf unfolding e(3) by auto
  have all: "rr_retry_all os junk db st (us @ m # vs) = Some (us' @ m' # vs', cs1 @ cs2 @ cs3)"
    by (simp add: rr_retry_all_append u(1) v(1) m(1))
  have "length (us' @ m' # vs') = length (elems (rr_messages st))" using e(1) u(2) v(2) by simp
  note store = vs_store_elems [OF inv this]
  obtain st' cs where st': "rr_daemon os junk db st = Some (st', cs)" "rr_wf os st'" "rr_max_retries st' = rr_max_retries st"
    using rr_daemon_wf [OF assms(1,2), of db] by blast
  have f: "elems (rr_messages st') = us' @ m' # vs'" "rr_callbacks st' = rr_callbacks st" "rr_active st'" "rr_calls_on node cs = rr_calls_on node cs2"
    using st'(1) assms(3) store(1) all e(1) u(4) v(4) by (auto simp: rr_daemon_def)
  have "\<forall>x \<in> set us' \<union> set vs'. rr_aside st' node x" using u(3) v(3) st'(3) by (auto simp: rr_aside_def rr_settled_def)
  then have "rr_waits st' node i (rr_count st (Suc k)) data" unfolding rr_waits_def using f(1) m(2-4) by blast
  then show ?thesis using st' f m(5) by auto
qed

lemma rr_run_snoc: "rr_run os self st (evs @ [(junk, ev)]) = do {
    (st, cs) \<leftarrow> rr_run os self st evs;
    (st, cs') \<leftarrow> rr_step os self junk st ev;
    Some (st, cs @ cs') }"
  by (induction os self st evs rule: rr_run.induct) (auto split: bind_splits)

lemma rr_run_waiting:
  assumes "\<forall>(junk, ev) \<in> set evs. rr_memory os junk \<and> (\<exists>db. ev = Ev_daemon db)"
    and "rr_wf os st" "rr_active st" "rr_waits st node i 0 data"
    and "unat (rr_max_retries st) + length (elems (rr_callbacks st)) < 256"
  shows "\<exists>st' cs rest. rr_run os self st evs = Some (st', cs) \<and> rr_wf os st' \<and> rr_active st' \<and>
    rr_max_retries st' = rr_max_retries st \<and> rr_callbacks st' = rr_callbacks st \<and> rr_waits st' node i (rr_count st (length evs)) data \<and>
    rr_calls_on node cs =
      map (\<lambda>k. Rr_send node (rr_packet RR_MESSAGE i (word_of_nat k) data)) [0..<min (length evs) (unat (rr_max_retries st))] @
      (if length evs \<le> unat (rr_max_retries st) then []
       else rr_notify st node (4 + length data) (message_bytes 1 RR_UNDELIVERED data @ rest))"
  using assms(1)
proof (induction evs rule: rev_induct)
  case Nil
  then show ?case using assms(2-4) by (simp add: rr_count_def)
next
  case (snoc e evs)
  let ?R = "unat (rr_max_retries st)" and ?k = "length evs"
  obtain junk db where e: "e = (junk, Ev_daemon db)" and junk: "rr_memory os junk" using snoc.prems by auto
  have same: "rr_callbacks s = rr_callbacks st \<Longrightarrow> rr_notify s node l b = rr_notify st node l b" for s :: "'a reliable_radio" and l b
    by (simp add: rr_notify_def)
  obtain st1 cs1 rest1 where one: "rr_run os self st evs = Some (st1, cs1)" "rr_wf os st1" "rr_active st1"
      "rr_max_retries st1 = rr_max_retries st" "rr_callbacks st1 = rr_callbacks st" "rr_waits st1 node i (rr_count st ?k) data"
      "rr_calls_on node cs1 = map (\<lambda>k. Rr_send node (rr_packet RR_MESSAGE i (word_of_nat k) data)) [0..<min ?k ?R] @
        (if ?k \<le> ?R then [] else rr_notify st node (4 + length data) (message_bytes 1 RR_UNDELIVERED data @ rest1))"
    using snoc.IH snoc.prems by auto
  have count: "rr_count st1 k = rr_count st k" for k using one(4,5) by (simp add: rr_count_def)
  obtain st2 cs2 rest2 where two: "rr_daemon os junk db st1 = Some (st2, cs2)" "rr_wf os st2" "rr_active st2"
      "rr_max_retries st2 = rr_max_retries st" "rr_callbacks st2 = rr_callbacks st" "rr_waits st2 node i (rr_count st (Suc ?k)) data"
      "rr_calls_on node cs2 = (if ?k < ?R then [Rr_send node (rr_packet RR_MESSAGE i (word_of_nat ?k) data)]
       else if ?k = ?R then rr_notify st node (4 + length data) (message_bytes 1 RR_UNDELIVERED data @ rest2) else [])"
    using rr_daemon_waiting [OF one(2) junk one(3), of node i ?k data db] one(4-6) assms(5)
    unfolding count one(4,5) same [OF one(5)] by blast
  have run: "rr_run os self st (evs @ [e]) = Some (st2, cs1 @ cs2)" using one(1) two(1) by (simp add: e rr_run_snoc rr_step_def)
  let ?report = "\<lambda>rest. rr_notify st node (4 + length data) (message_bytes 1 RR_UNDELIVERED data @ rest)"
  have "\<exists>rest. rr_calls_on node (cs1 @ cs2) =
      map (\<lambda>k. Rr_send node (rr_packet RR_MESSAGE i (word_of_nat k) data)) [0..<min (Suc ?k) ?R] @
      (if Suc ?k \<le> ?R then [] else ?report rest)"
    unfolding rr_calls_on_simps(2) one(7) two(7)
    by (rule exI [of _ "if ?k = ?R then rest2 else rest1"], cases rule: linorder_cases [of ?k ?R])
      (simp_all add: min_def)
  then show ?case using run two(2-6) by auto
qed

text \<open>A message that is sent while there is room or a settled message to replace.\<close>

lemma rr_replace_some: "\<exists>y \<in> set ys. p y \<Longrightarrow> \<exists>us y vs. ys = us @ y # vs \<and> rr_replace p x ys = (us @ x # vs, True)"
proof (induction ys)
  case (Cons y ys)
  show ?case
  proof (cases "p y")
    case True
    then show ?thesis by (intro exI [of _ "[]"]) simp
  next
    case False
    then obtain us z vs where "ys = us @ z # vs" "rr_replace p x ys = (us @ x # vs, True)" using Cons by auto
    then show ?thesis using False by (intro exI [of _ "y # us"] exI [of _ z] exI [of _ vs]) simp
  qed
qed simp

lemma rr_insert_some:
  assumes "vs_inv v" and "vs_size v < vs_max_size v \<or> (\<exists>x \<in> set (elems v). p x)"
  shows "\<exists>v' us vs. rr_insert p v x = (v', True) \<and> vs_inv v' \<and> elems v' = us @ x # vs \<and> set us \<union> set vs \<subseteq> set (elems v)"
proof (cases "vs_size v < vs_max_size v")
  case True
  then show ?thesis using vs_push_back_inv [OF assms(1)] vs_push_back_elems [OF assms(1), of x]
    by (intro exI [of _ "vs_push_back v x"] exI [of _ "elems v"] exI [of _ "[]"]) (simp add: rr_insert_def)
next
  case False
  then obtain us y vs where r: "elems v = us @ y # vs" "rr_replace p x (elems v) = (us @ x # vs, True)"
    using rr_replace_some [of "elems v" p x] assms(2) by auto
  then have "length (us @ x # vs) = length (elems v)" by simp
  from vs_store_elems(1,2) [OF assms(1) this] show ?thesis using False r
    by (intro exI [of _ "vs_store v (us @ x # vs)"] exI [of _ us] exI [of _ vs]) (auto simp: rr_insert_def)
qed

section \<open>Properties\<close>

text \<open>C11: the sizes of the reliable radio. From a well-formed radio (in particular a new one), any sequence of calls,
  packets and timers that keeps to the sizes of the buffers is defined at every step, so no access leaves its memory and
  no reply is read without the node it is for, and the radio stays well-formed.\<close>

theorem rr_type_safe:
  assumes "rr_wf os st" and "rr_events_fit os evs"
  shows "\<exists>st' calls. rr_run os self st evs = Some (st', calls) \<and> rr_wf os st'"
  using rr_run_ok [OF assms, of self] by blast

text \<open>A radio with one receiver, and memory for local objects.\<close>

definition demo_rr :: "bool reliable_radio" where
  "demo_rr = (rr_new True [False] [])\<lparr>rr_callbacks := vs_push_back (vs_new [False]) True\<rparr>"

abbreviation "demo_junk \<equiv> replicate 116 (0 :: u8)"

lemma demo_rr_facts:
  "rr_wf demo_os demo_rr" "rr_memory demo_os demo_junk" "rr_active demo_rr" "elems (rr_callbacks demo_rr) = [True]"
  "elems (rr_messages demo_rr) = []" "elems (rr_replies demo_rr) = []" "vs_max_size (rr_messages demo_rr) = 10"
  "vs_max_size (rr_replies demo_rr) = 30" "vs_size (rr_replies demo_rr) = 0" "unat (rr_max_retries demo_rr) = 2" "rr_seq demo_rr = 0"
  by (simp_all add: demo_rr_def rr_new_def rr_wf_def rr_memory_def demo_os_def vs_new_elems vs_push_back_inv vs_push_back_elems)
    (simp_all add: vs_size_def vs_max_size_def vs_new_def)

lemma rr_type_safe_witness:
  "\<exists>st' calls. rr_run demo_os 7 demo_rr [(demo_junk, Ev_enable 0), (demo_junk, Ev_send 8 2 [1, 2, 3])] = Some (st', calls) \<and> rr_wf demo_os st'"
proof -
  have "rr_events_fit demo_os [(demo_junk, Ev_enable 0), (demo_junk, Ev_send 8 2 [1, 2, 3] :: bool rr_event)]"
    using demo_rr_facts(2) by (simp add: rr_events_fit_def rr_event_fits_def demo_os_def)
  from rr_type_safe [OF demo_rr_facts(1) this] show ?thesis .
qed

text \<open>C12: a message that has been answered is delivered to every receiver, and in any further run with fewer runs of the daemon
  than the reply has left until the limit of retries, no packet with its number from the same node, whatever its content,
  is delivered or answered again.\<close>

theorem rr_at_most_once:
  assumes "rr_wf os st" and "rr_events_fit os evs"
    and "rr_memory os junk" "rr_memory os junk'" "10 + length data \<le> MAX_MESSAGE_LENGTH os" "10 + length data' \<le> MAX_MESSAGE_LENGTH os"
    and "4 + len \<le> MAX_MESSAGE_LENGTH os" "len \<le> 6 + length data + length rest"
    and "4 + len' \<le> MAX_MESSAGE_LENGTH os" "len' \<le> 6 + length data' + length rest'"
    and "rr_receive os self junk st from len (rr_packet RR_MESSAGE i c data @ rest) = Some (st1, Rr_send to p # calls)"
    and "rr_run os self st1 evs = Some (st2, calls')"
    and "unat c + rr_daemon_runs evs < unat (rr_max_retries st)"
  shows "calls = rr_notify st from (length data) (data @ drop (length data) (take (MAX_MESSAGE_LENGTH os) junk)) \<and>
    rr_receive os self junk' st2 from len' (rr_packet RR_MESSAGE i c' data' @ rest') = Some (st2, [])"
proof -
  note st1 = rr_answered [OF assms(1,3,5,7,8,11)]
  have "rr_remembers st1 i from (0 + rr_daemon_runs evs)" using st1(6) [OF assms(13)] by simp
  then have st2: "rr_wf os st2" "rr_remembers st2 i from 0" using rr_run_ok [OF st1(4) assms(2), of self] assms(12) by fastforce+
  show ?thesis using st1(3) rr_known_ignored [OF st2(1) assms(4,6,9,10) rr_remembers_known [OF st2(2)]] by simp
qed

lemma rr_at_most_once_witness:
  "\<exists>st1 st2 p calls'. rr_receive demo_os 7 demo_junk demo_rr 8 9 (rr_packet RR_MESSAGE 5 0 [1, 2, 3] @ []) =
      Some (st1, [Rr_send 8 p, Rr_notify True 8 3 ([1, 2, 3] @ replicate 113 0)]) \<and>
    rr_run demo_os 7 st1 [(demo_junk, Ev_daemon 0)] = Some (st2, calls') \<and>
    rr_receive demo_os 7 demo_junk st2 8 9 (rr_packet RR_MESSAGE 5 1 [1, 2, 3] @ []) = Some (st2, [])"
proof -
  let ?p = "rr_packet RR_MESSAGE 5 0 [1, 2, 3] @ []"
  have max: "MAX_MESSAGE_LENGTH demo_os = 116" by (simp add: demo_os_def)
  note r = rr_packet_readable [where data = "[1, 2, 3]" and len = 9 and rest = "[]", OF _ demo_rr_facts(2), unfolded max]
  obtain st1 where ins: "insert_reliable_radio_reply demo_rr (rr_reply_of demo_os demo_junk (rr_received demo_os demo_junk ?p) 8) = (st1, True)"
    using demo_rr_facts by (simp add: insert_reliable_radio_reply_def rr_insert_def)
  have "\<not> rr_known demo_rr i f" for i f using demo_rr_facts by (simp add: rr_known_def)
  then obtain p calls where a: "rr_receive demo_os 7 demo_junk demo_rr 8 9 ?p = Some (st1, Rr_send 8 p # calls)"
    using rr_receive_packet [of "[1, 2, 3]" demo_os demo_junk demo_rr 8 7 9 5 0 "[]", unfolded max]
      rr_receive_message_eq [OF demo_rr_facts(1,2) r, of 8 RR_MESSAGE 5 0] ins demo_rr_facts by (simp add: Let_def)
  have evs: "rr_events_fit demo_os [(demo_junk, Ev_daemon 0 :: bool rr_event)]"
    using demo_rr_facts(2) by (simp add: rr_events_fit_def rr_event_fits_def)
  have "rr_wf demo_os st1" using rr_answered(4) [OF demo_rr_facts(1,2) _ _ _ a, unfolded max] by simp
  from rr_run_ok [OF this evs, of 7]
  obtain st2 calls' where run: "rr_run demo_os 7 st1 [(demo_junk, Ev_daemon 0)] = Some (st2, calls')" by blast
  have "calls = rr_notify demo_rr 8 3 ([1, 2, 3] @ drop 3 (take 116 demo_junk)) \<and>
      rr_receive demo_os 7 demo_junk st2 8 9 (rr_packet RR_MESSAGE 5 1 [1, 2, 3] @ []) = Some (st2, [])"
    using rr_at_most_once [OF demo_rr_facts(1) evs demo_rr_facts(2,2) _ _ _ _ _ _ a run, unfolded max, of "[1, 2, 3]" 9 "[]" 1]
      demo_rr_facts(10) by (simp add: numeral_3_eq_3)
  then show ?thesis using a run demo_rr_facts(4) by (auto simp: rr_notify_def drop_replicate)
qed

text \<open>C13: a message without an answer, in a radio of which no other message to the same node is under way and which has
  room for the message or one it has finished with. The message is sent once. After \<open>k\<close> runs of the daemon, with no other
  event, what the radio has sent to that node and told its receivers of it is: the packet once for each of the first \<open>R\<close> runs,
  where \<open>R\<close> is the number of retries, each time with the number of the retry (the first repetition is the packet itself);
  nothing else as long as \<open>k \<le> R\<close>; and from the run after that on, one report to every receiver that the message was not
  delivered, after which nothing follows. As this holds of every \<open>k\<close>, each run is fixed. The payload has to
  fit into a packet, and the retries and the receivers have to be counted by eight bits.\<close>

theorem rr_gives_up:
  fixes st :: "'c reliable_radio"
  assumes "rr_wf os st" "rr_active st"
    and "\<forall>m \<in> set (elems (rr_messages st)). rr_settled st m \<or> rrm_destination m \<noteq> dest"
    and "vs_size (rr_messages st) < vs_max_size (rr_messages st) \<or> (\<exists>m \<in> set (elems (rr_messages st)). rr_settled st m)"
    and "rr_memory os junk" "10 + len \<le> MAX_MESSAGE_LENGTH os" "len \<le> length data" "dest \<noteq> BROADCAST_ADDRESS os"
    and "\<forall>(junk, ev) \<in> set evs. rr_memory os junk \<and> (\<exists>db. ev = Ev_daemon db)"
    and "unat (rr_max_retries st) + length (elems (rr_callbacks st)) < 256"
  shows "\<exists>st1 st2 calls rest.
    let packet = \<lambda>j. rr_packet RR_MESSAGE (rr_seq st) (word_of_nat j) (take len data); R = unat (rr_max_retries st); k = length evs in
    rr_send os junk st dest len data = Some (st1, [Rr_send dest (packet 0)]) \<and>
    rr_run os self st1 evs = Some (st2, calls) \<and>
    rr_calls_on dest calls = map (\<lambda>j. Rr_send dest (packet j)) [0..<min k R] @
      (if k \<le> R then [] else rr_notify st dest (4 + len) (message_bytes 1 RR_UNDELIVERED (take len data) @ rest))"
proof -
  let ?j = "take (MAX_MESSAGE_LENGTH os) junk"
  let ?m = "(rrm_new ?j)\<lparr>rrm_message_id := rr_seq st, rrm_payload_size := word_of_nat len, rrm_payload := take len data @ drop len ?j,
    rrm_destination := dest\<rparr>"
  let ?st = "st\<lparr>rr_seq := rr_seq st + 1\<rparr>"
  have len: "len < 256" "MAX_MESSAGE_LENGTH os \<le> length junk" "MAX_MESSAGE_LENGTH os < 256" using assms by (auto simp: rr_memory_def)
  have inv: "vs_inv (rr_messages st)" using assms(1) by (simp add: rr_wf_def)
  have isd: "rrm_is ?m (rr_seq st) (word_of_nat 0) (take len data)"
    using len assms(6,7) by (simp add: rrm_is_def rrm_new_def)
  have "rrm_is ?m (rr_seq st) 0 (take len data)" using isd by simp
  then have tr: "rr_transmit os junk RR_MESSAGE dest ?m = Some (Rr_send dest (rr_packet RR_MESSAGE (rr_seq st) 0 (take len data)) :: 'c rr_call)"
    using assms(6,7) len by (intro rr_transmit_eq) simp_all
  have sp: "rrm_set_payload ((rrm_new ?j)\<lparr>rrm_message_id := rr_seq st\<rparr>) len data =
      Some ((rrm_new ?j)\<lparr>rrm_message_id := rr_seq st, rrm_payload_size := word_of_nat len, rrm_payload := take len data @ drop len ?j\<rparr>)"
    using assms(6,7) len by (simp add: rrm_set_payload_def rd_bytes_def memcpy_def rrm_new_def)
  obtain v us vs where v: "rr_insert (\<lambda>x. unat (rrm_counter x) > unat (rr_max_retries st) \<or> rrm_delivered x) (rr_messages st) ?m = (v, True)"
      "elems v = us @ ?m # vs" "set us \<union> set vs \<subseteq> set (elems (rr_messages st))"
    using rr_insert_some [OF inv assms(4) [unfolded rr_settled_def], of ?m] by blast
  let ?st1 = "?st\<lparr>rr_messages := v\<rparr>"
  have ins: "insert_reliable_radio_message ?st ?m = (?st1, True)" using v(1) by (simp add: insert_reliable_radio_message_def)
  have send: "rr_send os junk st dest len data = Some (?st1, [Rr_send dest (rr_packet RR_MESSAGE (rr_seq st) (word_of_nat 0) (take len data))])"
    using assms(2,8) tr ins by (simp add: rr_send_def sp)
  have "rr_wf os ?st" using assms(1) by (simp add: rr_wf_def)
  moreover have "rr_wf_message os ?m" using len assms(6,7) by (simp add: rr_wf_message_def byte_size rrm_new_def min_def)
  ultimately have wf: "rr_wf os ?st1" by (rule rr_message_inserted(1) [OF ins])
  have "\<forall>x \<in> set us \<union> set vs. rr_aside ?st1 dest x" using v(3) assms(3) by (auto simp: rr_aside_def rr_settled_def)
  then have waits: "rr_waits ?st1 dest (rr_seq st) 0 (take len data)"
    unfolding rr_waits_def using v(2) isd
    by (intro exI [of _ us] exI [of _ ?m] exI [of _ vs]) (simp add: rrm_new_def)
  have r: "rr_max_retries ?st1 = rr_max_retries st" "rr_callbacks ?st1 = rr_callbacks st" "rr_active ?st1" using assms(2) by simp_all
  have "rr_notify ?st1 dest n b = rr_notify st dest n b" for n b by (simp add: rr_notify_def)
  with rr_run_waiting [OF assms(9) wf r(3) waits, of self, unfolded r(1,2), OF assms(10)] send assms(7) show ?thesis
    unfolding Let_def by (auto simp: min_absorb2)
qed

text \<open>A radio with two retries, after two and after three runs.\<close>

lemma rr_gives_up_witness:
  "\<exists>st1 st2 st3 calls2 calls3 rest. rr_send demo_os demo_junk demo_rr 8 2 [1, 2, 3] = Some (st1, [Rr_send 8 (rr_packet RR_MESSAGE 0 0 [1, 2])]) \<and>
    rr_run demo_os 7 st1 (replicate 2 (demo_junk, Ev_daemon 0)) = Some (st2, calls2) \<and>
    rr_calls_on 8 calls2 = [Rr_send 8 (rr_packet RR_MESSAGE 0 0 [1, 2]), Rr_send 8 (rr_packet RR_MESSAGE 0 1 [1, 2])] \<and>
    rr_run demo_os 7 st1 (replicate 3 (demo_junk, Ev_daemon 0)) = Some (st3, calls3) \<and>
    rr_calls_on 8 calls3 = [Rr_send 8 (rr_packet RR_MESSAGE 0 0 [1, 2]), Rr_send 8 (rr_packet RR_MESSAGE 0 1 [1, 2]),
      Rr_notify True 8 6 (message_bytes 1 RR_UNDELIVERED [1, 2] @ rest)]"
proof -
  have u: "[0..<2] = [0, 1]" "[0..<min 2 2] = [0, 1]" "[0..<min 3 2] = [0, 1]" by (simp_all add: numeral_eq_Suc)
  have size: "vs_size (rr_messages demo_rr) < vs_max_size (rr_messages demo_rr) \<or> (\<exists>m \<in> set (elems (rr_messages demo_rr)). rr_settled demo_rr m)"
    using length_elems [of "rr_messages demo_rr"] demo_rr_facts(1,5,7) by (simp add: rr_wf_def)
  have "\<forall>m \<in> set (elems (rr_messages demo_rr)). rr_settled demo_rr m \<or> rrm_destination m \<noteq> 8" using demo_rr_facts(5) by simp
  note r = rr_gives_up [OF demo_rr_facts(1,3) this size demo_rr_facts(2), where len = 2 and data = "[1, 2, 3]" and self = 7]
  show ?thesis
    using r [of "replicate 2 (demo_junk, Ev_daemon 0)"] r [of "replicate 3 (demo_junk, Ev_daemon 0)"] demo_rr_facts(2,4,10,11)
    by (simp add: demo_os_def Let_def u rr_notify_def del: rr_run.simps) auto
qed

end
