(* ===== verification/Multi_Precision.thy ===== *)
theory Multi_Precision
  imports Wl_Prelude
begin

text \<open>
  \<^verbatim>\<open>wiselib.testing/algorithms/crypto/pmp.h\<close>, the class \<^verbatim>\<open>PMP\<close>: natural numbers of several
  digits and arithmetic modulo a prime, for the configuration of the file: keys of 128 bits and
  digits of 32 bits, least significant digit first. This theory has the operations on numbers,
  \<open>Modular\<close> those modulo a number.

  An array is the list of its digits, and an operation on \<open>digits\<close> digits reads and gives the first
  \<open>digits\<close> of them. The loops read position \<open>i\<close> of their arguments before they write position \<open>i\<close>
  of the result, so the values do not depend on whether the arrays are the same, which the comments of
  the code allow. Arrays that are read past their end, and local arrays that are too small, are
  \<^const>\<open>None\<close>. A length is the value of a \<^verbatim>\<open>uint8_t\<close>, so at most 255. The loops that run
  downwards count in an \<^verbatim>\<open>int8_t\<close>: from 129 digits on their counter starts with a negative value and they are
  not entered. The lengths in the library are at most 12.
\<close>

unbundle bit_operations_syntax

section \<open>Digits\<close>

abbreviation (input) "NN_DIGIT_BITS \<equiv> 32 :: nat"
abbreviation (input) "NN_DIGIT_LEN \<equiv> 4 :: nat"
abbreviation (input) "MAX_NN_DIGIT \<equiv> 0xffffffff :: u32"
abbreviation (input) "KEYDIGITS \<equiv> 4 :: nat"
abbreviation (input) "MAX_NN_DIGITS \<equiv> 5 :: nat"
abbreviation (input) "NUMWORDS \<equiv> 5 :: nat"

text \<open>A local array with room for \<open>cap\<close> digits.\<close>

definition nn_room :: "nat \<Rightarrow> nat \<Rightarrow> unit option" where
  "nn_room cap n = (if n \<le> cap then Some () else None)"

definition DigitMult :: "u32 \<Rightarrow> u32 \<Rightarrow> 64 word" where
  "DigitMult b c = ucast b * ucast c"

fun digit_bits_loop :: "nat \<Rightarrow> u32 \<Rightarrow> nat" where
  "digit_bits_loop 0 a = 0"
| "digit_bits_loop (Suc k) a = (if a = 0 then 0 else Suc (digit_bits_loop k (drop_bit 1 a)))"

definition DigitBits :: "u32 \<Rightarrow> nat" where
  "DigitBits a = digit_bits_loop NN_DIGIT_BITS a"

text \<open>The quotient of the two digits \<open>b1 b0\<close> by a digit, cut to a digit.\<close>

definition DigitDiv :: "u32 \<Rightarrow> u32 \<Rightarrow> u32 \<Rightarrow> u32" where
  "DigitDiv b0 b1 c = (let t = push_bit NN_DIGIT_BITS (ucast b1 :: 64 word) XOR ucast b0 in ucast (t div ucast c))"

section \<open>Comparisons and lengths\<close>

text \<open>These loops run from the most significant digit down.\<close>

fun cmp_loop :: "(u32 \<times> u32) list \<Rightarrow> int" where
  "cmp_loop [] = 0"
| "cmp_loop ((a, b) # ps) = (if a > b then 1 else if a < b then - 1 else cmp_loop ps)"

text \<open>The counter of such a loop starts with the length minus 1, cut to 8 bits with a sign; \<open>down_count\<close> is the number
  of digits that it visits.\<close>

definition down_count :: "nat \<Rightarrow> nat" where
  "down_count digits = nat (schar (int digits - 1) + 1)"

definition Cmp :: "u32 list \<Rightarrow> u32 list \<Rightarrow> nat \<Rightarrow> int option" where
  "Cmp a b digits = do {
     as \<leftarrow> rd_bytes a 0 (down_count digits);
     bs \<leftarrow> rd_bytes b 0 (down_count digits);
     Some (cmp_loop (rev (zip as bs))) }"

fun digits_loop :: "u32 list \<Rightarrow> nat" where
  "digits_loop [] = 0"
| "digits_loop (a # as) = (if a \<noteq> 0 then Suc (length as) else digits_loop as)"

text \<open>The result is the counter plus 1 as a \<^verbatim>\<open>uint16_t\<close>; the counter is negative from the start when the loop is not
  entered. \<open>Bits\<close> keeps the result in its parameter, a \<^verbatim>\<open>uint8_t\<close>.\<close>

definition Digits :: "u32 list \<Rightarrow> nat \<Rightarrow> nat option" where
  "Digits a digits =
     (let i = schar (int digits - 1) in
      if i < 0 then Some (unat (word_of_int (i + 1) :: u16))
      else do { as \<leftarrow> rd_bytes a 0 (down_count digits); Some (digits_loop (rev as)) })"

definition Bits :: "u32 list \<Rightarrow> nat \<Rightarrow> nat option" where
  "Bits a digits = do {
     n \<leftarrow> Digits a digits;
     n \<leftarrow> Some (n mod 256);
     if n = 0 then Some 0 else do { top \<leftarrow> rd a (n - 1); Some ((n - 1) * NN_DIGIT_BITS + DigitBits top) } }"

definition Zero :: "u32 list \<Rightarrow> nat \<Rightarrow> bool option" where
  "Zero a digits = do { as \<leftarrow> rd_bytes a 0 digits; Some (list_all (\<lambda>d. d = 0) as) }"

definition One :: "u32 list \<Rightarrow> nat \<Rightarrow> bool option" where
  "One a digits = do {
     as \<leftarrow> rd_bytes a 0 digits;
     d \<leftarrow> rd a 0;
     Some (list_all (\<lambda>d. d = 0) (drop 1 as) \<and> d = 1) }"

definition Even :: "u32 list \<Rightarrow> nat \<Rightarrow> bool option" where
  "Even a digits = (if digits = 0 then Some True else do { d \<leftarrow> rd a 0; Some (d AND 1 = 0) })"

definition Equal :: "u32 list \<Rightarrow> u32 list \<Rightarrow> nat \<Rightarrow> bool option" where
  "Equal a b digits = do { c \<leftarrow> Cmp a b digits; Some (c = 0) }"

text \<open>The counter of bits has 16 bits with a sign; a negative one is not used.\<close>

definition b_testbit :: "u32 list \<Rightarrow> nat \<Rightarrow> u32 option" where
  "b_testbit a i = do { d \<leftarrow> rd a (i div NN_DIGIT_BITS); Some (d AND push_bit (i mod NN_DIGIT_BITS) 1) }"

section \<open>Assignments and conversions\<close>

definition Assign :: "u32 list \<Rightarrow> nat \<Rightarrow> u32 list option" where
  "Assign b digits = rd_bytes b 0 digits"

definition AssignZero :: "nat \<Rightarrow> u32 list" where
  "AssignZero digits = replicate digits 0"

definition AssignDigit :: "u32 \<Rightarrow> nat \<Rightarrow> u32 list option" where
  "AssignDigit b digits = wr (AssignZero digits) 0 b"

definition Assign2Exp :: "nat \<Rightarrow> nat \<Rightarrow> u32 list option" where
  "Assign2Exp b digits =
     (if b \<ge> digits * NN_DIGIT_BITS then Some (AssignZero digits)
      else wr (AssignZero digits) (b div NN_DIGIT_BITS) (push_bit (b mod NN_DIGIT_BITS) 1))"

text \<open>Bytes are stored most significant first. The loops run through the reversed string; \<open>digit_of u bs\<close>
  collects up to four bytes into a digit.\<close>

fun decode_digit :: "nat \<Rightarrow> u8 list \<Rightarrow> u32 \<times> u8 list" where
  "decode_digit u [] = (0, [])"
| "decode_digit u (b # bs) =
     (if u < NN_DIGIT_BITS then (let (t, rest) = decode_digit (u + 8) bs in (push_bit u (ucast b) OR t, rest)) else (0, b # bs))"

fun decode_loop :: "nat \<Rightarrow> u8 list \<Rightarrow> u32 list" where
  "decode_loop 0 bs = []"
| "decode_loop (Suc n) bs = (if bs = [] then 0 # decode_loop n [] else (let (t, rest) = decode_digit 0 bs in t # decode_loop n rest))"

definition Decode :: "nat \<Rightarrow> u8 list \<Rightarrow> nat \<Rightarrow> u32 list option" where
  "Decode digits b len = do { bs \<leftarrow> rd_bytes b 0 (down_count len); Some (decode_loop digits (rev bs)) }"

fun encode_digit :: "nat \<Rightarrow> nat \<Rightarrow> u32 \<Rightarrow> u8 list" where
  "encode_digit k 0 t = []"
| "encode_digit u (Suc j) t = (if u < NN_DIGIT_BITS then ucast (drop_bit u t) # encode_digit (u + 8) j t else [])"

text \<open>The bytes for the digits, least significant first; \<open>j\<close> bytes have room.\<close>

fun encode_loop :: "nat \<Rightarrow> u32 list \<Rightarrow> u8 list" where
  "encode_loop j [] = replicate j 0"
| "encode_loop j (d # ds) = (if j = 0 then [] else (let bs = encode_digit 0 j d in bs @ encode_loop (j - length bs) ds))"

text \<open>\<open>Encode\<close> gives the bytes it writes, none when the counter wraps around.\<close>

definition Encode :: "nat \<Rightarrow> u32 list \<Rightarrow> nat \<Rightarrow> u8 list option" where
  "Encode len b digits = do { ds \<leftarrow> rd_bytes b 0 digits; Some (rev (encode_loop (down_count len) ds)) }"

section \<open>Addition and subtraction\<close>

fun add_loop :: "u32 \<Rightarrow> u32 list \<Rightarrow> u32 list \<Rightarrow> u32 list \<times> u32" where
  "add_loop carry (b # bs) (c # cs) =
     (let ai = b + carry;
        (ai, carry) = (if ai < carry then (c, carry) else if ai + c < c then (ai + c, 1) else (ai + c, 0));
        (as, carry) = add_loop carry bs cs
      in (ai # as, carry))"
| "add_loop carry _ _ = ([], carry)"

definition Add :: "u32 list \<Rightarrow> u32 list \<Rightarrow> nat \<Rightarrow> (u32 list \<times> u32) option" where
  "Add b c digits = do {
     bs \<leftarrow> rd_bytes b 0 digits;
     cs \<leftarrow> rd_bytes c 0 digits;
     Some (add_loop 0 bs cs) }"

fun sub_loop :: "u32 \<Rightarrow> u32 list \<Rightarrow> u32 list \<Rightarrow> u32 list \<times> u32" where
  "sub_loop borrow (b # bs) (c # cs) =
     (let ai = b - borrow;
        (ai, borrow) = (if ai > MAX_NN_DIGIT - borrow then (MAX_NN_DIGIT - c, borrow)
          else if ai - c > MAX_NN_DIGIT - c then (ai - c, 1) else (ai - c, 0));
        (as, borrow) = sub_loop borrow bs cs
      in (ai # as, borrow))"
| "sub_loop borrow _ _ = ([], borrow)"

definition Sub :: "u32 list \<Rightarrow> u32 list \<Rightarrow> nat \<Rightarrow> (u32 list \<times> u32) option" where
  "Sub b c digits = do {
     bs \<leftarrow> rd_bytes b 0 digits;
     cs \<leftarrow> rd_bytes c 0 digits;
     Some (sub_loop 0 bs cs) }"

text \<open>\<open>b + c * d\<close> and \<open>b - c * d\<close> for a digit \<open>c\<close>. For \<open>c = 0\<close> the result array is left as it is; every
  call gives the same array for it and for \<open>b\<close>.\<close>

fun add_mult_loop :: "u32 \<Rightarrow> u32 \<Rightarrow> u32 list \<Rightarrow> u32 list \<Rightarrow> u32 list \<times> u32" where
  "add_mult_loop carry c (b # bs) (d # ds) =
     (let t = DigitMult c d; low = ucast (t AND ucast MAX_NN_DIGIT) :: u32;
        ai = b + carry;
        carry = (if ai < carry then 1 else 0);
        ai = ai + low;
        carry = (if ai < low then carry + 1 else carry) + ucast (drop_bit NN_DIGIT_BITS t);
        (as, carry) = add_mult_loop carry c bs ds
      in (ai # as, carry))"
| "add_mult_loop carry c _ _ = ([], carry)"

definition AddDigitMult :: "u32 list \<Rightarrow> u32 \<Rightarrow> u32 list \<Rightarrow> u32 list \<times> u32" where
  "AddDigitMult b c d = (if c = 0 then (b, 0) else add_mult_loop 0 c b d)"

fun sub_mult_loop :: "u32 \<Rightarrow> u32 \<Rightarrow> u32 list \<Rightarrow> u32 list \<Rightarrow> u32 list \<times> u32" where
  "sub_mult_loop borrow c (b # bs) (d # ds) =
     (let t = DigitMult c d; low = ucast (t AND ucast MAX_NN_DIGIT) :: u32;
        ai = b - borrow;
        borrow = (if ai > MAX_NN_DIGIT - borrow then 1 else 0);
        ai = ai - low;
        borrow = (if ai > MAX_NN_DIGIT - low then borrow + 1 else borrow) + ucast (drop_bit NN_DIGIT_BITS t);
        (as, borrow) = sub_mult_loop borrow c bs ds
      in (ai # as, borrow))"
| "sub_mult_loop borrow c _ _ = ([], borrow)"

definition SubDigitMult :: "u32 list \<Rightarrow> u32 \<Rightarrow> u32 list \<Rightarrow> u32 list \<times> u32" where
  "SubDigitMult b c d = (if c = 0 then (b, 0) else sub_mult_loop 0 c b d)"

section \<open>Shifts\<close>

text \<open>Shifts by less than a digit. For others the code returns 0 and leaves the result array, which is no argument
  here, as it was: they have no result, and no call of the library makes one.\<close>

fun lshift_loop :: "nat \<Rightarrow> u32 \<Rightarrow> u32 list \<Rightarrow> u32 list \<times> u32" where
  "lshift_loop c carry [] = ([], carry)"
| "lshift_loop c carry (b # bs) =
     (let (as, carry') = lshift_loop c (if c \<noteq> 0 then drop_bit (NN_DIGIT_BITS - c) b else 0) bs in ((push_bit c b OR carry) # as, carry'))"

definition LShift :: "u32 list \<Rightarrow> nat \<Rightarrow> nat \<Rightarrow> (u32 list \<times> u32) option" where
  "LShift b c digits = (if c \<ge> NN_DIGIT_BITS then None else do { bs \<leftarrow> rd_bytes b 0 digits; Some (lshift_loop c 0 bs) })"

text \<open>The right shift runs from the most significant digit, here the first of the reversed list. The result are the
  digits it writes.\<close>

fun rshift_loop :: "nat \<Rightarrow> u32 \<Rightarrow> u32 list \<Rightarrow> u32 list \<times> u32" where
  "rshift_loop c carry [] = ([], carry)"
| "rshift_loop c carry (b # bs) =
     (let (as, carry') = rshift_loop c (if c \<noteq> 0 then push_bit (NN_DIGIT_BITS - c) b else 0) bs in ((drop_bit c b OR carry) # as, carry'))"

definition RShift :: "u32 list \<Rightarrow> nat \<Rightarrow> nat \<Rightarrow> (u32 list \<times> u32) option" where
  "RShift b c digits =
     (if c \<ge> NN_DIGIT_BITS then None
      else do { bs \<leftarrow> rd_bytes b 0 (down_count digits); (as, carry) \<leftarrow> Some (rshift_loop c 0 (rev bs)); Some (rev as, carry) })"

section \<open>Multiplication\<close>

fun mult_loop :: "u32 list \<Rightarrow> nat \<Rightarrow> u32 list \<Rightarrow> u32 list \<Rightarrow> u32 list option" where
  "mult_loop t i [] cs = Some t"
| "mult_loop t i (b # bs) cs = do {
     ts \<leftarrow> rd_bytes t i (length cs);
     (ts, carry) \<leftarrow> Some (AddDigitMult ts b cs);
     t \<leftarrow> memcpy t i ts;
     v \<leftarrow> rd t (i + length cs);
     t \<leftarrow> wr t (i + length cs) (v + carry);
     mult_loop t (i + 1) bs cs }"

definition Mult :: "u32 list \<Rightarrow> u32 list \<Rightarrow> nat \<Rightarrow> u32 list option" where
  "Mult b c digits = do {
     nn_room (2 * MAX_NN_DIGITS + 2) (2 * digits);
     bDigits \<leftarrow> Digits b digits;
     cDigits \<leftarrow> Digits c digits;
     bs \<leftarrow> rd_bytes b 0 bDigits;
     cs \<leftarrow> rd_bytes c 0 cDigits;
     mult_loop (AssignZero (2 * digits)) 0 bs cs }"

definition Sqr :: "u32 list \<Rightarrow> nat \<Rightarrow> u32 list option" where
  "Sqr b digits = do {
     nn_room (2 * MAX_NN_DIGITS) (2 * digits);
     bDigits \<leftarrow> Digits b digits;
     bs \<leftarrow> rd_bytes b 0 bDigits;
     mult_loop (AssignZero (2 * digits)) 0 bs bs }"

section \<open>Division\<close>

text \<open>The quotient digit is estimated too small; the loop corrects it. It does not end when the divisor is 0.\<close>

partial_function (option) div_fix :: "u32 list \<Rightarrow> nat \<Rightarrow> u32 list \<Rightarrow> u32 \<Rightarrow> (u32 list \<times> u32) option" where
  "div_fix cc i dd ai = do {
     h \<leftarrow> rd cc (i + length dd);
     xs \<leftarrow> rd_bytes cc i (length dd);
     c \<leftarrow> Cmp xs dd (length dd);
     if h \<noteq> 0 \<or> c \<ge> 0 then do {
       (ys, borrow) \<leftarrow> Sub xs dd (length dd);
       cc \<leftarrow> memcpy cc i ys;
       h \<leftarrow> rd cc (i + length dd);
       cc \<leftarrow> wr cc (i + length dd) (h - borrow);
       div_fix cc i dd (ai + 1) }
     else Some (cc, ai) }"

declare div_fix.simps [code]

definition div_estimate :: "u32 list \<Rightarrow> nat \<Rightarrow> nat \<Rightarrow> u32 \<Rightarrow> u32 option" where
  "div_estimate cc i n t =
     (if t = MAX_NN_DIGIT then rd cc (i + n)
      else do { b0 \<leftarrow> rd cc (i + n - 1); b1 \<leftarrow> rd cc (i + n); Some (DigitDiv b0 b1 (t + 1)) })"

definition div_digit :: "u32 list \<Rightarrow> nat \<Rightarrow> u32 list \<Rightarrow> u32 \<Rightarrow> (u32 list \<times> u32) option" where
  "div_digit cc i dd t = do {
     ai \<leftarrow> div_estimate cc i (length dd) t;
     xs \<leftarrow> rd_bytes cc i (length dd);
     (ys, borrow) \<leftarrow> Some (SubDigitMult xs ai dd);
     cc \<leftarrow> memcpy cc i ys;
     h \<leftarrow> rd cc (i + length dd);
     cc \<leftarrow> wr cc (i + length dd) (h - borrow);
     div_fix cc i dd ai }"

text \<open>\<open>div_loop cc k dd t q\<close> finds the digits \<open>k - 1\<close> down to 0.\<close>

fun div_loop :: "u32 list \<Rightarrow> nat \<Rightarrow> u32 list \<Rightarrow> u32 \<Rightarrow> u32 list \<Rightarrow> (u32 list \<times> u32 list) option" where
  "div_loop cc 0 dd t q = Some (cc, q)"
| "div_loop cc (Suc i) dd t q = do {
     (cc, ai) \<leftarrow> div_digit cc i dd t;
     q \<leftarrow> wr q i ai;
     div_loop cc i dd t q }"

text \<open>The quotient with \<open>cDigits\<close> digits and the remainder with \<open>dDigits\<close> digits. For the divisor 0 nothing is
  assigned, the inner \<^const>\<open>None\<close>.\<close>

definition Div :: "u32 list \<Rightarrow> nat \<Rightarrow> u32 list \<Rightarrow> nat \<Rightarrow> (u32 list \<times> u32 list) option option" where
  "Div c cDigits d dDigits = do {
     ddDigits \<leftarrow> Digits d dDigits;
     if ddDigits = 0 then Some None
     else do {
       nn_room (2 * MAX_NN_DIGITS + 1) cDigits;
       nn_room (MAX_NN_DIGITS + 1) ddDigits;
       top \<leftarrow> rd d (ddDigits - 1);
       shift \<leftarrow> Some (NN_DIGIT_BITS - DigitBits top);
       (cs, carry) \<leftarrow> LShift c shift cDigits;
       cc \<leftarrow> Some (cs @ carry # AssignZero (ddDigits - (cDigits + 1)));
       (dd, k) \<leftarrow> LShift d shift ddDigits;
       t \<leftarrow> rd dd (ddDigits - 1);
       (cc, q) \<leftarrow> div_loop cc (if ddDigits \<le> cDigits then Suc (cDigits - ddDigits) else 0) dd t (AssignZero cDigits);
       (b, k) \<leftarrow> RShift cc shift ddDigits;
       Some (Some (q, b @ AssignZero (dDigits - ddDigits))) } }"

definition omega_mul :: "u32 list \<Rightarrow> u32 list \<Rightarrow> u32 list \<Rightarrow> nat \<Rightarrow> (u32 list \<times> nat) option" where
  "omega_mul a b omega digits = do {
     bs \<leftarrow> rd_bytes b 0 digits;
     a \<leftarrow> memcpy a 0 bs;
     w \<leftarrow> rd omega 3;
     xs \<leftarrow> rd_bytes a 3 digits;
     (ys, carry) \<leftarrow> Some (AddDigitMult xs w bs);
     a \<leftarrow> memcpy a 3 ys;
     h \<leftarrow> rd a (digits + 3);
     a \<leftarrow> wr a (digits + 3) (h + carry);
     Some (a, digits + 4) }"

end
