(* ===== verification/Modular.thy ===== *)
theory Modular
  imports Multi_Precision
begin

text \<open>
  The second half of \<^verbatim>\<open>wiselib.testing/algorithms/crypto/pmp.h\<close>: arithmetic modulo a number, greatest
  common divisors, inverses, quotients and square roots. The results of \<open>Mod\<close> take the old digits of the result array,
  which stay when the modulus is 0; \<open>junk\<close> are the digits of an array that is not initialised. Loops that need not
  end are partial functions, and \<^const>\<open>None\<close> is also the value of a loop that does not end.
\<close>

unbundle bit_operations_syntax

section \<open>Sums, differences and products\<close>

definition Mod :: "u32 list \<Rightarrow> u32 list \<Rightarrow> nat \<Rightarrow> u32 list \<Rightarrow> nat \<Rightarrow> u32 list option" where
  "Mod a b bDigits c cDigits = do {
     r \<leftarrow> Div b bDigits c cDigits;
     Some (case r of None \<Rightarrow> a | Some (q, a) \<Rightarrow> a) }"

partial_function (option) ModSmall :: "u32 list \<Rightarrow> u32 list \<Rightarrow> nat \<Rightarrow> u32 list option" where
  "ModSmall b c digits = do {
     k \<leftarrow> Cmp b c digits;
     if k > 0 then do { (b, borrow) \<leftarrow> Sub b c digits; ModSmall b c digits } else Some b }"

declare ModSmall.simps [code]

definition ModAdd :: "u32 list \<Rightarrow> u32 list \<Rightarrow> u32 list \<Rightarrow> nat \<Rightarrow> u32 list option" where
  "ModAdd b c d digits = do {
     nn_room MAX_NN_DIGITS digits;
     (tmp, carry) \<leftarrow> Add b c digits;
     if carry \<noteq> 0 then map_option fst (Sub tmp d digits)
     else do {
       k \<leftarrow> Cmp tmp d digits;
       if k \<ge> 0 then map_option fst (Sub tmp d digits) else Assign tmp digits } }"

definition ModSub :: "u32 list \<Rightarrow> u32 list \<Rightarrow> u32 list \<Rightarrow> nat \<Rightarrow> u32 list option" where
  "ModSub b c d digits = do {
     nn_room MAX_NN_DIGITS digits;
     (tmp, borrow) \<leftarrow> Sub b c digits;
     if borrow \<noteq> 0 then map_option fst (Add tmp d digits) else Assign tmp digits }"

definition ModNeg :: "u32 list \<Rightarrow> u32 list \<Rightarrow> nat \<Rightarrow> u32 list option" where
  "ModNeg b c digits = ModSub c b c digits"

definition ModMult :: "u32 list \<Rightarrow> u32 list \<Rightarrow> u32 list \<Rightarrow> u32 list \<Rightarrow> nat \<Rightarrow> u32 list option" where
  "ModMult a b c d digits = do {
     nn_room MAX_NN_DIGITS digits;
     t \<leftarrow> Mult b c digits;
     Mod a t (2 * digits) d digits }"

definition ModMultOpt :: "u32 list \<Rightarrow> u32 list \<Rightarrow> u32 list \<Rightarrow> u32 list \<Rightarrow> u32 list \<Rightarrow> nat \<Rightarrow> u32 list option" where
  "ModMultOpt a b c d omega digits = ModMult a b c d digits"

definition ModSqr :: "u32 list \<Rightarrow> u32 list \<Rightarrow> u32 list \<Rightarrow> nat \<Rightarrow> u32 list option" where
  "ModSqr a b d digits = do {
     t \<leftarrow> Sqr b digits;
     Mod a t (2 * digits) d digits }"

text \<open>The digits of \<open>t\<close> that are cleared first are overwritten by \<open>Sqr\<close> or not read.\<close>

definition ModSqrOpt :: "u32 list \<Rightarrow> u32 list \<Rightarrow> u32 list \<Rightarrow> u32 list \<Rightarrow> nat \<Rightarrow> u32 list option" where
  "ModSqrOpt a b d omega digits = do {
     bDigits \<leftarrow> Digits b digits;
     t \<leftarrow> Sqr b digits;
     Mod a t (2 * digits) d digits }"

section \<open>Powers\<close>

definition DIGIT_2MSB :: "u32 \<Rightarrow> u32" where
  "DIGIT_2MSB x = drop_bit (NN_DIGIT_BITS - 2) x AND 3"

partial_function (option) exp_skip :: "u32 \<Rightarrow> nat \<Rightarrow> (u32 \<times> nat) option" where
  "exp_skip ci ciBits = (if DIGIT_2MSB ci = 0 then exp_skip (push_bit 2 ci) (ciBits - 2) else Some (ci, ciBits))"

declare exp_skip.simps [code]

text \<open>\<open>exp_bits k\<close> uses the next \<open>k\<close> pairs of bits of \<open>ci\<close>; \<open>bPower\<close> are the first three powers of the base.\<close>

fun exp_bits :: "nat \<Rightarrow> u32 list list \<Rightarrow> u32 list \<Rightarrow> nat \<Rightarrow> u32 \<Rightarrow> u32 list \<Rightarrow> u32 list option" where
  "exp_bits 0 bPower d digits ci t = Some t"
| "exp_bits (Suc k) bPower d digits ci t = do {
     t \<leftarrow> ModMult t t t d digits;
     t \<leftarrow> ModMult t t t d digits;
     s \<leftarrow> Some (unat (DIGIT_2MSB ci));
     t \<leftarrow> (if s \<noteq> 0 then do { p \<leftarrow> rd bPower (s - 1); ModMult t t p d digits } else Some t);
     exp_bits k bPower d digits (push_bit 2 ci) t }"

text \<open>The digits of the exponent, most significant first; the leading zero bits of the first one are skipped. Their
  number is a \<^verbatim>\<open>uint8_t\<close> and the counter of the loop an \<^verbatim>\<open>int8_t\<close>.\<close>

fun exp_loop :: "bool \<Rightarrow> u32 list list \<Rightarrow> u32 list \<Rightarrow> nat \<Rightarrow> u32 list \<Rightarrow> u32 list \<Rightarrow> u32 list option" where
  "exp_loop leading bPower d digits [] t = Some t"
| "exp_loop leading bPower d digits (ci # cs) t = do {
     (ci, ciBits) \<leftarrow> (if leading then exp_skip ci NN_DIGIT_BITS else Some (ci, NN_DIGIT_BITS));
     t \<leftarrow> exp_bits ((ciBits + 1) div 2) bPower d digits ci t;
     exp_loop False bPower d digits cs t }"

definition ModExp :: "u32 list \<Rightarrow> u32 list \<Rightarrow> u32 list \<Rightarrow> nat \<Rightarrow> u32 list \<Rightarrow> nat \<Rightarrow> u32 list option" where
  "ModExp junk b c cDigits d dDigits = do {
     nn_room MAX_NN_DIGITS dDigits;
     p1 \<leftarrow> Assign b dDigits;
     p2 \<leftarrow> ModMult junk p1 b d dDigits;
     p3 \<leftarrow> ModMult junk p2 b d dDigits;
     t \<leftarrow> AssignDigit 1 dDigits;
     cDigits \<leftarrow> Digits c cDigits;
     cDigits \<leftarrow> Some (cDigits mod 256);
     cs \<leftarrow> rd_bytes c 0 (down_count cDigits);
     t \<leftarrow> exp_loop True [p1, p2, p3] d dDigits (rev cs) t;
     Assign t dDigits }"

section \<open>Divisors, inverses and quotients\<close>

text \<open>In the loops the divisor is not 0, so \<open>Div\<close> assigns its results.\<close>

partial_function (option) gcd_loop :: "u32 list \<Rightarrow> u32 list \<Rightarrow> nat \<Rightarrow> u32 list option" where
  "gcd_loop u v digits = do {
     z \<leftarrow> Zero v digits;
     if z then Some u
     else do {
       t \<leftarrow> Mod [] u digits v digits;
       gcd_loop v t digits } }"

declare gcd_loop.simps [code]

definition Gcd :: "u32 list \<Rightarrow> u32 list \<Rightarrow> nat \<Rightarrow> u32 list option" where
  "Gcd b c digits = do {
     nn_room MAX_NN_DIGITS digits;
     u \<leftarrow> Assign b digits;
     v \<leftarrow> Assign c digits;
     u \<leftarrow> gcd_loop u v digits;
     Assign u digits }"

partial_function (option) inv_loop :: "u32 list \<Rightarrow> u32 list \<Rightarrow> u32 list \<Rightarrow> u32 list \<Rightarrow> int \<Rightarrow> nat \<Rightarrow> (u32 list \<times> int) option" where
  "inv_loop u1 u3 v1 v3 u1Sign digits = do {
     z \<leftarrow> Zero v3 digits;
     if z then Some (u1, u1Sign)
     else do {
       r \<leftarrow> Div u3 digits v3 digits;
       (q, t3) \<leftarrow> r;
       w \<leftarrow> Mult q v1 digits;
       (t1, carry) \<leftarrow> Add u1 w digits;
       inv_loop v1 v3 t1 t3 (- u1Sign) digits } }"

declare inv_loop.simps [code]

definition ModInv :: "u32 list \<Rightarrow> u32 list \<Rightarrow> nat \<Rightarrow> u32 list option" where
  "ModInv b c digits = do {
     nn_room MAX_NN_DIGITS digits;
     u1 \<leftarrow> AssignDigit 1 digits;
     u3 \<leftarrow> Assign b digits;
     v3 \<leftarrow> Assign c digits;
     (u1, u1Sign) \<leftarrow> inv_loop u1 u3 (AssignZero digits) v3 1 digits;
     if u1Sign < 0 then map_option fst (Sub c u1 digits) else Assign u1 digits }"

text \<open>Half of \<open>U\<close> modulo the odd number \<open>d\<close>.\<close>

definition mod_half :: "u32 list \<Rightarrow> u32 list \<Rightarrow> nat \<Rightarrow> u32 list option" where
  "mod_half U d digits = do {
     e \<leftarrow> Even U digits;
     if e then map_option fst (RShift U 1 digits)
     else do { (U, carry) \<leftarrow> Add U d digits; map_option fst (RShift U 1 digits) } }"

text \<open>The two last branches of the loop: \<open>U - V\<close>, made positive, and halved.\<close>

definition mod_sub_half :: "u32 list \<Rightarrow> u32 list \<Rightarrow> u32 list \<Rightarrow> nat \<Rightarrow> u32 list option" where
  "mod_sub_half U V d digits = do {
     k \<leftarrow> Cmp U V digits;
     U \<leftarrow> (if k < 0 then map_option fst (Add U d digits) else Some U);
     (U, borrow) \<leftarrow> Sub U V digits;
     mod_half U d digits }"

partial_function (option) div_opt_loop :: "u32 list \<Rightarrow> u32 list \<Rightarrow> u32 list \<Rightarrow> u32 list \<Rightarrow> u32 list \<Rightarrow> nat \<Rightarrow> u32 list option" where
  "div_opt_loop A B U V d digits = do {
     k \<leftarrow> Cmp A B digits;
     if k \<noteq> 0 then do {
       evenA \<leftarrow> Even A digits;
       evenB \<leftarrow> Even B digits;
       if evenA then do {
         (A, c) \<leftarrow> RShift A 1 digits;
         U \<leftarrow> mod_half U d digits;
         div_opt_loop A B U V d digits }
       else if evenB then do {
         (B, c) \<leftarrow> RShift B 1 digits;
         V \<leftarrow> mod_half V d digits;
         div_opt_loop A B U V d digits }
       else if k > 0 then do {
         (A, c) \<leftarrow> Sub A B digits;
         (A, c) \<leftarrow> RShift A 1 digits;
         U \<leftarrow> mod_sub_half U V d digits;
         div_opt_loop A B U V d digits }
       else do {
         (B, c) \<leftarrow> Sub B A digits;
         (B, c) \<leftarrow> RShift B 1 digits;
         V \<leftarrow> mod_sub_half V U d digits;
         div_opt_loop A B U V d digits } }
     else Some U }"

declare div_opt_loop.simps [code]

definition ModDivOpt :: "u32 list \<Rightarrow> u32 list \<Rightarrow> u32 list \<Rightarrow> nat \<Rightarrow> u32 list option" where
  "ModDivOpt b c d digits = do {
     nn_room MAX_NN_DIGITS digits;
     A \<leftarrow> Assign c digits;
     B \<leftarrow> Assign d digits;
     U \<leftarrow> Assign b digits;
     U \<leftarrow> div_opt_loop A B U (AssignZero digits) d digits;
     Assign U digits }"

definition ModDiv :: "u32 list \<Rightarrow> u32 list \<Rightarrow> u32 list \<Rightarrow> nat \<Rightarrow> u32 list option" where
  "ModDiv b c d digits = ModDivOpt b c d digits"

section \<open>Square roots\<close>

text \<open>One round of the loop, on \<open>(v0, v1, q0, q1, tmp)\<close>. The loop does not change its counter \<open>r\<close>, an
  \<^verbatim>\<open>int8_t\<close>. The local arrays have \<open>NUMWORDS\<close> digits.\<close>

type_synonym lucas_state = "u32 list \<times> u32 list \<times> u32 list \<times> u32 list \<times> u32 list"

fun lucas_round :: "int \<Rightarrow> u32 list \<Rightarrow> u32 list \<Rightarrow> u32 list \<Rightarrow> u32 list \<Rightarrow> u32 list \<Rightarrow> lucas_state \<Rightarrow> lucas_state option" where
  "lucas_round r P Q k p omega (v0, v1, q0, q1, tmp) = do {
     q0 \<leftarrow> ModMultOpt q0 q0 q1 p omega NUMWORDS;
     tested \<leftarrow> b_testbit k (nat r);
     if tested \<noteq> 0 then do {
       q1 \<leftarrow> ModMultOpt q1 q0 Q p omega NUMWORDS;
       tmp \<leftarrow> ModMultOpt tmp P q0 p omega NUMWORDS;
       v0 \<leftarrow> ModMultOpt v0 v0 v1 p omega NUMWORDS;
       v0 \<leftarrow> ModSub v0 tmp p NUMWORDS;
       v1 \<leftarrow> ModSqrOpt v1 v1 p omega NUMWORDS;
       v1 \<leftarrow> ModSub v1 q1 p NUMWORDS;
       v1 \<leftarrow> ModSub v1 q1 p NUMWORDS;
       Some (v0, v1, q0, q1, tmp) }
     else do {
       q1 \<leftarrow> Assign q0 NUMWORDS;
       v1 \<leftarrow> ModMultOpt v1 v1 v0 p omega NUMWORDS;
       tmp \<leftarrow> ModMultOpt tmp P q0 p omega NUMWORDS;
       v1 \<leftarrow> ModSub v1 tmp p NUMWORDS;
       v0 \<leftarrow> ModSqrOpt v0 v0 p omega NUMWORDS;
       v0 \<leftarrow> ModSub v0 q0 p NUMWORDS;
       v0 \<leftarrow> ModSub v0 q0 p NUMWORDS;
       Some (v0, v1, q0, q1, tmp) } }"

partial_function (option) lucas_loop :: "int \<Rightarrow> u32 list \<Rightarrow> u32 list \<Rightarrow> u32 list \<Rightarrow> u32 list \<Rightarrow> u32 list \<Rightarrow> lucas_state \<Rightarrow>
    lucas_state option" where
  "lucas_loop r P Q k p omega st =
     (if r \<ge> 0 then do { st \<leftarrow> lucas_round r P Q k p omega st; lucas_loop r P Q k p omega st } else Some st)"

declare lucas_loop.simps [code]

text \<open>What is done before the loop; \<open>junk\<close> is the memory of \<open>tmp\<close>.\<close>

definition lucas_start :: "u32 list \<Rightarrow> u32 list \<Rightarrow> u32 list \<Rightarrow> (int \<times> lucas_state) option" where
  "lucas_start P k junk = do {
     v0 \<leftarrow> wr (AssignZero NUMWORDS) 0 2;
     v1 \<leftarrow> Assign P NUMWORDS;
     q0 \<leftarrow> wr (AssignZero NUMWORDS) 0 1;
     q1 \<leftarrow> wr (AssignZero NUMWORDS) 1 1;
     bits \<leftarrow> Bits k NUMWORDS;
     Some (schar (int bits - 1), v0, v1, q0, q1, junk) }"

definition Lucas_Sequence :: "u32 list \<Rightarrow> u32 list \<Rightarrow> u32 list \<Rightarrow> u32 list \<Rightarrow> u32 list \<Rightarrow> u32 list \<Rightarrow> (u32 list \<times> u32 list) option" where
  "Lucas_Sequence P Q k p omega junk = do {
     (r, st) \<leftarrow> lucas_start P k junk;
     (v0, v1, q0, q1, tmp) \<leftarrow> lucas_loop r P Q k p omega st;
     Some (v0, q0) }"

text \<open>The search of the third case; \<open>i\<close> runs through the candidates.\<close>

partial_function (option) root_search :: "u32 list \<Rightarrow> u32 list \<Rightarrow> u32 list \<Rightarrow> u32 list \<Rightarrow> u32 list \<Rightarrow> u32 list \<Rightarrow> u32 list \<Rightarrow> u32 list option option" where
  "root_search i b k c m omega junk = do {
     l \<leftarrow> Cmp i c NUMWORDS;
     if l < 0 then do {
       (gam, twog) \<leftarrow> Lucas_Sequence i b k c omega junk;
       low \<leftarrow> rd gam 0;
       gam \<leftarrow> (if low AND 1 = 1 then map_option fst (Add gam c NUMWORDS) else Some gam);
       (gam, carry) \<leftarrow> RShift gam 1 NUMWORDS;
       residue \<leftarrow> ModSqrOpt junk gam c omega NUMWORDS;
       e \<leftarrow> Cmp residue b NUMWORDS;
       if e = 0 then Some (Some gam)
       else do {
         g \<leftarrow> Cmp twog m NUMWORDS;
         stop \<leftarrow> (if g > 0 then do {
           (twog, carry) \<leftarrow> Add twog m NUMWORDS;
           s \<leftarrow> Cmp twog c NUMWORDS;
           Some (s < 0) } else Some False);
         if stop then Some None
         else do {
           (i, carry) \<leftarrow> Add i m NUMWORDS;
           root_search i b k c m omega junk } } }
     else Some None }"

declare root_search.simps [code]

definition digit_array :: "u32 \<Rightarrow> u32 list" where
  "digit_array d = (AssignZero NUMWORDS)[0 := d]"

text \<open>The result 1 with the root, or -1, the inner \<^const>\<open>None\<close>. \<open>sqrt_cases\<close> is the function up to the search: a result
  (\<^const>\<open>Inl\<close>) or, in the third case, the number \<open>k\<close> for the search.\<close>

definition sqrt_cases :: "u32 list \<Rightarrow> u32 list \<Rightarrow> nat \<Rightarrow> u32 list \<Rightarrow> (u32 list option + u32 list) option" where
  "sqrt_cases b c digits junk = do {
     r \<leftarrow> Div c NUMWORDS (digit_array 4) NUMWORDS;
     (k, residue) \<leftarrow> r;
     d \<leftarrow> rd residue 0;
     if d = 3 then do {
       (k, carry) \<leftarrow> Add k (digit_array 1) NUMWORDS;
       a \<leftarrow> ModExp junk b k NUMWORDS c digits;
       Some (Inl (Some a)) }
     else do {
       r \<leftarrow> Div c NUMWORDS (digit_array 8) NUMWORDS;
       (k, residue) \<leftarrow> r;
       d \<leftarrow> rd residue 0;
       if d = 5 then do {
         (twog, carry) \<leftarrow> LShift b 1 NUMWORDS;
         g \<leftarrow> Cmp twog c NUMWORDS;
         twog \<leftarrow> (if g \<ge> 0 then map_option fst (Sub twog c NUMWORDS) else Some twog);
         gam \<leftarrow> ModExp junk twog k NUMWORDS c digits;
         i \<leftarrow> ModSqr junk gam c digits;
         i \<leftarrow> ModMult i i twog c digits;
         i \<leftarrow> ModSub i (digit_array 1) c digits;
         a \<leftarrow> ModMult junk b gam c digits;
         a \<leftarrow> ModMult a a i c digits;
         Some (Inl (Some a)) }
       else if d = 1 then do {
         (k, carry) \<leftarrow> Add c (digit_array 1) NUMWORDS;
         (k, carry) \<leftarrow> RShift k 1 NUMWORDS;
         Some (Inr k) }
       else Some (Inl None) } }"

definition ModSqrRootOpt :: "u32 list \<Rightarrow> u32 list \<Rightarrow> nat \<Rightarrow> u32 list \<Rightarrow> u32 list \<Rightarrow> u32 list option option" where
  "ModSqrRootOpt b c digits omega junk = do {
     x \<leftarrow> sqrt_cases b c digits junk;
     case x of Inl a \<Rightarrow> Some a
     | Inr k \<Rightarrow> root_search (digit_array 1) b k c (digit_array 1) omega junk }"

end
