(* ===== verification/Elliptic_Curve.thy ===== *)
theory Elliptic_Curve
  imports Modular
begin

text \<open>
  \<^verbatim>\<open>wiselib.testing/algorithms/crypto/eccfp.h\<close>, the class \<^verbatim>\<open>ECCFP\<close>: points of an elliptic curve
  over the numbers modulo a prime, with the structures of \<^verbatim>\<open>pmp.h\<close>. The global parameters of the curve are the
  argument \<open>prm\<close>. A point is a value: an operation whose result may be one of its arguments reads them before it
  writes the result, and the point \<open>P0\<close> is an argument where the old value stays. \<open>junk\<close> are the digits of an array that is
  not initialised. \<^const>\<open>None\<close> is an access outside an array or a loop that does not end.
\<close>

unbundle bit_operations_syntax

section \<open>Points and parameters\<close>

record Curve =
  curve_a :: "u32 list"
  curve_b :: "u32 list"
  a_minus3 :: bool
  a_zero :: bool
  a_one :: bool

record Point =
  pt_x :: "u32 list"
  pt_y :: "u32 list"

record Params =
  prm_p :: "u32 list"
  prm_omega :: "u32 list"
  prm_E :: Curve
  prm_G :: Point
  prm_r :: "u32 list"

definition p_clear :: Point where
  "p_clear = \<lparr>pt_x = AssignZero NUMWORDS, pt_y = AssignZero NUMWORDS\<rparr>"

definition p_copy :: "Point \<Rightarrow> Point option" where
  "p_copy P1 = do {
     x \<leftarrow> Assign (pt_x P1) NUMWORDS;
     y \<leftarrow> Assign (pt_y P1) NUMWORDS;
     Some \<lparr>pt_x = x, pt_y = y\<rparr> }"

definition p_iszero :: "Point \<Rightarrow> bool option" where
  "p_iszero P0 = do {
     zx \<leftarrow> Zero (pt_x P0) NUMWORDS;
     if zx then Zero (pt_y P0) NUMWORDS else Some False }"

definition p_equal :: "Point \<Rightarrow> Point \<Rightarrow> bool option" where
  "p_equal P1 P2 = do {
     ex \<leftarrow> Equal (pt_x P1) (pt_x P2) NUMWORDS;
     if ex then Equal (pt_y P1) (pt_y P2) NUMWORDS else Some False }"

definition Z_is_one :: "u32 list \<Rightarrow> bool option" where
  "Z_is_one Z = do {
     zs \<leftarrow> rd_bytes Z 1 (NUMWORDS - 1);
     if \<not> list_all (\<lambda>z. z = 0) zs then Some False else do { z \<leftarrow> rd Z 0; Some (z = 1) } }"

text \<open>The 128-bit curve of the standard, for digits of 32 bits. The flag \<open>a_one\<close> is not assigned.\<close>

definition init128 :: "Params \<Rightarrow> Params" where
  "init128 prm = prm\<lparr>
     prm_p := [0xFFFFFFFF, 0xFFFFFFFF, 0xFFFFFFFF, 0xFFFFFFFD, 0],
     prm_omega := [1, 0, 0, 2, 0],
     prm_E := (prm_E prm)\<lparr>
       curve_a := [0xFFFFFFFC, 0xFFFFFFFF, 0xFFFFFFFF, 0xFFFFFFFD, 0],
       curve_b := [0x2CEE5ED3, 0xD824993C, 0x1079F43D, 0xE87579C1, 0],
       a_minus3 := True, a_zero := False\<rparr>,
     prm_G := \<lparr>
       pt_x = [0xA52C5B86, 0x0C28607C, 0x8B899B2D, 0x161FF752, 0],
       pt_y = [0xDDED7A83, 0xC02DA292, 0x5BAFEB13, 0xCF5AC839, 0]\<rparr>,
     prm_r := [0x9038A115, 0x75A30D1B, 0, 0xFFFFFFFE, 0]\<rparr>"

section \<open>Octets\<close>

text \<open>The bytes are written over the first ones of the octet; the value is the number of bytes, or -1.\<close>

definition point2octet :: "u8 list \<Rightarrow> nat \<Rightarrow> Point \<Rightarrow> bool \<Rightarrow> (u8 list \<times> int) option" where
  "point2octet octet octet_len P compress =
     (if compress then
        if octet_len < KEYDIGITS * NN_DIGIT_LEN + 1 then Some (octet, - 1)
        else do {
          y \<leftarrow> rd (pt_y P) 0;
          octet \<leftarrow> wr octet 0 (if 1 AND y = 0 then 2 else 3);
          bs \<leftarrow> Encode (KEYDIGITS * NN_DIGIT_LEN) (pt_x P) KEYDIGITS;
          octet \<leftarrow> memcpy octet 1 bs;
          Some (octet, int (KEYDIGITS * NN_DIGIT_LEN + 1)) }
      else if octet_len < 2 * KEYDIGITS * NN_DIGIT_LEN + 1 then Some (octet, - 1)
      else do {
        octet \<leftarrow> wr octet 0 4;
        bs \<leftarrow> Encode (KEYDIGITS * NN_DIGIT_LEN) (pt_x P) KEYDIGITS;
        octet \<leftarrow> memcpy octet 1 bs;
        bs \<leftarrow> Encode (KEYDIGITS * NN_DIGIT_LEN) (pt_y P) KEYDIGITS;
        octet \<leftarrow> memcpy octet (1 + KEYDIGITS * NN_DIGIT_LEN) bs;
        Some (octet, int (2 * KEYDIGITS * NN_DIGIT_LEN + 1)) })"

text \<open>The right hand side of the equation of the curve.\<close>

definition curve_rhs :: "Params \<Rightarrow> u32 list \<Rightarrow> u32 list \<Rightarrow> u32 list option" where
  "curve_rhs prm junk x = do {
     t2 \<leftarrow> ModSqrOpt junk x (prm_p prm) (prm_omega prm) NUMWORDS;
     t2 \<leftarrow> ModMultOpt t2 t2 x (prm_p prm) (prm_omega prm) NUMWORDS;
     t1 \<leftarrow> ModMultOpt junk (curve_a (prm_E prm)) x (prm_p prm) (prm_omega prm) NUMWORDS;
     t1 \<leftarrow> ModAdd t1 t2 (prm_p prm) NUMWORDS;
     ModAdd t1 (curve_b (prm_E prm)) (prm_p prm) NUMWORDS }"

text \<open>When no root is found \<open>y\<close> stays as it is. The octets are read wherever the first one says, also behind
  \<open>octet_len\<close>.\<close>

definition octet2point :: "Params \<Rightarrow> u32 list \<Rightarrow> Point \<Rightarrow> u8 list \<Rightarrow> (Point \<times> int) option" where
  "octet2point prm junk P octet = do {
     o0 \<leftarrow> rd octet 0;
     if o0 = 0 then Some (\<lparr>pt_x = AssignZero NUMWORDS, pt_y = AssignZero NUMWORDS\<rparr>, - 1)
     else if o0 = 4 then do {
       bs \<leftarrow> rd_bytes octet 1 (KEYDIGITS * NN_DIGIT_LEN);
       x \<leftarrow> Decode NUMWORDS bs (KEYDIGITS * NN_DIGIT_LEN);
       bs \<leftarrow> rd_bytes octet (1 + KEYDIGITS * NN_DIGIT_LEN) (KEYDIGITS * NN_DIGIT_LEN);
       y \<leftarrow> Decode NUMWORDS bs (KEYDIGITS * NN_DIGIT_LEN);
       Some (\<lparr>pt_x = x, pt_y = y\<rparr>, int (2 * KEYDIGITS * NN_DIGIT_LEN + 1)) }
     else if o0 = 2 \<or> o0 = 3 then do {
       bs \<leftarrow> rd_bytes octet 1 (KEYDIGITS * NN_DIGIT_LEN);
       x \<leftarrow> Decode NUMWORDS bs (KEYDIGITS * NN_DIGIT_LEN);
       tmp \<leftarrow> curve_rhs prm junk x;
       r \<leftarrow> ModSqrRootOpt tmp (prm_p prm) NUMWORDS (prm_omega prm) junk;
       y \<leftarrow> Some (case r of None \<Rightarrow> pt_y P | Some y \<Rightarrow> y);
       y \<leftarrow> (if o0 = 3 then ModSub (prm_p prm) y (prm_p prm) NUMWORDS else Some y);
       Some (\<lparr>pt_x = x, pt_y = y\<rparr>, int (KEYDIGITS * NN_DIGIT_LEN + 1)) }
     else Some (P, - 1) }"

definition check_point :: "Params \<Rightarrow> Point \<Rightarrow> int option" where
  "check_point prm P = do {
     z \<leftarrow> Zero (pt_x P) NUMWORDS;
     if z then Some (- 1)
     else do {
       c \<leftarrow> Cmp (pt_x P) (prm_p prm) NUMWORDS;
       if c \<ge> 0 then Some (- 1)
       else do {
         z \<leftarrow> Zero (pt_y P) NUMWORDS;
         if z then Some (- 1)
         else do {
           c \<leftarrow> Cmp (pt_y P) (prm_p prm) NUMWORDS;
           if c \<ge> 0 then Some (- 1)
           else do {
             tmp1 \<leftarrow> Some (AssignZero NUMWORDS);
             tmp2 \<leftarrow> Some (AssignZero NUMWORDS);
             tmp2 \<leftarrow> ModSqrOpt tmp2 (pt_x P) (prm_p prm) (prm_omega prm) NUMWORDS;
             tmp2 \<leftarrow> ModMultOpt tmp2 tmp2 (pt_x P) (prm_p prm) (prm_omega prm) NUMWORDS;
             tmp1 \<leftarrow> ModMultOpt tmp1 (pt_x P) (curve_a (prm_E prm)) (prm_p prm) (prm_omega prm) NUMWORDS;
             tmp2 \<leftarrow> ModAdd tmp1 tmp2 (prm_p prm) NUMWORDS;
             tmp2 \<leftarrow> ModAdd tmp2 (curve_b (prm_E prm)) (prm_p prm) NUMWORDS;
             tmp1 \<leftarrow> ModSqrOpt tmp1 (pt_y P) (prm_p prm) (prm_omega prm) NUMWORDS;
             c \<leftarrow> Cmp tmp1 tmp2 NUMWORDS;
             Some (if c \<noteq> 0 then - 2 else 1) } } } } }"

section \<open>Sums and multiples\<close>

text \<open>Twice a number modulo \<open>p\<close>, by a shift and a subtraction.\<close>

definition mod_twice :: "u32 list \<Rightarrow> u32 list \<Rightarrow> u32 list option" where
  "mod_twice a p = do {
     (t, carry) \<leftarrow> LShift a 1 NUMWORDS;
     c \<leftarrow> Cmp t p NUMWORDS;
     if c \<ge> 0 then map_option fst (Sub t p NUMWORDS) else Some t }"

definition c_dbl_affine :: "Params \<Rightarrow> u32 list \<Rightarrow> Point \<Rightarrow> Point \<Rightarrow> Point option" where
  "c_dbl_affine prm junk P0 P1 = do {
     z \<leftarrow> Zero (pt_y P1) NUMWORDS;
     if z then Some P0
     else do {
       t1 \<leftarrow> ModSqrOpt junk (pt_x P1) (prm_p prm) (prm_omega prm) NUMWORDS;
       t2 \<leftarrow> mod_twice t1 (prm_p prm);
       t2 \<leftarrow> ModAdd t2 t1 (prm_p prm) NUMWORDS;
       t1 \<leftarrow> ModAdd t2 (curve_a (prm_E prm)) (prm_p prm) NUMWORDS;
       t2 \<leftarrow> mod_twice (pt_y P1) (prm_p prm);
       slope \<leftarrow> ModDiv t1 t2 (prm_p prm) NUMWORDS;
       t1 \<leftarrow> ModSqrOpt t1 slope (prm_p prm) (prm_omega prm) NUMWORDS;
       t2 \<leftarrow> mod_twice (pt_x P1) (prm_p prm);
       t1 \<leftarrow> ModSub t1 t2 (prm_p prm) NUMWORDS;
       t2 \<leftarrow> ModSub (pt_x P1) t1 (prm_p prm) NUMWORDS;
       t2 \<leftarrow> ModMultOpt t2 slope t2 (prm_p prm) (prm_omega prm) NUMWORDS;
       y \<leftarrow> ModSub t2 (pt_y P1) (prm_p prm) NUMWORDS;
       x \<leftarrow> Assign t1 NUMWORDS;
       Some \<lparr>pt_x = x, pt_y = y\<rparr> } }"

definition c_add_affine :: "Params \<Rightarrow> u32 list \<Rightarrow> Point \<Rightarrow> Point \<Rightarrow> Point \<Rightarrow> Point option" where
  "c_add_affine prm junk P0 P1 P2 = do {
     e \<leftarrow> p_equal P1 P2;
     if e then c_dbl_affine prm junk P0 P1
     else do {
       z \<leftarrow> p_iszero P1;
       if z then p_copy P2
       else do {
         z \<leftarrow> p_iszero P2;
         if z then p_copy P1
         else do {
           t1 \<leftarrow> ModSub (pt_y P2) (pt_y P1) (prm_p prm) NUMWORDS;
           t2 \<leftarrow> ModSub (pt_x P2) (pt_x P1) (prm_p prm) NUMWORDS;
           slope \<leftarrow> ModDiv t1 t2 (prm_p prm) NUMWORDS;
           t1 \<leftarrow> ModSqrOpt t1 slope (prm_p prm) (prm_omega prm) NUMWORDS;
           t2 \<leftarrow> ModSub t1 (pt_x P1) (prm_p prm) NUMWORDS;
           t1 \<leftarrow> ModSub t2 (pt_x P2) (prm_p prm) NUMWORDS;
           t2 \<leftarrow> ModSub (pt_x P1) t1 (prm_p prm) NUMWORDS;
           t2 \<leftarrow> ModMultOpt t2 t2 slope (prm_p prm) (prm_omega prm) NUMWORDS;
           y \<leftarrow> ModSub t2 (pt_y P1) (prm_p prm) NUMWORDS;
           x \<leftarrow> Assign t1 NUMWORDS;
           Some \<lparr>pt_x = x, pt_y = y\<rparr> } } } }"

text \<open>\<open>mul_loop k\<close> uses the bits \<open>k - 1\<close> down to 0.\<close>

fun mul_loop :: "Params \<Rightarrow> u32 list \<Rightarrow> Point \<Rightarrow> u32 list \<Rightarrow> nat \<Rightarrow> Point \<Rightarrow> Point option" where
  "mul_loop prm junk P1 n 0 P0 = Some P0"
| "mul_loop prm junk P1 n (Suc i) P0 = do {
     P0 \<leftarrow> c_dbl_affine prm junk P0 P0;
     b \<leftarrow> b_testbit n i;
     P0 \<leftarrow> (if b \<noteq> 0 then c_add_affine prm junk P0 P0 P1 else Some P0);
     mul_loop prm junk P1 n i P0 }"

definition c_mul :: "Params \<Rightarrow> u32 list \<Rightarrow> Point \<Rightarrow> u32 list \<Rightarrow> Point option" where
  "c_mul prm junk P1 n = do {
     tmp \<leftarrow> Bits n NUMWORDS;
     mul_loop prm junk P1 n tmp p_clear }"

section \<open>Keys\<close>

text \<open>The digits with the numbers \<open>i, ..., i + k - 1\<close>; \<open>d\<close> has 16 bits and \<open>b\<close> is the seed.\<close>

fun key_digits :: "u8 \<Rightarrow> nat \<Rightarrow> nat \<Rightarrow> 16 word \<Rightarrow> u32 list \<times> 16 word" where
  "key_digits b i 0 d = ([], d)"
| "key_digits b i (Suc k) d =
     (let d = d * of_nat i + (234 - ucast b); (ds, d') = key_digits b (i + 1) k d
      in ((push_bit 16 (ucast d) XOR (ucast d + 1)) # ds, d'))"

partial_function (option) key_loop :: "Params \<Rightarrow> u8 \<Rightarrow> nat \<Rightarrow> nat \<Rightarrow> 16 word \<Rightarrow> u32 list option" where
  "key_loop prm b digits bits d = do {
     (ds, d) \<leftarrow> Some (key_digits b 0 digits d);
     k \<leftarrow> Some (ds @ AssignZero (NUMWORDS - digits));
     k \<leftarrow> (if bits mod NN_DIGIT_BITS \<noteq> 0 then do {
         top \<leftarrow> rd k (digits - 1);
         wr k (digits - 1) (top AND drop_bit (NN_DIGIT_BITS - bits mod NN_DIGIT_BITS) MAX_NN_DIGIT) }
       else Some k);
     k \<leftarrow> ModSmall k (prm_r prm) NUMWORDS;
     z \<leftarrow> Zero k NUMWORDS;
     if \<not> z then Some k else key_loop prm b digits bits d }"

declare key_loop.simps [code]

definition gen_private_key :: "Params \<Rightarrow> u8 \<Rightarrow> u32 list option" where
  "gen_private_key prm b = do {
     order_bit_len \<leftarrow> Bits (prm_r prm) NUMWORDS;
     order_digit_len \<leftarrow> Digits (prm_r prm) NUMWORDS;
     key_loop prm b order_digit_len (order_bit_len mod 256) 5167 }"

definition gen_public_key :: "Params \<Rightarrow> u32 list \<Rightarrow> u32 list \<Rightarrow> Point option" where
  "gen_public_key prm junk PrivateKey = c_mul prm junk (prm_G prm) PrivateKey"

end
