(* ===== verification/Multi_Precision_Correct.thy ===== *)
theory Multi_Precision_Correct
  imports Multi_Precision
begin

text \<open>
  The arithmetic of \<open>Multi_Precision\<close> is that of the natural numbers: every operation is an equation
  between the numbers that arrays of digits stand for. Arrays of a given length and numbers below the power of the base
  correspond (\<open>nn_val\<close>, \<open>nn_of\<close>), so the later theories compute with numbers alone.
\<close>

unbundle bit_operations_syntax

section \<open>Numbers and arrays\<close>

abbreviation (input) "NN \<equiv> 4294967296 :: nat"

primrec nn_val :: "u32 list \<Rightarrow> nat" where
  "nn_val [] = 0"
| "nn_val (d # ds) = unat d + NN * nn_val ds"

primrec nn_of :: "nat \<Rightarrow> nat \<Rightarrow> u32 list" where
  "nn_of 0 v = []"
| "nn_of (Suc n) v = word_of_nat v # nn_of n (v div NN)"

lemma unat_digit: "unat (d :: u32) < NN"
  using unsigned_less [of d, where 'a = nat] by simp

lemma unat_of_nat_digit: "unat (word_of_nat v :: u32) = v mod NN"
  by (simp add: unat_of_nat)

lemma nn_val_less: "nn_val ds < NN ^ length ds"
proof (induction ds)
  case (Cons d ds)
  have "unat d < NN" by (rule unat_digit)
  moreover have "nn_val ds + 1 \<le> NN ^ length ds" using Cons by simp
  then have "NN * (nn_val ds + 1) \<le> NN * NN ^ length ds" by (rule mult_le_mono2)
  ultimately have "unat d + NN * nn_val ds < NN * NN ^ length ds" unfolding distrib_left by linarith
  then show ?case by simp
qed simp

lemma nn_val_append: "nn_val (xs @ ys) = nn_val xs + NN ^ length xs * nn_val ys"
  by (induction xs) (simp_all add: algebra_simps)

lemma nn_val_zeros [simp]: "nn_val (replicate n 0) = 0"
  by (induction n) simp_all

lemma length_nn_of [simp]: "length (nn_of n v) = n"
  by (induction n arbitrary: v) simp_all

lemma nn_val_of: "nn_val (nn_of n v) = v mod NN ^ n"
  by (induction n arbitrary: v) (simp_all add: unat_of_nat_digit mod_mult2_eq)

lemma nn_val_of_less: "v < NN ^ n \<Longrightarrow> nn_val (nn_of n v) = v"
  by (simp add: nn_val_of)

lemma nn_of_val: "length ds = n \<Longrightarrow> nn_of n (nn_val ds) = ds"
proof (induction ds arbitrary: n)
  case (Cons d ds)
  have "word_of_nat (unat d + NN * nn_val ds) = d"
    using unat_digit [of d] by (intro unsigned_word_eqI [where 'a = nat]) (simp add: unat_of_nat_digit del: of_nat_add of_nat_mult)
  moreover have "(unat d + NN * nn_val ds) div NN = nn_val ds" using unat_digit [of d] by simp
  ultimately show ?case using Cons by (cases n) (simp_all del: of_nat_add of_nat_mult)
qed simp

lemma nn_val_inj: "length xs = length ys \<Longrightarrow> nn_val xs = nn_val ys \<Longrightarrow> xs = ys"
  using nn_of_val [of xs "length xs"] nn_of_val [of ys "length ys"] by metis

lemma nn_ofI: "length xs = n \<Longrightarrow> nn_val xs = v \<Longrightarrow> xs = nn_of n v"
  using nn_of_val [of xs n] by simp

lemma nn_of_0 [simp]: "nn_of n 0 = replicate n 0"
  by (rule nn_ofI [symmetric]) simp_all

lemma rd_prefix: "n \<le> length a \<Longrightarrow> rd_bytes a 0 n = Some (take n a)"
  by (simp add: rd_bytes_def)

lemma rd_all [simp]: "length a = n \<Longrightarrow> rd_bytes a 0 n = Some a"
  by (simp add: rd_bytes_def)

lemma nn_eq_0: "nn_val ds = 0 \<longleftrightarrow> list_all (\<lambda>d. d = 0) ds"
  by (induction ds) (auto simp: unat_eq_0)

section \<open>Comparisons and lengths\<close>

lemma nn_val_snoc: "nn_val (xs @ [x]) = nn_val xs + NN ^ length xs * unat x"
  by (simp add: nn_val_append)

lemma nn_snoc_less: "length xs = length ys \<Longrightarrow> unat x < unat y \<Longrightarrow> nn_val (xs @ [x]) < nn_val (ys @ [y])"
proof -
  assume "length xs = length ys" "unat x < unat y"
  have "NN ^ length xs * (unat x + 1) \<le> NN ^ length xs * unat y" using \<open>unat x < unat y\<close> by (intro mult_le_mono2) simp
  then have "NN ^ length xs * unat x + NN ^ length xs \<le> NN ^ length xs * unat y" by (simp add: algebra_simps)
  then show ?thesis using nn_val_less [of xs] \<open>length xs = length ys\<close> by (simp add: nn_val_snoc)
qed

definition cmp_nat :: "nat \<Rightarrow> nat \<Rightarrow> int" where
  "cmp_nat a b = (if a > b then 1 else if a < b then - 1 else 0)"

lemma cmp_nat_iff [simp]:
  "cmp_nat a b = 0 \<longleftrightarrow> a = b" "cmp_nat a b \<ge> 0 \<longleftrightarrow> a \<ge> b" "cmp_nat a b > 0 \<longleftrightarrow> a > b" "cmp_nat a b < 0 \<longleftrightarrow> a < b"
  by (auto simp: cmp_nat_def)

lemma cmp_loop_val: "length as = length bs \<Longrightarrow> cmp_loop (rev (zip as bs)) = cmp_nat (nn_val as) (nn_val bs)"
proof (induction as arbitrary: bs rule: rev_induct)
  case Nil
  then show ?case by (simp add: cmp_nat_def)
next
  case (snoc a as)
  obtain bs' b where bs: "bs = bs' @ [b]" "length as = length bs'"
    using snoc.prems by (cases bs rule: rev_cases) auto
  then have IH: "cmp_loop (rev (zip as bs')) = cmp_nat (nn_val as) (nn_val bs')" by (intro snoc.IH)
  consider "a > b" | "a < b" | "a = b" by (rule linorder_cases [of a b])
  then show ?case
  proof cases
    case 1
    then show ?thesis using nn_snoc_less [of bs' as b a] bs by (simp add: cmp_nat_def word_less_nat_alt)
  next
    case 2
    then show ?thesis using nn_snoc_less [of as bs' a b] bs by (auto simp: cmp_nat_def word_less_nat_alt)
  next
    case 3
    then show ?thesis using IH bs by (simp add: nn_val_snoc cmp_nat_def)
  qed
qed

lemma down_count_small [simp]: "n \<le> 128 \<Longrightarrow> down_count n = n"
  by (simp add: down_count_def)

lemma down_count_large: "128 < n \<Longrightarrow> n < 256 \<Longrightarrow> down_count n = 0"
  by (simp add: down_count_def schar_wrap)

lemma Cmp_val: "length as = n \<Longrightarrow> length bs = n \<Longrightarrow> n \<le> 128 \<Longrightarrow> Cmp as bs n = Some (cmp_nat (nn_val as) (nn_val bs))"
  by (simp add: Cmp_def cmp_loop_val)

lemma Zero_val: "length as = n \<Longrightarrow> Zero as n = Some (nn_val as = 0)"
  by (simp add: Zero_def nn_eq_0)

lemma Equal_val: "length as = n \<Longrightarrow> length bs = n \<Longrightarrow> n \<le> 128 \<Longrightarrow> Equal as bs n = Some (nn_val as = nn_val bs)"
  by (simp add: Equal_def Cmp_val)

lemma Even_val: "length as = n \<Longrightarrow> Even as n = Some (even (nn_val as))"
proof (cases as)
  case (Cons d ds)
  have "d AND 1 = 0 \<longleftrightarrow> unat (d AND 1) = 0" by (simp add: unat_eq_0)
  then have "d AND 1 = 0 \<longleftrightarrow> even (unat d)" unfolding unsigned_and_eq by (simp add: and_one_eq even_iff_mod_2_eq_zero)
  moreover assume "length as = n"
  ultimately show ?thesis using Cons by (auto simp: Even_def rd_def)
qed (simp add: Even_def)

text \<open>The significant digits.\<close>

lemma digits_loop_spec: "\<exists>zs. as = take (digits_loop (rev as)) as @ zs \<and> list_all (\<lambda>d. d = 0) zs \<and> digits_loop (rev as) \<le> length as \<and>
    (digits_loop (rev as) > 0 \<longrightarrow> as ! (digits_loop (rev as) - 1) \<noteq> 0)"
proof (induction as rule: rev_induct)
  case (snoc a as)
  show ?case
  proof (cases "a = 0")
    case True
    then have same: "digits_loop (rev (as @ [a])) = digits_loop (rev as)" by simp
    obtain zs where zs: "as = take (digits_loop (rev as)) as @ zs" "list_all (\<lambda>d. d = 0) zs" "digits_loop (rev as) \<le> length as"
        "digits_loop (rev as) > 0 \<longrightarrow> as ! (digits_loop (rev as) - 1) \<noteq> 0" using snoc by (elim exE conjE) (rule that)
    show ?thesis unfolding same
    proof (intro exI [of _ "zs @ [a]"] conjI impI)
      have "take (digits_loop (rev as)) (as @ [a]) = take (digits_loop (rev as)) as" using zs(3) by simp
      then show "as @ [a] = take (digits_loop (rev as)) (as @ [a]) @ zs @ [a]" using zs(1) by (metis append_assoc)
      show "list_all (\<lambda>d. d = 0) (zs @ [a])" using zs(2) True by simp
      show "digits_loop (rev as) \<le> length (as @ [a])" using zs(3) by simp
      show "(as @ [a]) ! (digits_loop (rev as) - 1) \<noteq> 0" if "digits_loop (rev as) > 0"
        using zs(3,4) that by (auto simp: nth_append)
    qed
  qed (simp add: nth_append)
qed simp

lemma Digits_spec:
  assumes "length as = n" "n \<le> 128"
  obtains k xs where "Digits as n = Some k" "k \<le> n" "xs = take k as" "length xs = k" "nn_val xs = nn_val as" "k > 0 \<Longrightarrow> as ! (k - 1) \<noteq> 0"
    "as = xs @ replicate (n - k) 0"
proof -
  let ?k = "digits_loop (rev as)"
  obtain zs where zs: "as = take ?k as @ zs" "list_all (\<lambda>d. d = 0) zs" "?k \<le> length as" "?k > 0 \<longrightarrow> as ! (?k - 1) \<noteq> 0"
    using digits_loop_spec [of as] by (elim exE conjE) (rule that)
  have lz: "length zs = n - ?k" using arg_cong [OF zs(1), of length] zs(3) assms by simp
  then have z: "zs = replicate (n - ?k) 0" using zs(2) by (simp add: list_all_iff replicate_eqI)
  have "nn_val as = nn_val (take ?k as) + 0" using arg_cong [OF zs(1), of nn_val] unfolding nn_val_append z by simp
  then show thesis using zs(1,3,4) z assms
    by (intro that [of ?k "take ?k as"]) (auto simp: Digits_def Let_def)
qed

lemma digit_bits_loop_val: "unat a < 2 ^ k \<Longrightarrow> digit_bits_loop k a = (LEAST n. unat a < 2 ^ n)"
proof (induction k arbitrary: a)
  case (Suc k)
  show ?case
  proof (cases "a = 0")
    case False
    have half: "unat (drop_bit 1 a) = unat a div 2" by (simp add: drop_bit_eq_div unat_div)
    have "0 < unat a" using False by (simp add: unat_gt_0)
    then have "(LEAST n. unat a < 2 ^ n) = Suc (LEAST n. unat a < 2 ^ Suc n)"
      using Suc.prems by (intro Least_Suc [of "\<lambda>n. unat a < 2 ^ n" "Suc k"]) auto
    also have "(LEAST n. unat a < 2 ^ Suc n) = (LEAST n. unat a div 2 < 2 ^ n)" by (rule arg_cong [of _ _ Least]) auto
    also have "\<dots> = digit_bits_loop k (drop_bit 1 a)" using Suc.IH [of "drop_bit 1 a"] Suc.prems half by auto
    finally show ?thesis using False by simp
  qed (simp add: Least_equality)
qed (simp add: Least_equality)

lemma DigitBits_bounds:
  assumes "a \<noteq> 0"
  shows "unat a < 2 ^ DigitBits a" "2 ^ (DigitBits a - 1) \<le> unat a" "0 < DigitBits a" "DigitBits a \<le> 32"
proof -
  have bits: "DigitBits a = (LEAST n. unat a < 2 ^ n)" using digit_bits_loop_val [of a 32] unat_digit [of a] by (simp add: DigitBits_def)
  have a32: "unat a < 2 ^ 32" using unat_digit [of a] by simp
  show less: "unat a < 2 ^ DigitBits a" unfolding bits by (rule LeastI [of "\<lambda>n. unat a < 2 ^ n", OF a32])
  show "DigitBits a \<le> 32" unfolding bits by (rule Least_le [of "\<lambda>n. unat a < 2 ^ n", OF a32])
  have "unat a \<noteq> 0" using assms by (simp add: unat_eq_0)
  then show pos: "0 < DigitBits a" using less by (cases "DigitBits a") simp_all
  show "2 ^ (DigitBits a - 1) \<le> unat a"
    using not_less_Least [of "DigitBits a - 1" "\<lambda>n. unat a < 2 ^ n"] pos unfolding bits by simp
qed


section \<open>Addition and subtraction\<close>

lemma add_digit:
  assumes "unat (carry :: u32) \<le> 1" and "(if b + carry < carry then (c, carry) else if b + carry + c < c then (b + carry + c, 1) else (b + carry + c, 0)) = (ai, carry')"
  shows "unat ai + NN * unat carry' = unat b + unat c + unat carry" "unat carry' \<le> 1"
  using assms unat_digit [of b] unat_digit [of c]
  by (auto simp: word_less_nat_alt unat_plus_if' split: if_splits)

lemma add_loop_val:
  assumes "length bs = length cs" and "unat carry \<le> 1" and "add_loop carry bs cs = (as, k)"
  shows "length as = length bs \<and> unat k \<le> 1 \<and> nn_val as + NN ^ length bs * unat k = nn_val bs + nn_val cs + unat carry"
  using assms
proof (induction carry bs cs arbitrary: as k rule: add_loop.induct)
  case (1 carry b bs c cs)
  obtain ai carry' where d: "(if b + carry < carry then (c, carry) else if b + carry + c < c then (b + carry + c, 1) else (b + carry + c, 0)) = (ai, carry')"
    by (metis surj_pair)
  obtain as' k' where r: "add_loop carry' bs cs = (as', k')" by force
  have res: "as = ai # as'" "k = k'" using 1(4) d r by (simp_all add: Let_def)
  note dig = add_digit [OF 1(3) d]
  have "length as' = length bs \<and> unat k' \<le> 1 \<and> nn_val as' + NN ^ length bs * unat k' = nn_val bs + nn_val cs + unat carry'"
    by (rule 1(1) [OF refl d [symmetric] refl]) (use 1(2) dig(2) r in simp_all)
  then show ?case using dig res by (simp add: algebra_simps)
qed simp_all

text \<open>\<open>Add\<close> gives the sum and its carry, \<open>Sub\<close> the difference and its borrow.\<close>

lemma Add_val:
  assumes "length bs = n" "length cs = n"
  shows "Add bs cs n = Some (nn_of n (nn_val bs + nn_val cs), if nn_val bs + nn_val cs < NN ^ n then 0 else 1)"
proof -
  obtain as k where r: "add_loop 0 bs cs = (as, k)" by force
  have v: "length as = n" "unat k \<le> 1" "nn_val as + NN ^ n * unat k = nn_val bs + nn_val cs"
    using add_loop_val [OF _ _ r] assms by simp_all
  have less: "nn_val as < NN ^ n" using nn_val_less [of as] v(1) by simp
  have "(nn_val bs + nn_val cs) mod NN ^ n = nn_val as" unfolding v(3) [symmetric] using less by simp
  then have "as = nn_of n (nn_val bs + nn_val cs)" using v(1) by (intro nn_val_inj) (simp_all add: nn_val_of)
  moreover have "k = (if nn_val bs + nn_val cs < NN ^ n then 0 else 1)"
  proof (cases "unat k = 0")
    case True
    then show ?thesis using v(3) less by (simp add: unat_eq_0)
  next
    case False
    then have "k = 1" using v(2) by (metis One_nat_def le_SucE le_zero_eq unat_1 unsigned_word_eqI)
    then show ?thesis using v(3) by simp
  qed
  ultimately show ?thesis using r assms by (simp add: Add_def)
qed

lemma sub_digit:
  assumes "unat (borrow :: u32) \<le> 1" and "(if b - borrow > MAX_NN_DIGIT - borrow then (MAX_NN_DIGIT - c, borrow)
      else if b - borrow - c > MAX_NN_DIGIT - c then (b - borrow - c, 1) else (b - borrow - c, 0)) = (ai, borrow')"
  shows "unat ai + unat c + unat borrow = unat b + NN * unat borrow'" "unat borrow' \<le> 1"
proof -
  have m: "unat (MAX_NN_DIGIT - borrow) = NN - 1 - unat borrow" "unat (MAX_NN_DIGIT - c) = NN - 1 - unat c"
    using assms(1) unat_digit [of c] by (simp_all add: unat_sub_if')
  show "unat ai + unat c + unat borrow = unat b + NN * unat borrow'" "unat borrow' \<le> 1"
    using assms unat_digit [of b] unat_digit [of c]
    by (auto simp: word_less_nat_alt unat_sub_if' m split: if_splits)
qed

lemma sub_loop_val:
  assumes "length bs = length cs" and "unat borrow \<le> 1" and "sub_loop borrow bs cs = (as, k)"
  shows "length as = length bs \<and> unat k \<le> 1 \<and> nn_val as + nn_val cs + unat borrow = nn_val bs + NN ^ length bs * unat k"
  using assms
proof (induction borrow bs cs arbitrary: as k rule: sub_loop.induct)
  case (1 borrow b bs c cs)
  obtain ai borrow' where d: "(if b - borrow > MAX_NN_DIGIT - borrow then (MAX_NN_DIGIT - c, borrow)
      else if b - borrow - c > MAX_NN_DIGIT - c then (b - borrow - c, 1) else (b - borrow - c, 0)) = (ai, borrow')"
    by (metis surj_pair)
  obtain as' k' where r: "sub_loop borrow' bs cs = (as', k')" by force
  have res: "as = ai # as'" "k = k'" using 1(4) d r by (simp_all add: Let_def)
  note dig = sub_digit [OF 1(3) d]
  have "length as' = length bs \<and> unat k' \<le> 1 \<and> nn_val as' + nn_val cs + unat borrow' = nn_val bs + NN ^ length bs * unat k'"
    by (rule 1(1) [OF refl d [symmetric] refl]) (use 1(2) dig(2) r in simp_all)
  then show ?case using dig res by (simp add: algebra_simps)
qed simp_all

lemma Sub_val:
  assumes "length bs = n" "length cs = n"
  shows "Sub bs cs n = Some (nn_of n (nn_val bs + NN ^ n - nn_val cs), if nn_val cs \<le> nn_val bs then 0 else 1)"
proof -
  obtain as k where r: "sub_loop 0 bs cs = (as, k)" by force
  have v: "length as = n" "unat k \<le> 1" "nn_val as + nn_val cs = nn_val bs + NN ^ n * unat k"
    using sub_loop_val [OF _ _ r] assms by simp_all
  have less: "nn_val as < NN ^ n" "nn_val cs < NN ^ n" "nn_val bs < NN ^ n"
    using nn_val_less [of as] nn_val_less [of cs] nn_val_less [of bs] v(1) assms by simp_all
  have k: "k = 0 \<or> k = 1" using v(2) by (metis One_nat_def le_SucE le_zero_eq unat_0 unat_1 unsigned_word_eqI)
  then have "(nn_val bs + NN ^ n - nn_val cs) mod NN ^ n = nn_val as"
  proof
    assume "k = 0"
    then have "nn_val bs + NN ^ n - nn_val cs = nn_val as + NN ^ n" using v(3) by simp
    then show ?thesis using less by simp
  next
    assume "k = 1"
    then have "nn_val bs + NN ^ n - nn_val cs = nn_val as" using v(3) by simp
    then show ?thesis using less by simp
  qed
  then have "as = nn_of n (nn_val bs + NN ^ n - nn_val cs)" using v(1) by (intro nn_val_inj) (simp_all add: nn_val_of)
  moreover have "k = (if nn_val cs \<le> nn_val bs then 0 else 1)" using k v(3) less by auto
  ultimately show ?thesis using r assms by (simp add: Sub_def)
qed

lemma Sub_le:
  assumes "length bs = n" "length cs = n" "nn_val cs \<le> nn_val bs"
  shows "Sub bs cs n = Some (nn_of n (nn_val bs - nn_val cs), 0)"
proof -
  have "nn_val bs + NN ^ n - nn_val cs = (nn_val bs - nn_val cs) + NN ^ n" using assms(3) by simp
  moreover have "nn_of n ((nn_val bs - nn_val cs) + NN ^ n) = nn_of n (nn_val bs - nn_val cs)"
    by (intro nn_val_inj) (simp_all add: nn_val_of)
  ultimately show ?thesis using Sub_val [OF assms(1,2)] assms(3) by simp
qed

section \<open>Products with a digit\<close>

lemma DigitMult_parts:
  "NN * unat (ucast (drop_bit 32 (DigitMult c d)) :: u32) + unat (ucast (DigitMult c d AND ucast MAX_NN_DIGIT) :: u32) = unat c * unat d"
  "unat (ucast (drop_bit 32 (DigitMult c d)) :: u32) \<le> NN - 2"
proof -
  have "unat c \<le> NN - 1" "unat d \<le> NN - 1" using unat_digit [of c] unat_digit [of d] by linarith+
  then have le: "unat c * unat d \<le> (NN - 1) * (NN - 1)" by (rule mult_le_mono)
  then have t: "unat (DigitMult c d) = unat c * unat d"
    using \<open>unat c \<le> NN - 1\<close> \<open>unat d \<le> NN - 1\<close>
    by (simp add: DigitMult_def unat_word_ariths unsigned_ucast_eq take_bit_nat_eq_self)
  have hi: "unat (ucast (drop_bit 32 (DigitMult c d)) :: u32) = unat c * unat d div NN"
    using div_le_mono [OF le, of NN] by (simp add: unat_div unsigned_ucast_eq unsigned_drop_bit_eq take_bit_eq_mod drop_bit_eq_div t)
  have "DigitMult c d AND ucast MAX_NN_DIGIT = take_bit 32 (DigitMult c d)" by (simp add: take_bit_eq_mask mask_eq_exp_minus_1)
  then have lo: "unat (ucast (DigitMult c d AND ucast MAX_NN_DIGIT) :: u32) = unat c * unat d mod NN"
    by (simp only:) (simp add: unsigned_ucast_eq unat_mod take_bit_eq_mod t)
  show "NN * unat (ucast (drop_bit 32 (DigitMult c d)) :: u32) + unat (ucast (DigitMult c d AND ucast MAX_NN_DIGIT) :: u32) = unat c * unat d"
    unfolding hi lo by simp
  have "unat c * unat d div NN \<le> (NN - 1) * (NN - 1) div NN" using le by (rule div_le_mono)
  then show "unat (ucast (drop_bit 32 (DigitMult c d)) :: u32) \<le> NN - 2" unfolding hi by simp
qed


lemma add_mult_digit:
  assumes t: "NN * unat hi + unat low = unat (c :: u32) * unat (d :: u32)" "unat hi \<le> NN - 2"
    and "ai = b + carry" "carry1 = (if ai < carry then 1 else 0)" "ai' = ai + low" "carry' = (if ai' < low then carry1 + 1 else carry1) + (hi :: u32)"
  shows "unat (ai' :: u32) + NN * unat carry' = unat b + unat carry + unat c * unat d"
proof -
  have c: "unat c \<le> NN - 1" "unat d \<le> NN - 1" "unat b \<le> NN - 1" "unat carry \<le> NN - 1" "unat low \<le> NN - 1"
    using unat_digit [of c] unat_digit [of d] unat_digit [of b] unat_digit [of carry] unat_digit [of low] by linarith+
  have "unat c * unat d \<le> (NN - 1) * (NN - 1)" using c by (intro mult_le_mono) simp_all
  then have bound: "NN * unat hi + unat low \<le> (NN - 1) * (NN - 1)" using t(1) by simp
  have 1: "unat ai + NN * unat carry1 = unat b + unat carry" "unat carry1 \<le> 1"
    using assms(3,4) c by (auto simp: word_less_nat_alt unat_plus_if' split: if_splits)
  have 2: "unat ai' + NN * (if ai' < low then 1 else 0) = unat ai + unat low"
    using assms(5) c unat_digit [of ai] by (auto simp: word_less_nat_alt unat_plus_if' split: if_splits)
  define k where "k = (if ai' < low then 1 else 0 :: nat)"
  have total: "unat ai' + NN * (unat carry1 + k + unat hi) = unat b + unat carry + unat c * unat d"
    using 1 2 t(1) unfolding k_def by (simp add: algebra_simps)
  have "unat carry1 + k + unat hi < NN"
  proof (rule ccontr)
    assume "\<not> unat carry1 + k + unat hi < NN"
    then have "NN * NN \<le> NN * (unat carry1 + k + unat hi)" by simp
    then have "NN * NN \<le> unat b + unat carry + unat c * unat d" using total by linarith
    then show False using bound t(1) c by simp
  qed
  moreover have "unat (if ai' < low then carry1 + 1 else carry1) = unat carry1 + k"
    using 1(2) unfolding k_def by (simp add: unat_plus_if')
  ultimately have "unat carry' = unat carry1 + k + unat hi" using assms(6) by (simp add: unat_plus_if')
  then show ?thesis using total by simp
qed

lemma add_mult_loop_val:
  assumes "length bs = length ds" and "add_mult_loop carry c bs ds = (as, k)"
  shows "length as = length bs \<and> nn_val as + NN ^ length bs * unat k = nn_val bs + unat c * nn_val ds + unat carry"
  using assms
proof (induction carry c bs ds arbitrary: as k rule: add_mult_loop.induct)
  case (1 carry c b bs d ds)
  define low where "low = (ucast (DigitMult c d AND ucast MAX_NN_DIGIT) :: u32)"
  define hi where "hi = (ucast (drop_bit 32 (DigitMult c d)) :: u32)"
  define carry' where "carry' = (if b + carry + low < low then (if b + carry < carry then 1 else 0) + 1 else (if b + carry < carry then 1 else 0)) + hi"
  obtain as' k' where r: "add_mult_loop carry' c bs ds = (as', k')" by force
  have res: "as = (b + carry + low) # as'" "k = k'"
    using 1(3) r unfolding carry'_def low_def hi_def by (simp_all add: Let_def)
  have dig: "unat (b + carry + low) + NN * unat carry' = unat b + unat carry + unat c * unat d"
    by (rule add_mult_digit [where hi = hi and low = low and carry = carry and ?carry1.0 = "if b + carry < carry then 1 else 0"])
      (use DigitMult_parts [of c d] in \<open>simp_all add: low_def hi_def carry'_def\<close>)
  have "length as' = length bs \<and> nn_val as' + NN ^ length bs * unat k' = nn_val bs + unat c * nn_val ds + unat carry'"
    by (rule 1(1) [OF refl low_def refl refl refl]) (use 1(2) r in \<open>simp_all add: low_def hi_def carry'_def\<close>)
  then show ?case using dig res by (simp add: algebra_simps)
qed simp_all

lemma AddDigitMult_val:
  assumes "length bs = length ds" and "AddDigitMult bs c ds = (as, k)"
  shows "length as = length bs" "nn_val as + NN ^ length bs * unat k = nn_val bs + unat c * nn_val ds"
  using assms add_mult_loop_val [OF assms(1), of 0 c as k] by (auto simp: AddDigitMult_def split: if_splits)

lemma sub_mult_digit:
  assumes t: "NN * unat hi + unat low = unat (c :: u32) * unat (d :: u32)" "unat hi \<le> NN - 2"
    and "ai = b - borrow" "borrow1 = (if ai > MAX_NN_DIGIT - borrow then 1 else 0)" "ai' = ai - low"
      "borrow' = (if ai' > MAX_NN_DIGIT - low then borrow1 + 1 else borrow1) + (hi :: u32)"
  shows "unat (ai' :: u32) + unat borrow + unat c * unat d = unat b + NN * unat borrow'"
proof -
  have c: "unat c \<le> NN - 1" "unat d \<le> NN - 1" "unat b \<le> NN - 1" "unat borrow \<le> NN - 1" "unat low \<le> NN - 1" "unat ai' \<le> NN - 1"
    using unat_digit [of c] unat_digit [of d] unat_digit [of b] unat_digit [of borrow] unat_digit [of low] unat_digit [of ai'] by linarith+
  have "unat c * unat d \<le> (NN - 1) * (NN - 1)" using c by (intro mult_le_mono) simp_all
  then have bound: "NN * unat hi + unat low \<le> (NN - 1) * (NN - 1)" using t(1) by simp
  have m: "unat (MAX_NN_DIGIT - borrow) = NN - 1 - unat borrow" "unat (MAX_NN_DIGIT - low) = NN - 1 - unat low"
    using c by (simp_all add: unat_sub_if')
  have 1: "unat ai + unat borrow = unat b + NN * unat borrow1" "unat borrow1 \<le> 1"
    using assms(3,4) c by (auto simp: word_less_nat_alt unat_sub_if' m split: if_splits)
  define k where "k = (if ai' > MAX_NN_DIGIT - low then 1 else 0 :: nat)"
  have 2: "unat ai' + unat low = unat ai + NN * k"
    using assms(5) c unat_digit [of ai] unfolding k_def by (auto simp: word_less_nat_alt unat_sub_if' m split: if_splits)
  have total: "unat ai' + unat borrow + unat c * unat d = unat b + NN * (unat borrow1 + k + unat hi)"
    using 1 2 t(1) by (simp add: algebra_simps)
  have "unat borrow1 + k + unat hi < NN"
  proof (rule ccontr)
    assume "\<not> unat borrow1 + k + unat hi < NN"
    then have "NN * NN \<le> NN * (unat borrow1 + k + unat hi)" by simp
    then have "NN * NN \<le> unat ai' + unat borrow + unat c * unat d" using total by linarith
    then show False using bound t(1) c by simp
  qed
  moreover have "unat (if ai' > MAX_NN_DIGIT - low then borrow1 + 1 else borrow1) = unat borrow1 + k"
    using 1(2) unfolding k_def by (simp add: unat_plus_if')
  ultimately have "unat borrow' = unat borrow1 + k + unat hi" using assms(6) by (simp add: unat_plus_if')
  then show ?thesis using total by simp
qed

lemma sub_mult_loop_val:
  assumes "length bs = length ds" and "sub_mult_loop borrow c bs ds = (as, k)"
  shows "length as = length bs \<and> nn_val as + unat borrow + unat c * nn_val ds = nn_val bs + NN ^ length bs * unat k"
  using assms
proof (induction borrow c bs ds arbitrary: as k rule: sub_mult_loop.induct)
  case (1 borrow c b bs d ds)
  define low where "low = (ucast (DigitMult c d AND ucast MAX_NN_DIGIT) :: u32)"
  define hi where "hi = (ucast (drop_bit 32 (DigitMult c d)) :: u32)"
  define borrow1 :: u32 where "borrow1 = (if b - borrow > MAX_NN_DIGIT - borrow then 1 else 0)"
  define borrow' where "borrow' = (if b - borrow - low > MAX_NN_DIGIT - low then borrow1 + 1 else borrow1) + hi"
  obtain as' k' where r: "sub_mult_loop borrow' c bs ds = (as', k')" by force
  have res: "as = (b - borrow - low) # as'" "k = k'"
    using 1(3) r unfolding borrow'_def borrow1_def low_def hi_def by (simp_all add: Let_def)
  have dig: "unat (b - borrow - low) + unat borrow + unat c * unat d = unat b + NN * unat borrow'"
    by (rule sub_mult_digit [where hi = hi and low = low and borrow = borrow and ?borrow1.0 = borrow1])
      (use DigitMult_parts [of c d] in \<open>simp_all add: low_def hi_def borrow'_def borrow1_def\<close>)
  have "length as' = length bs \<and> nn_val as' + unat borrow' + unat c * nn_val ds = nn_val bs + NN ^ length bs * unat k'"
    by (rule 1(1) [OF refl low_def refl refl refl]) (use 1(2) r in \<open>simp_all add: low_def hi_def borrow'_def borrow1_def\<close>)
  then show ?case using dig res by (simp add: algebra_simps)
qed simp_all

lemma SubDigitMult_val:
  assumes "length bs = length ds" and "SubDigitMult bs c ds = (as, k)"
  shows "length as = length bs" "nn_val as + unat c * nn_val ds = nn_val bs + NN ^ length bs * unat k"
  using assms sub_mult_loop_val [OF assms(1), of 0 c as k] by (auto simp: SubDigitMult_def split: if_splits)


section \<open>Shifts\<close>

lemma or_disjoint:
  assumes "unat (y :: u32) < 2 ^ n" and "n \<le> 32"
  shows "unat (push_bit n z OR y) = unat (push_bit n z) + unat y"
    "unat (push_bit n z) = 2 ^ n * (unat z mod 2 ^ (32 - n))"
proof -
  have "take_bit n y = y" using assms by (metis take_bit_nat_eq_self unsigned_take_bit_eq unsigned_word_eqI)
  then have "\<forall>k. bit y k \<longrightarrow> k < n" by (metis bit_take_bit_iff)
  then have add: "push_bit n z OR y = push_bit n z + y"
    by (intro disjunctive_add [symmetric]) (auto simp: bit_push_bit_iff)
  have "(2 :: nat) ^ 32 = 2 ^ n * 2 ^ (32 - n)" using assms(2) by (simp add: power_add [symmetric])
  then show p: "unat (push_bit n z) = 2 ^ n * (unat z mod 2 ^ (32 - n))"
    unfolding unsigned_push_bit_eq by (simp add: push_bit_eq_mult take_bit_eq_mod mult.commute mult_mod_right)
  have "unat z mod 2 ^ (32 - n) + 1 \<le> 2 ^ (32 - n)" by (simp add: Suc_leI)
  then have "2 ^ n * (unat z mod 2 ^ (32 - n) + 1) \<le> 2 ^ n * (2 :: nat) ^ (32 - n)" by (rule mult_le_mono2)
  then have "2 ^ n * (unat z mod 2 ^ (32 - n)) + 2 ^ n \<le> (2 :: nat) ^ 32"
    using assms(2) by (simp add: algebra_simps power_add [symmetric])
  then have "unat (push_bit n z) + unat y < 2 ^ 32" using assms(1) p by linarith
  then show "unat (push_bit n z OR y) = unat (push_bit n z) + unat y" unfolding add by (simp add: unat_plus_if')
qed

lemma unat_drop: "unat (drop_bit k (b :: u32)) = unat b div 2 ^ k"
  unfolding unsigned_drop_bit_eq using unat_digit [of b] by (simp add: drop_bit_eq_div take_bit_nat_eq_self)

lemma lshift_digit:
  assumes "c < 32" and "unat (carry :: u32) < 2 ^ c" and "carry' = (if c \<noteq> 0 then drop_bit (32 - c) b else 0)"
  shows "unat (push_bit c b OR carry) + NN * unat carry' = 2 ^ c * unat b + unat carry" "unat carry' < 2 ^ c"
proof -
  have B: "NN = 2 ^ c * 2 ^ (32 - c)" using assms(1) by (simp add: power_add [symmetric])
  have k: "unat carry' = unat b div 2 ^ (32 - c)"
  proof (cases "c = 0")
    case True
    then show ?thesis using assms(3) unat_digit [of b] by simp
  next
    case False
    then show ?thesis using assms(3) by (simp add: unat_drop)
  qed
  have "unat b = 2 ^ (32 - c) * (unat b div 2 ^ (32 - c)) + unat b mod 2 ^ (32 - c)" by simp
  then have "2 ^ c * unat b = 2 ^ c * 2 ^ (32 - c) * (unat b div 2 ^ (32 - c)) + 2 ^ c * (unat b mod 2 ^ (32 - c))"
    by (metis distrib_left mult.assoc)
  then show "unat (push_bit c b OR carry) + NN * unat carry' = 2 ^ c * unat b + unat carry"
    using or_disjoint [OF assms(2), of b] assms(1) B k by simp
  have "unat b < 2 ^ c * 2 ^ (32 - c)" using unat_digit [of b] B by simp
  then show "unat carry' < 2 ^ c" unfolding k by (simp add: less_mult_imp_div_less)
qed

lemma lshift_loop_val:
  assumes "c < 32" and "unat carry < 2 ^ c" and "lshift_loop c carry bs = (as, k)"
  shows "length as = length bs \<and> unat k < 2 ^ c \<and> nn_val as + NN ^ length bs * unat k = 2 ^ c * nn_val bs + unat carry"
  using assms(2,3)
proof (induction bs arbitrary: carry as k)
  case (Cons b bs)
  define carry' where "carry' = (if c \<noteq> 0 then drop_bit (32 - c) b else 0)"
  obtain as' k' where r: "lshift_loop c carry' bs = (as', k')" by force
  have res: "as = (push_bit c b OR carry) # as'" "k = k'" using Cons.prems(2) r by (simp_all add: carry'_def)
  note dig = lshift_digit [OF assms(1) Cons.prems(1) carry'_def]
  show ?case using Cons.IH [OF dig(2) r] dig(1) res by (simp add: algebra_simps)
qed simp

lemma LShift_val:
  assumes "length bs = n" and "c < 32"
  obtains as k where "LShift bs c n = Some (as, k)" "length as = n" "unat k < 2 ^ c" "nn_val as + NN ^ n * unat k = 2 ^ c * nn_val bs"
proof -
  obtain as k where r: "lshift_loop c 0 bs = (as, k)" by force
  from lshift_loop_val [OF assms(2) _ r] show thesis using that [of as k] r assms by (simp add: LShift_def)
qed

lemma shift_split:
  fixes u :: nat
  assumes "N = C * W" "u = m + q * C"
  shows "v + P * u + (P * N) * r = v + P * m + P * (W * r + q) * C"
  unfolding assms by (simp add: algebra_simps)

lemma rshift_loop_val:
  assumes "c < 32" and "r < 2 ^ c" and "unat carry = 2 ^ (32 - c) * r" and "rshift_loop c carry (rev bs) = (as, k)"
  shows "length as = length bs \<and> nn_val (rev as) = (nn_val bs + NN ^ length bs * r) div 2 ^ c"
  using assms(2-4)
proof (induction bs arbitrary: carry as k r rule: rev_induct)
  case (snoc b bs)
  define carry' where "carry' = (if c \<noteq> 0 then push_bit (32 - c) b else 0)"
  obtain as' k' where e: "rshift_loop c carry' (rev bs) = (as', k')" by force
  have res: "as = (drop_bit c b OR carry) # as'" using snoc.prems(3) e by (simp add: carry'_def)
  have B: "NN = 2 ^ c * 2 ^ (32 - c)" using assms(1) by (simp add: power_add [symmetric])
  have k': "unat carry' = 2 ^ (32 - c) * (unat b mod 2 ^ c)"
    using or_disjoint(2) [of 0 "32 - c" b] assms(1) by (simp add: carry'_def)
  have b: "unat (drop_bit c b) = unat b div 2 ^ c"
    by (rule unat_drop)
  have small: "unat (drop_bit c b) < 2 ^ (32 - c)" unfolding b
    using unat_digit [of b] B by (simp add: less_mult_imp_div_less mult.commute)
  have "(2 :: nat) ^ c \<le> NN" unfolding B by simp
  then have "r mod NN = r" using snoc.prems(1) by simp
  with snoc.prems(1,2) have "carry = push_bit (32 - c) (word_of_nat r)"
    using or_disjoint(2) [of 0 "32 - c" "word_of_nat r"] assms(1)
    by (intro unsigned_word_eqI [where 'a = nat]) (simp add: unat_of_nat_digit)
  then have out: "unat (drop_bit c b OR carry) = 2 ^ (32 - c) * r + unat b div 2 ^ c"
    using or_disjoint(1) [OF small, of "word_of_nat r"] snoc.prems(2) b by (simp add: or.commute)
  have IH: "length as' = length bs" "nn_val (rev as') = (nn_val bs + NN ^ length bs * (unat b mod 2 ^ c)) div 2 ^ c"
    using snoc.IH [OF _ k' e] by simp_all
  have "nn_val (bs @ [b]) + NN ^ length (bs @ [b]) * r =
      nn_val bs + NN ^ length bs * (unat b mod 2 ^ c) + NN ^ length bs * (2 ^ (32 - c) * r + unat b div 2 ^ c) * 2 ^ c"
    using shift_split [OF B mod_div_mult_eq [symmetric, of "unat b" "2 ^ c"], of "nn_val bs" "NN ^ length bs" r]
    by (simp only: nn_val_snoc length_append list.size power_add power_one_right add_0 One_nat_def power_Suc power_0 mult_1_right)
  then have "(nn_val (bs @ [b]) + NN ^ length (bs @ [b]) * r) div 2 ^ c =
      (nn_val bs + NN ^ length bs * (unat b mod 2 ^ c)) div 2 ^ c + NN ^ length bs * (2 ^ (32 - c) * r + unat b div 2 ^ c)"
    by simp
  then show ?case using IH out res by (simp add: nn_val_append)
qed simp

lemma RShift_val:
  assumes "length bs = n" and "c < 32" and "n \<le> 128"
  shows "\<exists>k. RShift bs c n = Some (nn_of n (nn_val bs div 2 ^ c), k)"
proof -
  obtain as k where r: "rshift_loop c 0 (rev bs) = (as, k)" by force
  have "length as = n" "nn_val (rev as) = nn_val bs div 2 ^ c"
    using rshift_loop_val [OF assms(2) _ _ r, of 0] assms(1) by simp_all
  then have "rev as = nn_of n (nn_val bs div 2 ^ c)" by (intro nn_ofI) simp_all
  then show ?thesis using r assms by (simp add: RShift_def)
qed

section \<open>Multiplication\<close>

lemma mult_loop_val:
  assumes "length ts = length cs" and "length bs \<le> m"
  shows "\<exists>t'. mult_loop (t1 @ ts @ replicate m 0) (length t1) bs cs = Some t' \<and> length t' = length t1 + length ts + m \<and>
    nn_val t' = nn_val (t1 @ ts) + NN ^ length t1 * (nn_val bs * nn_val cs)"
  using assms
proof (induction bs arbitrary: t1 ts m)
  case Nil
  then show ?case by (simp add: nn_val_append)
next
  case (Cons b bs)
  then obtain m' where m: "m = Suc m'" "length bs \<le> m'" by (cases m) auto
  obtain as k where r: "AddDigitMult ts b cs = (as, k)" by force
  note v = AddDigitMult_val [OF Cons.prems(1) r]
  obtain x xs where x: "as @ [k] = x # xs" by (cases "as @ [k]") simp_all
  have lx: "length xs = length cs" using arg_cong [OF x, of length] v(1) Cons.prems(1) by simp
  have t: "t1 @ as @ k # replicate m' 0 = (t1 @ [x]) @ xs @ replicate m' 0" using x by simp
  have "mult_loop (t1 @ ts @ replicate m 0) (length t1) (b # bs) cs = mult_loop ((t1 @ [x]) @ xs @ replicate m' 0) (length (t1 @ [x])) bs cs"
    unfolding t [symmetric] using Cons.prems(1) r v(1) m(1) by (simp add: rd_bytes_def memcpy_def rd_def wr_def nth_append list_update_append)
  moreover have "nn_val (x # xs) = nn_val ts + unat b * nn_val cs"
    using v(2) arg_cong [OF x, of nn_val] by (simp add: nn_val_append v(1))
  then have "nn_val ((t1 @ [x]) @ xs) = nn_val (t1 @ ts) + NN ^ length t1 * (unat b * nn_val cs)"
    by (simp add: nn_val_append algebra_simps)
  ultimately show ?case
    using Cons.IH [OF lx m(2), of "t1 @ [x]"] lx Cons.prems(1) m(1) by (auto simp: algebra_simps)
qed

lemma mult_zero_loop:
  assumes "length bs + length cs \<le> m"
  shows "mult_loop (AssignZero m) 0 bs cs = Some (nn_of m (nn_val bs * nn_val cs))"
proof -
  have "AssignZero m = [] @ replicate (length cs) 0 @ replicate (m - length cs) 0"
    using assms by (simp add: AssignZero_def replicate_add [symmetric])
  then obtain t where "mult_loop (AssignZero m) 0 bs cs = Some t" "length t = m" "nn_val t = nn_val bs * nn_val cs"
    using mult_loop_val [of "replicate (length cs) 0" cs bs "m - length cs" "[]"] assms(1)
    by (simp add: le_diff_conv2 add.commute) metis
  then show ?thesis using nn_ofI by metis
qed

lemma Mult_val:
  assumes "length bs = n" "length cs = n" "n \<le> 6"
  shows "Mult bs cs n = Some (nn_of (2 * n) (nn_val bs * nn_val cs))"
proof -
  have n: "n \<le> 128" using assms by simp
  obtain k xs where x: "Digits bs n = Some k" "k \<le> n" "xs = take k bs" "length xs = k" "nn_val xs = nn_val bs"
    using Digits_spec [OF assms(1) n] by blast
  obtain l ys where y: "Digits cs n = Some l" "l \<le> n" "ys = take l cs" "length ys = l" "nn_val ys = nn_val cs"
    using Digits_spec [OF assms(2) n] by blast
  show ?thesis using x y assms mult_zero_loop [of xs ys "2 * n"]
    by (simp add: Mult_def nn_room_def rd_prefix)
qed

lemma Sqr_val:
  assumes "length bs = n" "n \<le> 5"
  shows "Sqr bs n = Some (nn_of (2 * n) (nn_val bs * nn_val bs))"
proof -
  have n: "n \<le> 128" using assms by simp
  obtain k xs where x: "Digits bs n = Some k" "k \<le> n" "xs = take k bs" "length xs = k" "nn_val xs = nn_val bs"
    using Digits_spec [OF assms(1) n] by blast
  show ?thesis using x assms mult_zero_loop [of xs xs "2 * n"]
    by (simp add: Sqr_def nn_room_def rd_prefix)
qed

end
