(* ===== verification/Multi_Precision_Division.thy ===== *)
theory Multi_Precision_Division
  imports Multi_Precision_Correct
begin

text \<open>
  The long division of \<open>Multi_Precision\<close>: the estimate of a digit is never too great, the loop that corrects
  it ends, and quotient and remainder are those of the natural numbers.
\<close>

section \<open>A window of the dividend\<close>

lemma window_rd:
  assumes "length pre = i" "length xs = n"
  shows "rd_bytes (pre @ xs @ post) i n = Some xs" "rd (pre @ xs @ h # post) (i + n) = Some h"
    "length ys = n \<Longrightarrow> memcpy (pre @ xs @ post) i ys = Some (pre @ ys @ post)"
    "wr (pre @ xs @ h # post) (i + n) h' = Some (pre @ xs @ h' # post)"
  using assms by (auto simp: rd_bytes_def rd_def memcpy_def wr_def nth_append list_update_append)

lemma window_ge:
  assumes "length xs = length dd"
  shows "h \<noteq> 0 \<or> nn_val xs \<ge> nn_val dd \<longleftrightarrow> nn_val dd \<le> nn_val (xs @ [h])"
proof (cases "h = 0")
  case False
  then have "1 \<le> unat h" by (simp add: Suc_leI unat_gt_0)
  then have "NN ^ length xs * 1 \<le> NN ^ length xs * unat h" by (rule mult_le_mono2)
  then show ?thesis using False nn_val_less [of dd] unfolding assms nn_val_snoc by linarith
qed (simp add: nn_val_snoc)

text \<open>Taking an amount away from a window, digits first and then the borrow.\<close>

lemma window_sub:
  assumes "nn_val ys + a = nn_val xs + NN ^ n * unat k" "length xs = n" "length ys = n" "a \<le> nn_val (xs @ [h])"
  shows "nn_val (ys @ [h - k]) = nn_val (xs @ [h]) - a"
proof -
  have "NN ^ n * unat k \<le> nn_val ys + NN ^ n * unat h" using assms by (simp add: nn_val_snoc)
  also have "\<dots> < NN ^ n * (unat h + 1)" using nn_val_less [of ys] assms(3) by simp
  finally have "unat k < unat h + 1" by (rule mult_less_cancel1 [THEN iffD1, THEN conjunct2])
  then have "unat k \<le> unat h" by simp
  then obtain j where j: "unat h = unat k + j" by (metis le_add_diff_inverse)
  then have "unat (h - k) = j" by (simp add: unat_sub_if')
  then show ?thesis using assms(1-3) j by (simp add: nn_val_snoc algebra_simps)
qed

lemma div_fix_val:
  assumes "length pre = i" "length xs = length dd" "0 < nn_val dd" and dd: "length dd \<le> 128"
  shows "\<exists>ys. div_fix (pre @ xs @ h # post) i dd ai = Some (pre @ ys @ 0 # post, ai + word_of_nat (nn_val (xs @ [h]) div nn_val dd)) \<and>
    length ys = length dd \<and> nn_val ys = nn_val (xs @ [h]) mod nn_val dd"
  using assms(2)
proof (induction "nn_val (xs @ [h])" arbitrary: xs h ai rule: less_induct)
  case less
  note w = window_rd [OF assms(1) less.prems]
  have c: "Cmp xs dd (length dd) = Some (cmp_nat (nn_val xs) (nn_val dd))" using less.prems dd by (intro Cmp_val) simp_all
  show ?case
  proof (cases "nn_val dd \<le> nn_val (xs @ [h])")
    case True
    obtain ys k where r: "sub_loop 0 xs dd = (ys, k)" by force
    have s: "Sub xs dd (length dd) = Some (ys, k)" "length ys = length dd" "nn_val ys + nn_val dd = nn_val xs + NN ^ length dd * unat k"
      using sub_loop_val [OF less.prems _ r] less.prems r by (simp_all add: Sub_def)
    have v: "nn_val (ys @ [h - k]) = nn_val (xs @ [h]) - nn_val dd"
      using window_sub [OF s(3) less.prems s(2) True] .
    then have smaller: "nn_val (ys @ [h - k]) < nn_val (xs @ [h])" using True assms(3) by simp
    have "div_fix (pre @ xs @ h # post) i dd ai = div_fix (pre @ ys @ (h - k) # post) i dd (ai + 1)"
      using True window_ge [OF less.prems, of h] s c
      by (subst div_fix.simps) (simp add: w window_rd [OF assms(1) s(2)])
    moreover have "nn_val (xs @ [h]) div nn_val dd = Suc ((nn_val (xs @ [h]) - nn_val dd) div nn_val dd)"
      "(nn_val (xs @ [h]) - nn_val dd) mod nn_val dd = nn_val (xs @ [h]) mod nn_val dd"
      using True assms(3) by (simp_all add: le_div_geq le_mod_geq)
    ultimately show ?thesis using less.hyps [OF smaller s(2), of "ai + 1"] v by (simp add: algebra_simps)
  next
    case False
    then have "h = 0" "\<not> nn_val xs \<ge> nn_val dd" using window_ge [OF less.prems, of h] by auto
    then show ?thesis using c less.prems False
      by (subst div_fix.simps) (simp add: w nn_val_snoc)
  qed
qed

section \<open>One digit\<close>

lemma DigitDiv_val:
  assumes "unat b1 * NN + unat b0 < NN * unat c" "c \<noteq> 0"
  shows "unat (DigitDiv b0 b1 c) = (unat b1 * NN + unat b0) div unat c"
proof -
  have b: "unat (ucast b1 :: 64 word) = unat b1" "unat (ucast b0 :: 64 word) = unat b0" "unat (ucast c :: 64 word) = unat c"
    using unat_digit [of b1] unat_digit [of b0] unat_digit [of c] by (simp_all add: unsigned_ucast_eq take_bit_nat_eq_self)
  have "take_bit 32 (ucast b0 :: 64 word) = ucast b0"
    using b(2) unat_digit [of b0] by (intro unsigned_word_eqI [where 'a = nat]) (simp only: unsigned_take_bit_eq, simp add: take_bit_nat_eq_self)
  then have "\<forall>k. bit (ucast b0 :: 64 word) k \<longrightarrow> k < 32" by (metis bit_take_bit_iff)
  then have d: "\<not> bit (push_bit 32 (ucast b1 :: 64 word)) k \<or> \<not> bit (ucast b0 :: 64 word) k" for k
    unfolding bit_push_bit_iff by (meson leD)
  then have "push_bit 32 (ucast b1 :: 64 word) XOR ucast b0 = push_bit 32 (ucast b1) OR ucast b0"
    by (intro bit_eqI) (simp only: bit_xor_iff bit_or_iff, blast)
  also have "\<dots> = push_bit 32 (ucast b1) + ucast b0" by (rule disjunctive_add [symmetric]) (rule d)
  finally have "push_bit 32 (ucast b1 :: 64 word) XOR ucast b0 = push_bit 32 (ucast b1) + ucast b0" .
  then have t: "unat (push_bit 32 (ucast b1 :: 64 word) XOR ucast b0) = unat b1 * NN + unat b0"
    using b unat_digit [of b1] unat_digit [of b0]
    by (simp add: push_bit_eq_mult unat_word_ariths mult.commute)
  have "(unat b1 * NN + unat b0) div unat c < NN" using assms by (simp add: less_mult_imp_div_less)
  then show ?thesis unfolding DigitDiv_def Let_def
    by (simp only: unsigned_ucast_eq) (simp only: unat_div t b, simp add: take_bit_nat_eq_self)
qed


text \<open>The estimate with the top digit \<open>t\<close> of the divisor.\<close>

lemma div_estimate_le:
  assumes pre: "length pre = i" "length xs = length dd" "dd \<noteq> []" and R: "nn_val (xs @ [h]) < NN * nn_val dd"
  shows "\<exists>ai. div_estimate (pre @ xs @ h # post) i (length dd) (List.last dd) = Some ai \<and> unat ai * nn_val dd \<le> nn_val (xs @ [h])"
proof -
  obtain ds t where dd: "dd = ds @ [t]" using pre(3) by (cases dd rule: rev_cases) auto
  obtain xs' x where xs: "xs = xs' @ [x]" "length xs' = length ds"
    using pre(2) dd by (cases xs rule: rev_cases) auto
  let ?P = "NN ^ length ds"
  have D: "nn_val dd < ?P * (unat t + 1)" using nn_val_less [of ds] by (simp add: dd nn_val_snoc algebra_simps)
  have Rval: "nn_val (xs @ [h]) = nn_val xs' + ?P * (unat x + NN * unat h)"
    using xs by (simp add: nn_val_append algebra_simps)
  have "?P * (NN * unat h) < ?P * (NN * (unat t + 1))"
  proof -
    have "?P * (NN * unat h) \<le> nn_val (xs @ [h])" using Rval by (simp add: algebra_simps)
    also have "\<dots> < NN * nn_val dd" by (rule R)
    also have "\<dots> \<le> NN * (?P * (unat t + 1))" using D by simp
    finally show ?thesis unfolding mult.left_commute [of NN ?P] .
  qed
  then have "NN * unat h < NN * (unat t + 1)" by (rule mult_less_cancel1 [THEN iffD1, THEN conjunct2])
  then have ht: "unat h \<le> unat t" by simp
  have rd: "rd (pre @ xs @ h # post) (i + length dd - 1) = Some x" "rd (pre @ xs @ h # post) (i + length dd) = Some h"
    using pre xs dd by (simp_all add: rd_def nth_append)
  show ?thesis
  proof (cases "t = MAX_NN_DIGIT")
    case True
    have "nn_val dd \<le> ?P * NN" using D True by simp
    then have "unat h * nn_val dd \<le> unat h * (?P * NN)" by (rule mult_le_mono2)
    also have "\<dots> \<le> nn_val (xs @ [h])" unfolding Rval by (simp add: algebra_simps)
    finally show ?thesis using rd(2) True by (simp add: div_estimate_def dd)
  next
    case False
    have "unat t = NN - 1 \<Longrightarrow> t = MAX_NN_DIGIT" by (rule unsigned_word_eqI [where 'a = nat]) simp
    then have "unat t \<noteq> NN - 1" using False by blast
    then have "unat (t + 1) = unat t + 1" using unat_digit [of t] by (simp add: unat_plus_if')
    moreover from this have "t + 1 \<noteq> 0" by auto
    moreover have "unat h * NN + unat x < NN * (unat t + 1)" using ht unat_digit [of x] by simp
    ultimately have q: "unat (DigitDiv x h (t + 1)) = (unat h * NN + unat x) div (unat t + 1)"
      using DigitDiv_val [of h x "t + 1"] by simp
    have "unat (DigitDiv x h (t + 1)) * (unat t + 1) \<le> unat h * NN + unat x" unfolding q by (rule div_times_less_eq_dividend)
    then have "?P * (unat (DigitDiv x h (t + 1)) * (unat t + 1)) \<le> ?P * (unat h * NN + unat x)" by (rule mult_le_mono2)
    moreover have "unat (DigitDiv x h (t + 1)) * nn_val dd \<le> unat (DigitDiv x h (t + 1)) * (?P * (unat t + 1))"
      using D by (intro mult_le_mono2) simp
    ultimately have "unat (DigitDiv x h (t + 1)) * nn_val dd \<le> ?P * (unat h * NN + unat x)" by (simp add: algebra_simps)
    also have "\<dots> \<le> nn_val (xs @ [h])" unfolding Rval by (simp add: algebra_simps)
    finally show ?thesis using rd False by (simp add: div_estimate_def dd)
  qed
qed

lemma div_digit_val:
  assumes pre: "length pre = i" "length xs = length dd" "dd \<noteq> []" "length dd \<le> 128" and R: "nn_val (xs @ [h]) < NN * nn_val dd"
  shows "\<exists>ys ai. div_digit (pre @ xs @ h # post) i dd (List.last dd) = Some (pre @ ys @ 0 # post, ai) \<and> length ys = length dd \<and>
    nn_val ys = nn_val (xs @ [h]) mod nn_val dd \<and> unat ai = nn_val (xs @ [h]) div nn_val dd"
proof -
  let ?R = "nn_val (xs @ [h])" and ?D = "nn_val dd"
  have D: "0 < ?D" using R by simp
  obtain a where a: "div_estimate (pre @ xs @ h # post) i (length dd) (List.last dd) = Some a" "unat a * ?D \<le> ?R"
    using div_estimate_le [OF pre(1-3) R, of post] by blast
  obtain ys k where m: "SubDigitMult xs a dd = (ys, k)" by force
  note ys = SubDigitMult_val [OF pre(2) m]
  have v: "nn_val (ys @ [h - k]) = ?R - unat a * ?D"
    using window_sub [of ys "unat a * ?D" xs "length dd" k h] ys pre(2) a(2) by simp
  have "length ys = length dd" using ys(1) pre(2) by simp
  from div_fix_val [OF pre(1) this D pre(4), of "h - k" post a]
  obtain zs where zs: "div_fix (pre @ ys @ (h - k) # post) i dd a = Some (pre @ zs @ 0 # post, a + word_of_nat ((?R - unat a * ?D) div ?D))"
      "length zs = length dd" "nn_val zs = (?R - unat a * ?D) mod ?D" unfolding v by blast
  obtain r where r: "?R = unat a * ?D + r" using a(2) le_Suc_ex by blast
  have q: "?R div ?D = unat a + r div ?D" "?R mod ?D = r mod ?D" unfolding r using D by simp_all
  have "?R div ?D < NN" using R D by (simp add: less_mult_imp_div_less)
  then have "unat (a + word_of_nat (r div ?D)) = ?R div ?D"
    unfolding q by (simp add: unat_plus_if' unat_of_nat_digit)
  then show ?thesis
    using a(1) m ys(1) pre zs q(2) r window_rd [OF pre(1,2)] window_rd [OF pre(1) \<open>length ys = length dd\<close>]
    by (simp add: div_digit_def)
qed

lemma div_loop_val:
  assumes "length xs = length dd" "dd \<noteq> []" "length dd \<le> 128" "nn_val xs < nn_val dd" "length pre \<le> length q"
  shows "\<exists>ys post' qs. div_loop (pre @ xs @ post) (length pre) dd (List.last dd) q = Some (ys @ post', qs @ drop (length pre) q) \<and>
    length ys = length dd \<and> length qs = length pre \<and>
    nn_val ys = nn_val (pre @ xs) mod nn_val dd \<and> nn_val qs = nn_val (pre @ xs) div nn_val dd"
  using assms(1,4,5)
proof (induction pre arbitrary: xs post q rule: rev_induct)
  case Nil
  then show ?case by (intro exI [of _ xs] exI [of _ post] exI [of _ "[]"]) simp
next
  case (snoc p pre)
  let ?D = "nn_val dd"
  obtain us h where u: "p # xs = us @ [h]" "length us = length dd"
    using snoc.prems(1) by (metis length_Cons length_append_singleton list.distinct(1) nat.inject rev_exhaust)
  have R: "nn_val (us @ [h]) = unat p + NN * nn_val xs" unfolding u(1) [symmetric] by simp
  have "NN * (nn_val xs + 1) \<le> NN * ?D" using snoc.prems(2) by (intro mult_le_mono2) simp
  then have "nn_val (us @ [h]) < NN * ?D" using R unat_digit [of p] by simp
  from div_digit_val [OF refl u(2) assms(2,3) this, of pre post]
  obtain ys ai where d: "div_digit (pre @ us @ h # post) (length pre) dd (List.last dd) = Some (pre @ ys @ 0 # post, ai)"
      "length ys = length dd" "nn_val ys = nn_val (us @ [h]) mod ?D" "unat ai = nn_val (us @ [h]) div ?D" by blast
  have same: "(pre @ [p]) @ xs @ post = pre @ us @ h # post"
    using arg_cong [OF u(1), of "\<lambda>l. pre @ l @ post"] by simp
  let ?q = "q[length pre := ai]"
  have "0 < ?D" using snoc.prems(2) by simp
  then have less: "nn_val ys < ?D" using d(3) by simp
  have lq: "length pre \<le> length ?q" using snoc.prems(3) by simp
  from snoc.IH [OF d(2) less lq, of "0 # post"]
  obtain zs post' qs where IH: "div_loop (pre @ ys @ 0 # post) (length pre) dd (List.last dd) ?q = Some (zs @ post', qs @ drop (length pre) ?q)"
      "length zs = length dd" "length qs = length pre" "nn_val zs = nn_val (pre @ ys) mod ?D" "nn_val qs = nn_val (pre @ ys) div ?D" by blast
  have "drop (length pre) ?q = ai # drop (Suc (length pre)) q"
    using snoc.prems(3) by (simp add: Cons_nth_drop_Suc [symmetric] drop_update_cancel)
  then have run: "div_loop ((pre @ [p]) @ xs @ post) (length (pre @ [p])) dd (List.last dd) q = Some (zs @ post', (qs @ [ai]) @ drop (length (pre @ [p])) q)"
    unfolding same using d(1) IH(1) snoc.prems(3) by (simp add: wr_def)
  have V: "nn_val ((pre @ [p]) @ xs) = nn_val pre + NN ^ length pre * nn_val (us @ [h])"
    using R by (simp add: nn_val_append)
  have e: "nn_val (us @ [h]) = unat ai * ?D + nn_val ys" using d(3,4) by simp
  have V2: "nn_val ((pre @ [p]) @ xs) = nn_val (pre @ ys) + NN ^ length pre * unat ai * ?D"
    unfolding V e nn_val_append [of pre ys] by (simp add: algebra_simps)
  have "nn_val ((pre @ [p]) @ xs) mod ?D = nn_val (pre @ ys) mod ?D" unfolding V2 by simp
  moreover have "nn_val ((pre @ [p]) @ xs) div ?D = nn_val (pre @ ys) div ?D + NN ^ length pre * unat ai"
    unfolding V2 using \<open>0 < ?D\<close> by simp
  moreover have "nn_val (qs @ [ai]) = nn_val qs + NN ^ length pre * unat ai" using IH(3) by (simp add: nn_val_snoc)
  ultimately show ?case using run IH by (intro exI [of _ zs] exI [of _ post'] exI [of _ "qs @ [ai]"]) simp
qed


section \<open>The whole division\<close>

lemma NN_split: "s \<le> 32 \<Longrightarrow> 2 ^ s * 2 ^ (32 - s) = NN"
  by (simp add: power_add [symmetric])

text \<open>The divisor is shifted until its top bit is set.\<close>

lemma normalized:
  assumes "length ds = k" "k > 0" "ds ! (k - 1) \<noteq> 0"
  defines "s \<equiv> 32 - DigitBits (ds ! (k - 1))"
  obtains dd where "LShift ds s k = Some (dd, 0)" "length dd = k" "nn_val dd = 2 ^ s * nn_val ds" "s < 32" "NN ^ (k - 1) * 2 ^ 31 \<le> nn_val dd"
proof -
  let ?t = "ds ! (k - 1)"
  obtain us where us: "ds = us @ [?t]" "length us = k - 1"
    using assms(1,2) by (metis append_butlast_last_id last_conv_nth length_0_conv length_butlast less_irrefl)
  note t = DigitBits_bounds [OF assms(3)]
  have s: "s < 32" "s \<le> 32" using t(3) by (simp_all add: s_def)
  have bits: "DigitBits ?t = 32 - s" "DigitBits ?t - 1 = 31 - s" using t(4) by (simp_all add: s_def)
  have val: "nn_val ds = nn_val us + NN ^ (k - 1) * unat ?t" using us by (metis nn_val_snoc)
  have "nn_val ds < NN ^ (k - 1) * (unat ?t + 1)" using nn_val_less [of us] us(2) unfolding val by simp
  also have "\<dots> \<le> NN ^ (k - 1) * 2 ^ (32 - s)" using t(1) unfolding bits by (intro mult_le_mono2) simp
  finally have "2 ^ s * nn_val ds < 2 ^ s * (NN ^ (k - 1) * 2 ^ (32 - s))" by (simp only: mult_less_cancel1) simp
  also have "\<dots> = NN ^ k" using NN_split [OF s(2)] assms(2) by (cases k) (simp_all add: algebra_simps)
  finally have up: "2 ^ s * nn_val ds < NN ^ k" .
  obtain dd c where dd: "LShift ds s k = Some (dd, c)" "length dd = k" "nn_val dd + NN ^ k * unat c = 2 ^ s * nn_val ds"
    using LShift_val [OF assms(1) s(1)] by metis
  have "c = 0" using dd(3) up by (cases "unat c") (auto simp: unat_eq_0)
  have "NN ^ (k - 1) * 2 ^ 31 = 2 ^ s * (NN ^ (k - 1) * 2 ^ (31 - s))" using s by (simp add: power_add [symmetric])
  also have "\<dots> \<le> 2 ^ s * nn_val ds" using t(2) unfolding bits val by (simp add: le_add2 mult_le_mono2 trans_le_add2)
  finally show thesis using that [of dd] dd s \<open>c = 0\<close> by simp
qed

lemma Div_by_0: "length ds = n \<Longrightarrow> n \<le> 128 \<Longrightarrow> nn_val ds = 0 \<Longrightarrow> Div cs m ds n = Some None"
proof -
  assume "length ds = n" "n \<le> 128" "nn_val ds = 0"
  obtain k where k: "Digits ds n = Some k" "k \<le> n" "k > 0 \<Longrightarrow> ds ! (k - 1) \<noteq> 0" using Digits_spec [OF \<open>length ds = n\<close> \<open>n \<le> 128\<close>] by metis
  have "k = 0"
  proof (rule ccontr)
    assume "k \<noteq> 0"
    then have "ds ! (k - 1) \<in> set ds" "ds ! (k - 1) \<noteq> 0" using k \<open>length ds = n\<close> by simp_all
    then show False using \<open>nn_val ds = 0\<close> by (auto simp: nn_eq_0 list_all_iff)
  qed
  then show ?thesis using k(1) by (simp add: Div_def)
qed

lemma Div_val:
  assumes cs: "length cs = m" "m \<le> 11" and ds: "length ds = n" "n \<le> 6" "nn_val ds \<noteq> 0"
  shows "Div cs m ds n = Some (Some (nn_of m (nn_val cs div nn_val ds), nn_of n (nn_val cs mod nn_val ds)))"
proof -
  have n: "n \<le> 128" using ds(2) by simp
  obtain k xs where k: "Digits ds n = Some k" "k \<le> n" "xs = take k ds" "length xs = k" "nn_val xs = nn_val ds" "k > 0 \<Longrightarrow> ds ! (k - 1) \<noteq> 0"
    using Digits_spec [OF ds(1) n] by metis
  have pos: "k > 0" using k(4,5) ds(3) by (cases k) simp_all
  have top: "xs ! (k - 1) = ds ! (k - 1)" using k(3) pos by simp
  define s where "s = 32 - DigitBits (ds ! (k - 1))"
  obtain dd where dd: "LShift xs s k = Some (dd, 0)" "length dd = k" "nn_val dd = 2 ^ s * nn_val ds" "s < 32" "NN ^ (k - 1) * 2 ^ 31 \<le> nn_val dd"
    using normalized [OF k(4) pos] k(5,6) pos unfolding top s_def by metis
  have dd1: "LShift ds s k = Some (dd, 0)" using dd(1,4) k(1-4) ds(1) by (simp add: LShift_def rd_prefix)
  have ne: "dd \<noteq> []" using dd(2) pos by auto
  then have t: "dd ! (k - 1) = List.last dd" "k - 1 < length dd" using dd(2) pos by (simp_all add: last_conv_nth)
  obtain cc c where cc: "LShift cs s m = Some (cc, c)" "length cc = m" "unat c < 2 ^ s" "nn_val cc + NN ^ m * unat c = 2 ^ s * nn_val cs"
    using LShift_val [OF cs(1) dd(4)] by metis
  let ?cc = "cc @ c # AssignZero (k - (m + 1))" and ?C = "nn_val cs" and ?D = "nn_val ds"
  have V: "nn_val ?cc = 2 ^ s * ?C" using cc by (simp add: nn_val_append AssignZero_def)
  have small_dd: "length dd \<le> 128" using dd(2) k(2) ds(2) by simp
  define p where "p = (if k \<le> m then Suc (m - k) else 0)"
  have pm: "p \<le> m" using pos unfolding p_def by auto
  have len: "length ?cc = p + k" using cc(2) pos by (simp add: p_def AssignZero_def)
  define pre where "pre = take p ?cc"
  define us where "us = drop p ?cc"
  have split: "?cc = pre @ us @ []" "length pre = p" "length us = length dd"
    using len dd(2) append_take_drop_id [of p ?cc] unfolding pre_def us_def by (simp_all only: append_Nil2 length_take length_drop)
  have V': "nn_val pre + NN ^ p * nn_val us = 2 ^ s * ?C" using V unfolding split(1) nn_val_append append_Nil2 split(2) .
  have "?C < NN ^ m" using nn_val_less [of cs] cs(1) by simp
  have small: "nn_val us < nn_val dd"
  proof (cases "k \<le> m")
    case True
    then have "p + (k - 1) = m" using pos by (simp add: p_def)
    then have "NN ^ m = NN ^ p * NN ^ (k - 1)" using power_add [of NN p "k - 1"] by simp
    have "NN ^ p * nn_val us \<le> 2 ^ s * ?C" using V' by linarith
    also have "\<dots> < 2 ^ s * NN ^ m" using \<open>?C < NN ^ m\<close> by simp
    also have "\<dots> = NN ^ p * (2 ^ s * NN ^ (k - 1))" unfolding \<open>NN ^ m = _\<close> by (rule mult.left_commute)
    finally have "nn_val us < 2 ^ s * NN ^ (k - 1)" by (rule mult_less_cancel1 [THEN iffD1, THEN conjunct2])
    also have "\<dots> \<le> 2 ^ 31 * NN ^ (k - 1)" using dd(4) by (intro mult_le_mono1 power_increasing) simp_all
    finally show ?thesis using dd(5) by (simp add: mult.commute)
  next
    case False
    then have "m \<le> k - 1" by simp
    then have "NN ^ m \<le> NN ^ (k - 1)" by (intro power_increasing) simp_all
    have "NN ^ (k - 1) \<le> ?D"
    proof -
      have "NN ^ (k - 1) * 2 ^ 31 \<le> 2 ^ s * ?D" using dd(3,5) by simp
      also have "\<dots> \<le> 2 ^ 31 * ?D" using dd(4) by (intro mult_le_mono1 power_increasing) simp_all
      finally show ?thesis by simp
    qed
    then have "?C < ?D" using \<open>?C < NN ^ m\<close> \<open>NN ^ m \<le> NN ^ (k - 1)\<close> by linarith
    moreover have "pre = []" using False split(2) by (simp add: p_def)
    moreover have "p = 0" using False by (simp add: p_def)
    ultimately show ?thesis using V' dd(3) by simp
  qed
  have "length pre \<le> length (AssignZero m)" using split(2) pm by (simp add: AssignZero_def)
  note loop = div_loop_val [OF split(3) ne small_dd small this, of "[]"]
  have same: "pre @ us @ [] = ?cc" "pre @ us = ?cc" using split(1) by simp_all
  from loop
  obtain ys post qs where run: "div_loop ?cc p dd (List.last dd) (AssignZero m) = Some (ys @ post, qs @ drop p (AssignZero m))"
      "length ys = length dd" "length qs = p" "nn_val ys = nn_val ?cc mod nn_val dd" "nn_val qs = nn_val ?cc div nn_val dd"
    unfolding same split(2) by (elim exE conjE) (rule that)
  have v: "nn_val ys = 2 ^ s * (?C mod ?D)" "nn_val qs = ?C div ?D" using run(4,5) unfolding V dd(3) by simp_all
  have q: "qs @ drop p (AssignZero m) = nn_of m (?C div ?D)"
    using run(3) pm v(2) by (intro nn_ofI) (simp_all add: nn_val_append AssignZero_def drop_replicate)
  obtain j where j: "RShift (ys @ post) s k = Some (nn_of k (?C mod ?D), j)"
    using RShift_val [of ys k s] run(2) dd(2,4) v(1) small_dd by (auto simp: RShift_def rd_bytes_def)
  have "?C mod ?D < NN ^ k"
    using nn_val_less [of xs] k(4,5) ds(3) by (metis mod_less_divisor not_gr_zero order.strict_trans)
  then have b: "nn_of k (?C mod ?D) @ AssignZero (n - k) = nn_of n (?C mod ?D)"
    using k(2) by (intro nn_ofI) (simp_all add: nn_val_append AssignZero_def nn_val_of_less)
  have "rd ds (k - 1) = Some (ds ! (k - 1))" using k(2) pos ds(1) by (simp add: rd_def)
  then show ?thesis
    using k(1,2) pos cs ds dd1 t cc(1) run(1) q j b unfolding p_def s_def
    by (simp add: Div_def nn_room_def rd_def)
qed

end
