(* ===== verification/Modular_Correct.thy ===== *)
theory Modular_Correct
  imports Modular Multi_Precision_Division
begin

text \<open>
  The operations of \<open>Modular\<close> compute what their names say: sums, differences, products, powers, divisors, inverses,
  quotients and square roots modulo a number, and where they do not.
\<close>

unbundle bit_operations_syntax

section \<open>Sums, differences and products\<close>

lemma Mod_val:
  assumes "length cs = m" "m \<le> 11" "length ds = n" "n \<le> 6" "nn_val ds \<noteq> 0"
  shows "Mod a cs m ds n = Some (nn_of n (nn_val cs mod nn_val ds))"
  using Div_val [OF assms] by (simp add: Mod_def)

lemma ModAdd_val:
  assumes "length bs = n" "length cs = n" "length ds = n" "n \<le> 5" "nn_val bs < nn_val ds" "nn_val cs < nn_val ds"
  shows "ModAdd bs cs ds n = Some (nn_of n ((nn_val bs + nn_val cs) mod nn_val ds))"
proof -
  let ?s = "nn_val bs + nn_val cs" and ?d = "nn_val ds"
  have d: "?d < NN ^ n" "?s < 2 * ?d" using nn_val_less [of ds] assms by simp_all
  have m: "?s mod ?d = (if ?s < ?d then ?s else ?s - ?d)"
    using d(2) by (simp add: mod_if [of ?s] le_mod_geq)
  show ?thesis
  proof (cases "?s < NN ^ n")
    case True
    then show ?thesis using assms m by (simp add: ModAdd_def nn_room_def Add_val Cmp_val nn_val_of_less Sub_le Assign_def)
  next
    case False
    have "?s mod NN ^ n = ?s - NN ^ n" using False d by (simp add: mod_if [of ?s] le_mod_geq)
    then have "(?s mod NN ^ n + NN ^ n - ?d) = ?s - ?d" using False by simp
    then show ?thesis using assms m False d by (simp add: ModAdd_def nn_room_def Add_val Sub_val nn_val_of)
  qed
qed

lemma ModSub_val:
  assumes "length bs = n" "length cs = n" "length ds = n" "n \<le> 5" "nn_val bs < nn_val ds" "nn_val cs < nn_val ds"
  shows "ModSub bs cs ds n = Some (nn_of n ((nn_val bs + nn_val ds - nn_val cs) mod nn_val ds))"
proof (cases "nn_val cs \<le> nn_val bs")
  case True
  then have e: "nn_val bs + nn_val ds - nn_val cs = (nn_val bs - nn_val cs) + nn_val ds" by simp
  have "(nn_val bs + nn_val ds - nn_val cs) mod nn_val ds = nn_val bs - nn_val cs"
    unfolding e mod_add_self2 using assms(5) by (intro mod_less) simp
  then show ?thesis using assms True by (simp add: ModSub_def nn_room_def Sub_le Assign_def)
next
  case False
  let ?x = "nn_val bs + NN ^ n - nn_val cs"
  have d: "nn_val ds < NN ^ n" using nn_val_less [of ds] assms by simp
  then have x: "?x < NN ^ n" using False assms by simp
  have "nn_of n (?x + nn_val ds) = nn_of n (nn_val bs + nn_val ds - nn_val cs)"
  proof (intro nn_val_inj)
    have "?x + nn_val ds = (nn_val bs + nn_val ds - nn_val cs) + NN ^ n" using False d assms by simp
    then show "nn_val (nn_of n (?x + nn_val ds)) = nn_val (nn_of n (nn_val bs + nn_val ds - nn_val cs))"
      unfolding nn_val_of by simp
  qed simp
  moreover have "(nn_val bs + nn_val ds - nn_val cs) mod nn_val ds = nn_val bs + nn_val ds - nn_val cs"
    using False assms by simp
  ultimately show ?thesis using False assms x by (simp add: ModSub_def nn_room_def Sub_val Add_val nn_val_of_less)
qed

lemma ModMult_val:
  assumes "length bs = n" "length cs = n" "length ds = n" "n \<le> 5" "nn_val ds \<noteq> 0"
  shows "ModMult a bs cs ds n = Some (nn_of n (nn_val bs * nn_val cs mod nn_val ds))"
proof -
  have "nn_val bs * nn_val cs < NN ^ n * NN ^ n"
    using nn_val_less [of bs] nn_val_less [of cs] assms(1,2) by (intro mult_strict_mono) simp_all
  then have "nn_val bs * nn_val cs < NN ^ (2 * n)" by (simp add: mult_2 power_add)
  then show ?thesis using assms by (simp add: ModMult_def nn_room_def Mult_val Mod_val nn_val_of_less)
qed

lemma ModSqr_val:
  assumes "length bs = n" "length ds = n" "n \<le> 5" "nn_val ds \<noteq> 0"
  shows "ModSqr a bs ds n = Some (nn_of n (nn_val bs * nn_val bs mod nn_val ds))"
    "ModSqrOpt a bs ds omega n = Some (nn_of n (nn_val bs * nn_val bs mod nn_val ds))"
proof -
  have "nn_val bs * nn_val bs < NN ^ n * NN ^ n"
    using nn_val_less [of bs] assms(1) by (intro mult_strict_mono) simp_all
  then have "nn_val bs * nn_val bs < NN ^ (2 * n)" by (simp add: mult_2 power_add)
  moreover obtain k where "Digits bs n = Some k" using Digits_spec [OF assms(1)] assms(3) by fastforce
  ultimately show "ModSqr a bs ds n = Some (nn_of n (nn_val bs * nn_val bs mod nn_val ds))"
    "ModSqrOpt a bs ds omega n = Some (nn_of n (nn_val bs * nn_val bs mod nn_val ds))"
    using assms by (simp_all add: ModSqr_def ModSqrOpt_def Sqr_val Mod_val nn_val_of_less)
qed

lemmas mod_vals = ModAdd_val ModSub_val ModMult_val ModSqr_val

text \<open>The negative of 0 is the modulus itself, and a multiple of the modulus is reduced to the modulus.\<close>

lemma ModNeg_val:
  assumes "length bs = n" "length cs = n" "n \<le> 5" "nn_val bs \<le> nn_val cs"
  shows "ModNeg bs cs n = Some (nn_of n (nn_val cs - nn_val bs))"
  using assms by (simp add: ModNeg_def ModSub_def nn_room_def Sub_le Assign_def)

lemma ModSmall_val:
  assumes "length bs = n" "length cs = n" "0 < nn_val cs" "n \<le> 128"
  shows "ModSmall bs cs n = Some (nn_of n (if nn_val bs = 0 then 0 else (nn_val bs - 1) mod nn_val cs + 1))"
  using assms(1)
proof (induction "nn_val bs" arbitrary: bs rule: less_induct)
  case less
  have c: "Cmp bs cs n = Some (cmp_nat (nn_val bs) (nn_val cs))" using less.prems assms(2,4) by (rule Cmp_val)
  show ?case
  proof (cases "nn_val bs > nn_val cs")
    case True
    have s: "Sub bs cs n = Some (nn_of n (nn_val bs - nn_val cs), 0)" using less.prems assms(2) True by (intro Sub_le) simp_all
    have "nn_val bs - nn_val cs < NN ^ n" using nn_val_less [of bs] less.prems by simp
    then have v: "nn_val (nn_of n (nn_val bs - nn_val cs)) = nn_val bs - nn_val cs" by (rule nn_val_of_less)
    have "(nn_val bs - nn_val cs - 1) mod nn_val cs = (nn_val bs - 1) mod nn_val cs"
      using True le_mod_geq [of "nn_val cs" "nn_val bs - 1"] diff_commute [of "nn_val bs" "nn_val cs" 1] by simp
    then show ?thesis using less.hyps [of "nn_of n (nn_val bs - nn_val cs)"] True v c s assms(3)
      by (subst ModSmall.simps) simp
  next
    case False
    then have "nn_val bs \<noteq> 0 \<Longrightarrow> (nn_val bs - 1) mod nn_val cs = nn_val bs - 1" by (intro mod_less) simp
    then have "nn_val bs = 0 \<or> (nn_val bs - 1) mod nn_val cs + 1 = nn_val bs" by (cases "nn_val bs") auto
    then show ?thesis using False c less.prems nn_of_val [OF less.prems] by (subst ModSmall.simps) auto
  qed
qed


section \<open>Powers\<close>

lemma and_3: "x AND 3 = take_bit 2 (x :: u32)"
  by (simp add: take_bit_eq_mask mask_eq_exp_minus_1)

lemma DIGIT_2MSB_val: "unat (DIGIT_2MSB x) = unat x div 2 ^ 30"
proof -
  have "unat x div 2 ^ 30 < 4" using unat_digit [of x] by simp
  then show ?thesis unfolding DIGIT_2MSB_def and_3 unsigned_take_bit_eq by (simp add: unat_drop take_bit_eq_mod)
qed

lemma push_2_val: "unat (push_bit 2 (x :: u32)) = 4 * (unat x mod 2 ^ 30)"
  using or_disjoint(2) [of 0 2 x] by simp

lemma pairs_split: "k \<le> 15 \<Longrightarrow> (4 :: nat) ^ 15 = 4 ^ k * 4 ^ (15 - k)"
  by (simp add: power_add [symmetric])

text \<open>Skipping pairs of zero bits: what is left of the digit \<open>x\<close> is shifted up.\<close>

lemma exp_skip_val:
  assumes "unat ci = x * 4 ^ (16 - z)" "x < 4 ^ z" "x \<noteq> 0" "z \<le> 16"
  shows "\<exists>ci' z'. exp_skip ci (2 * z) = Some (ci', 2 * z') \<and> z' \<le> 16 \<and> unat ci' = x * 4 ^ (16 - z') \<and> x < 4 ^ z'"
  using assms
proof (induction z arbitrary: ci)
  case (Suc z)
  have z: "z \<le> 15" "16 - Suc z = 15 - z" "16 - z = Suc (15 - z)" using Suc.prems(4) by simp_all
  have two: "2 * Suc z - 2 = 2 * z" by simp
  show ?case
  proof (cases "DIGIT_2MSB ci = 0")
    case True
    then have "unat ci div 2 ^ 30 = 0" using DIGIT_2MSB_val [of ci] by simp
    then have less: "unat ci < 4 ^ 15" by simp
    then have "x * 4 ^ (15 - z) < 4 ^ z * 4 ^ (15 - z)" using Suc.prems(1) z(2) pairs_split [OF z(1)] by simp
    then have x: "x < 4 ^ z" by simp
    have "unat (push_bit 2 ci) = x * 4 ^ (16 - z)" using push_2_val [of ci] less Suc.prems(1) z(2,3) by simp
    from Suc.IH [OF this x Suc.prems(3)] z(1) show ?thesis using True two by (subst exp_skip.simps) simp
  next
    case False
    then show ?thesis using Suc.prems by (subst exp_skip.simps) (auto intro!: exI [of _ "Suc z"])
  qed
qed simp

definition exp_table :: "u32 list list \<Rightarrow> nat \<Rightarrow> nat \<Rightarrow> nat \<Rightarrow> bool" where
  "exp_table bPower n b D \<longleftrightarrow> length bPower = 3 \<and> (\<forall>i < 3. length (bPower ! i) = n \<and> nn_val (bPower ! i) mod D = b ^ Suc i mod D)"

lemma mod_power_mult: "a mod D = b ^ i mod D \<Longrightarrow> c mod D = b ^ j mod D \<Longrightarrow> a * c mod D = b ^ (i + j) mod (D :: nat)"
  by (metis mod_mult_cong power_add)

lemma exp_bits_val:
  assumes d: "length d = n" "n \<le> 5" "nn_val d \<noteq> 0" and tab: "exp_table bPower n b (nn_val d)"
    and "unat ci = x * 4 ^ (16 - k)" "x < 4 ^ k" "k \<le> 16" "length t = n" "nn_val t = b ^ e mod nn_val d"
  shows "exp_bits k bPower d n ci t = Some (nn_of n (b ^ (4 ^ k * e + x) mod nn_val d))"
  using assms(5-)
proof (induction k arbitrary: ci x t e)
  case 0
  then show ?case using nn_of_val [of t n] by simp
next
  case (Suc k)
  let ?D = "nn_val d"
  have k: "k \<le> 15" "16 - Suc k = 15 - k" "16 - k = Suc (15 - k)" using Suc.prems(3) by simp_all
  have less: "v mod ?D < NN ^ n" for v
    using nn_val_less [of d] d by (metis le_less_trans less_or_eq_imp_le mod_less_divisor neq0_conv)
  have ci: "unat ci = x * 4 ^ (15 - k)" using Suc.prems(1) k(2) by simp
  have split: "(2 :: nat) ^ 30 = 4 ^ k * 4 ^ (15 - k)" using pairs_split [OF k(1)] by simp
  have s: "unat (DIGIT_2MSB ci) = x div 4 ^ k"
    unfolding DIGIT_2MSB_val ci split by (rule div_mult_mult2) simp
  have "x div 4 ^ k < 4" using Suc.prems(2) by (simp add: less_mult_imp_div_less)
  then have s3: "x div 4 ^ k - 1 < 3" by simp
  have nxt: "unat (push_bit 2 ci) = x mod 4 ^ k * 4 ^ (16 - k)"
    unfolding push_2_val ci split k(3) by (simp add: mod_mult_mult2)
  let ?t1 = "nn_of n (nn_val t * nn_val t mod ?D)"
  have t1: "ModMult t t t d n = Some ?t1" "nn_val ?t1 = b ^ (e + e) mod ?D"
    using Suc.prems(4,5) d mod_power_mult [of "nn_val t" ?D b e "nn_val t" e] less by (simp_all add: ModMult_val nn_val_of_less)
  have e4: "e + e + (e + e) = 4 * e" by simp
  let ?t2 = "nn_of n (nn_val ?t1 * nn_val ?t1 mod ?D)"
  have t2: "ModMult ?t1 ?t1 ?t1 d n = Some ?t2" "nn_val ?t2 = b ^ (4 * e) mod ?D"
    using d mod_power_mult [of "nn_val ?t1" ?D b "e + e" "nn_val ?t1" "e + e", unfolded e4] less t1(2) by (simp_all add: ModMult_val nn_val_of_less)
  obtain t3 where t3: "(if x div 4 ^ k \<noteq> 0 then do { p \<leftarrow> rd bPower (x div 4 ^ k - 1); ModMult ?t2 ?t2 p d n } else Some ?t2) = Some t3"
      "length t3 = n" "nn_val t3 = b ^ (4 * e + x div 4 ^ k) mod ?D"
  proof (cases "x div 4 ^ k = 0")
    case True
    then show thesis using that [of ?t2] t2(2) by simp
  next
    case False
    then have "Suc (x div 4 ^ k - 1) = x div 4 ^ k" by simp
    then have p: "length (bPower ! (x div 4 ^ k - 1)) = n" "nn_val (bPower ! (x div 4 ^ k - 1)) mod ?D = b ^ (x div 4 ^ k) mod ?D"
        "length bPower = 3"
      using tab s3 unfolding exp_table_def by metis+
    show thesis using that [of "nn_of n (nn_val ?t2 * nn_val (bPower ! (x div 4 ^ k - 1)) mod ?D)"] False s3 p d t2(2) less
        mod_power_mult [of "nn_val ?t2" ?D b "4 * e" "nn_val (bPower ! (x div 4 ^ k - 1))" "x div 4 ^ k"]
      by (simp add: rd_def ModMult_val nn_val_of_less)
  qed
  have e: "4 ^ k * (4 * e + x div 4 ^ k) + x mod 4 ^ k = 4 ^ Suc k * e + x"
    by (simp add: algebra_simps)
  have "exp_bits (Suc k) bPower d n ci t = exp_bits k bPower d n (push_bit 2 ci) t3"
    using t1(1) t2(1) t3(1) s by simp
  also have "\<dots> = Some (nn_of n (b ^ (4 ^ k * (4 * e + x div 4 ^ k) + x mod 4 ^ k) mod ?D))"
    using Suc.prems(3) t3(2,3) by (intro Suc.IH [OF nxt]) simp_all
  finally show ?case unfolding e .
qed


lemma exp_digits_val:
  assumes d: "length d = n" "n \<le> 5" "nn_val d \<noteq> 0" and tab: "exp_table bPower n b (nn_val d)"
    and "length t = n" "nn_val t = b ^ e mod nn_val d"
  shows "exp_loop False bPower d n ds t = Some (nn_of n (b ^ (NN ^ length ds * e + nn_val (rev ds)) mod nn_val d))"
  using assms(5-)
proof (induction ds arbitrary: t e)
  case Nil
  then show ?case using nn_of_val [of t n] by simp
next
  case (Cons ci ds)
  let ?D = "nn_val d"
  have less: "v mod ?D < NN ^ n" for v
    using nn_val_less [of d] d by (metis le_less_trans less_or_eq_imp_le mod_less_divisor neq0_conv)
  let ?t = "nn_of n (b ^ (NN * e + unat ci) mod ?D)"
  have "exp_bits 16 bPower d n ci t = Some ?t"
    using exp_bits_val [OF d tab, of ci "unat ci" 16 t e] unat_digit [of ci] Cons.prems by simp
  moreover have "exp_loop False bPower d n ds ?t = Some (nn_of n (b ^ (NN ^ length ds * (NN * e + unat ci) + nn_val (rev ds)) mod ?D))"
    using less by (intro Cons.IH) (simp_all add: nn_val_of_less)
  moreover have "NN ^ length ds * (NN * e + unat ci) + nn_val (rev ds) = NN ^ length (ci # ds) * e + nn_val (rev (ci # ds))"
    by (simp add: nn_val_append algebra_simps)
  ultimately show ?case by simp
qed

text \<open>With more than 128 digits the counter of the loop is negative from the start.\<close>

lemma Digits_wrapped: "128 < m \<Longrightarrow> m < 256 \<Longrightarrow> \<exists>k. Digits c m = Some k \<and> k mod 256 = m"
proof -
  assume m: "128 < m" "m < 256"
  have "schar (int m - 1) = int m - 1 - 256" using m by (intro schar_wrap) simp_all
  moreover have "(int m - 256) mod 65536 = int m + 65280"
  proof -
    have "(int m - 256) mod 65536 = (int m - 256 + 65536) mod 65536" by (rule mod_add_self2 [symmetric])
    then show ?thesis using m by simp
  qed
  then have "uint (word_of_int (int m - 256) :: u16) = int m + 65280" unfolding uint_word_of_int by (simp only: len_of_numeral_defs) simp
  then have "unat (word_of_int (int m - 256) :: u16) = m + 65280" unfolding unat_eq_nat_uint by linarith
  moreover have "(m + 65280) mod 256 = m" using m by (simp add: mod_add_eq [symmetric, of m 65280])
  ultimately show ?thesis using m by (simp add: Digits_def)
qed

lemma ModExp_wrapped:
  assumes b: "length b = n" and m: "128 < m" "m < 256" and d: "length d = n" "n \<le> 5" "1 < nn_val d"
  shows "ModExp junk b c m d n = Some (nn_of n 1)"
proof -
  have D: "nn_val d \<noteq> 0" using d(3) by simp
  have n: "0 < n" using d(1,3) by (cases d) simp_all
  obtain p2 p3 where p: "ModMult junk b b d n = Some p2" "ModMult junk p2 b d n = Some p3"
    using b d D by (simp add: ModMult_val)
  obtain t where t: "AssignDigit 1 n = Some t" "length t = n" "nn_val t = 1"
    using n by (cases n) (auto simp: AssignDigit_def AssignZero_def wr_def)
  obtain k where "Digits c m = Some k" "k mod 256 = m" using Digits_wrapped [OF m] by blast
  then show ?thesis using b d(2) p t m nn_of_val [OF t(2)]
    by (simp add: ModExp_def nn_room_def Assign_def rd_prefix down_count_large)
qed

lemma ModExp_val:
  assumes b: "length b = n" and c: "length c = m" "m \<le> 128" and d: "length d = n" "n \<le> 5" "1 < nn_val d"
  shows "ModExp junk b c m d n = Some (nn_of n (nn_val b ^ nn_val c mod nn_val d))"
proof -
  let ?D = "nn_val d" and ?B = "nn_val b"
  have less: "v mod ?D < NN ^ n" for v
    using nn_val_less [of d] d by (metis less_imp_le less_le_trans less_one mod_less_divisor not_le order.strict_trans zero_less_one)
  have D: "?D \<noteq> 0" using d(3) by simp
  let ?p2 = "nn_of n (?B * ?B mod ?D)" and ?p3 = "nn_of n (?B * ?B mod ?D * ?B mod ?D)"
  have p: "ModMult junk b b d n = Some ?p2" "ModMult junk ?p2 b d n = Some ?p3"
    using b d D less by (simp_all add: ModMult_val nn_val_of_less)
  have "?B * ?B mod ?D * ?B mod ?D = ?B ^ 3 mod ?D" by (simp add: mod_mult_left_eq power3_eq_cube)
  then have "nn_val ?p3 = ?B ^ 3 mod ?D" using less by (simp only: nn_val_of_less)
  moreover have "nn_val ?p2 = ?B ^ 2 mod ?D" using less by (simp add: nn_val_of_less power2_eq_square)
  ultimately have tab: "exp_table [b, ?p2, ?p3] n ?B ?D"
    using b by (simp add: exp_table_def numeral_eq_Suc All_less_Suc)
  have n: "0 < n" using d(1,3) by (cases d) simp_all
  obtain t where t: "AssignDigit 1 n = Some t" "length t = n" "nn_val t = 1"
    using n by (cases n) (auto simp: AssignDigit_def AssignZero_def wr_def)
  then have t0: "nn_val t = ?B ^ 0 mod ?D" using d(3) by simp
  obtain k xs where k: "Digits c m = Some k" "k \<le> m" "xs = take k c" "length xs = k" "nn_val xs = nn_val c" "k > 0 \<Longrightarrow> c ! (k - 1) \<noteq> 0"
    using Digits_spec [OF c] by metis
  have k8: "k mod 256 = k" "k \<le> 128" using k(2) c(2) by simp_all
  have "exp_loop True [b, ?p2, ?p3] d n (rev xs) t = Some (nn_of n (?B ^ nn_val c mod ?D))"
  proof (cases xs rule: rev_cases)
    case Nil
    then show ?thesis using k(5) t0 t(2) nn_of_val [of t n] by simp
  next
    case (snoc ys ci)
    then have pos: "k > 0" and "xs ! (length xs - 1) = ci" using k(4) by auto
    then have "c ! (k - 1) = ci" using k(3,4) by simp
    then have "unat ci \<noteq> 0" using k(6) [OF pos] by (simp add: unat_eq_0)
    then obtain ci' z where z: "exp_skip ci 32 = Some (ci', 2 * z)" "z \<le> 16" "unat ci' = unat ci * 4 ^ (16 - z)" "unat ci < 4 ^ z"
      using exp_skip_val [of ci "unat ci" 16] unat_digit [of ci] by auto
    let ?t = "nn_of n (?B ^ unat ci mod ?D)"
    have "exp_bits z [b, ?p2, ?p3] d n ci' t = Some ?t"
      using exp_bits_val [OF d(1,2) D tab z(3,4,2) t(2) t0] by simp
    moreover have "exp_loop False [b, ?p2, ?p3] d n (rev ys) ?t = Some (nn_of n (?B ^ (NN ^ length (rev ys) * unat ci + nn_val (rev (rev ys))) mod ?D))"
      using less by (intro exp_digits_val [OF d(1,2) D tab]) (simp_all add: nn_val_of_less)
    moreover have "NN ^ length (rev ys) * unat ci + nn_val (rev (rev ys)) = nn_val c"
      using k(5) snoc by (simp add: nn_val_append)
    moreover have "(2 * z + 1) div 2 = z" by simp
    ultimately show ?thesis using snoc z(1) by (simp del: power_0)
  qed
  then show ?thesis using b c d(2) p t(1) k k8 by (simp add: ModExp_def nn_room_def Assign_def rd_prefix)
qed


section \<open>Divisors and inverses\<close>

lemma gcd_loop_val:
  assumes "length u = n" "length v = n" "n \<le> 5"
  shows "gcd_loop u v n = Some (nn_of n (gcd (nn_val u) (nn_val v)))"
  using assms(1,2)
proof (induction "nn_val v" arbitrary: u v rule: less_induct)
  case less
  show ?case
  proof (cases "nn_val v = 0")
    case True
    then show ?thesis using less.prems nn_of_val [of u n] by (subst gcd_loop.simps) (simp add: Zero_val)
  next
    case False
    let ?t = "nn_of n (nn_val u mod nn_val v)"
    have "nn_val u mod nn_val v < NN ^ n"
      using nn_val_less [of u] less.prems(1) by (metis le_less_trans mod_less_eq_dividend)
    then have t: "nn_val ?t = nn_val u mod nn_val v" by (rule nn_val_of_less)
    have "gcd_loop u v n = gcd_loop v ?t n"
      using False less.prems assms(3) by (subst gcd_loop.simps) (simp add: Zero_val Mod_val)
    also have "\<dots> = Some (nn_of n (gcd (nn_val v) (nn_val u mod nn_val v)))"
      using less.hyps [of ?t v] t False less.prems(2) by simp
    also have "gcd (nn_val v) (nn_val u mod nn_val v) = gcd (nn_val u) (nn_val v)"
      using False by (metis gcd.commute gcd_red_nat)
    finally show ?thesis .
  qed
qed

lemma Gcd_val:
  assumes "length b = n" "length c = n" "n \<le> 5"
  shows "Gcd b c n = Some (nn_of n (gcd (nn_val b) (nn_val c)))"
  using gcd_loop_val [OF assms] assms by (simp add: Gcd_def nn_room_def Assign_def)

lemma nn_of_take: "n \<le> m \<Longrightarrow> take n (nn_of m v) = nn_of n v"
  by (induction n arbitrary: m v) (auto simp: Suc_le_length_iff, case_tac m, simp_all)

lemma Add_take: "n \<le> length cs \<Longrightarrow> Add bs cs n = Add bs (take n cs) n"
  by (simp add: Add_def rd_prefix)

text \<open>The invariant of the extended Euclidean algorithm without negative numbers.\<close>

definition inv_inv :: "nat \<Rightarrow> nat \<Rightarrow> nat \<Rightarrow> nat \<Rightarrow> nat \<Rightarrow> nat \<Rightarrow> int \<Rightarrow> bool" where
  "inv_inv b c u1 u3 v1 v3 s \<longleftrightarrow> u1 * v3 + v1 * u3 = c \<and> 0 < u3 \<and> gcd u3 v3 = 1 \<and> (s = 1 \<or> s = - 1) \<and> u1 \<le> c \<and>
     int c dvd s * int u1 * int b - int u3 \<and> int c dvd s * int v1 * int b + int v3"

lemma inv_inv_step:
  assumes "inv_inv b c u1 u3 v1 v3 s" and "v3 \<noteq> 0"
  shows "inv_inv b c v1 v3 (u1 + u3 div v3 * v1) (u3 mod v3) (- s)" "u1 + u3 div v3 * v1 \<le> c"
proof -
  let ?q = "u3 div v3" and ?t = "u3 mod v3"
  let ?w = "u1 + ?q * v1"
  have u3: "u3 = ?q * v3 + ?t" by simp
  have id: "v1 * ?t + ?w * v3 = c"
  proof -
    have "v1 * t + (u1 + q * v1) * v3 = u1 * v3 + v1 * (q * v3 + t)" for q t by (simp add: algebra_simps)
    then have "v1 * ?t + ?w * v3 = u1 * v3 + v1 * (?q * v3 + ?t)" .
    also have "\<dots> = c" using assms(1) unfolding u3 [symmetric] by (simp add: inv_inv_def)
    finally show ?thesis .
  qed
  have "?w * 1 \<le> ?w * v3" using assms(2) by (intro mult_le_mono2) simp
  also have "\<dots> \<le> c" using le_add2 [of "?w * v3" "v1 * ?t"] unfolding id .
  finally show w: "?w \<le> c" by (simp only: mult_1_right)
  have "v1 * 1 \<le> v1 * u3" using assms(1) by (intro mult_le_mono2) (simp add: inv_inv_def)
  also have "\<dots> \<le> c" using assms(1) le_add2 [of "v1 * u3" "u1 * v3"] unfolding inv_inv_def by (elim conjE) simp
  finally have v1: "v1 \<le> c" by (simp only: mult_1_right)
  have "gcd v3 ?t = 1" using assms by (simp add: inv_inv_def gcd_red_nat [of u3 v3, symmetric])
  moreover have "int c dvd - s * int v1 * int b - int v3"
    using assms(1) dvd_minus_iff [of "int c" "s * int v1 * int b + int v3"] by (simp add: inv_inv_def)
  moreover have "int c dvd - s * int ?w * int b + int ?t"
  proof -
    have t: "int ?t = int u3 - int ?q * int v3" using u3 by (metis add_diff_cancel_left' of_nat_add of_nat_mult)
    have "- s * int ?w * int b + int ?t =
        - (s * int u1 * int b - int u3) - int ?q * (s * int v1 * int b + int v3)"
      unfolding t by (simp add: algebra_simps)
    moreover have "int c dvd - (s * int u1 * int b - int u3)" "int c dvd s * int v1 * int b + int v3"
      using assms(1) unfolding inv_inv_def dvd_minus_iff by simp_all
    then have "int c dvd - (s * int u1 * int b - int u3) - int ?q * (s * int v1 * int b + int v3)" by (intro dvd_diff dvd_mult)
    ultimately show ?thesis by simp
  qed
  ultimately show "inv_inv b c v1 v3 ?w ?t (- s)"
    using assms id v1 by (auto simp: inv_inv_def)
qed

lemma inv_loop_val:
  assumes "c < NN ^ n" "n \<le> 5"
    and "length u1 = n" "length u3 = n" "length v1 = n" "length v3 = n" "inv_inv b c (nn_val u1) (nn_val u3) (nn_val v1) (nn_val v3) s"
  shows "\<exists>u s'. inv_loop u1 u3 v1 v3 s n = Some (u, s') \<and> length u = n \<and> nn_val u \<le> c \<and> (s' = 1 \<or> s' = - 1) \<and>
    int c dvd s' * int (nn_val u) * int b - 1"
  using assms(3-)
proof (induction "nn_val v3" arbitrary: u1 u3 v1 v3 s rule: less_induct)
  case less
  show ?case
  proof (cases "nn_val v3 = 0")
    case True
    then have "nn_val u3 = 1" using less.prems(5) by (simp add: inv_inv_def)
    then show ?thesis using less.prems True by (subst inv_loop.simps) (simp add: Zero_val inv_inv_def)
  next
    case False
    let ?q = "nn_val u3 div nn_val v3" and ?t = "nn_val u3 mod nn_val v3"
    let ?w = "nn_val u1 + ?q * nn_val v1"
    note step = inv_inv_step [OF less.prems(5) False]
    have le: "?q \<le> nn_val u3" "?t \<le> nn_val u3" by simp_all
    then have "?q < NN ^ n" "?t < NN ^ n" using nn_val_less [of u3] unfolding less.prems(2) by linarith+
    then have v: "nn_val (nn_of n ?q) = ?q" "nn_val (nn_of n ?t) = ?t" by (simp_all only: nn_val_of_less)
    have w: "?w < NN ^ n" "?q * nn_val v1 < NN ^ n" using step(2) assms(1) by linarith+
    have n: "n \<le> 2 * n" by simp
    have "Add u1 (nn_of (2 * n) (?q * nn_val v1)) n = Some (nn_of n ?w, 0)"
      using less.prems(1) w Add_take [of n "nn_of (2 * n) (?q * nn_val v1)" u1]
      by (simp add: nn_of_take [OF n] Add_val nn_val_of_less)
    then have "inv_loop u1 u3 v1 v3 s n = inv_loop v1 v3 (nn_of n ?w) (nn_of n ?t) (- s) n"
      using False less.prems assms(2) v by (subst inv_loop.simps) (simp add: Zero_val Div_val Mult_val)
    moreover have "nn_val (nn_of n ?t) < nn_val v3" using v(2) False by simp
    moreover have "nn_val (nn_of n ?w) = ?w" using w(1) by (rule nn_val_of_less)
    ultimately show ?thesis using less.hyps [of "nn_of n ?t" v1 v3 "nn_of n ?w" "- s"] less.prems step(1) v(2) by simp
  qed
qed

lemma ModInv_val:
  assumes b: "length b = n" and c: "length c = n" "n \<le> 5" "1 < nn_val c" and "gcd (nn_val b) (nn_val c) = 1"
  shows "\<exists>a. ModInv b c n = Some (nn_of n a) \<and> a < nn_val c \<and> a * nn_val b mod nn_val c = 1"
proof -
  let ?c = "nn_val c" and ?b = "nn_val b"
  have n: "0 < n" using c(1,3) by (cases c) simp_all
  have less: "?c < NN ^ n" using nn_val_less [of c] c(1) by simp
  obtain t where t: "AssignDigit 1 n = Some t" "length t = n" "nn_val t = 1"
    using n by (cases n) (auto simp: AssignDigit_def AssignZero_def wr_def)
  have "?b \<noteq> 0"
  proof
    assume "?b = 0"
    then have "gcd ?b ?c = ?c" by simp
    then show False using assms(5) c(3) by simp
  qed
  then have "inv_inv ?b ?c (nn_val t) ?b (nn_val (AssignZero n)) ?c 1"
    using assms(5) c(3) t(3) by (simp add: inv_inv_def AssignZero_def)
  from inv_loop_val [OF less c(2) t(2) b _ c(1) this]
  obtain u s where r: "inv_loop t b (AssignZero n) c 1 n = Some (u, s)" "length u = n" "nn_val u \<le> ?c" "s = 1 \<or> s = - 1"
      "int ?c dvd s * int (nn_val u) * int ?b - 1" by (auto simp: AssignZero_def)
  have uc: "nn_val u < ?c"
  proof (rule ccontr)
    assume "\<not> nn_val u < ?c"
    then have "nn_val u = ?c" using r(3) by simp
    then have "int ?c dvd s * int (nn_val u) * int ?b" by simp
    from dvd_diff [OF this r(5)] have "int ?c dvd 1" by simp
    then show False using c(3) by simp
  qed
  define a where "a = (if s < 0 then ?c - nn_val u else nn_val u)"
  have u0: "nn_val u \<noteq> 0" using r(5) c(3) by (cases "nn_val u = 0") auto
  have "int a * int ?b = s * int (nn_val u) * int ?b + (if s < 0 then int ?c * int ?b else 0)"
    using r(4) uc by (auto simp: a_def of_nat_diff algebra_simps)
  then have "int a * int ?b - 1 = (s * int (nn_val u) * int ?b - 1) + (if s < 0 then int ?c * int ?b else 0)" by simp
  moreover have "int ?c dvd (if s < 0 then int ?c * int ?b else 0)" by simp
  ultimately have "int ?c dvd int a * int ?b - 1" using dvd_add [OF r(5)] by metis
  then have "int a * int ?b mod int ?c = 1 mod int ?c" by (simp add: mod_eq_dvd_iff)
  then have "a * ?b mod ?c = 1" using c(3) by (metis int_ops(2) mod_less nat_int_comparison(1) of_nat_mod of_nat_mult)
  moreover have "a < ?c" using uc u0 by (simp add: a_def)
  moreover have "ModInv b c n = Some (nn_of n a)"
    using t r b c uc nn_of_val [OF r(2)] by (simp add: ModInv_def nn_room_def Assign_def a_def Sub_le)
  ultimately show ?thesis by blast
qed


section \<open>Quotients\<close>

text \<open>Halving modulo an odd number: one of \<open>U\<close> and \<open>U + d\<close> is even.\<close>

lemma mod_half_val:
  assumes "length U = n" "length d = n" "odd (nn_val d)" "2 * nn_val d \<le> NN ^ n" "nn_val U < nn_val d"
    "n \<le> 128"
  shows "\<exists>h. mod_half U d n = Some (nn_of n h) \<and> h < nn_val d \<and> (2 * h = nn_val U \<or> 2 * h = nn_val U + nn_val d)"
proof (cases "even (nn_val U)")
  case True
  obtain k where "RShift U 1 n = Some (nn_of n (nn_val U div 2 ^ 1), k)" using RShift_val [of U n 1] assms(1,6) by auto
  then show ?thesis using True assms by (intro exI [of _ "nn_val U div 2"]) (auto simp: mod_half_def Even_val)
next
  case False
  have less: "nn_val U + nn_val d < NN ^ n" using assms(4,5) by linarith
  then obtain k where "RShift (nn_of n (nn_val U + nn_val d)) 1 n = Some (nn_of n ((nn_val U + nn_val d) div 2 ^ 1), k)"
    using RShift_val [of "nn_of n (nn_val U + nn_val d)" n 1] assms(6) by (auto simp: nn_val_of_less)
  moreover have "2 * ((nn_val U + nn_val d) div 2) = nn_val U + nn_val d" using False assms(3) by simp
  ultimately show ?thesis using False assms by (intro exI [of _ "(nn_val U + nn_val d) div 2"]) (auto simp: mod_half_def Even_val Add_val)
qed

lemma mod_half_dvd:
  assumes "2 * h = u \<or> 2 * h = u + D" "odd D"
  shows "int D dvd 2 * int h - int u"
  using assms by (auto simp: dvd_def) (metis add_diff_cancel_left' int_ops(7) mult.right_neutral of_nat_add of_nat_numeral)

lemma mod_sub_half_val:
  assumes "length U = n" "length V = n" "length d = n" "odd (nn_val d)" "2 * nn_val d \<le> NN ^ n" "nn_val U < nn_val d" "nn_val V < nn_val d"
    "n \<le> 128"
  shows "\<exists>h. mod_sub_half U V d n = Some (nn_of n h) \<and> h < nn_val d \<and> int (nn_val d) dvd 2 * int h - (int (nn_val U) - int (nn_val V))"
proof -
  let ?D = "nn_val d" and ?x = "if nn_val U < nn_val V then nn_val U + nn_val d - nn_val V else nn_val U - nn_val V"
  have x: "?x < ?D" using assms(6,7) by auto
  have D: "?D < NN ^ n" using nn_val_less [of d] assms(3) by simp
  have sum: "nn_val U + ?D < NN ^ n" using assms(5,6) by linarith
  have "mod_sub_half U V d n = mod_half (nn_of n ?x) d n"
  proof (cases "nn_val U < nn_val V")
    case True
    then show ?thesis using assms sum by (simp add: mod_sub_half_def Cmp_val Add_val Sub_le nn_val_of_less)
  next
    case False
    then show ?thesis using assms by (simp add: mod_sub_half_def Cmp_val Sub_le)
  qed
  moreover have "nn_val (nn_of n ?x) = ?x" using x D by (intro nn_val_of_less) linarith
  ultimately obtain h where h: "mod_sub_half U V d n = Some (nn_of n h)" "h < ?D" "2 * h = ?x \<or> 2 * h = ?x + ?D"
    using mod_half_val [of "nn_of n ?x" n d] assms(3-5,8) x by auto
  have "int ?D dvd 2 * int h - int ?x" using mod_half_dvd [OF h(3) assms(4)] .
  moreover have "int ?D dvd int ?x - (int (nn_val U) - int (nn_val V))" using assms(7) by (auto simp: of_nat_diff)
  ultimately have "int ?D dvd (2 * int h - int ?x) + (int ?x - (int (nn_val U) - int (nn_val V)))" by (rule dvd_add)
  moreover have "(2 * int h - int ?x) + (int ?x - (int (nn_val U) - int (nn_val V))) = 2 * int h - (int (nn_val U) - int (nn_val V))"
    by linarith
  ultimately show ?thesis using h(1,2) by (intro exI [of _ h]) simp
qed

lemma odd_dvd_half: "odd D \<Longrightarrow> int D dvd 2 * x \<Longrightarrow> int D dvd x"
  using coprime_dvd_mult_right_iff [of "int D" 2 x] by (simp add: coprime_right_2_iff_odd)

text \<open>The invariant of the loop: \<open>U c = A b\<close> and \<open>V c = B b\<close> modulo \<open>d\<close>.\<close>

definition quot :: "nat \<Rightarrow> nat \<Rightarrow> nat \<Rightarrow> nat \<Rightarrow> nat \<Rightarrow> bool" where
  "quot D b c A U \<longleftrightarrow> U < D \<and> int D dvd int U * int c - int A * int b"

lemma quotD: "quot D b c A U \<Longrightarrow> int D dvd int U * int c - int A * int b"
  by (simp add: quot_def)

lemma quot_half:
  assumes "odd D" "quot D b c A U" "A = 2 * A'" "h < D" "int D dvd 2 * int h - int U"
  shows "quot D b c A' h"
proof -
  have "int D dvd (2 * int h - int U) * int c + (int U * int c - int A * int b)"
    using quotD [OF assms(2)] assms(5) by (intro dvd_add [OF dvd_mult2])
  moreover have "(2 * int h - int U) * int c + (int U * int c - int A * int b) = 2 * (int h * int c - int A' * int b)"
    unfolding assms(3) by (simp add: algebra_simps)
  ultimately have "int D dvd 2 * (int h * int c - int A' * int b)" by (simp only:)
  then show ?thesis using odd_dvd_half [OF assms(1)] assms(4) unfolding quot_def by blast
qed

lemma quot_diff:
  assumes "odd D" "quot D b c A U" "quot D b c B V" "A = B + 2 * A'" "h < D" "int D dvd 2 * int h - (int U - int V)"
  shows "quot D b c A' h"
proof -
  have "int D dvd (2 * int h - (int U - int V)) * int c + ((int U * int c - int A * int b) - (int V * int c - int B * int b))"
    using quotD [OF assms(2)] quotD [OF assms(3)] assms(6) by (intro dvd_add [OF dvd_mult2 dvd_diff])
  moreover have "(2 * int h - (int U - int V)) * int c + ((int U * int c - int A * int b) - (int V * int c - int B * int b)) =
      2 * (int h * int c - int A' * int b)"
    unfolding assms(4) by (simp add: algebra_simps)
  ultimately have "int D dvd 2 * (int h * int c - int A' * int b)" by (simp only:)
  then show ?thesis using odd_dvd_half [OF assms(1)] assms(5) unfolding quot_def by blast
qed

lemma gcd_odd_half: "odd B \<Longrightarrow> gcd (2 * A) B = gcd A (B :: nat)"
  using gcd_mult_left_left_cancel [of B 2 A] by (simp add: coprime_right_2_iff_odd)

lemma gcd_sub_half: "odd B \<Longrightarrow> gcd (B + 2 * A) B = gcd A (B :: nat)"
  by (metis gcd_add1 gcd_odd_half add.commute)

lemma half_val:
  assumes "length A = n" "n \<le> 128"
  shows "\<exists>k. RShift A 1 n = Some (nn_of n (nn_val A div 2), k)" "nn_val (nn_of n (nn_val A div 2)) = nn_val A div 2"
    "nn_val (nn_of n ((nn_val A - x) div 2)) = (nn_val A - x) div 2" "nn_val (nn_of n (nn_val A - x)) = nn_val A - x"
proof -
  have A: "nn_val A < NN ^ n" using nn_val_less [of A] assms by simp
  show "\<exists>k. RShift A 1 n = Some (nn_of n (nn_val A div 2), k)" using RShift_val [OF assms(1) _ assms(2), of 1] by simp
  show "nn_val (nn_of n (nn_val A div 2)) = nn_val A div 2" "nn_val (nn_of n ((nn_val A - x) div 2)) = (nn_val A - x) div 2"
    "nn_val (nn_of n (nn_val A - x)) = nn_val A - x"
    using A by (intro nn_val_of_less; linarith)+
qed


lemma div_opt_loop_val:
  assumes d: "length d = n" "odd (nn_val d)" "2 * nn_val d \<le> NN ^ n" and n: "n \<le> 128"
    and "length A = n" "length B = n" "length U = n" "length V = n" "0 < nn_val A" "0 < nn_val B" "gcd (nn_val A) (nn_val B) = 1"
      "quot (nn_val d) b c (nn_val A) (nn_val U)" "quot (nn_val d) b c (nn_val B) (nn_val V)"
  shows "\<exists>u. div_opt_loop A B U V d n = Some (nn_of n u) \<and> quot (nn_val d) b c 1 u"
  using assms(5-)
proof (induction "nn_val A + nn_val B" arbitrary: A B U V rule: less_induct)
  case less
  let ?D = "nn_val d" and ?A = "nn_val A" and ?B = "nn_val B" and ?U = "nn_val U" and ?V = "nn_val V"
  have lt: "?U < ?D" "?V < ?D" using less.prems(8,9) by (simp_all add: quot_def)
  have small: "nn_val (nn_of n h) = h" if "h < ?D" for h
    using that nn_val_less [of d] d(1) by (intro nn_val_of_less) simp
  note cmp = Cmp_val [OF less.prems(1,2) n] and evenA = Even_val [OF less.prems(1)] and evenB = Even_val [OF less.prems(2)]
  have not_both: "odd ?A \<or> odd ?B"
  proof (rule ccontr)
    assume "\<not> (odd ?A \<or> odd ?B)"
    then have "2 dvd gcd ?A ?B" by simp
    then show False using less.prems(7) by simp
  qed
  consider (eq) "?A = ?B" | (evA) "?A \<noteq> ?B" "even ?A" "odd ?B" | (evB) "?A \<noteq> ?B" "odd ?A" "even ?B"
    | (gr) "odd ?A" "odd ?B" "?A > ?B" | (le) "odd ?A" "odd ?B" "?A < ?B"
    using not_both by linarith
  then show ?case
  proof cases
    case eq
    then have "?A = 1" using less.prems(7) by simp
    then have "quot ?D b c 1 ?U" using less.prems(8) by simp
    moreover have "div_opt_loop A B U V d n = Some U" using eq cmp by (subst div_opt_loop.simps) simp
    ultimately show ?thesis using nn_of_val [OF less.prems(3)] by metis
  next
    case evA
    obtain h where h: "mod_half U d n = Some (nn_of n h)" "h < ?D" "2 * h = ?U \<or> 2 * h = ?U + ?D"
      using mod_half_val [OF less.prems(3) d lt(1) n] by blast
    obtain k where k: "RShift A 1 n = Some (nn_of n (?A div 2), k)" using half_val(1) [OF less.prems(1) n] by blast
    have A2: "?A = 2 * (?A div 2)" using evA(2) by simp
    let ?A' = "nn_of n (?A div 2)" and ?U' = "nn_of n h"
    have v: "nn_val ?A' = ?A div 2" "nn_val ?U' = h" using half_val(2) [OF less.prems(1) n] small [OF h(2)] by simp_all
    have "gcd (?A div 2) ?B = 1" using gcd_odd_half [OF evA(3), of "?A div 2"] A2 less.prems(7) by simp
    moreover have "quot ?D b c (?A div 2) h"
      using quot_half [OF d(2) less.prems(8) A2 h(2) mod_half_dvd [OF h(3) d(2)]] .
    moreover have "0 < ?A div 2" using A2 less.prems(5) by simp
    moreover have "div_opt_loop A B U V d n = div_opt_loop ?A' B ?U' V d n"
      using evA cmp evenA evenB h(1) k by (subst div_opt_loop.simps) simp
    ultimately show ?thesis using less.hyps [of ?A' B ?U' V] less.prems A2 v by simp
  next
    case evB
    obtain h where h: "mod_half V d n = Some (nn_of n h)" "h < ?D" "2 * h = ?V \<or> 2 * h = ?V + ?D"
      using mod_half_val [OF less.prems(4) d lt(2) n] by blast
    obtain k where k: "RShift B 1 n = Some (nn_of n (?B div 2), k)" using half_val(1) [OF less.prems(2) n] by blast
    have B2: "?B = 2 * (?B div 2)" using evB(3) by simp
    let ?B' = "nn_of n (?B div 2)" and ?V' = "nn_of n h"
    have v: "nn_val ?B' = ?B div 2" "nn_val ?V' = h" using half_val(2) [OF less.prems(2) n] small [OF h(2)] by simp_all
    have "gcd ?A (?B div 2) = 1"
      using gcd_odd_half [OF evB(2), of "?B div 2"] B2 less.prems(7) by (simp add: gcd.commute [of ?A])
    moreover have "quot ?D b c (?B div 2) h"
      using quot_half [OF d(2) less.prems(9) B2 h(2) mod_half_dvd [OF h(3) d(2)]] .
    moreover have "0 < ?B div 2" using B2 less.prems(6) by simp
    moreover have "div_opt_loop A B U V d n = div_opt_loop A ?B' U ?V' d n"
      using evB cmp evenA evenB h(1) k by (subst div_opt_loop.simps) simp
    ultimately show ?thesis using less.hyps [of A ?B' U ?V'] less.prems B2 v by simp
  next
    case gr
    obtain h where h: "mod_sub_half U V d n = Some (nn_of n h)" "h < ?D" "int ?D dvd 2 * int h - (int ?U - int ?V)"
      using mod_sub_half_val [OF less.prems(3,4) d lt n] by blast
    let ?a = "(?A - ?B) div 2"
    have A2: "?A = ?B + 2 * ?a" using gr by simp
    have v0: "nn_val (nn_of n (?A - ?B)) = ?A - ?B" using half_val(4) [OF less.prems(1) n] .
    obtain k where k: "RShift (nn_of n (?A - ?B)) 1 n = Some (nn_of n ?a, k)"
      using half_val(1) [of "nn_of n (?A - ?B)" n] v0 n by auto
    let ?A' = "nn_of n ?a" and ?U' = "nn_of n h"
    have v: "nn_val ?A' = ?a" "nn_val ?U' = h" using half_val(3) [OF less.prems(1) n] small [OF h(2)] by simp_all
    have "gcd ?a ?B = 1" using gcd_sub_half [OF gr(2), of ?a] A2 less.prems(7) by simp
    moreover have "quot ?D b c ?a h" using quot_diff [OF d(2) less.prems(8,9) A2 h(2,3)] .
    moreover have "0 < ?a" using gr A2 by (cases "?a = 0") simp_all
    moreover have "?a < ?A" using A2 less.prems(6) by linarith
    moreover have "div_opt_loop A B U V d n = div_opt_loop ?A' B ?U' V d n"
      using gr cmp evenA evenB h(1) k Sub_le [OF less.prems(1,2)] by (subst div_opt_loop.simps) simp
    ultimately show ?thesis using less.hyps [of ?A' B ?U' V] less.prems v by simp
  next
    case le
    obtain h where h: "mod_sub_half V U d n = Some (nn_of n h)" "h < ?D" "int ?D dvd 2 * int h - (int ?V - int ?U)"
      using mod_sub_half_val [OF less.prems(4,3) d lt(2,1) n] by blast
    let ?a = "(?B - ?A) div 2"
    have B2: "?B = ?A + 2 * ?a" using le by simp
    have v0: "nn_val (nn_of n (?B - ?A)) = ?B - ?A" using half_val(4) [OF less.prems(2) n] .
    obtain k where k: "RShift (nn_of n (?B - ?A)) 1 n = Some (nn_of n ?a, k)"
      using half_val(1) [of "nn_of n (?B - ?A)" n] v0 n by auto
    let ?B' = "nn_of n ?a" and ?V' = "nn_of n h"
    have v: "nn_val ?B' = ?a" "nn_val ?V' = h" using half_val(3) [OF less.prems(2) n] small [OF h(2)] by simp_all
    have "gcd ?A ?a = 1" using gcd_sub_half [OF le(1), of ?a] B2 less.prems(7) by (simp add: gcd.commute [of ?A])
    moreover have "quot ?D b c ?a h" using quot_diff [OF d(2) less.prems(9,8) B2 h(2,3)] .
    moreover have "0 < ?a" using le B2 by (cases "?a = 0") simp_all
    moreover have "?a < ?B" using B2 less.prems(5) by linarith
    moreover have "div_opt_loop A B U V d n = div_opt_loop A ?B' U ?V' d n"
      using le cmp evenA evenB h(1) k Sub_le [OF less.prems(2,1)] by (subst div_opt_loop.simps) simp
    ultimately show ?thesis using less.hyps [of A ?B' U ?V'] less.prems v by simp
  qed
qed

lemma ModDiv_val:
  assumes "length b = n" "length c = n" "length d = n" "n \<le> 5" "odd (nn_val d)" "2 * nn_val d \<le> NN ^ n" "nn_val b < nn_val d"
    "gcd (nn_val c) (nn_val d) = 1" "nn_val c \<noteq> 0"
  shows "\<exists>a. ModDiv b c d n = Some (nn_of n a) \<and> a < nn_val d \<and> a * nn_val c mod nn_val d = nn_val b"
proof -
  let ?D = "nn_val d"
  have "0 < ?D" using assms(7) by simp
  have "quot ?D (nn_val b) (nn_val c) (nn_val c) (nn_val b)" using assms(7) by (simp add: quot_def)
  moreover have "quot ?D (nn_val b) (nn_val c) ?D (nn_val (AssignZero n))" using \<open>0 < ?D\<close> by (simp add: quot_def AssignZero_def)
  ultimately obtain u where u: "div_opt_loop c d b (AssignZero n) d n = Some (nn_of n u)" "quot ?D (nn_val b) (nn_val c) 1 u"
    using div_opt_loop_val [of d n c d b "AssignZero n" "nn_val b" "nn_val c"] assms \<open>0 < ?D\<close> by (auto simp: AssignZero_def)
  then have "u < ?D" "int u * int (nn_val c) mod int ?D = int (nn_val b) mod int ?D"
    by (simp_all add: quot_def mod_eq_dvd_iff)
  then have "u * nn_val c mod ?D = nn_val b" using assms(7) by (metis mod_less of_nat_eq_iff of_nat_mod of_nat_mult)
  then show ?thesis using u(1) \<open>u < ?D\<close> assms by (auto simp: ModDiv_def ModDivOpt_def nn_room_def Assign_def)
qed


section \<open>Loops that do not end\<close>

text \<open>A divisor 0 is even for ever.\<close>

lemma div_opt_loop_zero:
  assumes "length A = n" "length B = n" "nn_val A = 0" "nn_val B \<noteq> 0" "n \<le> 128"
  shows "div_opt_loop A B U V d n = None"
proof (rule ccontr)
  assume "div_opt_loop A B U V d n \<noteq> None"
  then obtain y where "div_opt_loop A B U V d n = Some y" by blast
  then have "\<not> (length A = n \<and> length B = n \<and> nn_val A = 0 \<and> nn_val B \<noteq> 0 \<and> n \<le> 128)"
  proof (induction rule: div_opt_loop.raw_induct [rotated, consumes 1, case_names step])
    case (step f A B U V d n y)
    show ?case
    proof
      assume a: "length A = n \<and> length B = n \<and> nn_val A = 0 \<and> nn_val B \<noteq> 0 \<and> n \<le> 128"
      obtain k where "RShift A 1 n = Some (nn_of n (nn_val A div 2), k)" using half_val(1) a by blast
      then obtain U' where "f (nn_of n 0) B U' V d n = Some y"
        using step(2) a Cmp_val [of A n B] Even_val [of A n] by (auto simp: cmp_nat_def bind_eq_Some_conv)
      from step(1) [OF this] show False using a by (simp add: AssignZero_def)
    qed
  qed
  then show False using assms by blast
qed

lemma ModDiv_zero:
  assumes "length b = n" "length c = n" "length d = n" "n \<le> 5" "nn_val c = 0" "nn_val d \<noteq> 0"
  shows "ModDiv b c d n = None"
  using div_opt_loop_zero [of c n d b "AssignZero n" d] assms by (simp add: ModDiv_def ModDivOpt_def nn_room_def Assign_def)

text \<open>The significant bits of a number.\<close>

lemma Bits_val:
  assumes "length n = 5"
  shows "\<exists>k. Bits n 5 = Some k \<and> k \<le> 160 \<and> nn_val n < 2 ^ k \<and> (0 < nn_val n \<longrightarrow> 0 < k \<and> 2 ^ (k - 1) \<le> nn_val n)"
proof -
  have five: "(5 :: nat) \<le> 128" by simp
  obtain k xs where k: "Digits n 5 = Some k" "k \<le> 5" "xs = take k n" "length xs = k" "nn_val xs = nn_val n" "k > 0 \<Longrightarrow> n ! (k - 1) \<noteq> 0"
    using Digits_spec [OF assms five] by metis
  show ?thesis
  proof (cases k)
    case 0
    then show ?thesis using k(1,4,5) by (simp add: Bits_def)
  next
    case (Suc j)
    let ?b = "DigitBits (n ! j)"
    have b: "unat (n ! j) < 2 ^ ?b" "?b \<le> 32" "2 ^ (?b - 1) \<le> unat (n ! j)" "0 < ?b"
      using DigitBits_bounds [of "n ! j"] k(6) Suc by simp_all
    have xs: "xs = take j n @ [n ! j]" using k(2,3) Suc assms by (simp add: take_Suc_conv_app_nth)
    have j: "length (take j n) = j" using k(2) Suc assms by simp
    have val: "nn_val n = nn_val (take j n) + NN ^ j * unat (n ! j)" unfolding k(5) [symmetric] xs nn_val_append j by simp
    also have "\<dots> < NN ^ j + NN ^ j * unat (n ! j)" using nn_val_less [of "take j n"] j by simp
    also have "\<dots> = NN ^ j * (unat (n ! j) + 1)" by simp
    also have "\<dots> \<le> NN ^ j * 2 ^ ?b" using b(1) by (intro mult_le_mono2) simp
    also have "\<dots> = 2 ^ (j * 32 + ?b)" by (simp add: power_add mult.commute [of j] power_mult)
    finally have "nn_val n < 2 ^ (j * 32 + ?b)" .
    moreover have "j * 32 + ?b \<le> 160" using b(2) k(2) Suc by simp
    moreover have "2 ^ (j * 32 + ?b - 1) \<le> nn_val n"
    proof -
      have "j * 32 + ?b - 1 = 32 * j + (?b - 1)" using b(4) by simp
      then have "2 ^ (j * 32 + ?b - 1) = NN ^ j * 2 ^ (?b - 1)" by (simp add: power_add power_mult)
      also have "\<dots> \<le> NN ^ j * unat (n ! j)" using b(3) by (rule mult_le_mono2)
      finally show ?thesis unfolding val by simp
    qed
    ultimately show ?thesis using k(1,2) Suc assms b(4) by (simp add: Bits_def rd_def)
  qed
qed

text \<open>The counter of the loop stays as it is.\<close>

lemma lucas_loop_none:
  assumes "0 \<le> r"
  shows "lucas_loop r P Q k p omega st = None"
proof (rule ccontr)
  assume "lucas_loop r P Q k p omega st \<noteq> None"
  then obtain y where y: "lucas_loop r P Q k p omega st = Some y" by blast
  let ?P = "\<lambda>t y. fst (fst (fst (fst (fst (fst t))))) < (0 :: int)"
  have "?P ((((((r, P), Q), k), p), omega), st) y"
  proof (rule lucas_loop.raw_induct [OF _ y, where Pa = ?P], unfold fst_conv, goal_cases)
    case (1 f r P Q k p omega st y)
    show "r < 0"
    proof (rule ccontr)
      assume "\<not> r < 0"
      with 1(2) obtain st where "f r P Q k p omega st = Some y" by (auto simp: bind_eq_Some_conv)
      from 1(1) [OF this] show False using \<open>\<not> r < 0\<close> by simp
    qed
  qed
  then show False using assms by simp
qed

text \<open>Every round of the loop is defined, so that the missing result is that of a loop that goes on for ever and not
  that of an access outside of an array.\<close>

fun lucas_rounds :: "nat \<Rightarrow> int \<Rightarrow> u32 list \<Rightarrow> u32 list \<Rightarrow> u32 list \<Rightarrow> u32 list \<Rightarrow> u32 list \<Rightarrow> lucas_state \<Rightarrow> lucas_state option" where
  "lucas_rounds 0 r P Q k p omega st = Some st"
| "lucas_rounds (Suc n) r P Q k p omega st = do {
     st \<leftarrow> lucas_round r P Q k p omega st;
     lucas_rounds n r P Q k p omega st }"

fun lucas_wf :: "lucas_state \<Rightarrow> bool" where
  "lucas_wf (v0, v1, q0, q1, tmp) \<longleftrightarrow> length v0 = 5 \<and> length v1 = 5 \<and> length q0 = 5 \<and> length q1 = 5"

lemma ModSub_defined:
  assumes "length bs = 5" "length cs = 5" "length ds = 5"
  shows "\<exists>as. ModSub bs cs ds 5 = Some as \<and> length as = 5"
  using assms by (simp add: ModSub_def nn_room_def Sub_val Add_val Assign_def del: nn_of.simps)

lemma ModMult_defined:
  assumes "length bs = 5" "length cs = 5" "length ds = 5" "nn_val ds \<noteq> 0"
  shows "\<exists>as. ModMultOpt a bs cs ds omega 5 = Some as \<and> length as = 5"
    "\<exists>as. ModSqrOpt a bs ds omega 5 = Some as \<and> length as = 5"
  using assms by (simp_all add: ModMultOpt_def ModMult_val ModSqr_val del: nn_of.simps)

lemma lucas_round_defined:
  assumes st: "lucas_wf st" and len: "length P = 5" "length Q = 5" "length p = 5" "nn_val p \<noteq> 0" "length k = 5" "r < 160"
  shows "\<exists>st'. lucas_round r P Q k p omega st = Some st' \<and> lucas_wf st'"
proof -
  obtain v0 v1 q0 q1 tmp where s: "st = (v0, v1, q0, q1, tmp)" by (cases st)
  then have v: "length v0 = 5" "length v1 = 5" "length q0 = 5" "length q1 = 5" using st by simp_all
  note mult = ModMult_defined(1) [OF _ _ len(3,4)] and sqr = ModMult_defined(2) [OF _ len(3,3,4)]
    and sub = ModSub_defined [OF _ _ len(3)]
  obtain q where q: "ModMultOpt q0 q0 q1 p omega 5 = Some q" "length q = 5" using mult v by blast
  have "nat r div 32 < length k" using len(5,6) by linarith
  then obtain b where b: "b_testbit k (nat r) = Some b" by (simp add: b_testbit_def rd_def)
  show ?thesis
  proof (cases "b = 0")
    case False
    obtain q' where q': "ModMultOpt q1 q Q p omega 5 = Some q'" "length q' = 5" using mult len(2) q(2) by blast
    obtain t where t: "ModMultOpt tmp P q p omega 5 = Some t" "length t = 5" using mult len(1) q(2) by blast
    obtain w where w: "ModMultOpt v0 v0 v1 p omega 5 = Some w" "length w = 5" using mult v by blast
    obtain w0 where w0: "ModSub w t p 5 = Some w0" "length w0 = 5" using sub w(2) t(2) by blast
    obtain x where x: "ModSqrOpt v1 v1 p omega 5 = Some x" "length x = 5" using ModMult_defined(2) [OF v(2) _ len(3,4)] len by blast
    obtain x1 where x1: "ModSub x q' p 5 = Some x1" "length x1 = 5" using sub x(2) q'(2) by blast
    obtain x2 where x2: "ModSub x1 q' p 5 = Some x2" "length x2 = 5" using sub x1(2) q'(2) by blast
    show ?thesis using False b q q' t w w0 x x1 x2 by (simp add: s)
  next
    case True
    obtain x where x: "ModMultOpt v1 v1 v0 p omega 5 = Some x" "length x = 5" using mult v by blast
    obtain t where t: "ModMultOpt tmp P q p omega 5 = Some t" "length t = 5" using mult len(1) q(2) by blast
    obtain x1 where x1: "ModSub x t p 5 = Some x1" "length x1 = 5" using sub x(2) t(2) by blast
    obtain w where w: "ModSqrOpt v0 v0 p omega 5 = Some w" "length w = 5" using ModMult_defined(2) [OF v(1) _ len(3,4)] len by blast
    obtain w1 where w1: "ModSub w q p 5 = Some w1" "length w1 = 5" using sub w(2) q(2) by blast
    obtain w2 where w2: "ModSub w1 q p 5 = Some w2" "length w2 = 5" using sub w1(2) q(2) by blast
    have "Assign q 5 = Some q" using q(2) by (simp add: Assign_def)
    then show ?thesis using True b q x t x1 w w1 w2 by (simp add: s)
  qed
qed

lemma lucas_rounds_defined:
  assumes "lucas_wf st" "length P = 5" "length Q = 5" "length p = 5" "nn_val p \<noteq> 0" "length k = 5" "r < 160"
  shows "\<exists>st'. lucas_rounds n r P Q k p omega st = Some st'"
  using assms(1)
proof (induction n arbitrary: st)
  case (Suc n)
  obtain st' where "lucas_round r P Q k p omega st = Some st'" "lucas_wf st'"
    using lucas_round_defined [OF Suc.prems assms(2-)] by blast
  then show ?case using Suc.IH [of st'] by (simp only: lucas_rounds.simps Option.bind.bind_lunit)
next
  case 0
  then show ?case by (cases st) simp
qed

text \<open>The counter is the number of bits of \<open>k\<close> less 1, in 8 bits with a sign.\<close>

lemma lucas_start_val:
  assumes "length k = 5" "length P = 5"
  shows "\<exists>bits st. Bits k 5 = Some bits \<and> lucas_start P k junk = Some (schar (int bits - 1), st) \<and> lucas_wf st \<and>
    fst st = digit_array 2 \<and> fst (snd (snd st)) = digit_array 1"
  using assms Bits_val [OF assms(1)]
  by (auto simp: lucas_start_def wr_def AssignZero_def Assign_def digit_array_def)

lemma lucas_counter:
  assumes "length k = 5" "length P = 5" "0 < nn_val k" "nn_val k < 2 ^ 128"
  shows "\<exists>r st. lucas_start P k junk = Some (r, st) \<and> 0 \<le> r \<and> r < 160 \<and> lucas_wf st"
proof -
  obtain bits where b: "Bits k 5 = Some bits" "0 < bits" "2 ^ (bits - 1) \<le> nn_val k" using Bits_val [OF assms(1)] assms(3) by blast
  have "(2 :: nat) ^ (bits - 1) < 2 ^ 128" using b(3) assms(4) by linarith
  then have "bits - 1 < 128" by (rule power_less_imp_less_exp [rotated]) simp
  then have "schar (int bits - 1) = int bits - 1" using b(2) by simp
  then show ?thesis using lucas_start_val [OF assms(1,2), of junk] b(1,2) \<open>bits - 1 < 128\<close> by auto
qed

lemma Lucas_Sequence_none:
  assumes "length k = 5" "length P = 5" "0 < nn_val k" "nn_val k < 2 ^ 128"
  shows "Lucas_Sequence P Q k p omega junk = None"
  using lucas_counter [OF assms, of junk] by (auto simp: Lucas_Sequence_def lucas_loop_none)

text \<open>For greater numbers the counter starts with a negative value and the loop is skipped.\<close>

lemma Lucas_Sequence_skipped:
  assumes "length k = 5" "length P = 5" "2 ^ 128 \<le> nn_val k"
  shows "Lucas_Sequence P Q k p omega junk = Some (digit_array 2, digit_array 1)"
proof -
  obtain bits where b: "Bits k 5 = Some bits" "bits \<le> 160" "nn_val k < 2 ^ bits" using Bits_val [OF assms(1)] by blast
  have "(2 :: nat) ^ 128 < 2 ^ bits" using b(3) assms(3) by linarith
  then have "128 < bits" by (rule power_less_imp_less_exp [rotated]) simp
  then have "schar (int bits - 1) < 0" using b(2) by (simp add: schar_wrap)
  then show ?thesis using lucas_start_val [OF assms(1,2), of junk] b(1)
    by (auto simp: Lucas_Sequence_def lucas_loop.simps)
qed


section \<open>Square roots\<close>

lemma digit_array_val:
  "length (digit_array d) = 5" "nn_val (digit_array d) = unat d"
proof -
  have "digit_array d = d # replicate 4 0"
    unfolding digit_array_def AssignZero_def using replicate_Suc [of 4 "0 :: u32"] by simp
  then show "length (digit_array d) = 5" "nn_val (digit_array d) = unat d" by simp_all
qed

lemma nn_of_low: "0 < n \<Longrightarrow> nn_of n r ! 0 = word_of_nat r"
  by (cases n) simp_all

lemma rd_low: "rd (nn_of 5 r) 0 = Some (word_of_nat r)" "nn_of 5 r ! 0 = word_of_nat r"
  by (simp_all add: rd_def nn_of_low)

lemma nat_digit_eq: "r < NN \<Longrightarrow> k < NN \<Longrightarrow> (word_of_nat r :: u32) = word_of_nat k \<longleftrightarrow> r = k"
  by (auto dest: arg_cong [where f = unat] simp: unat_of_nat_digit)

lemma small_residue:
  assumes "r < 8"
  shows "(word_of_nat r :: u32) = 3 \<longleftrightarrow> r = 3" "(word_of_nat r :: u32) = 5 \<longleftrightarrow> r = 5" "(word_of_nat r :: u32) = 1 \<longleftrightarrow> r = 1"
proof -
  have r: "r < NN" using assms by simp
  show "(word_of_nat r :: u32) = 3 \<longleftrightarrow> r = 3" using nat_digit_eq [OF r, of 3] by simp
  show "(word_of_nat r :: u32) = 5 \<longleftrightarrow> r = 5" using nat_digit_eq [OF r, of 5] by simp
  show "(word_of_nat r :: u32) = 1 \<longleftrightarrow> r = 1" using nat_digit_eq [OF r, of 1] by simp
qed

lemma Div_small:
  assumes "length c = 5" "k < NN" "k \<noteq> 0"
  shows "Div c 5 (digit_array (word_of_nat k)) 5 = Some (Some (nn_of 5 (nn_val c div k), nn_of 5 (nn_val c mod k)))"
  using Div_val [of c 5 "digit_array (word_of_nat k)" 5] assms
  by (simp add: digit_array_val unat_of_nat_digit)

lemma add_one:
  assumes "length c = 5" "nn_val c + 1 < NN ^ 5"
  shows "Add c (digit_array 1) 5 = Some (nn_of 5 (nn_val c + 1), 0)"
  using Add_val [of c 5 "digit_array 1"] assms by (simp add: digit_array_val)

text \<open>The third case calls the sequence that does not end.\<close>

lemma sqrt_cases_search:
  assumes "length c = 5" "nn_val c mod 8 = 1" "nn_val c + 1 < NN ^ 5"
  shows "sqrt_cases b c 5 junk = Some (Inr (nn_of 5 ((nn_val c + 1) div 2)))"
proof -
  have "nn_val c mod 4 = nn_val c mod 8 mod 4" by (simp add: mod_mod_cancel)
  then have m: "nn_val c mod 4 = 1" using assms(2) by simp
  note Div4 = Div_small [OF assms(1), of 4, simplified] and Div8 = Div_small [OF assms(1), of 8, simplified]
  obtain k where "RShift (nn_of 5 (nn_val c + 1)) 1 5 = Some (nn_of 5 ((nn_val c + 1) div 2), k)"
    using RShift_val [of "nn_of 5 (nn_val c + 1)" 5 1] assms(3) by (auto simp: nn_val_of_less simp del: nn_of.simps)
  then show ?thesis using assms m Div4 Div8 add_one [OF assms(1,3)]
    by (simp add: sqrt_cases_def rd_low small_residue del: nn_of.simps)
qed

lemma ModSqrRootOpt_none:
  assumes "length b = 5" "length c = 5" "1 < nn_val c" "nn_val c mod 8 = 1" "nn_val c + 1 < 2 ^ 129"
  shows "\<exists>k r st. sqrt_cases b c 5 junk = Some (Inr k) \<and> Cmp (digit_array 1) c 5 = Some (- 1) \<and>
    lucas_start (digit_array 1) k junk = Some (r, st) \<and> 0 \<le> r \<and>
    (\<forall>n. \<exists>st'. lucas_rounds n r (digit_array 1) b k c omega st = Some st') \<and>
    ModSqrRootOpt b c 5 omega junk = None"
proof -
  let ?k = "nn_of 5 ((nn_val c + 1) div 2)"
  have small: "nn_val c + 1 < NN ^ 5" using assms(5) by simp
  have cases: "sqrt_cases b c 5 junk = Some (Inr ?k)" by (rule sqrt_cases_search [OF assms(2,4) small])
  have "(nn_val c + 1) div 2 < NN ^ 5" using small by linarith
  then have val: "nn_val ?k = (nn_val c + 1) div 2" by (rule nn_val_of_less)
  have "0 < (nn_val c + 1) div 2" "(nn_val c + 1) div 2 < 2 ^ 128" using assms(3,5) by simp_all
  then have k: "length ?k = 5" "0 < nn_val ?k" "nn_val ?k < 2 ^ 128" unfolding val by simp_all
  have one: "length (digit_array 1) = 5" by (simp add: digit_array_val)
  have cmp: "Cmp (digit_array 1) c 5 = Some (- 1)" using assms(2,3) one by (simp add: Cmp_val digit_array_val cmp_nat_def)
  obtain r st where st: "lucas_start (digit_array 1) ?k junk = Some (r, st)" "0 \<le> r" "r < 160" "lucas_wf st"
    using lucas_counter [OF k(1) one k(2,3)] by blast
  have "nn_val c \<noteq> 0" using assms(3) by simp
  then have rounds: "\<forall>n. \<exists>st'. lucas_rounds n r (digit_array 1) b ?k c omega st = Some st'"
    using lucas_rounds_defined [OF st(4) one assms(1,2) _ k(1) st(3)] by blast
  have "Lucas_Sequence (digit_array 1) b ?k c omega junk = None" by (rule Lucas_Sequence_none [OF k(1) one k(2,3)])
  then have "root_search (digit_array 1) b ?k c (digit_array 1) omega junk = None"
    using cmp by (subst root_search.simps) (simp del: nn_of.simps)
  then have "ModSqrRootOpt b c 5 omega junk = None" using cases by (simp add: ModSqrRootOpt_def del: nn_of.simps)
  then show ?thesis using cases cmp st(1,2) rounds by blast
qed

text \<open>The numbers of the first two cases are roots: \<open>x\<close> is a root of \<open>b\<close> for which Fermat's little theorem holds, and 2 is
  no square in the second case.\<close>

lemma root_3:
  assumes "x * x mod c = b" "x ^ (c - 1) mod c = 1" "c mod 4 = 3"
  shows "(b ^ (c div 4 + 1) mod c) * (b ^ (c div 4 + 1) mod c) mod c = (b :: nat)"
proof -
  let ?k = "c div 4"
  have c: "c - 1 + 2 = 2 * (2 * (?k + 1))" using assms(3) by presburger
  have "(b ^ (?k + 1) mod c) * (b ^ (?k + 1) mod c) mod c = b ^ (2 * (?k + 1)) mod c"
    unfolding mod_mult_eq power_add [symmetric] mult_2 ..
  also have "\<dots> = (x * x) ^ (2 * (?k + 1)) mod c" unfolding assms(1) [symmetric] by (rule power_mod)
  also have "(x * x) ^ (2 * (?k + 1)) = x ^ (c - 1 + 2)" unfolding c power_mult by (simp only: power2_eq_square)
  also have "x ^ (c - 1 + 2) mod c = (x ^ (c - 1) mod c) * (x * x) mod c"
    unfolding power_add by (simp only: power2_eq_square mod_mult_left_eq)
  also have "\<dots> = b" using assms(1,2) by simp
  finally show ?thesis .
qed

lemma int_mod_dvd: "int c dvd int (v mod c) - int v"
  by (metis dvd_diff_commute dvd_minus_mod of_nat_mod)

lemma root_5:
  assumes "x * x mod c = b" "x ^ (c - 1) mod c = 1" "2 ^ ((c - 1) div 2) mod c = c - 1" "c mod 8 = 5"
    and "t = 2 * b mod c" "g = t ^ (c div 8) mod c" "i = g * g mod c * t mod c" "j = (i + c - 1) mod c" "a = b * g mod c * j mod c"
  shows "a * a mod c = (b :: nat)"
proof -
  let ?k = "c div 8"
  have c1: "c - 1 = 2 * (4 * ?k + 2)" "(c - 1) div 2 = 4 * ?k + 2" "0 < c" using assms(4) by presburger+
  have "i * i mod c = (2 * b) ^ (4 * ?k + 2) mod c"
  proof -
    have "g * g mod c = t ^ ?k * t ^ ?k mod c" unfolding assms(6) by (rule mod_mult_eq)
    then have "i = t ^ ?k * t ^ ?k * t mod c" unfolding assms(7) by (simp only: mod_mult_left_eq)
    then have i: "i = t ^ (2 * ?k + 1) mod c" by (simp add: power_add mult_2 mult_ac)
    have e: "2 * ?k + 1 + (2 * ?k + 1) = 4 * ?k + 2" by simp
    have "i * i mod c = t ^ (4 * ?k + 2) mod c" unfolding i mod_mult_eq power_add [symmetric] e ..
    then show ?thesis unfolding assms(5) power_mod .
  qed
  also have "\<dots> = (2 ^ (4 * ?k + 2) mod c) * (b ^ (4 * ?k + 2) mod c) mod c" by (simp only: power_mult_distrib mod_mult_eq)
  also have "b ^ (4 * ?k + 2) mod c = 1"
  proof -
    have "b ^ (4 * ?k + 2) mod c = (x * x) ^ (4 * ?k + 2) mod c" unfolding assms(1) [symmetric] by (rule power_mod)
    also have "(x * x) ^ (4 * ?k + 2) = x ^ (c - 1)" unfolding c1(1) power_mult by (simp only: power2_eq_square)
    finally show ?thesis using assms(2) by simp
  qed
  also have "2 ^ (4 * ?k + 2) mod c = c - 1" using assms(3) unfolding c1(2) .
  finally have "i * i mod c = c - 1" using c1(3) by simp
  then have "(i * i + 1) mod c = 0" using c1(3) by (simp add: mod_Suc)
  then have I2: "int c dvd int i * int i + 1" by (metis mod_0_imp_dvd of_nat_1 of_nat_add of_nat_dvd_iff of_nat_mult)
  let ?A = "int a" and ?B = "int b" and ?G = "int g" and ?I = "int i" and ?C = "int c"
  have I1: "?C dvd ?I - 2 * ?B * ?G * ?G"
  proof -
    have "i = 2 * b * g * g mod c" unfolding assms(5,7) by (simp add: mod_mult_eq mult_ac)
    then show ?thesis using int_mod_dvd [of c "2 * b * g * g"] by simp
  qed
  have J: "?C dvd int j - (?I - 1)"
  proof -
    have "?C dvd (int j - int (i + c - 1)) + ?C" using int_mod_dvd [of c "i + c - 1"] assms(8) by simp
    moreover have "(int j - int (i + c - 1)) + ?C = int j - (?I - 1)" using c1(3) by (simp add: of_nat_diff)
    ultimately show ?thesis by metis
  qed
  have A: "?C dvd ?A - ?B * ?G * (?I - 1)"
  proof -
    have "a = b * g * j mod c" unfolding assms(9) by (simp add: mod_mult_left_eq)
    then have "?C dvd (?A - ?B * ?G * int j) + ?B * ?G * (int j - (?I - 1))"
      using int_mod_dvd [of c "b * g * j"] J by (intro dvd_add dvd_mult) simp_all
    then show ?thesis by (simp add: algebra_simps)
  qed
  have "?A * ?A - ?B = (?A - ?B * ?G * (?I - 1)) * (?A + ?B * ?G * (?I - 1)) + (?I * ?I + 1) * (?B * ?B * ?G * ?G - ?B) +
      (?I - 2 * ?B * ?G * ?G) * (?B * ?I)"
    by (simp add: algebra_simps)
  moreover have "?C dvd (?A - ?B * ?G * (?I - 1)) * (?A + ?B * ?G * (?I - 1)) + (?I * ?I + 1) * (?B * ?B * ?G * ?G - ?B) +
      (?I - 2 * ?B * ?G * ?G) * (?B * ?I)"
    by (intro dvd_add dvd_mult2 A I1 I2)
  ultimately have "?C dvd ?A * ?A - ?B" by simp
  then have "?A * ?A mod ?C = ?B mod ?C" by (simp add: mod_eq_dvd_iff)
  then have "a * a mod c = b mod c" by (metis of_nat_eq_iff of_nat_mod of_nat_mult)
  then show ?thesis using assms(1) by (metis mod_mod_trivial)
qed

lemma ModSqrRootOpt_3:
  assumes b: "length b = 5" and c: "length c = 5" "2 * nn_val c < NN ^ 5" "nn_val c mod 4 = 3"
  shows "ModSqrRootOpt b c 5 omega junk = Some (Some (nn_of 5 (nn_val b ^ (nn_val c div 4 + 1) mod nn_val c)))"
proof -
  let ?c = "nn_val c"
  have c1: "1 < ?c" using c(3) by (cases "?c = 0 \<or> ?c = 1") auto
  have q: "nn_val (nn_of 5 (?c div 4)) = ?c div 4"
    using nn_val_less [of c] c(1) by (intro nn_val_of_less) (metis div_le_dividend le_less_trans)
  have k: "?c div 4 + 1 < NN ^ 5" using c(2) c1 div_le_dividend [of ?c 4] by linarith
  then have "Add (nn_of 5 (?c div 4)) (digit_array 1) 5 = Some (nn_of 5 (?c div 4 + 1), 0)"
    using add_one [of "nn_of 5 (?c div 4)"] q by simp
  moreover have "ModExp junk b (nn_of 5 (?c div 4 + 1)) 5 c 5 = Some (nn_of 5 (nn_val b ^ (?c div 4 + 1) mod ?c))"
    using ModExp_val [of b 5 "nn_of 5 (?c div 4 + 1)" 5 c junk] b c(1) c1 nn_val_of_less [OF k] by simp
  ultimately show ?thesis
    using c(3) Div_small [OF c(1), of 4, simplified] by (simp add: ModSqrRootOpt_def sqrt_cases_def rd_low del: nn_of.simps)
qed

lemma ModSqrRootOpt_val:
  assumes b: "length b = 5" "nn_val b < nn_val c" and c: "length c = 5" "2 * nn_val c < NN ^ 5"
    and x: "x * x mod nn_val c = nn_val b" "x ^ (nn_val c - 1) mod nn_val c = 1"
    and cases: "nn_val c mod 4 = 3 \<or> nn_val c mod 8 = 5 \<and> 2 ^ ((nn_val c - 1) div 2) mod nn_val c = nn_val c - 1"
  shows "\<exists>a. ModSqrRootOpt b c 5 omega junk = Some (Some (nn_of 5 a)) \<and> a < nn_val c \<and> a * a mod nn_val c = nn_val b"
proof -
  let ?c = "nn_val c" and ?b = "nn_val b"
  have c1: "1 < ?c" using cases by (cases "?c = 0 \<or> ?c = 1") auto
  have less: "v mod ?c < NN ^ 5" "v div k < NN ^ 5 \<longleftrightarrow> v div k < NN ^ 5" for v k
    using nn_val_less [of c] c c1 by (metis less_trans mod_less_divisor zero_less_one) auto
  have val: "nn_val (nn_of 5 (v mod ?c)) = v mod ?c" for v using less(1) by (rule nn_val_of_less)
  have quarter: "nn_val (nn_of 5 (?c div k)) = ?c div k" for k
    using nn_val_less [of c] c by (intro nn_val_of_less) (metis div_le_dividend le_less_trans)
  note Div4 = Div_small [OF c(1), of 4, simplified] and Div8 = Div_small [OF c(1), of 8, simplified]
  show ?thesis
  proof (cases "?c mod 4 = 3")
    case True
    from ModSqrRootOpt_3 [OF b(1) c True]
    have "ModSqrRootOpt b c 5 omega junk = Some (Some (nn_of 5 (?b ^ (?c div 4 + 1) mod ?c)))" .
    then show ?thesis using root_3 [OF x True] c1 by (intro exI [of _ "?b ^ (?c div 4 + 1) mod ?c"]) simp
  next
    case False
    then have five: "?c mod 8 = 5" and two: "2 ^ ((?c - 1) div 2) mod ?c = ?c - 1" using cases by simp_all
    have one: "?c mod 4 = 1" using five by presburger
    define t where "t = 2 * ?b mod ?c"
    define g where "g = t ^ (?c div 8) mod ?c"
    define i where "i = g * g mod ?c * t mod ?c"
    define j where "j = (i + ?c - 1) mod ?c"
    define a where "a = ?b * g mod ?c * j mod ?c"
    note vals = val [of "2 * ?b", folded t_def] val [of "t ^ (?c div 8)", folded g_def] val [of "g * g"]
      val [of "g * g mod ?c * t", folded i_def] val [of "i + ?c - 1", folded j_def] val [of "?b * g"]
    obtain tw k where "LShift b 1 5 = Some (tw, k)" "length tw = 5" "nn_val tw + NN ^ 5 * unat k = 2 ^ 1 * ?b"
      by (rule LShift_val [OF b(1), of 1]) simp_all
    moreover from this have "unat k = 0" using b(2) c(2) by (cases "unat k") simp_all
    ultimately have tw: "LShift b 1 5 = Some (tw, k)" "length tw = 5" "nn_val tw = 2 * ?b" by simp_all
    have tg: "(if cmp_nat (nn_val tw) ?c \<ge> 0 then map_option fst (Sub tw c 5) else Some tw) = Some (nn_of 5 t)"
      using tw b(2) c(1) Sub_le [of tw 5 c] nn_of_val [OF tw(2)] by (auto simp: t_def le_mod_geq)
    have ii: "i < ?c" using c1 by (simp add: i_def)
    have "ModSqrRootOpt b c 5 omega junk = Some (Some (nn_of 5 a))"
      using b c c1 five one Div4 Div8 tw(1,2) tg ii vals quarter [of 8]
      by (simp add: ModSqrRootOpt_def sqrt_cases_def rd_low small_residue Cmp_val ModExp_val ModSqr_val ModMult_val ModSub_val digit_array_val
          g_def [symmetric] i_def [symmetric] j_def [symmetric, unfolded One_nat_def] a_def [symmetric] del: nn_of.simps)
    moreover have "a < ?c" using c1 by (simp add: a_def)
    ultimately show ?thesis using root_5 [OF x two five t_def g_def i_def j_def a_def] by blast
  qed
qed


section \<open>Properties\<close>

text \<open>C19: \<open>Div\<close> gives quotient and remainder of the numbers its arrays stand for, with as many digits as
  the arrays have. For the divisor 0 it assigns nothing, and with it \<open>Mod\<close> leaves its result array as it was.\<close>

theorem nn_division:
  assumes "length c = m" "m \<le> 11" "length d = n" "n \<le> 6"
  shows "Div c m d n =
      Some (if nn_val d = 0 then None else Some (nn_of m (nn_val c div nn_val d), nn_of n (nn_val c mod nn_val d))) \<and>
    Mod a c m d n = Some (if nn_val d = 0 then a else nn_of n (nn_val c mod nn_val d))"
  using assms by (simp_all add: Div_val Div_by_0 Mod_def)

theorem nn_division_witness:
  "Div [7, 5] 2 [3] 1 = Some (Some (nn_of 2 ((7 + 5 * NN) div 3), nn_of 1 ((7 + 5 * NN) mod 3))) \<and>
   Mod [9] [7, 5] 2 [0] 1 = Some [9]"
  using nn_division [of "[7, 5]" 2 "[3]" 1 "[]"] nn_division [of "[7, 5]" 2 "[0]" 1 "[9]"] by (simp add: mult.commute)

text \<open>C20: \<open>ModExp\<close>, which reads two bits of the exponent at a time and multiplies by one of the first three powers of
  the base, gives the power modulo the modulus, for every modulus greater than 1 and every exponent in an array of at
  most 128 digits. For the longer arrays that the length, a \<^verbatim>\<open>uint8_t\<close>, allows, the counter of 8 bits with a sign is
  negative from the start, and the result is 1 whatever the exponent.\<close>

theorem mod_exp_power:
  assumes "length b = n" "length c = m" "m < 256" "length d = n" "n \<le> 5" "1 < nn_val d"
  shows "ModExp junk b c m d n = Some (nn_of n (if m \<le> 128 then nn_val b ^ nn_val c mod nn_val d else 1))"
  using assms ModExp_val [of b n c m d junk] ModExp_wrapped [of b n m d junk c] by simp

theorem mod_exp_power_witness:
  "ModExp [] [3] [5, 0] 2 [7] 1 = Some (nn_of 1 (3 ^ 5 mod 7)) \<and> ModExp [] [3] (replicate 129 1) 129 [7] 1 = Some (nn_of 1 1)"
  using mod_exp_power [of "[3]" 1 "[5, 0]" 2 "[7]" "[]"] mod_exp_power [of "[3]" 1 "replicate 129 1" 129 "[7]" "[]"] by simp

text \<open>C21: For an odd modulus with a spare bit and a divisor without a common factor, \<open>ModDiv\<close> ends and gives the number
  below the modulus that times the divisor is the dividend. \<open>ModInv\<close> gives the inverse. For the divisor 0
  \<open>ModDiv\<close> never returns.\<close>

theorem mod_quotient_inverse:
  assumes "length b = n" "length c = n" "length d = n" "n \<le> 5" "odd (nn_val d)" "2 * nn_val d \<le> NN ^ n" "1 < nn_val d"
    "nn_val b < nn_val d" "gcd (nn_val c) (nn_val d) = 1" "nn_val z = 0" "length z = n"
  shows "\<exists>q i. ModDiv b c d n = Some (nn_of n q) \<and> q < nn_val d \<and> q * nn_val c mod nn_val d = nn_val b \<and>
    ModInv c d n = Some (nn_of n i) \<and> i < nn_val d \<and> i * nn_val c mod nn_val d = 1 \<and>
    ModDiv b z d n = None"
proof -
  have "nn_val c \<noteq> 0" using assms(7,9) by (metis gcd_0_left_nat less_numeral_extra(4))
  then show ?thesis using ModDiv_val [OF assms(1-6,8,9)] ModInv_val [OF assms(2-4,7,9)] ModDiv_zero [OF assms(1,11,3,4,10)] assms(7)
    by fastforce
qed

theorem mod_quotient_inverse_witness:
  "\<exists>q i. ModDiv [3] [5] [7] 1 = Some (nn_of 1 q) \<and> q < 7 \<and> q * 5 mod 7 = 3 \<and>
    ModInv [5] [7] 1 = Some (nn_of 1 i) \<and> i < 7 \<and> i * 5 mod 7 = 1 \<and> ModDiv [3] [0] [7] 1 = None"
proof -
  have g: "gcd 5 (7 :: nat) = 1" by (simp add: gcd_non_0_nat)
  show ?thesis using mod_quotient_inverse [of "[3]" 1 "[5]" "[7]" "[0]"] g by simp
qed

text \<open>C22: For a modulus that is 3 modulo 4, or 5 modulo 8 with 2 a non-square, \<open>ModSqrRootOpt\<close> gives a root of every
  square for which Fermat's little theorem holds.\<close>

theorem sqrt_gives_root:
  assumes "length b = 5" "nn_val b < nn_val c" "length c = 5" "2 * nn_val c < NN ^ 5"
    and "x * x mod nn_val c = nn_val b" "x ^ (nn_val c - 1) mod nn_val c = 1"
    and "nn_val c mod 4 = 3 \<or> nn_val c mod 8 = 5 \<and> 2 ^ ((nn_val c - 1) div 2) mod nn_val c = nn_val c - 1"
  shows "\<exists>a. ModSqrRootOpt b c 5 omega junk = Some (Some (nn_of 5 a)) \<and> a < nn_val c \<and> a * a mod nn_val c = nn_val b"
  using assms by (rule ModSqrRootOpt_val)

theorem sqrt_gives_root_witness:
  "(\<exists>a. ModSqrRootOpt [2, 0, 0, 0, 0] [7, 0, 0, 0, 0] 5 [0, 0, 0, 0, 0] [0, 0, 0, 0, 0] = Some (Some (nn_of 5 a)) \<and> a < 7 \<and> a * a mod 7 = 2) \<and>
   (\<exists>a. ModSqrRootOpt [10, 0, 0, 0, 0] [13, 0, 0, 0, 0] 5 [0, 0, 0, 0, 0] [0, 0, 0, 0, 0] = Some (Some (nn_of 5 a)) \<and> a < 13 \<and> a * a mod 13 = 10)"
  using sqrt_gives_root [of "[2, 0, 0, 0, 0]" "[7, 0, 0, 0, 0]" 3 "[0, 0, 0, 0, 0]" "[0, 0, 0, 0, 0]"]
    sqrt_gives_root [of "[10, 0, 0, 0, 0]" "[13, 0, 0, 0, 0]" 6 "[0, 0, 0, 0, 0]" "[0, 0, 0, 0, 0]"] by simp

text \<open>C23: For a modulus \<open>c\<close> that is 1 modulo 8, and less than \<open>2 ^ 129 - 1\<close>, as all moduli for the keys of 128 bits that the
  file is configured for, \<open>ModSqrRootOpt\<close> never returns, whatever the number: it gets to the loop of \<open>Lucas_Sequence\<close>
  with a counter that is not negative, the loop does not change the counter, and each of its rounds is defined, so that
  the missing result does not come from an access outside of an array. For greater moduli the counter of 8 bits with a sign is
  negative and the loop is skipped (\<open>Lucas_Sequence_skipped\<close>).\<close>

theorem sqrt_never_returns:
  assumes "length b = 5" "length c = 5" "1 < nn_val c" "nn_val c mod 8 = 1" "nn_val c + 1 < 2 ^ 129"
  shows "\<exists>k r st. sqrt_cases b c 5 junk = Some (Inr k) \<and> Cmp (digit_array 1) c 5 = Some (- 1) \<and>
    lucas_start (digit_array 1) k junk = Some (r, st) \<and> 0 \<le> r \<and>
    (\<forall>n. \<exists>st'. lucas_rounds n r (digit_array 1) b k c omega st = Some st') \<and>
    ModSqrRootOpt b c 5 omega junk = None"
  using assms by (rule ModSqrRootOpt_none)

theorem sqrt_never_returns_witness: "ModSqrRootOpt [2, 0, 0, 0, 0] [17, 0, 0, 0, 0] 5 [0, 0, 0, 0, 0] [0, 0, 0, 0, 0] = None"
  using sqrt_never_returns [of "[2, 0, 0, 0, 0]" "[17, 0, 0, 0, 0]" "[0, 0, 0, 0, 0]" "[0, 0, 0, 0, 0]"] by auto

end
