(* ===== verification/Elliptic_Curve_Correct.thy ===== *)
theory Elliptic_Curve_Correct
  imports Elliptic_Curve Modular_Correct
begin

text \<open>
  Points of \<open>Elliptic_Curve\<close> stay on the curve: sums and doubles are those of chords and tangents, multiples are those of
  the digits of the number, the octets of a point are decoded again, and where these operations fail.
\<close>

unbundle bit_operations_syntax

section \<open>Residues\<close>

text \<open>A modulus for which every operation is right; \<open>res p v\<close> are the digits of the integer \<open>v\<close> modulo it.\<close>

definition good_modulus :: "u32 list \<Rightarrow> bool" where
  "good_modulus p = (length p = 5 \<and> odd (nn_val p) \<and> 1 < nn_val p \<and> 2 * nn_val p < NN ^ 5)"

definition res :: "u32 list \<Rightarrow> int \<Rightarrow> u32 list" where
  "res p v = nn_of 5 (nat (v mod int (nn_val p)))"

lemma length_res [simp]: "length (res p v) = 5"
  by (simp add: res_def del: nn_of.simps)

lemma res_val: "good_modulus p \<Longrightarrow> nn_val (res p v) = nat (v mod int (nn_val p))"
proof -
  assume g: "good_modulus p"
  have "nat (v mod int (nn_val p)) < nn_val p" using g by (simp add: good_modulus_def nat_less_iff)
  then show ?thesis using g unfolding res_def by (intro nn_val_of_less) (simp add: good_modulus_def)
qed

lemma res_less: "good_modulus p \<Longrightarrow> nn_val (res p v) < nn_val p"
  by (simp add: res_val good_modulus_def nat_less_iff)

lemma nn_of_res: "nn_of 5 (v mod nn_val p) = res p (int v)"
  by (simp add: res_def zmod_int [symmetric] del: nn_of.simps)

lemma res_cong: "u mod int (nn_val p) = v mod int (nn_val p) \<Longrightarrow> res p u = res p v"
  by (simp add: res_def del: nn_of.simps)

lemma res_eq_iff: "good_modulus p \<Longrightarrow> res p u = res p v \<longleftrightarrow> int (nn_val p) dvd u - v"
proof -
  assume g: "good_modulus p"
  have "res p u = res p v \<longleftrightarrow> nn_val (res p u) = nn_val (res p v)" using nn_val_inj [of "res p u" "res p v"] by auto
  also have "\<dots> \<longleftrightarrow> u mod int (nn_val p) = v mod int (nn_val p)" using g by (simp add: res_val good_modulus_def eq_nat_nat_iff)
  finally show ?thesis by (simp add: mod_eq_dvd_iff)
qed

lemma res_of_val: "good_modulus p \<Longrightarrow> length a = 5 \<Longrightarrow> nn_val a < nn_val p \<Longrightarrow> a = res p (int (nn_val a))"
  by (simp add: res_def nn_of_val del: nn_of.simps)

lemma int_res_val: "good_modulus p \<Longrightarrow> int (nn_val (res p v)) = v mod int (nn_val p)"
  by (simp add: res_val good_modulus_def)

lemma res_add: "good_modulus p \<Longrightarrow> ModAdd (res p u) (res p v) p 5 = Some (res p (u + v))"
proof -
  assume g: "good_modulus p"
  have "res p (int (nn_val (res p u) + nn_val (res p v))) = res p (u + v)"
    by (intro res_cong) (simp add: int_res_val [OF g] mod_add_eq)
  then show ?thesis using g ModAdd_val [of "res p u" 5 "res p v" p] by (simp add: res_less nn_of_res good_modulus_def)
qed

lemma res_sub: "good_modulus p \<Longrightarrow> ModSub (res p u) (res p v) p 5 = Some (res p (u - v))"
proof -
  assume g: "good_modulus p"
  have e: "int (nn_val (res p u) + nn_val p - nn_val (res p v)) = (u mod int (nn_val p) - v mod int (nn_val p)) + int (nn_val p)"
    using res_less [OF g, of v] by (simp add: of_nat_diff int_res_val [OF g])
  have "res p (int (nn_val (res p u) + nn_val p - nn_val (res p v))) = res p (u - v)"
    unfolding e by (intro res_cong) (simp add: mod_diff_eq)
  then show ?thesis using g ModSub_val [of "res p u" 5 "res p v" p] by (simp add: res_less nn_of_res good_modulus_def)
qed

lemma res_mult: "good_modulus p \<Longrightarrow> ModMultOpt a (res p u) (res p v) p omega 5 = Some (res p (u * v))"
proof -
  assume g: "good_modulus p"
  have "res p (int (nn_val (res p u) * nn_val (res p v))) = res p (u * v)"
    by (intro res_cong) (simp add: int_res_val [OF g] mod_mult_eq)
  then show ?thesis using g ModMult_val [of "res p u" 5 "res p v" p a]
    by (simp add: ModMultOpt_def nn_of_res good_modulus_def del: of_nat_mult)
qed

lemma res_sqr: "good_modulus p \<Longrightarrow> ModSqrOpt a (res p u) p omega 5 = Some (res p (u * u))"
proof -
  assume g: "good_modulus p"
  have "res p (int (nn_val (res p u) * nn_val (res p u))) = res p (u * u)"
    by (intro res_cong) (simp add: int_res_val [OF g] mod_mult_eq)
  then show ?thesis using g ModSqr_val(2) [of "res p u" 5 p a omega]
    by (simp add: nn_of_res good_modulus_def del: of_nat_mult)
qed

lemma res_twice: "good_modulus p \<Longrightarrow> mod_twice (res p u) p = Some (res p (2 * u))"
proof -
  assume g: "good_modulus p"
  let ?a = "nn_val (res p u)" and ?p = "nn_val p"
  have a: "?a < ?p" "2 * ?a < NN ^ 5" using res_less [OF g, of u] g by (simp_all add: good_modulus_def)
  obtain t k where t: "LShift (res p u) 1 5 = Some (t, k)" "length t = 5" "nn_val t + NN ^ 5 * unat k = 2 ^ 1 * ?a"
    by (rule LShift_val [of "res p u" 5 1]) simp_all
  have "unat k = 0" using t(3) a(2) by (cases "unat k") simp_all
  then have v: "nn_val t = 2 * ?a" using t(3) by simp
  have "2 * ?a mod ?p = (if 2 * ?a < ?p then 2 * ?a else 2 * ?a - ?p)" using a(1) by (simp add: mod_if [of "2 * ?a"])
  then have "mod_twice (res p u) p = Some (nn_of 5 (2 * ?a mod ?p))"
    using t v g nn_of_val [OF t(2)] Cmp_val [OF t(2), of p] Sub_le [OF t(2), of p] by (auto simp: mod_twice_def good_modulus_def not_less)
  moreover have "res p (int (2 * ?a)) = res p (2 * u)" by (intro res_cong) (simp add: int_res_val [OF g] mod_mult_right_eq)
  ultimately show ?thesis by (simp add: nn_of_res del: of_nat_mult)
qed

lemma res_zero: "good_modulus p \<Longrightarrow> Zero (res p v) 5 = Some (int (nn_val p) dvd v)"
  using res_eq_iff [of p v 0] by (simp add: Zero_val res_val dvd_eq_mod_eq_0 nat_eq_iff good_modulus_def)

lemma res_equal: "good_modulus p \<Longrightarrow> Equal (res p u) (res p v) 5 = Some (int (nn_val p) dvd u - v)"
  using res_eq_iff [of p u v] nn_val_inj [of "res p u" "res p v"] by (auto simp: Equal_val)

lemma res_assign [simp]: "Assign (res p v) 5 = Some (res p v)"
  by (simp add: Assign_def rd_prefix)

lemma res_div:
  assumes g: "good_modulus p" and "coprime v (int (nn_val p))"
  shows "\<exists>l. ModDiv (res p u) (res p v) p 5 = Some (res p l) \<and> int (nn_val p) dvd l * v - u"
proof -
  let ?p = "int (nn_val p)"
  have "gcd (v mod ?p) ?p = 1" using assms(2) gcd_red_int [of v ?p] by (simp add: coprime_iff_gcd_eq_1 gcd.commute)
  then have c: "gcd (nn_val (res p v)) (nn_val p) = 1" by (metis gcd_int_int_eq int_res_val [OF g] of_nat_1 of_nat_eq_iff)
  then have "nn_val (res p v) \<noteq> 0" using g by (metis gcd_0_left_nat good_modulus_def less_irrefl)
  then obtain a where a: "ModDiv (res p u) (res p v) p 5 = Some (nn_of 5 a)" "a < nn_val p" "a * nn_val (res p v) mod nn_val p = nn_val (res p u)"
    using ModDiv_val [of "res p u" 5 "res p v" p] c g res_less [OF g, of u] by (auto simp: good_modulus_def)
  have "nn_of 5 a = res p (int a)" using a(2) nn_of_res [of a p] by simp
  moreover have "(int a * v - u) mod ?p = 0"
  proof -
    have "int a * (v mod ?p) mod ?p = u mod ?p" using a(3) by (metis int_res_val [OF g] of_nat_mod of_nat_mult)
    then show ?thesis by (simp add: mod_mult_right_eq mod_eq_dvd_iff mod_0_imp_dvd dvd_imp_mod_0)
  qed
  ultimately show ?thesis using a(1) by auto
qed

lemma res_div_zero: "good_modulus p \<Longrightarrow> int (nn_val p) dvd v \<Longrightarrow> ModDiv (res p u) (res p v) p 5 = None"
  using ModDiv_zero [of "res p u" 5 "res p v" p] by (simp add: res_val good_modulus_def)

lemmas res_ops = res_add res_sub res_mult res_sqr res_twice res_zero res_equal


section \<open>Points\<close>

text \<open>The curve of the parameters: a prime modulus (every smaller number is coprime to it) and coefficients below it.\<close>

definition curve_ok :: "Params \<Rightarrow> bool" where
  "curve_ok prm = (good_modulus (prm_p prm) \<and> (\<forall>k \<in> {1..<nn_val (prm_p prm)}. coprime k (nn_val (prm_p prm))) \<and>
     length (curve_a (prm_E prm)) = 5 \<and> nn_val (curve_a (prm_E prm)) < nn_val (prm_p prm) \<and>
     length (curve_b (prm_E prm)) = 5 \<and> nn_val (curve_b (prm_E prm)) < nn_val (prm_p prm))"

definition point :: "Params \<Rightarrow> int \<Rightarrow> int \<Rightarrow> Point" where
  "point prm x y = \<lparr>pt_x = res (prm_p prm) x, pt_y = res (prm_p prm) y\<rparr>"

definition ec_p :: "Params \<Rightarrow> int" where "ec_p prm = int (nn_val (prm_p prm))"
definition ec_a :: "Params \<Rightarrow> int" where "ec_a prm = int (nn_val (curve_a (prm_E prm)))"
definition ec_b :: "Params \<Rightarrow> int" where "ec_b prm = int (nn_val (curve_b (prm_E prm)))"

text \<open>The equation of the curve modulo the prime.\<close>

definition on_curve :: "Params \<Rightarrow> int \<Rightarrow> int \<Rightarrow> bool" where
  "on_curve prm x y = (ec_p prm dvd y * y - (x * x * x + ec_a prm * x + ec_b prm))"

lemma curve_ok_good: "curve_ok prm \<Longrightarrow> good_modulus (prm_p prm)"
  by (simp add: curve_ok_def)

lemma curve_ok_a: "curve_ok prm \<Longrightarrow> curve_a (prm_E prm) = res (prm_p prm) (ec_a prm)"
  by (simp add: curve_ok_def ec_a_def res_of_val [symmetric])

lemma curve_ok_b: "curve_ok prm \<Longrightarrow> curve_b (prm_E prm) = res (prm_p prm) (ec_b prm)"
  by (simp add: curve_ok_def ec_b_def res_of_val [symmetric])

lemma curve_ok_coprime:
  assumes "curve_ok prm" "\<not> ec_p prm dvd v"
  shows "coprime v (ec_p prm)"
proof -
  let ?p = "nn_val (prm_p prm)"
  have p: "0 < ?p" using assms(1) by (simp add: curve_ok_def good_modulus_def)
  have "0 < v mod int ?p" using assms(2) p by (metis dvd_eq_mod_eq_0 ec_p_def le_neq_trans of_nat_0_less_iff pos_mod_sign)
  then have "nat (v mod int ?p) \<in> {1..<?p}" using p by (simp add: nat_less_iff Suc_le_eq)
  then have "coprime (nat (v mod int ?p)) ?p" using assms(1) by (simp add: curve_ok_def)
  then have "coprime (v mod int ?p) (int ?p)" using p by (metis coprime_int_iff int_nat_eq of_nat_0_less_iff pos_mod_sign)
  then show ?thesis using gcd_red_int [of v "int ?p"] by (simp add: coprime_iff_gcd_eq_1 gcd.commute ec_p_def)
qed

lemma point_Zero: "curve_ok prm \<Longrightarrow> p_iszero (point prm x y) = Some (ec_p prm dvd x \<and> ec_p prm dvd y)"
  by (simp add: p_iszero_def point_def res_zero curve_ok_good ec_p_def)

lemma point_equal: "curve_ok prm \<Longrightarrow> p_equal (point prm x y) (point prm x' y') = Some (ec_p prm dvd x - x' \<and> ec_p prm dvd y - y')"
  by (simp add: p_equal_def point_def res_equal curve_ok_good ec_p_def)

lemma point_copy: "p_copy (point prm x y) = Some (point prm x y)"
  by (simp add: p_copy_def point_def)

lemma p_clear_point: "p_clear = point prm 0 0"
  by (simp add: p_clear_def point_def res_def AssignZero_def)

lemma point_cong: "curve_ok prm \<Longrightarrow> ec_p prm dvd x - x' \<Longrightarrow> ec_p prm dvd y - y' \<Longrightarrow> point prm x y = point prm x' y'"
  by (simp add: point_def res_eq_iff curve_ok_good ec_p_def)

section \<open>Chords and tangents\<close>

lemma dbl_zero: "curve_ok prm \<Longrightarrow> ec_p prm dvd y \<Longrightarrow> c_dbl_affine prm junk P0 (point prm x y) = Some P0"
  by (simp add: c_dbl_affine_def point_def res_zero curve_ok_good ec_p_def)

lemma slope_exists:
  assumes c: "curve_ok prm" and "\<not> ec_p prm dvd v"
  shows "\<exists>l. ModDiv (res (prm_p prm) u) (res (prm_p prm) v) (prm_p prm) 5 = Some (res (prm_p prm) l) \<and> ec_p prm dvd l * v - u"
  using res_div [OF curve_ok_good [OF c], of v u] curve_ok_coprime [OF assms] by (simp add: ec_p_def)

text \<open>The slope of the tangent.\<close>

lemma dbl_tangent:
  assumes c: "curve_ok prm" and y: "\<not> ec_p prm dvd y"
  shows "\<exists>l. ec_p prm dvd l * (2 * y) - (3 * (x * x) + ec_a prm) \<and>
    c_dbl_affine prm junk P0 (point prm x y) = Some (point prm (l * l - 2 * x) (l * (x - (l * l - 2 * x)) - y))"
proof -
  note g = curve_ok_good [OF c]
  have "\<not> ec_p prm dvd 2 * y"
  proof -
    have "coprime (ec_p prm) 2" using g by (simp add: good_modulus_def ec_p_def coprime_right_2_iff_odd)
    then show ?thesis using y coprime_dvd_mult_right_iff by blast
  qed
  from slope_exists [OF c this] obtain l where
    l: "ModDiv (res (prm_p prm) (3 * (x * x) + ec_a prm)) (res (prm_p prm) (2 * y)) (prm_p prm) 5 = Some (res (prm_p prm) l)"
      "ec_p prm dvd l * (2 * y) - (3 * (x * x) + ec_a prm)" by blast
  have e: "2 * (x * x) + x * x + ec_a prm = 3 * (x * x) + ec_a prm" by simp
  show ?thesis using l(1) y
    by (intro exI [of _ l] conjI l(2)) (simp add: c_dbl_affine_def point_def res_ops [OF g] curve_ok_a [OF c] e ec_p_def)
qed

lemma add_chord:
  assumes c: "curve_ok prm" and x: "\<not> ec_p prm dvd x2 - x1"
    and nz: "\<not> (ec_p prm dvd x1 \<and> ec_p prm dvd y1)" "\<not> (ec_p prm dvd x2 \<and> ec_p prm dvd y2)"
  shows "\<exists>l. ec_p prm dvd l * (x2 - x1) - (y2 - y1) \<and>
    c_add_affine prm junk P0 (point prm x1 y1) (point prm x2 y2) =
      Some (point prm (l * l - x1 - x2) (l * (x1 - (l * l - x1 - x2)) - y1))"
proof -
  note g = curve_ok_good [OF c]
  from slope_exists [OF c x] obtain l where
    l: "ModDiv (res (prm_p prm) (y2 - y1)) (res (prm_p prm) (x2 - x1)) (prm_p prm) 5 = Some (res (prm_p prm) l)"
      "ec_p prm dvd l * (x2 - x1) - (y2 - y1)" by blast
  have e: "\<not> ec_p prm dvd x1 - x2" using x dvd_minus_iff [of "ec_p prm" "x1 - x2"] by simp
  have "c_add_affine prm junk P0 (point prm x1 y1) (point prm x2 y2) =
      Some (point prm (l * l - x1 - x2) (l * (x1 - (l * l - x1 - x2)) - y1))"
    by (simp add: c_add_affine_def point_equal [OF c] point_Zero [OF c] e nz, simp add: point_def res_ops [OF g] l(1) mult.commute)
  then show ?thesis using l(2) by blast
qed

lemma add_same:
  assumes c: "curve_ok prm" and "ec_p prm dvd x1 - x2" "ec_p prm dvd y1 - y2"
  shows "c_add_affine prm junk P0 (point prm x1 y1) (point prm x2 y2) = c_dbl_affine prm junk P0 (point prm x1 y1)"
  using assms by (simp add: c_add_affine_def point_equal [OF c])

lemma add_zero:
  assumes c: "curve_ok prm" and nz: "\<not> (ec_p prm dvd x \<and> ec_p prm dvd y)"
  shows "c_add_affine prm junk P0 (point prm 0 0) (point prm x y) = Some (point prm x y)"
    and "c_add_affine prm junk P0 (point prm x y) (point prm 0 0) = Some (point prm x y)"
  by (simp_all add: c_add_affine_def point_equal [OF c] point_Zero [OF c] point_copy nz)

text \<open>Points with the same \<open>x\<close> and different \<open>y\<close>, such as a point and its negative.\<close>

lemma add_negative:
  assumes c: "curve_ok prm" and x: "ec_p prm dvd x1 - x2" "\<not> ec_p prm dvd y1 - y2"
    and nz: "\<not> (ec_p prm dvd x1 \<and> ec_p prm dvd y1)" "\<not> (ec_p prm dvd x2 \<and> ec_p prm dvd y2)"
  shows "c_add_affine prm junk P0 (point prm x1 y1) (point prm x2 y2) = None"
proof -
  note g = curve_ok_good [OF c]
  have "int (nn_val (prm_p prm)) dvd x2 - x1" using x(1) by (metis dvd_diff_commute ec_p_def)
  then show ?thesis
    by (simp add: c_add_affine_def point_equal [OF c] point_Zero [OF c] x nz, simp add: point_def res_ops [OF g] res_div_zero [OF g])
qed


section \<open>The third point lies on the curve\<close>

lemma prm_dvd_cancel: "curve_ok prm \<Longrightarrow> \<not> ec_p prm dvd u \<Longrightarrow> ec_p prm dvd u * v \<Longrightarrow> ec_p prm dvd v"
  using curve_ok_coprime [of prm u] by (simp add: coprime_commute coprime_dvd_mult_right_iff)

lemma tangent_on_curve:
  assumes "ec_p prm dvd l * (2 * y) - (3 * (x * x) + ec_a prm)" "on_curve prm x y" "X = l * l - 2 * x" "Y = l * (x - X) - y"
  shows "on_curve prm X Y"
proof -
  have e: "Y * Y - (X * X * X + ec_a prm * X + ec_b prm) =
      (y * y - (x * x * x + ec_a prm * x + ec_b prm)) + (X - x) * (l * (2 * y) - (3 * (x * x) + ec_a prm))"
    unfolding assms(3,4) by (simp add: algebra_simps)
  show ?thesis unfolding on_curve_def e by (intro dvd_add dvd_mult assms(1) assms(2) [unfolded on_curve_def])
qed

lemma chord_on_curve:
  assumes c: "curve_ok prm" and x: "\<not> ec_p prm dvd x2 - x1" and l: "ec_p prm dvd l * (x2 - x1) - (y2 - y1)"
    and on: "on_curve prm x1 y1" "on_curve prm x2 y2" and X: "X = l * l - x1 - x2" and Y: "Y = l * (x1 - X) - y1"
  shows "on_curve prm X Y"
proof -
  let ?D = "l * (x2 - x1) - (y2 - y1)"
  let ?f = "\<lambda>x. x * x * x + ec_a prm * x + ec_b prm"
  let ?q = "x2 * x2 + x2 * x1 + x1 * x1 + ec_a prm - l * (2 * y1 + l * (x2 - x1))"
  note on = on [unfolded on_curve_def]
  have e: "(x2 - x1) * ?q = (y1 * y1 - ?f x1) - (y2 * y2 - ?f x2) - ?D * (2 * y2 + ?D)" by (simp add: algebra_simps)
  have "ec_p prm dvd (x2 - x1) * ?q" unfolding e by (intro dvd_diff dvd_mult2 on l)
  then have q: "ec_p prm dvd ?q" using prm_dvd_cancel [OF c x] by blast
  have e: "Y * Y - ?f X = (y1 * y1 - ?f x1) - (X - x1) * ?q" unfolding Y X by (simp add: algebra_simps)
  show ?thesis unfolding on_curve_def e by (intro dvd_diff dvd_mult on(1) q)
qed

section \<open>Multiples\<close>

text \<open>Double and add, from the most significant bit down.\<close>

fun double_and_add :: "Params \<Rightarrow> u32 list \<Rightarrow> Point \<Rightarrow> nat \<Rightarrow> Point option" where
  "double_and_add prm junk P n =
     (if n = 0 then Some p_clear
      else do {
        R \<leftarrow> double_and_add prm junk P (n div 2);
        R \<leftarrow> c_dbl_affine prm junk R R;
        if odd n then c_add_affine prm junk R R P else Some R })"

declare double_and_add.simps [simp del]

lemma bit_of_digits: "i < 32 * length ds \<Longrightarrow> odd (nn_val ds div 2 ^ i) \<longleftrightarrow> odd (unat (ds ! (i div 32)) div 2 ^ (i mod 32))"
proof (induction ds arbitrary: i)
  case (Cons d ds)
  show ?case
  proof (cases "i < 32")
    case True
    have N: "NN = (2 :: nat) ^ i * 2 ^ (32 - i)" using True by (simp flip: power_add)
    have v: "nn_val (d # ds) = unat d + (2 ^ (32 - i) * nn_val ds) * 2 ^ i" unfolding nn_val.simps N by (simp add: ac_simps)
    have "nn_val (d # ds) div 2 ^ i = 2 ^ (32 - i) * nn_val ds + unat d div 2 ^ i" unfolding v by (rule div_mult_self1) simp
    then show ?thesis using True by simp
  next
    case False
    then obtain j where j: "i = 32 + j" using le_Suc_ex [of 32 i] by auto
    have "nn_val (d # ds) div 2 ^ 32 = nn_val ds" using unat_digit [of d] by simp
    then have "nn_val (d # ds) div 2 ^ i = nn_val ds div 2 ^ j" unfolding j power_add div_mult2_eq by simp
    moreover have "i div 32 = Suc (j div 32)" "i mod 32 = j mod 32" using j by simp_all
    ultimately show ?thesis using Cons.IH [of j] Cons.prems j by simp
  qed
qed simp

lemma b_testbit_val:
  assumes "i < 32 * length n"
  shows "\<exists>b. b_testbit n i = Some b \<and> (b \<noteq> 0 \<longleftrightarrow> odd (nn_val n div 2 ^ i))"
proof -
  let ?d = "n ! (i div 32)"
  have "i div 32 < length n" using assms by (simp add: less_mult_imp_div_less mult.commute)
  moreover have "?d AND push_bit (i mod 32) 1 \<noteq> 0 \<longleftrightarrow> odd (unat ?d div 2 ^ (i mod 32))"
  proof -
    have "?d AND push_bit (i mod 32) 1 \<noteq> 0 \<longleftrightarrow> bit ?d (i mod 32)"
      by (auto simp: bit_eq_iff [of _ "0 :: u32"] bit_simps)
    then show ?thesis by (simp add: bit_iff_odd_drop_bit [of "unat ?d", symmetric] drop_bit_eq_div [symmetric] bit_unsigned_iff bit_imp_le_length flip: bit_iff_odd)
  qed
  ultimately show ?thesis using bit_of_digits [OF assms] by (simp add: b_testbit_def rd_def)
qed

lemma dbl_p_clear: "c_dbl_affine prm junk p_clear p_clear = Some p_clear"
  by (simp add: c_dbl_affine_def p_clear_def Zero_val AssignZero_def)

lemma mul_loop_val:
  assumes "length n = 5" "k \<le> 160"
  shows "Option.bind (double_and_add prm junk P (nn_val n div 2 ^ k)) (mul_loop prm junk P n k) = double_and_add prm junk P (nn_val n)"
  using assms(2)
proof (induction k)
  case 0
  then show ?case by (cases "double_and_add prm junk P (nn_val n)") simp_all
next
  case (Suc i)
  let ?m = "nn_val n div 2 ^ i"
  have half: "nn_val n div 2 ^ Suc i = ?m div 2" by (simp only: power_Suc mult.commute [of 2] div_mult2_eq)
  obtain b where b: "b_testbit n i = Some b" "b \<noteq> 0 \<longleftrightarrow> odd ?m" using b_testbit_val [of i n] assms(1) Suc.prems by auto
  have "Option.bind (double_and_add prm junk P (?m div 2)) (mul_loop prm junk P n (Suc i)) =
      Option.bind (double_and_add prm junk P ?m) (mul_loop prm junk P n i)"
  proof (cases "?m = 0")
    case True
    then show ?thesis using b by (simp add: double_and_add.simps [of _ _ _ 0] dbl_p_clear)
  next
    case False
    then show ?thesis unfolding double_and_add.simps [of _ _ _ ?m] using b
      by (cases "double_and_add prm junk P (?m div 2)") (auto split: Option.bind_splits)
  qed
  then show ?case using Suc.IH Suc.prems unfolding half by (simp del: mul_loop.simps)
qed

lemma c_mul_val:
  assumes "length n = 5"
  shows "c_mul prm junk P n = double_and_add prm junk P (nn_val n)"
proof -
  obtain k where k: "Bits n 5 = Some k" "k \<le> 160" "nn_val n < 2 ^ k" using Bits_val [OF assms] by blast
  then show ?thesis using mul_loop_val [OF assms k(2), of prm junk P] by (simp add: c_mul_def double_and_add.simps [of _ _ _ 0])
qed

text \<open>A point of the curve, or the zero point.\<close>

definition curve_point :: "Params \<Rightarrow> Point \<Rightarrow> bool" where
  "curve_point prm P \<longleftrightarrow> P = p_clear \<or> (\<exists>x y. P = point prm x y \<and> on_curve prm x y)"

lemma point_zero_iff: "curve_ok prm \<Longrightarrow> point prm x y = p_clear \<longleftrightarrow> ec_p prm dvd x \<and> ec_p prm dvd y"
  by (simp add: p_clear_point [of prm] point_def res_eq_iff curve_ok_good ec_p_def)

lemma dbl_curve_point:
  assumes c: "curve_ok prm" and R: "curve_point prm R"
  shows "\<exists>R'. c_dbl_affine prm junk R R = Some R' \<and> curve_point prm R'"
proof (cases "R = p_clear")
  case True
  then show ?thesis using R by (simp add: dbl_p_clear)
next
  case False
  then obtain x y where xy: "R = point prm x y" "on_curve prm x y" using R by (auto simp: curve_point_def)
  show ?thesis
  proof (cases "ec_p prm dvd y")
    case True
    then show ?thesis using R dbl_zero [OF c True] xy by auto
  next
    case False
    then show ?thesis using dbl_tangent [OF c False, of x junk R] tangent_on_curve [OF _ xy(2) refl refl] xy(1)
      unfolding curve_point_def by metis
  qed
qed

text \<open>Every sum of two points of the curve: it is a point of the curve, or the points differ in the sign of \<open>y\<close> only and
  the addition never returns.\<close>

lemma add_curve_point:
  assumes c: "curve_ok prm" and R: "curve_point prm R" and P: "curve_point prm P"
  shows "(\<exists>R'. c_add_affine prm junk R R P = Some R' \<and> curve_point prm R') \<or>
    c_add_affine prm junk R R P = None \<and> pt_x R = pt_x P \<and> pt_y R \<noteq> pt_y P"
proof -
  note g = curve_ok_good [OF c]
  consider "R = P" | "R \<noteq> P" "R = p_clear" | "R \<noteq> P" "P = p_clear" | "R \<noteq> P" "R \<noteq> p_clear" "P \<noteq> p_clear" by blast
  then show ?thesis
  proof cases
    case 1
    obtain x y where "P = point prm x y" using P p_clear_point [of prm] unfolding curve_point_def by metis
    then have "c_add_affine prm junk R R P = c_dbl_affine prm junk R R" using add_same [OF c] 1 by simp
    then show ?thesis using dbl_curve_point [OF c R] 1 by simp
  next
    case 2
    then obtain x y where "P = point prm x y" "on_curve prm x y" using P by (auto simp: curve_point_def)
    then show ?thesis using 2 add_zero(1) [OF c] P point_zero_iff [OF c, of x y] by (metis p_clear_point)
  next
    case 3
    then obtain x y where "R = point prm x y" "on_curve prm x y" using R by (auto simp: curve_point_def)
    then show ?thesis using 3 add_zero(2) [OF c] R point_zero_iff [OF c, of x y] by (metis p_clear_point)
  next
    case 4
    obtain x1 y1 where R1: "R = point prm x1 y1" "on_curve prm x1 y1" using R 4(2) by (auto simp: curve_point_def)
    obtain x2 y2 where P1: "P = point prm x2 y2" "on_curve prm x2 y2" using P 4(3) by (auto simp: curve_point_def)
    have nz: "\<not> (ec_p prm dvd x1 \<and> ec_p prm dvd y1)" "\<not> (ec_p prm dvd x2 \<and> ec_p prm dvd y2)"
      using 4 R1(1) P1(1) point_zero_iff [OF c] by simp_all
    show ?thesis
    proof (cases "ec_p prm dvd x2 - x1")
      case True
      then have x: "ec_p prm dvd x1 - x2" by (metis dvd_diff_commute)
      then have y: "\<not> ec_p prm dvd y1 - y2" using 4(1) R1(1) P1(1) point_cong [OF c] by blast
      have "pt_x R = pt_x P" "pt_y R \<noteq> pt_y P" using x y R1(1) P1(1) by (simp_all add: point_def res_eq_iff [OF g] ec_p_def)
      then show ?thesis using add_negative [OF c x y nz] R1(1) P1(1) by simp
    next
      case False
      from add_chord [OF c False nz, of junk R] obtain l where l: "ec_p prm dvd l * (x2 - x1) - (y2 - y1)"
          "c_add_affine prm junk R R P = Some (point prm (l * l - x1 - x2) (l * (x1 - (l * l - x1 - x2)) - y1))"
        using R1(1) P1(1) by auto
      then show ?thesis using chord_on_curve [OF c False l(1) R1(2) P1(2) refl refl] unfolding curve_point_def by blast
    qed
  qed
qed

lemma double_and_add_point:
  assumes c: "curve_ok prm" and P: "curve_point prm P" and "double_and_add prm junk P n = Some R"
  shows "curve_point prm R"
  using assms(3)
proof (induction n arbitrary: R rule: less_induct)
  case (less n)
  show ?case
  proof (cases "n = 0")
    case True
    then show ?thesis using less.prems by (simp add: double_and_add.simps [of _ _ _ 0] curve_point_def)
  next
    case False
    then obtain S D where S: "double_and_add prm junk P (n div 2) = Some S" "c_dbl_affine prm junk S S = Some D"
        "(if odd n then c_add_affine prm junk D D P else Some D) = Some R"
      using less.prems unfolding double_and_add.simps [of _ _ _ n] by (auto split: Option.bind_splits)
    have "curve_point prm D" using dbl_curve_point [OF c less.IH [OF _ S(1)], of junk] S(2) False by simp
    then show ?thesis using S(3) add_curve_point [OF c _ P, of D junk] by (auto split: if_splits)
  qed
qed


section \<open>Checks and keys\<close>

lemma on_curve_test:
  assumes c: "curve_ok prm"
  shows "do {
        tmp2 \<leftarrow> ModSqrOpt a (res (prm_p prm) x) (prm_p prm) omega NUMWORDS;
        tmp2 \<leftarrow> ModMultOpt tmp2 tmp2 (res (prm_p prm) x) (prm_p prm) omega NUMWORDS;
        tmp1 \<leftarrow> ModMultOpt a (res (prm_p prm) x) (curve_a (prm_E prm)) (prm_p prm) omega NUMWORDS;
        tmp2 \<leftarrow> ModAdd tmp1 tmp2 (prm_p prm) NUMWORDS;
        tmp2 \<leftarrow> ModAdd tmp2 (curve_b (prm_E prm)) (prm_p prm) NUMWORDS;
        tmp1 \<leftarrow> ModSqrOpt tmp1 (res (prm_p prm) y) (prm_p prm) omega NUMWORDS;
        c \<leftarrow> Cmp tmp1 tmp2 NUMWORDS;
        Some (if c \<noteq> 0 then - 2 else 1) } = Some (if on_curve prm x y then 1 else - 2 :: int)"
proof -
  note g = curve_ok_good [OF c]
  have z: "nn_val (res (prm_p prm) u) = nn_val (res (prm_p prm) v) \<longleftrightarrow> ec_p prm dvd u - v" for u v
    using res_eq_iff [OF g, of u v] nn_val_inj [of "res (prm_p prm) u" "res (prm_p prm) v"] by (auto simp: ec_p_def)
  have o: "ec_p prm dvd y * y - (x * ec_a prm + x * x * x + ec_b prm) \<longleftrightarrow> on_curve prm x y"
    by (simp add: on_curve_def ac_simps)
  show ?thesis by (simp add: curve_ok_a [OF c] curve_ok_b [OF c] res_ops [OF g] Cmp_val z o)
qed

lemma check_point_val:
  assumes c: "curve_ok prm" and P: "length (pt_x P) = 5" "length (pt_y P) = 5"
  shows "check_point prm P = Some (
      if nn_val (pt_x P) = 0 \<or> nn_val (pt_x P) \<ge> nn_val (prm_p prm) \<or> nn_val (pt_y P) = 0 \<or> nn_val (pt_y P) \<ge> nn_val (prm_p prm) then - 1
      else if on_curve prm (int (nn_val (pt_x P))) (int (nn_val (pt_y P))) then 1 else - 2)"
proof -
  note g = curve_ok_good [OF c]
  let ?x = "nn_val (pt_x P)" and ?y = "nn_val (pt_y P)" and ?p = "nn_val (prm_p prm)"
  have lp: "length (prm_p prm) = 5" using g by (simp add: good_modulus_def)
  note cmp = Zero_val [OF P(1)] Zero_val [OF P(2)] Cmp_val [OF P(1) lp] Cmp_val [OF P(2) lp]
  show ?thesis
  proof (cases "?x = 0 \<or> ?x \<ge> ?p \<or> ?y = 0 \<or> ?y \<ge> ?p")
    case True
    then show ?thesis by (auto simp: check_point_def cmp)
  next
    case False
    then have xy: "?x < ?p" "?y < ?p" "?x \<noteq> 0" "?y \<noteq> 0" by simp_all
    have r: "res (prm_p prm) (int ?x) = pt_x P" "res (prm_p prm) (int ?y) = pt_y P" using res_of_val [OF g] P xy by simp_all
    show ?thesis using on_curve_test [OF c, of "AssignZero 5" "int ?x" "prm_omega prm" "int ?y"] xy
      unfolding r by (simp add: check_point_def cmp)
  qed
qed

lemma xor_zero_eq:
  assumes "a XOR b = (0 :: u32)"
  shows "b = a"
proof -
  have "b = (a XOR a) XOR b" by simp
  also have "\<dots> = a XOR (a XOR b)" by (rule xor.assoc)
  finally show ?thesis using assms by simp
qed

lemma key_digit_nonzero: "push_bit 16 (ucast (d :: 16 word)) XOR (ucast d + 1) \<noteq> (0 :: u32)"
proof
  assume "push_bit 16 (ucast d) XOR (ucast d + 1) = (0 :: u32)"
  then have e: "ucast d + 1 = (push_bit 16 (ucast d) :: u32)" by (rule xor_zero_eq)
  obtain n where n: "n = unat d" "n < 2 ^ 16" using unsigned_less [of d, where 'a = nat] by simp
  have d: "(ucast d :: u32) = of_nat n" by (simp add: n(1) of_nat_unat)
  have "(of_nat (n + 1) :: u32) = of_nat (n * 2 ^ 16)" using e unfolding d push_bit_eq_mult by (simp add: add.commute)
  then have "n + 1 = n * 2 ^ 16"
    using n(2) unat_of_nat_digit [of "n + 1"] unat_of_nat_digit [of "n * 2 ^ 16"] by (simp del: of_nat_add of_nat_mult)
  then show False by (cases n) simp_all
qed

lemma length_key_digits: "key_digits b i k d = (ds, d') \<Longrightarrow> length ds = k"
  by (induction k arbitrary: i d ds) (auto simp: Let_def split: prod.splits)


lemma key_digits_first: "0 < k \<Longrightarrow> key_digits b i k d = (ds, d') \<Longrightarrow> ds ! 0 \<noteq> 0"
  by (cases k) (auto simp: Let_def key_digit_nonzero split: prod.splits)

lemma nn_val_pos: "ds \<noteq> [] \<Longrightarrow> ds ! 0 \<noteq> 0 \<Longrightarrow> 0 < nn_val ds"
  by (cases ds) (simp_all add: unat_eq_0 word_neq_0_conv unat_gt_0)

text \<open>The first candidate is never zero, so the loop makes one round.\<close>

lemma gen_private_key_val:
  assumes r: "length (prm_r prm) = 5" "0 < nn_val (prm_r prm)"
    and "Digits (prm_r prm) 5 = Some n" "Bits (prm_r prm) 5 = Some m" "1 < n"
  shows "\<exists>k. gen_private_key prm b = Some k \<and> length k = 5 \<and> 0 < nn_val k \<and> nn_val k \<le> nn_val (prm_r prm)"
proof -
  let ?r = "nn_val (prm_r prm)" and ?mask = "drop_bit (32 - m mod 256 mod 32) 0xffffffff :: u32"
  have n: "n \<le> 5" using assms(3) Digits_spec [OF r(1)] by fastforce
  obtain ds d where ds: "key_digits b 0 n 5167 = (ds, d)" by force
  then have l: "length ds = n" "ds ! 0 \<noteq> 0" using length_key_digits key_digits_first assms(5) by (metis, metis less_trans zero_less_one)
  let ?k = "ds @ AssignZero (5 - n)"
  define k where "k = (if m mod 256 mod 32 \<noteq> 0 then ?k[n - 1 := ?k ! (n - 1) AND ?mask] else ?k)"
  have k: "length k = 5" "k ! 0 \<noteq> 0" using l n assms(5) by (simp_all add: k_def AssignZero_def nth_append)
  then have pos: "0 < nn_val k" by (intro nn_val_pos) auto
  let ?v = "(nn_val k - 1) mod ?r + 1"
  have le: "?v \<le> ?r" using mod_less_divisor [OF r(2), of "nn_val k - 1"] by linarith
  moreover have "?r < NN ^ 5" using nn_val_less [of "prm_r prm"] unfolding r(1) .
  ultimately have v: "?v \<le> ?r" "?v < NN ^ 5" using le_less_trans by blast+
  have small: "ModSmall k (prm_r prm) 5 = Some (nn_of 5 ?v)" using ModSmall_val [OF k(1) r(1,2)] pos by simp
  have val: "nn_val (nn_of 5 ?v) = ?v" by (rule nn_val_of_less [OF v(2)])
  then have z: "Zero (nn_of 5 ?v) 5 = Some False" by (simp add: Zero_val del: nn_of.simps)
  have "key_loop prm b n (m mod 256) 5167 = Some (nn_of 5 ?v)"
  proof -
    have "(if m mod 256 mod 32 \<noteq> 0 then do { top \<leftarrow> rd ?k (n - 1); wr ?k (n - 1) (top AND ?mask) } else Some ?k) = Some k"
      using l(1) n assms(5) by (simp add: k_def rd_def wr_def AssignZero_def)
    then show ?thesis using small z by (subst key_loop.simps) (simp add: ds del: nn_of.simps)
  qed
  then show ?thesis using assms(3,4) v(1) val by (intro exI [of _ "nn_of 5 ?v"]) (simp add: gen_private_key_def del: nn_of.simps)
qed

section \<open>Slopes that are known\<close>

lemma slope_unique:
  assumes c: "curve_ok prm" and "\<not> ec_p prm dvd v" "ec_p prm dvd l * v - u" "ec_p prm dvd k * v - u"
  shows "ec_p prm dvd l - k"
proof -
  have "v * (l - k) = (l * v - u) - (k * v - u)" by (simp add: algebra_simps)
  then have "ec_p prm dvd v * (l - k)" using assms(3,4) by (metis dvd_diff)
  then show ?thesis using prm_dvd_cancel [OF c assms(2)] by blast
qed

lemma slope_point:
  assumes c: "curve_ok prm" and l: "ec_p prm dvd l - k"
  shows "point prm (l * l - u) (l * (x - (l * l - u)) - y) = point prm (k * k - u) (k * (x - (k * k - u)) - y)"
proof (rule point_cong [OF c])
  have e: "(l * l - u) - (k * k - u) = (l + k) * (l - k)" by (simp add: algebra_simps)
  show x: "ec_p prm dvd (l * l - u) - (k * k - u)" unfolding e by (rule dvd_mult [OF l])
  have e: "(l * (x - (l * l - u)) - y) - (k * (x - (k * k - u)) - y) =
      (l - k) * (x - (l * l - u)) - k * ((l * l - u) - (k * k - u))" by (simp add: algebra_simps)
  show "ec_p prm dvd (l * (x - (l * l - u)) - y) - (k * (x - (k * k - u)) - y)"
    unfolding e by (intro dvd_diff dvd_mult dvd_mult2 x l)
qed

lemma dbl_with_slope:
  assumes c: "curve_ok prm" and y: "\<not> ec_p prm dvd y" and k: "ec_p prm dvd k * (2 * y) - (3 * (x * x) + ec_a prm)"
  shows "c_dbl_affine prm junk P0 (point prm x y) = Some (point prm (k * k - 2 * x) (k * (x - (k * k - 2 * x)) - y))"
proof -
  obtain l where l: "ec_p prm dvd l * (2 * y) - (3 * (x * x) + ec_a prm)"
      "c_dbl_affine prm junk P0 (point prm x y) = Some (point prm (l * l - 2 * x) (l * (x - (l * l - 2 * x)) - y))"
    using dbl_tangent [OF c y] by blast
  have "coprime (ec_p prm) 2" using curve_ok_good [OF c] by (simp add: good_modulus_def ec_p_def coprime_right_2_iff_odd)
  then have "\<not> ec_p prm dvd 2 * y" using y coprime_dvd_mult_right_iff by blast
  then show ?thesis using slope_point [OF c slope_unique [OF c _ l(1) k], of "2 * x" x y] l(2) by simp
qed

lemma add_with_slope:
  assumes c: "curve_ok prm" and x: "\<not> ec_p prm dvd x2 - x1" and k: "ec_p prm dvd k * (x2 - x1) - (y2 - y1)"
    and nz: "\<not> (ec_p prm dvd x1 \<and> ec_p prm dvd y1)" "\<not> (ec_p prm dvd x2 \<and> ec_p prm dvd y2)"
  shows "c_add_affine prm junk P0 (point prm x1 y1) (point prm x2 y2) =
      Some (point prm (k * k - (x1 + x2)) (k * (x1 - (k * k - (x1 + x2))) - y1))"
proof -
  obtain l where l: "ec_p prm dvd l * (x2 - x1) - (y2 - y1)"
      "c_add_affine prm junk P0 (point prm x1 y1) (point prm x2 y2) =
        Some (point prm (l * l - x1 - x2) (l * (x1 - (l * l - x1 - x2)) - y1))"
    using add_chord [OF c x nz] by blast
  have e: "l * l - x1 - x2 = l * l - (x1 + x2)" by simp
  show ?thesis using slope_point [OF c slope_unique [OF c x l(1) k], of "x1 + x2" x1 y1] l(2) unfolding e by simp
qed

text \<open>The sum of multiples that ends with a point and its negative.\<close>

lemma mul_meets_negative:
  assumes c: "curve_ok prm" and P: "P = point prm x y" "\<not> ec_p prm dvd y" and n: "odd n"
    and R: "double_and_add prm junk P (n div 2) = Some R" "c_dbl_affine prm junk R R = Some (point prm x (- y))"
  shows "double_and_add prm junk P n = None"
proof -
  have "coprime (ec_p prm) 2" using curve_ok_good [OF c] by (simp add: good_modulus_def ec_p_def coprime_right_2_iff_odd)
  then have "\<not> ec_p prm dvd 2 * y" using P(2) coprime_dvd_mult_right_iff by blast
  then have "\<not> ec_p prm dvd - y - y" using dvd_minus_iff [of "ec_p prm" "2 * y"] by simp
  then have "c_add_affine prm junk (point prm x (- y)) (point prm x (- y)) (point prm x y) = None"
    using P(2) by (intro add_negative [OF c]) simp_all
  moreover have "n \<noteq> 0" using n by (cases n) simp_all
  ultimately show ?thesis using R n P(1) unfolding double_and_add.simps [of _ _ _ n] by simp
qed


section \<open>Properties\<close>

text \<open>For examples: the curve with the coefficients 1 and 1 modulo 23, and a point of order 7 on it.\<close>

definition curve_23 :: Params where
  "curve_23 = \<lparr>prm_p = [23, 0, 0, 0, 0], prm_omega = [0, 0, 0, 0, 0],
     prm_E = \<lparr>curve_a = [1, 0, 0, 0, 0], curve_b = [1, 0, 0, 0, 0], a_minus3 = False, a_zero = False, a_one = True\<rparr>,
     prm_G = \<lparr>pt_x = [5, 0, 0, 0, 0], pt_y = [4, 0, 0, 0, 0]\<rparr>, prm_r = [7, 0, 0, 0, 0]\<rparr>"

lemma curve_23_values: "ec_p curve_23 = 23" "ec_a curve_23 = 1" "ec_b curve_23 = 1"
  by (simp_all add: curve_23_def ec_p_def ec_a_def ec_b_def)

lemma curve_23_prime: "nn_val (prm_p curve_23) = 23"
  by (simp add: curve_23_def)

lemma curve_23_ok: "curve_ok curve_23"
proof -
  have "list_all (\<lambda>k. gcd k 23 = (1 :: nat)) [1 ..< 23]" by code_simp
  then have "\<forall>k \<in> {1..<23 :: nat}. coprime k 23" by (simp only: list_all_iff set_upt coprime_iff_gcd_eq_1)
  then show ?thesis by (simp add: curve_ok_def curve_23_def good_modulus_def del: atLeastLessThan_iff)
qed

text \<open>C24: The sum of two points of the curve with different \<open>x\<close> is the third point of their chord mirrored, the double of a
  point with \<open>y\<close> other than 0 that of its tangent: the slope exists, the operations return, and the new points satisfy the equation
  of the curve.\<close>

theorem curve_addition:
  assumes "curve_ok prm" "on_curve prm x1 y1" "on_curve prm x2 y2" "\<not> ec_p prm dvd x2 - x1" "\<not> ec_p prm dvd y1"
    and "\<not> (ec_p prm dvd x2 \<and> ec_p prm dvd y2)"
  shows "(\<exists>l x y. ec_p prm dvd l * (x2 - x1) - (y2 - y1) \<and> x = l * l - x1 - x2 \<and> y = l * (x1 - x) - y1 \<and>
      c_add_affine prm junk P0 (point prm x1 y1) (point prm x2 y2) = Some (point prm x y) \<and> on_curve prm x y) \<and>
    (\<exists>l x y. ec_p prm dvd l * (2 * y1) - (3 * (x1 * x1) + ec_a prm) \<and> x = l * l - 2 * x1 \<and> y = l * (x1 - x) - y1 \<and>
      c_dbl_affine prm junk P0 (point prm x1 y1) = Some (point prm x y) \<and> on_curve prm x y)"
proof -
  have nz: "\<not> (ec_p prm dvd x1 \<and> ec_p prm dvd y1)" using assms(5) by simp
  show ?thesis
    using add_chord [OF assms(1,4) nz assms(6), of junk P0] chord_on_curve [OF assms(1,4) _ assms(2,3) refl refl]
      dbl_tangent [OF assms(1,5), of x1 junk P0] tangent_on_curve [OF _ assms(2) refl refl] by metis
qed

theorem curve_addition_witness:
  "\<exists>l x y. 23 dvd l * (17 - 5) - (20 - 4) \<and> x = l * l - 5 - 17 \<and> y = l * (5 - x) - 4 \<and>
      c_add_affine curve_23 [] p_clear (point curve_23 5 4) (point curve_23 17 20) = Some (point curve_23 x y) \<and> on_curve curve_23 x y"
  using curve_addition [of curve_23 5 4 17 20 "[]" p_clear] by (simp add: curve_23_ok curve_23_values on_curve_def)

text \<open>C25: \<open>c_mul\<close>, which goes through the bits of the digits of the number, doubles and adds as the binary representation of the number
  says, and every point it returns for a point of the curve lies on the curve or is the zero point.\<close>

theorem c_mul_on_curve:
  assumes "curve_ok prm" "on_curve prm x y" "length n = 5"
  shows "c_mul prm junk (point prm x y) n = double_and_add prm junk (point prm x y) (nn_val n) \<and>
    (\<forall>R. c_mul prm junk (point prm x y) n = Some R \<longrightarrow> R = p_clear \<or> (\<exists>x' y'. R = point prm x' y' \<and> on_curve prm x' y'))"
proof -
  have "curve_point prm (point prm x y)" using assms(2) by (auto simp: curve_point_def)
  then show ?thesis using c_mul_val [OF assms(3)] double_and_add_point [OF assms(1)] by (auto simp: curve_point_def)
qed

lemma point_23: "23 dvd x - x' \<Longrightarrow> 23 dvd y - y' \<Longrightarrow> point curve_23 x y = point curve_23 x' y'"
  using point_cong [OF curve_23_ok] by (simp add: curve_23_values)

lemma mul_3_of_23: "double_and_add curve_23 [] (point curve_23 5 4) 3 = Some (point curve_23 13 16)"
proof -
  let ?G = "point curve_23 5 4"
  have d: "c_dbl_affine curve_23 [] ?G ?G = Some (point curve_23 17 20)"
    using dbl_with_slope [OF curve_23_ok, of 4 21 5 "[]" ?G] by (simp add: curve_23_values point_23 [of 431 17 "- 8950" 20])
  have a: "c_add_affine curve_23 [] (point curve_23 17 20) (point curve_23 17 20) ?G = Some (point curve_23 13 16)"
    using add_with_slope [OF curve_23_ok, of 5 17 9 4 20 "[]" "point curve_23 17 20"]
    by (simp add: curve_23_values point_23 [of 59 13 "- 398" 16])
  have z: "c_add_affine curve_23 [] p_clear p_clear ?G = Some ?G"
    using add_zero(1) [OF curve_23_ok, of 5 4 "[]" p_clear] by (simp add: curve_23_values p_clear_point [of curve_23, symmetric])
  have one: "double_and_add curve_23 [] ?G 1 = Some ?G"
    using z by (simp add: double_and_add.simps [of _ _ _ "Suc 0"] double_and_add.simps [of _ _ _ 0] dbl_p_clear)
  show ?thesis using d a one by (simp add: double_and_add.simps [of _ _ _ 3])
qed

theorem c_mul_on_curve_witness:
  "c_mul curve_23 [] (point curve_23 5 4) [3, 0, 0, 0, 0] = Some (point curve_23 13 16)"
  using c_mul_on_curve [OF curve_23_ok, of 5 4 "[3, 0, 0, 0, 0]" "[]"] mul_3_of_23 by (simp add: on_curve_def curve_23_values)

text \<open>C26: When the double of half a number of times a point is the negative of the point, as for the order of the point, \<open>c_mul\<close> by
  the odd number never returns; there is no result for the point at infinity.\<close>

theorem c_mul_never_returns:
  assumes "curve_ok prm" "\<not> ec_p prm dvd y" "length n = 5" "odd (nn_val n)"
    and "double_and_add prm junk (point prm x y) (nn_val n div 2) = Some R" "c_dbl_affine prm junk R R = Some (point prm x (- y))"
  shows "c_mul prm junk (point prm x y) n = None"
  using mul_meets_negative [OF assms(1) refl assms(2,4-6)] c_mul_val [OF assms(3)] by simp

theorem c_mul_never_returns_witness:
  "c_mul curve_23 [] (point curve_23 5 4) [7, 0, 0, 0, 0] = None"
proof -
  have "c_dbl_affine curve_23 [] (point curve_23 13 16) (point curve_23 13 16) = Some (point curve_23 5 (- 4))"
    using dbl_with_slope [OF curve_23_ok, of 16 13 13 "[]" "point curve_23 13 16"]
    by (simp add: curve_23_values point_23 [of 143 5 "- 1706" "- 4"])
  then show ?thesis
    using c_mul_never_returns [OF curve_23_ok, of 4 "[7, 0, 0, 0, 0]" "[]" 5 "point curve_23 13 16"] mul_3_of_23
    by (simp add: curve_23_values)
qed


section \<open>The curve of 128 bits\<close>

lemma init128_values:
  "nn_val (prm_p (init128 prm)) = 0xFFFFFFFDFFFFFFFFFFFFFFFFFFFFFFFF"
  "nn_val (curve_a (prm_E (init128 prm))) = 0xFFFFFFFDFFFFFFFFFFFFFFFFFFFFFFFC"
  "nn_val (curve_b (prm_E (init128 prm))) = 0xE87579C11079F43DD824993C2CEE5ED3"
  "nn_val (prm_r (init128 prm)) = 0xFFFFFFFE0000000075A30D1B9038A115"
  by (simp_all add: init128_def)

lemma init128_good: "good_modulus (prm_p (init128 prm))"
  unfolding good_modulus_def init128_values by (simp add: init128_def)

text \<open>\<open>gen_private_key\<close> returns for every seed of 8 bits, with a number from 1 to the order of the base point.\<close>

lemma private_key_in_range:
  "\<exists>k. gen_private_key (init128 prm) b = Some k \<and> length k = 5 \<and> 0 < nn_val k \<and> nn_val k \<le> nn_val (prm_r (init128 prm))"
proof -
  have r: "prm_r (init128 prm) = [0x9038A115, 0x75A30D1B, 0, 0xFFFFFFFE, 0]" by (simp add: init128_def)
  have "Digits [0x9038A115, 0x75A30D1B, 0, 0xFFFFFFFE, 0] 5 = Some 4" "Bits [0x9038A115, 0x75A30D1B, 0, 0xFFFFFFFE, 0] 5 = Some 128"
    by code_simp+
  then show ?thesis using gen_private_key_val [of "init128 prm" 4 128 b] unfolding r by simp
qed

end
