(* ===== verification/Curve_Octets.thy ===== *)
theory Curve_Octets
  imports Elliptic_Curve_Correct
begin

text \<open>
  Numbers and points as strings of bytes: \<open>Decode\<close> reads back what \<open>Encode\<close> writes, an uncompressed point comes back as it
  was, and which compressed points come back as their negatives.
\<close>

unbundle bit_operations_syntax

section \<open>Numbers\<close>

text \<open>The bytes of a digit, least significant first.\<close>

definition digit_bytes :: "u32 \<Rightarrow> u8 list" where
  "digit_bytes d = [ucast d, ucast (drop_bit 8 d), ucast (drop_bit 16 d), ucast (drop_bit 24 d)]"

lemma encode_digit_full: "encode_digit 0 (4 + j) d = digit_bytes d"
proof -
  have "encode_digit 32 j d = []" by (cases j) simp_all
  moreover have "4 + j = Suc (Suc (Suc (Suc j)))" by simp
  ultimately show ?thesis by (simp only: encode_digit.simps digit_bytes_def) simp
qed

lemma encode_loop_full: "encode_loop (4 * length ds) ds = List.concat (map digit_bytes ds)"
proof (induction ds)
  case (Cons d ds)
  have "4 * length (d # ds) = 4 + 4 * length ds" by simp
  moreover have "length (digit_bytes d) = 4" by (simp add: digit_bytes_def)
  ultimately show ?case using Cons by (simp only: encode_loop.simps encode_digit_full Let_def) simp
qed simp

lemma digit_of_bytes:
  "ucast (ucast d :: u8) OR (push_bit 8 (ucast (ucast (drop_bit 8 d) :: u8)) OR (push_bit 16 (ucast (ucast (drop_bit 16 d) :: u8)) OR
    push_bit 24 (ucast (ucast (drop_bit 24 d) :: u8)))) = (d :: u32)"
proof (rule bit_word_eqI)
  fix n assume "n < LENGTH(32)"
  then consider "n < 8" | "8 \<le> n" "n < 16" | "16 \<le> n" "n < 24" | "24 \<le> n" "n < 32" by force
  then show "bit (ucast (ucast d :: u8) OR (push_bit 8 (ucast (ucast (drop_bit 8 d) :: u8)) OR (push_bit 16 (ucast (ucast (drop_bit 16 d) :: u8)) OR
      push_bit 24 (ucast (ucast (drop_bit 24 d) :: u8)))) :: u32) n = bit d n"
    by cases (auto simp: bit_simps)
qed

lemma decode_digit_full: "decode_digit 0 (digit_bytes d @ bs) = (d, bs)"
proof -
  have "decode_digit 32 bs = (0, bs)" by (cases bs) simp_all
  then show ?thesis using digit_of_bytes [of d] by (simp add: digit_bytes_def Let_def)
qed

lemma decode_loop_full: "decode_loop (length ds + k) (List.concat (map digit_bytes ds)) = ds @ replicate k 0"
proof (induction ds)
  case Nil
  then show ?case by (induction k) simp_all
next
  case (Cons d ds)
  have "digit_bytes d \<noteq> []" by (simp add: digit_bytes_def)
  then show ?case using Cons by (simp add: decode_digit_full)
qed

lemma length_digit_bytes: "length (List.concat (map digit_bytes ds)) = 4 * length ds"
  by (induction ds) (simp_all add: digit_bytes_def)

lemma encode_decode:
  assumes "n \<le> length b" "n \<le> m" "4 * n \<le> 128"
  shows "\<exists>bs. Encode (4 * n) b n = Some bs \<and> length bs = 4 * n \<and> Decode m bs (4 * n) = Some (take n b @ replicate (m - n) 0)"
proof -
  let ?bs = "rev (List.concat (map digit_bytes (take n b)))"
  have l: "length (take n b) = n" using assms(1) by simp
  have "Encode (4 * n) b n = Some ?bs" using assms(1,3) encode_loop_full [of "take n b"] l by (simp add: Encode_def rd_prefix)
  moreover have "length ?bs = 4 * n" using length_digit_bytes [of "take n b"] l by simp
  moreover have "Decode m ?bs (4 * n) = Some (take n b @ replicate (m - n) 0)"
    using decode_loop_full [of "take n b" "m - n"] l assms(2,3) \<open>length ?bs = 4 * n\<close> by (simp add: Decode_def rd_prefix)
  ultimately show ?thesis by blast
qed

section \<open>Points\<close>

text \<open>A number below \<open>2 ^ 128\<close> has a last digit 0.\<close>

lemma four_digits:
  assumes "length x = 5" "nn_val x < NN ^ 4"
  shows "take 4 x @ [0] = x"
proof -
  have x: "x = take 4 x @ [x ! 4]" using assms(1) take_Suc_conv_app_nth [of 4 x] by simp
  have "nn_val x = nn_val (take 4 x) + NN ^ 4 * unat (x ! 4)"
    by (subst x, subst nn_val_append) (simp add: assms(1))
  then have "unat (x ! 4) = 0" using assms(2) by (cases "unat (x ! 4)") simp_all
  then show ?thesis using x by (simp add: unat_eq_0)
qed

lemma encode_four:
  assumes "length x = 5" "nn_val x < NN ^ 4"
  shows "\<exists>bs. Encode 16 x 4 = Some bs \<and> length bs = 16 \<and> Decode 5 bs 16 = Some x"
  using encode_decode [of 4 x 5] four_digits [OF assms] assms(1) by simp


section \<open>Fermat's little theorem\<close>

lemma prime_dvd_choose:
  assumes "\<forall>k \<in> {1..<p}. coprime k p" "k \<in> {1..<p}"
  shows "p dvd (p choose k)"
proof -
  have "k * (p choose k) = p * ((p - 1) choose (k - 1))" using assms(2) binomial_absorption [of "k - 1" p] by simp
  then have "p dvd k * (p choose k)" by simp
  then show ?thesis using assms by (simp add: coprime_dvd_mult_right_iff coprime_commute)
qed

lemma fermat:
  assumes p: "\<forall>k \<in> {1..<p}. coprime k p" "1 < p"
  shows "a ^ p mod p = a mod p"
proof (induction a)
  case 0
  then show ?case using p(2) by (simp add: power_0_left)
next
  case (Suc a)
  let ?t = "\<lambda>k. (p choose k) * a ^ k"
  have "(a + 1) ^ p = (\<Sum>k\<le>p. ?t k)" using binomial [of a 1 p] by simp
  also have "{..p} = insert 0 (insert p {1..<p})" using p(2) by auto
  also have "(\<Sum>k\<in>insert 0 (insert p {1..<p}). ?t k) = 1 + (a ^ p + (\<Sum>k\<in>{1..<p}. ?t k))" using p(2) by simp
  finally have e: "(a + 1) ^ p = (1 + a ^ p) + (\<Sum>k\<in>{1..<p}. ?t k)" by simp
  have "p dvd (\<Sum>k\<in>{1..<p}. ?t k)" using prime_dvd_choose [OF p(1)] by (intro dvd_sum) simp
  then have "(a + 1) ^ p mod p = (1 + a ^ p) mod p" unfolding e by (metis add.right_neutral mod_add_right_eq mod_eq_0_iff_dvd)
  also have "\<dots> = (1 + a) mod p" using Suc by (metis mod_add_right_eq)
  finally show ?case by simp
qed

text \<open>The criterion of Euler for squares; every number but 0 meets it or its negative does.\<close>

definition euler_square :: "Params \<Rightarrow> int \<Rightarrow> bool" where
  "euler_square prm y \<longleftrightarrow> ec_p prm dvd y ^ (nn_val (prm_p prm) div 2) - 1"

lemma euler_cases:
  assumes c: "curve_ok prm" and y: "0 < y" "y < ec_p prm"
  shows "ec_p prm dvd y ^ (nn_val (prm_p prm) div 2) - (if euler_square prm y then 1 else - 1)"
proof -
  let ?p = "nn_val (prm_p prm)" and ?e = "y ^ (nn_val (prm_p prm) div 2)"
  have p: "\<forall>k \<in> {1..<?p}. coprime k ?p" "1 < ?p" "odd ?p" using c by (simp_all add: curve_ok_def good_modulus_def)
  have "nat y ^ ?p mod ?p = nat y mod ?p" by (rule fermat [OF p(1,2)])
  then have "int (nat y ^ ?p mod ?p) = int (nat y mod ?p)" by simp
  then have "y ^ ?p mod ec_p prm = y mod ec_p prm" using y(1) by (simp add: of_nat_mod ec_p_def)
  then have f: "ec_p prm dvd y ^ ?p - y" by (simp add: mod_eq_dvd_iff)
  have "y ^ ?p = y * (?e * ?e)" using p(3) by (metis odd_two_times_div_two_succ mult_2 power_add power_one_right add.commute)
  then have "y ^ ?p - y = y * ((?e - 1) * (?e + 1))" by (simp add: algebra_simps)
  then have d: "ec_p prm dvd y * ((?e - 1) * (?e + 1))" using f by simp
  have "\<not> ec_p prm dvd y" using y zdvd_not_zless by blast
  then have "ec_p prm dvd (?e - 1) * (?e + 1)" using prm_dvd_cancel [OF c] d by blast
  then show ?thesis using prm_dvd_cancel [OF c, of "?e - 1" "?e + 1"] by (auto simp: euler_square_def)
qed

lemma curve_rhs_val:
  assumes c: "curve_ok prm" and on: "on_curve prm x y"
  shows "curve_rhs prm junk (res (prm_p prm) x) = Some (res (prm_p prm) (y * y))"
proof -
  note g = curve_ok_good [OF c]
  have "ec_p prm dvd (ec_a prm * x + x * x * x + ec_b prm) - y * y"
    using on unfolding on_curve_def by (subst dvd_diff_commute) (simp add: ac_simps)
  then have "res (prm_p prm) (ec_a prm * x + x * x * x + ec_b prm) = res (prm_p prm) (y * y)" by (simp add: res_eq_iff [OF g] ec_p_def)
  then show ?thesis by (simp add: curve_rhs_def curve_ok_a [OF c] curve_ok_b [OF c] res_ops [OF g])
qed

text \<open>The root that is found: the number itself or its negative, whichever is a square.\<close>

lemma root_of_square:
  assumes c: "curve_ok prm" and m: "nn_val (prm_p prm) mod 4 = 3" and y: "0 < y" "y < ec_p prm"
  shows "ModSqrRootOpt (res (prm_p prm) (y * y)) (prm_p prm) 5 omega junk =
    Some (Some (res (prm_p prm) (if euler_square prm y then y else - y)))"
proof -
  note g = curve_ok_good [OF c]
  let ?p = "nn_val (prm_p prm)" and ?r = "nn_val (res (prm_p prm) (y * y))" and ?e = "y ^ (nn_val (prm_p prm) div 2)"
  let ?s = "if euler_square prm y then 1 else - 1 :: int"
  have k: "2 * (?p div 4 + 1) = 1 + ?p div 2" using m by presburger
  have "int ?r ^ (?p div 4 + 1) mod int ?p = (y * y) ^ (?p div 4 + 1) mod int ?p" unfolding int_res_val [OF g] by (rule power_mod)
  also have "(y * y) ^ (?p div 4 + 1) = y ^ (2 * (?p div 4 + 1))" by (simp only: power_mult power2_eq_square)
  also have "\<dots> = y * ?e" unfolding k power_add by simp
  also have "\<dots> mod int ?p = (y * ?s) mod int ?p"
  proof -
    have "ec_p prm dvd y * (?e - ?s)" by (rule dvd_mult [OF euler_cases [OF c y]])
    then show ?thesis by (simp add: mod_eq_dvd_iff ec_p_def algebra_simps split: if_splits)
  qed
  finally have "nn_of 5 (?r ^ (?p div 4 + 1) mod ?p) = res (prm_p prm) (y * ?s)"
    unfolding nn_of_res by (intro res_cong) simp
  then show ?thesis using ModSqrRootOpt_3 [of "res (prm_p prm) (y * y)" "prm_p prm" omega junk] g m
    by (auto simp: good_modulus_def simp del: nn_of.simps)
qed


section \<open>Octets of points\<close>

lemma point_of_values:
  assumes "good_modulus (prm_p prm)" "nn_val (prm_p prm) < NN ^ 4"
  shows "length (pt_x (point prm x y)) = 5" "length (pt_y (point prm x y)) = 5"
    "nn_val (pt_x (point prm x y)) < NN ^ 4" "nn_val (pt_y (point prm x y)) < NN ^ 4"
  using res_less [OF assms(1), of x] res_less [OF assms(1), of y] assms(2) by (simp_all add: point_def)

lemma uncompressed_octet:
  assumes P: "length (pt_x P) = 5" "length (pt_y P) = 5" "nn_val (pt_x P) < NN ^ 4" "nn_val (pt_y P) < NN ^ 4"
    and "33 \<le> length octet" "33 \<le> len"
  shows "\<exists>o'. point2octet octet len P False = Some (o', 33) \<and> octet2point prm junk P' o' = Some (P, 33)"
proof -
  obtain xs where xs: "Encode 16 (pt_x P) 4 = Some xs" "length xs = 16" "Decode 5 xs 16 = Some (pt_x P)" using encode_four [OF P(1,3)] by blast
  obtain ys where ys: "Encode 16 (pt_y P) 4 = Some ys" "length ys = 16" "Decode 5 ys 16 = Some (pt_y P)" using encode_four [OF P(2,4)] by blast
  obtain b bs where o: "octet = b # bs" "32 \<le> length bs" using assms(5) by (cases octet) simp_all
  let ?o = "4 # xs @ ys @ drop 32 bs"
  have "point2octet octet len P False = Some (?o, 33)"
    using assms(6) o xs(1,2) ys(1,2) by (simp add: point2octet_def wr_def memcpy_def)
  moreover have "octet2point prm junk P' ?o = Some (P, 33)"
    using xs(2,3) ys(2,3) by (simp add: octet2point_def rd_def rd_bytes_def)
  ultimately show ?thesis by blast
qed

lemma even_res:
  assumes g: "good_modulus p" and "0 \<le> y" "y < int (nn_val p)"
  shows "(1 AND res p y ! 0 = 0) \<longleftrightarrow> even y"
proof -
  have "Even (res p y) 5 = Some (even (nn_val (res p y)))" by (rule Even_val) simp
  then have "(res p y ! 0 AND 1 = 0) \<longleftrightarrow> even (nn_val (res p y))" by (simp add: Even_def rd_def)
  moreover have "int (nn_val (res p y)) = y" using assms by (simp add: int_res_val)
  ultimately show ?thesis by (metis and.commute even_of_nat)
qed

lemma res_negated:
  assumes g: "good_modulus p" and nz: "\<not> int (nn_val p) dvd v"
  shows "ModSub p (res p v) p 5 = Some (res p (- v))"
proof -
  let ?v = "nn_val (res p v)"
  have lp: "length p = 5" "0 < nn_val p" using g by (simp_all add: good_modulus_def)
  have less: "?v < nn_val p" by (rule res_less [OF g])
  have "0 < ?v" using res_zero [OF g, of v] nz by (simp add: Zero_val)
  then have m: "(nn_val p - ?v) mod nn_val p = nn_val p - ?v" using lp(2) by (intro mod_less diff_less)
  have "nn_of 5 (nn_val p - ?v) = res p (int (nn_val p - ?v))" using nn_of_res [of "nn_val p - ?v" p] unfolding m .
  also have "int (nn_val p - ?v) = int (nn_val p) - v mod int (nn_val p)" using less by (simp add: of_nat_diff int_res_val [OF g])
  also have "res p (int (nn_val p) - v mod int (nn_val p)) = res p (- v)" by (intro res_cong) (simp add: mod_simps)
  finally show ?thesis using ModNeg_val [of "res p v" 5 p] less lp(1) by (simp add: ModNeg_def)
qed

lemma compressed_octet:
  assumes c: "curve_ok prm" and p: "nn_val (prm_p prm) < NN ^ 4" "nn_val (prm_p prm) mod 4 = 3"
    and on: "on_curve prm x y" and y: "0 < y" "y < ec_p prm" and len: "17 \<le> length octet" "17 \<le> len"
  shows "\<exists>o'. point2octet octet len (point prm x y) True = Some (o', 17) \<and>
    octet2point prm junk P' o' = Some (point prm x (if even y = euler_square prm y then y else - y), 17)"
proof -
  note g = curve_ok_good [OF c]
  let ?P = "point prm x y"
  let ?Y = "if euler_square prm y then y else - y"
  note P = point_of_values [OF g p(1), of x y]
  obtain xs where xs: "Encode 16 (pt_x ?P) 4 = Some xs" "length xs = 16" "Decode 5 xs 16 = Some (pt_x ?P)" using encode_four [OF P(1,3)] by blast
  obtain b bs where o: "octet = b # bs" "16 \<le> length bs" using len(1) by (cases octet) simp_all
  let ?o = "(if even y then 2 else 3) # xs @ drop 16 bs"
  have par: "(1 AND pt_y ?P ! 0 = 0) \<longleftrightarrow> even y" using even_res [OF g] y by (simp add: point_def ec_p_def)
  have written: "point2octet octet len ?P True = Some (?o, 17)"
    using len(2) o xs(1,2) par P(2) by (simp add: point2octet_def wr_def rd_def memcpy_def)
  have "\<not> ec_p prm dvd ?Y" using y zdvd_not_zless [of y "ec_p prm"] by auto
  then have "ModSub (prm_p prm) (res (prm_p prm) ?Y) (prm_p prm) 5 = Some (res (prm_p prm) (- ?Y))"
    unfolding ec_p_def by (rule res_negated [OF g])
  then have "octet2point prm junk P' ?o = Some (point prm x (if even y then ?Y else - ?Y), 17)"
    using xs(2,3) curve_rhs_val [OF c on, of junk] root_of_square [OF c p(2) y, of "prm_omega prm" junk]
    by (simp add: octet2point_def rd_def rd_bytes_def point_def del: nn_of.simps)
  moreover note written
  moreover have "(if even y then ?Y else - ?Y) = (if even y = euler_square prm y then y else - y)" by auto
  ultimately show ?thesis by (intro exI [of _ ?o]) simp
qed

section \<open>Properties\<close>

text \<open>C27: A point with coordinates below \<open>2 ^ 128\<close> that is written without compression is read back as it was, whatever the
  curve, from the 33 bytes that \<open>point2octet\<close> announces; a shorter octet is refused and not touched.\<close>

theorem octet_roundtrip:
  assumes "length (pt_x P) = 5" "length (pt_y P) = 5" "nn_val (pt_x P) < NN ^ 4" "nn_val (pt_y P) < NN ^ 4" "33 \<le> length octet"
  shows "\<forall>len. if len < 33 then point2octet octet len P False = Some (octet, - 1)
    else \<exists>o'. point2octet octet len P False = Some (o', 33) \<and> octet2point prm junk P' o' = Some (P, 33)"
proof
  fix len
  show "if len < 33 then point2octet octet len P False = Some (octet, - 1)
    else \<exists>o'. point2octet octet len P False = Some (o', 33) \<and> octet2point prm junk P' o' = Some (P, 33)"
    using uncompressed_octet [OF assms, of len] by (cases "len < 33") (simp add: point2octet_def, simp)
qed

theorem octet_roundtrip_witness:
  "\<exists>o'. point2octet (replicate 33 0) 33 (point curve_23 5 4) False = Some (o', 33) \<and>
    octet2point curve_23 [] p_clear o' = Some (point curve_23 5 4, 33)"
  using octet_roundtrip [of "point curve_23 5 4" "replicate 33 0" curve_23 "[]" p_clear]
    point_of_values [of curve_23 5 4] curve_ok_good [OF curve_23_ok] by (simp add: curve_23_prime)

text \<open>C28: A compressed point of a curve whose prime is 3 modulo 4 is read back exactly when \<open>y\<close> is even and a square or odd and no square.
  All other points come back as their negatives: the code negates the root for the mark of an odd \<open>y\<close> without
  looking whether the root itself is odd.\<close>

theorem compressed_points_negated:
  assumes "curve_ok prm" "nn_val (prm_p prm) < NN ^ 4" "nn_val (prm_p prm) mod 4 = 3"
    and "on_curve prm x y" "0 < y" "y < ec_p prm" "17 \<le> length octet" "17 \<le> len"
  shows "\<exists>o'. point2octet octet len (point prm x y) True = Some (o', 17) \<and>
    octet2point prm junk P' o' = Some (point prm x (if even y = euler_square prm y then y else - y), 17)"
  using assms by (rule compressed_octet)

theorem compressed_points_negated_witness:
  "(\<exists>o'. point2octet (replicate 17 0) 17 (point curve_23 13 7) True = Some (o', 17) \<and>
    octet2point curve_23 [] p_clear o' = Some (point curve_23 13 7, 17)) \<and>
   (\<exists>o'. point2octet (replicate 17 0) 17 (point curve_23 17 3) True = Some (o', 17) \<and>
    octet2point curve_23 [] p_clear o' = Some (point curve_23 17 (- 3), 17))"
  using compressed_points_negated [OF curve_23_ok, of 13 7 "replicate 17 0" 17 "[]" p_clear]
    compressed_points_negated [OF curve_23_ok, of 17 3 "replicate 17 0" 17 "[]" p_clear]
  by (simp add: curve_23_values on_curve_def euler_square_def curve_23_prime)

end
