(* ===== verification/Bitwise.thy ===== *)
theory Bitwise
  imports Wl_Prelude
begin

text \<open>
  \<^verbatim>\<open>wiselib.testing/util/serialization/bitwise_serialization.h\<close>: values of any number of bits at any position
  of an array of bytes, most significant bit first, as the headers of the IPv6 stack have them. An access behind the array is
  \<^const>\<open>None\<close>. The shift is less than a byte and the length at most that of the type; for others, which no call
  has, the shifts of the code are undefined or meaningless and the functions have no result.
\<close>

unbundle bit_operations_syntax

section \<open>Writing and reading\<close>

function bw_write_loop :: "u8 list \<Rightarrow> 'a::len word \<Rightarrow> nat \<Rightarrow> nat \<Rightarrow> nat \<Rightarrow> u8 list option" where
  "bw_write_loop target value position target_shift value_length =
     (if target_shift \<ge> 8 then None
      else if value_length \<le> 8 - target_shift then do {
        t \<leftarrow> rd target position;
        mask \<leftarrow> Some (push_bit (8 - target_shift) 0xFF OR NOT (push_bit (8 - target_shift - value_length) 0xFF));
        wr target position ((t AND mask) OR push_bit (8 - value_length - target_shift) (ucast value)) }
      else do {
        t \<leftarrow> rd target position;
        t \<leftarrow> Some (t AND NOT (drop_bit target_shift 0xFF));
        value_length \<leftarrow> Some (value_length - (8 - target_shift));
        target \<leftarrow> wr target position (t OR ucast (drop_bit value_length value AND 0xFF));
        bw_write_loop target value (position + 1) 0 value_length })"
  by auto
termination by (relation "measure (\<lambda>(target, value, position, target_shift, value_length). value_length)") auto

declare bw_write_loop.simps [simp del]

definition bw_write :: "u8 list \<Rightarrow> 'a::len word \<Rightarrow> nat \<Rightarrow> nat \<Rightarrow> u8 list option" where
  "bw_write target value target_shift value_length =
     (if value_length > LENGTH('a) then None
      else bw_write_loop target value 0 target_shift (if value_length = 0 then LENGTH('a) else value_length))"

fun mask_loop :: "nat \<Rightarrow> u8 \<Rightarrow> u8" where
  "mask_loop 0 m = m"
| "mask_loop (Suc k) m = mask_loop k (m div 2)"

function bw_read_loop :: "u8 list \<Rightarrow> 'a::len word \<Rightarrow> nat \<Rightarrow> nat \<Rightarrow> nat \<Rightarrow> 'a word option" where
  "bw_read_loop target value position target_shift value_length =
     (if target_shift \<ge> 8 then None
      else do {
        mask \<leftarrow> Some (mask_loop target_shift 0xFF);
        t \<leftarrow> rd target position;
        if value_length \<le> 8 - target_shift then
          Some (push_bit value_length value OR ucast (drop_bit (8 - value_length - target_shift) (t AND mask)))
        else do {
          value \<leftarrow> Some (push_bit (8 - target_shift) value OR ucast (t AND mask));
          bw_read_loop target value (position + 1) 0 (value_length - (8 - target_shift)) } })"
  by auto
termination by (relation "measure (\<lambda>(target, value, position, target_shift, value_length). value_length)") auto

declare bw_read_loop.simps [simp del]

definition bw_read :: "u8 list \<Rightarrow> nat \<Rightarrow> nat \<Rightarrow> 'a::len word option" where
  "bw_read target target_shift value_length =
     (if value_length > LENGTH('a) then None
      else bw_read_loop target 0 0 target_shift (if value_length = 0 then LENGTH('a) else value_length))"

section \<open>The bits of an array\<close>

definition array_bit :: "u8 list \<Rightarrow> nat \<Rightarrow> bool" where
  "array_bit t i = bit (t ! (i div 8)) (7 - i mod 8)"

lemma array_bit_byte: "j < 8 \<Longrightarrow> array_bit t (8 * p + j) = bit (t ! p) (7 - j)"
  by (simp add: array_bit_def)

lemma array_bit_update: "p < length t \<Longrightarrow> array_bit (t[p := b]) i = (if i div 8 = p then bit b (7 - i mod 8) else array_bit t i)"
  by (simp add: array_bit_def)

lemma mask_loop_val: "mask_loop k m = drop_bit k m"
  by (induction k arbitrary: m) (simp_all add: drop_bit_Suc)

lemma ones: "(0xFF :: u8) = - 1"
  by simp

lemma bit_ones: "bit (0xFF :: u8) n \<longleftrightarrow> n < 8"
  unfolding ones by (auto simp: bit_simps)

lemma bit_ones_push: "n < 8 \<Longrightarrow> bit (push_bit a (0xFF :: u8)) n \<longleftrightarrow> a \<le> n"
  unfolding ones by (auto simp: bit_simps)

lemma bit_ones_drop: "bit (drop_bit a (0xFF :: u8)) n \<longleftrightarrow> a + n < 8"
  unfolding ones by (auto simp: bit_simps)

text \<open>The bit with number \<open>n\<close> of the byte that ends a value, and of one that does not.\<close>

lemma last_byte_bit:
  fixes v :: "'a::len word"
  assumes "s + l + r = 8" "n < 8"
  shows "bit ((t AND (push_bit (8 - s) 0xFF OR NOT (push_bit (8 - s - l) 0xFF))) OR push_bit (8 - l - s) (ucast v) :: u8) n \<longleftrightarrow>
    (if n < r then bit t n else (l + r \<le> n \<and> bit t n) \<or> bit v (n - r))"
proof -
  have e: "8 - s = l + r" "8 - s - l = r" "8 - l - s = r" using assms(1) by simp_all
  have v: "bit (push_bit r (ucast v) :: u8) n \<longleftrightarrow> r \<le> n \<and> bit v (n - r)"
    using assms(2) bit_imp_le_length [of v "n - r"] by (auto simp: bit_simps)
  show ?thesis unfolding e using assms(2) by (auto simp: bit_and_iff bit_or_iff bit_not_iff bit_ones_push v)
qed

lemma inner_byte_bit:
  fixes v :: "'a::len word"
  assumes "n < 8"
  shows "bit ((t AND NOT (drop_bit s 0xFF)) OR ucast (drop_bit l v AND 0xFF) :: u8) n \<longleftrightarrow> (8 \<le> s + n \<and> bit t n) \<or> bit v (l + n)"
proof -
  have "bit (ucast (drop_bit l v AND 0xFF) :: u8) n \<longleftrightarrow> bit v (l + n)"
  proof -
    have "(0xFF :: 'a word) = of_nat (2 ^ 8 - 1)" by simp
    then have "drop_bit l v AND 0xFF = take_bit 8 (drop_bit l v)" by (simp add: take_bit_eq_mask mask_eq_exp_minus_1)
    then show ?thesis using assms bit_imp_le_length [of v "l + n"] by (auto simp: bit_simps)
  qed
  then show ?thesis using assms by (auto simp: bit_and_iff bit_or_iff bit_not_iff bit_ones_drop add.commute)
qed

text \<open>The bits before the value that share its first byte take the bits of the value above its length.\<close>

lemma write_loop_bits:
  fixes v :: "'a::len word"
  assumes "s < 8" "0 < l" "8 * p + s + l \<le> 8 * length t"
  shows "\<exists>t'. bw_write_loop t v p s l = Some t' \<and> length t' = length t \<and>
    (\<forall>i < 8 * length t. array_bit t' i \<longleftrightarrow>
      (if 8 * p \<le> i \<and> i < 8 * p + s + l then (i < 8 * p + s \<and> array_bit t i) \<or> bit v (8 * p + s + l - 1 - i) else array_bit t i))"
  using assms
proof (induction t v p s l rule: bw_write_loop.induct)
  case (1 t v p s l)
  have p: "p < length t" using "1.prems" by simp
  show ?case
  proof (cases "l \<le> 8 - s")
    case True
    then obtain r where r: "s + l + r = 8" using "1.prems"(1) by (metis le_add_diff_inverse less_imp_le le_diff_conv2 add.commute)
    define b where "b = (t ! p AND (push_bit (8 - s) 0xFF OR NOT (push_bit (8 - s - l) 0xFF))) OR push_bit (8 - l - s) (ucast v)"
    have b: "bit b n \<longleftrightarrow> (if n < r then bit (t ! p) n else (l + r \<le> n \<and> bit (t ! p) n) \<or> bit v (n - r))" if "n < 8" for n
      unfolding b_def using r that by (rule last_byte_bit)
    have "array_bit (t[p := b]) i \<longleftrightarrow>
      (if 8 * p \<le> i \<and> i < 8 * p + s + l then (i < 8 * p + s \<and> array_bit t i) \<or> bit v (8 * p + s + l - 1 - i) else array_bit t i)" for i
    proof (cases "i div 8 = p")
      case True
      then obtain j where j: "i = 8 * p + j" "j < 8" by (metis mod_less_divisor mult_div_mod_eq zero_less_numeral)
      have "array_bit (t[p := b]) i \<longleftrightarrow> (if 7 - j < r then bit (t ! p) (7 - j) else (l + r \<le> 7 - j \<and> bit (t ! p) (7 - j)) \<or> bit v (7 - j - r))"
        using j by (simp add: array_bit_update [OF p] b)
      moreover have "7 - j - r = s + l - 1 - j" "7 - j < r \<longleftrightarrow> s + l \<le> j" "l + r \<le> 7 - j \<longleftrightarrow> j < s" using r j(2) "1.prems"(2) by linarith+
      ultimately show ?thesis using j by (auto simp: array_bit_byte)
    next
      case False
      then have "\<not> (8 * p \<le> i \<and> i < 8 * p + s + l)" using r by auto
      then show ?thesis using False p by (auto simp: array_bit_update)
    qed
    then show ?thesis using True p "1.prems"(1) by (subst bw_write_loop.simps) (simp add: rd_def wr_def b_def)
  next
    case False
    define k where "k = l - (8 - s)"
    define b where "b = (t ! p AND NOT (drop_bit s 0xFF)) OR ucast (drop_bit k v AND 0xFF)"
    have b: "bit b n \<longleftrightarrow> (8 \<le> s + n \<and> bit (t ! p) n) \<or> bit v (k + n)" if "n < 8" for n
      unfolding b_def using that by (rule inner_byte_bit)
    have k: "0 < k" "8 * (p + 1) + 0 + k \<le> 8 * length (t[p := b])" "8 * (p + 1) + 0 + k = 8 * p + s + l"
      using "1.prems" False by (simp_all add: k_def)
    have "wr t p b = Some (t[p := b])" using p by (simp add: wr_def)
    with "1.IH" [of "t ! p" "t ! p AND NOT (drop_bit s 0xFF)" k "t[p := b]"] k(1,2) False p "1.prems"(1)
    obtain t' where t': "bw_write_loop (t[p := b]) v (p + 1) 0 k = Some t'" "length t' = length (t[p := b])"
        "\<forall>i < 8 * length (t[p := b]). array_bit t' i \<longleftrightarrow>
          (if 8 * (p + 1) \<le> i \<and> i < 8 * (p + 1) + 0 + k
           then (i < 8 * (p + 1) + 0 \<and> array_bit (t[p := b]) i) \<or> bit v (8 * (p + 1) + 0 + k - 1 - i) else array_bit (t[p := b]) i)"
      by (auto simp: rd_def k_def [symmetric] b_def [symmetric])
    have "array_bit t' i \<longleftrightarrow>
      (if 8 * p \<le> i \<and> i < 8 * p + s + l then (i < 8 * p + s \<and> array_bit t i) \<or> bit v (8 * p + s + l - 1 - i) else array_bit t i)"
      if i: "i < 8 * length t" for i
    proof (cases "i div 8 = p")
      case True
      then obtain j where j: "i = 8 * p + j" "j < 8" by (metis mod_less_divisor mult_div_mod_eq zero_less_numeral)
      have "array_bit t' i \<longleftrightarrow> (8 \<le> s + (7 - j) \<and> bit (t ! p) (7 - j)) \<or> bit v (k + (7 - j))"
        using t'(3) i j by (simp add: array_bit_update [OF p] b)
      moreover have "k + (7 - j) = s + l - 1 - j" "8 \<le> s + (7 - j) \<longleftrightarrow> j < s" "j < s + l"
        using j(2) False "1.prems"(1) unfolding k_def by linarith+
      ultimately show ?thesis using j by (auto simp: array_bit_byte)
    next
      case out: False
      then have "8 * (p + 1) \<le> i \<longleftrightarrow> 8 * p \<le> i" by auto
      then show ?thesis using t'(3) i out p "1.prems"(1) unfolding k(3) by (auto simp: array_bit_update)
    qed
    then show ?thesis using t'(1,2) False p "1.prems"(1)
      by (subst bw_write_loop.simps) (simp add: rd_def wr_def k_def [symmetric] b_def [symmetric])
  qed
qed


lemma read_last_bit:
  fixes v :: "'a::len word"
  assumes "s + l + r = 8" "k < LENGTH('a)"
  shows "bit (push_bit l v OR ucast (drop_bit (8 - l - s) (t AND drop_bit s (0xFF :: u8)))) k \<longleftrightarrow>
    (if k < l then bit t (r + k) else bit v (k - l))"
proof -
  have e: "8 - l - s = r" using assms(1) by simp
  have "bit (ucast (drop_bit r (t AND drop_bit s (0xFF :: u8))) :: 'a word) k \<longleftrightarrow> k < l \<and> bit t (r + k)"
  proof -
    have "bit (ucast (drop_bit r (t AND drop_bit s (0xFF :: u8))) :: 'a word) k \<longleftrightarrow> bit t (r + k) \<and> s + (r + k) < 8"
      using assms(2) by (simp only: bit_unsigned_iff bit_drop_bit_eq o_def bit_and_iff bit_ones) auto
    then show ?thesis using assms(1) by auto
  qed
  then show ?thesis unfolding e using assms(2) by (auto simp: bit_or_iff bit_push_bit_iff)
qed

lemma read_inner_bit:
  fixes v :: "'a::len word"
  assumes "s < 8" "k < LENGTH('a)"
  shows "bit (push_bit (8 - s) v OR ucast (t AND drop_bit s (0xFF :: u8))) k \<longleftrightarrow> (if k < 8 - s then bit t k else bit v (k - (8 - s)))"
proof -
  have "bit (ucast (t AND drop_bit s (0xFF :: u8)) :: 'a word) k \<longleftrightarrow> k < 8 - s \<and> bit t k"
    using assms bit_imp_le_length [of t k] by (auto simp: bit_unsigned_iff bit_and_iff bit_ones_drop)
  then show ?thesis using assms(2) by (auto simp: bit_or_iff bit_push_bit_iff)
qed

lemma read_loop_bits:
  fixes v :: "'a::len word"
  assumes "s < 8" "0 < l" "8 * p + s + l \<le> 8 * length t"
  shows "\<exists>r. bw_read_loop t v p s l = Some r \<and>
    (\<forall>k < LENGTH('a). bit r k \<longleftrightarrow> (if k < l then array_bit t (8 * p + s + l - 1 - k) else bit v (k - l)))"
  using assms
proof (induction t v p s l rule: bw_read_loop.induct)
  case (1 t v p s l)
  have p: "p < length t" using "1.prems" by simp
  show ?case
  proof (cases "l \<le> 8 - s")
    case True
    then obtain r where r: "s + l + r = 8" using "1.prems"(1) by (metis le_add_diff_inverse less_imp_le le_diff_conv2 add.commute)
    have "bit (t ! p) (r + k) \<longleftrightarrow> array_bit t (8 * p + s + l - 1 - k)" if "k < l" for k
    proof -
      have "8 * p + s + l - 1 - k = 8 * p + (s + l - 1 - k)" "s + l - 1 - k < 8" "7 - (s + l - 1 - k) = r + k" using r that by simp_all
      then show ?thesis by (simp only: array_bit_byte)
    qed
    then have "bit (push_bit l v OR ucast (drop_bit (8 - l - s) (t ! p AND drop_bit s 0xFF))) k \<longleftrightarrow>
        (if k < l then array_bit t (8 * p + s + l - 1 - k) else bit v (k - l))" if "k < LENGTH('a)" for k
      unfolding read_last_bit [OF r that] by simp
    moreover have "bw_read_loop t v p s l = Some (push_bit l v OR ucast (drop_bit (8 - l - s) (t ! p AND drop_bit s 0xFF)))"
      using True p "1.prems"(1) by (subst bw_read_loop.simps) (simp add: rd_def mask_loop_val del: drop_bit_and)
    ultimately show ?thesis by blast
  next
    case False
    define l' where "l' = l - (8 - s)"
    define w where "w = push_bit (8 - s) v OR ucast (t ! p AND drop_bit s 0xFF)"
    have w: "bit w k \<longleftrightarrow> (if k < 8 - s then bit (t ! p) k else bit v (k - (8 - s)))" if "k < LENGTH('a)" for k
      unfolding w_def using "1.prems"(1) that by (rule read_inner_bit)
    have l': "0 < l'" "8 * (p + 1) + 0 + l' \<le> 8 * length t" "8 * (p + 1) + 0 + l' = 8 * p + s + l" "l = l' + (8 - s)"
      using "1.prems" False by (simp_all add: l'_def)
    with "1.IH" [of "drop_bit s 0xFF" "t ! p" w] False p "1.prems"(1)
    obtain r where r: "bw_read_loop t w (p + 1) 0 l' = Some r"
        "\<forall>k < LENGTH('a). bit r k \<longleftrightarrow> (if k < l' then array_bit t (8 * (p + 1) + 0 + l' - 1 - k) else bit w (k - l'))"
      by (auto simp: rd_def mask_loop_val l'_def [symmetric] w_def [symmetric])
    have "bit r k \<longleftrightarrow> (if k < l then array_bit t (8 * p + s + l - 1 - k) else bit v (k - l))" if k: "k < LENGTH('a)" for k
    proof -
      consider "k < l'" | "l' \<le> k" "k < l" | "l \<le> k" by linarith
      then show ?thesis
      proof cases
        case 1
        then show ?thesis using r(2) k l'(4) unfolding l'(3) by simp
      next
        case 2
        have e: "8 * p + s + l - 1 - k = 8 * p + (s + l - 1 - k)" "s + l - 1 - k < 8" "7 - (s + l - 1 - k) = k - l'"
          using 2 l'(4) "1.prems"(1) by linarith+
        have "k - l' < 8 - s" using 2 l'(4) by linarith
        then have "bit r k \<longleftrightarrow> bit (t ! p) (k - l')" using r(2) k 2 w [of "k - l'"] by simp
        then show ?thesis using 2 unfolding e(1) array_bit_byte [OF e(2)] e(3) by simp
      next
        case 3
        then have "\<not> k < l'" "\<not> k - l' < 8 - s" "k - l' - (8 - s) = k - l" using l'(4) by linarith+
        then show ?thesis using 3 r(2) k w [of "k - l'"] by simp
      qed
    qed
    then show ?thesis using r(1) False p "1.prems"(1)
      by (subst bw_read_loop.simps) (simp add: rd_def mask_loop_val l'_def [symmetric] w_def [symmetric])
  qed
qed

section \<open>Properties\<close>

text \<open>C38: What \<open>bw_write\<close> writes at a position is read back as the value cut to the length, for every shift within a
  byte and every length up to that of the type; the bits behind the value and in other bytes stay. The bits of the first byte before
  the position stay too when the value fits the length.\<close>

theorem bitwise_roundtrip:
  fixes v :: "'a::len word"
  assumes "s < 8" "0 < l" "l \<le> LENGTH('a)" "s + l \<le> 8 * length t"
  shows "\<exists>t'. bw_write t v s l = Some t' \<and> length t' = length t \<and> bw_read t' s l = Some (take_bit l v) \<and>
    (\<forall>i. (s + l \<le> i \<or> i < s \<and> v = take_bit l v) \<and> i < 8 * length t \<longrightarrow> array_bit t' i = array_bit t i)"
proof -
  obtain t' where t': "bw_write t v s l = Some t'" "length t' = length t"
      "\<forall>i < 8 * length t. array_bit t' i \<longleftrightarrow> (if i < s + l then (i < s \<and> array_bit t i) \<or> bit v (s + l - 1 - i) else array_bit t i)"
    using write_loop_bits [of s l 0 t v] assms by (auto simp: bw_write_def)
  obtain r :: "'a word" where r: "bw_read t' s l = Some r" "\<forall>k < LENGTH('a). bit r k \<longleftrightarrow> k < l \<and> array_bit t' (s + l - 1 - k)"
    using read_loop_bits [of s l 0 t' "0 :: 'a word"] assms t'(2) by (auto simp: bw_read_def)
  have "r = take_bit l v"
  proof (rule bit_word_eqI)
    fix k assume k: "k < LENGTH('a)"
    have "s + l - 1 - k < 8 * length t" "k < l \<Longrightarrow> s + l - 1 - (s + l - 1 - k) = k" "k < l \<Longrightarrow> \<not> s + l - 1 - k < s"
      using assms(2,4) by linarith+
    then show "bit r k \<longleftrightarrow> bit (take_bit l v) k" using r(2) t'(3) k assms(2) by (auto simp: bit_take_bit_iff)
  qed
  moreover have "array_bit t' i = array_bit t i" if "i < s" "v = take_bit l v" "i < 8 * length t" for i
  proof -
    have "\<not> bit v (s + l - 1 - i)" using that(1) by (subst that(2)) (auto simp: bit_take_bit_iff)
    then show ?thesis using t'(3) that by auto
  qed
  ultimately show ?thesis using t' r(1) by auto
qed

theorem bitwise_roundtrip_witness:
  "\<exists>t'. bw_write [0xFF, 0xFF] (0x2A :: u16) 3 7 = Some t' \<and> length t' = 2 \<and> bw_read t' 3 7 = Some (0x2A :: u16) \<and>
    array_bit t' 2 \<and> array_bit t' 10"
proof -
  have "take_bit 7 (0x2A :: u16) = 0x2A" by simp
  with bitwise_roundtrip [of 3 7 "[0xFF, 0xFF]" "0x2A :: u16"]
  obtain t' where t': "bw_write [0xFF, 0xFF] (0x2A :: u16) 3 7 = Some t'" "length t' = 2" "bw_read t' 3 7 = Some (0x2A :: u16)"
      "\<forall>i. (10 \<le> i \<or> i < 3) \<and> i < 16 \<longrightarrow> array_bit t' i = array_bit [0xFF, 0xFF] i" by auto
  have "array_bit [0xFF, 0xFF] 2" "array_bit [0xFF, 0xFF] 10" by (simp_all add: array_bit_def bit_iff_odd)
  then show ?thesis using t' by auto
qed

text \<open>A value that does not fit its length changes bits before its position: they take its higher bits.\<close>

theorem bitwise_write_clobbers:
  fixes v :: "'a::len word"
  assumes "s < 8" "0 < l" "l \<le> LENGTH('a)" "s + l \<le> 8 * length t" "i < s" "bit v (s + l - 1 - i)"
  shows "\<exists>t'. bw_write t v s l = Some t' \<and> array_bit t' i"
  using write_loop_bits [of s l 0 t v] assms by (auto simp: bw_write_def)

theorem bitwise_write_clobbers_witness: "\<exists>t'. bw_write [0, 0] (0x1F :: u8) 4 4 = Some t' \<and> array_bit t' 3"
  using bitwise_write_clobbers [of 4 4 "[0, 0]" 3 "0x1F :: u8"] by (simp add: bit_iff_odd)

end
