(* ===== verification/Protobuf.thy ===== *)
theory Protobuf
  imports Wl_Prelude
begin

text \<open>
  \<^verbatim>\<open>wiselib.testing/util/protobuf\<close>: the wire format of protocol buffers over a pair of iterators.
  The memory behind the iterators is the list \<open>m\<close>, an iterator is a position in it, and \<open>e\<close> is the end the caller gives. An
  operation gives its boolean value with the changed memory and iterator; an access outside the memory is
  \<^const>\<open>None\<close>. \<^typ>\<open>'a word\<close> is the integer type \<open>int_t\<close> of the templates. A value that is not read is left
  out of the result.
\<close>

unbundle bit_operations_syntax

section \<open>Bytes and integers\<close>

definition byte_write :: "nat \<Rightarrow> u8 \<Rightarrow> u8 list \<Rightarrow> nat \<Rightarrow> (bool \<times> u8 list \<times> nat) option" where
  "byte_write e v m b = (if b = e then Some (False, m, b) else do { m \<leftarrow> wr m b v; Some (True, m, b + 1) })"

definition byte_read :: "nat \<Rightarrow> u8 list \<Rightarrow> nat \<Rightarrow> (u8 option \<times> nat) option" where
  "byte_read e m b = (if b = e then Some (None, b) else do { v \<leftarrow> rd m b; Some (Some v, b + 1) })"

text \<open>Values go through the type \<open>unsigned\<close>, of 32 bits. The rest of a value is converted to the integer type for the recursive
  call.\<close>

lemma varint_rest_less:
  assumes "drop_bit 7 (ucast v :: u32) \<noteq> 0"
  shows "unat (ucast (drop_bit 7 (ucast v :: u32)) :: 'a::len word) < unat (v :: 'a word)"
proof -
  have u: "unat (ucast v :: u32) \<le> unat v" by (simp add: unsigned_ucast_eq take_bit_nat_less_eq_self)
  have "unat (ucast (drop_bit 7 (ucast v :: u32)) :: 'a word) \<le> unat (drop_bit 7 (ucast v :: u32))"
    by (simp add: unsigned_ucast_eq take_bit_nat_less_eq_self)
  also have "\<dots> = unat (ucast v :: u32) div 128" by (simp add: drop_bit_eq_div unat_div)
  finally have d: "unat (ucast (drop_bit 7 (ucast v :: u32)) :: 'a word) \<le> unat (ucast v :: u32) div 128" .
  have "unat (ucast v :: u32) \<noteq> 0" using assms by (auto simp: unat_eq_0)
  then show ?thesis using u d by linarith
qed

function varint_write :: "nat \<Rightarrow> 'a::len word \<Rightarrow> u8 list \<Rightarrow> nat \<Rightarrow> (bool \<times> u8 list \<times> nat) option" where
  "varint_write e v m b = (
     let u = ucast v :: u32; continuation = drop_bit 7 u \<noteq> 0
     in do {
       (ok, m, b) \<leftarrow> byte_write e (ucast ((u AND 0x7F) OR (if continuation then 0x80 else 0))) m b;
       if \<not> ok then Some (False, m, b)
       else if continuation then varint_write e (ucast (drop_bit 7 u)) m b
       else Some (True, m, b) })"
  by auto
termination by (relation "measure (\<lambda>(e, v, m, b). unat v)") (auto simp: varint_rest_less)

declare varint_write.simps [simp del]

lemma byte_read_less: "byte_read e m b = Some (Some v, b') \<Longrightarrow> length m - b' < length m - b"
  by (auto simp: byte_read_def rd_def split: if_splits Option.bind_splits)

function varint_read :: "nat \<Rightarrow> u8 list \<Rightarrow> nat \<Rightarrow> ('a::len word option \<times> nat) option" where
  "varint_read e m b = do {
     (r, b) \<leftarrow> byte_read e m b;
     case r of None \<Rightarrow> Some (None, b)
     | Some byte \<Rightarrow>
         (let v = ucast byte :: 'a word; continuation = drop_bit 7 byte \<noteq> 0; v = v AND 0x7F
          in if continuation then do {
            (r, b) \<leftarrow> varint_read e m b;
            case r of None \<Rightarrow> Some (None, b) | Some v2 \<Rightarrow> Some (Some (v OR push_bit 7 v2), b) }
          else Some (Some v, b)) }"
  by auto
termination by (relation "measure (\<lambda>(e, m, b). length m - b)") (auto simp: byte_read_less)

declare varint_read.simps [simp del]

section \<open>Strings\<close>

definition c_strlen :: "u8 list \<Rightarrow> nat option" where
  "c_strlen v = (if 0 \<in> set v then Some (length (takeWhile (\<lambda>c. c \<noteq> 0) v)) else None)"

fun bytes_write :: "nat \<Rightarrow> u8 list \<Rightarrow> nat \<Rightarrow> nat \<Rightarrow> u8 list \<Rightarrow> nat \<Rightarrow> (bool \<times> u8 list \<times> nat) option" where
  "bytes_write e v i 0 m b = Some (True, m, b)"
| "bytes_write e v i (Suc k) m b = do {
     c \<leftarrow> rd v i;
     (ok, m, b) \<leftarrow> byte_write e c m b;
     if \<not> ok then Some (False, m, b) else bytes_write e v (i + 1) k m b }"

text \<open>The text is an array; a length of 0 asks for the length of the text up to its terminator.\<close>

definition string_write :: "nat \<Rightarrow> u8 list \<Rightarrow> 'a::len word \<Rightarrow> u8 list \<Rightarrow> nat \<Rightarrow> (bool \<times> u8 list \<times> nat) option" where
  "string_write e v l m b = do {
     l \<leftarrow> (if l = 0 then map_option (\<lambda>n. of_nat n :: 'a word) (c_strlen v) else Some l);
     (ok, m, b) \<leftarrow> varint_write e l m b;
     if \<not> ok then Some (False, m, b) else bytes_write e v 0 (unat l) m b }"

text \<open>The array \<open>out\<close> of the caller is written without a look at its length.\<close>

fun bytes_read :: "nat \<Rightarrow> u8 list \<Rightarrow> nat \<Rightarrow> nat \<Rightarrow> u8 list \<Rightarrow> nat \<Rightarrow> (bool \<times> u8 list \<times> nat) option" where
  "bytes_read e m i 0 out b = Some (True, out, b)"
| "bytes_read e m i (Suc k) out b = do {
     (r, b) \<leftarrow> byte_read e m b;
     case r of None \<Rightarrow> Some (False, out, b)
     | Some c \<Rightarrow> do { out \<leftarrow> wr out i c; bytes_read e m (i + 1) k out b } }"

definition string_read :: "'a::len itself \<Rightarrow> nat \<Rightarrow> u8 list \<Rightarrow> u8 list \<Rightarrow> nat \<Rightarrow> (bool \<times> u8 list \<times> nat) option" where
  "string_read int_t e m out b = do {
     (r, b) \<leftarrow> varint_read e m b;
     case (r :: 'a word option) of None \<Rightarrow> Some (False, out, b)
     | Some l \<Rightarrow> do {
         (ok, out, b) \<leftarrow> bytes_read e m 0 (unat l) out b;
         if \<not> ok then Some (False, out, b) else do { out \<leftarrow> wr out (unat l) 0; Some (True, out, b) } } }"

section \<open>Fields\<close>

text \<open>The type of a value selects how it is written: integers as in \<open>VarInt\<close>, everything else as in \<open>String\<close>.\<close>

definition message_write_int :: "nat \<Rightarrow> 'a::len word \<Rightarrow> 'a word \<Rightarrow> u8 list \<Rightarrow> nat \<Rightarrow> (bool \<times> u8 list \<times> nat) option" where
  "message_write_int e field v m b = do {
     (ok, m, b) \<leftarrow> varint_write e (push_bit 3 field OR 0) m b;
     if \<not> ok then Some (False, m, b) else varint_write e v m b }"

definition message_write_string :: "nat \<Rightarrow> 'a::len word \<Rightarrow> u8 list \<Rightarrow> 'a word \<Rightarrow> u8 list \<Rightarrow> nat \<Rightarrow> (bool \<times> u8 list \<times> nat) option" where
  "message_write_string e field v l m b = do {
     (ok, m, b) \<leftarrow> varint_write e (push_bit 3 field OR 2) m b;
     if \<not> ok then Some (False, m, b) else string_write e v l m b }"

text \<open>The wire type that is read is not compared with the expected one.\<close>

definition message_read_int :: "nat \<Rightarrow> u8 list \<Rightarrow> nat \<Rightarrow> ('a::len word option \<times> 'a word option \<times> nat) option" where
  "message_read_int e m b = do {
     (r, b) \<leftarrow> varint_read e m b;
     case r of None \<Rightarrow> Some (None, None, b)
     | Some r \<Rightarrow> do { (v, b) \<leftarrow> varint_read e m b; Some (Some (drop_bit 3 r), v, b) } }"

definition message_read_string :: "nat \<Rightarrow> u8 list \<Rightarrow> u8 list \<Rightarrow> nat \<Rightarrow> ('a::len word option \<times> bool \<times> u8 list \<times> nat) option" where
  "message_read_string e m out b = do {
     (r, b) \<leftarrow> varint_read e m b;
     case (r :: 'a word option) of None \<Rightarrow> Some (None, False, out, b)
     | Some r \<Rightarrow> do { (ok, out, b) \<leftarrow> string_read TYPE('a) e m out b; Some (Some (drop_bit 3 r), ok, out, b) } }"

definition field_number :: "nat \<Rightarrow> u8 list \<Rightarrow> nat \<Rightarrow> 'a::len word option" where
  "field_number e m b = do { (r, b) \<leftarrow> varint_read e m b; map_option (drop_bit 3) r }"

definition wire_type :: "nat \<Rightarrow> u8 list \<Rightarrow> nat \<Rightarrow> 'a::len word option" where
  "wire_type e m b = do { (r, b) \<leftarrow> varint_read e m b; map_option (\<lambda>r. r AND 7) r }"


section \<open>What is written\<close>

lemma drop_7_val: "unat (drop_bit 7 (u :: 'a::len word)) = unat u div 128"
  unfolding unat_drop_bit_eq by (simp add: drop_bit_eq_div)

lemma unat_ucast_mod: "unat (ucast w :: 'b::len word) = unat (w :: 'a::len word) mod 2 ^ LENGTH('b)"
  by (simp add: unsigned_ucast_eq take_bit_eq_mod)

text \<open>The bytes of a number: seven bits in each, the least significant first, and a mark on all but the last.\<close>

function varint_code :: "u32 \<Rightarrow> u8 list" where
  "varint_code u = (if drop_bit 7 u = 0 then [ucast (u AND 0x7F)] else ucast (u AND 0x7F OR 0x80) # varint_code (drop_bit 7 u))"
  by auto
termination
proof (relation "measure unat")
  fix u :: u32
  assume "drop_bit 7 u \<noteq> 0"
  then have "unat u div 128 \<noteq> 0" by (metis drop_7_val unat_eq_0)
  then show "(drop_bit 7 u, u) \<in> measure unat" by (simp add: drop_7_val del: drop_bit_numeral_bit1)
qed simp

declare varint_code.simps [simp del]

text \<open>\<open>put_at m b bs\<close> is the memory with the bytes at a position.\<close>

definition put_at :: "u8 list \<Rightarrow> nat \<Rightarrow> u8 list \<Rightarrow> u8 list" where
  "put_at m b bs = take b m @ bs @ drop (b + length bs) m"

lemma length_put_at [simp]: "b + length bs \<le> length m \<Longrightarrow> length (put_at m b bs) = length m"
  by (simp add: put_at_def)

lemma put_at_Nil [simp]: "put_at m b [] = m"
  by (simp add: put_at_def)

lemma put_at_put_at: "b + length xs \<le> length m \<Longrightarrow> put_at (put_at m b xs) (b + length xs) ys = put_at m b (xs @ ys)"
  by (simp add: put_at_def ac_simps)

lemma byte_write_put_at: "b < e \<Longrightarrow> e \<le> length m \<Longrightarrow> byte_write e v m b = Some (True, put_at m b [v], b + 1)"
  by (simp add: byte_write_def wr_def put_at_def upd_conv_take_nth_drop)

lemma rest_id: "ucast (ucast (drop_bit 7 (ucast (v :: 'a::len word) :: u32)) :: 'a word) = drop_bit 7 (ucast v :: u32)"
proof -
  have "unat (drop_bit 7 (ucast v :: u32)) \<le> unat (ucast v :: u32)" by (simp only: drop_7_val div_le_dividend)
  also have "\<dots> \<le> unat v" by (simp add: unsigned_ucast_eq take_bit_nat_less_eq_self)
  also have "\<dots> < 2 ^ LENGTH('a)" by (rule unsigned_less)
  finally have l: "unat (drop_bit 7 (ucast v :: u32)) < 2 ^ LENGTH('a)" .
  show ?thesis
    by (rule unsigned_word_eqI [where 'a = nat])
      (use l unsigned_less [of "drop_bit 7 (ucast v :: u32)", where 'a = nat] in \<open>simp only: unat_ucast_mod mod_less\<close>)
qed

lemma varint_write_put_at:
  fixes v :: "'a::len word"
  assumes "b + length (varint_code (ucast v)) \<le> e" "e \<le> length m"
  shows "varint_write e v m b = Some (True, put_at m b (varint_code (ucast v)), b + length (varint_code (ucast v)))"
  using assms
proof (induction e v m b rule: varint_write.induct)
  case (1 e v m b)
  let ?u = "ucast v :: u32"
  show ?case
  proof (cases "drop_bit 7 ?u = 0")
    case True
    then have code: "varint_code ?u = [ucast (?u AND 0x7F)]" by (subst varint_code.simps) simp
    then have "b < e" using 1(2) by simp
    from byte_write_put_at [OF this 1(3), of "ucast (?u AND 0x7F)"] show ?thesis unfolding code
      by (subst varint_write.simps) (simp add: True Let_def del: drop_bit_numeral_bit1)
  next
    case False
    define c where "c = (ucast (?u AND 0x7F OR 0x80) :: u8)"
    define x where "x = (ucast (drop_bit 7 ?u) :: 'a word)"
    have code: "varint_code ?u = c # varint_code (ucast x)"
      unfolding c_def x_def rest_id by (subst varint_code.simps) (simp only: False if_False)
    then have b: "b < e" "b + 1 + length (varint_code (ucast x)) \<le> e" using 1(2) by simp_all
    have w: "byte_write e c m b = Some (True, put_at m b [c], b + 1)" by (rule byte_write_put_at [OF b(1) 1(3)])
    have "varint_write e x (put_at m b [c]) (b + 1) =
        Some (True, put_at (put_at m b [c]) (b + 1) (varint_code (ucast x)), b + 1 + length (varint_code (ucast x)))"
      using 1(1) False w b 1(3) unfolding c_def x_def by simp
    then show ?thesis using put_at_put_at [of b "[c]" m "varint_code (ucast x)"] b 1(3) w False unfolding code
      by (subst varint_write.simps) (simp add: Let_def c_def [symmetric] x_def [symmetric])
  qed
qed


section \<open>What is read\<close>

definition stored :: "u8 list \<Rightarrow> nat \<Rightarrow> u8 list \<Rightarrow> bool" where
  "stored m b bs \<longleftrightarrow> b + length bs \<le> length m \<and> take (length bs) (drop b m) = bs"

lemma stored_Cons: "stored m b (x # xs) \<longleftrightarrow> b < length m \<and> m ! b = x \<and> stored m (b + 1) xs"
  by (cases "b < length m") (auto simp: stored_def Cons_nth_drop_Suc [symmetric])

lemma stored_append: "stored m b (xs @ ys) \<longleftrightarrow> stored m b xs \<and> stored m (b + length xs) ys"
  by (induction xs arbitrary: b) (auto simp: stored_Cons, auto simp: stored_def)

lemma stored_put_at: "b + length bs \<le> length m \<Longrightarrow> stored (put_at m b bs) b bs"
  by (simp add: stored_def put_at_def)

lemma and_7F: "(x :: 'a::len word) AND 0x7F = take_bit 7 x"
proof -
  have "(0x7F :: 'a word) = of_nat (2 ^ 7 - 1)" by simp
  then show ?thesis by (simp add: take_bit_eq_mask mask_eq_exp_minus_1)
qed

lemma last_group: "drop_bit 7 (ucast (take_bit 7 (u :: u32)) :: u8) = 0" "take_bit 7 (ucast (ucast (take_bit 7 u) :: u8) :: 'a::len word) = ucast (take_bit 7 u)"
  by (rule bit_word_eqI; auto simp: bit_simps)+

lemma marked_group: "drop_bit 7 (ucast (take_bit 7 (u :: u32) OR 0x80) :: u8) \<noteq> 0"
  "take_bit 7 (ucast (ucast (take_bit 7 u OR 0x80) :: u8) :: 'a::len word) = ucast (take_bit 7 u)"
proof -
  have e: "(0x80 :: u32) = push_bit 7 1" by simp
  have b: "bit (0x80 :: u32) k \<longleftrightarrow> k = 7" for k unfolding e by (simp only: bit_push_bit_iff bit_1_iff) auto
  have "bit (drop_bit 7 (ucast (take_bit 7 u OR 0x80) :: u8)) 0" by (simp add: bit_simps b)
  then show "drop_bit 7 (ucast (take_bit 7 u OR 0x80) :: u8) \<noteq> 0" by auto
  show "take_bit 7 (ucast (ucast (take_bit 7 u OR 0x80) :: u8) :: 'a word) = ucast (take_bit 7 u)"
    by (rule bit_word_eqI) (simp only: bit_take_bit_iff bit_unsigned_iff bit_or_iff b, auto)
qed

lemma groups: "ucast (take_bit 7 u) OR push_bit 7 (ucast (drop_bit 7 u)) = (ucast (u :: u32) :: 'a::len word)"
  by (rule bit_word_eqI) (auto simp: bit_simps)


lemma varint_read_stored:
  assumes "stored m b (varint_code u)" "b + length (varint_code u) \<le> e" "e \<le> length m"
  shows "varint_read e m b = Some (Some (ucast u :: 'a::len word), b + length (varint_code u))"
  using assms
proof (induction u arbitrary: b rule: varint_code.induct)
  case (1 u)
  show ?case
  proof (cases "drop_bit 7 u = 0")
    case True
    then have code: "varint_code u = [ucast (take_bit 7 u)]" by (subst varint_code.simps) (simp add: and_7F)
    have u: "take_bit 7 u = u" using True by (simp add: take_bit_eq_self_iff_drop_bit_eq_0)
    have "byte_read e m b = Some (Some (ucast (take_bit 7 u)), b + 1)"
      using 1(2-4) unfolding code by (simp add: byte_read_def rd_def stored_Cons)
    then show ?thesis unfolding code using last_group(1) [of u] last_group(2) [where 'a = 'a, of u] u
      by (subst varint_read.simps) (simp add: and_7F Let_def del: drop_bit_numeral_bit1)
  next
    case False
    define c where "c = (ucast (take_bit 7 u OR 0x80) :: u8)"
    have code: "varint_code u = c # varint_code (drop_bit 7 u)"
      unfolding c_def by (subst varint_code.simps) (simp only: False if_False and_7F)
    have r: "byte_read e m b = Some (Some c, b + 1)"
      using 1(2-4) unfolding code by (simp add: byte_read_def rd_def stored_Cons)
    have "varint_read e m (b + 1) = Some (Some (ucast (drop_bit 7 u) :: 'a word), b + 1 + length (varint_code (drop_bit 7 u)))"
      using 1(2-4) unfolding code by (intro 1(1) [OF False]) (simp_all add: stored_Cons)
    then show ?thesis unfolding code using r marked_group(1) [of u, folded c_def] marked_group(2) [where 'a = 'a, of u, folded c_def] groups [where 'a = 'a, of u]
      by (subst varint_read.simps) (simp add: and_7F Let_def)
  qed
qed

lemma bytes_write_put_at:
  assumes "b + k \<le> e" "e \<le> length m" "i + k \<le> length v"
  shows "bytes_write e v i k m b = Some (True, put_at m b (take k (drop i v)), b + k)"
  using assms
proof (induction k arbitrary: i m b)
  case (Suc k)
  have "take (Suc k) (drop i v) = v ! i # take k (drop (i + 1) v)" using Suc.prems(3) by (simp add: Cons_nth_drop_Suc [symmetric])
  then show ?case
    using Suc.IH [of "b + 1" "put_at m b [v ! i]" "i + 1"] Suc.prems put_at_put_at [of b "[v ! i]" m "take k (drop (i + 1) v)"]
    by (simp add: byte_write_put_at rd_def)
qed simp

lemma bytes_read_stored:
  assumes "stored m b bs" "b + length bs \<le> e" "e \<le> length m" "i + length bs \<le> length out"
  shows "bytes_read e m i (length bs) out b = Some (True, put_at out i bs, b + length bs)"
  using assms
proof (induction bs arbitrary: i out b)
  case (Cons c bs)
  have "byte_read e m b = Some (Some c, b + 1)" using Cons.prems by (simp add: byte_read_def rd_def stored_Cons)
  moreover have "wr out i c = Some (put_at out i [c])" using Cons.prems by (simp add: wr_def put_at_def upd_conv_take_nth_drop)
  ultimately show ?case
    using Cons.IH [of "b + 1" "i + 1" "put_at out i [c]"] Cons.prems put_at_put_at [of i "[c]" out bs] by (simp add: stored_Cons)
qed simp


lemma bytes_read_overflow:
  assumes "stored m b bs" "b + length bs \<le> e" "e \<le> length m" "length out < i + length bs" "i \<le> length out"
  shows "bytes_read e m i (length bs) out b = None"
  using assms
proof (induction bs arbitrary: i out b)
  case (Cons c bs)
  have r: "byte_read e m b = Some (Some c, b + 1)" using Cons.prems by (simp add: byte_read_def rd_def stored_Cons)
  show ?case
  proof (cases "i < length out")
    case True
    then show ?thesis using Cons.IH [of "b + 1" "out[i := c]" "i + 1"] Cons.prems r by (simp add: stored_Cons wr_def)
  next
    case False
    then show ?thesis using r by (simp add: wr_def)
  qed
qed simp

lemma length_varint_code: "unat u < 128 ^ Suc k \<Longrightarrow> length (varint_code u) \<le> Suc k"
proof (induction k arbitrary: u)
  case 0
  then have "drop_bit 7 u = 0" by (simp add: drop_7_val unat_eq_0 [symmetric] del: unat_eq_0)
  then show ?case by (simp add: varint_code.simps [of u])
next
  case (Suc k)
  have "unat (drop_bit 7 u) < 128 ^ Suc k" using Suc.prems unfolding drop_7_val by (simp add: less_mult_imp_div_less)
  then show ?case using Suc.IH [of "drop_bit 7 u"] by (simp add: varint_code.simps [of u])
qed

lemma varint_code_5: "length (varint_code u) \<le> 5"
proof -
  have "(2 :: nat) ^ LENGTH(32) \<le> 128 ^ Suc 4" by simp
  with unsigned_less [of u, where 'a = nat] have "unat u < 128 ^ Suc 4" by (rule less_le_trans)
  from length_varint_code [OF this] show ?thesis by simp
qed

lemma ucast_back: "unat (v :: 'a::len word) < 2 ^ 32 \<Longrightarrow> ucast (ucast v :: u32) = v"
  using unsigned_less [of v, where 'a = nat]
  by (intro unsigned_word_eqI [where 'a = nat]) (simp only: unat_ucast_mod, simp)

text \<open>The tag of a field and its number.\<close>

lemma tag_field:
  fixes field w :: "'a::len word"
  assumes "unat field * 8 < 2 ^ 32" "unat field * 8 < 2 ^ LENGTH('a)" "w = 0 \<or> w = 2"
  shows "drop_bit 3 (ucast (ucast (push_bit 3 field OR w) :: u32) :: 'a word) = field"
proof -
  have high: "\<not> bit field k" if "29 \<le> k \<or> LENGTH('a) \<le> k + 3" for k
  proof
    assume "bit field k"
    then have "odd (unat field div 2 ^ k)" by (simp add: bit_unsigned_iff flip: bit_iff_odd)
    then have "2 ^ k \<le> unat field" by (metis div_less dvd_0_right not_le)
    moreover have "(2 :: nat) ^ 29 \<le> 2 ^ k \<or> (2 :: nat) ^ LENGTH('a) \<le> 2 ^ (k + 3)" using that power_increasing [of 29 k "2 :: nat"] power_increasing [of "LENGTH('a)" "k + 3" "2 :: nat"] by auto
    ultimately show False using assms(1,2) by (auto simp: power_add)
  qed
  have field: "bit field k \<Longrightarrow> k < 29 \<and> k + 3 < LENGTH('a)" for k using high by (meson not_le)
  have w: "\<not> bit w (k + 3)" for k
  proof -
    have "(2 :: 'a word) = push_bit 1 1" by simp
    then have "bit (2 :: 'a word) n \<Longrightarrow> n = 1" for n by (simp only: bit_push_bit_iff bit_1_iff) auto
    from this [of "k + 3"] show ?thesis using assms(3) by fastforce
  qed
  show ?thesis
    using w by (intro bit_word_eqI) (auto simp: bit_simps add.commute dest: field)
qed


section \<open>Properties\<close>

text \<open>A field with an integer below \<open>2 ^ 32\<close> is read back with its number, in any buffer with room for ten bytes and for
  every integer type that can hold the number and its tag; the bytes outside stay.\<close>

theorem message_int_roundtrip:
  fixes field v :: "'a::len word"
  assumes "unat field * 8 < 2 ^ 32" "unat field * 8 < 2 ^ LENGTH('a)" "unat v < 2 ^ 32" "b + 10 \<le> e" "e \<le> length m"
  shows "\<exists>m' b'. message_write_int e field v m b = Some (True, m', b') \<and> b' \<le> b + 10 \<and> take b m' = take b m \<and> drop b' m' = drop b' m \<and>
    message_read_int e m' b = Some (Some field, Some v, b')"
proof -
  define t where "t = (ucast (push_bit 3 field OR 0 :: 'a word) :: u32)"
  define u where "u = (ucast v :: u32)"
  let ?bs = "varint_code t @ varint_code u"
  let ?m = "put_at m b ?bs" and ?b = "b + length ?bs"
  have l: "length ?bs \<le> 10" using varint_code_5 [of t] varint_code_5 [of u] by simp
  have w: "message_write_int e field v m b = Some (True, ?m, ?b)"
    using l assms(4,5) varint_write_put_at [of b "push_bit 3 field OR 0" e m, folded t_def]
      varint_write_put_at [of "b + length (varint_code t)" v e "put_at m b (varint_code t)", folded u_def] put_at_put_at [of b "varint_code t" m "varint_code u"]
    by (simp add: message_write_int_def del: or.right_neutral)
  have st: "stored ?m b (varint_code t)" "stored ?m (b + length (varint_code t)) (varint_code u)"
    using stored_put_at [of b ?bs m] l assms(4,5) by (simp_all add: stored_append)
  have "message_read_int e ?m b = Some (Some field, Some v, ?b)"
    using varint_read_stored [where 'a = 'a, OF st(1), of e] varint_read_stored [where 'a = 'a, OF st(2), of e] l assms(4,5)
      tag_field [OF assms(1,2), of 0, folded t_def] ucast_back [OF assms(3), folded u_def]
    by (simp add: message_read_int_def)
  then show ?thesis using w l assms(4,5) by (intro exI [of _ ?m] exI [of _ ?b]) (simp add: put_at_def)
qed

theorem message_int_roundtrip_witness:
  "\<exists>m' b'. message_write_int 12 (5 :: u32) 300 (replicate 16 7) 2 = Some (True, m', b') \<and> message_read_int 12 m' 2 = Some (Some (5 :: u32), Some 300, b')"
  using message_int_roundtrip [of "5 :: u32" 300 2 12 "replicate 16 7"] by auto

text \<open>C39: A field with a text of \<open>l\<close> bytes is read back with its number and the text, terminated, at the start of the array of the
  reader. When that array has no room for the text and its terminator, the reader writes behind it.\<close>

theorem message_string_roundtrip:
  fixes field l :: "'a::len word"
  assumes "unat field * 8 + 2 < 2 ^ 32" "unat field * 8 + 2 < 2 ^ LENGTH('a)" "0 < unat l" "unat l < 2 ^ 32" "unat l \<le> length v"
    and "b + 10 + unat l \<le> e" "e \<le> length m"
  shows "\<exists>m' b'. message_write_string e field v l m b = Some (True, m', b') \<and>
    (\<forall>out. message_read_string e m' out b =
      (if unat l < length out then Some (Some field, True, put_at out 0 (take (unat l) v @ [0]), b') else None))"
proof -
  define t where "t = (ucast (push_bit 3 field OR 2 :: 'a word) :: u32)"
  define u where "u = (ucast l :: u32)"
  let ?vs = "take (unat l) v"
  let ?bs = "(varint_code t @ varint_code u) @ ?vs"
  let ?m = "put_at m b ?bs" and ?b = "b + length ?bs" and ?b1 = "b + length (varint_code t)" and ?b2 = "b + length (varint_code t @ varint_code u)"
  have vs: "length ?vs = unat l" using assms(5) by simp
  have l: "length (varint_code t @ varint_code u) \<le> 10" using varint_code_5 [of t] varint_code_5 [of u] by simp
  have nz: "l \<noteq> 0" using assms(3) by auto
  have w: "message_write_string e field v l m b = Some (True, ?m, ?b)"
    using l assms(5-7) nz vs varint_write_put_at [of b "push_bit 3 field OR 2" e m, folded t_def]
      varint_write_put_at [of ?b1 l e "put_at m b (varint_code t)", folded u_def] put_at_put_at [of b "varint_code t" m "varint_code u"]
      bytes_write_put_at [of ?b2 "unat l" e "put_at m b (varint_code t @ varint_code u)" 0 v] put_at_put_at [of b "varint_code t @ varint_code u" m ?vs]
    by (simp add: message_write_string_def string_write_def add.assoc)
  have st: "stored ?m b (varint_code t)" "stored ?m ?b1 (varint_code u)" "stored ?m ?b2 ?vs"
    using stored_put_at [of b ?bs m] l assms(6,7) vs by (simp_all add: stored_append add.assoc)
  have t: "varint_read e ?m b = Some (Some (ucast t :: 'a word), ?b1)" and u: "varint_read e ?m ?b1 = Some (Some (ucast u :: 'a word), ?b2)"
    using varint_read_stored [where 'a = 'a, OF st(1), of e] varint_read_stored [where 'a = 'a, OF st(2), of e] l assms(6,7) vs
    by (simp_all add: add.assoc)
  have f: "drop_bit 3 (ucast t :: 'a word) = field" using assms(1,2) tag_field [of field 2, folded t_def] by simp
  have ul: "(ucast u :: 'a word) = l" using ucast_back [OF assms(4), folded u_def] .
  have m: "?b2 + length ?vs \<le> e" "e \<le> length ?m" using l assms(6,7) vs by simp_all
  have "message_read_string e ?m out b = (if unat l < length out then Some (Some field, True, put_at out 0 (?vs @ [0]), ?b) else None)" for out
  proof (cases "unat l < length out")
    case True
    then have "bytes_read e ?m 0 (unat l) out ?b2 = Some (True, put_at out 0 ?vs, ?b)"
      using bytes_read_stored [OF st(3) m, of 0 out] vs by (simp add: add.assoc)
    moreover have "wr (put_at out 0 ?vs) (unat l) 0 = Some (put_at out 0 (?vs @ [0]))"
      using True vs by (simp add: wr_def put_at_def list_update_append Cons_nth_drop_Suc [symmetric])
    ultimately show ?thesis using True t u f ul by (simp add: message_read_string_def string_read_def)
  next
    case False
    then have "bytes_read e ?m 0 (unat l) out ?b2 = None \<or> (\<exists>o' b'. bytes_read e ?m 0 (unat l) out ?b2 = Some (True, o', b') \<and> wr o' (unat l) 0 = None)"
      using bytes_read_overflow [OF st(3) m, of out 0] bytes_read_stored [OF st(3) m, of 0 out] vs
      by (cases "length out < unat l") (simp_all add: wr_def put_at_def)
    then show ?thesis using False t u f ul by (auto simp: message_read_string_def string_read_def)
  qed
  then show ?thesis using w by (intro exI [of _ ?m] exI [of _ ?b]) simp
qed

theorem message_string_roundtrip_witness:
  "\<exists>m' b'. message_write_string 20 (1 :: u32) [104, 105, 0] 2 (replicate 20 0) 0 = Some (True, m', b') \<and>
    message_read_string 20 m' [9, 9, 9, 9] 0 = Some (Some (1 :: u32), True, [104, 105, 0, 9], b') \<and>
    message_read_string 20 m' [9, 9] 0 = (None :: (u32 option \<times> _) option)"
  using message_string_roundtrip [of "1 :: u32" 2 "[104, 105, 0]" 0 20 "replicate 20 0"] by (auto simp: put_at_def)

end
