(* ===== verification/Hashing.thy ===== *)
theory Hashing
  imports Wl_Prelude
begin

text \<open>
  \<^verbatim>\<open>bloom_filter.h\<close>, \<^verbatim>\<open>fnv.h\<close> and \<^verbatim>\<open>kiss.h\<close> of
  \<^verbatim>\<open>wiselib.testing/algorithms\<close>: a set of numbers as bits, hashes of byte strings and a generator of random
  numbers.
\<close>

unbundle bit_operations_syntax

section \<open>Bloom filter\<close>

text \<open>The filter has \<open>SIZE\<close> bits. The array itself has no length in the class; \<open>create\<close> gets the bytes from the
  allocator.\<close>

definition bloom_bytes :: "nat \<Rightarrow> nat" where
  "bloom_bytes SIZE = (SIZE + 7) div 8"

definition bloom_clear :: "nat \<Rightarrow> u8 list \<Rightarrow> u8 list option" where
  "bloom_clear SIZE data = memcpy data 0 (replicate (bloom_bytes SIZE) 0)"

definition bloom_byte :: "nat \<Rightarrow> nat" where "bloom_byte n = n div 8"
definition bloom_bit :: "nat \<Rightarrow> nat" where "bloom_bit n = n mod 8"

definition bloom_add :: "nat \<Rightarrow> nat \<Rightarrow> u8 list \<Rightarrow> u8 list option" where
  "bloom_add SIZE v data =
     (if SIZE = 0 then None
      else do {
        v \<leftarrow> Some (v mod SIZE);
        d \<leftarrow> rd data (bloom_byte v);
        wr data (bloom_byte v) (d OR push_bit (bloom_bit v) 1) })"

fun bloom_or_loop :: "nat \<Rightarrow> nat \<Rightarrow> u8 list \<Rightarrow> u8 list \<Rightarrow> u8 list option" where
  "bloom_or_loop i 0 other data = Some data"
| "bloom_or_loop i (Suc k) other data = do {
     d \<leftarrow> rd data i;
     x \<leftarrow> rd other i;
     data \<leftarrow> wr data i (d OR x);
     bloom_or_loop (i + 1) k other data }"

text \<open>The loop counts bits and not bytes.\<close>

definition bloom_or :: "nat \<Rightarrow> u8 list \<Rightarrow> u8 list \<Rightarrow> u8 list option" where
  "bloom_or SIZE other data = bloom_or_loop 0 SIZE other data"

text \<open>The elements of a filter.\<close>

definition bloom_elements :: "u8 list \<Rightarrow> nat set" where
  "bloom_elements data = {n. n < 8 * length data \<and> bit (data ! (n div 8)) (n mod 8)}"

fun bloom_add_all :: "nat \<Rightarrow> nat list \<Rightarrow> u8 list \<Rightarrow> u8 list option" where
  "bloom_add_all SIZE [] data = Some data"
| "bloom_add_all SIZE (v # vs) data = do { data \<leftarrow> bloom_add SIZE v data; bloom_add_all SIZE vs data }"

section \<open>Hashes\<close>

fun fnv_loop :: "'a::len word \<Rightarrow> 'a word \<Rightarrow> u8 list \<Rightarrow> 'a word" where
  "fnv_loop magicprime hashval [] = hashval"
| "fnv_loop magicprime hashval (c # cs) = fnv_loop magicprime ((hashval XOR ucast c) * magicprime) cs"

definition fnv32 :: "u8 list \<Rightarrow> nat \<Rightarrow> u32 option" where
  "fnv32 s l = map_option (fnv_loop 0x1000193 0x811c9dc5) (rd_bytes s 0 l)"

definition fnv64 :: "u8 list \<Rightarrow> nat \<Rightarrow> 64 word option" where
  "fnv64 s l = map_option (fnv_loop 0x00000100000001b3 0xcbf29ce484222325) (rd_bytes s 0 l)"

section \<open>Random numbers\<close>

record Kiss =
  kiss_x :: u32
  kiss_y :: u32
  kiss_z :: u32
  kiss_c :: u32

definition kiss_new :: Kiss where
  "kiss_new = \<lparr>kiss_x = 123456789, kiss_y = 362436000, kiss_z = 521288629, kiss_c = 7654321\<rparr>"

definition kiss_srand :: "u32 \<Rightarrow> Kiss \<Rightarrow> Kiss" where
  "kiss_srand seed k = k\<lparr>kiss_x := seed\<rparr>"

definition kiss_next :: "Kiss \<Rightarrow> u32 \<times> Kiss" where
  "kiss_next k =
     (let x = 69069 * kiss_x k + 12345;
        y = kiss_y k; y = y XOR push_bit 13 y; y = y XOR drop_bit 17 y; y = y XOR push_bit 5 y;
        t = 698769069 * ucast (kiss_z k) + ucast (kiss_c k) :: 64 word;
        c = ucast (drop_bit 32 t); z = ucast t
      in (x + y + z, \<lparr>kiss_x = x, kiss_y = y, kiss_z = z, kiss_c = c\<rparr>))"

section \<open>Elements\<close>

lemma bloom_add_elements:
  assumes "0 < SIZE" "SIZE \<le> 8 * length data"
  shows "\<exists>data'. bloom_add SIZE v data = Some data' \<and> length data' = length data \<and> bloom_elements data' = insert (v mod SIZE) (bloom_elements data)"
proof -
  let ?n = "v mod SIZE"
  have n: "?n < 8 * length data" using assms by (meson less_le_trans mod_less_divisor)
  then have b: "?n div 8 < length data" by (simp add: less_mult_imp_div_less mult.commute)
  let ?d = "data[?n div 8 := data ! (?n div 8) OR push_bit (?n mod 8) 1]"
  have "bit (?d ! (m div 8)) (m mod 8) \<longleftrightarrow> m = ?n \<or> bit (data ! (m div 8)) (m mod 8)" for m
  proof (cases "m div 8 = ?n div 8")
    case True
    have "m mod 8 = ?n mod 8 \<longleftrightarrow> m = ?n" using True by (metis mult_div_mod_eq)
    then show ?thesis using True b by (auto simp: bit_or_iff bit_push_bit_iff bit_1_iff simp del: push_bit_of_1)
  next
    case False
    then show ?thesis by auto
  qed
  then have "bloom_elements ?d = insert ?n (bloom_elements data)" using n by (auto simp: bloom_elements_def)
  moreover have "bloom_add SIZE v data = Some ?d" using b assms(1) by (simp add: bloom_add_def bloom_byte_def bloom_bit_def rd_def wr_def)
  ultimately show ?thesis by simp
qed

lemma bloom_add_all_elements:
  assumes "0 < SIZE" "SIZE \<le> 8 * length data"
  shows "\<exists>data'. bloom_add_all SIZE vs data = Some data' \<and> length data' = length data \<and>
    bloom_elements data' = (\<lambda>v. v mod SIZE) ` set vs \<union> bloom_elements data"
  using assms(2)
proof (induction vs arbitrary: data)
  case (Cons v vs)
  obtain data1 where d1: "bloom_add SIZE v data = Some data1" "length data1 = length data"
      "bloom_elements data1 = insert (v mod SIZE) (bloom_elements data)"
    using bloom_add_elements [OF assms(1) Cons.prems] by blast
  then show ?case using Cons.IH [of data1] Cons.prems by auto
qed simp

text \<open>A filter of more than one byte of bits cannot be united with another.\<close>

lemma bloom_or_loop_overrun: "length other < i + k \<Longrightarrow> i \<le> length other \<Longrightarrow> bloom_or_loop i k other data = None"
proof (induction k arbitrary: i data)
  case (Suc k)
  show ?case
  proof (cases "i < length other")
    case True
    then show ?thesis using Suc.IH [of "i + 1"] Suc.prems by (simp split: Option.bind_splits)
  next
    case False
    then show ?thesis by (simp add: rd_def split: Option.bind_splits)
  qed
qed simp

lemma bloom_or_overruns: "1 < SIZE \<Longrightarrow> length other = bloom_bytes SIZE \<Longrightarrow> bloom_or SIZE other data = None"
  unfolding bloom_or_def by (rule bloom_or_loop_overrun) (simp_all add: bloom_bytes_def)

section \<open>Properties\<close>

text \<open>The elements of a cleared filter to which numbers were added are these numbers modulo its size, so no
  number that was added is missed. The union of two filters of more than one bit runs over the ends of both.\<close>

theorem bloom_filter_elements:
  assumes "1 < SIZE" "length data = bloom_bytes SIZE" "length other = bloom_bytes SIZE"
  shows "\<exists>cleared data'. bloom_clear SIZE data = Some cleared \<and> bloom_add_all SIZE vs cleared = Some data' \<and>
    bloom_elements data' = (\<lambda>v. v mod SIZE) ` set vs \<and> bloom_or SIZE other data' = None"
proof -
  let ?z = "replicate (bloom_bytes SIZE) 0 :: u8 list"
  have "bloom_clear SIZE data = Some ?z" using assms(2) by (simp add: bloom_clear_def memcpy_def)
  moreover have "bloom_elements ?z = {}"
  proof -
    have "n div 8 < k" if "n < 8 * k" for n k :: nat using that by (simp add: less_mult_imp_div_less mult.commute)
    then show ?thesis by (auto simp: bloom_elements_def)
  qed
  moreover have "SIZE \<le> 8 * length ?z" by (simp add: bloom_bytes_def)
  ultimately show ?thesis using bloom_add_all_elements [of SIZE ?z vs] bloom_or_overruns [OF assms(1,3)] assms(1) by auto
qed

theorem bloom_filter_elements_witness:
  "\<exists>cleared data'. bloom_clear 16 [1, 2] = Some cleared \<and> bloom_add_all 16 [3, 20] cleared = Some data' \<and>
    bloom_elements data' = {3, 4} \<and> bloom_or 16 [0, 0] data' = None"
  using bloom_filter_elements [of 16 "[1, 2]" "[0, 0]" "[3, 20]"] by (simp add: bloom_bytes_def)

end
