(* ===== verification/Spec2Isabelle.thy ===== *)
theory Spec2Isabelle
  imports Radio_Base Routing_Table Tree_Convergence Dsdv_Network Dsr_Discovery Flooding_Network Pstl_Sets Priority_Queue Queue_Static Floating_Point Callback_Bases Aes_Cipher Sha1_Correct First_Fit Bitmap_Allocator Fragmenting_Correct List_Static_Refines Avl_Tree_Erase Reliable_Correct Curve_Octets Bitwise Protobuf Hashing
begin

text \<open>
  Wiselib: verification of its algorithms and data structures.

  \<^bold>\<open>The program.\<close> The Wiselib is a library of C++ templates for networks of small wireless nodes.
  An algorithm is a class with the operating system, its radio, timer and debug output and often a
  container as template parameters. A node calls \<^verbatim>\<open>init\<close> and \<^verbatim>\<open>send\<close>; the radio and
  the timer call back into \<^verbatim>\<open>receive\<close> and \<^verbatim>\<open>timer_elapsed\<close>. Nodes share nothing
  but the packets they send. The sources are \<^verbatim>\<open>src/wiselib.stable\<close>, which is modelled nearly as
  a whole except for the back ends of the operating systems, and \<^verbatim>\<open>src/wiselib.testing\<close>, of
  which the parts below are modelled. Paths without a prefix are below \<^verbatim>\<open>wiselib.stable\<close>.

  \<^bold>\<open>Conventions\<close> (\<open>Wl_Prelude\<close>). Integers have the width they have in the code; node ids are
  16 bits and message ids, sizes and the payload length 8 bits, as the radios of iSense, Contiki and
  TinyOS instantiate them, and every operation on them wraps as there. Memory behind a pointer is a
  list, a pointer an index; an access that the code does not check is \<open>rd\<close>, \<open>wr\<close>,
  \<open>rd_bytes\<close> or \<open>memcpy\<close>, which give \<^const>\<open>None\<close> outside of the object, so
  \<^const>\<open>None\<close> is undefined behaviour and never an error code. An object that is constructed
  without being cleared starts as an argument called \<open>junk\<close>. Handlers return the new state of the
  node and the list of calls it made to radio, timer and receivers (\<open>os_call\<close>), in order; the
  constants of the operating system are a record \<open>os_model\<close>. Loops are structural recursion or
  recursion with a proved measure; no fuel is used in a model of code. A loop that need not end is a partial function whose
  value is then \<^const>\<open>None\<close> too. The theorems on such code show that there is a result; the few that show that
  there is none are about arrays of the lengths the code asks for, where every access is inside.

  \<^bold>\<open>Serialization and base classes.\<close>
  \<^item> \<open>Serialization\<close>: \<^verbatim>\<open>util/serialization\<close>, reading and writing of values in network order
    on hosts of either byte order; \<open>Floating_Point\<close>: the two templates for floating point numbers.
    The lemmas show that the loops copy the bytes in the right order and that reading gives back
    what was written, through a locale of serializable types.
  \<^item> \<open>Bitwise\<close>: \<^verbatim>\<open>bitwise_serialization.h\<close>, values of any number of bits at any bit of an array;
    the effect of a write on every bit of the array. \<open>Protobuf\<close>: \<^verbatim>\<open>wiselib.testing/util/protobuf\<close>,
    numbers, texts and fields are read back as written; \<open>Hashing\<close>: the Bloom filter, the hashes and the random numbers.
  \<^item> \<open>Message_Buffer\<close>: what the message classes share, as equations (\<open>put_simps\<close>) on bytes.
  \<^item> \<open>Radio_Base\<close>, \<open>Callback_Bases\<close>: \<^verbatim>\<open>util/base_classes\<close>, registration and notification.

  \<^bold>\<open>Containers and algorithms of pSTL.\<close>
  \<^item> \<open>Wl_Pair\<close>, \<open>Vector_Static\<close>, \<open>Queue_Static\<close>, \<open>Priority_Queue\<close>:
    \<^verbatim>\<open>pair.h\<close>, \<^verbatim>\<open>vector_static.h\<close>, \<^verbatim>\<open>queue_static.h\<close> and \<^verbatim>\<open>priority_queue.h\<close>,
    each operation with what it does to the abstract value (a list, a multiset), full and empty
    containers included.
  \<^item> \<open>List_Static\<close>: \<^verbatim>\<open>wiselib.testing/util/pstl/list_static.h\<close>, a ring of nodes in an array and the
    ring of its free nodes. \<open>List_Static_Correct\<close> states what the rings look like and what hooking and
    unhooking does to them, \<open>List_Static_Loops\<close> the operations with loops, and \<open>List_Static_Refines\<close> that
    the list refines a list of bounded length, and where the operations on ranges do not.
  \<^item> \<open>Avl_Tree\<close>: \<^verbatim>\<open>wiselib.testing/util/pstl/avl_tree.h\<close>, nodes in a heap of addresses with 0 as the
    null pointer. \<open>Avl_Tree_Shape\<close> relates the heap to a binary tree, \<open>Avl_Tree_Insert\<close> and
    \<open>Avl_Tree_Paths\<close> show what inserting, searching and the iterator do to that tree, and \<open>Avl_Tree_Correct\<close>
    that what \<open>insert_n\<close> builds passes the checks of the code, in the locale of comparators, interpreted
    on the comparator of strings. \<open>Avl_Tree_Erase\<close>: \<open>erase\<close> takes out one element, but it may leave
    the tree unbalanced, and later operations then lose elements.
  \<^item> \<open>Routing_Table\<close>: the two tables of \<^verbatim>\<open>internal_interface/routing_table\<close> and the locale
    \<open>routing_table\<close>, all that a routing algorithm needs to know of its table; it is interpreted
    on both.
  \<^item> \<open>Pstl_Search\<close>, \<open>Pstl_Modify\<close>, \<open>Pstl_Heap\<close>, \<open>Pstl_Sets\<close>:
    \<^verbatim>\<open>wiselib.testing/util/pstl/algorithm.h\<close>, all algorithms that compile, specified over the
    locale of strict weak orders of \<open>Pstl_Order\<close>: searching, rotating, partitioning, heap and
    insertion sort, merging. The code differs from the standard library in places, which are stated
    as properties or lemmas (\<open>alg_includes_shorter\<close>, \<open>alg_partial_sort_copy_wrong\<close>).

  \<^bold>\<open>Routing.\<close>
  \<^item> \<open>Tree_Messages\<close>, \<open>Tree_Routing\<close>: \<^verbatim>\<open>algorithms/routing/tree\<close>. \<open>Tree_Network\<close>
    puts nodes into a network whose radio may lose, duplicate, delay and reorder packets: from
    every reachable state the parents lead to a gateway without a cycle, and payload arrives
    unchanged. \<open>Tree_Convergence\<close> shows that every node gets there if links work again and again.
  \<^item> \<open>Dsdv_Messages\<close>, \<open>Dsdv_Routing\<close>: \<^verbatim>\<open>algorithms/routing/dsdv\<close>, for any table that
    meets the contract; \<open>Dsdv_Network\<close>: the network, loop freedom, delivery, the broadcast of a
    whole table, and what happens when the distance wraps around.
  \<^item> \<open>Dsr_Messages\<close>, \<open>Dsr_Routing\<close>: \<^verbatim>\<open>algorithms/routing/dsr\<close>; \<open>Dsr_Discovery\<close>: a
    route discovery from the request to the delivery of the waiting payload along the found path,
    and the treatment of duplicate requests.
  \<^item> \<open>Flooding\<close>: \<^verbatim>\<open>wiselib.testing/algorithms/routing/flooding\<close>; \<open>Flooding_Network\<close>: over
    lossless links in any order, every run of flooding ends and has reached every node exactly once as long as the
    sequence number 0 is not in use again, and a load of three messages under which it never ends.

  \<^bold>\<open>Radios over a radio.\<close>
  \<^item> \<open>Checked_Message\<close>: \<^verbatim>\<open>wiselib.testing/internal_interface/message/message.h\<close>, messages with a checksum:
    it is Fletcher's, computed in blocks, and what it detects.
  \<^item> \<open>Fragmenting\<close>: \<^verbatim>\<open>wiselib.testing/radio/fragmenting\<close>; \<open>Fragmenting_Correct\<close>: the fragments of a
    message make it again in whatever order they arrive, repeated before the last new one or not, with the pieces in the
    order of arrival; a complete repetition makes it a second time; and the messages that never become complete.
  \<^item> \<open>Reliable\<close>: \<^verbatim>\<open>wiselib.testing/radio/reliable\<close>; \<open>Reliable_Correct\<close>: the invariant of the radio and that
    every event within the sizes is defined, that an answered message is delivered only once, and what every
    run of the daemon does with a message without an answer until it is given up.

  \<^bold>\<open>Cryptography.\<close>
  \<^item> \<open>Aes\<close> models \<^verbatim>\<open>wiselib.testing/algorithms/crypto/aes.h\<close>; \<open>Aes_Field\<close> states the
    mathematics of FIPS 197 and shows that the tables and steps of the code are it; \<open>Aes_Cipher\<close>
    has the round trip and the equivalence with the cipher of the standard for the three key sizes.
  \<^item> \<open>Sha1\<close> models \<^verbatim>\<open>sha1.h\<close> with its ring of 16 words; \<open>Sha1_Correct\<close> shows that it
    computes SHA-1 of FIPS 180-4 however the message is cut into pieces, and HMAC of RFC 2104.
  \<^item> \<open>Multi_Precision\<close> and \<open>Modular\<close> model \<^verbatim>\<open>pmp.h\<close>, numbers of several digits of 32 bits and
    arithmetic modulo a number. Counters that the code keeps in 8 bits with a sign are cut to that range (\<open>schar\<close>,
    \<open>down_count\<close>): loops that start with a negative one are not entered. \<open>Multi_Precision_Correct\<close>, \<open>Multi_Precision_Division\<close> and
    \<open>Modular_Correct\<close> show that every operation computes what its name says on the numbers the arrays stand
    for, the long division with its estimated digits, the powers by pairs of bits, the inverses and quotients and the square roots
    included, and which calls never return.
  \<^item> \<open>Elliptic_Curve\<close> models \<^verbatim>\<open>eccfp.h\<close> over it. \<open>Elliptic_Curve_Correct\<close>: sums, doubles
    and multiples are those of chords, tangents and binary digits and stay on the curve, and where the addition never
    returns; \<open>Curve_Octets\<close>: points as bytes, and the compressed points that come back as their negatives.

  \<^bold>\<open>Memory.\<close>
  \<^item> \<open>First_Fit\<close>: \<^verbatim>\<open>wiselib.testing/util/allocators/first_fit_allocator.h\<close>: a client that keeps
    to the sizes never gets overlapping chunks; what happens with sizes the code does not guard.
  \<^item> \<open>Bitmap_Allocator\<close>: \<^verbatim>\<open>bit_array.h\<close> and \<^verbatim>\<open>bitmap_allocator.h\<close>: the bytes as a list of
    bits through a locale, and the block that freeing takes from the next chunk.

  \<^bold>\<open>Bounds.\<close> The theorems on packets ask that a packet is shorter than 256 bytes, the range of the
  radio's size; hop distances are below 255, the value of an unconnected node. The theorem on the
  end of flooding holds for maps with room for every source; the one on its reach for static
  tables with room for the one source. The theorems on fragments are for messages of at most seven fragments that fit
  into the 1024 bytes of the collecting radio, which has one place for the message; the one on giving up a message for
  retries and receivers that together are at most 255, the range of the counter. Arithmetic modulo a number is for at most \<open>MAX_NN_DIGITS\<close> digits (5 digits of 32 bits for keys of
  128 bits) and exponents of any length, quotients for odd numbers with a spare bit, and the curves for a prime, stated as coprime to all smaller
  numbers.

  \<^bold>\<open>Not modelled.\<close>
  \<^item> Debug output, statistics and printing, which have no influence on the state.
  \<^item> Code that no instance can compile: two constructors and the range forms of insert of
    \<open>vector_static\<close>, \<^verbatim>\<open>nth_element\<close>, \<^verbatim>\<open>partial_sort\<close> and their helpers, \<^verbatim>\<open>rend\<close> and
    \<^verbatim>\<open>splice\<close> of \<open>list_static\<close>.
  \<^item> The back ends of the operating systems (\<^verbatim>\<open>external_interface\<close>), which wrap calls of the
    systems, the delegates (a third-party library) and the applications.
  \<^item> Of \<^verbatim>\<open>wiselib.testing\<close>: AODV, DYMO, TORA, OLSR and the routing variants over neighbour
    discovery, the remaining containers and codecs, which come next; the 6LoWPAN stack, CoAP, block memory with B+ trees, tuple
    store and RDF queries, clustering, colouring, topology control, localization, tracking, time
    synchronization, neighbour discovery, elliptic curves over binary fields and the protocols over curves, which are as
    large again and not begun.
\<close>

end
